(* ===== verification/Arith_Prelude.thy ===== *)
theory Arith_Prelude
  imports Main "HOL-Library.Word"
begin

text \<open>
  What every theory of the library shares: the result type in which the exceptions of the C++
  code are values (\<open>res\<close>, with the failing checks of \<^verbatim>\<open>include/pypto/core/logging.h\<close> and signed
  overflow as error values), the 64-bit integer range with its checked operations, the C++
  division that rounds towards zero, and the generic facts on integer division the component
  theories use. The two fact collections are \<open>i64_simps\<close> (unfolding of the integer limits) and
  \<open>res_simps\<close> (computing with results).
\<close>

named_theorems i64_simps "limits and range tests of 64-bit integers"
named_theorems res_simps "computing with results"

section \<open>Results\<close>

text \<open>
  \<open>ValueError\<close> is a failed \<open>CHECK\<close>, \<open>InternalError\<close> a failed \<open>INTERNAL_CHECK\<close>,
  \<open>TypeError\<close> an explicit throw, \<open>OutOfRange\<close> a lookup with \<open>at\<close> of a missing key;
  \<open>UndefinedBehavior\<close> stands for what the C++ language leaves
  undefined (signed overflow, an out-of-range shift or conversion), \<open>Diverges\<close> for a call that does
  not return.
\<close>

datatype err = ValueError | InternalError | TypeError | OutOfRange | UndefinedBehavior | Diverges

type_synonym 'a res = "err + 'a"

definition res_bind :: "'a res \<Rightarrow> ('a \<Rightarrow> 'b res) \<Rightarrow> 'b res" where
  "res_bind m f = (case m of Inl e \<Rightarrow> Inl e | Inr x \<Rightarrow> f x)"

definition check :: "err \<Rightarrow> bool \<Rightarrow> unit res" where
  "check e b = (if b then Inr () else Inl e)"

lemma res_bind_simps [simp, res_simps]:
  "res_bind (Inl e) f = Inl e"
  "res_bind (Inr x) f = f x"
  by (simp_all add: res_bind_def)

lemma res_bind_cong [fundef_cong]:
  "m = m' \<Longrightarrow> (\<And>x. m' = Inr x \<Longrightarrow> f x = f' x) \<Longrightarrow> res_bind m f = res_bind m' f'"
  by (auto simp: res_bind_def split: sum.splits)

text \<open>For computing: the continuation is only simplified once the result is known.\<close>

lemma res_bind_weak_cong: "m = m' \<Longrightarrow> res_bind m f = res_bind m' f"
  by simp

lemma res_bind_eq_Inr [simp, res_simps]:
  "res_bind m f = Inr y \<longleftrightarrow> (\<exists>x. m = Inr x \<and> f x = Inr y)"
  by (cases m) auto

lemma res_bind_eq_Inl:
  "res_bind m f = Inl e \<longleftrightarrow> m = Inl e \<or> (\<exists>x. m = Inr x \<and> f x = Inl e)"
  by (cases m) auto

lemma res_bindE:
  assumes "res_bind m f = Inr y"
  obtains x where "m = Inr x" and "f x = Inr y"
  using assms by auto

lemma check_simps [simp, res_simps]:
  "check e True = Inr ()"
  "check e False = Inl e"
  "check e b = Inr u \<longleftrightarrow> b"
  by (simp_all add: check_def)

text \<open>A result that is not an error.\<close>

definition is_ok :: "'a res \<Rightarrow> bool" where
  "is_ok m \<longleftrightarrow> (case m of Inl _ \<Rightarrow> False | Inr _ \<Rightarrow> True)"

lemma is_ok_simps [simp]: "is_ok (Inr x)" "\<not> is_ok (Inl e)"
  by (simp_all add: is_ok_def)

lemma is_ok_iff: "is_ok m \<longleftrightarrow> (\<exists>x. m = Inr x)"
  by (cases m) auto

lemma is_ok_bind [simp]: "is_ok (res_bind m f) \<longleftrightarrow> (\<exists>x. m = Inr x \<and> is_ok (f x))"
  by (cases m) auto

text \<open>A loop over a list that stops at the first error.\<close>

fun fold_res :: "('a \<Rightarrow> 's \<Rightarrow> 's res) \<Rightarrow> 'a list \<Rightarrow> 's \<Rightarrow> 's res" where
  "fold_res f [] s = Inr s"
| "fold_res f (x # xs) s = res_bind (f x s) (fold_res f xs)"

section \<open>64-bit integers\<close>

text \<open>
  An \<open>int64_t\<close> is an \<open>int\<close> in the range of \<open>is_i64\<close>; an \<open>uint64_t\<close> one in the range of
  \<open>is_u64\<close>. The arithmetic the sources perform without a guard goes through the checked
  operations below: out of range, signed arithmetic is undefined and unsigned arithmetic wraps.
\<close>

definition INT64_MAX :: int where
  "INT64_MAX = 9223372036854775807"

definition INT64_MIN :: int where
  "INT64_MIN = - 9223372036854775808"

definition UINT64_MAX :: int where
  "UINT64_MAX = 18446744073709551615"

lemmas limits_defs [i64_simps] = INT64_MAX_def INT64_MIN_def UINT64_MAX_def

definition is_i64 :: "int \<Rightarrow> bool" where
  "is_i64 x \<longleftrightarrow> INT64_MIN \<le> x \<and> x \<le> INT64_MAX"

definition is_u64 :: "int \<Rightarrow> bool" where
  "is_u64 x \<longleftrightarrow> 0 \<le> x \<and> x \<le> UINT64_MAX"

lemma is_i64_alt [i64_simps]:
  "is_i64 x \<longleftrightarrow> - 9223372036854775808 \<le> x \<and> x \<le> 9223372036854775807"
  by (simp add: is_i64_def limits_defs)

lemma is_u64_alt [i64_simps]: "is_u64 x \<longleftrightarrow> 0 \<le> x \<and> x \<le> 18446744073709551615"
  by (simp add: is_u64_def limits_defs)

text \<open>A signed result: its value in range, undefined otherwise.\<close>

definition i64 :: "int \<Rightarrow> int res" where
  "i64 x = (if is_i64 x then Inr x else Inl UndefinedBehavior)"

text \<open>An unsigned result modulo \<open>2 ^ 64\<close>, and the conversion of an unsigned value to a signed one.\<close>

definition u64 :: "int \<Rightarrow> int" where
  "u64 x = x mod 18446744073709551616"

definition to_i64 :: "int \<Rightarrow> int" where
  "to_i64 x = (let y = u64 x in if y \<le> INT64_MAX then y else y - 18446744073709551616)"

lemma i64_simps' [simp]:
  "i64 x = Inr y \<longleftrightarrow> is_i64 x \<and> y = x"
  "is_ok (i64 x) \<longleftrightarrow> is_i64 x"
  "is_i64 x \<Longrightarrow> i64 x = Inr x"
  by (auto simp: i64_def)

lemma u64_of_i64: "is_i64 x \<Longrightarrow> u64 x = (if x < 0 then x + 18446744073709551616 else x)"
proof -
  assume x: "is_i64 x"
  show ?thesis
  proof (cases "x < 0")
    case True
    have "u64 x = (x + 18446744073709551616) mod 18446744073709551616"
      by (simp add: u64_def)
    also have "\<dots> = x + 18446744073709551616"
      using x True by (intro mod_pos_pos_trivial) (auto simp: is_i64_alt)
    finally show ?thesis using True by simp
  next
    case False
    with x show ?thesis by (auto simp: u64_def is_i64_alt intro!: mod_pos_pos_trivial)
  qed
qed

lemma to_i64_id [simp]: "is_i64 x \<Longrightarrow> to_i64 x = x"
  by (auto simp: to_i64_def u64_of_i64 Let_def is_i64_alt INT64_MAX_def)

lemma to_i64_range: "is_i64 (to_i64 x)"
proof -
  have "0 \<le> u64 x" and "u64 x < 18446744073709551616"
    by (auto simp: u64_def)
  then show ?thesis by (auto simp: to_i64_def Let_def i64_simps)
qed

lemma pow2_i64: "n < 63 \<Longrightarrow> is_i64 (2 ^ n)"
proof -
  assume "n < 63"
  then have "(2::int) ^ n < 9223372036854775808"
    using power_strict_increasing [of n 63 "2::int"] by simp
  moreover have "(0::int) \<le> 2 ^ n" by simp
  ultimately show ?thesis unfolding is_i64_alt by linarith
qed

section \<open>C++ division and remainder\<close>

text \<open>Both truncate towards zero; the remainder has the sign of the dividend.\<close>

definition cdiv :: "int \<Rightarrow> int \<Rightarrow> int" where
  "cdiv a b = sgn a * sgn b * (\<bar>a\<bar> div \<bar>b\<bar>)"

definition cmod :: "int \<Rightarrow> int \<Rightarrow> int" where
  "cmod a b = sgn a * (\<bar>a\<bar> mod \<bar>b\<bar>)"

lemma cdiv_cmod: "cdiv a b * b + cmod a b = a"
proof -
  have "cdiv a b * b = sgn a * (\<bar>a\<bar> div \<bar>b\<bar> * (b * sgn b))"
    by (simp add: cdiv_def ac_simps)
  then have "cdiv a b * b = sgn a * (\<bar>a\<bar> div \<bar>b\<bar> * \<bar>b\<bar>)"
    by (simp only: abs_sgn [symmetric])
  then have "cdiv a b * b + cmod a b = sgn a * (\<bar>a\<bar> div \<bar>b\<bar> * \<bar>b\<bar> + \<bar>a\<bar> mod \<bar>b\<bar>)"
    by (simp only: cmod_def distrib_left)
  then show ?thesis by (simp only: div_mult_mod_eq mult_sgn_abs)
qed

lemma cdiv_nonneg [simp]: "0 \<le> a \<Longrightarrow> 0 \<le> b \<Longrightarrow> cdiv a b = a div b"
  by (cases "a = 0"; cases "b = 0") (auto simp: cdiv_def)

lemma cmod_nonneg [simp]: "0 \<le> a \<Longrightarrow> 0 \<le> b \<Longrightarrow> cmod a b = a mod b"
  by (cases "a = 0") (auto simp: cmod_def)

lemma cmod_eq_0_iff: "cmod a b = 0 \<longleftrightarrow> b dvd a"
  by (auto simp: cmod_def sgn_eq_0_iff dvd_eq_mod_eq_0 [symmetric])

lemma cmod_abs_less: "b \<noteq> 0 \<Longrightarrow> \<bar>cmod a b\<bar> < \<bar>b\<bar>"
  by (cases "a = 0") (auto simp: cmod_def abs_mult abs_sgn_eq)

lemma cdiv_dvd: "b dvd a \<Longrightarrow> cdiv a b = a div b"
  using cdiv_cmod [of a b] by (cases "b = 0") (auto simp: cmod_eq_0_iff [THEN iffD2] cdiv_def)

section \<open>Floor division\<close>

lemma floor_div_unique:
  fixes a b q :: int
  assumes "b * q \<le> a" and "a < b * q + b"
  shows "a div b = q"
  using assms by (intro int_div_pos_eq [of a b q "a - b * q"]) auto

lemma le_div_iff_mult:
  fixes a b n :: int
  assumes "0 < b"
  shows "a \<le> n div b \<longleftrightarrow> a * b \<le> n"
proof
  assume "a \<le> n div b"
  then have "a * b \<le> n div b * b" using assms by (simp add: mult_right_mono)
  also have "\<dots> \<le> n" using pos_mod_sign [OF assms, of n] div_mult_mod_eq [of n b] by linarith
  finally show "a * b \<le> n" .
next
  assume "a * b \<le> n"
  then have "(a * b) div b \<le> n div b" using assms by (rule zdiv_mono1)
  then show "a \<le> n div b" using assms by simp
qed

lemma div_less_iff_mult: "(0::int) < b \<Longrightarrow> n div b < a \<longleftrightarrow> n < a * b"
  using le_div_iff_mult [of b a n] by linarith

lemma div_le_mono_int: "(0::int) < b \<Longrightarrow> a \<le> a' \<Longrightarrow> a div b \<le> a' div b"
  by (rule zdiv_mono1) auto

lemma div_antimono_divisor: "(0::int) \<le> a \<Longrightarrow> 0 < b \<Longrightarrow> b \<le> b' \<Longrightarrow> a div b' \<le> a div b"
  by (rule zdiv_mono2) auto

lemma div_mono_divisor_neg: "a < 0 \<Longrightarrow> (0::int) < b \<Longrightarrow> b \<le> b' \<Longrightarrow> a div b \<le> a div b'"
  by (rule zdiv_mono2_neg) auto

end
