(* ===== verification/DType.thy ===== *)
theory DType
  imports Arith_Prelude
begin

text \<open>
  The class \<open>DataType\<close> of \<^verbatim>\<open>include/pypto/core/dtype.h\<close>: a data type is its 8-bit type code, the
  codes are grouped in ranges, and the predicates test the ranges. \<open>ConstIntFitsDtype\<close> of
  \<^verbatim>\<open>include/pypto/ir/arith/const_fold.h\<close> (whether a stored literal is representable in its data
  type) is here because every component asks it. The collection \<open>dtype_defs\<close> unfolds the named
  codes.
\<close>

named_theorems dtype_defs "type codes of the named data types"

type_synonym DataType = "8 word"

section \<open>Type codes\<close>

definition kBoolCode :: DataType where "kBoolCode = 0x00"
definition kSignedIntRangeStart :: DataType where "kSignedIntRangeStart = 0x10"
definition kInt4Code :: DataType where "kInt4Code = 0x10"
definition kInt8Code :: DataType where "kInt8Code = 0x11"
definition kInt16Code :: DataType where "kInt16Code = 0x12"
definition kInt32Code :: DataType where "kInt32Code = 0x13"
definition kInt64Code :: DataType where "kInt64Code = 0x14"
definition kIndexCode :: DataType where "kIndexCode = 0x15"
definition kSignedIntRangeEnd :: DataType where "kSignedIntRangeEnd = 0x1F"
definition kUnsignedIntRangeStart :: DataType where "kUnsignedIntRangeStart = 0x20"
definition kUInt4Code :: DataType where "kUInt4Code = 0x20"
definition kUInt8Code :: DataType where "kUInt8Code = 0x21"
definition kUInt16Code :: DataType where "kUInt16Code = 0x22"
definition kUInt32Code :: DataType where "kUInt32Code = 0x23"
definition kUInt64Code :: DataType where "kUInt64Code = 0x24"
definition kUnsignedIntRangeEnd :: DataType where "kUnsignedIntRangeEnd = 0x2F"
definition kIeeeFloatRangeStart :: DataType where "kIeeeFloatRangeStart = 0x31"
definition kFp8e4m3fnCode :: DataType where "kFp8e4m3fnCode = 0x31"
definition kFp8e5m2Code :: DataType where "kFp8e5m2Code = 0x32"
definition kFp16Code :: DataType where "kFp16Code = 0x33"
definition kFp32Code :: DataType where "kFp32Code = 0x34"
definition kFp64Code :: DataType where "kFp64Code = 0x35"
definition kFp8e8m0Code :: DataType where "kFp8e8m0Code = 0x36"
definition kFp4e2m1x2Code :: DataType where "kFp4e2m1x2Code = 0x37"
definition kFp4e1m2x2Code :: DataType where "kFp4e1m2x2Code = 0x38"
definition kIeeeFloatRangeEnd :: DataType where "kIeeeFloatRangeEnd = 0x3F"
definition kBrainFloatRangeStart :: DataType where "kBrainFloatRangeStart = 0x40"
definition kBf16Code :: DataType where "kBf16Code = 0x40"
definition kHf4Code :: DataType where "kHf4Code = 0x41"
definition kHf8Code :: DataType where "kHf8Code = 0x42"
definition kBrainFloatRangeEnd :: DataType where "kBrainFloatRangeEnd = 0x4F"
definition kTaskIdCode :: DataType where "kTaskIdCode = 0x50"

lemmas code_defs [dtype_defs] =
  kBoolCode_def kSignedIntRangeStart_def kInt4Code_def kInt8Code_def kInt16Code_def
  kInt32Code_def kInt64Code_def kIndexCode_def kSignedIntRangeEnd_def
  kUnsignedIntRangeStart_def kUInt4Code_def kUInt8Code_def kUInt16Code_def kUInt32Code_def
  kUInt64Code_def kUnsignedIntRangeEnd_def kIeeeFloatRangeStart_def kFp8e4m3fnCode_def
  kFp8e5m2Code_def kFp16Code_def kFp32Code_def kFp64Code_def kFp8e8m0Code_def
  kFp4e2m1x2Code_def kFp4e1m2x2Code_def kIeeeFloatRangeEnd_def kBrainFloatRangeStart_def
  kBf16Code_def kHf4Code_def kHf8Code_def kBrainFloatRangeEnd_def kTaskIdCode_def

text \<open>The named data types.\<close>

definition BOOL :: DataType where "BOOL = kBoolCode"
definition INT4 :: DataType where "INT4 = kInt4Code"
definition INT8 :: DataType where "INT8 = kInt8Code"
definition INT16 :: DataType where "INT16 = kInt16Code"
definition INT32 :: DataType where "INT32 = kInt32Code"
definition INT64 :: DataType where "INT64 = kInt64Code"
definition UINT4 :: DataType where "UINT4 = kUInt4Code"
definition UINT8 :: DataType where "UINT8 = kUInt8Code"
definition UINT16 :: DataType where "UINT16 = kUInt16Code"
definition UINT32 :: DataType where "UINT32 = kUInt32Code"
definition UINT64 :: DataType where "UINT64 = kUInt64Code"
definition FP4E2M1X2 :: DataType where "FP4E2M1X2 = kFp4e2m1x2Code"
definition FP4E1M2X2 :: DataType where "FP4E1M2X2 = kFp4e1m2x2Code"
definition FP8E4M3FN :: DataType where "FP8E4M3FN = kFp8e4m3fnCode"
definition FP8E5M2 :: DataType where "FP8E5M2 = kFp8e5m2Code"
definition FP8E8M0 :: DataType where "FP8E8M0 = kFp8e8m0Code"
definition FP16 :: DataType where "FP16 = kFp16Code"
definition FP32 :: DataType where "FP32 = kFp32Code"
definition BF16 :: DataType where "BF16 = kBf16Code"
definition HF4 :: DataType where "HF4 = kHf4Code"
definition HF8 :: DataType where "HF8 = kHf8Code"
definition INDEX :: DataType where "INDEX = kIndexCode"
definition TASK_ID :: DataType where "TASK_ID = kTaskIdCode"

lemmas dtype_names [dtype_defs] =
  BOOL_def INT4_def INT8_def INT16_def INT32_def INT64_def UINT4_def UINT8_def UINT16_def
  UINT32_def UINT64_def FP4E2M1X2_def FP4E1M2X2_def FP8E4M3FN_def FP8E5M2_def FP8E8M0_def
  FP16_def FP32_def BF16_def HF4_def HF8_def INDEX_def TASK_ID_def

section \<open>Sizes and classes\<close>

definition GetBit :: "DataType \<Rightarrow> nat" where
  "GetBit c =
     (if c = kBoolCode then 1
      else if c = kHf4Code \<or> c = kUInt4Code \<or> c = kInt4Code then 4
      else if c = kHf8Code \<or> c = kFp8e4m3fnCode \<or> c = kFp8e5m2Code \<or> c = kFp8e8m0Code
        \<or> c = kFp4e2m1x2Code \<or> c = kFp4e1m2x2Code \<or> c = kUInt8Code \<or> c = kInt8Code then 8
      else if c = kBf16Code \<or> c = kFp16Code \<or> c = kUInt16Code \<or> c = kInt16Code then 16
      else if c = kFp32Code \<or> c = kUInt32Code \<or> c = kInt32Code then 32
      else if c = kUInt64Code \<or> c = kInt64Code \<or> c = kIndexCode \<or> c = kTaskIdCode then 64
      else 0)"

definition GetByte :: "DataType \<Rightarrow> nat" where
  "GetByte c = (GetBit c + 7) div 8"

definition IsFloat :: "DataType \<Rightarrow> bool" where
  "IsFloat c \<longleftrightarrow>
     (kIeeeFloatRangeStart \<le> c \<and> c \<le> kIeeeFloatRangeEnd) \<or>
     (kBrainFloatRangeStart \<le> c \<and> c \<le> kBrainFloatRangeEnd)"

definition IsSignedInt :: "DataType \<Rightarrow> bool" where
  "IsSignedInt c \<longleftrightarrow> kSignedIntRangeStart \<le> c \<and> c \<le> kSignedIntRangeEnd"

definition IsUnsignedInt :: "DataType \<Rightarrow> bool" where
  "IsUnsignedInt c \<longleftrightarrow> kUnsignedIntRangeStart \<le> c \<and> c \<le> kUnsignedIntRangeEnd"

definition IsInt :: "DataType \<Rightarrow> bool" where
  "IsInt c \<longleftrightarrow> IsSignedInt c \<or> IsUnsignedInt c"

definition IsIndexLike :: "DataType \<Rightarrow> bool" where
  "IsIndexLike c \<longleftrightarrow> c = INT64 \<or> c = UINT64 \<or> c = INDEX"

definition IsPackedFp4 :: "DataType \<Rightarrow> bool" where
  "IsPackedFp4 c \<longleftrightarrow> c = kFp4e2m1x2Code \<or> c = kFp4e1m2x2Code"

definition ToString :: "DataType \<Rightarrow> string" where
  "ToString c =
     (if c = kInt4Code then ''int4''
      else if c = kInt8Code then ''int8''
      else if c = kInt16Code then ''int16''
      else if c = kInt32Code then ''int32''
      else if c = kInt64Code then ''int64''
      else if c = kIndexCode then ''index''
      else if c = kUInt4Code then ''uint4''
      else if c = kUInt8Code then ''uint8''
      else if c = kUInt16Code then ''uint16''
      else if c = kUInt32Code then ''uint32''
      else if c = kUInt64Code then ''uint64''
      else if c = kFp4e2m1x2Code then ''fp4e2m1x2''
      else if c = kFp4e1m2x2Code then ''fp4e1m2x2''
      else if c = kFp8e4m3fnCode then ''fp8e4m3fn''
      else if c = kFp8e5m2Code then ''fp8e5m2''
      else if c = kFp8e8m0Code then ''fp8e8m0''
      else if c = kFp16Code then ''fp16''
      else if c = kFp32Code then ''fp32''
      else if c = kBf16Code then ''bfloat16''
      else if c = kHf4Code then ''hf4''
      else if c = kHf8Code then ''hf8''
      else if c = kBoolCode then ''bool''
      else if c = kTaskIdCode then ''task_id''
      else ''unknown'')"

definition ToCTypeString :: "DataType \<Rightarrow> string" where
  "ToCTypeString c =
     (if c = kBoolCode then ''bool''
      else if c = kInt8Code then ''int8_t''
      else if c = kInt16Code then ''int16_t''
      else if c = kInt32Code then ''int32_t''
      else if c = kInt64Code \<or> c = kIndexCode then ''int64_t''
      else if c = kUInt8Code then ''uint8_t''
      else if c = kUInt16Code then ''uint16_t''
      else if c = kUInt32Code then ''uint32_t''
      else if c = kUInt64Code then ''uint64_t''
      else if c = kFp16Code then ''half''
      else if c = kFp32Code then ''float''
      else if c = kFp64Code then ''double''
      else if c = kBf16Code then ''bfloat16_t''
      else if c = kFp8e4m3fnCode then ''float8_e4m3_t''
      else if c = kFp8e5m2Code then ''float8_e5m2_t''
      else if c = kFp8e8m0Code then ''float8_e8m0_t''
      else if c = kFp4e2m1x2Code then ''float4_e2m1x2_t''
      else if c = kFp4e1m2x2Code then ''float4_e1m2x2_t''
      else ''unknown'')"

definition DataTypeToString :: "DataType \<Rightarrow> string" where
  "DataTypeToString d =
     (if d = BOOL then ''BOOL'' else if d = INT4 then ''INT4'' else if d = INT8 then ''INT8''
      else if d = INT16 then ''INT16'' else if d = INT32 then ''INT32''
      else if d = INDEX then ''INDEX'' else if d = INT64 then ''INT64''
      else if d = UINT4 then ''UINT4'' else if d = UINT8 then ''UINT8''
      else if d = UINT16 then ''UINT16'' else if d = UINT32 then ''UINT32''
      else if d = UINT64 then ''UINT64'' else if d = FP4E2M1X2 then ''FP4E2M1X2''
      else if d = FP4E1M2X2 then ''FP4E1M2X2'' else if d = FP8E4M3FN then ''FP8E4M3FN''
      else if d = FP8E5M2 then ''FP8E5M2'' else if d = FP8E8M0 then ''FP8E8M0''
      else if d = FP16 then ''FP16'' else if d = FP32 then ''FP32'' else if d = BF16 then ''BF16''
      else if d = HF4 then ''HF4'' else if d = HF8 then ''HF8''
      else if d = TASK_ID then ''TASK_ID'' else ''UnknownType'')"

text \<open>\<open>detail::ConstIntFitsDtype\<close>: whether a value is exactly representable in a data type.\<close>

definition ConstIntFitsDtype :: "int \<Rightarrow> DataType \<Rightarrow> bool" where
  "ConstIntFitsDtype v d =
     (if d = INDEX then True
      else let bits = GetBit d in
        if bits = 0 \<or> bits > 64 then False
        else if IsUnsignedInt d then
          (if v < 0 then False else if bits \<ge> 64 then True else v \<le> 2 ^ bits - 1)
        else if bits \<ge> 64 then True
        else let limit = 2 ^ (bits - 1) in v \<ge> - limit \<and> v \<le> limit - 1)"

section \<open>Facts\<close>

text \<open>The classes are disjoint, so a data type is at most one of boolean, integer and float.\<close>

lemma float_not_int: "IsFloat c \<Longrightarrow> \<not> IsInt c"
  by (auto simp: IsFloat_def IsInt_def IsSignedInt_def IsUnsignedInt_def code_defs word_le_nat_alt)

lemma signed_not_unsigned: "IsSignedInt c \<Longrightarrow> \<not> IsUnsignedInt c"
  by (auto simp: IsSignedInt_def IsUnsignedInt_def code_defs word_le_nat_alt)

lemma GetBit_named [simp]:
  "GetBit BOOL = 1" "GetBit INT8 = 8" "GetBit INT16 = 16" "GetBit INT32 = 32" "GetBit INT64 = 64"
  "GetBit INDEX = 64" "GetBit UINT8 = 8" "GetBit UINT64 = 64" "GetBit FP32 = 32"
  by (simp_all add: GetBit_def dtype_defs)

lemma IsInt_named [simp]:
  "IsInt INT8" "IsInt INT16" "IsInt INT32" "IsInt INT64" "IsInt INDEX" "IsInt UINT8" "IsInt UINT64"
  "\<not> IsInt BOOL" "\<not> IsInt FP32"
  by (simp_all add: IsInt_def IsSignedInt_def IsUnsignedInt_def dtype_defs)

lemma IsUnsignedInt_named [simp]:
  "\<not> IsUnsignedInt INT8" "\<not> IsUnsignedInt INT16" "\<not> IsUnsignedInt INT32" "\<not> IsUnsignedInt INT64"
  "\<not> IsUnsignedInt INDEX" "IsUnsignedInt UINT8" "IsUnsignedInt UINT64"
  by (simp_all add: IsUnsignedInt_def dtype_defs)

lemma IsFloat_named [simp]:
  "\<not> IsFloat INT8" "\<not> IsFloat INT16" "\<not> IsFloat INT32" "\<not> IsFloat INT64" "\<not> IsFloat INDEX"
  "\<not> IsFloat UINT8" "\<not> IsFloat UINT64" "\<not> IsFloat BOOL" "IsFloat FP32"
  by (simp_all add: IsFloat_def dtype_defs)

lemma int_not_bool: "IsInt d \<Longrightarrow> d \<noteq> BOOL"
  by auto

text \<open>Apart from integers and floating-point types, only booleans and task identifiers have a width.\<close>

lemma other_types:
  assumes "\<not> IsInt d" and "\<not> IsFloat d" and "GetBit d \<noteq> 0"
  shows "d = BOOL \<or> d = TASK_ID"
proof -
  let ?codes = "[kBoolCode, kHf4Code, kUInt4Code, kInt4Code, kHf8Code, kFp8e4m3fnCode, kFp8e5m2Code, kFp8e8m0Code,
    kFp4e2m1x2Code, kFp4e1m2x2Code, kUInt8Code, kInt8Code, kBf16Code, kFp16Code, kUInt16Code, kInt16Code,
    kFp32Code, kUInt32Code, kInt32Code, kUInt64Code, kInt64Code, kIndexCode, kTaskIdCode]"
  have "d \<in> set ?codes" using assms(3) by (auto simp: GetBit_def split: if_splits)
  moreover have "list_all (\<lambda>c. IsInt c \<or> IsFloat c \<or> c = BOOL \<or> c = TASK_ID) ?codes"
    by code_simp
  ultimately show ?thesis using assms(1,2) by (auto simp only: list_all_iff)
qed

lemma fits_INDEX [simp]: "ConstIntFitsDtype v INDEX"
  by (simp add: ConstIntFitsDtype_def)

lemma GetBit_le_64: "GetBit c \<le> 64"
  by (simp add: GetBit_def)

text \<open>A value between two representable values is representable.\<close>

lemma ConstIntFitsDtype_between:
  assumes "ConstIntFitsDtype lo d" and "ConstIntFitsDtype hi d" and "lo \<le> v" and "v \<le> hi"
  shows "ConstIntFitsDtype v d"
  using assms by (auto simp: ConstIntFitsDtype_def Let_def split: if_splits)

text \<open>
  The reserved code for double precision has a C type name but neither a name nor a width.
\<close>

lemma reserved_fp64:
  "ToCTypeString kFp64Code = ''double'' \<and> ToString kFp64Code = ''unknown'' \<and>
   GetBit kFp64Code = 0 \<and> IsFloat kFp64Code"
  by (simp add: ToCTypeString_def ToString_def GetBit_def IsFloat_def dtype_defs)

end
