(* ===== verification/Expr.thy ===== *)
theory Expr
  imports DType
begin

text \<open>
  Scalar expressions: the node classes of \<^verbatim>\<open>include/pypto/ir/scalar_expr.h\<close> (and the leaves of
  \<^verbatim>\<open>expr.h\<close> the arithmetic module meets) as one datatype, the construction functions \<open>Make*\<close> with
  their operand promotion, and the meaning of an expression.

  Nodes are immutable and shared in the code, so they are values here. A \<open>Var\<close> is identified by
  its address, which is the number it carries; the type of a leaf is \<open>Some\<close> of its data type when
  it is a \<open>ScalarType\<close>. Source spans do not influence any function and are left out. Where the
  code compares the addresses of compound nodes, the model asks \<open>same_ptr\<close> of the parameter
  \<open>host\<close>, of which only \<open>ptr_ok\<close> is assumed: nodes at the same address are the same value. The
  other field of \<open>host\<close> holds the operations of the C++ type \<open>double\<close>, which no integer fact
  depends on.
\<close>

section \<open>Nodes\<close>

datatype binop =
    KAdd | KSub | KMul | KFloorDiv | KFloorMod | KFloatDiv | KMin | KMax | KPow
  | KEq | KNe | KLt | KLe | KGt | KGe | KAnd | KOr | KXor
  | KBitAnd | KBitOr | KBitXor | KBitShiftLeft | KBitShiftRight

datatype unop = KAbs | KNeg | KNot | KBitNot | KCast

datatype 'f expr =
    ConstInt int DataType
  | ConstFloat 'f DataType
  | ConstBool bool
  | Var nat "DataType option"
  | IterArg nat "DataType option"
  | Call string nat "DataType option"
  | Opaque nat "DataType option"
  | Binary binop "'f expr" "'f expr" DataType
  | Unary unop "'f expr" DataType

text \<open>The operations of \<open>double\<close> the folds use, and the identity of node addresses.\<close>

record 'f double_ops =
  d_of_int :: "int \<Rightarrow> 'f"
  d_add :: "'f \<Rightarrow> 'f \<Rightarrow> 'f"
  d_sub :: "'f \<Rightarrow> 'f \<Rightarrow> 'f"
  d_mul :: "'f \<Rightarrow> 'f \<Rightarrow> 'f"
  d_div :: "'f \<Rightarrow> 'f \<Rightarrow> 'f"
  d_pow :: "'f \<Rightarrow> 'f \<Rightarrow> 'f"
  d_neg :: "'f \<Rightarrow> 'f"
  d_fabs :: "'f \<Rightarrow> 'f"
  d_eq :: "'f \<Rightarrow> 'f \<Rightarrow> bool"
  d_lt :: "'f \<Rightarrow> 'f \<Rightarrow> bool"
  d_le :: "'f \<Rightarrow> 'f \<Rightarrow> bool"
  d_isfinite :: "'f \<Rightarrow> bool"
  d_floor :: "'f \<Rightarrow> int"
  d_ceil :: "'f \<Rightarrow> int"

record 'f host =
  dbl :: "'f double_ops"
  same_ptr :: "'f expr \<Rightarrow> 'f expr \<Rightarrow> bool"

definition ptr_ok :: "'f host \<Rightarrow> bool" where
  "ptr_ok H \<longleftrightarrow> (\<forall>a b. same_ptr H a b \<longrightarrow> a = b)"

lemma ptr_okD: "ptr_ok H \<Longrightarrow> same_ptr H a b \<Longrightarrow> a = b"
  by (auto simp: ptr_ok_def)

section \<open>Types\<close>

text \<open>\<open>As<ScalarType>(expr->GetType())\<close>.\<close>

fun scalar_type :: "'f expr \<Rightarrow> DataType option" where
  "scalar_type (ConstInt _ d) = Some d"
| "scalar_type (ConstFloat _ d) = Some d"
| "scalar_type (ConstBool _) = Some BOOL"
| "scalar_type (Var _ t) = t"
| "scalar_type (IterArg _ t) = t"
| "scalar_type (Call _ _ t) = t"
| "scalar_type (Opaque _ t) = t"
| "scalar_type (Binary _ _ _ d) = Some d"
| "scalar_type (Unary _ _ d) = Some d"

definition GetScalarDtype :: "'f expr \<Rightarrow> DataType res" where
  "GetScalarDtype e = (case scalar_type e of Some d \<Rightarrow> Inr d | None \<Rightarrow> Inl TypeError)"

definition float_ty :: "DataType option \<Rightarrow> bool" where
  "float_ty t = (case t of Some d \<Rightarrow> IsFloat d | None \<Rightarrow> False)"

lemma float_ty_simps [simp]: "float_ty (Some d) = IsFloat d" "\<not> float_ty None"
  by (simp_all add: float_ty_def)

datatype ScalarCategory = kInt | kFloat

definition GetNumericCategory :: "DataType \<Rightarrow> ScalarCategory res" where
  "GetNumericCategory d =
     (if IsFloat d then Inr kFloat else if IsInt d then Inr kInt else Inl TypeError)"

definition PromoteSameCategoryDtype :: "DataType \<Rightarrow> DataType \<Rightarrow> DataType res" where
  "PromoteSameCategoryDtype l r =
     (if l = BOOL \<or> r = BOOL then Inl TypeError
      else res_bind (GetNumericCategory l) (\<lambda>lc.
        res_bind (GetNumericCategory r) (\<lambda>rc.
        if lc \<noteq> rc then Inl TypeError
        else if GetBit l > GetBit r then Inr l
        else if GetBit r > GetBit l then Inr r
        else Inr l)))"

section \<open>Construction\<close>

definition MaybeCast :: "'f expr \<Rightarrow> DataType \<Rightarrow> 'f expr res" where
  "MaybeCast e target =
     res_bind (GetScalarDtype e) (\<lambda>d.
       if d = target then Inr e
       else if (d = INDEX \<and> target = INT64) \<or> (d = INT64 \<and> target = INDEX) then Inr e
       else Inr (Unary KCast e target))"

definition PromoteBinaryOperands ::
  "'f expr \<Rightarrow> 'f expr \<Rightarrow> ('f expr \<times> 'f expr \<times> DataType) res" where
  "PromoteBinaryOperands l r =
     res_bind (GetScalarDtype l) (\<lambda>ld.
     res_bind (GetScalarDtype r) (\<lambda>rd.
     res_bind (PromoteSameCategoryDtype ld rd) (\<lambda>p.
     res_bind (MaybeCast l p) (\<lambda>l'.
     res_bind (MaybeCast r p) (\<lambda>r'. Inr (l', r', p))))))"

definition PromoteIntBinaryOperands ::
  "'f expr \<Rightarrow> 'f expr \<Rightarrow> ('f expr \<times> 'f expr \<times> DataType) res" where
  "PromoteIntBinaryOperands l r =
     res_bind (GetScalarDtype l) (\<lambda>ld.
     res_bind (GetScalarDtype r) (\<lambda>rd.
     if \<not> IsInt ld \<or> \<not> IsInt rd then Inl TypeError
     else res_bind (PromoteSameCategoryDtype ld rd) (\<lambda>p.
       res_bind (MaybeCast l p) (\<lambda>l'.
       res_bind (MaybeCast r p) (\<lambda>r'. Inr (l', r', p))))))"

text \<open>
  \<open>MakeAdd\<close> \dots \<open>MakeMax\<close>, \<open>MakeAnd\<close>, \<open>MakeOr\<close> by node kind, and the direct construction of
  \<open>Xor\<close>: arithmetic promotes and keeps the promoted type, comparisons promote and are boolean,
  bitwise operations insist on integers, logical operations neither promote nor check.
\<close>

definition is_arith :: "binop \<Rightarrow> bool" where
  "is_arith k \<longleftrightarrow> k \<in> {KAdd, KSub, KMul, KFloorDiv, KFloorMod, KFloatDiv, KMin, KMax, KPow}"

definition is_compare :: "binop \<Rightarrow> bool" where
  "is_compare k \<longleftrightarrow> k \<in> {KEq, KNe, KLt, KLe, KGt, KGe}"

definition is_logical :: "binop \<Rightarrow> bool" where
  "is_logical k \<longleftrightarrow> k \<in> {KAnd, KOr, KXor}"

definition MakeBinary :: "binop \<Rightarrow> 'f expr \<Rightarrow> 'f expr \<Rightarrow> 'f expr res" where
  "MakeBinary k l r =
     (if is_arith k then
        res_bind (PromoteBinaryOperands l r) (\<lambda>(l', r', d). Inr (Binary k l' r' d))
      else if is_compare k then
        res_bind (PromoteBinaryOperands l r) (\<lambda>(l', r', d). Inr (Binary k l' r' BOOL))
      else if is_logical k then Inr (Binary k l r BOOL)
      else res_bind (PromoteIntBinaryOperands l r) (\<lambda>(l', r', d). Inr (Binary k l' r' d)))"

definition MakeCast :: "'f expr \<Rightarrow> DataType \<Rightarrow> 'f expr" where
  "MakeCast e d = Unary KCast e d"

definition MakeUnary :: "unop \<Rightarrow> 'f expr \<Rightarrow> 'f expr res" where
  "MakeUnary k e =
     (case k of
        KNot \<Rightarrow> Inr (Unary KNot e BOOL)
      | KBitNot \<Rightarrow>
          res_bind (GetScalarDtype e) (\<lambda>d.
            if IsInt d then Inr (Unary KBitNot e d) else Inl TypeError)
      | _ \<Rightarrow> res_bind (GetScalarDtype e) (\<lambda>d. Inr (Unary k e d)))"

section \<open>Values\<close>

text \<open>
  The value of an integer or boolean expression, a mathematical integer; truth values are 0 and
  1. There is no value (\<open>None\<close>) for floating-point expressions, for a division by zero, a
  negative exponent, a shift that leaves the 64-bit range, and a logical operation on operands
  that are not truth values. The environment gives the values of variables and of calls, and
  what a conversion does to a value: \<open>cast_id\<close> keeps it (the mathematical reading of a
  conversion; to a boolean only truth values convert), \<open>cast_exact\<close> is defined only where an
  integer data type represents it, \<open>cast_wrap\<close> wraps it to the width of the data type.
\<close>

record env =
  vval :: "nat \<Rightarrow> int option"
  cval :: "string \<Rightarrow> nat \<Rightarrow> int option"
  oval :: "nat \<Rightarrow> int option"
  ccast :: "DataType \<Rightarrow> int \<Rightarrow> int option"

definition cast_id :: "DataType \<Rightarrow> int \<Rightarrow> int option" where
  "cast_id d x = (if d = BOOL \<longrightarrow> x = 0 \<or> x = 1 then Some x else None)"

definition cast_exact :: "DataType \<Rightarrow> int \<Rightarrow> int option" where
  "cast_exact d x = (if IsInt d \<and> ConstIntFitsDtype x d then Some x else None)"

definition cast_wrap :: "DataType \<Rightarrow> int \<Rightarrow> int option" where
  "cast_wrap d x =
     (if \<not> IsInt d \<or> GetBit d = 0 then None
      else if IsUnsignedInt d then Some (x mod 2 ^ GetBit d)
      else Some ((x + 2 ^ (GetBit d - 1)) mod 2 ^ GetBit d - 2 ^ (GetBit d - 1)))"

definition is_truth :: "int \<Rightarrow> bool" where
  "is_truth x \<longleftrightarrow> x = 0 \<or> x = 1"

definition guarded :: "bool \<Rightarrow> 'a \<Rightarrow> 'a option" where
  "guarded b x = (if b then Some x else None)"

lemma guarded_simps [simp]: "guarded True x = Some x" "guarded False x = None"
  "guarded b x = Some y \<longleftrightarrow> b \<and> x = y" "guarded b x = None \<longleftrightarrow> \<not> b"
  by (auto simp: guarded_def)

fun bin_val :: "binop \<Rightarrow> int \<Rightarrow> int \<Rightarrow> int option" where
  "bin_val KAdd x y = Some (x + y)"
| "bin_val KSub x y = Some (x - y)"
| "bin_val KMul x y = Some (x * y)"
| "bin_val KFloorDiv x y = guarded (y \<noteq> 0) (x div y)"
| "bin_val KFloorMod x y = guarded (y \<noteq> 0) (x mod y)"
| "bin_val KFloatDiv x y = None"
| "bin_val KMin x y = Some (min x y)"
| "bin_val KMax x y = Some (max x y)"
| "bin_val KPow x y = guarded (0 \<le> y) (x ^ nat y)"
| "bin_val KEq x y = Some (of_bool (x = y))"
| "bin_val KNe x y = Some (of_bool (x \<noteq> y))"
| "bin_val KLt x y = Some (of_bool (x < y))"
| "bin_val KLe x y = Some (of_bool (x \<le> y))"
| "bin_val KGt x y = Some (of_bool (x > y))"
| "bin_val KGe x y = Some (of_bool (x \<ge> y))"
| "bin_val KAnd x y = guarded (is_truth x \<and> is_truth y) (x * y)"
| "bin_val KOr x y = guarded (is_truth x \<and> is_truth y) (max x y)"
| "bin_val KXor x y = guarded (is_truth x \<and> is_truth y) (of_bool (x \<noteq> y))"
| "bin_val KBitAnd x y = Some (and x y)"
| "bin_val KBitOr x y = Some (or x y)"
| "bin_val KBitXor x y = Some (xor x y)"
| "bin_val KBitShiftLeft x y = guarded (0 \<le> y \<and> y < 64 \<and> is_i64 (x * 2 ^ nat y)) (x * 2 ^ nat y)"
| "bin_val KBitShiftRight x y = guarded (0 \<le> y \<and> y < 64) (x div 2 ^ nat y)"

fun un_val :: "env \<Rightarrow> unop \<Rightarrow> DataType \<Rightarrow> int \<Rightarrow> int option" where
  "un_val \<rho> KAbs d x = Some \<bar>x\<bar>"
| "un_val \<rho> KNeg d x = Some (- x)"
| "un_val \<rho> KNot d x = guarded (is_truth x) (1 - x)"
| "un_val \<rho> KBitNot d x = Some (not x)"
| "un_val \<rho> KCast d x = ccast \<rho> d x"

primrec eval :: "env \<Rightarrow> 'f expr \<Rightarrow> int option" where
  "eval \<rho> (ConstInt v d) = guarded (\<not> IsFloat d) v"
| "eval \<rho> (ConstFloat v d) = None"
| "eval \<rho> (ConstBool b) = Some (of_bool b)"
| "eval \<rho> (Var i t) = (if float_ty t then None else vval \<rho> i)"
| "eval \<rho> (IterArg i t) = (if float_ty t then None else vval \<rho> i)"
| "eval \<rho> (Call f i t) = (if float_ty t then None else cval \<rho> f i)"
| "eval \<rho> (Opaque i t) = (if float_ty t then None else oval \<rho> i)"
| "eval \<rho> (Binary k a b d) =
     (if IsFloat d then None
      else Option.bind (eval \<rho> a) (\<lambda>x. Option.bind (eval \<rho> b) (bin_val k x)))"
| "eval \<rho> (Unary k a d) =
     (if IsFloat d then None else Option.bind (eval \<rho> a) (un_val \<rho> k d))"

text \<open>Stored literals are 64-bit integers.\<close>

primrec wf_expr :: "'f expr \<Rightarrow> bool" where
  "wf_expr (ConstInt v d) = is_i64 v"
| "wf_expr (ConstFloat v d) = True"
| "wf_expr (ConstBool b) = True"
| "wf_expr (Var i t) = True"
| "wf_expr (IterArg i t) = True"
| "wf_expr (Call f i t) = True"
| "wf_expr (Opaque i t) = True"
| "wf_expr (Binary k a b d) = (wf_expr a \<and> wf_expr b)"
| "wf_expr (Unary k a d) = wf_expr a"

text \<open>A property of the value of an expression and of all its operands.\<close>

primrec all_vals :: "(int \<Rightarrow> bool) \<Rightarrow> env \<Rightarrow> 'f expr \<Rightarrow> bool" where
  "all_vals P \<rho> (ConstInt v d) = pred_option P (eval \<rho> (ConstInt v d :: 'f expr))"
| "all_vals P \<rho> (ConstFloat v d) = True"
| "all_vals P \<rho> (ConstBool b) = P (of_bool b)"
| "all_vals P \<rho> (Var i t) = pred_option P (eval \<rho> (Var i t :: 'f expr))"
| "all_vals P \<rho> (IterArg i t) = pred_option P (eval \<rho> (IterArg i t :: 'f expr))"
| "all_vals P \<rho> (Call f i t) = pred_option P (eval \<rho> (Call f i t :: 'f expr))"
| "all_vals P \<rho> (Opaque i t) = pred_option P (eval \<rho> (Opaque i t :: 'f expr))"
| "all_vals P \<rho> (Binary k a b d) =
     (all_vals P \<rho> a \<and> all_vals P \<rho> b \<and> pred_option P (eval \<rho> (Binary k a b d)))"
| "all_vals P \<rho> (Unary k a d) = (all_vals P \<rho> a \<and> pred_option P (eval \<rho> (Unary k a d)))"

lemma eval_BinaryE:
  assumes "eval \<rho> (Binary k a b d) = Some v"
  obtains x y where "eval \<rho> a = Some x" and "eval \<rho> b = Some y" and "bin_val k x y = Some v"
    and "\<not> IsFloat d"
  using assms by (auto simp: bind_eq_Some_conv split: if_splits)

lemma eval_UnaryE:
  assumes "eval \<rho> (Unary k a d) = Some v"
  obtains x where "eval \<rho> a = Some x" and "un_val \<rho> k d x = Some v" and "\<not> IsFloat d"
  using assms by (auto simp: bind_eq_Some_conv split: if_splits)

lemma all_vals_eval: "all_vals P \<rho> e \<Longrightarrow> eval \<rho> e = Some v \<Longrightarrow> P v"
  by (cases e) (auto split: if_splits)

text \<open>An expression with a value is not of a floating-point type.\<close>

lemma eval_not_float: "eval \<rho> e = Some v \<Longrightarrow> \<not> float_ty (scalar_type e)"
  by (cases e) (auto split: if_splits simp: IsFloat_named)

lemma eval_dtype: "eval \<rho> e = Some v \<Longrightarrow> GetScalarDtype e = Inr d \<Longrightarrow> \<not> IsFloat d"
  using eval_not_float [of \<rho> e v] by (auto simp: GetScalarDtype_def split: option.splits)

text \<open>
  Construction computes the operation on the values of its operands, in an environment whose
  conversions keep the value: the operand promotion inserts conversions, never to a boolean.
\<close>

definition exact_casts :: "env \<Rightarrow> bool" where
  "exact_casts \<rho> \<longleftrightarrow> ccast \<rho> = cast_id"

lemma exact_casts_cast [simp]: "exact_casts \<rho> \<Longrightarrow> d \<noteq> BOOL \<Longrightarrow> ccast \<rho> d x = Some x"
  by (simp add: exact_casts_def cast_id_def)

text \<open>
  Where conversions may wrap or do anything else, an expression is \<open>lossless\<close> when no conversion that its evaluation
  meets has another result than the mathematical one. Its value is then that of the mathematical reading.
\<close>

definition mathematical :: "env \<Rightarrow> env" where
  "mathematical \<rho> = \<rho>\<lparr>ccast := cast_id\<rparr>"

primrec lossless :: "env \<Rightarrow> 'f expr \<Rightarrow> bool" where
  "lossless \<rho> (ConstInt v d) = True"
| "lossless \<rho> (ConstFloat v d) = True"
| "lossless \<rho> (ConstBool b) = True"
| "lossless \<rho> (Var i t) = True"
| "lossless \<rho> (IterArg i t) = True"
| "lossless \<rho> (Call f i t) = True"
| "lossless \<rho> (Opaque i t) = True"
| "lossless \<rho> (Binary k a b d) = (lossless \<rho> a \<and> lossless \<rho> b)"
| "lossless \<rho> (Unary k a d) =
     (lossless \<rho> a \<and>
      (k = KCast \<longrightarrow> pred_option (\<lambda>x. ccast \<rho> d x = cast_id d x) (eval \<rho> a)))"

lemma mathematical_simps [simp]:
  "vval (mathematical \<rho>) = vval \<rho>" "cval (mathematical \<rho>) = cval \<rho>" "oval (mathematical \<rho>) = oval \<rho>"
  "ccast (mathematical \<rho>) = cast_id" "exact_casts (mathematical \<rho>)"
  by (simp_all add: mathematical_def exact_casts_def)

lemma mathematical_exact: "exact_casts \<rho> \<Longrightarrow> mathematical \<rho> = \<rho>"
  by (simp add: mathematical_def exact_casts_def)

lemma un_val_mathematical: "k \<noteq> KCast \<Longrightarrow> un_val (mathematical \<rho>) k d x = un_val \<rho> k d x"
  by (cases k) simp_all

lemma lossless_eval: "lossless \<rho> e \<Longrightarrow> eval (mathematical \<rho>) e = eval \<rho> e"
proof (induction e)
  case (Unary k a d)
  then show ?case
    using un_val_mathematical [of k \<rho> d] by (cases "eval \<rho> a"; cases "k = KCast") simp_all
qed simp_all

lemma lossless_exact: "exact_casts \<rho> \<Longrightarrow> lossless \<rho> e"
  by (induction e) (simp_all add: exact_casts_def option.pred_set)

lemma MaybeCast_eval:
  assumes "MaybeCast e d = Inr e'" and "d \<noteq> BOOL" and "\<not> IsFloat d" and "exact_casts \<rho>"
    and "eval \<rho> e = Some x"
  shows "eval \<rho> e' = Some x"
  using assms by (auto simp: MaybeCast_def split: if_splits)

lemma PromoteSameCategoryDtype_result:
  "PromoteSameCategoryDtype l r = Inr d \<Longrightarrow> d \<noteq> BOOL \<and> (d = l \<or> d = r)"
  by (auto simp: PromoteSameCategoryDtype_def split: if_splits)

lemma promoted_eval:
  assumes d: "PromoteSameCategoryDtype ld rd = Inr d"
    and l: "GetScalarDtype l = Inr ld" "eval \<rho> l = Some x" "MaybeCast l d = Inr l'"
    and r: "GetScalarDtype r = Inr rd" "eval \<rho> r = Some y" "MaybeCast r d = Inr r'"
    and ex: "exact_casts \<rho>"
  shows "eval \<rho> l' = Some x \<and> eval \<rho> r' = Some y \<and> \<not> IsFloat d"
proof -
  have "d \<noteq> BOOL" and "\<not> IsFloat d"
    using PromoteSameCategoryDtype_result [OF d] eval_dtype [OF l(2,1)] eval_dtype [OF r(2,1)]
    by auto
  then show ?thesis
    using MaybeCast_eval [OF l(3) _ _ ex l(2)] MaybeCast_eval [OF r(3) _ _ ex r(2)] by simp
qed

lemma PromoteBinaryOperands_eval:
  assumes "PromoteBinaryOperands l r = Inr (l', r', d)" and "exact_casts \<rho>"
    and "eval \<rho> l = Some x" and "eval \<rho> r = Some y"
  shows "eval \<rho> l' = Some x \<and> eval \<rho> r' = Some y \<and> \<not> IsFloat d"
proof -
  obtain ld rd where *: "GetScalarDtype l = Inr ld" "GetScalarDtype r = Inr rd"
    "PromoteSameCategoryDtype ld rd = Inr d" "MaybeCast l d = Inr l'" "MaybeCast r d = Inr r'"
    using assms(1) by (auto simp: PromoteBinaryOperands_def)
  show ?thesis
    by (rule promoted_eval [OF *(3) *(1) assms(3) *(4) *(2) assms(4) *(5) assms(2)])
qed

lemma PromoteIntBinaryOperands_eval:
  assumes "PromoteIntBinaryOperands l r = Inr (l', r', d)" and "exact_casts \<rho>"
    and "eval \<rho> l = Some x" and "eval \<rho> r = Some y"
  shows "eval \<rho> l' = Some x \<and> eval \<rho> r' = Some y \<and> \<not> IsFloat d"
proof -
  have "PromoteBinaryOperands l r = Inr (l', r', d)"
    using assms(1) by (auto simp: PromoteIntBinaryOperands_def PromoteBinaryOperands_def split: if_splits)
  then show ?thesis using assms(2-) by (rule PromoteBinaryOperands_eval)
qed

lemma MakeBinary_eval:
  assumes "MakeBinary k l r = Inr e" and "exact_casts \<rho>"
    and "eval \<rho> l = Some x" and "eval \<rho> r = Some y"
  shows "eval \<rho> e = bin_val k x y"
  using assms by (auto simp: MakeBinary_def split: if_splits
      dest: PromoteBinaryOperands_eval PromoteIntBinaryOperands_eval)

lemma un_val_dtype: "k \<noteq> KCast \<Longrightarrow> un_val \<rho> k d = un_val \<rho>' k d'"
  by (cases k) (auto simp: fun_eq_iff)

lemma MakeUnary_eval:
  assumes "MakeUnary k e = Inr e'" and "k \<noteq> KCast" and "eval \<rho> e = Some x"
  shows "eval \<rho> e' = un_val \<rho> k BOOL x"
  using assms eval_dtype [OF assms(3)] un_val_dtype [OF assms(2), of \<rho> _ \<rho> BOOL]
  by (cases k) (auto simp: MakeUnary_def split: if_splits)

lemma MaybeCast_wf: "MaybeCast e d = Inr e' \<Longrightarrow> wf_expr e' = wf_expr e"
  by (auto simp: MaybeCast_def split: if_splits)

lemma MakeBinary_wf:
  "MakeBinary k l r = Inr e \<Longrightarrow> wf_expr e \<longleftrightarrow> wf_expr l \<and> wf_expr r"
  by (auto simp: MakeBinary_def PromoteBinaryOperands_def PromoteIntBinaryOperands_def
      MaybeCast_wf split: if_splits)

lemma MakeUnary_wf: "MakeUnary k e = Inr e' \<Longrightarrow> wf_expr e' = wf_expr e"
  by (cases k) (auto simp: MakeUnary_def split: if_splits)


section \<open>A concrete host and environments\<close>

text \<open>
  The instances at which theorems about a parameterised host or environment are applied: integers
  in the place of \<open>double\<close>, equal nodes at one address, conversions that keep or wrap the value.
\<close>

definition int_dbl :: "int double_ops" where
  "int_dbl = \<lparr>d_of_int = id, d_add = (+), d_sub = (-), d_mul = (*), d_div = (div),
     d_pow = (\<lambda>x y. x ^ nat y), d_neg = uminus, d_fabs = abs, d_eq = (=), d_lt = (<), d_le = (\<le>),
     d_isfinite = (\<lambda>_. True), d_floor = id, d_ceil = id\<rparr>"

definition int_host :: "int host" where
  "int_host = \<lparr>dbl = int_dbl, same_ptr = (=)\<rparr>"

lemma int_host_ok [simp]: "ptr_ok int_host"
  by (simp add: int_host_def ptr_ok_def)

definition env_of :: "(nat \<Rightarrow> int option) \<Rightarrow> (DataType \<Rightarrow> int \<Rightarrow> int option) \<Rightarrow> env" where
  "env_of vs c = \<lparr>vval = vs, cval = \<lambda>_ _. None, oval = \<lambda>_. None, ccast = c\<rparr>"

lemma env_of_simps [simp]:
  "vval (env_of vs c) = vs" "cval (env_of vs c) f i = None" "oval (env_of vs c) i = None"
  "ccast (env_of vs c) = c"
  by (simp_all add: env_of_def)

text \<open>Variables and literals of the type \<open>INDEX\<close>, as the witnesses write them.\<close>

definition ivar :: "nat \<Rightarrow> int expr" where
  "ivar i = Var i (Some INDEX)"

definition ilit :: "int \<Rightarrow> int expr" where
  "ilit v = ConstInt v INDEX"

definition ibin :: "binop \<Rightarrow> int expr \<Rightarrow> int expr \<Rightarrow> int expr" where
  "ibin k a b = Binary k a b (if is_compare k \<or> is_logical k then BOOL else INDEX)"

lemmas int_instance_defs = int_dbl_def int_host_def ivar_def ilit_def ibin_def is_compare_def is_logical_def

end
