(* ===== verification/Int_Operator.thy ===== *)
theory Int_Operator
  imports Arith_Prelude
begin

text \<open>
  The integer helpers of \<^verbatim>\<open>include/pypto/ir/arith/int_operator.h\<close> and the overflow tests of
  \<^verbatim>\<open>include/pypto/ir/arith/const_fold.h\<close>. Arguments are \<open>int64_t\<close>; a failed \<open>INTERNAL_CHECK\<close> and a
  signed overflow are error results. The Euclid loops recurse on their remainder, which
  decreases. Shown here: the overflow tests decide overflow exactly, floor division and modulo
  are HOL's \<open>div\<close> and \<open>mod\<close>, and the two Euclid loops compute the greatest common divisor (the
  extended one with a Bezout coefficient).
\<close>

section \<open>Overflow tests\<close>

definition AddWouldOverflow :: "int \<Rightarrow> int \<Rightarrow> bool" where
  "AddWouldOverflow a b \<longleftrightarrow>
     (b > 0 \<and> a > INT64_MAX - b) \<or> (b < 0 \<and> a < INT64_MIN - b)"

definition SubWouldOverflow :: "int \<Rightarrow> int \<Rightarrow> bool" where
  "SubWouldOverflow a b \<longleftrightarrow>
     (b > 0 \<and> a < INT64_MIN + b) \<or> (b < 0 \<and> a > INT64_MAX + b)"

definition MulWouldOverflow :: "int \<Rightarrow> int \<Rightarrow> bool" where
  "MulWouldOverflow a b =
     (if a = 0 \<or> b = 0 then False
      else if b > 0 then
        (if a < cdiv INT64_MIN b then True else if a > cdiv INT64_MAX b then True else False)
      else if b = -1 then a = INT64_MIN
      else if a > cdiv INT64_MIN b then True
      else if a < cdiv INT64_MAX b then True else False)"

definition NegWouldOverflow :: "int \<Rightarrow> bool" where
  "NegWouldOverflow a \<longleftrightarrow> a = INT64_MIN"

section \<open>Floor division\<close>

definition SafeAbs :: "int \<Rightarrow> int" where
  "SafeAbs x = (if x \<ge> 0 then x else u64 (- (x + 1)) + 1)"

definition floordiv :: "int \<Rightarrow> int \<Rightarrow> int res" where
  "floordiv x y =
     (if y = 0 then Inl InternalError
      else if x = INT64_MIN \<and> y = -1 then Inl InternalError
      else let rdiv = cdiv x y; rmod = cmod x y;
               is_floor = (y \<ge> 0 \<and> rmod \<ge> 0) \<or> (y < 0 \<and> rmod \<le> 0)
           in Inr (if is_floor then rdiv else rdiv - 1))"

definition floormod :: "int \<Rightarrow> int \<Rightarrow> int res" where
  "floormod x y =
     (if y = 0 then Inl InternalError
      else if x = INT64_MIN \<and> y = -1 then Inl InternalError
      else let rmod = cmod x y;
               is_floor = (y \<ge> 0 \<and> rmod \<ge> 0) \<or> (y < 0 \<and> rmod \<le> 0)
           in Inr (if is_floor then rmod else rmod + y))"

section \<open>Greatest common divisor\<close>

text \<open>
  The loop of \<open>ExtendedEuclidean\<close> on the magnitudes: \<open>r\<close>, \<open>old_r\<close> unsigned, \<open>s\<close>, \<open>old_s\<close> signed.
\<close>

function ext_euclid_loop :: "int \<Rightarrow> int \<Rightarrow> int \<Rightarrow> int \<Rightarrow> (int \<times> int) res" where
  "ext_euclid_loop old_r r old_s s =
     (if r \<le> 0 then Inr (old_r, old_s)
      else let q = old_r div r; tmp_r = old_r - q * r in
        res_bind (i64 (to_i64 q * s)) (\<lambda>qs.
        res_bind (i64 (old_s - qs)) (\<lambda>tmp_s. ext_euclid_loop r tmp_r s tmp_s)))"
  by pat_completeness auto
termination
proof (relation "measure (\<lambda>(old_r, r, old_s, s). nat r)", goal_cases)
  case (2 old_r r old_s s q tmp_r)
  then have "tmp_r = old_r mod r" by (simp only: minus_div_mult_eq_mod)
  with 2(1) pos_mod_bound [of r old_r] show ?case by simp
qed simp

declare ext_euclid_loop.simps [simp del]

definition ExtendedEuclidean :: "int \<Rightarrow> int \<Rightarrow> (int \<times> int \<times> int) res" where
  "ExtendedEuclidean a b =
     res_bind (ext_euclid_loop (SafeAbs a) (SafeAbs b) 1 0) (\<lambda>(old_r, old_s).
       let px = (if a \<ge> 0 then old_s else - old_s) in
       res_bind (i64 px) (\<lambda>px.
       res_bind (check InternalError (old_r \<le> INT64_MAX)) (\<lambda>_.
       let gcd = old_r in
       if b \<noteq> 0 then
         res_bind (i64 (px * a)) (\<lambda>pa.
         res_bind (i64 (gcd - pa)) (\<lambda>num.
         res_bind (i64 (cdiv num b)) (\<lambda>py. Inr (gcd, px, py))))
       else Inr (gcd, px, 1))))"

text \<open>The loop of \<open>ZeroAwareGCD\<close>: \<open>while (ua % ub != 0)\<close>.\<close>

function gcd_loop :: "int \<Rightarrow> int \<Rightarrow> int" where
  "gcd_loop ua ub = (if ub > 0 \<and> ua mod ub \<noteq> 0 then gcd_loop ub (ua mod ub) else ub)"
  by pat_completeness auto
termination
  by (relation "measure (\<lambda>(ua, ub). nat ub)") auto

declare gcd_loop.simps [simp del]

definition ZeroAwareGCD :: "int \<Rightarrow> int \<Rightarrow> int res" where
  "ZeroAwareGCD a b =
     (let (ua, ub) = (if SafeAbs a < SafeAbs b then (SafeAbs b, SafeAbs a)
                      else (SafeAbs a, SafeAbs b)) in
      if ub = 0 then res_bind (check InternalError (ua \<le> INT64_MAX)) (\<lambda>_. Inr ua)
      else Inr (to_i64 (gcd_loop ua ub)))"

definition LeastCommonMultiple :: "int \<Rightarrow> int \<Rightarrow> int res" where
  "LeastCommonMultiple a b =
     (if a = 0 \<or> b = 0 then Inr 0
      else res_bind (ExtendedEuclidean a b) (\<lambda>(g, x, y).
        res_bind (i64 (cdiv a g)) (\<lambda>q.
        res_bind (i64 (q * b)) (\<lambda>lcm.
        if lcm < 0 then i64 (- lcm) else Inr lcm))))"

section \<open>Correctness\<close>

lemma AddWouldOverflow_iff:
  assumes "is_i64 a" and "is_i64 b"
  shows "AddWouldOverflow a b \<longleftrightarrow> \<not> is_i64 (a + b)"
  using assms by (auto simp: AddWouldOverflow_def i64_simps)

lemma SubWouldOverflow_iff:
  assumes "is_i64 a" and "is_i64 b"
  shows "SubWouldOverflow a b \<longleftrightarrow> \<not> is_i64 (a - b)"
  using assms by (auto simp: SubWouldOverflow_def i64_simps)

lemma NegWouldOverflow_iff: "is_i64 a \<Longrightarrow> NegWouldOverflow a \<longleftrightarrow> \<not> is_i64 (- a)"
  by (auto simp: NegWouldOverflow_def i64_simps)

lemma cdiv_uminus [simp]: "cdiv (- a) b = - cdiv a b" "cdiv a (- b) = - cdiv a b"
  by (simp_all add: cdiv_def)

lemma cmod_uminus [simp]: "cmod (- a) b = - cmod a b" "cmod a (- b) = cmod a b"
  by (simp_all add: cmod_def)

lemma MulWouldOverflow_iff:
  assumes "is_i64 a" and "is_i64 b"
  shows "MulWouldOverflow a b \<longleftrightarrow> \<not> is_i64 (a * b)"
proof -
  have cmin: "cdiv INT64_MIN n = - ((- INT64_MIN) div n)" if "n \<ge> 0" for n
    using that cdiv_uminus(1) [of "- INT64_MIN" n] by (simp add: limits_defs)
  have cmax: "cdiv INT64_MAX n = INT64_MAX div n" if "n \<ge> 0" for n
    using that by (simp add: limits_defs)
  consider "a = 0 \<or> b = 0" | "a \<noteq> 0" "b > 0" | "a \<noteq> 0" "b = -1" | "a \<noteq> 0" "b < -1" by linarith
  then show ?thesis
  proof cases
    case 2
    have "a < cdiv INT64_MIN b \<longleftrightarrow> (- INT64_MIN) div b < - a" using 2 by (auto simp: cmin)
    with 2 show ?thesis
      by (auto simp: MulWouldOverflow_def cmax div_less_iff_mult is_i64_def)
  next
    case 3
    with assms show ?thesis by (auto simp: MulWouldOverflow_def i64_simps)
  next
    case 4
    have "cdiv INT64_MIN b = (- INT64_MIN) div (- b)"
      using 4 cmin [of "- b"] by simp
    then have "a > cdiv INT64_MIN b \<longleftrightarrow> a * b < INT64_MIN"
      using 4 div_less_iff_mult [of "- b" "- INT64_MIN" a] by simp
    moreover have "cdiv INT64_MAX b = - (INT64_MAX div (- b))"
      using 4 cmax [of "- b"] by simp
    then have "a < cdiv INT64_MAX b \<longleftrightarrow> INT64_MAX div (- b) < - a" by auto
    then have "a < cdiv INT64_MAX b \<longleftrightarrow> a * b > INT64_MAX"
      using 4 by (simp add: div_less_iff_mult)
    ultimately show ?thesis using 4 by (auto simp: MulWouldOverflow_def is_i64_def)
  qed (use assms in \<open>auto simp: MulWouldOverflow_def i64_simps\<close>)
qed

lemma SafeAbs_eq [simp]: "is_i64 x \<Longrightarrow> SafeAbs x = \<bar>x\<bar>"
  by (auto simp: SafeAbs_def u64_def i64_simps)

text \<open>Truncated and floored division differ exactly when \<open>is_floor\<close> is false.\<close>

lemma trunc_to_floor:
  fixes x y :: int
  assumes "y \<noteq> 0"
  defines "fl \<equiv> (y \<ge> 0 \<and> cmod x y \<ge> 0) \<or> (y < 0 \<and> cmod x y \<le> 0)"
  shows "(if fl then cdiv x y else cdiv x y - 1) = x div y"
    and "(if fl then cmod x y else cmod x y + y) = x mod y"
proof -
  let ?q = "if fl then cdiv x y else cdiv x y - 1" and ?r = "if fl then cmod x y else cmod x y + y"
  have eq: "x = y * ?q + ?r"
    using cdiv_cmod [of x y] by (auto simp: algebra_simps)
  have r: "if 0 < y then 0 \<le> ?r \<and> ?r < y else y < ?r \<and> ?r \<le> 0"
    using cmod_abs_less [OF assms(1), of x] assms(1) by (auto simp: fl_def)
  have "x div y = ?q \<and> x mod y = ?r"
  proof (cases "0 < y")
    case True
    with r have "0 \<le> ?r" and "?r < y" by simp_all
    then show ?thesis by (intro conjI int_div_pos_eq [OF eq] int_mod_pos_eq [OF eq])
  next
    case False
    with r have "?r \<le> 0" and "y < ?r" by simp_all
    then show ?thesis by (intro conjI int_div_neg_eq [OF eq] int_mod_neg_eq [OF eq])
  qed
  then show "?q = x div y" and "?r = x mod y" by simp_all
qed

lemma floordiv_eq:
  "floordiv x y = (if y = 0 \<or> (x = INT64_MIN \<and> y = -1) then Inl InternalError else Inr (x div y))"
  using trunc_to_floor(1) [of y x] by (simp add: floordiv_def Let_def)

lemma floormod_eq:
  "floormod x y = (if y = 0 \<or> (x = INT64_MIN \<and> y = -1) then Inl InternalError else Inr (x mod y))"
  using trunc_to_floor(2) [of y x] by (simp add: floormod_def Let_def)

lemma gcd_loop_eq: "0 \<le> ua \<Longrightarrow> 0 < ub \<Longrightarrow> gcd_loop ua ub = gcd ua ub"
proof (induction ua ub rule: gcd_loop.induct)
  case (1 ua ub)
  show ?case
  proof (cases "ua mod ub = 0")
    case True
    with 1 show ?thesis by (auto simp: gcd_loop.simps [of ua ub] dvd_eq_mod_eq_0 [symmetric])
  next
    case False
    with 1 have "gcd_loop ub (ua mod ub) = gcd ub (ua mod ub)"
      by (simp add: order_le_neq_trans)
    with False 1 show ?thesis
      by (simp add: gcd_loop.simps [of ua ub] gcd_red_int [symmetric])
  qed
qed

lemma ZeroAwareGCD_eq:
  assumes "is_i64 a" and "is_i64 b"
  shows "ZeroAwareGCD a b =
    (if gcd a b \<le> INT64_MAX \<or> (a \<noteq> 0 \<and> b \<noteq> 0) then Inr (to_i64 (gcd a b)) else Inl InternalError)"
proof (cases "a = 0 \<or> b = 0")
  case True
  then obtain n where n: "n = a \<or> n = b" and g: "gcd a b = \<bar>n\<bar>"
    and z: "ZeroAwareGCD a b = res_bind (check InternalError (\<bar>n\<bar> \<le> INT64_MAX)) (\<lambda>_. Inr \<bar>n\<bar>)"
    using assms that [of a] that [of b]
    by (cases "a = 0"; cases "b = 0") (auto simp: ZeroAwareGCD_def is_i64_alt)
  have "is_i64 \<bar>n\<bar>" if "\<bar>n\<bar> \<le> INT64_MAX" using that by (auto simp: i64_simps)
  with True g z show ?thesis by auto
next
  case False
  then have "gcd_loop \<bar>a\<bar> \<bar>b\<bar> = gcd a b" and "gcd_loop \<bar>b\<bar> \<bar>a\<bar> = gcd a b"
    by (simp_all add: gcd_loop_eq gcd.commute)
  with False assms show ?thesis by (auto simp: ZeroAwareGCD_def)
qed


section \<open>Extended Euclid\<close>

text \<open>
  The coefficients of the loop alternate in sign and satisfy \<open>|s| * old_r + |old_s| * r = N\<close>, so
  they never exceed \<open>N\<close>; modulo \<open>B\<close> they express both remainders as multiples of \<open>A\<close>.
\<close>

lemma abs_is_i64: "\<bar>x\<bar> \<le> INT64_MAX \<Longrightarrow> is_i64 x"
  by (auto simp: i64_simps)

lemma abs_diff_opposite:
  fixes x y :: int
  assumes "x * y \<le> 0"
  shows "\<bar>x - y\<bar> = \<bar>x\<bar> + \<bar>y\<bar>"
  using assms by (auto simp: mult_le_0_iff)

lemma ext_euclid_loop_correct:
  assumes "0 \<le> old_r" "0 \<le> r" "old_r \<le> INT64_MAX" "r \<le> INT64_MAX"
    and "\<bar>s\<bar> * old_r + \<bar>old_s\<bar> * r = N" "N \<le> INT64_MAX" "old_s * s \<le> 0"
    and "B dvd old_s * A - old_r" "B dvd s * A - r"
    and "old_r = 0 \<longrightarrow> s = 0"
  shows "\<exists>t. ext_euclid_loop old_r r old_s s = Inr (gcd old_r r, t) \<and>
    B dvd t * A - gcd old_r r \<and> (\<bar>t\<bar> \<le> N \<or> (r = 0 \<and> t = old_s))"
  using assms
proof (induction old_r r old_s s rule: ext_euclid_loop.induct)
  case (1 old_r r old_s s)
  show ?case
  proof (cases "r \<le> 0")
    case True
    then have "r = 0" using "1.prems"(2) by simp
    then show ?thesis using "1.prems" by (simp add: ext_euclid_loop.simps [of old_r 0])
  next
    case False
    define q where "q = old_r div r"
    have q01: "0 \<le> q" "q \<le> old_r"
      using False "1.prems"(1) zdiv_mono2 [of old_r 1 r] by (auto simp: q_def pos_imp_zdiv_nonneg_iff)
    then have "is_i64 q" using "1.prems"(3) by (simp add: is_i64_def INT64_MIN_def)
    with q01 have q: "0 \<le> q" "q \<le> old_r" "to_i64 q = q" by simp_all
    have qss: "old_s * (q * s) \<le> 0"
      using mult_nonneg_nonpos [OF q(1) "1.prems"(7)] by (simp add: ac_simps)
    have abs: "\<bar>old_s - q * s\<bar> = \<bar>old_s\<bar> + q * \<bar>s\<bar>"
      using abs_diff_opposite [OF qss] q(1) by (simp add: abs_mult)
    have inv: "\<bar>old_s - q * s\<bar> * r + \<bar>s\<bar> * (old_r - q * r) = N"
      using "1.prems"(5) by (simp add: abs algebra_simps)
    have rest: "0 \<le> old_r - q * r" "old_r - q * r < r" "old_r - q * r = old_r mod r"
      using False by (simp_all add: q_def minus_div_mult_eq_mod)
    have "\<bar>old_s - q * s\<bar> * 1 \<le> \<bar>old_s - q * s\<bar> * r"
      using False by (intro mult_left_mono) auto
    also have "\<dots> \<le> N" unfolding inv [symmetric] using rest(1) by simp
    finally have bnd: "\<bar>old_s - q * s\<bar> \<le> N" by simp
    moreover have "\<bar>q * s\<bar> \<le> \<bar>old_s - q * s\<bar>" using abs q(1) by (simp add: abs_mult)
    ultimately have i: "is_i64 (q * s)" "is_i64 (old_s - q * s)"
      using "1.prems"(6) by (auto intro!: abs_is_i64)
    have "B dvd (old_s - q * s) * A - (old_r - q * r)"
    proof -
      have "(old_s - q * s) * A - (old_r - q * r) = (old_s * A - old_r) - q * (s * A - r)"
        by (simp add: algebra_simps)
      then show ?thesis by (simp only: dvd_diff dvd_mult "1.prems"(8,9))
    qed
    moreover have "s * (old_s - q * s) \<le> 0"
    proof -
      have "0 \<le> q * (s * s)" by (intro mult_nonneg_nonneg q(1) zero_le_square)
      moreover have "s * (old_s - q * s) = old_s * s - q * (s * s)" by (simp add: algebra_simps)
      ultimately show ?thesis using "1.prems"(7) by linarith
    qed
    ultimately have "\<exists>t. ext_euclid_loop r (old_r - q * r) s (old_s - q * s) = Inr (gcd r (old_r - q * r), t) \<and>
      B dvd t * A - gcd r (old_r - q * r) \<and> (\<bar>t\<bar> \<le> N \<or> (old_r - q * r = 0 \<and> t = s))"
      using "1.IH" [OF False q_def refl] "1.prems" i q False rest inv by simp
    moreover have "gcd r (old_r - q * r) = gcd old_r r"
      by (simp add: rest(3) gcd_red_int [symmetric] gcd.commute)
    moreover have "\<bar>s\<bar> \<le> N" if "old_r - q * r = 0"
    proof -
      have "\<bar>s\<bar> \<le> \<bar>s\<bar> * old_r"
        using mult_left_mono [of 1 old_r "\<bar>s\<bar>"] "1.prems"(1,10) by (cases "old_r = 0") auto
      moreover have "0 \<le> \<bar>old_s\<bar> * r" using False by simp
      ultimately show ?thesis using "1.prems"(5) by linarith
    qed
    ultimately show ?thesis
      using False i q by (auto simp: ext_euclid_loop.simps [of old_r r] q_def [symmetric] Let_def)
  qed
qed


text \<open>Whatever the operands, a returned coefficient is a Bezout coefficient.\<close>

lemma ExtendedEuclidean_partial:
  assumes "ExtendedEuclidean a b = Inr (g, x, y)"
    and "\<bar>a\<bar> \<le> INT64_MAX" and "\<bar>b\<bar> \<le> INT64_MAX"
  shows "g = gcd a b" and "b dvd a * x - g"
proof -
  have i: "is_i64 a" "is_i64 b" using assms(2,3) by (auto intro: abs_is_i64)
  obtain t where t: "ext_euclid_loop \<bar>a\<bar> \<bar>b\<bar> 1 0 = Inr (gcd a b, t)" "b dvd t * \<bar>a\<bar> - gcd a b"
    using ext_euclid_loop_correct [of "\<bar>a\<bar>" "\<bar>b\<bar>" 0 1 "\<bar>b\<bar>" b "\<bar>a\<bar>"] assms(2,3) by auto
  have gx: "g = gcd a b \<and> x = (if a \<ge> 0 then t else - t)"
    using assms(1) t i by (cases "b = 0") (auto simp: ExtendedEuclidean_def Let_def)
  then show "g = gcd a b" by simp
  have "a * x = t * \<bar>a\<bar>" using gx by simp
  then show "b dvd a * x - g" using gx t(2) by simp
qed

text \<open>
  Magnitudes up to \<open>2 ^ 31\<close>, for which the products the two functions form cannot overflow.
\<close>

lemma small_product:
  fixes a b :: int
  assumes "\<bar>a\<bar> \<le> 2147483648" and "\<bar>b\<bar> \<le> 2147483648"
  shows "\<bar>a * b\<bar> \<le> 4611686018427387904"
  using mult_mono [OF assms] by (simp add: abs_mult)

lemma bezout_small:
  assumes a: "\<bar>a\<bar> \<le> 2147483648" and b: "\<bar>b\<bar> \<le> 2147483648"
  shows "\<exists>x y. ExtendedEuclidean a b = Inr (gcd a b, x, y) \<and> a * x + b * y = gcd a b"
proof -
  have i: "is_i64 a" "is_i64 b" using a b by (auto simp: is_i64_alt)
  obtain t where t: "ext_euclid_loop \<bar>a\<bar> \<bar>b\<bar> 1 0 = Inr (gcd a b, t)"
    and dvd: "b dvd t * \<bar>a\<bar> - gcd a b" and bnd: "\<bar>t\<bar> \<le> \<bar>b\<bar> \<or> (b = 0 \<and> t = 1)"
    using ext_euclid_loop_correct [of "\<bar>a\<bar>" "\<bar>b\<bar>" 0 1 "\<bar>b\<bar>" b "\<bar>a\<bar>"] a b
    by (auto simp: INT64_MAX_def)
  define px where "px = (if a \<ge> 0 then t else - t)"
  have px: "px * a = t * \<bar>a\<bar>" "\<bar>px\<bar> \<le> 2147483648"
    using bnd b by (auto simp: px_def)
  have g: "0 \<le> gcd a b" "gcd a b \<le> 2147483648"
    using a b dvd_imp_le_int [of a "gcd a b"] by (cases "a = 0"; simp)+
  have ints: "is_i64 px" "is_i64 (px * a)" "is_i64 (gcd a b - px * a)"
  proof -
    note p = small_product [OF px(2) a]
    have "\<bar>gcd a b - px * a\<bar> \<le> \<bar>gcd a b\<bar> + \<bar>px * a\<bar>" by (rule abs_triangle_ineq4)
    then show "is_i64 (gcd a b - px * a)"
      using p g by (intro abs_is_i64) (simp add: INT64_MAX_def)
    show "is_i64 px" "is_i64 (px * a)"
      using px(2) p by (auto intro!: abs_is_i64 simp: INT64_MAX_def)
  qed
  show ?thesis
  proof (cases "b = 0")
    case True
    then have "ExtendedEuclidean a b = Inr (gcd a b, px, 1)"
      using t i ints g by (simp add: ExtendedEuclidean_def px_def [symmetric] INT64_MAX_def)
    moreover have "a * px = \<bar>a\<bar>"
      using True t px(1) by (simp add: ext_euclid_loop.simps [of _ 0] mult.commute)
    ultimately show ?thesis using True by auto
  next
    case False
    define py where "py = cdiv (gcd a b - px * a) b"
    have "b dvd gcd a b - px * a"
      using dvd px(1) by (metis dvd_minus_iff minus_diff_eq)
    then have py: "py * b = gcd a b - px * a"
      by (simp add: py_def cdiv_dvd)
    have "\<bar>py\<bar> \<le> \<bar>py * b\<bar>"
      using False mult_left_mono [of 1 "\<bar>b\<bar>" "\<bar>py\<bar>"] by (simp add: abs_mult)
    also have "\<dots> \<le> \<bar>gcd a b\<bar> + \<bar>px * a\<bar>" unfolding py by (rule abs_triangle_ineq4)
    finally have "is_i64 py"
      using small_product [OF px(2) a] g by (intro abs_is_i64) (simp add: INT64_MAX_def)
    then have "ExtendedEuclidean a b = Inr (gcd a b, px, py)"
      using False t i ints g
      by (simp add: ExtendedEuclidean_def px_def [symmetric] py_def [symmetric] INT64_MAX_def)
    then show ?thesis using py by (auto simp: algebra_simps)
  qed
qed

text \<open>
  The extended Euclidean algorithm returns the greatest common divisor with Bezout
  coefficients, and overflows nowhere, on operands of magnitude up to \<open>2 ^ 31\<close>.
\<close>

theorem ExtendedEuclidean_small:
  assumes a: "\<bar>a\<bar> \<le> 2147483648" and b: "\<bar>b\<bar> \<le> 2147483648"
  shows "\<exists>x y. ExtendedEuclidean a b = Inr (gcd a b, x, y) \<and> a * x + b * y = gcd a b"
  using assms by (rule bezout_small)

text \<open>
  The least common multiple is computed correctly on operands of magnitude up to
  \<open>2 ^ 31\<close>.
\<close>

theorem LeastCommonMultiple_small:
  assumes a: "\<bar>a\<bar> \<le> 2147483648" and b: "\<bar>b\<bar> \<le> 2147483648"
  shows "LeastCommonMultiple a b = Inr (lcm a b)"
proof (cases "a = 0 \<or> b = 0")
  case False
  obtain x y where e: "ExtendedEuclidean a b = Inr (gcd a b, x, y)"
    using bezout_small [OF a b] by blast
  define q where "q = cdiv a (gcd a b)"
  have q: "q = a div gcd a b" by (simp add: q_def cdiv_dvd)
  have "\<bar>q\<bar> * 1 \<le> \<bar>q\<bar> * gcd a b" using False by (intro mult_left_mono) (auto simp: int_one_le_iff_zero_less)
  also have "\<dots> = \<bar>q * gcd a b\<bar>" by (simp add: abs_mult)
  also have "\<dots> = \<bar>a\<bar>" by (simp add: q)
  finally have "\<bar>q\<bar> \<le> \<bar>a\<bar>" by simp
  then have "\<bar>q\<bar> \<le> 2147483648" using a by simp
  from small_product [OF this b] this have i: "is_i64 q" "is_i64 (q * b)" "is_i64 (- (q * b))"
    by (auto simp: is_i64_alt abs_if split: if_splits)
  have "lcm a b = \<bar>q * b\<bar>"
  proof -
    have "a * b = gcd a b * (q * b)" by (simp add: q)
    then have "\<bar>a\<bar> * \<bar>b\<bar> = gcd a b * \<bar>q * b\<bar>"
      by (metis abs_mult abs_gcd_int)
    moreover have "gcd a b * lcm a b = \<bar>a\<bar> * \<bar>b\<bar>" by (rule prod_gcd_lcm_int [symmetric])
    ultimately have "gcd a b * lcm a b = gcd a b * \<bar>q * b\<bar>" by simp
    then show ?thesis using False by (simp only: mult_cancel_left gcd_eq_0_iff) simp
  qed
  then show ?thesis
    using False e i by (simp add: LeastCommonMultiple_def q_def [symmetric] abs_if)
qed (auto simp: LeastCommonMultiple_def)


lemma ExtendedEuclidean_small_witness: "\<exists>x y. ExtendedEuclidean 240 (-46) = Inr (2, x, y) \<and> 240 * x - 46 * y = 2"
  using ExtendedEuclidean_small [of 240 "-46"] by (simp add: gcd_code_int)

lemma LeastCommonMultiple_small_witness: "LeastCommonMultiple 12 (-18) = Inr 36"
  using LeastCommonMultiple_small [of 12 "-18"] by (simp add: lcm_int_def lcm_nat_def gcd_non_0_nat)

text \<open>
  Larger operands can overflow: the product \<open>px * a\<close> is only formed for the second coefficient.
\<close>

lemma ExtendedEuclidean_overflow: "ExtendedEuclidean 1000000000000 999999999989 = Inl UndefinedBehavior"
  by code_simp

end
