(* ===== verification/Const_Fold.thy ===== *)
theory Const_Fold
  imports Expr Int_Operator
begin

text \<open>
  Constant folding, \<^verbatim>\<open>include/pypto/ir/arith/const_fold.h\<close>: the per-operation folds on a bundle of
  operands (\<open>BinaryConstOperands\<close>), the dispatch \<open>TryConstFoldBinary\<close>, \<open>TryConstFoldUnary\<close>,
  \<open>TryConstFoldCast\<close> and the entry point \<open>TryConstFold\<close>. A null pointer is \<open>None\<close> ("no fold
  applies"); a failed \<open>CHECK\<close> is a \<open>ValueError\<close>. Shown here: a fold keeps the value, its
  literals stay 64-bit integers, it is defined unless the operation divides by a literal zero,
  overflows a division or raises to a negative power, and a folded conversion changes no value
  under any reading of conversions.
\<close>

section \<open>Literals\<close>

definition MakeConstInt :: "int \<Rightarrow> DataType \<Rightarrow> 'f expr" where
  "MakeConstInt v d = ConstInt v d"

definition MakeConstFloat :: "'f \<Rightarrow> DataType \<Rightarrow> 'f expr" where
  "MakeConstFloat v d = ConstFloat v d"

definition MakeConstBool :: "bool \<Rightarrow> 'f expr" where
  "MakeConstBool b = ConstBool b"

lemmas Make_defs [simp] = MakeConstInt_def MakeConstFloat_def MakeConstBool_def

fun as_int :: "'f expr \<Rightarrow> (int \<times> DataType) option" where
  "as_int (ConstInt v d) = Some (v, d)"
| "as_int _ = None"

fun as_float :: "'f expr \<Rightarrow> ('f \<times> DataType) option" where
  "as_float (ConstFloat v d) = Some (v, d)"
| "as_float _ = None"

fun as_bool :: "'f expr \<Rightarrow> bool option" where
  "as_bool (ConstBool b) = Some b"
| "as_bool _ = None"

lemma as_int_iff [simp]: "as_int e = Some (v, d) \<longleftrightarrow> e = ConstInt v d"
  by (cases e) auto

lemma as_float_iff [simp]: "as_float e = Some (v, d) \<longleftrightarrow> e = ConstFloat v d"
  by (cases e) auto

lemma as_bool_iff [simp]: "as_bool e = Some b \<longleftrightarrow> e = ConstBool b"
  by (cases e) auto

text \<open>
  Literals that would wrap in their own or the operation's data type are left for the target:
  \<open>FloorDivModOperandsFitDtype\<close>.
\<close>

definition literal_fits :: "'f expr \<Rightarrow> DataType \<Rightarrow> bool" where
  "literal_fits e d =
     (case as_int e of
        Some (v, own) \<Rightarrow> ConstIntFitsDtype v own \<and> ConstIntFitsDtype v d
      | None \<Rightarrow> True)"

definition FloorDivModOperandsFitDtype :: "'f expr \<Rightarrow> 'f expr \<Rightarrow> DataType \<Rightarrow> bool" where
  "FloorDivModOperandsFitDtype l r d \<longleftrightarrow> literal_fits l d \<and> literal_fits r d"

section \<open>Per-operation folds\<close>

record 'f BinaryConstOperands =
  lhs :: "'f expr"
  rhs :: "'f expr"
  pa :: "(int \<times> DataType) option"
  pb :: "(int \<times> DataType) option"
  fa :: "('f \<times> DataType) option"
  fb :: "('f \<times> DataType) option"

definition operands :: "'f expr \<Rightarrow> 'f expr \<Rightarrow> 'f BinaryConstOperands" where
  "operands l r = \<lparr>lhs = l, rhs = r, pa = as_int l, pb = as_int r, fa = as_float l, fb = as_float r\<rparr>"

definition FoldCompare ::
  "(int \<Rightarrow> int \<Rightarrow> bool) \<Rightarrow> ('f \<Rightarrow> 'f \<Rightarrow> bool) \<Rightarrow> 'f BinaryConstOperands \<Rightarrow> 'f expr option" where
  "FoldCompare iop fop c =
     (case (pa c, pb c) of
        (Some (a, _), Some (b, _)) \<Rightarrow> Some (MakeConstBool (iop a b))
      | _ \<Rightarrow> (case (fa c, fb c) of
          (Some (a, _), Some (b, _)) \<Rightarrow> Some (MakeConstBool (fop a b))
        | _ \<Rightarrow> None))"

definition FoldIntOnly :: "(int \<Rightarrow> int \<Rightarrow> int) \<Rightarrow> 'f BinaryConstOperands \<Rightarrow> 'f expr option" where
  "FoldIntOnly iop c =
     (case (pa c, pb c) of
        (Some (a, d), Some (b, _)) \<Rightarrow> Some (MakeConstInt (iop a b) d)
      | _ \<Rightarrow> None)"

definition LhsIsConst :: "'f double_ops \<Rightarrow> 'f BinaryConstOperands \<Rightarrow> int \<Rightarrow> bool" where
  "LhsIsConst D c v \<longleftrightarrow>
     (case pa c of Some (a, _) \<Rightarrow> a = v | None \<Rightarrow> False) \<or>
     (case fa c of Some (a, _) \<Rightarrow> d_eq D a (d_of_int D v) | None \<Rightarrow> False)"

definition RhsIsConst :: "'f double_ops \<Rightarrow> 'f BinaryConstOperands \<Rightarrow> int \<Rightarrow> bool" where
  "RhsIsConst D c v \<longleftrightarrow>
     (case pb c of Some (b, _) \<Rightarrow> b = v | None \<Rightarrow> False) \<or>
     (case fb c of Some (b, _) \<Rightarrow> d_eq D b (d_of_int D v) | None \<Rightarrow> False)"

definition FoldAdd :: "'f double_ops \<Rightarrow> 'f BinaryConstOperands \<Rightarrow> 'f expr option" where
  "FoldAdd D c =
     (case (pa c, pb c) of
        (Some (a, d), Some (b, _)) \<Rightarrow>
          (if \<not> AddWouldOverflow a b then Some (MakeConstInt (a + b) d) else None)
      | _ \<Rightarrow> (case (fa c, fb c) of
          (Some (a, d), Some (b, _)) \<Rightarrow> Some (MakeConstFloat (d_add D a b) d)
        | _ \<Rightarrow>
          if LhsIsConst D c 0 then Some (rhs c)
          else if RhsIsConst D c 0 then Some (lhs c)
          else None))"

definition FoldSub :: "'f double_ops \<Rightarrow> 'f BinaryConstOperands \<Rightarrow> 'f expr option" where
  "FoldSub D c =
     (case (pa c, pb c) of
        (Some (a, d), Some (b, _)) \<Rightarrow>
          (if \<not> SubWouldOverflow a b then Some (MakeConstInt (a - b) d) else None)
      | _ \<Rightarrow> (case (fa c, fb c) of
          (Some (a, d), Some (b, _)) \<Rightarrow> Some (MakeConstFloat (d_sub D a b) d)
        | _ \<Rightarrow> if RhsIsConst D c 0 then Some (lhs c) else None))"

definition FoldMul :: "'f double_ops \<Rightarrow> 'f BinaryConstOperands \<Rightarrow> 'f expr option" where
  "FoldMul D c =
     (case (pa c, pb c) of
        (Some (a, d), Some (b, _)) \<Rightarrow>
          (if \<not> MulWouldOverflow a b then Some (MakeConstInt (a * b) d) else None)
      | _ \<Rightarrow> (case (fa c, fb c) of
          (Some (a, d), Some (b, _)) \<Rightarrow> Some (MakeConstFloat (d_mul D a b) d)
        | _ \<Rightarrow>
          if LhsIsConst D c 1 then Some (rhs c)
          else if RhsIsConst D c 1 then Some (lhs c)
          else if (case pa c of Some (a, _) \<Rightarrow> a = 0 | None \<Rightarrow> False) then Some (lhs c)
          else if (case pb c of Some (b, _) \<Rightarrow> b = 0 | None \<Rightarrow> False) then Some (rhs c)
          else None))"

definition FoldFloorDiv :: "'f BinaryConstOperands \<Rightarrow> DataType \<Rightarrow> 'f expr option res" where
  "FoldFloorDiv c d =
     (if \<not> FloorDivModOperandsFitDtype (lhs c) (rhs c) d then Inr None
      else case (pa c, pb c) of
        (Some (a, _), Some (b, _)) \<Rightarrow>
          res_bind (check ValueError (b \<noteq> 0)) (\<lambda>_.
          res_bind (check ValueError (\<not> (a = INT64_MIN \<and> b = -1))) (\<lambda>_.
          res_bind (floordiv a b) (\<lambda>q. Inr (Some (MakeConstInt q d)))))
      | (None, Some (b, _)) \<Rightarrow>
          res_bind (if b = 1 then res_bind (GetScalarDtype (lhs c)) (\<lambda>ld. Inr (ld = d)) else Inr False)
            (\<lambda>same. if same then Inr (Some (lhs c))
                     else res_bind (check ValueError (b \<noteq> 0)) (\<lambda>_. Inr None))
      | _ \<Rightarrow> Inr None)"

definition FoldFloorMod :: "'f BinaryConstOperands \<Rightarrow> DataType \<Rightarrow> 'f expr option res" where
  "FoldFloorMod c d =
     (if \<not> FloorDivModOperandsFitDtype (lhs c) (rhs c) d then Inr None
      else case (pa c, pb c) of
        (Some (a, _), Some (b, _)) \<Rightarrow>
          res_bind (check ValueError (b \<noteq> 0)) (\<lambda>_.
          res_bind (check ValueError (\<not> (a = INT64_MIN \<and> b = -1))) (\<lambda>_.
          res_bind (floormod a b) (\<lambda>q. Inr (Some (MakeConstInt q d)))))
      | (None, Some (b, _)) \<Rightarrow>
          if b = 1 then Inr (Some (MakeConstInt 0 d))
          else res_bind (check ValueError (b \<noteq> 0)) (\<lambda>_. Inr None)
      | _ \<Rightarrow> Inr None)"

definition FoldFloatDiv :: "'f double_ops \<Rightarrow> 'f BinaryConstOperands \<Rightarrow> 'f expr option" where
  "FoldFloatDiv D c =
     (case (fa c, fb c) of
        (Some (a, d), Some (b, _)) \<Rightarrow> Some (MakeConstFloat (d_div D a b) d)
      | (_, Some (b, _)) \<Rightarrow> if d_eq D b (d_of_int D 1) then Some (lhs c) else None
      | _ \<Rightarrow> None)"

text \<open>The squaring loop of \<open>SafeIntPow\<close>; \<open>None\<close> is its early return on overflow.\<close>

function pow_loop :: "int \<Rightarrow> int \<Rightarrow> int \<Rightarrow> int option" where
  "pow_loop result cur e =
     (if e \<le> 0 then Some result
      else if odd e \<and> MulWouldOverflow result cur then None
      else let result' = (if odd e then result * cur else result); e' = e div 2 in
        if e' > 0 then
          (if MulWouldOverflow cur cur then None else pow_loop result' (cur * cur) e')
        else pow_loop result' cur e')"
  by pat_completeness auto
termination
  by (relation "measure (\<lambda>(result, cur, e). nat e)") auto

declare pow_loop.simps [simp del]

definition SafeIntPow :: "int \<Rightarrow> int \<Rightarrow> DataType \<Rightarrow> 'f expr option res" where
  "SafeIntPow base e d =
     res_bind (check ValueError (e \<ge> 0)) (\<lambda>_.
       Inr (map_option (\<lambda>v. MakeConstInt v d) (pow_loop 1 base e)))"

definition FoldPow :: "'f double_ops \<Rightarrow> 'f BinaryConstOperands \<Rightarrow> 'f expr option res" where
  "FoldPow D c =
     (case (pa c, pb c) of
        (Some (a, d), Some (b, _)) \<Rightarrow> SafeIntPow a b d
      | _ \<Rightarrow> (case (fa c, fb c) of
          (Some (a, d), Some (b, _)) \<Rightarrow> Inr (Some (MakeConstFloat (d_pow D a b) d))
        | _ \<Rightarrow>
          if LhsIsConst D c 1 then Inr (Some (lhs c))
          else if (case pb c of Some (b, _) \<Rightarrow> b = 0 | None \<Rightarrow> False) then
            res_bind (case pa c of Some (_, d) \<Rightarrow> Inr d | None \<Rightarrow> GetScalarDtype (lhs c)) (\<lambda>d.
              if IsFloat d then Inr (Some (MakeConstFloat (d_of_int D 1) d))
              else Inr (Some (MakeConstInt 1 d)))
          else if RhsIsConst D c 1 then Inr (Some (lhs c))
          else Inr None))"

text \<open>\<open>std::min(a, b)\<close> is \<open>b < a ? b : a\<close>, \<open>std::max(a, b)\<close> is \<open>a < b ? b : a\<close>.\<close>

definition FoldMin :: "'f host \<Rightarrow> 'f BinaryConstOperands \<Rightarrow> 'f expr option" where
  "FoldMin H c =
     (case (pa c, pb c) of
        (Some (a, d), Some (b, _)) \<Rightarrow> Some (MakeConstInt (if b < a then b else a) d)
      | _ \<Rightarrow> (case (fa c, fb c) of
          (Some (a, d), Some (b, _)) \<Rightarrow> Some (MakeConstFloat (if d_lt (dbl H) b a then b else a) d)
        | _ \<Rightarrow> if same_ptr H (lhs c) (rhs c) then Some (lhs c) else None))"

definition FoldMax :: "'f host \<Rightarrow> 'f BinaryConstOperands \<Rightarrow> 'f expr option" where
  "FoldMax H c =
     (case (pa c, pb c) of
        (Some (a, d), Some (b, _)) \<Rightarrow> Some (MakeConstInt (if a < b then b else a) d)
      | _ \<Rightarrow> (case (fa c, fb c) of
          (Some (a, d), Some (b, _)) \<Rightarrow> Some (MakeConstFloat (if d_lt (dbl H) a b then b else a) d)
        | _ \<Rightarrow> if same_ptr H (lhs c) (rhs c) then Some (lhs c) else None))"

definition FoldAnd :: "'f expr \<Rightarrow> 'f expr \<Rightarrow> 'f expr option" where
  "FoldAnd l r =
     (case (as_bool l, as_bool r) of
        (Some True, _) \<Rightarrow> Some r
      | (Some False, _) \<Rightarrow> Some l
      | (_, Some True) \<Rightarrow> Some l
      | (_, Some False) \<Rightarrow> Some r
      | _ \<Rightarrow> None)"

definition FoldOr :: "'f expr \<Rightarrow> 'f expr \<Rightarrow> 'f expr option" where
  "FoldOr l r =
     (case (as_bool l, as_bool r) of
        (Some True, _) \<Rightarrow> Some l
      | (Some False, _) \<Rightarrow> Some r
      | (_, Some True) \<Rightarrow> Some r
      | (_, Some False) \<Rightarrow> Some l
      | _ \<Rightarrow> None)"

definition FoldXor :: "'f expr \<Rightarrow> 'f expr \<Rightarrow> 'f expr option" where
  "FoldXor l r =
     (case (as_bool l, as_bool r) of
        (Some a, Some b) \<Rightarrow> Some (MakeConstBool (a \<noteq> b))
      | _ \<Rightarrow> None)"

definition kBitWidth :: int where
  "kBitWidth = 64"

definition FoldShiftLeft :: "'f BinaryConstOperands \<Rightarrow> 'f expr option" where
  "FoldShiftLeft c =
     (case (pa c, pb c) of
        (Some (a, d), Some (b, _)) \<Rightarrow>
          if b < 0 \<or> b \<ge> kBitWidth then None
          else Some (MakeConstInt (to_i64 (u64 a * 2 ^ nat b)) d)
      | _ \<Rightarrow> None)"

definition FoldShiftRight :: "'f BinaryConstOperands \<Rightarrow> 'f expr option" where
  "FoldShiftRight c =
     (case (pa c, pb c) of
        (Some (a, d), Some (b, _)) \<Rightarrow>
          if b < 0 \<or> b \<ge> kBitWidth then None
          else Some (MakeConstInt (a div 2 ^ nat b) d)
      | _ \<Rightarrow> None)"

section \<open>Dispatch\<close>

definition TryConstFoldBinary ::
  "'f host \<Rightarrow> binop \<Rightarrow> 'f expr \<Rightarrow> 'f expr \<Rightarrow> DataType \<Rightarrow> 'f expr option res" where
  "TryConstFoldBinary H k l r d =
     (let c = operands l r; D = dbl H in
      case k of
        KAnd \<Rightarrow> Inr (FoldAnd l r)
      | KOr \<Rightarrow> Inr (FoldOr l r)
      | KXor \<Rightarrow> Inr (FoldXor l r)
      | KAdd \<Rightarrow> Inr (FoldAdd D c)
      | KSub \<Rightarrow> Inr (FoldSub D c)
      | KMul \<Rightarrow> Inr (FoldMul D c)
      | KFloorDiv \<Rightarrow> FoldFloorDiv c d
      | KFloorMod \<Rightarrow> FoldFloorMod c d
      | KFloatDiv \<Rightarrow> Inr (FoldFloatDiv D c)
      | KPow \<Rightarrow> FoldPow D c
      | KMin \<Rightarrow> Inr (FoldMin H c)
      | KMax \<Rightarrow> Inr (FoldMax H c)
      | KEq \<Rightarrow> Inr (FoldCompare (=) (d_eq D) c)
      | KNe \<Rightarrow> Inr (FoldCompare (\<noteq>) (\<lambda>a b. \<not> d_eq D a b) c)
      | KLt \<Rightarrow> Inr (FoldCompare (<) (d_lt D) c)
      | KLe \<Rightarrow> Inr (FoldCompare (\<le>) (d_le D) c)
      | KGt \<Rightarrow> Inr (FoldCompare (>) (\<lambda>a b. d_lt D b a) c)
      | KGe \<Rightarrow> Inr (FoldCompare (\<ge>) (\<lambda>a b. d_le D b a) c)
      | KBitAnd \<Rightarrow> Inr (FoldIntOnly and c)
      | KBitOr \<Rightarrow> Inr (FoldIntOnly or c)
      | KBitXor \<Rightarrow> Inr (FoldIntOnly xor c)
      | KBitShiftLeft \<Rightarrow> Inr (FoldShiftLeft c)
      | KBitShiftRight \<Rightarrow> Inr (FoldShiftRight c))"

text \<open>The overload that takes the data type of the left operand.\<close>

definition TryConstFoldBinaryLhs ::
  "'f host \<Rightarrow> binop \<Rightarrow> 'f expr \<Rightarrow> 'f expr \<Rightarrow> 'f expr option res" where
  "TryConstFoldBinaryLhs H k l r =
     res_bind (GetScalarDtype l) (\<lambda>d. TryConstFoldBinary H k l r d)"

definition TryConstFoldUnary :: "'f host \<Rightarrow> unop \<Rightarrow> 'f expr \<Rightarrow> 'f expr option" where
  "TryConstFoldUnary H k e =
     (case k of
        KNeg \<Rightarrow> (case e of
            ConstInt v d \<Rightarrow> if NegWouldOverflow v then None else Some (MakeConstInt (- v) d)
          | ConstFloat v d \<Rightarrow> Some (MakeConstFloat (d_neg (dbl H) v) d)
          | _ \<Rightarrow> None)
      | KAbs \<Rightarrow> (case e of
            ConstInt v d \<Rightarrow>
              if NegWouldOverflow v then None else Some (MakeConstInt (if v \<ge> 0 then v else - v) d)
          | ConstFloat v d \<Rightarrow> Some (MakeConstFloat (d_fabs (dbl H) v) d)
          | _ \<Rightarrow> None)
      | KNot \<Rightarrow> (case e of ConstBool b \<Rightarrow> Some (MakeConstBool (\<not> b)) | _ \<Rightarrow> None)
      | KBitNot \<Rightarrow> (case e of ConstInt v d \<Rightarrow> Some (MakeConstInt (not v) d) | _ \<Rightarrow> None)
      | KCast \<Rightarrow> None)"

definition TryConstFoldCast :: "'f expr \<Rightarrow> DataType \<Rightarrow> 'f expr option" where
  "TryConstFoldCast e d =
     (case e of
        ConstInt v own \<Rightarrow>
          if \<not> IsInt d \<and> d \<noteq> INDEX then None
          else if \<not> ConstIntFitsDtype v own then None
          else if \<not> ConstIntFitsDtype v d then None
          else Some (MakeConstInt v d)
      | _ \<Rightarrow> None)"

definition TryConstFold :: "'f host \<Rightarrow> 'f expr \<Rightarrow> 'f expr option res" where
  "TryConstFold H e =
     (case e of
        Binary k l r d \<Rightarrow> TryConstFoldBinary H k l r d
      | Unary KCast a d \<Rightarrow> Inr (TryConstFoldCast a d)
      | Unary k a d \<Rightarrow> Inr (TryConstFoldUnary H k a)
      | _ \<Rightarrow> Inr None)"

section \<open>Correctness\<close>

text \<open>
  What a fold needs of conversions: they keep a representable value. All three readings do.
\<close>

definition casts_fit :: "env \<Rightarrow> bool" where
  "casts_fit \<rho> \<longleftrightarrow>
     (\<forall>d x. IsInt d \<and> is_i64 x \<and> ConstIntFitsDtype x d \<longrightarrow> ccast \<rho> d x = Some x)"

lemma casts_fit_id: "ccast \<rho> = cast_id \<Longrightarrow> casts_fit \<rho>"
  by (auto simp: casts_fit_def cast_id_def)

lemma casts_fit_exact: "ccast \<rho> = cast_exact \<Longrightarrow> casts_fit \<rho>"
  by (auto simp: casts_fit_def cast_exact_def)

lemma signed_wrap_id:
  assumes "0 < n" and "- (2 ^ (n - 1)) \<le> (x::int)" and "x < 2 ^ (n - 1)"
  shows "(x + 2 ^ (n - 1)) mod 2 ^ n - 2 ^ (n - 1) = x"
proof -
  have "(2::int) ^ n = 2 * 2 ^ (n - 1)" using assms(1) by (simp flip: power_Suc)
  with assms have "(x + 2 ^ (n - 1)) mod 2 ^ n = x + 2 ^ (n - 1)"
    by (intro mod_pos_pos_trivial) auto
  then show ?thesis by simp
qed

lemma cast_wrap_fits:
  assumes "IsInt d" and "is_i64 x" and "ConstIntFitsDtype x d"
  shows "cast_wrap d x = Some x"
proof -
  have bits: "GetBit d \<noteq> 0" "GetBit d \<le> 64"
    using assms(3) GetBit_le_64 [of d] GetBit_named(6)
    by (auto simp: ConstIntFitsDtype_def Let_def split: if_splits)
  have idx: "\<not> IsUnsignedInt INDEX"
    by (simp add: IsUnsignedInt_def dtype_defs)
  show ?thesis
  proof (cases "IsUnsignedInt d")
    case True
    then have "0 \<le> x \<and> x < 2 ^ GetBit d"
      using assms(2,3) bits idx
      by (cases "GetBit d = 64") (auto simp: ConstIntFitsDtype_def Let_def is_i64_alt split: if_splits)
    with True bits assms(1) show ?thesis by (simp add: cast_wrap_def)
  next
    case False
    then have "- (2 ^ (GetBit d - 1)) \<le> x \<and> x < 2 ^ (GetBit d - 1)"
      using assms(2,3) bits
      by (cases "GetBit d = 64") (auto simp: ConstIntFitsDtype_def Let_def is_i64_alt split: if_splits)
    then have "(x + 2 ^ (GetBit d - 1)) mod 2 ^ GetBit d - 2 ^ (GetBit d - 1) = x"
      using bits by (intro signed_wrap_id) auto
    with False bits assms(1) show ?thesis by (simp add: cast_wrap_def)
  qed
qed

lemma casts_fit_wrap: "ccast \<rho> = cast_wrap \<Longrightarrow> casts_fit \<rho>"
  by (auto simp: casts_fit_def cast_wrap_fits)

text \<open>Each fold computes the operation on the values of its operands.\<close>

lemmas fold_unfolds =
  operands_def LhsIsConst_def RhsIsConst_def

lemma FoldAdd_eval:
  "FoldAdd D (operands l r) = Some e \<Longrightarrow> eval \<rho> l = Some x \<Longrightarrow> eval \<rho> r = Some y \<Longrightarrow>
    eval \<rho> e = Some (x + y)"
  by (auto simp: FoldAdd_def fold_unfolds split: option.splits if_splits)

lemma FoldSub_eval:
  "FoldSub D (operands l r) = Some e \<Longrightarrow> eval \<rho> l = Some x \<Longrightarrow> eval \<rho> r = Some y \<Longrightarrow>
    eval \<rho> e = Some (x - y)"
  by (auto simp: FoldSub_def fold_unfolds split: option.splits if_splits)

lemma FoldMul_eval:
  "FoldMul D (operands l r) = Some e \<Longrightarrow> eval \<rho> l = Some x \<Longrightarrow> eval \<rho> r = Some y \<Longrightarrow>
    eval \<rho> e = Some (x * y)"
  by (auto simp: FoldMul_def fold_unfolds split: option.splits if_splits)

lemma FoldFloorDiv_eval:
  "FoldFloorDiv (operands l r) d = Inr (Some e) \<Longrightarrow> \<not> IsFloat d \<Longrightarrow> eval \<rho> l = Some x \<Longrightarrow> eval \<rho> r = Some y \<Longrightarrow>
    eval \<rho> e = Some (x div y)"
  by (auto simp: FoldFloorDiv_def fold_unfolds floordiv_eq split: option.splits if_splits)

lemma FoldFloorMod_eval:
  "FoldFloorMod (operands l r) d = Inr (Some e) \<Longrightarrow> \<not> IsFloat d \<Longrightarrow> eval \<rho> l = Some x \<Longrightarrow> eval \<rho> r = Some y \<Longrightarrow>
    eval \<rho> e = Some (x mod y)"
  by (auto simp: FoldFloorMod_def fold_unfolds floormod_eq split: option.splits if_splits)

lemma FoldFloatDiv_eval:
  "FoldFloatDiv D (operands l r) = Some e \<Longrightarrow> eval \<rho> r = Some y \<Longrightarrow> False"
  by (auto simp: FoldFloatDiv_def fold_unfolds split: option.splits if_splits)

lemma pow_loop_eq:
  "pow_loop r c e = Some v \<Longrightarrow> v = r * c ^ nat e"
proof (induction r c e rule: pow_loop.induct)
  case (1 r c e)
  show ?case
  proof (cases "e \<le> 0")
    case True
    with 1 show ?thesis by (simp add: pow_loop.simps)
  next
    case False
    define r' where "r' = (if odd e then r * c else r)"
    have no: "\<not> (odd e \<and> MulWouldOverflow r c)"
      using "1.prems" False by (auto simp: pow_loop.simps [of r c e])
    have e: "nat e = 2 * nat (e div 2) + (if odd e then 1 else 0)"
      using False by (auto elim!: oddE evenE simp: nat_add_distrib nat_mult_distrib)
    have r': "r' * (c * c) ^ nat (e div 2) = r * c ^ nat e"
      unfolding e r'_def by (simp add: power_add power_mult power2_eq_square)
    show ?thesis
    proof (cases "e div 2 > 0")
      case True
      with "1.prems" False no have "pow_loop r' (c * c) (e div 2) = Some v"
        by (auto simp: pow_loop.simps [of r c e] r'_def Let_def split: if_splits)
      with True False no have "v = r' * (c * c) ^ nat (e div 2)"
        using "1.IH"(1) [OF False no r'_def refl True] "1.prems"
        by (auto simp: pow_loop.simps [of r c e] r'_def Let_def split: if_splits)
      then show ?thesis by (simp add: r')
    next
      case nz: False
      with "1.prems" False no have "pow_loop r' c (e div 2) = Some v"
        by (auto simp: pow_loop.simps [of r c e] r'_def Let_def split: if_splits)
      with nz have "v = r'" by (simp add: pow_loop.simps [of r' c "e div 2"])
      moreover have "nat (e div 2) = 0" using nz by simp
      ultimately show ?thesis using r' by simp
    qed
  qed
qed

lemma FoldPow_eval:
  "FoldPow D (operands l r) = Inr (Some e) \<Longrightarrow> eval \<rho> l = Some x \<Longrightarrow> eval \<rho> r = Some y \<Longrightarrow>
    0 \<le> y \<Longrightarrow> eval \<rho> e = Some (x ^ nat y)"
  by (auto simp: FoldPow_def SafeIntPow_def fold_unfolds dest!: pow_loop_eq dest: eval_dtype
      split: option.splits if_splits)

lemma FoldMin_eval:
  "ptr_ok H \<Longrightarrow> FoldMin H (operands l r) = Some e \<Longrightarrow> eval \<rho> l = Some x \<Longrightarrow> eval \<rho> r = Some y \<Longrightarrow>
    eval \<rho> e = Some (min x y)"
  by (auto simp: FoldMin_def fold_unfolds min_def dest: ptr_okD split: option.splits if_splits)

lemma FoldMax_eval:
  "ptr_ok H \<Longrightarrow> FoldMax H (operands l r) = Some e \<Longrightarrow> eval \<rho> l = Some x \<Longrightarrow> eval \<rho> r = Some y \<Longrightarrow>
    eval \<rho> e = Some (max x y)"
  by (auto simp: FoldMax_def fold_unfolds max_def dest: ptr_okD split: option.splits if_splits)

lemma FoldAnd_eval:
  "FoldAnd l r = Some e \<Longrightarrow> eval \<rho> l = Some x \<Longrightarrow> eval \<rho> r = Some y \<Longrightarrow> bin_val KAnd x y = Some v \<Longrightarrow>
    eval \<rho> e = Some v"
  by (auto simp: FoldAnd_def is_truth_def split: option.splits bool.splits)

lemma FoldOr_eval:
  "FoldOr l r = Some e \<Longrightarrow> eval \<rho> l = Some x \<Longrightarrow> eval \<rho> r = Some y \<Longrightarrow> bin_val KOr x y = Some v \<Longrightarrow>
    eval \<rho> e = Some v"
  by (auto simp: FoldOr_def is_truth_def split: option.splits bool.splits)

lemma FoldXor_eval:
  "FoldXor l r = Some e \<Longrightarrow> eval \<rho> l = Some x \<Longrightarrow> eval \<rho> r = Some y \<Longrightarrow> bin_val KXor x y = Some v \<Longrightarrow>
    eval \<rho> e = Some v"
  by (auto simp: FoldXor_def is_truth_def split: option.splits)

lemma FoldCompare_eval:
  "FoldCompare iop fop (operands l r) = Some e \<Longrightarrow> eval \<rho> l = Some x \<Longrightarrow> eval \<rho> r = Some y \<Longrightarrow>
    eval \<rho> e = Some (of_bool (iop x y))"
  by (auto simp: FoldCompare_def fold_unfolds split: option.splits)

lemma FoldIntOnly_eval:
  "FoldIntOnly iop (operands l r) = Some e \<Longrightarrow> eval \<rho> l = Some x \<Longrightarrow> eval \<rho> r = Some y \<Longrightarrow>
    eval \<rho> e = Some (iop x y)"
  by (auto simp: FoldIntOnly_def fold_unfolds split: option.splits)

lemma to_i64_u64_mult: "is_i64 (x * p) \<Longrightarrow> to_i64 (u64 x * p) = x * p"
proof -
  assume "is_i64 (x * p)"
  moreover have "u64 (u64 x * p) = u64 (x * p)" by (simp add: u64_def mod_mult_left_eq)
  then have "to_i64 (u64 x * p) = to_i64 (x * p)" by (simp add: to_i64_def)
  ultimately show ?thesis by simp
qed

lemma FoldShiftLeft_eval:
  "FoldShiftLeft (operands l r) = Some e \<Longrightarrow> eval \<rho> l = Some x \<Longrightarrow> eval \<rho> r = Some y \<Longrightarrow>
    is_i64 (x * 2 ^ nat y) \<Longrightarrow> eval \<rho> e = Some (x * 2 ^ nat y)"
  by (auto simp: FoldShiftLeft_def fold_unfolds to_i64_u64_mult split: option.splits if_splits)

lemma FoldShiftRight_eval:
  "FoldShiftRight (operands l r) = Some e \<Longrightarrow> eval \<rho> l = Some x \<Longrightarrow> eval \<rho> r = Some y \<Longrightarrow>
    eval \<rho> e = Some (x div 2 ^ nat y)"
  by (auto simp: FoldShiftRight_def fold_unfolds split: option.splits if_splits)

lemmas fold_evals =
  FoldAdd_eval FoldSub_eval FoldMul_eval FoldFloorDiv_eval FoldFloorMod_eval FoldPow_eval
  FoldMin_eval FoldMax_eval FoldAnd_eval FoldOr_eval FoldXor_eval FoldCompare_eval
  FoldIntOnly_eval FoldShiftLeft_eval FoldShiftRight_eval

lemma TryConstFoldBinary_eval:
  assumes "ptr_ok H" and "TryConstFoldBinary H k l r d = Inr (Some e)"
    and "eval \<rho> l = Some x" and "eval \<rho> r = Some y" and "bin_val k x y = Some v"
    and "\<not> IsFloat d"
  shows "eval \<rho> e = Some v"
  using assms by (cases k) (auto simp: TryConstFoldBinary_def Let_def fold_evals dest: FoldFloatDiv_eval)

lemma TryConstFoldUnary_eval:
  assumes "TryConstFoldUnary H k e = Some e'" and "eval \<rho> e = Some x"
    and "un_val \<rho>' k d x = Some v"
  shows "eval \<rho> e' = Some v"
  using assms
  by (cases k; cases e) (auto simp: TryConstFoldUnary_def is_truth_def split: if_splits)

lemma TryConstFoldCast_eval:
  assumes "TryConstFoldCast e d = Some e'" and "wf_expr e" and "casts_fit \<rho>"
    and "eval \<rho> e = Some x" and "ccast \<rho> d x = Some v" and "\<not> IsFloat d"
  shows "eval \<rho> e' = Some v"
  using assms by (cases e) (auto simp: TryConstFoldCast_def casts_fit_def split: if_splits)

lemma fold_value:
  assumes "ptr_ok H" and "casts_fit \<rho>" and "wf_expr e"
    and "TryConstFold H e = Inr (Some e')" and "eval \<rho> e = Some v"
  shows "eval \<rho> e' = Some v"
proof (cases e)
  case (Binary k l r d)
  obtain x y where "eval \<rho> l = Some x" and "eval \<rho> r = Some y" and "bin_val k x y = Some v"
    and "\<not> IsFloat d"
    using assms(5) unfolding Binary by (rule eval_BinaryE)
  with assms(1,4) Binary show ?thesis
    by (auto simp: TryConstFold_def intro: TryConstFoldBinary_eval)
next
  case (Unary k a d)
  obtain x where "eval \<rho> a = Some x" and "un_val \<rho> k d x = Some v" and "\<not> IsFloat d"
    using assms(5) unfolding Unary by (rule eval_UnaryE)
  with assms Unary show ?thesis
    by (cases k) (auto simp: TryConstFold_def simp del: un_val.simps(1-4)
        intro: TryConstFoldUnary_eval TryConstFoldCast_eval)
qed (use assms in \<open>auto simp: TryConstFold_def\<close>)

text \<open>
  Claim C1. Constant folding keeps the value: when an operation on expressions of integers and
  truth values has a value and a fold applies to it, the folded expression has that value. It
  holds for every reading of conversions that keeps representable values.
\<close>

theorem TryConstFold_sound:
  assumes "ptr_ok H" and "casts_fit \<rho>" and "wf_expr e"
    and "TryConstFold H e = Inr (Some e')" and "eval \<rho> e = Some v"
  shows "eval \<rho> e' = Some v"
  using assms by (rule fold_value)

section \<open>Types and errors\<close>

lemma div_i64:
  assumes "is_i64 a" and "is_i64 b" and "b \<noteq> 0" and "\<not> (a = INT64_MIN \<and> b = -1)"
  shows "is_i64 (a div b)"
proof -
  have pos: "INT64_MIN \<le> n div c \<and> n div c \<le> INT64_MAX"
    if "0 < c" and "INT64_MIN \<le> n" and "n < (INT64_MAX + 1) * c" for n c
  proof -
    have "INT64_MIN * c \<le> INT64_MIN" using that(1) by (simp add: limits_defs)
    with that show ?thesis
      using le_div_iff_mult [of c INT64_MIN n] div_less_iff_mult [of c n "INT64_MAX + 1"] by simp
  qed
  show ?thesis
  proof (cases "0 < b")
    case True
    with pos [of b a] assms show ?thesis by (simp add: i64_simps)
  next
    case False
    have "(- a) div (- b) = a div b" by simp
    moreover have "- a < (INT64_MAX + 1) * (- b)"
      using False assms by (cases "b = -1") (auto simp: i64_simps)
    ultimately show ?thesis
      using pos [of "- b" "- a"] False assms by (auto simp: i64_simps)
  qed
qed

lemma is_i64_signed_take_bit: "is_i64 x \<longleftrightarrow> signed_take_bit 63 x = x"
  by (auto simp: signed_take_bit_int_eq_self_iff is_i64_alt)

lemma is_i64_bits: "is_i64 x \<longleftrightarrow> (\<forall>n. bit x (min 63 n) = bit x n)"
  by (auto simp: is_i64_signed_take_bit bit_eq_iff bit_signed_take_bit_iff)

lemma bitwise_i64:
  "is_i64 x \<Longrightarrow> is_i64 y \<Longrightarrow> is_i64 (and x y)"
  "is_i64 x \<Longrightarrow> is_i64 y \<Longrightarrow> is_i64 (or x y)"
  "is_i64 x \<Longrightarrow> is_i64 y \<Longrightarrow> is_i64 (xor x y)"
  by (auto simp: is_i64_bits bit_and_iff bit_or_iff bit_xor_iff)

lemma not_i64: "is_i64 x \<Longrightarrow> is_i64 (not x)"
  by (auto simp: is_i64_alt not_int_def)

lemma mod_i64:
  assumes "is_i64 a" and "is_i64 b"
  shows "is_i64 (a mod b)"
proof (cases "b = 0")
  case False
  have "if 0 < b then 0 \<le> a mod b \<and> a mod b < b else b < a mod b \<and> a mod b \<le> 0"
    using False by auto
  with assms False show ?thesis by (auto simp: is_i64_alt split: if_splits)
qed (use assms in simp)

lemma shift_right_i64: "is_i64 a \<Longrightarrow> is_i64 (a div 2 ^ n)"
proof -
  assume a: "is_i64 a"
  have "INT64_MIN * 2 ^ n \<le> INT64_MIN" and "INT64_MAX + 1 \<le> (INT64_MAX + 1) * 2 ^ n"
    by (simp_all add: limits_defs)
  with a show ?thesis
    using le_div_iff_mult [of "2 ^ n" INT64_MIN a] div_less_iff_mult [of "2 ^ n" a "INT64_MAX + 1"]
    by (simp add: is_i64_def)
qed

lemma pow_loop_i64:
  "pow_loop r c e = Some v \<Longrightarrow> is_i64 r \<Longrightarrow> is_i64 c \<Longrightarrow> is_i64 v"
proof (induction r c e rule: pow_loop.induct)
  case (1 r c e)
  show ?case
  proof (cases "e \<le> 0")
    case True
    with 1 show ?thesis by (simp add: pow_loop.simps)
  next
    case False
    define r' where "r' = (if odd e then r * c else r)"
    have no: "\<not> (odd e \<and> MulWouldOverflow r c)"
      using "1.prems"(1) False by (auto simp: pow_loop.simps [of r c e])
    then have r': "is_i64 r'"
      using "1.prems"(2,3) by (auto simp: r'_def MulWouldOverflow_iff)
    show ?thesis
    proof (cases "e div 2 > 0")
      case True
      with "1.prems"(1) False no have "pow_loop r' (c * c) (e div 2) = Some v"
        and "\<not> MulWouldOverflow c c"
        by (auto simp: pow_loop.simps [of r c e] r'_def Let_def split: if_splits)
      with r' show ?thesis
        using "1.IH"(1) [OF False no r'_def refl True] "1.prems"(3) by (simp add: MulWouldOverflow_iff)
    next
      case nz: False
      with "1.prems"(1) False no have "pow_loop r' c (e div 2) = Some v"
        by (auto simp: pow_loop.simps [of r c e] r'_def Let_def split: if_splits)
      with nz r' show ?thesis by (simp add: pow_loop.simps [of r' c "e div 2"])
    qed
  qed
qed

lemmas fold_i64 =
  AddWouldOverflow_iff SubWouldOverflow_iff MulWouldOverflow_iff NegWouldOverflow_iff
  div_i64 mod_i64 bitwise_i64 not_i64 shift_right_i64 to_i64_range

lemma is_i64_01 [simp]: "is_i64 0" "is_i64 1"
  by (simp_all add: is_i64_alt)

lemma TryConstFoldBinary_wf:
  assumes "wf_expr l" and "wf_expr r" and "TryConstFoldBinary H k l r d = Inr (Some e)"
  shows "wf_expr e"
proof (cases "k = KPow")
  case True
  with assms show ?thesis
    by (auto simp: TryConstFoldBinary_def Let_def FoldPow_def SafeIntPow_def fold_unfolds
        dest!: pow_loop_i64 [OF _ is_i64_01(2)] split: option.splits if_splits)
next
  case False
  with assms show ?thesis
    by (cases k; simp add: TryConstFoldBinary_def Let_def)
       (auto simp: FoldAdd_def FoldSub_def FoldMul_def FoldFloorDiv_def FoldFloorMod_def
        FoldFloatDiv_def FoldMin_def FoldMax_def FoldAnd_def FoldOr_def FoldXor_def FoldCompare_def
        FoldIntOnly_def FoldShiftLeft_def FoldShiftRight_def fold_unfolds floordiv_eq floormod_eq
        fold_i64 split: option.splits if_splits bool.splits)
qed

lemma TryConstFoldUnary_wf:
  "wf_expr e \<Longrightarrow> TryConstFoldUnary H k e = Some e' \<Longrightarrow> wf_expr e'"
  by (cases k; cases e) (auto simp: TryConstFoldUnary_def fold_i64 split: if_splits)

lemma TryConstFoldCast_wf: "wf_expr e \<Longrightarrow> TryConstFoldCast e d = Some e' \<Longrightarrow> wf_expr e'"
  by (cases e) (auto simp: TryConstFoldCast_def split: if_splits)

lemma fold_wf:
  assumes "wf_expr e" and "TryConstFold H e = Inr (Some e')"
  shows "wf_expr e'"
proof (cases e)
  case (Unary k a d)
  with assms show ?thesis
    by (cases k) (auto simp: TryConstFold_def intro: TryConstFoldUnary_wf TryConstFoldCast_wf)
qed (use assms in \<open>auto simp: TryConstFold_def intro: TryConstFoldBinary_wf\<close>)


text \<open>
  What folding throws: a \<open>ValueError\<close> for a floor division or modulo by a literal zero, the one overflowing
  quotient of literals, and a negative literal exponent of a literal; a \<open>TypeError\<close> where the fold asks for the data type
  of a left operand that has none, for a floor division by 1 and the power 0.
\<close>

definition fold_throws :: "binop \<Rightarrow> 'f expr \<Rightarrow> 'f expr \<Rightarrow> DataType \<Rightarrow> bool" where
  "fold_throws k l r d =
     (case as_int r of
        None \<Rightarrow> False
      | Some (b, _) \<Rightarrow>
          if k = KFloorDiv \<or> k = KFloorMod then
            FloorDivModOperandsFitDtype l r d \<and>
            (b = 0 \<or> (b = -1 \<and> map_option fst (as_int l) = Some INT64_MIN))
          else k = KPow \<and> b < 0 \<and> as_int l \<noteq> None)"

definition fold_error :: "binop \<Rightarrow> 'f expr \<Rightarrow> 'f expr \<Rightarrow> DataType \<Rightarrow> err option" where
  "fold_error k l r d =
     (if fold_throws k l r d then Some ValueError
      else if scalar_type l = None \<and>
        (k = KFloorDiv \<and> FloorDivModOperandsFitDtype l r d \<and> map_option fst (as_int r) = Some 1 \<or>
         k = KPow \<and> map_option fst (as_int r) = Some 0) then Some TypeError
      else None)"

definition throws :: "err option \<Rightarrow> 'a res \<Rightarrow> bool" where
  "throws x m \<longleftrightarrow> (case m of Inl y \<Rightarrow> x = Some y | Inr _ \<Rightarrow> x = None)"

lemma throws_simps [simp]: "throws x (Inl y) \<longleftrightarrow> x = Some y" "throws x (Inr z) \<longleftrightarrow> x = None"
  by (simp_all add: throws_def)

lemma throws_bind: "throws x (res_bind m f) \<longleftrightarrow> (case m of Inl y \<Rightarrow> x = Some y | Inr z \<Rightarrow> throws x (f z))"
  by (cases m) simp_all

lemma GetScalarDtype_not [simp]:
  "GetScalarDtype e \<noteq> Inl ValueError" "GetScalarDtype e \<noteq> Inl InternalError"
  "GetScalarDtype e \<noteq> Inl UndefinedBehavior"
  by (auto simp: GetScalarDtype_def split: option.splits)

lemma GetScalarDtype_cases: "GetScalarDtype e = (case scalar_type e of None \<Rightarrow> Inl TypeError | Some d \<Rightarrow> Inr d)"
  by (simp add: GetScalarDtype_def split: option.splits)

lemma literal_type: "scalar_type e = None \<Longrightarrow> as_int e = None \<and> as_float e = None"
  by (cases e) simp_all

lemma FoldFloorDiv_errors: "throws (fold_error KFloorDiv l r d) (FoldFloorDiv (operands l r) d)"
  by (cases "as_int r"; cases "as_int l"; cases "FloorDivModOperandsFitDtype l r d"; cases "scalar_type l")
     (auto simp: throws_bind fold_error_def fold_throws_def FoldFloorDiv_def operands_def floordiv_eq check_def
      GetScalarDtype_cases limits_defs split: if_splits)

lemma FoldFloorMod_errors: "throws (fold_error KFloorMod l r d) (FoldFloorMod (operands l r) d)"
  by (cases "as_int r"; cases "as_int l"; cases "FloorDivModOperandsFitDtype l r d")
     (auto simp: throws_bind fold_error_def fold_throws_def FoldFloorMod_def operands_def floormod_eq check_def
      limits_defs split: if_splits)

lemma FoldPow_errors: "throws (fold_error KPow l r d) (FoldPow D (operands l r))"
  using literal_type [of l]
  by (cases "as_int r"; cases "as_int l"; cases "as_float r"; cases "as_float l"; cases "scalar_type l")
     (auto simp: throws_bind fold_error_def fold_throws_def FoldPow_def SafeIntPow_def fold_unfolds check_def
      GetScalarDtype_cases split: if_splits)

text \<open>
  Claim C18. What folding an operation throws, exactly: a \<open>ValueError\<close> for a floor division or modulo of
  representable operands by the literal 0 or of the literal \<open>INT64_MIN\<close> by -1, and for a literal
  raised to a negative literal; a \<open>TypeError\<close> for a left operand that has no scalar type, divided by
  the literal 1 (both being representable) or raised to the literal 0, whose data type the fold asks for; and nothing
  for any other operation and operands. It never fails an internal check and never overflows.
\<close>

theorem TryConstFoldBinary_errors: "throws (fold_error k l r d) (TryConstFoldBinary H k l r d)"
proof (cases "k \<in> {KFloorDiv, KFloorMod, KPow}")
  case True
  then show ?thesis
    by (auto simp: TryConstFoldBinary_def Let_def FoldFloorDiv_errors FoldFloorMod_errors FoldPow_errors)
next
  case False
  then have "fold_error k l r d = None" by (auto simp: fold_error_def fold_throws_def split: option.splits)
  with False show ?thesis by (cases k) (auto simp: TryConstFoldBinary_def Let_def)
qed


section \<open>The theorems at work\<close>

text \<open>The fold of \<open>(-7) // 2\<close> on 64-bit literals, in the reading where conversions wrap.\<close>

lemma TryConstFold_sound_witness:
  "TryConstFold int_host (ibin KFloorDiv (ilit (-7)) (ilit 2)) = Inr (Some (ilit (-4))) \<and>
   eval (env_of Map.empty cast_wrap) (ilit (-4)) = Some (-4)"
proof -
  have f: "TryConstFold int_host (ibin KFloorDiv (ilit (-7)) (ilit 2)) = Inr (Some (ilit (-4)))"
    by (simp add: int_instance_defs TryConstFold_def TryConstFoldBinary_def FoldFloorDiv_def operands_def
        FloorDivModOperandsFitDtype_def literal_fits_def floordiv_eq limits_defs)
  have e: "eval (env_of Map.empty cast_wrap) (ibin KFloorDiv (ilit (-7)) (ilit 2)) = Some (-4)"
    by (simp add: int_instance_defs)
  have "wf_expr (ibin KFloorDiv (ilit (-7)) (ilit 2))"
    by (simp add: int_instance_defs i64_simps)
  with f TryConstFold_sound [OF int_host_ok _ _ f e] show ?thesis by (simp add: casts_fit_wrap)
qed


end
