(* ===== verification/Scoped_Analysis.thy ===== *)
theory Scoped_Analysis
  imports Expr
begin

text \<open>
  The contract between \<open>ConstraintContext\<close> of \<^verbatim>\<open>src/ir/arith/analyzer.cpp\<close> and the analyses it
  drives: an analysis answers queries about expressions from a state; entering a constraint gives a
  new state and what its recovery function restores; the answers are sound in an environment the
  state describes. The client enters several constraints, one inside the other, and leaves them in
  reverse order (\<open>enter_all\<close>, \<open>leave_all\<close>): inside, all constraints may be used; afterwards every
  query answers as before. The analyses interpret the contract in their own theories.
\<close>

section \<open>Nested scopes\<close>

text \<open>Entering constraints in order; the recoveries are collected innermost first.\<close>

fun enter_all :: "('m \<Rightarrow> 'c \<Rightarrow> ('m \<times> 'r) res) \<Rightarrow> 'm \<Rightarrow> 'c list \<Rightarrow> 'r list \<Rightarrow> ('m \<times> 'r list) res" where
  "enter_all enter m [] rs = Inr (m, rs)"
| "enter_all enter m (c # cs) rs = res_bind (enter m c) (\<lambda>(m', r). enter_all enter m' cs (r # rs))"

definition leave_all :: "('r \<Rightarrow> 'm \<Rightarrow> 'm) \<Rightarrow> 'r list \<Rightarrow> 'm \<Rightarrow> 'm" where
  "leave_all leave rs m = fold leave rs m"

text \<open>The contract on answers: they are sound, and a constraint that holds keeps them so.\<close>

locale sound_scopes =
  fixes query :: "'m \<Rightarrow> 'f expr \<Rightarrow> 'q res"
    and enter :: "'m \<Rightarrow> 'f expr \<Rightarrow> ('m \<times> 'r) res"
    and describes :: "'m \<Rightarrow> env \<Rightarrow> bool"
    and covers :: "env \<Rightarrow> 'f expr \<Rightarrow> bool"
    and usable :: "env \<Rightarrow> 'f expr \<Rightarrow> bool"
    and answer :: "env \<Rightarrow> 'q \<Rightarrow> int \<Rightarrow> bool"
  assumes query_sound:
      "describes m \<rho> \<Longrightarrow> covers \<rho> e \<Longrightarrow> query m e = Inr q \<Longrightarrow> eval \<rho> e = Some v \<Longrightarrow> answer \<rho> q v"
    and enter_sound:
      "describes m \<rho> \<Longrightarrow> usable \<rho> c \<Longrightarrow> eval \<rho> c = Some 1 \<Longrightarrow> enter m c = Inr (m', r) \<Longrightarrow>
       describes m' \<rho>"
begin

text \<open>Inside the scopes every query is sound in an environment that satisfies the constraints.\<close>

lemma enter_all_describes:
  "describes m \<rho> \<Longrightarrow> \<forall>c\<in>set cs. usable \<rho> c \<and> eval \<rho> c = Some 1 \<Longrightarrow>
   enter_all enter m cs rs = Inr (m', rs') \<Longrightarrow> describes m' \<rho>"
proof (induction cs arbitrary: m rs)
  case (Cons c cs)
  then obtain m1 r where e: "enter m c = Inr (m1, r)" and all: "enter_all enter m1 cs (r # rs) = Inr (m', rs')"
    by auto
  have "describes m1 \<rho>" using enter_sound [OF Cons.prems(1) _ _ e] Cons.prems(2) by simp
  then show ?case using Cons.IH [OF _ _ all] Cons.prems(2) by simp
qed simp

lemma scope_query_sound:
  assumes "describes m \<rho>" and "\<forall>c\<in>set cs. usable \<rho> c \<and> eval \<rho> c = Some 1"
    and "enter_all enter m cs [] = Inr (m', rs)"
    and "covers \<rho> e" and "query m' e = Inr q" and "eval \<rho> e = Some v"
  shows "answer \<rho> q v"
  using query_sound [OF enter_all_describes [OF assms(1-3)] assms(4-6)] .

end

text \<open>The contract on recovery functions: they undo what entering did, up to \<open>same\<close> answers.\<close>

locale scoped_analysis = sound_scopes query enter describes covers usable answer
  for query :: "'m \<Rightarrow> 'f expr \<Rightarrow> 'q res"
    and enter :: "'m \<Rightarrow> 'f expr \<Rightarrow> ('m \<times> 'r) res"
    and describes covers usable answer +
  fixes leave :: "'r \<Rightarrow> 'm \<Rightarrow> 'm"
    and same :: "'m \<Rightarrow> 'm \<Rightarrow> bool"
  assumes same_refl: "same m m"
    and same_trans: "same m m' \<Longrightarrow> same m' m'' \<Longrightarrow> same m m''"
    and same_query: "same m m' \<Longrightarrow> query m e = query m' e"
    and leave_same: "same m m' \<Longrightarrow> same (leave r m) (leave r m')"
    and leave_enter: "enter m c = Inr (m', r) \<Longrightarrow> same (leave r m') m"
begin

text \<open>Leaving all scopes restores every answer.\<close>

lemma leave_all_same: "same m m' \<Longrightarrow> same (leave_all leave rs m) (leave_all leave rs m')"
  by (induction rs arbitrary: m m') (auto simp: leave_all_def intro: leave_same)

lemma leave_all_enter_all:
  "enter_all enter m cs rs = Inr (m', rs') \<Longrightarrow>
   same (leave_all leave rs' m') (leave_all leave rs m)"
proof (induction cs arbitrary: m rs)
  case (Cons c cs)
  then obtain m1 r where e: "enter m c = Inr (m1, r)" and all: "enter_all enter m1 cs (r # rs) = Inr (m', rs')"
    by auto
  have "same (leave_all leave rs (leave r m1)) (leave_all leave rs m)"
    by (rule leave_all_same [OF leave_enter [OF e]])
  then show ?case using Cons.IH [OF all] same_trans by (simp add: leave_all_def)
qed (simp add: same_refl)

lemma scope_restores:
  assumes "enter_all enter m cs [] = Inr (m', rs)"
  shows "query (leave_all leave rs m') e = query m e"
  using same_query [OF leave_all_enter_all [OF assms]] by (simp add: leave_all_def)

end

end
