(* ===== verification/Const_Int_Bound.thy ===== *)
theory Const_Int_Bound
  imports Const_Fold Scoped_Analysis
begin

text \<open>
  Interval analysis, \<^verbatim>\<open>src/ir/arith/const_int_bound.cpp\<close> with \<open>struct ConstIntBound\<close> of
  \<^verbatim>\<open>include/pypto/ir/arith/analyzer.h\<close>: the saturating arithmetic on bounds, the visitor that
  computes the bound of an expression from the bounds of its variables (\<open>cib_visit\<close>, one
  function for the binary and one for the unary nodes), the constraint scope
  (\<open>cib_enter_constraint\<close>, with the list from which \<open>cib_recover\<close> restores the map), and the
  public operations \<open>cib_bind\<close>, \<open>cib_update\<close>, \<open>cib_unbind\<close>. The state is the map from variables
  to bounds. Shown here: bounds are sound for values strictly between the two sentinels, for the
  conversions of \<open>casts_bounded\<close>; entering a constraint that holds keeps the state sound; leaving
  the scope restores what every query sees; and the analysis never fails an internal check.
\<close>

section \<open>Bounds\<close>

record ConstIntBound =
  min_value :: int
  max_value :: int

definition kPosInf :: int where
  "kPosInf = INT64_MAX"

definition kNegInf :: int where
  "kNegInf = - kPosInf"

lemmas inf_defs = kPosInf_def kNegInf_def

definition bnd :: "int \<Rightarrow> int \<Rightarrow> ConstIntBound" where
  "bnd lo hi = \<lparr>min_value = lo, max_value = hi\<rparr>"

lemma bnd_simps [simp]: "min_value (bnd lo hi) = lo" "max_value (bnd lo hi) = hi"
  "bnd lo hi = bnd lo' hi' \<longleftrightarrow> lo = lo' \<and> hi = hi'"
  by (simp_all add: bnd_def)

definition is_const :: "ConstIntBound \<Rightarrow> bool" where
  "is_const b \<longleftrightarrow> min_value b = max_value b"

definition is_const_value :: "ConstIntBound \<Rightarrow> int \<Rightarrow> bool" where
  "is_const_value b v \<longleftrightarrow> min_value b = v \<and> max_value b = v"

definition is_non_negative :: "ConstIntBound \<Rightarrow> bool" where
  "is_non_negative b \<longleftrightarrow> min_value b \<ge> 0"

definition is_everything :: "ConstIntBound \<Rightarrow> bool" where
  "is_everything b \<longleftrightarrow> min_value b = kNegInf \<and> max_value b = kPosInf"

definition Everything :: ConstIntBound where
  "Everything = bnd kNegInf kPosInf"

section \<open>Saturating arithmetic\<close>

definition InfAwareAdd :: "int \<Rightarrow> int \<Rightarrow> int" where
  "InfAwareAdd a b =
     (if a = kPosInf \<or> b = kPosInf then kPosInf
      else if a = kNegInf \<or> b = kNegInf then kNegInf
      else if AddWouldOverflow a b then (if b > 0 then kPosInf else kNegInf)
      else a + b)"

definition InfAwareMul :: "int \<Rightarrow> int \<Rightarrow> int" where
  "InfAwareMul a b =
     (if a = 0 \<or> b = 0 then 0
      else let pos_result = ((a > 0) = (b > 0)) in
        if a = kPosInf \<or> a = kNegInf \<or> b = kPosInf \<or> b = kNegInf then
          (if pos_result then kPosInf else kNegInf)
        else if MulWouldOverflow a b then (if pos_result then kPosInf else kNegInf)
        else a * b)"

definition InfAwareNeg :: "int \<Rightarrow> int" where
  "InfAwareNeg a =
     (if a = kPosInf then kNegInf
      else if a = kNegInf then kPosInf
      else if NegWouldOverflow a then kPosInf
      else - a)"

text \<open>The squaring loop of \<open>InfAwarePow\<close>, with its two early returns.\<close>

function inf_pow_loop :: "int \<Rightarrow> int \<Rightarrow> int \<Rightarrow> int \<Rightarrow> int \<Rightarrow> int" where
  "inf_pow_loop base exp result b e =
     (if e \<le> 0 then result
      else let result' = (if odd e then InfAwareMul result b else result) in
        if odd e \<and> (result' = kPosInf \<or> result' = kNegInf) then result'
        else let e' = e div 2 in
          if e' > 0 then
            let b' = InfAwareMul b b in
            if b' = kPosInf \<or> b' = kNegInf then
              (if (result' > 0) = (base > 0 \<or> even exp) then kPosInf else kNegInf)
            else inf_pow_loop base exp result' b' e'
          else inf_pow_loop base exp result' b e')"
  by pat_completeness auto
termination
  by (relation "measure (\<lambda>(base, exp, result, b, e). nat e)") auto

declare inf_pow_loop.simps [simp del]

definition InfAwarePow :: "int \<Rightarrow> int \<Rightarrow> int" where
  "InfAwarePow base exp =
     (if exp = 0 then 1
      else if base = 0 then 0
      else if base = 1 then 1
      else inf_pow_loop base exp 1 base exp)"

section \<open>Compound bounds\<close>

definition BoundPreservesDtype :: "ConstIntBound \<Rightarrow> 'f expr \<Rightarrow> DataType \<Rightarrow> bool res" where
  "BoundPreservesDtype b e d =
     (if min_value b > max_value b then Inr False
      else if is_everything b then Inr True
      else res_bind (GetScalarDtype e) (\<lambda>od.
        Inr (ConstIntFitsDtype (min_value b) od \<and> ConstIntFitsDtype (max_value b) od \<and>
             ConstIntFitsDtype (min_value b) d \<and> ConstIntFitsDtype (max_value b) d)))"

definition BoundMul :: "ConstIntBound \<Rightarrow> ConstIntBound \<Rightarrow> ConstIntBound" where
  "BoundMul a b =
     (let v0 = InfAwareMul (min_value a) (min_value b);
          v1 = InfAwareMul (min_value a) (max_value b);
          v2 = InfAwareMul (max_value a) (min_value b);
          v3 = InfAwareMul (max_value a) (max_value b)
      in bnd (min (min v0 v1) (min v2 v3)) (max (max v0 v1) (max v2 v3)))"

definition BoundFloorDivPositiveRHS :: "ConstIntBound \<Rightarrow> ConstIntBound \<Rightarrow> ConstIntBound res" where
  "BoundFloorDivPositiveRHS a b =
     res_bind (if min_value a \<ge> 0 then floordiv (min_value a) (max_value b)
               else floordiv (min_value a) (min_value b)) (\<lambda>lo.
     res_bind (if max_value a \<ge> 0 then floordiv (max_value a) (min_value b)
               else floordiv (max_value a) (max_value b)) (\<lambda>hi.
     Inr (bnd lo hi)))"

definition BoundFloorDiv :: "ConstIntBound \<Rightarrow> ConstIntBound \<Rightarrow> ConstIntBound res" where
  "BoundFloorDiv a b =
     (if min_value b > 0 then BoundFloorDivPositiveRHS a b
      else if max_value b < 0 then
        BoundFloorDivPositiveRHS (bnd (InfAwareNeg (max_value a)) (InfAwareNeg (min_value a)))
          (bnd (InfAwareNeg (max_value b)) (InfAwareNeg (min_value b)))
      else Inr Everything)"

definition BoundFloorMod :: "ConstIntBound \<Rightarrow> ConstIntBound \<Rightarrow> ConstIntBound res" where
  "BoundFloorMod a b =
     (if min_value b > 0 then
        res_bind (i64 (max_value b - 1)) (\<lambda>m.
          Inr (if is_non_negative a then bnd 0 (min (max_value a) m) else bnd 0 m))
      else Inr Everything)"

definition BoundFromOpSemantics :: "string \<Rightarrow> ConstIntBound" where
  "BoundFromOpSemantics f =
     (if f = ''tile.get_block_idx'' \<or> f = ''tile.get_subblock_idx''
       \<or> f = ''tensor.get_block_idx'' \<or> f = ''tensor.get_subblock_idx'' then bnd 0 kPosInf
      else if f = ''tile.get_block_num'' \<or> f = ''tensor.get_block_num'' then bnd 1 kPosInf
      else Everything)"

definition DefaultBound :: ConstIntBound where
  "DefaultBound = Everything"

text \<open>A C++ shift: undefined unless the amount is less than the width.\<close>

definition shift_amount :: "int \<Rightarrow> nat res" where
  "shift_amount n = (if 0 \<le> n \<and> n < 64 then Inr (nat n) else Inl UndefinedBehavior)"

section \<open>The visitor\<close>

type_synonym bound_map = "nat \<Rightarrow> ConstIntBound option"

text \<open>
  The two 64-bit constants a float literal is compared with are converted to \<open>double\<close> first,
  where both round to magnitude \<open>2 ^ 63\<close>.
\<close>

definition cib_const_float :: "'f double_ops \<Rightarrow> 'f \<Rightarrow> ConstIntBound res" where
  "cib_const_float D v =
     (if \<not> d_isfinite D v then Inr Everything
      else let lo = d_floor D v; hi = d_ceil D v in
        res_bind (if lo < - (2 ^ 63) then Inr kNegInf else i64 lo) (\<lambda>lo_i.
        res_bind (if hi > 2 ^ 63 then Inr kPosInf else i64 hi) (\<lambda>hi_i. Inr (bnd lo_i hi_i))))"

text \<open>
  The binary nodes; \<open>va\<close> and \<open>vb\<close> are the results of visiting the operands, which the
  comparisons and the logical nodes do not look at.
\<close>

definition cib_div_mod ::
  "(ConstIntBound \<Rightarrow> ConstIntBound \<Rightarrow> ConstIntBound res) \<Rightarrow> 'f expr \<Rightarrow> 'f expr \<Rightarrow> DataType \<Rightarrow>
   ConstIntBound res \<Rightarrow> ConstIntBound res \<Rightarrow> ConstIntBound res" where
  "cib_div_mod f l r d va vb =
     (if \<not> FloorDivModOperandsFitDtype l r d then Inr Everything
      else res_bind va (\<lambda>a. res_bind vb (\<lambda>b.
        res_bind (BoundPreservesDtype a l d) (\<lambda>pa.
        if \<not> pa then Inr Everything
        else res_bind (BoundPreservesDtype b r d) (\<lambda>pb.
          if \<not> pb then Inr Everything else f a b)))))"

definition cib_binary ::
  "binop \<Rightarrow> 'f expr \<Rightarrow> 'f expr \<Rightarrow> DataType \<Rightarrow> ConstIntBound res \<Rightarrow> ConstIntBound res \<Rightarrow>
   ConstIntBound res" where
  "cib_binary k l r d va vb =
     (case k of
        KAdd \<Rightarrow> res_bind va (\<lambda>a. res_bind vb (\<lambda>b.
          Inr (bnd (InfAwareAdd (min_value a) (min_value b))
                   (InfAwareAdd (max_value a) (max_value b)))))
      | KSub \<Rightarrow> res_bind va (\<lambda>a. res_bind vb (\<lambda>b.
          Inr (bnd (InfAwareAdd (min_value a) (InfAwareNeg (max_value b)))
                   (InfAwareAdd (max_value a) (InfAwareNeg (min_value b))))))
      | KMul \<Rightarrow> res_bind va (\<lambda>a. res_bind vb (\<lambda>b. Inr (BoundMul a b)))
      | KFloorDiv \<Rightarrow> cib_div_mod BoundFloorDiv l r d va vb
      | KFloorMod \<Rightarrow> cib_div_mod BoundFloorMod l r d va vb
      | KFloatDiv \<Rightarrow> Inr Everything
      | KMin \<Rightarrow> res_bind va (\<lambda>a. res_bind vb (\<lambda>b.
          Inr (bnd (min (min_value a) (min_value b)) (min (max_value a) (max_value b)))))
      | KMax \<Rightarrow> res_bind va (\<lambda>a. res_bind vb (\<lambda>b.
          Inr (bnd (max (min_value a) (min_value b)) (max (max_value a) (max_value b)))))
      | KPow \<Rightarrow> res_bind va (\<lambda>base. res_bind vb (\<lambda>exp.
          if \<not> is_const exp \<or> min_value exp < 0 then Inr Everything
          else let e = min_value exp in
            if e = 0 then Inr (bnd 1 1)
            else if e = 1 then Inr base
            else if is_non_negative base then
              Inr (bnd (InfAwarePow (min_value base) e) (InfAwarePow (max_value base) e))
            else Inr Everything))
      | KEq \<Rightarrow> Inr (bnd 0 1) | KNe \<Rightarrow> Inr (bnd 0 1) | KLt \<Rightarrow> Inr (bnd 0 1)
      | KLe \<Rightarrow> Inr (bnd 0 1) | KGt \<Rightarrow> Inr (bnd 0 1) | KGe \<Rightarrow> Inr (bnd 0 1)
      | KAnd \<Rightarrow> Inr (bnd 0 1) | KOr \<Rightarrow> Inr (bnd 0 1) | KXor \<Rightarrow> Inr (bnd 0 1)
      | KBitAnd \<Rightarrow> res_bind va (\<lambda>a. res_bind vb (\<lambda>b.
          if is_non_negative a \<and> is_non_negative b then
            Inr (bnd 0 (min (max_value a) (max_value b)))
          else Inr Everything))
      | KBitOr \<Rightarrow> res_bind va (\<lambda>a. res_bind vb (\<lambda>b.
          if is_non_negative a \<and> is_non_negative b then
            Inr (bnd (max (min_value a) (min_value b)) (InfAwareAdd (max_value a) (max_value b)))
          else Inr Everything))
      | KBitXor \<Rightarrow> Inr Everything
      | KBitShiftLeft \<Rightarrow> res_bind va (\<lambda>a. res_bind vb (\<lambda>b.
          if is_non_negative a \<and> is_non_negative b \<and> max_value b < 63 then
            res_bind (shift_amount (min_value b)) (\<lambda>s.
            res_bind (i64 (2 ^ s)) (\<lambda>p.
            res_bind (shift_amount (max_value b)) (\<lambda>s'.
            res_bind (i64 (2 ^ s')) (\<lambda>p'.
            Inr (bnd (InfAwareMul (min_value a) p) (InfAwareMul (max_value a) p'))))))
          else Inr Everything))
      | KBitShiftRight \<Rightarrow> res_bind va (\<lambda>a. res_bind vb (\<lambda>b.
          if is_non_negative a \<and> is_non_negative b \<and> max_value b < 63 then
            res_bind (shift_amount (max_value b)) (\<lambda>s.
            res_bind (shift_amount (min_value b)) (\<lambda>s'.
            Inr (bnd (min_value a div 2 ^ s) (max_value a div 2 ^ s'))))
          else Inr Everything)))"

definition cib_cast :: "DataType \<Rightarrow> ConstIntBound \<Rightarrow> ConstIntBound" where
  "cib_cast d a =
     (if \<not> IsInt d then Everything
      else let bits = GetBit d in
        if bits = 0 \<or> bits \<ge> 64 then a
        else let type_min = (if IsUnsignedInt d then 0 else - (2 ^ (bits - 1)));
                 type_max = (if IsUnsignedInt d then 2 ^ bits - 1 else 2 ^ (bits - 1) - 1)
          in if min_value a < type_min \<or> max_value a > type_max \<or> min_value a > max_value a
             then bnd type_min type_max
             else a)"

definition cib_unary :: "unop \<Rightarrow> DataType \<Rightarrow> ConstIntBound res \<Rightarrow> ConstIntBound res" where
  "cib_unary k d va =
     (case k of
        KNeg \<Rightarrow> res_bind va (\<lambda>a. Inr (bnd (InfAwareNeg (max_value a)) (InfAwareNeg (min_value a))))
      | KAbs \<Rightarrow> res_bind va (\<lambda>a.
          if min_value a \<ge> 0 then Inr a
          else if max_value a \<le> 0 then
            Inr (bnd (InfAwareNeg (max_value a)) (InfAwareNeg (min_value a)))
          else Inr (bnd 0 (max (InfAwareNeg (min_value a)) (max_value a))))
      | KNot \<Rightarrow> Inr (bnd 0 1)
      | KBitNot \<Rightarrow> Inr Everything
      | KCast \<Rightarrow> res_bind va (\<lambda>a. Inr (cib_cast d a)))"

primrec cib_visit :: "'f host \<Rightarrow> bound_map \<Rightarrow> 'f expr \<Rightarrow> ConstIntBound res" where
  "cib_visit H m (ConstInt v d) =
     (if \<not> ConstIntFitsDtype v d then Inr Everything else Inr (bnd v v))"
| "cib_visit H m (ConstFloat v d) = cib_const_float (dbl H) v"
| "cib_visit H m (ConstBool b) = (let v = (if b then 1 else 0) in Inr (bnd v v))"
| "cib_visit H m (Var i t) = Inr (case m i of Some b \<Rightarrow> b | None \<Rightarrow> DefaultBound)"
| "cib_visit H m (IterArg i t) = Inr (case m i of Some b \<Rightarrow> b | None \<Rightarrow> DefaultBound)"
| "cib_visit H m (Call f i t) = Inr (BoundFromOpSemantics f)"
| "cib_visit H m (Opaque i t) = Inr Everything"
| "cib_visit H m (Binary k l r d) = cib_binary k l r d (cib_visit H m l) (cib_visit H m r)"
| "cib_visit H m (Unary k a d) = cib_unary k d (cib_visit H m a)"

section \<open>Constraint scopes\<close>

definition IsIntegerScalar :: "DataType option \<Rightarrow> bool" where
  "IsIntegerScalar t = (case t of Some d \<Rightarrow> IsInt d | None \<Rightarrow> False)"

definition StrictBound :: "DataType option \<Rightarrow> int \<Rightarrow> int \<Rightarrow> int" where
  "StrictBound t bound unit = (if IsIntegerScalar t then InfAwareAdd bound unit else bound)"

text \<open>The map and the recovery list, in the order its entries are added.\<close>

type_synonym cib_scope = "bound_map \<times> (nat \<times> ConstIntBound) list"

definition TryTighten :: "nat \<Rightarrow> ConstIntBound \<Rightarrow> cib_scope \<Rightarrow> cib_scope" where
  "TryTighten i new_bound s =
     (case s of (m, recovery) \<Rightarrow>
       let old = (case m i of Some b \<Rightarrow> b | None \<Rightarrow> DefaultBound) in
       (m(i \<mapsto> bnd (max (min_value old) (min_value new_bound)) (min (max_value old) (max_value new_bound))),
        recovery @ [(i, old)]))"

text \<open>
  One comparison: the bound to impose when the variable is on the left of the operator and the
  other operand is constant, and when it is on the right.
\<close>

definition left_bound :: "binop \<Rightarrow> DataType option \<Rightarrow> ConstIntBound \<Rightarrow> ConstIntBound" where
  "left_bound k t rb =
     (case k of
        KGe \<Rightarrow> bnd (min_value rb) kPosInf
      | KGt \<Rightarrow> bnd (StrictBound t (min_value rb) 1) kPosInf
      | KLe \<Rightarrow> bnd kNegInf (max_value rb)
      | KLt \<Rightarrow> bnd kNegInf (StrictBound t (max_value rb) (-1))
      | _ \<Rightarrow> rb)"

definition right_bound :: "binop \<Rightarrow> DataType option \<Rightarrow> ConstIntBound \<Rightarrow> ConstIntBound" where
  "right_bound k t lb =
     (case k of
        KGe \<Rightarrow> bnd kNegInf (max_value lb)
      | KGt \<Rightarrow> bnd kNegInf (StrictBound t (max_value lb) (-1))
      | KLe \<Rightarrow> bnd (min_value lb) kPosInf
      | KLt \<Rightarrow> bnd (StrictBound t (min_value lb) 1) kPosInf
      | _ \<Rightarrow> lb)"

definition parse_compare :: "'f host \<Rightarrow> binop \<Rightarrow> 'f expr \<Rightarrow> 'f expr \<Rightarrow> cib_scope \<Rightarrow> cib_scope res" where
  "parse_compare H k l r s =
     (case l of
        Var i t \<Rightarrow> res_bind (cib_visit H (fst s) r) (\<lambda>rb.
          Inr (if is_const rb then TryTighten i (left_bound k t rb) s else s))
      | _ \<Rightarrow> (case r of
          Var i t \<Rightarrow> res_bind (cib_visit H (fst s) l) (\<lambda>lb.
            Inr (if is_const lb then TryTighten i (right_bound k t lb) s else s))
        | _ \<Rightarrow> Inr s))"

fun TryParseConstraint :: "'f host \<Rightarrow> 'f expr \<Rightarrow> cib_scope \<Rightarrow> cib_scope res" where
  "TryParseConstraint H (Binary k l r d) s =
     (if k \<in> {KGe, KGt, KLe, KLt, KEq} then parse_compare H k l r s
      else if k = KAnd then
        res_bind (TryParseConstraint H l s) (\<lambda>s'. TryParseConstraint H r s')
      else Inr s)"
| "TryParseConstraint H e s = Inr s"

definition cib_enter_constraint :: "'f host \<Rightarrow> bound_map \<Rightarrow> 'f expr \<Rightarrow> cib_scope res" where
  "cib_enter_constraint H m c = TryParseConstraint H c (m, [])"

text \<open>The recovery function: the entries in reverse, an unbounded one by erasing the variable.\<close>

definition cib_restore :: "nat \<times> ConstIntBound \<Rightarrow> bound_map \<Rightarrow> bound_map" where
  "cib_restore p m = (case p of (i, b) \<Rightarrow> if is_everything b then m(i := None) else m(i \<mapsto> b))"

definition cib_recover :: "(nat \<times> ConstIntBound) list \<Rightarrow> bound_map \<Rightarrow> bound_map" where
  "cib_recover recovery m = fold cib_restore (rev recovery) m"

section \<open>Public operations\<close>

definition cib_bind :: "nat \<Rightarrow> int \<Rightarrow> int \<Rightarrow> bound_map \<Rightarrow> bound_map res" where
  "cib_bind i min_val max_val_exclusive m =
     res_bind (check ValueError (max_val_exclusive > min_val)) (\<lambda>_.
       Inr (m(i \<mapsto> bnd min_val (max_val_exclusive - 1))))"

definition cib_update :: "nat \<Rightarrow> ConstIntBound \<Rightarrow> bound_map \<Rightarrow> bound_map res" where
  "cib_update i b m =
     res_bind (check ValueError (min_value b \<le> max_value b)) (\<lambda>_. Inr (m(i \<mapsto> b)))"

definition cib_unbind :: "nat \<Rightarrow> bound_map \<Rightarrow> bound_map" where
  "cib_unbind i m = m(i := None)"


section \<open>Soundness of the arithmetic\<close>

text \<open>
  A value is covered when it lies strictly between the sentinels, which stand for the two
  infinities; the ends of a stored bound are 64-bit integers.
\<close>

definition in_bound :: "ConstIntBound \<Rightarrow> int \<Rightarrow> bool" where
  "in_bound b v \<longleftrightarrow> min_value b \<le> v \<and> v \<le> max_value b"

definition finite_val :: "int \<Rightarrow> bool" where
  "finite_val v \<longleftrightarrow> kNegInf < v \<and> v < kPosInf"

definition wf_bound :: "ConstIntBound \<Rightarrow> bool" where
  "wf_bound b \<longleftrightarrow> is_i64 (min_value b) \<and> is_i64 (max_value b)"

lemma in_bound_bnd [simp]: "in_bound (bnd lo hi) v \<longleftrightarrow> lo \<le> v \<and> v \<le> hi"
  by (simp add: in_bound_def)

lemma wf_bound_bnd [simp]: "wf_bound (bnd lo hi) \<longleftrightarrow> is_i64 lo \<and> is_i64 hi"
  by (simp add: wf_bound_def)

lemma is_i64_inf [simp]: "is_i64 kPosInf" "is_i64 kNegInf"
  by (simp_all add: inf_defs i64_simps)

lemma Everything_in [simp]: "finite_val v \<Longrightarrow> in_bound Everything v"
  by (simp add: Everything_def finite_val_def)

lemma Everything_wf [simp]: "wf_bound Everything"
  by (simp add: Everything_def)

lemma InfAwareAdd_lower:
  "a \<le> x \<Longrightarrow> b \<le> y \<Longrightarrow> finite_val x \<Longrightarrow> finite_val y \<Longrightarrow> finite_val (x + y) \<Longrightarrow>
   InfAwareAdd a b \<le> x + y"
  by (auto simp: InfAwareAdd_def finite_val_def AddWouldOverflow_def inf_defs limits_defs)

lemma InfAwareAdd_upper:
  "x \<le> a \<Longrightarrow> y \<le> b \<Longrightarrow> finite_val x \<Longrightarrow> finite_val y \<Longrightarrow> finite_val (x + y) \<Longrightarrow>
   x + y \<le> InfAwareAdd a b"
  by (auto simp: InfAwareAdd_def finite_val_def AddWouldOverflow_def inf_defs limits_defs)

lemma InfAwareNeg_lower: "x \<le> a \<Longrightarrow> finite_val x \<Longrightarrow> InfAwareNeg a \<le> - x"
  by (auto simp: InfAwareNeg_def NegWouldOverflow_def finite_val_def inf_defs limits_defs)

lemma InfAwareNeg_upper: "a \<le> x \<Longrightarrow> finite_val x \<Longrightarrow> - x \<le> InfAwareNeg a"
  by (auto simp: InfAwareNeg_def NegWouldOverflow_def finite_val_def inf_defs limits_defs)

lemma finite_neg [simp]: "finite_val (- x) \<longleftrightarrow> finite_val x"
  by (auto simp: finite_val_def inf_defs)

lemma InfAwareAdd_i64 [simp]: "is_i64 a \<Longrightarrow> is_i64 b \<Longrightarrow> is_i64 (InfAwareAdd a b)"
  by (simp add: InfAwareAdd_def AddWouldOverflow_iff)

lemma InfAwareMul_i64 [simp]: "is_i64 a \<Longrightarrow> is_i64 b \<Longrightarrow> is_i64 (InfAwareMul a b)"
  unfolding InfAwareMul_def Let_def
  by (simp only: MulWouldOverflow_iff is_i64_01 is_i64_inf not_not split: if_split) simp

lemma InfAwareNeg_i64 [simp]: "is_i64 a \<Longrightarrow> is_i64 (InfAwareNeg a)"
  by (simp add: InfAwareNeg_def NegWouldOverflow_iff)

text \<open>A saturated product is the product, or the infinity on its side that the product reaches.\<close>

lemma abs_mult_ge: "(b::int) \<noteq> 0 \<Longrightarrow> \<bar>a\<bar> \<le> \<bar>a * b\<bar>"
  using mult_left_mono [of 1 "\<bar>b\<bar>" "\<bar>a\<bar>"] by (simp add: abs_mult)

lemma InfAwareMul_cases:
  assumes "is_i64 a" and "is_i64 b"
  obtains "InfAwareMul a b = a * b"
    | "InfAwareMul a b = kPosInf" "kPosInf \<le> a * b"
    | "InfAwareMul a b = kNegInf" "a * b \<le> kNegInf"
proof -
  have sgn: "((a > 0) = (b > 0)) = (a * b > 0)" if "a \<noteq> 0" "b \<noteq> 0"
    using that by (auto simp: zero_less_mult_iff)
  show ?thesis
  proof (cases "a = 0 \<or> b = 0")
    case False
    show ?thesis
    proof (cases "a = kPosInf \<or> a = kNegInf \<or> b = kPosInf \<or> b = kNegInf \<or> MulWouldOverflow a b")
      case True
      then have "kPosInf \<le> \<bar>a\<bar> \<or> kPosInf \<le> \<bar>b\<bar> \<or> \<not> is_i64 (a * b)"
        using assms by (auto simp: MulWouldOverflow_iff inf_defs limits_defs)
      moreover have "\<bar>a\<bar> \<le> \<bar>a * b\<bar>" "\<bar>b\<bar> \<le> \<bar>a * b\<bar>"
        using False abs_mult_ge [of b a] abs_mult_ge [of a b] by (simp_all add: mult.commute)
      ultimately have "kPosInf \<le> \<bar>a * b\<bar>"
        unfolding inf_defs i64_simps by arith
      moreover have "InfAwareMul a b = (if a * b > 0 then kPosInf else kNegInf)"
        using True False by (auto simp: InfAwareMul_def Let_def sgn)
      ultimately show ?thesis using that(2,3) by (auto simp: inf_defs abs_if split: if_splits)
    next
      case nf: False
      then have "InfAwareMul a b = a * b" using False by (simp add: InfAwareMul_def Let_def)
      then show ?thesis by (rule that(1))
    qed
  qed (auto intro: that(1) simp: InfAwareMul_def)
qed

lemma InfAwareMul_lower:
  "is_i64 a \<Longrightarrow> is_i64 b \<Longrightarrow> a * b \<le> v \<Longrightarrow> finite_val v \<Longrightarrow> InfAwareMul a b \<le> v"
  by (rule InfAwareMul_cases [of a b]) (auto simp: finite_val_def)

lemma InfAwareMul_upper:
  "is_i64 a \<Longrightarrow> is_i64 b \<Longrightarrow> v \<le> a * b \<Longrightarrow> finite_val v \<Longrightarrow> v \<le> InfAwareMul a b"
  by (rule InfAwareMul_cases [of a b]) (auto simp: finite_val_def)

lemma mult_between:
  fixes a b x y :: int
  assumes "a \<le> x" and "x \<le> b"
  shows "a * y \<le> x * y \<or> b * y \<le> x * y" and "x * y \<le> a * y \<or> x * y \<le> b * y"
  using assms by (cases "0 \<le> y"; simp add: mult_right_mono mult_right_mono_neg)+

lemma mult_corners:
  fixes a b c d x y :: int
  assumes "a \<le> x" "x \<le> b" "c \<le> y" "y \<le> d"
  shows "a * c \<le> x * y \<or> a * d \<le> x * y \<or> b * c \<le> x * y \<or> b * d \<le> x * y"
    and "x * y \<le> a * c \<or> x * y \<le> a * d \<or> x * y \<le> b * c \<or> x * y \<le> b * d"
proof -
  note x = mult_between [OF assms(1,2), of y]
  note y = mult_between [OF assms(3,4), of a] mult_between [OF assms(3,4), of b]
  show "a * c \<le> x * y \<or> a * d \<le> x * y \<or> b * c \<le> x * y \<or> b * d \<le> x * y"
    using x(1) y by (auto simp: mult.commute [of _ a] mult.commute [of _ b])
  show "x * y \<le> a * c \<or> x * y \<le> a * d \<or> x * y \<le> b * c \<or> x * y \<le> b * d"
    using x(2) y by (auto simp: mult.commute [of _ a] mult.commute [of _ b])
qed

lemma BoundMul_sound:
  assumes "wf_bound a" and "wf_bound b" and "in_bound a x" and "in_bound b y"
    and "finite_val (x * y)"
  shows "in_bound (BoundMul a b) (x * y)"
proof -
  note c = mult_corners [of "min_value a" x "max_value a" "min_value b" y "max_value b"]
  have i: "is_i64 (min_value a)" "is_i64 (max_value a)" "is_i64 (min_value b)" "is_i64 (max_value b)"
    using assms(1,2) by (simp_all add: wf_bound_def)
  have "min_value (BoundMul a b) \<le> x * y"
    using c(1) assms(3,4) i InfAwareMul_lower [OF _ _ _ assms(5)]
    by (auto simp: BoundMul_def Let_def in_bound_def min_le_iff_disj)
  moreover have "x * y \<le> max_value (BoundMul a b)"
    using c(2) assms(3,4) i InfAwareMul_upper [OF _ _ _ assms(5)]
    by (auto simp: BoundMul_def Let_def in_bound_def le_max_iff_disj)
  ultimately show ?thesis by (simp add: in_bound_def)
qed

lemma BoundMul_wf: "wf_bound a \<Longrightarrow> wf_bound b \<Longrightarrow> wf_bound (BoundMul a b)"
  by (auto simp: BoundMul_def Let_def wf_bound_def min_def max_def)

lemma BoundFloorDivPositiveRHS_sound:
  assumes "BoundFloorDivPositiveRHS a b = Inr c" and "in_bound a x" and "in_bound b y"
    and "min_value b > 0"
  shows "in_bound c (x div y)"
proof -
  have y: "0 < y" "0 < max_value b" "min_value b \<le> y" "y \<le> max_value b"
    and x: "min_value a \<le> x" "x \<le> max_value a"
    using assms(2-4) by (auto simp: in_bound_def)
  have "(if min_value a \<ge> 0 then min_value a div max_value b else min_value a div min_value b) \<le> x div y"
  proof (cases "min_value a \<ge> 0")
    case True
    have "min_value a div max_value b \<le> min_value a div y"
      using True y by (intro div_antimono_divisor) auto
    also have "\<dots> \<le> x div y" using x y by (intro div_le_mono_int)
    finally show ?thesis using True by simp
  next
    case False
    have "min_value a div min_value b \<le> min_value a div y"
      using False y assms(4) by (intro div_mono_divisor_neg) auto
    also have "\<dots> \<le> x div y" using x y by (intro div_le_mono_int)
    finally show ?thesis using False by simp
  qed
  moreover have "x div y \<le> (if max_value a \<ge> 0 then max_value a div min_value b else max_value a div max_value b)"
  proof (cases "max_value a \<ge> 0")
    case True
    have "x div y \<le> max_value a div y" using x y by (intro div_le_mono_int)
    also have "\<dots> \<le> max_value a div min_value b"
      using True y assms(4) by (intro div_antimono_divisor) auto
    finally show ?thesis using True by simp
  next
    case False
    have "x div y \<le> max_value a div y" using x y by (intro div_le_mono_int)
    also have "\<dots> \<le> max_value a div max_value b"
      using False y assms(4) by (intro div_mono_divisor_neg) auto
    finally show ?thesis using False by simp
  qed
  ultimately show ?thesis
    using assms(1) y(2) assms(4)
    by (auto simp: BoundFloorDivPositiveRHS_def floordiv_eq in_bound_def split: if_splits)
qed

lemma BoundFloorDiv_sound:
  assumes "BoundFloorDiv a b = Inr c" and "in_bound a x" and "in_bound b y"
    and "finite_val x" and "finite_val y" and "finite_val (x div y)"
  shows "in_bound c (x div y)"
proof (cases "min_value b > 0")
  case True
  with assms show ?thesis
    by (auto simp: BoundFloorDiv_def intro: BoundFloorDivPositiveRHS_sound)
next
  case False
  show ?thesis
  proof (cases "max_value b < 0")
    case True
    let ?n = "\<lambda>c. bnd (InfAwareNeg (max_value c)) (InfAwareNeg (min_value c))"
    have r: "BoundFloorDivPositiveRHS (?n a) (?n b) = Inr c"
      using assms(1) False True by (simp add: BoundFloorDiv_def)
    have pos: "0 < min_value (?n b)"
      using True by (auto simp: InfAwareNeg_def inf_defs limits_defs)
    have "in_bound (?n a) (- x)" and "in_bound (?n b) (- y)"
      using assms(2-5) by (auto simp: in_bound_def intro: InfAwareNeg_lower InfAwareNeg_upper)
    from BoundFloorDivPositiveRHS_sound [OF r this pos] show ?thesis by simp
  qed (use False assms in \<open>auto simp: BoundFloorDiv_def\<close>)
qed

lemma BoundFloorMod_sound:
  assumes "BoundFloorMod a b = Inr c" and "in_bound a x" and "in_bound b y"
    and "finite_val (x mod y)"
  shows "in_bound c (x mod y)"
proof (cases "min_value b > 0")
  case True
  with assms(3) have y: "0 < y" "y \<le> max_value b" by (auto simp: in_bound_def)
  then have "0 \<le> x mod y" and "x mod y < max_value b"
    using pos_mod_bound [of y x] by (simp, linarith)
  moreover have "x mod y \<le> x" if "0 \<le> x" using that y by (simp add: zmod_le_nonneg_dividend)
  ultimately show ?thesis
    using assms y True by (auto simp: BoundFloorMod_def is_non_negative_def in_bound_def split: if_splits)
qed (use assms in \<open>auto simp: BoundFloorMod_def\<close>)


text \<open>On non-negative operands the power loop computes the power, cut off at \<open>kPosInf\<close>.\<close>

lemma InfAwareMul_pos:
  assumes "is_i64 a" and "is_i64 b" and "0 < a" and "0 < b"
  shows "InfAwareMul a b = min kPosInf (a * b)"
proof (rule InfAwareMul_cases [OF assms(1,2)])
  assume eq: "InfAwareMul a b = a * b"
  have "is_i64 (a * b)" using InfAwareMul_i64 [OF assms(1,2)] eq by simp
  with eq show ?thesis by (simp add: is_i64_def kPosInf_def)
next
  assume "a * b \<le> kNegInf"
  moreover have "0 < a * b" using assms(3,4) by simp
  ultimately show ?thesis by (simp add: inf_defs limits_defs)
qed simp

lemma le_power_mult:
  fixes r b p :: int
  assumes "0 < r" and "0 < b" and "0 < n" and "p \<le> b"
  shows "p \<le> r * b ^ n"
proof -
  have "b ^ 1 \<le> b ^ n" using assms by (intro power_increasing) auto
  moreover have "b ^ n \<le> r * b ^ n" using assms by simp
  ultimately show ?thesis using assms(4) by simp
qed

lemma nat_div2_power: "0 < e \<Longrightarrow> (b::int) ^ nat e = (if odd e then b else 1) * (b * b) ^ nat (e div 2)"
proof -
  assume "0 < e"
  then have "nat e = 2 * nat (e div 2) + (if odd e then 1 else 0)"
    by (auto elim!: oddE evenE simp: nat_add_distrib nat_mult_distrib)
  then show ?thesis by (simp add: power_mult power_add power2_eq_square)
qed

lemma inf_pow_loop_eq:
  "inf_pow_loop base exp r b e = min kPosInf (r * b ^ nat e)"
  if "0 < base" "0 < r" "r < kPosInf" "0 < b" "b \<le> kPosInf"
  using that
proof (induction base exp r b e rule: inf_pow_loop.induct)
  case (1 base exp r b e)
  have i: "is_i64 r" "is_i64 b" using 1 by (auto simp: is_i64_def kPosInf_def limits_defs)
  show ?case
  proof (cases "e \<le> 0")
    case True
    then show ?thesis using 1 by (simp add: inf_pow_loop.simps [of _ _ _ _ e])
  next
    case e: False
    define r' where "r' = (if odd e then InfAwareMul r b else r)"
    have r': "r' = min kPosInf (if odd e then r * b else r)"
      using 1 i by (simp add: r'_def InfAwareMul_pos)
    have r'_pos: "0 < r'" using 1 by (simp add: r' kPosInf_def INT64_MAX_def)
    have pw: "b ^ nat e = (if odd e then b else 1) * (b * b) ^ nat (e div 2)"
      using e by (intro nat_div2_power) simp
    show ?thesis
    proof (cases "r' = kPosInf")
      case True
      then have o: "odd e" "kPosInf \<le> r * b" using r' 1 by (auto split: if_splits)
      have "inf_pow_loop base exp r b e = kPosInf"
        using e True o(1) by (simp add: inf_pow_loop.simps [of _ _ _ _ e] Let_def r'_def)
      moreover have "r * b * 1 \<le> r * b * (b * b) ^ nat (e div 2)"
        using 1 by (intro mult_left_mono one_le_power) (auto simp: pos_zmult_eq_1_iff int_one_le_iff_zero_less)
      ultimately show ?thesis using o by (simp add: pw ac_simps)
    next
      case fin: False
      then have r'_eq: "r' = (if odd e then r * b else r)" "r' < kPosInf"
        using r' by (auto simp: min_def split: if_splits)
      have pr: "r * b ^ nat e = r' * (b * b) ^ nat (e div 2)" by (simp add: pw r'_eq(1))
      have nr: "\<not> (odd e \<and> (r' = kPosInf \<or> r' = kNegInf))"
        using fin r'_pos by (auto simp: inf_defs limits_defs)
      have step: "inf_pow_loop base exp r b e =
          (if odd e \<and> (r' = kPosInf \<or> r' = kNegInf) then r'
           else if e div 2 > 0 then
             let b' = InfAwareMul b b in
             if b' = kPosInf \<or> b' = kNegInf then
               (if (r' > 0) = (base > 0 \<or> even exp) then kPosInf else kNegInf)
             else inf_pow_loop base exp r' b' (e div 2)
           else inf_pow_loop base exp r' b (e div 2))"
        unfolding r'_def using e by (subst inf_pow_loop.simps) (simp only: Let_def if_False)
      show ?thesis
      proof (cases "e div 2 > 0")
        case True
        define b' where "b' = InfAwareMul b b"
        have b': "b' = min kPosInf (b * b)" "0 < b'"
          using 1 i by (auto simp: b'_def InfAwareMul_pos kPosInf_def INT64_MAX_def)
        show ?thesis
        proof (cases "b' = kPosInf")
          case bi: True
          then have "inf_pow_loop base exp r b e = kPosInf"
            using step nr True 1 r'_pos by (simp add: Let_def flip: b'_def)
          moreover have "kPosInf \<le> r' * (b * b) ^ nat (e div 2)"
            using b' bi True r'_pos 1 by (intro le_power_mult) auto
          ultimately show ?thesis by (simp add: pr min_def)
        next
          case bf: False
          have nb: "\<not> (b' = kPosInf \<or> b' = kNegInf)"
            using bf b'(2) by (auto simp: inf_defs limits_defs)
          have "inf_pow_loop base exp r b e = inf_pow_loop base exp r' b' (e div 2)"
            using step nr nb True by (simp add: Let_def flip: b'_def)
          also have "\<dots> = min kPosInf (r' * b' ^ nat (e div 2))"
            using "1.IH"(1) [OF e r'_def nr refl True b'_def nb] 1 b' r'_pos r'_eq by simp
          finally show ?thesis using bf b' by (simp add: pr min_def split: if_splits)
        qed
      next
        case False
        have "inf_pow_loop base exp r b e = inf_pow_loop base exp r' b (e div 2)"
          using step nr False by simp
        also have "\<dots> = r'" using False by (simp add: inf_pow_loop.simps [of _ _ _ _ "e div 2"])
        finally show ?thesis using False r'_eq(2) by (simp add: pr)
      qed
    qed
  qed
qed

lemma InfAwarePow_nonneg:
  "is_i64 base \<Longrightarrow> 0 \<le> base \<Longrightarrow> 0 \<le> e \<Longrightarrow> InfAwarePow base e = min kPosInf (base ^ nat e)"
  by (cases "base = 0 \<or> base = 1 \<or> e = 0")
     (auto simp: InfAwarePow_def inf_pow_loop_eq kPosInf_def limits_defs is_i64_def power_0_left)


section \<open>Soundness of the analysis\<close>

text \<open>
  What the analysis assumes of a conversion to an integer type: below 64 bits the result is a
  value of the type, and the value itself when the type holds it; to a 64-bit type (and a type
  without a width) it keeps the value unless the value or the result is outside the range between the sentinels.
  Conversions that wrap satisfy this, and so do exact ones, which have no result for a value out of range.
\<close>

definition type_lo :: "DataType \<Rightarrow> int" where
  "type_lo d = (if IsUnsignedInt d then 0 else - (2 ^ (GetBit d - 1)))"

definition type_hi :: "DataType \<Rightarrow> int" where
  "type_hi d = (if IsUnsignedInt d then 2 ^ GetBit d - 1 else 2 ^ (GetBit d - 1) - 1)"

definition casts_bounded :: "env \<Rightarrow> bool" where
  "casts_bounded \<rho> \<longleftrightarrow> (\<forall>d x v. IsInt d \<longrightarrow> ccast \<rho> d x = Some v \<longrightarrow>
     (if GetBit d = 0 \<or> GetBit d \<ge> 64 then finite_val x \<and> finite_val v \<longrightarrow> v = x
      else type_lo d \<le> v \<and> v \<le> type_hi d \<and> (type_lo d \<le> x \<and> x \<le> type_hi d \<longrightarrow> v = x)))"

definition bounds_hold :: "bound_map \<Rightarrow> env \<Rightarrow> bool" where
  "bounds_hold m \<rho> \<longleftrightarrow> (\<forall>i b v. m i = Some b \<longrightarrow> vval \<rho> i = Some v \<longrightarrow> in_bound b v)"

definition wf_bounds :: "bound_map \<Rightarrow> bool" where
  "wf_bounds m \<longleftrightarrow> (\<forall>i b. m i = Some b \<longrightarrow> wf_bound b)"

text \<open>Calls return what the table of operator ranges says.\<close>

definition calls_hold :: "env \<Rightarrow> bool" where
  "calls_hold \<rho> \<longleftrightarrow> (\<forall>f i v. cval \<rho> f i = Some v \<longrightarrow> in_bound (BoundFromOpSemantics f) v)"

lemma cib_cast_sound:
  assumes "casts_bounded \<rho>" and "in_bound a x" and "ccast \<rho> d x = Some v" and "finite_val v" and "finite_val x"
  shows "in_bound (cib_cast d a) v"
proof (cases "IsInt d")
  case True
  with assms(1,3-) have "if GetBit d = 0 \<or> GetBit d \<ge> 64 then v = x
      else type_lo d \<le> v \<and> v \<le> type_hi d \<and> (type_lo d \<le> x \<and> x \<le> type_hi d \<longrightarrow> v = x)"
    unfolding casts_bounded_def by (metis (full_types))
  moreover have "cib_cast d a =
    (if GetBit d = 0 \<or> GetBit d \<ge> 64 then a
     else if min_value a < type_lo d \<or> max_value a > type_hi d \<or> min_value a > max_value a
       then bnd (type_lo d) (type_hi d) else a)"
    using True by (simp add: cib_cast_def Let_def type_lo_def type_hi_def)
  ultimately show ?thesis
    using assms(2) by (auto simp: in_bound_def split: if_splits)
qed (use assms in \<open>simp add: cib_cast_def\<close>)

lemma type_range_i64:
  assumes "GetBit d < 64"
  shows "is_i64 (type_lo d) \<and> is_i64 (type_hi d)"
proof -
  have "is_i64 0 \<and> is_i64 (2 ^ n - 1) \<and> is_i64 (- (2 ^ n))" if "n < 64" for n :: nat
  proof -
    have "(2::int) ^ n \<le> 9223372036854775808"
      using that power_increasing [of n 63 "2::int"] by simp
    moreover have "(0::int) < 2 ^ n" by simp
    ultimately show ?thesis
      unfolding is_i64_alt by (intro conjI; linarith)
  qed
  from this [of "GetBit d"] this [of "GetBit d - 1"] assms show ?thesis
    by (simp add: type_lo_def type_hi_def)
qed

lemma cib_cast_wf: "wf_bound a \<Longrightarrow> wf_bound (cib_cast d a)"
  using type_range_i64 [of d]
  by (auto simp: cib_cast_def Let_def type_lo_def type_hi_def linorder_not_le split: if_splits)

lemma finite_pow: "finite_val v \<Longrightarrow> v \<le> p \<Longrightarrow> v \<le> min kPosInf p"
  by (simp add: finite_val_def)

lemma bit_bounds:
  fixes x y :: int
  assumes "0 \<le> x" and "0 \<le> y"
  shows "0 \<le> and x y" "and x y \<le> x" "and x y \<le> y" "x \<le> or x y" "y \<le> or x y" "or x y \<le> x + y"
    "0 \<le> or x y"
proof -
  show "0 \<le> and x y" and "0 \<le> or x y" using assms by simp_all
  show "and x y \<le> x" and "and x y \<le> y"
    using assms by (auto intro: AND_upper1 AND_upper2)
  show "x \<le> or x y" using assms by (intro or_greater_eq)
  show "y \<le> or x y" using or_greater_eq [OF assms(1), of y] by (simp add: or.commute)
  show "or x y \<le> x + y" using plus_and_or [of x y] \<open>0 \<le> and x y\<close> by linarith
qed

lemma scale_le:
  fixes a x :: int
  shows "0 \<le> a \<Longrightarrow> a \<le> x \<Longrightarrow> s \<le> t \<Longrightarrow> a * 2 ^ s \<le> x * 2 ^ t"
  by (intro mult_mono) (auto intro: power_increasing)

lemma div_scale_le:
  fixes a x :: int
  assumes "0 \<le> a" and "a \<le> x" and "s \<le> t"
  shows "a div 2 ^ t \<le> x div 2 ^ s"
proof -
  have "a div 2 ^ t \<le> a div 2 ^ s" using assms by (intro div_antimono_divisor) (auto intro: power_increasing)
  also have "\<dots> \<le> x div 2 ^ s" using assms by (intro div_le_mono_int) auto
  finally show ?thesis .
qed


lemma cib_div_mod_sound:
  assumes "cib_div_mod f l r d va vb = Inr c"
    and "\<And>a b. va = Inr a \<Longrightarrow> vb = Inr b \<Longrightarrow> f a b = Inr c \<Longrightarrow> in_bound c v" and "finite_val v"
  shows "in_bound c v"
  using assms by (auto simp: cib_div_mod_def split: if_splits)

lemma cib_binary_sound:
  assumes c: "cib_binary k l r d va vb = Inr c"
    and va: "\<And>a. va = Inr a \<Longrightarrow> wf_bound a \<and> in_bound a x"
    and vb: "\<And>b. vb = Inr b \<Longrightarrow> wf_bound b \<and> in_bound b y"
    and v: "bin_val k x y = Some v" and fin: "finite_val x" "finite_val y" "finite_val v"
  shows "in_bound c v"
proof (cases k)
  case KAdd
  with c va vb v fin show ?thesis
    by (auto simp: cib_binary_def in_bound_def intro: InfAwareAdd_lower InfAwareAdd_upper)
next
  case KSub
  have "InfAwareAdd a (InfAwareNeg b) \<le> x - y" if "a \<le> x" "y \<le> b" for a b
    using InfAwareAdd_lower [of a x "InfAwareNeg b" "- y"] InfAwareNeg_lower [of y b] that fin v KSub
    by simp
  moreover have "x - y \<le> InfAwareAdd a (InfAwareNeg b)" if "x \<le> a" "b \<le> y" for a b
    using InfAwareAdd_upper [of x a "- y" "InfAwareNeg b"] InfAwareNeg_upper [of b y] that fin v KSub
    by simp
  ultimately show ?thesis using c va vb v KSub by (auto simp: cib_binary_def in_bound_def)
next
  case KMul
  with c va vb v fin show ?thesis by (auto simp: cib_binary_def intro: BoundMul_sound)
next
  case KFloorDiv
  with c va vb v fin show ?thesis
    by (auto simp: cib_binary_def elim!: cib_div_mod_sound intro: BoundFloorDiv_sound)
next
  case KFloorMod
  with c va vb v fin show ?thesis
    by (auto simp: cib_binary_def elim!: cib_div_mod_sound intro: BoundFloorMod_sound)
next
  case KPow
  then have pv: "0 \<le> y" "v = x ^ nat y" using v by auto
  obtain a b where ab: "va = Inr a" "vb = Inr b" "wf_bound a" "in_bound a x" "in_bound b y"
    using c KPow va vb by (auto simp: cib_binary_def)
  consider "c = Everything" | "y = 0" "c = bnd 1 1" | "y = 1" "c = a"
    | "c = bnd (InfAwarePow (min_value a) y) (InfAwarePow (max_value a) y)" "min_value a \<ge> 0"
    using c KPow ab
    by (auto simp: cib_binary_def is_const_def in_bound_def is_non_negative_def Let_def split: if_splits)
  then show ?thesis
  proof cases
    case 4
    have "min_value a ^ nat y \<le> v" and "v \<le> max_value a ^ nat y"
      using 4(2) ab(4) pv by (auto simp: in_bound_def intro: power_mono)
    moreover have "0 \<le> max_value a" using 4(2) ab(4) by (simp add: in_bound_def)
    ultimately show ?thesis
      using 4 ab(3) pv fin(3) by (simp add: InfAwarePow_nonneg wf_bound_def finite_val_def)
  qed (use ab pv fin in auto)
next
  case KBitAnd
  with c va vb v fin show ?thesis
    by (auto simp: cib_binary_def in_bound_def is_non_negative_def bit_bounds Everything_def
        finite_val_def intro: order_trans [OF bit_bounds(2)] order_trans [OF bit_bounds(3)]
        split: if_splits)
next
  case KBitOr
  obtain a b where ab: "va = Inr a" "vb = Inr b" "in_bound a x" "in_bound b y"
    using c KBitOr va vb by (auto simp: cib_binary_def)
  show ?thesis
  proof (cases "is_non_negative a \<and> is_non_negative b")
    case True
    then have xy: "0 \<le> x" "0 \<le> y" using ab by (auto simp: in_bound_def is_non_negative_def)
    note bb = bit_bounds(4-6) [OF xy]
    have "v \<le> InfAwareAdd (max_value a) (max_value b)"
    proof (cases "finite_val (x + y)")
      case True
      with InfAwareAdd_upper [of x _ y] ab fin bb KBitOr v show ?thesis
        by (auto simp: in_bound_def intro: order_trans)
    next
      case False
      then have "kPosInf \<le> max_value a + max_value b"
        using xy ab by (auto simp: finite_val_def in_bound_def inf_defs limits_defs)
      then have "kPosInf \<le> InfAwareAdd (max_value a) (max_value b)"
        using xy ab by (auto simp: InfAwareAdd_def AddWouldOverflow_def in_bound_def inf_defs limits_defs)
      then show ?thesis using fin(3) by (simp add: finite_val_def)
    qed
    with True bb ab c v KBitOr show ?thesis by (auto simp: cib_binary_def in_bound_def)
  qed (use c ab KBitOr fin in \<open>auto simp: cib_binary_def split: if_splits\<close>)
next
  case KBitShiftLeft
  then obtain a b where ab: "va = Inr a" "vb = Inr b" "in_bound a x" "in_bound b y" "wf_bound a"
    using c va vb by (auto simp: cib_binary_def)
  show ?thesis
  proof (cases "is_non_negative a \<and> is_non_negative b \<and> max_value b < 63")
    case True
    then have nn: "0 \<le> min_value a" "min_value a \<le> x" "x \<le> max_value a" "0 \<le> min_value b"
      "nat (min_value b) \<le> nat y" "nat y \<le> nat (max_value b)"
      using ab by (auto simp: in_bound_def is_non_negative_def)
    have c': "c = bnd (InfAwareMul (min_value a) (2 ^ nat (min_value b)))
                (InfAwareMul (max_value a) (2 ^ nat (max_value b)))"
      and i: "is_i64 (2 ^ nat (min_value b))" "is_i64 (2 ^ nat (max_value b))"
      using True c KBitShiftLeft ab by (auto simp: cib_binary_def shift_amount_def split: if_splits)
    have "min_value a * 2 ^ nat (min_value b) \<le> v" and "v \<le> max_value a * 2 ^ nat (max_value b)"
      using nn v KBitShiftLeft by (auto intro!: scale_le)
    then show ?thesis
      using c' i ab(5) fin(3) by (auto simp: wf_bound_def intro: InfAwareMul_lower InfAwareMul_upper)
  qed (use c ab KBitShiftLeft fin in \<open>auto simp: cib_binary_def split: if_splits\<close>)
next
  case KBitShiftRight
  then obtain a b where ab: "va = Inr a" "vb = Inr b" "in_bound a x" "in_bound b y"
    using c va vb by (auto simp: cib_binary_def)
  show ?thesis
  proof (cases "is_non_negative a \<and> is_non_negative b \<and> max_value b < 63")
    case True
    then have nn: "0 \<le> min_value a" "min_value a \<le> x" "x \<le> max_value a" "0 \<le> min_value b"
      "nat (min_value b) \<le> nat y" "nat y \<le> nat (max_value b)"
      using ab by (auto simp: in_bound_def is_non_negative_def)
    have c': "c = bnd (min_value a div 2 ^ nat (max_value b)) (max_value a div 2 ^ nat (min_value b))"
      using True c KBitShiftRight ab by (auto simp: cib_binary_def shift_amount_def split: if_splits)
    then show ?thesis
      using nn v KBitShiftRight by (auto intro!: div_scale_le)
  qed (use c ab KBitShiftRight fin in \<open>auto simp: cib_binary_def split: if_splits\<close>)
qed (use c va vb v fin in \<open>auto simp: cib_binary_def in_bound_def is_truth_def min_def max_def
       Everything_def finite_val_def split: if_splits\<close>)


lemma cib_div_mod_wf:
  "cib_div_mod f l r d va vb = Inr c \<Longrightarrow>
   (\<And>a b. va = Inr a \<Longrightarrow> vb = Inr b \<Longrightarrow> f a b = Inr c \<Longrightarrow> wf_bound c) \<Longrightarrow> wf_bound c"
  by (auto simp: cib_div_mod_def split: if_splits)

lemma BoundFloorDivPositiveRHS_wf:
  "BoundFloorDivPositiveRHS a b = Inr c \<Longrightarrow> wf_bound a \<Longrightarrow> wf_bound b \<Longrightarrow> wf_bound c"
  by (auto simp: BoundFloorDivPositiveRHS_def wf_bound_def floordiv_eq div_i64 split: if_splits)

lemma BoundFloorDiv_wf:
  "BoundFloorDiv a b = Inr c \<Longrightarrow> wf_bound a \<Longrightarrow> wf_bound b \<Longrightarrow> wf_bound c"
  by (auto simp: BoundFloorDiv_def wf_bound_def Everything_def split: if_splits
      dest!: BoundFloorDivPositiveRHS_wf)

lemma BoundFloorMod_wf: "BoundFloorMod a b = Inr c \<Longrightarrow> wf_bound a \<Longrightarrow> wf_bound c"
  by (auto simp: BoundFloorMod_def wf_bound_def min_def Everything_def split: if_splits)

lemma inf_pow_loop_i64: "is_i64 r \<Longrightarrow> is_i64 b \<Longrightarrow> is_i64 (inf_pow_loop base exp r b e)"
proof (induction "nat e" arbitrary: r b e rule: less_induct)
  case less
  have IH: "is_i64 (inf_pow_loop base exp r' b' (e div 2))"
    if "0 < e" "is_i64 r'" "is_i64 b'" for r' b'
    using that by (intro less.hyps) auto
  show ?case
    by (subst inf_pow_loop.simps)
       (simp add: Let_def IH less.prems inf_pow_loop.simps [of _ _ _ _ 0])
qed

lemma InfAwarePow_i64: "is_i64 base \<Longrightarrow> is_i64 (InfAwarePow base e)"
  by (simp add: InfAwarePow_def inf_pow_loop_i64)

lemma cib_binary_wf:
  assumes c: "cib_binary k l r d va vb = Inr c"
    and va: "\<And>a. va = Inr a \<Longrightarrow> wf_bound a" and vb: "\<And>b. vb = Inr b \<Longrightarrow> wf_bound b"
  shows "wf_bound c"
proof (cases "k \<in> {KFloorDiv, KFloorMod}")
  case True
  then consider "cib_div_mod BoundFloorDiv l r d va vb = Inr c"
    | "cib_div_mod BoundFloorMod l r d va vb = Inr c"
    using c by (auto simp: cib_binary_def)
  then show ?thesis
    by cases (erule cib_div_mod_wf, erule BoundFloorDiv_wf BoundFloorMod_wf; erule va vb)+
next
  case False
  with assms show ?thesis
    by (cases k) (auto simp: cib_binary_def wf_bound_def BoundMul_def min_def max_def shift_right_i64
        Everything_def is_const_def is_non_negative_def Let_def InfAwarePow_i64 split: if_splits)
qed


lemma cib_unary_sound:
  assumes "cib_unary k d va = Inr c" and "\<And>a. va = Inr a \<Longrightarrow> in_bound a x"
    and "un_val \<rho> k d x = Some v" and "finite_val x" and "finite_val v" and "casts_bounded \<rho>"
  shows "in_bound c v"
proof (cases k)
  case KAbs
  then obtain a where a: "va = Inr a" "in_bound a x" using assms by (auto simp: cib_unary_def)
  consider "min_value a \<ge> 0" "c = a" | "\<not> min_value a \<ge> 0" "max_value a \<le> 0"
      "c = bnd (InfAwareNeg (max_value a)) (InfAwareNeg (min_value a))"
    | "c = bnd 0 (max (InfAwareNeg (min_value a)) (max_value a))"
    using assms(1) KAbs a by (auto simp: cib_unary_def split: if_splits)
  moreover have "InfAwareNeg (max_value a) \<le> - x" and "- x \<le> InfAwareNeg (min_value a)"
    using a(2) assms(4) by (auto simp: in_bound_def intro: InfAwareNeg_lower InfAwareNeg_upper)
  ultimately show ?thesis
    using a(2) assms(3) KAbs by cases (auto simp: in_bound_def)
next
  case KCast
  then obtain a where "va = Inr a" "c = cib_cast d a" using assms by (auto simp: cib_unary_def)
  with assms KCast show ?thesis by (auto intro: cib_cast_sound)
next
  case KNeg
  then obtain a where a: "va = Inr a" "in_bound a x"
    "c = bnd (InfAwareNeg (max_value a)) (InfAwareNeg (min_value a))"
    using assms by (auto simp: cib_unary_def)
  then have "InfAwareNeg (max_value a) \<le> - x" and "- x \<le> InfAwareNeg (min_value a)"
    using assms(4) by (auto simp: in_bound_def intro: InfAwareNeg_lower InfAwareNeg_upper)
  with a(3) assms(3) KNeg show ?thesis by simp
qed (use assms in \<open>auto simp: cib_unary_def in_bound_def is_truth_def Everything_def finite_val_def\<close>)

lemma cib_unary_wf:
  "cib_unary k d va = Inr c \<Longrightarrow> (\<And>a. va = Inr a \<Longrightarrow> wf_bound a) \<Longrightarrow> wf_bound c"
  by (cases k) (auto simp: cib_unary_def wf_bound_def cib_cast_wf [unfolded wf_bound_def] max_def
      Everything_def split: if_splits)

text \<open>The ends of a computed bound are 64-bit integers.\<close>

lemma BoundFromOpSemantics_wf [simp]: "wf_bound (BoundFromOpSemantics f)"
  by (simp add: BoundFromOpSemantics_def)

lemma cib_visit_wf: "wf_bounds m \<Longrightarrow> wf_expr e \<Longrightarrow> cib_visit H m e = Inr b \<Longrightarrow> wf_bound b"
proof (induction e arbitrary: b)
  case (ConstFloat v d)
  then show ?case by (auto simp: cib_const_float_def Let_def split: if_splits)
next
  case (Binary k l r d)
  show ?case
    by (rule cib_binary_wf [of k l r d "cib_visit H m l" "cib_visit H m r"]) (use Binary in auto)
next
  case (Unary k a d)
  show ?case by (rule cib_unary_wf [of k d "cib_visit H m a"]) (use Unary in auto)
qed (auto simp: wf_bounds_def DefaultBound_def split: option.splits if_splits)

lemma cib_sound:
  assumes "bounds_hold m \<rho>" and "wf_bounds m" and "calls_hold \<rho>" and "casts_bounded \<rho>"
    and "wf_expr e" and "all_vals finite_val \<rho> e" and "cib_visit H m e = Inr b"
    and "eval \<rho> e = Some v"
  shows "in_bound b v"
  using assms(5-8)
proof (induction e arbitrary: b v)
  case (Binary k l r d)
  obtain x y where "eval \<rho> l = Some x" and "eval \<rho> r = Some y" and "bin_val k x y = Some v"
    using Binary.prems(4) by (rule eval_BinaryE)
  moreover have "finite_val v" using Binary.prems by (auto intro: all_vals_eval)
  ultimately show ?case
    using Binary cib_visit_wf [OF assms(2)]
    by (intro cib_binary_sound [of k l r d "cib_visit H m l" "cib_visit H m r" b x y v])
       (auto intro: all_vals_eval simp del: eval.simps)
next
  case (Unary k a d)
  obtain x where "eval \<rho> a = Some x" and "un_val \<rho> k d x = Some v"
    using Unary.prems(4) by (rule eval_UnaryE)
  moreover have "finite_val v" using Unary.prems by (auto intro: all_vals_eval)
  ultimately show ?case
    using Unary assms(4)
    by (intro cib_unary_sound [of k d "cib_visit H m a" b x \<rho> v])
       (auto intro: all_vals_eval simp del: eval.simps)
qed (use assms(1,3) in \<open>auto simp: bounds_hold_def calls_hold_def DefaultBound_def
       split: option.splits if_splits\<close>)

text \<open>
  Claim C2. The bound computed for an expression contains its value, in every environment where: the bounds of the
  variables contain their values; the values of the expression and of all its operands lie strictly between the sentinels
  \<open>kNegInf\<close> and \<open>kPosInf\<close> (\<open>sentinel_collision\<close> is a sum with an operand at a sentinel, whose bound is wrong);
  its literals are 64-bit integers; calls return what the table of operator ranges says; and a
  conversion gives a value of its type, which is the operand's value when the type holds it. Conversions
  to fewer than 64 bits may wrap.
\<close>

theorem cib_visit_sound:
  assumes "bounds_hold m \<rho>" and "wf_bounds m" and "calls_hold \<rho>" and "casts_bounded \<rho>"
    and "wf_expr e" and "all_vals finite_val \<rho> e" and "cib_visit H m e = Inr b"
    and "eval \<rho> e = Some v"
  shows "in_bound b v"
  using assms by (rule cib_sound)

section \<open>Constraint scopes\<close>

lemma TryTighten_sound:
  assumes "bounds_hold m \<rho>" and "wf_bounds m" and "vval \<rho> i = Some v" and "finite_val v"
    and "in_bound b v" and "wf_bound b"
  shows "bounds_hold (fst (TryTighten i b (m, rec))) \<rho>"
    and "wf_bounds (fst (TryTighten i b (m, rec)))"
proof -
  let ?old = "case m i of Some b \<Rightarrow> b | None \<Rightarrow> DefaultBound"
  have old: "in_bound ?old v" "wf_bound ?old"
    using assms by (auto simp: bounds_hold_def wf_bounds_def DefaultBound_def split: option.splits)
  show "bounds_hold (fst (TryTighten i b (m, rec))) \<rho>"
    using assms old by (auto simp: TryTighten_def Let_def bounds_hold_def in_bound_def)
  show "wf_bounds (fst (TryTighten i b (m, rec)))"
    using assms old by (auto simp: TryTighten_def Let_def wf_bounds_def wf_bound_def max_def min_def)
qed

text \<open>The bound imposed by a comparison contains every value that satisfies it.\<close>

lemma StrictBound_sound:
  "finite_val x \<Longrightarrow> c < x \<Longrightarrow> StrictBound t c 1 \<le> x"
  "finite_val x \<Longrightarrow> x < c \<Longrightarrow> x \<le> StrictBound t c (-1)"
  by (auto simp: StrictBound_def InfAwareAdd_def AddWouldOverflow_def finite_val_def inf_defs limits_defs)

lemma left_bound_sound:
  "k \<in> {KGe, KGt, KLe, KLt, KEq} \<Longrightarrow> bin_val k x y = Some 1 \<Longrightarrow> finite_val x \<Longrightarrow> is_const rb \<Longrightarrow>
   in_bound rb y \<Longrightarrow> in_bound (left_bound k t rb) x"
  by (cases k) (auto simp: left_bound_def in_bound_def is_const_def finite_val_def
      intro!: StrictBound_sound [unfolded finite_val_def])

lemma right_bound_sound:
  "k \<in> {KGe, KGt, KLe, KLt, KEq} \<Longrightarrow> bin_val k x y = Some 1 \<Longrightarrow> finite_val y \<Longrightarrow> is_const lb \<Longrightarrow>
   in_bound lb x \<Longrightarrow> in_bound (right_bound k t lb) y"
  by (cases k) (auto simp: right_bound_def in_bound_def is_const_def finite_val_def
      intro!: StrictBound_sound [unfolded finite_val_def])

lemma StrictBound_i64: "is_i64 c \<Longrightarrow> is_i64 (StrictBound t c 1)" "is_i64 c \<Longrightarrow> is_i64 (StrictBound t c (-1))"
  using is_i64_alt [of "-1"] by (simp_all add: StrictBound_def)

lemma imposed_bound_wf:
  "wf_bound b \<Longrightarrow> wf_bound (left_bound k t b)" "wf_bound b \<Longrightarrow> wf_bound (right_bound k t b)"
  by (cases k; simp add: left_bound_def right_bound_def wf_bound_def StrictBound_i64)+

text \<open>The hypotheses of soundness on a scope, kept by every step that parses a true constraint.\<close>

definition scope_sound :: "env \<Rightarrow> cib_scope \<Rightarrow> bool" where
  "scope_sound \<rho> s \<longleftrightarrow> bounds_hold (fst s) \<rho> \<and> wf_bounds (fst s)"

lemma parse_compare_cases:
  assumes "parse_compare H k l r s = Inr s'"
  obtains (left) i t rb where "l = Var i t" "cib_visit H (fst s) r = Inr rb"
      "s' = (if is_const rb then TryTighten i (left_bound k t rb) s else s)"
    | (right) i t lb where "r = Var i t" "cib_visit H (fst s) l = Inr lb"
      "s' = (if is_const lb then TryTighten i (right_bound k t lb) s else s)"
    | (same) "s' = s"
  using assms by (auto simp: parse_compare_def split: expr.splits)

lemma parse_compare_sound:
  assumes s: "scope_sound \<rho> s" and \<rho>: "calls_hold \<rho>" "casts_bounded \<rho>"
    and k: "k \<in> {KGe, KGt, KLe, KLt, KEq}" and wf: "wf_expr l" "wf_expr r"
    and fin: "all_vals finite_val \<rho> l" "all_vals finite_val \<rho> r"
    and v: "eval \<rho> l = Some x" "eval \<rho> r = Some y" "bin_val k x y = Some 1"
    and p: "parse_compare H k l r s = Inr s'"
  shows "scope_sound \<rho> s'"
proof -
  obtain m rec where [simp]: "s = (m, rec)" by (cases s)
  have m: "bounds_hold m \<rho>" "wf_bounds m" using s by (simp_all add: scope_sound_def)
  have xy: "finite_val x" "finite_val y" using all_vals_eval fin v by blast+
  note sound = cib_sound [OF m \<rho>] and wfb = cib_visit_wf [OF m(2)]
  show ?thesis
    using p
  proof (cases rule: parse_compare_cases)
    case (left i t rb)
    moreover have "in_bound rb y" and "wf_bound rb"
      using sound [OF wf(2) fin(2) _ v(2)] wfb [OF wf(2)] left(2) by simp_all
    ultimately show ?thesis
      using m v xy k left_bound_sound [of k x y rb t] imposed_bound_wf
      by (auto simp: scope_sound_def TryTighten_sound split: if_splits)
  next
    case (right i t lb)
    moreover have "in_bound lb x" and "wf_bound lb"
      using sound [OF wf(1) fin(1) _ v(1)] wfb [OF wf(1)] right(2) by simp_all
    ultimately show ?thesis
      using m v xy k right_bound_sound [of k x y lb t] imposed_bound_wf
      by (auto simp: scope_sound_def TryTighten_sound split: if_splits)
  qed (use s in simp)
qed

lemma TryParseConstraint_sound:
  "TryParseConstraint H c s = Inr s' \<Longrightarrow> scope_sound \<rho> s \<Longrightarrow> calls_hold \<rho> \<Longrightarrow> casts_bounded \<rho> \<Longrightarrow>
   wf_expr c \<Longrightarrow> all_vals finite_val \<rho> c \<Longrightarrow> eval \<rho> c = Some 1 \<Longrightarrow> scope_sound \<rho> s'"
proof (induction H c s arbitrary: s' rule: TryParseConstraint.induct)
  case (1 H k l r d s)
  obtain x y where xy: "eval \<rho> l = Some x" "eval \<rho> r = Some y" "bin_val k x y = Some 1"
    using "1.prems"(7) by (rule eval_BinaryE)
  consider "k \<in> {KGe, KGt, KLe, KLt, KEq}" "parse_compare H k l r s = Inr s'"
    | s1 where "k = KAnd" "TryParseConstraint H l s = Inr s1" "TryParseConstraint H r s1 = Inr s'"
    | "s' = s"
    using "1.prems"(1) by (auto split: if_splits)
  then show ?case
  proof cases
    case 1
    show ?thesis
      by (rule parse_compare_sound [OF _ _ _ 1(1) _ _ _ _ xy 1(2)]) (use "1.prems" in auto)
  next
    case 2
    then have "x = 1 \<and> y = 1" using xy(3) by (auto simp: is_truth_def)
    then have "scope_sound \<rho> s1" using 2 "1.IH"(1) "1.prems" xy by auto
    then show ?thesis using 2 "1.IH"(2) "1.prems" xy \<open>x = 1 \<and> y = 1\<close> by auto
  qed (use 1 in simp)
qed auto

text \<open>
  Claim C16. Entering a constraint that holds keeps the variable bounds sound: every variable's
  value is still within its tightened bound. As for the bound of an expression, the values of the
  constraint and of all its operands lie strictly between the sentinels, its literals are 64-bit integers, calls
  return what the table of operator ranges says, and a conversion gives a value of its type, which is the
  operand's value when the type holds it; it may wrap otherwise.
\<close>

theorem cib_enter_constraint_sound:
  assumes "bounds_hold m \<rho>" and "wf_bounds m" and "calls_hold \<rho>" and "casts_bounded \<rho>"
    and "wf_expr c" and "all_vals finite_val \<rho> c" and "eval \<rho> c = Some 1"
    and "cib_enter_constraint H m c = Inr (m', recovery)"
  shows "bounds_hold m' \<rho> \<and> wf_bounds m'"
  using TryParseConstraint_sound [of H c "(m, [])" "(m', recovery)" \<rho>] assms
  by (simp add: scope_sound_def cib_enter_constraint_def)

text \<open>What a query sees of the map: an absent variable has the default bound.\<close>

definition cib_lookup :: "bound_map \<Rightarrow> nat \<Rightarrow> ConstIntBound" where
  "cib_lookup m i = (case m i of Some b \<Rightarrow> b | None \<Rightarrow> DefaultBound)"

lemma cib_lookup_upd [simp]:
  "cib_lookup (m(i \<mapsto> b)) j = (if j = i then b else cib_lookup m j)"
  "cib_lookup (m(i := None)) j = (if j = i then DefaultBound else cib_lookup m j)"
  by (simp_all add: cib_lookup_def)

lemma is_everything_iff: "is_everything b \<longleftrightarrow> b = Everything"
  by (cases b) (auto simp: is_everything_def Everything_def bnd_def)

lemma cib_lookup_restore [simp]:
  "cib_lookup (cib_restore (i, b) m) = (cib_lookup m)(i := b)"
  by (auto simp: cib_restore_def is_everything_iff DefaultBound_def)

lemma cib_recover_cong:
  "cib_lookup m = cib_lookup m' \<Longrightarrow> cib_lookup (cib_recover rec m) = cib_lookup (cib_recover rec m')"
proof (induction rec arbitrary: m m' rule: rev_induct)
  case (snoc p rec)
  then show ?case by (cases p) (auto simp: cib_recover_def)
qed (simp add: cib_recover_def)

lemma TryTighten_recover:
  "cib_lookup (cib_recover (snd (TryTighten i b s)) (fst (TryTighten i b s))) =
   cib_lookup (cib_recover (snd s) (fst s))"
proof -
  obtain m rec where s: "s = (m, rec)" by (cases s)
  obtain b' where "TryTighten i b s = (m(i \<mapsto> b'), rec @ [(i, cib_lookup m i)])"
    by (simp add: s TryTighten_def Let_def cib_lookup_def)
  moreover have "cib_lookup (cib_restore (i, cib_lookup m i) (m(i \<mapsto> b'))) = cib_lookup m"
    by (simp add: fun_eq_iff)
  ultimately show ?thesis
    using cib_recover_cong [of "cib_restore (i, cib_lookup m i) (m(i \<mapsto> b'))" m rec]
    by (simp add: s cib_recover_def)
qed

lemma TryParseConstraint_recover:
  "TryParseConstraint H c s = Inr s' \<Longrightarrow>
   cib_lookup (cib_recover (snd s') (fst s')) = cib_lookup (cib_recover (snd s) (fst s))"
proof (induction H c s arbitrary: s' rule: TryParseConstraint.induct)
  case (1 H k l r d s)
  consider "k \<in> {KGe, KGt, KLe, KLt, KEq}" "parse_compare H k l r s = Inr s'"
    | s1 where "k = KAnd" "TryParseConstraint H l s = Inr s1" "TryParseConstraint H r s1 = Inr s'"
    | "s' = s"
    using "1.prems"(1) by (auto split: if_splits)
  then show ?case
  proof cases
    case 1
    from 1(2) show ?thesis
      by (cases rule: parse_compare_cases) (simp_all add: TryTighten_recover)
  next
    case 2
    then show ?thesis using "1.IH" by simp
  qed simp
qed auto

lemma cib_visit_lookup: "cib_lookup m = cib_lookup m' \<Longrightarrow> cib_visit H m e = cib_visit H m' e"
proof (induction e)
  case (Var i t)
  then show ?case by (simp add: cib_lookup_def [symmetric])
next
  case (IterArg i t)
  then show ?case by (simp add: cib_lookup_def [symmetric])
qed simp_all

text \<open>
  Leaving a constraint scope restores the analysis: after the recovery function every
  query answers what it answered before the constraint was entered, also when the constraint
  tightened a variable more than once.
\<close>

theorem cib_recover_restores:
  assumes "cib_enter_constraint H m c = Inr (m', recovery)"
  shows "cib_visit H (cib_recover recovery m') e = cib_visit H m e"
proof -
  have "cib_lookup (cib_recover recovery m') = cib_lookup m"
    using TryParseConstraint_recover [of H c "(m, [])" "(m', recovery)"] assms
    by (simp add: cib_enter_constraint_def cib_recover_def)
  then show ?thesis by (rule cib_visit_lookup)
qed

section \<open>Nested scopes\<close>

text \<open>
  The interval analysis provides the contract of \<open>Scoped_Analysis\<close>; its state describes an
  environment of finite values whose calls and conversions behave.
\<close>

definition cib_describes :: "bound_map \<Rightarrow> env \<Rightarrow> bool" where
  "cib_describes m \<rho> \<longleftrightarrow> bounds_hold m \<rho> \<and> wf_bounds m \<and> calls_hold \<rho> \<and> casts_bounded \<rho>"

definition cib_covers :: "env \<Rightarrow> 'f expr \<Rightarrow> bool" where
  "cib_covers \<rho> e \<longleftrightarrow> wf_expr e \<and> all_vals finite_val \<rho> e"

lemma cib_describes_enter:
  assumes "cib_describes m \<rho>" and "cib_covers \<rho> c" and "eval \<rho> c = Some 1"
    and "cib_enter_constraint H m c = Inr (m', r)"
  shows "cib_describes m' \<rho>"
  using TryParseConstraint_sound [of H c "(m, [])" "(m', r)" \<rho>] assms
  by (simp add: scope_sound_def cib_enter_constraint_def cib_describes_def cib_covers_def)

lemma cib_leave_enter:
  "cib_enter_constraint H m c = Inr (m', r) \<Longrightarrow> cib_lookup (cib_recover r m') = cib_lookup m"
  using TryParseConstraint_recover [of H c "(m, [])" "(m', r)"]
  by (simp add: cib_enter_constraint_def cib_recover_def)

interpretation cib: scoped_analysis "cib_visit H" "cib_enter_constraint H" cib_describes
    cib_covers cib_covers "\<lambda>_. in_bound" cib_recover "\<lambda>m m'. cib_lookup m = cib_lookup m'" for H :: "'f host"
proof (unfold_locales, goal_cases)
  case (1 m \<rho> e q v)
  then show ?case by (auto simp: cib_describes_def cib_covers_def intro: cib_sound)
next
  case (2 m \<rho> c m' r)
  then show ?case by (rule cib_describes_enter)
next
  case (6 m m' r)
  then show ?case by (rule cib_recover_cong)
next
  case (7 m c m' r)
  then show ?case by (rule cib_leave_enter)
qed (auto intro: cib_visit_lookup)

text \<open>
  Constraints may be nested: inside several scopes, entered in any order, the bound of
  an expression contains its value in every environment that satisfies all of them.
\<close>

theorem cib_nested_scopes_sound:
  assumes "cib_describes m \<rho>" and "\<forall>c\<in>set cs. cib_covers \<rho> c \<and> eval \<rho> c = Some 1"
    and "enter_all (cib_enter_constraint H) m cs [] = Inr (m', rs)"
    and "cib_covers \<rho> e" and "cib_visit H m' e = Inr b" and "eval \<rho> e = Some v"
  shows "in_bound b v"
  using assms by (rule cib.scope_query_sound)

text \<open>
  Leaving nested scopes innermost first restores the analysis: afterwards every query
  answers what it answered before the outermost constraint was entered.
\<close>

theorem cib_nested_scopes_restore:
  assumes "enter_all (cib_enter_constraint H) m cs [] = Inr (m', rs)"
  shows "cib_visit H (leave_all cib_recover rs m') e = cib_visit H m e"
  using assms by (rule cib.scope_restores)

section \<open>Failures\<close>

text \<open>
  The analysis is defined on expressions whose floor divisions and modulos have scalar operands,
  whose float literals are in range and that do not shift.
\<close>

primrec cib_defined :: "'f host \<Rightarrow> 'f expr \<Rightarrow> bool" where
  "cib_defined H (ConstInt v d) = True"
| "cib_defined H (ConstFloat v d) = is_ok (cib_const_float (dbl H) v)"
| "cib_defined H (ConstBool b) = True"
| "cib_defined H (Var i t) = True"
| "cib_defined H (IterArg i t) = True"
| "cib_defined H (Call f i t) = True"
| "cib_defined H (Opaque i t) = True"
| "cib_defined H (Binary k l r d) =
     (cib_defined H l \<and> cib_defined H r \<and> k \<noteq> KBitShiftLeft \<and> k \<noteq> KBitShiftRight \<and>
      (k = KFloorDiv \<or> k = KFloorMod \<longrightarrow> scalar_type l \<noteq> None \<and> scalar_type r \<noteq> None))"
| "cib_defined H (Unary k a d) = cib_defined H a"

definition no_failure :: "'a res \<Rightarrow> bool" where
  "no_failure m \<longleftrightarrow> m \<noteq> Inl InternalError \<and> m \<noteq> Inl ValueError"

lemma no_failure_simps [simp]:
  "no_failure (Inr x)" "no_failure (Inl TypeError)" "no_failure (Inl UndefinedBehavior)"
  "\<not> no_failure (Inl InternalError)" "\<not> no_failure (Inl ValueError)"
  by (simp_all add: no_failure_def)

lemma no_failure_bind:
  "no_failure m \<Longrightarrow> (\<And>x. m = Inr x \<Longrightarrow> no_failure (f x)) \<Longrightarrow> no_failure (res_bind m f)"
  by (cases m) (auto simp: no_failure_def)

lemma no_failure_i64 [simp]: "no_failure (i64 x)" "no_failure (shift_amount x)"
  by (simp_all add: i64_def shift_amount_def)

lemma no_failure_dtype [simp]: "no_failure (GetScalarDtype e)"
  by (simp add: no_failure_def)

lemma InfAwareNeg_antimono: "is_i64 a \<Longrightarrow> is_i64 b \<Longrightarrow> a \<le> b \<Longrightarrow> InfAwareNeg b \<le> InfAwareNeg a"
  by (auto simp: InfAwareNeg_def NegWouldOverflow_def inf_defs i64_simps)

text \<open>The gate of division and modulo lets only non-empty bounds through, on which they are total.\<close>

lemma BoundPreservesDtype_nonempty: "BoundPreservesDtype b e d = Inr True \<Longrightarrow> min_value b \<le> max_value b"
  by (auto simp: BoundPreservesDtype_def split: if_splits)

lemma BoundFloorDivPositiveRHS_ok:
  "0 < min_value b \<Longrightarrow> min_value b \<le> max_value b \<Longrightarrow> is_ok (BoundFloorDivPositiveRHS a b)"
  by (simp add: BoundFloorDivPositiveRHS_def floordiv_eq)

lemma BoundFloorDiv_ok:
  assumes "wf_bound b" and "min_value b \<le> max_value b"
  shows "is_ok (BoundFloorDiv a b)"
proof -
  have "0 < InfAwareNeg (max_value b)" if "max_value b < 0"
    using that by (auto simp: InfAwareNeg_def inf_defs limits_defs)
  then show ?thesis
    using assms InfAwareNeg_antimono [of "min_value b" "max_value b"]
    by (auto simp: BoundFloorDiv_def wf_bound_def intro!: BoundFloorDivPositiveRHS_ok)
qed

lemma BoundFloorMod_ok: "wf_bound b \<Longrightarrow> min_value b \<le> max_value b \<Longrightarrow> is_ok (BoundFloorMod a b)"
  by (auto simp: BoundFloorMod_def wf_bound_def i64_simps)

lemma no_failure_ok: "is_ok m \<Longrightarrow> no_failure m"
  by (auto simp: is_ok_iff)

lemma cib_div_mod_total:
  fixes l r :: "'f expr"
  assumes f: "\<And>a b. wf_bound b \<Longrightarrow> min_value b \<le> max_value b \<Longrightarrow> is_ok (f a b)"
    and vb: "\<And>b. vb = Inr b \<Longrightarrow> wf_bound b"
  shows "no_failure va \<Longrightarrow> no_failure vb \<Longrightarrow> no_failure (cib_div_mod f l r d va vb)"
    and "is_ok va \<Longrightarrow> is_ok vb \<Longrightarrow> scalar_type l \<noteq> None \<Longrightarrow> scalar_type r \<noteq> None \<Longrightarrow>
      is_ok (cib_div_mod f l r d va vb)"
proof -
  have *: "is_ok (f a b)" if "vb = Inr b" "BoundPreservesDtype b e d = Inr True" for a b and e :: "'f expr"
    using f vb that BoundPreservesDtype_nonempty by blast
  have g: "no_failure (BoundPreservesDtype c e d)" for c and e :: "'f expr"
    by (auto simp: BoundPreservesDtype_def intro!: no_failure_bind)
  show "no_failure va \<Longrightarrow> no_failure vb \<Longrightarrow> no_failure (cib_div_mod f l r d va vb)"
    by (auto simp: cib_div_mod_def g intro!: no_failure_bind, rule no_failure_ok, rule * [of _ r]) simp_all
  have h: "is_ok (BoundPreservesDtype c e d)" if "scalar_type e \<noteq> None" for c and e :: "'f expr"
    using that by (auto simp: BoundPreservesDtype_def GetScalarDtype_def)
  show "is_ok (cib_div_mod f l r d va vb)"
    if ok: "is_ok va" "is_ok vb" and ty: "scalar_type l \<noteq> None" "scalar_type r \<noteq> None"
  proof (cases "FloorDivModOperandsFitDtype l r d")
    case True
    obtain a b where ab: "va = Inr a" "vb = Inr b" using ok by (auto simp: is_ok_iff)
    moreover obtain pa pb where "BoundPreservesDtype a l d = Inr pa" "BoundPreservesDtype b r d = Inr pb"
      using h [OF ty(1), of a] h [OF ty(2), of b] by (auto simp: is_ok_iff)
    ultimately show ?thesis using * [OF ab(2), of r a] by (cases pa; cases pb) (simp_all add: cib_div_mod_def)
  qed (simp add: cib_div_mod_def)
qed

lemma cib_binary_total:
  assumes "\<And>b. vb = Inr b \<Longrightarrow> wf_bound b"
  shows "no_failure va \<Longrightarrow> no_failure vb \<Longrightarrow> no_failure (cib_binary k l r d va vb)"
    and "is_ok va \<Longrightarrow> is_ok vb \<Longrightarrow> k \<noteq> KBitShiftLeft \<Longrightarrow> k \<noteq> KBitShiftRight \<Longrightarrow>
      (k = KFloorDiv \<or> k = KFloorMod \<longrightarrow> scalar_type l \<noteq> None \<and> scalar_type r \<noteq> None) \<Longrightarrow>
      is_ok (cib_binary k l r d va vb)"
proof -
  have vb: "wf_bound b" if "vb = Inr b" for b by (rule assms [OF that])
  note fd = cib_div_mod_total [of BoundFloorDiv vb, OF BoundFloorDiv_ok vb, simplified]
  note fm = cib_div_mod_total [of BoundFloorMod vb, OF BoundFloorMod_ok vb, simplified]
  show "no_failure (cib_binary k l r d va vb)" if "no_failure va" "no_failure vb"
    by (cases k; simp add: cib_binary_def fd(1) [OF that] fm(1) [OF that])
       (auto simp: Let_def that intro!: no_failure_bind)
  show "is_ok (cib_binary k l r d va vb)"
    if ok: "is_ok va" "is_ok vb" and k: "k \<noteq> KBitShiftLeft" "k \<noteq> KBitShiftRight"
      "k = KFloorDiv \<or> k = KFloorMod \<longrightarrow> scalar_type l \<noteq> None \<and> scalar_type r \<noteq> None"
  proof -
    obtain a b where "va = Inr a" "vb = Inr b" using ok by (auto simp: is_ok_iff)
    with k fd(2) [OF ok, of l r d] fm(2) [OF ok, of l r d] show ?thesis
      by (cases k) (auto simp: cib_binary_def Let_def)
  qed
qed

lemma cib_unary_total:
  "no_failure va \<Longrightarrow> no_failure (cib_unary k d va)" "is_ok va \<Longrightarrow> is_ok (cib_unary k d va)"
  by (cases k; auto simp: cib_unary_def is_ok_iff intro!: no_failure_bind)+

text \<open>
  The analysis never fails a check: a floor division or modulo is only computed on
  non-empty bounds that exclude zero. On expressions without shifts, with scalar operands and
  float literals in range, it always produces a bound.
\<close>

theorem cib_visit_total:
  assumes "wf_bounds m" and "wf_expr e"
  shows "no_failure (cib_visit H m e) \<and> (cib_defined H e \<longrightarrow> is_ok (cib_visit H m e))"
  using assms(2)
proof (induction e)
  case (Binary k l r d)
  then have r: "\<And>b. cib_visit H m r = Inr b \<Longrightarrow> wf_bound b" using cib_visit_wf [OF assms(1), of r H] by simp
  from Binary show ?case
    using cib_binary_total [OF r, where va = "cib_visit H m l" and k = k and l = l and r = r and d = d]
    by auto
next
  case (Unary k a d)
  then show ?case using cib_unary_total [of "cib_visit H m a" k d] by auto
next
  case (ConstFloat v d)
  show ?case by (auto simp: cib_const_float_def Let_def intro!: no_failure_bind)
qed (auto simp: Let_def)


section \<open>The theorems at work\<close>

text \<open>
  A block index \<open>x\<close> in \<open>[0, 15]\<close> and a row count \<open>y\<close>: the extent \<open>min(y - x * 8, 8)\<close> of a shard.
\<close>

definition example_bounds :: bound_map where
  "example_bounds = [0 \<mapsto> bnd 0 15, 1 \<mapsto> bnd 1 128]"

definition example_env :: env where
  "example_env = env_of [0 \<mapsto> 3, 1 \<mapsto> 100] cast_exact"

definition shard_extent :: "int expr" where
  "shard_extent = ibin KMin (ibin KSub (ivar 1) (ibin KMul (ivar 0) (ilit 8))) (ilit 8)"

lemma casts_bounded_exact: "ccast \<rho> = cast_exact \<Longrightarrow> casts_bounded \<rho>"
  by (auto simp: casts_bounded_def cast_exact_def ConstIntFitsDtype_def Let_def type_lo_def type_hi_def
      split: if_splits)

lemma casts_bounded_wrap:
  assumes "ccast \<rho> = cast_wrap"
  shows "casts_bounded \<rho>"
  unfolding casts_bounded_def assms
proof (intro allI impI)
  fix d x v
  assume d: "IsInt d" and v: "cast_wrap d x = Some v"
  define n where "n = GetBit d"
  have n: "0 < n" "n \<le> 64" using v GetBit_le_64 by (auto simp: cast_wrap_def n_def split: if_splits)
  have pow: "(2::int) ^ n = 2 * 2 ^ (n - 1)" using n by (cases n) simp_all
  show "if GetBit d = 0 \<or> GetBit d \<ge> 64 then finite_val x \<and> finite_val v \<longrightarrow> v = x
      else type_lo d \<le> v \<and> v \<le> type_hi d \<and> (type_lo d \<le> x \<and> x \<le> type_hi d \<longrightarrow> v = x)"
  proof (cases "n = 64")
    case True
    have "v = x" if f: "finite_val x" "finite_val v"
    proof -
      have r: "- (2 ^ 63) \<le> x" "x < 2 ^ 63" "v < 2 ^ 63" using f by (simp_all add: finite_val_def inf_defs limits_defs)
      show ?thesis
      proof (cases "IsUnsignedInt d")
        case True
        with v \<open>n = 64\<close> have v: "v = x mod 2 ^ 64" by (auto simp: cast_wrap_def n_def split: if_splits)
        have "0 \<le> x"
        proof (rule ccontr)
          assume "\<not> 0 \<le> x"
          have "x mod 2 ^ 64 = (x + 2 ^ 64) mod 2 ^ 64" by (rule mod_add_self2 [symmetric])
          also have "\<dots> = x + 2 ^ 64" by (rule mod_pos_pos_trivial) (use r \<open>\<not> 0 \<le> x\<close> in simp_all)
          finally show False using v r by simp
        qed
        then show ?thesis using v r by simp
      next
        case False
        with v \<open>n = 64\<close> have v: "v = (x + 2 ^ 63) mod 2 ^ 64 - 2 ^ 63" by (auto simp: cast_wrap_def n_def split: if_splits)
        have "(x + 2 ^ 63) mod 2 ^ 64 = x + 2 ^ 63" by (rule mod_pos_pos_trivial) (use r in simp_all)
        with v show ?thesis by simp
      qed
    qed
    with True show ?thesis by (simp add: n_def)
  next
    case False
    have u: "v = x mod 2 ^ n" if "IsUnsignedInt d" using v that by (auto simp: cast_wrap_def n_def split: if_splits)
    have s: "v = (x + 2 ^ (n - 1)) mod 2 ^ n - 2 ^ (n - 1)" if "\<not> IsUnsignedInt d"
      using v that by (auto simp: cast_wrap_def n_def split: if_splits)
    have m: "0 \<le> y mod 2 ^ n" "y mod 2 ^ n < 2 ^ n" for y :: int by simp_all
    have "type_lo d \<le> v \<and> v \<le> type_hi d \<and> (type_lo d \<le> x \<and> x \<le> type_hi d \<longrightarrow> v = x)"
    proof (cases "IsUnsignedInt d")
      case True
      then show ?thesis
        using u m [of x] by (auto simp: type_lo_def type_hi_def n_def [symmetric] intro!: mod_pos_pos_trivial)
    next
      case False
      then show ?thesis
        using s m [of "x + 2 ^ (n - 1)"] pow
        by (auto simp: type_lo_def type_hi_def n_def [symmetric] mod_pos_pos_trivial)
    qed
    with False n show ?thesis by (simp add: n_def)
  qed
qed

lemma example_hypotheses:
  "bounds_hold example_bounds example_env" "wf_bounds example_bounds" "calls_hold example_env"
  "casts_bounded example_env"
  by (auto simp: bounds_hold_def wf_bounds_def calls_hold_def example_bounds_def example_env_def
      i64_simps intro: casts_bounded_exact)

lemmas cib_compute = cib_binary_def BoundMul_def InfAwareMul_def InfAwareAdd_def InfAwareNeg_def
  MulWouldOverflow_def AddWouldOverflow_def NegWouldOverflow_def cdiv_def inf_defs limits_defs
  finite_val_def

lemma shard_extent_bound: "cib_visit int_host example_bounds shard_extent = Inr (bnd (-119) 8)"
  by (simp add: shard_extent_def int_instance_defs example_bounds_def cib_compute
      cong: res_bind_weak_cong)

text \<open>A conversion that wraps: 300 converted to 8 bits is 44.\<close>

definition wrapped_product :: "int expr" where
  "wrapped_product = Unary KCast (ibin KMul (ivar 0) (ivar 1)) UINT8"

definition wrapping_env :: env where
  "wrapping_env = example_env\<lparr>ccast := cast_wrap\<rparr>"

lemma wrapped_product_bound: "cib_visit int_host example_bounds wrapped_product = Inr (bnd 0 255)"
  by (simp add: wrapped_product_def int_instance_defs example_bounds_def cib_compute cib_unary_def cib_cast_def
      cong: res_bind_weak_cong)

lemma cib_visit_sound_witness:
  "eval wrapping_env wrapped_product = Some 44 \<and> in_bound (bnd 0 255) 44"
proof -
  note v = wrapped_product_bound
  have e: "eval wrapping_env wrapped_product = Some 44"
    by (simp add: wrapped_product_def int_instance_defs wrapping_env_def example_env_def cast_wrap_def)
  have h: "bounds_hold example_bounds wrapping_env" "calls_hold wrapping_env" "casts_bounded wrapping_env"
    using example_hypotheses(1,3) casts_bounded_wrap
    by (simp_all add: bounds_hold_def calls_hold_def wrapping_env_def)
  have "all_vals finite_val wrapping_env wrapped_product" and "wf_expr wrapped_product"
    by (simp_all add: wrapped_product_def int_instance_defs wrapping_env_def example_env_def cast_wrap_def cib_compute
        i64_simps)
  with e cib_visit_sound [OF h(1) example_hypotheses(2) h(2,3) _ _ v e] show ?thesis by simp
qed

definition shard_guard :: "int expr" where
  "shard_guard = ibin KAnd (ibin KLt (ivar 0) (ilit 12)) (ibin KLe (ilit 2) (ivar 0))"

lemma example_enter:
  "\<exists>recovery. cib_enter_constraint int_host example_bounds shard_guard =
     Inr (example_bounds(0 \<mapsto> bnd 2 11), recovery)"
proof -
  have b: "example_bounds 0 = Some (bnd 0 15)" by (simp add: example_bounds_def)
  show ?thesis
    by (simp add: cib_enter_constraint_def shard_guard_def int_instance_defs parse_compare_def
        left_bound_def right_bound_def StrictBound_def IsIntegerScalar_def is_const_def
        TryTighten_def b InfAwareAdd_def AddWouldOverflow_def inf_defs limits_defs)
qed

lemma cib_enter_constraint_sound_witness:
  "bounds_hold (example_bounds(0 \<mapsto> bnd 2 11)) example_env"
proof -
  obtain recovery where "cib_enter_constraint int_host example_bounds shard_guard =
     Inr (example_bounds(0 \<mapsto> bnd 2 11), recovery)"
    using example_enter by blast
  moreover have "all_vals finite_val example_env shard_guard" and "wf_expr shard_guard"
    and "eval example_env shard_guard = Some 1"
    by (simp_all add: shard_guard_def int_instance_defs example_env_def cib_compute i64_simps is_truth_def)
  ultimately show ?thesis
    using cib_enter_constraint_sound [OF example_hypotheses] by blast
qed

lemma cib_recover_restores_witness:
  "\<exists>recovery. cib_visit int_host (cib_recover recovery (example_bounds(0 \<mapsto> bnd 2 11))) shard_extent =
     Inr (bnd (-119) 8)"
proof -
  obtain recovery where "cib_enter_constraint int_host example_bounds shard_guard =
     Inr (example_bounds(0 \<mapsto> bnd 2 11), recovery)"
    using example_enter by blast
  from cib_recover_restores [OF this, of shard_extent] show ?thesis
    unfolding shard_extent_bound by (rule exI)
qed

text \<open>Two nested scopes: the guard on \<open>x\<close>, and inside it \<open>y < 120\<close>.\<close>

definition rows_guard :: "int expr" where
  "rows_guard = ibin KLt (ivar 1) (ilit 120)"

lemma example_nested:
  "\<exists>rs. enter_all (cib_enter_constraint int_host) example_bounds [shard_guard, rows_guard] [] =
     Inr (example_bounds(0 \<mapsto> bnd 2 11, 1 \<mapsto> bnd 1 119), rs)"
proof -
  obtain r where r: "cib_enter_constraint int_host example_bounds shard_guard =
     Inr (example_bounds(0 \<mapsto> bnd 2 11), r)"
    using example_enter by blast
  have b: "example_bounds (Suc 0) = Some (bnd 1 128)" by (simp add: example_bounds_def)
  show ?thesis
    by (simp add: r) (simp add: cib_enter_constraint_def rows_guard_def int_instance_defs
        parse_compare_def left_bound_def right_bound_def StrictBound_def IsIntegerScalar_def
        is_const_def TryTighten_def b InfAwareAdd_def AddWouldOverflow_def inf_defs limits_defs)
qed

lemma nested_guards_hold:
  "\<forall>c\<in>set [shard_guard, rows_guard]. cib_covers example_env c \<and> eval example_env c = Some 1"
  by (simp add: shard_guard_def rows_guard_def int_instance_defs example_env_def cib_compute
      i64_simps is_truth_def cib_covers_def)

lemma cib_nested_scopes_sound_witness:
  "cib_visit int_host (example_bounds(0 \<mapsto> bnd 2 11, 1 \<mapsto> bnd 1 119)) shard_extent = Inr (bnd (-87) 8) \<and>
   in_bound (bnd (-87) 8) 8"
proof -
  obtain rs where rs: "enter_all (cib_enter_constraint int_host) example_bounds [shard_guard, rows_guard] [] =
     Inr (example_bounds(0 \<mapsto> bnd 2 11, 1 \<mapsto> bnd 1 119), rs)"
    using example_nested by blast
  have v: "cib_visit int_host (example_bounds(0 \<mapsto> bnd 2 11, 1 \<mapsto> bnd 1 119)) shard_extent = Inr (bnd (-87) 8)"
    by (simp add: shard_extent_def int_instance_defs cib_compute cong: res_bind_weak_cong)
  have c: "cib_covers example_env shard_extent"
    by (simp add: cib_covers_def shard_extent_def int_instance_defs example_env_def cib_compute i64_simps)
  have d: "cib_describes example_bounds example_env" by (simp add: cib_describes_def example_hypotheses)
  have e: "eval example_env shard_extent = Some 8"
    by (simp add: shard_extent_def int_instance_defs example_env_def)
  from v cib_nested_scopes_sound [OF d nested_guards_hold rs c v e] show ?thesis by simp
qed

lemma cib_nested_scopes_restore_witness:
  "\<exists>rs. cib_visit int_host (leave_all cib_recover rs (example_bounds(0 \<mapsto> bnd 2 11, 1 \<mapsto> bnd 1 119)))
     shard_extent = Inr (bnd (-119) 8)"
proof -
  obtain rs where "enter_all (cib_enter_constraint int_host) example_bounds [shard_guard, rows_guard] [] =
     Inr (example_bounds(0 \<mapsto> bnd 2 11, 1 \<mapsto> bnd 1 119), rs)"
    using example_nested by blast
  from cib_nested_scopes_restore [OF this, of shard_extent] show ?thesis
    unfolding shard_extent_bound by (rule exI)
qed

lemma cib_visit_total_witness:
  "no_failure (cib_visit int_host example_bounds (ibin KFloorMod (ivar 1) (ivar 0))) \<and>
   is_ok (cib_visit int_host example_bounds (ibin KFloorMod (ivar 1) (ivar 0)))"
  using cib_visit_total [of example_bounds "ibin KFloorMod (ivar 1) (ivar 0)" int_host]
  by (simp add: example_hypotheses int_instance_defs)

text \<open>
  The hypothesis on the range is needed: a variable known to be \<open>INT64_MAX\<close>, the value that also
  stands for plus infinity, gives the sum with -5 the bound \<open>[INT64_MAX, INT64_MAX]\<close>.
\<close>

lemma sentinel_collision:
  "cib_visit int_host [0 \<mapsto> bnd INT64_MAX INT64_MAX] (ibin KAdd (ivar 0) (ilit (-5))) =
     Inr (bnd INT64_MAX INT64_MAX) \<and>
   eval (env_of [0 \<mapsto> INT64_MAX] cast_exact) (ibin KAdd (ivar 0) (ilit (-5))) = Some (INT64_MAX - 5)"
  by (simp add: int_instance_defs cib_compute)

text \<open>
  Shifting by an amount whose bound is empty (which \<open>cib_enter_constraint\<close> produces for contradictory
  constraints) evaluates a C++ shift by more than the width.
\<close>

lemma empty_bound_shift:
  "cib_visit int_host [0 \<mapsto> bnd 1 8, 1 \<mapsto> bnd 100 5] (ibin KBitShiftLeft (ivar 0) (ivar 1)) =
     Inl UndefinedBehavior"
  by (simp add: int_instance_defs cib_compute is_non_negative_def shift_amount_def)

end
