(* ===== verification/Modular_Set.thy ===== *)
theory Modular_Set
  imports Const_Fold Scoped_Analysis
begin

text \<open>
  Congruence analysis, \<^verbatim>\<open>src/ir/arith/modular_set.cpp\<close>: the normalising constructor of \<open>Entry\<close>, union
  and intersection of congruence classes (by the Chinese remainder theorem), the visitor
  (\<open>ms_visit\<close>, with one function for the binary nodes), and the constraint scope
  (\<open>ms_enter_constraint\<close>). The state is the map from variables to entries. Shown here: an entry is
  always in normal form; the entry computed for an expression contains its value, for conversions
  that keep the value; a constraint with a positive modulus keeps the state sound, and one with a
  negative modulus need not; leaving the scope restores what every query sees.
\<close>

section \<open>Entries\<close>

record Entry =
  coeff :: int
  base :: int

definition ent :: "int \<Rightarrow> int \<Rightarrow> Entry" where
  "ent c b = \<lparr>coeff = c, base = b\<rparr>"

lemma ent_simps [simp]: "coeff (ent c b) = c" "base (ent c b) = b"
  "ent c b = ent c' b' \<longleftrightarrow> c = c' \<and> b = b'"
  by (simp_all add: ent_def)

definition entry_is_const :: "Entry \<Rightarrow> bool" where
  "entry_is_const e \<longleftrightarrow> coeff e = 0"

text \<open>The constructor \<open>Entry(int64_t c, int64_t b)\<close>.\<close>

definition mk_entry :: "int \<Rightarrow> int \<Rightarrow> Entry res" where
  "mk_entry c b =
     res_bind (if c < 0 then i64 (- c) else Inr c) (\<lambda>c'.
     res_bind (if c < 0 then i64 (- b) else Inr b) (\<lambda>b'.
     Inr (if c' \<noteq> 0 then let r = cmod b' c' in ent c' (if r < 0 then r + c' else r)
          else ent c' b')))"

definition AnyEntry :: Entry where
  "AnyEntry = ent 1 0"

definition Union :: "Entry \<Rightarrow> Entry \<Rightarrow> Entry res" where
  "Union a b =
     res_bind (ZeroAwareGCD (coeff a) (coeff b)) (\<lambda>c.
       if c = 0 then Inr (if base a = base b then a else AnyEntry)
       else let base0 = cmod (base a) c; base1 = cmod (base b) c in
         if base0 = base1 then mk_entry c base0
         else res_bind (i64 (base0 - base1)) (\<lambda>d.
           res_bind (i64 \<bar>d\<bar>) (\<lambda>d'.
           res_bind (ZeroAwareGCD c d') (\<lambda>g. mk_entry g base0))))"

definition Intersect :: "Entry \<Rightarrow> Entry \<Rightarrow> Entry res" where
  "Intersect a b =
     (let c1 = coeff a; b1 = base a; c2 = coeff b; b2 = base b in
      res_bind (ExtendedEuclidean c1 c2) (\<lambda>(g, x, y).
      res_bind (i64 (b2 - b1)) (\<lambda>v.
        if g \<noteq> 0 \<and> cmod v g = 0 then
          res_bind (i64 (cdiv v g * x)) (\<lambda>x'.
          res_bind (i64 (cdiv c1 g * c2)) (\<lambda>c.
          res_bind (i64 (x' * c1)) (\<lambda>xc.
          res_bind (i64 (xc + b1)) (\<lambda>n. mk_entry c n))))
        else Inr AnyEntry)))"

section \<open>The visitor\<close>

type_synonym entry_map = "nat \<Rightarrow> Entry option"

text \<open>Division and modulo of an operand, whose entry is \<open>va\<close>, by a known constant.\<close>

definition FloorDivByConst :: "Entry res \<Rightarrow> int \<Rightarrow> Entry res" where
  "FloorDivByConst va val =
     res_bind va (\<lambda>a.
     res_bind (check InternalError (val \<noteq> 0)) (\<lambda>_.
       if cmod (coeff a) val = 0 then
         if base a = 0 then mk_entry \<bar>cdiv (coeff a) val\<bar> 0
         else if base a > 0 \<and> val > 0 then mk_entry (cdiv (coeff a) val) (cdiv (base a) val)
         else Inr AnyEntry
       else Inr AnyEntry))"

definition FloorModByConst :: "Entry res \<Rightarrow> int \<Rightarrow> Entry res" where
  "FloorModByConst va val =
     res_bind va (\<lambda>a.
     res_bind (check InternalError (val \<noteq> 0)) (\<lambda>_.
     res_bind (ZeroAwareGCD (coeff a) val) (\<lambda>c.
       if base a \<ge> 0 then mk_entry c (cmod (base a) c) else Inr AnyEntry)))"

text \<open>The binary nodes; \<open>va\<close> and \<open>vb\<close> are the results of visiting the operands.\<close>

definition ms_binary :: "binop \<Rightarrow> Entry res \<Rightarrow> Entry res \<Rightarrow> Entry res" where
  "ms_binary k va vb =
     (case k of
        KAdd \<Rightarrow> res_bind va (\<lambda>a. res_bind vb (\<lambda>b.
          if AddWouldOverflow (base a) (base b) then Inr AnyEntry
          else res_bind (ZeroAwareGCD (coeff a) (coeff b)) (\<lambda>c. mk_entry c (base a + base b))))
      | KSub \<Rightarrow> res_bind va (\<lambda>a. res_bind vb (\<lambda>b.
          if SubWouldOverflow (base a) (base b) then Inr AnyEntry
          else res_bind (ZeroAwareGCD (coeff a) (coeff b)) (\<lambda>c. mk_entry c (base a - base b))))
      | KMul \<Rightarrow> res_bind va (\<lambda>a. res_bind vb (\<lambda>b.
          if MulWouldOverflow (base a) (base b) then Inr AnyEntry
          else if MulWouldOverflow (coeff a) (coeff b) \<or> MulWouldOverflow (coeff a) (base b)
            \<or> MulWouldOverflow (base a) (coeff b) then Inr AnyEntry
          else let pq = coeff a * coeff b; pm = coeff a * base b; qn = base a * coeff b in
            res_bind (ZeroAwareGCD pm qn) (\<lambda>g.
            res_bind (ZeroAwareGCD pq g) (\<lambda>c. mk_entry c (base a * base b)))))
      | KFloorDiv \<Rightarrow> res_bind vb (\<lambda>b.
          if entry_is_const b \<and> base b \<noteq> 0 then FloorDivByConst va (base b) else Inr AnyEntry)
      | KFloorMod \<Rightarrow> res_bind vb (\<lambda>b.
          if entry_is_const b \<and> base b \<noteq> 0 then FloorModByConst va (base b) else Inr AnyEntry)
      | KMin \<Rightarrow> res_bind va (\<lambda>a. res_bind vb (\<lambda>b. Union a b))
      | KMax \<Rightarrow> res_bind va (\<lambda>a. res_bind vb (\<lambda>b. Union a b))
      | KBitAnd \<Rightarrow> res_bind vb (\<lambda>b.
          if entry_is_const b \<and> base b > 0 then
            res_bind (i64 (base b + 1)) (\<lambda>p.
              if and (base b) p = 0 then FloorModByConst va p else Inr AnyEntry)
          else Inr AnyEntry)
      | KBitShiftLeft \<Rightarrow> res_bind vb (\<lambda>b.
          if entry_is_const b \<and> base b \<ge> 0 \<and> base b < 63 then
            res_bind va (\<lambda>a.
              let multiplier = 2 ^ nat (base b) in
              if MulWouldOverflow (coeff a) multiplier \<or> MulWouldOverflow (base a) multiplier
              then Inr AnyEntry
              else res_bind (ZeroAwareGCD 0 (coeff a * multiplier)) (\<lambda>c.
                mk_entry c (base a * multiplier)))
          else Inr AnyEntry)
      | KBitShiftRight \<Rightarrow> res_bind vb (\<lambda>b.
          if entry_is_const b \<and> base b \<ge> 0 \<and> base b < 63 then FloorDivByConst va (2 ^ nat (base b))
          else Inr AnyEntry)
      | _ \<Rightarrow> Inr AnyEntry)"

definition ms_unary :: "unop \<Rightarrow> Entry res \<Rightarrow> Entry res" where
  "ms_unary k va =
     (case k of
        KNeg \<Rightarrow> res_bind va (\<lambda>a. res_bind (i64 (- base a)) (\<lambda>n. mk_entry (coeff a) n))
      | KCast \<Rightarrow> va
      | _ \<Rightarrow> Inr AnyEntry)"

primrec ms_visit :: "entry_map \<Rightarrow> 'f expr \<Rightarrow> Entry res" where
  "ms_visit m (ConstInt v d) = mk_entry 0 v"
| "ms_visit m (ConstFloat v d) = Inr AnyEntry"
| "ms_visit m (ConstBool b) = mk_entry 0 (if b then 1 else 0)"
| "ms_visit m (Var i t) = Inr (case m i of Some e \<Rightarrow> e | None \<Rightarrow> AnyEntry)"
| "ms_visit m (IterArg i t) = Inr (case m i of Some e \<Rightarrow> e | None \<Rightarrow> AnyEntry)"
| "ms_visit m (Call f i t) = Inr AnyEntry"
| "ms_visit m (Opaque i t) = Inr AnyEntry"
| "ms_visit m (Binary k l r d) = ms_binary k (ms_visit m l) (ms_visit m r)"
| "ms_visit m (Unary k a d) = ms_unary k (ms_visit m a)"

section \<open>Constraint scopes and public operations\<close>

text \<open>\<open>UpdateByIntersect\<close>: the new map and the entry to restore.\<close>

definition UpdateByIntersect ::
  "nat \<Rightarrow> Entry \<Rightarrow> entry_map \<Rightarrow> (entry_map \<times> (nat \<times> Entry) option) res" where
  "UpdateByIntersect i e m =
     (let old = (case m i of Some x \<Rightarrow> x | None \<Rightarrow> AnyEntry) in
      res_bind (Intersect old e) (\<lambda>n. Inr (m(i \<mapsto> n), Some (i, old))))"

text \<open>The entry a constraint gives to a variable, by the three patterns in their order.\<close>

fun match_floormod_eq :: "'f expr \<Rightarrow> 'f expr \<Rightarrow> (nat \<times> int \<times> int) option" where
  "match_floormod_eq (Binary KFloorMod (Var i _) (ConstInt c _) _) (ConstInt b _) = Some (i, c, b)"
| "match_floormod_eq _ _ = None"

fun match_var_eq :: "'f expr \<Rightarrow> 'f expr \<Rightarrow> (nat \<times> int) option" where
  "match_var_eq (Var i _) (ConstInt b _) = Some (i, b)"
| "match_var_eq _ _ = None"

definition ms_constraint_entry :: "'f expr \<Rightarrow> (nat \<times> Entry res) option" where
  "ms_constraint_entry c =
     (case c of
        Binary k l r _ \<Rightarrow>
          if k \<noteq> KEq then None
          else (case match_floormod_eq l r of
              Some (i, c, b) \<Rightarrow> Some (i, mk_entry c b)
            | None \<Rightarrow> (case match_var_eq l r of
                Some (i, b) \<Rightarrow> Some (i, mk_entry 0 b)
              | None \<Rightarrow> (case match_var_eq r l of
                  Some (i, b) \<Rightarrow> Some (i, mk_entry 0 b)
                | None \<Rightarrow> None)))
      | _ \<Rightarrow> None)"

definition ms_enter_constraint ::
  "entry_map \<Rightarrow> 'f expr \<Rightarrow> (entry_map \<times> (nat \<times> Entry) option) res" where
  "ms_enter_constraint m c =
     (case ms_constraint_entry c of
        Some (i, re) \<Rightarrow> res_bind re (\<lambda>e. UpdateByIntersect i e m)
      | None \<Rightarrow> Inr (m, None))"

definition ms_recover :: "(nat \<times> Entry) option \<Rightarrow> entry_map \<Rightarrow> entry_map" where
  "ms_recover r m =
     (case r of
        None \<Rightarrow> m
      | Some (i, old) \<Rightarrow> if coeff old = 1 \<and> base old = 0 then m(i := None) else m(i \<mapsto> old))"

definition ms_update :: "nat \<Rightarrow> int \<Rightarrow> int \<Rightarrow> entry_map \<Rightarrow> entry_map res" where
  "ms_update i c b m =
     res_bind (check ValueError (c \<ge> 0)) (\<lambda>_.
     res_bind (mk_entry c b) (\<lambda>e. Inr (m(i \<mapsto> e))))"

definition ms_unbind :: "nat \<Rightarrow> entry_map \<Rightarrow> entry_map" where
  "ms_unbind i m = m(i := None)"


section \<open>Normal form\<close>

definition in_entry :: "Entry \<Rightarrow> int \<Rightarrow> bool" where
  "in_entry e v \<longleftrightarrow> coeff e dvd v - base e"

definition wf_entry :: "Entry \<Rightarrow> bool" where
  "wf_entry e \<longleftrightarrow> 0 \<le> coeff e \<and> is_i64 (coeff e) \<and> is_i64 (base e) \<and>
     (coeff e \<noteq> 0 \<longrightarrow> 0 \<le> base e \<and> base e < coeff e)"

lemma AnyEntry_simps [simp]: "in_entry AnyEntry v" "wf_entry AnyEntry"
  by (simp_all add: in_entry_def wf_entry_def AnyEntry_def is_i64_alt)

lemma cmod_to_mod: "0 < c \<Longrightarrow> (if cmod b c < 0 then cmod b c + c else cmod b c) = b mod c"
proof -
  assume c: "0 < c"
  then have *: "(if c \<ge> 0 \<and> cmod b c \<ge> 0 \<or> c < 0 \<and> cmod b c \<le> 0 then cmod b c else cmod b c + c) = b mod c"
    by (intro trunc_to_floor(2)) simp
  show ?thesis
  proof (cases "cmod b c < 0")
    case True
    then have "cmod b c + c = b mod c" using * c by (simp only: not_le [symmetric] if_False) simp
    with True show ?thesis by simp
  next
    case False
    then have "cmod b c = b mod c" using * c by (simp only: not_less if_True) simp
    with False show ?thesis by simp
  qed
qed

lemma cmod_dvd: "c dvd x - cmod x c"
  using cdiv_cmod [of x c] by (metis add_diff_cancel_right' dvd_triv_right)

lemma mk_entry_eq: "0 \<le> c \<Longrightarrow> mk_entry c b = Inr (ent c (if c = 0 then b else b mod c))"
  using cmod_to_mod [of c b] by (auto simp: mk_entry_def Let_def)

lemma dvd_diff_mod_iff: "c dvd v - b mod c \<longleftrightarrow> c dvd v - (b::int)"
  using mod_eq_dvd_iff [of v c "b mod c"] mod_eq_dvd_iff [of v c b] by simp

lemma mk_entry_sound:
  assumes "mk_entry c b = Inr e" and "0 \<le> c" and "c dvd v - b"
  shows "in_entry e v"
  using assms by (auto simp: mk_entry_eq in_entry_def dvd_diff_mod_iff)

lemma mk_entry_wf: "mk_entry c b = Inr e \<Longrightarrow> 0 \<le> c \<Longrightarrow> is_i64 c \<Longrightarrow> is_i64 b \<Longrightarrow> wf_entry e"
  by (auto simp: mk_entry_eq wf_entry_def mod_i64)

text \<open>Also for a negative modulus the constructor normalises, if not to the class it was given.\<close>

lemma mk_entry_normal: "mk_entry c b = Inr e \<Longrightarrow> is_i64 c \<Longrightarrow> is_i64 b \<Longrightarrow> wf_entry e"
proof (cases "c < 0")
  case True
  assume m: "mk_entry c b = Inr e" and i: "is_i64 c" "is_i64 b"
  then have "mk_entry (- c) (- b) = Inr e" and "is_i64 (- c)" and "is_i64 (- b)"
    using True by (auto simp: mk_entry_def)
  with True show "wf_entry e" by (intro mk_entry_wf [of "- c" "- b"]) auto
qed (auto intro: mk_entry_wf)

lemma gcd_i64_cases:
  assumes "is_i64 a" and "is_i64 b"
  obtains "gcd a b = 9223372036854775808" | "is_i64 (gcd a b)"
proof -
  have "gcd a b \<le> 9223372036854775808"
  proof (cases "a = 0")
    case False
    then have "gcd a b \<le> \<bar>a\<bar>" using dvd_imp_le_int [of a "gcd a b"] by simp
    then show ?thesis using assms(1) by (auto simp: is_i64_alt)
  qed (use assms(2) in \<open>auto simp: is_i64_alt\<close>)
  moreover have "0 \<le> gcd a b" by simp
  ultimately have "gcd a b = 9223372036854775808 \<or> is_i64 (gcd a b)"
    unfolding is_i64_alt by linarith
  then show ?thesis using that by blast
qed

lemma ZeroAwareGCD_Inr:
  "ZeroAwareGCD a b = Inr g \<Longrightarrow> is_i64 a \<Longrightarrow> is_i64 b \<Longrightarrow> g = to_i64 (gcd a b)"
  by (auto simp: ZeroAwareGCD_eq split: if_splits)

lemma ZeroAwareGCD_abs:
  assumes "ZeroAwareGCD a b = Inr g" and "is_i64 a" and "is_i64 b"
  shows "\<bar>g\<bar> = gcd a b" and "is_i64 g"
proof -
  note g = ZeroAwareGCD_Inr [OF assms]
  show "is_i64 g" by (simp add: g to_i64_range)
  show "\<bar>g\<bar> = gcd a b"
    using assms(2,3)
  proof (cases rule: gcd_i64_cases)
    case 1
    then show ?thesis by (simp add: g to_i64_def u64_def INT64_MAX_def)
  qed (simp add: g)
qed

lemma ZeroAwareGCD_nonneg:
  assumes "ZeroAwareGCD a b = Inr g" and "is_i64 a" and "is_i64 b" and "0 \<le> a \<or> 0 \<le> b"
  shows "g = gcd a b"
  using assms(2,3)
proof (cases rule: gcd_i64_cases)
  case 1
  have "a = 0 \<or> b = 0"
  proof (rule ccontr)
    assume nz: "\<not> (a = 0 \<or> b = 0)"
    then have "gcd a b \<le> \<bar>a\<bar>" and "gcd a b \<le> \<bar>b\<bar>"
      using dvd_imp_le_int [of a "gcd a b"] dvd_imp_le_int [of b "gcd a b"] by simp_all
    with 1 assms(2-4) show False by (auto simp: is_i64_alt)
  qed
  then show ?thesis using assms 1 by (auto simp: ZeroAwareGCD_eq INT64_MAX_def)
qed (use ZeroAwareGCD_Inr [OF assms(1-3)] in simp)

lemma gcd_dvd_trans: "a dvd x \<Longrightarrow> gcd a b dvd (x::int)" "b dvd x \<Longrightarrow> gcd a b dvd (x::int)"
  using dvd_trans gcd_dvd1 gcd_dvd2 by blast+

section \<open>Union and intersection\<close>

lemma Union_sound:
  assumes u: "Union a b = Inr e" and wf: "wf_entry a" "wf_entry b"
    and v: "in_entry a v \<or> in_entry b v"
  shows "in_entry e v"
proof -
  obtain c where c: "ZeroAwareGCD (coeff a) (coeff b) = Inr c" using u by (auto simp: Union_def)
  have ceq: "c = gcd (coeff a) (coeff b)" using ZeroAwareGCD_nonneg [OF c] wf by (simp add: wf_entry_def)
  show ?thesis
  proof (cases "c = 0")
    case True
    then have "e = (if base a = base b then a else AnyEntry)" using u c by (simp add: Union_def)
    with True v ceq show ?thesis by (cases "base a = base b") (auto simp: in_entry_def [of a] in_entry_def [of b])
  next
    case False
    then have pos: "0 < c" using ceq by simp
    define d0 where "d0 = cmod (base a) c"
    define d1 where "d1 = cmod (base b) c"
    have ci: "is_i64 c" using ZeroAwareGCD_abs(2) [OF c] wf by (simp add: wf_entry_def)
    have "c dvd v - base a \<or> c dvd v - base b"
      using v ceq gcd_dvd_trans by (auto simp: in_entry_def)
    then have cv: "c dvd v - d0 \<or> c dvd v - d1"
      using cmod_dvd [of c "base a"] cmod_dvd [of c "base b"]
      by (metis d0_def d1_def diff_add_cancel add_diff_eq dvd_add)
    show ?thesis
    proof (cases "d0 = d1")
      case True
      then have "mk_entry c d0 = Inr e"
        using u c False by (simp add: Union_def Let_def d0_def d1_def)
      with cv True pos show ?thesis by (auto intro: mk_entry_sound)
    next
      case ne: False
      then obtain g where i: "is_i64 (d0 - d1)" "is_i64 \<bar>d0 - d1\<bar>" and g: "ZeroAwareGCD c \<bar>d0 - d1\<bar> = Inr g"
        and e: "mk_entry g d0 = Inr e"
        using u c False by (auto simp: Union_def Let_def d0_def d1_def)
      have "g = gcd c \<bar>d0 - d1\<bar>" using ZeroAwareGCD_nonneg [OF g] i pos ci by simp
      then have gd: "g dvd c" "g dvd d0 - d1" "0 \<le> g" by simp_all
      have "g dvd v - d0"
        using cv
      proof
        assume "c dvd v - d1"
        then have "g dvd (v - d1) - (d0 - d1)" using gd dvd_trans dvd_diff by blast
        then show ?thesis by simp
      qed (use gd dvd_trans in blast)
      with e gd show ?thesis by (auto intro: mk_entry_sound)
    qed
  qed
qed

lemma Union_wf:
  assumes "Union a b = Inr e" and "wf_entry a" and "wf_entry b"
  shows "wf_entry e"
proof -
  obtain c where c: "ZeroAwareGCD (coeff a) (coeff b) = Inr c" using assms(1) by (auto simp: Union_def)
  have ci: "is_i64 c" using ZeroAwareGCD_abs(2) [OF c] assms by (simp add: wf_entry_def)
  have bi: "is_i64 (cmod x c)" if "is_i64 x" for x
  proof -
    have "0 \<le> \<bar>x\<bar> mod \<bar>c\<bar>" and "\<bar>x\<bar> mod \<bar>c\<bar> \<le> \<bar>x\<bar>"
      by (cases "c = 0"; simp add: zmod_le_nonneg_dividend)+
    then show ?thesis using that by (cases "x < 0") (auto simp: cmod_def is_i64_alt sgn_if)
  qed
  consider "e = a" | "e = AnyEntry" | "mk_entry c (cmod (base a) c) = Inr e"
    | g d where "ZeroAwareGCD c d = Inr g" "is_i64 d" "mk_entry g (cmod (base a) c) = Inr e"
    using assms(1) c by (auto simp: Union_def Let_def split: if_splits)
  then show ?thesis
  proof cases
    case 4
    then show ?thesis
      using ZeroAwareGCD_abs(2) [OF 4(1) ci 4(2)] bi assms(2) mk_entry_normal by (simp add: wf_entry_def [of a])
  qed (use assms(2) ci bi mk_entry_normal in \<open>auto simp: wf_entry_def [of a]\<close>)
qed


lemma Intersect_sound:
  assumes e: "Intersect a b = Inr e" and wf: "wf_entry a" "wf_entry b"
    and v: "in_entry a v" "in_entry b v"
  shows "in_entry e v"
proof -
  define c1 where "c1 = coeff a"
  define c2 where "c2 = coeff b"
  have nn: "0 \<le> c1" "0 \<le> c2" using wf by (simp_all add: wf_entry_def c1_def c2_def)
  have mx: "\<bar>c1\<bar> \<le> INT64_MAX" "\<bar>c2\<bar> \<le> INT64_MAX"
    using wf by (simp_all add: wf_entry_def c1_def c2_def is_i64_def)
  obtain g' x y where ext': "ExtendedEuclidean c1 c2 = Inr (g', x, y)"
    using e by (auto simp: Intersect_def Let_def simp flip: c1_def c2_def)
  then have ext: "ExtendedEuclidean c1 c2 = Inr (gcd c1 c2, x, y)" and bez: "c2 dvd c1 * x - gcd c1 c2"
    using ExtendedEuclidean_partial [OF ext' mx] by auto
  define g where "g = gcd c1 c2"
  define w where "w = base b - base a"
  show ?thesis
  proof (cases "g \<noteq> 0 \<and> cmod w g = 0")
    case False
    then have "e = AnyEntry"
      using e ext by (auto simp: Intersect_def Let_def g_def w_def simp flip: c1_def c2_def)
    then show ?thesis by simp
  next
    case True
    then have gw: "g dvd w" "g \<noteq> 0" by (simp_all add: cmod_eq_0_iff)
    have gc: "g dvd c1" by (simp add: g_def)
    have q: "cdiv w g = w div g" "cdiv c1 g = c1 div g" using gw gc by (simp_all add: cdiv_dvd)
    define n where "n = w div g * x * c1 + base a"
    have m: "mk_entry (c1 div g * c2) n = Inr e"
      using e ext True q
      by (auto simp: Intersect_def Let_def n_def simp flip: c1_def c2_def g_def w_def)
    have "c1 div g * c2 = lcm c1 c2"
      using nn prod_gcd_lcm_int [of c1 c2] gw(2) gc
      by (metis abs_of_nonneg dvd_div_mult g_def mult.commute nonzero_mult_div_cancel_left)
    moreover have "c1 dvd v - n"
    proof -
      have "v - n = (v - base a) - w div g * x * c1" by (simp add: n_def)
      moreover have "c1 dvd v - base a" using v(1) by (simp add: in_entry_def c1_def)
      ultimately show ?thesis by (metis dvd_diff dvd_triv_right)
    qed
    moreover have "c2 dvd v - n"
    proof -
      obtain z where "c1 * x = g + c2 * z"
        using bez by (metis dvdE g_def diff_add_cancel add.commute)
      then have "w div g * (x * c1) = w + c2 * (w div g * z)"
        using gw by (simp add: distrib_left ac_simps)
      then have "v - n = (v - base b) - c2 * (w div g * z)"
        by (simp add: n_def w_def mult.assoc)
      moreover have "c2 dvd v - base b" using v(2) by (simp add: in_entry_def c2_def)
      ultimately show ?thesis by (simp only: dvd_diff dvd_triv_left)
    qed
    ultimately show ?thesis
      using m nn by (intro mk_entry_sound [OF m]) (auto intro: lcm_least)
  qed
qed

lemma Intersect_wf:
  assumes "Intersect a b = Inr e" and "wf_entry a"
  shows "wf_entry e"
proof -
  consider "e = AnyEntry" | c n where "mk_entry c n = Inr e" "is_i64 c" "is_i64 n"
    using assms(1) by (auto simp: Intersect_def Let_def split: if_splits)
  then show ?thesis by cases (auto intro: mk_entry_normal)
qed

section \<open>Soundness of the analysis\<close>

lemma FloorDivByConst_cases:
  assumes "FloorDivByConst va c = Inr e"
  obtains (any) "e = AnyEntry"
    | (zero) a where "va = Inr a" "c \<noteq> 0" "c dvd coeff a" "base a = 0" "mk_entry \<bar>coeff a div c\<bar> 0 = Inr e"
    | (pos) a where "va = Inr a" "c dvd coeff a" "base a > 0" "c > 0"
        "mk_entry (coeff a div c) (base a div c) = Inr e"
proof -
  obtain a where a: "va = Inr a" "c \<noteq> 0" using assms by (auto simp: FloorDivByConst_def)
  with assms have "e = AnyEntry \<or> c dvd coeff a \<and> base a = 0 \<and> mk_entry \<bar>coeff a div c\<bar> 0 = Inr e \<or>
    c dvd coeff a \<and> base a > 0 \<and> c > 0 \<and> mk_entry (coeff a div c) (base a div c) = Inr e"
    by (auto simp: FloorDivByConst_def cmod_eq_0_iff cdiv_dvd split: if_splits)
  with a show ?thesis using that by blast
qed

lemma FloorModByConst_cases:
  assumes "FloorModByConst va c = Inr e"
  obtains (any) "e = AnyEntry"
    | (mod) a g where "va = Inr a" "c \<noteq> 0" "ZeroAwareGCD (coeff a) c = Inr g" "base a \<ge> 0"
        "mk_entry g (cmod (base a) g) = Inr e"
proof -
  obtain a g where "va = Inr a" "c \<noteq> 0" "ZeroAwareGCD (coeff a) c = Inr g"
    and "(if base a \<ge> 0 then mk_entry g (cmod (base a) g) else Inr AnyEntry) = Inr e"
    using assms by (auto simp: FloorModByConst_def)
  then show ?thesis using that by (auto split: if_splits)
qed

lemma FloorDivByConst_sound:
  assumes d: "FloorDivByConst va c = Inr e" and va: "\<And>a. va = Inr a \<Longrightarrow> wf_entry a \<and> in_entry a x"
  shows "in_entry e (x div c)"
  using d
proof (cases rule: FloorDivByConst_cases)
  case (zero a)
  obtain k where k: "x = coeff a * k" using va [OF zero(1)] zero(4) by (auto simp: in_entry_def)
  have "x div c = coeff a div c * k" using zero k by (simp add: div_mult_swap mult.commute)
  then have "\<bar>coeff a div c\<bar> dvd x div c - 0" by simp
  then show ?thesis by (intro mk_entry_sound [OF zero(5)]) simp_all
next
  case (pos a)
  obtain k where k: "x = coeff a * k + base a"
    using va [OF pos(1)] by (metis in_entry_def dvdE diff_add_cancel)
  have "x div c = coeff a div c * k + base a div c"
    using pos k by (auto simp: mult.assoc elim!: dvdE)
  moreover have "0 \<le> coeff a div c"
    using pos va [OF pos(1)] by (simp add: wf_entry_def pos_imp_zdiv_nonneg_iff)
  ultimately show ?thesis using mk_entry_sound [OF pos(5)] by simp
qed simp

lemma FloorDivByConst_wf:
  assumes d: "FloorDivByConst va c = Inr e" "is_i64 c" and va: "\<And>a. va = Inr a \<Longrightarrow> wf_entry a"
  shows "wf_entry e"
  using d(1)
proof (cases rule: FloorDivByConst_cases)
  case (zero a)
  have a: "0 \<le> coeff a" "is_i64 (coeff a)" using va [OF zero(1)] by (simp_all add: wf_entry_def)
  have "\<bar>coeff a div c\<bar> * 1 \<le> \<bar>coeff a div c\<bar> * \<bar>c\<bar>"
    using zero(2) by (intro mult_left_mono) auto
  also have "\<dots> = coeff a" using zero(3) a by (simp add: abs_mult [symmetric])
  finally have "is_i64 \<bar>coeff a div c\<bar>" using a by (simp add: is_i64_alt)
  then show ?thesis using zero(5) by (auto intro: mk_entry_wf)
next
  case (pos a)
  have "is_i64 (coeff a div c)" "is_i64 (base a div c)"
    using pos va [OF pos(1)] d(2) by (auto intro!: div_i64 simp: wf_entry_def)
  then show ?thesis using pos(5) by (auto intro: mk_entry_normal)
qed simp

lemma FloorModByConst_sound:
  assumes m: "FloorModByConst va c = Inr e" and va: "\<And>a. va = Inr a \<Longrightarrow> wf_entry a \<and> in_entry a x"
    and c: "is_i64 c"
  shows "in_entry e (x mod c)"
  using m
proof (cases rule: FloorModByConst_cases)
  case (mod a g)
  have geq: "g = gcd (coeff a) c"
    using ZeroAwareGCD_nonneg [OF mod(3)] va [OF mod(1)] c by (simp add: wf_entry_def)
  have "g dvd x - base a" using va [OF mod(1)] by (simp add: geq in_entry_def gcd_dvd_trans)
  moreover have "g dvd x mod c - x"
  proof -
    have "x mod c - x = c * (- (x div c))"
      by (metis minus_mod_eq_mult_div minus_diff_eq mult_minus_right)
    then show ?thesis using geq by (metis dvd_trans dvd_triv_left gcd_dvd2)
  qed
  ultimately have "g dvd (x mod c - x) + (x - base a) + (base a - cmod (base a) g)"
    using cmod_dvd [of g "base a"] by (intro dvd_add)
  then have "g dvd x mod c - cmod (base a) g" by simp
  then show ?thesis using geq by (intro mk_entry_sound [OF mod(5)]) simp_all
qed simp

lemma FloorModByConst_wf:
  assumes m: "FloorModByConst va c = Inr e" and va: "\<And>a. va = Inr a \<Longrightarrow> wf_entry a" and c: "is_i64 c"
  shows "wf_entry e"
  using m
proof (cases rule: FloorModByConst_cases)
  case (mod a g)
  have a: "is_i64 (coeff a)" "is_i64 (base a)" "0 \<le> coeff a"
    using va [OF mod(1)] by (simp_all add: wf_entry_def)
  have g: "is_i64 g" "0 \<le> g"
    using ZeroAwareGCD_abs(2) [OF mod(3)] ZeroAwareGCD_nonneg [OF mod(3)] a c by simp_all
  then have "is_i64 (cmod (base a) g)" using mod(4) a(2) by (simp add: mod_i64)
  with mod(5) g show ?thesis by (auto intro: mk_entry_normal)
qed simp

text \<open>A mask \<open>2 ^ n - 1\<close> is recognised by the vanishing of \<open>m AND (m + 1)\<close>.\<close>

lemma and_succ_0_mask:
  fixes m :: int
  assumes "0 \<le> m" and "and m (m + 1) = 0"
  shows "\<exists>n. m = 2 ^ n - 1"
  using assms
proof (induction "nat m" arbitrary: m rule: less_induct)
  case less
  show ?case
  proof (cases "m = 0")
    case True
    then have "m = 2 ^ 0 - 1" by simp
    then show ?thesis by blast
  next
    case False
    have "odd m"
    proof (rule ccontr)
      assume "\<not> odd m"
      then obtain k where k: "m = 2 * k" by blast
      have "and (2 * k) (2 * k + 1) = 2 * k"
        by (simp add: and_int_rec [of "2 * k"] and.idem)
      with k False less.prems(2) show False by simp
    qed
    then obtain k where k: "m = 2 * k + 1" by (blast elim: oddE)
    have "and (2 * k + 1) (2 * (k + 1)) = 2 * and k (k + 1)"
      by (subst and_int_rec) (simp add: algebra_simps)
    then have "and k (k + 1) = 0" using less.prems(2) k by (simp add: algebra_simps)
    moreover have "0 \<le> k" "nat k < nat m" using k less.prems(1) by auto
    ultimately obtain n where "k = 2 ^ n - 1" using less.hyps by blast
    then have "m = 2 ^ Suc n - 1" using k by simp
    then show ?thesis by blast
  qed
qed

lemma and_mask_mod:
  fixes m :: int
  assumes "0 < m" and "and m (m + 1) = 0"
  shows "and x m = x mod (m + 1)"
proof -
  obtain n where n: "m = 2 ^ n - 1" using and_succ_0_mask [of m] assms by auto
  then have "and x m = take_bit n x" by (simp add: take_bit_eq_mask mask_eq_exp_minus_1)
  then show ?thesis using n by (simp add: take_bit_eq_mod)
qed

definition casts_keep :: "env \<Rightarrow> bool" where
  "casts_keep \<rho> \<longleftrightarrow> (\<forall>d x v. ccast \<rho> d x = Some v \<longrightarrow> v = x)"

lemma casts_keep_exact: "ccast \<rho> = cast_exact \<Longrightarrow> casts_keep \<rho>"
  by (auto simp: casts_keep_def cast_exact_def split: if_splits)

lemma casts_keep_id: "ccast \<rho> = cast_id \<Longrightarrow> casts_keep \<rho>"
  by (auto simp: casts_keep_def cast_id_def split: if_splits)

lemma in_entry_const: "in_entry b y \<Longrightarrow> entry_is_const b \<Longrightarrow> y = base b"
  by (simp add: in_entry_def entry_is_const_def)

lemma gcd_combine:
  fixes x y p q n m :: int
  assumes "p dvd x - n" and "q dvd y - m"
  shows "gcd p q dvd (x + y) - (n + m)" and "gcd p q dvd (x - y) - (n - m)"
    and "gcd (p * q) (gcd (p * m) (n * q)) dvd x * y - n * m"
proof -
  have g: "gcd p q dvd x - n" "gcd p q dvd y - m" using assms gcd_dvd_trans by blast+
  have "(x + y) - (n + m) = (x - n) + (y - m)" "(x - y) - (n - m) = (x - n) - (y - m)" by simp_all
  then show "gcd p q dvd (x + y) - (n + m)" "gcd p q dvd (x - y) - (n - m)"
    using g by (metis dvd_add, metis dvd_diff)
  obtain j k where jk: "x - n = p * j" "y - m = q * k" using assms by (auto elim!: dvdE)
  let ?g = "gcd (p * q) (gcd (p * m) (n * q))"
  have "x * y - n * m = (x - n) * (y - m) + ((x - n) * m + n * (y - m))" by (simp add: algebra_simps)
  also have "\<dots> = (p * q) * (j * k) + ((p * m) * j + (n * q) * k)"
    unfolding jk by (simp add: ac_simps)
  finally have eq: "x * y - n * m = (p * q) * (j * k) + ((p * m) * j + (n * q) * k)" .
  have "?g dvd p * q" "?g dvd p * m" "?g dvd n * q"
    by (rule gcd_dvd1 dvd_trans [OF gcd_dvd2 gcd_dvd1] dvd_trans [OF gcd_dvd2 gcd_dvd2])+
  then show "?g dvd x * y - n * m"
    unfolding eq by (rule dvd_add [OF dvd_mult2 dvd_add [OF dvd_mult2 dvd_mult2]])
qed

lemma ms_binary_wf:
  assumes "ms_binary k va vb = Inr e"
    and va: "\<And>a. va = Inr a \<Longrightarrow> wf_entry a" and vb: "\<And>b. vb = Inr b \<Longrightarrow> wf_entry b"
  shows "wf_entry e"
proof -
  have i: "is_i64 (coeff a) \<and> is_i64 (base a)" if "wf_entry a" for a using that by (simp add: wf_entry_def)
  note norm = mk_entry_normal [OF _ ZeroAwareGCD_abs(2)]
  have ops: "(\<exists>a b. va = Inr a \<and> vb = Inr b \<and> wf_entry a \<and> wf_entry b)"
    if "k \<in> {KAdd, KSub, KMul, KMin, KMax}"
  proof -
    have "\<exists>a b. va = Inr a \<and> vb = Inr b" using assms(1) that by (auto simp: ms_binary_def)
    with va vb show ?thesis by blast
  qed
  consider "k = KMul" | "k \<in> {KAdd, KSub, KMin, KMax}" | "k = KBitShiftLeft"
    | "k \<in> {KFloorDiv, KFloorMod, KBitAnd, KBitShiftRight}" | "e = AnyEntry"
    using assms(1) by (cases k) (auto simp: ms_binary_def)
  then show ?thesis
  proof cases
    case 1
    then obtain a b where ab: "va = Inr a" "vb = Inr b" "wf_entry a" "wf_entry b" using ops by blast
    have "e = AnyEntry \<or> (\<exists>g c. is_i64 (coeff a * coeff b) \<and> is_i64 (coeff a * base b) \<and>
      is_i64 (base a * coeff b) \<and> is_i64 (base a * base b) \<and>
      ZeroAwareGCD (coeff a * base b) (base a * coeff b) = Inr g \<and>
      ZeroAwareGCD (coeff a * coeff b) g = Inr c \<and> mk_entry c (base a * base b) = Inr e)"
      using assms(1) i [OF ab(3)] i [OF ab(4)]
      by (simp add: 1 ab ms_binary_def Let_def MulWouldOverflow_iff split: if_splits)
    then show ?thesis using norm ZeroAwareGCD_abs(2) by auto
  next
    case 2
    with ops obtain a b where ab: "va = Inr a" "vb = Inr b" "wf_entry a" "wf_entry b" by blast
    show ?thesis
      using assms(1) 2 i [OF ab(3)] i [OF ab(4)] ab
      by (auto simp: ms_binary_def AddWouldOverflow_iff SubWouldOverflow_iff split: if_splits
          intro: norm Union_wf)
  next
    case 3
    then obtain b where b: "vb = Inr b" using assms(1) by (auto simp: ms_binary_def)
    have "e = AnyEntry \<or> (\<exists>a c. va = Inr a \<and> base b < 63 \<and> \<not> MulWouldOverflow (coeff a) (2 ^ nat (base b)) \<and>
        \<not> MulWouldOverflow (base a) (2 ^ nat (base b)) \<and> ZeroAwareGCD 0 (coeff a * 2 ^ nat (base b)) = Inr c \<and>
        mk_entry c (base a * 2 ^ nat (base b)) = Inr e)"
      using assms(1) by (auto simp: 3 b ms_binary_def Let_def split: if_splits)
    moreover have "is_i64 (2 ^ nat (base b))" if "base b < 63" using that by (intro pow2_i64) simp
    ultimately show ?thesis using va i norm by (auto simp: MulWouldOverflow_iff)
  next
    case 4
    then obtain b where b: "vb = Inr b" using assms(1) by (auto simp: ms_binary_def)
    have "is_i64 (2 ^ nat (base b))" if "base b < 63" using that by (intro pow2_i64) simp
    then show ?thesis
      using assms(1) 4 i [OF vb [OF b]] b
      by (auto simp: ms_binary_def split: if_splits intro: FloorDivByConst_wf [OF _ _ va] FloorModByConst_wf [OF _ va])
  qed simp
qed


lemma ms_unary_wf:
  assumes "ms_unary k va = Inr e" and va: "\<And>a. va = Inr a \<Longrightarrow> wf_entry a"
  shows "wf_entry e"
proof (cases k)
  case KNeg
  then obtain a where "va = Inr a" "is_i64 (- base a)" "mk_entry (coeff a) (- base a) = Inr e"
    using assms(1) by (auto simp: ms_unary_def)
  with va [of a] show ?thesis by (auto simp: wf_entry_def [of a] intro: mk_entry_normal)
qed (use assms in \<open>auto simp: ms_unary_def\<close>)

lemma ms_binary_sound:
  assumes e: "ms_binary k va vb = Inr e"
    and va: "\<And>a. va = Inr a \<Longrightarrow> wf_entry a \<and> in_entry a x"
    and vb: "\<And>b. vb = Inr b \<Longrightarrow> wf_entry b \<and> in_entry b y"
    and v: "bin_val k x y = Some v"
  shows "in_entry e v"
proof -
  have i: "is_i64 (coeff a) \<and> is_i64 (base a) \<and> 0 \<le> coeff a" if "wf_entry a" for a
    using that by (simp add: wf_entry_def)
  have ops: "(\<exists>a b. va = Inr a \<and> vb = Inr b \<and> wf_entry a \<and> wf_entry b \<and> in_entry a x \<and> in_entry b y)"
    if "k \<in> {KAdd, KSub, KMul, KMin, KMax}"
  proof -
    have "\<exists>a b. va = Inr a \<and> vb = Inr b" using e that by (auto simp: ms_binary_def)
    with va vb show ?thesis by blast
  qed
  have y: "y = base b" "is_i64 y" if "vb = Inr b" "entry_is_const b" for b
    using vb [OF that(1)] in_entry_const [OF _ that(2)] i by auto
  have pow: "is_i64 (2 ^ nat n)" if "n < 63" for n :: int
    using that by (intro pow2_i64) simp
  consider "k = KAdd \<or> k = KSub" | "k = KMul" | "k = KMin \<or> k = KMax" | "k = KBitShiftLeft"
    | "k = KFloorDiv \<or> k = KBitShiftRight" | "k = KFloorMod" | "k = KBitAnd" | "e = AnyEntry"
    using e by (cases k) (auto simp: ms_binary_def)
  then show ?thesis
  proof cases
    case 1
    with ops obtain a b where ab: "va = Inr a" "vb = Inr b" "wf_entry a" "wf_entry b"
      "in_entry a x" "in_entry b y" by blast
    have "e = AnyEntry \<or> (\<exists>c. ZeroAwareGCD (coeff a) (coeff b) = Inr c \<and>
        mk_entry c (if k = KAdd then base a + base b else base a - base b) = Inr e)"
      using e 1 ab by (auto simp: ms_binary_def split: if_splits)
    then show ?thesis
    proof
      assume "\<exists>c. ZeroAwareGCD (coeff a) (coeff b) = Inr c \<and>
        mk_entry c (if k = KAdd then base a + base b else base a - base b) = Inr e"
      then obtain c where c: "ZeroAwareGCD (coeff a) (coeff b) = Inr c"
        and m: "mk_entry c (if k = KAdd then base a + base b else base a - base b) = Inr e" by blast
      have "c = gcd (coeff a) (coeff b)" using ZeroAwareGCD_nonneg [OF c] i [OF ab(3)] i [OF ab(4)] by simp
      with m v 1 gcd_combine(1,2) [OF ab(5,6) [unfolded in_entry_def]] show ?thesis
        by (auto intro: mk_entry_sound)
    qed simp
  next
    case 2
    with ops obtain a b where ab: "va = Inr a" "vb = Inr b" "wf_entry a" "wf_entry b"
      "in_entry a x" "in_entry b y" by blast
    note ia = i [OF ab(3)] and ib = i [OF ab(4)]
    have "e = AnyEntry \<or> (\<exists>g c. is_i64 (coeff a * coeff b) \<and> is_i64 (coeff a * base b) \<and>
      is_i64 (base a * coeff b) \<and> ZeroAwareGCD (coeff a * base b) (base a * coeff b) = Inr g \<and>
      ZeroAwareGCD (coeff a * coeff b) g = Inr c \<and> mk_entry c (base a * base b) = Inr e)"
      using e ia ib by (simp add: 2 ab ms_binary_def Let_def MulWouldOverflow_iff split: if_splits)
    then show ?thesis
    proof
      assume "\<exists>g c. is_i64 (coeff a * coeff b) \<and> is_i64 (coeff a * base b) \<and>
        is_i64 (base a * coeff b) \<and> ZeroAwareGCD (coeff a * base b) (base a * coeff b) = Inr g \<and>
        ZeroAwareGCD (coeff a * coeff b) g = Inr c \<and> mk_entry c (base a * base b) = Inr e"
      then obtain g c where p: "is_i64 (coeff a * coeff b)" "is_i64 (coeff a * base b)" "is_i64 (base a * coeff b)"
        and g: "ZeroAwareGCD (coeff a * base b) (base a * coeff b) = Inr g"
        and c: "ZeroAwareGCD (coeff a * coeff b) g = Inr c" and m: "mk_entry c (base a * base b) = Inr e"
        by blast
      note ga = ZeroAwareGCD_abs [OF g p(2,3)]
      have "c = gcd (coeff a * coeff b) g" using ZeroAwareGCD_nonneg [OF c p(1) ga(2)] ia ib by simp
      then have "c = gcd (coeff a * coeff b) (gcd (coeff a * base b) (base a * coeff b))"
        using ga(1) by (metis gcd_abs2_int)
      then have "c dvd x * y - base a * base b" and "0 \<le> c"
        using gcd_combine(3) [of "coeff a" x "base a" "coeff b" y "base b"] ab(5,6) by (simp_all add: in_entry_def)
      with m v 2 show ?thesis by (auto intro: mk_entry_sound)
    qed simp
  next
    case 3
    with ops obtain a b where ab: "va = Inr a" "vb = Inr b" "wf_entry a" "wf_entry b"
      "in_entry a x" "in_entry b y" by blast
    have "Union a b = Inr e" using e 3 ab by (auto simp: ms_binary_def)
    then show ?thesis using Union_sound [OF _ ab(3,4), of e] ab(5,6) v 3 by (auto simp: min_def max_def)
  next
    case 4
    then obtain b where b: "vb = Inr b" using e by (auto simp: ms_binary_def)
    have "e = AnyEntry \<or> (entry_is_const b \<and> (\<exists>a c. va = Inr a \<and>
        ZeroAwareGCD 0 (coeff a * 2 ^ nat (base b)) = Inr c \<and> is_i64 (coeff a * 2 ^ nat (base b)) \<and>
        mk_entry c (base a * 2 ^ nat (base b)) = Inr e))"
      using e i va pow by (auto simp: 4 b ms_binary_def Let_def MulWouldOverflow_iff split: if_splits)
    then show ?thesis
    proof
      assume "entry_is_const b \<and> (\<exists>a c. va = Inr a \<and>
        ZeroAwareGCD 0 (coeff a * 2 ^ nat (base b)) = Inr c \<and> is_i64 (coeff a * 2 ^ nat (base b)) \<and>
        mk_entry c (base a * 2 ^ nat (base b)) = Inr e)"
      then obtain a c where *: "entry_is_const b" "va = Inr a" "is_i64 (coeff a * 2 ^ nat (base b))"
          "ZeroAwareGCD 0 (coeff a * 2 ^ nat (base b)) = Inr c"
          "mk_entry c (base a * 2 ^ nat (base b)) = Inr e" by blast
      have c: "c = \<bar>coeff a * 2 ^ nat y\<bar>"
        using ZeroAwareGCD_nonneg [OF *(4)] *(3) y [OF b *(1)] by simp
      have "coeff a * 2 ^ nat y dvd (x - base a) * 2 ^ nat y"
        using va [OF *(2)] by (intro mult_dvd_mono) (auto simp: in_entry_def)
      then have "c dvd x * 2 ^ nat y - base a * 2 ^ nat y" using c by (simp add: left_diff_distrib)
      then show ?thesis using *(5) y [OF b *(1)] c v 4 by (auto intro: mk_entry_sound)
    qed simp
  next
    case 5
    then obtain b where b: "vb = Inr b" using e by (auto simp: ms_binary_def)
    have "e = AnyEntry \<or> (entry_is_const b \<and> FloorDivByConst va (if k = KFloorDiv then base b else 2 ^ nat (base b)) = Inr e)"
      using e 5 b by (auto simp: ms_binary_def split: if_splits)
    then show ?thesis
      using FloorDivByConst_sound [OF _ va] y [OF b] v 5 by auto
  next
    case 6
    then obtain b where b: "vb = Inr b" using e by (auto simp: ms_binary_def)
    have "e = AnyEntry \<or> (entry_is_const b \<and> FloorModByConst va (base b) = Inr e)"
      using e 6 b by (auto simp: ms_binary_def split: if_splits)
    then show ?thesis using FloorModByConst_sound [OF _ va] y [OF b] v 6 by auto
  next
    case 7
    then obtain b where b: "vb = Inr b" using e by (auto simp: ms_binary_def)
    have "e = AnyEntry \<or> (entry_is_const b \<and> base b > 0 \<and> and (base b) (base b + 1) = 0 \<and> is_i64 (base b + 1) \<and>
        FloorModByConst va (base b + 1) = Inr e)"
      using e 7 b by (auto simp: ms_binary_def split: if_splits)
    then show ?thesis
      using FloorModByConst_sound [where c = "base b + 1" and e = e, OF _ va] y [OF b] v 7 and_mask_mod [of "base b" x] by auto
  qed simp
qed


definition entries_hold :: "entry_map \<Rightarrow> env \<Rightarrow> bool" where
  "entries_hold m \<rho> \<longleftrightarrow> (\<forall>i e v. m i = Some e \<longrightarrow> vval \<rho> i = Some v \<longrightarrow> in_entry e v)"

definition wf_entries :: "entry_map \<Rightarrow> bool" where
  "wf_entries m \<longleftrightarrow> (\<forall>i e. m i = Some e \<longrightarrow> wf_entry e)"

lemma ms_visit_normal: "wf_entries m \<Longrightarrow> wf_expr e \<Longrightarrow> ms_visit m e = Inr x \<Longrightarrow> wf_entry x"
proof (induction e arbitrary: x)
  case (Binary k l r d)
  show ?case by (rule ms_binary_wf [of k "ms_visit m l" "ms_visit m r"]) (use Binary in auto)
next
  case (Unary k a d)
  show ?case by (rule ms_unary_wf [of k "ms_visit m a"]) (use Unary in auto)
qed (auto simp: wf_entries_def intro: mk_entry_normal split: option.splits)

text \<open>
  Every entry the analysis computes is in normal form: a non-negative coefficient and,
  unless the coefficient is zero, a residue below it, all within 64 bits.
\<close>

theorem ms_visit_wf:
  assumes "wf_entries m" and "wf_expr e" and "ms_visit m e = Inr x"
  shows "wf_entry x"
  using assms by (rule ms_visit_normal)

lemma ms_sound:
  assumes "entries_hold m \<rho>" and "wf_entries m" and "casts_keep \<rho>" and "wf_expr e"
    and "ms_visit m e = Inr x" and "eval \<rho> e = Some v"
  shows "in_entry x v"
  using assms(4-6)
proof (induction e arbitrary: x v)
  case (Binary k l r d)
  obtain a b where "eval \<rho> l = Some a" and "eval \<rho> r = Some b" and "bin_val k a b = Some v"
    using Binary.prems(3) by (rule eval_BinaryE)
  then show ?case
    using Binary ms_visit_normal [OF assms(2)]
    by (intro ms_binary_sound [of k "ms_visit m l" "ms_visit m r" x a b v]) auto
next
  case (Unary k a d)
  obtain y where y: "eval \<rho> a = Some y" and v: "un_val \<rho> k d y = Some v"
    using Unary.prems(3) by (rule eval_UnaryE)
  show ?case
  proof (cases k)
    case KNeg
    then obtain b where b: "ms_visit m a = Inr b" "mk_entry (coeff b) (- base b) = Inr x"
      using Unary.prems(2) by (auto simp: ms_unary_def)
    have "coeff b dvd y - base b" using Unary.IH [OF _ b(1) y] Unary.prems(1) by (simp add: in_entry_def)
    then have "coeff b dvd - (y - base b)" by (simp only: dvd_minus_iff)
    moreover have "v - (- base b) = - (y - base b)" using v KNeg by simp
    ultimately have "coeff b dvd v - (- base b)" by (simp only:)
    moreover have "0 \<le> coeff b" using ms_visit_normal [OF assms(2) _ b(1)] Unary.prems(1) by (simp add: wf_entry_def)
    ultimately show ?thesis using b(2) by (auto intro: mk_entry_sound)
  next
    case KCast
    then have "v = y" using v assms(3) by (auto simp: casts_keep_def)
    with KCast Unary y show ?thesis by (simp add: ms_unary_def)
  qed (use Unary in \<open>auto simp: ms_unary_def\<close>)
qed (use assms(1) in \<open>auto simp: entries_hold_def mk_entry_eq in_entry_def [of "ent _ _"]
       split: option.splits if_splits\<close>)

text \<open>
  Claim C15. The congruence class computed for an expression contains its value, whenever those of
  its variables contain theirs and are in normal form, and its literals are 64-bit integers. Conversions may wrap, but
  none that the expression meets loses its operand's value: the entry of a conversion is that of its operand, so a
  narrowing conversion that wraps is outside (\<open>narrowing_cast_entry\<close>).
\<close>

theorem ms_visit_sound:
  assumes "entries_hold m \<rho>" and "wf_entries m" and "lossless \<rho> e" and "wf_expr e"
    and "ms_visit m e = Inr x" and "eval \<rho> e = Some v"
  shows "in_entry x v"
proof -
  have "entries_hold m (mathematical \<rho>)" using assms(1) by (simp add: entries_hold_def)
  moreover have "casts_keep (mathematical \<rho>)" by (rule casts_keep_id) simp
  moreover have "eval (mathematical \<rho>) e = Some v" using assms(3,6) by (simp add: lossless_eval)
  ultimately show ?thesis using ms_sound [OF _ assms(2) _ assms(4,5)] by blast
qed

section \<open>Soundness of constraints\<close>

lemma ms_constraint_cases:
  assumes "ms_constraint_entry c = Some (i, re)"
  obtains (floormod) t n dn d d' b db where "c = Binary KEq (Binary KFloorMod (Var i t) (ConstInt n dn) d) (ConstInt b db) d'"
      "re = mk_entry n b"
    | (left) t b db d where "c = Binary KEq (Var i t) (ConstInt b db) d" "re = mk_entry 0 b"
    | (right) t b db d where "c = Binary KEq (ConstInt b db) (Var i t) d" "re = mk_entry 0 b"
proof -
  have fm: "\<exists>t dn d db. l = Binary KFloorMod (Var i t) (ConstInt n dn) d \<and> r = ConstInt b db"
    if "match_floormod_eq l r = Some (i, n, b)" for l r :: "'a expr" and i n b
    using that by (cases "(l, r)" rule: match_floormod_eq.cases) auto
  have ve: "\<exists>t db. l = Var i t \<and> r = ConstInt b db"
    if "match_var_eq l r = Some (i, b)" for l r :: "'a expr" and i b
    using that by (cases "(l, r)" rule: match_var_eq.cases) auto
  show ?thesis
    using assms that
    by (auto simp: ms_constraint_entry_def dest!: fm ve split: expr.splits if_splits option.splits)
qed

text \<open>The modulus of a constraint \<open>floormod(x, c) == b\<close>; any other constraint qualifies.\<close>

definition positive_modulus :: "'f expr \<Rightarrow> bool" where
  "positive_modulus c =
     (case c of
        Binary _ l r _ \<Rightarrow> (case match_floormod_eq l r of Some (_, n, _) \<Rightarrow> 0 < n | None \<Rightarrow> True)
      | _ \<Rightarrow> True)"

lemma ms_constraint_sound:
  assumes "ms_constraint_entry c = Some (i, Inr e)" and "positive_modulus c" and "wf_expr c"
    and "eval \<rho> c = Some 1" and "vval \<rho> i = Some v"
  shows "in_entry e v \<and> wf_entry e"
  using assms(1)
proof (cases rule: ms_constraint_cases)
  case (floormod t n dn d d' b db)
  then have "0 < n" using assms(2) by (simp add: positive_modulus_def)
  moreover have "v mod n = b"
    using assms(4,5) floormod(1) by (auto simp: bind_eq_Some_conv split: if_splits)
  then have "n dvd v - b" by (metis dvd_minus_mod)
  moreover have "mk_entry n b = Inr e" using floormod(2) by simp
  ultimately show ?thesis
    using assms(3) floormod(1) by (auto intro: mk_entry_sound mk_entry_wf)
next
  case (left t b db d)
  then show ?thesis
    using assms(3-5) mk_entry_sound [of 0 b e v] mk_entry_wf [of 0 b e]
    by (auto simp: bind_eq_Some_conv split: if_splits)
next
  case (right t b db d)
  then show ?thesis
    using assms(3-5) mk_entry_sound [of 0 b e v] mk_entry_wf [of 0 b e]
    by (auto simp: bind_eq_Some_conv split: if_splits)
qed


lemma ms_enter_sound:
  assumes "entries_hold m \<rho>" and "wf_entries m" and "wf_expr c" and "positive_modulus c"
    and "eval \<rho> c = Some 1" and "ms_enter_constraint m c = Inr (m', r)"
  shows "entries_hold m' \<rho> \<and> wf_entries m'"
proof (cases "ms_constraint_entry c")
  case None
  with assms show ?thesis by (simp add: ms_enter_constraint_def)
next
  case (Some p)
  define old where "old = (case m (fst p) of Some x \<Rightarrow> x | None \<Rightarrow> AnyEntry)"
  obtain e n where e: "ms_constraint_entry c = Some (fst p, Inr e)" and n: "Intersect old e = Inr n"
    and m': "m' = m(fst p \<mapsto> n)"
    using assms(6) Some by (cases p) (auto simp: ms_enter_constraint_def UpdateByIntersect_def Let_def old_def)
  have old: "wf_entry old" using assms(2) by (auto simp: old_def wf_entries_def split: option.splits)
  have "in_entry n v" if v: "vval \<rho> (fst p) = Some v" for v
  proof -
    have "in_entry old v" using assms(1) v by (auto simp: old_def entries_hold_def split: option.splits)
    then show ?thesis
      using Intersect_sound [OF n old] ms_constraint_sound [OF e assms(4,3,5) v] by simp
  qed
  then show ?thesis
    using assms(1,2) Intersect_wf [OF n old] by (simp add: m' entries_hold_def wf_entries_def)
qed

text \<open>
  Claim C17. Entering a constraint that holds keeps the entries of the variables sound and in
  normal form, if the constraint is not a congruence with a negative modulus.
\<close>

theorem ms_enter_constraint_sound:
  assumes "entries_hold m \<rho>" and "wf_entries m" and "wf_expr c" and "positive_modulus c"
    and "eval \<rho> c = Some 1" and "ms_enter_constraint m c = Inr (m', r)"
  shows "entries_hold m' \<rho> \<and> wf_entries m'"
  using assms by (rule ms_enter_sound)

definition ms_lookup :: "entry_map \<Rightarrow> nat \<Rightarrow> Entry" where
  "ms_lookup m i = (case m i of Some e \<Rightarrow> e | None \<Rightarrow> AnyEntry)"

lemma ms_visit_lookup: "ms_lookup m = ms_lookup m' \<Longrightarrow> ms_visit m e = ms_visit m' e"
proof (induction e)
  case (Var i t)
  then show ?case by (simp add: ms_lookup_def [symmetric])
next
  case (IterArg i t)
  then show ?case by (simp add: ms_lookup_def [symmetric])
qed simp_all

lemma AnyEntry_iff: "coeff old = 1 \<and> base old = 0 \<longleftrightarrow> old = AnyEntry"
  by (cases old) (simp add: AnyEntry_def ent_def)

lemma ms_lookup_recover:
  "ms_lookup (ms_recover r m) = (case r of None \<Rightarrow> ms_lookup m | Some (i, old) \<Rightarrow> (ms_lookup m)(i := old))"
  by (auto simp: ms_recover_def ms_lookup_def AnyEntry_iff fun_eq_iff split: option.splits)

lemma ms_leave_enter:
  assumes "ms_enter_constraint m c = Inr (m', r)"
  shows "ms_lookup (ms_recover r m') = ms_lookup m"
proof (cases "ms_constraint_entry c")
  case None
  with assms show ?thesis by (simp add: ms_enter_constraint_def ms_recover_def)
next
  case (Some p)
  then obtain i n where r: "r = Some (i, ms_lookup m i)" and m': "m' = m(i \<mapsto> n)"
    using assms by (cases p)
      (auto simp: ms_enter_constraint_def UpdateByIntersect_def Let_def ms_lookup_def)
  show ?thesis unfolding r m' ms_lookup_recover by (simp add: fun_eq_iff) (simp add: ms_lookup_def)
qed

text \<open>
  Leaving a constraint scope restores the congruence analysis: every query answers what
  it answered before.
\<close>

theorem ms_recover_restores:
  assumes "ms_enter_constraint m c = Inr (m', r)"
  shows "ms_visit (ms_recover r m') e = ms_visit m e"
  by (rule ms_visit_lookup [OF ms_leave_enter [OF assms]])

section \<open>Nested scopes\<close>

definition ms_describes :: "entry_map \<Rightarrow> env \<Rightarrow> bool" where
  "ms_describes m \<rho> \<longleftrightarrow> entries_hold m \<rho> \<and> wf_entries m \<and> casts_keep \<rho>"

definition ms_usable :: "env \<Rightarrow> 'f expr \<Rightarrow> bool" where
  "ms_usable \<rho> c \<longleftrightarrow> wf_expr c \<and> positive_modulus c"

interpretation ms: scoped_analysis ms_visit ms_enter_constraint ms_describes
    "\<lambda>\<rho>. wf_expr" ms_usable "\<lambda>_. in_entry" ms_recover "\<lambda>m m'. ms_lookup m = ms_lookup m'"
proof (unfold_locales, goal_cases)
  case (1 m \<rho> e q v)
  then show ?case by (auto simp: ms_describes_def intro: ms_sound)
next
  case (2 m \<rho> c m' r)
  then show ?case using ms_enter_sound [of m \<rho> c m' r] by (simp add: ms_describes_def ms_usable_def)
next
  case (6 m m' r)
  then show ?case by (simp add: ms_lookup_recover split: option.split)
next
  case (7 m c m' r)
  then show ?case by (rule ms_leave_enter)
qed (auto intro: ms_visit_lookup)

text \<open>
  Constraints may be nested for the congruence analysis too: inside several scopes the
  entry of an expression contains its value in every environment that satisfies all of them.
\<close>

theorem ms_nested_scopes_sound:
  fixes e :: "'f expr" and cs :: "'f expr list"
  assumes "ms_describes m \<rho>" and "\<forall>c\<in>set cs. ms_usable \<rho> c \<and> eval \<rho> c = Some 1"
    and "enter_all ms_enter_constraint m cs [] = Inr (m', rs)"
    and "wf_expr e" and "ms_visit m' e = Inr x" and "eval \<rho> e = Some v"
  shows "in_entry x v"
  using assms by (rule ms.scope_query_sound)

section \<open>The theorems at work\<close>

text \<open>\<open>x = 4 k + 2\<close> and \<open>y\<close> odd: the entry of \<open>(x * 6 + y) // 1\<close> and of a masked sum.\<close>

definition example_entries :: entry_map where
  "example_entries = [0 \<mapsto> ent 4 2, 1 \<mapsto> ent 2 1]"

definition masked_sum :: "int expr" where
  "masked_sum = ibin KBitAnd (ibin KAdd (ibin KMul (ivar 0) (ilit 6)) (ivar 1)) (ilit 15)"

lemma example_entries_ok:
  "entries_hold example_entries (env_of [0 \<mapsto> 10, 1 \<mapsto> 7] cast_exact)" "wf_entries example_entries"
  "casts_keep (env_of [0 \<mapsto> 10, 1 \<mapsto> 7] cast_exact)"
  by (auto simp: entries_hold_def wf_entries_def example_entries_def in_entry_def wf_entry_def
      is_i64_alt intro: casts_keep_exact)

lemma masked_sum_entry: "ms_visit example_entries masked_sum = Inr (ent 2 1)"
  by code_simp

lemma scaled_entry: "ms_visit example_entries (ibin KMul (ivar 0) (ilit 6)) = Inr (ent 24 12)"
  by code_simp

text \<open>A conversion of the product to 8 bits, which wraps from 128 on.\<close>

lemma narrowed_scaled_entry:
  "ms_visit example_entries (Unary KCast (ibin KMul (ivar 0) (ilit 6)) INT8) = Inr (ent 24 12)"
  by code_simp

lemma ms_visit_sound_witness: "in_entry (ent 24 12) 60"
proof (rule ms_visit_sound [OF _ example_entries_ok(2) _ _ narrowed_scaled_entry])
  show "entries_hold example_entries (env_of [0 \<mapsto> 10, 1 \<mapsto> 7] cast_wrap)"
    using example_entries_ok(1) by (simp add: entries_hold_def)
qed (simp_all add: int_instance_defs is_i64_alt cast_wrap_def cast_id_def int_not_bool)

lemma ms_visit_wf_witness: "wf_entry (ent 24 12)"
  by (rule ms_visit_wf [OF example_entries_ok(2) _ scaled_entry])
     (simp add: int_instance_defs is_i64_alt)

text \<open>\<open>floormod(x, 6) == 4\<close> tightens \<open>x = 4 k + 2\<close> to \<open>x = 12 k + 10\<close>.\<close>

definition mod_six :: "int expr" where
  "mod_six = ibin KEq (ibin KFloorMod (ivar 0) (ilit 6)) (ilit 4)"

lemma mod_six_enter:
  "ms_enter_constraint example_entries mod_six = Inr (example_entries(0 \<mapsto> ent 12 10), Some (0, ent 4 2))"
proof -
  have i: "Intersect (ent 4 2) (ent 6 4) = Inr (ent 12 10)" and m: "mk_entry 6 4 = Inr (ent 6 4)"
    by code_simp+
  have e: "example_entries 0 = Some (ent 4 2)" by (simp add: example_entries_def)
  show ?thesis
    by (simp add: ms_enter_constraint_def ms_constraint_entry_def mod_six_def int_instance_defs m
        UpdateByIntersect_def e i)
qed

lemma ms_enter_constraint_sound_witness:
  "entries_hold (example_entries(0 \<mapsto> ent 12 10)) (env_of [0 \<mapsto> 10, 1 \<mapsto> 7] cast_exact)"
  using ms_enter_constraint_sound [OF example_entries_ok(1,2) _ _ _ mod_six_enter]
  by (simp add: mod_six_def int_instance_defs is_i64_alt positive_modulus_def)

lemma ms_recover_restores_witness:
  "ms_visit (ms_recover (Some (0, ent 4 2)) (example_entries(0 \<mapsto> ent 12 10)))
     (ibin KMul (ivar 0) (ilit 6)) = Inr (ent 24 12)"
  using ms_recover_restores [OF mod_six_enter, of "ibin KMul (ivar 0) (ilit 6)"]
  unfolding scaled_entry .

text \<open>Inside \<open>floormod(x, 6) == 4\<close> and \<open>y == 7\<close>, \<open>x * 6\<close> is \<open>72 k + 60\<close>.\<close>

definition is_seven :: "int expr" where
  "is_seven = ibin KEq (ivar 1) (ilit 7)"

lemma ms_nested_scopes_sound_witness:
  "ms_visit (example_entries(0 \<mapsto> ent 12 10, 1 \<mapsto> ent 0 7)) (ibin KMul (ivar 0) (ilit 6)) = Inr (ent 72 60) \<and>
   in_entry (ent 72 60) 60"
proof -
  let ?m = "example_entries(0 \<mapsto> ent 12 10, 1 \<mapsto> ent 0 7)" and ?e = "ibin KMul (ivar 0) (ilit 6)"
  let ?rho = "env_of [0 \<mapsto> 10, 1 \<mapsto> 7] cast_exact"
  have i: "Intersect (ent 2 1) (ent 0 7) = Inr (ent 0 7)" and m: "mk_entry 0 7 = Inr (ent 0 7)"
    by code_simp+
  have b: "example_entries (Suc 0) = Some (ent 2 1)" by (simp add: example_entries_def)
  have n: "enter_all ms_enter_constraint example_entries [mod_six, is_seven] [] =
      Inr (?m, [Some (1, ent 2 1), Some (0, ent 4 2)])"
    by (simp add: mod_six_enter) (simp add: ms_enter_constraint_def ms_constraint_entry_def
        is_seven_def int_instance_defs m UpdateByIntersect_def b i)
  have u: "\<forall>c\<in>set [mod_six, is_seven]. ms_usable ?rho c \<and> eval ?rho c = Some 1"
    by (simp add: ms_usable_def mod_six_def is_seven_def int_instance_defs is_i64_alt positive_modulus_def)
  have v: "ms_visit ?m ?e = Inr (ent 72 60)" by code_simp
  have d: "ms_describes example_entries ?rho"
    using example_entries_ok by (simp add: ms_describes_def)
  have "in_entry (ent 72 60) 60"
    by (rule ms_nested_scopes_sound [OF d u n _ v]) (simp_all add: int_instance_defs is_i64_alt)
  with v show ?thesis by simp
qed

definition mod_minus_four :: "int expr" where
  "mod_minus_four = ibin KEq (ibin KFloorMod (ivar 0) (ilit (-4))) (ilit (-1))"

text \<open>
  The hypothesis on the modulus of a congruence is needed. The constraint
  \<open>floormod(x, -4) == -1\<close> holds for \<open>x = 3\<close>; the constructor negates modulus and residue, so the
  recorded class is \<open>x = 4 k + 1\<close>, which 3 is not in.
\<close>

lemma negative_modulus_unsound:
  "ms_enter_constraint Map.empty mod_minus_four = Inr ([0 \<mapsto> ent 4 1], Some (0, AnyEntry)) \<and>
   eval (env_of [0 \<mapsto> 3] cast_exact) mod_minus_four = Some 1 \<and> \<not> in_entry (ent 4 1) 3"
proof -
  have i: "Intersect AnyEntry (ent 4 1) = Inr (ent 4 1)" and m: "mk_entry (-4) (-1) = Inr (ent 4 1)"
    by code_simp+
  show ?thesis
    by (simp add: ms_enter_constraint_def ms_constraint_entry_def mod_minus_four_def int_instance_defs m
        UpdateByIntersect_def i in_entry_def)
qed

text \<open>
  Conversions that wrap are not covered: the entry of the operand is returned unchanged, so the
  literal 256 converted to eight bits keeps the residue 256.
\<close>

lemma narrowing_cast_entry:
  "ms_visit Map.empty (Unary KCast (ilit 256) UINT8) = Inr (ent 0 256) \<and>
   eval (env_of Map.empty cast_wrap) (Unary KCast (ilit 256) UINT8) = Some 0"
proof -
  have "IsUnsignedInt UINT8" by (simp add: IsUnsignedInt_def dtype_defs)
  then show ?thesis by (simp add: int_instance_defs ms_unary_def mk_entry_eq cast_wrap_def)
qed

end
