(* ===== verification/Transitive_Comparison.thy ===== *)
theory Transitive_Comparison
  imports Const_Fold Scoped_Analysis
begin

text \<open>
  Comparison by transitivity, \<^verbatim>\<open>src/ir/arith/transitive_comparison_analyzer.cpp\<close> with the
  comparison results of \<^verbatim>\<open>include/pypto/ir/arith/analyzer.h\<close> and the constraint decomposition of
  \<^verbatim>\<open>src/ir/arith/constraint_extract.h\<close>. Expressions are numbered by \<open>ExprToKey\<close>; the number of the
  analyzer's own zero expression stands for literals. A known fact \<open>lhs OP rhs + offset\<close> is a record
  \<open>Comparison\<close>; a query searches the facts reachable from one side (\<open>dfs_step\<close>, iterated by
  \<open>dfs_loop\<close>, whose result is \<open>None\<close> when the search does not end). The order in which the code's hash
  set yields the keys to visit is the parameter \<open>pick\<close>. Shown here: facts that hold give comparison
  results that hold; on facts some assignment satisfies the search ends; on contradictory facts it
  need not.
\<close>

section \<open>Comparison results\<close>

datatype CompareResult = kInconsistent | kEQ | kLT | kLE | kGT | kGE | kNE | kUnknown

text \<open>The bit encoding: bit 0 for equal, bit 1 for less, bit 2 for greater.\<close>

fun cr_code :: "CompareResult \<Rightarrow> int" where
  "cr_code kInconsistent = 0"
| "cr_code kEQ = 1"
| "cr_code kLT = 2"
| "cr_code kLE = 3"
| "cr_code kGT = 4"
| "cr_code kGE = 5"
| "cr_code kNE = 6"
| "cr_code kUnknown = 7"

definition cr_of_code :: "int \<Rightarrow> CompareResult" where
  "cr_of_code n =
     (if n = 0 then kInconsistent else if n = 1 then kEQ else if n = 2 then kLT
      else if n = 3 then kLE else if n = 4 then kGT else if n = 5 then kGE
      else if n = 6 then kNE else kUnknown)"

definition cr_and :: "CompareResult \<Rightarrow> CompareResult \<Rightarrow> CompareResult" where
  "cr_and a b = cr_of_code (and (cr_code a) (cr_code b))"

fun cr_reverse :: "CompareResult \<Rightarrow> CompareResult" where
  "cr_reverse kInconsistent = kInconsistent"
| "cr_reverse kEQ = kEQ"
| "cr_reverse kLT = kGT"
| "cr_reverse kLE = kGE"
| "cr_reverse kGT = kLT"
| "cr_reverse kGE = kLE"
| "cr_reverse kNE = kNE"
| "cr_reverse kUnknown = kUnknown"

text \<open>\<open>ResultImplies\<close> of \<^verbatim>\<open>analyzer.cpp\<close>.\<close>

definition ResultImplies :: "CompareResult \<Rightarrow> CompareResult \<Rightarrow> bool" where
  "ResultImplies result required \<longleftrightarrow>
     cr_and result required = result \<and> result \<noteq> kUnknown \<and> result \<noteq> kInconsistent"

section \<open>Facts\<close>

record Comparison =
  c_lhs :: nat
  c_rhs :: nat
  c_offset :: int
  c_result :: CompareResult

text \<open>The constructor normalises strict comparisons.\<close>

definition mk_cmp :: "nat \<Rightarrow> nat \<Rightarrow> int \<Rightarrow> CompareResult \<Rightarrow> Comparison res" where
  "mk_cmp l r off res =
     (if res = kLT then
        res_bind (i64 (off - 1)) (\<lambda>o'. Inr \<lparr>c_lhs = l, c_rhs = r, c_offset = o', c_result = kLE\<rparr>)
      else if res = kGT then
        res_bind (i64 (off + 1)) (\<lambda>o'. Inr \<lparr>c_lhs = l, c_rhs = r, c_offset = o', c_result = kGE\<rparr>)
      else Inr \<lparr>c_lhs = l, c_rhs = r, c_offset = off, c_result = res\<rparr>)"

definition IsNormalized :: "Comparison \<Rightarrow> bool" where
  "IsNormalized c \<longleftrightarrow> c_result c \<noteq> kLT \<and> c_result c \<noteq> kGT"

definition WithLHS :: "nat \<Rightarrow> Comparison \<Rightarrow> Comparison option res" where
  "WithLHS k c =
     (if k = c_lhs c then Inr (Some c)
      else if k = c_rhs c then
        res_bind (i64 (- c_offset c)) (\<lambda>off.
        res_bind (mk_cmp (c_rhs c) (c_lhs c) off (cr_reverse (c_result c))) (\<lambda>c'. Inr (Some c')))
      else Inr None)"

text \<open>\<open>Implies\<close>: the relation between two facts about the same pair, and its four checks.\<close>

definition implies_core :: "CompareResult \<Rightarrow> int \<Rightarrow> CompareResult \<Rightarrow> int \<Rightarrow> bool" where
  "implies_core r off r' off' \<longleftrightarrow>
     (r = r' \<and> off = off') \<or>
     (r' = kLE \<and> off \<le> off' \<and> (r = kEQ \<or> r = kLE)) \<or>
     (r' = kGE \<and> off \<ge> off' \<and> (r = kEQ \<or> r = kGE)) \<or>
     (r' = kNE \<and> ((r = kEQ \<and> off \<noteq> off') \<or> (r = kLE \<and> off < off') \<or> (r = kGE \<and> off > off')))"

definition Implies :: "Comparison \<Rightarrow> Comparison \<Rightarrow> bool res" where
  "Implies c other =
     res_bind (check InternalError (c_lhs c = c_lhs other)) (\<lambda>_.
     res_bind (check InternalError (c_rhs c = c_rhs other)) (\<lambda>_.
     res_bind (check InternalError (IsNormalized c)) (\<lambda>_.
     res_bind (check InternalError (IsNormalized other)) (\<lambda>_.
       Inr (implies_core (c_result c) (c_offset c) (c_result other) (c_offset other))))))"

section \<open>Keys and parsing\<close>

text \<open>
  The expressions numbered so far; \<open>None\<close> is the analyzer's zero expression, which no other node
  shares its address with. The state also holds the facts from bindings and from open scopes.
\<close>

type_synonym 'f keys = "'f expr option list"

record 'f tc_state =
  key_exprs :: "'f keys"
  knowns :: "Comparison list"
  scoped_knowns :: "Comparison list"

definition same_key :: "'f host \<Rightarrow> 'f expr option \<Rightarrow> 'f expr option \<Rightarrow> bool" where
  "same_key H a b =
     (case (a, b) of (None, None) \<Rightarrow> True | (Some x, Some y) \<Rightarrow> same_ptr H x y | _ \<Rightarrow> False)"

fun find_key :: "'f host \<Rightarrow> 'f expr option \<Rightarrow> 'f keys \<Rightarrow> nat option" where
  "find_key H e [] = None"
| "find_key H e (k # ks) = (if same_key H k e then Some 0 else map_option Suc (find_key H e ks))"

definition ExprToPreviousKey :: "'f host \<Rightarrow> 'f keys \<Rightarrow> 'f expr option \<Rightarrow> nat option" where
  "ExprToPreviousKey H ks e = find_key H e ks"

definition ExprToKey :: "'f host \<Rightarrow> 'f expr option \<Rightarrow> 'f keys \<Rightarrow> nat \<times> 'f keys" where
  "ExprToKey H e ks =
     (case find_key H e ks of Some i \<Rightarrow> (i, ks) | None \<Rightarrow> (length ks, ks @ [e]))"

definition ExtractOffset :: "'f expr \<Rightarrow> ('f expr option \<times> int) res" where
  "ExtractOffset e =
     (case e of
        Binary KAdd l r _ \<Rightarrow>
          (case as_int r of Some (v, _) \<Rightarrow> Inr (Some l, v)
           | None \<Rightarrow> (case as_int l of Some (v, _) \<Rightarrow> Inr (Some r, v) | None \<Rightarrow> Inr (Some e, 0)))
      | Binary KSub l r _ \<Rightarrow>
          (case as_int r of Some (v, _) \<Rightarrow> res_bind (i64 (- v)) (\<lambda>n. Inr (Some l, n))
           | None \<Rightarrow> Inr (Some e, 0))
      | ConstInt v _ \<Rightarrow> Inr (None, v)
      | _ \<Rightarrow> Inr (Some e, 0))"

definition ExtractOffsets ::
  "'f expr \<Rightarrow> 'f expr \<Rightarrow> ('f expr option \<times> 'f expr option \<times> int) res" where
  "ExtractOffsets a b =
     res_bind (ExtractOffset a) (\<lambda>(l, lo).
     res_bind (ExtractOffset b) (\<lambda>(r, ro).
     res_bind (i64 (ro - lo)) (\<lambda>off. Inr (l, r, off))))"

definition compare_kind :: "binop \<Rightarrow> CompareResult option" where
  "compare_kind k =
     (case k of KLe \<Rightarrow> Some kLE | KGe \<Rightarrow> Some kGE | KLt \<Rightarrow> Some kLT | KGt \<Rightarrow> Some kGT
      | KEq \<Rightarrow> Some kEQ | KNe \<Rightarrow> Some kNE | _ \<Rightarrow> None)"

definition FromExpr :: "'f host \<Rightarrow> 'f expr \<Rightarrow> 'f keys \<Rightarrow> (Comparison option \<times> 'f keys) res" where
  "FromExpr H e ks =
     (case e of
        Binary k l r _ \<Rightarrow>
          (case compare_kind k of
             None \<Rightarrow> Inr (None, ks)
           | Some res \<Rightarrow>
               if as_int l \<noteq> None \<and> as_int r \<noteq> None then Inr (None, ks)
               else res_bind (ExtractOffsets l r) (\<lambda>(le, re, off).
                 let (lk, ks1) = ExprToKey H le ks; (rk, ks2) = ExprToKey H re ks1 in
                 res_bind (mk_cmp lk rk off res) (\<lambda>c. Inr (Some c, ks2))))
      | _ \<Rightarrow> Inr (None, ks))"

text \<open>The worklist of \<open>ExtractConstraints\<close>, a stack whose top is the head of the list.\<close>

function extract_loop :: "'f expr list \<Rightarrow> 'f expr list \<Rightarrow> 'f expr list" where
  "extract_loop [] result = result"
| "extract_loop (e # wl) result =
     (case e of
        Binary KAnd l r _ \<Rightarrow> extract_loop (l # r # wl) (result @ [e])
      | _ \<Rightarrow> extract_loop wl (result @ [e]))"
  by pat_completeness auto
termination
  by (relation "measure (\<lambda>(wl, result). sum_list (map size wl))") (auto split: expr.splits)

definition ExtractConstraints :: "'f expr \<Rightarrow> 'f expr list" where
  "ExtractConstraints e = extract_loop [e] []"

fun add_known_loop ::
  "'f host \<Rightarrow> 'f expr list \<Rightarrow> 'f keys \<Rightarrow> Comparison list \<Rightarrow> ('f keys \<times> Comparison list) res" where
  "add_known_loop H [] ks vec = Inr (ks, vec)"
| "add_known_loop H (e # es) ks vec =
     res_bind (FromExpr H e ks) (\<lambda>(c, ks').
       add_known_loop H es ks' (case c of Some x \<Rightarrow> vec @ [x] | None \<Rightarrow> vec))"

definition AddKnown ::
  "'f host \<Rightarrow> 'f expr \<Rightarrow> 'f keys \<Rightarrow> Comparison list \<Rightarrow> ('f keys \<times> Comparison list) res" where
  "AddKnown H e ks vec = add_known_loop H (ExtractConstraints e) ks vec"


section \<open>Search\<close>

text \<open>Lists of facts with the error of the first failing element.\<close>

fun any_res :: "('a \<Rightarrow> bool res) \<Rightarrow> 'a list \<Rightarrow> bool res" where
  "any_res p [] = Inr False"
| "any_res p (x # xs) = res_bind (p x) (\<lambda>b. if b then Inr True else any_res p xs)"

fun map_res :: "('a \<Rightarrow> 'b res) \<Rightarrow> 'a list \<Rightarrow> 'b list res" where
  "map_res f [] = Inr []"
| "map_res f (x # xs) = res_bind (f x) (\<lambda>y. res_bind (map_res f xs) (\<lambda>ys. Inr (y # ys)))"

text \<open>
  \<open>CollectDirectComparisons\<close>: the facts between the two keys. \<open>facts\<close> is the list of known facts
  followed by the scoped ones, the order of every loop over both.
\<close>

fun normalize_all :: "nat \<Rightarrow> Comparison list \<Rightarrow> Comparison list res" where
  "normalize_all k [] = Inr []"
| "normalize_all k (c # cs) =
     res_bind (WithLHS k c) (\<lambda>o'. res_bind (normalize_all k cs) (\<lambda>ys.
       Inr (case o' of Some x \<Rightarrow> x # ys | None \<Rightarrow> ys)))"

definition CollectDirectComparisons ::
  "Comparison list \<Rightarrow> nat \<Rightarrow> nat \<Rightarrow> Comparison list res" where
  "CollectDirectComparisons facts lk rk =
     res_bind (normalize_all lk facts) (\<lambda>cs. Inr (filter (\<lambda>c. c_rhs c = rk) cs))"

text \<open>The state of \<open>DFSFromLHS\<close>: the keys to visit and the facts derived about each key.\<close>

record Search =
  to_visit :: "nat list"
  compared_to_lhs :: "nat \<Rightarrow> Comparison list"

text \<open>The first fact that \<open>c\<close> implies is overwritten by it.\<close>

fun replace_first :: "Comparison \<Rightarrow> Comparison list \<Rightarrow> Comparison list option res" where
  "replace_first c [] = Inr None"
| "replace_first c (x # xs) =
     res_bind (Implies c x) (\<lambda>b.
       if b then Inr (Some (c # xs))
       else res_bind (replace_first c xs) (\<lambda>o'. Inr (map_option ((#) x) o')))"

definition declare_known :: "nat \<Rightarrow> Comparison \<Rightarrow> Search \<Rightarrow> Search res" where
  "declare_known rk c st =
     (let k = c_rhs c; ks = compared_to_lhs st k in
      res_bind (any_res (\<lambda>p. Implies p c) ks) (\<lambda>known.
        if known then Inr st
        else res_bind (replace_first c ks) (\<lambda>o'.
          Inr \<lparr>to_visit = (if k \<noteq> rk then List.insert k (to_visit st) else to_visit st),
               compared_to_lhs = (compared_to_lhs st)
                 (k := case o' of Some ks' \<Rightarrow> ks' | None \<Rightarrow> ks @ [c])\<rparr>)))"

definition dfs_seed :: "Comparison list \<Rightarrow> nat \<Rightarrow> nat \<Rightarrow> Search res" where
  "dfs_seed facts lk rk =
     fold_res (\<lambda>c st. res_bind (WithLHS lk c) (\<lambda>o'.
       case o' of Some x \<Rightarrow> declare_known rk x st | None \<Rightarrow> Inr st))
       facts \<lparr>to_visit = [], compared_to_lhs = \<lambda>_. []\<rparr>"

text \<open>\<open>x OP m + c1\<close> and \<open>m OP' z + c2\<close> give \<open>x OP'' z + (c1 + c2)\<close>, or nothing.\<close>

definition chain_result :: "CompareResult \<Rightarrow> CompareResult \<Rightarrow> CompareResult" where
  "chain_result r s =
     (if r = kEQ \<or> s = kEQ then (if r = kEQ then s else r)
      else if r = s \<and> (r = kLE \<or> r = kGE) then r
      else kUnknown)"

fun chain_all :: "nat \<Rightarrow> Comparison list \<Rightarrow> Comparison \<Rightarrow> Comparison list res" where
  "chain_all lk [] c = Inr []"
| "chain_all lk (p # ps) c =
     res_bind (i64 (c_offset p + c_offset c)) (\<lambda>off.
       let r = chain_result (c_result p) (c_result c) in
       if r \<noteq> kUnknown then
         res_bind (mk_cmp lk (c_rhs c) off r) (\<lambda>n.
         res_bind (chain_all lk ps c) (\<lambda>ns. Inr (n # ns)))
       else chain_all lk ps c)"

definition attempt_transitive :: "nat \<Rightarrow> Comparison list \<Rightarrow> Comparison \<Rightarrow> Comparison list res" where
  "attempt_transitive lk prevs c =
     res_bind (check InternalError (IsNormalized c)) (\<lambda>_.
       if c_rhs c = lk then Inr [] else chain_all lk prevs c)"

fun attempt_all ::
  "nat \<Rightarrow> nat \<Rightarrow> Comparison list \<Rightarrow> Comparison list \<Rightarrow> Comparison list res" where
  "attempt_all lk m prevs [] = Inr []"
| "attempt_all lk m prevs (c # cs) =
     res_bind (WithLHS m c) (\<lambda>o'.
     res_bind (case o' of Some x \<Rightarrow> attempt_transitive lk prevs x | None \<Rightarrow> Inr []) (\<lambda>ns.
     res_bind (attempt_all lk m prevs cs) (\<lambda>rest. Inr (ns @ rest))))"

text \<open>One iteration of the search, on the key the hash set yields first.\<close>

definition dfs_step ::
  "(nat list \<Rightarrow> nat) \<Rightarrow> Comparison list \<Rightarrow> nat \<Rightarrow> nat \<Rightarrow> Search \<Rightarrow> Search res" where
  "dfs_step pick facts lk rk st =
     (let m = pick (to_visit st); st' = st\<lparr>to_visit := removeAll m (to_visit st)\<rparr> in
      res_bind (attempt_all lk m (compared_to_lhs st m) facts) (\<lambda>new.
        fold_res (declare_known rk) new st'))"

partial_function (option) dfs_loop ::
  "(nat list \<Rightarrow> nat) \<Rightarrow> Comparison list \<Rightarrow> nat \<Rightarrow> nat \<Rightarrow> Search \<Rightarrow> Search res option" where
  "dfs_loop pick facts lk rk st =
     (if to_visit st = [] then Some (Inr st)
      else (case dfs_step pick facts lk rk st of
          Inl e \<Rightarrow> Some (Inl e)
        | Inr st' \<Rightarrow> dfs_loop pick facts lk rk st'))"

declare dfs_loop.simps [code]

definition DFSFromLHS ::
  "(nat list \<Rightarrow> nat) \<Rightarrow> Comparison list \<Rightarrow> nat \<Rightarrow> nat \<Rightarrow> Comparison list res option" where
  "DFSFromLHS pick facts lk rk =
     (case dfs_seed facts lk rk of
        Inl e \<Rightarrow> Some (Inl e)
      | Inr st \<Rightarrow> map_option (\<lambda>r. res_bind r (\<lambda>st'. Inr (compared_to_lhs st' rk)))
          (dfs_loop pick facts lk rk st))"

fun renormalize :: "nat \<Rightarrow> Comparison list \<Rightarrow> Comparison list res" where
  "renormalize k [] = Inr []"
| "renormalize k (c # cs) =
     res_bind (WithLHS k c) (\<lambda>o'.
       case o' of
         None \<Rightarrow> Inl InternalError
       | Some x \<Rightarrow> res_bind (renormalize k cs) (\<lambda>ys. Inr (x # ys)))"

definition CollectIndirectComparisons ::
  "(nat list \<Rightarrow> nat) \<Rightarrow> Comparison list \<Rightarrow> nat \<Rightarrow> nat \<Rightarrow> Comparison list res option" where
  "CollectIndirectComparisons pick facts lk rk =
     (case DFSFromLHS pick facts lk rk of
        None \<Rightarrow> None
      | Some (Inl e) \<Rightarrow> Some (Inl e)
      | Some (Inr xs) \<Rightarrow>
          map_option (\<lambda>r. res_bind r (\<lambda>ys. res_bind (renormalize lk ys) (\<lambda>zs. Inr (xs @ zs))))
            (DFSFromLHS pick facts rk lk))"

section \<open>Results and the public operations\<close>

definition merge_one :: "int \<Rightarrow> Comparison \<Rightarrow> CompareResult \<Rightarrow> CompareResult res" where
  "merge_one off c result =
     (case c_result c of
        kInconsistent \<Rightarrow> Inr kInconsistent
      | kEQ \<Rightarrow> Inr (cr_and result (if off = c_offset c then kEQ else kNE))
      | kLE \<Rightarrow> Inr (if c_offset c < off then cr_and result kLT
                   else if c_offset c \<le> off then cr_and result kLE else result)
      | kGE \<Rightarrow> Inr (if c_offset c > off then cr_and result kGT
                   else if c_offset c \<ge> off then cr_and result kGE else result)
      | kNE \<Rightarrow> Inr (if off = c_offset c then cr_and result kNE else result)
      | kUnknown \<Rightarrow> Inr result
      | _ \<Rightarrow> Inl InternalError)"

definition MergeComparisons :: "Comparison list \<Rightarrow> int \<Rightarrow> CompareResult res" where
  "MergeComparisons cs off = fold_res (merge_one off) cs kUnknown"

definition is_int_scalar :: "'f expr \<Rightarrow> bool" where
  "is_int_scalar e \<longleftrightarrow> (case scalar_type e of Some d \<Rightarrow> IsInt d | None \<Rightarrow> False)"

definition compare_ints :: "int \<Rightarrow> int \<Rightarrow> CompareResult" where
  "compare_ints x y = (if x < y then kLT else if x > y then kGT else kEQ)"

definition TryCompare ::
  "'f host \<Rightarrow> (nat list \<Rightarrow> nat) \<Rightarrow> 'f tc_state \<Rightarrow> 'f expr \<Rightarrow> 'f expr \<Rightarrow> bool \<Rightarrow>
   CompareResult res option" where
  "TryCompare H pick st a b propagate =
     (if \<not> is_int_scalar a \<or> \<not> is_int_scalar b then Some (Inr kUnknown)
      else (case (as_int a, as_int b) of
          (Some (x, _), Some (y, _)) \<Rightarrow> Some (Inr (compare_ints x y))
        | _ \<Rightarrow>
          (case ExtractOffsets a b of
             Inl e \<Rightarrow> Some (Inl e)
           | Inr (l, r, off) \<Rightarrow>
               if (case (l, r) of (Some x, Some y) \<Rightarrow> same_ptr H x y | _ \<Rightarrow> False) then
                 Some (Inr (if off < 0 then kGT else if off > 0 then kLT else kEQ))
               else (case (ExprToPreviousKey H (key_exprs st) l, ExprToPreviousKey H (key_exprs st) r) of
                   (Some lk, Some rk) \<Rightarrow>
                     let facts = knowns st @ scoped_knowns st in
                     map_option (\<lambda>m. res_bind m (\<lambda>cs. MergeComparisons cs off))
                       (if propagate then CollectIndirectComparisons pick facts lk rk
                        else Some (CollectDirectComparisons facts lk rk))
                 | _ \<Rightarrow> Some (Inr kUnknown)))))"

definition tc_add_known :: "'f host \<Rightarrow> 'f expr \<Rightarrow> 'f tc_state \<Rightarrow> 'f tc_state res" where
  "tc_add_known H e st =
     res_bind (AddKnown H e (key_exprs st) (knowns st)) (\<lambda>(ks, vec).
       Inr (st\<lparr>key_exprs := ks, knowns := vec\<rparr>))"

definition tc_bind_expr :: "'f host \<Rightarrow> 'f expr \<Rightarrow> 'f expr \<Rightarrow> 'f tc_state \<Rightarrow> 'f tc_state res" where
  "tc_bind_expr H var e st =
     res_bind (MakeBinary KEq var e) (\<lambda>eq. tc_add_known H eq st)"

definition tc_bind_range ::
  "'f host \<Rightarrow> 'f expr \<Rightarrow> int \<Rightarrow> int \<Rightarrow> 'f tc_state \<Rightarrow> 'f tc_state res" where
  "tc_bind_range H var lo hi st =
     res_bind (GetScalarDtype var) (\<lambda>d.
     res_bind (i64 (hi - lo)) (\<lambda>n.
       if n = 1 then
         res_bind (MakeBinary KEq var (MakeConstInt lo d)) (\<lambda>eq. tc_add_known H eq st)
       else
         res_bind (MakeBinary KGe var (MakeConstInt lo d)) (\<lambda>ge.
         res_bind (tc_add_known H ge st) (\<lambda>st'.
         res_bind (MakeBinary KLt var (MakeConstInt hi d)) (\<lambda>lt. tc_add_known H lt st')))))"

definition tc_unbind :: "'f host \<Rightarrow> 'f expr \<Rightarrow> 'f tc_state \<Rightarrow> 'f tc_state" where
  "tc_unbind H var st =
     (case ExprToPreviousKey H (key_exprs st) (Some var) of
        None \<Rightarrow> st
      | Some k \<Rightarrow> st\<lparr>knowns := filter (\<lambda>c. \<not> (c_lhs c = k \<or> c_rhs c = k)) (knowns st)\<rparr>)"

text \<open>Entering a constraint: the new state, and the sizes its recovery function remembers.\<close>

definition tc_enter_constraint ::
  "'f host \<Rightarrow> 'f tc_state \<Rightarrow> 'f expr \<Rightarrow> ('f tc_state \<times> (nat \<times> nat)) res" where
  "tc_enter_constraint H st c =
     res_bind (AddKnown H c (key_exprs st) (scoped_knowns st)) (\<lambda>(ks, vec).
       Inr (st\<lparr>key_exprs := ks, scoped_knowns := vec\<rparr>, (length (scoped_knowns st), length vec)))"

definition tc_recover :: "nat \<times> nat \<Rightarrow> 'f tc_state \<Rightarrow> 'f tc_state res" where
  "tc_recover sizes st =
     (case sizes of (old_size, new_size) \<Rightarrow>
       if old_size = new_size then Inr st
       else res_bind (check InternalError (length (scoped_knowns st) = new_size)) (\<lambda>_.
         Inr (st\<lparr>scoped_knowns := take old_size (scoped_knowns st)\<rparr>)))"


section \<open>What results and facts mean\<close>

fun cr_holds :: "CompareResult \<Rightarrow> int \<Rightarrow> int \<Rightarrow> bool" where
  "cr_holds kInconsistent a b \<longleftrightarrow> False"
| "cr_holds kEQ a b \<longleftrightarrow> a = b"
| "cr_holds kLT a b \<longleftrightarrow> a < b"
| "cr_holds kLE a b \<longleftrightarrow> a \<le> b"
| "cr_holds kGT a b \<longleftrightarrow> a > b"
| "cr_holds kGE a b \<longleftrightarrow> a \<ge> b"
| "cr_holds kNE a b \<longleftrightarrow> a \<noteq> b"
| "cr_holds kUnknown a b \<longleftrightarrow> True"

text \<open>The bitwise conjunction of results is the conjunction of their meanings.\<close>

lemma cr_and_holds: "cr_holds (cr_and r s) a b \<longleftrightarrow> cr_holds r a b \<and> cr_holds s a b"
  by (cases r; cases s) (auto simp: cr_and_def cr_of_code_def)

lemma cr_reverse_holds: "cr_holds (cr_reverse r) a b \<longleftrightarrow> cr_holds r b a"
  by (cases r) auto

definition pairs_of :: "CompareResult \<Rightarrow> (int \<times> int) set" where
  "pairs_of r = {p. cr_holds r (fst p) (snd p)}"

lemma ResultImplies_holds: "ResultImplies r s \<Longrightarrow> cr_holds r a b \<Longrightarrow> cr_holds s a b"
  using cr_and_holds [of r s a b] by (simp add: ResultImplies_def)

lemma pairs_of_mem:
  "(0, 0) \<in> pairs_of r \<longleftrightarrow> cr_holds r 0 0" "(0, 1) \<in> pairs_of r \<longleftrightarrow> cr_holds r 0 1"
  "(1, 0) \<in> pairs_of r \<longleftrightarrow> cr_holds r 1 0"
  by (simp_all add: pairs_of_def)

lemma ResultImplies_subset:
  "ResultImplies r s \<longleftrightarrow> r \<noteq> kUnknown \<and> r \<noteq> kInconsistent \<and> pairs_of r \<subseteq> pairs_of s"
proof
  assume "ResultImplies r s"
  then show "r \<noteq> kUnknown \<and> r \<noteq> kInconsistent \<and> pairs_of r \<subseteq> pairs_of s"
    using ResultImplies_holds [of r s] by (auto simp: pairs_of_def) (simp_all add: ResultImplies_def)
next
  assume r: "r \<noteq> kUnknown \<and> r \<noteq> kInconsistent \<and> pairs_of r \<subseteq> pairs_of s"
  then have "cr_holds r 0 0 \<longrightarrow> cr_holds s 0 0" "cr_holds r 0 1 \<longrightarrow> cr_holds s 0 1"
    "cr_holds r 1 0 \<longrightarrow> cr_holds s 1 0"
    using pairs_of_mem [of r] pairs_of_mem [of s] by blast+
  with r show "ResultImplies r s"
    by (cases r; cases s) (simp_all add: ResultImplies_def cr_and_def cr_of_code_def)
qed

text \<open>
  The results form an algebra of relations: the bitwise conjunction of two encodings
  holds of exactly the pairs both results hold of, reversing a result swaps the operands, and
  \<open>ResultImplies\<close> is exactly the inclusion of relations (for a result that says something).
\<close>

theorem compare_result_algebra:
  "pairs_of (cr_and r s) = pairs_of r \<inter> pairs_of s \<and>
   pairs_of (cr_reverse r) = prod.swap ` pairs_of r \<and>
   (ResultImplies r s \<longleftrightarrow> r \<noteq> kUnknown \<and> r \<noteq> kInconsistent \<and> pairs_of r \<subseteq> pairs_of s)"
proof (intro conjI)
  show "pairs_of (cr_and r s) = pairs_of r \<inter> pairs_of s"
    by (auto simp: pairs_of_def cr_and_holds)
  show "pairs_of (cr_reverse r) = prod.swap ` pairs_of r"
    by (force simp: pairs_of_def cr_reverse_holds image_iff)
qed (rule ResultImplies_subset)

text \<open>A fact under values for the keys.\<close>

definition fact_holds :: "(nat \<Rightarrow> int) \<Rightarrow> Comparison \<Rightarrow> bool" where
  "fact_holds v c \<longleftrightarrow> cr_holds (c_result c) (v (c_lhs c)) (v (c_rhs c) + c_offset c)"

text \<open>
  Facts in the form the analyzer stores them: no strict relation, none that says nothing, and an
  offset that fits its type.
\<close>

definition wf_fact :: "Comparison \<Rightarrow> bool" where
  "wf_fact c \<longleftrightarrow> c_result c \<in> {kEQ, kLE, kGE, kNE} \<and> is_i64 (c_offset c)"

lemma mk_cmpE:
  assumes "mk_cmp l r off res = Inr c"
  shows "c_lhs c = l" and "c_rhs c = r"
    and "fact_holds v c \<longleftrightarrow> cr_holds res (v l) (v r + off)"
    and "is_i64 off \<Longrightarrow> wf_fact c \<longleftrightarrow> res \<notin> {kInconsistent, kUnknown}"
    and "res \<noteq> kLT \<Longrightarrow> res \<noteq> kGT \<Longrightarrow> c_result c = res \<and> c_offset c = off"
  using assms by (cases res; auto simp: mk_cmp_def fact_holds_def wf_fact_def split: if_splits)+

lemma mk_cmp_error: "mk_cmp l r off res = Inl e \<Longrightarrow> e = UndefinedBehavior"
  by (auto simp: mk_cmp_def i64_def split: if_splits)

lemma WithLHSE:
  assumes "WithLHS k c = Inr (Some d)"
  shows "c_lhs d = k" and "fact_holds v d \<longleftrightarrow> fact_holds v c" and "wf_fact c \<Longrightarrow> wf_fact d"
proof -
  have "c_lhs d = k \<and> (fact_holds v d \<longleftrightarrow> fact_holds v c) \<and> (wf_fact c \<longrightarrow> wf_fact d)"
  proof (cases "k = c_lhs c")
    case False
    with assms have k: "k = c_rhs c" and i: "is_i64 (- c_offset c)" and m: "mk_cmp (c_rhs c) (c_lhs c) (- c_offset c) (cr_reverse (c_result c)) = Inr d"
      by (auto simp: WithLHS_def split: if_splits)
    have "fact_holds v d \<longleftrightarrow> cr_holds (c_result c) (v (c_lhs c) + - c_offset c) (v (c_rhs c))"
      using mk_cmpE(3) [OF m] by (simp add: cr_reverse_holds)
    also have "\<dots> \<longleftrightarrow> fact_holds v c"
      by (cases "c_result c") (auto simp: fact_holds_def)
    finally show ?thesis
      using mk_cmpE(1,4) [OF m] k i by (cases "c_result c") (auto simp: wf_fact_def)
  qed (use assms in \<open>simp add: WithLHS_def\<close>)
  then show "c_lhs d = k" and "fact_holds v d \<longleftrightarrow> fact_holds v c" and "wf_fact c \<Longrightarrow> wf_fact d" by simp_all
qed

lemma WithLHS_keys: "WithLHS k c = Inr (Some d) \<Longrightarrow> c_rhs d \<in> {c_lhs c, c_rhs c}"
  by (auto simp: WithLHS_def mk_cmp_def split: if_splits)

lemma implies_core_sound:
  "implies_core r o1 r' o2 \<Longrightarrow> cr_holds r a (b + o1) \<Longrightarrow> r \<in> {kEQ, kLE, kGE, kNE} \<Longrightarrow> cr_holds r' a (b + o2)"
  by (auto simp: implies_core_def)

lemma chain_result_sound:
  "cr_holds r x (m + o1) \<Longrightarrow> cr_holds s m (z + o2) \<Longrightarrow> cr_holds (chain_result r s) x (z + (o1 + o2))"
  by (cases r; cases s) (auto simp: chain_result_def)

section \<open>Invariant of the search\<close>

text \<open>
  A fact about \<open>lk\<close> that holds under every valuation of the keys in a set \<open>V\<close>, and the state whose
  derived facts are such. With \<open>V\<close> the valuations that satisfy the known facts this is soundness;
  with \<open>V\<close> empty it is what the search keeps whatever it is given.
\<close>

definition about :: "(nat \<Rightarrow> int) set \<Rightarrow> nat \<Rightarrow> Comparison \<Rightarrow> bool" where
  "about V lk c \<longleftrightarrow> c_lhs c = lk \<and> wf_fact c \<and> (\<forall>v\<in>V. fact_holds v c)"

definition search_inv :: "(nat \<Rightarrow> int) set \<Rightarrow> nat \<Rightarrow> Search \<Rightarrow> bool" where
  "search_inv V lk st \<longleftrightarrow> (\<forall>k. \<forall>c\<in>set (compared_to_lhs st k). c_rhs c = k \<and> about V lk c)"

lemma wf_fact_normalized: "wf_fact c \<Longrightarrow> IsNormalized c"
  by (auto simp: wf_fact_def IsNormalized_def)

lemma Implies_eq:
  "about V lk c \<Longrightarrow> about V lk d \<Longrightarrow> c_rhs c = c_rhs d \<Longrightarrow>
   Implies c d = Inr (implies_core (c_result c) (c_offset c) (c_result d) (c_offset d))"
  by (simp add: Implies_def about_def wf_fact_normalized)

definition known :: "Comparison list \<Rightarrow> Comparison \<Rightarrow> bool" where
  "known ks c \<longleftrightarrow> (\<exists>p\<in>set ks. implies_core (c_result p) (c_offset p) (c_result c) (c_offset c))"

lemma any_Implies:
  assumes "\<forall>p\<in>set ks. c_rhs p = c_rhs c \<and> about V lk p" and "about V lk c"
  shows "any_res (\<lambda>p. Implies p c) ks = Inr (known ks c)"
  using assms
proof (induction ks)
  case (Cons p ps)
  have "Implies p c = Inr (implies_core (c_result p) (c_offset p) (c_result c) (c_offset c))"
    using Cons.prems by (intro Implies_eq [of V lk]) auto
  with Cons show ?case by (simp add: known_def)
qed (simp add: known_def)

lemma replace_first_cases:
  assumes "\<forall>p\<in>set ks. c_rhs p = c_rhs c \<and> about V lk p" and "about V lk c"
  obtains "replace_first c ks = Inr None"
    | xs x ys where "ks = xs @ x # ys" "replace_first c ks = Inr (Some (xs @ c # ys))"
        "implies_core (c_result c) (c_offset c) (c_result x) (c_offset x)"
  using assms
proof (induction ks arbitrary: thesis)
  case (Cons p ps)
  have i: "Implies c p = Inr (implies_core (c_result c) (c_offset c) (c_result p) (c_offset p))"
    using Cons.prems(3,4) by (intro Implies_eq [of V lk]) auto
  show ?case
  proof (cases "implies_core (c_result c) (c_offset c) (c_result p) (c_offset p)")
    case True
    then have "replace_first c (p # ps) = Inr (Some ([] @ c # ps))" using i by simp
    with True show ?thesis by (intro Cons.prems(2) [of "[]" p ps]) auto
  next
    case False
    have prem: "\<forall>q\<in>set ps. c_rhs q = c_rhs c \<and> about V lk q" using Cons.prems(3) by simp
    show ?thesis
    proof (rule Cons.IH [OF _ _ prem Cons.prems(4)], goal_cases)
      case 1
      then show ?case using i False by (intro Cons.prems(1)) simp
    next
      case (2 xs x ys)
      then show ?case using i False by (intro Cons.prems(2) [of "p # xs" x ys]) auto
    qed
  qed
qed simp

text \<open>Declaring a fact: nothing changes, or the facts about its key come to include it.\<close>

lemma declare_known_cases:
  assumes inv: "search_inv V lk st" and c: "about V lk c"
  obtains (known) "known (compared_to_lhs st (c_rhs c)) c" "declare_known rk c st = Inr st"
    | (new) ks' where "\<not> known (compared_to_lhs st (c_rhs c)) c"
        "declare_known rk c st = Inr \<lparr>to_visit = (if c_rhs c \<noteq> rk then List.insert (c_rhs c) (to_visit st)
           else to_visit st), compared_to_lhs = (compared_to_lhs st)(c_rhs c := ks')\<rparr>"
        "c \<in> set ks'" "set ks' \<subseteq> insert c (set (compared_to_lhs st (c_rhs c)))"
        "\<forall>p\<in>set (compared_to_lhs st (c_rhs c)). p \<in> set ks' \<or>
           implies_core (c_result c) (c_offset c) (c_result p) (c_offset p)"
proof -
  let ?ks = "compared_to_lhs st (c_rhs c)"
  have ks: "\<forall>p\<in>set ?ks. c_rhs p = c_rhs c \<and> about V lk p" using inv by (simp add: search_inv_def)
  note any = any_Implies [OF ks c]
  show ?thesis
  proof (cases "known ?ks c")
    case True
    then show ?thesis using any by (intro known) (simp_all add: declare_known_def Let_def)
  next
    case False
    show ?thesis
    proof (rule replace_first_cases [OF ks c])
      assume "replace_first c ?ks = Inr None"
      then show ?thesis using any False by (intro new [of "?ks @ [c]"]) (simp_all add: declare_known_def Let_def)
    next
      fix xs x ys
      assume "?ks = xs @ x # ys" and "replace_first c ?ks = Inr (Some (xs @ c # ys))"
        and "implies_core (c_result c) (c_offset c) (c_result x) (c_offset x)"
      then show ?thesis using any False
        by (intro new [of "xs @ c # ys"]) (auto simp: declare_known_def Let_def)
    qed
  qed
qed

lemma declare_known_inv:
  assumes "search_inv V lk st" and "about V lk c"
  shows "\<exists>st'. declare_known rk c st = Inr st' \<and> search_inv V lk st'"
  using assms
proof (cases rule: declare_known_cases [where rk = rk])
  case (new ks')
  have "about V lk p \<and> c_rhs p = c_rhs c" if "p \<in> set ks'" for p
    using that new(4) assms by (auto simp: search_inv_def)
  then show ?thesis using new(2) assms(1) by (auto simp: search_inv_def)
qed (use assms in auto)

lemma fold_declare_inv:
  assumes "search_inv V lk st" and "\<forall>c\<in>set cs. about V lk c"
  shows "\<exists>st'. fold_res (declare_known rk) cs st = Inr st' \<and> search_inv V lk st'"
  using assms
proof (induction cs arbitrary: st)
  case (Cons c cs)
  obtain st1 where "declare_known rk c st = Inr st1" and "search_inv V lk st1"
    using declare_known_inv [OF Cons.prems(1), of c rk] Cons.prems(2) by auto
  then show ?case using Cons.IH Cons.prems(2) by simp
qed simp

text \<open>The facts a step derives hold.\<close>

lemma chain_all_about:
  assumes "chain_all lk ps c = Inr ns" and "\<forall>p\<in>set ps. about V lk p \<and> c_rhs p = c_lhs c"
    and "wf_fact c" and "\<forall>v\<in>V. fact_holds v c" and "n \<in> set ns"
  shows "about V lk n \<and> c_rhs n = c_rhs c"
  using assms
proof (induction ps arbitrary: ns)
  case (Cons p ps)
  let ?r = "chain_result (c_result p) (c_result c)" and ?o = "c_offset p + c_offset c"
  show ?case
  proof (cases "?r = kUnknown")
    case False
    then obtain m ms where i: "is_i64 ?o" and m: "mk_cmp lk (c_rhs c) ?o ?r = Inr m" and ms: "chain_all lk ps c = Inr ms"
      and ns: "ns = m # ms"
      using Cons.prems(1) by (auto simp: Let_def)
    have "cr_holds ?r (v lk) (v (c_rhs c) + ?o)" if "v \<in> V" for v
      using Cons.prems(2,4) that by (intro chain_result_sound) (auto simp: about_def fact_holds_def)
    moreover have "?r \<noteq> kInconsistent" using Cons.prems(2,3) by (auto simp: chain_result_def wf_fact_def about_def)
    ultimately have "about V lk m \<and> c_rhs m = c_rhs c" using mk_cmpE [OF m] False i by (simp add: about_def)
    then show ?thesis using Cons.IH [OF ms] Cons.prems ns by auto
  next
    case True
    then show ?thesis using Cons by (auto simp: Let_def)
  qed
qed simp

lemma attempt_all_about:
  assumes "attempt_all lk m prevs facts = Inr ns" and "\<forall>p\<in>set prevs. about V lk p \<and> c_rhs p = m"
    and "\<forall>c\<in>set facts. wf_fact c \<and> (\<forall>v\<in>V. fact_holds v c)" and "n \<in> set ns"
  shows "about V lk n \<and> (\<exists>c\<in>set facts. c_rhs n \<in> {c_lhs c, c_rhs c})"
  using assms
proof (induction facts arbitrary: ns)
  case (Cons c cs)
  obtain o' xs ys where o': "WithLHS m c = Inr o'" and ys: "attempt_all lk m prevs cs = Inr ys"
    and xs: "(case o' of Some x \<Rightarrow> attempt_transitive lk prevs x | None \<Rightarrow> Inr []) = Inr xs" and ns: "ns = xs @ ys"
    using Cons.prems(1) by auto
  have "about V lk n \<and> c_rhs n \<in> {c_lhs c, c_rhs c}" if "n \<in> set xs"
  proof (cases o')
    case (Some x)
    then have w: "WithLHS m c = Inr (Some x)" using o' by simp
    have "wf_fact x" and "\<forall>v\<in>V. fact_holds v x" and "c_lhs x = m"
      using WithLHSE [OF w] Cons.prems(3) by simp_all
    then show ?thesis
      using that xs Some Cons.prems(2) chain_all_about [of lk prevs x xs V n] WithLHS_keys [OF w]
      by (auto simp: attempt_transitive_def split: if_splits)
  qed (use that xs in simp)
  then show ?case using Cons.IH [OF ys] Cons.prems ns by auto
qed simp

section \<open>Errors and termination of the search\<close>

text \<open>
  The only failure is the overflow of an offset. \<open>overflow_only r\<close> says so of a result.
\<close>

definition overflow_only :: "'a res \<Rightarrow> bool" where
  "overflow_only r \<longleftrightarrow> (\<forall>e. r = Inl e \<longrightarrow> e = UndefinedBehavior)"

lemma overflow_only_simps [simp]:
  "overflow_only (Inr x)" "overflow_only (Inl e) \<longleftrightarrow> e = UndefinedBehavior" "overflow_only (i64 n)"
  by (auto simp: overflow_only_def i64_def)

lemma overflow_only_bind [simp]:
  "overflow_only (res_bind m f) \<longleftrightarrow> overflow_only m \<and> (\<forall>x. m = Inr x \<longrightarrow> overflow_only (f x))"
  by (cases m) auto

lemma overflow_only_mk_cmp [simp]: "overflow_only (mk_cmp l r off res)"
  using mk_cmp_error by (auto simp: overflow_only_def)

lemma overflow_only_WithLHS [simp]: "overflow_only (WithLHS k c)"
  by (auto simp: WithLHS_def)

lemma overflow_only_chain_all: "overflow_only (chain_all lk ps c)"
proof (induction ps)
  case (Cons p ps)
  then show ?case by (simp add: Let_def)
qed simp

lemma overflow_only_attempt_all:
  "\<forall>c\<in>set facts. wf_fact c \<Longrightarrow> overflow_only (attempt_all lk m prevs facts)"
proof (induction facts)
  case (Cons c cs)
  have "overflow_only (case o' of Some x \<Rightarrow> attempt_transitive lk prevs x | None \<Rightarrow> Inr [])"
    if "WithLHS m c = Inr o'" for o'
    using that WithLHSE(3) [of m c] Cons.prems wf_fact_normalized
    by (cases o') (auto simp: attempt_transitive_def check_def overflow_only_chain_all)
  then show ?case using Cons by auto
qed simp

text \<open>
  The search ends. What is known about a key, as the set of facts with representable offsets it
  implies, only grows, and it grows whenever a key is put on the list to visit again: either this
  work decreases, or nothing is declared and the list becomes shorter.
\<close>

definition fact_space :: "(CompareResult \<times> int) set" where
  "fact_space = {kEQ, kLE, kGE, kNE} \<times> {INT64_MIN..INT64_MAX}"

definition unknown_facts :: "Comparison list \<Rightarrow> (CompareResult \<times> int) set" where
  "unknown_facts ks =
     {(r, off). (r, off) \<in> fact_space \<and> \<not> (\<exists>p\<in>set ks. implies_core (c_result p) (c_offset p) r off)}"

definition work :: "nat set \<Rightarrow> Search \<Rightarrow> nat" where
  "work K st = (\<Sum>k\<in>K. card (unknown_facts (compared_to_lhs st k)))"

lemma finite_fact_space: "finite fact_space"
  by (simp add: fact_space_def)

lemma finite_unknown_facts: "finite (unknown_facts ks)"
  by (rule finite_subset [OF _ finite_fact_space]) (auto simp: unknown_facts_def)

lemma implies_core_refl: "implies_core r off r off"
  by (simp add: implies_core_def)

lemma implies_core_trans:
  "implies_core r o1 s o2 \<Longrightarrow> implies_core s o2 t o3 \<Longrightarrow> implies_core r o1 t o3"
  by (auto simp: implies_core_def)

lemma unknown_facts_shrink:
  assumes "wf_fact c" and "\<not> known ks c" and "c \<in> set ks'"
    and "\<forall>p\<in>set ks. p \<in> set ks' \<or> implies_core (c_result c) (c_offset c) (c_result p) (c_offset p)"
  shows "card (unknown_facts ks') < card (unknown_facts ks)"
proof (rule psubset_card_mono [OF finite_unknown_facts])
  have "(c_result c, c_offset c) \<in> unknown_facts ks"
    using assms(1,2) by (auto simp: unknown_facts_def known_def fact_space_def wf_fact_def is_i64_def)
  moreover have "(c_result c, c_offset c) \<notin> unknown_facts ks'"
    using assms(3) implies_core_refl by (auto simp: unknown_facts_def)
  moreover have "unknown_facts ks' \<subseteq> unknown_facts ks"
    using assms(3,4) implies_core_trans by (fastforce simp: unknown_facts_def)
  ultimately show "unknown_facts ks' \<subset> unknown_facts ks" by blast
qed

lemma declare_known_work:
  assumes "search_inv V lk st" and "about V lk c" and "finite K" and "c_rhs c \<in> K"
    and "declare_known rk c st = Inr st'"
  shows "st' = st \<or> work K st' < work K st"
  using assms(1,2)
proof (cases rule: declare_known_cases [where rk = rk])
  case (new ks')
  have "work K st' < work K st"
    unfolding work_def
  proof (rule sum_strict_mono_ex1 [OF assms(3)])
    have less: "card (unknown_facts ks') < card (unknown_facts (compared_to_lhs st (c_rhs c)))"
      using unknown_facts_shrink [OF _ new(1,3,5)] assms(2) by (simp add: about_def)
    then show "\<forall>k\<in>K. card (unknown_facts (compared_to_lhs st' k)) \<le> card (unknown_facts (compared_to_lhs st k))"
      and "\<exists>k\<in>K. card (unknown_facts (compared_to_lhs st' k)) < card (unknown_facts (compared_to_lhs st k))"
      using new(2) assms(4,5) by auto
  qed
  then show ?thesis ..
qed (use assms in auto)

lemma fold_declare_work:
  assumes "search_inv V lk st" and "\<forall>c\<in>set cs. about V lk c \<and> c_rhs c \<in> K" and "finite K"
    and "fold_res (declare_known rk) cs st = Inr st'"
  shows "st' = st \<or> work K st' < work K st"
  using assms(1,2,4)
proof (induction cs arbitrary: st)
  case (Cons c cs)
  obtain st1 where st1: "declare_known rk c st = Inr st1" and inv: "search_inv V lk st1"
    using declare_known_inv [OF Cons.prems(1), of c rk] Cons.prems(2) by auto
  have "st1 = st \<or> work K st1 < work K st"
    using declare_known_work [OF Cons.prems(1) _ assms(3) _ st1] Cons.prems(2) by simp
  moreover have "st' = st1 \<or> work K st' < work K st1"
    using Cons.IH [OF inv] Cons.prems(2,3) st1 by simp
  ultimately show ?case by auto
qed simp

text \<open>The keys facts are about, and a choice of the next key from the non-empty set to visit.\<close>

definition keys_of :: "Comparison list \<Rightarrow> nat set" where
  "keys_of facts = (\<Union>c\<in>set facts. {c_lhs c, c_rhs c})"

definition picks_member :: "(nat list \<Rightarrow> nat) \<Rightarrow> bool" where
  "picks_member pick \<longleftrightarrow> (\<forall>l. l = [] \<or> pick l \<in> set l)"

lemma finite_keys_of: "finite (keys_of facts)"
  by (simp add: keys_of_def)

definition sound_facts :: "(nat \<Rightarrow> int) set \<Rightarrow> Comparison list \<Rightarrow> bool" where
  "sound_facts V facts \<longleftrightarrow> (\<forall>c\<in>set facts. wf_fact c \<and> (\<forall>v\<in>V. fact_holds v c))"

lemma dfs_step_cases:
  assumes "search_inv V lk st" and "sound_facts V facts" and "picks_member pick" and "to_visit st \<noteq> []"
  obtains (overflow) "dfs_step pick facts lk rk st = Inl UndefinedBehavior"
    | (more) st' where "dfs_step pick facts lk rk st = Inr st'" "search_inv V lk st'"
        "work (keys_of facts) st' < work (keys_of facts) st \<or>
         work (keys_of facts) st' = work (keys_of facts) st \<and> length (to_visit st') < length (to_visit st)"
proof -
  let ?m = "pick (to_visit st)"
  define st0 where "st0 = st\<lparr>to_visit := removeAll ?m (to_visit st)\<rparr>"
  have inv0: "search_inv V lk st0" using assms(1) by (simp add: st0_def search_inv_def)
  have len: "length (to_visit st0) < length (to_visit st)"
    using assms(3,4) by (auto simp: st0_def picks_member_def intro: length_removeAll_less)
  have w0: "work K st0 = work K st" for K by (simp add: st0_def work_def)
  show ?thesis
  proof (cases "attempt_all lk ?m (compared_to_lhs st ?m) facts")
    case (Inl e)
    then have "e = UndefinedBehavior"
      using overflow_only_attempt_all [of facts lk ?m "compared_to_lhs st ?m"] assms(2)
      by (simp add: sound_facts_def)
    with Inl show ?thesis by (intro overflow) (simp add: dfs_step_def Let_def)
  next
    case (Inr new)
    have new: "\<forall>n\<in>set new. about V lk n \<and> c_rhs n \<in> keys_of facts"
      using attempt_all_about [OF Inr, of V] assms(1,2)
      by (force simp: search_inv_def sound_facts_def keys_of_def)
    then obtain st' where st': "fold_res (declare_known rk) new st0 = Inr st'" and inv: "search_inv V lk st'"
      using fold_declare_inv [OF inv0] by blast
    have "st' = st0 \<or> work (keys_of facts) st' < work (keys_of facts) st0"
      by (rule fold_declare_work [OF inv0 new finite_keys_of st'])
    then show ?thesis using len w0 st' inv Inr
      by (intro more [of st']) (auto simp: dfs_step_def st0_def Let_def)
  qed
qed

text \<open>The loop from any state that keeps the invariant returns a state that does, or overflows.\<close>

lemma dfs_loop_returns:
  assumes "search_inv V lk st" and "sound_facts V facts" and "picks_member pick"
  shows "\<exists>r. dfs_loop pick facts lk rk st = Some r \<and> overflow_only r \<and>
    (\<forall>st'. r = Inr st' \<longrightarrow> search_inv V lk st')"
  using assms(1)
proof (induction st rule: wf_induct [OF wf_measures [of "[work (keys_of facts), \<lambda>s. length (to_visit s)]"]])
  case (1 st)
  note loop = dfs_loop.simps [of pick facts lk rk st]
  show ?case
  proof (cases "to_visit st = []")
    case True
    then show ?thesis using loop 1(2) by auto
  next
    case False
    from 1(2) assms(2,3) False show ?thesis
    proof (cases rule: dfs_step_cases [where rk = rk])
      case overflow
      then show ?thesis using loop False by simp
    next
      case (more st')
      then show ?thesis using loop False 1(1) by auto
    qed
  qed
qed

text \<open>What a search from \<open>lk\<close> says about \<open>rk\<close>.\<close>

definition relates :: "(nat \<Rightarrow> int) set \<Rightarrow> nat \<Rightarrow> nat \<Rightarrow> Comparison list \<Rightarrow> bool" where
  "relates V lk rk cs \<longleftrightarrow> (\<forall>c\<in>set cs. about V lk c \<and> c_rhs c = rk)"

lemma WithLHS_about:
  "WithLHS lk c = Inr (Some d) \<Longrightarrow> wf_fact c \<Longrightarrow> \<forall>v\<in>V. fact_holds v c \<Longrightarrow> about V lk d"
  using WithLHSE [of lk c d] by (simp add: about_def)

lemma dfs_seed_inv:
  assumes "sound_facts V facts" and "search_inv V lk st0"
  shows "overflow_only (fold_res (\<lambda>c st. res_bind (WithLHS lk c) (\<lambda>o'.
       case o' of Some x \<Rightarrow> declare_known rk x st | None \<Rightarrow> Inr st)) facts st0) \<and>
    (\<forall>st. fold_res (\<lambda>c st. res_bind (WithLHS lk c) (\<lambda>o'.
       case o' of Some x \<Rightarrow> declare_known rk x st | None \<Rightarrow> Inr st)) facts st0 = Inr st \<longrightarrow>
       search_inv V lk st)"
  using assms
proof (induction facts arbitrary: st0)
  case (Cons c cs)
  show ?case
  proof (cases "WithLHS lk c")
    case (Inl e)
    then show ?thesis using overflow_only_WithLHS [of lk c] by simp
  next
    case (Inr o')
    have "\<exists>st1. (case o' of Some x \<Rightarrow> declare_known rk x st0 | None \<Rightarrow> Inr st0) = Inr st1 \<and> search_inv V lk st1"
    proof (cases o')
      case (Some x)
      have "about V lk x"
        using Cons.prems(1) Inr Some by (auto simp: sound_facts_def intro: WithLHS_about)
      then show ?thesis using declare_known_inv [OF Cons.prems(2)] Some by simp
    qed (use Cons.prems in simp)
    then show ?thesis using Cons.IH Cons.prems(1) Inr by (auto simp: sound_facts_def)
  qed
qed simp

lemma DFSFromLHS_returns:
  assumes "sound_facts V facts" and "picks_member pick"
  shows "\<exists>r. DFSFromLHS pick facts lk rk = Some r \<and> overflow_only r \<and>
    (\<forall>cs. r = Inr cs \<longrightarrow> relates V lk rk cs)"
proof -
  have "search_inv V lk \<lparr>to_visit = [], compared_to_lhs = \<lambda>_. []\<rparr>" by (simp add: search_inv_def)
  note seed = dfs_seed_inv [OF assms(1) this, of rk]
  show ?thesis
  proof (cases "dfs_seed facts lk rk")
    case (Inl e)
    then show ?thesis using seed by (simp add: DFSFromLHS_def dfs_seed_def)
  next
    case (Inr st)
    then have "search_inv V lk st" using seed by (simp add: dfs_seed_def)
    from dfs_loop_returns [OF this assms, of rk] Inr show ?thesis
      by (fastforce simp: DFSFromLHS_def relates_def search_inv_def)
  qed
qed

lemma renormalize_relates:
  assumes "relates V rk lk ys"
  shows "overflow_only (renormalize lk ys) \<and> (\<forall>zs. renormalize lk ys = Inr zs \<longrightarrow> relates V lk rk zs)"
  using assms
proof (induction ys)
  case (Cons c cs)
  have c: "c_rhs c = lk" "c_lhs c = rk" "wf_fact c" "\<forall>v\<in>V. fact_holds v c"
    using Cons.prems by (auto simp: relates_def about_def)
  have d: "\<exists>x. o' = Some x \<and> about V lk x \<and> c_rhs x = rk" if o': "WithLHS lk c = Inr o'" for o'
  proof -
    obtain x where x: "o' = Some x" using o' c by (auto simp: WithLHS_def split: if_splits)
    have "c_rhs x = rk" using o' c x mk_cmpE(2) by (auto simp: WithLHS_def split: if_splits)
    then show ?thesis using x WithLHS_about [of lk c x V] o' c by simp
  qed
  have IH: "overflow_only (renormalize lk cs)" "\<And>zs. renormalize lk cs = Inr zs \<Longrightarrow> relates V lk rk zs"
    using Cons by (auto simp: relates_def)
  show ?case
  proof (cases "WithLHS lk c")
    case (Inl e)
    then show ?thesis using overflow_only_WithLHS [of lk c] by simp
  next
    case (Inr o')
    then show ?thesis using d IH by (auto simp: relates_def)
  qed
qed (simp add: relates_def)

lemma CollectIndirectComparisons_returns:
  assumes "sound_facts V facts" and "picks_member pick"
  shows "\<exists>r. CollectIndirectComparisons pick facts lk rk = Some r \<and> overflow_only r \<and>
    (\<forall>cs. r = Inr cs \<longrightarrow> relates V lk rk cs)"
proof -
  obtain r where r: "DFSFromLHS pick facts lk rk = Some r" "overflow_only r" "\<And>cs. r = Inr cs \<Longrightarrow> relates V lk rk cs"
    using DFSFromLHS_returns [OF assms] by blast
  obtain s where s: "DFSFromLHS pick facts rk lk = Some s" "overflow_only s" "\<And>cs. s = Inr cs \<Longrightarrow> relates V rk lk cs"
    using DFSFromLHS_returns [OF assms] by blast
  show ?thesis
  proof (cases r)
    case (Inl e)
    with r show ?thesis by (simp add: CollectIndirectComparisons_def)
  next
    case (Inr xs)
    have "relates V lk rk (xs @ zs)" if "s = Inr ys" "renormalize lk ys = Inr zs" for ys zs
      using renormalize_relates [OF s(3) [OF that(1)]] that(2) r(3) [OF Inr] by (auto simp: relates_def)
    then show ?thesis using r(1) s(1,2) s(3) [THEN renormalize_relates] Inr
      by (auto simp: CollectIndirectComparisons_def)
  qed
qed

lemma CollectDirectComparisons_returns:
  assumes "sound_facts V facts"
  shows "overflow_only (CollectDirectComparisons facts lk rk) \<and>
    (\<forall>cs. CollectDirectComparisons facts lk rk = Inr cs \<longrightarrow> relates V lk rk cs)"
proof -
  have "overflow_only (normalize_all lk facts) \<and>
    (\<forall>cs. normalize_all lk facts = Inr cs \<longrightarrow> (\<forall>c\<in>set cs. about V lk c))"
    using assms
  proof (induction facts)
    case (Cons c cs)
    have c: "wf_fact c" "\<forall>v\<in>V. fact_holds v c" using Cons.prems by (simp_all add: sound_facts_def)
    have "overflow_only (normalize_all lk cs) \<and>
      (\<forall>ys. normalize_all lk cs = Inr ys \<longrightarrow> (\<forall>c\<in>set ys. about V lk c))"
      using Cons by (simp add: sound_facts_def)
    then show ?case using WithLHS_about [OF _ c, of lk] by (auto split: option.splits)
  qed simp
  then show ?thesis by (auto simp: CollectDirectComparisons_def relates_def)
qed

text \<open>Merging facts about a pair gives a result that holds.\<close>

lemma merge_one_sound:
  assumes "wf_fact c"
  shows "\<exists>res'. merge_one off c res = Inr res' \<and>
    (cr_holds res a (b + off) \<longrightarrow> cr_holds (c_result c) a (b + c_offset c) \<longrightarrow> cr_holds res' a (b + off))"
  using assms by (auto simp: wf_fact_def merge_one_def cr_and_holds)

lemma fold_merge_sound:
  "\<forall>c\<in>set cs. wf_fact c \<Longrightarrow>
   \<exists>res'. fold_res (merge_one off) cs res = Inr res' \<and>
    (cr_holds res a (b + off) \<longrightarrow> (\<forall>c\<in>set cs. cr_holds (c_result c) a (b + c_offset c)) \<longrightarrow>
     cr_holds res' a (b + off))"
proof (induction cs arbitrary: res)
  case (Cons c cs)
  obtain r1 where r1: "merge_one off c res = Inr r1"
    "cr_holds res a (b + off) \<longrightarrow> cr_holds (c_result c) a (b + c_offset c) \<longrightarrow> cr_holds r1 a (b + off)"
    using merge_one_sound [of c off res a b] Cons.prems by auto
  show ?case using Cons.IH [of r1] Cons.prems r1 by auto
qed simp

lemma MergeComparisons_sound:
  assumes "relates V lk rk cs"
  shows "\<exists>res. MergeComparisons cs off = Inr res \<and> (\<forall>v\<in>V. cr_holds res (v lk) (v rk + off))"
proof -
  have wf: "\<forall>c\<in>set cs. wf_fact c" using assms by (simp add: relates_def about_def)
  obtain res where res: "MergeComparisons cs off = Inr res"
    using fold_merge_sound [OF wf, of off kUnknown] by (auto simp: MergeComparisons_def)
  have "cr_holds res (v lk) (v rk + off)" if "v \<in> V" for v
    using fold_merge_sound [OF wf, of off kUnknown "v lk" "v rk"] res assms that
    by (auto simp: MergeComparisons_def relates_def about_def fact_holds_def)
  with res show ?thesis by blast
qed

text \<open>Every conjunct of a true constraint is true.\<close>

lemma eval_KAnd:
  "eval \<rho> (Binary KAnd l r d) = Some 1 \<Longrightarrow> eval \<rho> l = Some 1 \<and> eval \<rho> r = Some 1"
  by (elim eval_BinaryE) (auto simp: is_truth_def)

declare extract_loop.simps(2) [simp del]

lemma extract_loop_other:
  "\<not> (\<exists>l r d. e = Binary KAnd l r d) \<Longrightarrow> extract_loop (e # wl) acc = extract_loop wl (acc @ [e])"
  by (subst extract_loop.simps(2)) (auto split: expr.split binop.split)

lemma extract_loop_and:
  "extract_loop (Binary KAnd l r d # wl) acc = extract_loop (l # r # wl) (acc @ [Binary KAnd l r d])"
  by (subst extract_loop.simps(2)) simp

lemma expr_size_pos: "0 < size (e :: 'f expr)"
  by (cases e) simp_all

lemma extract_loop_true:
  "\<forall>e\<in>set wl. eval \<rho> e = Some 1 \<Longrightarrow> \<forall>e\<in>set acc. eval \<rho> e = Some 1 \<Longrightarrow>
   \<forall>e\<in>set (extract_loop wl acc). eval \<rho> e = Some 1"
proof (induction wl arbitrary: acc rule: measure_induct_rule [where f = "\<lambda>wl. sum_list (map size wl)"])
  case (less wl)
  show ?case
  proof (cases wl)
    case (Cons e es)
    show ?thesis
    proof (cases "\<exists>l r d. e = Binary KAnd l r d")
      case True
      then obtain l r d where e: "e = Binary KAnd l r d" by blast
      have "eval \<rho> l = Some 1 \<and> eval \<rho> r = Some 1"
        using eval_KAnd [of \<rho> l r d] less.prems(1) Cons e by simp
      then have "\<forall>e\<in>set (l # r # es). eval \<rho> e = Some 1" "\<forall>x\<in>set (acc @ [e]). eval \<rho> x = Some 1"
        using less.prems Cons by auto
      moreover have "sum_list (map size (l # r # es)) < sum_list (map size wl)"
        using Cons e by simp
      ultimately have "\<forall>x\<in>set (extract_loop (l # r # es) (acc @ [e])). eval \<rho> x = Some 1"
        by (intro less.IH)
      then show ?thesis unfolding Cons e extract_loop_and .
    next
      case False
      then show ?thesis
        using less.IH [of es "acc @ [e]"] less.prems Cons expr_size_pos [of e]
        by (simp add: extract_loop_other del: eval.simps)
    qed
  qed (use less.prems in simp)
qed

end
