(* ===== verification/Transitive_Scopes.thy ===== *)
theory Transitive_Scopes
  imports Transitive_Comparison
begin

text \<open>
  The transitive comparison analysis over environments: when its facts describe an environment,
  \<open>TryCompare\<close> always returns and its result holds; bindings, \<open>Unbind\<close> and constraint scopes keep
  the facts sound, and leaving a scope restores them. The analysis provides the contract
  \<open>sound_scopes\<close> of \<open>Scoped_Analysis\<close> with the query \<open>CanProve\<close> makes of it.
\<close>

section \<open>Keys and their values\<close>

lemma find_key_Some:
  "ptr_ok H \<Longrightarrow> find_key H e ks = Some i \<Longrightarrow> i < length ks \<and> ks ! i = e"
  by (induction ks arbitrary: i)
     (auto simp: same_key_def split: if_splits option.splits dest: ptr_okD)

lemma find_key_append: "find_key H e ks = Some i \<Longrightarrow> find_key H e (ks @ xs) = Some i"
  by (induction ks arbitrary: i) (auto split: if_splits)

lemma ExprToKey_cases:
  assumes "ptr_ok H" and "ExprToKey H e ks = (i, ks')"
  shows "i < length ks' \<and> ks' ! i = e \<and> (\<exists>xs. ks' = ks @ xs)"
  using assms find_key_Some [of H e ks i] by (auto simp: ExprToKey_def split: option.splits)

text \<open>The zero expression has the value 0; a key that has no value gets 0 in the valuation.\<close>

definition key_val :: "env \<Rightarrow> 'f expr option \<Rightarrow> int option" where
  "key_val \<rho> k = (case k of None \<Rightarrow> Some 0 | Some e \<Rightarrow> eval \<rho> e)"

definition valuation :: "env \<Rightarrow> 'f keys \<Rightarrow> nat \<Rightarrow> int" where
  "valuation \<rho> ks i = (case key_val \<rho> (ks ! i) of Some x \<Rightarrow> x | None \<Rightarrow> 0)"

lemma key_val_simps [simp]: "key_val \<rho> None = Some 0" "key_val \<rho> (Some e) = eval \<rho> e"
  by (simp_all add: key_val_def)

text \<open>A stored fact: about keys that exist and have values, in stored form, and true.\<close>

definition wf_key_fact :: "'f keys \<Rightarrow> Comparison \<Rightarrow> bool" where
  "wf_key_fact ks c \<longleftrightarrow> wf_fact c \<and> c_lhs c < length ks \<and> c_rhs c < length ks"

definition fact_true :: "env \<Rightarrow> 'f keys \<Rightarrow> Comparison \<Rightarrow> bool" where
  "fact_true \<rho> ks c \<longleftrightarrow>
     key_val \<rho> (ks ! c_lhs c) \<noteq> None \<and> key_val \<rho> (ks ! c_rhs c) \<noteq> None \<and>
     fact_holds (valuation \<rho> ks) c"

definition tc_facts :: "'f tc_state \<Rightarrow> Comparison list" where
  "tc_facts st = knowns st @ scoped_knowns st"

definition tc_wf :: "'f tc_state \<Rightarrow> bool" where
  "tc_wf st \<longleftrightarrow> (\<forall>c\<in>set (tc_facts st). wf_key_fact (key_exprs st) c)"

definition tc_describes :: "'f tc_state \<Rightarrow> env \<Rightarrow> bool" where
  "tc_describes st \<rho> \<longleftrightarrow> (\<forall>c\<in>set (tc_facts st). fact_true \<rho> (key_exprs st) c)"

lemma tc_sound_facts:
  "tc_wf st \<Longrightarrow> sound_facts {v. \<exists>\<rho>. tc_describes st \<rho> \<and> v = valuation \<rho> (key_exprs st)} (tc_facts st)"
  by (auto simp: sound_facts_def tc_wf_def tc_describes_def wf_key_fact_def fact_true_def)

lemma wf_key_fact_append: "wf_key_fact ks c \<Longrightarrow> wf_key_fact (ks @ xs) c"
  by (simp add: wf_key_fact_def)

lemma fact_true_append: "wf_key_fact ks c \<Longrightarrow> fact_true \<rho> (ks @ xs) c \<longleftrightarrow> fact_true \<rho> ks c"
  by (simp add: fact_true_def wf_key_fact_def fact_holds_def valuation_def nth_append)

section \<open>Comparing\<close>

lemma ExtractOffset_val:
  assumes "ExtractOffset e = Inr (l, off)" and "eval \<rho> e = Some x"
  shows "\<exists>y. key_val \<rho> l = Some y \<and> x = y + off"
proof (cases e)
  case (Binary k a b d)
  show ?thesis
  proof (cases k)
    case KAdd
    with assms Binary show ?thesis
      by (auto simp: ExtractOffset_def bind_eq_Some_conv split: option.splits if_splits)
  next
    case KSub
    with assms Binary show ?thesis
      by (auto simp: ExtractOffset_def bind_eq_Some_conv split: option.splits if_splits)
  qed (use assms Binary in \<open>auto simp: ExtractOffset_def\<close>)
qed (use assms in \<open>auto simp: ExtractOffset_def split: if_splits\<close>)

lemma ExtractOffsets_val:
  assumes "ExtractOffsets a b = Inr (l, r, off)" and "eval \<rho> a = Some x" and "eval \<rho> b = Some y"
  shows "\<exists>u w. key_val \<rho> l = Some u \<and> key_val \<rho> r = Some w \<and> x - y = u - (w + off)"
    and "is_i64 off"
proof -
  obtain lo ro where a: "ExtractOffset a = Inr (l, lo)" and b: "ExtractOffset b = Inr (r, ro)"
    and off: "off = ro - lo" "is_i64 off"
    using assms(1) by (auto simp: ExtractOffsets_def)
  show "\<exists>u w. key_val \<rho> l = Some u \<and> key_val \<rho> r = Some w \<and> x - y = u - (w + off)"
    using ExtractOffset_val [OF a assms(2)] ExtractOffset_val [OF b assms(3)] off by auto
  show "is_i64 off" by (rule off)
qed

lemma cr_holds_diff: "x - y = x' - y' \<Longrightarrow> cr_holds r x y \<longleftrightarrow> cr_holds r x' y'" for x y :: int
  by (cases r) auto

lemma overflow_only_ExtractOffset [simp]: "overflow_only (ExtractOffset e)"
  unfolding ExtractOffset_def by (auto split: expr.split binop.split option.split)

lemma overflow_only_ExtractOffsets: "overflow_only (ExtractOffsets a b)"
  by (simp add: ExtractOffsets_def split: prod.splits)

text \<open>The two branches of \<open>TryCompare\<close> after the constant case.\<close>

definition same_base :: "'f host \<Rightarrow> 'f expr option \<Rightarrow> 'f expr option \<Rightarrow> bool" where
  "same_base H l r \<longleftrightarrow> (case (l, r) of (Some x, Some y) \<Rightarrow> same_ptr H x y | _ \<Rightarrow> False)"

definition compare_keys ::
  "(nat list \<Rightarrow> nat) \<Rightarrow> Comparison list \<Rightarrow> bool \<Rightarrow> nat \<Rightarrow> nat \<Rightarrow> int \<Rightarrow> CompareResult res option" where
  "compare_keys pick facts propagate lk rk off =
     map_option (\<lambda>m. res_bind m (\<lambda>cs. MergeComparisons cs off))
       (if propagate then CollectIndirectComparisons pick facts lk rk
        else Some (CollectDirectComparisons facts lk rk))"

lemma TryCompare_start:
  assumes "is_int_scalar a \<and> is_int_scalar b \<and> (as_int a = None \<or> as_int b = None)"
  shows "TryCompare H pick st a b propagate =
     (case ExtractOffsets a b of
        Inl e \<Rightarrow> Some (Inl e)
      | Inr (l, r, off) \<Rightarrow>
          if same_base H l r then Some (Inr (if off < 0 then kGT else if off > 0 then kLT else kEQ))
          else (case (ExprToPreviousKey H (key_exprs st) l, ExprToPreviousKey H (key_exprs st) r) of
              (Some lk, Some rk) \<Rightarrow> compare_keys pick (tc_facts st) propagate lk rk off
            | _ \<Rightarrow> Some (Inr kUnknown)))"
  using assms unfolding TryCompare_def tc_facts_def Let_def same_base_def compare_keys_def
  by (cases "as_int a"; cases "as_int b") (simp_all split: prod.split del: as_int_iff)

lemma compare_keys_sound:
  assumes "sound_facts V facts" and "picks_member pick"
  shows "\<exists>r. compare_keys pick facts propagate lk rk off = Some r \<and> overflow_only r \<and>
    (\<forall>res v. r = Inr res \<longrightarrow> v \<in> V \<longrightarrow> cr_holds res (v lk) (v rk + off))"
proof -
  obtain m where m: "(if propagate then CollectIndirectComparisons pick facts lk rk
      else Some (CollectDirectComparisons facts lk rk)) = Some m"
    and m': "overflow_only m" "\<And>cs. m = Inr cs \<Longrightarrow> relates V lk rk cs"
    using CollectIndirectComparisons_returns [OF assms, of lk rk]
      CollectDirectComparisons_returns [OF assms(1), of lk rk]
    by (cases propagate) auto
  have "\<exists>res. MergeComparisons cs off = Inr res \<and> (\<forall>v\<in>V. cr_holds res (v lk) (v rk + off))"
    if "m = Inr cs" for cs
    using MergeComparisons_sound [OF m'(2) [OF that]] .
  then show ?thesis using m'(1) by (cases m) (fastforce simp: compare_keys_def m)+
qed

lemma TryCompare_correct:
  assumes "ptr_ok H" and "picks_member pick" and "tc_wf st"
  shows "\<exists>r. TryCompare H pick st a b propagate = Some r \<and> overflow_only r \<and>
    (\<forall>res \<rho> x y. r = Inr res \<longrightarrow> tc_describes st \<rho> \<longrightarrow> eval \<rho> a = Some x \<longrightarrow> eval \<rho> b = Some y \<longrightarrow>
       cr_holds res x y)"
proof (cases "is_int_scalar a \<and> is_int_scalar b \<and> (as_int a = None \<or> as_int b = None)")
  case False
  then show ?thesis
    by (auto simp: TryCompare_def compare_ints_def split: option.splits if_splits)
next
  case True
  note start = TryCompare_start [OF True, of H pick st propagate]
  show ?thesis
  proof (cases "ExtractOffsets a b")
    case (Inl e)
    then show ?thesis using start overflow_only_ExtractOffsets [of a b] by simp
  next
    case (Inr p)
    obtain l r off where p: "ExtractOffsets a b = Inr (l, r, off)" using Inr by (cases p) auto
    note val = ExtractOffsets_val(1) [OF p]
    consider "same_base H l r" | "\<not> same_base H l r"
        "find_key H l (key_exprs st) = None \<or> find_key H r (key_exprs st) = None"
      | lk rk where "\<not> same_base H l r" "find_key H l (key_exprs st) = Some lk" "find_key H r (key_exprs st) = Some rk"
      by (cases "find_key H l (key_exprs st)"; cases "find_key H r (key_exprs st)"; blast)
    then show ?thesis
    proof cases
      case 1
      then have "l = r" using ptr_okD [OF assms(1)] by (auto simp: same_base_def split: option.splits)
      then show ?thesis using start p 1 val by fastforce
    next
      case 2
      then show ?thesis using start p by (auto simp: ExprToPreviousKey_def split: option.splits)
    next
      case (3 lk rk)
      let ?v = "\<lambda>\<rho>. valuation \<rho> (key_exprs st)"
      have cmp: "TryCompare H pick st a b propagate = compare_keys pick (tc_facts st) propagate lk rk off"
        using start p 3 by (simp add: ExprToPreviousKey_def)
      have "cr_holds res x y"
        if h: "cr_holds res (?v \<rho> lk) (?v \<rho> rk + off)" and x: "eval \<rho> a = Some x" and y: "eval \<rho> b = Some y"
        for res \<rho> x y
      proof -
        obtain u w where uw: "key_val \<rho> l = Some u" "key_val \<rho> r = Some w" "x - y = u - (w + off)"
          using val [OF x y] by blast
        have "?v \<rho> lk = u" "?v \<rho> rk = w"
          using find_key_Some [OF assms(1) 3(2)] find_key_Some [OF assms(1) 3(3)] uw
          by (simp_all add: valuation_def)
        then show ?thesis using h cr_holds_diff [OF uw(3)] by simp
      qed
      then show ?thesis
        using compare_keys_sound [OF tc_sound_facts [OF assms(3)] assms(2), of propagate lk rk off] cmp
        by fastforce
    qed
  qed
qed

text \<open>
  Claim C21. Comparing always ends, whatever facts are known and in whatever order the hash set
  yields the keys to visit; the only failure is the overflow of an offset.
\<close>

theorem TryCompare_returns:
  assumes "ptr_ok H" and "picks_member pick" and "tc_wf st"
  shows "\<exists>r. TryCompare H pick st a b propagate = Some r \<and> overflow_only r"
  using TryCompare_correct [OF assms, of a b propagate] by blast

text \<open>
  Claim C20. A comparison result holds of the values of the two expressions in every environment
  the known facts describe, with and without transitive search.
\<close>

theorem TryCompare_sound:
  assumes "ptr_ok H" and "picks_member pick" and "tc_wf st" and "tc_describes st \<rho>"
    and "TryCompare H pick st a b propagate = Some (Inr res)"
    and "eval \<rho> a = Some x" and "eval \<rho> b = Some y"
  shows "cr_holds res x y"
  using TryCompare_correct [OF assms(1-3), of a b propagate] assms(4-7) by auto

section \<open>Adding facts\<close>

text \<open>The parsed fact is in stored form, and true whenever the comparison is.\<close>

lemma compare_kind_holds:
  "compare_kind k = Some r \<Longrightarrow> bin_val k x y = Some 1 \<longleftrightarrow> cr_holds r x y"
  by (cases k) (auto simp: compare_kind_def)

lemma compare_kind_wf: "compare_kind k = Some r \<Longrightarrow> r \<notin> {kInconsistent, kUnknown}"
  by (cases k) (auto simp: compare_kind_def)

lemma FromExpr_sound:
  assumes "ptr_ok H" and "FromExpr H e ks = Inr (c, ks')"
  shows "\<exists>xs. ks' = ks @ xs"
    and "c = Some f \<Longrightarrow> wf_key_fact ks' f \<and> (\<forall>\<rho>. eval \<rho> e = Some 1 \<longrightarrow> fact_true \<rho> ks' f)"
proof -
  have "(\<exists>xs. ks' = ks @ xs) \<and>
    (\<forall>f. c = Some f \<longrightarrow> wf_key_fact ks' f \<and> (\<forall>\<rho>. eval \<rho> e = Some 1 \<longrightarrow> fact_true \<rho> ks' f))"
  proof (cases c)
    case None
    then show ?thesis using assms(2) by (auto simp: FromExpr_def Let_def case_prod_beta split: expr.splits option.splits if_splits)
  next
    case (Some f)
    obtain k a b d r where e: "e = Binary k a b d" and k: "compare_kind k = Some r"
      using assms(2) Some by (auto simp: FromExpr_def split: expr.splits option.splits)
    obtain l r' off where p: "ExtractOffsets a b = Inr (l, r', off)"
      and f: "mk_cmp (fst (ExprToKey H l ks)) (fst (ExprToKey H r' (snd (ExprToKey H l ks)))) off r = Inr f"
      and ks': "snd (ExprToKey H r' (snd (ExprToKey H l ks))) = ks'"
      using assms(2) Some e k by (auto simp: FromExpr_def Let_def case_prod_beta split: if_splits)
    define lk ks1 rk where keys: "lk = fst (ExprToKey H l ks)" "ks1 = snd (ExprToKey H l ks)"
      "rk = fst (ExprToKey H r' ks1)"
    have lk: "ExprToKey H l ks = (lk, ks1)" and rk: "ExprToKey H r' ks1 = (rk, ks')"
      using ks' by (auto simp: keys prod_eq_iff)
    note f = f [folded keys]
    note k1 = ExprToKey_cases [OF assms(1) lk] and k2 = ExprToKey_cases [OF assms(1) rk]
    have key: "lk < length ks'" "ks' ! lk = l" "rk < length ks'" "ks' ! rk = r'" "\<exists>xs. ks' = ks @ xs"
      using k1 k2 by (auto simp: nth_append)
    have off: "is_i64 off" using p by (auto simp: ExtractOffsets_def split: prod.splits)
    have wf: "wf_key_fact ks' f"
      using mk_cmpE(1,2) [OF f] mk_cmpE(4) [OF f off] compare_kind_wf [OF k] key by (simp add: wf_key_fact_def)
    have "fact_true \<rho> ks' f" if v: "eval \<rho> e = Some 1" for \<rho>
    proof -
      obtain x y where x: "eval \<rho> a = Some x" and y: "eval \<rho> b = Some y" and b: "bin_val k x y = Some 1"
        using v unfolding e by (rule eval_BinaryE)
      obtain u w where uw: "key_val \<rho> l = Some u" "key_val \<rho> r' = Some w" "x - y = u - (w + off)"
        using ExtractOffsets_val(1) [OF p x y] by blast
      have "cr_holds r u (w + off)" using b compare_kind_holds [OF k] cr_holds_diff [OF uw(3)] by simp
      then show ?thesis
        using mk_cmpE(1,2) [OF f] mk_cmpE(3) [OF f, of "valuation \<rho> ks'"] uw key
        by (simp add: fact_true_def valuation_def)
    qed
    then show ?thesis using wf key(5) Some by simp
  qed
  then show "\<exists>xs. ks' = ks @ xs"
    and "c = Some f \<Longrightarrow> wf_key_fact ks' f \<and> (\<forall>\<rho>. eval \<rho> e = Some 1 \<longrightarrow> fact_true \<rho> ks' f)"
    by simp_all
qed

lemma add_known_loop_sound:
  assumes "ptr_ok H" and "add_known_loop H es ks vec = Inr (ks', vec')"
  shows "\<exists>xs ys. ks' = ks @ xs \<and> vec' = vec @ ys \<and> (\<forall>c\<in>set ys. wf_key_fact ks' c) \<and>
    (\<forall>\<rho>. (\<forall>e\<in>set es. eval \<rho> e = Some 1) \<longrightarrow> (\<forall>c\<in>set ys. fact_true \<rho> ks' c))"
  using assms(2)
proof (induction es arbitrary: ks vec)
  case (Cons e es)
  obtain c ks1 where c: "FromExpr H e ks = Inr (c, ks1)"
    and rest: "add_known_loop H es ks1 (case c of Some x \<Rightarrow> vec @ [x] | None \<Rightarrow> vec) = Inr (ks', vec')"
    using Cons.prems by auto
  obtain x0 where ks1: "ks1 = ks @ x0" using FromExpr_sound(1) [OF assms(1) c] by blast
  obtain xs ys where xs: "ks' = ks1 @ xs" and ys: "vec' = (case c of Some x \<Rightarrow> vec @ [x] | None \<Rightarrow> vec) @ ys"
    and wf: "\<forall>c\<in>set ys. wf_key_fact ks' c"
    and tr: "\<forall>\<rho>. (\<forall>e\<in>set es. eval \<rho> e = Some 1) \<longrightarrow> (\<forall>c\<in>set ys. fact_true \<rho> ks' c)"
    using Cons.IH [OF rest] by blast
  show ?case
  proof (cases c)
    case None
    with xs ys wf tr ks1 show ?thesis by auto
  next
    case (Some f)
    have f: "wf_key_fact ks1 f" "\<And>\<rho>. eval \<rho> e = Some 1 \<Longrightarrow> fact_true \<rho> ks1 f"
      using FromExpr_sound(2) [OF assms(1) c Some] by blast+
    then have "wf_key_fact ks' f" "\<And>\<rho>. eval \<rho> e = Some 1 \<Longrightarrow> fact_true \<rho> ks' f"
      by (simp_all add: xs wf_key_fact_append fact_true_append)
    with xs ys wf tr ks1 Some show ?thesis by (intro exI [of _ "x0 @ xs"] exI [of _ "f # ys"]) auto
  qed
qed simp

lemma AddKnown_sound:
  assumes "ptr_ok H" and "AddKnown H e ks vec = Inr (ks', vec')"
  obtains xs ys where "ks' = ks @ xs" "vec' = vec @ ys" "\<forall>c\<in>set ys. wf_key_fact ks' c"
    "\<And>\<rho>. eval \<rho> e = Some 1 \<Longrightarrow> \<forall>c\<in>set ys. fact_true \<rho> ks' c"
proof -
  have "\<forall>x\<in>set (ExtractConstraints e). eval \<rho> x = Some 1" if "eval \<rho> e = Some 1" for \<rho>
    unfolding ExtractConstraints_def using that by (intro extract_loop_true) auto
  moreover obtain xs ys where "ks' = ks @ xs" "vec' = vec @ ys" "\<forall>c\<in>set ys. wf_key_fact ks' c"
    "\<forall>\<rho>. (\<forall>x\<in>set (ExtractConstraints e). eval \<rho> x = Some 1) \<longrightarrow> (\<forall>c\<in>set ys. fact_true \<rho> ks' c)"
    using add_known_loop_sound [OF assms(1) assms(2) [unfolded AddKnown_def]] by blast
  ultimately show ?thesis by (intro that) auto
qed

text \<open>
  Growing the state: new keys at the end, the old facts kept, the new ones in stored form. Every
  operation that adds facts grows the state.
\<close>

definition tc_grows :: "'f tc_state \<Rightarrow> 'f tc_state \<Rightarrow> env set \<Rightarrow> bool" where
  "tc_grows st st' E \<longleftrightarrow> (\<exists>xs. key_exprs st' = key_exprs st @ xs) \<and>
     (\<forall>c\<in>set (tc_facts st'). c \<in> set (tc_facts st) \<or>
        wf_key_fact (key_exprs st') c \<and> (\<forall>\<rho>\<in>E. fact_true \<rho> (key_exprs st') c))"

lemma tc_grows_wf: "tc_grows st st' E \<Longrightarrow> tc_wf st \<Longrightarrow> tc_wf st'"
  unfolding tc_grows_def tc_wf_def by (metis wf_key_fact_append)

lemma tc_grows_describes:
  "tc_grows st st' E \<Longrightarrow> tc_wf st \<Longrightarrow> tc_describes st \<rho> \<Longrightarrow> \<rho> \<in> E \<Longrightarrow> tc_describes st' \<rho>"
  unfolding tc_grows_def tc_wf_def tc_describes_def by (metis fact_true_append)

lemma tc_grows_trans:
  assumes "tc_grows st st1 E" and "tc_grows st1 st2 E"
  shows "tc_grows st st2 E"
proof -
  obtain xs ys where k: "key_exprs st1 = key_exprs st @ xs" "key_exprs st2 = key_exprs st1 @ ys"
    using assms by (auto simp: tc_grows_def)
  show ?thesis unfolding tc_grows_def
  proof (intro conjI ballI)
    show "\<exists>zs. key_exprs st2 = key_exprs st @ zs" using k by simp
  next
    fix c
    assume "c \<in> set (tc_facts st2)"
    then show "c \<in> set (tc_facts st) \<or>
        wf_key_fact (key_exprs st2) c \<and> (\<forall>\<rho>\<in>E. fact_true \<rho> (key_exprs st2) c)"
      using assms k wf_key_fact_append fact_true_append unfolding tc_grows_def by metis
  qed
qed

lemma tc_add_known_grows:
  assumes "ptr_ok H" and "tc_add_known H e st = Inr st'"
  shows "tc_grows st st' {\<rho>. eval \<rho> e = Some 1}"
proof -
  obtain ks vec where a: "AddKnown H e (key_exprs st) (knowns st) = Inr (ks, vec)"
    and st': "st' = st\<lparr>key_exprs := ks, knowns := vec\<rparr>"
    using assms(2) by (auto simp: tc_add_known_def)
  show ?thesis
    by (rule AddKnown_sound [OF assms(1) a]) (auto simp: tc_grows_def tc_facts_def st')
qed

lemma tc_enter_grows:
  assumes "ptr_ok H" and "tc_enter_constraint H st c = Inr (st', sizes)"
  shows "tc_grows st st' {\<rho>. eval \<rho> c = Some 1}"
proof -
  obtain ks vec where a: "AddKnown H c (key_exprs st) (scoped_knowns st) = Inr (ks, vec)"
    and st': "st' = st\<lparr>key_exprs := ks, scoped_knowns := vec\<rparr>"
    using assms(2) by (auto simp: tc_enter_constraint_def)
  show ?thesis
    by (rule AddKnown_sound [OF assms(1) a]) (auto simp: tc_grows_def tc_facts_def st')
qed

section \<open>Bindings\<close>

text \<open>
  Binding a variable to an expression of the same value keeps the facts sound.
\<close>

theorem tc_bind_expr_sound:
  assumes "ptr_ok H" and "tc_wf st" and "tc_describes st \<rho>" and "exact_casts \<rho>"
    and "tc_bind_expr H var e st = Inr st'" and "eval \<rho> var = Some x" and "eval \<rho> e = Some x"
  shows "tc_wf st' \<and> tc_describes st' \<rho>"
proof -
  obtain eq where eq: "MakeBinary KEq var e = Inr eq" and add: "tc_add_known H eq st = Inr st'"
    using assms(5) by (auto simp: tc_bind_expr_def)
  have "eval \<rho> eq = Some 1" using MakeBinary_eval [OF eq assms(4,6,7)] by simp
  with tc_add_known_grows [OF assms(1) add] assms(2,3) show ?thesis
    by (auto intro: tc_grows_wf tc_grows_describes)
qed

lemma tc_add_known_step:
  assumes "ptr_ok H" and "tc_add_known H e st = Inr st'" and "tc_wf st" and "tc_describes st \<rho>"
    and "eval \<rho> e = Some 1"
  shows "tc_wf st' \<and> tc_describes st' \<rho>"
  using tc_add_known_grows [OF assms(1,2)] assms(3-) by (auto intro: tc_grows_wf tc_grows_describes)

text \<open>
  Binding a variable to a half-open range that contains its value keeps the facts sound,
  for the range of one value, where the code records an equality, and for any other.
\<close>

theorem tc_bind_range_sound:
  assumes "ptr_ok H" and "tc_wf st" and "tc_describes st \<rho>" and "exact_casts \<rho>"
    and "tc_bind_range H var lo hi st = Inr st'" and "eval \<rho> var = Some x" and "lo \<le> x" and "x < hi"
  shows "tc_wf st' \<and> tc_describes st' \<rho>"
proof -
  obtain d where d: "GetScalarDtype var = Inr d"
    using assms(5) by (auto simp: tc_bind_range_def)
  have lit: "eval \<rho> (MakeConstInt n d :: 'f expr) = Some n" for n
    using eval_dtype [OF assms(6) d] by (simp add: MakeConstInt_def)
  have made: "eval \<rho> c = bin_val k x n" if "MakeBinary k var (MakeConstInt n d) = Inr c" for k n c
    using MakeBinary_eval [OF that assms(4,6) lit] .
  show ?thesis
  proof (cases "hi - lo = 1")
    case True
    then obtain eq where "MakeBinary KEq var (MakeConstInt lo d) = Inr eq" "tc_add_known H eq st = Inr st'"
      using assms(5) d by (auto simp: tc_bind_range_def)
    with made show ?thesis using True assms tc_add_known_step by fastforce
  next
    case False
    then obtain ge st1 lt where ge: "MakeBinary KGe var (MakeConstInt lo d) = Inr ge" "tc_add_known H ge st = Inr st1"
      and lt: "MakeBinary KLt var (MakeConstInt hi d) = Inr lt" "tc_add_known H lt st1 = Inr st'"
      using assms(5) d by (auto simp: tc_bind_range_def split: if_splits)
    have "tc_wf st1 \<and> tc_describes st1 \<rho>"
      using tc_add_known_step [OF assms(1) ge(2) assms(2,3)] made [OF ge(1)] assms(7) by simp
    then show ?thesis
      using tc_add_known_step [OF assms(1) lt(2)] made [OF lt(1)] assms(8) by auto
  qed
qed

section \<open>Constraint scopes\<close>

lemma tc_enter_sound:
  assumes "ptr_ok H" and "tc_wf st" and "tc_describes st \<rho>"
    and "tc_enter_constraint H st c = Inr (st', sizes)" and "eval \<rho> c = Some 1"
  shows "tc_wf st' \<and> tc_describes st' \<rho>"
  using tc_enter_grows [OF assms(1,4)] assms(2,3,5) by (auto intro: tc_grows_wf tc_grows_describes)

text \<open>
  Claim C22. Entering a constraint that holds, a comparison or a conjunction of any depth, keeps
  the facts true of the environment and in stored form: normalised, with offsets within 64 bits and existing keys.
\<close>

theorem tc_enter_constraint_sound:
  assumes "ptr_ok H" and "tc_wf st" and "tc_describes st \<rho>"
    and "tc_enter_constraint H st c = Inr (st', sizes)" and "eval \<rho> c = Some 1"
  shows "tc_wf st' \<and> tc_describes st' \<rho>"
  using assms by (rule tc_enter_sound)

lemma tc_recover_enter:
  assumes "ptr_ok H" and "tc_enter_constraint H st c = Inr (st', sizes)"
  shows "tc_recover sizes st' = Inr (st\<lparr>key_exprs := key_exprs st'\<rparr>) \<and>
    (\<exists>xs. key_exprs st' = key_exprs st @ xs)"
proof -
  obtain ks vec where a: "AddKnown H c (key_exprs st) (scoped_knowns st) = Inr (ks, vec)"
    and st': "st' = st\<lparr>key_exprs := ks, scoped_knowns := vec\<rparr>" "sizes = (length (scoped_knowns st), length vec)"
    using assms(2) by (auto simp: tc_enter_constraint_def)
  show ?thesis
    by (rule AddKnown_sound [OF assms(1) a]) (auto simp: st' tc_recover_def check_def)
qed

lemma TryCompare_more_keys:
  assumes "key_exprs st' = key_exprs st @ xs" and "tc_facts st' = tc_facts st"
  shows "TryCompare H pick st' a b p = TryCompare H pick st a b p \<or>
    TryCompare H pick st a b p = Some (Inr kUnknown)"
proof (cases "is_int_scalar a \<and> is_int_scalar b \<and> (as_int a = None \<or> as_int b = None)")
  case False
  then show ?thesis by (auto simp: TryCompare_def)
next
  case True
  show ?thesis
    unfolding TryCompare_start [OF True] assms ExprToPreviousKey_def
    by (auto simp: find_key_append split: sum.split option.split)
qed

text \<open>
  The recovery function removes exactly the facts of its scope. The keys numbered inside
  the scope stay, behind the old ones, so every comparison answers as before, or it answered
  \<open>kUnknown\<close> before because one of its expressions had no key.
\<close>

theorem tc_recover_restores:
  assumes "ptr_ok H" and "tc_enter_constraint H st c = Inr (st', sizes)"
  shows "\<exists>st''. tc_recover sizes st' = Inr st'' \<and>
    knowns st'' = knowns st \<and> scoped_knowns st'' = scoped_knowns st \<and>
    (TryCompare H pick st'' a b p = TryCompare H pick st a b p \<or>
     TryCompare H pick st a b p = Some (Inr kUnknown))"
proof -
  obtain xs where r: "tc_recover sizes st' = Inr (st\<lparr>key_exprs := key_exprs st'\<rparr>)"
    and xs: "key_exprs st' = key_exprs st @ xs"
    using tc_recover_enter [OF assms] by blast
  have "TryCompare H pick (st\<lparr>key_exprs := key_exprs st'\<rparr>) a b p = TryCompare H pick st a b p \<or>
      TryCompare H pick st a b p = Some (Inr kUnknown)"
    using xs by (intro TryCompare_more_keys) (simp_all add: tc_facts_def)
  with r show ?thesis by simp
qed

text \<open>
  The query \<open>Analyzer::CanProve\<close> makes: whether the comparison result implies the relation of a
  comparison node. A search that never ends would be undefined behaviour in C++; it does not occur.
\<close>

definition tc_proves :: "'f host \<Rightarrow> (nat list \<Rightarrow> nat) \<Rightarrow> 'f tc_state \<Rightarrow> 'f expr \<Rightarrow> bool res" where
  "tc_proves H pick st e =
     (case e of
        Binary k a b _ \<Rightarrow>
          (case compare_kind k of
             Some r \<Rightarrow>
               (case TryCompare H pick st a b True of
                  Some m \<Rightarrow> res_bind m (\<lambda>x. Inr (ResultImplies x r))
                | None \<Rightarrow> Inl UndefinedBehavior)
           | None \<Rightarrow> Inr False)
      | _ \<Rightarrow> Inr False)"

definition tc_context :: "'f host \<Rightarrow> (nat list \<Rightarrow> nat) \<Rightarrow> 'f tc_state \<Rightarrow> env \<Rightarrow> bool" where
  "tc_context H pick st \<rho> \<longleftrightarrow> ptr_ok H \<and> picks_member pick \<and> tc_wf st \<and> tc_describes st \<rho>"

lemma compare_kind_val: "compare_kind k = Some r \<Longrightarrow> bin_val k x y = Some (of_bool (cr_holds r x y))"
  by (cases k) (auto simp: compare_kind_def)

lemma tc_proves_sound:
  assumes "tc_context H pick st \<rho>" and "tc_proves H pick st e = Inr True" and "eval \<rho> e = Some v"
  shows "v = 1"
proof -
  obtain k a b d r where e: "e = Binary k a b d" and k: "compare_kind k = Some r"
    using assms(2) by (auto simp: tc_proves_def split: expr.splits option.splits)
  obtain x where cmp: "TryCompare H pick st a b True = Some (Inr x)" and imp: "ResultImplies x r"
    using assms(2) e k by (auto simp: tc_proves_def split: option.splits)
  obtain xa xb where val: "eval \<rho> a = Some xa" "eval \<rho> b = Some xb" "bin_val k xa xb = Some v"
    using assms(3) unfolding e by (rule eval_BinaryE)
  have "cr_holds x xa xb"
    using TryCompare_correct [of H pick st a b True] cmp assms(1) val(1,2) by (auto simp: tc_context_def)
  then show ?thesis
    using ResultImplies_holds [OF imp] val(3) by (simp add: compare_kind_val [OF k])
qed

interpretation tc: sound_scopes "tc_proves H pick" "tc_enter_constraint H" "tc_context H pick"
    "\<lambda>_ _. True" "\<lambda>_ _. True" "\<lambda>_ q v. q \<longrightarrow> v = 1" for H :: "'f host" and pick
proof (unfold_locales, goal_cases)
  case (1 st \<rho> e q v)
  then show ?case by (auto intro: tc_proves_sound)
next
  case (2 st \<rho> c st' sizes)
  then show ?case using tc_enter_sound [of H st \<rho> c st' sizes] by (simp add: tc_context_def)
qed

text \<open>
  Inside nested constraint scopes, a comparison the analysis proves is true in every
  environment that satisfies the constraints.
\<close>

theorem tc_nested_scopes_prove:
  fixes e :: "'f expr" and cs :: "'f expr list"
  assumes "tc_context H pick st \<rho>" and "\<forall>c\<in>set cs. eval \<rho> c = Some 1"
    and "enter_all (tc_enter_constraint H) st cs [] = Inr (st', rs)"
    and "tc_proves H pick st' e = Inr True" and "eval \<rho> e = Some v"
  shows "v = 1"
  using tc.scope_query_sound [OF assms(1) _ assms(3) _ assms(4,5)] assms(2) by simp

section \<open>The public operations as a state machine\<close>

text \<open>
  One call of the public interface that changes the state. Recovery functions are called with the
  sizes their scope recorded, so the scoped facts they keep are a prefix of those there are.
\<close>

inductive tc_step :: "'f host \<Rightarrow> 'f tc_state \<Rightarrow> 'f tc_state \<Rightarrow> bool" for H where
  bind_expr: "tc_bind_expr H var e st = Inr st' \<Longrightarrow> tc_step H st st'"
| bind_range: "tc_bind_range H var lo hi st = Inr st' \<Longrightarrow> tc_step H st st'"
| unbind: "tc_step H st (tc_unbind H var st)"
| enter: "tc_enter_constraint H st c = Inr (st', sizes) \<Longrightarrow> tc_step H st st'"
| recover: "tc_recover sizes st = Inr st' \<Longrightarrow> tc_step H st st'"

inductive tc_reachable :: "'f host \<Rightarrow> 'f tc_state \<Rightarrow> bool" for H where
  init: "tc_reachable H \<lparr>key_exprs = [], knowns = [], scoped_knowns = []\<rparr>"
| step: "tc_reachable H st \<Longrightarrow> tc_step H st st' \<Longrightarrow> tc_reachable H st'"

lemma tc_wf_fewer:
  "tc_wf st \<Longrightarrow> key_exprs st' = key_exprs st \<Longrightarrow> set (tc_facts st') \<subseteq> set (tc_facts st) \<Longrightarrow> tc_wf st'"
  by (auto simp: tc_wf_def)

lemma tc_add_known_wf: "ptr_ok H \<Longrightarrow> tc_add_known H e st = Inr st' \<Longrightarrow> tc_wf st \<Longrightarrow> tc_wf st'"
  by (rule tc_grows_wf [OF tc_add_known_grows])

lemma tc_step_wf:
  assumes "tc_step H st st'" and "ptr_ok H" and "tc_wf st"
  shows "tc_wf st'"
  using assms(1,3)
proof induction
  case (bind_expr var e st st')
  then show ?case using tc_add_known_wf [OF assms(2)] by (auto simp: tc_bind_expr_def)
next
  case (bind_range var lo hi st st')
  then show ?case
    using tc_add_known_wf [OF assms(2)] by (auto simp: tc_bind_range_def split: if_splits)
next
  case (unbind st var)
  then show ?case by (auto simp: tc_unbind_def tc_wf_def tc_facts_def split: option.splits)
next
  case (enter st c st' sizes)
  then show ?case using tc_grows_wf [OF tc_enter_grows [OF assms(2)]] by blast
next
  case (recover sizes st st')
  then have "key_exprs st' = key_exprs st" "set (tc_facts st') \<subseteq> set (tc_facts st)"
    by (auto simp: tc_recover_def tc_facts_def split: prod.splits if_splits dest: in_set_takeD)
  then show ?case by (rule tc_wf_fewer [OF recover.prems])
qed

lemma tc_reachable_wf:
  assumes "tc_reachable H st" and "ptr_ok H"
  shows "tc_wf st"
  using assms(1)
proof induction
  case init
  then show ?case by (simp add: tc_wf_def tc_facts_def)
next
  case (step st st')
  then show ?case using tc_step_wf assms(2) by blast
qed

text \<open>
  Claim C23. In every state the public interface can reach, from an empty analyzer by any sequence
  of bindings, unbindings, scopes and recoveries, the stored facts are normalised, their offsets
  fit 64 bits and their keys exist; and every comparison ends there, with a result or the overflow of an
  offset, its only failure.
\<close>

theorem tc_reachable_invariant:
  assumes "ptr_ok H" and "picks_member pick" and "tc_reachable H st"
  shows "tc_wf st \<and> (\<exists>r. TryCompare H pick st a b propagate = Some r \<and> overflow_only r)"
  using tc_reachable_wf [OF assms(3,1)] TryCompare_correct [OF assms(1,2)] by blast

section \<open>Unbinding\<close>

primrec mentions :: "nat \<Rightarrow> 'f expr \<Rightarrow> bool" where
  "mentions i (ConstInt v d) \<longleftrightarrow> False"
| "mentions i (ConstFloat v d) \<longleftrightarrow> False"
| "mentions i (ConstBool b) \<longleftrightarrow> False"
| "mentions i (Var j t) \<longleftrightarrow> i = j"
| "mentions i (IterArg j t) \<longleftrightarrow> i = j"
| "mentions i (Call f j t) \<longleftrightarrow> False"
| "mentions i (Opaque j t) \<longleftrightarrow> False"
| "mentions i (Binary k a b d) \<longleftrightarrow> mentions i a \<or> mentions i b"
| "mentions i (Unary k a d) \<longleftrightarrow> mentions i a"

definition rebind :: "nat \<Rightarrow> int option \<Rightarrow> env \<Rightarrow> env" where
  "rebind i w \<rho> = \<rho>\<lparr>vval := (vval \<rho>)(i := w)\<rparr>"

lemma rebind_simps [simp]:
  "vval (rebind i w \<rho>) = (vval \<rho>)(i := w)" "cval (rebind i w \<rho>) = cval \<rho>"
  "oval (rebind i w \<rho>) = oval \<rho>" "ccast (rebind i w \<rho>) = ccast \<rho>"
  by (simp_all add: rebind_def)

lemma un_val_rebind [simp]: "un_val (rebind i w \<rho>) k d = un_val \<rho> k d"
  by (cases k) (simp_all add: fun_eq_iff)

lemma eval_rebind: "\<not> mentions i e \<Longrightarrow> eval (rebind i w \<rho>) e = eval \<rho> e"
  by (induction e) simp_all

text \<open>
  Unbinding removes every fact recorded for the variable: when no other key mentions the
  variable and no open scope has a fact about it, the remaining facts hold whatever value the
  variable takes next.
\<close>

theorem tc_unbind_sound:
  assumes "ptr_ok H" and "tc_wf st" and "tc_describes st \<rho>"
    and "ExprToPreviousKey H (key_exprs st) (Some (Var i t)) = Some k"
    and "\<forall>j < length (key_exprs st). j = k \<or> (\<forall>e. key_exprs st ! j = Some e \<longrightarrow> \<not> mentions i e)"
    and "\<forall>c\<in>set (scoped_knowns st). c_lhs c \<noteq> k \<and> c_rhs c \<noteq> k"
  shows "tc_describes (tc_unbind H (Var i t) st) (rebind i w \<rho>)"
proof -
  let ?ks = "key_exprs st"
  have same: "key_val (rebind i w \<rho>) (?ks ! j) = key_val \<rho> (?ks ! j)" if "j < length ?ks" "j \<noteq> k" for j
    using assms(5) that eval_rebind [of i _ w \<rho>] by (auto simp: key_val_def split: option.splits)
  have "fact_true (rebind i w \<rho>) ?ks c" if c: "c \<in> set (tc_facts st)" "c_lhs c \<noteq> k" "c_rhs c \<noteq> k" for c
  proof -
    have "wf_key_fact ?ks c" "fact_true \<rho> ?ks c"
      using assms(2,3) c(1) by (simp_all add: tc_wf_def tc_describes_def)
    then show ?thesis using same c(2,3)
      by (simp add: fact_true_def wf_key_fact_def fact_holds_def valuation_def)
  qed
  then show ?thesis
    using assms(4,6) by (auto simp: tc_unbind_def tc_describes_def tc_facts_def)
qed

section \<open>The theorems at work\<close>

definition empty_tc :: "int tc_state" where
  "empty_tc = \<lparr>key_exprs = [], knowns = [], scoped_knowns = []\<rparr>"

text \<open>\<open>x\<close> bound to \<open>[0, 8)\<close>, in a scope that knows \<open>x + 2 <= n && n <= m\<close>.\<close>

definition bound_tc :: "int tc_state" where
  "bound_tc = \<lparr>key_exprs = [Some (ivar 0), None],
     knowns = [\<lparr>c_lhs = 0, c_rhs = 1, c_offset = 0, c_result = kGE\<rparr>,
       \<lparr>c_lhs = 0, c_rhs = 1, c_offset = 7, c_result = kLE\<rparr>], scoped_knowns = []\<rparr>"

lemma bound_tc_bind: "tc_bind_range int_host (ivar 0) 0 8 empty_tc = Inr bound_tc"
  by code_simp

definition order_guard :: "int expr" where
  "order_guard = ibin KAnd (ibin KLe (ibin KAdd (ivar 0) (ilit 2)) (ivar 1)) (ibin KLe (ivar 1) (ivar 2))"

definition order_tc :: "int tc_state" where
  "order_tc = \<lparr>key_exprs = [Some (ivar 0), None, Some (ivar 1), Some (ivar 2)],
     knowns = knowns bound_tc,
     scoped_knowns = [\<lparr>c_lhs = 0, c_rhs = 2, c_offset = -2, c_result = kLE\<rparr>,
       \<lparr>c_lhs = 2, c_rhs = 3, c_offset = 0, c_result = kLE\<rparr>]\<rparr>"

lemma order_tc_enter: "tc_enter_constraint int_host bound_tc order_guard = Inr (order_tc, (0, 2))"
  by code_simp

lemma order_compare: "TryCompare int_host hd order_tc (ivar 0) (ivar 2) True = Some (Inr kLT)"
  by code_simp

definition order_env :: env where
  "order_env = env_of [0 \<mapsto> 3, 1 \<mapsto> 10, 2 \<mapsto> 12] cast_id"

lemma order_env_exact: "exact_casts order_env"
  by (simp add: exact_casts_def order_env_def)

lemma picks_hd: "picks_member hd"
  unfolding picks_member_def using hd_in_set by blast

lemmas tc_state_defs = tc_wf_def tc_describes_def tc_facts_def wf_key_fact_def wf_fact_def
  fact_true_def fact_holds_def valuation_def empty_tc_def bound_tc_def order_tc_def order_env_def

lemma order_states:
  "tc_wf empty_tc" "tc_describes empty_tc order_env" "tc_wf bound_tc" "tc_describes bound_tc order_env"
  "tc_wf order_tc" "tc_describes order_tc order_env"
  by (simp_all add: tc_state_defs int_instance_defs is_i64_alt)

lemma TryCompare_returns_witness: "\<exists>r. TryCompare int_host hd order_tc (ivar 0) (ivar 2) True = Some r"
  using TryCompare_returns [OF int_host_ok picks_hd order_states(5)] by blast

lemma TryCompare_sound_witness:
  "TryCompare int_host hd order_tc (ivar 0) (ivar 2) True = Some (Inr kLT) \<and> cr_holds kLT 3 12"
  using TryCompare_sound [OF int_host_ok picks_hd order_states(5,6) order_compare] order_compare
  by (simp add: order_env_def int_instance_defs)

lemma tc_bind_range_sound_witness: "tc_wf bound_tc \<and> tc_describes bound_tc order_env"
  by (rule tc_bind_range_sound [OF int_host_ok order_states(1,2) order_env_exact bound_tc_bind, of 3])
     (simp_all add: order_env_def int_instance_defs)

text \<open>The binding \<open>k = x + 4\<close> adds the fact between the keys of \<open>k\<close> and \<open>x\<close>.\<close>

definition alias_tc :: "int tc_state" where
  "alias_tc = bound_tc\<lparr>key_exprs := key_exprs bound_tc @ [Some (ivar 3)],
     knowns := knowns bound_tc @ [\<lparr>c_lhs = 2, c_rhs = 0, c_offset = 4, c_result = kEQ\<rparr>]\<rparr>"

lemma alias_tc_bind: "tc_bind_expr int_host (ivar 3) (ibin KAdd (ivar 0) (ilit 4)) bound_tc = Inr alias_tc"
  by code_simp

definition alias_env :: env where
  "alias_env = env_of [0 \<mapsto> 3, 3 \<mapsto> 7] cast_id"

lemma alias_env_ok: "exact_casts alias_env" "tc_describes bound_tc alias_env"
  by (simp_all add: exact_casts_def alias_env_def tc_state_defs int_instance_defs)

lemma tc_bind_expr_sound_witness: "tc_wf alias_tc \<and> tc_describes alias_tc alias_env"
  by (rule tc_bind_expr_sound [OF int_host_ok order_states(3) alias_env_ok(2,1) alias_tc_bind, of 7])
     (simp_all add: alias_env_def int_instance_defs)

lemma order_guard_holds: "eval order_env order_guard = Some 1"
  by (simp add: order_guard_def order_env_def int_instance_defs is_truth_def)

lemma tc_enter_constraint_sound_witness: "tc_wf order_tc \<and> tc_describes order_tc order_env"
  by (rule tc_enter_constraint_sound [OF int_host_ok order_states(3,4) order_tc_enter order_guard_holds])

lemma tc_recover_restores_witness:
  "\<exists>st. tc_recover (0, 2) order_tc = Inr st \<and> scoped_knowns st = [] \<and> knowns st = knowns bound_tc"
proof -
  obtain st where "tc_recover (0, 2) order_tc = Inr st" "knowns st = knowns bound_tc"
    "scoped_knowns st = scoped_knowns bound_tc"
    using tc_recover_restores [OF int_host_ok order_tc_enter, of hd "ivar 0" "ivar 0" True] by blast
  then show ?thesis by (simp add: bound_tc_def)
qed

lemma tc_nested_scopes_prove_witness:
  "tc_proves int_host hd order_tc (ibin KLt (ivar 0) (ivar 2)) = Inr True \<and>
   eval order_env (ibin KLt (ivar 0) (ivar 2)) = Some 1"
proof -
  have c: "tc_context int_host hd bound_tc order_env"
    by (simp add: tc_context_def picks_hd order_states)
  have n: "enter_all (tc_enter_constraint int_host) bound_tc [order_guard] [] = Inr (order_tc, [(0, 2)])"
    by (simp add: order_tc_enter)
  have p: "tc_proves int_host hd order_tc (ibin KLt (ivar 0) (ivar 2)) = Inr True"
    by code_simp
  have e: "eval order_env (ibin KLt (ivar 0) (ivar 2)) = Some (of_bool (3 < (12::int)))"
    by (simp add: order_env_def int_instance_defs)
  have "of_bool (3 < (12::int)) = (1::int)"
    by (rule tc_nested_scopes_prove [OF c _ n p e]) (simp add: order_guard_holds)
  with p e show ?thesis by simp
qed

lemma tc_reachable_invariant_witness:
  "tc_wf order_tc \<and> (\<exists>r. TryCompare int_host hd order_tc (ivar 0) (ivar 2) True = Some r \<and> overflow_only r)"
proof (rule tc_reachable_invariant [OF int_host_ok picks_hd])
  have "tc_reachable int_host empty_tc" unfolding empty_tc_def by (rule tc_reachable.init)
  then have "tc_reachable int_host bound_tc" by (rule tc_reachable.step [OF _ bind_range [OF bound_tc_bind]])
  then show "tc_reachable int_host order_tc" by (rule tc_reachable.step [OF _ enter [OF order_tc_enter]])
qed

text \<open>After unbinding \<open>k\<close> it may take the value 100.\<close>

lemma tc_unbind_sound_witness:
  "tc_describes (tc_unbind int_host (ivar 3) alias_tc) (rebind 3 (Some 100) alias_env)"
proof -
  have d: "tc_describes alias_tc alias_env" "tc_wf alias_tc"
    by (simp_all add: alias_tc_def alias_env_def tc_state_defs int_instance_defs is_i64_alt)
  have k: "ExprToPreviousKey int_host (key_exprs alias_tc) (Some (Var 3 (Some INDEX))) = Some 2"
    by (simp add: ExprToPreviousKey_def alias_tc_def bound_tc_def int_instance_defs same_key_def)
  have m: "\<forall>j < length (key_exprs alias_tc). j = 2 \<or>
      (\<forall>e. key_exprs alias_tc ! j = Some e \<longrightarrow> \<not> mentions 3 e)"
    by (auto simp: alias_tc_def bound_tc_def int_instance_defs less_Suc_eq)
  show ?thesis
    using tc_unbind_sound [OF int_host_ok d(2,1) k m, of "Some 100"]
    by (simp add: alias_tc_def bound_tc_def ivar_def)
qed

text \<open>
  The hypothesis on the other keys is needed. With \<open>y\<close> bound to \<open>x * 2\<close>, unbinding \<open>x\<close> keeps the
  fact between the keys of \<open>y\<close> and of \<open>x * 2\<close>: it is still used when \<open>x\<close> has another value.
\<close>

definition twice :: "int expr" where
  "twice = ibin KMul (ivar 0) (ilit 2)"

lemma unbind_keeps_compound_keys:
  "\<exists>st. tc_bind_expr int_host (ivar 1) twice empty_tc = Inr st \<and>
     TryCompare int_host hd (tc_unbind int_host (ivar 0) st) (ivar 1) twice True = Some (Inr kEQ)"
proof -
  have "tc_bind_expr int_host (ivar 1) twice empty_tc =
      Inr \<lparr>key_exprs = [Some (ivar 1), Some twice],
        knowns = [\<lparr>c_lhs = 0, c_rhs = 1, c_offset = 0, c_result = kEQ\<rparr>], scoped_knowns = []\<rparr>"
    by code_simp
  moreover have "TryCompare int_host hd (tc_unbind int_host (ivar 0)
      \<lparr>key_exprs = [Some (ivar 1), Some twice],
        knowns = [\<lparr>c_lhs = 0, c_rhs = 1, c_offset = 0, c_result = kEQ\<rparr>], scoped_knowns = []\<rparr>)
      (ivar 1) twice True = Some (Inr kEQ)"
    by code_simp
  ultimately show ?thesis by blast
qed

section \<open>Contradictory facts\<close>

text \<open>Running the loop for a number of iterations.\<close>

primrec dfs_run ::
  "(nat list \<Rightarrow> nat) \<Rightarrow> Comparison list \<Rightarrow> nat \<Rightarrow> nat \<Rightarrow> nat \<Rightarrow> Search \<Rightarrow> Search res" where
  "dfs_run pick facts lk rk 0 st = Inr st"
| "dfs_run pick facts lk rk (Suc n) st =
     res_bind (dfs_run pick facts lk rk n st) (\<lambda>st'.
       if to_visit st' = [] then Inr st' else dfs_step pick facts lk rk st')"

definition le_fact :: "nat \<Rightarrow> nat \<Rightarrow> int \<Rightarrow> Comparison" where
  "le_fact l r off = \<lparr>c_lhs = l, c_rhs = r, c_offset = off, c_result = kLE\<rparr>"

text \<open>\<open>x <= y\<close>, \<open>y <= z - 1\<close> and \<open>z <= y - 1\<close>, as entering their conjunction records them.\<close>

definition contradiction :: "int expr" where
  "contradiction = ibin KAnd (ibin KLe (ivar 0) (ivar 1))
     (ibin KAnd (ibin KLt (ivar 1) (ivar 2)) (ibin KLt (ivar 2) (ivar 1)))"

definition contra_facts :: "Comparison list" where
  "contra_facts = [le_fact 0 1 0, le_fact 1 2 (-1), le_fact 2 1 (-1)]"

definition contra_tc :: "int tc_state" where
  "contra_tc = \<lparr>key_exprs = [Some (ivar 0), Some (ivar 1), Some (ivar 2)], knowns = [],
     scoped_knowns = contra_facts\<rparr>"

lemma contra_enter: "tc_enter_constraint int_host empty_tc contradiction = Inr (contra_tc, (0, 3))"
  by code_simp

definition contra_search :: "nat \<Rightarrow> Search" where
  "contra_search n = \<lparr>to_visit = [1], compared_to_lhs =
     (\<lambda>_. [])(1 := [le_fact 0 1 (- (2 * int n))], 2 := (if n = 0 then [] else [le_fact 0 2 (1 - 2 * int n)]))\<rparr>"

lemma le_fact_simps [simp]:
  "c_lhs (le_fact l r off) = l" "c_rhs (le_fact l r off) = r" "c_offset (le_fact l r off) = off"
  "c_result (le_fact l r off) = kLE" "IsNormalized (le_fact l r off)"
  by (simp_all add: le_fact_def IsNormalized_def)

lemma contra_seed: "dfs_seed contra_facts 0 3 = Inr (contra_search 0)"
  by (simp add: dfs_seed_def contra_facts_def contra_search_def WithLHS_def declare_known_def Let_def fun_eq_iff)

definition contra_middle :: "nat \<Rightarrow> Search" where
  "contra_middle n = \<lparr>to_visit = [2], compared_to_lhs =
     (\<lambda>_. [])(1 := [le_fact 0 1 (- (2 * int n))], 2 := [le_fact 0 2 (- 1 - 2 * int n)])\<rparr>"

lemmas attempt_simps = contra_facts_def attempt_transitive_def WithLHS_def check_def IsNormalized_def
  is_i64_alt chain_result_def mk_cmp_def le_fact_def

lemma contra_attempt:
  assumes "n < 2 ^ 62"
  shows "attempt_all 0 (Suc 0) [le_fact 0 (Suc 0) (- (2 * int n))] contra_facts =
      Inr [le_fact 0 2 (- 1 - 2 * int n)]"
    and "attempt_all 0 2 [le_fact 0 2 (- 1 - 2 * int n)] contra_facts =
      Inr [le_fact 0 (Suc 0) (- (2 * int (Suc n)))]"
  using assms by (simp_all add: attempt_simps)

lemmas declare_simps = declare_known_def Let_def Implies_def implies_core_def check_def

lemma contra_steps:
  assumes "n < 2 ^ 62"
  shows "dfs_step hd contra_facts 0 3 (contra_search n) = Inr (contra_middle n)"
    and "dfs_step hd contra_facts 0 3 (contra_middle n) = Inr (contra_search (Suc n))"
  using contra_attempt [OF assms]
  by (auto simp: dfs_step_def contra_search_def contra_middle_def declare_simps fun_eq_iff)

lemma contra_last_step: "dfs_step hd contra_facts 0 3 (contra_search (2 ^ 62)) = Inl UndefinedBehavior"
  by (simp add: dfs_step_def contra_search_def attempt_simps i64_def)

lemma contra_visit [simp]: "to_visit (contra_search n) \<noteq> []" "to_visit (contra_middle n) \<noteq> []"
  by (simp_all add: contra_search_def contra_middle_def)

lemma contra_run: "n \<le> 2 ^ 62 \<Longrightarrow> dfs_run hd contra_facts 0 3 (2 * n) (contra_search 0) = Inr (contra_search n)"
proof (induction n)
  case (Suc n)
  have "dfs_run hd contra_facts 0 3 (2 * n) (contra_search 0) = Inr (contra_search n)"
    using Suc by simp
  then show ?case using contra_steps [of n] Suc.prems by simp
qed simp

lemma contra_loop: "n \<le> 2 ^ 62 \<Longrightarrow> dfs_loop hd contra_facts 0 3 (contra_search n) = Some (Inl UndefinedBehavior)"
proof (induction rule: inc_induct)
  case base
  show ?case by (subst dfs_loop.simps, subst contra_last_step) simp
next
  case (step n)
  have "dfs_loop hd contra_facts 0 3 (contra_search n) = dfs_loop hd contra_facts 0 3 (contra_middle n)"
    using step(2) by (subst dfs_loop.simps) (simp add: contra_steps)
  also have "\<dots> = dfs_loop hd contra_facts 0 3 (contra_search (Suc n))"
    using step(2) by (subst dfs_loop.simps) (simp add: contra_steps)
  finally show ?case using step.IH by simp
qed

text \<open>
  Contradictory constraints, which describe no environment, make the search practically
  endless. After entering \<open>x <= y && y < z && z < y\<close>, as in unreachable code, a search from \<open>x\<close>
  to a key that these constraints do not mention still has a key to visit after 2 to the 63 iterations, each of
  which improved an offset by one; then an offset overflows. An inner scope \<open>w <= u\<close> leaves such keys behind.
\<close>

definition left_behind :: "int tc_state" where
  "left_behind = contra_tc\<lparr>key_exprs := key_exprs contra_tc @ [Some (ivar 3), Some (ivar 4)]\<rparr>"

lemma left_behind_reached:
  "\<exists>inner sizes. tc_enter_constraint int_host contra_tc (ibin KLe (ivar 3) (ivar 4)) = Inr (inner, sizes) \<and>
     tc_recover sizes inner = Inr left_behind"
  by (intro exI conjI) code_simp+

lemma contradiction_search_diverges:
  "(\<exists>st. dfs_run hd (tc_facts left_behind) 0 3 (2 ^ 63) (contra_search 0) = Inr st \<and> to_visit st \<noteq> []) \<and>
   TryCompare int_host hd left_behind (ivar 0) (ivar 3) True = Some (Inl UndefinedBehavior)"
proof -
  have f: "tc_facts left_behind = contra_facts" by (simp add: tc_facts_def left_behind_def contra_tc_def)
  have "(2::nat) ^ 63 = 2 * 2 ^ 62" by simp
  then have "dfs_run hd contra_facts 0 3 (2 ^ 63) (contra_search 0) = Inr (contra_search (2 ^ 62))"
    using contra_run [OF order_refl] by (simp only:)
  moreover have "DFSFromLHS hd contra_facts 0 3 = Some (Inl UndefinedBehavior)"
    using contra_loop [of 0] by (simp add: DFSFromLHS_def contra_seed)
  moreover from this have "CollectIndirectComparisons hd contra_facts 0 3 = Some (Inl UndefinedBehavior)"
    by (simp add: CollectIndirectComparisons_def)
  moreover have "ExtractOffsets (ivar 0) (ivar 3) = Inr (Some (ivar 0), Some (ivar 3), 0)"
    "ExprToPreviousKey int_host (key_exprs left_behind) (Some (ivar 0)) = Some 0"
    "ExprToPreviousKey int_host (key_exprs left_behind) (Some (ivar 3)) = Some 3"
    "is_int_scalar (ivar 0 :: int expr) \<and> is_int_scalar (ivar 3 :: int expr) \<and> as_int (ivar 0 :: int expr) = None"
    "\<not> same_ptr int_host (ivar 0) (ivar 3)"
    by code_simp+
  ultimately show ?thesis
    unfolding f TryCompare_def Let_def by (simp add: f [unfolded tc_facts_def])
qed

end
