(* ===== verification/Int_Set.thy ===== *)
theory Int_Set
  imports Const_Fold Scoped_Analysis
begin

text \<open>
  \<open>IntSetAnalyzer\<close> of \<^verbatim>\<open>src/ir/arith/int_set.cpp\<close>: intervals whose bounds are expressions, \<open>None\<close>
  standing for the null pointer (unbounded). The analysis asks its parent \<open>Analyzer\<close>, if it has
  one, to simplify bounds and to prove comparisons between them: the record \<open>parent\<close>, whose
  contract is the locale \<open>parent_analyzer\<close>. The parent shares the variable map, so entering a
  constraint passes the current map to it. The analysis is sound for conversions that wrap: their
  guards see to it that the interval of an operand is used only where the conversion keeps it.
\<close>

section \<open>Intervals\<close>

record 'f IntSet =
  set_min :: "'f expr option"
  set_max :: "'f expr option"

definition Interval :: "'f expr option \<Rightarrow> 'f expr option \<Rightarrow> 'f IntSet" where
  "Interval lo hi = \<lparr>set_min = lo, set_max = hi\<rparr>"

lemma Interval_simps [simp]:
  "set_min (Interval lo hi) = lo" "set_max (Interval lo hi) = hi"
  "Interval a b = Interval c d \<longleftrightarrow> a = c \<and> b = d"
  by (simp_all add: Interval_def)

definition set_is_everything :: "'f IntSet \<Rightarrow> bool" where
  "set_is_everything s \<longleftrightarrow> set_min s = None \<and> set_max s = None"

definition is_single_point :: "'f host \<Rightarrow> 'f IntSet \<Rightarrow> bool" where
  "is_single_point H s =
     (case (set_min s, set_max s) of (Some a, Some b) \<Rightarrow> same_ptr H a b | _ \<Rightarrow> False)"

definition EverySet :: "'f IntSet" where
  "EverySet = Interval None None"

definition SinglePoint :: "'f expr \<Rightarrow> 'f IntSet" where
  "SinglePoint e = Interval (Some e) (Some e)"

section \<open>The parent analyzer\<close>

record 'f parent =
  p_simplify :: "'f expr \<Rightarrow> 'f expr res"
  p_can_prove :: "'f expr \<Rightarrow> bool res"
  p_prove_ge :: "'f expr \<Rightarrow> int \<Rightarrow> bool res"
  p_prove_lt :: "'f expr \<Rightarrow> int \<Rightarrow> bool res"

definition MaybeSimplify :: "'f parent option \<Rightarrow> 'f expr \<Rightarrow> 'f expr res" where
  "MaybeSimplify P e = (case P of Some p \<Rightarrow> p_simplify p e | None \<Rightarrow> Inr e)"

definition IsNonNeg :: "'f parent option \<Rightarrow> 'f expr option \<Rightarrow> bool res" where
  "IsNonNeg P o' =
     (case o' of
        None \<Rightarrow> Inr False
      | Some e \<Rightarrow>
          (case as_int e of
             Some (v, _) \<Rightarrow> Inr (v \<ge> 0)
           | None \<Rightarrow> (case P of Some p \<Rightarrow> p_prove_ge p e 0 | None \<Rightarrow> Inr False)))"

definition IsNeg :: "'f parent option \<Rightarrow> 'f expr option \<Rightarrow> bool res" where
  "IsNeg P o' =
     (case o' of
        None \<Rightarrow> Inr False
      | Some e \<Rightarrow>
          (case as_int e of
             Some (v, _) \<Rightarrow> Inr (v < 0)
           | None \<Rightarrow> (case P of Some p \<Rightarrow> p_prove_lt p e 0 | None \<Rightarrow> Inr False)))"

section \<open>Symbolic arithmetic\<close>

text \<open>Building an operation on two bounds and simplifying it; unbounded operands propagate.\<close>

definition sym_make :: "'f parent option \<Rightarrow> binop \<Rightarrow> 'f expr \<Rightarrow> 'f expr \<Rightarrow> 'f expr option res" where
  "sym_make P k a b =
     res_bind (MakeBinary k a b) (\<lambda>e. res_bind (MaybeSimplify P e) (\<lambda>s. Inr (Some s)))"

definition sym_op ::
  "'f parent option \<Rightarrow> binop \<Rightarrow> 'f expr option \<Rightarrow> 'f expr option \<Rightarrow> 'f expr option res" where
  "sym_op P k a b = (case (a, b) of (Some x, Some y) \<Rightarrow> sym_make P k x y | _ \<Rightarrow> Inr None)"

definition SymAdd :: "'f parent option \<Rightarrow> 'f expr option \<Rightarrow> 'f expr option \<Rightarrow> 'f expr option res" where
  "SymAdd P a b = sym_op P KAdd a b"

definition SymSub :: "'f parent option \<Rightarrow> 'f expr option \<Rightarrow> 'f expr option \<Rightarrow> 'f expr option res" where
  "SymSub P a b = sym_op P KSub a b"

definition SymNeg :: "'f parent option \<Rightarrow> 'f expr option \<Rightarrow> 'f expr option res" where
  "SymNeg P a =
     (case a of
        None \<Rightarrow> Inr None
      | Some x \<Rightarrow> res_bind (MakeUnary KNeg x) (\<lambda>e. res_bind (MaybeSimplify P e) (\<lambda>s. Inr (Some s))))"

definition SymMul :: "'f parent option \<Rightarrow> 'f expr option \<Rightarrow> 'f expr option \<Rightarrow> 'f expr option res" where
  "SymMul P a b = sym_op P KMul a b"

definition SymFloorDiv :: "'f parent option \<Rightarrow> 'f expr option \<Rightarrow> 'f expr option \<Rightarrow> 'f expr option res" where
  "SymFloorDiv P a b = sym_op P KFloorDiv a b"

text \<open>
  The minimum or maximum of two bounds: the first operand when the parent proves \<open>a first b\<close>, the
  second when it proves \<open>a second b\<close>, otherwise the operation itself.
\<close>

definition sym_choose ::
  "'f parent option \<Rightarrow> binop \<Rightarrow> binop \<Rightarrow> binop \<Rightarrow> 'f expr \<Rightarrow> 'f expr \<Rightarrow> 'f expr option res" where
  "sym_choose P first second k a b =
     (case P of
        None \<Rightarrow> sym_make P k a b
      | Some p \<Rightarrow>
          res_bind (MakeBinary first a b) (\<lambda>c1.
          res_bind (p_can_prove p c1) (\<lambda>b1.
            if b1 then Inr (Some a)
            else res_bind (MakeBinary second a b) (\<lambda>c2.
              res_bind (p_can_prove p c2) (\<lambda>b2.
                if b2 then Inr (Some b) else sym_make P k a b)))))"

definition SymMinLower :: "'f parent option \<Rightarrow> 'f expr option \<Rightarrow> 'f expr option \<Rightarrow> 'f expr option res" where
  "SymMinLower P a b =
     (case (a, b) of (Some x, Some y) \<Rightarrow> sym_choose P KLe KGe KMin x y | _ \<Rightarrow> Inr None)"

definition SymMinUpper :: "'f parent option \<Rightarrow> 'f expr option \<Rightarrow> 'f expr option \<Rightarrow> 'f expr option res" where
  "SymMinUpper P a b =
     (case a of None \<Rightarrow> Inr b
      | Some x \<Rightarrow> (case b of None \<Rightarrow> Inr a | Some y \<Rightarrow> sym_choose P KLe KGe KMin x y))"

definition SymMaxLower :: "'f parent option \<Rightarrow> 'f expr option \<Rightarrow> 'f expr option \<Rightarrow> 'f expr option res" where
  "SymMaxLower P a b =
     (case a of None \<Rightarrow> Inr b
      | Some x \<Rightarrow> (case b of None \<Rightarrow> Inr a | Some y \<Rightarrow> sym_choose P KGe KLe KMax x y))"

definition SymMaxUpper :: "'f parent option \<Rightarrow> 'f expr option \<Rightarrow> 'f expr option \<Rightarrow> 'f expr option res" where
  "SymMaxUpper P a b =
     (case (a, b) of (Some x, Some y) \<Rightarrow> sym_choose P KGe KLe KMax x y | _ \<Rightarrow> Inr None)"

section \<open>Combining intervals\<close>

definition bound_preserves :: "bool \<Rightarrow> DataType \<Rightarrow> DataType \<Rightarrow> 'f expr option \<Rightarrow> bool" where
  "bound_preserves preserves_domain od rd bound =
     (case Option.bind bound as_int of
        Some (v, d) \<Rightarrow> ConstIntFitsDtype v d \<and> ConstIntFitsDtype v od \<and> ConstIntFitsDtype v rd
      | None \<Rightarrow> preserves_domain)"

definition IntervalPreservesDtype :: "'f IntSet \<Rightarrow> DataType \<Rightarrow> DataType \<Rightarrow> bool" where
  "IntervalPreservesDtype s od rd =
     (let preserves_domain = (IsUnsignedInt od = IsUnsignedInt rd \<and> GetBit od \<le> GetBit rd) in
      bound_preserves preserves_domain od rd (set_min s) \<and> bound_preserves preserves_domain od rd (set_max s))"

definition interval_of :: "'f expr option res \<Rightarrow> 'f expr option res \<Rightarrow> 'f IntSet res" where
  "interval_of lo hi = res_bind lo (\<lambda>l. res_bind hi (\<lambda>h. Inr (Interval l h)))"

definition CombineAdd :: "'f parent option \<Rightarrow> 'f IntSet \<Rightarrow> 'f IntSet \<Rightarrow> 'f IntSet res" where
  "CombineAdd P a b =
     interval_of (SymAdd P (set_min a) (set_min b)) (SymAdd P (set_max a) (set_max b))"

definition CombineSub :: "'f parent option \<Rightarrow> 'f IntSet \<Rightarrow> 'f IntSet \<Rightarrow> 'f IntSet res" where
  "CombineSub P a b =
     interval_of (SymSub P (set_min a) (set_max b)) (SymSub P (set_max a) (set_min b))"

text \<open>\<open>CombineMul\<close>: single points, a single point moved to the right, then the four cases.\<close>

definition combine_mul_right :: "'f host \<Rightarrow> 'f parent option \<Rightarrow> 'f IntSet \<Rightarrow> 'f IntSet \<Rightarrow> 'f IntSet res" where
  "combine_mul_right H P a b =
     res_bind (if is_single_point H b then IsNonNeg P (set_min b) else Inr False) (\<lambda>nonneg.
       if nonneg then
         interval_of (SymMul P (set_min a) (set_min b)) (SymMul P (set_max a) (set_min b))
       else res_bind (if is_single_point H b then IsNeg P (set_min b) else Inr False) (\<lambda>neg.
         if neg then
           interval_of (SymMul P (set_max a) (set_min b)) (SymMul P (set_min a) (set_min b))
         else res_bind (IsNonNeg P (set_min a)) (\<lambda>pa.
           res_bind (if pa then IsNonNeg P (set_min b) else Inr False) (\<lambda>pb.
             if pb then
               interval_of (SymMul P (set_min a) (set_min b)) (SymMul P (set_max a) (set_max b))
             else Inr EverySet))))"

definition CombineMul :: "'f host \<Rightarrow> 'f parent option \<Rightarrow> 'f IntSet \<Rightarrow> 'f IntSet \<Rightarrow> 'f IntSet res" where
  "CombineMul H P a b =
     (if is_single_point H a \<and> is_single_point H b then
        res_bind (SymMul P (set_min a) (set_min b)) (\<lambda>v. Inr (Interval v v))
      else if is_single_point H a \<and> \<not> is_single_point H b then combine_mul_right H P b a
      else combine_mul_right H P a b)"

text \<open>The positive literal a single-point interval consists of.\<close>

definition positive_point :: "'f host \<Rightarrow> 'f IntSet \<Rightarrow> int option" where
  "positive_point H b =
     (if \<not> is_single_point H b then None
      else case Option.bind (set_min b) as_int of
          Some (v, _) \<Rightarrow> if v \<le> 0 then None else Some v
        | None \<Rightarrow> None)"

definition CombineFloorDiv :: "'f host \<Rightarrow> 'f parent option \<Rightarrow> 'f IntSet \<Rightarrow> 'f IntSet \<Rightarrow> 'f IntSet res" where
  "CombineFloorDiv H P a b =
     (case positive_point H b of
        None \<Rightarrow> Inr EverySet
      | Some _ \<Rightarrow>
          interval_of (SymFloorDiv P (set_min a) (set_min b)) (SymFloorDiv P (set_max a) (set_min b)))"

definition CombineFloorMod :: "'f host \<Rightarrow> 'f IntSet \<Rightarrow> 'f IntSet" where
  "CombineFloorMod H b =
     (case positive_point H b of
        None \<Rightarrow> EverySet
      | Some v \<Rightarrow> Interval (Some (MakeConstInt 0 INT64)) (Some (MakeConstInt (v - 1) INT64)))"

definition CombineMin :: "'f parent option \<Rightarrow> 'f IntSet \<Rightarrow> 'f IntSet \<Rightarrow> 'f IntSet res" where
  "CombineMin P a b =
     interval_of (SymMinLower P (set_min a) (set_min b)) (SymMinUpper P (set_max a) (set_max b))"

definition CombineMax :: "'f parent option \<Rightarrow> 'f IntSet \<Rightarrow> 'f IntSet \<Rightarrow> 'f IntSet res" where
  "CombineMax P a b =
     interval_of (SymMaxLower P (set_min a) (set_min b)) (SymMaxUpper P (set_max a) (set_max b))"

definition BoolInterval :: "'f IntSet" where
  "BoolInterval = Interval (Some (MakeConstInt 0 INT64)) (Some (MakeConstInt 1 INT64))"

section \<open>The visitor\<close>

type_synonym 'f set_map = "nat \<Rightarrow> 'f IntSet option"

text \<open>Floor division and modulo: the data type guards of the code, in its order.\<close>

definition set_floor_div ::
  "'f host \<Rightarrow> 'f parent option \<Rightarrow> 'f expr \<Rightarrow> 'f expr \<Rightarrow> DataType \<Rightarrow> 'f IntSet res \<Rightarrow> 'f IntSet res \<Rightarrow> 'f IntSet res" where
  "set_floor_div H P l r d ra rb =
     (if \<not> FloorDivModOperandsFitDtype l r d then Inr EverySet
      else res_bind ra (\<lambda>a. res_bind rb (\<lambda>b.
        res_bind (GetScalarDtype l) (\<lambda>ld.
          if \<not> IntervalPreservesDtype a ld d then Inr EverySet
          else res_bind (GetScalarDtype r) (\<lambda>rd.
            if \<not> IntervalPreservesDtype b rd d then Inr EverySet
            else CombineFloorDiv H P a b)))))"

definition set_floor_mod ::
  "'f host \<Rightarrow> 'f expr \<Rightarrow> 'f expr \<Rightarrow> DataType \<Rightarrow> 'f IntSet res \<Rightarrow> 'f IntSet res \<Rightarrow> 'f IntSet res" where
  "set_floor_mod H l r d ra rb =
     (if \<not> FloorDivModOperandsFitDtype l r d then Inr EverySet
      else res_bind ra (\<lambda>a. res_bind rb (\<lambda>b.
        res_bind (GetScalarDtype r) (\<lambda>rd.
          if \<not> IntervalPreservesDtype b rd d then Inr EverySet
          else Inr (CombineFloorMod H b)))))"

definition set_binary ::
  "'f host \<Rightarrow> 'f parent option \<Rightarrow> binop \<Rightarrow> 'f expr \<Rightarrow> 'f expr \<Rightarrow> DataType \<Rightarrow>
   'f IntSet res \<Rightarrow> 'f IntSet res \<Rightarrow> 'f IntSet res" where
  "set_binary H P k l r d ra rb =
     (case k of
        KAdd \<Rightarrow> res_bind ra (\<lambda>a. res_bind rb (CombineAdd P a))
      | KSub \<Rightarrow> res_bind ra (\<lambda>a. res_bind rb (CombineSub P a))
      | KMul \<Rightarrow> res_bind ra (\<lambda>a. res_bind rb (CombineMul H P a))
      | KFloorDiv \<Rightarrow> set_floor_div H P l r d ra rb
      | KFloorMod \<Rightarrow> set_floor_mod H l r d ra rb
      | KMin \<Rightarrow> res_bind ra (\<lambda>a. res_bind rb (CombineMin P a))
      | KMax \<Rightarrow> res_bind ra (\<lambda>a. res_bind rb (CombineMax P a))
      | _ \<Rightarrow> Inr (if is_compare k \<or> is_logical k then BoolInterval else EverySet))"

definition set_cast :: "'f expr \<Rightarrow> DataType \<Rightarrow> 'f IntSet res \<Rightarrow> 'f IntSet res" where
  "set_cast a dst ra =
     res_bind (GetScalarDtype a) (\<lambda>src.
       if GetBit dst \<ge> GetBit src \<and> IsInt dst = IsInt src then
         res_bind ra (\<lambda>s. Inr (if IntervalPreservesDtype s src dst then s else EverySet))
       else Inr EverySet)"

definition set_unary :: "'f parent option \<Rightarrow> unop \<Rightarrow> 'f expr \<Rightarrow> DataType \<Rightarrow> 'f IntSet res \<Rightarrow> 'f IntSet res" where
  "set_unary P k a d ra =
     (case k of
        KNeg \<Rightarrow> res_bind ra (\<lambda>s. interval_of (SymNeg P (set_max s)) (SymNeg P (set_min s)))
      | KNot \<Rightarrow> Inr BoolInterval
      | KCast \<Rightarrow> set_cast a d ra
      | _ \<Rightarrow> Inr EverySet)"

definition lookup_set :: "'f set_map \<Rightarrow> nat \<Rightarrow> 'f expr \<Rightarrow> 'f IntSet" where
  "lookup_set m i e = (case m i of Some s \<Rightarrow> s | None \<Rightarrow> SinglePoint e)"

primrec int_set_visit :: "'f host \<Rightarrow> 'f parent option \<Rightarrow> 'f set_map \<Rightarrow> 'f expr \<Rightarrow> 'f IntSet res" where
  "int_set_visit H P m (ConstInt v d) =
     Inr (if \<not> ConstIntFitsDtype v d then EverySet else SinglePoint (ConstInt v d))"
| "int_set_visit H P m (ConstFloat v d) = Inr EverySet"
| "int_set_visit H P m (ConstBool b) = Inr (SinglePoint (ConstBool b))"
| "int_set_visit H P m (Var i t) = Inr (lookup_set m i (Var i t))"
| "int_set_visit H P m (IterArg i t) = Inr (lookup_set m i (IterArg i t))"
| "int_set_visit H P m (Call f i t) = Inr EverySet"
| "int_set_visit H P m (Opaque i t) = Inr EverySet"
| "int_set_visit H P m (Binary k l r d) =
     set_binary H P k l r d (int_set_visit H P m l) (int_set_visit H P m r)"
| "int_set_visit H P m (Unary k a d) = set_unary P k a d (int_set_visit H P m a)"

section \<open>Constraints\<close>

definition numeric_scalar :: "'f expr \<Rightarrow> DataType option" where
  "numeric_scalar e =
     (case scalar_type e of Some d \<Rightarrow> if IsInt d \<or> IsFloat d then Some d else None | None \<Rightarrow> None)"

definition matches_category :: "DataType \<Rightarrow> 'f expr option \<Rightarrow> bool" where
  "matches_category vd bound =
     (case bound of
        None \<Rightarrow> True
      | Some b \<Rightarrow> (case numeric_scalar b of Some bd \<Rightarrow> IsInt bd = IsInt vd | None \<Rightarrow> False))"

text \<open>The variable map and the recovery list of \<open>EnterConstraint\<close>; the parent sees the map.\<close>

type_synonym 'f set_scope = "'f set_map \<times> (nat \<times> 'f IntSet) list"
type_synonym 'f parent_of = "'f set_map \<Rightarrow> 'f parent option"

definition set_tighten ::
  "'f parent_of \<Rightarrow> nat \<Rightarrow> DataType option \<Rightarrow> 'f IntSet \<Rightarrow> 'f set_scope \<Rightarrow> 'f set_scope res" where
  "set_tighten Q i t new_set s =
     (case s of (m, recovery) \<Rightarrow>
       if set_is_everything new_set then Inr s
       else case numeric_scalar (Var i t :: 'f expr) of
         None \<Rightarrow> Inr s
       | Some vd \<Rightarrow>
           if \<not> matches_category vd (set_min new_set) \<or> \<not> matches_category vd (set_max new_set) then Inr s
           else let old = (case m i of Some x \<Rightarrow> x | None \<Rightarrow> EverySet) in
             if \<not> matches_category vd (set_min old) \<or> \<not> matches_category vd (set_max old) then Inr s
             else res_bind (interval_of (SymMaxLower (Q m) (set_min old) (set_min new_set))
                     (SymMinUpper (Q m) (set_max old) (set_max new_set))) (\<lambda>n.
               Inr (m(i \<mapsto> n), recovery @ [(i, old)])))"

definition set_strict_bound :: "'f parent option \<Rightarrow> 'f expr \<Rightarrow> bool \<Rightarrow> 'f expr res" where
  "set_strict_bound P bound increment =
     (case numeric_scalar bound of
        Some d \<Rightarrow>
          if IsInt d then
            res_bind (MakeBinary (if increment then KAdd else KSub) bound (MakeConstInt 1 INT64)) (MaybeSimplify P)
          else Inr bound
      | None \<Rightarrow> Inr bound)"

text \<open>
  What \<open>x k bound\<close> says of \<open>x\<close>, for the comparisons the code parses. With the variable on the
  right, \<open>bound k x\<close> says what \<open>x\<close> compared by the mirrored operator says.
\<close>

definition constraint_set :: "'f parent option \<Rightarrow> binop \<Rightarrow> 'f expr \<Rightarrow> 'f IntSet option res" where
  "constraint_set P k bound =
     (case k of
        KGe \<Rightarrow> Inr (Some (Interval (Some bound) None))
      | KGt \<Rightarrow> res_bind (set_strict_bound P bound True) (\<lambda>b. Inr (Some (Interval (Some b) None)))
      | KLe \<Rightarrow> Inr (Some (Interval None (Some bound)))
      | KLt \<Rightarrow> res_bind (set_strict_bound P bound False) (\<lambda>b. Inr (Some (Interval None (Some b))))
      | KEq \<Rightarrow> Inr (Some (SinglePoint bound))
      | _ \<Rightarrow> Inr None)"

definition mirror :: "binop \<Rightarrow> binop" where
  "mirror k = (case k of KGe \<Rightarrow> KLe | KLe \<Rightarrow> KGe | KGt \<Rightarrow> KLt | KLt \<Rightarrow> KGt | _ \<Rightarrow> k)"

definition tighten_side ::
  "'f parent_of \<Rightarrow> binop \<Rightarrow> 'f expr \<Rightarrow> 'f expr \<Rightarrow> 'f set_scope \<Rightarrow> 'f set_scope res" where
  "tighten_side Q k v bound s =
     (case v of
        Var i t \<Rightarrow>
          res_bind (constraint_set (Q (fst s)) k bound) (\<lambda>n.
            case n of Some x \<Rightarrow> set_tighten Q i t x s | None \<Rightarrow> Inr s)
      | _ \<Rightarrow> Inr s)"

fun set_parse :: "'f parent_of \<Rightarrow> 'f expr \<Rightarrow> 'f set_scope \<Rightarrow> 'f set_scope res" where
  "set_parse Q (Binary k l r d) s =
     (if k = KAnd then res_bind (set_parse Q l s) (set_parse Q r)
      else res_bind (tighten_side Q k l r s) (tighten_side Q (mirror k) r l))"
| "set_parse Q _ s = Inr s"

definition int_set_enter :: "'f parent_of \<Rightarrow> 'f set_map \<Rightarrow> 'f expr \<Rightarrow> 'f set_scope res" where
  "int_set_enter Q m c = set_parse Q c (m, [])"

definition set_restore :: "nat \<times> 'f IntSet \<Rightarrow> 'f set_map \<Rightarrow> 'f set_map" where
  "set_restore p m = (case p of (i, s) \<Rightarrow> if set_is_everything s then m(i := None) else m(i \<mapsto> s))"

definition int_set_recover :: "(nat \<times> 'f IntSet) list \<Rightarrow> 'f set_map \<Rightarrow> 'f set_map" where
  "int_set_recover recovery m = fold set_restore (rev recovery) m"

section \<open>Public operations\<close>

definition int_set_bind ::
  "'f host \<Rightarrow> 'f parent option \<Rightarrow> nat \<Rightarrow> 'f expr \<Rightarrow> 'f expr \<Rightarrow> 'f set_map \<Rightarrow> 'f set_map res" where
  "int_set_bind H P i min_val max_val_exclusive m =
     res_bind (MakeBinary KSub max_val_exclusive (MakeConstInt 1 INT64)) (\<lambda>sub.
     res_bind (TryConstFold H sub) (\<lambda>folded.
     res_bind (case folded of Some e \<Rightarrow> Inr e | None \<Rightarrow> MaybeSimplify P sub) (\<lambda>max_inclusive.
       Inr (m(i \<mapsto> Interval (Some min_val) (Some max_inclusive))))))"

definition int_set_update :: "nat \<Rightarrow> 'f IntSet \<Rightarrow> 'f set_map \<Rightarrow> 'f set_map" where
  "int_set_update i s m = m(i \<mapsto> s)"

definition int_set_unbind :: "nat \<Rightarrow> 'f set_map \<Rightarrow> 'f set_map" where
  "int_set_unbind i m = m(i := None)"

section \<open>Meaning\<close>

text \<open>A bound is an expression that has a value, on the right side of the value it bounds.\<close>

definition bound_ok :: "env \<Rightarrow> (int \<Rightarrow> bool) \<Rightarrow> 'f expr option \<Rightarrow> bool" where
  "bound_ok \<rho> R bound = (case bound of None \<Rightarrow> True | Some e \<Rightarrow> \<exists>b. eval \<rho> e = Some b \<and> R b)"

abbreviation lower_ok :: "env \<Rightarrow> 'f expr option \<Rightarrow> int \<Rightarrow> bool" where
  "lower_ok \<rho> bound v \<equiv> bound_ok \<rho> (\<lambda>b. b \<le> v) bound"

abbreviation upper_ok :: "env \<Rightarrow> 'f expr option \<Rightarrow> int \<Rightarrow> bool" where
  "upper_ok \<rho> bound v \<equiv> bound_ok \<rho> (\<lambda>b. v \<le> b) bound"

definition in_set :: "env \<Rightarrow> 'f IntSet \<Rightarrow> int \<Rightarrow> bool" where
  "in_set \<rho> s v \<longleftrightarrow> lower_ok \<rho> (set_min s) v \<and> upper_ok \<rho> (set_max s) v"

lemma bound_ok_simps [simp]:
  "bound_ok \<rho> R None" "bound_ok \<rho> R (Some e) \<longleftrightarrow> (\<exists>b. eval \<rho> e = Some b \<and> R b)"
  by (simp_all add: bound_ok_def)

lemma bound_ok_mono: "bound_ok \<rho> R b \<Longrightarrow> (\<And>x. R x \<Longrightarrow> R' x) \<Longrightarrow> bound_ok \<rho> R' b"
  by (cases b) auto

lemma in_set_Interval [simp]: "in_set \<rho> (Interval lo hi) v \<longleftrightarrow> lower_ok \<rho> lo v \<and> upper_ok \<rho> hi v"
  by (simp add: in_set_def)

lemma in_EverySet [simp]: "in_set \<rho> EverySet v"
  by (simp add: EverySet_def)

lemma in_SinglePoint [simp]: "in_set \<rho> (SinglePoint e) v \<longleftrightarrow> eval \<rho> e = Some v"
  by (auto simp: SinglePoint_def)

text \<open>
  What the analysis relies on of its parent: simplification keeps values, and what the parent
  proves is true.
\<close>

locale parent_analyzer =
  fixes P :: "'f parent option" and \<rho> :: env
  assumes simplify_sound:
      "P = Some p \<Longrightarrow> p_simplify p e = Inr e' \<Longrightarrow> eval \<rho> e = Some v \<Longrightarrow> eval \<rho> e' = Some v"
    and can_prove_sound:
      "P = Some p \<Longrightarrow> p_can_prove p c = Inr True \<Longrightarrow> eval \<rho> c = Some v \<Longrightarrow> v \<noteq> 0"
    and prove_ge_sound:
      "P = Some p \<Longrightarrow> p_prove_ge p e n = Inr True \<Longrightarrow> eval \<rho> e = Some v \<Longrightarrow> n \<le> v"
    and prove_lt_sound:
      "P = Some p \<Longrightarrow> p_prove_lt p e n = Inr True \<Longrightarrow> eval \<rho> e = Some v \<Longrightarrow> v < n"
begin

lemma MaybeSimplify_sound: "MaybeSimplify P e = Inr e' \<Longrightarrow> eval \<rho> e = Some v \<Longrightarrow> eval \<rho> e' = Some v"
  by (auto simp: MaybeSimplify_def intro: simplify_sound split: option.splits)

lemma sym_make_sound:
  assumes "sym_make P k a b = Inr o'" and "exact_casts \<rho>"
    and "eval \<rho> a = Some x" and "eval \<rho> b = Some y" and "bin_val k x y = Some z"
  shows "\<exists>e. o' = Some e \<and> eval \<rho> e = Some z"
proof -
  obtain e s where e: "MakeBinary k a b = Inr e" and s: "MaybeSimplify P e = Inr s" and o': "o' = Some s"
    using assms(1) by (auto simp: sym_make_def)
  have "eval \<rho> e = Some z" using MakeBinary_eval [OF e assms(2-4)] assms(5) by simp
  then show ?thesis using o' MaybeSimplify_sound [OF s] by blast
qed

lemma sym_neg_sound:
  assumes "SymNeg P (Some a) = Inr o'" and "eval \<rho> a = Some x"
  shows "\<exists>e. o' = Some e \<and> eval \<rho> e = Some (- x)"
proof -
  obtain e s where e: "MakeUnary KNeg a = Inr e" and s: "MaybeSimplify P e = Inr s" and o': "o' = Some s"
    using assms(1) by (auto simp: SymNeg_def)
  have "eval \<rho> e = Some (- x)" using MakeUnary_eval [OF e _ assms(2)] by simp
  then show ?thesis using o' MaybeSimplify_sound [OF s] by blast
qed

lemma IsNonNeg_sound: "IsNonNeg P (Some e) = Inr True \<Longrightarrow> eval \<rho> e = Some v \<Longrightarrow> 0 \<le> v"
  by (auto simp: IsNonNeg_def split: option.splits prod.splits if_splits intro: prove_ge_sound)

lemma IsNeg_sound: "IsNeg P (Some e) = Inr True \<Longrightarrow> eval \<rho> e = Some v \<Longrightarrow> v < 0"
  by (auto simp: IsNeg_def split: option.splits prod.splits if_splits intro: prove_lt_sound)

lemma proved_compare:
  assumes "P = Some p" and "MakeBinary k a b = Inr c" and "p_can_prove p c = Inr True" and "exact_casts \<rho>"
    and "eval \<rho> a = Some x" and "eval \<rho> b = Some y"
  shows "bin_val k x y \<noteq> Some 0"
  using MakeBinary_eval [OF assms(2,4-6)] can_prove_sound [OF assms(1,3)] by auto

lemma sym_choose_sound:
  assumes "sym_choose P first second k a b = Inr o'" and "exact_casts \<rho>"
    and "eval \<rho> a = Some x" and "eval \<rho> b = Some y" and "bin_val k x y = Some z"
    and "bin_val first x y = Some (of_bool (z = x))" and "bin_val second x y = Some (of_bool (z = y))"
  shows "\<exists>e. o' = Some e \<and> eval \<rho> e = Some z"
proof (cases P)
  case None
  then show ?thesis
    using assms(1) sym_make_sound [OF _ assms(2-5)] by (simp add: sym_choose_def)
next
  case (Some p)
  obtain c1 b1 where c1: "MakeBinary first a b = Inr c1" "p_can_prove p c1 = Inr b1"
    using assms(1) Some by (auto simp: sym_choose_def)
  show ?thesis
  proof (cases b1)
    case True
    then have "z = x" using proved_compare [OF Some c1(1) _ assms(2-4)] c1(2) assms(6) by simp
    then show ?thesis using assms(1,3) Some c1 True by (auto simp: sym_choose_def)
  next
    case False
    obtain c2 b2 where c2: "MakeBinary second a b = Inr c2" "p_can_prove p c2 = Inr b2"
      using assms(1) Some c1 False by (auto simp: sym_choose_def)
    show ?thesis
    proof (cases b2)
      case True
      then have "z = y" using proved_compare [OF Some c2(1) _ assms(2-4)] c2(2) assms(7) by simp
      then show ?thesis using assms(1,4) Some c1 c2 \<open>\<not> b1\<close> True by (auto simp: sym_choose_def)
    next
      case False
      then have "sym_make P k a b = Inr o'" using assms(1) Some c1 c2 \<open>\<not> b1\<close> by (simp add: sym_choose_def)
      then show ?thesis using sym_make_sound [OF _ assms(2-5)] by blast
    qed
  qed
qed

text \<open>Bounds of the results of operations from the bounds of their operands.\<close>

lemma sym_op_ok:
  assumes "sym_op P k a b = Inr o'" and "exact_casts \<rho>" and "bound_ok \<rho> R1 a" and "bound_ok \<rho> R2 b"
    and "\<And>u w. R1 u \<Longrightarrow> R2 w \<Longrightarrow> \<exists>z. bin_val k u w = Some z \<and> R z"
  shows "bound_ok \<rho> R o'"
proof (cases "a = None \<or> b = None")
  case False
  then obtain x y u w where "a = Some x" "b = Some y" "eval \<rho> x = Some u" "eval \<rho> y = Some w" "R1 u" "R2 w"
    using assms(3,4) by (auto simp: bound_ok_def split: option.splits)
  moreover obtain z where "bin_val k u w = Some z" "R z" using assms(5) \<open>R1 u\<close> \<open>R2 w\<close> by blast
  ultimately show ?thesis using assms(1) sym_make_sound [OF _ assms(2)] by (fastforce simp: sym_op_def)
qed (use assms(1) in \<open>auto simp: sym_op_def split: option.splits\<close>)

lemma SymNeg_ok:
  assumes "SymNeg P a = Inr o'" and "bound_ok \<rho> R a" and "\<And>u. R u \<Longrightarrow> R' (- u)"
  shows "bound_ok \<rho> R' o'"
proof (cases a)
  case (Some x)
  with assms(2) obtain u where "eval \<rho> x = Some u" "R u" by auto
  with assms(1,3) Some sym_neg_sound [of x o' u] show ?thesis by auto
qed (use assms(1) in \<open>simp add: SymNeg_def\<close>)

lemma SymMin_ok:
  assumes "exact_casts \<rho>"
  shows "SymMinLower P a b = Inr o' \<Longrightarrow> lower_ok \<rho> a x \<Longrightarrow> lower_ok \<rho> b y \<Longrightarrow> lower_ok \<rho> o' (min x y)"
    and "SymMinUpper P a b = Inr o' \<Longrightarrow> upper_ok \<rho> a x \<Longrightarrow> upper_ok \<rho> b y \<Longrightarrow> upper_ok \<rho> o' (min x y)"
proof -
  have choose: "\<exists>e. o' = Some e \<and> eval \<rho> e = Some (min u w)"
    if "sym_choose P KLe KGe KMin c d = Inr o'" and "eval \<rho> c = Some u" and "eval \<rho> d = Some w" for c d u w
    by (rule sym_choose_sound [OF that(1) assms that(2,3)]) (auto simp: min_def)
  show "lower_ok \<rho> o' (min x y)" if "SymMinLower P a b = Inr o'" "lower_ok \<rho> a x" "lower_ok \<rho> b y"
    using that choose by (fastforce simp: SymMinLower_def split: option.splits)
  show "upper_ok \<rho> o' (min x y)" if "SymMinUpper P a b = Inr o'" "upper_ok \<rho> a x" "upper_ok \<rho> b y"
    using that choose by (fastforce simp: SymMinUpper_def split: option.splits intro: bound_ok_mono)
qed

lemma SymMax_ok:
  assumes "exact_casts \<rho>"
  shows "SymMaxLower P a b = Inr o' \<Longrightarrow> lower_ok \<rho> a x \<Longrightarrow> lower_ok \<rho> b y \<Longrightarrow> lower_ok \<rho> o' (max x y)"
    and "SymMaxUpper P a b = Inr o' \<Longrightarrow> upper_ok \<rho> a x \<Longrightarrow> upper_ok \<rho> b y \<Longrightarrow> upper_ok \<rho> o' (max x y)"
proof -
  have choose: "\<exists>e. o' = Some e \<and> eval \<rho> e = Some (max u w)"
    if "sym_choose P KGe KLe KMax c d = Inr o'" and "eval \<rho> c = Some u" and "eval \<rho> d = Some w" for c d u w
    by (rule sym_choose_sound [OF that(1) assms that(2,3)]) (auto simp: max_def)
  show "lower_ok \<rho> o' (max x y)" if "SymMaxLower P a b = Inr o'" "lower_ok \<rho> a x" "lower_ok \<rho> b y"
    using that choose by (fastforce simp: SymMaxLower_def split: option.splits intro: bound_ok_mono)
  show "upper_ok \<rho> o' (max x y)" if "SymMaxUpper P a b = Inr o'" "upper_ok \<rho> a x" "upper_ok \<rho> b y"
    using that choose by (fastforce simp: SymMaxUpper_def split: option.splits)
qed

lemma interval_of_Inr [simp]:
  "interval_of lo hi = Inr s \<longleftrightarrow> (\<exists>l h. lo = Inr l \<and> hi = Inr h \<and> s = Interval l h)"
  by (auto simp: interval_of_def)

lemma interval_op_ok:
  assumes "interval_of (sym_op P k a1 b1) (sym_op P k a2 b2) = Inr s" and "exact_casts \<rho>"
    and "bound_ok \<rho> R1 a1" and "bound_ok \<rho> R2 b1" and "bound_ok \<rho> R3 a2" and "bound_ok \<rho> R4 b2"
    and "\<And>u w. R1 u \<Longrightarrow> R2 w \<Longrightarrow> \<exists>z. bin_val k u w = Some z \<and> z \<le> v"
    and "\<And>u w. R3 u \<Longrightarrow> R4 w \<Longrightarrow> \<exists>z. bin_val k u w = Some z \<and> v \<le> z"
  shows "in_set \<rho> s v"
proof -
  obtain l h where l: "sym_op P k a1 b1 = Inr l" and h: "sym_op P k a2 b2 = Inr h" and s: "s = Interval l h"
    using assms(1) by auto
  show ?thesis
    using sym_op_ok [OF l assms(2,3,4,7)] sym_op_ok [OF h assms(2,5,6,8)] by (simp add: s)
qed

lemma CombineAdd_ok:
  assumes "CombineAdd P a b = Inr s" and "exact_casts \<rho>" and "in_set \<rho> a x" and "in_set \<rho> b y"
  shows "in_set \<rho> s (x + y)"
proof (rule interval_op_ok [OF assms(1) [unfolded CombineAdd_def SymAdd_def] assms(2)])
  show "lower_ok \<rho> (set_min a) x" "lower_ok \<rho> (set_min b) y" "upper_ok \<rho> (set_max a) x" "upper_ok \<rho> (set_max b) y"
    using assms(3,4) by (simp_all add: in_set_def)
qed simp_all

lemma CombineSub_ok:
  assumes "CombineSub P a b = Inr s" and "exact_casts \<rho>" and "in_set \<rho> a x" and "in_set \<rho> b y"
  shows "in_set \<rho> s (x - y)"
proof (rule interval_op_ok [OF assms(1) [unfolded CombineSub_def SymSub_def] assms(2)])
  show "lower_ok \<rho> (set_min a) x" "upper_ok \<rho> (set_max b) y" "upper_ok \<rho> (set_max a) x" "lower_ok \<rho> (set_min b) y"
    using assms(3,4) by (simp_all add: in_set_def)
qed simp_all

text \<open>A single point is the value itself.\<close>

lemma single_point_ok:
  assumes "is_single_point H s" and "ptr_ok H" and "in_set \<rho> s v"
  shows "bound_ok \<rho> (\<lambda>b. b = v) (set_min s)"
proof -
  obtain a b where a: "set_min s = Some a" and b: "set_max s = Some b" and p: "same_ptr H a b"
    using assms(1) by (auto simp: is_single_point_def split: option.splits)
  then show ?thesis using assms(3) ptr_okD [OF assms(2) p] by (auto simp: in_set_def)
qed

lemma combine_mul_right_ok:
  assumes "combine_mul_right H P a b = Inr s" and "ptr_ok H" and "exact_casts \<rho>"
    and "in_set \<rho> a x" and "in_set \<rho> b y"
  shows "in_set \<rho> s (x * y)"
proof -
  have a: "lower_ok \<rho> (set_min a) x" "upper_ok \<rho> (set_max a) x" and b: "lower_ok \<rho> (set_min b) y" "upper_ok \<rho> (set_max b) y"
    using assms(4,5) by (simp_all add: in_set_def)
  note single = single_point_ok [OF _ assms(2,5)]
  have nonneg: "bound_ok \<rho> (\<lambda>w. 0 \<le> w \<and> R w) c" if "IsNonNeg P c = Inr True" "bound_ok \<rho> R c" for c R
    using that IsNonNeg_sound by (cases c) auto
  have neg: "bound_ok \<rho> (\<lambda>w. w < 0 \<and> R w) c" if "IsNeg P c = Inr True" "bound_ok \<rho> R c" for c R
    using that IsNeg_sound by (cases c) auto
  consider (pos) "is_single_point H b" "IsNonNeg P (set_min b) = Inr True"
      "interval_of (SymMul P (set_min a) (set_min b)) (SymMul P (set_max a) (set_min b)) = Inr s"
    | (neg) "is_single_point H b" "IsNeg P (set_min b) = Inr True"
      "interval_of (SymMul P (set_max a) (set_min b)) (SymMul P (set_min a) (set_min b)) = Inr s"
    | (both) "IsNonNeg P (set_min a) = Inr True" "IsNonNeg P (set_min b) = Inr True"
      "interval_of (SymMul P (set_min a) (set_min b)) (SymMul P (set_max a) (set_max b)) = Inr s"
    | (every) "s = EverySet"
    using assms(1) by (auto simp: combine_mul_right_def split: if_splits)
  then show ?thesis
  proof cases
    case pos
    note w = nonneg [OF pos(2) single [OF pos(1)]]
    show ?thesis
      by (rule interval_op_ok [OF pos(3) [unfolded SymMul_def] assms(3) a(1) w a(2) w])
         (auto intro: mult_right_mono)
  next
    case neg': neg
    note w = neg [OF neg'(2) single [OF neg'(1)]]
    show ?thesis
      by (rule interval_op_ok [OF neg'(3) [unfolded SymMul_def] assms(3) a(2) w a(1) w])
         (auto intro: mult_right_mono_neg)
  next
    case both
    have p: "0 \<le> x \<or> set_min a = None" "0 \<le> y \<or> set_min b = None"
      using nonneg [OF both(1) a(1)] nonneg [OF both(2) b(1)] by (auto simp: bound_ok_def split: option.splits)
    then have xy: "0 \<le> x" "0 \<le> y" using both(1,2) by (auto simp: IsNonNeg_def)
    show ?thesis
      by (rule interval_op_ok [OF both(3) [unfolded SymMul_def] assms(3) nonneg [OF both(1) a(1)]
            nonneg [OF both(2) b(1)] a(2) b(2)])
         (use xy in \<open>auto intro: mult_mono\<close>)
  qed simp
qed

lemma CombineMul_ok:
  assumes "CombineMul H P a b = Inr s" and "ptr_ok H" and "exact_casts \<rho>"
    and "in_set \<rho> a x" and "in_set \<rho> b y"
  shows "in_set \<rho> s (x * y)"
proof (cases "is_single_point H a \<and> is_single_point H b")
  case True
  then obtain v where v: "sym_op P KMul (set_min a) (set_min b) = Inr v" and s: "s = Interval v v"
    using assms(1) by (auto simp: CombineMul_def SymMul_def)
  have "bound_ok \<rho> (\<lambda>z. z = x * y) v"
    by (rule sym_op_ok [OF v assms(3) single_point_ok [OF _ assms(2,4)] single_point_ok [OF _ assms(2,5)]])
       (use True in simp_all)
  then show ?thesis using s by (auto intro: bound_ok_mono)
next
  case False
  then have "combine_mul_right H P b a = Inr s \<or> combine_mul_right H P a b = Inr s"
    using assms(1) by (auto simp: CombineMul_def split: if_splits)
  then show ?thesis
    using combine_mul_right_ok [OF _ assms(2,3,5,4)] combine_mul_right_ok [OF _ assms(2,3,4,5)]
    by (auto simp: mult.commute)
qed

text \<open>Division and modulo by a positive literal.\<close>

lemma positive_point_ok:
  assumes "positive_point H b = Some n" and "ptr_ok H" and "in_set \<rho> b y"
  shows "0 < n" and "y = n" and "bound_ok \<rho> (\<lambda>w. w = n) (set_min b)"
proof -
  have p: "is_single_point H b" and "0 < n" and "\<exists>d. set_min b = Some (ConstInt n d)"
    using assms(1) by (auto simp: positive_point_def bind_eq_Some_conv split: if_splits option.splits)
  then show "0 < n" and "y = n" and "bound_ok \<rho> (\<lambda>w. w = n) (set_min b)"
    using single_point_ok [OF p assms(2,3)] by auto
qed

lemma CombineFloorDiv_ok:
  assumes "CombineFloorDiv H P a b = Inr s" and "ptr_ok H" and "exact_casts \<rho>"
    and "in_set \<rho> a x" and "in_set \<rho> b y"
  shows "in_set \<rho> s (x div y)"
proof (cases "positive_point H b")
  case (Some n)
  note n = positive_point_ok [OF Some assms(2,5)]
  have a: "lower_ok \<rho> (set_min a) x" "upper_ok \<rho> (set_max a) x"
    using assms(4) by (simp_all add: in_set_def)
  have "interval_of (sym_op P KFloorDiv (set_min a) (set_min b)) (sym_op P KFloorDiv (set_max a) (set_min b)) = Inr s"
    using assms(1) Some by (simp add: CombineFloorDiv_def SymFloorDiv_def)
  then show ?thesis
    by (rule interval_op_ok [OF _ assms(3) a(1) n(3) a(2) n(3)]) (use n in \<open>auto intro: zdiv_mono1\<close>)
qed (use assms(1) in \<open>simp add: CombineFloorDiv_def\<close>)

lemma CombineFloorMod_ok:
  assumes "ptr_ok H" and "in_set \<rho> b y"
  shows "in_set \<rho> (CombineFloorMod H b) (x mod y)"
proof (cases "positive_point H b")
  case (Some n)
  with positive_point_ok [OF Some assms] pos_mod_bound [of n x] show ?thesis
    by (simp add: CombineFloorMod_def MakeConstInt_def)
qed (simp add: CombineFloorMod_def)

lemma CombineMin_ok:
  assumes "CombineMin P a b = Inr s" and "exact_casts \<rho>" and "in_set \<rho> a x" and "in_set \<rho> b y"
  shows "in_set \<rho> s (min x y)"
  using assms(1,3,4) SymMin_ok [OF assms(2)] by (auto simp: CombineMin_def in_set_def)

lemma CombineMax_ok:
  assumes "CombineMax P a b = Inr s" and "exact_casts \<rho>" and "in_set \<rho> a x" and "in_set \<rho> b y"
  shows "in_set \<rho> s (max x y)"
  using assms(1,3,4) SymMax_ok [OF assms(2)] by (auto simp: CombineMax_def in_set_def)

lemma set_binary_sound:
  assumes "set_binary H P k l r d ra rb = Inr s" and "ptr_ok H" and "exact_casts \<rho>"
    and "\<And>a. ra = Inr a \<Longrightarrow> in_set \<rho> a x" and "\<And>b. rb = Inr b \<Longrightarrow> in_set \<rho> b y" and "bin_val k x y = Some v"
  shows "in_set \<rho> s v"
proof (cases k)
  case KAdd
  with assms show ?thesis by (auto simp: set_binary_def intro: CombineAdd_ok)
next
  case KSub
  with assms show ?thesis by (auto simp: set_binary_def intro: CombineSub_ok)
next
  case KMul
  with assms show ?thesis by (auto simp: set_binary_def intro: CombineMul_ok)
next
  case KFloorDiv
  with assms show ?thesis
    by (auto simp: set_binary_def set_floor_div_def intro: CombineFloorDiv_ok split: if_splits)
next
  case KFloorMod
  with assms show ?thesis
    by (auto simp: set_binary_def set_floor_mod_def intro: CombineFloorMod_ok split: if_splits)
next
  case KMin
  with assms show ?thesis by (auto simp: set_binary_def intro: CombineMin_ok)
next
  case KMax
  with assms show ?thesis by (auto simp: set_binary_def intro: CombineMax_ok)
qed (use assms(1,6) in \<open>auto simp: set_binary_def is_compare_def is_logical_def BoolInterval_def
      MakeConstInt_def is_truth_def split: if_splits\<close>)

lemma set_unary_sound:
  assumes "set_unary P k a d ra = Inr s" and "exact_casts \<rho>" and "\<And>t. ra = Inr t \<Longrightarrow> in_set \<rho> t x"
    and "un_val \<rho> k d x = Some v"
  shows "in_set \<rho> s v"
proof (cases k)
  case KNeg
  then obtain t l h where t: "ra = Inr t" and l: "SymNeg P (set_max t) = Inr l" and h: "SymNeg P (set_min t) = Inr h"
    and s: "s = Interval l h"
    using assms(1) by (auto simp: set_unary_def)
  have "lower_ok \<rho> (set_min t) x" "upper_ok \<rho> (set_max t) x" using assms(3) [OF t] by (simp_all add: in_set_def)
  then have "lower_ok \<rho> l (- x)" "upper_ok \<rho> h (- x)"
    using SymNeg_ok [OF l, of "\<lambda>b. x \<le> b" "\<lambda>b. b \<le> - x"] SymNeg_ok [OF h, of "\<lambda>b. b \<le> x" "\<lambda>b. - x \<le> b"] by simp_all
  then show ?thesis using assms(4) KNeg by (simp add: s)
next
  case KCast
  then show ?thesis
    using assms by (auto simp: set_unary_def set_cast_def exact_casts_def cast_id_def split: if_splits)
qed (use assms(1,4) in \<open>auto simp: set_unary_def BoolInterval_def MakeConstInt_def is_truth_def\<close>)

end

text \<open>The intervals of the variables hold in an environment.\<close>

definition set_holds :: "'f set_map \<Rightarrow> env \<Rightarrow> bool" where
  "set_holds m \<rho> \<longleftrightarrow> (\<forall>i s v. m i = Some s \<longrightarrow> vval \<rho> i = Some v \<longrightarrow> in_set \<rho> s v)"

lemma lookup_set_sound:
  "set_holds m \<rho> \<Longrightarrow> vval \<rho> i = Some v \<Longrightarrow> eval \<rho> e = Some v \<Longrightarrow> in_set \<rho> (lookup_set m i e) v"
  by (auto simp: lookup_set_def set_holds_def split: option.splits)

lemma int_set_sound:
  assumes "parent_analyzer P \<rho>" and "ptr_ok H" and "exact_casts \<rho>" and "set_holds m \<rho>"
  shows "int_set_visit H P m e = Inr s \<Longrightarrow> eval \<rho> e = Some v \<Longrightarrow> in_set \<rho> s v"
proof (induction e arbitrary: s v)
  case (Binary k a b d)
  obtain x y where v: "eval \<rho> a = Some x" "eval \<rho> b = Some y" "bin_val k x y = Some v"
    using Binary.prems(2) by (rule eval_BinaryE)
  have "set_binary H P k a b d (int_set_visit H P m a) (int_set_visit H P m b) = Inr s"
    using Binary.prems(1) by simp
  then show ?case
    by (rule parent_analyzer.set_binary_sound [OF assms(1) _ assms(2,3) _ _ v(3)])
       (use Binary.IH v in auto)
next
  case (Unary k a d)
  obtain x where v: "eval \<rho> a = Some x" "un_val \<rho> k d x = Some v"
    using Unary.prems(2) by (rule eval_UnaryE)
  have "set_unary P k a d (int_set_visit H P m a) = Inr s" using Unary.prems(1) by simp
  then show ?case
    by (rule parent_analyzer.set_unary_sound [OF assms(1) _ assms(3) _ v(2)]) (use Unary.IH v in auto)
qed (use assms(4) in \<open>auto intro!: lookup_set_sound split: if_splits\<close>)

text \<open>
  The bounds are expressions in the variables, without the conversions of the expression they bound. They are read
  mathematically, while the conversions of the expression itself may wrap: \<open>converts\<close> says that a conversion keeps the
  values its target type represents, and nothing of any other. The data types of the guards decide where that is enough,
  provided that the operand of a conversion has a value that its own type represents.
\<close>

definition represents :: "DataType \<Rightarrow> int \<Rightarrow> bool" where
  "represents d x \<longleftrightarrow>
     (if d = BOOL then is_truth x else if IsInt d then is_i64 x \<and> ConstIntFitsDtype x d else d = TASK_ID)"

definition converts :: "env \<Rightarrow> bool" where
  "converts \<rho> \<longleftrightarrow> (\<forall>d x v. represents d x \<longrightarrow> ccast \<rho> d x = Some v \<longrightarrow> v = x)"

primrec operands_fit :: "env \<Rightarrow> 'f expr \<Rightarrow> bool" where
  "operands_fit \<rho> (ConstInt v d) = True"
| "operands_fit \<rho> (ConstFloat v d) = True"
| "operands_fit \<rho> (ConstBool b) = True"
| "operands_fit \<rho> (Var i t) = True"
| "operands_fit \<rho> (IterArg i t) = True"
| "operands_fit \<rho> (Call f i t) = True"
| "operands_fit \<rho> (Opaque i t) = True"
| "operands_fit \<rho> (Binary k a b d) = (operands_fit \<rho> a \<and> operands_fit \<rho> b)"
| "operands_fit \<rho> (Unary k a d) =
     (operands_fit \<rho> a \<and>
      (k = KCast \<longrightarrow> pred_option (\<lambda>s. pred_option (represents s) (eval \<rho> a)) (scalar_type a)))"

lemma converts_id: "ccast \<rho> = cast_id \<Longrightarrow> converts \<rho>"
  by (auto simp: converts_def cast_id_def split: if_splits)

lemma converts_wrap:
  assumes "ccast \<rho> = cast_wrap"
  shows "converts \<rho>"
proof -
  have "casts_fit \<rho>" by (rule casts_fit_wrap [OF assms])
  then show ?thesis
    by (auto simp: converts_def represents_def assms cast_wrap_def casts_fit_def split: if_splits)
qed

lemma fits_wider:
  assumes "ConstIntFitsDtype x s" and "IsUnsignedInt s = IsUnsignedInt d" and "GetBit s \<le> GetBit d"
  shows "ConstIntFitsDtype x d"
proof (cases "s = INDEX")
  case False
  have bits: "GetBit s \<noteq> 0" "GetBit d \<noteq> 0" "GetBit d \<le> 64"
    using assms(1,3) False GetBit_le_64 [of d] by (auto simp: ConstIntFitsDtype_def Let_def split: if_splits)
  have "x < 2 ^ GetBit d" if "x < 2 ^ GetBit s"
    by (rule order_less_le_trans [OF that power_increasing]) (use assms(3) in simp_all)
  moreover have "x < 2 ^ (GetBit d - Suc 0)" if "x < 2 ^ (GetBit s - Suc 0)"
    by (rule order_less_le_trans [OF that power_increasing]) (use assms(3) in simp_all)
  moreover have "- (2 ^ (GetBit d - Suc 0)) \<le> x" if "- (2 ^ (GetBit s - Suc 0)) \<le> x"
    by (rule order_trans [OF _ that]) (use assms(3) in \<open>simp add: diff_le_mono\<close>)
  ultimately show ?thesis
    using assms bits False by (simp add: ConstIntFitsDtype_def Let_def split: if_splits)
qed (use assms(2,3) GetBit_le_64 [of d] in \<open>simp add: ConstIntFitsDtype_def Let_def IsUnsignedInt_named\<close>)

text \<open>What the guards of the conversion give: its target represents the value.\<close>

lemma set_cast_represents:
  assumes "GetBit s \<le> GetBit d" and "IsInt d = IsInt s" and "IntervalPreservesDtype t s d"
    and "in_set \<rho> t x" and "represents s x" and "\<not> IsFloat d"
  shows "represents d x"
proof (cases "IsInt s")
  case True
  have int: "IsInt d" "s \<noteq> BOOL" "d \<noteq> BOOL" using True assms(2) by auto
  have x: "is_i64 x" "ConstIntFitsDtype x s" using assms(5) int True by (auto simp: represents_def)
  have "ConstIntFitsDtype x d"
  proof (cases "IsUnsignedInt s = IsUnsignedInt d")
    case True
    show ?thesis by (rule fits_wider [OF x(2) True assms(1)])
  next
    case False
    have lit: "\<exists>v u. b = Some (ConstInt v u) \<and> ConstIntFitsDtype v d" if "bound_preserves False s d b" for b :: "'a expr option"
      using that by (auto simp: bound_preserves_def bind_eq_Some_conv split: option.splits)
    obtain lo hi u w where "set_min t = Some (ConstInt lo u)" "set_max t = Some (ConstInt hi w)"
        and fits: "ConstIntFitsDtype lo d" "ConstIntFitsDtype hi d"
      using assms(3) False lit [of "set_min t"] lit [of "set_max t"] by (auto simp: IntervalPreservesDtype_def)
    then have "lo \<le> x" "x \<le> hi" using assms(4) by (auto simp: in_set_def)
    with fits show ?thesis by (rule ConstIntFitsDtype_between)
  qed
  with int x(1) show ?thesis by (simp add: represents_def)
next
  case False
  have s: "s = BOOL \<or> s = TASK_ID" using assms(5) False by (auto simp: represents_def split: if_splits)
  have bits: "GetBit BOOL = 1" "GetBit TASK_ID = 64" by (simp, simp add: GetBit_def dtype_defs)
  have "d = BOOL \<or> d = TASK_ID" using other_types [of d] False assms(1,2,6) s bits by auto
  moreover have "d = BOOL \<Longrightarrow> s = BOOL" using s assms(1) bits by auto
  ultimately show ?thesis using assms(5) False assms(2) by (auto simp: represents_def)
qed

lemma int_set_converted:
  assumes P: "parent_analyzer P (mathematical \<rho>)" and H: "ptr_ok H" and m: "set_holds m (mathematical \<rho>)"
    and c: "converts \<rho>"
  shows "int_set_visit H P m e = Inr s \<Longrightarrow> operands_fit \<rho> e \<Longrightarrow> eval \<rho> e = Some v \<Longrightarrow> in_set (mathematical \<rho>) s v"
proof (induction e arbitrary: s v)
  case (Binary k a b d)
  obtain x y where v: "eval \<rho> a = Some x" "eval \<rho> b = Some y" "bin_val k x y = Some v"
    using Binary.prems(3) by (rule eval_BinaryE)
  have "set_binary H P k a b d (int_set_visit H P m a) (int_set_visit H P m b) = Inr s"
    using Binary.prems(1) by simp
  then show ?case
    by (rule parent_analyzer.set_binary_sound [OF P _ H _ _ _ v(3)]) (use Binary v in auto)
next
  case (Unary k a d)
  obtain x where v: "eval \<rho> a = Some x" "un_val \<rho> k d x = Some v" "\<not> IsFloat d"
    using Unary.prems(3) by (rule eval_UnaryE)
  have u: "set_unary P k a d (int_set_visit H P m a) = Inr s" using Unary.prems(1) by simp
  have IH: "in_set (mathematical \<rho>) t x" if "int_set_visit H P m a = Inr t" for t
    using Unary.IH [OF that] Unary.prems(2) v(1) by simp
  show ?case
  proof (cases "k = KCast")
    case True
    show ?thesis
    proof (cases "s = EverySet")
      case False
      obtain src where src: "scalar_type a = Some src" "GetBit src \<le> GetBit d" "IsInt d = IsInt src"
        and t: "int_set_visit H P m a = Inr s" "IntervalPreservesDtype s src d"
        using u True False by (auto simp: set_unary_def set_cast_def GetScalarDtype_def split: if_splits option.splits)
      have "represents d x"
        by (rule set_cast_represents [OF src(2,3) t(2) IH [OF t(1)] _ v(3)])
          (use Unary.prems(2) True v(1) src(1) in simp)
      with v(2) c True have "v = x" by (simp add: converts_def)
      then show ?thesis using IH [OF t(1)] by simp
    qed simp
  next
    case False
    then have w: "un_val (mathematical \<rho>) k d x = Some v" using v(2) by (simp add: un_val_mathematical)
    show ?thesis by (rule parent_analyzer.set_unary_sound [OF P u _ IH w]) simp_all
  qed
next
  case (Var i t)
  then show ?case using lookup_set_sound [OF m, of i v "Var i t"] by (auto split: if_splits)
next
  case (IterArg i t)
  then show ?case using lookup_set_sound [OF m, of i v "IterArg i t"] by (auto split: if_splits)
qed (auto split: if_splits)

text \<open>
  Claim C24. The symbolic interval computed for an expression contains its value: the lower bound
  expression evaluates to at most, the upper bound expression to at least the value, whatever the
  parent analyzer simplifies and proves soundly, if the intervals of the variables contain theirs. The
  conversions of the expression may wrap, at any depth: they only have to keep the values that their target type
  represents, and their operands to have values that their own type represents. The guards of \<open>set_cast\<close> see to
  the rest: without the comparison of widths or \<open>IntervalPreservesDtype\<close> a conversion would be given the
  interval of an operand it wraps. The bound expressions are read mathematically.
\<close>

theorem int_set_visit_sound:
  assumes "parent_analyzer P (mathematical \<rho>)" and "ptr_ok H" and "set_holds m (mathematical \<rho>)" and "converts \<rho>"
    and "operands_fit \<rho> e" and "int_set_visit H P m e = Inr s" and "eval \<rho> e = Some v"
  shows "in_set (mathematical \<rho>) s v"
  using int_set_converted [OF assms(1-4) assms(6,5,7)] .

section \<open>Entering and leaving constraints\<close>

definition parents_sound :: "'f parent_of \<Rightarrow> env \<Rightarrow> bool" where
  "parents_sound Q \<rho> \<longleftrightarrow> (\<forall>m. set_holds m \<rho> \<longrightarrow> parent_analyzer (Q m) \<rho>)"

lemma set_tighten_sound:
  assumes "set_tighten Q i t n (m, rec) = Inr (m', rec')" and "set_holds m \<rho>" and "parents_sound Q \<rho>"
    and "exact_casts \<rho>" and "\<And>v. vval \<rho> i = Some v \<Longrightarrow> in_set \<rho> n v"
  shows "set_holds m' \<rho>"
proof (cases "m' = m")
  case False
  define old where "old = (case m i of Some x \<Rightarrow> x | None \<Rightarrow> EverySet)"
  obtain lo hi where lo: "SymMaxLower (Q m) (set_min old) (set_min n) = Inr lo"
    and hi: "SymMinUpper (Q m) (set_max old) (set_max n) = Inr hi" and m': "m' = m(i \<mapsto> Interval lo hi)"
    using assms(1) False
    by (auto simp: set_tighten_def old_def Let_def parent_analyzer.interval_of_Inr interval_of_def split: if_splits option.splits)
  have p: "parent_analyzer (Q m) \<rho>" using assms(2,3) by (simp add: parents_sound_def)
  have "in_set \<rho> (Interval lo hi) v" if v: "vval \<rho> i = Some v" for v
  proof -
    have "in_set \<rho> old v" using assms(2) v by (auto simp: old_def set_holds_def split: option.splits)
    then show ?thesis
      using parent_analyzer.SymMax_ok(1) [OF p assms(4) lo, of v v]
        parent_analyzer.SymMin_ok(2) [OF p assms(4) hi, of v v] assms(5) [OF v]
      by (simp add: in_set_def)
  qed
  then show ?thesis using assms(2) by (auto simp: m' set_holds_def)
qed (use assms(2) in simp)

lemma set_strict_bound_sound:
  assumes "set_strict_bound P bound increment = Inr b" and "parent_analyzer P \<rho>" and "exact_casts \<rho>"
    and "eval \<rho> bound = Some y"
  shows "\<exists>z. eval \<rho> b = Some z \<and> (if increment then z \<le> y + 1 else y - 1 \<le> z)"
proof (cases "b = bound")
  case False
  let ?k = "if increment then KAdd else KSub"
  obtain e where e: "MakeBinary ?k bound (MakeConstInt 1 INT64) = Inr e" and b: "MaybeSimplify P e = Inr b"
    using assms(1) False by (auto simp: set_strict_bound_def split: option.splits if_splits)
  have "eval \<rho> e = bin_val ?k y 1"
    by (rule MakeBinary_eval [OF e assms(3,4)]) (simp add: MakeConstInt_def)
  then have "eval \<rho> b = bin_val ?k y 1"
    using parent_analyzer.MaybeSimplify_sound [OF assms(2) b] by simp
  then show ?thesis by simp
qed (use assms(4) in simp)

lemma constraint_set_sound:
  assumes "constraint_set P k bound = Inr (Some n)" and "parent_analyzer P \<rho>" and "exact_casts \<rho>"
    and "eval \<rho> bound = Some y" and "bin_val k x y = Some 1"
  shows "in_set \<rho> n x"
  using assms(1,4,5) set_strict_bound_sound [OF _ assms(2-4)]
  by (cases k) (fastforce simp: constraint_set_def)+

lemma constraint_set_mirror: "constraint_set P (mirror k) b = Inr (Some n) \<Longrightarrow> bin_val (mirror k) x y = bin_val k y x"
  by (cases k) (auto simp: mirror_def constraint_set_def)

definition scope_holds :: "env \<Rightarrow> 'f set_scope \<Rightarrow> bool" where
  "scope_holds \<rho> s \<longleftrightarrow> set_holds (fst s) \<rho>"

lemma tighten_side_sound:
  assumes "tighten_side Q k a b s = Inr s'" and "scope_holds \<rho> s" and "parents_sound Q \<rho>" and "exact_casts \<rho>"
    and "eval \<rho> a = Some x" and "eval \<rho> b = Some y"
    and "\<And>n P. constraint_set P k b = Inr (Some n) \<Longrightarrow> bin_val k x y = Some 1"
  shows "scope_holds \<rho> s'"
proof (cases "s' = s")
  case False
  obtain m rec where s: "s = (m, rec)" by (cases s)
  obtain m' rec' where s': "s' = (m', rec')" by (cases s')
  obtain i t n where a: "a = Var i t" and n: "constraint_set (Q m) k b = Inr (Some n)"
    and t: "set_tighten Q i t n (m, rec) = Inr (m', rec')"
    using assms(1) False by (auto simp: tighten_side_def s s' split: expr.splits option.splits)
  have p: "parent_analyzer (Q m) \<rho>" using assms(2,3) by (simp add: scope_holds_def parents_sound_def s)
  have "in_set \<rho> n v" if "vval \<rho> i = Some v" for v
    using constraint_set_sound [OF n p assms(4,6) assms(7) [OF n]] assms(5) that a by (simp split: if_splits)
  then show ?thesis
    using set_tighten_sound [OF t _ assms(3,4)] assms(2) by (simp add: scope_holds_def s s')
qed (use assms(2) in simp)

lemma set_parse_sound:
  assumes "parents_sound Q \<rho>" and "exact_casts \<rho>"
  shows "set_parse Q c s = Inr s' \<Longrightarrow> scope_holds \<rho> s \<Longrightarrow> eval \<rho> c = Some 1 \<Longrightarrow> scope_holds \<rho> s'"
proof (induction c arbitrary: s s')
  case (Binary k l r d)
  obtain x y where v: "eval \<rho> l = Some x" "eval \<rho> r = Some y" "bin_val k x y = Some 1"
    using Binary.prems(3) by (rule eval_BinaryE)
  show ?case
  proof (cases "k = KAnd")
    case True
    then obtain s1 where s1: "set_parse Q l s = Inr s1" "set_parse Q r s1 = Inr s'"
      using Binary.prems(1) by auto
    have "eval \<rho> l = Some 1" "eval \<rho> r = Some 1" using v True by (auto simp: is_truth_def)
    then show ?thesis using Binary.IH s1 Binary.prems(2) by blast
  next
    case False
    then obtain s1 where s1: "tighten_side Q k l r s = Inr s1" "tighten_side Q (mirror k) r l s1 = Inr s'"
      using Binary.prems(1) by auto
    have "scope_holds \<rho> s1"
      using tighten_side_sound [OF s1(1) Binary.prems(2) assms v(1,2)] v(3) by blast
    then show ?thesis
      using tighten_side_sound [OF s1(2) _ assms v(2,1)] constraint_set_mirror v(3) by metis
  qed
qed simp_all

lemma int_set_enter_holds:
  assumes "parents_sound Q \<rho>" and "exact_casts \<rho>" and "set_holds m \<rho>"
    and "int_set_enter Q m c = Inr (m', rec)" and "eval \<rho> c = Some 1"
  shows "set_holds m' \<rho>"
  using set_parse_sound [OF assms(1,2), of c "(m, [])" "(m', rec)"] assms(3-)
  by (simp add: int_set_enter_def scope_holds_def)

text \<open>
  Claim C25. Entering a constraint that holds keeps the symbolic intervals of the variables sound,
  for both sides of every comparison and for conjunctions, with strict comparisons of integers
  closed by one. The constraint is one whose conversions lose nothing where they are met, since the bounds it gives
  are read mathematically; other conversions may wrap. What the parent, which sees the map,
  simplifies and proves is true whenever the map holds.
\<close>

theorem int_set_enter_sound:
  assumes "parents_sound Q (mathematical \<rho>)" and "set_holds m (mathematical \<rho>)"
    and "int_set_enter Q m c = Inr (m', rec)" and "lossless \<rho> c" and "eval \<rho> c = Some 1"
  shows "set_holds m' (mathematical \<rho>)"
proof -
  have "eval (mathematical \<rho>) c = Some 1" using assms(4,5) by (simp add: lossless_eval)
  from int_set_enter_holds [OF assms(1) _ assms(2,3) this] show ?thesis by simp
qed

text \<open>
  Recovery. An entry without bounds is restored by erasing the variable, whose interval is then
  the variable itself; maps without such entries are restored exactly.
\<close>

definition no_everything :: "'f set_map \<Rightarrow> bool" where
  "no_everything m \<longleftrightarrow> (\<forall>i s. m i = Some s \<longrightarrow> \<not> set_is_everything s)"

lemma sym_choose_Some: "sym_choose P f g k a b = Inr o' \<Longrightarrow> o' \<noteq> None"
  by (auto simp: sym_choose_def sym_make_def split: option.splits if_splits)

lemma tightened_bounded:
  assumes "SymMaxLower P a b = Inr lo" and "SymMinUpper P c d = Inr hi" and "b \<noteq> None \<or> d \<noteq> None"
  shows "lo \<noteq> None \<or> hi \<noteq> None"
  using assms by (auto simp: SymMaxLower_def SymMinUpper_def dest: sym_choose_Some split: option.splits)

definition scope_undoes :: "'f set_scope \<Rightarrow> 'f set_map \<Rightarrow> bool" where
  "scope_undoes s m \<longleftrightarrow> no_everything (fst s) \<and> int_set_recover (snd s) (fst s) = m"

lemma set_tighten_undoes:
  assumes "set_tighten Q i t n s = Inr s'" and "scope_undoes s m0"
  shows "scope_undoes s' m0"
proof (cases "s' = s")
  case False
  obtain m rec where s: "s = (m, rec)" by (cases s)
  define old where "old = (case m i of Some x \<Rightarrow> x | None \<Rightarrow> EverySet)"
  obtain lo hi where lo: "SymMaxLower (Q m) (set_min old) (set_min n) = Inr lo"
    and hi: "SymMinUpper (Q m) (set_max old) (set_max n) = Inr hi" and n: "\<not> set_is_everything n"
    and s': "s' = (m(i \<mapsto> Interval lo hi), rec @ [(i, old)])"
    using assms(1) False
    by (auto simp: set_tighten_def s old_def Let_def interval_of_def split: if_splits option.splits)
  have "\<not> set_is_everything (Interval lo hi)"
    using tightened_bounded [OF lo hi] n by (auto simp: set_is_everything_def)
  moreover have "set_restore (i, old) (m(i \<mapsto> Interval lo hi)) = m"
    using assms(2) by (auto simp: set_restore_def old_def scope_undoes_def no_everything_def s
        set_is_everything_def EverySet_def fun_eq_iff split: option.splits)
  ultimately show ?thesis
    using assms(2) by (simp add: scope_undoes_def no_everything_def int_set_recover_def s s')
qed (use assms(2) in simp)

lemma set_parse_undoes: "set_parse Q c s = Inr s' \<Longrightarrow> scope_undoes s m0 \<Longrightarrow> scope_undoes s' m0"
proof (induction c arbitrary: s s')
  case (Binary k l r d)
  have side: "scope_undoes s2 m0" if "tighten_side Q j a b s1 = Inr s2" "scope_undoes s1 m0" for j a b s1 s2
    using that by (auto simp: tighten_side_def intro: set_tighten_undoes split: expr.splits option.splits)
  show ?case
  proof (cases "k = KAnd")
    case True
    then obtain s1 where s1: "set_parse Q l s = Inr s1" "set_parse Q r s1 = Inr s'"
      using Binary.prems(1) by auto
    show ?thesis by (rule Binary.IH(2) [OF s1(2) Binary.IH(1) [OF s1(1) Binary.prems(2)]])
  next
    case False
    then obtain s1 where s1: "tighten_side Q k l r s = Inr s1" "tighten_side Q (mirror k) r l s1 = Inr s'"
      using Binary.prems(1) by auto
    show ?thesis by (rule side [OF s1(2) side [OF s1(1) Binary.prems(2)]])
  qed
qed simp_all

text \<open>
  Leaving a constraint scope gives back the variable map the scope was entered with, if
  no variable had an explicit interval without bounds.
\<close>

theorem int_set_recover_restores:
  assumes "no_everything m" and "int_set_enter Q m c = Inr (m', rec)"
  shows "int_set_recover rec m' = m"
  using set_parse_undoes [of Q c "(m, [])" "(m', rec)" m] assms
  by (simp add: int_set_enter_def scope_undoes_def int_set_recover_def)

section \<open>Bindings\<close>

text \<open>
  Binding a variable to the half-open range between two expressions is sound: the
  exclusive upper bound is made inclusive, by folding when it is a literal.
\<close>

theorem int_set_bind_sound:
  assumes "parent_analyzer P \<rho>" and "ptr_ok H" and "exact_casts \<rho>" and "set_holds m \<rho>"
    and "int_set_bind H P i lo hi m = Inr m'" and "wf_expr hi"
    and "eval \<rho> lo = Some l" and "eval \<rho> hi = Some h" and "vval \<rho> i = Some v" and "l \<le> v" and "v < h"
  shows "set_holds m' \<rho>"
proof -
  let ?one = "MakeConstInt 1 INT64"
  obtain sub folded mx where sub: "MakeBinary KSub hi ?one = Inr sub" and f: "TryConstFold H sub = Inr folded"
    and mx: "(case folded of Some e \<Rightarrow> Inr e | None \<Rightarrow> MaybeSimplify P sub) = Inr mx"
    and m': "m' = m(i \<mapsto> Interval (Some lo) (Some mx))"
    using assms(5) by (auto simp: int_set_bind_def)
  have "eval \<rho> sub = bin_val KSub h 1"
    by (rule MakeBinary_eval [OF sub assms(3,8)]) (simp add: MakeConstInt_def)
  then have e: "eval \<rho> sub = Some (h - 1)" by simp
  have wf: "wf_expr sub" using MakeBinary_wf [OF sub] assms(6) by (simp add: MakeConstInt_def is_i64_alt)
  have "eval \<rho> mx = Some (h - 1)"
  proof (cases folded)
    case None
    then show ?thesis using parent_analyzer.MaybeSimplify_sound [OF assms(1) _ e] mx by simp
  next
    case (Some x)
    have "casts_fit \<rho>" using assms(3) by (intro casts_fit_id) (simp add: exact_casts_def)
    then show ?thesis using fold_value [OF assms(2) _ wf _ e] f mx Some by simp
  qed
  then show ?thesis using assms(4,7,9-) by (auto simp: m' set_holds_def)
qed

section \<open>The analysis without a parent, and nested scopes\<close>

text \<open>The standalone analyzer, whose parent is the null pointer.\<close>

interpretation standalone: parent_analyzer None \<rho> for \<rho>
  by unfold_locales simp_all

lemma standalone_parents: "parents_sound (\<lambda>_. None) \<rho>"
  by (simp add: parents_sound_def standalone.parent_analyzer_axioms)

definition set_describes :: "'f host \<Rightarrow> 'f parent_of \<Rightarrow> 'f set_map \<Rightarrow> env \<Rightarrow> bool" where
  "set_describes H Q m \<rho> \<longleftrightarrow> set_holds m \<rho> \<and> ptr_ok H \<and> exact_casts \<rho> \<and> parents_sound Q \<rho>"

interpretation int_set: sound_scopes "\<lambda>m. int_set_visit H (Q m) m" "int_set_enter Q" "set_describes H Q"
    "\<lambda>_ _. True" "\<lambda>_ _. True" in_set for H :: "'f host" and Q
proof (unfold_locales, goal_cases)
  case (1 m \<rho> e s v)
  then have "parent_analyzer (Q m) \<rho>" by (simp add: set_describes_def parents_sound_def)
  then show ?case using 1 by (intro int_set_sound [where m = m]) (auto simp: set_describes_def)
next
  case (2 m \<rho> c m' rec)
  then show ?case using int_set_enter_holds [of Q \<rho> m c m' rec] by (simp add: set_describes_def)
qed

text \<open>
  Inside nested constraint scopes the symbolic interval of an expression contains its
  value in every environment that satisfies the constraints.
\<close>

theorem int_set_nested_scopes_sound:
  fixes e :: "'f expr" and cs :: "'f expr list"
  assumes "set_describes H Q m \<rho>" and "\<forall>c\<in>set cs. eval \<rho> c = Some 1"
    and "enter_all (int_set_enter Q) m cs [] = Inr (m', rs)"
    and "int_set_visit H (Q m') m' e = Inr s" and "eval \<rho> e = Some v"
  shows "in_set \<rho> s v"
  using int_set.scope_query_sound [OF assms(1) _ assms(3) _ assms(4,5)] assms(2) by simp

section \<open>The theorems at work\<close>

text \<open>\<open>x\<close> in \<open>[0, n - 1]\<close> and the guard \<open>x < m\<close>: the interval of \<open>x * 4 + 3\<close>.\<close>

definition example_sets :: "int set_map" where
  "example_sets = [0 \<mapsto> Interval (Some (ilit 0)) (Some (ibin KSub (ivar 1) (ConstInt 1 INT64)))]"

definition set_env :: env where
  "set_env = env_of [0 \<mapsto> 5, 1 \<mapsto> 9, 2 \<mapsto> 7] cast_id"

definition scaled :: "int expr" where
  "scaled = ibin KAdd (ibin KMul (ivar 0) (ilit 4)) (ilit 3)"

definition set_guard :: "int expr" where
  "set_guard = ibin KLt (ivar 0) (ivar 2)"

lemma set_env_exact: "exact_casts set_env"
  by (simp add: exact_casts_def set_env_def)

lemma example_sets_hold: "set_holds example_sets set_env"
  by (auto simp: set_holds_def example_sets_def set_env_def int_instance_defs split: if_splits)

definition scaled_set :: "int IntSet" where
  "scaled_set = Interval (Some (ibin KAdd (ibin KMul (ilit 0) (ilit 4)) (ilit 3)))
     (Some (ibin KAdd (ibin KMul (ibin KSub (ivar 1) (ConstInt 1 INT64)) (ilit 4)) (ilit 3)))"

lemma scaled_visit: "int_set_visit int_host None example_sets scaled = Inr scaled_set"
  by code_simp

text \<open>
  Where conversions wrap: \<open>x\<close> in \<open>[0, n - 1]\<close>, widened to 64 bits, has the interval of \<open>x\<close>, while the
  conversion of \<open>x * 100\<close>, which is 500, to 8 bits, where it is -12, has no bounds.
\<close>

definition wrapping_set_env :: env where
  "wrapping_set_env = env_of [0 \<mapsto> 5, 1 \<mapsto> 9, 2 \<mapsto> 7] cast_wrap"

definition narrow_min :: "int expr" where
  "narrow_min = ibin KMin (Unary KCast scaled INT64) (Unary KCast (ibin KMul (ivar 0) (ilit 100)) INT8)"

definition narrow_min_set :: "int IntSet" where
  "narrow_min_set = Interval None (set_max scaled_set)"

lemma narrow_min_visit: "int_set_visit int_host None example_sets narrow_min = Inr narrow_min_set"
  by code_simp

lemma mathematical_set_env: "mathematical wrapping_set_env = set_env"
  by (simp add: mathematical_def wrapping_set_env_def set_env_def env_of_def)

lemma int_set_visit_sound_witness:
  "eval wrapping_set_env narrow_min = Some (- 12) \<and> in_set set_env narrow_min_set (- 12)"
proof -
  have v: "eval wrapping_set_env narrow_min = Some (- 12)"
    by (simp add: narrow_min_def scaled_def wrapping_set_env_def int_instance_defs cast_wrap_def)
  have "represents INDEX 23" "represents INDEX 500" by code_simp+
  then have "operands_fit wrapping_set_env narrow_min"
    by (simp add: narrow_min_def scaled_def wrapping_set_env_def int_instance_defs)
  moreover have "converts wrapping_set_env" by (rule converts_wrap) (simp add: wrapping_set_env_def)
  ultimately have "in_set (mathematical wrapping_set_env) narrow_min_set (- 12)"
    using int_set_visit_sound [OF standalone.parent_analyzer_axioms int_host_ok _ _ _ narrow_min_visit v]
      example_sets_hold by (simp add: mathematical_set_env)
  with v show ?thesis by (simp add: mathematical_set_env)
qed

text \<open>The guard bounds both its variables: \<open>x <= m - 1\<close> and \<open>m >= x + 1\<close>.\<close>

definition minus_one :: "nat \<Rightarrow> int expr" where
  "minus_one i = ibin KSub (ivar i) (ConstInt 1 INT64)"

definition tightened_sets :: "int set_map" where
  "tightened_sets = example_sets(0 \<mapsto> Interval (Some (ilit 0)) (Some (ibin KMin (minus_one 1) (minus_one 2))))"

definition guarded_sets :: "int set_map" where
  "guarded_sets = tightened_sets(2 \<mapsto> Interval (Some (ibin KAdd (ivar 0) (ConstInt 1 INT64))) None)"

lemma upper_tightened:
  "SymMinUpper None (Some (minus_one 1)) (Some (minus_one 2)) = Inr (Some (ibin KMin (minus_one 1) (minus_one 2)))"
  "set_strict_bound None (ivar 2) False = Inr (minus_one 2)"
  "set_strict_bound None (ivar 0) True = Inr (ibin KAdd (ivar 0) (ConstInt 1 INT64))"
  by code_simp+

lemmas tighten_simps = tighten_side_def ivar_def ilit_def constraint_set_def set_tighten_def interval_of_def
  SymMaxLower_def SymMinUpper_def numeric_scalar_def matches_category_def set_is_everything_def EverySet_def
  ibin_def is_compare_def is_logical_def minus_one_def

lemma set_guard_enter: "\<exists>rec. int_set_enter (\<lambda>_. None) example_sets set_guard = Inr (guarded_sets, rec)"
proof -
  have old: "example_sets 0 = Some (Interval (Some (ilit 0)) (Some (minus_one 1)))" "tightened_sets 2 = None"
    by (simp_all add: example_sets_def tightened_sets_def minus_one_def)
  have "tighten_side (\<lambda>_. None) KLt (ivar 0) (ivar 2) (example_sets, []) =
      Inr (tightened_sets, [(0, Interval (Some (ilit 0)) (Some (minus_one 1)))])"
    using upper_tightened(1,2) old(1) unfolding tightened_sets_def
    by (simp add: tighten_simps)
  moreover have "\<exists>rec'. tighten_side (\<lambda>_. None) KGt (ivar 2) (ivar 0) (tightened_sets, rec) = Inr (guarded_sets, rec')"
    for rec
    using upper_tightened(3) old(2) unfolding guarded_sets_def by (simp add: tighten_simps)
  ultimately show ?thesis
    by (simp add: int_set_enter_def set_guard_def ibin_def is_compare_def mirror_def)
qed

lemma set_guard_holds: "eval set_env set_guard = Some 1"
  by (simp add: set_guard_def set_env_def int_instance_defs)

lemma int_set_enter_sound_witness: "set_holds guarded_sets set_env"
proof -
  obtain rec where r: "int_set_enter (\<lambda>_. None) example_sets set_guard = Inr (guarded_sets, rec)"
    using set_guard_enter by blast
  have h: "set_holds example_sets (mathematical wrapping_set_env)"
    unfolding mathematical_set_env by (rule example_sets_hold)
  have "lossless wrapping_set_env set_guard" "eval wrapping_set_env set_guard = Some 1"
    by (simp_all add: set_guard_def wrapping_set_env_def int_instance_defs)
  from int_set_enter_sound [OF standalone_parents h r this] show ?thesis unfolding mathematical_set_env .
qed

lemma int_set_recover_restores_witness: "\<exists>rec. int_set_recover rec guarded_sets = example_sets"
proof -
  have n: "no_everything example_sets"
    by (simp add: no_everything_def example_sets_def set_is_everything_def)
  obtain rec where "int_set_enter (\<lambda>_. None) example_sets set_guard = Inr (guarded_sets, rec)"
    using set_guard_enter by blast
  from int_set_recover_restores [OF n this] show ?thesis ..
qed

lemma int_set_nested_scopes_sound_witness:
  "\<exists>s. int_set_visit int_host None guarded_sets (ivar 2) = Inr s \<and> in_set set_env s 7"
proof -
  obtain rec where "int_set_enter (\<lambda>_. None) example_sets set_guard = Inr (guarded_sets, rec)"
    using set_guard_enter by blast
  then have n: "enter_all (int_set_enter (\<lambda>_. None)) example_sets [set_guard] [] = Inr (guarded_sets, [rec])"
    by simp
  have d: "set_describes int_host (\<lambda>_. None) example_sets set_env"
    by (simp add: set_describes_def example_sets_hold set_env_exact standalone_parents)
  have v: "int_set_visit int_host None guarded_sets (ivar 2) =
      Inr (Interval (Some (ibin KAdd (ivar 0) (ConstInt 1 INT64))) None)"
    by (simp add: ivar_def guarded_sets_def lookup_set_def)
  have "in_set set_env (Interval (Some (ibin KAdd (ivar 0) (ConstInt 1 INT64))) None) 7"
    by (rule int_set_nested_scopes_sound [OF d _ n v])
       (simp_all add: set_guard_holds, simp add: set_env_def ivar_def)
  with v show ?thesis by blast
qed

text \<open>Binding \<open>x\<close> to \<open>[0, 8)\<close> folds the inclusive upper bound to 7.\<close>

lemma bind_upper: "TryConstFold int_host (ibin KSub (ilit 8) (ConstInt 1 INT64)) = Inr (Some (ilit 7))"
  "MakeBinary KSub (ilit 8) (MakeConstInt 1 INT64) = Inr (ibin KSub (ilit 8) (ConstInt 1 INT64))"
  by code_simp+

lemma int_set_bind_sound_witness:
  "set_holds [0 \<mapsto> Interval (Some (ilit 0)) (Some (ilit 7))] set_env"
proof -
  have b: "int_set_bind int_host None 0 (ilit 0) (ilit 8) Map.empty =
      Inr [0 \<mapsto> Interval (Some (ilit 0)) (Some (ilit 7))]"
    unfolding int_set_bind_def bind_upper(2) by (simp add: bind_upper(1))
  show ?thesis
    by (rule int_set_bind_sound [OF standalone.parent_analyzer_axioms int_host_ok set_env_exact _ b, of 0 8 5])
       (simp_all add: set_holds_def ilit_def set_env_def is_i64_alt)
qed

text \<open>
  An explicit interval without bounds, which \<open>Update\<close> accepts, does not survive a scope: it is
  restored by erasing the variable, whose interval is then the variable itself.
\<close>

lemma everything_not_restored:
  "int_set_visit int_host None [0 \<mapsto> EverySet] (ivar 0) = Inr EverySet \<and>
   int_set_visit int_host None (int_set_recover [(0, EverySet)] [0 \<mapsto> Interval None (Some (ilit 4))]) (ivar 0) =
     Inr (SinglePoint (ivar 0))"
  by (simp add: ivar_def lookup_set_def int_set_recover_def set_restore_def set_is_everything_def EverySet_def)

end
