(* ===== verification/Pattern_Match.thy ===== *)
theory Pattern_Match
  imports Const_Fold
begin

text \<open>
  The pattern language of the rewriter, \<^verbatim>\<open>include/pypto/ir/arith/pattern_match.h\<close>: the template
  classes \<open>PVar\<close>, \<open>PConstWithTypeLike\<close>, \<open>PExprLiteral\<close>, \<open>PBinaryExpr\<close>, \<open>PUnaryExpr\<close>, \<open>PCastExpr\<close>
  are the constructors of one datatype; the mutable fields \<open>value_\<close> and \<open>filled_\<close> of the pattern
  variables are an explicit binding, threaded through \<open>Match_\<close> from left to right; \<open>Eval\<close> builds
  the node a pattern stands for, folding literals on the way. A rule is what the macros
  \<open>PYPTO_TRY_REWRITE\<close> and \<open>PYPTO_TRY_REWRITE_IF\<close> expand to. Also here: the structural comparison
  of \<^verbatim>\<open>src/ir/transforms/structural_comparison.cpp\<close> restricted to the expressions of this library.

  Shown: matching an expression that has a value gives the pattern the same value
  (\<open>Match_value\<close>), evaluating a pattern gives a node of the value of the pattern (\<open>Eval_value\<close>), so
  that a rule that holds of integers keeps the value of every expression it rewrites
  (\<open>try_rules_value\<close>); literals stay 64-bit integers.
\<close>

section \<open>Structural equality\<close>

text \<open>
  Calls and the other nodes with children outside this library are leaves here; whether two of
  them have equal structure, and of what kind they are, is a parameter. So is whether the
  projection accepts an expression: it throws beyond a nesting depth of 512 and on attribute
  values it does not know.
\<close>

record 'f projection =
  leaf_equal :: "nat \<Rightarrow> nat \<Rightarrow> bool"
  opaque_kind :: "nat \<Rightarrow> nat"
  supported :: "'f expr \<Rightarrow> bool"

primrec same_structure :: "'f projection \<Rightarrow> 'f expr \<Rightarrow> 'f expr \<Rightarrow> bool" where
  "same_structure S (ConstInt v d) r = (case r of ConstInt w d' \<Rightarrow> v = w \<and> d = d' | _ \<Rightarrow> False)"
| "same_structure S (ConstFloat v d) r = (case r of ConstFloat w d' \<Rightarrow> v = w \<and> d = d' | _ \<Rightarrow> False)"
| "same_structure S (ConstBool a) r = (case r of ConstBool b \<Rightarrow> a = b | _ \<Rightarrow> False)"
| "same_structure S (Var i t) r = (case r of Var j t' \<Rightarrow> i = j \<and> t = t' | _ \<Rightarrow> False)"
| "same_structure S (IterArg i t) r = (case r of IterArg j t' \<Rightarrow> i = j \<and> t = t' | _ \<Rightarrow> False)"
| "same_structure S (Call f i t) r =
     (case r of Call g j t' \<Rightarrow> f = g \<and> t = t' \<and> (i = j \<or> leaf_equal S i j) | _ \<Rightarrow> False)"
| "same_structure S (Opaque i t) r =
     (case r of
        Opaque j t' \<Rightarrow> opaque_kind S i = opaque_kind S j \<and> t = t' \<and> (i = j \<or> leaf_equal S i j)
      | _ \<Rightarrow> False)"
| "same_structure S (Binary k a b d) r =
     (case r of
        Binary k' a' b' d' \<Rightarrow> k = k' \<and> d = d' \<and> same_structure S a a' \<and> same_structure S b b'
      | _ \<Rightarrow> False)"
| "same_structure S (Unary k a d) r =
     (case r of Unary k' a' d' \<Rightarrow> k = k' \<and> d = d' \<and> same_structure S a a' | _ \<Rightarrow> False)"

definition structural_equal :: "'f projection \<Rightarrow> 'f expr \<Rightarrow> 'f expr \<Rightarrow> bool res" where
  "structural_equal S l r =
     (if supported S l \<and> supported S r then Inr (same_structure S l r) else Inl TypeError)"

text \<open>\<open>GetKind() == GetKind()\<close>.\<close>

definition same_kind :: "'f projection \<Rightarrow> 'f expr \<Rightarrow> 'f expr \<Rightarrow> bool" where
  "same_kind S l r =
     (case l of
        ConstInt _ _ \<Rightarrow> (case r of ConstInt _ _ \<Rightarrow> True | _ \<Rightarrow> False)
      | ConstFloat _ _ \<Rightarrow> (case r of ConstFloat _ _ \<Rightarrow> True | _ \<Rightarrow> False)
      | ConstBool _ \<Rightarrow> (case r of ConstBool _ \<Rightarrow> True | _ \<Rightarrow> False)
      | Var _ _ \<Rightarrow> (case r of Var _ _ \<Rightarrow> True | _ \<Rightarrow> False)
      | IterArg _ _ \<Rightarrow> (case r of IterArg _ _ \<Rightarrow> True | _ \<Rightarrow> False)
      | Call _ _ _ \<Rightarrow> (case r of Call _ _ _ \<Rightarrow> True | _ \<Rightarrow> False)
      | Opaque i _ \<Rightarrow> (case r of Opaque j _ \<Rightarrow> opaque_kind S i = opaque_kind S j | _ \<Rightarrow> False)
      | Binary k _ _ _ \<Rightarrow> (case r of Binary k' _ _ _ \<Rightarrow> k = k' | _ \<Rightarrow> False)
      | Unary k _ _ \<Rightarrow> (case r of Unary k' _ _ \<Rightarrow> k = k' | _ \<Rightarrow> False))"

text \<open>\<open>PEqualChecker<ExprPtr>\<close>.\<close>

definition expr_equal :: "'f host \<Rightarrow> 'f projection \<Rightarrow> 'f expr \<Rightarrow> 'f expr \<Rightarrow> bool res" where
  "expr_equal H S l r =
     (if same_ptr H l r then Inr True
      else if \<not> same_kind S l r then Inr False
      else case (as_int l, as_int r) of
        (Some (v, d), Some (w, d')) \<Rightarrow> Inr (v = w \<and> d = d')
      | _ \<Rightarrow> (case (as_bool l, as_bool r) of
          (Some a, Some b) \<Rightarrow> Inr (a = b)
        | _ \<Rightarrow> structural_equal S l r))"

section \<open>Patterns\<close>

datatype 'f pat =
    PVar nat
  | PVarInt nat
  | PConstWithTypeLike "'f pat" int
  | PExprLiteral "'f expr"
  | PBinaryExpr binop "'f pat" "'f pat"
  | PUnaryExpr unop "'f pat"
  | PCastExpr DataType "'f pat"

text \<open>The values of the pattern variables; \<open>None\<close> is \<open>filled_ = false\<close>.\<close>

record 'f binding =
  filled :: "nat \<Rightarrow> 'f expr option"
  filled_int :: "nat \<Rightarrow> (int \<times> DataType) option"

definition InitMatch :: "'f binding" where
  "InitMatch = \<lparr>filled = \<lambda>_. None, filled_int = \<lambda>_. None\<rparr>"

text \<open>\<open>Match_\<close>: a binding, or \<open>None\<close> when the pattern does not match.\<close>

fun Match_in ::
  "'f host \<Rightarrow> 'f projection \<Rightarrow> 'f pat \<Rightarrow> 'f expr \<Rightarrow> 'f binding \<Rightarrow> 'f binding option res" where
  "Match_in H S (PVar i) e b =
     (case filled b i of
        None \<Rightarrow> Inr (Some (b\<lparr>filled := (filled b)(i \<mapsto> e)\<rparr>))
      | Some old \<Rightarrow> res_bind (expr_equal H S old e) (\<lambda>q. Inr (if q then Some b else None)))"
| "Match_in H S (PVarInt i) e b =
     (case as_int e of
        None \<Rightarrow> Inr None
      | Some (v, d) \<Rightarrow> (case filled_int b i of
          None \<Rightarrow> Inr (Some (b\<lparr>filled_int := (filled_int b)(i \<mapsto> (v, d))\<rparr>))
        | Some old \<Rightarrow> Inr (if old = (v, d) then Some b else None)))"
| "Match_in H S (PConstWithTypeLike p c) e b =
     (case as_int e of Some (v, d) \<Rightarrow> Inr (if v = c then Some b else None) | None \<Rightarrow> Inr None)"
| "Match_in H S (PExprLiteral l) e b = Inr (if same_ptr H l e then Some b else None)"
| "Match_in H S (PBinaryExpr k p q) e b =
     (case e of
        Binary k' l r d \<Rightarrow>
          if k' \<noteq> k then Inr None
          else res_bind (Match_in H S p l b) (\<lambda>m.
            case m of None \<Rightarrow> Inr None | Some b' \<Rightarrow> Match_in H S q r b')
      | _ \<Rightarrow> Inr None)"
| "Match_in H S (PUnaryExpr k p) e b =
     (case e of
        Unary k' a d \<Rightarrow> if k' \<noteq> k then Inr None else Match_in H S p a b
      | _ \<Rightarrow> Inr None)"
| "Match_in H S (PCastExpr t p) e b =
     (case e of
        Unary k' a d \<Rightarrow> if k' \<noteq> KCast \<or> d \<noteq> t then Inr None else Match_in H S p a b
      | _ \<Rightarrow> Inr None)"

definition Match :: "'f host \<Rightarrow> 'f projection \<Rightarrow> 'f pat \<Rightarrow> 'f expr \<Rightarrow> 'f binding option res" where
  "Match H S p e = Match_in H S p e InitMatch"

text \<open>\<open>Eval\<close>; a variable that was not matched is a failed \<open>INTERNAL_CHECK\<close>.\<close>

fun Eval :: "'f host \<Rightarrow> 'f binding \<Rightarrow> 'f pat \<Rightarrow> 'f expr res" where
  "Eval H b (PVar i) = (case filled b i of Some e \<Rightarrow> Inr e | None \<Rightarrow> Inl InternalError)"
| "Eval H b (PVarInt i) =
     (case filled_int b i of Some (v, d) \<Rightarrow> Inr (ConstInt v d) | None \<Rightarrow> Inl InternalError)"
| "Eval H b (PConstWithTypeLike p c) =
     res_bind (Eval H b p) (\<lambda>e. res_bind (GetScalarDtype e) (\<lambda>d. Inr (MakeConstInt c d)))"
| "Eval H b (PExprLiteral e) = Inr e"
| "Eval H b (PBinaryExpr k p q) =
     res_bind (Eval H b p) (\<lambda>l. res_bind (Eval H b q) (\<lambda>r.
     res_bind (TryConstFoldBinaryLhs H k l r) (\<lambda>folded.
       case folded of Some e \<Rightarrow> Inr e | None \<Rightarrow> MakeBinary k l r)))"
| "Eval H b (PUnaryExpr k p) =
     res_bind (Eval H b p) (\<lambda>a.
       case TryConstFoldUnary H k a of Some e \<Rightarrow> Inr e | None \<Rightarrow> MakeUnary k a)"
| "Eval H b (PCastExpr t p) = res_bind (Eval H b p) (\<lambda>a. Inr (MakeCast a t))"

section \<open>Rules\<close>

text \<open>
  A rule has source patterns, tried in order, and branches: the first whose guard holds gives the
  result pattern and whether the result is rewritten again (\<open>RecursiveRewrite\<close>) or returned as it
  is. When no guard holds the next rule is tried.
\<close>

type_synonym 'f guard = "'f binding \<Rightarrow> bool res"

datatype 'f rule = Rule "'f pat list" "('f guard \<times> 'f pat \<times> bool) list"

definition always :: "'f guard" where
  "always b = Inr True"

definition TRY_REWRITE :: "'f pat \<Rightarrow> 'f pat \<Rightarrow> 'f rule" where
  "TRY_REWRITE src result = Rule [src] [(always, result, True)]"

definition TRY_REWRITE_IF :: "'f pat \<Rightarrow> 'f pat \<Rightarrow> 'f guard \<Rightarrow> 'f rule" where
  "TRY_REWRITE_IF src result cond = Rule [src] [(cond, result, True)]"

fun first_match ::
  "'f host \<Rightarrow> 'f projection \<Rightarrow> 'f pat list \<Rightarrow> 'f expr \<Rightarrow> 'f binding option res" where
  "first_match H S [] e = Inr None"
| "first_match H S (p # ps) e =
     res_bind (Match H S p e) (\<lambda>m.
       case m of Some b \<Rightarrow> Inr (Some b) | None \<Rightarrow> first_match H S ps e)"

fun first_branch ::
  "('f guard \<times> 'f pat \<times> bool) list \<Rightarrow> 'f binding \<Rightarrow> ('f pat \<times> bool) option res" where
  "first_branch [] b = Inr None"
| "first_branch ((g, p, again) # brs) b =
     res_bind (g b) (\<lambda>ok. if ok then Inr (Some (p, again)) else first_branch brs b)"

fun try_rules ::
  "'f host \<Rightarrow> 'f projection \<Rightarrow> 'f rule list \<Rightarrow> 'f expr \<Rightarrow> ('f expr \<times> bool) option res" where
  "try_rules H S [] e = Inr None"
| "try_rules H S (Rule srcs brs # rs) e =
     res_bind (first_match H S srcs e) (\<lambda>m.
       case m of
         None \<Rightarrow> try_rules H S rs e
       | Some b \<Rightarrow> res_bind (first_branch brs b) (\<lambda>br.
           case br of
             None \<Rightarrow> try_rules H S rs e
           | Some (p, again) \<Rightarrow> res_bind (Eval H b p) (\<lambda>e'. Inr (Some (e', again)))))"

section \<open>Correctness\<close>

text \<open>
  Two calls (or other leaves) of equal structure have the same value: calls in scalar expressions
  are pure, which is what the structural fallback of \<open>PEqualChecker\<close> relies on.
\<close>

definition leaves_agree :: "'f projection \<Rightarrow> env \<Rightarrow> bool" where
  "leaves_agree S \<rho> \<longleftrightarrow> (\<forall>f i j. leaf_equal S i j \<longrightarrow> cval \<rho> f i = cval \<rho> f j \<and> oval \<rho> i = oval \<rho> j)"

lemma same_structure_eval: "leaves_agree S \<rho> \<Longrightarrow> same_structure S l r \<Longrightarrow> eval \<rho> l = eval \<rho> r"
  by (induction l arbitrary: r) (auto simp: leaves_agree_def split: expr.splits)

lemma expr_equal_cases:
  assumes "expr_equal H S l r = Inr True"
  shows "same_ptr H l r \<or> (\<exists>v d. l = ConstInt v d \<and> r = ConstInt v d) \<or>
    (\<exists>a. l = ConstBool a \<and> r = ConstBool a) \<or> same_structure S l r"
  using assms by (simp add: expr_equal_def structural_equal_def del: same_structure.simps
      split: if_splits option.splits prod.splits; blast)

lemma expr_equal_eval:
  assumes "ptr_ok H" and "leaves_agree S \<rho>" and "expr_equal H S l r = Inr True"
  shows "eval \<rho> l = eval \<rho> r"
  using expr_equal_cases [OF assms(3)] ptr_okD [OF assms(1)] same_structure_eval [OF assms(2)] by blast

text \<open>The values of the matched variables, and the value of a pattern over them.\<close>

definition xval :: "env \<Rightarrow> 'f binding \<Rightarrow> nat \<Rightarrow> int" where
  "xval \<rho> b i = the (Option.bind (filled b i) (eval \<rho>))"

definition ival :: "'f binding \<Rightarrow> nat \<Rightarrow> int" where
  "ival b i = fst (the (filled_int b i))"

definition has_values :: "env \<Rightarrow> 'f binding \<Rightarrow> bool" where
  "has_values \<rho> b \<longleftrightarrow>
     (\<forall>i e. filled b i = Some e \<longrightarrow> (\<exists>v. eval \<rho> e = Some v)) \<and>
     (\<forall>i v d. filled_int b i = Some (v, d) \<longrightarrow> \<not> IsFloat d)"

primrec pat_value :: "env \<Rightarrow> 'f binding \<Rightarrow> 'f pat \<Rightarrow> int option" where
  "pat_value \<rho> b (PVar i) = Some (xval \<rho> b i)"
| "pat_value \<rho> b (PVarInt i) = Some (ival b i)"
| "pat_value \<rho> b (PConstWithTypeLike p c) = Option.bind (pat_value \<rho> b p) (\<lambda>_. Some c)"
| "pat_value \<rho> b (PExprLiteral e) = eval \<rho> e"
| "pat_value \<rho> b (PBinaryExpr k p q) =
     Option.bind (pat_value \<rho> b p) (\<lambda>x. Option.bind (pat_value \<rho> b q) (bin_val k x))"
| "pat_value \<rho> b (PUnaryExpr k p) = Option.bind (pat_value \<rho> b p) (un_val \<rho> k BOOL)"
| "pat_value \<rho> b (PCastExpr t p) =
     (if IsFloat t then None else Option.bind (pat_value \<rho> b p) (ccast \<rho> t))"

text \<open>Matching only adds to a binding.\<close>

definition extends :: "'f binding \<Rightarrow> 'f binding \<Rightarrow> bool" where
  "extends b b' \<longleftrightarrow> filled b \<subseteq>\<^sub>m filled b' \<and> filled_int b \<subseteq>\<^sub>m filled_int b'"

lemma extends_refl [simp]: "extends b b"
  by (simp add: extends_def)

lemma extends_trans: "extends a b \<Longrightarrow> extends b c \<Longrightarrow> extends a c"
  by (auto simp: extends_def intro: map_le_trans)

lemma extends_filled: "extends b b' \<Longrightarrow> filled b i = Some e \<Longrightarrow> filled b' i = Some e"
  by (auto simp: extends_def map_le_def dom_def)

lemma extends_filled_int: "extends b b' \<Longrightarrow> filled_int b i = Some c \<Longrightarrow> filled_int b' i = Some c"
  by (auto simp: extends_def map_le_def dom_def)

text \<open>Source patterns are built without the constants that only results use.\<close>

primrec is_source :: "'f pat \<Rightarrow> bool" where
  "is_source (PVar i) = True"
| "is_source (PVarInt i) = True"
| "is_source (PConstWithTypeLike p c) = False"
| "is_source (PExprLiteral e) = True"
| "is_source (PBinaryExpr k p q) = (is_source p \<and> is_source q)"
| "is_source (PUnaryExpr k p) = (k \<noteq> KCast \<and> is_source p)"
| "is_source (PCastExpr t p) = is_source p"

lemma Match_in_value:
  assumes "ptr_ok H" and "leaves_agree S \<rho>"
  shows "Match_in H S p e b = Inr (Some b') \<Longrightarrow> is_source p \<Longrightarrow> eval \<rho> e = Some v \<Longrightarrow>
    has_values \<rho> b \<Longrightarrow>
    extends b b' \<and> has_values \<rho> b' \<and> (\<forall>b''. extends b' b'' \<longrightarrow> pat_value \<rho> b'' p = Some v)"
proof (induction p arbitrary: e b b' v)
  case (PVar i)
  show ?case
  proof (cases "filled b i")
    case None
    with PVar have b': "b' = b\<lparr>filled := (filled b)(i \<mapsto> e)\<rparr>" by simp
    with None PVar.prems have "extends b b'" and "has_values \<rho> b'"
      by (auto simp: extends_def map_le_def has_values_def)
    moreover have "pat_value \<rho> b'' (PVar i) = Some v" if "extends b' b''" for b''
      using extends_filled [OF that, of i e] b' PVar.prems(3) by (simp add: xval_def)
    ultimately show ?thesis by blast
  next
    case (Some old)
    with PVar have b': "b' = b" and eq: "expr_equal H S old e = Inr True"
      by (auto split: if_splits)
    have "pat_value \<rho> b'' (PVar i) = Some v" if "extends b' b''" for b''
      using extends_filled [OF that, of i old] b' Some expr_equal_eval [OF assms eq] PVar.prems(3)
      by (simp add: xval_def)
    with b' PVar.prems(4) show ?thesis by simp
  qed
next
  case (PVarInt i)
  then obtain c d where e: "e = ConstInt c d"
    by (auto split: option.splits)
  have v: "v = c" and d: "\<not> IsFloat d" using PVarInt.prems(3) by (auto simp: e)
  have b': "filled_int b' i = Some (c, d)" and ext: "extends b b'"
    using PVarInt.prems(1) by (auto simp: e extends_def map_le_def split: option.splits if_splits)
  have "has_values \<rho> b'"
    using PVarInt.prems(1,4) d by (auto simp: e has_values_def split: option.splits if_splits)
  moreover have "pat_value \<rho> b'' (PVarInt i) = Some v" if "extends b' b''" for b''
    using extends_filled_int [OF that b'] by (simp add: ival_def v)
  ultimately show ?case using ext by blast
next
  case (PExprLiteral l)
  then show ?case using ptr_okD [OF assms(1)] by (auto split: if_splits)
next
  case (PBinaryExpr k p q)
  from PBinaryExpr.prems(1) obtain l r d b1 where e: "e = Binary k l r d"
    and p: "Match_in H S p l b = Inr (Some b1)" and q: "Match_in H S q r b1 = Inr (Some b')"
    by (auto split: expr.splits if_splits option.splits)
  obtain x y where x: "eval \<rho> l = Some x" and y: "eval \<rho> r = Some y" and v: "bin_val k x y = Some v"
    using PBinaryExpr.prems(3) unfolding e by (rule eval_BinaryE)
  note 1 = PBinaryExpr.IH(1) [OF p _ x PBinaryExpr.prems(4)]
  note 2 = PBinaryExpr.IH(2) [OF q _ y]
  show ?case using 1 2 v PBinaryExpr.prems(2) by (auto intro: extends_trans)
next
  case (PUnaryExpr k p)
  from PUnaryExpr.prems(1) obtain a d where e: "e = Unary k a d" and p: "Match_in H S p a b = Inr (Some b')"
    by (auto split: expr.splits if_splits)
  obtain x where x: "eval \<rho> a = Some x" and v: "un_val \<rho> k d x = Some v"
    using PUnaryExpr.prems(3) unfolding e by (rule eval_UnaryE)
  have "un_val \<rho> k BOOL x = Some v"
    using v un_val_dtype [of k \<rho> BOOL \<rho> d] PUnaryExpr.prems(2) by simp
  with PUnaryExpr.IH [OF p _ x PUnaryExpr.prems(4)] PUnaryExpr.prems(2) show ?case by auto
next
  case (PCastExpr t p)
  from PCastExpr.prems(1) obtain a where e: "e = Unary KCast a t" and p: "Match_in H S p a b = Inr (Some b')"
    by (auto split: expr.splits if_splits)
  obtain x where x: "eval \<rho> a = Some x" and v: "un_val \<rho> KCast t x = Some v" and t: "\<not> IsFloat t"
    using PCastExpr.prems(3) unfolding e by (rule eval_UnaryE)
  from PCastExpr.IH [OF p _ x PCastExpr.prems(4)] PCastExpr.prems(2) v t show ?case by auto
qed simp

lemma Match_value:
  assumes "ptr_ok H" and "leaves_agree S \<rho>" and "is_source p"
    and "Match H S p e = Inr (Some b)" and "eval \<rho> e = Some v"
  shows "has_values \<rho> b \<and> pat_value \<rho> b p = Some v"
  using Match_in_value [OF assms(1,2) assms(4) [unfolded Match_def] assms(3,5)]
  by (simp add: InitMatch_def has_values_def)

text \<open>Evaluating a result pattern gives a node of its value; only \<open>PCastExpr\<close> stands for conversions.\<close>

primrec is_result :: "'f pat \<Rightarrow> bool" where
  "is_result (PVar i) = True"
| "is_result (PVarInt i) = True"
| "is_result (PConstWithTypeLike p c) = is_result p"
| "is_result (PExprLiteral e) = True"
| "is_result (PBinaryExpr k p q) = (is_result p \<and> is_result q)"
| "is_result (PUnaryExpr k p) = (k \<noteq> KCast \<and> is_result p)"
| "is_result (PCastExpr t p) = is_result p"

lemma Eval_binary_value:
  assumes "ptr_ok H" and "exact_casts \<rho>" and "eval \<rho> l = Some x" and "eval \<rho> r = Some y"
    and "bin_val k x y = Some v"
    and "TryConstFoldBinaryLhs H k l r = Inr folded"
    and "(case folded of Some e' \<Rightarrow> Inr e' | None \<Rightarrow> MakeBinary k l r) = Inr e"
  shows "eval \<rho> e = Some v"
proof (cases folded)
  case None
  with assms show ?thesis using MakeBinary_eval [of k l r e \<rho> x y] by simp
next
  case (Some e')
  then obtain d where "GetScalarDtype l = Inr d" and "TryConstFoldBinary H k l r d = Inr (Some e)"
    using assms(6,7) by (auto simp: TryConstFoldBinaryLhs_def)
  with eval_dtype [OF assms(3)] show ?thesis
    using TryConstFoldBinary_eval [OF assms(1) _ assms(3,4,5)] by blast
qed

lemma Eval_unary_value:
  assumes "k \<noteq> KCast" and "eval \<rho> a = Some x" and "un_val \<rho> k d x = Some v"
    and "(case TryConstFoldUnary H k a of Some e' \<Rightarrow> Inr e' | None \<Rightarrow> MakeUnary k a) = Inr e"
  shows "eval \<rho> e = Some v"
proof (cases "TryConstFoldUnary H k a")
  case None
  with assms un_val_dtype [OF assms(1), of \<rho> d \<rho> BOOL] show ?thesis
    using MakeUnary_eval [of k a e \<rho> x] by simp
next
  case (Some e')
  with assms(4) show ?thesis using TryConstFoldUnary_eval [OF Some assms(2,3)] by simp
qed

lemma Eval_value:
  assumes "ptr_ok H" and "exact_casts \<rho>" and "has_values \<rho> b"
  shows "Eval H b p = Inr e \<Longrightarrow> is_result p \<Longrightarrow> pat_value \<rho> b p = Some v \<Longrightarrow> eval \<rho> e = Some v"
proof (induction p arbitrary: e v)
  case (PVar i)
  then show ?case using assms(3) by (fastforce simp: has_values_def xval_def split: option.splits)
next
  case (PVarInt i)
  then show ?case using assms(3) by (auto simp: has_values_def ival_def split: option.splits)
next
  case (PConstWithTypeLike p c)
  then show ?case using eval_dtype by (fastforce simp: bind_eq_Some_conv)
next
  case (PBinaryExpr k p q)
  from PBinaryExpr.prems(1) obtain l r folded where l: "Eval H b p = Inr l" and r: "Eval H b q = Inr r"
    and f: "TryConstFoldBinaryLhs H k l r = Inr folded"
      "(case folded of Some e' \<Rightarrow> Inr e' | None \<Rightarrow> MakeBinary k l r) = Inr e"
    by auto
  from PBinaryExpr.prems(3) obtain x y where x: "pat_value \<rho> b p = Some x" and y: "pat_value \<rho> b q = Some y"
    and v: "bin_val k x y = Some v"
    by (auto simp: bind_eq_Some_conv)
  show ?case
    using Eval_binary_value [OF assms(1,2) PBinaryExpr.IH(1) [OF l _ x] PBinaryExpr.IH(2) [OF r _ y] v f]
      PBinaryExpr.prems(2) by simp
next
  case (PUnaryExpr k p)
  from PUnaryExpr.prems(1) obtain a where a: "Eval H b p = Inr a"
    and f: "(case TryConstFoldUnary H k a of Some e' \<Rightarrow> Inr e' | None \<Rightarrow> MakeUnary k a) = Inr e"
    by auto
  from PUnaryExpr.prems(3) obtain x where x: "pat_value \<rho> b p = Some x" and v: "un_val \<rho> k BOOL x = Some v"
    by (auto simp: bind_eq_Some_conv)
  show ?case
    using Eval_unary_value [OF _ PUnaryExpr.IH [OF a _ x] v f] PUnaryExpr.prems(2) by simp
next
  case (PCastExpr t p)
  then show ?case by (auto simp: MakeCast_def bind_eq_Some_conv split: if_splits)
qed simp

text \<open>
  A rule is correct when, whatever the matched values, a branch that is taken computes the value
  of the source pattern. Trying correct rules keeps the value of the expression.
\<close>

definition rule_correct :: "env \<Rightarrow> 'f rule \<Rightarrow> bool" where
  "rule_correct \<rho> r = (case r of Rule srcs brs \<Rightarrow>
     (\<forall>p\<in>set srcs. is_source p) \<and> (\<forall>(g, p, again)\<in>set brs. is_result p) \<and>
     (\<forall>p b v res again. p \<in> set srcs \<longrightarrow> has_values \<rho> b \<longrightarrow> pat_value \<rho> b p = Some v \<longrightarrow>
        first_branch brs b = Inr (Some (res, again)) \<longrightarrow> pat_value \<rho> b res = Some v))"

lemma first_match_cases:
  "first_match H S ps e = Inr (Some b) \<Longrightarrow> \<exists>p\<in>set ps. Match H S p e = Inr (Some b)"
  by (induction ps) (auto split: option.splits)

lemma first_branch_mem: "first_branch brs b = Inr (Some (p, again)) \<Longrightarrow> \<exists>g. (g, p, again) \<in> set brs"
  by (induction brs b rule: first_branch.induct) (auto split: if_splits, blast+)

lemma try_rules_step:
  assumes "try_rules H S (Rule srcs brs # rs) e = Inr (Some (e', again))"
  shows "try_rules H S rs e = Inr (Some (e', again)) \<or>
    (\<exists>src b p. src \<in> set srcs \<and> Match H S src e = Inr (Some b) \<and>
       first_branch brs b = Inr (Some (p, again)) \<and> Eval H b p = Inr e')"
proof -
  from assms obtain m where m: "first_match H S srcs e = Inr m" by auto
  show ?thesis
  proof (cases m)
    case None
    with m assms show ?thesis by simp
  next
    case (Some b)
    with m assms obtain br where br: "first_branch brs b = Inr br" by auto
    show ?thesis
    proof (cases br)
      case None
      with m Some br assms show ?thesis by simp
    next
      case (Some pa)
      then obtain p a where "br = Some (p, a)" by (cases pa) simp
      with m \<open>m = Some b\<close> br assms have "first_branch brs b = Inr (Some (p, again))" and "Eval H b p = Inr e'"
        by auto
      with first_match_cases [of H S srcs e b] m \<open>m = Some b\<close> show ?thesis by blast
    qed
  qed
qed

lemma try_rules_taken:
  "try_rules H S rs e = Inr (Some (e', again)) \<Longrightarrow>
   \<exists>srcs brs src b p. Rule srcs brs \<in> set rs \<and> src \<in> set srcs \<and> Match H S src e = Inr (Some b) \<and>
     first_branch brs b = Inr (Some (p, again)) \<and> Eval H b p = Inr e'"
proof (induction rs)
  case (Cons r rs)
  obtain srcs brs where r: "r = Rule srcs brs" by (cases r)
  from try_rules_step [OF Cons.prems [unfolded r]] Cons.IH show ?case
    unfolding r by (metis list.set_intros)
qed simp

lemma try_rules_value:
  assumes "ptr_ok H" and "exact_casts \<rho>" and "leaves_agree S \<rho>"
    and "\<forall>r\<in>set rs. rule_correct \<rho> r" and "eval \<rho> e = Some v"
    and "try_rules H S rs e = Inr (Some (e', again))"
  shows "eval \<rho> e' = Some v"
proof -
  obtain srcs brs src b p where r: "Rule srcs brs \<in> set rs" and src: "src \<in> set srcs"
    and m: "Match H S src e = Inr (Some b)" and br: "first_branch brs b = Inr (Some (p, again))"
    and e': "Eval H b p = Inr e'"
    using try_rules_taken [OF assms(6)] by blast
  have ok: "rule_correct \<rho> (Rule srcs brs)" using assms(4) r by blast
  then have "is_source src" using src by (simp add: rule_correct_def)
  from Match_value [OF assms(1,3) this m assms(5)]
  have hv: "has_values \<rho> b" and pv: "pat_value \<rho> b src = Some v" by auto
  obtain g where "(g, p, again) \<in> set brs" using first_branch_mem [OF br] by blast
  then have "is_result p" using ok by (fastforce simp: rule_correct_def)
  moreover have "pat_value \<rho> b p = Some v"
    using ok src hv pv br unfolding rule_correct_def rule.case by blast
  ultimately show ?thesis using Eval_value [OF assms(1,2) hv e'] by blast
qed

lemma TRY_REWRITE_correct:
  assumes "is_source src" and "is_result res"
    and "\<And>b v. pat_value \<rho> b src = Some v \<Longrightarrow> pat_value \<rho> b res = Some v"
  shows "rule_correct \<rho> (TRY_REWRITE src res)"
  using assms by (auto simp: rule_correct_def TRY_REWRITE_def always_def)

lemma TRY_REWRITE_IF_correct:
  assumes "is_source src" and "is_result res"
    and "\<And>b v. has_values \<rho> b \<Longrightarrow> cond b = Inr True \<Longrightarrow> pat_value \<rho> b src = Some v \<Longrightarrow>
      pat_value \<rho> b res = Some v"
  shows "rule_correct \<rho> (TRY_REWRITE_IF src res cond)"
  using assms by (auto simp: rule_correct_def TRY_REWRITE_IF_def split: if_splits)

text \<open>Literals stay 64-bit integers.\<close>

definition wf_binding :: "'f binding \<Rightarrow> bool" where
  "wf_binding b \<longleftrightarrow>
     (\<forall>i e. filled b i = Some e \<longrightarrow> wf_expr e) \<and> (\<forall>i. pred_option (\<lambda>c. is_i64 (fst c)) (filled_int b i))"

primrec wf_pat :: "'f pat \<Rightarrow> bool" where
  "wf_pat (PVar i) = True"
| "wf_pat (PVarInt i) = True"
| "wf_pat (PConstWithTypeLike p c) = (is_i64 c \<and> wf_pat p)"
| "wf_pat (PExprLiteral e) = wf_expr e"
| "wf_pat (PBinaryExpr k p q) = (wf_pat p \<and> wf_pat q)"
| "wf_pat (PUnaryExpr k p) = wf_pat p"
| "wf_pat (PCastExpr t p) = wf_pat p"

definition wf_rule :: "'f rule \<Rightarrow> bool" where
  "wf_rule r = (case r of Rule srcs brs \<Rightarrow> \<forall>(g, p, again)\<in>set brs. wf_pat p)"

lemma Match_in_wf:
  "Match_in H S p e b = Inr (Some b') \<Longrightarrow> wf_expr e \<Longrightarrow> wf_binding b \<Longrightarrow> wf_binding b'"
proof (induction p arbitrary: e b b')
  case (PVar i)
  then show ?case by (auto simp: wf_binding_def split: option.splits if_splits)
next
  case (PVarInt i)
  then show ?case by (auto simp: wf_binding_def split: option.splits if_splits)
next
  case (PBinaryExpr k p q)
  from PBinaryExpr.prems(1) obtain l r d b1 where e: "e = Binary k l r d"
    and p: "Match_in H S p l b = Inr (Some b1)" and q: "Match_in H S q r b1 = Inr (Some b')"
    by (auto split: expr.splits if_splits option.splits)
  show ?case using PBinaryExpr.IH(2) [OF q] PBinaryExpr.IH(1) [OF p] PBinaryExpr.prems(2,3) e by simp
qed (auto split: expr.splits option.splits if_splits)

lemma Eval_wf:
  "Eval H b p = Inr e \<Longrightarrow> wf_binding b \<Longrightarrow> wf_pat p \<Longrightarrow> wf_expr e"
proof (induction p arbitrary: e)
  case (PVarInt i)
  then show ?case
    by (cases "filled_int b i") (auto simp: wf_binding_def dest!: spec [of "\<lambda>i. pred_option _ (filled_int b i)" i])
next
  case (PBinaryExpr k p q)
  from PBinaryExpr.prems(1) obtain l r folded where l: "Eval H b p = Inr l" and r: "Eval H b q = Inr r"
    and f: "TryConstFoldBinaryLhs H k l r = Inr folded"
      "(case folded of Some e' \<Rightarrow> Inr e' | None \<Rightarrow> MakeBinary k l r) = Inr e"
    by auto
  have lr: "wf_expr l" "wf_expr r" using PBinaryExpr.IH l r PBinaryExpr.prems(2,3) by auto
  show ?case
  proof (cases folded)
    case None
    with f(2) lr MakeBinary_wf [of k l r e] show ?thesis by simp
  next
    case (Some e')
    with f lr TryConstFoldBinary_wf [of l r H k] show ?thesis by (auto simp: TryConstFoldBinaryLhs_def)
  qed
next
  case (PUnaryExpr k p)
  from PUnaryExpr.prems(1) obtain a where a: "Eval H b p = Inr a"
    and f: "(case TryConstFoldUnary H k a of Some e' \<Rightarrow> Inr e' | None \<Rightarrow> MakeUnary k a) = Inr e"
    by auto
  have "wf_expr a" using PUnaryExpr.IH [OF a] PUnaryExpr.prems(2,3) by simp
  with f TryConstFoldUnary_wf [of a H k] MakeUnary_wf [of k a e] show ?case by (auto split: option.splits)
qed (auto simp: wf_binding_def MakeCast_def split: option.splits)

lemma try_rules_wf:
  assumes "\<forall>r\<in>set rs. wf_rule r" and "wf_expr e" and "try_rules H S rs e = Inr (Some (e', again))"
  shows "wf_expr e'"
proof -
  obtain srcs brs src b p where r: "Rule srcs brs \<in> set rs"
    and m: "Match H S src e = Inr (Some b)" and br: "first_branch brs b = Inr (Some (p, again))"
    and e': "Eval H b p = Inr e'"
    using try_rules_taken [OF assms(3)] by blast
  have "wf_binding InitMatch" by (simp add: wf_binding_def InitMatch_def)
  then have "wf_binding b" using Match_in_wf m assms(2) unfolding Match_def by blast
  moreover obtain g where "(g, p, again) \<in> set brs" using first_branch_mem [OF br] by blast
  then have "wf_pat p" using assms(1) r by (fastforce simp: wf_rule_def)
  ultimately show ?thesis using Eval_wf [OF e'] by blast
qed

end
