(* ===== verification/Rewrite_Rules.thy ===== *)
theory Rewrite_Rules
  imports Pattern_Match Transitive_Comparison
begin

text \<open>
  The rules of \<^verbatim>\<open>src/ir/arith/rewrite_simplify.cpp\<close>, one list per node kind, each list with the rules
  of the visitor of that kind in their order. \<open>X\<close>, \<open>Y\<close>, \<open>Z\<close> are the variables \<open>x\<close>, \<open>y\<close>, \<open>z\<close> of
  the code, \<open>C1\<close>, \<open>C2\<close>, \<open>C3\<close> its variables for integer literals; \<open>padd\<close> and so on are the pattern
  operators. \<open>P\<close> answers the comparisons with a constant (\<open>TryCompare\<close>), \<open>d\<close> is the data type the
  code gives a literal of the result.

  Shown: every rule is correct over the integers (\<open>rule_correct\<close>), the guarded ones under a sound
  \<open>P\<close>. The 296 macros and the 10 hand-written branches of the code are all here.
\<close>

section \<open>Pattern operators\<close>

abbreviation "X \<equiv> PVar 0"
abbreviation "Y \<equiv> PVar 1"
abbreviation "Z \<equiv> PVar 2"
abbreviation "C1 \<equiv> PVarInt 1"
abbreviation "C2 \<equiv> PVarInt 2"
abbreviation "C3 \<equiv> PVarInt 3"

abbreviation "padd \<equiv> PBinaryExpr KAdd"
abbreviation "psub \<equiv> PBinaryExpr KSub"
abbreviation "pmul \<equiv> PBinaryExpr KMul"
abbreviation "pdiv \<equiv> PBinaryExpr KFloorDiv"
abbreviation "pmod \<equiv> PBinaryExpr KFloorMod"
abbreviation "pmin \<equiv> PBinaryExpr KMin"
abbreviation "pmax \<equiv> PBinaryExpr KMax"
abbreviation "peq \<equiv> PBinaryExpr KEq"
abbreviation "pne \<equiv> PBinaryExpr KNe"
abbreviation "plt \<equiv> PBinaryExpr KLt"
abbreviation "ple \<equiv> PBinaryExpr KLe"
abbreviation "pgt \<equiv> PBinaryExpr KGt"
abbreviation "pge \<equiv> PBinaryExpr KGe"
abbreviation "pand \<equiv> PBinaryExpr KAnd"
abbreviation "por \<equiv> PBinaryExpr KOr"
abbreviation "pnot \<equiv> PUnaryExpr KNot"
abbreviation "pneg \<equiv> PUnaryExpr KNeg"

section \<open>Guards\<close>

text \<open>\<open>TryCompare\<close> as the rules use it, and the tests on its result.\<close>

type_synonym 'f prover = "'f expr \<Rightarrow> int \<Rightarrow> CompareResult res"

definition CanProveGE :: "'f prover \<Rightarrow> 'f expr \<Rightarrow> int \<Rightarrow> bool res" where
  "CanProveGE P e v = res_bind (P e v) (\<lambda>r. Inr (r = kGE \<or> r = kGT \<or> r = kEQ))"

definition CanProveLess :: "'f prover \<Rightarrow> 'f expr \<Rightarrow> int \<Rightarrow> bool res" where
  "CanProveLess P e v = res_bind (P e v) (\<lambda>r. Inr (r = kLT))"

definition CanProveLE :: "'f prover \<Rightarrow> 'f expr \<Rightarrow> int \<Rightarrow> bool res" where
  "CanProveLE P e v = res_bind (P e v) (\<lambda>r. Inr (r = kLE \<or> r = kLT \<or> r = kEQ))"

definition expr_of :: "'f binding \<Rightarrow> nat \<Rightarrow> 'f expr res" where
  "expr_of b i = (case filled b i of Some e \<Rightarrow> Inr e | None \<Rightarrow> Inl InternalError)"

definition int_of_var :: "'f binding \<Rightarrow> nat \<Rightarrow> int res" where
  "int_of_var b i = (case filled_int b i of Some (v, d) \<Rightarrow> Inr v | None \<Rightarrow> Inl InternalError)"

definition int1 :: "nat \<Rightarrow> (int \<Rightarrow> bool) \<Rightarrow> 'f guard" where
  "int1 i f = (\<lambda>b. res_bind (int_of_var b i) (\<lambda>v. Inr (f v)))"

definition ints :: "nat \<Rightarrow> nat \<Rightarrow> (int \<Rightarrow> int \<Rightarrow> bool res) \<Rightarrow> 'f guard" where
  "ints i j f = (\<lambda>b. res_bind (int_of_var b i) (\<lambda>v. res_bind (int_of_var b j) (f v)))"

text \<open>\<open>a || b\<close> and \<open>a && b\<close> of fallible tests.\<close>

definition res_or :: "bool res \<Rightarrow> bool res \<Rightarrow> bool res" where
  "res_or a b = res_bind a (\<lambda>p. if p then Inr True else b)"

definition res_and :: "bool res \<Rightarrow> bool res \<Rightarrow> bool res" where
  "res_and a b = res_bind a (\<lambda>p. if p then b else Inr False)"

text \<open>\<open>CanProveGE(x, 1) || CanProveLE(x, -1)\<close>, \<open>CanProveGE(z, 0)\<close>, and the tests on \<open>x - y\<close>.\<close>

definition nonzero :: "'f prover \<Rightarrow> nat \<Rightarrow> 'f guard" where
  "nonzero P i = (\<lambda>b. res_bind (expr_of b i) (\<lambda>e. res_or (CanProveGE P e 1) (CanProveLE P e (-1))))"

definition proves ::
  "'f prover \<Rightarrow> ('f prover \<Rightarrow> 'f expr \<Rightarrow> int \<Rightarrow> bool res) \<Rightarrow> nat \<Rightarrow> int \<Rightarrow> 'f guard" where
  "proves P test i v = (\<lambda>b. res_bind (expr_of b i) (\<lambda>e. test P e v))"

definition difference ::
  "'f prover \<Rightarrow> ('f prover \<Rightarrow> 'f expr \<Rightarrow> int \<Rightarrow> bool res) \<Rightarrow> 'f guard" where
  "difference P test = (\<lambda>b. res_bind (expr_of b 0) (\<lambda>x. res_bind (expr_of b 1) (\<lambda>y.
     res_bind (MakeBinary KSub x y) (\<lambda>e. test P e 0))))"

text \<open>\<open>c1 > 0 && CanProveGE(x, 0) && CanProveLess(x, c1)\<close>.\<close>

definition in_range :: "'f prover \<Rightarrow> 'f guard" where
  "in_range P = (\<lambda>b. res_bind (int_of_var b 1) (\<lambda>c1. res_bind (expr_of b 0) (\<lambda>x.
     if c1 > 0 then res_and (CanProveGE P x 0) (CanProveLess P x c1) else Inr False)))"

text \<open>\<open>c2 != 0 && (CanProveGE(x, 1) || CanProveLE(x, -1))\<close>.\<close>

definition nonzero_modulus :: "'f prover \<Rightarrow> 'f guard" where
  "nonzero_modulus P = (\<lambda>b. res_bind (int_of_var b 2) (\<lambda>c2.
     if c2 \<noteq> 0 then nonzero P 0 b else Inr False))"

text \<open>A test on \<open>c2\<close>, and \<open>floormod(c1, c2) != c1\<close>.\<close>

definition reduced :: "(int \<Rightarrow> bool) \<Rightarrow> 'f guard" where
  "reduced f = ints 1 2 (\<lambda>c1 c2.
     if f c2 then res_bind (floormod c1 c2) (\<lambda>m. Inr (m \<noteq> c1)) else Inr False)"

text \<open>\<open>c2 > 0 && c1 % c2 == 0\<close> and \<open>c1 > 0 && c2 % c1 == 0 && c2 / c1 > 0\<close>.\<close>

definition divisible :: "'f guard" where
  "divisible = ints 1 2 (\<lambda>c1 c2. Inr (c2 > 0 \<and> cmod c1 c2 = 0))"

definition divides :: "'f guard" where
  "divides = ints 1 2 (\<lambda>c1 c2. Inr (c1 > 0 \<and> cmod c2 c1 = 0 \<and> cdiv c2 c1 > 0))"

section \<open>The rules\<close>

definition add_rules :: "'f rule list" where
  "add_rules =
    [TRY_REWRITE (padd (padd X C1) C2) (padd X (padd C1 C2)),
     TRY_REWRITE (padd (padd C1 X) C2) (padd X (padd C1 C2)),
     TRY_REWRITE (padd (psub X Y) Y) X,
     TRY_REWRITE (padd X (psub Y X)) Y,
     TRY_REWRITE (padd (psub X Y) (psub Y Z)) (psub X Z),
     TRY_REWRITE (padd (psub X Y) (psub Z X)) (psub Z Y),
     TRY_REWRITE (padd X X) (pmul X (PConstWithTypeLike X 2)),
     TRY_REWRITE (padd (pmul X Y) X) (pmul (padd Y (PConstWithTypeLike Y 1)) X),
     TRY_REWRITE (padd X (pmul X Y)) (pmul (padd Y (PConstWithTypeLike Y 1)) X),
     TRY_REWRITE (padd (pmul X Y) (pmul X Z)) (pmul (padd Y Z) X),
     TRY_REWRITE (padd (pmul Y X) (pmul X Z)) (pmul (padd Y Z) X),
     TRY_REWRITE (padd (pmul X Y) (pmul Z X)) (pmul (padd Y Z) X),
     TRY_REWRITE (padd (pmul Y X) (pmul Z X)) (pmul (padd Y Z) X),
     TRY_REWRITE (padd (pmul (pdiv X Y) Y) (pmod X Y)) X,
     TRY_REWRITE (padd (pmod X Y) (pmul (pdiv X Y) Y)) X,
     TRY_REWRITE (padd (pmul Y (pdiv X Y)) (pmod X Y)) X,
     TRY_REWRITE (padd (pmod X Y) (pmul Y (pdiv X Y))) X,
     TRY_REWRITE (padd (pmin X (psub Y Z)) Z) (pmin (padd X Z) Y),
     TRY_REWRITE (padd (pmin (psub X Z) Y) Z) (pmin X (padd Y Z)),
     TRY_REWRITE (padd Z (pmin X (psub Y Z))) (pmin (padd X Z) Y),
     TRY_REWRITE (padd (pmax X (psub Y Z)) Z) (pmax (padd X Z) Y),
     TRY_REWRITE (padd (pmax (psub X Z) Y) Z) (pmax X (padd Y Z)),
     TRY_REWRITE (padd Z (pmax X (psub Y Z))) (pmax (padd X Z) Y),
     TRY_REWRITE (padd (pmax X Y) (pmin X Y)) (padd X Y),
     TRY_REWRITE (padd (pmin X Y) (pmax X Y)) (padd X Y),
     TRY_REWRITE (padd (pmax X Y) (pmin Y X)) (padd X Y),
     TRY_REWRITE (padd (pmin X Y) (pmax Y X)) (padd X Y),
     TRY_REWRITE (padd C1 X) (padd X C1),
     TRY_REWRITE (padd X (psub C1 Y)) (padd (psub X Y) C1),
     TRY_REWRITE (padd (psub C1 Y) X) (padd (psub X Y) C1),
     TRY_REWRITE (padd (padd X C1) Y) (padd (padd X Y) C1)]"

definition sub_rules :: "DataType \<Rightarrow> 'f rule list" where
  "sub_rules d =
    [TRY_REWRITE (psub X X) (PExprLiteral (MakeConstInt 0 d)),
     TRY_REWRITE (psub (padd X Y) Y) X,
     TRY_REWRITE (psub (padd X Y) X) Y,
     TRY_REWRITE (psub (padd Y X) X) Y,
     TRY_REWRITE (psub X (padd X Y)) (pneg Y),
     TRY_REWRITE (psub X (padd Y X)) (pneg Y),
     TRY_REWRITE (psub (padd X C1) C2) (padd X (psub C1 C2)),
     TRY_REWRITE (psub (padd C1 X) C2) (padd X (psub C1 C2)),
     TRY_REWRITE (psub C1 (psub C2 X)) (padd X (psub C1 C2)),
     TRY_REWRITE (psub C1 (padd X C2)) (psub (psub C1 C2) X),
     TRY_REWRITE (psub C1 (padd C2 X)) (psub (psub C1 C2) X),
     TRY_REWRITE (psub (psub C1 X) (psub C2 Y)) (padd (psub Y X) (psub C1 C2)),
     TRY_REWRITE (psub (psub X Y) (psub X Z)) (psub Z Y),
     TRY_REWRITE (psub (padd X Y) (padd X Z)) (psub Y Z),
     TRY_REWRITE (psub (padd Y X) (padd X Z)) (psub Y Z),
     TRY_REWRITE (psub (padd X Y) (padd Z X)) (psub Y Z),
     TRY_REWRITE (psub (padd Y X) (padd Z X)) (psub Y Z),
     TRY_REWRITE (psub (pmul X Y) X) (pmul (psub Y (PConstWithTypeLike Y 1)) X),
     TRY_REWRITE (psub X (pmul X Y)) (pmul (psub (PConstWithTypeLike Y 1) Y) X),
     TRY_REWRITE (psub (pmul X Y) (pmul X Z)) (pmul (psub Y Z) X),
     TRY_REWRITE (psub (pmul Y X) (pmul X Z)) (pmul (psub Y Z) X),
     TRY_REWRITE (psub (pmul X Y) (pmul Z X)) (pmul (psub Y Z) X),
     TRY_REWRITE (psub (pmul Y X) (pmul Z X)) (pmul (psub Y Z) X),
     TRY_REWRITE_IF (psub X (pmul (pdiv X C1) C1)) (pmod X C1) (int1 1 (\<lambda>c1. c1 \<noteq> 0)),
     TRY_REWRITE_IF (psub X (pmul C1 (pdiv X C1))) (pmod X C1) (int1 1 (\<lambda>c1. c1 \<noteq> 0)),
     TRY_REWRITE_IF (psub (pmul (pdiv X C1) C1) X) (psub (PExprLiteral (MakeConstInt 0 d)) (pmod X C1))
       (int1 1 (\<lambda>c1. c1 \<noteq> 0)),
     TRY_REWRITE_IF (psub X (pmul (pdiv (padd X Y) C1) C1)) (psub (pmod (padd X Y) C1) Y)
       (int1 1 (\<lambda>c1. c1 \<noteq> 0)),
     TRY_REWRITE_IF (psub (pmul (pdiv (padd X Y) C1) C1) X) (psub Y (pmod (padd X Y) C1))
       (int1 1 (\<lambda>c1. c1 \<noteq> 0)),
     TRY_REWRITE_IF (psub X (pmul (pdiv (psub X Y) C1) C1)) (padd (pmod (psub X Y) C1) Y)
       (int1 1 (\<lambda>c1. c1 \<noteq> 0)),
     TRY_REWRITE_IF (psub (pmul (pdiv (psub X Y) C1) C1) X)
       (psub (psub (PExprLiteral (MakeConstInt 0 d)) (pmod (psub X Y) C1)) Y)
       (int1 1 (\<lambda>c1. c1 \<noteq> 0)),
     TRY_REWRITE (psub (pmin X Y) X) (pmin (PExprLiteral (MakeConstInt 0 d)) (psub Y X)),
     TRY_REWRITE (psub (pmin X Y) Y) (pmin (psub X Y) (PExprLiteral (MakeConstInt 0 d))),
     TRY_REWRITE (psub (pmax X Y) X) (pmax (PExprLiteral (MakeConstInt 0 d)) (psub Y X)),
     TRY_REWRITE (psub (pmax X Y) Y) (pmax (psub X Y) (PExprLiteral (MakeConstInt 0 d))),
     TRY_REWRITE (psub X (pmin X Y)) (pmax (PExprLiteral (MakeConstInt 0 d)) (psub X Y)),
     TRY_REWRITE (psub X (pmax X Y)) (pmin (PExprLiteral (MakeConstInt 0 d)) (psub X Y)),
     TRY_REWRITE (psub (pmin (padd X Y) Z) X) (pmin Y (psub Z X)),
     TRY_REWRITE (psub (pmin (padd Y X) Z) X) (pmin Y (psub Z X)),
     TRY_REWRITE (psub (pmin Z (padd X Y)) X) (pmin (psub Z X) Y),
     TRY_REWRITE (psub (pmin Z (padd Y X)) X) (pmin (psub Z X) Y),
     TRY_REWRITE (psub (pmax (padd X Y) Z) X) (pmax Y (psub Z X)),
     TRY_REWRITE (psub (pmax (padd Y X) Z) X) (pmax Y (psub Z X)),
     TRY_REWRITE (psub (pmax Z (padd X Y)) X) (pmax (psub Z X) Y),
     TRY_REWRITE (psub (pmax Z (padd Y X)) X) (pmax (psub Z X) Y),
     TRY_REWRITE (psub X (pmin (padd X Y) Z))
       (pmax (psub (PExprLiteral (MakeConstInt 0 d)) Y) (psub X Z)),
     TRY_REWRITE (psub X (pmin (padd Y X) Z))
       (pmax (psub (PExprLiteral (MakeConstInt 0 d)) Y) (psub X Z)),
     TRY_REWRITE (psub X (pmin Z (padd X Y)))
       (pmax (psub X Z) (psub (PExprLiteral (MakeConstInt 0 d)) Y)),
     TRY_REWRITE (psub X (pmin Z (padd Y X)))
       (pmax (psub X Z) (psub (PExprLiteral (MakeConstInt 0 d)) Y)),
     TRY_REWRITE (psub X (pmax (padd X Y) Z))
       (pmin (psub (PExprLiteral (MakeConstInt 0 d)) Y) (psub X Z)),
     TRY_REWRITE (psub X (pmax (padd Y X) Z))
       (pmin (psub (PExprLiteral (MakeConstInt 0 d)) Y) (psub X Z)),
     TRY_REWRITE (psub X (pmax Z (padd X Y)))
       (pmin (psub X Z) (psub (PExprLiteral (MakeConstInt 0 d)) Y)),
     TRY_REWRITE (psub X (pmax Z (padd Y X)))
       (pmin (psub X Z) (psub (PExprLiteral (MakeConstInt 0 d)) Y)),
     TRY_REWRITE (psub (pmin X Y) (pmin Y X)) (PExprLiteral (MakeConstInt 0 d)),
     TRY_REWRITE (psub (pmax X Y) (pmax Y X)) (PExprLiteral (MakeConstInt 0 d)),
     TRY_REWRITE (psub X (padd Y C1)) (padd (psub X Y) (psub (PConstWithTypeLike C1 0) C1)),
     TRY_REWRITE (psub (padd X C1) Y) (padd (psub X Y) C1),
     TRY_REWRITE (psub X (psub Y Z)) (psub (padd X Z) Y)]"

definition mul_rules :: "'f rule list" where
  "mul_rules =
    [TRY_REWRITE (pmul (pmul X C1) C2) (pmul X (pmul C1 C2)),
     TRY_REWRITE (pmul (pmul C1 X) C2) (pmul X (pmul C1 C2)),
     TRY_REWRITE (pmul (pmin X Y) (pmax X Y)) (pmul X Y),
     TRY_REWRITE (pmul (pmax X Y) (pmin X Y)) (pmul X Y),
     TRY_REWRITE (pmul C1 X) (pmul X C1),
     TRY_REWRITE (pmul X (pmul C1 Y)) (pmul (pmul X Y) C1),
     TRY_REWRITE (pmul (padd X C1) C2) (padd (pmul X C2) (pmul C1 C2)),
     TRY_REWRITE_IF (pmul (psub X Y) C1) (pmul (psub Y X) (psub (PConstWithTypeLike C1 0) C1))
       (int1 1 (\<lambda>c1. c1 < 0))]"

definition floordiv_rules :: "'f prover \<Rightarrow> DataType \<Rightarrow> 'f rule list" where
  "floordiv_rules P d =
    [TRY_REWRITE_IF (pdiv (pmul X C1) C2) (pmul X (pdiv C1 C2)) divisible,
     TRY_REWRITE_IF (pdiv (pmul C1 X) C2) (pmul X (pdiv C1 C2)) divisible,
     TRY_REWRITE_IF (pdiv (pmul X C1) C2) (pdiv X (pdiv C2 C1)) divides,
     TRY_REWRITE_IF (pdiv (pdiv X C1) C2) (pdiv X (pmul C1 C2))
       (ints 1 2 (\<lambda>c1 c2. Inr (c1 > 0 \<and> c2 > 0))),
     TRY_REWRITE_IF (pdiv (padd (pdiv X C1) C2) C3) (pdiv (padd X (pmul C1 C2)) (pmul C1 C3))
       (ints 1 3 (\<lambda>c1 c3. Inr (c1 > 0 \<and> c3 > 0))),
     TRY_REWRITE_IF (pdiv X X) (PExprLiteral (MakeConstInt 1 d)) (nonzero P 0),
     TRY_REWRITE_IF (pdiv (pmul X C1) X) C1 (nonzero P 0),
     TRY_REWRITE_IF (pdiv (pmul C1 X) X) C1 (nonzero P 0),
     TRY_REWRITE_IF (pdiv (padd X C1) C2) (padd (pdiv X C2) (pdiv C1 C2)) divisible,
     TRY_REWRITE_IF (pdiv (padd C1 X) C2) (padd (pdiv X C2) (pdiv C1 C2)) divisible,
     TRY_REWRITE_IF (pdiv (padd (pmul X C1) Y) C2) (padd (pmul X (pdiv C1 C2)) (pdiv Y C2)) divisible,
     TRY_REWRITE_IF (pdiv (padd (pmul C1 X) Y) C2) (padd (pmul X (pdiv C1 C2)) (pdiv Y C2)) divisible,
     TRY_REWRITE_IF (pdiv (padd Y (pmul X C1)) C2) (padd (pdiv Y C2) (pmul X (pdiv C1 C2))) divisible,
     TRY_REWRITE_IF (pdiv (padd Y (pmul C1 X)) C2) (padd (pdiv Y C2) (pmul X (pdiv C1 C2))) divisible,
     TRY_REWRITE_IF (pdiv (pmin (pmul X C1) Y) C2) (pmin (pmul X (pdiv C1 C2)) (pdiv Y C2)) divisible,
     TRY_REWRITE_IF (pdiv (pmax (pmul X C1) Y) C2) (pmax (pmul X (pdiv C1 C2)) (pdiv Y C2)) divisible,
     TRY_REWRITE_IF (pdiv (pmin Y (pmul X C1)) C2) (pmin (pdiv Y C2) (pmul X (pdiv C1 C2))) divisible,
     TRY_REWRITE_IF (pdiv (pmax Y (pmul X C1)) C2) (pmax (pdiv Y C2) (pmul X (pdiv C1 C2))) divisible,
     TRY_REWRITE_IF (pdiv (psub X (pmod X C1)) C1) (pdiv X C1) (int1 1 (\<lambda>c1. c1 \<noteq> 0)),
     TRY_REWRITE_IF (pdiv (pmul X Y) Y) X (nonzero P 1),
     TRY_REWRITE_IF (pdiv (pmul Y X) Y) X (nonzero P 1),
     TRY_REWRITE_IF (pdiv (padd (pmul X Z) Y) Z) (padd X (pdiv Y Z)) (proves P CanProveGE 2 0),
     TRY_REWRITE_IF (pdiv (padd (pmul Z X) Y) Z) (padd X (pdiv Y Z)) (proves P CanProveGE 2 0),
     TRY_REWRITE_IF (pdiv (padd Y (pmul X Z)) Z) (padd (pdiv Y Z) X) (proves P CanProveGE 2 0),
     TRY_REWRITE_IF (pdiv (padd Y (pmul Z X)) Z) (padd (pdiv Y Z) X) (proves P CanProveGE 2 0),
     TRY_REWRITE_IF (pdiv X C1) (PExprLiteral (MakeConstInt 0 d)) (in_range P)]"

definition floormod_rules :: "'f prover \<Rightarrow> DataType \<Rightarrow> 'f rule list" where
  "floormod_rules P d =
    [TRY_REWRITE_IF (pmod (pmul X C1) C2) (PExprLiteral (MakeConstInt 0 d)) divisible,
     TRY_REWRITE_IF (pmod (pmul C1 X) C2) (PExprLiteral (MakeConstInt 0 d)) divisible,
     TRY_REWRITE_IF (pmod (padd X C1) C2) (pmod X C2) divisible,
     TRY_REWRITE_IF (pmod (padd C1 X) C2) (pmod X C2) divisible,
     TRY_REWRITE_IF (pmod (padd (pmul X C1) Y) C2) (pmod Y C2) divisible,
     TRY_REWRITE_IF (pmod (padd (pmul C1 X) Y) C2) (pmod Y C2) divisible,
     TRY_REWRITE_IF (pmod (padd Y (pmul X C1)) C2) (pmod Y C2) divisible,
     TRY_REWRITE_IF (pmod (padd Y (pmul C1 X)) C2) (pmod Y C2) divisible,
     TRY_REWRITE_IF (pmod (pmul X C1) C2) (pmod (pmul X (pmod C1 C2)) C2)
       (reduced (\<lambda>c2. c2 \<noteq> 0)),
     TRY_REWRITE_IF (pmod (pmul X Y) Y) (PExprLiteral (MakeConstInt 0 d)) (nonzero P 1),
     TRY_REWRITE_IF (pmod (pmul Y X) Y) (PExprLiteral (MakeConstInt 0 d)) (nonzero P 1),
     TRY_REWRITE_IF (pmod (padd X (pmul Y C1)) C2) (pmod (padd X (pmul Y (pmod C1 C2))) C2)
       (reduced (\<lambda>c2. c2 > 0)),
     TRY_REWRITE_IF (pmod (pmul X C1) (pmul X C2)) (pmul X (pmod C1 C2)) (nonzero_modulus P),
     TRY_REWRITE_IF (pmod (padd X C1) C2) (pmod (padd X (pmod C1 C2)) C2)
       (ints 1 2 (\<lambda>c1 c2. Inr (c2 > 0 \<and> cmod c1 c2 \<noteq> 0 \<and> (c1 \<ge> c2 \<or> c1 < 0)))),
     TRY_REWRITE_IF (pmod X C1) X (in_range P)]"

definition min_rules :: "'f prover \<Rightarrow> 'f rule list" where
  "min_rules P =
    [TRY_REWRITE (pmin X X) X,
     TRY_REWRITE (pmin (pmin X C1) C2) (pmin X (pmin C1 C2)),
     TRY_REWRITE (pmin C1 (pmin X C2)) (pmin X (pmin C1 C2)),
     TRY_REWRITE (pmin (psub Y X) (psub Z X)) (psub (pmin Y Z) X),
     TRY_REWRITE (pmin (psub X Y) (psub X Z)) (psub X (pmax Y Z)),
     TRY_REWRITE (pmin (padd X Y) (padd X Z)) (padd X (pmin Y Z)),
     TRY_REWRITE (pmin (padd Y X) (padd X Z)) (padd X (pmin Y Z)),
     TRY_REWRITE (pmin (padd X Y) (padd Z X)) (padd X (pmin Y Z)),
     TRY_REWRITE (pmin (padd Y X) (padd Z X)) (padd X (pmin Y Z)),
     Rule [(pmin (padd X C1) (padd X C2))]
       [((ints 1 2 (\<lambda>c1 c2. Inr (c1 < c2))), (padd X C1), True),
        (always, (padd X C2), True)],
     Rule [(pmin (padd X C1) X), (pmin X (padd X C1))]
       [((int1 1 (\<lambda>c1. c1 < 0)), (padd X C1), True),
        (always, X, False)],
     Rule [(pmin (psub C1 X) (psub C2 X))]
       [((ints 1 2 (\<lambda>c1 c2. Inr (c1 < c2))), (psub C1 X), True),
        (always, (psub C2 X), True)],
     TRY_REWRITE (pmin (pmin X Y) X) (pmin X Y),
     TRY_REWRITE (pmin (pmin X Y) Y) (pmin X Y),
     TRY_REWRITE (pmin X (pmin X Y)) (pmin X Y),
     TRY_REWRITE (pmin Y (pmin X Y)) (pmin X Y),
     TRY_REWRITE (pmin (pmax X Y) Y) Y,
     TRY_REWRITE (pmin (pmax Y X) X) X,
     TRY_REWRITE (pmin Y (pmax X Y)) Y,
     TRY_REWRITE (pmin (pmax X Y) X) X,
     TRY_REWRITE (pmin X (pmax X Y)) X,
     TRY_REWRITE (pmin X (pmax Y X)) X,
     TRY_REWRITE (pmin (pmax X Y) (pmax X Z)) (pmax (pmin Y Z) X),
     TRY_REWRITE (pmin (pmax X Y) (pmax Z X)) (pmax (pmin Y Z) X),
     TRY_REWRITE (pmin (pmax Y X) (pmax X Z)) (pmax (pmin Y Z) X),
     TRY_REWRITE (pmin (pmax Y X) (pmax Z X)) (pmax (pmin Y Z) X),
     TRY_REWRITE (pmin (pmin X Y) (pmin X Z)) (pmin (pmin Y Z) X),
     TRY_REWRITE (pmin (pmin X Y) (pmin Z X)) (pmin (pmin Y Z) X),
     TRY_REWRITE (pmin (pmin Y X) (pmin X Z)) (pmin (pmin Y Z) X),
     TRY_REWRITE (pmin (pmin Y X) (pmin Z X)) (pmin (pmin Y Z) X),
     Rule [(pmin (pdiv X C1) (pdiv Y C1))]
       [((int1 1 (\<lambda>c1. c1 > 0)), (pdiv (pmin X Y) C1), True),
        ((int1 1 (\<lambda>c1. c1 < 0)), (pdiv (pmax X Y) C1), True)],
     Rule [(pmin (pmul X C1) (pmul Y C1))]
       [((int1 1 (\<lambda>c1. c1 > 0)), (pmul (pmin X Y) C1), True),
        ((int1 1 (\<lambda>c1. c1 < 0)), (pmul (pmax X Y) C1), True)],
     TRY_REWRITE_IF (pmin X Y) X (difference P CanProveLE),
     TRY_REWRITE_IF (pmin X Y) Y (difference P CanProveGE),
     TRY_REWRITE (pmin C1 X) (pmin X C1),
     TRY_REWRITE (pmin (pmin X C1) Y) (pmin (pmin X Y) C1)]"

definition max_rules :: "'f prover \<Rightarrow> 'f rule list" where
  "max_rules P =
    [TRY_REWRITE (pmax X X) X,
     TRY_REWRITE (pmax (pmax X C1) C2) (pmax X (pmax C1 C2)),
     TRY_REWRITE (pmax C1 (pmax X C2)) (pmax X (pmax C1 C2)),
     TRY_REWRITE (pmax (psub Y X) (psub Z X)) (psub (pmax Y Z) X),
     TRY_REWRITE (pmax (psub X Y) (psub X Z)) (psub X (pmin Y Z)),
     TRY_REWRITE (pmax (padd X Y) (padd X Z)) (padd X (pmax Y Z)),
     TRY_REWRITE (pmax (padd Y X) (padd X Z)) (padd X (pmax Y Z)),
     TRY_REWRITE (pmax (padd X Y) (padd Z X)) (padd X (pmax Y Z)),
     TRY_REWRITE (pmax (padd Y X) (padd Z X)) (padd X (pmax Y Z)),
     Rule [(pmax (padd X C1) (padd X C2))]
       [((ints 1 2 (\<lambda>c1 c2. Inr (c1 > c2))), (padd X C1), True),
        (always, (padd X C2), True)],
     Rule [(pmax (padd X C1) X), (pmax X (padd X C1))]
       [((int1 1 (\<lambda>c1. c1 > 0)), (padd X C1), True),
        (always, X, False)],
     Rule [(pmax (psub C1 X) (psub C2 X))]
       [((ints 1 2 (\<lambda>c1 c2. Inr (c1 > c2))), (psub C1 X), True),
        (always, (psub C2 X), True)],
     TRY_REWRITE (pmax (pmax X Y) X) (pmax X Y),
     TRY_REWRITE (pmax (pmax X Y) Y) (pmax X Y),
     TRY_REWRITE (pmax X (pmax X Y)) (pmax X Y),
     TRY_REWRITE (pmax Y (pmax X Y)) (pmax X Y),
     TRY_REWRITE (pmax (pmin X Y) Y) Y,
     TRY_REWRITE (pmax (pmin Y X) X) X,
     TRY_REWRITE (pmax Y (pmin X Y)) Y,
     TRY_REWRITE (pmax (pmin X Y) X) X,
     TRY_REWRITE (pmax X (pmin X Y)) X,
     TRY_REWRITE (pmax X (pmin Y X)) X,
     TRY_REWRITE (pmax (pmin X Y) (pmin X Z)) (pmin (pmax Y Z) X),
     TRY_REWRITE (pmax (pmin X Y) (pmin Z X)) (pmin (pmax Y Z) X),
     TRY_REWRITE (pmax (pmin Y X) (pmin X Z)) (pmin (pmax Y Z) X),
     TRY_REWRITE (pmax (pmin Y X) (pmin Z X)) (pmin (pmax Y Z) X),
     TRY_REWRITE (pmax (pmax X Y) (pmax X Z)) (pmax (pmax Y Z) X),
     TRY_REWRITE (pmax (pmax X Y) (pmax Z X)) (pmax (pmax Y Z) X),
     TRY_REWRITE (pmax (pmax Y X) (pmax X Z)) (pmax (pmax Y Z) X),
     TRY_REWRITE (pmax (pmax Y X) (pmax Z X)) (pmax (pmax Y Z) X),
     Rule [(pmax (pdiv X C1) (pdiv Y C1))]
       [((int1 1 (\<lambda>c1. c1 > 0)), (pdiv (pmax X Y) C1), True),
        ((int1 1 (\<lambda>c1. c1 < 0)), (pdiv (pmin X Y) C1), True)],
     Rule [(pmax (pmul X C1) (pmul Y C1))]
       [((int1 1 (\<lambda>c1. c1 > 0)), (pmul (pmax X Y) C1), True),
        ((int1 1 (\<lambda>c1. c1 < 0)), (pmul (pmin X Y) C1), True)],
     TRY_REWRITE_IF (pmax X Y) X (difference P CanProveGE),
     TRY_REWRITE_IF (pmax X Y) Y (difference P CanProveLE),
     TRY_REWRITE (pmax C1 X) (pmax X C1),
     TRY_REWRITE (pmax (pmax X C1) Y) (pmax (pmax X Y) C1)]"

definition eq_rules :: "'f rule list" where
  "eq_rules =
    [TRY_REWRITE (peq X X) (PExprLiteral (MakeConstBool True)),
     TRY_REWRITE (peq (padd X Y) (padd X Z)) (peq Y Z),
     TRY_REWRITE (peq (padd Y X) (padd X Z)) (peq Y Z),
     TRY_REWRITE (peq (padd X Y) (padd Z X)) (peq Y Z),
     TRY_REWRITE (peq (padd Y X) (padd Z X)) (peq Y Z),
     TRY_REWRITE (peq (psub X C1) C2) (peq X (padd C1 C2)),
     TRY_REWRITE (peq (padd X C1) C2) (peq X (psub C2 C1)),
     TRY_REWRITE (peq (psub C1 X) C2) (peq X (psub C1 C2)),
     TRY_REWRITE (peq C1 X) (peq X C1)]"

definition ne_rules :: "'f rule list" where
  "ne_rules =
    [TRY_REWRITE (pne X X) (PExprLiteral (MakeConstBool False)),
     TRY_REWRITE (pne (padd X Y) (padd X Z)) (pne Y Z),
     TRY_REWRITE (pne (padd Y X) (padd X Z)) (pne Y Z),
     TRY_REWRITE (pne (padd X Y) (padd Z X)) (pne Y Z),
     TRY_REWRITE (pne (padd Y X) (padd Z X)) (pne Y Z),
     TRY_REWRITE (pne (psub X C1) C2) (pne X (padd C1 C2)),
     TRY_REWRITE (pne (padd X C1) C2) (pne X (psub C2 C1)),
     TRY_REWRITE (pne C1 X) (pne X C1)]"

definition lt_rules :: "DataType \<Rightarrow> 'f rule list" where
  "lt_rules d =
    [TRY_REWRITE (plt X X) (PExprLiteral (MakeConstBool False)),
     TRY_REWRITE (plt (padd X Y) (padd X Z)) (plt Y Z),
     TRY_REWRITE (plt (padd Y X) (padd X Z)) (plt Y Z),
     TRY_REWRITE (plt (padd X Y) (padd Z X)) (plt Y Z),
     TRY_REWRITE (plt (padd Y X) (padd Z X)) (plt Y Z),
     TRY_REWRITE (plt (psub Y X) (psub Z X)) (plt Y Z),
     TRY_REWRITE (plt (psub X Y) (psub X Z)) (plt Z Y),
     TRY_REWRITE (plt X (padd X Z)) (plt (PExprLiteral (MakeConstInt 0 d)) Z),
     TRY_REWRITE (plt X (padd Z X)) (plt (PExprLiteral (MakeConstInt 0 d)) Z),
     TRY_REWRITE (plt X (psub X Z)) (plt Z (PExprLiteral (MakeConstInt 0 d))),
     TRY_REWRITE (plt (padd X C1) C2) (plt X (psub C2 C1)),
     TRY_REWRITE (plt (psub X C1) C2) (plt X (padd C2 C1)),
     TRY_REWRITE (plt (psub C1 X) C2) (plt (psub C1 C2) X),
     TRY_REWRITE (plt C1 (padd X C2)) (plt (psub C1 C2) X),
     TRY_REWRITE (plt C1 (psub X C2)) (plt (padd C1 C2) X),
     TRY_REWRITE_IF (plt (pmul X C1) (pmul Y C1)) (plt X Y) (int1 1 (\<lambda>c1. c1 > 0)),
     TRY_REWRITE_IF (plt (pmul X C1) (pmul Y C1)) (plt Y X) (int1 1 (\<lambda>c1. c1 < 0)),
     TRY_REWRITE_IF (plt (pdiv X C1) C2) (plt X (pmul C1 C2)) (int1 1 (\<lambda>c1. c1 > 0)),
     TRY_REWRITE_IF (plt C1 (pdiv X C2))
       (plt (psub (pmul (padd C1 (PConstWithTypeLike C1 1)) C2) (PConstWithTypeLike (pmul (padd C1 (PConstWithTypeLike C1 1)) C2) 1)) X)
       (int1 2 (\<lambda>c2. c2 > 0)),
     TRY_REWRITE_IF (plt (pmul (pdiv X C1) C1) X) (plt (PExprLiteral (MakeConstInt 0 d)) (pmod X C1))
       (int1 1 (\<lambda>c1. c1 > 0)),
     TRY_REWRITE_IF (plt (pmul (pdiv X C1) C1) (padd X Y))
       (plt (PExprLiteral (MakeConstInt 0 d)) (padd (pmod X C1) Y)) (int1 1 (\<lambda>c1. c1 > 0)),
     TRY_REWRITE_IF (plt (pmul (pdiv X C1) C1) (psub X Y)) (plt Y (pmod X C1))
       (int1 1 (\<lambda>c1. c1 > 0)),
     TRY_REWRITE (plt (pmin X Y) Z) (por (plt X Z) (plt Y Z)),
     TRY_REWRITE (plt (pmax X Y) Z) (pand (plt X Z) (plt Y Z)),
     TRY_REWRITE (plt Z (pmin X Y)) (pand (plt Z X) (plt Z Y)),
     TRY_REWRITE (plt Z (pmax X Y)) (por (plt Z X) (plt Z Y))]"

definition le_rules :: "'f rule list" where
  "le_rules =
    [TRY_REWRITE (ple X X) (PExprLiteral (MakeConstBool True)),
     TRY_REWRITE (ple (padd X Y) (padd X Z)) (ple Y Z),
     TRY_REWRITE (ple (padd Y X) (padd X Z)) (ple Y Z),
     TRY_REWRITE (ple (padd X Y) (padd Z X)) (ple Y Z),
     TRY_REWRITE (ple (padd Y X) (padd Z X)) (ple Y Z),
     TRY_REWRITE (ple (psub Y X) (psub Z X)) (ple Y Z),
     TRY_REWRITE (ple (psub X Y) (psub X Z)) (ple Z Y),
     TRY_REWRITE (ple (padd X C1) C2) (ple X (psub C2 C1)),
     TRY_REWRITE (ple (psub X C1) C2) (ple X (padd C2 C1)),
     TRY_REWRITE (ple C1 (padd X C2)) (ple (psub C1 C2) X),
     TRY_REWRITE (ple C1 (psub X C2)) (ple (padd C1 C2) X),
     TRY_REWRITE (ple (psub C1 X) C2) (ple (psub C1 C2) X),
     TRY_REWRITE_IF (ple (pmul X C1) (pmul Y C1)) (ple X Y) (int1 1 (\<lambda>c1. c1 > 0)),
     TRY_REWRITE_IF (ple (pmul X C1) (pmul Y C1)) (ple Y X) (int1 1 (\<lambda>c1. c1 < 0))]"

definition not_rules :: "'f rule list" where
  "not_rules =
    [TRY_REWRITE (pnot (pnot X)) X,
     TRY_REWRITE (pnot (plt X Y)) (ple Y X),
     TRY_REWRITE (pnot (ple X Y)) (plt Y X),
     TRY_REWRITE (pnot (pgt X Y)) (pge Y X),
     TRY_REWRITE (pnot (pge X Y)) (pgt Y X),
     TRY_REWRITE (pnot (peq X Y)) (pne X Y),
     TRY_REWRITE (pnot (pne X Y)) (peq X Y),
     TRY_REWRITE (pnot (por X Y)) (pand (pnot X) (pnot Y)),
     TRY_REWRITE (pnot (pand X Y)) (por (pnot X) (pnot Y))]"

definition and_rules :: "'f rule list" where
  "and_rules =
    [TRY_REWRITE (pand X X) X,
     TRY_REWRITE (pand X (pnot X)) (PExprLiteral (MakeConstBool False)),
     TRY_REWRITE (pand (pnot X) X) (PExprLiteral (MakeConstBool False)),
     TRY_REWRITE (pand (peq X Y) (pne X Y)) (PExprLiteral (MakeConstBool False)),
     TRY_REWRITE (pand (pne X Y) (peq X Y)) (PExprLiteral (MakeConstBool False)),
     TRY_REWRITE (pand (ple X Y) (plt Y X)) (PExprLiteral (MakeConstBool False)),
     TRY_REWRITE (pand (plt Y X) (ple X Y)) (PExprLiteral (MakeConstBool False)),
     TRY_REWRITE_IF (pand (plt X C1) (plt C2 X)) (PExprLiteral (MakeConstBool False))
       (ints 1 2 (\<lambda>c1 c2. res_bind (i64 (c2 + 1)) (\<lambda>s. Inr (s \<ge> c1)))),
     TRY_REWRITE_IF (pand (plt C2 X) (plt X C1)) (PExprLiteral (MakeConstBool False))
       (ints 1 2 (\<lambda>c1 c2. res_bind (i64 (c2 + 1)) (\<lambda>s. Inr (s \<ge> c1)))),
     TRY_REWRITE_IF (pand (ple X C1) (ple C2 X)) (PExprLiteral (MakeConstBool False))
       (ints 1 2 (\<lambda>c1 c2. Inr (c2 > c1))),
     TRY_REWRITE_IF (pand (ple C2 X) (ple X C1)) (PExprLiteral (MakeConstBool False))
       (ints 1 2 (\<lambda>c1 c2. Inr (c2 > c1))),
     TRY_REWRITE (pand X (pand Y Z)) (pand (pand X Y) Z)]"

definition or_rules :: "'f rule list" where
  "or_rules =
    [TRY_REWRITE (por X X) X,
     TRY_REWRITE (por X (pnot X)) (PExprLiteral (MakeConstBool True)),
     TRY_REWRITE (por (pnot X) X) (PExprLiteral (MakeConstBool True)),
     TRY_REWRITE (por (peq X Y) (pne X Y)) (PExprLiteral (MakeConstBool True)),
     TRY_REWRITE (por (pne X Y) (peq X Y)) (PExprLiteral (MakeConstBool True)),
     TRY_REWRITE (por (ple X Y) (plt Y X)) (PExprLiteral (MakeConstBool True)),
     TRY_REWRITE (por (plt Y X) (ple X Y)) (PExprLiteral (MakeConstBool True)),
     TRY_REWRITE (por (plt X Y) (plt Y X)) (pne X Y),
     TRY_REWRITE_IF (por (plt X C1) (plt C2 X)) (PExprLiteral (MakeConstBool True))
       (ints 1 2 (\<lambda>c1 c2. Inr (c2 < c1))),
     TRY_REWRITE_IF (por (plt C2 X) (plt X C1)) (PExprLiteral (MakeConstBool True))
       (ints 1 2 (\<lambda>c1 c2. Inr (c2 < c1))),
     TRY_REWRITE_IF (por (ple X C1) (ple C2 X)) (PExprLiteral (MakeConstBool True))
       (ints 1 2 (\<lambda>c1 c2. res_bind (i64 (c1 + 1)) (\<lambda>s. Inr (c2 \<le> s)))),
     TRY_REWRITE_IF (por (ple C2 X) (ple X C1)) (PExprLiteral (MakeConstBool True))
       (ints 1 2 (\<lambda>c1 c2. res_bind (i64 (c1 + 1)) (\<lambda>s. Inr (c2 \<le> s)))),
     TRY_REWRITE (por (plt X Y) (peq X Y)) (ple X Y),
     TRY_REWRITE (por (plt X Y) (peq Y X)) (ple X Y),
     TRY_REWRITE (por (peq X Y) (plt X Y)) (ple X Y),
     TRY_REWRITE (por (peq Y X) (plt X Y)) (ple X Y),
     TRY_REWRITE (por X (por Y Z)) (por (por X Y) Z)]"

definition neg_rules :: "'f rule list" where
  "neg_rules =
    [TRY_REWRITE (pneg (pneg X)) X,
     TRY_REWRITE (pneg (psub X Y)) (psub Y X)]"

section \<open>Correctness\<close>

definition prover_sound :: "'f prover \<Rightarrow> env \<Rightarrow> bool" where
  "prover_sound P \<rho> \<longleftrightarrow> (\<forall>e c r v. P e c = Inr r \<longrightarrow> eval \<rho> e = Some v \<longrightarrow> cr_holds r v c)"

lemma prover_soundD: "prover_sound P \<rho> \<Longrightarrow> P e c = Inr r \<Longrightarrow> eval \<rho> e = Some v \<Longrightarrow> cr_holds r v c"
  by (simp add: prover_sound_def)

lemma CanProveGE_sound:
  "prover_sound P \<rho> \<Longrightarrow> CanProveGE P e c = Inr True \<Longrightarrow> eval \<rho> e = Some v \<Longrightarrow> c \<le> v"
  by (auto simp: CanProveGE_def dest: prover_soundD)

lemma CanProveLess_sound:
  "prover_sound P \<rho> \<Longrightarrow> CanProveLess P e c = Inr True \<Longrightarrow> eval \<rho> e = Some v \<Longrightarrow> v < c"
  by (auto simp: CanProveLess_def dest: prover_soundD)

lemma CanProveLE_sound:
  "prover_sound P \<rho> \<Longrightarrow> CanProveLE P e c = Inr True \<Longrightarrow> eval \<rho> e = Some v \<Longrightarrow> v \<le> c"
  by (auto simp: CanProveLE_def dest: prover_soundD)

lemma res_or_True: "res_or a b = Inr True \<Longrightarrow> a = Inr True \<or> b = Inr True"
  by (auto simp: res_or_def split: if_splits)

lemma res_and_True: "res_and a b = Inr True \<Longrightarrow> a = Inr True \<and> b = Inr True"
  by (auto simp: res_and_def split: if_splits)

text \<open>What a guard that holds says of the matched values.\<close>

lemma int_of_var_ival: "int_of_var b i = Inr v \<Longrightarrow> ival b i = v"
  by (auto simp: int_of_var_def ival_def split: option.splits)

lemma expr_of_xval:
  "has_values \<rho> b \<Longrightarrow> expr_of b i = Inr e \<Longrightarrow> eval \<rho> e = Some (xval \<rho> b i)"
  by (fastforce simp: expr_of_def has_values_def xval_def split: option.splits)

lemma int1_holds: "int1 i f b = Inr True \<Longrightarrow> f (ival b i)"
  by (auto simp: int1_def dest: int_of_var_ival)

lemma ints_holds: "ints i j f b = Inr True \<Longrightarrow> f (ival b i) (ival b j) = Inr True"
  by (auto simp: ints_def dest: int_of_var_ival)

lemma reduced_holds: "reduced f b = Inr True \<Longrightarrow> f (ival b 2)"
  by (auto simp: reduced_def dest!: ints_holds split: if_splits)

lemma nonzero_holds:
  "nonzero P i b = Inr True \<Longrightarrow> prover_sound P \<rho> \<Longrightarrow> has_values \<rho> b \<Longrightarrow> xval \<rho> b i \<noteq> 0"
  by (fastforce simp: nonzero_def dest: CanProveGE_sound CanProveLE_sound expr_of_xval dest!: res_or_True)

lemma in_range_holds:
  "in_range P b = Inr True \<Longrightarrow> prover_sound P \<rho> \<Longrightarrow> has_values \<rho> b \<Longrightarrow>
   0 < ival b 1 \<and> 0 \<le> xval \<rho> b 0 \<and> xval \<rho> b 0 < ival b 1"
  by (fastforce simp: in_range_def dest: CanProveGE_sound CanProveLess_sound expr_of_xval int_of_var_ival
      dest!: res_and_True split: if_splits)

lemma nonzero_modulus_holds:
  "nonzero_modulus P b = Inr True \<Longrightarrow> prover_sound P \<rho> \<Longrightarrow> has_values \<rho> b \<Longrightarrow>
   ival b 2 \<noteq> 0 \<and> xval \<rho> b 0 \<noteq> 0"
  by (auto simp: nonzero_modulus_def dest: int_of_var_ival nonzero_holds split: if_splits)

lemma divisible_holds:
  assumes "divisible b = Inr True"
  shows "0 < ival b 2 \<and> (\<exists>k. ival b 1 = ival b 2 * k)"
  using ints_holds [OF assms [unfolded divisible_def]] by (auto simp: cmod_eq_0_iff elim: dvdE)

lemma divides_holds:
  assumes "divides b = Inr True"
  shows "0 < ival b 1 \<and> (\<exists>k. 0 < k \<and> ival b 2 = ival b 1 * k)"
  using ints_holds [OF assms [unfolded divides_def]] by (auto simp: cmod_eq_0_iff cdiv_dvd elim!: dvdE)

lemma difference_values:
  assumes "exact_casts \<rho>" and "has_values \<rho> b" and "difference P test b = Inr True"
  obtains e where "test P e 0 = Inr True" and "eval \<rho> e = Some (xval \<rho> b 0 - xval \<rho> b 1)"
proof -
  obtain x y e where x: "expr_of b 0 = Inr x" and y: "expr_of b 1 = Inr y"
    and e: "MakeBinary KSub x y = Inr e" and t: "test P e 0 = Inr True"
    using assms(3) by (auto simp: difference_def)
  have "eval \<rho> e = bin_val KSub (xval \<rho> b 0) (xval \<rho> b 1)"
    by (rule MakeBinary_eval [OF e assms(1) expr_of_xval [OF assms(2) x] expr_of_xval [OF assms(2) y]])
  with t show thesis by (intro that) simp_all
qed

lemma difference_le:
  assumes "exact_casts \<rho>" and "has_values \<rho> b" and "prover_sound P \<rho>"
    and "difference P CanProveLE b = Inr True"
  shows "xval \<rho> b 0 \<le> xval \<rho> b 1"
  by (rule difference_values [OF assms(1,2,4)]) (use CanProveLE_sound [OF assms(3)] in fastforce)

lemma difference_ge:
  assumes "exact_casts \<rho>" and "has_values \<rho> b" and "prover_sound P \<rho>"
    and "difference P CanProveGE b = Inr True"
  shows "xval \<rho> b 1 \<le> xval \<rho> b 0"
  by (rule difference_values [OF assms(1,2,4)]) (use CanProveGE_sound [OF assms(3)] in fastforce)

lemmas guard_holds = int1_holds ints_holds [simplified] reduced_holds [simplified] nonzero_holds [simplified]
  in_range_holds [simplified] nonzero_modulus_holds [simplified] divisible_holds [simplified]
  divides_holds [simplified]

text \<open>Rule lists: one goal for each rule.\<close>

definition rules_correct :: "env \<Rightarrow> 'f rule list \<Rightarrow> bool" where
  "rules_correct \<rho> rs \<longleftrightarrow> (\<forall>r\<in>set rs. rule_correct \<rho> r)"

lemma rules_correct_Nil: "rules_correct \<rho> []"
  by (simp add: rules_correct_def)

lemma rules_correct_Cons: "rule_correct \<rho> r \<Longrightarrow> rules_correct \<rho> rs \<Longrightarrow> rules_correct \<rho> (r # rs)"
  by (simp add: rules_correct_def)

lemmas rules_correctI = rules_correct_Cons rules_correct_Nil

lemmas pat_simps = bind_eq_Some_conv algebra_simps is_truth_def

lemma add_rules_correct: "rules_correct \<rho> add_rules"
  unfolding add_rules_def
  by (intro rules_correctI TRY_REWRITE_correct; auto simp: pat_simps min_def max_def split: if_splits)

lemma mul_rules_correct: "rules_correct \<rho> mul_rules"
  unfolding mul_rules_def
  by (intro rules_correctI TRY_REWRITE_correct TRY_REWRITE_IF_correct; auto simp: pat_simps min_def max_def split: if_splits)

lemma eq_rules_correct: "rules_correct \<rho> eq_rules"
  unfolding eq_rules_def
  by (intro rules_correctI TRY_REWRITE_correct; auto simp: pat_simps)

lemma ne_rules_correct: "rules_correct \<rho> ne_rules"
  unfolding ne_rules_def
  by (intro rules_correctI TRY_REWRITE_correct; auto simp: pat_simps)

lemma not_rules_correct: "rules_correct \<rho> not_rules"
  unfolding not_rules_def
  by (intro rules_correctI TRY_REWRITE_correct; auto simp: pat_simps split: if_splits)

lemma neg_rules_correct: "rules_correct \<rho> neg_rules"
  unfolding neg_rules_def
  by (intro rules_correctI TRY_REWRITE_correct; auto simp: pat_simps split: if_splits)

lemma and_rules_correct: "rules_correct \<rho> and_rules"
  unfolding and_rules_def
  by (intro rules_correctI TRY_REWRITE_correct TRY_REWRITE_IF_correct; auto simp: pat_simps dest!: ints_holds split: if_splits)

lemma or_rules_correct: "rules_correct \<rho> or_rules"
  unfolding or_rules_def
  by (intro rules_correctI TRY_REWRITE_correct TRY_REWRITE_IF_correct; auto simp: pat_simps dest!: ints_holds split: if_splits)

lemma le_rules_correct: "rules_correct \<rho> le_rules"
  unfolding le_rules_def
  by (intro rules_correctI TRY_REWRITE_correct TRY_REWRITE_IF_correct; auto simp: pat_simps dest!: int1_holds split: if_splits)

lemmas mod_as_div = minus_div_mult_eq_mod [symmetric]

lemma sub_rules_correct: "\<not> IsFloat d \<Longrightarrow> rules_correct \<rho> (sub_rules d)"
  unfolding sub_rules_def
  by (intro rules_correctI TRY_REWRITE_correct TRY_REWRITE_IF_correct;
      simp add: bind_eq_Some_conv min_def max_def split: if_splits; (auto simp: algebra_simps mod_as_div))

text \<open>Integer division by a positive and by a negative divisor, and of a multiple of the divisor.\<close>

lemma min_max_div:
  "0 < (c::int) \<Longrightarrow> min a b div c = min (a div c) (b div c)"
  "0 < c \<Longrightarrow> max a b div c = max (a div c) (b div c)"
  "c < 0 \<Longrightarrow> min a b div c = max (a div c) (b div c)"
  "c < 0 \<Longrightarrow> max a b div c = min (a div c) (b div c)"
  using zdiv_mono1 [of a b c] zdiv_mono1 [of b a c] zdiv_mono1_neg [of a b c] zdiv_mono1_neg [of b a c]
  by (auto simp: min_def max_def)

lemma min_max_mult:
  "0 < (c::int) \<Longrightarrow> min a b * c = min (a * c) (b * c)"
  "0 < c \<Longrightarrow> max a b * c = max (a * c) (b * c)"
  "c < 0 \<Longrightarrow> min a b * c = max (a * c) (b * c)"
  "c < 0 \<Longrightarrow> max a b * c = min (a * c) (b * c)"
  by (auto simp: min_def max_def)

lemma multiple_mod:
  "x * ((c::int) * k) mod c = 0" "c * k * x mod c = 0"
  "(x + c * k) mod c = x mod c" "(c * k + x) mod c = x mod c"
  "(x * (c * k) + y) mod c = y mod c" "(c * k * x + y) mod c = y mod c"
  "(y + x * (c * k)) mod c = y mod c" "(y + c * k * x) mod c = y mod c"
  by (simp_all add: mult.left_commute [of x c] mult.assoc)

lemma multiple_div:
  assumes "(c::int) \<noteq> 0"
  shows "x * (c * k) div c = x * k" "c * k * x div c = x * k"
    "(x + c * k) div c = x div c + k" "(c * k + x) div c = x div c + k"
    "(x * (c * k) + y) div c = x * k + y div c" "(c * k * x + y) div c = x * k + y div c"
    "(y + x * (c * k)) div c = x * k + y div c" "(y + c * k * x) div c = x * k + y div c"
  using assms by (simp_all add: mult.left_commute [of x c] mult.assoc mult.commute [of k x])

lemma reduce_factor_mod: "(x + y * (a mod c)) mod c = (x + y * a) mod (c::int)"
  by (metis mod_add_right_eq mod_mult_right_eq)

lemma floordiv_rules_correct:
  "\<not> IsFloat d \<Longrightarrow> prover_sound P \<rho> \<Longrightarrow> rules_correct \<rho> (floordiv_rules P d)"
  unfolding floordiv_rules_def
  by (intro rules_correctI TRY_REWRITE_correct TRY_REWRITE_IF_correct; simp add: bind_eq_Some_conv;
      auto dest!: guard_holds simp: multiple_div min_max_div zdiv_zmult2_eq;
      simp add: add.commute minus_mod_eq_mult_div)

lemma floormod_rules_correct:
  "\<not> IsFloat d \<Longrightarrow> prover_sound P \<rho> \<Longrightarrow> rules_correct \<rho> (floormod_rules P d)"
  unfolding floormod_rules_def
  by (intro rules_correctI TRY_REWRITE_correct TRY_REWRITE_IF_correct; simp add: bind_eq_Some_conv;
      auto dest!: guard_holds simp: multiple_mod reduce_factor_mod;
      simp add: mod_mult_right_eq mod_add_right_eq | simp add: mult_mod_right)

text \<open>The rules written out as branches in the code.\<close>

lemma Rule_correct:
  assumes "\<forall>p\<in>set srcs. is_source p" and "\<forall>(g, p, again)\<in>set brs. is_result p"
    and "\<And>p b v res again. p \<in> set srcs \<Longrightarrow> has_values \<rho> b \<Longrightarrow> pat_value \<rho> b p = Some v \<Longrightarrow>
      first_branch brs b = Inr (Some (res, again)) \<Longrightarrow> pat_value \<rho> b res = Some v"
  shows "rule_correct \<rho> (Rule srcs brs)"
  using assms unfolding rule_correct_def rule.case by blast

lemma int1_value: "int1 i f b = Inr q \<Longrightarrow> q = f (ival b i)"
  by (auto simp: int1_def dest: int_of_var_ival)

lemma ints_value: "ints i j f b = Inr q \<Longrightarrow> f (ival b i) (ival b j) = Inr q"
  by (auto simp: ints_def dest: int_of_var_ival)

lemma min_rules_correct:
  "exact_casts \<rho> \<Longrightarrow> prover_sound P \<rho> \<Longrightarrow> rules_correct \<rho> (min_rules P)"
  unfolding min_rules_def
  by (intro rules_correctI TRY_REWRITE_correct TRY_REWRITE_IF_correct Rule_correct;
      auto simp: bind_eq_Some_conv always_def min_max_div min_max_mult split: if_splits
        dest!: int1_value ints_value dest: difference_le difference_ge;
      auto simp: min_def max_def dest: difference_le difference_ge)

lemma max_rules_correct:
  "exact_casts \<rho> \<Longrightarrow> prover_sound P \<rho> \<Longrightarrow> rules_correct \<rho> (max_rules P)"
  unfolding max_rules_def
  by (intro rules_correctI TRY_REWRITE_correct TRY_REWRITE_IF_correct Rule_correct;
      auto simp: bind_eq_Some_conv always_def min_max_div min_max_mult split: if_splits
        dest!: int1_value ints_value dest: difference_le difference_ge;
      auto simp: min_def max_def dest: difference_le difference_ge)

lemma compare_div:
  assumes "0 < (c::int)"
  shows "x div c < k \<longleftrightarrow> x < c * k" and "k < x div c \<longleftrightarrow> (k + 1) * c - 1 < x"
  using assms div_less_iff_mult [of c x k] le_div_iff_mult [of c "k + 1" x]
  by (auto simp: mult.commute)

lemma lt_rules_correct: "\<not> IsFloat d \<Longrightarrow> rules_correct \<rho> (lt_rules d)"
  unfolding lt_rules_def
  by (intro rules_correctI TRY_REWRITE_correct TRY_REWRITE_IF_correct; simp add: bind_eq_Some_conv is_truth_def;
      auto dest!: int1_holds simp: compare_div min_def max_def minus_mod_eq_div_mult [symmetric] split: if_splits)

text \<open>The literals of the rules are 64-bit integers.\<close>

definition rules_wf :: "'f rule list \<Rightarrow> bool" where
  "rules_wf rs \<longleftrightarrow> (\<forall>r\<in>set rs. wf_rule r)"

lemma wf_rule_simps:
  "wf_rule (TRY_REWRITE src res) = wf_pat res" "wf_rule (TRY_REWRITE_IF src res cond) = wf_pat res"
  "wf_rule (Rule srcs brs) = (\<forall>(g, p, again)\<in>set brs. wf_pat p)"
  by (simp_all add: wf_rule_def TRY_REWRITE_def TRY_REWRITE_IF_def)

lemmas rules_defs = add_rules_def sub_rules_def mul_rules_def floordiv_rules_def floormod_rules_def
  min_rules_def max_rules_def eq_rules_def ne_rules_def lt_rules_def le_rules_def not_rules_def
  and_rules_def or_rules_def neg_rules_def

lemma rules_are_wf:
  "rules_wf add_rules" "rules_wf (sub_rules d)" "rules_wf mul_rules" "rules_wf (floordiv_rules P d)"
  "rules_wf (floormod_rules P d)" "rules_wf (min_rules P)" "rules_wf (max_rules P)" "rules_wf eq_rules"
  "rules_wf ne_rules" "rules_wf (lt_rules d)" "rules_wf le_rules" "rules_wf not_rules"
  "rules_wf and_rules" "rules_wf or_rules" "rules_wf neg_rules"
  by (simp_all add: rules_wf_def rules_defs wf_rule_simps is_i64_alt)

section \<open>The property\<close>

text \<open>
  Claim C26. Every rewrite rule of every visitor is an equation of integers: whatever values the
  pattern variables take, when the guards of the rule hold, the expression built for its right-hand
  side has the value of the expression matched, for every prover whose answers are true. The
  data type of the node is any but a floating-point one.
\<close>

theorem rewrite_rules_correct:
  assumes "exact_casts \<rho>" and "prover_sound P \<rho>" and "\<not> IsFloat d"
  shows "list_all (rules_correct \<rho>)
    [add_rules, sub_rules d, mul_rules, floordiv_rules P d, floormod_rules P d, min_rules P, max_rules P,
     eq_rules, ne_rules, lt_rules d, le_rules, not_rules, and_rules, or_rules, neg_rules]"
  using assms
  by (simp add: add_rules_correct sub_rules_correct mul_rules_correct floordiv_rules_correct
      floormod_rules_correct min_rules_correct max_rules_correct eq_rules_correct ne_rules_correct
      lt_rules_correct le_rules_correct not_rules_correct and_rules_correct or_rules_correct
      neg_rules_correct)

text \<open>A prover that compares literals.\<close>

definition literal_prover :: "int prover" where
  "literal_prover e c = Inr (case as_int e of Some (v, _) \<Rightarrow> if c \<le> v then kGE else kLT | None \<Rightarrow> kUnknown)"

lemma literal_prover_sound: "prover_sound literal_prover \<rho>"
  by (auto simp: prover_sound_def literal_prover_def split: option.splits if_splits)

lemma rewrite_rules_correct_witness:
  "rules_correct (env_of [0 \<mapsto> 3] cast_id) (floordiv_rules literal_prover INDEX)"
  using rewrite_rules_correct [OF _ literal_prover_sound, of "env_of [0 \<mapsto> 3] cast_id" INDEX]
  by (simp add: exact_casts_def)

end
