(* ===== verification/Rewrite_Simplify.thy ===== *)
theory Rewrite_Simplify
  imports Rewrite_Rules Const_Int_Bound
begin

text \<open>
  The rewriting simplifier, \<^verbatim>\<open>src/ir/arith/rewrite_simplify.cpp\<close>: the visitor over expressions that
  simplifies the operands, folds literals, tries the rules of the node's kind
  (\<^verbatim>\<open>Rewrite_Rules.thy\<close>) and visits what a rule produced again, to the depth
  \<open>kMaxRecursiveDepth\<close>; the result keeps the integer data type of the original
  (\<^verbatim>\<open>src/ir/arith/simplify_utils.h\<close>). The state of the simplifier is the record \<open>rewriter\<close>; the
  depth counter is an argument of the visitor, which the code resets on every return without an
  exception. The two counters of attempted and performed rewrites are written and never read in
  the code; they are left out.

  Shown: the visitor ends on every expression (it is a total function), the result has the value
  of the expression where no conversion that the expression meets loses its operand, and its integer
  type; literals stay 64-bit integers; the literals that a scope records give the expressions
  they decide the right value.
\<close>

section \<open>State\<close>

text \<open>
  \<open>rw_parent\<close> is \<open>parent_->const_int_bound\<close>, \<open>None\<close> in the standalone mode; \<open>rw_vars\<close> is
  \<open>var_map_\<close>, \<open>rw_literals\<close> is \<open>literal_constraints_\<close>.
\<close>

record 'f rewriter =
  rw_parent :: "('f expr \<Rightarrow> ConstIntBound res) option"
  rw_vars :: "nat \<Rightarrow> 'f expr option"
  rw_literals :: "'f expr list"

definition rw_TryCompare :: "('f expr \<Rightarrow> ConstIntBound res) option \<Rightarrow> 'f prover" where
  "rw_TryCompare par x val =
     (case par of
        None \<Rightarrow> Inr kUnknown
      | Some f \<Rightarrow> res_bind (f x) (\<lambda>bound.
          Inr (if min_value bound = val \<and> max_value bound = val then kEQ
               else if min_value bound > val then kGT
               else if min_value bound = val then kGE
               else if max_value bound < val then kLT
               else if max_value bound = val then kLE
               else kUnknown)))"

definition rw_update :: "nat \<Rightarrow> 'f expr option \<Rightarrow> 'f rewriter \<Rightarrow> 'f rewriter" where
  "rw_update i info st = st\<lparr>rw_vars := (rw_vars st)(i := info)\<rparr>"

section \<open>Visiting\<close>

definition integer_dtype :: "DataType \<Rightarrow> bool" where
  "integer_dtype d \<longleftrightarrow> IsInt d \<or> d = INDEX"

definition PreserveIntegerResultType :: "'f expr \<Rightarrow> 'f expr \<Rightarrow> 'f expr res" where
  "PreserveIntegerResultType original result =
     (case scalar_type original of
        None \<Rightarrow> Inr result
      | Some d \<Rightarrow>
          if \<not> integer_dtype d then Inr result
          else res_bind (GetScalarDtype result) (\<lambda>rd.
            if \<not> integer_dtype rd \<or> rd = d then Inr result
            else case TryConstFoldCast result d of
                Some folded \<Rightarrow> Inr folded
              | None \<Rightarrow> Inr (MakeCast result d)))"

definition is_var_like :: "'f expr \<Rightarrow> bool" where
  "is_var_like e = (case e of Var i t \<Rightarrow> True | IterArg i t \<Rightarrow> True | _ \<Rightarrow> False)"

definition has_float_operand :: "'f expr \<Rightarrow> bool" where
  "has_float_operand e =
     (case e of
        Binary k l r d \<Rightarrow> float_ty (scalar_type l) \<or> float_ty (scalar_type r)
      | _ \<Rightarrow> False)"

text \<open>The two early returns of \<open>VisitExpr\<close> on floating-point expressions and comparisons.\<close>

definition skips_float :: "'f expr \<Rightarrow> bool" where
  "skips_float e \<longleftrightarrow>
     (float_ty (scalar_type e) \<and> \<not> is_var_like e) \<or>
     has_float_operand (case e of Unary KNot a d \<Rightarrow> a | _ \<Rightarrow> e)"

definition MutateBinary ::
  "'f host \<Rightarrow> binop \<Rightarrow> 'f expr \<Rightarrow> 'f expr \<Rightarrow> DataType \<Rightarrow> 'f expr \<Rightarrow> 'f expr \<Rightarrow> 'f expr res" where
  "MutateBinary H k l r d a b =
     (if same_ptr H a l \<and> same_ptr H b r then Inr (Binary k l r d) else MakeBinary k a b)"

definition MutateUnary ::
  "'f host \<Rightarrow> unop \<Rightarrow> 'f expr \<Rightarrow> DataType \<Rightarrow> 'f expr \<Rightarrow> 'f expr res" where
  "MutateUnary H k x d a = (if same_ptr H a x then Inr (Unary k x d) else MakeUnary k a)"

text \<open>
  What the visitor of a node does once its operands are visited: the new expression, and whether
  it goes through \<open>RecursiveRewrite\<close>.
\<close>

definition rw_try ::
  "'f host \<Rightarrow> 'f projection \<Rightarrow> 'f rule list \<Rightarrow> 'f expr \<Rightarrow> ('f expr \<times> bool) res" where
  "rw_try H S rs ret =
     res_bind (try_rules H S rs ret) (\<lambda>m. Inr (case m of Some x \<Rightarrow> x | None \<Rightarrow> (ret, False)))"

definition rw_fold_or ::
  "'f expr option \<Rightarrow> ('f expr \<times> bool) res \<Rightarrow> ('f expr \<times> bool) res" where
  "rw_fold_or folded rest = (case folded of Some e \<Rightarrow> Inr (e, False) | None \<Rightarrow> rest)"

definition rw_arith ::
  "'f host \<Rightarrow> 'f projection \<Rightarrow> (DataType \<Rightarrow> 'f rule list) \<Rightarrow> binop \<Rightarrow> 'f expr \<Rightarrow> 'f expr \<Rightarrow> DataType \<Rightarrow>
    'f expr \<Rightarrow> 'f expr \<Rightarrow> ('f expr \<times> bool) res" where
  "rw_arith H S rules k l r d a b =
     res_bind (TryConstFoldBinaryLhs H k a b) (\<lambda>folded. rw_fold_or folded
       (res_bind (MutateBinary H k l r d a b) (\<lambda>ret.
        res_bind (GetScalarDtype ret) (\<lambda>rd. rw_try H S (rules rd) ret))))"

definition rw_division ::
  "'f host \<Rightarrow> 'f projection \<Rightarrow> (DataType \<Rightarrow> 'f rule list) \<Rightarrow> binop \<Rightarrow> 'f expr \<Rightarrow> 'f expr \<Rightarrow> DataType \<Rightarrow>
    'f expr \<Rightarrow> 'f expr \<Rightarrow> ('f expr \<times> bool) res" where
  "rw_division H S rules k l r d a b =
     (if \<not> FloorDivModOperandsFitDtype a b d then
        Inr (if same_ptr H a l \<and> same_ptr H b r then Binary k l r d else Binary k a b d, False)
      else
        res_bind (TryConstFoldBinary H k a b d) (\<lambda>folded. rw_fold_or folded
          (res_bind (MutateBinary H k l r d a b) (\<lambda>ret.
           res_bind (GetScalarDtype ret) (\<lambda>rd. rw_try H S (rules rd) ret)))))"

definition rw_compare ::
  "'f host \<Rightarrow> 'f projection \<Rightarrow> (DataType \<Rightarrow> 'f rule list) \<Rightarrow> binop \<Rightarrow> 'f expr \<Rightarrow> 'f expr \<Rightarrow> DataType \<Rightarrow>
    'f expr \<Rightarrow> 'f expr \<Rightarrow> ('f expr \<times> bool) res" where
  "rw_compare H S rules k l r d a b =
     res_bind (TryConstFoldBinaryLhs H k a b) (\<lambda>folded. rw_fold_or folded
       (res_bind (MutateBinary H k l r d a b) (\<lambda>ret.
        res_bind (GetScalarDtype a) (\<lambda>ad.
          if IsFloat ad then Inr (ret, False) else rw_try H S (rules ad) ret))))"

definition rw_passthrough ::
  "'f host \<Rightarrow> binop \<Rightarrow> 'f expr \<Rightarrow> 'f expr \<Rightarrow> DataType \<Rightarrow> 'f expr \<Rightarrow> 'f expr \<Rightarrow> ('f expr \<times> bool) res" where
  "rw_passthrough H k l r d a b =
     res_bind (TryConstFoldBinaryLhs H k a b) (\<lambda>folded. rw_fold_or folded
       (res_bind (MutateBinary H k l r d a b) (\<lambda>ret. Inr (ret, False))))"

definition rw_binary ::
  "'f host \<Rightarrow> 'f projection \<Rightarrow> 'f prover \<Rightarrow> binop \<Rightarrow> 'f expr \<Rightarrow> 'f expr \<Rightarrow> DataType \<Rightarrow>
    'f expr \<Rightarrow> 'f expr \<Rightarrow> ('f expr \<times> bool) res" where
  "rw_binary H S P k =
     (case k of
        KAdd \<Rightarrow> rw_arith H S (\<lambda>_. add_rules) k
      | KSub \<Rightarrow> rw_arith H S sub_rules k
      | KMul \<Rightarrow> rw_arith H S (\<lambda>_. mul_rules) k
      | KFloorDiv \<Rightarrow> rw_division H S (floordiv_rules P) k
      | KFloorMod \<Rightarrow> rw_division H S (floormod_rules P) k
      | KMin \<Rightarrow> rw_arith H S (\<lambda>_. min_rules P) k
      | KMax \<Rightarrow> rw_arith H S (\<lambda>_. max_rules P) k
      | KEq \<Rightarrow> rw_compare H S (\<lambda>_. eq_rules) k
      | KNe \<Rightarrow> rw_compare H S (\<lambda>_. ne_rules) k
      | KLt \<Rightarrow> rw_compare H S lt_rules k
      | KLe \<Rightarrow> rw_compare H S (\<lambda>_. le_rules) k
      | KAnd \<Rightarrow> rw_arith H S (\<lambda>_. and_rules) k
      | KOr \<Rightarrow> rw_arith H S (\<lambda>_. or_rules) k
      | _ \<Rightarrow> rw_passthrough H k)"

definition rw_unary ::
  "'f host \<Rightarrow> 'f projection \<Rightarrow> unop \<Rightarrow> 'f expr \<Rightarrow> DataType \<Rightarrow> 'f expr \<Rightarrow> ('f expr \<times> bool) res" where
  "rw_unary H S k x d a =
     (if k = KCast then
        (case TryConstFoldCast a d of
           Some folded \<Rightarrow> Inr (folded, False)
         | None \<Rightarrow> Inr (if same_ptr H a x then Unary k x d else MakeCast a d, False))
      else rw_fold_or (TryConstFoldUnary H k a)
        (res_bind (MutateUnary H k x d a) (\<lambda>ret.
           if k = KNot then rw_try H S not_rules ret
           else if k = KNeg then rw_try H S neg_rules ret
           else Inr (ret, False))))"

definition kMaxRecursiveDepth :: nat where
  "kMaxRecursiveDepth = 5"

text \<open>
  A comparison \<open>>\<close> or \<open>>=\<close> is visited as the swapped \<open><\<close> or \<open><=\<close>, whose construction may wrap the
  operands in conversions; the size below counts these in advance.
\<close>

primrec rw_size :: "'f expr \<Rightarrow> nat" where
  "rw_size (ConstInt v d) = 1"
| "rw_size (ConstFloat v d) = 1"
| "rw_size (ConstBool b) = 1"
| "rw_size (Var i t) = 1"
| "rw_size (IterArg i t) = 1"
| "rw_size (Call f i t) = 1"
| "rw_size (Opaque i t) = 1"
| "rw_size (Binary k l r d) = (if k = KGt \<or> k = KGe then 4 else 1) + rw_size l + rw_size r"
| "rw_size (Unary k a d) = 1 + rw_size a"

lemma MaybeCast_size: "MaybeCast e d = Inr e' \<Longrightarrow> rw_size e' \<le> rw_size e + 1"
  by (auto simp: MaybeCast_def split: if_splits)

lemma swapped_size:
  assumes "MakeBinary k r l = Inr e" and "k = KLt \<or> k = KLe"
  shows "rw_size e < 4 + rw_size l + rw_size r"
  using assms by (auto simp: MakeBinary_def is_arith_def is_compare_def PromoteBinaryOperands_def
      dest!: MaybeCast_size split: if_splits)

function rw_visit ::
  "'f host \<Rightarrow> 'f projection \<Rightarrow> 'f rewriter \<Rightarrow> nat \<Rightarrow> 'f expr \<Rightarrow> 'f expr res" where
  "rw_visit H S st depth e =
     (if skips_float e then Inr e
      else res_bind
        (case e of
           Var i t \<Rightarrow> Inr (case rw_vars st i of Some e' \<Rightarrow> e' | None \<Rightarrow> e)
         | IterArg i t \<Rightarrow> Inr (case rw_vars st i of Some e' \<Rightarrow> e' | None \<Rightarrow> e)
         | Binary k l r d \<Rightarrow>
             if k = KGt then res_bind (MakeBinary KLt r l) (\<lambda>e'. rw_visit H S st depth e')
             else if k = KGe then res_bind (MakeBinary KLe r l) (\<lambda>e'. rw_visit H S st depth e')
             else
               res_bind (rw_visit H S st depth l) (\<lambda>a.
               res_bind (rw_visit H S st depth r) (\<lambda>b.
               res_bind (rw_binary H S (rw_TryCompare (rw_parent st)) k l r d a b) (\<lambda>(e', again).
                 if again \<and> depth < kMaxRecursiveDepth then rw_visit H S st (depth + 1) e'
                 else Inr e')))
         | Unary k x d \<Rightarrow>
             res_bind (rw_visit H S st depth x) (\<lambda>a.
             res_bind (rw_unary H S k x d a) (\<lambda>(e', again).
               if again \<and> depth < kMaxRecursiveDepth then rw_visit H S st (depth + 1) e'
               else Inr e'))
         | _ \<Rightarrow> Inr e)
        (\<lambda>result. PreserveIntegerResultType e result))"
  by pat_completeness auto
termination
  by (relation "measures [\<lambda>(H, S, st, depth, e). kMaxRecursiveDepth - depth,
      \<lambda>(H, S, st, depth, e). rw_size e]")
     (auto dest: swapped_size [where k = KLt, simplified] swapped_size [where k = KLe, simplified])

declare rw_visit.simps [simp del]

definition rw_simplify :: "'f host \<Rightarrow> 'f projection \<Rightarrow> 'f rewriter \<Rightarrow> 'f expr \<Rightarrow> 'f expr res" where
  "rw_simplify H S st e = rw_visit H S st 0 e"

section \<open>Constraints\<close>

text \<open>\<open>EnterConstraint\<close> gives the new state and the size its recovery function restores.\<close>

definition rw_enter ::
  "'f host \<Rightarrow> 'f projection \<Rightarrow> 'f rewriter \<Rightarrow> 'f expr \<Rightarrow> ('f rewriter \<times> nat) res" where
  "rw_enter H S st c =
     res_bind (rw_simplify H S st c) (\<lambda>simplified.
       Inr (st\<lparr>rw_literals := rw_literals st @ ExtractConstraints simplified\<rparr>, length (rw_literals st)))"

definition rw_recover :: "nat \<Rightarrow> 'f rewriter \<Rightarrow> 'f rewriter" where
  "rw_recover old_size st = st\<lparr>rw_literals := take old_size (rw_literals st)\<rparr>"

text \<open>\<open>TryMatchLiteralConstraint\<close>: whether a recorded constraint decides an expression.\<close>

definition not_operand :: "'f expr \<Rightarrow> 'f expr option" where
  "not_operand e = (case e of Unary KNot a d \<Rightarrow> Some a | _ \<Rightarrow> None)"

fun match_literal :: "'f host \<Rightarrow> 'f expr list \<Rightarrow> 'f expr \<Rightarrow> 'f expr option" where
  "match_literal H [] e = None"
| "match_literal H (c # cs) e =
     (if same_ptr H c e then Some (MakeConstBool True)
      else if (case not_operand e of Some a \<Rightarrow> same_ptr H c a | None \<Rightarrow> False) then Some (MakeConstBool False)
      else if (case not_operand c of Some a \<Rightarrow> same_ptr H a e | None \<Rightarrow> False) then Some (MakeConstBool False)
      else match_literal H cs e)"

definition TryMatchLiteralConstraint :: "'f host \<Rightarrow> 'f rewriter \<Rightarrow> 'f expr \<Rightarrow> 'f expr option" where
  "TryMatchLiteralConstraint H st e = match_literal H (rw_literals st) e"

section \<open>Soundness\<close>

text \<open>What the simplifier may rely on in an environment: bindings and the parent's bounds are true of it.\<close>

definition rw_describes :: "'f host \<Rightarrow> 'f projection \<Rightarrow> 'f rewriter \<Rightarrow> env \<Rightarrow> bool" where
  "rw_describes H S st \<rho> \<longleftrightarrow> ptr_ok H \<and> exact_casts \<rho> \<and> leaves_agree S \<rho> \<and>
     prover_sound (rw_TryCompare (rw_parent st)) \<rho> \<and>
     (\<forall>i e v. rw_vars st i = Some e \<longrightarrow> vval \<rho> i = Some v \<longrightarrow> eval \<rho> e = Some v)"

definition rw_wf :: "'f rewriter \<Rightarrow> bool" where
  "rw_wf st \<longleftrightarrow> (\<forall>i e. rw_vars st i = Some e \<longrightarrow> wf_expr e)"

lemma rw_TryCompare_sound:
  assumes "\<And>f e b v. par = Some f \<Longrightarrow> f e = Inr b \<Longrightarrow> eval \<rho> e = Some v \<Longrightarrow> in_bound b v"
  shows "prover_sound (rw_TryCompare par) \<rho>"
  using assms
  by (fastforce simp: prover_sound_def rw_TryCompare_def in_bound_def split: option.splits if_splits)

lemma standalone_prover_sound: "prover_sound (rw_TryCompare None) \<rho>"
  by (rule rw_TryCompare_sound) simp

text \<open>Literals.\<close>

lemma PreserveIntegerResultType_wf:
  "PreserveIntegerResultType e r = Inr r' \<Longrightarrow> wf_expr r \<Longrightarrow> wf_expr r'"
  by (auto simp: PreserveIntegerResultType_def MakeCast_def dest: TryConstFoldCast_wf
      split: option.splits if_splits)

lemma Mutate_wf:
  "MutateBinary H k l r d a b = Inr e \<Longrightarrow> wf_expr l \<and> wf_expr r \<and> wf_expr a \<and> wf_expr b \<Longrightarrow> wf_expr e"
  "MutateUnary H u x d a = Inr e \<Longrightarrow> wf_expr x \<and> wf_expr a \<Longrightarrow> wf_expr e"
  by (auto simp: MutateBinary_def MutateUnary_def MakeBinary_wf MakeUnary_wf split: if_splits)

lemma rw_try_wf:
  "rw_try H S rs ret = Inr (e', again) \<Longrightarrow> rules_wf rs \<Longrightarrow> wf_expr ret \<Longrightarrow> wf_expr e'"
  by (auto simp: rw_try_def rules_wf_def dest: try_rules_wf split: option.splits)

lemma rw_fold_or_cases:
  "rw_fold_or folded rest = Inr (e', again) \<Longrightarrow> folded = Some e' \<or> folded = None \<and> rest = Inr (e', again)"
  by (auto simp: rw_fold_or_def split: option.splits)

text \<open>
  The rule lists of the visitors, over the data types of a set; and where the result of a visited
  node comes from: a fold, the rebuilt node, or a rule applied to it.
\<close>

definition visitor_rules :: "'f prover \<Rightarrow> DataType set \<Rightarrow> 'f rule list set" where
  "visitor_rules P T =
     {add_rules, mul_rules, min_rules P, max_rules P, eq_rules, ne_rules, le_rules, and_rules,
      or_rules, not_rules, neg_rules} \<union>
     sub_rules ` T \<union> lt_rules ` T \<union> floordiv_rules P ` T \<union> floormod_rules P ` T"

definition rebuilt ::
  "'f host \<Rightarrow> binop \<Rightarrow> 'f expr \<Rightarrow> 'f expr \<Rightarrow> DataType \<Rightarrow> 'f expr \<Rightarrow> 'f expr \<Rightarrow> 'f expr \<Rightarrow> bool" where
  "rebuilt H k l r d a b e \<longleftrightarrow> MutateBinary H k l r d a b = Inr e \<or> e = Binary k a b d \<or>
     (same_ptr H a l \<and> same_ptr H b r \<and> e = Binary k l r d)"

definition outcome ::
  "'f host \<Rightarrow> 'f projection \<Rightarrow> 'f prover \<Rightarrow> binop \<Rightarrow> 'f expr \<Rightarrow> 'f expr \<Rightarrow> DataType \<Rightarrow> 'f expr \<Rightarrow> 'f expr \<Rightarrow>
    'f expr \<Rightarrow> bool \<Rightarrow> bool" where
  "outcome H S P k l r d a b e' again \<longleftrightarrow>
     (\<exists>t. (t = d \<or> GetScalarDtype a = Inr t) \<and> TryConstFoldBinary H k a b t = Inr (Some e')) \<or>
     rebuilt H k l r d a b e' \<or>
     (\<exists>ret rs. rebuilt H k l r d a b ret \<and> rw_try H S rs ret = Inr (e', again) \<and>
       rs \<in> visitor_rules P {t. GetScalarDtype ret = Inr t \<or> GetScalarDtype a = Inr t})"

lemma outcome_intros:
  "t = d \<or> GetScalarDtype a = Inr t \<Longrightarrow> TryConstFoldBinary H k a b t = Inr (Some e') \<Longrightarrow>
    outcome H S P k l r d a b e' again"
  "rebuilt H k l r d a b e' \<Longrightarrow> outcome H S P k l r d a b e' again"
  "rebuilt H k l r d a b ret \<Longrightarrow> rw_try H S rs ret = Inr (e', again) \<Longrightarrow>
    rs \<in> visitor_rules P {t. GetScalarDtype ret = Inr t \<or> GetScalarDtype a = Inr t} \<Longrightarrow>
    outcome H S P k l r d a b e' again"
  unfolding outcome_def by blast+

lemma rebuilt_intros:
  "MutateBinary H k l r d a b = Inr e \<Longrightarrow> rebuilt H k l r d a b e"
  "rebuilt H k l r d a b (Binary k a b d)"
  "same_ptr H a l \<Longrightarrow> same_ptr H b r \<Longrightarrow> rebuilt H k l r d a b (Binary k l r d)"
  by (simp_all add: rebuilt_def)

lemma outcome_rule:
  assumes "MutateBinary H k l r d a b = Inr ret" and "rw_try H S (rules t) ret = Inr (e', again)"
    and "GetScalarDtype ret = Inr t \<or> GetScalarDtype a = Inr t"
    and "\<And>T t. t \<in> T \<Longrightarrow> rules t \<in> visitor_rules P T"
  shows "outcome H S P k l r d a b e' again"
  by (rule outcome_intros(3) [OF rebuilt_intros(1) [OF assms(1)] assms(2)], rule assms(4)) (simp add: assms(3))

lemma rw_arith_outcome:
  assumes "rw_arith H S rules k l r d a b = Inr (e', again)"
    and "\<And>T t. t \<in> T \<Longrightarrow> rules t \<in> visitor_rules P T"
  shows "outcome H S P k l r d a b e' again"
  using assms(1) by (auto simp: rw_arith_def TryConstFoldBinaryLhs_def split: if_splits dest!: rw_fold_or_cases)
    (blast intro: outcome_intros(1,2) rebuilt_intros outcome_rule [of _ _ _ _ _ _ _ _ _ rules] assms(2))+

lemma rw_division_outcome:
  assumes "rw_division H S rules k l r d a b = Inr (e', again)"
    and "\<And>T t. t \<in> T \<Longrightarrow> rules t \<in> visitor_rules P T"
  shows "outcome H S P k l r d a b e' again"
  using assms(1) by (auto simp: rw_division_def split: if_splits dest!: rw_fold_or_cases)
    (blast intro: outcome_intros(1,2) rebuilt_intros outcome_rule [of _ _ _ _ _ _ _ _ _ rules] assms(2))+

lemma rw_compare_outcome:
  assumes "rw_compare H S rules k l r d a b = Inr (e', again)"
    and "\<And>T t. t \<in> T \<Longrightarrow> rules t \<in> visitor_rules P T"
  shows "outcome H S P k l r d a b e' again"
  using assms(1) by (auto simp: rw_compare_def TryConstFoldBinaryLhs_def split: if_splits dest!: rw_fold_or_cases)
    (blast intro: outcome_intros(1,2) rebuilt_intros outcome_rule [of _ _ _ _ _ _ _ _ _ rules] assms(2))+

lemma rw_passthrough_outcome:
  assumes "rw_passthrough H k l r d a b = Inr (e', again)"
  shows "outcome H S P k l r d a b e' again"
  using assms(1) by (auto simp: rw_passthrough_def TryConstFoldBinaryLhs_def dest!: rw_fold_or_cases)
    (blast intro: outcome_intros(1,2) rebuilt_intros)+

lemma rw_binary_outcome:
  assumes "rw_binary H S P k l r d a b = Inr (e', again)"
  shows "outcome H S P k l r d a b e' again"
  using assms
  by (cases k) (auto simp: rw_binary_def visitor_rules_def
      intro: rw_arith_outcome rw_division_outcome rw_compare_outcome rw_passthrough_outcome)

lemma rw_unary_outcome:
  assumes "rw_unary H S k x d a = Inr (e', again)"
  shows "k = KCast \<and> TryConstFoldCast a d = Some e' \<or> k = KCast \<and> e' = Unary k a d \<or>
    k = KCast \<and> same_ptr H a x \<and> e' = Unary k x d \<or>
    k \<noteq> KCast \<and> TryConstFoldUnary H k a = Some e' \<or> k \<noteq> KCast \<and> MutateUnary H k x d a = Inr e' \<or>
    k \<noteq> KCast \<and> (\<exists>ret rs. MutateUnary H k x d a = Inr ret \<and> rw_try H S rs ret = Inr (e', again) \<and>
       rs \<in> visitor_rules P {})"
proof (cases "k = KCast")
  case True
  with assms show ?thesis by (auto simp: rw_unary_def MakeCast_def split: if_splits option.splits)
next
  case False
  with assms have "TryConstFoldUnary H k a = Some e' \<or> (\<exists>ret. MutateUnary H k x d a = Inr ret \<and>
      (rw_try H S not_rules ret = Inr (e', again) \<or> rw_try H S neg_rules ret = Inr (e', again) \<or> e' = ret))"
    by (auto simp: rw_unary_def dest!: rw_fold_or_cases split: if_splits)
  moreover have "not_rules \<in> visitor_rules P {}" and "neg_rules \<in> visitor_rules P {}"
    by (simp_all add: visitor_rules_def)
  ultimately show ?thesis using False by blast
qed

lemma visitor_rules_wf: "rs \<in> visitor_rules P T \<Longrightarrow> rules_wf rs"
  by (auto simp: visitor_rules_def rules_are_wf)

lemma rw_binary_wf:
  assumes "rw_binary H S P k l r d a b = Inr (e', again)"
    and "wf_expr l" "wf_expr r" "wf_expr a" "wf_expr b"
  shows "wf_expr e'"
proof -
  have re: "wf_expr e" if "rebuilt H k l r d a b e" for e
    using that assms(2-) Mutate_wf(1) by (fastforce simp: rebuilt_def)
  show ?thesis
    using rw_binary_outcome [OF assms(1)] re rw_try_wf visitor_rules_wf
      TryConstFoldBinary_wf [OF assms(4,5)] unfolding outcome_def by blast
qed

lemma rw_unary_wf:
  assumes "rw_unary H S k x d a = Inr (e', again)" and "wf_expr x" and "wf_expr a"
  shows "wf_expr e'"
  using rw_unary_outcome [OF assms(1)] assms(2,3) TryConstFoldCast_wf TryConstFoldUnary_wf
    Mutate_wf(2) rw_try_wf visitor_rules_wf by (metis wf_expr.simps(9))

text \<open>One unfolding of the visitor, by kind of node.\<close>

definition revisit ::
  "'f host \<Rightarrow> 'f projection \<Rightarrow> 'f rewriter \<Rightarrow> nat \<Rightarrow> bool \<Rightarrow> 'f expr \<Rightarrow> 'f expr res" where
  "revisit H S st depth again e =
     (if again \<and> depth < kMaxRecursiveDepth then rw_visit H S st (depth + 1) e else Inr e)"

lemma rw_visit_binary:
  assumes "rw_visit H S st depth (Binary k l r d) = Inr e'" and "\<not> skips_float (Binary k l r d)"
    and "k \<noteq> KGt" and "k \<noteq> KGe"
  shows "\<exists>a b e1 again e2. rw_visit H S st depth l = Inr a \<and> rw_visit H S st depth r = Inr b \<and>
    rw_binary H S (rw_TryCompare (rw_parent st)) k l r d a b = Inr (e1, again) \<and>
    revisit H S st depth again e1 = Inr e2 \<and>
    PreserveIntegerResultType (Binary k l r d) e2 = Inr e'"
  using assms by (auto simp: rw_visit.simps [of H S st depth "Binary k l r d", folded revisit_def])

lemma rw_visit_unary:
  assumes "rw_visit H S st depth (Unary k x d) = Inr e'" and "\<not> skips_float (Unary k x d)"
  shows "\<exists>a e1 again e2. rw_visit H S st depth x = Inr a \<and>
    rw_unary H S k x d a = Inr (e1, again) \<and> revisit H S st depth again e1 = Inr e2 \<and>
    PreserveIntegerResultType (Unary k x d) e2 = Inr e'"
  using assms by (auto simp: rw_visit.simps [of H S st depth "Unary k x d", folded revisit_def])

lemma rw_visit_swapped:
  assumes "rw_visit H S st depth (Binary k l r d) = Inr e'" and "\<not> skips_float (Binary k l r d)"
    and "k = KGt \<and> k' = KLt \<or> k = KGe \<and> k' = KLe"
  shows "\<exists>e1 e2. MakeBinary k' r l = Inr e1 \<and> rw_visit H S st depth e1 = Inr e2 \<and>
    PreserveIntegerResultType (Binary k l r d) e2 = Inr e'"
  using assms by (auto simp: rw_visit.simps [of H S st depth "Binary k l r d"])

lemma rw_visit_leaf:
  assumes "rw_visit H S st depth e = Inr e'" and "\<not> skips_float e"
    and "\<And>k l r d. e \<noteq> Binary k l r d" and "\<And>k x d. e \<noteq> Unary k x d"
  shows "\<exists>e1. (e1 = e \<or> (\<exists>i t. (e = Var i t \<or> e = IterArg i t) \<and> rw_vars st i = Some e1)) \<and>
    PreserveIntegerResultType e e1 = Inr e'"
  using assms by (cases e; subst (asm) rw_visit.simps) (auto split: option.splits)

text \<open>
  Induction over the calls of the visitor: a relation between an expression and its result that
  the leaves, the swapped comparisons, the visited nodes and the repeated visits keep.
\<close>

lemma rw_visit_relation:
  assumes skip: "\<And>e. skips_float e \<Longrightarrow> Q e e"
    and leaf: "\<And>e. Q e e"
    and var: "\<And>i t e'. rw_vars st i = Some e' \<Longrightarrow> Q (Var i t) e' \<and> Q (IterArg i t) e'"
    and keep: "\<And>e e1 e'. Q e e1 \<Longrightarrow> PreserveIntegerResultType e e1 = Inr e' \<Longrightarrow> Q e e'"
    and swap: "\<And>k k' l r d e1 e2. MakeBinary k' r l = Inr e1 \<Longrightarrow>
      k = KGt \<and> k' = KLt \<or> k = KGe \<and> k' = KLe \<Longrightarrow> Q e1 e2 \<Longrightarrow> Q (Binary k l r d) e2"
    and bin: "\<And>k l r d a b e1 again. Q l a \<Longrightarrow> Q r b \<Longrightarrow>
      rw_binary H S (rw_TryCompare (rw_parent st)) k l r d a b = Inr (e1, again) \<Longrightarrow> Q (Binary k l r d) e1"
    and un: "\<And>k x d a e1 again. Q x a \<Longrightarrow> rw_unary H S k x d a = Inr (e1, again) \<Longrightarrow> Q (Unary k x d) e1"
    and trans: "\<And>e e1 e2. Q e e1 \<Longrightarrow> Q e1 e2 \<Longrightarrow> Q e e2"
  shows "rw_visit H S st depth e = Inr e' \<Longrightarrow> Q e e'"
proof (induction H\<equiv>H S\<equiv>S st\<equiv>st depth e arbitrary: e' rule: rw_visit.induct)
  case (1 depth e)
  show ?case
  proof (cases "skips_float e")
    case True
    with 1 skip show ?thesis by (simp add: rw_visit.simps [of H S st depth e])
  next
    case False
    show ?thesis
    proof (cases e)
      case (Binary k l r d)
      note visit = "1.prems" [unfolded Binary] and nf = False [unfolded Binary]
      show ?thesis
      proof (cases "k = KGt \<or> k = KGe")
        case True
        then obtain k' where k': "k = KGt \<and> k' = KLt \<or> k = KGe \<and> k' = KLe" by blast
        then obtain e1 e2 where e1: "MakeBinary k' r l = Inr e1" and e2: "rw_visit H S st depth e1 = Inr e2"
          and p: "PreserveIntegerResultType (Binary k l r d) e2 = Inr e'"
          using rw_visit_swapped [OF visit nf] by blast
        have "Q e1 e2" using 1(1,2) False Binary k' e1 e2 by auto
        then show ?thesis using keep [OF swap [OF e1 k'] p] by (simp add: Binary)
      next
        case k: False
        then obtain a b e1 again e2 where a: "rw_visit H S st depth l = Inr a"
          and b: "rw_visit H S st depth r = Inr b"
          and e1: "rw_binary H S (rw_TryCompare (rw_parent st)) k l r d a b = Inr (e1, again)"
          and e2: "revisit H S st depth again e1 = Inr e2"
          and p: "PreserveIntegerResultType (Binary k l r d) e2 = Inr e'"
          using rw_visit_binary [OF visit nf] by blast
        have "Q l a" and "Q r b" using 1(3,4) False Binary k a b by auto
        then have q: "Q (Binary k l r d) e1" using e1 by (rule bin)
        have "Q e1 e2"
        proof (cases "again \<and> depth < kMaxRecursiveDepth")
          case True
          with e2 have "rw_visit H S st (depth + 1) e1 = Inr e2" by (simp add: revisit_def)
          then show ?thesis using 1(5) False Binary k a b e1 True by auto
        qed (use e2 leaf in \<open>auto simp: revisit_def split: if_splits\<close>)
        then show ?thesis using keep [OF trans [OF q] p] by (simp add: Binary)
      qed
    next
      case (Unary k x d)
      then obtain a e1 again e2 where a: "rw_visit H S st depth x = Inr a"
        and e1: "rw_unary H S k x d a = Inr (e1, again)" and e2: "revisit H S st depth again e1 = Inr e2"
        and p: "PreserveIntegerResultType (Unary k x d) e2 = Inr e'"
        using rw_visit_unary [of H S st depth k x d e'] "1.prems" False by blast
      have "Q x a" using 1(6) False Unary a by auto
      then have q: "Q (Unary k x d) e1" using e1 by (rule un)
      have "Q e1 e2"
      proof (cases "again \<and> depth < kMaxRecursiveDepth")
        case True
        with e2 have "rw_visit H S st (depth + 1) e1 = Inr e2" by (simp add: revisit_def)
        then show ?thesis using 1(7) False Unary a e1 True by auto
      qed (use e2 leaf in \<open>auto simp: revisit_def split: if_splits\<close>)
      then show ?thesis using keep [OF trans [OF q] p] by (simp add: Unary)
    qed (use rw_visit_leaf [OF "1.prems" False] keep leaf var in blast)+
  qed
qed

text \<open>Literals stay 64-bit integers.\<close>

lemma rw_visit_keeps_wf:
  assumes "rw_wf st" and "rw_visit H S st depth e = Inr e'" and "wf_expr e"
  shows "wf_expr e'"
proof -
  have "wf_expr e \<longrightarrow> wf_expr e'"
    by (rule rw_visit_relation [where Q = "\<lambda>e e'. wf_expr e \<longrightarrow> wf_expr e'", OF _ _ _ _ _ _ _ _ assms(2)])
      (use assms(1) in \<open>auto simp: rw_wf_def MakeBinary_wf dest: PreserveIntegerResultType_wf
        rw_binary_wf rw_unary_wf\<close>)
  with assms(3) show ?thesis by simp
qed

text \<open>The value.\<close>

lemma PreserveIntegerResultType_value:
  assumes "PreserveIntegerResultType e r = Inr r'" and "exact_casts \<rho>" and "wf_expr r"
    and "eval \<rho> r = Some v"
  shows "eval \<rho> r' = Some v"
proof -
  have cf: "casts_fit \<rho>" using assms(2) by (simp add: casts_fit_id exact_casts_def)
  have "eval \<rho> q = Some v" if "TryConstFoldCast r d = Some q" and "integer_dtype d" for q d
  proof -
    have "IsInt d" using that(2) by (auto simp: integer_dtype_def)
    then have "d \<noteq> BOOL" and "\<not> IsFloat d" using float_not_int by auto
    then have "ccast \<rho> d v = Some v" and "\<not> IsFloat d" using assms(2) by auto
    then show ?thesis using TryConstFoldCast_eval [OF that(1) assms(3) cf assms(4)] by blast
  qed
  moreover have "eval \<rho> (MakeCast r d) = Some v" if "integer_dtype d" for d
  proof -
    have "IsInt d" using that by (auto simp: integer_dtype_def)
    then have "d \<noteq> BOOL" and "\<not> IsFloat d" using float_not_int by auto
    then show ?thesis using assms(2,4) by (simp add: MakeCast_def)
  qed
  ultimately show ?thesis using assms(1,4)
    by (auto simp: PreserveIntegerResultType_def split: option.splits if_splits)
qed

lemma rw_try_value:
  assumes "ptr_ok H" and "exact_casts \<rho>" and "leaves_agree S \<rho>" and "rules_correct \<rho> rs"
    and "eval \<rho> ret = Some v" and "rw_try H S rs ret = Inr (e', again)"
  shows "eval \<rho> e' = Some v"
  using assms(6) try_rules_value [OF assms(1-3) assms(4) [unfolded rules_correct_def] assms(5)] assms(5)
  by (auto simp: rw_try_def split: option.splits)

lemma visitor_rules_correct:
  assumes "exact_casts \<rho>" and "prover_sound P \<rho>" and "rs \<in> visitor_rules P T"
    and "\<forall>t\<in>T. \<not> IsFloat t"
  shows "rules_correct \<rho> rs"
  using assms(3,4)
  by (auto simp: visitor_rules_def add_rules_correct mul_rules_correct eq_rules_correct ne_rules_correct
      le_rules_correct and_rules_correct or_rules_correct not_rules_correct neg_rules_correct
      sub_rules_correct lt_rules_correct floordiv_rules_correct [OF _ assms(2)]
      floormod_rules_correct [OF _ assms(2)] min_rules_correct [OF assms(1,2)]
      max_rules_correct [OF assms(1,2)])

lemma Mutate_value:
  assumes "ptr_ok H" and "exact_casts \<rho>" and "eval \<rho> a = Some x" and "eval \<rho> b = Some y"
  shows "rebuilt H k l r d a b e \<Longrightarrow> \<not> IsFloat d \<Longrightarrow> eval \<rho> e = bin_val k x y"
    and "MutateUnary H u z d a = Inr e \<Longrightarrow> \<not> IsFloat d \<Longrightarrow> u \<noteq> KCast \<Longrightarrow> eval \<rho> e = un_val \<rho> u d x"
  using assms MakeBinary_eval [OF _ assms(2-4)] MakeUnary_eval [OF _ _ assms(3)] un_val_dtype [of u \<rho> BOOL \<rho> d]
  by (auto simp: rebuilt_def MutateBinary_def MutateUnary_def dest!: ptr_okD [OF assms(1)] split: if_splits)

lemma rw_binary_value:
  assumes "ptr_ok H" and "exact_casts \<rho>" and "leaves_agree S \<rho>" and "prover_sound P \<rho>"
    and "rw_binary H S P k l r d a b = Inr (e', again)"
    and "eval \<rho> a = Some x" and "eval \<rho> b = Some y" and "bin_val k x y = Some v" and "\<not> IsFloat d"
  shows "eval \<rho> e' = Some v"
proof -
  have re: "eval \<rho> e = Some v" if "rebuilt H k l r d a b e" for e
    using Mutate_value(1) [OF assms(1,2,6,7) that] assms(8,9) by simp
  from rw_binary_outcome [OF assms(5)] consider
      (fold) t where "t = d \<or> GetScalarDtype a = Inr t" "TryConstFoldBinary H k a b t = Inr (Some e')"
    | (node) "rebuilt H k l r d a b e'"
    | (rule_applied) ret rs where "rebuilt H k l r d a b ret" "rw_try H S rs ret = Inr (e', again)"
        "rs \<in> visitor_rules P {t. GetScalarDtype ret = Inr t \<or> GetScalarDtype a = Inr t}"
    unfolding outcome_def by blast
  then show ?thesis
  proof cases
    case fold
    then show ?thesis
      using TryConstFoldBinary_eval [OF assms(1) fold(2) assms(6-8)] eval_dtype [OF assms(6)] assms(9) by blast
  next
    case rule_applied
    note ret = re [OF rule_applied(1)]
    have "rules_correct \<rho> rs"
      by (rule visitor_rules_correct [OF assms(2,4) rule_applied(3)])
        (use eval_dtype [OF ret] eval_dtype [OF assms(6)] in auto)
    then show ?thesis by (rule rw_try_value [OF assms(1-3) _ ret rule_applied(2)])
  qed (rule re)
qed

lemma rw_unary_value:
  assumes "ptr_ok H" and "exact_casts \<rho>" and "leaves_agree S \<rho>" and "wf_expr a"
    and "rw_unary H S k z d a = Inr (e', again)"
    and "eval \<rho> a = Some x" and "un_val \<rho> k d x = Some v" and "\<not> IsFloat d"
  shows "eval \<rho> e' = Some v"
proof (cases "k = KCast")
  case True
  have cf: "casts_fit \<rho>" using assms(2) by (simp add: casts_fit_id exact_casts_def)
  show ?thesis
    using rw_unary_outcome [OF assms(5)] True TryConstFoldCast_eval [OF _ assms(4) cf assms(6)]
      assms(6-8) by (auto simp: bind_eq_Some_conv dest: ptr_okD [OF assms(1)])
next
  case False
  have node: "eval \<rho> ret = Some v" if "MutateUnary H k z d a = Inr ret" for ret
    using Mutate_value(2) [OF assms(1,2,6,6) that assms(8) False] assms(7) by simp
  have rules: "rules_correct \<rho> rs" if "rs \<in> visitor_rules (\<lambda>_ _. Inr kUnknown) {}" for rs
    by (rule visitor_rules_correct [OF assms(2) _ that]) (auto simp: prover_sound_def)
  show ?thesis
    using rw_unary_outcome [OF assms(5), of "\<lambda>_ _. Inr kUnknown"] False node
      TryConstFoldUnary_eval [OF _ assms(6,7)] rw_try_value [OF assms(1-3) rules] by blast
qed

text \<open>A result that keeps the value and the literals of an expression.\<close>

definition keeps_value :: "env \<Rightarrow> 'f expr \<Rightarrow> 'f expr \<Rightarrow> bool" where
  "keeps_value \<rho> e e' \<longleftrightarrow>
     (wf_expr e \<longrightarrow> wf_expr e' \<and> (\<forall>v. eval \<rho> e = Some v \<longrightarrow> eval \<rho> e' = Some v))"

lemma keeps_value_refl: "keeps_value \<rho> e e"
  by (simp add: keeps_value_def)

lemma keeps_valueD:
  "keeps_value \<rho> e e' \<Longrightarrow> wf_expr e \<Longrightarrow> wf_expr e'"
  "keeps_value \<rho> e e' \<Longrightarrow> wf_expr e \<Longrightarrow> eval \<rho> e = Some v \<Longrightarrow> eval \<rho> e' = Some v"
  by (simp_all add: keeps_value_def)

lemma keeps_value_trans: "keeps_value \<rho> e e1 \<Longrightarrow> keeps_value \<rho> e1 e2 \<Longrightarrow> keeps_value \<rho> e e2"
  by (simp add: keeps_value_def)

lemma keeps_value_swapped:
  assumes "MakeBinary k' r l = Inr e1" and "k = KGt \<and> k' = KLt \<or> k = KGe \<and> k' = KLe"
    and "exact_casts \<rho>" and "keeps_value \<rho> e1 e2"
  shows "keeps_value \<rho> (Binary k l r d) e2"
  unfolding keeps_value_def
proof (intro impI conjI allI)
  assume wf: "wf_expr (Binary k l r d)"
  then have wf1: "wf_expr e1" using MakeBinary_wf [OF assms(1)] by simp
  then show "wf_expr e2" by (rule keeps_valueD(1) [OF assms(4)])
  fix v assume "eval \<rho> (Binary k l r d) = Some v"
  then obtain x y where xy: "eval \<rho> l = Some x" "eval \<rho> r = Some y" "bin_val k x y = Some v"
    by (rule eval_BinaryE)
  then have "eval \<rho> e1 = Some v" using MakeBinary_eval [OF assms(1,3) xy(2,1)] assms(2) by auto
  then show "eval \<rho> e2 = Some v" by (rule keeps_valueD(2) [OF assms(4) wf1])
qed

lemma keeps_value_binary:
  assumes "rw_describes H S st \<rho>" and "keeps_value \<rho> l a" and "keeps_value \<rho> r b"
    and "rw_binary H S (rw_TryCompare (rw_parent st)) k l r d a b = Inr (e1, again)"
  shows "keeps_value \<rho> (Binary k l r d) e1"
  unfolding keeps_value_def
proof (intro impI conjI allI)
  assume wf: "wf_expr (Binary k l r d)"
  with keeps_valueD(1) [OF assms(2)] keeps_valueD(1) [OF assms(3)] show "wf_expr e1"
    using rw_binary_wf [OF assms(4)] by simp
  fix v assume "eval \<rho> (Binary k l r d) = Some v"
  then obtain x y where xy: "eval \<rho> l = Some x" "eval \<rho> r = Some y" "bin_val k x y = Some v" "\<not> IsFloat d"
    by (rule eval_BinaryE)
  have "eval \<rho> a = Some x" and "eval \<rho> b = Some y"
    using keeps_valueD(2) [OF assms(2)] keeps_valueD(2) [OF assms(3)] wf xy by auto
  then show "eval \<rho> e1 = Some v"
    using rw_binary_value [OF _ _ _ _ assms(4)] assms(1) xy(3,4) unfolding rw_describes_def by blast
qed

lemma keeps_value_unary:
  assumes "rw_describes H S st \<rho>" and "keeps_value \<rho> z a" and "rw_unary H S k z d a = Inr (e1, again)"
  shows "keeps_value \<rho> (Unary k z d) e1"
  unfolding keeps_value_def
proof (intro impI conjI allI)
  assume wf: "wf_expr (Unary k z d)"
  then have wfa: "wf_expr a" using keeps_valueD(1) [OF assms(2)] by simp
  with wf show "wf_expr e1" using rw_unary_wf [OF assms(3)] by simp
  fix v assume "eval \<rho> (Unary k z d) = Some v"
  then obtain x where x: "eval \<rho> z = Some x" "un_val \<rho> k d x = Some v" "\<not> IsFloat d"
    by (rule eval_UnaryE)
  have "eval \<rho> a = Some x" using keeps_valueD(2) [OF assms(2)] wf x by simp
  then show "eval \<rho> e1 = Some v"
    using rw_unary_value [OF _ _ _ wfa assms(3)] assms(1) x(2,3) unfolding rw_describes_def by blast
qed

lemma keeps_value_typed:
  assumes "exact_casts \<rho>" and "keeps_value \<rho> e e1" and "PreserveIntegerResultType e e1 = Inr e'"
  shows "keeps_value \<rho> e e'"
  using assms PreserveIntegerResultType_wf [OF assms(3)] PreserveIntegerResultType_value [OF assms(3,1)]
  by (simp add: keeps_value_def)

lemma keeps_value_var:
  assumes "rw_describes H S st \<rho>" and "rw_wf st" and "rw_vars st i = Some e'"
  shows "keeps_value \<rho> (Var i t) e' \<and> keeps_value \<rho> (IterArg i t) e'"
  using assms by (auto simp: keeps_value_def rw_describes_def rw_wf_def split: if_splits)

lemma rw_visit_keeps_value:
  assumes "rw_describes H S st \<rho>" and "rw_wf st" and "rw_visit H S st depth e = Inr e'"
  shows "keeps_value \<rho> e e'"
proof -
  have ex: "exact_casts \<rho>" using assms(1) by (simp add: rw_describes_def)
  show ?thesis
    by (rule rw_visit_relation [where Q = "keeps_value \<rho>", OF keeps_value_refl keeps_value_refl
          keeps_value_var [OF assms(1,2)] keeps_value_typed [OF ex] keeps_value_swapped [OF _ _ ex]
          keeps_value_binary [OF assms(1)] keeps_value_unary [OF assms(1)] keeps_value_trans assms(3)])
qed

section \<open>Constraints\<close>

text \<open>What \<open>EnterConstraint\<close> records holds in the environments in which the constraint holds.\<close>

definition literals_hold :: "'f rewriter \<Rightarrow> env \<Rightarrow> bool" where
  "literals_hold st \<rho> \<longleftrightarrow> list_all (\<lambda>c. eval \<rho> c = Some 1) (rw_literals st)"

lemma rw_enter_literals:
  assumes "rw_describes H S st \<rho>" and "rw_wf st" and "wf_expr c" and "eval \<rho> c = Some 1"
    and "literals_hold st \<rho>" and "rw_enter H S st c = Inr (st', n)"
  shows "literals_hold st' \<rho>"
proof -
  obtain s where s: "rw_visit H S st 0 c = Inr s"
    and st': "st' = st\<lparr>rw_literals := rw_literals st @ ExtractConstraints s\<rparr>"
    using assms(6) by (auto simp: rw_enter_def rw_simplify_def)
  have "eval \<rho> s = Some 1"
    by (rule keeps_valueD(2) [OF rw_visit_keeps_value [OF assms(1,2) s] assms(3,4)])
  then have "\<forall>e\<in>set (ExtractConstraints s). eval \<rho> e = Some 1"
    unfolding ExtractConstraints_def by (intro extract_loop_true) simp_all
  with assms(5) st' show ?thesis by (auto simp: literals_hold_def list_all_iff)
qed

lemma match_literal_value:
  assumes "ptr_ok H" and "\<forall>c\<in>set cs. eval \<rho> c = Some 1" and "match_literal H cs e = Some e'"
    and "eval \<rho> e = Some v"
  shows "eval \<rho> e' = Some v"
  using assms(2,3,4)
  by (induction cs)
    (auto simp: not_operand_def is_truth_def dest!: ptr_okD [OF assms(1)]
      split: if_splits option.splits expr.splits unop.splits)

text \<open>Both simplifiers end every node with \<open>PreserveIntegerResultType\<close>: an integer result has the type of the expression.\<close>

definition keeps_int_type :: "'f expr \<Rightarrow> 'f expr \<Rightarrow> bool" where
  "keeps_int_type e e' \<longleftrightarrow>
     (\<forall>d d'. scalar_type e = Some d \<and> integer_dtype d \<and> scalar_type e' = Some d' \<and> integer_dtype d' \<longrightarrow> d' = d)"

lemma keeps_int_type_refl [simp]: "keeps_int_type e e"
  by (auto simp: keeps_int_type_def)

lemma PreserveIntegerResultType_type: "PreserveIntegerResultType e r = Inr e' \<Longrightarrow> keeps_int_type e e'"
  by (auto simp: PreserveIntegerResultType_def keeps_int_type_def GetScalarDtype_def MakeCast_def MakeConstInt_def
      TryConstFoldCast_def split: option.splits if_splits expr.splits)

lemma rw_visit_type: "rw_visit H S st depth e = Inr e' \<Longrightarrow> keeps_int_type e e'"
  by (subst (asm) rw_visit.simps)
    (auto intro: PreserveIntegerResultType_type split: if_splits)

section \<open>The properties\<close>

text \<open>
  Claim C27. The rewriting simplifier keeps the value of every expression and leaves literals in the
  64-bit range, whatever rules it applied, to whatever depth: in every environment of which its
  variable bindings and the parent's bounds are true, with equal occurrences and the
  unmatched nodes of equal projection having equal values. Conversions may wrap: the value is kept when
  no conversion that the expression meets loses its operand's value; that of the result is its mathematical reading,
  and what it evaluates to when its own conversions lose nothing. No conversion is lost from the type: an integer
  result has the integer type of the expression.
\<close>

theorem rw_simplify_sound:
  assumes "rw_describes H S st (mathematical \<rho>)" and "rw_wf st" and "rw_simplify H S st e = Inr e'"
    and "wf_expr e" and "lossless \<rho> e" and "eval \<rho> e = Some v"
  shows "wf_expr e' \<and> eval (mathematical \<rho>) e' = Some v \<and> (lossless \<rho> e' \<longrightarrow> eval \<rho> e' = Some v) \<and>
    keeps_int_type e e'"
proof -
  have run: "rw_visit H S st 0 e = Inr e'" using assms(3) by (simp add: rw_simplify_def)
  have "eval (mathematical \<rho>) e = Some v" using assms(5,6) by (simp add: lossless_eval)
  then have "eval (mathematical \<rho>) e' = Some v" and "wf_expr e'"
    using keeps_valueD [OF rw_visit_keeps_value [OF assms(1,2) run] assms(4)] by simp_all
  then show ?thesis using lossless_eval [of \<rho> e'] rw_visit_type [OF run] by auto
qed

text \<open>
  In an environment where the constraint of a scope holds, the literals that entering it records hold as well, so that
  an expression they decide has the value they give it.
\<close>

lemma rw_scope_decides:
  assumes "rw_describes H S st \<rho>" and "rw_wf st" and "literals_hold st \<rho>"
    and "wf_expr c" and "eval \<rho> c = Some 1" and "rw_enter H S st c = Inr (st', n)"
    and "TryMatchLiteralConstraint H st' e = Some e'" and "eval \<rho> e = Some v"
  shows "eval \<rho> e' = Some v"
proof -
  have "literals_hold st' \<rho>" by (rule rw_enter_literals [OF assms(1,2,4,5,3,6)])
  moreover have "ptr_ok H" using assms(1) by (simp add: rw_describes_def)
  ultimately show ?thesis
    using match_literal_value [OF _ _ assms(7) [unfolded TryMatchLiteralConstraint_def] assms(8)]
    by (simp add: literals_hold_def list_all_iff)
qed

section \<open>The theorems at work\<close>

lemmas match_compute = try_rules.simps first_match.simps first_branch.simps Match_def InitMatch_def
  Match_in.simps Eval.simps TRY_REWRITE_def TRY_REWRITE_IF_def always_def expr_equal_def same_kind_def
  structural_equal_def same_structure.simps

lemmas guard_compute = nonzero_def proves_def in_range_def reduced_def divisible_def divides_def
  nonzero_modulus_def int1_def ints_def res_or_def res_and_def int_of_var_def expr_of_def
  CanProveGE_def CanProveLess_def CanProveLE_def rw_TryCompare_def

lemma index_not_bool: "INDEX \<noteq> BOOL"
  by code_simp

lemmas fold_compute = FoldAdd_def FoldSub_def FoldMul_def FoldFloorDiv_def FoldCompare_def LhsIsConst_def
  RhsIsConst_def TryConstFoldUnary_def

lemmas rewrite_compute = match_compute guard_compute rw_simplify_def rw_visit.simps rw_binary_def rw_unary_def
  rw_arith_def rw_division_def rw_compare_def rw_passthrough_def rw_try_def rw_fold_or_def skips_float_def
  has_float_operand_def is_var_like_def PreserveIntegerResultType_def integer_dtype_def MutateBinary_def
  MutateUnary_def TryConstFoldBinaryLhs_def TryConstFoldBinary_def operands_def MakeBinary_def
  is_arith_def PromoteBinaryOperands_def PromoteSameCategoryDtype_def GetNumericCategory_def MaybeCast_def
  FloorDivModOperandsFitDtype_def literal_fits_def floordiv_eq limits_defs kMaxRecursiveDepth_def
  GetScalarDtype_def fold_compute index_not_bool

definition plain_projection :: "int projection" where
  "plain_projection = \<lparr>leaf_equal = (=), opaque_kind = id, supported = \<lambda>_. True\<rparr>"

definition standalone_rewriter :: "int rewriter" where
  "standalone_rewriter = \<lparr>rw_parent = None, rw_vars = \<lambda>_. None, rw_literals = []\<rparr>"

lemma standalone_describes:
  "exact_casts \<rho> \<Longrightarrow> rw_describes int_host plain_projection standalone_rewriter \<rho>" "rw_wf standalone_rewriter"
  by (simp_all add: rw_describes_def rw_wf_def standalone_rewriter_def standalone_prover_sound
      leaves_agree_def plain_projection_def)

text \<open>\<open>floordiv(x * 8 + y, 4)\<close> is \<open>x * 2 + floordiv(y, 4)\<close>.\<close>

definition tile_index :: "int expr" where
  "tile_index = ibin KFloorDiv (ibin KAdd (ibin KMul (ivar 0) (ilit 8)) (ivar 1)) (ilit 4)"

lemma tile_index_split:
  "rw_simplify int_host plain_projection standalone_rewriter tile_index =
   Inr (ibin KAdd (ibin KMul (ivar 0) (ilit 2)) (ibin KFloorDiv (ivar 1) (ilit 4)))"
  by (simp add: tile_index_def rewrite_compute int_instance_defs plain_projection_def standalone_rewriter_def
      add_rules_def mul_rules_def floordiv_rules_def cong: res_bind_weak_cong del: res_bind_eq_Inr)

text \<open>A conversion of the index to 8 bits that wraps elsewhere but not here.\<close>

definition narrowed_tile :: "int expr" where
  "narrowed_tile = Unary KCast tile_index INT8"

lemma narrowed_tile_split:
  "rw_simplify int_host plain_projection standalone_rewriter narrowed_tile =
   Inr (Unary KCast (ibin KAdd (ibin KMul (ivar 0) (ilit 2)) (ibin KFloorDiv (ivar 1) (ilit 4))) INT8)"
  by (simp add: narrowed_tile_def tile_index_def rewrite_compute int_instance_defs plain_projection_def
      standalone_rewriter_def add_rules_def mul_rules_def floordiv_rules_def TryConstFoldCast_def MakeCast_def
      cong: res_bind_weak_cong del: res_bind_eq_Inr)

lemma rw_simplify_sound_witness:
  "eval (env_of [0 \<mapsto> 3, 1 \<mapsto> - 5] cast_wrap)
     (Unary KCast (ibin KAdd (ibin KMul (ivar 0) (ilit 2)) (ibin KFloorDiv (ivar 1) (ilit 4))) INT8) = Some 4"
  using rw_simplify_sound [OF standalone_describes narrowed_tile_split,
      of "env_of [0 \<mapsto> 3, 1 \<mapsto> - 5] cast_wrap" 4]
  by (simp add: narrowed_tile_def tile_index_def int_instance_defs is_i64_alt cast_wrap_def cast_id_def)

end
