(* ===== verification/Canonical_Simplify.thy ===== *)
theory Canonical_Simplify
  imports Rewrite_Simplify
begin

text \<open>
  The canonical simplifier, \<^verbatim>\<open>src/ir/arith/canonical_simplify.cpp\<close> and \<^verbatim>\<open>canonical_simplify.h\<close>:
  an integer expression becomes a sum \<open>base + split_1 + ... + split_n\<close> of terms
  \<open>((index % upper_factor) / lower_factor) * scale\<close>, like terms and complementary division and
  remainder are merged, and the sum is turned back into an expression. The cache of the sums of
  visited nodes (\<open>sum_cache_\<close>, keyed by address) is a list threaded through the visitor, newest entry
  first. Keys stay alive in the model: the code does not retain the nodes whose addresses it keeps,
  so an address that is used again within one call is outside the model.

  Shown: merging ends and keeps the value of the terms, the result has the value of the
  expression and keeps its integer type, provided no remainder by the sentinel \<open>kPosInf\<close> occurs (such a
  remainder is lost) and no conversion that the expression meets loses its operand.
\<close>

section \<open>Sums\<close>

record 'f SplitExpr =
  sp_index :: "'f expr"
  lower_factor :: int
  upper_factor :: int
  scale :: int

record 'f SumExpr =
  sm_base :: int
  sm_args :: "'f SplitExpr list"
  sm_dtype :: DataType

definition simple_split :: "'f expr \<Rightarrow> int \<Rightarrow> 'f SplitExpr" where
  "simple_split e s = \<lparr>sp_index = e, lower_factor = 1, upper_factor = kPosInf, scale = s\<rparr>"

definition Normalize_split :: "'f SplitExpr \<Rightarrow> DataType \<Rightarrow> 'f expr res" where
  "Normalize_split s d =
     res_bind (if upper_factor s \<noteq> kPosInf
               then MakeBinary KFloorMod (sp_index s) (MakeConstInt (upper_factor s) d)
               else Inr (sp_index s)) (\<lambda>i1.
     res_bind (if lower_factor s \<noteq> 1 then MakeBinary KFloorDiv i1 (MakeConstInt (lower_factor s) d)
               else Inr i1) (\<lambda>i2.
       if scale s = 1 then Inr i2
       else if scale s = -1 then MakeUnary KNeg i2
       else MakeBinary KMul i2 (MakeConstInt (scale s) d)))"

fun normalize_terms :: "'f SplitExpr list \<Rightarrow> DataType \<Rightarrow> 'f expr list res" where
  "normalize_terms [] d = Inr []"
| "normalize_terms (a # as) d =
     (if scale a = 0 then normalize_terms as d
      else res_bind (Normalize_split a d) (\<lambda>t. res_bind (normalize_terms as d) (\<lambda>ts. Inr (t # ts))))"

fun add_terms :: "'f expr \<Rightarrow> 'f expr list \<Rightarrow> 'f expr res" where
  "add_terms e [] = Inr e"
| "add_terms e (t # ts) = res_bind (MakeBinary KAdd e t) (\<lambda>e'. add_terms e' ts)"

definition Normalize :: "'f SumExpr \<Rightarrow> 'f expr res" where
  "Normalize s =
     res_bind (normalize_terms (sm_args s) (sm_dtype s)) (\<lambda>terms.
       case terms of
         [] \<Rightarrow> Inr (MakeConstInt (sm_base s) (sm_dtype s))
       | t # ts \<Rightarrow> res_bind (add_terms t ts) (\<lambda>e.
           if sm_base s \<noteq> 0 then MakeBinary KAdd e (MakeConstInt (sm_base s) (sm_dtype s)) else Inr e))"

section \<open>Merging\<close>

definition TryMergeSameFactors :: "'f host \<Rightarrow> 'f SplitExpr \<Rightarrow> 'f SplitExpr \<Rightarrow> 'f SplitExpr option" where
  "TryMergeSameFactors H a b =
     (if \<not> same_ptr H (sp_index a) (sp_index b) then None
      else if lower_factor a \<noteq> lower_factor b then None
      else if upper_factor a \<noteq> upper_factor b then None
      else if AddWouldOverflow (scale a) (scale b) then None
      else Some (a\<lparr>scale := scale a + scale b\<rparr>))"

definition try_merge :: "'f SplitExpr \<Rightarrow> 'f SplitExpr \<Rightarrow> 'f SplitExpr option" where
  "try_merge div_part mod_part =
     (if lower_factor mod_part \<noteq> 1 then None
      else if upper_factor mod_part = kPosInf then None
      else if lower_factor div_part \<noteq> upper_factor mod_part then None
      else if MulWouldOverflow (lower_factor div_part) (scale mod_part) then None
      else if scale div_part \<noteq> lower_factor div_part * scale mod_part then None
      else Some (mod_part\<lparr>upper_factor := upper_factor div_part, scale := scale mod_part\<rparr>))"

definition TryMergeDivModPair :: "'f host \<Rightarrow> 'f SplitExpr \<Rightarrow> 'f SplitExpr \<Rightarrow> 'f SplitExpr option" where
  "TryMergeDivModPair H a b =
     (if \<not> same_ptr H (sp_index a) (sp_index b) then None
      else case try_merge a b of Some m \<Rightarrow> Some m | None \<Rightarrow> try_merge b a)"

definition merge_pair :: "'f host \<Rightarrow> 'f SplitExpr \<Rightarrow> 'f SplitExpr \<Rightarrow> 'f SplitExpr option" where
  "merge_pair H a b =
     (case TryMergeSameFactors H a b of Some m \<Rightarrow> Some m | None \<Rightarrow> TryMergeDivModPair H a b)"

text \<open>The loop over \<open>j\<close>: what \<open>args[i]\<close> and the later terms become, and whether something changed.\<close>

fun merge_into ::
  "'f host \<Rightarrow> 'f SplitExpr \<Rightarrow> 'f SplitExpr list \<Rightarrow> 'f SplitExpr \<times> 'f SplitExpr list \<times> bool" where
  "merge_into H a [] = (a, [], False)"
| "merge_into H a (b # bs) =
     (if scale b = 0 then
        (let (a', bs', ch) = merge_into H a bs in (a', b # bs', ch))
      else case merge_pair H a b of
        None \<Rightarrow> (let (a', bs', ch) = merge_into H a bs in (a', b # bs', ch))
      | Some m \<Rightarrow> (let (a', bs', ch) = merge_into H m bs in (a', b\<lparr>scale := 0\<rparr> # bs', True)))"

lemma merge_into_length: "merge_into H a bs = (a', bs', ch) \<Longrightarrow> length bs' = length bs"
  by (induction H a bs arbitrary: a' bs' ch rule: merge_into.induct)
     (auto split: if_splits option.splits prod.splits)

text \<open>The loop over \<open>i\<close>.\<close>

function merge_pass :: "'f host \<Rightarrow> 'f SplitExpr list \<Rightarrow> 'f SplitExpr list \<times> bool" where
  "merge_pass H [] = ([], False)"
| "merge_pass H (a # bs) =
     (if scale a = 0 then (let (bs', ch) = merge_pass H bs in (a # bs', ch))
      else case merge_into H a bs of (a', bs', ch) \<Rightarrow>
        (let (bs'', ch') = merge_pass H bs' in (a' # bs'', ch \<or> ch')))"
  by pat_completeness auto
termination
  by (relation "measure (\<lambda>(H, as). length as)") (auto dest: merge_into_length [OF sym])

text \<open>Every pass that changes something leaves fewer terms of a scale other than 0.\<close>

definition live :: "'f SplitExpr list \<Rightarrow> nat" where
  "live as = length (filter (\<lambda>a. scale a \<noteq> 0) as)"

lemma live_simps [simp]: "live [] = 0" "live (a # as) = (if scale a = 0 then 0 else 1) + live as"
  by (simp_all add: live_def)

lemma merge_into_live:
  "merge_into H a bs = (a', bs', ch) \<Longrightarrow> live bs' \<le> live bs \<and> (ch \<longrightarrow> live bs' < live bs) \<and>
    (\<not> ch \<longrightarrow> a' = a \<and> bs' = bs)"
proof (induction H a bs arbitrary: a' bs' ch rule: merge_into.induct)
  case (2 H a b bs)
  then show ?case by (fastforce split: if_splits option.splits prod.splits)
qed simp

lemma merge_pass_live:
  "merge_pass H as = (as', ch) \<Longrightarrow> live as' \<le> live as \<and> (ch \<longrightarrow> live as' < live as)"
proof (induction H as arbitrary: as' ch rule: merge_pass.induct)
  case (2 H a bs)
  show ?case
  proof (cases "scale a = 0")
    case True
    with 2 show ?thesis by (fastforce split: prod.splits)
  next
    case False
    obtain a' bs' c where m: "merge_into H a bs = (a', bs', c)" by (cases "merge_into H a bs") auto
    obtain bs'' c' where p: "merge_pass H bs' = (bs'', c')" by (cases "merge_pass H bs'") auto
    have "live bs'' \<le> live bs' \<and> (c' \<longrightarrow> live bs'' < live bs')"
      using 2(2) [OF False m [symmetric] refl p] .
    moreover have "as' = a' # bs''" and "ch \<longleftrightarrow> c \<or> c'"
      using "2.prems" False m p by auto
    moreover note merge_into_live [OF m]
    ultimately show ?thesis using False by auto
  qed
qed simp

function merge_loop :: "'f host \<Rightarrow> 'f SplitExpr list \<Rightarrow> 'f SplitExpr list" where
  "merge_loop H as = (case merge_pass H as of (as', changed) \<Rightarrow> if changed then merge_loop H as' else as')"
  by pat_completeness auto
termination
  by (relation "measure (\<lambda>(H, as). live as)") (auto dest: merge_pass_live [OF sym])

declare merge_loop.simps [simp del]

definition MergeTerms :: "'f host \<Rightarrow> 'f SplitExpr list \<Rightarrow> 'f SplitExpr list" where
  "MergeTerms H as = filter (\<lambda>a. scale a \<noteq> 0) (merge_loop H as)"

section \<open>Operations on sums\<close>

definition SumAdd :: "'f host \<Rightarrow> 'f SumExpr \<Rightarrow> 'f SumExpr \<Rightarrow> 'f SumExpr res" where
  "SumAdd H l r =
     (if AddWouldOverflow (sm_base l) (sm_base r) then
        res_bind (Normalize l) (\<lambda>a. res_bind (Normalize r) (\<lambda>b. res_bind (MakeBinary KAdd a b) (\<lambda>i.
          Inr \<lparr>sm_base = 0, sm_args = [simple_split i 1], sm_dtype = sm_dtype l\<rparr>)))
      else Inr \<lparr>sm_base = sm_base l + sm_base r, sm_args = MergeTerms H (sm_args l @ sm_args r),
                sm_dtype = sm_dtype l\<rparr>)"

definition negate_split :: "DataType \<Rightarrow> 'f SplitExpr \<Rightarrow> 'f SplitExpr res" where
  "negate_split d a =
     (if NegWouldOverflow (scale a) then res_bind (Normalize_split a d) (\<lambda>i. Inr (simple_split i (-1)))
      else Inr (a\<lparr>scale := - scale a\<rparr>))"

definition SumNegate :: "'f SumExpr \<Rightarrow> 'f SumExpr res" where
  "SumNegate s =
     (if NegWouldOverflow (sm_base s) then
        res_bind (Normalize s) (\<lambda>i.
          Inr \<lparr>sm_base = 0, sm_args = [simple_split i (-1)], sm_dtype = sm_dtype s\<rparr>)
      else res_bind (map_res (negate_split (sm_dtype s)) (sm_args s)) (\<lambda>as.
        Inr \<lparr>sm_base = - sm_base s, sm_args = as, sm_dtype = sm_dtype s\<rparr>))"

definition scale_split :: "int \<Rightarrow> DataType \<Rightarrow> 'f SplitExpr \<Rightarrow> 'f SplitExpr res" where
  "scale_split c d a =
     (if MulWouldOverflow (scale a) c then res_bind (Normalize_split a d) (\<lambda>i. Inr (simple_split i c))
      else Inr (a\<lparr>scale := scale a * c\<rparr>))"

definition SumMulConst :: "'f SumExpr \<Rightarrow> int \<Rightarrow> 'f SumExpr res" where
  "SumMulConst s c =
     (if c = 0 then Inr \<lparr>sm_base = 0, sm_args = [], sm_dtype = sm_dtype s\<rparr>
      else if c = 1 then Inr s
      else if MulWouldOverflow (sm_base s) c then
        res_bind (Normalize s) (\<lambda>i.
          Inr \<lparr>sm_base = 0, sm_args = [simple_split i c], sm_dtype = sm_dtype s\<rparr>)
      else res_bind (map_res (scale_split c (sm_dtype s)) (sm_args s)) (\<lambda>as.
        Inr \<lparr>sm_base = sm_base s * c, sm_args = as, sm_dtype = sm_dtype s\<rparr>))"

definition TrySumFloorDiv :: "'f SumExpr \<Rightarrow> int \<Rightarrow> 'f SumExpr option res" where
  "TrySumFloorDiv s divisor =
     res_bind (check InternalError (divisor > 0)) (\<lambda>_.
     res_bind (floormod (sm_base s) divisor) (\<lambda>m.
       if m = 0 \<and> (\<forall>a\<in>set (sm_args s). cmod (scale a) divisor = 0) then
         res_bind (floordiv (sm_base s) divisor) (\<lambda>b.
           Inr (Some (s\<lparr>sm_base := b,
             sm_args := map (\<lambda>a. a\<lparr>scale := cdiv (scale a) divisor\<rparr>) (sm_args s)\<rparr>)))
       else case sm_args s of
         [a] \<Rightarrow>
           if sm_base s \<noteq> 0 then Inr None
           else res_bind (check InternalError (lower_factor a > 0)) (\<lambda>_.
             if cmod (scale a) divisor = 0 then
               Inr (Some (s\<lparr>sm_args := [a\<lparr>scale := cdiv (scale a) divisor\<rparr>]\<rparr>))
             else if scale a > 0 \<and> cmod divisor (scale a) = 0 then
               (let k = cdiv divisor (scale a) in
                if MulWouldOverflow (lower_factor a) k then Inr None
                else let new_lower = lower_factor a * k in
                  res_bind (check InternalError (new_lower > 0)) (\<lambda>_.
                    if upper_factor a \<noteq> kPosInf \<and> cmod (upper_factor a) new_lower \<noteq> 0 then Inr None
                    else Inr (Some (s\<lparr>sm_args := [a\<lparr>lower_factor := new_lower, scale := 1\<rparr>]\<rparr>))))
             else Inr None)
       | _ \<Rightarrow> Inr None))"

definition TrySumFloorMod :: "'f SumExpr \<Rightarrow> int \<Rightarrow> 'f SumExpr option res" where
  "TrySumFloorMod s divisor =
     res_bind (check InternalError (divisor > 0)) (\<lambda>_.
       if \<forall>a\<in>set (sm_args s). cmod (scale a) divisor = 0 then
         res_bind (floormod (sm_base s) divisor) (\<lambda>b.
           Inr (Some \<lparr>sm_base = b, sm_args = [], sm_dtype = sm_dtype s\<rparr>))
       else case sm_args s of
         [a] \<Rightarrow>
           if sm_base s \<noteq> 0 then Inr None
           else if scale a \<noteq> 0 \<and> cmod (scale a) divisor = 0 then
             Inr (Some \<lparr>sm_base = 0, sm_args = [], sm_dtype = sm_dtype s\<rparr>)
           else if scale a = 1 \<and> lower_factor a = 1 \<and> upper_factor a \<noteq> kPosInf \<and>
             cmod (upper_factor a) divisor = 0 then
             Inr (Some (s\<lparr>sm_args := [a\<lparr>upper_factor := divisor\<rparr>]\<rparr>))
           else Inr None
       | _ \<Rightarrow> Inr None)"

section \<open>The visitor\<close>

text \<open>\<open>var_map_\<close> is the argument \<open>m\<close>, \<open>sum_cache_\<close> the list \<open>c\<close>.\<close>

type_synonym 'f sum_cache = "('f expr \<times> 'f SumExpr) list"

fun cached_sum :: "'f host \<Rightarrow> 'f sum_cache \<Rightarrow> 'f expr \<Rightarrow> 'f SumExpr option" where
  "cached_sum H [] e = None"
| "cached_sum H ((k, s) # c) e = (if same_ptr H k e then Some s else cached_sum H c e)"

definition GetOrCreateSumExpr :: "'f host \<Rightarrow> 'f sum_cache \<Rightarrow> 'f expr \<Rightarrow> 'f SumExpr res" where
  "GetOrCreateSumExpr H c e =
     (case cached_sum H c e of
        Some s \<Rightarrow> Inr s
      | None \<Rightarrow> res_bind (GetScalarDtype e) (\<lambda>d.
          Inr (case as_int e of
             Some (v, _) \<Rightarrow> \<lparr>sm_base = v, sm_args = [], sm_dtype = d\<rparr>
           | None \<Rightarrow> \<lparr>sm_base = 0, sm_args = [simple_split e 1], sm_dtype = d\<rparr>)))"

definition NormalizeAndCache :: "'f sum_cache \<Rightarrow> 'f SumExpr \<Rightarrow> ('f expr \<times> 'f sum_cache) res" where
  "NormalizeAndCache c s = res_bind (Normalize s) (\<lambda>e. Inr (e, (e, s) # c))"

definition fold_or ::
  "'f sum_cache \<Rightarrow> 'f expr option \<Rightarrow> ('f expr \<times> 'f sum_cache) res \<Rightarrow> ('f expr \<times> 'f sum_cache) res" where
  "fold_or c folded rest = (case folded of Some e \<Rightarrow> Inr (e, c) | None \<Rightarrow> rest)"

definition cn_add ::
  "'f host \<Rightarrow> 'f sum_cache \<Rightarrow> 'f expr \<Rightarrow> 'f expr \<Rightarrow> ('f expr \<times> 'f sum_cache) res" where
  "cn_add H c a b =
     res_bind (TryConstFoldBinaryLhs H KAdd a b) (\<lambda>folded. fold_or c folded
       (res_bind (GetOrCreateSumExpr H c a) (\<lambda>sa. res_bind (GetOrCreateSumExpr H c b) (\<lambda>sb.
        res_bind (SumAdd H sa sb) (\<lambda>merged. NormalizeAndCache c merged)))))"

definition cn_sub ::
  "'f host \<Rightarrow> 'f sum_cache \<Rightarrow> 'f expr \<Rightarrow> 'f expr \<Rightarrow> ('f expr \<times> 'f sum_cache) res" where
  "cn_sub H c a b =
     res_bind (TryConstFoldBinaryLhs H KSub a b) (\<lambda>folded. fold_or c folded
       (res_bind (GetOrCreateSumExpr H c a) (\<lambda>sa. res_bind (GetOrCreateSumExpr H c b) (\<lambda>sb.
        res_bind (SumNegate sb) (\<lambda>nb.
        res_bind (SumAdd H sa nb) (\<lambda>merged. NormalizeAndCache c merged))))))"

definition cn_mul ::
  "'f host \<Rightarrow> 'f sum_cache \<Rightarrow> 'f expr \<Rightarrow> 'f expr \<Rightarrow> DataType \<Rightarrow> 'f expr \<Rightarrow> 'f expr \<Rightarrow>
    ('f expr \<times> 'f sum_cache) res" where
  "cn_mul H c l r d a b =
     res_bind (TryConstFoldBinaryLhs H KMul a b) (\<lambda>folded. fold_or c folded
       (case as_int b of
          Some (v, _) \<Rightarrow> res_bind (GetOrCreateSumExpr H c a) (\<lambda>sa.
            res_bind (SumMulConst sa v) (\<lambda>p. NormalizeAndCache c p))
        | None \<Rightarrow> (case as_int a of
            Some (v, _) \<Rightarrow> res_bind (GetOrCreateSumExpr H c b) (\<lambda>sb.
              res_bind (SumMulConst sb v) (\<lambda>p. NormalizeAndCache c p))
          | None \<Rightarrow> res_bind (MutateBinary H KMul l r d a b) (\<lambda>e. Inr (e, c)))))"

text \<open>
  \<open>FloorDiv\<close> and \<open>FloorMod\<close> share their shape: the operation on sums, and what is remembered of a
  node that is kept.
\<close>

definition cn_division ::
  "'f host \<Rightarrow> ('f SumExpr \<Rightarrow> int \<Rightarrow> 'f SumExpr option res) \<Rightarrow> ('f expr \<Rightarrow> int \<Rightarrow> 'f SplitExpr) \<Rightarrow>
    binop \<Rightarrow> 'f sum_cache \<Rightarrow> 'f expr \<Rightarrow> 'f expr \<Rightarrow> DataType \<Rightarrow> 'f expr \<Rightarrow> 'f expr \<Rightarrow>
    ('f expr \<times> 'f sum_cache) res" where
  "cn_division H op remember k c l r d a b =
     (if \<not> FloorDivModOperandsFitDtype a b d then
        Inr (if same_ptr H a l \<and> same_ptr H b r then Binary k l r d else Binary k a b d, c)
      else res_bind (TryConstFoldBinary H k a b d) (\<lambda>folded. fold_or c folded
        (case as_int b of
           Some (v, _) \<Rightarrow>
             if v > 0 then
               res_bind (GetOrCreateSumExpr H c a) (\<lambda>sa. res_bind (op sa v) (\<lambda>result.
                 case result of
                   Some s \<Rightarrow> NormalizeAndCache c s
                 | None \<Rightarrow> res_bind (MutateBinary H k l r d a b) (\<lambda>ret.
                     res_bind (GetScalarDtype ret) (\<lambda>rd.
                       Inr (ret, (ret, \<lparr>sm_base = 0, sm_args = [remember a v], sm_dtype = rd\<rparr>) # c)))))
             else res_bind (MutateBinary H k l r d a b) (\<lambda>ret. Inr (ret, c))
         | None \<Rightarrow> res_bind (MutateBinary H k l r d a b) (\<lambda>ret. Inr (ret, c)))))"

definition cn_floordiv ::
  "'f host \<Rightarrow> 'f sum_cache \<Rightarrow> 'f expr \<Rightarrow> 'f expr \<Rightarrow> DataType \<Rightarrow> 'f expr \<Rightarrow> 'f expr \<Rightarrow>
    ('f expr \<times> 'f sum_cache) res" where
  "cn_floordiv H = cn_division H TrySumFloorDiv
     (\<lambda>a v. \<lparr>sp_index = a, lower_factor = v, upper_factor = kPosInf, scale = 1\<rparr>) KFloorDiv"

definition cn_floormod ::
  "'f host \<Rightarrow> 'f sum_cache \<Rightarrow> 'f expr \<Rightarrow> 'f expr \<Rightarrow> DataType \<Rightarrow> 'f expr \<Rightarrow> 'f expr \<Rightarrow>
    ('f expr \<times> 'f sum_cache) res" where
  "cn_floormod H = cn_division H TrySumFloorMod
     (\<lambda>a v. \<lparr>sp_index = a, lower_factor = 1, upper_factor = v, scale = 1\<rparr>) KFloorMod"

definition cn_binary ::
  "'f host \<Rightarrow> 'f sum_cache \<Rightarrow> binop \<Rightarrow> 'f expr \<Rightarrow> 'f expr \<Rightarrow> DataType \<Rightarrow> 'f expr \<Rightarrow> 'f expr \<Rightarrow>
    ('f expr \<times> 'f sum_cache) res" where
  "cn_binary H c k l r d a b =
     (case k of
        KAdd \<Rightarrow> cn_add H c a b
      | KSub \<Rightarrow> cn_sub H c a b
      | KMul \<Rightarrow> cn_mul H c l r d a b
      | KFloorDiv \<Rightarrow> cn_floordiv H c l r d a b
      | KFloorMod \<Rightarrow> cn_floormod H c l r d a b
      | _ \<Rightarrow> res_bind (TryConstFoldBinaryLhs H k a b) (\<lambda>folded. fold_or c folded
          (res_bind (MutateBinary H k l r d a b) (\<lambda>e. Inr (e, c)))))"

definition cn_neg :: "'f host \<Rightarrow> 'f sum_cache \<Rightarrow> 'f expr \<Rightarrow> ('f expr \<times> 'f sum_cache) res" where
  "cn_neg H c a = fold_or c (TryConstFoldUnary H KNeg a)
     (res_bind (GetOrCreateSumExpr H c a) (\<lambda>sa. res_bind (SumNegate sa) (\<lambda>s. NormalizeAndCache c s)))"

definition cn_unary ::
  "'f host \<Rightarrow> 'f sum_cache \<Rightarrow> unop \<Rightarrow> 'f expr \<Rightarrow> DataType \<Rightarrow> 'f expr \<Rightarrow> ('f expr \<times> 'f sum_cache) res" where
  "cn_unary H c k x d a =
     (case k of
        KNeg \<Rightarrow> cn_neg H c a
      | KCast \<Rightarrow> fold_or c (TryConstFoldCast a d)
          (Inr (if same_ptr H a x then Unary k x d else MakeCast a d, c))
      | _ \<Rightarrow> fold_or c (TryConstFoldUnary H k a)
          (res_bind (MutateUnary H k x d a) (\<lambda>e. Inr (e, c))))"

fun canon_visit ::
  "'f host \<Rightarrow> (nat \<Rightarrow> 'f expr option) \<Rightarrow> 'f sum_cache \<Rightarrow> 'f expr \<Rightarrow> ('f expr \<times> 'f sum_cache) res" where
  "canon_visit H m c e =
     (if float_ty (scalar_type e) then Inr (e, c)
      else res_bind
        (case e of
           Var i t \<Rightarrow> Inr (case m i of Some e' \<Rightarrow> e' | None \<Rightarrow> e, c)
         | IterArg i t \<Rightarrow> Inr (case m i of Some e' \<Rightarrow> e' | None \<Rightarrow> e, c)
         | Binary k l r d \<Rightarrow>
             res_bind (canon_visit H m c l) (\<lambda>(a, c1).
             res_bind (canon_visit H m c1 r) (\<lambda>(b, c2). cn_binary H c2 k l r d a b))
         | Unary k x d \<Rightarrow>
             res_bind (canon_visit H m c x) (\<lambda>(a, c1). cn_unary H c1 k x d a)
         | _ \<Rightarrow> Inr (e, c))
        (\<lambda>(result, c'). res_bind (PreserveIntegerResultType e result) (\<lambda>e'. Inr (e', c'))))"

declare canon_visit.simps [simp del]

text \<open>\<open>operator()\<close> starts with an empty cache.\<close>

definition canonical_simplify :: "'f host \<Rightarrow> (nat \<Rightarrow> 'f expr option) \<Rightarrow> 'f expr \<Rightarrow> 'f expr res" where
  "canonical_simplify H m e = res_bind (canon_visit H m [] e) (\<lambda>(e', c). Inr e')"

definition cn_update :: "nat \<Rightarrow> 'f expr option \<Rightarrow> (nat \<Rightarrow> 'f expr option) \<Rightarrow> (nat \<Rightarrow> 'f expr option)" where
  "cn_update i info m = m(i := info)"

section \<open>Values of sums\<close>

text \<open>
  A term is well formed when its factors are positive 64-bit integers, the lower dividing the
  upper one, and its index has a value; \<open>kPosInf\<close> as the upper factor is "no remainder".
\<close>

definition split_value :: "env \<Rightarrow> 'f SplitExpr \<Rightarrow> int" where
  "split_value \<rho> a =
     (let x = the (eval \<rho> (sp_index a)) in
      (if upper_factor a = kPosInf then x else x mod upper_factor a) div lower_factor a * scale a)"

definition split_ok :: "env \<Rightarrow> 'f SplitExpr \<Rightarrow> bool" where
  "split_ok \<rho> a \<longleftrightarrow> wf_expr (sp_index a) \<and> (\<exists>x. eval \<rho> (sp_index a) = Some x) \<and>
     0 < lower_factor a \<and> is_i64 (lower_factor a) \<and> 0 < upper_factor a \<and> is_i64 (upper_factor a) \<and>
     is_i64 (scale a) \<and> (upper_factor a = kPosInf \<or> lower_factor a dvd upper_factor a)"

definition terms_value :: "env \<Rightarrow> 'f SplitExpr list \<Rightarrow> int" where
  "terms_value \<rho> as = sum_list (map (split_value \<rho>) as)"

definition sum_value :: "env \<Rightarrow> 'f SumExpr \<Rightarrow> int" where
  "sum_value \<rho> s = sm_base s + terms_value \<rho> (sm_args s)"

definition sum_ok :: "env \<Rightarrow> 'f SumExpr \<Rightarrow> bool" where
  "sum_ok \<rho> s \<longleftrightarrow> is_i64 (sm_base s) \<and> \<not> IsFloat (sm_dtype s) \<and> (\<forall>a\<in>set (sm_args s). split_ok \<rho> a)"

lemma terms_value_simps [simp]:
  "terms_value \<rho> [] = 0" "terms_value \<rho> (a # as) = split_value \<rho> a + terms_value \<rho> as"
  "terms_value \<rho> (as @ bs) = terms_value \<rho> as + terms_value \<rho> bs"
  by (simp_all add: terms_value_def)

lemma scale_0_value [simp]: "scale a = 0 \<Longrightarrow> split_value \<rho> a = 0"
  by (simp add: split_value_def Let_def)

lemma kPosInf_pos: "0 < kPosInf"
  by (simp add: inf_defs limits_defs)

lemma is_i64_one: "is_i64 1" "is_i64 0" "is_i64 (-1)"
  by (simp_all add: is_i64_alt)

lemma simple_split_ok:
  "wf_expr e \<Longrightarrow> eval \<rho> e = Some x \<Longrightarrow> is_i64 s \<Longrightarrow>
   split_ok \<rho> (simple_split e s) \<and> split_value \<rho> (simple_split e s) = x * s"
  by (simp add: split_ok_def split_value_def simple_split_def kPosInf_pos is_i64_one)

text \<open>Rebuilding expressions.\<close>

lemma MakeBinary_const:
  assumes "MakeBinary k e (MakeConstInt v d) = Inr e'" and "exact_casts \<rho>" and "eval \<rho> e = Some x"
    and "\<not> IsFloat d" and "bin_val k x v = Some w" and "wf_expr e" and "is_i64 v"
  shows "eval \<rho> e' = Some w \<and> wf_expr e'"
  using MakeBinary_eval [OF assms(1-3), of v] MakeBinary_wf [OF assms(1)] assms(4-7) by simp

lemma Normalize_split_value:
  assumes "Normalize_split a d = Inr e" and "exact_casts \<rho>" and "split_ok \<rho> a" and "\<not> IsFloat d"
  shows "eval \<rho> e = Some (split_value \<rho> a) \<and> wf_expr e"
proof -
  obtain x where x: "eval \<rho> (sp_index a) = Some x" and wf: "wf_expr (sp_index a)"
    and f: "0 < lower_factor a" "is_i64 (lower_factor a)" "0 < upper_factor a" "is_i64 (upper_factor a)"
      "is_i64 (scale a)"
    using assms(3) by (auto simp: split_ok_def)
  obtain i1 i2 where i1: "(if upper_factor a \<noteq> kPosInf
        then MakeBinary KFloorMod (sp_index a) (MakeConstInt (upper_factor a) d) else Inr (sp_index a)) = Inr i1"
    and i2: "(if lower_factor a \<noteq> 1 then MakeBinary KFloorDiv i1 (MakeConstInt (lower_factor a) d)
        else Inr i1) = Inr i2"
    and e: "(if scale a = 1 then Inr i2 else if scale a = -1 then MakeUnary KNeg i2
       else MakeBinary KMul i2 (MakeConstInt (scale a) d)) = Inr e"
    using assms(1) unfolding Normalize_split_def by (auto simp del: Make_defs)
  define y where "y = (if upper_factor a = kPosInf then x else x mod upper_factor a)"
  have 1: "eval \<rho> i1 = Some y \<and> wf_expr i1"
    using i1 x wf f assms(4) MakeBinary_const [OF _ assms(2) x assms(4), of KFloorMod "upper_factor a" i1 y]
    by (auto simp: y_def split: if_splits)
  have 2: "eval \<rho> i2 = Some (y div lower_factor a) \<and> wf_expr i2"
    using i2 1 f assms(4) MakeBinary_const [OF _ assms(2) _ assms(4), of KFloorDiv i1 "lower_factor a" i2 y]
    by (auto split: if_splits)
  then have "eval \<rho> e = Some (y div lower_factor a * scale a) \<and> wf_expr e"
    using e f assms(4) MakeBinary_const [OF _ assms(2) _ assms(4), of KMul i2 "scale a" e]
      MakeUnary_eval [of KNeg i2 e \<rho>] MakeUnary_wf [of KNeg i2 e]
    by (auto split: if_splits)
  then show ?thesis using x by (simp add: split_value_def y_def)
qed

lemma normalize_terms_value:
  "normalize_terms as d = Inr ts \<Longrightarrow> exact_casts \<rho> \<Longrightarrow> \<forall>a\<in>set as. split_ok \<rho> a \<Longrightarrow> \<not> IsFloat d \<Longrightarrow>
   (\<forall>t\<in>set ts. wf_expr t \<and> (\<exists>x. eval \<rho> t = Some x)) \<and>
   terms_value \<rho> as = sum_list (map (\<lambda>t. the (eval \<rho> t)) ts)"
proof (induction as d arbitrary: ts rule: normalize_terms.induct)
  case (2 a as d)
  then show ?case
    using Normalize_split_value [of a d _ \<rho>] by (fastforce split: if_splits)
qed simp

lemma add_terms_value:
  "add_terms e ts = Inr e' \<Longrightarrow> exact_casts \<rho> \<Longrightarrow> eval \<rho> e = Some x \<Longrightarrow> wf_expr e \<Longrightarrow>
   \<forall>t\<in>set ts. wf_expr t \<and> (\<exists>x. eval \<rho> t = Some x) \<Longrightarrow>
   eval \<rho> e' = Some (x + sum_list (map (\<lambda>t. the (eval \<rho> t)) ts)) \<and> wf_expr e'"
proof (induction e ts arbitrary: x rule: add_terms.induct)
  case (2 e t ts)
  obtain y where y: "eval \<rho> t = Some y" using 2(6) by auto
  obtain e1 where e1: "MakeBinary KAdd e t = Inr e1" and rest: "add_terms e1 ts = Inr e'"
    using 2(2) by auto
  have "eval \<rho> e1 = Some (x + y)" and "wf_expr e1"
    using MakeBinary_eval [OF e1 2(3,4) y] MakeBinary_wf [OF e1] 2(5,6) by auto
  from 2(1) [OF e1 rest 2(3) this] 2(6) y show ?case by (simp add: add.assoc)
qed simp

lemma Normalize_value:
  assumes "Normalize s = Inr e" and "exact_casts \<rho>" and "sum_ok \<rho> s"
  shows "eval \<rho> e = Some (sum_value \<rho> s) \<and> wf_expr e"
proof -
  have fl: "\<not> IsFloat (sm_dtype s)" and base: "is_i64 (sm_base s)" using assms(3) by (auto simp: sum_ok_def)
  obtain ts where ts: "normalize_terms (sm_args s) (sm_dtype s) = Inr ts"
    and e: "(case ts of [] \<Rightarrow> Inr (MakeConstInt (sm_base s) (sm_dtype s)) | t # ts' \<Rightarrow>
        res_bind (add_terms t ts') (\<lambda>e. if sm_base s \<noteq> 0
          then MakeBinary KAdd e (MakeConstInt (sm_base s) (sm_dtype s)) else Inr e)) = Inr e"
    using assms(1) unfolding Normalize_def by (auto simp del: Make_defs)
  have tv: "\<forall>t\<in>set ts. wf_expr t \<and> (\<exists>x. eval \<rho> t = Some x)"
    "terms_value \<rho> (sm_args s) = sum_list (map (\<lambda>t. the (eval \<rho> t)) ts)"
    using normalize_terms_value [OF ts assms(2)] assms(3) fl by (auto simp: sum_ok_def)
  show ?thesis
  proof (cases ts)
    case Nil
    with e tv fl base show ?thesis by (auto simp: sum_value_def)
  next
    case (Cons t ts')
    obtain e1 where e1: "add_terms t ts' = Inr e1"
      and e': "(if sm_base s \<noteq> 0 then MakeBinary KAdd e1 (MakeConstInt (sm_base s) (sm_dtype s))
        else Inr e1) = Inr e"
      using e Cons by (auto simp del: Make_defs)
    obtain x where x: "eval \<rho> t = Some x" "wf_expr t" using tv(1) Cons by auto
    have "eval \<rho> e1 = Some (x + sum_list (map (\<lambda>t. the (eval \<rho> t)) ts')) \<and> wf_expr e1"
      using add_terms_value [OF e1 assms(2) x] tv(1) Cons by simp
    then have "eval \<rho> e1 = Some (terms_value \<rho> (sm_args s)) \<and> wf_expr e1"
      using tv(2) Cons x by simp
    then show ?thesis
      using e' fl base MakeBinary_const [OF _ assms(2) _ fl, of KAdd e1 "sm_base s" e]
      by (auto simp: sum_value_def split: if_splits)
  qed
qed

section \<open>Merging keeps the value\<close>

lemma TryMergeSameFactors_value:
  assumes "TryMergeSameFactors H a b = Some m" and "ptr_ok H" and "split_ok \<rho> a" and "split_ok \<rho> b"
  shows "split_ok \<rho> m \<and> split_value \<rho> m = split_value \<rho> a + split_value \<rho> b"
  using assms AddWouldOverflow_iff [of "scale a" "scale b"]
  by (auto simp: TryMergeSameFactors_def split_ok_def split_value_def Let_def distrib_left
      dest!: ptr_okD split: if_splits)

text \<open>\<open>(x % U / L) * L + x % L = x % U\<close> when \<open>L\<close> divides \<open>U\<close>, and the same without \<open>U\<close>.\<close>

lemma div_mod_pair: "(L::int) dvd U \<Longrightarrow> x mod U div L * L + x mod L = x mod U"
  by (metis div_mult_mod_eq mod_mod_cancel)

lemma try_merge_value:
  assumes "try_merge a b = Some m" and "sp_index a = sp_index b" and "split_ok \<rho> a" and "split_ok \<rho> b"
  shows "split_ok \<rho> m \<and> split_value \<rho> m = split_value \<rho> a + split_value \<rho> b"
proof -
  define x where "x = the (eval \<rho> (sp_index b))"
  define y where "y = (if upper_factor a = kPosInf then x else x mod upper_factor a)"
  have *: "lower_factor b = 1" "upper_factor b = lower_factor a" "lower_factor a \<noteq> kPosInf"
      "scale a = lower_factor a * scale b" "m = b\<lparr>upper_factor := upper_factor a, scale := scale b\<rparr>"
    using assms(1) by (auto simp: try_merge_def split: if_splits)
  have "split_value \<rho> a + split_value \<rho> b =
      y div lower_factor a * (lower_factor a * scale b) + x mod lower_factor a * scale b"
    using * assms(2) by (simp add: split_value_def y_def x_def)
  also have "\<dots> = (y div lower_factor a * lower_factor a + x mod lower_factor a) * scale b"
    by (simp add: algebra_simps)
  also have "y div lower_factor a * lower_factor a + x mod lower_factor a = y"
    using assms(3) div_mod_pair [of "lower_factor a" "upper_factor a" x]
    by (auto simp: y_def split_ok_def)
  finally have "split_value \<rho> m = split_value \<rho> a + split_value \<rho> b"
    using * by (simp add: split_value_def y_def x_def)
  moreover have "split_ok \<rho> m" using * assms(3,4) by (simp add: split_ok_def is_i64_alt)
  ultimately show ?thesis by simp
qed

lemma merge_pair_value:
  assumes "merge_pair H a b = Some m" and "ptr_ok H" and "split_ok \<rho> a" and "split_ok \<rho> b"
  shows "split_ok \<rho> m \<and> split_value \<rho> m = split_value \<rho> a + split_value \<rho> b"
  using assms TryMergeSameFactors_value [of H a b m \<rho>] try_merge_value [of a b m \<rho>] try_merge_value [of b a m \<rho>]
  by (auto simp: merge_pair_def TryMergeDivModPair_def dest: ptr_okD split: option.splits if_splits)

lemma zeroed_ok: "split_ok \<rho> a \<Longrightarrow> split_ok \<rho> (a\<lparr>scale := 0\<rparr>)"
  by (simp add: split_ok_def is_i64_alt)

lemma merge_into_value:
  "merge_into H a bs = (a', bs', ch) \<Longrightarrow> ptr_ok H \<Longrightarrow> split_ok \<rho> a \<Longrightarrow> \<forall>b\<in>set bs. split_ok \<rho> b \<Longrightarrow>
   split_ok \<rho> a' \<and> (\<forall>b\<in>set bs'. split_ok \<rho> b) \<and>
   split_value \<rho> a' + terms_value \<rho> bs' = split_value \<rho> a + terms_value \<rho> bs"
proof (induction H a bs arbitrary: a' bs' ch rule: merge_into.induct)
  case (2 H a b bs)
  show ?case
  proof (cases "scale b = 0 \<or> merge_pair H a b = None")
    case True
    obtain a1 bs1 c where m: "merge_into H a bs = (a1, bs1, c)" by (cases "merge_into H a bs") auto
    have "a' = a1" and "bs' = b # bs1" using "2.prems"(1) True m by (auto split: if_splits)
    moreover have "split_ok \<rho> a1 \<and> (\<forall>b\<in>set bs1. split_ok \<rho> b) \<and>
        split_value \<rho> a1 + terms_value \<rho> bs1 = split_value \<rho> a + terms_value \<rho> bs"
      using 2(1) [OF _ m] 2(2) [OF _ _ m] True "2.prems"(2-4) by auto
    ultimately show ?thesis using "2.prems"(4) by simp
  next
    case False
    then obtain w where w: "merge_pair H a b = Some w" and b: "scale b \<noteq> 0" by auto
    obtain a1 bs1 c where m: "merge_into H w bs = (a1, bs1, c)" by (cases "merge_into H w bs") auto
    have a': "a' = a1" and bs': "bs' = b\<lparr>scale := 0\<rparr> # bs1" using "2.prems"(1) w b m by auto
    have v: "split_ok \<rho> w \<and> split_value \<rho> w = split_value \<rho> a + split_value \<rho> b"
      using merge_pair_value [OF w "2.prems"(2,3)] "2.prems"(4) by simp
    have "split_ok \<rho> a1 \<and> (\<forall>b\<in>set bs1. split_ok \<rho> b) \<and>
        split_value \<rho> a1 + terms_value \<rho> bs1 = split_value \<rho> w + terms_value \<rho> bs"
      using 2(3) [OF b w m "2.prems"(2)] v "2.prems"(4) by simp
    then show ?thesis using v a' bs' zeroed_ok [of \<rho> b] "2.prems"(4) by simp
  qed
qed simp

lemma merge_pass_value:
  "merge_pass H as = (as', ch) \<Longrightarrow> ptr_ok H \<Longrightarrow> \<forall>a\<in>set as. split_ok \<rho> a \<Longrightarrow>
   (\<forall>a\<in>set as'. split_ok \<rho> a) \<and> terms_value \<rho> as' = terms_value \<rho> as"
proof (induction H as arbitrary: as' ch rule: merge_pass.induct)
  case (2 H a bs)
  show ?case
  proof (cases "scale a = 0")
    case True
    with 2 show ?thesis by (fastforce split: prod.splits)
  next
    case False
    obtain a' bs' c where m: "merge_into H a bs = (a', bs', c)" by (cases "merge_into H a bs") auto
    obtain bs'' c' where p: "merge_pass H bs' = (bs'', c')" by (cases "merge_pass H bs'") auto
    have i: "split_ok \<rho> a' \<and> (\<forall>b\<in>set bs'. split_ok \<rho> b) \<and>
        split_value \<rho> a' + terms_value \<rho> bs' = split_value \<rho> a + terms_value \<rho> bs"
      using merge_into_value [OF m "2.prems"(2)] "2.prems"(3) by simp
    moreover have "(\<forall>b\<in>set bs''. split_ok \<rho> b) \<and> terms_value \<rho> bs'' = terms_value \<rho> bs'"
      using 2(2) [OF False m [symmetric] refl p "2.prems"(2)] i by blast
    moreover have "as' = a' # bs''" using "2.prems"(1) False m p by auto
    ultimately show ?thesis by simp
  qed
qed simp

lemma merge_loop_value:
  "ptr_ok H \<Longrightarrow> \<forall>a\<in>set as. split_ok \<rho> a \<Longrightarrow>
   (\<forall>a\<in>set (merge_loop H as). split_ok \<rho> a) \<and> terms_value \<rho> (merge_loop H as) = terms_value \<rho> as"
proof (induction H as rule: merge_loop.induct)
  case (1 H as)
  obtain as' ch where p: "merge_pass H as = (as', ch)" by (cases "merge_pass H as")
  have v: "(\<forall>a\<in>set as'. split_ok \<rho> a) \<and> terms_value \<rho> as' = terms_value \<rho> as"
    using merge_pass_value [OF p "1.prems"] .
  show ?case
  proof (cases ch)
    case True
    with 1(1) [OF p [symmetric] True "1.prems"(1)] v p show ?thesis by (simp add: merge_loop.simps [of H as])
  qed (use v p in \<open>simp add: merge_loop.simps [of H as]\<close>)
qed

lemma filter_live_value: "terms_value \<rho> (filter (\<lambda>a. scale a \<noteq> 0) as) = terms_value \<rho> as"
  by (induction as) auto

lemma MergeTerms_value:
  assumes "ptr_ok H" and "\<forall>a\<in>set as. split_ok \<rho> a"
  shows "(\<forall>a\<in>set (MergeTerms H as). split_ok \<rho> a) \<and> terms_value \<rho> (MergeTerms H as) = terms_value \<rho> as"
  using merge_loop_value [OF assms] by (simp add: MergeTerms_def filter_live_value)

section \<open>Operations on sums keep the value\<close>

lemma SumAdd_value:
  assumes "SumAdd H l r = Inr s" and "ptr_ok H" and "exact_casts \<rho>" and "sum_ok \<rho> l" and "sum_ok \<rho> r"
  shows "sum_ok \<rho> s \<and> sum_value \<rho> s = sum_value \<rho> l + sum_value \<rho> r"
proof (cases "AddWouldOverflow (sm_base l) (sm_base r)")
  case True
  then obtain a b i where n: "Normalize l = Inr a" "Normalize r = Inr b" "MakeBinary KAdd a b = Inr i"
    and s: "s = \<lparr>sm_base = 0, sm_args = [simple_split i 1], sm_dtype = sm_dtype l\<rparr>"
    using assms(1) by (auto simp: SumAdd_def)
  have "eval \<rho> i = Some (sum_value \<rho> l + sum_value \<rho> r)" and "wf_expr i"
    using Normalize_value [OF n(1) assms(3,4)] Normalize_value [OF n(2) assms(3,5)]
      MakeBinary_eval [OF n(3) assms(3)] MakeBinary_wf [OF n(3)] by auto
  then show ?thesis
    using simple_split_ok [of i \<rho> _ 1] assms(4) s is_i64_one by (simp add: sum_ok_def sum_value_def)
next
  case False
  then have s: "s = \<lparr>sm_base = sm_base l + sm_base r, sm_args = MergeTerms H (sm_args l @ sm_args r),
      sm_dtype = sm_dtype l\<rparr>"
    using assms(1) by (simp add: SumAdd_def)
  moreover have "\<forall>a\<in>set (sm_args l @ sm_args r). split_ok \<rho> a"
    using assms(4,5) by (auto simp: sum_ok_def)
  from MergeTerms_value [OF assms(2) this] show ?thesis
    using s assms(4,5) False AddWouldOverflow_iff [of "sm_base l" "sm_base r"]
    by (simp add: sum_ok_def sum_value_def)
qed

lemma map_res_value:
  "map_res f as = Inr bs \<Longrightarrow>
   (\<And>a b. a \<in> set as \<Longrightarrow> f a = Inr b \<Longrightarrow> split_ok \<rho> b \<and> split_value \<rho> b = c * split_value \<rho> a) \<Longrightarrow>
   (\<forall>b\<in>set bs. split_ok \<rho> b) \<and> terms_value \<rho> bs = c * terms_value \<rho> as"
proof (induction as arbitrary: bs)
  case (Cons a as)
  from Cons.prems(1) obtain b bs' where b: "f a = Inr b" and bs': "map_res f as = Inr bs'"
    and bs: "bs = b # bs'" by auto
  have "(\<forall>b\<in>set bs'. split_ok \<rho> b) \<and> terms_value \<rho> bs' = c * terms_value \<rho> as"
    by (rule Cons.IH [OF bs' Cons.prems(2)]) auto
  with Cons.prems(2) [OF _ b] show ?case by (simp add: bs distrib_left)
qed simp

lemma negate_split_value:
  assumes "negate_split d a = Inr b" and "exact_casts \<rho>" and "split_ok \<rho> a" and "\<not> IsFloat d"
  shows "split_ok \<rho> b \<and> split_value \<rho> b = - 1 * split_value \<rho> a"
proof (cases "NegWouldOverflow (scale a)")
  case True
  then obtain i where i: "Normalize_split a d = Inr i" "b = simple_split i (-1)"
    using assms(1) by (auto simp: negate_split_def)
  with Normalize_split_value [OF i(1) assms(2-4)] simple_split_ok [of i \<rho> _ "-1"] is_i64_one
  show ?thesis by auto
next
  case False
  then show ?thesis
    using assms NegWouldOverflow_iff [of "scale a"]
    by (auto simp: negate_split_def split_ok_def split_value_def Let_def)
qed

lemma scale_split_value:
  assumes "scale_split c d a = Inr b" and "exact_casts \<rho>" and "split_ok \<rho> a" and "\<not> IsFloat d"
    and "is_i64 c"
  shows "split_ok \<rho> b \<and> split_value \<rho> b = c * split_value \<rho> a"
proof (cases "MulWouldOverflow (scale a) c")
  case True
  then obtain i where i: "Normalize_split a d = Inr i" "b = simple_split i c"
    using assms(1) by (auto simp: scale_split_def)
  with Normalize_split_value [OF i(1) assms(2-4)] simple_split_ok [of i \<rho> _ c] assms(5)
  show ?thesis by auto
next
  case False
  then show ?thesis
    using assms MulWouldOverflow_iff [of "scale a" c]
    by (auto simp: scale_split_def split_ok_def split_value_def Let_def)
qed

lemma normalized_split_sum:
  assumes "Normalize s = Inr i" and "exact_casts \<rho>" and "sum_ok \<rho> s" and "is_i64 c"
  shows "sum_ok \<rho> \<lparr>sm_base = 0, sm_args = [simple_split i c], sm_dtype = sm_dtype s\<rparr> \<and>
    sum_value \<rho> \<lparr>sm_base = 0, sm_args = [simple_split i c], sm_dtype = sm_dtype s\<rparr> = c * sum_value \<rho> s"
  using Normalize_value [OF assms(1-3)] simple_split_ok [of i \<rho> "sum_value \<rho> s" c] assms(3,4) is_i64_one
  by (simp add: sum_ok_def sum_value_def)

lemma SumNegate_value:
  assumes "SumNegate s = Inr t" and "exact_casts \<rho>" and "sum_ok \<rho> s"
  shows "sum_ok \<rho> t \<and> sum_value \<rho> t = - sum_value \<rho> s"
proof (cases "NegWouldOverflow (sm_base s)")
  case True
  then obtain i where "Normalize s = Inr i"
    and "t = \<lparr>sm_base = 0, sm_args = [simple_split i (-1)], sm_dtype = sm_dtype s\<rparr>"
    using assms(1) by (auto simp: SumNegate_def)
  with normalized_split_sum [OF _ assms(2,3) is_i64_one(3)] show ?thesis by auto
next
  case False
  then obtain as where as: "map_res (negate_split (sm_dtype s)) (sm_args s) = Inr as"
    and t: "t = \<lparr>sm_base = - sm_base s, sm_args = as, sm_dtype = sm_dtype s\<rparr>"
    using assms(1) by (auto simp: SumNegate_def)
  have "(\<forall>b\<in>set as. split_ok \<rho> b) \<and> terms_value \<rho> as = - 1 * terms_value \<rho> (sm_args s)"
    by (rule map_res_value [OF as], rule negate_split_value [OF _ assms(2)])
      (use assms(3) in \<open>auto simp: sum_ok_def\<close>)
  then show ?thesis
    using assms(3) False NegWouldOverflow_iff [of "sm_base s"] by (simp add: t sum_ok_def sum_value_def)
qed

lemma SumMulConst_value:
  assumes "SumMulConst s c = Inr t" and "exact_casts \<rho>" and "sum_ok \<rho> s" and "is_i64 c"
  shows "sum_ok \<rho> t \<and> sum_value \<rho> t = c * sum_value \<rho> s"
proof -
  consider "c = 0" | "c = 1" | "c \<noteq> 0" "c \<noteq> 1" "MulWouldOverflow (sm_base s) c"
    | "c \<noteq> 0" "c \<noteq> 1" "\<not> MulWouldOverflow (sm_base s) c" by blast
  then show ?thesis
  proof cases
    case 3
    then obtain i where "Normalize s = Inr i"
      and "t = \<lparr>sm_base = 0, sm_args = [simple_split i c], sm_dtype = sm_dtype s\<rparr>"
      using assms(1) by (auto simp: SumMulConst_def)
    with normalized_split_sum [OF _ assms(2-4)] show ?thesis by auto
  next
    case 4
    then obtain as where as: "map_res (scale_split c (sm_dtype s)) (sm_args s) = Inr as"
      and t: "t = \<lparr>sm_base = sm_base s * c, sm_args = as, sm_dtype = sm_dtype s\<rparr>"
      using assms(1) by (auto simp: SumMulConst_def)
    have "(\<forall>b\<in>set as. split_ok \<rho> b) \<and> terms_value \<rho> as = c * terms_value \<rho> (sm_args s)"
      by (rule map_res_value [OF as], rule scale_split_value [OF _ assms(2) _ _ assms(4)])
        (use assms(3) in \<open>auto simp: sum_ok_def\<close>)
    then show ?thesis
      using assms(3,4) 4 MulWouldOverflow_iff [of "sm_base s" c]
      by (simp add: t sum_ok_def sum_value_def distrib_left)
  qed (use assms is_i64_one in \<open>auto simp: SumMulConst_def sum_ok_def sum_value_def\<close>)
qed

text \<open>Division: of the scales by a common divisor, and of the factors.\<close>

lemma divided_scale:
  assumes "split_ok \<rho> a" and "0 < v" and "is_i64 v" and "cmod (scale a) v = 0"
  shows "split_ok \<rho> (a\<lparr>scale := cdiv (scale a) v\<rparr>) \<and>
    split_value \<rho> a = v * split_value \<rho> (a\<lparr>scale := cdiv (scale a) v\<rparr>)"
proof -
  have v: "v dvd scale a" using assms(4) by (simp add: cmod_eq_0_iff)
  then have q: "cdiv (scale a) v = scale a div v" by (rule cdiv_dvd)
  have "is_i64 (scale a div v)" using assms(1-3) div_i64 [of "scale a" v] by (auto simp: split_ok_def)
  with v q assms(1) show ?thesis by (auto simp: split_ok_def split_value_def Let_def)
qed

lemma divided_terms:
  assumes "\<forall>a\<in>set as. split_ok \<rho> a \<and> cmod (scale a) v = 0" and "0 < v" and "is_i64 v"
  shows "(\<forall>a\<in>set (map (\<lambda>a. a\<lparr>scale := cdiv (scale a) v\<rparr>) as). split_ok \<rho> a) \<and>
    terms_value \<rho> as = v * terms_value \<rho> (map (\<lambda>a. a\<lparr>scale := cdiv (scale a) v\<rparr>) as)"
  using assms(1) divided_scale [OF _ assms(2,3)] by (induction as) (auto simp: distrib_left)

lemma divided_lower:
  assumes "split_ok \<rho> a" and "0 < scale a" and "0 < v" and "cmod v (scale a) = 0"
    and "\<not> MulWouldOverflow (lower_factor a) (cdiv v (scale a))" and "is_i64 v"
    and "upper_factor a = kPosInf \<or> cmod (upper_factor a) (lower_factor a * cdiv v (scale a)) = 0"
  shows "split_ok \<rho> (a\<lparr>lower_factor := lower_factor a * cdiv v (scale a), scale := 1\<rparr>) \<and>
    split_value \<rho> (a\<lparr>lower_factor := lower_factor a * cdiv v (scale a), scale := 1\<rparr>) =
      split_value \<rho> a div v"
proof -
  obtain k where k: "v = scale a * k" using assms(4) by (auto simp: cmod_eq_0_iff)
  have kp: "0 < k" using assms(2,3) k by (simp add: zero_less_mult_iff)
  have q: "cdiv v (scale a) = k" using assms(2) k by (simp add: cdiv_dvd)
  have ki: "is_i64 k" using assms(2,6) kp k mult_le_mono
    by (auto simp: is_i64_alt intro: order_trans [of k "scale a * k"])
  have "x div lower_factor a * scale a div v = x div (lower_factor a * k)" for x
    using assms(2) kp k by (simp add: zdiv_zmult2_eq mult.commute [of _ "scale a"])
  then have "split_value \<rho> (a\<lparr>lower_factor := lower_factor a * k, scale := 1\<rparr>) = split_value \<rho> a div v"
    by (simp add: split_value_def Let_def)
  moreover have "split_ok \<rho> (a\<lparr>lower_factor := lower_factor a * k, scale := 1\<rparr>)"
    using assms(1,5,7) kp ki q MulWouldOverflow_iff [of "lower_factor a" k] is_i64_one
    by (auto simp: split_ok_def cmod_eq_0_iff)
  ultimately show ?thesis by (simp add: q)
qed

lemma TrySumFloorDiv_value:
  assumes "TrySumFloorDiv s v = Inr (Some t)" and "sum_ok \<rho> s" and "0 < v" and "is_i64 v"
  shows "sum_ok \<rho> t \<and> sum_value \<rho> t = sum_value \<rho> s div v"
proof (cases "sm_base s mod v = 0 \<and> (\<forall>a\<in>set (sm_args s). cmod (scale a) v = 0)")
  case True
  then have t: "t = s\<lparr>sm_base := sm_base s div v, sm_args := map (\<lambda>a. a\<lparr>scale := cdiv (scale a) v\<rparr>) (sm_args s)\<rparr>"
    using assms(1,3) by (auto simp: TrySumFloorDiv_def floormod_eq floordiv_eq split: if_splits)
  have d: "(\<forall>a\<in>set (sm_args t). split_ok \<rho> a) \<and> terms_value \<rho> (sm_args s) = v * terms_value \<rho> (sm_args t)"
    using divided_terms [of "sm_args s" \<rho> v] True assms(2-4) by (simp add: t sum_ok_def)
  have "sm_base s = v * (sm_base s div v)" using True by auto
  then have "sum_value \<rho> s = v * (sm_base s div v + terms_value \<rho> (sm_args t))"
    using d unfolding sum_value_def distrib_left by simp
  then have "sum_value \<rho> s div v = sum_value \<rho> t" using assms(3) by (simp add: t sum_value_def)
  moreover have "sum_ok \<rho> t"
    using d assms(2-4) div_i64 [of "sm_base s" v] by (auto simp: t sum_ok_def)
  ultimately show ?thesis by simp
next
  case False
  then obtain a where a: "sm_args s = [a]" and base: "sm_base s = 0"
    using assms(1,3) by (auto simp: TrySumFloorDiv_def floormod_eq split: if_splits list.splits)
  have ok: "split_ok \<rho> a" using assms(2) a by (simp add: sum_ok_def)
  have nd: "cmod (scale a) v \<noteq> 0" using False a base by simp
  have t: "0 < scale a" "cmod v (scale a) = 0" "\<not> MulWouldOverflow (lower_factor a) (cdiv v (scale a))"
      "upper_factor a = kPosInf \<or> cmod (upper_factor a) (lower_factor a * cdiv v (scale a)) = 0"
      "t = s\<lparr>sm_args := [a\<lparr>lower_factor := lower_factor a * cdiv v (scale a), scale := 1\<rparr>]\<rparr>"
    using assms(1,3) nd a base
    by (auto simp: TrySumFloorDiv_def floormod_eq Let_def split: if_splits)
  from divided_lower [OF ok t(1) assms(3) t(2,3) assms(4) t(4)] t(5) assms(2) base a show ?thesis
    by (simp add: sum_ok_def sum_value_def)
qed

lemma TrySumFloorMod_value:
  assumes "TrySumFloorMod s v = Inr (Some t)" and "sum_ok \<rho> s" and "0 < v" and "is_i64 v"
    and "v \<noteq> kPosInf"
  shows "sum_ok \<rho> t \<and> sum_value \<rho> t = sum_value \<rho> s mod v"
proof (cases "\<forall>a\<in>set (sm_args s). cmod (scale a) v = 0")
  case True
  then have t: "t = \<lparr>sm_base = sm_base s mod v, sm_args = [], sm_dtype = sm_dtype s\<rparr>"
    using assms(1,3) by (auto simp: TrySumFloorMod_def floormod_eq split: if_splits)
  have "terms_value \<rho> (sm_args s) =
      v * terms_value \<rho> (map (\<lambda>a. a\<lparr>scale := cdiv (scale a) v\<rparr>) (sm_args s))"
    using divided_terms [of "sm_args s" \<rho> v] True assms(2-4) by (auto simp: sum_ok_def)
  then have "sum_value \<rho> s mod v = sm_base s mod v" by (simp add: sum_value_def)
  moreover have "0 \<le> sm_base s mod v" and "sm_base s mod v < v" using assms(3) by simp_all
  then have "is_i64 (sm_base s mod v)" using assms(4) unfolding is_i64_alt by linarith
  ultimately show ?thesis using assms(2) by (simp add: t sum_ok_def sum_value_def)
next
  case False
  then obtain a where a: "sm_args s = [a]" and base: "sm_base s = 0"
    using assms(1,3) by (auto simp: TrySumFloorMod_def split: if_splits list.splits)
  then have "cmod (scale a) v \<noteq> 0" using False by simp
  then have t: "scale a = 1" "lower_factor a = 1" "upper_factor a \<noteq> kPosInf" "v dvd upper_factor a"
      "t = s\<lparr>sm_args := [a\<lparr>upper_factor := v\<rparr>]\<rparr>"
    using assms(1,3) a base by (auto simp: TrySumFloorMod_def cmod_eq_0_iff split: if_splits)
  then show ?thesis
    using assms a base
    by (auto simp: sum_ok_def sum_value_def split_ok_def split_value_def Let_def mod_mod_cancel)
qed

section \<open>Soundness of the visitor\<close>

definition cache_ok :: "env \<Rightarrow> 'f sum_cache \<Rightarrow> bool" where
  "cache_ok \<rho> c \<longleftrightarrow> (\<forall>(k, s)\<in>set c. sum_ok \<rho> s \<and> eval \<rho> k = Some (sum_value \<rho> s))"

definition visited_ok :: "env \<Rightarrow> int \<Rightarrow> 'f expr \<times> 'f sum_cache \<Rightarrow> bool" where
  "visited_ok \<rho> v r \<longleftrightarrow> wf_expr (fst r) \<and> eval \<rho> (fst r) = Some v \<and> cache_ok \<rho> (snd r)"

lemma cached_sum_ok:
  "cached_sum H c e = Some s \<Longrightarrow> ptr_ok H \<Longrightarrow> cache_ok \<rho> c \<Longrightarrow> sum_ok \<rho> s \<and> eval \<rho> e = Some (sum_value \<rho> s)"
  by (induction H c e rule: cached_sum.induct) (auto simp: cache_ok_def dest: ptr_okD split: if_splits)

lemma GetOrCreate_ok:
  assumes "GetOrCreateSumExpr H c e = Inr s" and "ptr_ok H" and "cache_ok \<rho> c" and "wf_expr e"
    and "eval \<rho> e = Some v"
  shows "sum_ok \<rho> s \<and> sum_value \<rho> s = v"
proof (cases "cached_sum H c e")
  case None
  obtain d where d: "GetScalarDtype e = Inr d" and s: "s = (case as_int e of
      Some (v, _) \<Rightarrow> \<lparr>sm_base = v, sm_args = [], sm_dtype = d\<rparr>
    | None \<Rightarrow> \<lparr>sm_base = 0, sm_args = [simple_split e 1], sm_dtype = d\<rparr>)"
    using assms(1) None by (auto simp: GetOrCreateSumExpr_def)
  have "\<not> IsFloat d" by (rule eval_dtype [OF assms(5) d])
  then show ?thesis
    using s assms(4,5) simple_split_ok [OF assms(4,5), of 1] is_i64_one
    by (auto simp: sum_ok_def sum_value_def split: option.splits)
next
  case (Some t)
  with assms cached_sum_ok [OF Some assms(2,3)] show ?thesis by (simp add: GetOrCreateSumExpr_def)
qed

lemma NormalizeAndCache_ok:
  assumes "NormalizeAndCache c s = Inr r" and "exact_casts \<rho>" and "sum_ok \<rho> s" and "cache_ok \<rho> c"
  shows "visited_ok \<rho> (sum_value \<rho> s) r"
  using assms Normalize_value [OF _ assms(2,3)]
  by (auto simp: NormalizeAndCache_def visited_ok_def cache_ok_def)

lemma fold_or_cases:
  "fold_or c folded rest = Inr r \<Longrightarrow> (\<exists>e. folded = Some e \<and> r = (e, c)) \<or> folded = None \<and> rest = Inr r"
  by (auto simp: fold_or_def split: option.splits)

text \<open>The situation in which the visitor of a binary node finds itself.\<close>

definition cn_given :: "'f host \<Rightarrow> env \<Rightarrow> 'f sum_cache \<Rightarrow> 'f expr \<Rightarrow> int \<Rightarrow> 'f expr \<Rightarrow> int \<Rightarrow> bool" where
  "cn_given H \<rho> c a x b y \<longleftrightarrow> ptr_ok H \<and> exact_casts \<rho> \<and> cache_ok \<rho> c \<and> wf_expr a \<and> wf_expr b \<and>
     eval \<rho> a = Some x \<and> eval \<rho> b = Some y"

lemma folded_ok:
  assumes "cn_given H \<rho> c a x b y" and "bin_val k x y = Some v"
    and "TryConstFoldBinary H k a b d = Inr (Some e)" and "\<not> IsFloat d"
  shows "visited_ok \<rho> v (e, c)"
  using assms TryConstFoldBinary_eval [OF _ assms(3) _ _ assms(2,4)] TryConstFoldBinary_wf [OF _ _ assms(3)]
  by (auto simp: visited_ok_def cn_given_def)

lemma folded_lhs_ok:
  assumes "cn_given H \<rho> c a x b y" and "bin_val k x y = Some v"
    and "TryConstFoldBinaryLhs H k a b = Inr (Some e)"
  shows "visited_ok \<rho> v (e, c)"
proof -
  obtain d where d: "GetScalarDtype a = Inr d" and f: "TryConstFoldBinary H k a b d = Inr (Some e)"
    using assms(3) by (auto simp: TryConstFoldBinaryLhs_def)
  have "\<not> IsFloat d" using eval_dtype [OF _ d] assms(1) by (auto simp: cn_given_def)
  then show ?thesis by (rule folded_ok [OF assms(1,2) f])
qed

lemma rebuilt_ok:
  assumes "cn_given H \<rho> c a x b y" and "bin_val k x y = Some v" and "rebuilt H k l r d a b e"
    and "\<not> IsFloat d" and "wf_expr l" and "wf_expr r"
  shows "visited_ok \<rho> v (e, c)"
proof -
  have "eval \<rho> e = Some v"
    using Mutate_value(1) [OF _ _ _ _ assms(3,4)] assms(1,2) by (auto simp: cn_given_def)
  moreover have "wf_expr e"
    using assms Mutate_wf(1) [of H k l r d a b e] by (auto simp: rebuilt_def cn_given_def)
  ultimately show ?thesis using assms(1) by (simp add: visited_ok_def cn_given_def)
qed

lemma fold_stage:
  assumes "cn_given H \<rho> c a x b y" and "bin_val k x y = Some v"
    and "res_bind (TryConstFoldBinaryLhs H k a b) (\<lambda>folded. fold_or c folded rest) = Inr r"
    and "rest = Inr r \<Longrightarrow> visited_ok \<rho> v r"
  shows "visited_ok \<rho> v r"
proof -
  obtain folded where f: "TryConstFoldBinaryLhs H k a b = Inr folded" and r: "fold_or c folded rest = Inr r"
    using assms(3) by auto
  from fold_or_cases [OF r] show ?thesis
    using folded_lhs_ok [OF assms(1,2)] f assms(4) by auto
qed

lemma operand_sums:
  assumes "cn_given H \<rho> c a x b y" and "GetOrCreateSumExpr H c a = Inr sa"
    and "GetOrCreateSumExpr H c b = Inr sb"
  shows "sum_ok \<rho> sa \<and> sum_value \<rho> sa = x" and "sum_ok \<rho> sb \<and> sum_value \<rho> sb = y"
  using assms GetOrCreate_ok unfolding cn_given_def by blast+

lemma cn_given_simps:
  "cn_given H \<rho> c a x b y \<Longrightarrow> ptr_ok H" "cn_given H \<rho> c a x b y \<Longrightarrow> exact_casts \<rho>"
  "cn_given H \<rho> c a x b y \<Longrightarrow> cache_ok \<rho> c"
  by (simp_all add: cn_given_def)

lemma cn_add_ok:
  assumes g: "cn_given H \<rho> c a x b y" and "cn_add H c a b = Inr r"
  shows "visited_ok \<rho> (x + y) r"
proof (rule fold_stage [OF g, where k = KAdd], simp, rule assms(2) [unfolded cn_add_def])
  assume "res_bind (GetOrCreateSumExpr H c a) (\<lambda>sa. res_bind (GetOrCreateSumExpr H c b) (\<lambda>sb.
      res_bind (SumAdd H sa sb) (NormalizeAndCache c))) = Inr r"
  then obtain sa sb s where s: "GetOrCreateSumExpr H c a = Inr sa" "GetOrCreateSumExpr H c b = Inr sb"
    "SumAdd H sa sb = Inr s" "NormalizeAndCache c s = Inr r" by auto
  have "sum_ok \<rho> s \<and> sum_value \<rho> s = x + y"
    using SumAdd_value [OF s(3) cn_given_simps(1,2) [OF g]] operand_sums [OF g s(1,2)] by simp
  then show "visited_ok \<rho> (x + y) r"
    using NormalizeAndCache_ok [OF s(4) cn_given_simps(2) [OF g] _ cn_given_simps(3) [OF g]] by auto
qed

lemma cn_sub_ok:
  assumes g: "cn_given H \<rho> c a x b y" and "cn_sub H c a b = Inr r"
  shows "visited_ok \<rho> (x - y) r"
proof (rule fold_stage [OF g, where k = KSub], simp, rule assms(2) [unfolded cn_sub_def])
  assume "res_bind (GetOrCreateSumExpr H c a) (\<lambda>sa. res_bind (GetOrCreateSumExpr H c b) (\<lambda>sb.
      res_bind (SumNegate sb) (\<lambda>nb. res_bind (SumAdd H sa nb) (NormalizeAndCache c)))) = Inr r"
  then obtain sa sb nb s where s: "GetOrCreateSumExpr H c a = Inr sa" "GetOrCreateSumExpr H c b = Inr sb"
    "SumNegate sb = Inr nb" "SumAdd H sa nb = Inr s" "NormalizeAndCache c s = Inr r" by auto
  have "sum_ok \<rho> nb \<and> sum_value \<rho> nb = - y"
    using SumNegate_value [OF s(3) cn_given_simps(2) [OF g]] operand_sums [OF g s(1,2)] by simp
  then have "sum_ok \<rho> s \<and> sum_value \<rho> s = x - y"
    using SumAdd_value [OF s(4) cn_given_simps(1,2) [OF g]] operand_sums [OF g s(1,2)] by simp
  then show "visited_ok \<rho> (x - y) r"
    using NormalizeAndCache_ok [OF s(5) cn_given_simps(2) [OF g] _ cn_given_simps(3) [OF g]] by auto
qed

lemma scaled_ok:
  assumes "exact_casts \<rho>" and "cache_ok \<rho> c" and "sum_ok \<rho> sa \<and> sum_value \<rho> sa = x"
    and "is_i64 v" and "res_bind (SumMulConst sa v) (NormalizeAndCache c) = Inr r"
  shows "visited_ok \<rho> (x * v) r"
proof -
  obtain s where s: "SumMulConst sa v = Inr s" "NormalizeAndCache c s = Inr r" using assms(5) by auto
  have "sum_ok \<rho> s \<and> sum_value \<rho> s = x * v"
    using SumMulConst_value [OF s(1) assms(1) _ assms(4)] assms(3) by (simp add: mult.commute)
  then show ?thesis using NormalizeAndCache_ok [OF s(2) assms(1) _ assms(2)] by auto
qed

lemma cn_mul_ok:
  assumes g: "cn_given H \<rho> c a x b y" and "cn_mul H c l rr d a b = Inr r"
    and "\<not> IsFloat d" and "wf_expr l" and "wf_expr rr"
  shows "visited_ok \<rho> (x * y) r"
proof (rule fold_stage [OF g, where k = KMul], simp, rule assms(2) [unfolded cn_mul_def])
  assume rest: "(case as_int b of
      None \<Rightarrow> (case as_int a of
          None \<Rightarrow> res_bind (MutateBinary H KMul l rr d a b) (\<lambda>e. Inr (e, c))
        | Some (v, _) \<Rightarrow> res_bind (GetOrCreateSumExpr H c b) (\<lambda>sb.
            res_bind (SumMulConst sb v) (NormalizeAndCache c)))
    | Some (v, _) \<Rightarrow> res_bind (GetOrCreateSumExpr H c a) (\<lambda>sa.
        res_bind (SumMulConst sa v) (NormalizeAndCache c))) = Inr r"
  have ab: "wf_expr a" "wf_expr b" "eval \<rho> a = Some x" "eval \<rho> b = Some y"
    using g by (auto simp: cn_given_def)
  show "visited_ok \<rho> (x * y) r"
  proof (cases "as_int b")
    case (Some p)
    then obtain v t where b: "b = ConstInt v t" by (cases p) auto
    then obtain sa where sa: "GetOrCreateSumExpr H c a = Inr sa"
      and m: "res_bind (SumMulConst sa v) (NormalizeAndCache c) = Inr r"
      using rest by auto
    have "y = v" "is_i64 v" using ab b by (auto split: if_splits)
    then show ?thesis
      using scaled_ok [OF cn_given_simps(2,3) [OF g] GetOrCreate_ok [OF sa cn_given_simps(1,3) [OF g] ab(1,3)] _ m]
      by simp
  next
    case nb: None
    show ?thesis
    proof (cases "as_int a")
      case (Some p)
      then obtain v t where a: "a = ConstInt v t" by (cases p) auto
      then obtain sb where sb: "GetOrCreateSumExpr H c b = Inr sb"
        and m: "res_bind (SumMulConst sb v) (NormalizeAndCache c) = Inr r"
        using rest nb by auto
      have "x = v" "is_i64 v" using ab a by (auto split: if_splits)
      then show ?thesis
        using scaled_ok [OF cn_given_simps(2,3) [OF g] GetOrCreate_ok [OF sb cn_given_simps(1,3) [OF g] ab(2,4)] _ m]
        by (simp add: mult.commute)
    next
      case None
      then obtain e where e: "MutateBinary H KMul l rr d a b = Inr e" "r = (e, c)" using rest nb by auto
      show ?thesis unfolding e(2)
        by (rule rebuilt_ok [OF g _ rebuilt_intros(1) [OF e(1)] assms(3-5)]) simp
    qed
  qed
qed


text \<open>Floor division and remainder: the operation on sums, then what is remembered of a kept node.\<close>

lemma cn_division_ok:
  assumes g: "cn_given H \<rho> c a x b y" and r: "cn_division H op remember k c l rr d a b = Inr r"
    and v: "bin_val k x y = Some v" and d: "\<not> IsFloat d" and lr: "wf_expr l" "wf_expr rr"
    and op: "\<And>sa s. op sa y = Inr (Some s) \<Longrightarrow> sum_ok \<rho> sa \<and> sum_value \<rho> sa = x \<Longrightarrow> 0 < y \<Longrightarrow>
      is_i64 y \<Longrightarrow> sum_ok \<rho> s \<and> sum_value \<rho> s = v"
    and kept: "0 < y \<Longrightarrow> is_i64 y \<Longrightarrow> split_ok \<rho> (remember a y) \<and> split_value \<rho> (remember a y) = v"
  shows "visited_ok \<rho> v r"
proof -
  have ab: "wf_expr a" "wf_expr b" "eval \<rho> a = Some x" "eval \<rho> b = Some y"
    using g by (auto simp: cn_given_def)
  have node: "visited_ok \<rho> v (e, c)" if "MutateBinary H k l rr d a b = Inr e" for e
    by (rule rebuilt_ok [OF g v rebuilt_intros(1) [OF that] d lr])
  show ?thesis
  proof (cases "FloorDivModOperandsFitDtype a b d")
    case False
    have "rebuilt H k l rr d a b (if same_ptr H a l \<and> same_ptr H b rr then Binary k l rr d else Binary k a b d)"
      by (simp add: rebuilt_intros)
    from rebuilt_ok [OF g v this d lr] show ?thesis using r False by (auto simp: cn_division_def)
  next
    case True
    then obtain folded where f: "TryConstFoldBinary H k a b d = Inr folded"
      and rest: "fold_or c folded
        (case as_int b of
           Some (v, _) \<Rightarrow>
             if v > 0 then
               res_bind (GetOrCreateSumExpr H c a) (\<lambda>sa. res_bind (op sa v) (\<lambda>result.
                 case result of
                   Some s \<Rightarrow> NormalizeAndCache c s
                 | None \<Rightarrow> res_bind (MutateBinary H k l rr d a b) (\<lambda>ret.
                     res_bind (GetScalarDtype ret) (\<lambda>rd.
                       Inr (ret, (ret, \<lparr>sm_base = 0, sm_args = [remember a v], sm_dtype = rd\<rparr>) # c)))))
             else res_bind (MutateBinary H k l rr d a b) (\<lambda>ret. Inr (ret, c))
         | None \<Rightarrow> res_bind (MutateBinary H k l rr d a b) (\<lambda>ret. Inr (ret, c))) = Inr r"
      using r unfolding cn_division_def by auto
    from fold_or_cases [OF rest] show ?thesis
    proof (elim disjE exE conjE)
      fix e assume "folded = Some e" and "r = (e, c)"
      then show ?thesis using folded_ok [OF g v _ d] f by simp
    next
      assume rest: "(case as_int b of
           Some (v, _) \<Rightarrow>
             if v > 0 then
               res_bind (GetOrCreateSumExpr H c a) (\<lambda>sa. res_bind (op sa v) (\<lambda>result.
                 case result of
                   Some s \<Rightarrow> NormalizeAndCache c s
                 | None \<Rightarrow> res_bind (MutateBinary H k l rr d a b) (\<lambda>ret.
                     res_bind (GetScalarDtype ret) (\<lambda>rd.
                       Inr (ret, (ret, \<lparr>sm_base = 0, sm_args = [remember a v], sm_dtype = rd\<rparr>) # c)))))
             else res_bind (MutateBinary H k l rr d a b) (\<lambda>ret. Inr (ret, c))
         | None \<Rightarrow> res_bind (MutateBinary H k l rr d a b) (\<lambda>ret. Inr (ret, c))) = Inr r"
      show ?thesis
      proof (cases "as_int b = None \<or> y \<le> 0")
        case True
        then obtain e where "MutateBinary H k l rr d a b = Inr e" and "r = (e, c)"
          using rest ab by (auto split: option.splits if_splits)
        then show ?thesis using node by simp
      next
        case False
        then obtain t where b: "b = ConstInt y t" and y: "0 < y" "is_i64 y"
          using ab by (cases "as_int b") (auto split: if_splits)
        then obtain sa m where sa: "GetOrCreateSumExpr H c a = Inr sa" and m: "op sa y = Inr m"
          and rest: "(case m of
                   Some s \<Rightarrow> NormalizeAndCache c s
                 | None \<Rightarrow> res_bind (MutateBinary H k l rr d a b) (\<lambda>ret.
                     res_bind (GetScalarDtype ret) (\<lambda>rd.
                       Inr (ret, (ret, \<lparr>sm_base = 0, sm_args = [remember a y], sm_dtype = rd\<rparr>) # c)))) = Inr r"
          using rest by auto
        have sv: "sum_ok \<rho> sa \<and> sum_value \<rho> sa = x"
          by (rule GetOrCreate_ok [OF sa cn_given_simps(1,3) [OF g] ab(1,3)])
        show ?thesis
        proof (cases m)
          case (Some s)
          then have "NormalizeAndCache c s = Inr r" and "sum_ok \<rho> s \<and> sum_value \<rho> s = v"
            using rest op m sv y by auto
          then show ?thesis
            using NormalizeAndCache_ok [OF _ cn_given_simps(2) [OF g] _ cn_given_simps(3) [OF g]] by blast
        next
          case None
          then obtain ret rd where ret: "MutateBinary H k l rr d a b = Inr ret" "GetScalarDtype ret = Inr rd"
            and r: "r = (ret, (ret, \<lparr>sm_base = 0, sm_args = [remember a y], sm_dtype = rd\<rparr>) # c)"
            using rest by auto
          have e: "wf_expr ret" "eval \<rho> ret = Some v" "cache_ok \<rho> c"
            using node [OF ret(1)] by (auto simp: visited_ok_def)
          have "sum_ok \<rho> \<lparr>sm_base = 0, sm_args = [remember a y], sm_dtype = rd\<rparr>"
            using kept y eval_dtype [OF e(2) ret(2)] is_i64_one by (simp add: sum_ok_def)
          moreover have "sum_value \<rho> \<lparr>sm_base = 0, sm_args = [remember a y], sm_dtype = rd\<rparr> = v"
            using kept y by (simp add: sum_value_def)
          ultimately show ?thesis using e by (simp add: r visited_ok_def cache_ok_def)
        qed
      qed
    qed
  qed
qed

lemma cn_floordiv_ok:
  assumes g: "cn_given H \<rho> c a x b y" and "cn_floordiv H c l rr d a b = Inr r" and "y \<noteq> 0"
    and "\<not> IsFloat d" and "wf_expr l" and "wf_expr rr"
  shows "visited_ok \<rho> (x div y) r"
proof (rule cn_division_ok [OF g assms(2) [unfolded cn_floordiv_def] _ assms(4-6)])
  fix sa s
  assume "TrySumFloorDiv sa y = Inr (Some s)" and "sum_ok \<rho> sa \<and> sum_value \<rho> sa = x" and "0 < y" and "is_i64 y"
  then show "sum_ok \<rho> s \<and> sum_value \<rho> s = x div y" using TrySumFloorDiv_value by blast
qed (use g assms(3) in \<open>auto simp: cn_given_def split_ok_def split_value_def kPosInf_pos is_i64_one\<close>)

lemma cn_floormod_ok:
  assumes g: "cn_given H \<rho> c a x b y" and "cn_floormod H c l rr d a b = Inr r" and "y \<noteq> 0"
    and "\<not> IsFloat d" and "wf_expr l" and "wf_expr rr" and "y \<noteq> kPosInf"
  shows "visited_ok \<rho> (x mod y) r"
proof (rule cn_division_ok [OF g assms(2) [unfolded cn_floormod_def] _ assms(4-6)])
  fix sa s
  assume "TrySumFloorMod sa y = Inr (Some s)" and "sum_ok \<rho> sa \<and> sum_value \<rho> sa = x" and "0 < y" and "is_i64 y"
  then show "sum_ok \<rho> s \<and> sum_value \<rho> s = x mod y" using TrySumFloorMod_value assms(7) by blast
qed (use g assms(3,7) in \<open>auto simp: cn_given_def split_ok_def split_value_def is_i64_one\<close>)

lemma cn_binary_ok:
  assumes g: "cn_given H \<rho> c a x b y" and r: "cn_binary H c k l rr d a b = Inr r"
    and v: "bin_val k x y = Some v" and d: "\<not> IsFloat d" and lr: "wf_expr l" "wf_expr rr"
    and "k = KFloorMod \<Longrightarrow> y \<noteq> kPosInf"
  shows "visited_ok \<rho> v r"
proof -
  have pass: "visited_ok \<rho> v r"
    if "res_bind (TryConstFoldBinaryLhs H k a b) (\<lambda>folded. fold_or c folded
        (res_bind (MutateBinary H k l rr d a b) (\<lambda>e. Inr (e, c)))) = Inr r"
  proof (rule fold_stage [OF g v that])
    assume "res_bind (MutateBinary H k l rr d a b) (\<lambda>e. Inr (e, c)) = Inr r"
    then show "visited_ok \<rho> v r" using rebuilt_ok [OF g v rebuilt_intros(1) d lr] by auto
  qed
  show ?thesis
  proof (cases "k \<in> {KAdd, KSub, KMul, KFloorDiv, KFloorMod}")
    case True
    then show ?thesis
      using r v cn_add_ok [OF g] cn_sub_ok [OF g] cn_mul_ok [OF g _ d lr] cn_floordiv_ok [OF g _ _ d lr]
        cn_floormod_ok [OF g _ _ d lr] assms(7)
      by (cases r) (auto simp: cn_binary_def split: if_splits)
  next
    case False
    then show ?thesis using r pass by (cases k) (simp_all add: cn_binary_def)
  qed
qed

lemma cn_unary_ok:
  assumes H: "ptr_ok H" "exact_casts \<rho>" "cache_ok \<rho> c" and a: "wf_expr a" "eval \<rho> a = Some x"
    and r: "cn_unary H c k z d a = Inr r" and v: "un_val \<rho> k d x = Some v" and d: "\<not> IsFloat d"
    and z: "wf_expr z"
  shows "visited_ok \<rho> v r"
proof -
  have cf: "casts_fit \<rho>" using H(2) by (simp add: casts_fit_id exact_casts_def)
  have fold: "visited_ok \<rho> v (e, c)" if "TryConstFoldUnary H k a = Some e" for e
    using TryConstFoldUnary_eval [OF that a(2) v] TryConstFoldUnary_wf [OF a(1) that] H(3)
    by (simp add: visited_ok_def)
  have node: "visited_ok \<rho> v (e, c)" if "MutateUnary H k z d a = Inr e" and "k \<noteq> KCast" for e
    using Mutate_value(2) [OF H(1,2) a(2) a(2) that(1) d that(2)] Mutate_wf(2) [OF that(1)] v z a(1) H(3)
    by (simp add: visited_ok_def)
  show ?thesis
  proof (cases "k = KCast \<or> k = KNeg")
    case False
    then have "fold_or c (TryConstFoldUnary H k a)
        (res_bind (MutateUnary H k z d a) (\<lambda>e. Inr (e, c))) = Inr r"
      using r by (cases k) (simp_all add: cn_unary_def)
    from fold_or_cases [OF this] show ?thesis using fold node False by auto
  next
    case True
    then show ?thesis
    proof (elim disjE)
      assume k: "k = KCast"
      have "fold_or c (TryConstFoldCast a d)
          (Inr (if same_ptr H a z then Unary k z d else MakeCast a d, c)) = Inr r"
        unfolding k by (rule r [unfolded cn_unary_def k unop.case])
      from fold_or_cases [OF this] show ?thesis
      proof (elim disjE exE conjE)
        fix e assume e: "TryConstFoldCast a d = Some e" "r = (e, c)"
        have "eval \<rho> e = Some v" using TryConstFoldCast_eval [OF e(1) a(1) cf a(2)] v d k by simp
        then show ?thesis using TryConstFoldCast_wf [OF a(1) e(1)] H(3) e(2) by (simp add: visited_ok_def)
      next
        assume "Inr (if same_ptr H a z then Unary k z d else MakeCast a d, c) = Inr r"
        then show ?thesis using a v d k H(3)
          by (auto simp: visited_ok_def MakeCast_def dest: ptr_okD [OF H(1)] split: if_splits)
      qed
    next
      assume k: "k = KNeg"
      then have "fold_or c (TryConstFoldUnary H KNeg a)
          (res_bind (GetOrCreateSumExpr H c a) (\<lambda>sa. res_bind (SumNegate sa) (\<lambda>s. NormalizeAndCache c s))) = Inr r"
        using r by (simp add: cn_unary_def cn_neg_def)
      from fold_or_cases [OF this] show ?thesis
      proof (elim disjE exE conjE)
        fix e assume "TryConstFoldUnary H KNeg a = Some e" and "r = (e, c)"
        then show ?thesis using fold k by simp
      next
        assume "res_bind (GetOrCreateSumExpr H c a)
            (\<lambda>sa. res_bind (SumNegate sa) (\<lambda>s. NormalizeAndCache c s)) = Inr r"
        then obtain sa s where s: "GetOrCreateSumExpr H c a = Inr sa" "SumNegate sa = Inr s"
          "NormalizeAndCache c s = Inr r" by auto
        have "sum_ok \<rho> s \<and> sum_value \<rho> s = v"
          using SumNegate_value [OF s(2) H(2)] GetOrCreate_ok [OF s(1) H(1,3) a] v k by simp
        then show ?thesis using NormalizeAndCache_ok [OF s(3) H(2) _ H(3)] by blast
      qed
    qed
  qed
qed

text \<open>
  The guarantee needs one premise: no divisor of a remainder has the value \<open>kPosInf\<close>, which an
  upper factor cannot express.
\<close>

primrec no_sentinel_mod :: "env \<Rightarrow> 'f expr \<Rightarrow> bool" where
  "no_sentinel_mod \<rho> (ConstInt v d) = True"
| "no_sentinel_mod \<rho> (ConstFloat v d) = True"
| "no_sentinel_mod \<rho> (ConstBool b) = True"
| "no_sentinel_mod \<rho> (Var i t) = True"
| "no_sentinel_mod \<rho> (IterArg i t) = True"
| "no_sentinel_mod \<rho> (Call f i t) = True"
| "no_sentinel_mod \<rho> (Opaque i t) = True"
| "no_sentinel_mod \<rho> (Binary k l r d) =
     (no_sentinel_mod \<rho> l \<and> no_sentinel_mod \<rho> r \<and> (k = KFloorMod \<longrightarrow> eval \<rho> r \<noteq> Some kPosInf))"
| "no_sentinel_mod \<rho> (Unary k a d) = no_sentinel_mod \<rho> a"

definition vars_describe :: "(nat \<Rightarrow> 'f expr option) \<Rightarrow> env \<Rightarrow> bool" where
  "vars_describe m \<rho> \<longleftrightarrow>
     (\<forall>i e. m i = Some e \<longrightarrow> wf_expr e \<and> (\<forall>v. vval \<rho> i = Some v \<longrightarrow> eval \<rho> e = Some v))"

lemma canon_typed_ok:
  assumes "visited_ok \<rho> v (e1, c)" and "PreserveIntegerResultType e e1 = Inr e'" and "exact_casts \<rho>"
  shows "visited_ok \<rho> v (e', c)"
  using assms PreserveIntegerResultType_value [OF assms(2,3)] PreserveIntegerResultType_wf [OF assms(2)]
  by (simp add: visited_ok_def)

lemma canon_visit_ok:
  "canon_visit H m c e = Inr r \<Longrightarrow> ptr_ok H \<Longrightarrow> exact_casts \<rho> \<Longrightarrow> vars_describe m \<rho> \<Longrightarrow> cache_ok \<rho> c \<Longrightarrow>
   wf_expr e \<Longrightarrow> no_sentinel_mod \<rho> e \<Longrightarrow> eval \<rho> e = Some v \<Longrightarrow> visited_ok \<rho> v r"
proof (induction H m c e arbitrary: r v rule: canon_visit.induct)
  case (1 H m c e)
  note ex = "1.prems"(3)
  have leaf: "visited_ok \<rho> v (e, c)" using "1.prems" by (simp add: visited_ok_def)
  show ?case
  proof (cases "float_ty (scalar_type e)")
    case True
    then show ?thesis using "1.prems"(1) leaf by (simp add: canon_visit.simps [of H m c e])
  next
    case nf: False
    show ?thesis
    proof (cases e)
      case (Binary k l r0 d)
      obtain a c1 b c2 e1 c3 where a: "canon_visit H m c l = Inr (a, c1)"
        and b: "canon_visit H m c1 r0 = Inr (b, c2)" and n: "cn_binary H c2 k l r0 d a b = Inr (e1, c3)"
        and p: "PreserveIntegerResultType e e1 = Inr (fst r)" and r: "snd r = c3"
        using "1.prems"(1) nf Binary unfolding canon_visit.simps [of H m c e] by auto
      obtain x y where xy: "eval \<rho> l = Some x" "eval \<rho> r0 = Some y" "bin_val k x y = Some v" "\<not> IsFloat d"
        using "1.prems"(8) unfolding Binary by (rule eval_BinaryE)
      have wf: "wf_expr l" "wf_expr r0" and ns: "no_sentinel_mod \<rho> l" "no_sentinel_mod \<rho> r0"
        using "1.prems"(6,7) by (simp_all add: Binary)
      have va: "visited_ok \<rho> x (a, c1)"
        using "1.IH"(1) [OF nf Binary a "1.prems"(2-5) wf(1) ns(1) xy(1)] .
      then have vb: "visited_ok \<rho> y (b, c2)"
        using "1.IH"(2) [OF nf Binary a refl b "1.prems"(2-4) _ wf(2) ns(2) xy(2)] by (simp add: visited_ok_def)
      have "cn_given H \<rho> c2 a x b y"
        using va vb "1.prems"(2,3) by (simp add: cn_given_def visited_ok_def)
      from cn_binary_ok [OF this n xy(3,4) wf] xy(2) "1.prems"(7) have "visited_ok \<rho> v (e1, c3)"
        by (simp add: Binary)
      from canon_typed_ok [OF this p ex] r show ?thesis by (cases r) simp
    next
      case (Unary k z d)
      obtain a c1 e1 c2 where a: "canon_visit H m c z = Inr (a, c1)"
        and n: "cn_unary H c1 k z d a = Inr (e1, c2)"
        and p: "PreserveIntegerResultType e e1 = Inr (fst r)" and r: "snd r = c2"
        using "1.prems"(1) nf Unary unfolding canon_visit.simps [of H m c e] by auto
      obtain x where x: "eval \<rho> z = Some x" "un_val \<rho> k d x = Some v" "\<not> IsFloat d"
        using "1.prems"(8) unfolding Unary by (rule eval_UnaryE)
      have wf: "wf_expr z" and ns: "no_sentinel_mod \<rho> z" using "1.prems"(6,7) by (simp_all add: Unary)
      have va: "visited_ok \<rho> x (a, c1)"
        using "1.IH"(3) [OF nf Unary a "1.prems"(2-5) wf ns x(1)] .
      then have "visited_ok \<rho> v (e1, c2)"
        using cn_unary_ok [OF "1.prems"(2,3) _ _ _ n x(2,3) wf] by (simp add: visited_ok_def)
      from canon_typed_ok [OF this p ex] r show ?thesis by (cases r) simp
    next
      case (Var i t)
      then obtain e1 where e1: "e1 = (case m i of Some e' \<Rightarrow> e' | None \<Rightarrow> e)"
        and p: "PreserveIntegerResultType e e1 = Inr (fst r)" and r: "snd r = c"
        using "1.prems"(1) nf unfolding canon_visit.simps [of H m c e] by auto
      have "visited_ok \<rho> v (e1, c)"
        using e1 leaf "1.prems"(4,8) Var
        by (auto simp: vars_describe_def visited_ok_def split: option.splits if_splits)
      from canon_typed_ok [OF this p ex] r show ?thesis by (cases r) simp
    next
      case (IterArg i t)
      then obtain e1 where e1: "e1 = (case m i of Some e' \<Rightarrow> e' | None \<Rightarrow> e)"
        and p: "PreserveIntegerResultType e e1 = Inr (fst r)" and r: "snd r = c"
        using "1.prems"(1) nf unfolding canon_visit.simps [of H m c e] by auto
      have "visited_ok \<rho> v (e1, c)"
        using e1 leaf "1.prems"(4,8) IterArg
        by (auto simp: vars_describe_def visited_ok_def split: option.splits if_splits)
      from canon_typed_ok [OF this p ex] r show ?thesis by (cases r) simp
    qed (use "1.prems"(1) [unfolded canon_visit.simps [of H m c e]] nf canon_typed_ok [OF leaf _ ex] in auto)
  qed
qed

lemma canonical_simplify_value:
  assumes "canonical_simplify H m e = Inr e'" and "ptr_ok H" and "exact_casts \<rho>" and "vars_describe m \<rho>"
    and "wf_expr e" and "no_sentinel_mod \<rho> e" and "eval \<rho> e = Some v"
  shows "wf_expr e' \<and> eval \<rho> e' = Some v"
proof -
  obtain c where "canon_visit H m [] e = Inr (e', c)"
    using assms(1) by (auto simp: canonical_simplify_def)
  from canon_visit_ok [OF this assms(2-4) _ assms(5-7)] show ?thesis
    by (simp add: visited_ok_def cache_ok_def)
qed

lemma canonical_simplify_type: "canonical_simplify H m e = Inr e' \<Longrightarrow> keeps_int_type e e'"
  by (auto simp: canonical_simplify_def canon_visit.simps [of H m "[]" e]
      dest: PreserveIntegerResultType_type split: if_splits)

section \<open>The normal form of a sum\<close>

text \<open>A pass that changes nothing has compared every live term with every later live one.\<close>

lemma merge_into_unchanged:
  "merge_into H a bs = (a', bs', False) \<Longrightarrow> \<forall>b\<in>set bs. scale b \<noteq> 0 \<longrightarrow> merge_pair H a b = None"
proof (induction H a bs arbitrary: a' bs' rule: merge_into.induct)
  case (2 H a b bs)
  have n: "scale b = 0 \<or> merge_pair H a b = None"
    using "2.prems" by (cases "scale b = 0") (auto split: option.splits prod.splits)
  obtain a1 bs1 c where m: "merge_into H a bs = (a1, bs1, c)" by (cases "merge_into H a bs") auto
  have "\<not> c" using "2.prems" n m by (auto split: if_splits)
  with n m 2(1) 2(2) show ?case by (cases "scale b = 0") auto
qed simp

lemma merge_pass_unchanged:
  "merge_pass H as = (as', False) \<Longrightarrow>
   as' = as \<and> sorted_wrt (\<lambda>a b. merge_pair H a b = None) (filter (\<lambda>a. scale a \<noteq> 0) as)"
proof (induction H as arbitrary: as' rule: merge_pass.induct)
  case (2 H a bs)
  show ?case
  proof (cases "scale a = 0")
    case True
    with 2 show ?thesis by (auto split: prod.splits)
  next
    case False
    obtain a' bs' c where m: "merge_into H a bs = (a', bs', c)" by (cases "merge_into H a bs") auto
    obtain bs'' c' where p: "merge_pass H bs' = (bs'', c')" by (cases "merge_pass H bs'") auto
    have c: "\<not> c" "\<not> c'" and as': "as' = a' # bs''" using "2.prems" False m p by auto
    with merge_into_live [OF m] have same: "a' = a" "bs' = bs" by auto
    have "bs'' = bs' \<and> sorted_wrt (\<lambda>a b. merge_pair H a b = None) (filter (\<lambda>a. scale a \<noteq> 0) bs')"
      using 2(2) [OF False m [symmetric] refl] p c by simp
    then show ?thesis using merge_into_unchanged [of H a bs] m c False same as' by auto
  qed
qed simp

lemma merge_loop_normal:
  "sorted_wrt (\<lambda>a b. merge_pair H a b = None) (filter (\<lambda>a. scale a \<noteq> 0) (merge_loop H as))"
proof (induction H as rule: merge_loop.induct)
  case (1 H as)
  obtain as' ch where p: "merge_pass H as = (as', ch)" by (cases "merge_pass H as") auto
  show ?case
  proof (cases ch)
    case True
    with 1 [OF p [symmetric]] p show ?thesis by (simp add: merge_loop.simps [of H as])
  next
    case False
    with p merge_pass_unchanged [of H as as'] show ?thesis by (simp add: merge_loop.simps [of H as])
  qed
qed

section \<open>The properties\<close>

text \<open>
  Claim C28. The canonical simplifier keeps the value and the well-formedness of every expression
  it is given, for the bindings of its variables that hold and equal occurrences having equal values, as long as
  no divisor of a remainder has the value \<open>kPosInf\<close>. Conversions may wrap: the value is kept when no
  conversion that the expression meets loses its operand's value; that of the result is its mathematical reading,
  and what it evaluates to when its own conversions lose nothing. No conversion is lost from the type: an integer
  result has the integer type of the expression.
\<close>

theorem canonical_simplify_sound:
  assumes "canonical_simplify H m e = Inr e'" and "ptr_ok H" and "vars_describe m (mathematical \<rho>)"
    and "wf_expr e" and "no_sentinel_mod (mathematical \<rho>) e" and "lossless \<rho> e" and "eval \<rho> e = Some v"
  shows "wf_expr e' \<and> eval (mathematical \<rho>) e' = Some v \<and> (lossless \<rho> e' \<longrightarrow> eval \<rho> e' = Some v) \<and>
    keeps_int_type e e'"
proof -
  have "eval (mathematical \<rho>) e = Some v" using assms(6,7) by (simp add: lossless_eval)
  then have "wf_expr e' \<and> eval (mathematical \<rho>) e' = Some v"
    using canonical_simplify_value [OF assms(1,2) _ assms(3-5)] by simp
  then show ?thesis using lossless_eval [of \<rho> e'] canonical_simplify_type [OF assms(1)] by auto
qed

text \<open>
  Claim C29. Merging computes a normal form: whatever the terms, no term of the result has the
  scale 0 and no two terms of it can be merged, neither as like terms nor as a complementary
  division and remainder.
\<close>

theorem MergeTerms_normal_form:
  "sorted_wrt (\<lambda>a b. merge_pair H a b = None) (MergeTerms H as) \<and>
   list_all (\<lambda>a. scale a \<noteq> 0) (MergeTerms H as)"
  using merge_loop_normal by (simp add: MergeTerms_def list_all_iff)

section \<open>The theorems at work\<close>

lemmas canonical_compute =
  canonical_simplify_def canon_visit.simps cn_binary_def cn_add_def cn_floordiv_def cn_floormod_def cn_mul_def
  cn_division_def fold_or_def GetOrCreateSumExpr_def NormalizeAndCache_def Normalize_def Normalize_split_def
  SumAdd_def SumMulConst_def scale_split_def TrySumFloorDiv_def TrySumFloorMod_def MergeTerms_def merge_loop.simps
  merge_pair_def TryMergeSameFactors_def TryMergeDivModPair_def try_merge_def simple_split_def
  TryConstFoldBinaryLhs_def TryConstFoldBinary_def operands_def FloorDivModOperandsFitDtype_def
  literal_fits_def MutateBinary_def PreserveIntegerResultType_def integer_dtype_def

text \<open>\<open>floordiv(x, 4) * 4 + floormod(x, 4)\<close> is \<open>x\<close>.\<close>

definition split_index :: "int expr" where
  "split_index = ibin KAdd (ibin KMul (ibin KFloorDiv (ivar 0) (ilit 4)) (ilit 4)) (ibin KFloorMod (ivar 0) (ilit 4))"

lemma split_index_joined: "canonical_simplify int_host (\<lambda>_. None) split_index = Inr (ivar 0)"
  by code_simp

text \<open>A conversion to 8 bits of what it is joined to, in an environment whose conversions wrap.\<close>

definition narrowed_split :: "int expr" where
  "narrowed_split = Unary KCast split_index INT8"

lemma narrowed_split_joined: "canonical_simplify int_host (\<lambda>_. None) narrowed_split = Inr (Unary KCast (ivar 0) INT8)"
  by code_simp

lemma canonical_simplify_sound_witness:
  "eval (env_of [0 \<mapsto> - 7] cast_wrap) (Unary KCast (ivar 0) INT8) = Some (- 7)"
  using canonical_simplify_sound [OF narrowed_split_joined int_host_ok, of "env_of [0 \<mapsto> - 7] cast_wrap" "- 7"]
  by (simp add: vars_describe_def narrowed_split_def split_index_def int_instance_defs is_i64_alt kPosInf_pos
      cast_wrap_def cast_id_def inf_defs limits_defs)

text \<open>
  The premise of the guarantee is needed: the remainder by the largest 64-bit integer is
  taken for "no remainder" as soon as it is part of a sum, because \<open>kPosInf\<close> marks an absent upper
  factor; for \<open>x = -1\<close> the sum has the value \<open>INT64_MAX\<close> and its simplified form the value 0.
\<close>

lemma floormod_sentinel_lost:
  "let e = ibin KAdd (ibin KFloorMod (ivar 0) (ilit kPosInf)) (ilit 1);
       e' = ibin KAdd (ivar 0) (ilit 1);
       \<rho> = env_of [0 \<mapsto> - 1] cast_id in
   canonical_simplify int_host (\<lambda>_. None) e = Inr e' \<and>
   eval \<rho> e = Some kPosInf \<and> eval \<rho> e' = Some 0"
  unfolding Let_def by (intro conjI) (code_simp, simp_all add: int_instance_defs inf_defs limits_defs)

end
