(* ===== verification/Query_Order.thy ===== *)
theory Query_Order
  imports Rewrite_Simplify Int_Set
begin

text \<open>
  The rewriter asks the interval analysis, and the symbolic intervals ask their parent, in the
  middle of a computation (\<^verbatim>\<open>src/ir/arith/analyzer.cpp\<close> connects them). Here the computations are
  compared over two sets of queries, one of which may fail where the other answers: whatever the
  computation returns with the former it returns with the latter (\<open>res_le\<close>). This lets a theorem
  assume that every query asked along the way meets the precondition of its answer, by giving the
  computation queries that fail otherwise.

  The facts that descend through a definition are in the collection \<open>res_mono\<close>.
\<close>

named_theorems res_mono "descending through a definition with res_le"

section \<open>The order on results\<close>

definition res_le :: "'a res \<Rightarrow> 'a res \<Rightarrow> bool" where
  "res_le m m' \<longleftrightarrow> (\<forall>x. m = Inr x \<longrightarrow> m' = Inr x)"

lemma res_leD: "res_le m m' \<Longrightarrow> m = Inr x \<Longrightarrow> m' = Inr x"
  by (simp add: res_le_def)

lemma res_le_refl [simp, res_mono]: "res_le m m"
  by (simp add: res_le_def)

lemma res_le_Inl [simp]: "res_le (Inl e) m"
  by (simp add: res_le_def)

lemma res_le_bind [res_mono]:
  assumes "res_le m m'" and "\<And>x. m = Inr x \<Longrightarrow> res_le (f x) (f' x)"
  shows "res_le (res_bind m f) (res_bind m' f')"
  using assms by (auto simp: res_le_def)

lemma res_le_if [res_mono]:
  "(b \<Longrightarrow> res_le x x') \<Longrightarrow> (\<not> b \<Longrightarrow> res_le y y') \<Longrightarrow> res_le (if b then x else y) (if b then x' else y')"
  by simp

lemma res_le_option [res_mono]:
  "(o' = None \<Longrightarrow> res_le x x') \<Longrightarrow> (\<And>y. o' = Some y \<Longrightarrow> res_le (f y) (f' y)) \<Longrightarrow>
   res_le (case o' of None \<Rightarrow> x | Some y \<Rightarrow> f y) (case o' of None \<Rightarrow> x' | Some y \<Rightarrow> f' y)"
  by (cases o') simp_all

lemma res_le_prod [res_mono]:
  "(\<And>a b. p = (a, b) \<Longrightarrow> res_le (f a b) (f' a b)) \<Longrightarrow>
   res_le (case p of (a, b) \<Rightarrow> f a b) (case p of (a, b) \<Rightarrow> f' a b)"
  by (cases p) simp

section \<open>The rewriter\<close>

definition prover_le :: "'f prover \<Rightarrow> 'f prover \<Rightarrow> bool" where
  "prover_le P P' \<longleftrightarrow> (\<forall>e c. res_le (P e c) (P' e c))"

definition guard_le :: "'f guard \<Rightarrow> 'f guard \<Rightarrow> bool" where
  "guard_le g g' \<longleftrightarrow> (\<forall>b. res_le (g b) (g' b))"

lemma guard_le_refl [simp]: "guard_le g g"
  by (simp add: guard_le_def)

lemma prove_mono [res_mono]:
  assumes "prover_le P P'"
  shows "res_le (CanProveGE P e v) (CanProveGE P' e v)" "res_le (CanProveLess P e v) (CanProveLess P' e v)"
    "res_le (CanProveLE P e v) (CanProveLE P' e v)"
  using assms by (auto simp: CanProveGE_def CanProveLess_def CanProveLE_def prover_le_def intro!: res_mono)

lemma guards_mono:
  assumes "prover_le P P'"
  shows "guard_le (nonzero P i) (nonzero P' i)" "guard_le (in_range P) (in_range P')"
    "guard_le (nonzero_modulus P) (nonzero_modulus P')"
    "guard_le (proves P CanProveGE i v) (proves P' CanProveGE i v)"
    "guard_le (difference P CanProveGE) (difference P' CanProveGE)"
    "guard_le (difference P CanProveLE) (difference P' CanProveLE)"
  using assms
  by (auto simp: guard_le_def nonzero_def in_range_def nonzero_modulus_def proves_def difference_def
      res_or_def res_and_def intro!: res_mono)

fun branch_le :: "'f guard \<times> 'f pat \<times> bool \<Rightarrow> 'f guard \<times> 'f pat \<times> bool \<Rightarrow> bool" where
  "branch_le (g, p, again) (g', p', again') \<longleftrightarrow> guard_le g g' \<and> p = p' \<and> again = again'"

fun rule_le :: "'f rule \<Rightarrow> 'f rule \<Rightarrow> bool" where
  "rule_le (Rule srcs brs) (Rule srcs' brs') \<longleftrightarrow> srcs = srcs' \<and> list_all2 branch_le brs brs'"

lemma rule_le_refl [simp]: "rule_le r r"
proof (cases r)
  case (Rule srcs brs)
  have "list_all2 branch_le brs brs" by (rule list_all2_refl) (simp add: split_paired_all)
  then show ?thesis by (simp add: Rule)
qed

lemma rules_le_refl [simp]: "list_all2 rule_le rs rs"
  by (rule list_all2_refl) simp

lemma first_branch_mono: "list_all2 branch_le brs brs' \<Longrightarrow> res_le (first_branch brs b) (first_branch brs' b)"
proof (induction brs brs' rule: list_all2_induct)
  case (Cons x xs y ys)
  then show ?case by (cases x; cases y) (auto simp: guard_le_def intro!: res_mono)
qed simp

lemma try_rules_mono: "list_all2 rule_le rs rs' \<Longrightarrow> res_le (try_rules H S rs e) (try_rules H S rs' e)"
proof (induction rs rs' rule: list_all2_induct)
  case (Cons x xs y ys)
  then show ?case by (cases x; cases y) (auto intro!: res_mono first_branch_mono)
qed simp

lemma rule_lists_mono:
  assumes "prover_le P P'"
  shows "list_all2 rule_le (floordiv_rules P d) (floordiv_rules P' d)"
    "list_all2 rule_le (floormod_rules P d) (floormod_rules P' d)"
    "list_all2 rule_le (min_rules P) (min_rules P')" "list_all2 rule_le (max_rules P) (max_rules P')"
  using guards_mono [OF assms]
  by (simp_all add: floordiv_rules_def floormod_rules_def min_rules_def max_rules_def
      TRY_REWRITE_def TRY_REWRITE_IF_def)

lemma rw_parts_mono:
  assumes "\<And>d. list_all2 rule_le (rules d) (rules' d)"
  shows "res_le (rw_arith H S rules k l r d a b) (rw_arith H S rules' k l r d a b)"
    "res_le (rw_division H S rules k l r d a b) (rw_division H S rules' k l r d a b)"
  using assms
  by (auto simp: rw_arith_def rw_division_def rw_fold_or_def rw_try_def intro!: res_mono try_rules_mono)

lemma rw_binary_mono:
  assumes "prover_le P P'"
  shows "res_le (rw_binary H S P k l r d a b) (rw_binary H S P' k l r d a b)"
  by (cases k) (simp_all add: rw_binary_def rw_parts_mono rule_lists_mono [OF assms])

definition oracle_le :: "('f expr \<Rightarrow> ConstIntBound res) option \<Rightarrow> ('f expr \<Rightarrow> ConstIntBound res) option \<Rightarrow> bool" where
  "oracle_le p p' \<longleftrightarrow> (case (p, p') of
     (Some f, Some f') \<Rightarrow> \<forall>e. res_le (f e) (f' e) | (None, None) \<Rightarrow> True | _ \<Rightarrow> False)"

lemma rw_TryCompare_mono: "oracle_le p p' \<Longrightarrow> prover_le (rw_TryCompare p) (rw_TryCompare p')"
  by (auto simp: oracle_le_def prover_le_def rw_TryCompare_def intro!: res_mono split: option.splits)

lemma rw_visit_mono:
  assumes "oracle_le p p'"
  shows "rw_parent st = p \<Longrightarrow> res_le (rw_visit H S st depth e) (rw_visit H S (st\<lparr>rw_parent := p'\<rparr>) depth e)"
proof (induction H S st depth e rule: rw_visit.induct)
  case (1 H S st depth e)
  note bin = rw_binary_mono [OF rw_TryCompare_mono [OF assms]]
  show ?case
  proof (cases "skips_float e")
    case True
    then show ?thesis by (simp add: rw_visit.simps)
  next
    case False
    show ?thesis
    proof (cases e)
      case (Binary k l r d)
      show ?thesis
        unfolding Binary rw_visit.simps [of H S _ depth "Binary k l r d"] expr.case
        using False 1 Binary bin by (auto intro!: res_mono)
    next
      case (Unary k x d)
      show ?thesis
        unfolding Unary rw_visit.simps [of H S _ depth "Unary k x d"] expr.case
        using False 1 Unary by (auto intro!: res_mono)
    qed (simp_all add: rw_visit.simps)
  qed
qed

lemma rw_simplify_mono:
  assumes "oracle_le (rw_parent st) (rw_parent st')" and "rw_vars st' = rw_vars st" and "rw_literals st' = rw_literals st"
  shows "res_le (rw_simplify H S st e) (rw_simplify H S st' e)"
proof -
  have "st' = st\<lparr>rw_parent := rw_parent st'\<rparr>" using assms(2,3) by simp
  then show ?thesis using rw_visit_mono [OF assms(1) refl, of H S 0 e] by (metis rw_simplify_def)
qed

section \<open>Symbolic intervals\<close>

definition parent_le :: "'f parent option \<Rightarrow> 'f parent option \<Rightarrow> bool" where
  "parent_le P P' \<longleftrightarrow> (case (P, P') of
     (Some p, Some p') \<Rightarrow> (\<forall>e. res_le (p_simplify p e) (p_simplify p' e)) \<and>
       (\<forall>c. res_le (p_can_prove p c) (p_can_prove p' c)) \<and>
       (\<forall>e n. res_le (p_prove_ge p e n) (p_prove_ge p' e n) \<and> res_le (p_prove_lt p e n) (p_prove_lt p' e n))
   | (None, None) \<Rightarrow> True
   | _ \<Rightarrow> False)"

lemma parent_le_cases:
  assumes "parent_le P P'"
  obtains "P = None" "P' = None"
  | p p' where "P = Some p" "P' = Some p'" "\<And>e. res_le (p_simplify p e) (p_simplify p' e)"
      "\<And>c. res_le (p_can_prove p c) (p_can_prove p' c)"
      "\<And>e n. res_le (p_prove_ge p e n) (p_prove_ge p' e n)"
      "\<And>e n. res_le (p_prove_lt p e n) (p_prove_lt p' e n)"
  using assms by (auto simp: parent_le_def split: option.splits)

lemma parent_queries_mono:
  assumes "parent_le P P'"
  shows "res_le (MaybeSimplify P e) (MaybeSimplify P' e)"
    "res_le (IsNonNeg P o') (IsNonNeg P' o')" "res_le (IsNeg P o') (IsNeg P' o')"
    "res_le (sym_make P k a b) (sym_make P' k a b)"
    "res_le (sym_choose P first second k a b) (sym_choose P' first second k a b)"
  using assms
  by (auto elim!: parent_le_cases simp: MaybeSimplify_def IsNonNeg_def IsNeg_def sym_make_def sym_choose_def
      intro!: res_mono)

lemma sym_mono [res_mono]:
  assumes "parent_le P P'"
  shows "res_le (sym_op P k x y) (sym_op P' k x y)" "res_le (SymNeg P x) (SymNeg P' x)"
    "res_le (SymMinLower P x y) (SymMinLower P' x y)" "res_le (SymMinUpper P x y) (SymMinUpper P' x y)"
    "res_le (SymMaxLower P x y) (SymMaxLower P' x y)" "res_le (SymMaxUpper P x y) (SymMaxUpper P' x y)"
  using parent_queries_mono [OF assms]
  by (auto simp: sym_op_def SymNeg_def SymMinLower_def SymMinUpper_def SymMaxLower_def SymMaxUpper_def
      intro!: res_mono split: option.splits)

lemma interval_of_mono [res_mono]:
  "res_le l l' \<Longrightarrow> res_le h h' \<Longrightarrow> res_le (interval_of l h) (interval_of l' h')"
  by (auto simp: interval_of_def intro!: res_mono)

lemmas sym_ops = SymAdd_def SymSub_def SymMul_def SymFloorDiv_def

lemma combine_mono:
  assumes "parent_le P P'"
  shows "res_le (CombineAdd P a b) (CombineAdd P' a b)" "res_le (CombineSub P a b) (CombineSub P' a b)"
    "res_le (CombineMin P a b) (CombineMin P' a b)" "res_le (CombineMax P a b) (CombineMax P' a b)"
    "res_le (CombineFloorDiv H P a b) (CombineFloorDiv H P' a b)"
    "res_le (combine_mul_right H P a b) (combine_mul_right H P' a b)"
    "res_le (CombineMul H P a b) (CombineMul H P' a b)"
  using assms parent_queries_mono [OF assms]
  by (auto simp: CombineAdd_def CombineSub_def CombineMin_def CombineMax_def CombineFloorDiv_def
      combine_mul_right_def CombineMul_def sym_ops intro!: res_mono)

lemma set_nodes_mono:
  assumes "parent_le P P'" and "res_le ra ra'" and "res_le rb rb'"
  shows "res_le (set_binary H P k l r d ra rb) (set_binary H P' k l r d ra' rb')"
    "res_le (set_unary P u a d ra) (set_unary P' u a d ra')"
proof -
  show "res_le (set_binary H P k l r d ra rb) (set_binary H P' k l r d ra' rb')"
    using assms combine_mono [OF assms(1)]
    by (cases k) (auto simp: set_binary_def set_floor_div_def set_floor_mod_def intro!: res_mono)
  show "res_le (set_unary P u a d ra) (set_unary P' u a d ra')"
    using assms by (cases u) (auto simp: set_unary_def set_cast_def intro!: res_mono)
qed

lemma int_set_visit_mono:
  "parent_le P P' \<Longrightarrow> res_le (int_set_visit H P m e) (int_set_visit H P' m e)"
  by (induction e) (auto intro: set_nodes_mono)

definition parents_le :: "'f parent_of \<Rightarrow> 'f parent_of \<Rightarrow> bool" where
  "parents_le Q Q' \<longleftrightarrow> (\<forall>m. parent_le (Q m) (Q' m))"

lemma parents_leD: "parents_le Q Q' \<Longrightarrow> parent_le (Q m) (Q' m)"
  by (simp add: parents_le_def)

lemma set_tighten_mono:
  assumes "parents_le Q Q'"
  shows "res_le (set_tighten Q i t n s) (set_tighten Q' i t n s)"
  using parents_leD [OF assms] by (cases s) (auto simp: set_tighten_def Let_def intro!: res_mono)

lemma constraint_set_mono:
  assumes "parent_le P P'"
  shows "res_le (constraint_set P k b) (constraint_set P' k b)"
  using parent_queries_mono(1) [OF assms]
  by (cases k) (auto simp: constraint_set_def set_strict_bound_def intro!: res_mono)

lemma tighten_side_mono:
  assumes "parents_le Q Q'"
  shows "res_le (tighten_side Q k v b s) (tighten_side Q' k v b s)"
  using constraint_set_mono [OF parents_leD [OF assms]] set_tighten_mono [OF assms, of _ _ _ s]
  by (cases v) (auto simp: tighten_side_def intro!: res_mono)

lemma set_parse_mono:
  assumes "parents_le Q Q'"
  shows "res_le (set_parse Q c s) (set_parse Q' c s)"
  using tighten_side_mono [OF assms] by (induction Q c s rule: set_parse.induct) (auto intro!: res_mono)

lemma int_set_enter_mono:
  "parents_le Q Q' \<Longrightarrow> res_le (int_set_enter Q m c) (int_set_enter Q' m c)"
  unfolding int_set_enter_def by (rule set_parse_mono)

lemma int_set_bind_mono:
  "parent_le P P' \<Longrightarrow> res_le (int_set_bind H P i lo hi m) (int_set_bind H P' i lo hi m)"
  using parent_queries_mono(1) by (auto simp: int_set_bind_def intro!: res_mono)

end
