(* ===== verification/Analyzer.thy ===== *)
theory Analyzer
  imports Query_Order Canonical_Simplify Transitive_Scopes Modular_Set
begin

text \<open>
  The facade of the arithmetic module, \<^verbatim>\<open>src/ir/arith/analyzer.cpp\<close>: one state over all the
  analyses, the proofs of comparisons that combine them (\<open>CanProve\<close>), the binding of variables,
  and the scope of a constraint (\<open>ConstraintContext\<close>).

  What the facade calls of its parts is the record \<open>engine\<close>; \<open>code_engine\<close> is the one of the code.
  \<open>in_int_set_eval_\<close> is false at every call from outside and true inside the symbolic fallback, so
  there are two versions of the proof procedure, the inner one without the fallback. A
  conjunction is proved by proving both sides of the simplified conjunction: a recursion that
  need not end, hence a partial function; a call that does not return is the error \<open>Diverges\<close>.
  After an exception the code keeps what it has updated so far; the model has no state then.
\<close>

section \<open>State and queries\<close>

record 'f analyzer =
  a_bounds :: bound_map
  a_moduli :: entry_map
  a_rewriter :: "'f rewriter"
  a_order :: "'f tc_state"
  a_sets :: "'f set_map"

record 'f engine =
  e_host :: "'f host"
  e_bound :: "bound_map \<Rightarrow> 'f expr \<Rightarrow> ConstIntBound res"
  e_rewrite :: "bound_map \<Rightarrow> 'f rewriter \<Rightarrow> 'f expr \<Rightarrow> 'f expr res"
  e_canon :: "'f expr \<Rightarrow> 'f expr res"
  e_compare :: "'f tc_state \<Rightarrow> 'f expr \<Rightarrow> 'f expr \<Rightarrow> CompareResult res option"

text \<open>\<open>pick\<close> is the order of the hash set in the transitive search.\<close>

definition code_engine :: "'f host \<Rightarrow> 'f projection \<Rightarrow> (nat list \<Rightarrow> nat) \<Rightarrow> 'f engine" where
  "code_engine H S pick = \<lparr>e_host = H, e_bound = cib_visit H,
     e_rewrite = (\<lambda>m st e. rw_simplify H S (st\<lparr>rw_parent := Some (cib_visit H m)\<rparr>) e),
     e_canon = canonical_simplify H (\<lambda>_. None),
     e_compare = (\<lambda>st a b. TryCompare H pick st a b True)\<rparr>"

definition bound_of :: "'f engine \<Rightarrow> 'f analyzer \<Rightarrow> 'f expr \<Rightarrow> ConstIntBound res" where
  "bound_of E A e = e_bound E (a_bounds A) e"

definition rewrite :: "'f engine \<Rightarrow> 'f analyzer \<Rightarrow> 'f expr \<Rightarrow> 'f expr res" where
  "rewrite E A e = e_rewrite E (a_bounds A) (a_rewriter A) e"

primrec simplify_steps :: "'f engine \<Rightarrow> 'f analyzer \<Rightarrow> nat \<Rightarrow> 'f expr \<Rightarrow> 'f expr res" where
  "simplify_steps E A 0 result = Inr result"
| "simplify_steps E A (Suc i) result = res_bind (rewrite E A result) (simplify_steps E A i)"

definition Simplify_steps :: "'f engine \<Rightarrow> 'f analyzer \<Rightarrow> 'f expr \<Rightarrow> int \<Rightarrow> 'f expr res" where
  "Simplify_steps E A e steps =
     res_bind (check ValueError (steps \<ge> 0)) (\<lambda>_. simplify_steps E A (nat steps) e)"

text \<open>The default of \<open>steps\<close> is 2.\<close>

definition Simplify :: "'f engine \<Rightarrow> 'f analyzer \<Rightarrow> 'f expr \<Rightarrow> 'f expr res" where
  "Simplify E A e = Simplify_steps E A e 2"

definition simplified_bound :: "'f engine \<Rightarrow> 'f analyzer \<Rightarrow> 'f expr \<Rightarrow> ConstIntBound res" where
  "simplified_bound E A e = res_bind (Simplify E A e) (bound_of E A)"

definition CanProveGreaterEqual :: "'f engine \<Rightarrow> 'f analyzer \<Rightarrow> 'f expr \<Rightarrow> int \<Rightarrow> bool res" where
  "CanProveGreaterEqual E A e lower_bound =
     res_bind (simplified_bound E A e) (\<lambda>bound. Inr (min_value bound \<ge> lower_bound))"

definition CanProveBelow :: "'f engine \<Rightarrow> 'f analyzer \<Rightarrow> 'f expr \<Rightarrow> int \<Rightarrow> bool res" where
  "CanProveBelow E A e upper_bound =
     res_bind (simplified_bound E A e) (\<lambda>bound. Inr (max_value bound < upper_bound))"

definition CanProveEqual :: "'f engine \<Rightarrow> 'f analyzer \<Rightarrow> 'f expr \<Rightarrow> 'f expr \<Rightarrow> bool res" where
  "CanProveEqual E A l r =
     (if same_ptr (e_host E) l r then Inr True
      else res_bind (MakeBinary KSub l r) (\<lambda>diff.
        res_bind (simplified_bound E A diff) (\<lambda>bound. Inr (is_const_value bound 0))))"

section \<open>Proving conditions\<close>

definition returned :: "'a res option \<Rightarrow> 'a res" where
  "returned m = (case m of Some r \<Rightarrow> r | None \<Rightarrow> Inl Diverges)"

definition compare_implies ::
  "'f engine \<Rightarrow> 'f analyzer \<Rightarrow> 'f expr \<Rightarrow> 'f expr \<Rightarrow> CompareResult \<Rightarrow> bool res" where
  "compare_implies E A l r required =
     res_bind (returned (e_compare E (a_order A) l r)) (\<lambda>result. Inr (ResultImplies result required))"

text \<open>\<open>TrySymbolicFallback\<close> gets the operands and the flags \<open>check_upper\<close> and \<open>strict\<close>.\<close>

type_synonym 'f fallback = "'f expr \<Rightarrow> 'f expr \<Rightarrow> bool \<Rightarrow> bool \<Rightarrow> bool res"

definition no_fallback :: "'f fallback" where
  "no_fallback l r check_upper strict = Inr False"

definition prove_ordered ::
  "'f engine \<Rightarrow> 'f analyzer \<Rightarrow> 'f fallback \<Rightarrow> (ConstIntBound \<Rightarrow> bool) \<Rightarrow> CompareResult \<Rightarrow> bool \<Rightarrow> bool \<Rightarrow>
    'f expr \<Rightarrow> 'f expr \<Rightarrow> bool res" where
  "prove_ordered E A fallback test required check_upper strict l r =
     res_bind (MakeBinary KSub l r) (\<lambda>diff.
     res_bind (simplified_bound E A diff) (\<lambda>bound.
       if test bound then Inr True
       else res_bind (compare_implies E A l r required) (\<lambda>implied.
         if implied then Inr True else fallback l r check_upper strict)))"

definition prove_comparison ::
  "'f engine \<Rightarrow> 'f analyzer \<Rightarrow> 'f fallback \<Rightarrow> binop \<Rightarrow> 'f expr \<Rightarrow> 'f expr \<Rightarrow> bool res" where
  "prove_comparison E A fallback k l r =
     (case k of
        KLt \<Rightarrow> prove_ordered E A fallback (\<lambda>b. max_value b < 0) kLT True True l r
      | KLe \<Rightarrow> prove_ordered E A fallback (\<lambda>b. max_value b \<le> 0) kLE True False l r
      | KGt \<Rightarrow> prove_ordered E A fallback (\<lambda>b. min_value b > 0) kGT False True l r
      | KGe \<Rightarrow> prove_ordered E A fallback (\<lambda>b. min_value b \<ge> 0) kGE False False l r
      | KEq \<Rightarrow> prove_ordered E A no_fallback (\<lambda>b. is_const_value b 0) kEQ False False l r
      | KNe \<Rightarrow> prove_ordered E A no_fallback (\<lambda>b. min_value b > 0 \<or> max_value b < 0) kNE False False l r
      | _ \<Rightarrow> Inr False)"

partial_function (option) can_prove ::
  "'f engine \<Rightarrow> 'f analyzer \<Rightarrow> 'f fallback \<Rightarrow> 'f expr \<Rightarrow> bool res option" where
  "can_prove E A fallback cond =
     (case Simplify E A cond of
        Inl err \<Rightarrow> Some (Inl err)
      | Inr (ConstBool b) \<Rightarrow> Some (Inr b)
      | Inr (ConstInt v d) \<Rightarrow> Some (Inr (v \<noteq> 0))
      | Inr (Binary k l r d) \<Rightarrow>
          if float_ty (scalar_type l) \<or> float_ty (scalar_type r) then Some (Inr False)
          else if k = KAnd then
            Option.bind (can_prove E A fallback l) (\<lambda>proved.
              if proved = Inr True then can_prove E A fallback r else Some proved)
          else Some (prove_comparison E A fallback k l r)
      | Inr _ \<Rightarrow> Some (Inr False))"

declare can_prove.simps [code]

text \<open>The inner version and the parent that the symbolic intervals ask while the flag is set.\<close>

definition parent_with :: "'f engine \<Rightarrow> 'f fallback \<Rightarrow> 'f analyzer \<Rightarrow> 'f parent" where
  "parent_with E fallback A = \<lparr>p_simplify = Simplify E A,
     p_can_prove = (\<lambda>c. returned (can_prove E A fallback c)),
     p_prove_ge = CanProveGreaterEqual E A, p_prove_lt = CanProveBelow E A\<rparr>"

definition eval_set :: "'f engine \<Rightarrow> 'f fallback \<Rightarrow> 'f analyzer \<Rightarrow> 'f expr \<Rightarrow> 'f IntSet res" where
  "eval_set E fallback A e = int_set_visit (e_host E) (Some (parent_with E fallback A)) (a_sets A) e"

definition DeepSimplify :: "'f engine \<Rightarrow> 'f analyzer \<Rightarrow> 'f expr \<Rightarrow> 'f expr res" where
  "DeepSimplify E A e = res_bind (Simplify E A e) (e_canon E)"

text \<open>The bound of \<open>l - r\<close>, where one of the two may be unbounded, satisfies the test.\<close>

definition difference_satisfies ::
  "'f engine \<Rightarrow> 'f analyzer \<Rightarrow> (ConstIntBound \<Rightarrow> bool) \<Rightarrow> 'f expr option \<Rightarrow> 'f expr option \<Rightarrow> bool res" where
  "difference_satisfies E A test l r =
     (case (l, r) of
        (Some a, Some b) \<Rightarrow>
          res_bind (MakeBinary KSub a b) (\<lambda>diff.
          res_bind (DeepSimplify E A diff) (\<lambda>e.
          res_bind (bound_of E A e) (\<lambda>bound. Inr (test bound))))
      | _ \<Rightarrow> Inr False)"

definition TrySymbolicFallback :: "'f engine \<Rightarrow> 'f analyzer \<Rightarrow> 'f fallback" where
  "TrySymbolicFallback E A l r check_upper strict =
     res_bind (eval_set E no_fallback A l) (\<lambda>lhs_set.
     res_bind (eval_set E no_fallback A r) (\<lambda>rhs_set.
       if check_upper then
         let test = (\<lambda>b. if strict then max_value b < 0 else max_value b \<le> 0) in
         res_bind (difference_satisfies E A test (set_max lhs_set) (Some r)) (\<lambda>first.
           if first then Inr True else difference_satisfies E A test (Some l) (set_min rhs_set))
       else
         let test = (\<lambda>b. if strict then min_value b > 0 else min_value b \<ge> 0) in
         res_bind (difference_satisfies E A test (set_min lhs_set) (Some r)) (\<lambda>first.
           if first then Inr True else difference_satisfies E A test (Some l) (set_max rhs_set))))"

definition CanProve :: "'f engine \<Rightarrow> 'f analyzer \<Rightarrow> 'f expr \<Rightarrow> bool res" where
  "CanProve E A cond = returned (can_prove E A (TrySymbolicFallback E A) cond)"

text \<open>The parent that the symbolic intervals ask from outside; it sees their current map.\<close>

definition set_parent :: "'f engine \<Rightarrow> 'f analyzer \<Rightarrow> 'f parent_of" where
  "set_parent E A = (\<lambda>m. Some (parent_with E (TrySymbolicFallback E (A\<lparr>a_sets := m\<rparr>)) (A\<lparr>a_sets := m\<rparr>)))"

section \<open>Binding variables\<close>

definition Bind :: "'f engine \<Rightarrow> nat \<Rightarrow> DataType option \<Rightarrow> 'f expr \<Rightarrow> 'f analyzer \<Rightarrow> 'f analyzer res" where
  "Bind E i t e A =
     res_bind (rewrite E A e) (\<lambda>simplified.
     res_bind (GetScalarDtype (Var i t :: 'f expr)) (\<lambda>d.
       if d = BOOL then Inr (A\<lparr>a_rewriter := rw_update i (Some simplified) (a_rewriter A)\<rparr>)
       else
         res_bind (bound_of E A simplified) (\<lambda>b.
         res_bind (cib_update i b (a_bounds A)) (\<lambda>bounds.
         res_bind (ms_visit (a_moduli A) simplified) (\<lambda>x.
         res_bind (ms_update i (coeff x) (base x) (a_moduli A)) (\<lambda>moduli.
         res_bind (tc_bind_expr (e_host E) (Var i t) simplified (a_order A)) (\<lambda>order.
           Inr (A\<lparr>a_bounds := bounds, a_moduli := moduli,
             a_rewriter := rw_update i (Some simplified) (a_rewriter A), a_order := order,
             a_sets := int_set_update i (SinglePoint simplified) (a_sets A)\<rparr>))))))))"

definition Bind_range ::
  "'f engine \<Rightarrow> nat \<Rightarrow> DataType option \<Rightarrow> int \<Rightarrow> int \<Rightarrow> 'f analyzer \<Rightarrow> 'f analyzer res" where
  "Bind_range E i t min_val max_val_exclusive A =
     res_bind (check ValueError (max_val_exclusive > min_val)) (\<lambda>_.
     res_bind (cib_bind i min_val max_val_exclusive (a_bounds A)) (\<lambda>bounds.
     res_bind (tc_bind_range (e_host E) (Var i t) min_val max_val_exclusive (a_order A)) (\<lambda>order.
     res_bind (GetScalarDtype (Var i t :: 'f expr)) (\<lambda>d.
       let A1 = A\<lparr>a_bounds := bounds, a_order := order\<rparr> in
       res_bind (int_set_bind (e_host E) (set_parent E A1 (a_sets A1)) i (MakeConstInt min_val d)
           (MakeConstInt max_val_exclusive d) (a_sets A)) (\<lambda>sets.
       res_bind (i64 (max_val_exclusive - min_val)) (\<lambda>n.
         if n = 1 then
           res_bind (ms_visit (a_moduli A) (MakeConstInt min_val d :: 'f expr)) (\<lambda>x.
           res_bind (ms_update i (coeff x) (base x) (a_moduli A)) (\<lambda>moduli.
             Inr (A1\<lparr>a_sets := sets, a_moduli := moduli,
               a_rewriter := rw_update i (Some (MakeConstInt min_val d)) (a_rewriter A)\<rparr>)))
         else Inr (A1\<lparr>a_sets := sets\<rparr>)))))))"

definition Unbind :: "'f host \<Rightarrow> nat \<Rightarrow> DataType option \<Rightarrow> 'f analyzer \<Rightarrow> 'f analyzer" where
  "Unbind H i t A = A\<lparr>a_bounds := cib_unbind i (a_bounds A), a_moduli := ms_unbind i (a_moduli A),
     a_rewriter := rw_update i None (a_rewriter A), a_order := tc_unbind H (Var i t) (a_order A),
     a_sets := int_set_unbind i (a_sets A)\<rparr>"

section \<open>Constraint scopes\<close>

text \<open>The recovery functions, in the order they were collected, and whether the scope was left.\<close>

datatype 'f recovery =
    RecoverBounds "(nat \<times> ConstIntBound) list"
  | RecoverModuli "(nat \<times> Entry) option"
  | RecoverLiterals nat
  | RecoverOrder "nat \<times> nat"
  | RecoverSets "(nat \<times> 'f IntSet) list"

record 'f ConstraintContext =
  ctx_exited :: bool
  ctx_recovery :: "'f recovery list"

text \<open>\<open>GetConstraintContext\<close>, the constructor of \<open>ConstraintContext\<close>.\<close>

definition GetConstraintContext ::
  "'f engine \<Rightarrow> 'f expr \<Rightarrow> 'f analyzer \<Rightarrow> ('f analyzer \<times> 'f ConstraintContext) res" where
  "GetConstraintContext E constraint A =
     res_bind (rewrite E A constraint) (\<lambda>normalized.
     res_bind (cib_enter_constraint (e_host E) (a_bounds A) normalized) (\<lambda>(bounds, rb).
     res_bind (ms_enter_constraint (a_moduli A) normalized) (\<lambda>(moduli, rm).
     let A1 = A\<lparr>a_bounds := bounds, a_moduli := moduli\<rparr> in
     res_bind (rewrite E A1 normalized) (\<lambda>literal.
     let rw = (a_rewriter A)\<lparr>rw_literals := rw_literals (a_rewriter A) @ ExtractConstraints literal\<rparr> in
     res_bind (tc_enter_constraint (e_host E) (a_order A) normalized) (\<lambda>(order, ro).
     let A2 = A1\<lparr>a_rewriter := rw, a_order := order\<rparr> in
     res_bind (int_set_enter (set_parent E A2) (a_sets A) normalized) (\<lambda>(sets, rs).
       Inr (A2\<lparr>a_sets := sets\<rparr>,
         \<lparr>ctx_exited = False, ctx_recovery =
           [RecoverBounds rb] @ (case rm of None \<Rightarrow> [] | Some _ \<Rightarrow> [RecoverModuli rm]) @
           [RecoverLiterals (length (rw_literals (a_rewriter A))), RecoverOrder ro] @
           (if rs = [] then [] else [RecoverSets rs])\<rparr>)))))))"

definition recover :: "'f recovery \<Rightarrow> 'f analyzer \<Rightarrow> 'f analyzer res" where
  "recover r A =
     (case r of
        RecoverBounds rb \<Rightarrow> Inr (A\<lparr>a_bounds := cib_recover rb (a_bounds A)\<rparr>)
      | RecoverModuli rm \<Rightarrow> Inr (A\<lparr>a_moduli := ms_recover rm (a_moduli A)\<rparr>)
      | RecoverLiterals n \<Rightarrow> Inr (A\<lparr>a_rewriter := rw_recover n (a_rewriter A)\<rparr>)
      | RecoverOrder ro \<Rightarrow> res_bind (tc_recover ro (a_order A)) (\<lambda>order. Inr (A\<lparr>a_order := order\<rparr>))
      | RecoverSets rs \<Rightarrow> Inr (A\<lparr>a_sets := int_set_recover rs (a_sets A)\<rparr>))"

definition ExitScope :: "'f ConstraintContext \<Rightarrow> 'f analyzer \<Rightarrow> ('f analyzer \<times> 'f ConstraintContext) res" where
  "ExitScope ctx A =
     (if ctx_exited ctx then Inr (A, ctx)
      else res_bind (fold_res recover (rev (ctx_recovery ctx)) A) (\<lambda>A'. Inr (A', ctx\<lparr>ctx_exited := True\<rparr>)))"

end
