(* ===== verification/Analyzer_Sound.thy ===== *)
theory Analyzer_Sound
  imports Analyzer
begin

text \<open>
  The facade of the arithmetic module is sound: what it proves holds, binding and constraints keep
  it true of an environment, and leaving a constraint scope restores every answer.

  The interval analysis answers truly about expressions all of whose operands stay inside the 64-bit
  range, and the canonical simplifier about expressions without a remainder by a sentinel literal.
  Neither is known of the expressions met in the middle of a proof. The theorems therefore assume
  that the procedure succeeds over an engine that refuses such queries (\<open>checked_engine\<close>); by
  monotonicity the code returns the same. And no conversion of the given expression may lose its
  operand (\<open>lossless\<close>): the facts the analyses collect are about mathematical readings
  (\<open>mathematical\<close>), where conversions change nothing. The client's argument is the locale \<open>sub_analyses\<close>.
\<close>

section \<open>Engines that answer less\<close>

definition engine_le :: "'f engine \<Rightarrow> 'f engine \<Rightarrow> bool" where
  "engine_le E E' \<longleftrightarrow> e_host E = e_host E' \<and> (\<forall>m e. res_le (e_bound E m e) (e_bound E' m e)) \<and>
     (\<forall>m st e. res_le (e_rewrite E m st e) (e_rewrite E' m st e)) \<and>
     (\<forall>e. res_le (e_canon E e) (e_canon E' e)) \<and> e_compare E = e_compare E'"

definition fallback_le :: "'f fallback \<Rightarrow> 'f fallback \<Rightarrow> bool" where
  "fallback_le F F' \<longleftrightarrow> (\<forall>l r u s. res_le (F l r u s) (F' l r u s))"

lemma no_fallback_le [simp]: "fallback_le no_fallback no_fallback"
  by (simp add: fallback_le_def)

lemma query_mono:
  assumes "engine_le E E'"
  shows "res_le (bound_of E A e) (bound_of E' A e)" "res_le (rewrite E A e) (rewrite E' A e)"
  using assms by (simp_all add: engine_le_def bound_of_def rewrite_def)

lemma simplify_steps_mono:
  "engine_le E E' \<Longrightarrow> res_le (simplify_steps E A n e) (simplify_steps E' A n e)"
  by (induction n arbitrary: e) (auto intro!: res_le_bind query_mono)

lemma Simplify_mono: "engine_le E E' \<Longrightarrow> res_le (Simplify E A e) (Simplify E' A e)"
  by (auto simp: Simplify_def Simplify_steps_def intro!: res_mono simplify_steps_mono)

lemma simplified_bound_mono: "engine_le E E' \<Longrightarrow> res_le (simplified_bound E A e) (simplified_bound E' A e)"
  by (auto simp: simplified_bound_def intro!: res_mono Simplify_mono query_mono)

lemma prove_bound_mono:
  assumes "engine_le E E'"
  shows "res_le (CanProveGreaterEqual E A e n) (CanProveGreaterEqual E' A e n)"
    "res_le (CanProveBelow E A e n) (CanProveBelow E' A e n)"
    "res_le (CanProveEqual E A l r) (CanProveEqual E' A l r)"
  using assms
  by (auto simp: CanProveGreaterEqual_def CanProveBelow_def CanProveEqual_def engine_le_def
      intro!: res_mono simplified_bound_mono [OF assms])

lemma compare_implies_eq: "engine_le E E' \<Longrightarrow> compare_implies E A l r c = compare_implies E' A l r c"
  by (simp add: compare_implies_def engine_le_def)

lemma prove_ordered_mono:
  assumes "engine_le E E'" and "fallback_le F F'"
  shows "res_le (prove_ordered E A F test c u s l r) (prove_ordered E' A F' test c u s l r)"
  using assms(2) simplified_bound_mono [OF assms(1)]
  by (auto simp: prove_ordered_def compare_implies_eq [OF assms(1)] fallback_le_def intro!: res_mono)

lemma prove_comparison_mono:
  assumes "engine_le E E'" and "fallback_le F F'"
  shows "res_le (prove_comparison E A F k l r) (prove_comparison E' A F' k l r)"
  using prove_ordered_mono [OF assms] prove_ordered_mono [OF assms(1) no_fallback_le]
  by (cases k) (simp_all add: prove_comparison_def)

lemma can_prove_le:
  assumes "can_prove E A F c = Some y" and "engine_le E E'" and "fallback_le F F'"
  shows "y = Inr b \<Longrightarrow> can_prove E' A F' c = Some (Inr b)"
  using assms
proof (induction arbitrary: b rule: can_prove.raw_induct [rotated, consumes 1, case_names 1])
  case (1 f E A F c y)
  obtain s where s: "Simplify E A c = Inr s" and s': "Simplify E' A c = Inr s"
    using 1(2,3,4) res_leD [OF Simplify_mono [OF 1(4)]] by (cases "Simplify E A c") auto
  show ?case
  proof (cases s)
    case (Binary k l r d)
    show ?thesis
    proof (cases "float_ty (scalar_type l) \<or> float_ty (scalar_type r)")
      case True
      with 1(2,3) show ?thesis by (simp add: can_prove.simps [of E'] s s' Binary)
    next
      case False
      show ?thesis
      proof (cases "k = KAnd")
        case True
        obtain p where p: "f E A F l = Some p" and y: "(if p = Inr True then f E A F r else Some p) = Some (Inr b)"
          using 1(2,3) False True by (auto simp: s Binary bind_eq_Some_conv)
        obtain q where q: "p = Inr q" using y by (cases p) auto
        have "can_prove E' A F' l = Some (Inr q)" using 1(1) [OF p q 1(4,5)] .
        moreover have "can_prove E' A F' r = Some (Inr b)" if "q"
          using y q that 1(1) [OF _ refl 1(4,5)] by simp
        ultimately show ?thesis using False True y q by (auto simp: can_prove.simps [of E' A F' c] s' Binary split: if_splits)
      next
        case other: False
        have "prove_comparison E A F k l r = Inr b" using 1(2,3) False other by (simp add: s Binary)
        then have "prove_comparison E' A F' k l r = Inr b"
          by (rule res_leD [OF prove_comparison_mono [OF 1(4,5)]])
        with False other show ?thesis by (simp add: can_prove.simps [of E' A F' c] s' Binary)
      qed
    qed
  qed (use 1(2,3) in \<open>simp_all add: can_prove.simps [of E' A F' c] s s'\<close>)
qed

lemma returned_can_prove_mono:
  assumes "engine_le E E'" and "fallback_le F F'"
  shows "res_le (returned (can_prove E A F c)) (returned (can_prove E' A F' c))"
  using can_prove_le [OF _ assms] by (auto simp: res_le_def returned_def split: option.splits)

lemma parent_with_mono:
  assumes "engine_le E E'" and "fallback_le F F'"
  shows "parent_le (Some (parent_with E F A)) (Some (parent_with E' F' A))"
  using Simplify_mono [OF assms(1)] prove_bound_mono [OF assms(1)] returned_can_prove_mono [OF assms]
  by (simp add: parent_le_def parent_with_def)

lemma eval_set_mono:
  assumes "engine_le E E'" and "fallback_le F F'"
  shows "res_le (eval_set E F A e) (eval_set E' F' A e)"
  using int_set_visit_mono [OF parent_with_mono [OF assms]] assms(1)
  by (simp add: eval_set_def engine_le_def)

lemma DeepSimplify_mono: "engine_le E E' \<Longrightarrow> res_le (DeepSimplify E A e) (DeepSimplify E' A e)"
  using Simplify_mono by (auto simp: DeepSimplify_def engine_le_def intro!: res_le_bind)

lemma difference_satisfies_mono:
  assumes "engine_le E E'"
  shows "res_le (difference_satisfies E A test l r) (difference_satisfies E' A test l r)"
  using DeepSimplify_mono [OF assms] query_mono [OF assms]
  by (auto simp: difference_satisfies_def intro!: res_mono split: option.splits)

lemma TrySymbolicFallback_mono:
  assumes "engine_le E E'"
  shows "fallback_le (TrySymbolicFallback E A) (TrySymbolicFallback E' A)"
  unfolding fallback_le_def TrySymbolicFallback_def Let_def
  by (auto intro!: res_mono eval_set_mono [OF assms] difference_satisfies_mono [OF assms])

lemma CanProve_mono:
  assumes "engine_le E E'"
  shows "res_le (CanProve E A c) (CanProve E' A c)"
  unfolding CanProve_def by (rule returned_can_prove_mono [OF assms TrySymbolicFallback_mono [OF assms]])

lemma set_parent_mono:
  assumes "engine_le E E'"
  shows "parents_le (set_parent E A) (set_parent E' A)"
  unfolding parents_le_def set_parent_def
  by (blast intro: parent_with_mono [OF assms TrySymbolicFallback_mono [OF assms]])

lemma Bind_mono: "engine_le E E' \<Longrightarrow> res_le (Bind E i t e A) (Bind E' i t e A)"
  using query_mono [of E E'] by (auto simp: Bind_def engine_le_def intro!: res_mono)

lemma Bind_range_mono:
  assumes "engine_le E E'"
  shows "res_le (Bind_range E i t lo hi A) (Bind_range E' i t lo hi A)"
proof -
  have h: "e_host E' = e_host E" using assms by (simp add: engine_le_def)
  show ?thesis
    unfolding Bind_range_def Let_def h
    by (intro res_mono int_set_bind_mono parents_leD [OF set_parent_mono [OF assms]])
qed

lemma GetConstraintContext_mono:
  assumes "engine_le E E'"
  shows "res_le (GetConstraintContext E c A) (GetConstraintContext E' c A)"
proof -
  have h: "e_host E' = e_host E" using assms by (simp add: engine_le_def)
  show ?thesis
    unfolding GetConstraintContext_def Let_def h
    by (intro res_mono query_mono [OF assms] int_set_enter_mono set_parent_mono [OF assms])
qed


section \<open>Sound parts make a sound facade\<close>

text \<open>The relation that a fallback with these flags claims of the operands.\<close>

definition flagged :: "bool \<Rightarrow> bool \<Rightarrow> int \<Rightarrow> int \<Rightarrow> bool" where
  "flagged check_upper strict x y \<longleftrightarrow>
     (if check_upper then if strict then x < y else x \<le> y else if strict then y < x else y \<le> x)"

definition fallback_sound :: "env \<Rightarrow> 'f fallback \<Rightarrow> bool" where
  "fallback_sound \<rho> F \<longleftrightarrow> (\<forall>l r u s x y. F l r u s = Inr True \<longrightarrow> eval \<rho> l = Some x \<longrightarrow> eval \<rho> r = Some y \<longrightarrow>
     flagged u s x y)"

lemma no_fallback_sound [simp]: "fallback_sound \<rho> no_fallback"
  by (simp add: fallback_sound_def no_fallback_def)

text \<open>How a condition gets proved.\<close>

lemma can_prove_cases:
  assumes "can_prove E A F c = Some (Inr True)"
    and "\<And>c. Simplify E A c = Inr (ConstBool True) \<Longrightarrow> P c"
    and "\<And>c v d. Simplify E A c = Inr (ConstInt v d) \<Longrightarrow> v \<noteq> 0 \<Longrightarrow> P c"
    and "\<And>c l r d. Simplify E A c = Inr (Binary KAnd l r d) \<Longrightarrow> P l \<Longrightarrow> P r \<Longrightarrow> P c"
    and "\<And>c k l r d. Simplify E A c = Inr (Binary k l r d) \<Longrightarrow> prove_comparison E A F k l r = Inr True \<Longrightarrow> P c"
  shows "P c"
proof -
  have "E' = E \<Longrightarrow> A' = A \<Longrightarrow> F' = F \<Longrightarrow> y = Inr True \<Longrightarrow> P c" if "can_prove E' A' F' c = Some y" for E' A' F' c y
    using that
  proof (induction rule: can_prove.raw_induct [rotated, consumes 1, case_names step])
    case (step f E' A' F' c y)
    then obtain s where s: "Simplify E A c = Inr s" by (cases "Simplify E A c") auto
    show ?case
      using step s assms(2-5) [of c] by (cases s) (auto simp: bind_eq_Some_conv split: if_splits)
  qed
  with assms(1) show ?thesis by blast
qed

locale sub_analyses =
  fixes E :: "'f engine" and \<rho> :: env and describes :: "'f analyzer \<Rightarrow> bool"
  assumes casts: "describes A \<Longrightarrow> exact_casts \<rho>"
    and host_ok: "describes A \<Longrightarrow> ptr_ok (e_host E)"
    and bound_sound: "describes A \<Longrightarrow> bound_of E A e = Inr b \<Longrightarrow> eval \<rho> e = Some v \<Longrightarrow> in_bound b v"
    and rewrite_sound: "describes A \<Longrightarrow> rewrite E A e = Inr e' \<Longrightarrow> eval \<rho> e = Some v \<Longrightarrow> eval \<rho> e' = Some v"
    and canon_sound: "describes A \<Longrightarrow> e_canon E e = Inr e' \<Longrightarrow> eval \<rho> e = Some v \<Longrightarrow> eval \<rho> e' = Some v"
    and compare_sound: "describes A \<Longrightarrow> e_compare E (a_order A) l r = Some (Inr c) \<Longrightarrow>
      eval \<rho> l = Some x \<Longrightarrow> eval \<rho> r = Some y \<Longrightarrow> cr_holds c x y"
    and sets_hold: "describes A \<Longrightarrow> set_holds (a_sets A) \<rho>"
    and sets_update: "describes A \<Longrightarrow> set_holds m \<rho> \<Longrightarrow> describes (A\<lparr>a_sets := m\<rparr>)"
begin

lemma simplify_steps_sound:
  "describes A \<Longrightarrow> simplify_steps E A n e = Inr e' \<Longrightarrow> eval \<rho> e = Some v \<Longrightarrow> eval \<rho> e' = Some v"
  by (induction n arbitrary: e) (auto dest: rewrite_sound)

lemma Simplify_sound: "describes A \<Longrightarrow> Simplify E A e = Inr e' \<Longrightarrow> eval \<rho> e = Some v \<Longrightarrow> eval \<rho> e' = Some v"
  using simplify_steps_sound by (auto simp: Simplify_def Simplify_steps_def)

lemma simplified_bound_sound:
  assumes "describes A" and "simplified_bound E A e = Inr b" and "eval \<rho> e = Some v"
  shows "min_value b \<le> v" and "v \<le> max_value b"
proof -
  obtain s where s: "Simplify E A e = Inr s" and b: "bound_of E A s = Inr b"
    using assms(2) by (auto simp: simplified_bound_def)
  show "min_value b \<le> v" and "v \<le> max_value b"
    using bound_sound [OF assms(1) b Simplify_sound [OF assms(1) s assms(3)]] by (simp_all add: in_bound_def)
qed

lemma prove_ge_sound:
  "describes A \<Longrightarrow> CanProveGreaterEqual E A e n = Inr True \<Longrightarrow> eval \<rho> e = Some v \<Longrightarrow> n \<le> v"
  by (fastforce simp: CanProveGreaterEqual_def dest: simplified_bound_sound)

lemma prove_below_sound:
  "describes A \<Longrightarrow> CanProveBelow E A e n = Inr True \<Longrightarrow> eval \<rho> e = Some v \<Longrightarrow> v < n"
  by (fastforce simp: CanProveBelow_def dest: simplified_bound_sound)

lemma difference_value:
  "describes A \<Longrightarrow> MakeBinary KSub l r = Inr diff \<Longrightarrow> eval \<rho> l = Some x \<Longrightarrow> eval \<rho> r = Some y \<Longrightarrow> eval \<rho> diff = Some (x - y)"
  using MakeBinary_eval [OF _ casts, of KSub] by fastforce

lemma prove_equal_sound:
  assumes "describes A" and "CanProveEqual E A l r = Inr True" and "eval \<rho> l = Some x" and "eval \<rho> r = Some y"
  shows "x = y"
proof (cases "same_ptr (e_host E) l r")
  case True
  then show ?thesis using ptr_okD [OF host_ok [OF assms(1)]] assms(3,4) by fastforce
next
  case False
  then obtain diff b where "MakeBinary KSub l r = Inr diff" "simplified_bound E A diff = Inr b" "is_const_value b 0"
    using assms(2) by (auto simp: CanProveEqual_def)
  with simplified_bound_sound [OF assms(1)] difference_value [OF assms(1) _ assms(3,4)] show ?thesis
    by (fastforce simp: is_const_value_def)
qed

lemma compare_implies_sound:
  assumes "describes A" and "compare_implies E A l r c = Inr True" and "eval \<rho> l = Some x" and "eval \<rho> r = Some y"
  shows "cr_holds c x y"
proof -
  obtain result where "e_compare E (a_order A) l r = Some (Inr result)" and imp: "ResultImplies result c"
    using assms(2) by (auto simp: compare_implies_def returned_def split: option.splits)
  then have "cr_holds result x y" by (intro compare_sound [OF assms(1) _ assms(3,4)])
  then show ?thesis by (rule ResultImplies_holds [OF imp])
qed

lemma prove_ordered_sound:
  assumes "describes A" and "fallback_sound \<rho> F" and "prove_ordered E A F test c u s l r = Inr True"
    and "eval \<rho> l = Some x" and "eval \<rho> r = Some y"
    and "\<And>b. test b \<Longrightarrow> min_value b \<le> x - y \<Longrightarrow> x - y \<le> max_value b \<Longrightarrow> R"
    and "cr_holds c x y \<Longrightarrow> R" and "F l r u s = Inr True \<Longrightarrow> flagged u s x y \<Longrightarrow> R"
  shows R
proof -
  obtain diff b where d: "MakeBinary KSub l r = Inr diff" "simplified_bound E A diff = Inr b"
    and rest: "test b \<or> compare_implies E A l r c = Inr True \<or> F l r u s = Inr True"
    using assms(3) by (auto simp: prove_ordered_def split: if_splits)
  from rest show R
  proof (elim disjE)
    assume "test b"
    then show R
      using assms(6) simplified_bound_sound [OF assms(1) d(2) difference_value [OF assms(1) d(1) assms(4,5)]] by blast
  next
    assume "compare_implies E A l r c = Inr True"
    then show R using assms(7) compare_implies_sound [OF assms(1) _ assms(4,5)] by blast
  next
    assume "F l r u s = Inr True"
    then show R using assms(2,4,5,8) unfolding fallback_sound_def by blast
  qed
qed

lemma prove_comparison_sound:
  assumes "describes A" and "fallback_sound \<rho> F" and "prove_comparison E A F k l r = Inr True"
    and "eval \<rho> l = Some x" and "eval \<rho> r = Some y"
  shows "bin_val k x y = Some 1"
  using assms(3)
  by (cases k)
    (auto simp: prove_comparison_def flagged_def is_const_value_def no_fallback_def
      elim!: prove_ordered_sound [OF assms(1,2) _ assms(4,5)] prove_ordered_sound [OF assms(1) no_fallback_sound _ assms(4,5)])

lemma can_prove_sound:
  assumes "can_prove E A F c = Some (Inr True)" and "describes A" and "fallback_sound \<rho> F"
    and "eval \<rho> c = Some v"
  shows "v \<noteq> 0"
proof -
  have "\<forall>v. eval \<rho> c = Some v \<longrightarrow> v \<noteq> 0"
  proof (rule can_prove_cases [OF assms(1), where P = "\<lambda>c. \<forall>v. eval \<rho> c = Some v \<longrightarrow> v \<noteq> 0"]; intro allI impI)
    fix c v assume "Simplify E A c = Inr (ConstBool True)" "eval \<rho> c = Some v"
    with Simplify_sound [OF assms(2)] show "v \<noteq> 0" by fastforce
  next
    fix c n d v assume "Simplify E A c = Inr (ConstInt n d)" "n \<noteq> 0" "eval \<rho> c = Some v"
    with Simplify_sound [OF assms(2)] show "v \<noteq> 0" by fastforce
  next
    fix c l r d v
    assume s: "Simplify E A c = Inr (Binary KAnd l r d)" and v: "eval \<rho> c = Some v"
      and l: "\<forall>v. eval \<rho> l = Some v \<longrightarrow> v \<noteq> 0" and r: "\<forall>v. eval \<rho> r = Some v \<longrightarrow> v \<noteq> 0"
    obtain x y where "eval \<rho> l = Some x" "eval \<rho> r = Some y" "bin_val KAnd x y = Some v"
      using Simplify_sound [OF assms(2) s v] by (rule eval_BinaryE)
    with l r show "v \<noteq> 0" by auto
  next
    fix c k l r d v
    assume s: "Simplify E A c = Inr (Binary k l r d)" and p: "prove_comparison E A F k l r = Inr True"
      and v: "eval \<rho> c = Some v"
    obtain x y where xy: "eval \<rho> l = Some x" "eval \<rho> r = Some y" "bin_val k x y = Some v"
      using Simplify_sound [OF assms(2) s v] by (rule eval_BinaryE)
    then show "v \<noteq> 0" using prove_comparison_sound [OF assms(2,3) p xy(1,2)] by simp
  qed
  with assms(4) show ?thesis by blast
qed

lemma parent_with_sound:
  assumes "describes A" and "fallback_sound \<rho> F"
  shows "parent_analyzer (Some (parent_with E F A)) \<rho>"
proof
  fix p c v
  assume "Some (parent_with E F A) = Some p" "p_can_prove p c = Inr True" "eval \<rho> c = Some v"
  then have "can_prove E A F c = Some (Inr True)" by (auto simp: parent_with_def returned_def split: option.splits)
  then show "v \<noteq> 0" by (rule can_prove_sound [OF _ assms]) fact
qed (auto simp: parent_with_def dest: Simplify_sound [OF assms(1)] prove_ge_sound [OF assms(1)]
    prove_below_sound [OF assms(1)])

lemma eval_set_sound:
  assumes "describes A" and "eval_set E no_fallback A e = Inr s" and "eval \<rho> e = Some v"
  shows "in_set \<rho> s v"
  using int_set_sound [OF parent_with_sound [OF assms(1) no_fallback_sound] host_ok [OF assms(1)]
      casts [OF assms(1)] sets_hold [OF assms(1)]]
    assms(2,3) by (simp add: eval_set_def)

lemma difference_satisfies_Some:
  "difference_satisfies E A test l r = Inr True \<Longrightarrow> \<exists>a b. l = Some a \<and> r = Some b"
  by (cases l; cases r) (simp_all add: difference_satisfies_def)

lemma difference_satisfies_sound:
  assumes "describes A" and "difference_satisfies E A test (Some l) (Some r) = Inr True"
    and "eval \<rho> l = Some x" and "eval \<rho> r = Some y"
  shows "\<exists>b. test b \<and> min_value b \<le> x - y \<and> x - y \<le> max_value b"
proof -
  obtain diff s c b where "MakeBinary KSub l r = Inr diff" "Simplify E A diff = Inr s" "e_canon E s = Inr c"
    and b: "bound_of E A c = Inr b" "test b"
    using assms(2) by (auto simp: difference_satisfies_def DeepSimplify_def)
  then have "eval \<rho> c = Some (x - y)"
    using difference_value [OF assms(1) _ assms(3,4)] Simplify_sound [OF assms(1)] canon_sound [OF assms(1)] by blast
  then show ?thesis using bound_sound [OF assms(1) b(1)] b(2) by (auto simp: in_bound_def)
qed

lemma TrySymbolicFallback_sound:
  assumes "describes A"
  shows "fallback_sound \<rho> (TrySymbolicFallback E A)"
  unfolding fallback_sound_def
proof (intro allI impI)
  fix l r u s x y
  assume proved: "TrySymbolicFallback E A l r u s = Inr True" and x: "eval \<rho> l = Some x" and y: "eval \<rho> r = Some y"
  obtain ls rs where ls: "eval_set E no_fallback A l = Inr ls" and rs: "eval_set E no_fallback A r = Inr rs"
    using proved by (auto simp: TrySymbolicFallback_def)
  have bounds: "bound_ok \<rho> (\<lambda>n. n \<le> x) (set_min ls)" "bound_ok \<rho> (\<lambda>n. x \<le> n) (set_max ls)"
    "bound_ok \<rho> (\<lambda>n. n \<le> y) (set_min rs)" "bound_ok \<rho> (\<lambda>n. y \<le> n) (set_max rs)"
    using eval_set_sound [OF assms ls x] eval_set_sound [OF assms rs y] by (simp_all add: in_set_def)
  define test :: "ConstIntBound \<Rightarrow> bool" where "test = (\<lambda>b. if u then if s then max_value b < 0 else max_value b \<le> 0
    else if s then min_value b > 0 else min_value b \<ge> 0)"
  have apart: "flagged u s m n" if "difference_satisfies E A test (Some a) (Some b) = Inr True"
    "eval \<rho> a = Some m" "eval \<rho> b = Some n" for a b m n
    using difference_satisfies_sound [OF assms that] by (auto simp: test_def flagged_def split: if_splits)
  have "difference_satisfies E A test (if u then set_max ls else set_min ls) (Some r) = Inr True \<or>
      difference_satisfies E A test (Some l) (if u then set_min rs else set_max rs) = Inr True"
    using proved ls rs
    by (cases u; cases s) (auto simp: TrySymbolicFallback_def Let_def test_def split: if_splits)
  then show "flagged u s x y"
  proof (elim disjE)
    assume d: "difference_satisfies E A test (if u then set_max ls else set_min ls) (Some r) = Inr True"
    then obtain e where e: "(if u then set_max ls else set_min ls) = Some e"
      using difference_satisfies_Some by blast
    then obtain n where n: "eval \<rho> e = Some n" "if u then x \<le> n else n \<le> x"
      using bounds by (auto simp: bound_ok_def split: if_splits)
    with apart [OF d [unfolded e] n(1) y] show ?thesis by (auto simp: flagged_def split: if_splits)
  next
    assume d: "difference_satisfies E A test (Some l) (if u then set_min rs else set_max rs) = Inr True"
    then obtain e where e: "(if u then set_min rs else set_max rs) = Some e"
      using difference_satisfies_Some by blast
    then obtain n where n: "eval \<rho> e = Some n" "if u then n \<le> y else y \<le> n"
      using bounds by (auto simp: bound_ok_def split: if_splits)
    with apart [OF d [unfolded e] x n(1)] show ?thesis by (auto simp: flagged_def split: if_splits)
  qed
qed

lemma CanProve_sound:
  assumes "describes A" and "CanProve E A c = Inr True" and "eval \<rho> c = Some v"
  shows "v \<noteq> 0"
proof -
  have "can_prove E A (TrySymbolicFallback E A) c = Some (Inr True)"
    using assms(2) by (auto simp: CanProve_def returned_def split: option.splits)
  then show ?thesis by (rule can_prove_sound [OF _ assms(1) TrySymbolicFallback_sound [OF assms(1)] assms(3)])
qed

lemma set_parent_sound: "describes A \<Longrightarrow> parents_sound (set_parent E A) \<rho>"
  unfolding parents_sound_def set_parent_def
  by (blast intro: parent_with_sound TrySymbolicFallback_sound sets_update)

end


section \<open>The analyses of the code, asked only what they answer truly\<close>

text \<open>
  The interval analysis reads a conversion to a narrow type as the identity where the value fits. It
  is asked about expressions whose operands all stay inside the 64-bit range and whose conversions
  fit.
\<close>

definition exact_env :: "env \<Rightarrow> env" where
  "exact_env \<rho> = \<rho>\<lparr>ccast := cast_exact\<rparr>"

definition bound_covers :: "env \<Rightarrow> 'f expr \<Rightarrow> bool" where
  "bound_covers \<rho> e \<longleftrightarrow> wf_expr e \<and> all_vals finite_val (exact_env \<rho>) e \<and> eval (exact_env \<rho>) e = eval \<rho> e"

lemma pred_option_code [code]: "pred_option P None \<longleftrightarrow> True" "pred_option P (Some x) \<longleftrightarrow> P x"
  by simp_all

definition only_if :: "bool \<Rightarrow> 'a res \<Rightarrow> 'a res" where
  "only_if b m = (if b then m else Inl UndefinedBehavior)"

lemma only_if_Inr [simp]: "only_if b m = Inr x \<longleftrightarrow> b \<and> m = Inr x"
  by (simp add: only_if_def)

definition checked_bound :: "'f host \<Rightarrow> env \<Rightarrow> bound_map \<Rightarrow> 'f expr \<Rightarrow> ConstIntBound res" where
  "checked_bound H \<rho> m e = only_if (bound_covers \<rho> e) (cib_visit H m e)"

definition checked_engine :: "'f host \<Rightarrow> 'f projection \<Rightarrow> (nat list \<Rightarrow> nat) \<Rightarrow> env \<Rightarrow> 'f engine" where
  "checked_engine H S pick \<rho> = \<lparr>e_host = H, e_bound = checked_bound H \<rho>,
     e_rewrite = (\<lambda>m st e. only_if (wf_expr e) (rw_simplify H S (st\<lparr>rw_parent := Some (checked_bound H \<rho> m)\<rparr>) e)),
     e_canon = (\<lambda>e. only_if (wf_expr e \<and> no_sentinel_mod \<rho> e) (canonical_simplify H (\<lambda>_. None) e)),
     e_compare = (\<lambda>st a b. TryCompare H pick st a b True)\<rparr>"

lemma checked_le: "engine_le (checked_engine H S pick \<rho>) (code_engine H S pick)"
proof -
  have b: "res_le (checked_bound H \<rho> m e) (cib_visit H m e)" for m e
    by (simp add: res_le_def checked_bound_def)
  have "res_le (rw_simplify H S (st\<lparr>rw_parent := Some (checked_bound H \<rho> m)\<rparr>) e)
      (rw_simplify H S (st\<lparr>rw_parent := Some (cib_visit H m)\<rparr>) e)" for m st e
    using b by (intro rw_simplify_mono) (simp_all add: oracle_le_def)
  with b show ?thesis by (simp add: engine_le_def checked_engine_def code_engine_def res_le_def)
qed

text \<open>The state of every analysis is true of the environment.\<close>

definition setting :: "'f host \<Rightarrow> 'f projection \<Rightarrow> (nat list \<Rightarrow> nat) \<Rightarrow> env \<Rightarrow> bool" where
  "setting H S pick \<rho> \<longleftrightarrow> ptr_ok H \<and> picks_member pick \<and> exact_casts \<rho> \<and> leaves_agree S \<rho> \<and> calls_hold \<rho>"

definition rewriter_true :: "env \<Rightarrow> 'f rewriter \<Rightarrow> bool" where
  "rewriter_true \<rho> st \<longleftrightarrow> rw_wf st \<and> literals_hold st \<rho> \<and>
     (\<forall>i e v. rw_vars st i = Some e \<longrightarrow> vval \<rho> i = Some v \<longrightarrow> eval \<rho> e = Some v)"

definition analyzer_true :: "env \<Rightarrow> 'f analyzer \<Rightarrow> bool" where
  "analyzer_true \<rho> A \<longleftrightarrow> (bounds_hold (a_bounds A) \<rho> \<and> wf_bounds (a_bounds A)) \<and>
     (entries_hold (a_moduli A) \<rho> \<and> wf_entries (a_moduli A)) \<and> rewriter_true \<rho> (a_rewriter A) \<and>
     (tc_wf (a_order A) \<and> tc_describes (a_order A) \<rho>) \<and> set_holds (a_sets A) \<rho>"

lemma exact_env_facts:
  assumes "calls_hold \<rho>" and "bounds_hold m \<rho>"
  shows "calls_hold (exact_env \<rho>)" "casts_bounded (exact_env \<rho>)" "bounds_hold m (exact_env \<rho>)"
  using assms by (auto simp: exact_env_def calls_hold_def bounds_hold_def intro: casts_bounded_exact)

lemma checked_bound_sound:
  assumes "calls_hold \<rho>" and "bounds_hold m \<rho>" and "wf_bounds m"
    and "checked_bound H \<rho> m e = Inr b" and "eval \<rho> e = Some v"
  shows "in_bound b v" and "wf_bound b"
proof -
  have c: "bound_covers \<rho> e" and b: "cib_visit H m e = Inr b"
    using assms(4) by (simp_all add: checked_bound_def)
  note \<rho> = exact_env_facts [OF assms(1,2)]
  show "in_bound b v"
    by (rule cib_sound [OF \<rho>(3) assms(3) \<rho>(1,2) _ _ b]) (use c assms(5) in \<open>auto simp: bound_covers_def\<close>)
  show "wf_bound b" using cib_visit_wf [OF assms(3) _ b] c by (simp add: bound_covers_def)
qed

lemma checked_rewrite_keeps:
  assumes "setting H S pick \<rho>" and "bounds_hold m \<rho>" and "wf_bounds m" and "rewriter_true \<rho> st"
    and "e_rewrite (checked_engine H S pick \<rho>) m st e = Inr e'"
  shows "wf_expr e'" and "eval \<rho> e = Some v \<Longrightarrow> eval \<rho> e' = Some v"
proof -
  define st' where "st' = st\<lparr>rw_parent := Some (checked_bound H \<rho> m)\<rparr>"
  have wf: "wf_expr e" and run: "rw_visit H S st' 0 e = Inr e'"
    using assms(5) by (simp_all add: checked_engine_def st'_def rw_simplify_def)
  have "prover_sound (rw_TryCompare (rw_parent st')) \<rho>"
    using checked_bound_sound(1) [OF _ assms(2,3)] assms(1)
    by (intro rw_TryCompare_sound) (auto simp: st'_def setting_def)
  then have "rw_describes H S st' \<rho>" and "rw_wf st'"
    using assms(1,4) by (simp_all add: st'_def rw_describes_def setting_def rewriter_true_def rw_wf_def)
  then have "keeps_value \<rho> e e'" using run by (rule rw_visit_keeps_value)
  then show "wf_expr e'" and "eval \<rho> e = Some v \<Longrightarrow> eval \<rho> e' = Some v"
    using keeps_valueD [OF _ wf] by auto
qed

interpretation facade: sub_analyses "checked_engine H S pick \<rho>" \<rho>
    "\<lambda>A. setting H S pick \<rho> \<and> analyzer_true \<rho> A" for H S pick \<rho>
proof (unfold_locales, goal_cases)
  case (3 A e b v)
  then show ?case using checked_bound_sound(1)
    by (auto simp: bound_of_def checked_engine_def setting_def analyzer_true_def)
next
  case (4 A e e' v)
  then show ?case using checked_rewrite_keeps(2) by (fastforce simp: rewrite_def analyzer_true_def)
next
  case (5 A e e' v)
  then show ?case using canonical_simplify_value [of H "\<lambda>_. None" e e' \<rho>]
    by (auto simp: checked_engine_def setting_def vars_describe_def)
next
  case (6 A l r c x y)
  then show ?case using TryCompare_correct [of H pick "a_order A" l r True]
    by (auto simp: checked_engine_def setting_def analyzer_true_def)
qed (auto simp: setting_def checked_engine_def analyzer_true_def)


section \<open>Bindings\<close>

lemma facade_state:
  assumes "analyzer_true \<rho> A"
  shows "bounds_hold (a_bounds A) \<rho>" "wf_bounds (a_bounds A)" "entries_hold (a_moduli A) \<rho>"
    "wf_entries (a_moduli A)" "rewriter_true \<rho> (a_rewriter A)" "tc_wf (a_order A)"
    "tc_describes (a_order A) \<rho>" "set_holds (a_sets A) \<rho>"
  using assms by (simp_all add: analyzer_true_def)

lemma update_bound:
  "bounds_hold m \<rho> \<and> wf_bounds m \<Longrightarrow> cib_update i b m = Inr m' \<Longrightarrow> wf_bound b \<Longrightarrow> vval \<rho> i = Some v \<Longrightarrow>
   in_bound b v \<Longrightarrow> bounds_hold m' \<rho> \<and> wf_bounds m'"
  by (auto simp: cib_update_def bounds_hold_def wf_bounds_def split: if_splits)

lemma update_entry:
  assumes "entries_hold m \<rho> \<and> wf_entries m" and "ms_update i (coeff x) (base x) m = Inr m'" and "wf_entry x"
    and "in_entry x v" and "vval \<rho> i = Some v"
  shows "entries_hold m' \<rho> \<and> wf_entries m'"
proof -
  obtain e where e: "mk_entry (coeff x) (base x) = Inr e" and m': "m' = m(i \<mapsto> e)" and c: "0 \<le> coeff x"
    using assms(2) by (auto simp: ms_update_def)
  have "in_entry e v" using mk_entry_sound [OF e c] assms(4) by (simp add: in_entry_def)
  moreover have "wf_entry e" using mk_entry_wf [OF e c] assms(3) by (simp add: wf_entry_def)
  ultimately show ?thesis using assms(1,5) by (auto simp: m' entries_hold_def wf_entries_def)
qed

lemma update_rewriter:
  "rewriter_true \<rho> st \<Longrightarrow> wf_expr e \<Longrightarrow> vval \<rho> i = Some v \<Longrightarrow> eval \<rho> e = Some v \<Longrightarrow>
   rewriter_true \<rho> (rw_update i (Some e) st)"
  by (auto simp: rewriter_true_def rw_update_def rw_wf_def literals_hold_def)

lemma Bind_keeps:
  assumes set: "setting H S pick \<rho>" and A: "analyzer_true \<rho> A"
    and run: "Bind (checked_engine H S pick \<rho>) i t e A = Inr A'"
    and v: "eval \<rho> (Var i t :: 'f expr) = Some v" "eval \<rho> (e :: 'f expr) = Some v"
  shows "analyzer_true \<rho> A'"
proof -
  let ?E = "checked_engine H S pick \<rho>"
  note st = facade_state [OF A]
  have vi: "vval \<rho> i = Some v" using v(1) by (simp split: if_splits)
  obtain s d where s: "rewrite ?E A e = Inr s" and d: "GetScalarDtype (Var i t :: 'f expr) = Inr d"
    using run by (auto simp: Bind_def)
  have sv: "wf_expr s" "eval \<rho> s = Some v"
    using checked_rewrite_keeps [OF set st(1,2,5) s [unfolded rewrite_def]] v(2) by auto
  have rw: "rewriter_true \<rho> (rw_update i (Some s) (a_rewriter A))"
    by (rule update_rewriter [OF st(5) sv(1) vi sv(2)])
  show ?thesis
  proof (cases "d = BOOL")
    case True
    then show ?thesis using run s d A rw by (auto simp: Bind_def analyzer_true_def)
  next
    case False
    obtain b bounds x moduli order where b: "bound_of ?E A s = Inr b" and bs: "cib_update i b (a_bounds A) = Inr bounds"
      and x: "ms_visit (a_moduli A) s = Inr x" and ms: "ms_update i (coeff x) (base x) (a_moduli A) = Inr moduli"
      and o': "tc_bind_expr H (Var i t) s (a_order A) = Inr order"
      and A': "A' = A\<lparr>a_bounds := bounds, a_moduli := moduli, a_rewriter := rw_update i (Some s) (a_rewriter A),
        a_order := order, a_sets := int_set_update i (SinglePoint s) (a_sets A)\<rparr>"
      using run s d False by (auto simp: Bind_def checked_engine_def)
    have ck: "exact_casts \<rho>" "ptr_ok H" "calls_hold \<rho>" using set by (simp_all add: setting_def)
    have "in_bound b v" "wf_bound b"
      using checked_bound_sound [OF ck(3) st(1,2) _ sv(2)] b by (simp_all add: bound_of_def checked_engine_def)
    then have "bounds_hold bounds \<rho> \<and> wf_bounds bounds" using update_bound [OF _ bs _ vi] st(1,2) by blast
    moreover have "entries_hold moduli \<rho> \<and> wf_entries moduli"
      using update_entry [OF _ ms ms_visit_normal [OF st(4) sv(1) x] ms_sound [OF st(3,4) _ sv(1) x sv(2)] vi]
        st(3,4) casts_keep_id ck(1) by (simp add: exact_casts_def)
    moreover have "tc_wf order \<and> tc_describes order \<rho>"
      by (rule tc_bind_expr_sound [OF ck(2) st(6,7) ck(1) o' v(1) sv(2)])
    moreover have "set_holds (int_set_update i (SinglePoint s) (a_sets A)) \<rho>"
      using st(8) sv(2) vi by (auto simp: set_holds_def int_set_update_def)
    ultimately show ?thesis using rw by (simp add: A' analyzer_true_def)
  qed
qed

lemma literal_value:
  "is_i64 n \<Longrightarrow> \<not> IsFloat d \<Longrightarrow> wf_expr (MakeConstInt n d) \<and> eval \<rho> (MakeConstInt n d) = Some n"
  by (simp add: MakeConstInt_def)

lemma Bind_range_keeps:
  assumes set: "setting H S pick \<rho>" and A: "analyzer_true \<rho> A"
    and run: "Bind_range (checked_engine H S pick \<rho> :: 'f engine) i t lo hi A = Inr A'"
    and v: "eval \<rho> (Var i t :: 'f expr) = Some v" "lo \<le> v" "v < hi" and i64: "is_i64 lo" "is_i64 hi"
  shows "analyzer_true \<rho> A'"
proof -
  let ?E = "checked_engine H S pick \<rho> :: 'f engine"
  note st = facade_state [OF A]
  have vi: "vval \<rho> i = Some v" using v(1) by (simp split: if_splits)
  have ck: "exact_casts \<rho>" "ptr_ok H" using set by (simp_all add: setting_def)
  have h: "e_host ?E = H" by (simp add: checked_engine_def)
  obtain bounds order d where bs: "cib_bind i lo hi (a_bounds A) = Inr bounds"
    and o': "tc_bind_range H (Var i t) lo hi (a_order A) = Inr order" and d: "GetScalarDtype (Var i t :: 'f expr) = Inr d"
    using run by (auto simp: Bind_range_def checked_engine_def)
  define A1 where "A1 = A\<lparr>a_bounds := bounds, a_order := order\<rparr>"
  have lit: "wf_expr (MakeConstInt n d :: 'f expr) \<and> eval \<rho> (MakeConstInt n d :: 'f expr) = Some n" if "is_i64 n" for n
    using literal_value [OF that] eval_dtype [OF v(1) d] by simp
  have "bounds_hold bounds \<rho> \<and> wf_bounds bounds"
    using bs st(1,2) vi v(2,3) i64
    by (auto simp: cib_bind_def bounds_hold_def wf_bounds_def in_bound_def wf_bound_def is_i64_alt split: if_splits)
  moreover have "tc_wf order \<and> tc_describes order \<rho>"
    by (rule tc_bind_range_sound [OF ck(2) st(6,7) ck(1) o' v])
  ultimately have A1: "analyzer_true \<rho> A1" using A by (simp add: A1_def analyzer_true_def)
  obtain sets where sets: "int_set_bind H (set_parent ?E A1 (a_sets A1)) i (MakeConstInt lo d)
      (MakeConstInt hi d) (a_sets A) = Inr sets"
    and rest: "(if hi - lo = 1 then
         res_bind (ms_visit (a_moduli A) (MakeConstInt lo d :: 'f expr)) (\<lambda>x.
         res_bind (ms_update i (coeff x) (base x) (a_moduli A)) (\<lambda>moduli.
           Inr (A1\<lparr>a_sets := sets, a_moduli := moduli,
             a_rewriter := rw_update i (Some (MakeConstInt lo d)) (a_rewriter A)\<rparr>)))
       else Inr (A1\<lparr>a_sets := sets\<rparr>)) = Inr A'"
    using run bs o' d unfolding Bind_range_def h Let_def A1_def by auto
  have "parent_analyzer (set_parent ?E A1 (a_sets A1)) \<rho>"
    using facade.set_parent_sound [of H S pick \<rho> A1] set A1 facade_state(8) [OF A1] unfolding parents_sound_def by blast
  from int_set_bind_sound [OF this ck(2,1) st(8) sets _ _ _ vi v(2,3)]
  have "set_holds sets \<rho>" using lit i64 by auto
  then have A2: "analyzer_true \<rho> (A1\<lparr>a_sets := sets\<rparr>)" using A1 by (simp add: analyzer_true_def)
  show ?thesis
  proof (cases "hi - lo = 1")
    case True
    with v have lo: "v = lo" by simp
    note lv = lit [OF i64(1)]
    obtain x moduli where x: "ms_visit (a_moduli A) (MakeConstInt lo d :: 'f expr) = Inr x"
      and ms: "ms_update i (coeff x) (base x) (a_moduli A) = Inr moduli"
      and A': "A' = A1\<lparr>a_sets := sets, a_moduli := moduli,
             a_rewriter := rw_update i (Some (MakeConstInt lo d)) (a_rewriter A)\<rparr>"
      using rest True by auto
    have "entries_hold moduli \<rho> \<and> wf_entries moduli"
      using update_entry [OF _ ms ms_visit_normal [OF st(4) _ x] ms_sound [OF st(3,4) _ _ x] vi] lv lo
        st(3,4) casts_keep_id ck(1) by (simp add: exact_casts_def)
    moreover have "rewriter_true \<rho> (rw_update i (Some (MakeConstInt lo d)) (a_rewriter A))"
      using update_rewriter [OF st(5) _ vi] lv lo by simp
    ultimately show ?thesis using A2 by (simp add: A' analyzer_true_def)
  next
    case False
    with rest A2 show ?thesis by simp
  qed
qed


section \<open>Constraint scopes\<close>

text \<open>What entering a constraint computed, step by step.\<close>

lemma entered_parts:
  assumes "GetConstraintContext E c A = Inr (A', ctx)"
  obtains n bounds rb moduli rm lit order ro sets rs where "rewrite E A c = Inr n"
    and "cib_enter_constraint (e_host E) (a_bounds A) n = Inr (bounds, rb)"
    and "ms_enter_constraint (a_moduli A) n = Inr (moduli, rm)"
    and "rewrite E (A\<lparr>a_bounds := bounds, a_moduli := moduli\<rparr>) n = Inr lit"
    and "tc_enter_constraint (e_host E) (a_order A) n = Inr (order, ro)"
    and "A' = \<lparr>a_bounds = bounds, a_moduli = moduli,
        a_rewriter = (a_rewriter A)\<lparr>rw_literals := rw_literals (a_rewriter A) @ ExtractConstraints lit\<rparr>,
        a_order = order, a_sets = sets\<rparr>"
    and "int_set_enter (set_parent E (A'\<lparr>a_sets := a_sets A\<rparr>)) (a_sets A) n = Inr (sets, rs)"
    and "ctx = \<lparr>ctx_exited = False, ctx_recovery =
           [RecoverBounds rb] @ (case rm of None \<Rightarrow> [] | Some _ \<Rightarrow> [RecoverModuli rm]) @
           [RecoverLiterals (length (rw_literals (a_rewriter A))), RecoverOrder ro] @
           (if rs = [] then [] else [RecoverSets rs])\<rparr>"
proof -
  have A: "A\<lparr>a_bounds := b, a_moduli := m, a_rewriter := r, a_order := oo\<rparr> =
      \<lparr>a_bounds = b, a_moduli = m, a_rewriter = r, a_order = oo, a_sets = a_sets A\<rparr>" for b m r oo
    by (cases A) simp
  show ?thesis
    using assms that unfolding GetConstraintContext_def Let_def A by (auto simp: A)
qed

lemma GetConstraintContext_keeps:
  assumes set: "setting H S pick \<rho>" and A: "analyzer_true \<rho> A"
    and run: "GetConstraintContext (checked_engine H S pick \<rho> :: 'f engine) c A = Inr (A', ctx)"
    and n0: "rewrite (checked_engine H S pick \<rho>) A c = Inr n0" and usable: "bound_covers \<rho> n0" "positive_modulus n0"
    and c: "eval \<rho> c = Some 1"
  shows "analyzer_true \<rho> A'"
proof -
  let ?E = "checked_engine H S pick \<rho> :: 'f engine"
  note st = facade_state [OF A]
  have h: "e_host ?E = H" by (simp add: checked_engine_def)
  have ck: "exact_casts \<rho>" "ptr_ok H" "calls_hold \<rho>" using set by (simp_all add: setting_def)
  obtain n bounds rb moduli rm lit order ro sets rs where n: "rewrite ?E A c = Inr n"
    and bs: "cib_enter_constraint H (a_bounds A) n = Inr (bounds, rb)"
    and ms: "ms_enter_constraint (a_moduli A) n = Inr (moduli, rm)"
    and lit: "rewrite ?E (A\<lparr>a_bounds := bounds, a_moduli := moduli\<rparr>) n = Inr lit"
    and od: "tc_enter_constraint H (a_order A) n = Inr (order, ro)"
    and A': "A' = \<lparr>a_bounds = bounds, a_moduli = moduli,
        a_rewriter = (a_rewriter A)\<lparr>rw_literals := rw_literals (a_rewriter A) @ ExtractConstraints lit\<rparr>,
        a_order = order, a_sets = sets\<rparr>"
    and ss: "int_set_enter (set_parent ?E (A'\<lparr>a_sets := a_sets A\<rparr>)) (a_sets A) n = Inr (sets, rs)"
    by (rule entered_parts [OF run]) (auto simp: h)
  have n0: "n0 = n" using n0 n by simp
  have nv: "wf_expr n" "eval \<rho> n = Some 1"
    using checked_rewrite_keeps [OF set st(1,2,5) n [unfolded rewrite_def]] c by auto
  have "cib_describes (a_bounds A) (exact_env \<rho>)"
    using exact_env_facts [OF ck(3) st(1)] st(2) by (simp add: cib_describes_def)
  from cib_describes_enter [OF this _ _ bs] have "cib_describes bounds (exact_env \<rho>)"
    using usable nv by (simp add: cib_covers_def bound_covers_def n0)
  then have bounds: "bounds_hold bounds \<rho> \<and> wf_bounds bounds"
    by (simp add: cib_describes_def bounds_hold_def exact_env_def)
  have moduli: "entries_hold moduli \<rho> \<and> wf_entries moduli"
    by (rule ms_enter_sound [OF st(3,4) nv(1) _ nv(2) ms]) (use usable n0 in simp)
  have "eval \<rho> lit = Some 1"
    using checked_rewrite_keeps(2) [OF set _ _ st(5), of bounds n lit] lit bounds nv(2) by (simp add: rewrite_def)
  then have "\<forall>e\<in>set (ExtractConstraints lit). eval \<rho> e = Some 1"
    unfolding ExtractConstraints_def by (intro extract_loop_true) simp_all
  then have "rewriter_true \<rho> (a_rewriter A')"
    using st(5) by (auto simp: A' rewriter_true_def rw_wf_def literals_hold_def list_all_iff)
  moreover have "tc_wf order \<and> tc_describes order \<rho>" by (rule tc_enter_sound [OF ck(2) st(6,7) od nv(2)])
  ultimately have A1: "analyzer_true \<rho> (A'\<lparr>a_sets := a_sets A\<rparr>)"
    using bounds moduli st(8) by (simp add: A' analyzer_true_def)
  have "set_holds sets \<rho>"
    by (rule int_set_enter_holds [OF facade.set_parent_sound ck(1) st(8) ss nv(2)]) (use set A1 in simp)
  then show ?thesis using A1 by (simp add: A' analyzer_true_def)
qed

text \<open>Each analysis answers as it did before the scope.\<close>

definition same_answers :: "'f host \<Rightarrow> 'f projection \<Rightarrow> (nat list \<Rightarrow> nat) \<Rightarrow> 'f analyzer \<Rightarrow> 'f analyzer \<Rightarrow> bool" where
  "same_answers H S pick A A' \<longleftrightarrow>
     (\<forall>e. bound_of (code_engine H S pick) A' e = bound_of (code_engine H S pick) A e) \<and>
     (\<forall>e. rewrite (code_engine H S pick) A' e = rewrite (code_engine H S pick) A e) \<and>
     (\<forall>e :: 'f expr. ms_visit (a_moduli A') e = ms_visit (a_moduli A) e) \<and> a_sets A' = a_sets A \<and>
     (\<forall>a b. e_compare (code_engine H S pick) (a_order A') a b = e_compare (code_engine H S pick) (a_order A) a b \<or>
       e_compare (code_engine H S pick) (a_order A) a b = Some (Inr kUnknown))"

lemma exit_restores:
  fixes H :: "'f host"
  assumes "ptr_ok H" and "no_everything (a_sets A)"
    and run: "GetConstraintContext (code_engine H S pick) c A = Inr (A', ctx)"
  shows "\<exists>A''. ExitScope ctx A' = Inr (A'', ctx\<lparr>ctx_exited := True\<rparr>) \<and> same_answers H S pick A A''"
proof -
  let ?E = "code_engine H S pick"
  have h: "e_host ?E = H" by (simp add: code_engine_def)
  obtain n bounds rb moduli rm lit order ro sets rs where
    bs: "cib_enter_constraint H (a_bounds A) n = Inr (bounds, rb)"
    and ms: "ms_enter_constraint (a_moduli A) n = Inr (moduli, rm)"
    and od: "tc_enter_constraint H (a_order A) n = Inr (order, ro)"
    and A': "A' = \<lparr>a_bounds = bounds, a_moduli = moduli,
        a_rewriter = (a_rewriter A)\<lparr>rw_literals := rw_literals (a_rewriter A) @ ExtractConstraints lit\<rparr>,
        a_order = order, a_sets = sets\<rparr>"
    and ss: "int_set_enter (set_parent ?E (A'\<lparr>a_sets := a_sets A\<rparr>)) (a_sets A) n = Inr (sets, rs)"
    and ctx: "ctx = \<lparr>ctx_exited = False, ctx_recovery =
           [RecoverBounds rb] @ (case rm of None \<Rightarrow> [] | Some _ \<Rightarrow> [RecoverModuli rm]) @
           [RecoverLiterals (length (rw_literals (a_rewriter A))), RecoverOrder ro] @
           (if rs = [] then [] else [RecoverSets rs])\<rparr>"
    by (rule entered_parts [OF run]) (auto simp: h)
  define order' where "order' = (a_order A)\<lparr>key_exprs := key_exprs order\<rparr>"
  have o': "tc_recover ro order = Inr order'" and keys: "\<exists>xs. key_exprs order' = key_exprs (a_order A) @ xs"
    using tc_recover_enter [OF assms(1) od] by (simp_all add: order'_def)
  have sets: "int_set_recover rs sets = a_sets A"
    using set_parse_undoes [OF ss [unfolded int_set_enter_def], of "a_sets A"] assms(2)
    by (simp add: scope_undoes_def int_set_recover_def)
  have none: "rm = None \<Longrightarrow> ms_recover rm moduli = moduli" "rs = [] \<Longrightarrow> int_set_recover rs sets = sets"
    by (simp_all add: ms_recover_def int_set_recover_def)
  define A'' where "A'' = \<lparr>a_bounds = cib_recover rb bounds, a_moduli = ms_recover rm moduli,
    a_rewriter = a_rewriter A, a_order = order', a_sets = a_sets A\<rparr>"
  have "ExitScope ctx A' = Inr (A'', ctx\<lparr>ctx_exited := True\<rparr>)"
    using o' sets none
    by (cases "rs = []"; cases rm)
      (simp_all add: ExitScope_def ctx recover_def A' A''_def rw_recover_def)
  moreover have "cib_visit H (a_bounds A'') = cib_visit H (a_bounds A)"
    using cib_visit_lookup [OF cib_leave_enter [OF bs]] by (auto simp: A''_def)
  moreover have "ms_visit (a_moduli A'') e = ms_visit (a_moduli A) e" for e :: "'f expr"
    using ms_visit_lookup [OF ms_leave_enter [OF ms]] by (simp add: A''_def)
  moreover have "TryCompare H pick order' a b True = TryCompare H pick (a_order A) a b True \<or>
      TryCompare H pick (a_order A) a b True = Some (Inr kUnknown)" for a b
  proof -
    obtain xs where xs: "key_exprs order' = key_exprs (a_order A) @ xs" using keys by blast
    have "tc_facts order' = tc_facts (a_order A)" by (simp add: order'_def tc_facts_def)
    from TryCompare_more_keys [OF xs this] show ?thesis by blast
  qed
  ultimately show ?thesis
    by (auto simp: same_answers_def bound_of_def rewrite_def code_engine_def A''_def)
qed

section \<open>The properties\<close>

text \<open>
  Conversions may wrap: \<open>lossless\<close> says of one expression that no conversion it meets loses its operand's value.
  The state of the analyzer is read mathematically. \<open>setting\<close> collects what holds of the host and the
  environment: equal pointers are equal expressions, the hash set yields one of its elements, nodes of equal projection have
  equal values, and calls return what the table of operator ranges says.
\<close>

text \<open>
  Claim C3. What \<open>CanProve\<close> proves is true. If it proves a condition over the checked engine, whose bound queries
  are those about expressions with all values strictly inside the 64-bit range and conversions that fit, and whose
  canonical queries have no divisor of a remainder at the sentinel \<open>kPosInf\<close>, then the code returns true as well, and
  the condition does not evaluate to false in the environment of which the five analyses are true. Conversions
  may wrap, but none that the condition meets loses its operand's value. This covers the bounds of the simplified difference,
  the transitive comparison, both directions of the symbolic fallback, with the inner proofs it
  starts, and conjunctions of any depth.
\<close>

theorem CanProve_true:
  assumes "setting H S pick (mathematical \<rho>)" and "analyzer_true (mathematical \<rho>) A"
    and "CanProve (checked_engine H S pick (mathematical \<rho>)) A c = Inr True" and "lossless \<rho> c"
  shows "CanProve (code_engine H S pick) A c = Inr True \<and> eval \<rho> c \<noteq> Some 0"
  using assms res_leD [OF CanProve_mono [OF checked_le]] facade.CanProve_sound lossless_eval [OF assms(4)] by metis

text \<open>
  Claim C10. Binding a variable to an expression of the same value keeps all five analyses true, for
  boolean variables, which only the rewriter records, and for any other: when \<open>Bind\<close> succeeds over the checked
  engine, so that its bound query is about an expression with all values strictly inside the 64-bit range and
  conversions that fit. The code then computes the same state. Conversions may wrap, but none that the bound expression
  meets loses its operand's value.
\<close>

theorem Bind_true:
  assumes "setting H S pick (mathematical \<rho>)" and "analyzer_true (mathematical \<rho>) A"
    and "Bind (checked_engine H S pick (mathematical \<rho>)) i t e A = Inr A'"
    and "eval \<rho> (Var i t :: 'f expr) = Some v" and "lossless \<rho> e" and "eval \<rho> (e :: 'f expr) = Some v"
  shows "Bind (code_engine H S pick) i t e A = Inr A' \<and> analyzer_true (mathematical \<rho>) A'"
proof -
  have "eval (mathematical \<rho>) (Var i t :: 'f expr) = Some v" "eval (mathematical \<rho>) e = Some v"
    using assms(4-6) by (simp_all add: lossless_eval split: if_splits)
  from Bind_keeps [OF assms(1-3) this] show ?thesis using res_leD [OF Bind_mono [OF checked_le] assms(3)] by blast
qed

text \<open>
  Claim C11. Binding a variable to a half-open range of 64-bit literals that contains its value keeps all five analyses
  true, also for the range of one value, where the congruence analysis and the rewriter are given that value: when
  \<open>Bind\<close> succeeds over the checked engine, and the code then computes the same state.
\<close>

theorem Bind_range_true:
  assumes "setting H S pick (mathematical \<rho>)" and "analyzer_true (mathematical \<rho>) A"
    and "Bind_range (checked_engine H S pick (mathematical \<rho>) :: 'f engine) i t lo hi A = Inr A'"
    and "eval \<rho> (Var i t :: 'f expr) = Some v" and "lo \<le> v" and "v < hi" and "is_i64 lo" and "is_i64 hi"
  shows "Bind_range (code_engine H S pick) i t lo hi A = Inr A' \<and> analyzer_true (mathematical \<rho>) A'"
proof -
  have "eval (mathematical \<rho>) (Var i t :: 'f expr) = Some v" using assms(4) by (simp split: if_splits)
  from Bind_range_keeps [OF assms(1-3) this assms(5-8)] show ?thesis
    using res_leD [OF Bind_range_mono [OF checked_le] assms(3)] by blast
qed

text \<open>
  Claim C8. Entering a constraint that holds keeps all analyses true: each gets the constraint as
  the rewriter normalised it, and the symbolic intervals may prove what they need from the others,
  which know it already. The scope is entered over the checked engine, and the code then computes the same; the values of
  the normalised constraint and of all its operands lie strictly inside the 64-bit range with conversions that fit
  (\<open>bound_covers\<close>), and it is not a congruence with a negative modulus, which the congruence analysis gets wrong
  (\<open>negative_modulus_unsound\<close>). Conversions may wrap, but none that the constraint meets loses its operand's value.
\<close>

theorem GetConstraintContext_true:
  assumes "setting H S pick (mathematical \<rho>)" and "analyzer_true (mathematical \<rho>) A"
    and "GetConstraintContext (checked_engine H S pick (mathematical \<rho>) :: 'f engine) c A = Inr (A', ctx)"
    and "rewrite (checked_engine H S pick (mathematical \<rho>)) A c = Inr n" and "bound_covers (mathematical \<rho>) n"
    and "positive_modulus n" and "lossless \<rho> c" and "eval \<rho> c = Some 1"
  shows "GetConstraintContext (code_engine H S pick) c A = Inr (A', ctx) \<and> analyzer_true (mathematical \<rho>) A'"
proof -
  have "eval (mathematical \<rho>) c = Some 1" using assms(7,8) by (simp add: lossless_eval)
  from GetConstraintContext_keeps [OF assms(1-6) this] show ?thesis
    using res_leD [OF GetConstraintContext_mono [OF checked_le] assms(3)] by blast
qed

text \<open>
  Claim C9. Leaving a constraint scope runs the recovery functions without a failure and
  restores every answer: bounds, rewriting, congruences and symbolic intervals exactly, and each
  comparison unless it was unknown before. Leaving it a second time does nothing. This is for an analyzer in which no
  variable has an explicit symbolic interval without bounds, which \<open>Update\<close> accepts and the recovery
  function does not restore (\<open>everything_not_restored\<close>).
\<close>

theorem ExitScope_restores:
  assumes "ptr_ok H" and "no_everything (a_sets A)"
    and "GetConstraintContext (code_engine H S pick) c A = Inr (A', ctx)"
  shows "\<exists>A'' ctx'. ExitScope ctx A' = Inr (A'', ctx') \<and> same_answers H S pick A A'' \<and>
    ExitScope ctx' B = Inr (B, ctx')"
proof -
  obtain A'' where "ExitScope ctx A' = Inr (A'', ctx\<lparr>ctx_exited := True\<rparr>)" "same_answers H S pick A A''"
    using exit_restores [OF assms] by blast
  moreover have "ExitScope (ctx\<lparr>ctx_exited := True\<rparr>) B = Inr (B, ctx\<lparr>ctx_exited := True\<rparr>)"
    by (simp add: ExitScope_def)
  ultimately show ?thesis by blast
qed

section \<open>Witnesses\<close>

text \<open>In the scope of \<open>x + 2 <= n && n <= m\<close> the facade proves \<open>x < m\<close>.\<close>

definition facade_start :: "int analyzer" where
  "facade_start = \<lparr>a_bounds = Map.empty, a_moduli = Map.empty, a_rewriter = standalone_rewriter,
     a_order = order_tc, a_sets = Map.empty\<rparr>"

abbreviation example_engine :: "int engine" where
  "example_engine \<equiv> checked_engine int_host plain_projection hd order_env"

definition goal_less :: "int expr" where
  "goal_less = ibin KLt (ivar 0) (ivar 2)"

definition goal_diff :: "int expr" where
  "goal_diff = Binary KSub (ivar 0) (ivar 2) INDEX"

lemma example_rewrites:
  "rw_simplify int_host plain_projection (standalone_rewriter\<lparr>rw_parent := P\<rparr>) goal_less = Inr goal_less"
  "rw_simplify int_host plain_projection (standalone_rewriter\<lparr>rw_parent := P\<rparr>) goal_diff = Inr goal_diff"
  by (simp_all add: goal_less_def goal_diff_def rewrite_compute int_instance_defs plain_projection_def standalone_rewriter_def
      lt_rules_def sub_rules_def cong: res_bind_weak_cong del: res_bind_eq_Inr)

lemma diff_bound: "cib_visit int_host Map.empty goal_diff = Inr Everything"
  by code_simp

lemma example_queries:
  "rewrite example_engine facade_start goal_less = Inr goal_less"
  "rewrite example_engine facade_start goal_diff = Inr goal_diff"
  "bound_of example_engine facade_start goal_diff = Inr Everything"
proof -
  have "wf_expr goal_less" "wf_expr goal_diff" by (simp_all add: goal_less_def goal_diff_def int_instance_defs)
  then show "rewrite example_engine facade_start goal_less = Inr goal_less"
    "rewrite example_engine facade_start goal_diff = Inr goal_diff"
    by (simp_all add: rewrite_def checked_engine_def facade_start_def only_if_def example_rewrites)
  have "bound_covers order_env goal_diff" by code_simp
  then show "bound_of example_engine facade_start goal_diff = Inr Everything"
    by (simp add: bound_of_def checked_engine_def facade_start_def checked_bound_def diff_bound)
qed

lemma example_setting: "setting int_host plain_projection hd order_env"
  by (simp add: setting_def picks_hd order_env_exact leaves_agree_def plain_projection_def calls_hold_def int_host_ok)
     (simp add: order_env_def)

lemma example_true: "analyzer_true order_env facade_start"
  using order_states(5,6)
  by (simp add: analyzer_true_def facade_start_def bounds_hold_def wf_bounds_def entries_hold_def wf_entries_def
      rewriter_true_def rw_wf_def literals_hold_def standalone_rewriter_def set_holds_def)

lemma example_proved: "CanProve example_engine facade_start goal_less = Inr True"
proof -
  let ?l = "Var 0 (Some INDEX) :: int expr" and ?r = "Var 2 (Some INDEX) :: int expr"
  have s: "Simplify example_engine facade_start goal_less = Inr goal_less"
    "Simplify example_engine facade_start goal_diff = Inr goal_diff"
    by (simp_all add: Simplify_def Simplify_steps_def numeral_2_eq_2 example_queries del: res_bind_eq_Inr)
  have g: "goal_less = Binary KLt ?l ?r BOOL" by (simp add: goal_less_def int_instance_defs)
  have d: "MakeBinary KSub ?l ?r = Inr goal_diff" by code_simp
  have c: "compare_implies example_engine facade_start ?l ?r kLT = Inr True"
    using order_compare
    by (simp add: compare_implies_def checked_engine_def facade_start_def returned_def ResultImplies_def
        cr_and_def cr_of_code_def ivar_def)
  have "prove_ordered example_engine facade_start F (\<lambda>b. max_value b < 0) kLT True True ?l ?r = Inr True" for F
    by (simp add: prove_ordered_def d simplified_bound_def s example_queries c del: res_bind_eq_Inr)
  then show ?thesis
    by (simp add: CanProve_def returned_def can_prove.simps s(1)) (simp add: g prove_comparison_def)
qed

lemma CanProve_true_witness:
  "CanProve (code_engine int_host plain_projection hd) facade_start goal_less = Inr True \<and>
   eval (order_env\<lparr>ccast := cast_wrap\<rparr>) goal_less \<noteq> Some 0"
proof -
  have m: "mathematical (order_env\<lparr>ccast := cast_wrap\<rparr>) = order_env"
    by (simp add: mathematical_def order_env_def env_of_def)
  have "lossless (order_env\<lparr>ccast := cast_wrap\<rparr>) goal_less" by (simp add: goal_less_def int_instance_defs)
  from CanProve_true [of int_host plain_projection hd "order_env\<lparr>ccast := cast_wrap\<rparr>", unfolded m,
      OF example_setting example_true example_proved this]
  show ?thesis .
qed

lemma example_more_rewrites:
  "rw_simplify int_host plain_projection (standalone_rewriter\<lparr>rw_parent := P\<rparr>) (ibin KLe (ivar 0) (ivar 1)) =
     Inr (ibin KLe (ivar 0) (ivar 1))"
  "rw_simplify int_host plain_projection (standalone_rewriter\<lparr>rw_parent := P\<rparr>) (ibin KAdd (ivar 0) (ilit 4)) =
     Inr (ibin KAdd (ivar 0) (ilit 4))"
  by (simp_all add: rewrite_compute int_instance_defs plain_projection_def standalone_rewriter_def
      le_rules_def add_rules_def cong: res_bind_weak_cong del: res_bind_eq_Inr)

text \<open>\<open>k\<close> bound to \<open>x + 4\<close>.\<close>

definition alias_start :: "int analyzer" where
  "alias_start = facade_start\<lparr>a_order := bound_tc\<rparr>"

lemma alias_start_true: "analyzer_true alias_env alias_start"
  using order_states(3) alias_env_ok(2)
  by (simp add: analyzer_true_def alias_start_def facade_start_def bounds_hold_def wf_bounds_def entries_hold_def
      wf_entries_def rewriter_true_def rw_wf_def literals_hold_def standalone_rewriter_def set_holds_def)

lemma alias_setting: "setting int_host plain_projection hd alias_env"
  by (simp add: setting_def picks_hd alias_env_ok leaves_agree_def plain_projection_def calls_hold_def int_host_ok)
     (simp add: alias_env_def)

lemma alias_queries:
  "bound_covers alias_env (ibin KAdd (ivar 0) (ilit 4))"
  "cib_visit int_host Map.empty (ibin KAdd (ivar 0) (ilit 4)) = Inr Everything"
  "ms_visit Map.empty (ibin KAdd (ivar 0) (ilit 4)) = Inr AnyEntry"
  by code_simp+

lemma Bind_true_witness:
  "\<exists>A. Bind (code_engine int_host plain_projection hd) 3 (Some INDEX) (ibin KAdd (ivar 0) (ilit 4)) alias_start = Inr A \<and>
    a_order A = alias_tc \<and> analyzer_true alias_env A"
proof -
  let ?e = "ibin KAdd (ivar 0) (ilit 4)" and ?E = "checked_engine int_host plain_projection hd alias_env :: int engine"
  have rw: "rewrite ?E alias_start ?e = Inr ?e"
    by (simp add: rewrite_def checked_engine_def alias_start_def facade_start_def only_if_def example_more_rewrites)
       (simp add: int_instance_defs is_i64_alt)
  have b: "bound_of ?E alias_start ?e = Inr Everything"
    using alias_queries(1,2) by (simp add: bound_of_def checked_engine_def alias_start_def facade_start_def checked_bound_def)
  have d: "GetScalarDtype (Var 3 (Some INDEX) :: int expr) = Inr INDEX" by code_simp
  have m: "ms_update 3 (coeff AnyEntry) (base AnyEntry) Map.empty = Inr [3 \<mapsto> AnyEntry]"
    by (simp add: ms_update_def mk_entry_eq AnyEntry_def)
  obtain A where A: "Bind ?E 3 (Some INDEX) ?e alias_start = Inr A" and o': "a_order A = alias_tc"
    using alias_tc_bind rw b d m alias_queries(3)
    by (auto simp: Bind_def cib_update_def index_not_bool Everything_def alias_start_def facade_start_def checked_engine_def
        ivar_def kNegInf_def kPosInf_def limits_defs)
  have "eval alias_env (Var 3 (Some INDEX) :: int expr) = Some 7" and "eval alias_env ?e = Some 7"
    by (simp_all add: alias_env_def int_instance_defs)
  moreover have "mathematical alias_env = alias_env" by (rule mathematical_exact [OF alias_env_ok(1)])
  ultimately show ?thesis
    using Bind_true [of int_host plain_projection hd alias_env alias_start 3 "Some INDEX" ?e A 7] alias_setting
      alias_start_true A o' lossless_exact [OF alias_env_ok(1), of ?e] by metis
qed

definition empty_start :: "int analyzer" where
  "empty_start = facade_start\<lparr>a_order := empty_tc\<rparr>"

lemma empty_start_true: "analyzer_true order_env empty_start"
  using example_true order_states(1,2) by (simp add: analyzer_true_def empty_start_def)

lemma Bind_range_true_witness:
  "\<exists>A. Bind_range (code_engine int_host plain_projection hd) 0 (Some INDEX) 0 8 empty_start = Inr A \<and>
    a_order A = bound_tc \<and> analyzer_true order_env A"
proof -
  have d: "GetScalarDtype (Var 0 (Some INDEX) :: int expr) = Inr INDEX" by code_simp
  have s: "int_set_bind int_host P 0 (MakeConstInt 0 INDEX) (MakeConstInt 8 INDEX) m =
      Inr (m(0 \<mapsto> Interval (Some (MakeConstInt 0 INDEX)) (Some (MakeConstInt 7 INDEX))))" for P m
  proof -
    have "MakeBinary KSub (MakeConstInt 8 INDEX :: int expr) (MakeConstInt 1 INT64) =
        Inr (Binary KSub (MakeConstInt 8 INDEX) (MakeConstInt 1 INT64) INDEX)" by code_simp
    moreover have "TryConstFold int_host (Binary KSub (MakeConstInt 8 INDEX) (MakeConstInt 1 INT64) INDEX) =
        Inr (Some (MakeConstInt 7 INDEX))" by code_simp
    ultimately show ?thesis by (simp add: int_set_bind_def)
  qed
  obtain A where A: "Bind_range (checked_engine int_host plain_projection hd order_env :: int engine)
        0 (Some INDEX) 0 8 empty_start = Inr A" and o': "a_order A = bound_tc"
    using bound_tc_bind d
    by (auto simp: Bind_range_def Let_def s [unfolded MakeConstInt_def] MakeConstInt_def cib_bind_def empty_start_def
        checked_engine_def ivar_def is_i64_alt)
  have "eval order_env (Var 0 (Some INDEX) :: int expr) = Some 3" by (simp add: order_env_def)
  moreover have m: "mathematical order_env = order_env" by (rule mathematical_exact [OF order_env_exact])
  ultimately show ?thesis
    using Bind_range_true [of int_host plain_projection hd order_env, unfolded m, OF example_setting empty_start_true A] o'
    by (simp add: is_i64_alt)
qed

text \<open>The scope of \<open>x <= n\<close>.\<close>

definition scope_guard :: "int expr" where
  "scope_guard = ibin KLe (ivar 0) (ivar 1)"

lemma scope_parts:
  "cib_enter_constraint int_host Map.empty scope_guard = Inr (Map.empty, [])"
  "ms_enter_constraint Map.empty scope_guard = Inr (Map.empty, None)"
  "bound_covers order_env scope_guard" "positive_modulus scope_guard"
  "\<exists>st sizes. tc_enter_constraint int_host bound_tc scope_guard = Inr (st, sizes)"
  "\<exists>m rec. int_set_enter Q Map.empty scope_guard = Inr (m, rec)"
proof -
  have "\<not> is_const DefaultBound" by code_simp
  then show "cib_enter_constraint int_host Map.empty scope_guard = Inr (Map.empty, [])"
    by (simp add: cib_enter_constraint_def scope_guard_def int_instance_defs parse_compare_def)
  show "ms_enter_constraint Map.empty scope_guard = Inr (Map.empty, None)"
    by (simp add: ms_enter_constraint_def ms_constraint_entry_def scope_guard_def int_instance_defs)
  show "bound_covers order_env scope_guard" "positive_modulus scope_guard"
    by code_simp+
  show "\<exists>st sizes. tc_enter_constraint int_host bound_tc scope_guard = Inr (st, sizes)"
    by (intro exI) code_simp
  show "\<exists>m rec. int_set_enter Q Map.empty scope_guard = Inr (m, rec)"
    by (simp add: int_set_enter_def scope_guard_def int_instance_defs tighten_simps mirror_def Let_def)
qed

lemma scope_rewrite:
  "a_rewriter A = standalone_rewriter \<Longrightarrow>
   rewrite (checked_engine int_host plain_projection hd order_env) A scope_guard = Inr scope_guard"
  by (simp add: rewrite_def checked_engine_def only_if_def example_more_rewrites(1) [folded scope_guard_def])
     (simp add: scope_guard_def int_instance_defs)

lemma scope_start_true: "analyzer_true order_env alias_start"
  using example_true order_states(3,4) by (simp add: analyzer_true_def alias_start_def)

lemma scope_entered:
  "\<exists>A ctx. GetConstraintContext (checked_engine int_host plain_projection hd order_env) scope_guard alias_start = Inr (A, ctx)"
proof -
  obtain st sizes where "tc_enter_constraint int_host bound_tc scope_guard = Inr (st, sizes)"
    using scope_parts(5) by blast
  moreover have "a_rewriter alias_start = standalone_rewriter" "a_bounds alias_start = Map.empty"
    "a_moduli alias_start = Map.empty" "a_order alias_start = bound_tc" "a_sets alias_start = Map.empty"
    by (simp_all add: alias_start_def facade_start_def)
  moreover have "e_host (checked_engine int_host plain_projection hd order_env) = int_host"
    by (simp add: checked_engine_def)
  ultimately show ?thesis
    using scope_parts(1,2) scope_parts(6) scope_rewrite
    by (fastforce simp: GetConstraintContext_def Let_def)
qed

lemma GetConstraintContext_true_witness:
  "\<exists>A ctx. GetConstraintContext (code_engine int_host plain_projection hd) scope_guard alias_start = Inr (A, ctx) \<and>
    analyzer_true order_env A"
proof -
  obtain A ctx where A: "GetConstraintContext (checked_engine int_host plain_projection hd order_env)
      scope_guard alias_start = Inr (A, ctx)"
    using scope_entered by blast
  have r: "rewrite (checked_engine int_host plain_projection hd order_env) alias_start scope_guard = Inr scope_guard"
    by (rule scope_rewrite) (simp add: alias_start_def facade_start_def)
  have e: "eval order_env scope_guard = Some 1"
    by (simp add: scope_guard_def order_env_def int_instance_defs)
  have m: "mathematical order_env = order_env" by (rule mathematical_exact [OF order_env_exact])
  from GetConstraintContext_true [of int_host plain_projection hd order_env, unfolded m, OF example_setting
      scope_start_true A r scope_parts(3,4) lossless_exact [OF order_env_exact] e]
  show ?thesis by blast
qed

lemma ExitScope_restores_witness:
  "\<exists>A ctx A'' ctx'. GetConstraintContext (code_engine int_host plain_projection hd) scope_guard alias_start = Inr (A, ctx) \<and>
    ExitScope ctx A = Inr (A'', ctx') \<and> same_answers int_host plain_projection hd alias_start A''"
proof -
  obtain A ctx where "GetConstraintContext (checked_engine int_host plain_projection hd order_env)
      scope_guard alias_start = Inr (A, ctx)"
    using scope_entered by blast
  then have A: "GetConstraintContext (code_engine int_host plain_projection hd) scope_guard alias_start = Inr (A, ctx)"
    by (rule res_leD [OF GetConstraintContext_mono [OF checked_le]])
  have n: "no_everything (a_sets alias_start)"
    by (simp add: no_everything_def alias_start_def facade_start_def)
  from ExitScope_restores [OF int_host_ok n A] A show ?thesis by blast
qed

end
