(* ===== verification/Dsa_Problem.thy ===== *)
theory Dsa_Problem
  imports Arith_Prelude "HOL-Library.Product_Lexorder" "HOL-Library.Multiset"
begin

text \<open>
  The storage allocation problem of
  \<^verbatim>\<open>include/pypto/ir/transforms/dsa/dsa_reuse_penalty_solver.h\<close> and its independent checks
  (\<^verbatim>\<open>src/ir/transforms/dsa/dsa_reuse_penalty_solver.cpp\<close>): buffers with a size, an alignment and
  a half-open lifetime are placed in the pool they belong to; buffers that are alive together or
  separated explicitly must not overlap, the others may at the cost of a penalty.

  An \<open>uint64_t\<close> is a \<open>nat\<close>; the additions the code guards are guarded here, the others wrap
  (\<open>add_u64\<close>). A diagnostic is a constructor with the numbers of the message. A \<open>std::map\<close> is an
  association list in the order of its keys, a \<open>std::unordered_map\<close> built with \<open>emplace\<close> the
  \<open>map_of\<close> of the inserted pairs: the first one of a key stays.

  Shown: the validation of a problem accepts exactly the well-formed problems, the validation of a
  solution exactly the placements that respect capacity, alignment, reserved ranges and conflicts
  as sets of addresses; the objective counts the penalties of the buffers that share an address;
  and relaxing separations keeps every placement legal and charges exactly the relaxed pairs.
\<close>

section \<open>Unsigned 64-bit arithmetic\<close>

definition u64_max :: nat where
  "u64_max = 18446744073709551615"

definition add_u64 :: "nat \<Rightarrow> nat \<Rightarrow> nat" where
  "add_u64 a b = (a + b) mod (u64_max + 1)"

definition AddOverflows :: "nat \<Rightarrow> nat \<Rightarrow> bool" where
  "AddOverflows first second \<longleftrightarrow> first > u64_max - second"

definition SaturatingAdd :: "nat \<Rightarrow> nat \<Rightarrow> nat" where
  "SaturatingAdd first second = (if AddOverflows first second then u64_max else add_u64 first second)"

definition AlignUp :: "nat \<Rightarrow> nat \<Rightarrow> nat option" where
  "AlignUp value alignment =
     (if alignment \<le> 1 then Some value
      else let remainder = value mod alignment in
        if remainder = 0 then Some value
        else let delta = alignment - remainder in
          if AddOverflows value delta then None else Some (add_u64 value delta))"

definition RangesOverlap :: "nat \<Rightarrow> nat \<Rightarrow> nat \<Rightarrow> nat \<Rightarrow> bool" where
  "RangesOverlap first_offset first_size second_offset second_size \<longleftrightarrow>
     (if first_size = 0 \<or> second_size = 0 \<or> AddOverflows first_offset first_size \<or>
        AddOverflows second_offset second_size then False
      else first_offset < add_u64 second_offset second_size \<and> second_offset < add_u64 first_offset first_size)"

lemma add_u64_eq [simp]: "a + b \<le> u64_max \<Longrightarrow> add_u64 a b = a + b"
  by (simp add: add_u64_def)

lemma AddOverflows_iff [simp]: "b \<le> u64_max \<Longrightarrow> AddOverflows a b \<longleftrightarrow> u64_max < a + b"
  by (auto simp: AddOverflows_def)

lemma SaturatingAdd_eq: "b \<le> u64_max \<Longrightarrow> SaturatingAdd a b = min u64_max (a + b)"
  by (auto simp: SaturatingAdd_def)

text \<open>The aligned addresses from an address on; \<open>AlignUp\<close> gives the lowest.\<close>

lemma AlignUp_some:
  assumes "AlignUp v al = Some o'" and "0 < al" and "al \<le> u64_max"
  shows "al dvd o'" and "v \<le> o'" and "\<And>q. al dvd q \<Longrightarrow> v \<le> q \<Longrightarrow> o' \<le> q"
proof -
  have *: "al dvd o' \<and> v \<le> o' \<and> o' < v + al"
  proof (cases "v mod al = 0")
    case True
    then show ?thesis using assms by (auto simp: AlignUp_def Let_def dvd_eq_mod_eq_0 split: if_splits)
  next
    case False
    have "\<not> al \<le> 1" using False assms(2) by (cases "al = 1") auto
    have "v mod al < al" using assms(2) by simp
    have o': "o' = v + (al - v mod al)"
      using assms(1,3) False \<open>\<not> al \<le> 1\<close> \<open>v mod al < al\<close>
      unfolding AlignUp_def Let_def by (simp split: if_splits)
    have "o' = al * (v div al) + v mod al + (al - v mod al)" by (simp add: o')
    then have "o' = al * (v div al) + al" using \<open>v mod al < al\<close> by linarith
    then have "al dvd o'" by simp
    moreover have "v \<le> o' \<and> o' < v + al" using o' \<open>v mod al < al\<close> False by linarith
    ultimately show ?thesis by blast
  qed
  then show "al dvd o'" and "v \<le> o'" by simp_all
  fix q assume q: "al dvd q" "v \<le> q"
  show "o' \<le> q"
  proof (rule ccontr)
    assume "\<not> o' \<le> q"
    obtain a b where "o' = al * a" and "q = al * b" using * q(1) by (auto elim!: dvdE)
    with \<open>\<not> o' \<le> q\<close> have "b < a" using assms(2) by simp
    then have "al * b + al \<le> al * a" by (metis Suc_leI add.commute mult_Suc_right mult_le_mono2)
    with * q(2) \<open>o' = al * a\<close> \<open>q = al * b\<close> show False by linarith
  qed
qed

lemma AlignUp_none:
  assumes "AlignUp v al = None" and "0 < al" and "al \<le> u64_max" and "al dvd q" and "v \<le> q"
  shows "u64_max < q"
proof (rule ccontr)
  assume "\<not> u64_max < q"
  have m: "v mod al \<noteq> 0" "v mod al < al" "u64_max < v + (al - v mod al)"
    using assms(1-3) by (auto simp: AlignUp_def Let_def split: if_splits)
  obtain k where q: "q = al * k" using assms(4) by (auto elim: dvdE)
  have v: "al * (v div al) + v mod al = v" by simp
  have "v div al < k"
  proof (rule ccontr)
    assume "\<not> v div al < k"
    then have "q \<le> al * (v div al)" by (simp add: q)
    with assms(5) v m(1) show False by linarith
  qed
  then have "al * (v div al) + al \<le> q" unfolding q by (metis Suc_leI add.commute mult_Suc_right mult_le_mono2)
  with \<open>\<not> u64_max < q\<close> m v show False by linarith
qed

lemma AlignUp_zero [simp]: "AlignUp 0 al = Some 0"
  by (simp add: AlignUp_def)

lemma AlignUp_u64: "AlignUp v al = Some q \<Longrightarrow> v \<le> u64_max \<Longrightarrow> q \<le> u64_max"
  by (auto simp: AlignUp_def Let_def add_u64_def split: if_splits)

lemma RangesOverlap_iff:
  assumes "s1 \<le> u64_max" and "s2 \<le> u64_max" and "o1 + s1 \<le> u64_max" and "o2 + s2 \<le> u64_max"
  shows "RangesOverlap o1 s1 o2 s2 \<longleftrightarrow> {o1..<o1 + s1} \<inter> {o2..<o2 + s2} \<noteq> {}"
proof -
  have "{o1..<o1 + s1} \<inter> {o2..<o2 + s2} \<noteq> {} \<longleftrightarrow> 0 < s1 \<and> 0 < s2 \<and> o1 < o2 + s2 \<and> o2 < o1 + s1"
    by (simp add: Int_atLeastLessThan) blast
  then show ?thesis using assms by (simp add: RangesOverlap_def)
qed

section \<open>Ordered maps\<close>

text \<open>\<open>m[k] = v\<close> on a \<open>std::map\<close>, and \<open>m[k]\<close> of a missing key, which is 0.\<close>

fun map_put :: "'k::linorder \<Rightarrow> 'v \<Rightarrow> ('k \<times> 'v) list \<Rightarrow> ('k \<times> 'v) list" where
  "map_put k v [] = [(k, v)]"
| "map_put k v ((k', v') # m) =
     (if k < k' then (k, v) # (k', v') # m
      else if k = k' then (k, v) # m
      else (k', v') # map_put k v m)"

definition map_get :: "('k \<times> nat) list \<Rightarrow> 'k \<Rightarrow> nat" where
  "map_get m k = (case map_of m k of Some v \<Rightarrow> v | None \<Rightarrow> 0)"

definition map_emplace :: "'k::linorder \<Rightarrow> 'v \<Rightarrow> ('k \<times> 'v) list \<Rightarrow> ('k \<times> 'v) list" where
  "map_emplace k v m = (case map_of m k of None \<Rightarrow> map_put k v m | Some _ \<Rightarrow> m)"

lemma map_of_put [simp]: "map_of (map_put k v m) = (map_of m)(k \<mapsto> v)"
  by (induction k v m rule: map_put.induct) auto

lemma map_put_keys: "fst ` set (map_put k v m) = insert k (fst ` set m)"
  by (induction k v m rule: map_put.induct) auto

lemma map_put_sorted: "sorted_wrt (<) (map fst m) \<Longrightarrow> sorted_wrt (<) (map fst (map_put k v m))"
proof (induction k v m rule: map_put.induct)
  case (2 k v k' v' m)
  then show ?case using map_put_keys [of k v m] by (auto simp: image_iff)
qed simp

lemma map_get_put [simp]: "map_get (map_put k v m) k' = (if k' = k then v else map_get m k')"
  by (simp add: map_get_def)

section \<open>Problems\<close>

record Interval =
  ivl_begin :: int
  ivl_end :: int

definition Overlaps :: "Interval \<Rightarrow> Interval \<Rightarrow> bool" where
  "Overlaps a b \<longleftrightarrow> ivl_begin a < ivl_end b \<and> ivl_begin b < ivl_end a"

record AddressRange =
  ar_begin :: nat
  ar_end :: nat

record Pool =
  pool_id :: int
  capacity :: nat
  reserved_ranges :: "AddressRange list"

record Buffer =
  buf_id :: nat
  buf_size :: nat
  alignment :: nat
  buf_pool :: int
  lifetime :: Interval

record Separation =
  sep_first :: nat
  sep_second :: nat

record ReusePenalty =
  pen_first :: nat
  pen_second :: nat
  weight :: nat

record DsaProblem =
  pools :: "Pool list"
  buffers :: "Buffer list"
  separations :: "Separation list"
  reuse_penalties :: "ReusePenalty list"

text \<open>\<open>DsaSolution::offsets\<close> and \<open>Find\<close>.\<close>

type_synonym DsaSolution = "(nat \<times> nat) list"

definition Find :: "DsaSolution \<Rightarrow> nat \<Rightarrow> nat option" where
  "Find solution i = map_of solution i"

definition PoolsById :: "DsaProblem \<Rightarrow> int \<Rightarrow> Pool option" where
  "PoolsById P = map_of (map (\<lambda>p. (pool_id p, p)) (pools P))"

definition BuffersById :: "DsaProblem \<Rightarrow> nat \<Rightarrow> Buffer option" where
  "BuffersById P = map_of (map (\<lambda>b. (buf_id b, b)) (buffers P))"

definition CanonicalBufferPair :: "nat \<Rightarrow> nat \<Rightarrow> nat \<times> nat" where
  "CanonicalBufferPair first second = (if first < second then (first, second) else (second, first))"

text \<open>The fields fit their C++ types.\<close>

definition u64_problem :: "DsaProblem \<Rightarrow> bool" where
  "u64_problem P \<longleftrightarrow>
     (\<forall>p\<in>set (pools P). capacity p \<le> u64_max \<and>
        (\<forall>r\<in>set (reserved_ranges p). ar_begin r \<le> u64_max \<and> ar_end r \<le> u64_max)) \<and>
     (\<forall>b\<in>set (buffers P). buf_size b \<le> u64_max \<and> alignment b \<le> u64_max) \<and>
     (\<forall>q\<in>set (reuse_penalties P). weight q \<le> u64_max)"

section \<open>Validation of problems\<close>

datatype relation = SeparationRelation | PenaltyRelation

datatype diagnostic =
    DuplicatePool int
  | ZeroCapacity int
  | EmptyReserved int
  | ReservedBeyond int
  | DuplicateBuffer nat
  | ZeroSize nat
  | ZeroAlignment nat
  | InvalidLifetime nat
  | UnknownPool nat int
  | IdenticalEndpoints relation nat
  | UnknownBuffer relation
  | DifferentPools relation
  | LifetimesOverlap
  | WeightExceeds
  | SolutionUnknownBuffer nat
  | NoOffset nat
  | ViolatesAlignment nat
  | RangeOverflows nat
  | ExceedsCapacity nat
  | OverlapsReserved nat
  | HardConflict nat nat
  | FirstFitFailed
  | PlacementFailed
  | NoPlacement

definition diag :: "bool \<Rightarrow> diagnostic \<Rightarrow> diagnostic list" where
  "diag c d = (if c then [d] else [])"

definition validate_reserved :: "Pool \<Rightarrow> AddressRange \<Rightarrow> diagnostic list" where
  "validate_reserved p r =
     (if ar_begin r \<ge> ar_end r then [EmptyReserved (pool_id p)]
      else if ar_end r > capacity p then [ReservedBeyond (pool_id p)]
      else [])"

fun validate_pools :: "int list \<Rightarrow> Pool list \<Rightarrow> diagnostic list" where
  "validate_pools seen [] = []"
| "validate_pools seen (p # ps) =
     diag (pool_id p \<in> set seen) (DuplicatePool (pool_id p)) @
     diag (capacity p = 0) (ZeroCapacity (pool_id p)) @
     concat (map (validate_reserved p) (reserved_ranges p)) @
     validate_pools (pool_id p # seen) ps"

fun validate_buffers :: "DsaProblem \<Rightarrow> nat list \<Rightarrow> Buffer list \<Rightarrow> diagnostic list" where
  "validate_buffers P seen [] = []"
| "validate_buffers P seen (b # bs) =
     diag (buf_id b \<in> set seen) (DuplicateBuffer (buf_id b)) @
     diag (buf_size b = 0) (ZeroSize (buf_id b)) @
     diag (alignment b = 0) (ZeroAlignment (buf_id b)) @
     diag (ivl_begin (lifetime b) < 0 \<or> ivl_begin (lifetime b) \<ge> ivl_end (lifetime b))
       (InvalidLifetime (buf_id b)) @
     diag (PoolsById P (buf_pool b) = None) (UnknownPool (buf_id b) (buf_pool b)) @
     validate_buffers P (buf_id b # seen) bs"

definition validate_pair :: "DsaProblem \<Rightarrow> nat \<Rightarrow> nat \<Rightarrow> relation \<Rightarrow> diagnostic list" where
  "validate_pair P first second kind =
     diag (first = second) (IdenticalEndpoints kind first) @
     (case (BuffersById P first, BuffersById P second) of
        (Some a, Some b) \<Rightarrow> diag (buf_pool a \<noteq> buf_pool b) (DifferentPools kind)
      | _ \<Rightarrow> [UnknownBuffer kind])"

fun validate_penalties :: "DsaProblem \<Rightarrow> nat \<Rightarrow> ReusePenalty list \<Rightarrow> diagnostic list" where
  "validate_penalties P acc [] = []"
| "validate_penalties P acc (q # qs) =
     validate_pair P (pen_first q) (pen_second q) PenaltyRelation @
     (case (BuffersById P (pen_first q), BuffersById P (pen_second q)) of
        (Some a, Some b) \<Rightarrow> diag (buf_pool a = buf_pool b \<and> Overlaps (lifetime a) (lifetime b)) LifetimesOverlap
      | _ \<Rightarrow> []) @
     (if AddOverflows acc (weight q) then WeightExceeds # validate_penalties P acc qs
      else validate_penalties P (add_u64 acc (weight q)) qs)"

definition ValidateProblem :: "DsaProblem \<Rightarrow> diagnostic list" where
  "ValidateProblem P =
     validate_pools [] (pools P) @
     validate_buffers P [] (buffers P) @
     concat (map (\<lambda>s. validate_pair P (sep_first s) (sep_second s) SeparationRelation) (separations P)) @
     validate_penalties P 0 (reuse_penalties P)"

section \<open>Validation of solutions\<close>

definition validate_offset :: "DsaProblem \<Rightarrow> DsaSolution \<Rightarrow> Buffer \<Rightarrow> diagnostic list res" where
  "validate_offset P s b =
     (case Find s (buf_id b) of
        None \<Rightarrow> Inr [NoOffset (buf_id b)]
      | Some off \<Rightarrow>
          if AddOverflows off (buf_size b) then
            Inr (diag (off mod alignment b \<noteq> 0) (ViolatesAlignment (buf_id b)) @ [RangeOverflows (buf_id b)])
          else (case PoolsById P (buf_pool b) of
            None \<Rightarrow> Inl OutOfRange
          | Some p \<Rightarrow> Inr (
              diag (off mod alignment b \<noteq> 0) (ViolatesAlignment (buf_id b)) @
              diag (add_u64 off (buf_size b) > capacity p) (ExceedsCapacity (buf_id b)) @
              concat (map (\<lambda>r. diag (RangesOverlap off (buf_size b) (ar_begin r) (ar_end r - ar_begin r))
                (OverlapsReserved (buf_id b))) (reserved_ranges p)))))"

fun validate_offsets :: "DsaProblem \<Rightarrow> DsaSolution \<Rightarrow> Buffer list \<Rightarrow> diagnostic list res" where
  "validate_offsets P s [] = Inr []"
| "validate_offsets P s (b # bs) =
     res_bind (validate_offset P s b) (\<lambda>ds. res_bind (validate_offsets P s bs) (\<lambda>ds'. Inr (ds @ ds')))"

definition is_separated :: "DsaProblem \<Rightarrow> nat \<Rightarrow> nat \<Rightarrow> bool" where
  "is_separated P i j \<longleftrightarrow>
     CanonicalBufferPair i j \<in> set (map (\<lambda>s. CanonicalBufferPair (sep_first s) (sep_second s)) (separations P))"

definition validate_conflict :: "DsaProblem \<Rightarrow> DsaSolution \<Rightarrow> Buffer \<Rightarrow> Buffer \<Rightarrow> diagnostic list" where
  "validate_conflict P s a b =
     (if buf_pool a \<noteq> buf_pool b then []
      else if \<not> (Overlaps (lifetime a) (lifetime b) \<or> is_separated P (buf_id a) (buf_id b)) then []
      else case (Find s (buf_id a), Find s (buf_id b)) of
        (Some p, Some q) \<Rightarrow>
          diag (RangesOverlap p (buf_size a) q (buf_size b)) (HardConflict (buf_id a) (buf_id b))
      | _ \<Rightarrow> [])"

fun validate_conflicts :: "DsaProblem \<Rightarrow> DsaSolution \<Rightarrow> Buffer list \<Rightarrow> diagnostic list" where
  "validate_conflicts P s [] = []"
| "validate_conflicts P s (a # bs) =
     concat (map (validate_conflict P s a) bs) @ validate_conflicts P s bs"

definition ValidateSolution :: "DsaProblem \<Rightarrow> DsaSolution \<Rightarrow> diagnostic list res" where
  "ValidateSolution P s =
     (let errors = ValidateProblem P in
      if errors \<noteq> [] then Inr errors
      else res_bind (validate_offsets P s (buffers P)) (\<lambda>ds.
        Inr (concat (map (\<lambda>(i, off). diag (BuffersById P i = None) (SolutionUnknownBuffer i)) s) @
             ds @ validate_conflicts P s (buffers P))))"

section \<open>What the validations accept\<close>

text \<open>
  The specification reads a placed buffer as the set of its addresses. Two buffers conflict when
  they are alive together or separated explicitly.
\<close>

definition separated :: "DsaProblem \<Rightarrow> nat \<Rightarrow> nat \<Rightarrow> bool" where
  "separated P i j \<longleftrightarrow> (\<exists>s\<in>set (separations P). {sep_first s, sep_second s} = {i, j})"

definition conflict :: "DsaProblem \<Rightarrow> Buffer \<Rightarrow> Buffer \<Rightarrow> bool" where
  "conflict P a b \<longleftrightarrow> buf_id a \<noteq> buf_id b \<and> buf_pool a = buf_pool b \<and>
     (Overlaps (lifetime a) (lifetime b) \<or> separated P (buf_id a) (buf_id b))"

definition pair_ok :: "DsaProblem \<Rightarrow> nat \<Rightarrow> nat \<Rightarrow> bool" where
  "pair_ok P i j \<longleftrightarrow> i \<noteq> j \<and>
     (\<exists>a\<in>set (buffers P). \<exists>b\<in>set (buffers P). buf_id a = i \<and> buf_id b = j \<and> buf_pool a = buf_pool b)"

definition pool_ok :: "Pool \<Rightarrow> bool" where
  "pool_ok p \<longleftrightarrow> 0 < capacity p \<and> (\<forall>r\<in>set (reserved_ranges p). ar_begin r < ar_end r \<and> ar_end r \<le> capacity p)"

definition buffer_ok :: "DsaProblem \<Rightarrow> Buffer \<Rightarrow> bool" where
  "buffer_ok P b \<longleftrightarrow> 0 < buf_size b \<and> 0 < alignment b \<and>
     0 \<le> ivl_begin (lifetime b) \<and> ivl_begin (lifetime b) < ivl_end (lifetime b) \<and>
     buf_pool b \<in> pool_id ` set (pools P)"

definition penalty_ok :: "DsaProblem \<Rightarrow> ReusePenalty \<Rightarrow> bool" where
  "penalty_ok P q \<longleftrightarrow> pair_ok P (pen_first q) (pen_second q) \<and>
     (\<forall>a\<in>set (buffers P). \<forall>b\<in>set (buffers P). buf_id a = pen_first q \<longrightarrow> buf_id b = pen_second q \<longrightarrow>
        \<not> Overlaps (lifetime a) (lifetime b))"

definition well_formed :: "DsaProblem \<Rightarrow> bool" where
  "well_formed P \<longleftrightarrow>
     distinct (map pool_id (pools P)) \<and> (\<forall>p\<in>set (pools P). pool_ok p) \<and>
     distinct (map buf_id (buffers P)) \<and> (\<forall>b\<in>set (buffers P). buffer_ok P b) \<and>
     (\<forall>s\<in>set (separations P). pair_ok P (sep_first s) (sep_second s)) \<and>
     (\<forall>q\<in>set (reuse_penalties P). penalty_ok P q) \<and>
     sum_list (map weight (reuse_penalties P)) \<le> u64_max"

definition addresses :: "nat \<Rightarrow> Buffer \<Rightarrow> nat set" where
  "addresses off b = {off..<off + buf_size b}"

definition fits_pool :: "Pool \<Rightarrow> nat \<Rightarrow> Buffer \<Rightarrow> bool" where
  "fits_pool p off b \<longleftrightarrow> alignment b dvd off \<and> off + buf_size b \<le> capacity p \<and>
     (\<forall>r\<in>set (reserved_ranges p). addresses off b \<inter> {ar_begin r..<ar_end r} = {})"

definition valid_placement :: "DsaProblem \<Rightarrow> (nat \<Rightarrow> nat option) \<Rightarrow> bool" where
  "valid_placement P f \<longleftrightarrow>
     dom f = buf_id ` set (buffers P) \<and>
     (\<forall>b\<in>set (buffers P). \<forall>p\<in>set (pools P). pool_id p = buf_pool b \<longrightarrow> fits_pool p (the (f (buf_id b))) b) \<and>
     (\<forall>a\<in>set (buffers P). \<forall>b\<in>set (buffers P). conflict P a b \<longrightarrow>
        addresses (the (f (buf_id a))) a \<inter> addresses (the (f (buf_id b))) b = {})"

lemma diag_Nil [simp]: "diag c d = [] \<longleftrightarrow> \<not> c"
  by (simp add: diag_def)

lemma map_of_key:
  assumes "distinct (map k xs)"
  shows "map_of (map (\<lambda>x. (k x, x)) xs) i = Some x \<longleftrightarrow> x \<in> set xs \<and> k x = i"
proof -
  have "distinct (map fst (map (\<lambda>x. (k x, x)) xs))" using assms by (simp add: comp_def)
  from map_of_eq_Some_iff [OF this] show ?thesis by auto
qed

lemma map_of_key_None: "map_of (map (\<lambda>x. (k x, x)) xs) i = None \<longleftrightarrow> i \<notin> k ` set xs"
  by (simp add: map_of_eq_None_iff image_image)

lemma BuffersById_iff:
  "distinct (map buf_id (buffers P)) \<Longrightarrow> BuffersById P i = Some b \<longleftrightarrow> b \<in> set (buffers P) \<and> buf_id b = i"
  by (simp add: BuffersById_def map_of_key)

lemma PoolsById_iff:
  "distinct (map pool_id (pools P)) \<Longrightarrow> PoolsById P i = Some p \<longleftrightarrow> p \<in> set (pools P) \<and> pool_id p = i"
  by (simp add: PoolsById_def map_of_key)

lemma PoolsById_None: "PoolsById P i = None \<longleftrightarrow> i \<notin> pool_id ` set (pools P)"
  by (simp add: PoolsById_def map_of_key_None)

lemma BuffersById_None: "BuffersById P i = None \<longleftrightarrow> i \<notin> buf_id ` set (buffers P)"
  by (simp add: BuffersById_def map_of_key_None)

lemma validate_reserved_Nil:
  "validate_reserved p r = [] \<longleftrightarrow> ar_begin r < ar_end r \<and> ar_end r \<le> capacity p"
  by (auto simp: validate_reserved_def)

lemma validate_pools_Nil:
  "validate_pools seen ps = [] \<longleftrightarrow>
   distinct (map pool_id ps) \<and> set (map pool_id ps) \<inter> set seen = {} \<and> (\<forall>p\<in>set ps. pool_ok p)"
proof (induction seen ps rule: validate_pools.induct)
  case (2 seen p ps)
  have "pool_ok p \<longleftrightarrow> capacity p \<noteq> 0 \<and> concat (map (validate_reserved p) (reserved_ranges p)) = []"
    by (simp add: pool_ok_def validate_reserved_Nil)
  then show ?case by (auto simp: "2.IH")
qed simp

lemma validate_buffers_Nil:
  "validate_buffers P seen bs = [] \<longleftrightarrow>
   distinct (map buf_id bs) \<and> set (map buf_id bs) \<inter> set seen = {} \<and> (\<forall>b\<in>set bs. buffer_ok P b)"
proof (induction P seen bs rule: validate_buffers.induct)
  case (2 P seen b bs)
  have "buffer_ok P b \<longleftrightarrow> buf_size b \<noteq> 0 \<and> alignment b \<noteq> 0 \<and>
      \<not> (ivl_begin (lifetime b) < 0 \<or> ivl_begin (lifetime b) \<ge> ivl_end (lifetime b)) \<and>
      PoolsById P (buf_pool b) \<noteq> None"
    by (auto simp: buffer_ok_def PoolsById_None)
  then show ?case by (auto simp: "2.IH")
qed simp

lemma validate_pair_Nil:
  assumes "distinct (map buf_id (buffers P))"
  shows "validate_pair P i j k = [] \<longleftrightarrow> pair_ok P i j"
  using BuffersById_iff [OF assms]
  by (auto simp: validate_pair_def pair_ok_def split: option.splits)
     (metis option.distinct(1) option.inject)+

lemma validate_penalties_Nil:
  assumes "distinct (map buf_id (buffers P))"
  shows "\<forall>q\<in>set qs. weight q \<le> u64_max \<Longrightarrow> acc \<le> u64_max \<Longrightarrow>
    validate_penalties P acc qs = [] \<longleftrightarrow>
    (\<forall>q\<in>set qs. penalty_ok P q) \<and> acc + sum_list (map weight qs) \<le> u64_max"
proof (induction qs arbitrary: acc)
  case (Cons q qs)
  have w: "weight q \<le> u64_max" using Cons.prems by simp
  have pair: "validate_pair P (pen_first q) (pen_second q) PenaltyRelation = [] \<and>
      (case (BuffersById P (pen_first q), BuffersById P (pen_second q)) of
        (Some a, Some b) \<Rightarrow> diag (buf_pool a = buf_pool b \<and> Overlaps (lifetime a) (lifetime b)) LifetimesOverlap
      | _ \<Rightarrow> []) = [] \<longleftrightarrow> penalty_ok P q"
    unfolding validate_pair_Nil [OF assms] penalty_ok_def
    using BuffersById_iff [OF assms]
    by (auto simp: pair_ok_def split: option.splits) (metis option.distinct(1) option.inject)+
  show ?case
  proof (cases "acc + weight q \<le> u64_max")
    case True
    with w pair Cons.IH [of "acc + weight q"] Cons.prems show ?thesis by (auto simp: add.assoc)
  next
    case False
    with w show ?thesis by auto
  qed
qed simp

text \<open>Validation accepts exactly the well-formed problems.\<close>

lemma ValidateProblem_Nil:
  assumes "u64_problem P"
  shows "ValidateProblem P = [] \<longleftrightarrow> well_formed P"
proof (cases "distinct (map buf_id (buffers P))")
  case True
  have "\<forall>q\<in>set (reuse_penalties P). weight q \<le> u64_max" using assms by (simp add: u64_problem_def)
  from validate_penalties_Nil [OF True this, of 0] show ?thesis
    by (auto simp: ValidateProblem_def validate_pools_Nil validate_buffers_Nil validate_pair_Nil [OF True]
        well_formed_def)
next
  case False
  then show ?thesis by (auto simp: ValidateProblem_def validate_buffers_Nil well_formed_def)
qed

text \<open>Validation of a solution of a well-formed problem accepts exactly the valid placements.\<close>

definition u64_solution :: "DsaSolution \<Rightarrow> bool" where
  "u64_solution s \<longleftrightarrow> (\<forall>(i, off)\<in>set s. off \<le> u64_max)"

lemma u64_solutionD: "u64_solution s \<Longrightarrow> Find s i = Some off \<Longrightarrow> off \<le> u64_max"
  by (auto simp: u64_solution_def Find_def dest!: map_of_SomeD)

lemma CanonicalBufferPair_eq:
  "CanonicalBufferPair i j = CanonicalBufferPair k l \<longleftrightarrow> {i, j} = {k, l}"
  by (auto simp: CanonicalBufferPair_def doubleton_eq_iff split: if_splits)

lemma is_separated_iff: "is_separated P i j \<longleftrightarrow> separated P i j"
  by (auto simp: is_separated_def separated_def CanonicalBufferPair_eq image_iff)

lemma Overlaps_sym: "Overlaps a b \<longleftrightarrow> Overlaps b a"
  by (auto simp: Overlaps_def)

lemma separated_sym: "separated P i j \<longleftrightarrow> separated P j i"
  by (auto simp: separated_def doubleton_eq_iff)

lemma conflict_sym: "conflict P a b \<longleftrightarrow> conflict P b a"
  using Overlaps_sym [of "lifetime a" "lifetime b"] separated_sym [of P "buf_id a" "buf_id b"]
  by (auto simp: conflict_def)

lemma well_formed_distinct:
  "well_formed P \<Longrightarrow> distinct (map buf_id (buffers P))" "well_formed P \<Longrightarrow> distinct (map pool_id (pools P))"
  by (simp_all add: well_formed_def)

lemma well_formed_buffer: "well_formed P \<Longrightarrow> b \<in> set (buffers P) \<Longrightarrow> buffer_ok P b"
  by (simp add: well_formed_def)

lemma well_formed_pool:
  assumes "well_formed P" and "b \<in> set (buffers P)"
  obtains p where "p \<in> set (pools P)" and "pool_id p = buf_pool b" and "pool_ok p"
    and "PoolsById P (buf_pool b) = Some p"
    and "\<And>q. q \<in> set (pools P) \<Longrightarrow> pool_id q = buf_pool b \<Longrightarrow> q = p"
proof -
  obtain p where p: "p \<in> set (pools P)" "pool_id p = buf_pool b"
    using well_formed_buffer [OF assms] by (auto simp: buffer_ok_def)
  have "PoolsById P (buf_pool b) = Some p"
    using PoolsById_iff [OF well_formed_distinct(2) [OF assms(1)]] p by simp
  moreover have "q = p" if "q \<in> set (pools P)" "pool_id q = buf_pool b" for q
    using PoolsById_iff [OF well_formed_distinct(2) [OF assms(1)]] p that by (metis option.inject)
  moreover have "pool_ok p" using assms(1) p(1) by (simp add: well_formed_def)
  ultimately show thesis by (intro that [OF p])
qed

lemma reserved_in_pool:
  assumes "pool_ok p" and "r \<in> set (reserved_ranges p)" and "capacity p \<le> u64_max"
  shows "ar_end r - ar_begin r \<le> u64_max" and "ar_begin r + (ar_end r - ar_begin r) = ar_end r"
    and "ar_end r \<le> u64_max"
  using assms unfolding pool_ok_def by (force intro: order_trans)+

lemma validate_offset_Nil:
  assumes "u64_problem P" and "well_formed P" and "b \<in> set (buffers P)"
    and "p \<in> set (pools P)" and "pool_id p = buf_pool b"
  shows "\<exists>ds. validate_offset P s b = Inr ds \<and>
    (ds = [] \<longleftrightarrow> (\<exists>off. Find s (buf_id b) = Some off \<and> fits_pool p off b))"
proof (cases "Find s (buf_id b)")
  case None
  then show ?thesis by (simp add: validate_offset_def)
next
  case (Some off)
  have P: "PoolsById P (buf_pool b) = Some p"
    using PoolsById_iff [OF well_formed_distinct(2) [OF assms(2)]] assms(4,5) by simp
  have sz: "buf_size b \<le> u64_max" and cap: "capacity p \<le> u64_max"
    using assms(1,3,4) by (auto simp: u64_problem_def)
  have ok: "pool_ok p" using assms(2,4) by (auto simp: well_formed_def)
  show ?thesis
  proof (cases "u64_max < off + buf_size b")
    case True
    then show ?thesis using Some sz cap by (auto simp: validate_offset_def fits_pool_def)
  next
    case False
    have res: "RangesOverlap off (buf_size b) (ar_begin r) (ar_end r - ar_begin r) \<longleftrightarrow>
        addresses off b \<inter> {ar_begin r..<ar_end r} \<noteq> {}" if "r \<in> set (reserved_ranges p)" for r
      using RangesOverlap_iff [of "buf_size b" "ar_end r - ar_begin r" off "ar_begin r"]
        reserved_in_pool [OF ok that cap] sz False by (simp add: addresses_def)
    have "\<not> AddOverflows off (buf_size b)" and "add_u64 off (buf_size b) = off + buf_size b"
      using False sz by simp_all
    then have "validate_offset P s b = Inr (
        diag (off mod alignment b \<noteq> 0) (ViolatesAlignment (buf_id b)) @
        diag (off + buf_size b > capacity p) (ExceedsCapacity (buf_id b)) @
        concat (map (\<lambda>r. diag (RangesOverlap off (buf_size b) (ar_begin r) (ar_end r - ar_begin r))
          (OverlapsReserved (buf_id b))) (reserved_ranges p)))"
      by (simp add: validate_offset_def Some P)
    then show ?thesis using res Some by (auto simp: fits_pool_def dvd_eq_mod_eq_0)
  qed
qed

lemma validate_offsets_Nil:
  assumes "u64_problem P" and "well_formed P"
  shows "set bs \<subseteq> set (buffers P) \<Longrightarrow> \<exists>ds. validate_offsets P s bs = Inr ds \<and>
    (ds = [] \<longleftrightarrow> (\<forall>b\<in>set bs. \<forall>p\<in>set (pools P). pool_id p = buf_pool b \<longrightarrow>
       (\<exists>off. Find s (buf_id b) = Some off \<and> fits_pool p off b)))"
proof (induction bs)
  case (Cons b bs)
  have b: "b \<in> set (buffers P)" using Cons.prems by simp
  obtain p where p: "p \<in> set (pools P)" "pool_id p = buf_pool b"
      "\<And>q. q \<in> set (pools P) \<Longrightarrow> pool_id q = buf_pool b \<Longrightarrow> q = p"
    using well_formed_pool [OF assms(2) b] by blast
  obtain ds where ds: "validate_offset P s b = Inr ds"
      "ds = [] \<longleftrightarrow> (\<exists>off. Find s (buf_id b) = Some off \<and> fits_pool p off b)"
    using validate_offset_Nil [OF assms b p(1,2)] by blast
  obtain ds' where ds': "validate_offsets P s bs = Inr ds'"
      "ds' = [] \<longleftrightarrow> (\<forall>b\<in>set bs. \<forall>p\<in>set (pools P). pool_id p = buf_pool b \<longrightarrow>
        (\<exists>off. Find s (buf_id b) = Some off \<and> fits_pool p off b))"
    using Cons by auto
  have "(\<forall>q\<in>set (pools P). pool_id q = buf_pool b \<longrightarrow> (\<exists>off. Find s (buf_id b) = Some off \<and> fits_pool q off b))
      \<longleftrightarrow> ds = []"
    unfolding ds(2) using p by blast
  then show ?case using ds(1) ds' by simp
qed simp

lemma sorted_wrt_pairs:
  assumes "distinct (map k xs)" and "\<And>x y. R x y \<longleftrightarrow> R y x"
  shows "sorted_wrt R xs \<longleftrightarrow> (\<forall>x\<in>set xs. \<forall>y\<in>set xs. k x \<noteq> k y \<longrightarrow> R x y)"
  using assms(1)
proof (induction xs)
  case (Cons a xs)
  have "k a \<notin> k ` set xs" using Cons.prems by simp
  then have d: "\<And>x. x \<in> set xs \<Longrightarrow> k x \<noteq> k a" by (metis image_eqI)
  from Cons have IH: "sorted_wrt R xs \<longleftrightarrow> (\<forall>x\<in>set xs. \<forall>y\<in>set xs. k x \<noteq> k y \<longrightarrow> R x y)" by simp
  have sym: "\<And>x y. R x y \<Longrightarrow> R y x" using assms(2) by blast
  show ?case unfolding sorted_wrt.simps IH by (auto intro: sym dest: d d [THEN not_sym])
qed simp

lemma validate_conflicts_sorted:
  "validate_conflicts P s bs = [] \<longleftrightarrow> sorted_wrt (\<lambda>a b. validate_conflict P s a b = []) bs"
  by (induction bs) auto

lemma validate_conflict_sym: "validate_conflict P s a b = [] \<longleftrightarrow> validate_conflict P s b a = []"
proof -
  have "RangesOverlap p (buf_size a) q (buf_size b) \<longleftrightarrow> RangesOverlap q (buf_size b) p (buf_size a)" for p q
    by (auto simp: RangesOverlap_def)
  then show ?thesis
    using Overlaps_sym [of "lifetime a" "lifetime b"] separated_sym [of P "buf_id a" "buf_id b"]
    by (simp add: validate_conflict_def is_separated_iff split: option.splits)
qed

lemma fits_u64: "u64_problem P \<Longrightarrow> p \<in> set (pools P) \<Longrightarrow> fits_pool p off b \<Longrightarrow> off + buf_size b \<le> u64_max"
  by (auto simp: u64_problem_def fits_pool_def intro: order_trans)

lemma conflict_ids: "conflict P a b \<Longrightarrow> buf_id a \<noteq> buf_id b"
  by (simp add: conflict_def)

lemma unknown_Nil:
  "concat (map (\<lambda>(i, off). diag (BuffersById P i = None) (SolutionUnknownBuffer i)) s) = [] \<longleftrightarrow>
   dom (Find s) \<subseteq> buf_id ` set (buffers P)"
proof (induction s)
  case (Cons x s)
  obtain i off where x: "x = (i, off)" by (cases x)
  have "dom (Find (x # s)) = insert i (dom (Find s))" by (auto simp: x Find_def)
  with Cons show ?case by (simp add: x BuffersById_None)
qed (simp add: Find_def)

lemma ValidateSolution_Nil:
  assumes P: "u64_problem P"
  shows "ValidateSolution P s = Inr [] \<longleftrightarrow> well_formed P \<and> valid_placement P (Find s)"
proof (cases "well_formed P")
  case False
  then show ?thesis using ValidateProblem_Nil [OF P] by (simp add: ValidateSolution_def Let_def)
next
  case wf: True
  note ids = well_formed_distinct(1) [OF wf]
  let ?fits = "\<forall>b\<in>set (buffers P). \<forall>p\<in>set (pools P). pool_id p = buf_pool b \<longrightarrow>
       (\<exists>off. Find s (buf_id b) = Some off \<and> fits_pool p off b)"
  obtain ds where ds: "validate_offsets P s (buffers P) = Inr ds" "ds = [] \<longleftrightarrow> ?fits"
    by (rule exE [OF validate_offsets_Nil [OF P wf subset_refl]]) (elim conjE, rule that)
  have 1: "ValidateSolution P s = Inr [] \<longleftrightarrow>
      dom (Find s) \<subseteq> buf_id ` set (buffers P) \<and> ?fits \<and> validate_conflicts P s (buffers P) = []"
    using ValidateProblem_Nil [OF P] wf ds unknown_Nil by (simp add: ValidateSolution_def Let_def)
  have fit: "\<exists>off p. p \<in> set (pools P) \<and> Find s (buf_id b) = Some off \<and> off + buf_size b \<le> u64_max"
    if "?fits" and "b \<in> set (buffers P)" for b
    using that well_formed_pool [OF wf that(2)] fits_u64 [OF P] by metis
  have sz: "buf_size b \<le> u64_max" if "b \<in> set (buffers P)" for b using P that by (simp add: u64_problem_def)
  have conf: "validate_conflict P s a b = [] \<longleftrightarrow>
      (conflict P a b \<longrightarrow> addresses (the (Find s (buf_id a))) a \<inter> addresses (the (Find s (buf_id b))) b = {})"
    if f: "?fits" and ab: "a \<in> set (buffers P)" "b \<in> set (buffers P)" "buf_id a \<noteq> buf_id b" for a b
  proof -
    obtain p q where pq: "Find s (buf_id a) = Some p" "p + buf_size a \<le> u64_max"
        "Find s (buf_id b) = Some q" "q + buf_size b \<le> u64_max"
      using fit [OF f ab(1)] fit [OF f ab(2)] by blast
    then show ?thesis
      using RangesOverlap_iff [OF sz [OF ab(1)] sz [OF ab(2)] pq(2,4)] ab(3)
      by (auto simp: validate_conflict_def conflict_def is_separated_iff addresses_def)
  qed
  have "validate_conflicts P s (buffers P) = [] \<longleftrightarrow>
      (\<forall>a\<in>set (buffers P). \<forall>b\<in>set (buffers P). conflict P a b \<longrightarrow>
        addresses (the (Find s (buf_id a))) a \<inter> addresses (the (Find s (buf_id b))) b = {})" if ?fits
    unfolding validate_conflicts_sorted sorted_wrt_pairs [OF ids validate_conflict_sym]
    using conf [OF that] conflict_ids by blast
  moreover have "?fits \<longleftrightarrow> buf_id ` set (buffers P) \<subseteq> dom (Find s) \<and>
      (\<forall>b\<in>set (buffers P). \<forall>p\<in>set (pools P). pool_id p = buf_pool b \<longrightarrow> fits_pool p (the (Find s (buf_id b))) b)"
    (is "_ \<longleftrightarrow> ?R")
  proof
    assume f: ?fits
    then show ?R using fit [OF f] by (fastforce simp: dom_def)
  next
    assume ?R
    then show ?fits by (force simp: dom_def)
  qed
  ultimately show ?thesis unfolding 1 valid_placement_def using wf by auto
qed

section \<open>Objective\<close>

record ObjectiveValue =
  reuse_cost :: nat
  total_peak :: nat
  max_peak :: nat
  peak_by_pool :: "(int \<times> nat) list"

definition raise_peak :: "int \<Rightarrow> nat \<Rightarrow> (int \<times> nat) list \<Rightarrow> (int \<times> nat) list" where
  "raise_peak i v m = map_put i (max (map_get m i) v) m"

definition pool_peak :: "Pool \<Rightarrow> (int \<times> nat) list \<Rightarrow> (int \<times> nat) list" where
  "pool_peak p m =
     fold (\<lambda>r. raise_peak (pool_id p) (ar_end r)) (reserved_ranges p) (raise_peak (pool_id p) 0 m)"

definition buffer_peak :: "DsaSolution \<Rightarrow> Buffer \<Rightarrow> (int \<times> nat) list \<Rightarrow> (int \<times> nat) list" where
  "buffer_peak s b m =
     (case Find s (buf_id b) of
        None \<Rightarrow> m
      | Some off \<Rightarrow>
          if AddOverflows off (buf_size b) then m
          else raise_peak (buf_pool b) (add_u64 off (buf_size b)) m)"

definition penalty_cost :: "DsaProblem \<Rightarrow> DsaSolution \<Rightarrow> ReusePenalty \<Rightarrow> nat \<Rightarrow> nat" where
  "penalty_cost P s q acc =
     (case (BuffersById P (pen_first q), BuffersById P (pen_second q), Find s (pen_first q), Find s (pen_second q)) of
        (Some a, Some b, Some x, Some y) \<Rightarrow>
          if buf_pool a \<noteq> buf_pool b \<or> Overlaps (lifetime a) (lifetime b) then acc
          else if RangesOverlap x (buf_size a) y (buf_size b) then SaturatingAdd acc (weight q)
          else acc
      | _ \<Rightarrow> acc)"

definition EvaluateObjective :: "DsaProblem \<Rightarrow> DsaSolution \<Rightarrow> ObjectiveValue" where
  "EvaluateObjective P s =
     (let peaks = fold (buffer_peak s) (buffers P) (fold pool_peak (pools P) []) in
      \<lparr>reuse_cost = fold (penalty_cost P s) (reuse_penalties P) 0,
       total_peak = fold (\<lambda>(i, peak) acc. SaturatingAdd acc peak) peaks 0,
       max_peak = fold (\<lambda>(i, peak) acc. max acc peak) peaks 0,
       peak_by_pool = peaks\<rparr>)"

definition CountOverlappingPairs :: "DsaProblem \<Rightarrow> DsaSolution \<Rightarrow> Separation list \<Rightarrow> nat" where
  "CountOverlappingPairs P s pairs =
     length (filter (\<lambda>p.
       case (BuffersById P (sep_first p), BuffersById P (sep_second p), Find s (sep_first p), Find s (sep_second p)) of
         (Some a, Some b, Some x, Some y) \<Rightarrow>
           buf_pool a = buf_pool b \<and> RangesOverlap x (buf_size a) y (buf_size b)
       | _ \<Rightarrow> False) pairs)"

text \<open>The cost of a placement: the weights of the penalties whose buffers share an address.\<close>

definition shares :: "DsaProblem \<Rightarrow> (nat \<Rightarrow> nat option) \<Rightarrow> nat \<Rightarrow> nat \<Rightarrow> bool" where
  "shares P f i j \<longleftrightarrow> (\<exists>a\<in>set (buffers P). \<exists>b\<in>set (buffers P). buf_id a = i \<and> buf_id b = j \<and>
     addresses (the (f i)) a \<inter> addresses (the (f j)) b \<noteq> {})"

definition placement_cost :: "DsaProblem \<Rightarrow> (nat \<Rightarrow> nat option) \<Rightarrow> nat" where
  "placement_cost P f = (\<Sum>q\<leftarrow>reuse_penalties P. if shares P f (pen_first q) (pen_second q) then weight q else 0)"

lemma placed_buffer:
  assumes "u64_problem P" and "well_formed P" and "valid_placement P f" and "b \<in> set (buffers P)"
  shows "\<exists>off. f (buf_id b) = Some off \<and> off + buf_size b \<le> u64_max"
proof -
  obtain p where p: "p \<in> set (pools P)" "pool_id p = buf_pool b"
    using well_formed_pool [OF assms(2,4)] by blast
  have "buf_id b \<in> dom f" using assms(3,4) by (simp add: valid_placement_def)
  then obtain off where "f (buf_id b) = Some off" by auto
  moreover from this have "fits_pool p off b" using assms(3,4) p by (auto simp: valid_placement_def)
  ultimately show ?thesis using fits_u64 [OF assms(1) p(1)] by blast
qed

lemma penalty_cost_eq:
  assumes "u64_problem P" and "well_formed P" and "valid_placement P (Find s)"
    and "q \<in> set (reuse_penalties P)" and "acc + weight q \<le> u64_max"
  shows "penalty_cost P s q acc =
    acc + (if shares P (Find s) (pen_first q) (pen_second q) then weight q else 0)"
proof -
  note ids = well_formed_distinct(1) [OF assms(2)]
  have q: "penalty_ok P q" using assms(2,4) by (simp add: well_formed_def)
  then obtain a b where ab: "a \<in> set (buffers P)" "b \<in> set (buffers P)" "buf_id a = pen_first q"
      "buf_id b = pen_second q" "buf_pool a = buf_pool b"
    by (auto simp: penalty_ok_def pair_ok_def)
  have no: "\<not> Overlaps (lifetime a) (lifetime b)" using q ab by (auto simp: penalty_ok_def)
  have B: "BuffersById P (pen_first q) = Some a" "BuffersById P (pen_second q) = Some b"
    using ab BuffersById_iff [OF ids] by auto
  obtain x y where xy: "Find s (pen_first q) = Some x" "x + buf_size a \<le> u64_max"
      "Find s (pen_second q) = Some y" "y + buf_size b \<le> u64_max"
    using placed_buffer [OF assms(1-3) ab(1)] placed_buffer [OF assms(1-3) ab(2)] ab(3,4) by auto
  have sz: "buf_size a \<le> u64_max" "buf_size b \<le> u64_max" using xy by simp_all
  have uniq: "a' = a" "b' = b" if "a' \<in> set (buffers P)" "b' \<in> set (buffers P)"
      "buf_id a' = pen_first q" "buf_id b' = pen_second q" for a' b'
    using that B BuffersById_iff [OF ids] by (metis option.inject)+
  have "shares P (Find s) (pen_first q) (pen_second q) \<longleftrightarrow> addresses x a \<inter> addresses y b \<noteq> {}"
    unfolding shares_def using ab(1-4) uniq xy(1,3) by (metis option.sel)
  then have "RangesOverlap x (buf_size a) y (buf_size b) \<longleftrightarrow> shares P (Find s) (pen_first q) (pen_second q)"
    using RangesOverlap_iff [OF sz xy(2,4)] by (simp add: addresses_def)
  moreover have "weight q \<le> u64_max" using assms(5) by simp
  ultimately show ?thesis
    using B xy(1,3) ab(5) no assms(5) by (simp add: penalty_cost_def SaturatingAdd_eq)
qed

lemma fold_penalty_cost:
  assumes "u64_problem P" and "well_formed P" and "valid_placement P (Find s)"
  shows "set qs \<subseteq> set (reuse_penalties P) \<Longrightarrow> acc + sum_list (map weight qs) \<le> u64_max \<Longrightarrow>
    fold (penalty_cost P s) qs acc =
    acc + (\<Sum>q\<leftarrow>qs. if shares P (Find s) (pen_first q) (pen_second q) then weight q else 0)"
proof (induction qs arbitrary: acc)
  case (Cons q qs)
  let ?w = "if shares P (Find s) (pen_first q) (pen_second q) then weight q else 0"
  have "penalty_cost P s q acc = acc + ?w"
    by (rule penalty_cost_eq [OF assms]) (use Cons.prems in auto)
  moreover have "acc + ?w + sum_list (map weight qs) \<le> u64_max" using Cons.prems by simp
  ultimately show ?case using Cons.IH [of "acc + ?w"] Cons.prems(1) by simp
qed simp

lemma objective_cost:
  assumes "u64_problem P" and "well_formed P" and "valid_placement P (Find s)"
  shows "reuse_cost (EvaluateObjective P s) = placement_cost P (Find s)"
  using fold_penalty_cost [OF assms subset_refl, of 0] assms(2)
  by (simp add: EvaluateObjective_def Let_def placement_cost_def well_formed_def)

section \<open>Relaxing separations\<close>

text \<open>A \<open>std::set\<close> is the sorted list of its elements.\<close>

definition std_set :: "'a::linorder list \<Rightarrow> 'a list" where
  "std_set xs = sort (remdups xs)"

definition add_weight :: "nat \<times> nat \<Rightarrow> nat \<Rightarrow> ((nat \<times> nat) \<times> nat) list \<Rightarrow> ((nat \<times> nat) \<times> nat) list" where
  "add_weight pair w m = map_put pair (SaturatingAdd (map_get m pair) w) m"

definition combined_penalty :: "ReusePenalty \<Rightarrow> ((nat \<times> nat) \<times> nat) list \<Rightarrow> ((nat \<times> nat) \<times> nat) list" where
  "combined_penalty q m = add_weight (CanonicalBufferPair (pen_first q) (pen_second q)) (weight q) m"

definition relaxed_pair ::
  "DsaProblem \<Rightarrow> nat \<Rightarrow> nat \<times> nat \<Rightarrow> ((nat \<times> nat) \<times> nat) list \<Rightarrow> ((nat \<times> nat) \<times> nat) list" where
  "relaxed_pair P w pair m =
     (case (BuffersById P (fst pair), BuffersById P (snd pair)) of
        (Some a, Some b) \<Rightarrow> if Overlaps (lifetime a) (lifetime b) then m else add_weight pair w m
      | _ \<Rightarrow> m)"

definition RelaxSeparationsToPenalties :: "DsaProblem \<Rightarrow> Separation list \<Rightarrow> nat \<Rightarrow> DsaProblem" where
  "RelaxSeparationsToPenalties P relaxable w =
     (let selected = std_set (map (\<lambda>s. CanonicalBufferPair (sep_first s) (sep_second s)) relaxable);
          weights = fold (relaxed_pair P w) selected (fold combined_penalty (reuse_penalties P) []) in
      P\<lparr>separations := filter (\<lambda>s. CanonicalBufferPair (sep_first s) (sep_second s) \<notin> set selected) (separations P),
        reuse_penalties := map (\<lambda>((i, j), v). \<lparr>pen_first = i, pen_second = j, weight = v\<rparr>)
          (filter (\<lambda>(pair, v). v \<noteq> 0) weights)\<rparr>)"

lemma set_std_set [simp]: "set (std_set xs) = set xs"
  by (simp add: std_set_def)

lemma distinct_std_set [simp]: "distinct (std_set xs)"
  by (simp add: std_set_def)

lemma sorted_std_set [simp]: "sorted (std_set xs)"
  by (simp add: std_set_def)

lemma relaxed_fields [simp]:
  "pools (RelaxSeparationsToPenalties P r w) = pools P"
  "buffers (RelaxSeparationsToPenalties P r w) = buffers P"
  "set (separations (RelaxSeparationsToPenalties P r w)) \<subseteq> set (separations P)"
  by (auto simp: RelaxSeparationsToPenalties_def Let_def)

lemma relaxed_conflict:
  "conflict (RelaxSeparationsToPenalties P r w) a b \<Longrightarrow> conflict P a b"
  using relaxed_fields(3) [of P r w] unfolding conflict_def separated_def by (meson in_mono)

lemma relaxed_keeps_valid: "valid_placement P f \<Longrightarrow> valid_placement (RelaxSeparationsToPenalties P r w) f"
  using relaxed_conflict by (auto simp: valid_placement_def)

text \<open>
  The weights collected for the pairs: their sum never exceeds the sum of what was added, and only
  pairs that were added are keys.
\<close>

definition map_total :: "('k \<times> nat) list \<Rightarrow> nat" where
  "map_total m = sum_list (map snd m)"

lemma map_get_absent: "k \<notin> fst ` set m \<Longrightarrow> map_get m k = 0"
  by (simp add: map_get_def map_of_eq_None_iff [symmetric])

lemma map_total_put:
  "sorted_wrt (<) (map fst m) \<Longrightarrow> map_total (map_put k v m) + map_get m k = map_total m + v"
proof (induction k v m rule: map_put.induct)
  case (2 k v k' v' m)
  have "map_get ((k', v') # m) k = (if k = k' then v' else map_get m k)" by (simp add: map_get_def)
  moreover have "map_get m k = 0" if "k < k'"
    using that 2(2) by (intro map_get_absent) (fastforce dest: order.strict_trans)
  ultimately show ?case using 2 by (auto simp: map_total_def)
qed (simp add: map_total_def map_get_def)

lemma add_weight_total:
  assumes "sorted_wrt (<) (map fst m)" and "w \<le> u64_max"
  shows "map_total (add_weight pair w m) \<le> map_total m + w"
  using map_total_put [OF assms(1), of pair "SaturatingAdd (map_get m pair) w"] assms(2)
  by (simp add: add_weight_def SaturatingAdd_eq)

definition weights_inv ::
  "(nat \<times> nat \<Rightarrow> bool) \<Rightarrow> nat \<Rightarrow> ((nat \<times> nat) \<times> nat) list \<Rightarrow> bool" where
  "weights_inv ok bound m \<longleftrightarrow> sorted_wrt (<) (map fst m) \<and> (\<forall>k\<in>fst ` set m. ok k) \<and> map_total m \<le> bound"

lemma weights_inv_add:
  "weights_inv ok bound m \<Longrightarrow> ok pair \<Longrightarrow> w \<le> u64_max \<Longrightarrow> weights_inv ok (bound + w) (add_weight pair w m)"
  using add_weight_total [of m w pair]
  by (auto simp: weights_inv_def add_weight_def map_put_sorted map_put_keys)

lemma weights_inv_mono: "weights_inv ok bound m \<Longrightarrow> weights_inv ok (bound + w) m"
  by (simp add: weights_inv_def)

lemma fold_combined_inv:
  "weights_inv ok bound m \<Longrightarrow>
   \<forall>q\<in>set qs. ok (CanonicalBufferPair (pen_first q) (pen_second q)) \<and> weight q \<le> u64_max \<Longrightarrow>
   weights_inv ok (bound + sum_list (map weight qs)) (fold combined_penalty qs m)"
proof (induction qs arbitrary: m bound)
  case (Cons q qs)
  have "weights_inv ok (bound + weight q) (combined_penalty q m)"
    unfolding combined_penalty_def by (rule weights_inv_add) (use Cons.prems in auto)
  from Cons.IH [OF this] Cons.prems(2) show ?case by (simp add: add.assoc)
qed simp

lemma fold_relaxed_inv:
  assumes "w \<le> u64_max"
    and ok: "\<And>pair a b. pair \<in> set ps \<Longrightarrow> BuffersById P (fst pair) = Some a \<Longrightarrow>
      BuffersById P (snd pair) = Some b \<Longrightarrow> \<not> Overlaps (lifetime a) (lifetime b) \<Longrightarrow> ok pair"
  shows "weights_inv ok bound m \<Longrightarrow> weights_inv ok (bound + length ps * w) (fold (relaxed_pair P w) ps m)"
  using ok
proof (induction ps arbitrary: m bound)
  case (Cons pair ps)
  have "weights_inv ok (bound + w) (relaxed_pair P w pair m)"
    using Cons.prems assms(1) weights_inv_add weights_inv_mono
    by (auto simp: relaxed_pair_def split: option.splits)
  from Cons.IH [OF this] Cons.prems(2) show ?case by (simp add: algebra_simps)
qed simp

lemma filter_total_le: "sum_list (map snd (filter p m)) \<le> map_total m"
  by (induction m) (auto simp: map_total_def)

lemma pair_ok_canonical: "pair_ok P i j \<Longrightarrow> pair_ok P (fst (CanonicalBufferPair i j)) (snd (CanonicalBufferPair i j))"
  unfolding CanonicalBufferPair_def pair_ok_def by (auto simp only: fst_conv snd_conv split: if_splits)
    metis

lemma relaxed_well_formed_aux:
  assumes wf: "well_formed P" and P: "u64_problem P" and w: "w \<le> u64_max"
    and r: "\<And>s. s \<in> set r \<Longrightarrow> pair_ok P (sep_first s) (sep_second s)"
    and bound: "sum_list (map weight (reuse_penalties P)) + length r * w \<le> u64_max"
  shows "well_formed (RelaxSeparationsToPenalties P r w)"
proof -
  note ids = well_formed_distinct(1) [OF wf]
  define ok where "ok k \<longleftrightarrow> penalty_ok P \<lparr>pen_first = fst k, pen_second = snd k, weight = 0\<rparr>" for k
  define selected where "selected = std_set (map (\<lambda>s. CanonicalBufferPair (sep_first s) (sep_second s)) r)"
  define weights where "weights = fold (relaxed_pair P w) selected (fold combined_penalty (reuse_penalties P) [])"
  have len: "length selected \<le> length r" by (simp add: selected_def std_set_def) (metis length_map length_remdups_leq)
  have "weights_inv ok (0 + sum_list (map weight (reuse_penalties P))) (fold combined_penalty (reuse_penalties P) [])"
  proof (rule fold_combined_inv)
    show "weights_inv ok 0 []" by (simp add: weights_inv_def map_total_def)
    show "\<forall>q\<in>set (reuse_penalties P). ok (CanonicalBufferPair (pen_first q) (pen_second q)) \<and> weight q \<le> u64_max"
    proof
      fix q assume q: "q \<in> set (reuse_penalties P)"
      then have "penalty_ok P q" using wf by (simp add: well_formed_def)
      then have "ok (CanonicalBufferPair (pen_first q) (pen_second q))"
        using Overlaps_sym pair_ok_canonical
        by (fastforce simp: ok_def penalty_ok_def CanonicalBufferPair_def)
      then show "ok (CanonicalBufferPair (pen_first q) (pen_second q)) \<and> weight q \<le> u64_max"
        using P q by (simp add: u64_problem_def)
    qed
  qed
  then have inv: "weights_inv ok (sum_list (map weight (reuse_penalties P)) + length selected * w) weights"
    unfolding weights_def
  proof (intro fold_relaxed_inv [OF w])
    fix pair a b
    assume p: "pair \<in> set selected" and B: "BuffersById P (fst pair) = Some a" "BuffersById P (snd pair) = Some b"
      and no: "\<not> Overlaps (lifetime a) (lifetime b)"
    have "pair_ok P (fst pair) (snd pair)"
      using p r pair_ok_canonical by (auto simp: selected_def)
    moreover have "\<not> Overlaps (lifetime a') (lifetime b')"
      if "a' \<in> set (buffers P)" "b' \<in> set (buffers P)" "buf_id a' = fst pair" "buf_id b' = snd pair" for a' b'
    proof -
      have "a' = a" "b' = b" using that B BuffersById_iff [OF ids] by (metis option.inject)+
      then show ?thesis using no by simp
    qed
    ultimately show "ok pair" by (auto simp: ok_def penalty_ok_def)
  qed simp
  let ?pens = "map (\<lambda>((i, j), v). \<lparr>pen_first = i, pen_second = j, weight = v\<rparr>) (filter (\<lambda>(pair, v). v \<noteq> 0) weights)"
  have R: "reuse_penalties (RelaxSeparationsToPenalties P r w) = ?pens"
    by (simp add: RelaxSeparationsToPenalties_def Let_def weights_def selected_def)
  have "map weight ?pens = map snd (filter (\<lambda>(pair, v). v \<noteq> 0) weights)" by (simp add: split_beta)
  then have "sum_list (map weight ?pens) \<le> map_total weights" using filter_total_le by metis
  also have "\<dots> \<le> sum_list (map weight (reuse_penalties P)) + length selected * w"
    using inv by (simp add: weights_inv_def)
  also have "\<dots> \<le> u64_max" using bound mult_le_mono1 [OF len, of w] by linarith
  finally have "sum_list (map weight ?pens) \<le> u64_max" .
  moreover
  have "penalty_ok P q" if q: "q \<in> set ?pens" for q
  proof -
    obtain i j v where "((i, j), v) \<in> set weights" and q: "q = \<lparr>pen_first = i, pen_second = j, weight = v\<rparr>"
      using q by auto
    then have "ok (i, j)" using inv by (force simp: weights_inv_def)
    then show ?thesis by (simp add: ok_def penalty_ok_def q)
  qed
  moreover have "pair_ok (RelaxSeparationsToPenalties P r w) = pair_ok P"
    "penalty_ok (RelaxSeparationsToPenalties P r w) = penalty_ok P"
    "buffer_ok (RelaxSeparationsToPenalties P r w) = buffer_ok P"
    by (simp_all add: pair_ok_def penalty_ok_def buffer_ok_def fun_eq_iff)
  moreover have "\<forall>s\<in>set (separations (RelaxSeparationsToPenalties P r w)). pair_ok P (sep_first s) (sep_second s)"
    using wf relaxed_fields(3) [of P r w] by (auto simp only: well_formed_def)
  ultimately show ?thesis using wf unfolding well_formed_def R relaxed_fields(1,2) by metis
qed

text \<open>
  What the relaxed problem charges. A sum over the collected weights, with a factor for each pair, grows with each weight
  that is added; for the pairs that share addresses it is the cost of a placement.
\<close>

definition weighted :: "('k \<Rightarrow> nat) \<Rightarrow> ('k \<times> nat) list \<Rightarrow> nat" where
  "weighted g m = (\<Sum>(k, v)\<leftarrow>m. g k * v)"

lemma weighted_simps [simp]: "weighted g [] = 0" "weighted g ((k, v) # m) = g k * v + weighted g m"
  by (simp_all add: weighted_def)

lemma weighted_put:
  "sorted_wrt (<) (map fst m) \<Longrightarrow> weighted g (map_put k v m) + g k * map_get m k = weighted g m + g k * v"
proof (induction k v m rule: map_put.induct)
  case (2 k v k' v' m)
  have "map_get ((k', v') # m) k = (if k = k' then v' else map_get m k)" by (simp add: map_get_def)
  moreover have "map_get m k = 0" if "k < k'"
    using that 2(2) by (intro map_get_absent) (fastforce dest: order.strict_trans)
  ultimately show ?case using 2 by auto
qed (simp add: map_get_def)

lemma map_total_weighted: "map_total m = weighted (\<lambda>_. 1) m"
  by (induction m) (auto simp: map_total_def)

lemma map_get_le_total: "map_get m k \<le> map_total m"
  by (induction m) (auto simp: map_get_def map_total_def)

lemma weighted_add:
  assumes "sorted_wrt (<) (map fst m)" and "map_total m + w \<le> u64_max"
  shows "weighted g (add_weight k w m) = weighted g m + g k * w"
proof -
  have "SaturatingAdd (map_get m k) w = map_get m k + w"
    using assms(2) map_get_le_total [of m k] by (simp add: SaturatingAdd_eq)
  then show ?thesis
    using weighted_put [OF assms(1), of g k "map_get m k + w"] by (simp add: add_weight_def algebra_simps)
qed

lemma add_weight_sorted: "sorted_wrt (<) (map fst m) \<Longrightarrow> sorted_wrt (<) (map fst (add_weight k w m))"
  by (simp add: add_weight_def map_put_sorted)

lemma weighted_combined:
  "sorted_wrt (<) (map fst m) \<Longrightarrow> map_total m + sum_list (map weight qs) \<le> u64_max \<Longrightarrow>
   sorted_wrt (<) (map fst (fold combined_penalty qs m)) \<and>
   weighted g (fold combined_penalty qs m) =
     weighted g m + (\<Sum>q\<leftarrow>qs. g (CanonicalBufferPair (pen_first q) (pen_second q)) * weight q)"
proof (induction qs arbitrary: m)
  case (Cons q qs)
  let ?m = "combined_penalty q m"
  have le: "map_total m + weight q \<le> u64_max" using Cons.prems(2) by simp
  have add: "weighted h ?m = weighted h m + h (CanonicalBufferPair (pen_first q) (pen_second q)) * weight q" for h
    unfolding combined_penalty_def by (rule weighted_add [OF Cons.prems(1) le])
  have "sorted_wrt (<) (map fst ?m)" unfolding combined_penalty_def by (rule add_weight_sorted [OF Cons.prems(1)])
  moreover have "map_total ?m + sum_list (map weight qs) \<le> u64_max"
    using Cons.prems(2) add [of "\<lambda>_. 1"] by (simp add: map_total_weighted)
  ultimately show ?case using Cons.IH [of ?m] add [of g] by simp
qed simp

definition disjoint_lifetimes :: "DsaProblem \<Rightarrow> nat \<times> nat \<Rightarrow> bool" where
  "disjoint_lifetimes P k \<longleftrightarrow> (\<exists>a\<in>set (buffers P). \<exists>b\<in>set (buffers P).
     buf_id a = fst k \<and> buf_id b = snd k \<and> \<not> Overlaps (lifetime a) (lifetime b))"

lemma relaxed_pair_eq:
  assumes "distinct (map buf_id (buffers P))"
  shows "relaxed_pair P w k m = (if disjoint_lifetimes P k then add_weight k w m else m)"
  using BuffersById_iff [OF assms]
  by (auto simp: relaxed_pair_def disjoint_lifetimes_def split: option.splits) (metis option.distinct(1) option.inject)+

lemma weighted_relaxed:
  assumes "distinct (map buf_id (buffers P))"
  shows "sorted_wrt (<) (map fst m) \<Longrightarrow> map_total m + length ks * w \<le> u64_max \<Longrightarrow>
   weighted g (fold (relaxed_pair P w) ks m) =
     weighted g m + (\<Sum>k\<leftarrow>ks. if disjoint_lifetimes P k then g k * w else 0)"
proof (induction ks arbitrary: m)
  case (Cons k ks)
  let ?m = "relaxed_pair P w k m"
  have le: "map_total m + w \<le> u64_max" using Cons.prems(2) by simp
  have add: "weighted h ?m = weighted h m + (if disjoint_lifetimes P k then h k * w else 0)" for h
    using weighted_add [OF Cons.prems(1) le] by (simp add: relaxed_pair_eq [OF assms])
  have "sorted_wrt (<) (map fst ?m)"
    using add_weight_sorted [OF Cons.prems(1)] Cons.prems(1) by (simp add: relaxed_pair_eq [OF assms])
  moreover have "map_total ?m + length ks * w \<le> u64_max"
    using Cons.prems(2) add [of "\<lambda>_. 1"] by (simp add: map_total_weighted split: if_splits)
  ultimately show ?case using Cons.IH [of ?m] add [of g] by simp
qed simp

lemma weighted_nonzero: "weighted g (filter (\<lambda>(k, v). v \<noteq> 0) m) = weighted g m"
  by (induction m) auto

lemma sum_list_of_bool: "distinct ks \<Longrightarrow> (\<Sum>k\<leftarrow>ks. if Q k then w else 0) = w * card {k \<in> set ks. Q k}"
  for w :: nat
proof (induction ks)
  case (Cons k ks)
  have "{x \<in> set (k # ks). Q x} = (if Q k then insert k {x \<in> set ks. Q x} else {x \<in> set ks. Q x})" by auto
  with Cons show ?case by (simp add: card_insert_if)
qed simp

lemma shares_canonical: "shares P f (fst (CanonicalBufferPair i j)) (snd (CanonicalBufferPair i j)) = shares P f i j"
  by (auto simp: CanonicalBufferPair_def shares_def Int_commute)

lemma penalties_weighted:
  "(\<Sum>q\<leftarrow>map (\<lambda>((i, j), v). \<lparr>pen_first = i, pen_second = j, weight = v\<rparr>) m.
     if shares P f (pen_first q) (pen_second q) then weight q else 0) =
   weighted (\<lambda>k. of_bool (shares P f (fst k) (snd k))) m"
  by (induction m) auto

lemma relaxed_cost:
  assumes wf: "well_formed P" and bound: "sum_list (map weight (reuse_penalties P)) + length r * w \<le> u64_max"
  shows "placement_cost (RelaxSeparationsToPenalties P r w) f = placement_cost P f +
    w * card {k \<in> (\<lambda>s. CanonicalBufferPair (sep_first s) (sep_second s)) ` set r.
      disjoint_lifetimes P k \<and> shares P f (fst k) (snd k)}"
proof -
  note ids = well_formed_distinct(1) [OF wf]
  define selected where "selected = std_set (map (\<lambda>s. CanonicalBufferPair (sep_first s) (sep_second s)) r)"
  define start where "start = fold combined_penalty (reuse_penalties P) []"
  define weights where "weights = fold (relaxed_pair P w) selected start"
  let ?g = "\<lambda>k. of_bool (shares P f (fst k) (snd k)) :: nat"
  have len: "length selected \<le> length r" by (simp add: selected_def std_set_def) (metis length_map length_remdups_leq)
  have le: "map_total [] + sum_list (map weight (reuse_penalties P)) \<le> u64_max" using bound by (simp add: map_total_def)
  have start: "sorted_wrt (<) (map fst start)"
    "weighted g start = (\<Sum>q\<leftarrow>reuse_penalties P. g (CanonicalBufferPair (pen_first q) (pen_second q)) * weight q)" for g
    using weighted_combined [OF _ le, of g] by (simp_all add: start_def)
  have "length selected * w \<le> length r * w" by (rule mult_le_mono1 [OF len])
  moreover have "map_total start = sum_list (map weight (reuse_penalties P))"
    using start(2) [of "\<lambda>_. 1"] by (simp add: map_total_weighted)
  ultimately have "map_total start + length selected * w \<le> u64_max" using bound by linarith
  have ind: "of_bool b * v = (if b then v else 0)" for b and v :: nat by simp
  have both: "(if disjoint_lifetimes P k then ?g k * w else 0) =
      (if disjoint_lifetimes P k \<and> shares P f (fst k) (snd k) then w else 0)" for k by simp
  from weighted_relaxed [OF ids start(1) \<open>map_total start + length selected * w \<le> u64_max\<close>, of ?g]
  have "weighted ?g weights =
      weighted ?g start + (\<Sum>k\<leftarrow>selected. if disjoint_lifetimes P k \<and> shares P f (fst k) (snd k) then w else 0)"
    by (simp only: weights_def both)
  also have "(\<Sum>k\<leftarrow>selected. if disjoint_lifetimes P k \<and> shares P f (fst k) (snd k) then w else 0) =
      w * card {k \<in> set selected. disjoint_lifetimes P k \<and> shares P f (fst k) (snd k)}"
    by (rule sum_list_of_bool) (simp add: selected_def)
  also have "weighted ?g start = placement_cost P f"
    by (simp add: start(2) placement_cost_def shares_canonical ind)
  also have "weighted ?g weights = placement_cost (RelaxSeparationsToPenalties P r w) f"
  proof -
    have sh: "shares (RelaxSeparationsToPenalties P r w) f = shares P f" by (simp add: shares_def fun_eq_iff)
    have "placement_cost (RelaxSeparationsToPenalties P r w) f = weighted ?g (filter (\<lambda>(k, v). v \<noteq> 0) weights)"
      unfolding placement_cost_def sh penalties_weighted [symmetric]
      by (simp add: RelaxSeparationsToPenalties_def Let_def weights_def start_def selected_def)
    then show ?thesis by (simp only: weighted_nonzero)
  qed
  finally show ?thesis by (simp add: selected_def)
qed

lemma relaxed_separations:
  "set (separations (RelaxSeparationsToPenalties P r w)) =
     {s \<in> set (separations P). \<forall>t\<in>set r. CanonicalBufferPair (sep_first s) (sep_second s) \<noteq>
        CanonicalBufferPair (sep_first t) (sep_second t)}"
  by (auto simp: RelaxSeparationsToPenalties_def Let_def)

section \<open>The properties\<close>

text \<open>
  Claim C30. Validation is exact: a problem is accepted without a diagnostic if and only if it is
  well formed, and a solution if and only if the problem is well formed and the solution is a
  valid placement of it; the validation of a solution never fails a lookup on the way.
\<close>

theorem validation_exact:
  assumes "u64_problem P"
  shows "(ValidateProblem P = [] \<longleftrightarrow> well_formed P) \<and>
    (ValidateSolution P s = Inr [] \<longleftrightarrow> well_formed P \<and> valid_placement P (Find s))"
  using ValidateProblem_Nil [OF assms] ValidateSolution_Nil [OF assms] by simp

text \<open>
  Claim C31. Relaxing separations of a well-formed problem, for pairs of different buffers in the same pool, to penalties
  of weight \<open>w\<close>, where the weights of the problem and \<open>w\<close> for each relaxed pair add up to at most 64 bits, gives
  a well-formed problem, and every valid placement of the original is one of the relaxed problem. It is exactly the
  relaxation: the separations of the given pairs, in either order, are gone and all others stay; and whatever the
  offsets, the cost is the original cost plus \<open>w\<close> for every given pair, counted once, that has disjoint lifetimes and
  shares an address.
\<close>

theorem relaxation_legal:
  assumes "well_formed P" and "u64_problem P" and "w \<le> u64_max"
    and "\<And>s. s \<in> set r \<Longrightarrow> pair_ok P (sep_first s) (sep_second s)"
    and "sum_list (map weight (reuse_penalties P)) + length r * w \<le> u64_max"
  shows "well_formed (RelaxSeparationsToPenalties P r w) \<and>
    (valid_placement P f \<longrightarrow> valid_placement (RelaxSeparationsToPenalties P r w) f) \<and>
    set (separations (RelaxSeparationsToPenalties P r w)) =
      {s \<in> set (separations P). \<forall>t\<in>set r. CanonicalBufferPair (sep_first s) (sep_second s) \<noteq>
         CanonicalBufferPair (sep_first t) (sep_second t)} \<and>
    placement_cost (RelaxSeparationsToPenalties P r w) f = placement_cost P f +
      w * card {k \<in> (\<lambda>s. CanonicalBufferPair (sep_first s) (sep_second s)) ` set r.
        disjoint_lifetimes P k \<and> shares P f (fst k) (snd k)}"
  using relaxed_well_formed_aux [OF assms] relaxed_keeps_valid relaxed_separations relaxed_cost [OF assms(1,5)] by blast

section \<open>An example\<close>

text \<open>Two buffers of 32 bytes with disjoint lifetimes, separated, in a pool of 128 bytes.\<close>

definition example_buffer :: "nat \<Rightarrow> nat \<Rightarrow> int \<Rightarrow> int \<Rightarrow> Buffer" where
  "example_buffer i n b e = \<lparr>buf_id = i, buf_size = n, alignment = 32, buf_pool = 0,
     lifetime = \<lparr>ivl_begin = b, ivl_end = e\<rparr>\<rparr>"

definition example_pool :: Pool where
  "example_pool = \<lparr>pool_id = 0, capacity = 128, reserved_ranges = [\<lparr>ar_begin = 0, ar_end = 16\<rparr>]\<rparr>"

definition two_buffers :: DsaProblem where
  "two_buffers = \<lparr>pools = [example_pool], buffers = [example_buffer 1 32 0 2, example_buffer 2 32 3 5],
     separations = [\<lparr>sep_first = 1, sep_second = 2\<rparr>], reuse_penalties = []\<rparr>"

lemmas example_simps = two_buffers_def example_pool_def example_buffer_def u64_max_def

lemma two_buffers_u64: "u64_problem two_buffers"
  by (simp add: u64_problem_def example_simps)

lemma two_buffers_valid: "ValidateProblem two_buffers = [] \<and> ValidateSolution two_buffers [(1, 32), (2, 64)] = Inr []"
proof -
  have "ValidateProblem two_buffers = []"
    by (simp add: ValidateProblem_def validate_pair_def validate_reserved_def BuffersById_def PoolsById_def example_simps)
  moreover from this have "ValidateSolution two_buffers [(1, 32), (2, 64)] = Inr []"
    by (simp add: ValidateSolution_def validate_offset_def validate_conflict_def Find_def is_separated_def
        Overlaps_def RangesOverlap_def AddOverflows_def add_u64_def BuffersById_def PoolsById_def example_simps)
  ultimately show ?thesis ..
qed

lemma validation_exact_witness: "valid_placement two_buffers (Find [(1, 32), (2, 64)])"
  using validation_exact [OF two_buffers_u64, of "[(1, 32), (2, 64)]"] two_buffers_valid by simp

text \<open>Relaxed to a penalty of 7, the two buffers may share addresses, at that cost.\<close>

lemma relaxation_legal_witness:
  "separations (RelaxSeparationsToPenalties two_buffers [\<lparr>sep_first = 2, sep_second = 1\<rparr>] 7) = [] \<and>
   placement_cost (RelaxSeparationsToPenalties two_buffers [\<lparr>sep_first = 2, sep_second = 1\<rparr>] 7) (Find [(1, 32), (2, 32)]) = 7"
proof -
  let ?r = "[\<lparr>sep_first = 2, sep_second = 1\<rparr>]" and ?f = "Find [(1, 32), (2, 32)]"
  have wf: "well_formed two_buffers" using ValidateSolution_Nil [OF two_buffers_u64] two_buffers_valid by simp
  have pairs: "{k \<in> (\<lambda>s. CanonicalBufferPair (sep_first s) (sep_second s)) ` set ?r.
      disjoint_lifetimes two_buffers k \<and> shares two_buffers ?f (fst k) (snd k)} = {(1, 2)}"
    by (auto simp: CanonicalBufferPair_def disjoint_lifetimes_def shares_def addresses_def Find_def Overlaps_def example_simps)
  have kept: "{s \<in> set (separations two_buffers). \<forall>t\<in>set ?r. CanonicalBufferPair (sep_first s) (sep_second s) \<noteq>
         CanonicalBufferPair (sep_first t) (sep_second t)} = {}"
    by (simp add: CanonicalBufferPair_def two_buffers_def)
  have cost: "placement_cost two_buffers ?f = 0" by (simp add: placement_cost_def two_buffers_def)
  have "pair_ok two_buffers (sep_first s) (sep_second s)" if "s \<in> set ?r" for s
    using that by (simp add: pair_ok_def example_simps)
  from relaxation_legal [where w = 7 and r = ?r and f = ?f, OF wf two_buffers_u64 _ this, unfolded pairs kept cost]
  show ?thesis by (simp add: two_buffers_def u64_max_def)
qed

end
