(* ===== verification/Dsa_Solver.thy ===== *)
theory Dsa_Solver
  imports Dsa_Problem
begin

text \<open>
  The canonical greedy solver, \<^verbatim>\<open>src/ir/transforms/dsa/dsa_reuse_penalty_solver.cpp\<close>: the search
  space (who must not overlap whom, and at what cost buffers may), the orders in which buffers are
  placed, the penalty-blind first fit, the sweep over the candidate offsets of a buffer, and the
  choice among the placements. \<open>std::mt19937_64\<close> with \<open>std::shuffle\<close> is the parameter \<open>shuffle\<close>:
  the order that restart \<open>i\<close> makes of the previous one. A lookup with \<open>at\<close> of a missing key is the
  error \<open>OutOfRange\<close>.

  Shown: the lowest fit is the lowest free aligned offset; the sweep, which moves over sorted
  boundaries with three cursors, computes exactly the cheapest admissible candidate; every
  placement it or the first fit finds is valid, so that the solver never reports an internal
  validation failure, never misses a lookup, and never returns a placement worse than another
  one it has seen.
\<close>

section \<open>Search space\<close>

type_synonym SearchNode = Buffer

record SearchSpace =
  nodes :: "SearchNode list"
  hard_neighbors :: "nat list list"
  soft_weights :: "((nat \<times> nat) \<times> nat) list"
  soft_neighbors :: "(nat \<times> nat) list list"

definition CanonicalPair :: "nat \<Rightarrow> nat \<Rightarrow> nat \<times> nat" where
  "CanonicalPair first second = (if first < second then (first, second) else (second, first))"

definition node_by_buffer :: "DsaProblem \<Rightarrow> nat \<Rightarrow> nat res" where
  "node_by_buffer P i =
     (case map_of (zip (map buf_id (buffers P)) [0..<length (buffers P)]) i of
        Some k \<Rightarrow> Inr k
      | None \<Rightarrow> Inl OutOfRange)"

definition link :: "nat \<Rightarrow> nat \<Rightarrow> nat list list \<Rightarrow> nat list list" where
  "link i j h = (let h' = h[i := insort_insert j (h ! i)] in h'[j := insort_insert i (h' ! j)])"

definition lifetime_links :: "SearchNode list \<Rightarrow> (nat \<times> nat) list" where
  "lifetime_links ns = concat (map (\<lambda>first.
     map (Pair first) (filter (\<lambda>second. buf_pool (ns ! first) = buf_pool (ns ! second) \<and>
       Overlaps (lifetime (ns ! first)) (lifetime (ns ! second))) [Suc first..<length ns])) [0..<length ns])"

fun link_separations :: "DsaProblem \<Rightarrow> Separation list \<Rightarrow> nat list list \<Rightarrow> nat list list res" where
  "link_separations P [] h = Inr h"
| "link_separations P (s # ss) h =
     res_bind (node_by_buffer P (sep_first s)) (\<lambda>first.
     res_bind (node_by_buffer P (sep_second s)) (\<lambda>second.
       link_separations P ss (link first second h)))"

fun collect_weights ::
  "DsaProblem \<Rightarrow> nat list list \<Rightarrow> ReusePenalty list \<Rightarrow> ((nat \<times> nat) \<times> nat) list \<Rightarrow>
    ((nat \<times> nat) \<times> nat) list res" where
  "collect_weights P h [] m = Inr m"
| "collect_weights P h (q # qs) m =
     res_bind (node_by_buffer P (pen_first q)) (\<lambda>first.
     res_bind (node_by_buffer P (pen_second q)) (\<lambda>second.
       if weight q = 0 \<or> second \<in> set (h ! first) then collect_weights P h qs m
       else collect_weights P h qs (add_weight (CanonicalPair first second) (weight q) m)))"

definition link_weight ::
  "(nat \<times> nat) \<times> nat \<Rightarrow> (nat \<times> nat) list list \<Rightarrow> (nat \<times> nat) list list" where
  "link_weight = (\<lambda>((i, j), w) sn.
     let sn' = sn[i := sn ! i @ [(j, w)]] in sn'[j := sn' ! j @ [(i, w)]])"

definition BuildSearchSpace :: "DsaProblem \<Rightarrow> SearchSpace res" where
  "BuildSearchSpace P =
     (let ns = buffers P; count = length ns;
          h = fold (\<lambda>(i, j). link i j) (lifetime_links ns) (replicate count []) in
      res_bind (link_separations P (separations P) h) (\<lambda>hard.
      res_bind (collect_weights P hard (reuse_penalties P) []) (\<lambda>weights.
        Inr \<lparr>nodes = ns, hard_neighbors = hard, soft_weights = weights,
             soft_neighbors = fold link_weight weights (replicate count [])\<rparr>)))"

section \<open>Orders\<close>

definition SizeOrder :: "SearchSpace \<Rightarrow> nat list" where
  "SizeOrder S = sort_key
     (\<lambda>i. (u64_max - buf_size (nodes S ! i), ivl_begin (lifetime (nodes S ! i)), buf_id (nodes S ! i)))
     [0..<length (nodes S)]"

definition add_incident :: "(nat \<times> nat) \<times> nat \<Rightarrow> nat list \<Rightarrow> nat list" where
  "add_incident = (\<lambda>((i, j), w) ws.
     let ws' = ws[i := SaturatingAdd (ws ! i) w] in ws'[j := SaturatingAdd (ws' ! j) w])"

fun shuffled :: "(nat \<Rightarrow> nat list \<Rightarrow> nat list) \<Rightarrow> nat \<Rightarrow> nat \<Rightarrow> nat list \<Rightarrow> nat list list" where
  "shuffled shuffle i 0 order = []"
| "shuffled shuffle i (Suc restarts) order =
     shuffle i order # shuffled shuffle (Suc i) restarts (shuffle i order)"

fun unique_orders :: "nat list list \<Rightarrow> nat list list \<Rightarrow> nat list list" where
  "unique_orders seen [] = []"
| "unique_orders seen (x # xs) =
     (if x \<in> set seen then unique_orders seen xs else x # unique_orders (x # seen) xs)"

definition CanonicalOrders :: "(nat \<Rightarrow> nat list \<Rightarrow> nat list) \<Rightarrow> nat \<Rightarrow> SearchSpace \<Rightarrow> nat list list" where
  "CanonicalOrders shuffle restarts S =
     (let by_size = SizeOrder S;
          by_birth = sort_key (\<lambda>i. (ivl_begin (lifetime (nodes S ! i)), buf_id (nodes S ! i))) by_size;
          incident = fold add_incident (soft_weights S) (replicate (length (nodes S)) 0);
          by_weight = sort_key (\<lambda>i. (u64_max - incident ! i, u64_max - buf_size (nodes S ! i), buf_id (nodes S ! i)))
            by_birth in
      unique_orders [] ([by_size, by_birth, by_weight] @ shuffled shuffle 0 restarts by_weight))"

section \<open>Placing one buffer\<close>

text \<open>The vectors \<open>placed\<close> and \<open>offsets\<close>.\<close>

record Placement =
  placed :: "bool list"
  offsets :: "nat list"

definition placed_range :: "SearchSpace \<Rightarrow> Placement \<Rightarrow> nat \<Rightarrow> AddressRange" where
  "placed_range S st other =
     \<lparr>ar_begin = offsets st ! other, ar_end = add_u64 (offsets st ! other) (buf_size (nodes S ! other))\<rparr>"

definition blocking :: "SearchSpace \<Rightarrow> Placement \<Rightarrow> nat \<Rightarrow> nat \<Rightarrow> bool" where
  "blocking S st current other \<longleftrightarrow>
     placed st ! other \<and> buf_pool (nodes S ! other) = buf_pool (nodes S ! current) \<and>
     \<not> AddOverflows (offsets st ! other) (buf_size (nodes S ! other))"

definition pool_reserved :: "DsaProblem \<Rightarrow> int \<Rightarrow> AddressRange list" where
  "pool_reserved P i =
     (case List.find (\<lambda>p. pool_id p = i) (pools P) of Some p \<Rightarrow> reserved_ranges p | None \<Rightarrow> [])"

definition BlockingRanges :: "DsaProblem \<Rightarrow> SearchSpace \<Rightarrow> Placement \<Rightarrow> nat \<Rightarrow> AddressRange list" where
  "BlockingRanges P S st current =
     pool_reserved P (buf_pool (nodes S ! current)) @
     map (placed_range S st) (filter (blocking S st current) (hard_neighbors S ! current))"

definition range_key :: "AddressRange \<Rightarrow> nat \<times> nat" where
  "range_key r = (ar_begin r, ar_end r)"

fun lowest_scan :: "nat \<Rightarrow> nat \<Rightarrow> AddressRange list \<Rightarrow> nat \<Rightarrow> nat option" where
  "lowest_scan n al [] candidate = (if AddOverflows candidate n then None else Some candidate)"
| "lowest_scan n al (r # rs) candidate =
     (if ar_end r \<le> candidate then lowest_scan n al rs candidate
      else if AddOverflows candidate n then None
      else if ar_begin r \<ge> add_u64 candidate n then Some candidate
      else case AlignUp (ar_end r) al of None \<Rightarrow> None | Some c \<Rightarrow> lowest_scan n al rs c)"

definition LowestFit :: "nat \<Rightarrow> nat \<Rightarrow> AddressRange list \<Rightarrow> nat option" where
  "LowestFit n al blocked =
     (case AlignUp 0 al of
        None \<Rightarrow> None
      | Some candidate \<Rightarrow> lowest_scan n al (sort_key range_key blocked) candidate)"

fun merge_range :: "AddressRange list \<Rightarrow> AddressRange \<Rightarrow> AddressRange list" where
  "merge_range merged r =
     (if merged = [] \<or> ar_end (last merged) < ar_begin r then merged @ [r]
      else butlast merged @ [(last merged)\<lparr>ar_end := max (ar_end (last merged)) (ar_end r)\<rparr>])"

definition MergeBlockingRanges :: "AddressRange list \<Rightarrow> AddressRange list" where
  "MergeBlockingRanges ranges = foldl merge_range [] (sort_key range_key ranges)"

definition soft_placed :: "SearchSpace \<Rightarrow> Placement \<Rightarrow> nat \<Rightarrow> (nat \<times> nat) list" where
  "soft_placed S st current = filter (\<lambda>(other, w).
     placed st ! other \<and> \<not> AddOverflows (offsets st ! other) (buf_size (nodes S ! other)))
     (soft_neighbors S ! current)"

definition BuildSoftBoundaries ::
  "SearchSpace \<Rightarrow> Placement \<Rightarrow> nat \<Rightarrow> (nat \<times> nat) list \<times> (nat \<times> nat) list" where
  "BuildSoftBoundaries S st current =
     (sort (map (\<lambda>(other, w). (ar_begin (placed_range S st other), w)) (soft_placed S st current)),
      sort (map (\<lambda>(other, w). (ar_end (placed_range S st other), w)) (soft_placed S st current)))"

definition CandidateOffsets :: "DsaProblem \<Rightarrow> SearchSpace \<Rightarrow> Placement \<Rightarrow> nat \<Rightarrow> nat list" where
  "CandidateOffsets P S st current =
     (let candidates = std_set ([0] @
            map ar_end (pool_reserved P (buf_pool (nodes S ! current))) @
            map (ar_end \<circ> placed_range S st) (filter (blocking S st current) (hard_neighbors S ! current)) @
            map (ar_end \<circ> placed_range S st)
              (filter (blocking S st current) (map fst (soft_neighbors S ! current)))) in
      std_set (List.map_filter (\<lambda>c. AlignUp c (alignment (nodes S ! current))) candidates))"

text \<open>
  The sweep over the candidates in increasing order. The three cursors are the rests of the
  vectors they point into.
\<close>

record Sweep =
  blocked_rest :: "AddressRange list"
  starts_rest :: "(nat \<times> nat) list"
  ends_rest :: "(nat \<times> nat) list"
  started_weight :: nat
  ended_weight :: nat
  best :: "(nat \<times> nat) option"

fun advance :: "(nat \<Rightarrow> bool) \<Rightarrow> (nat \<times> nat) list \<Rightarrow> nat \<Rightarrow> (nat \<times> nat) list \<times> nat" where
  "advance p [] acc = ([], acc)"
| "advance p ((position, w) # rest) acc =
     (if p position then advance p rest (add_u64 acc w) else ((position, w) # rest, acc))"

definition better_score :: "nat \<times> nat \<Rightarrow> (nat \<times> nat) option \<Rightarrow> (nat \<times> nat) option" where
  "better_score score b = (case b of None \<Rightarrow> Some score | Some old \<Rightarrow> if score < old then Some score else Some old)"

definition sweep_offset :: "SearchNode \<Rightarrow> Pool \<Rightarrow> Sweep \<Rightarrow> nat \<Rightarrow> Sweep option" where
  "sweep_offset node pool sw offset =
     (if AddOverflows offset (buf_size node) \<or> add_u64 offset (buf_size node) > capacity pool then Some sw
      else let candidate_end = add_u64 offset (buf_size node);
               blocked = dropWhile (\<lambda>r. ar_end r \<le> offset) (blocked_rest sw) in
        if blocked \<noteq> [] \<and> ar_begin (hd blocked) < candidate_end then Some (sw\<lparr>blocked_rest := blocked\<rparr>)
        else let (starts, started) = advance (\<lambda>p. p < candidate_end) (starts_rest sw) (started_weight sw);
                 (ends, ended) = advance (\<lambda>p. p \<le> offset) (ends_rest sw) (ended_weight sw) in
          if started < ended then None
          else Some \<lparr>blocked_rest = blocked, starts_rest = starts, ends_rest = ends,
                     started_weight = started, ended_weight = ended,
                     best = better_score (started - ended, offset) (best sw)\<rparr>)"

text \<open>The number of candidates evaluated, and the final state of the sweep unless it gives up.\<close>

fun sweep :: "SearchNode \<Rightarrow> Pool \<Rightarrow> nat list \<Rightarrow> nat \<Rightarrow> Sweep \<Rightarrow> nat \<times> Sweep option" where
  "sweep node pool [] evaluated sw = (evaluated, Some sw)"
| "sweep node pool (offset # rest) evaluated sw =
     (case sweep_offset node pool sw offset of
        None \<Rightarrow> (Suc evaluated, None)
      | Some sw' \<Rightarrow> sweep node pool rest (Suc evaluated) sw')"

section \<open>Placing all buffers\<close>

definition unplaced :: "SearchSpace \<Rightarrow> Placement" where
  "unplaced S = \<lparr>placed = replicate (length (nodes S)) False, offsets = replicate (length (nodes S)) 0\<rparr>"

definition put :: "nat \<Rightarrow> nat \<Rightarrow> Placement \<Rightarrow> Placement" where
  "put current offset st = \<lparr>placed = (placed st)[current := True], offsets = (offsets st)[current := offset]\<rparr>"

definition BuildSolution :: "SearchSpace \<Rightarrow> nat list \<Rightarrow> DsaSolution" where
  "BuildSolution S offs =
     fold (\<lambda>i. map_emplace (buf_id (nodes S ! i)) (offs ! i)) [0..<length (nodes S)] []"

definition find_pool :: "DsaProblem \<Rightarrow> int \<Rightarrow> Pool res" where
  "find_pool P i = (case PoolsById P i of Some p \<Rightarrow> Inr p | None \<Rightarrow> Inl OutOfRange)"

fun first_fit :: "DsaProblem \<Rightarrow> SearchSpace \<Rightarrow> nat list \<Rightarrow> Placement \<Rightarrow> Placement option res" where
  "first_fit P S [] st = Inr (Some st)"
| "first_fit P S (current # rest) st =
     (let node = nodes S ! current;
          offset = LowestFit (buf_size node) (alignment node) (BlockingRanges P S st current) in
      res_bind (find_pool P (buf_pool node)) (\<lambda>pool.
        case offset of
          None \<Rightarrow> Inr None
        | Some off \<Rightarrow>
            if AddOverflows off (buf_size node) \<or> add_u64 off (buf_size node) > capacity pool then Inr None
            else first_fit P S rest (put current off st)))"

definition FirstFitIncumbent :: "DsaProblem \<Rightarrow> SearchSpace \<Rightarrow> DsaSolution option res" where
  "FirstFitIncumbent P S =
     res_bind (first_fit P S (SizeOrder S) (unplaced S)) (\<lambda>r.
       Inr (map_option (\<lambda>st. BuildSolution S (offsets st)) r))"

definition place_one ::
  "DsaProblem \<Rightarrow> SearchSpace \<Rightarrow> Placement \<Rightarrow> nat \<Rightarrow> nat \<Rightarrow> (nat \<times> nat option) res" where
  "place_one P S st current evaluated =
     (let candidates = CandidateOffsets P S st current;
          blocked = MergeBlockingRanges (BlockingRanges P S st current);
          (soft_starts, soft_ends) = BuildSoftBoundaries S st current;
          node = nodes S ! current in
      res_bind (find_pool P (buf_pool node)) (\<lambda>pool.
        case sweep node pool candidates evaluated
          \<lparr>blocked_rest = blocked, starts_rest = soft_starts, ends_rest = soft_ends,
           started_weight = 0, ended_weight = 0, best = None\<rparr> of
          (evaluated', None) \<Rightarrow> Inr (evaluated', None)
        | (evaluated', Some sw) \<Rightarrow> Inr (evaluated', map_option snd (best sw))))"

fun place_order ::
  "DsaProblem \<Rightarrow> SearchSpace \<Rightarrow> nat list \<Rightarrow> nat \<Rightarrow> Placement \<Rightarrow> (nat \<times> Placement option) res" where
  "place_order P S [] evaluated st = Inr (evaluated, Some st)"
| "place_order P S (current # rest) evaluated st =
     res_bind (place_one P S st current evaluated) (\<lambda>(evaluated', r).
       case r of
         None \<Rightarrow> Inr (evaluated', None)
       | Some off \<Rightarrow> place_order P S rest evaluated' (put current off st))"

definition PlaceCanonicalOrder ::
  "DsaProblem \<Rightarrow> SearchSpace \<Rightarrow> nat list \<Rightarrow> nat \<Rightarrow> (nat \<times> DsaSolution option) res" where
  "PlaceCanonicalOrder P S order evaluated =
     res_bind (place_order P S order evaluated (unplaced S)) (\<lambda>(evaluated', r).
       Inr (evaluated', map_option (\<lambda>st. BuildSolution S (offsets st)) r))"

section \<open>Solving\<close>

definition IsBetterObjective :: "ObjectiveValue \<Rightarrow> ObjectiveValue \<Rightarrow> bool" where
  "IsBetterObjective candidate incumbent \<longleftrightarrow>
     (reuse_cost candidate, total_peak candidate, max_peak candidate) <
     (reuse_cost incumbent, total_peak incumbent, max_peak incumbent)"

datatype SolveStatus = kFeasible | kNoFit | kInvalidProblem

record SolverStatistics =
  candidate_offsets_evaluated :: nat
  orders_evaluated :: nat
  selected_order :: nat
  first_fit_seed_feasible :: bool
  selected_first_fit_seed :: bool

record DsaResult =
  status :: SolveStatus
  solution :: "DsaSolution option"
  objective :: ObjectiveValue
  statistics :: SolverStatistics
  diagnostics :: "diagnostic list"

definition empty_result :: DsaResult where
  "empty_result = \<lparr>status = kInvalidProblem, solution = None,
     objective = \<lparr>reuse_cost = 0, total_peak = 0, max_peak = 0, peak_by_pool = []\<rparr>,
     statistics = \<lparr>candidate_offsets_evaluated = 0, orders_evaluated = 0, selected_order = 0,
       first_fit_seed_feasible = False, selected_first_fit_seed = False\<rparr>,
     diagnostics = []\<rparr>"

text \<open>One iteration of the loop over the orders; \<open>True\<close> when it returns from \<open>Solve\<close>.\<close>

definition try_order ::
  "DsaProblem \<Rightarrow> SearchSpace \<Rightarrow> nat \<Rightarrow> nat list \<Rightarrow> DsaResult \<Rightarrow> (DsaResult \<times> bool) res" where
  "try_order P S order_index order result =
     res_bind (PlaceCanonicalOrder P S order (candidate_offsets_evaluated (statistics result))) (\<lambda>(evaluated, placement).
       let stats = (statistics result)\<lparr>orders_evaluated := Suc (orders_evaluated (statistics result)),
             candidate_offsets_evaluated := evaluated\<rparr>;
           result' = result\<lparr>statistics := stats\<rparr> in
       case placement of
         None \<Rightarrow> Inr (result', False)
       | Some s \<Rightarrow> res_bind (ValidateSolution P s) (\<lambda>errors.
           if errors \<noteq> [] then
             Inr (result'\<lparr>status := kInvalidProblem, solution := None,
               diagnostics := diagnostics result' @ [PlacementFailed] @ errors\<rparr>, True)
           else let value = EvaluateObjective P s in
             if solution result' = None \<or> IsBetterObjective value (objective result') then
               Inr (result'\<lparr>status := kFeasible, solution := Some s, objective := value,
                 statistics := stats\<lparr>selected_order := order_index, selected_first_fit_seed := False\<rparr>\<rparr>, False)
             else Inr (result', False)))"

fun try_orders ::
  "DsaProblem \<Rightarrow> SearchSpace \<Rightarrow> nat \<Rightarrow> nat list list \<Rightarrow> DsaResult \<Rightarrow> (DsaResult \<times> bool) res" where
  "try_orders P S order_index [] result = Inr (result, False)"
| "try_orders P S order_index (order # rest) result =
     res_bind (try_order P S order_index order result) (\<lambda>(result', returned).
       if returned then Inr (result', True) else try_orders P S (Suc order_index) rest result')"

definition Solve :: "(nat \<Rightarrow> nat list \<Rightarrow> nat list) \<Rightarrow> nat \<Rightarrow> DsaProblem \<Rightarrow> DsaResult res" where
  "Solve shuffle restarts P =
     (let errors = ValidateProblem P in
      if errors \<noteq> [] then Inr (empty_result\<lparr>diagnostics := errors\<rparr>)
      else
        res_bind (BuildSearchSpace P) (\<lambda>S.
        res_bind (FirstFitIncumbent P S) (\<lambda>fit.
        res_bind
          (case fit of
             None \<Rightarrow> Inr (empty_result, False)
           | Some s \<Rightarrow> res_bind (ValidateSolution P s) (\<lambda>errors.
               if errors \<noteq> [] then
                 Inr (empty_result\<lparr>diagnostics := [FirstFitFailed] @ errors\<rparr>, True)
               else
                 Inr (empty_result\<lparr>status := kFeasible, solution := Some s, objective := EvaluateObjective P s,
                   statistics := (statistics empty_result)\<lparr>first_fit_seed_feasible := True,
                     selected_first_fit_seed := True\<rparr>\<rparr>, False))) (\<lambda>(seed, returned).
        if returned then Inr seed
        else res_bind (try_orders P S 0 (CanonicalOrders shuffle restarts S) seed) (\<lambda>(result, returned).
          if returned then Inr result
          else if solution result = None then
            Inr (result\<lparr>status := kNoFit, diagnostics := diagnostics result @ [NoPlacement]\<rparr>)
          else Inr result)))))"

section \<open>The lowest fit\<close>

definition free_at :: "nat \<Rightarrow> AddressRange list \<Rightarrow> nat \<Rightarrow> bool" where
  "free_at n blocked off \<longleftrightarrow> (\<forall>r\<in>set blocked. {off..<off + n} \<inter> {ar_begin r..<ar_end r} = {})"

definition ranges_ok :: "AddressRange list \<Rightarrow> bool" where
  "ranges_ok rs \<longleftrightarrow> (\<forall>r\<in>set rs. ar_begin r < ar_end r \<and> ar_end r \<le> u64_max)"

lemma disjoint_ranges:
  "0 < n \<Longrightarrow> b < e \<Longrightarrow> {off..<off + n} \<inter> {b..<e} = {} \<longleftrightarrow> e \<le> off \<or> off + n \<le> (b::nat)"
  by (auto simp: Int_atLeastLessThan)

lemma free_at_iff:
  "0 < n \<Longrightarrow> ranges_ok rs \<Longrightarrow>
   free_at n rs off \<longleftrightarrow> (\<forall>r\<in>set rs. ar_end r \<le> off \<or> off + n \<le> ar_begin r)"
  unfolding free_at_def by (intro ball_cong refl disjoint_ranges) (auto simp: ranges_ok_def)

lemma free_at_Cons:
  "0 < n \<Longrightarrow> ranges_ok (r # rs) \<Longrightarrow>
   free_at n (r # rs) off \<longleftrightarrow> (ar_end r \<le> off \<or> off + n \<le> ar_begin r) \<and> free_at n rs off"
  using free_at_iff [of n "r # rs"] free_at_iff [of n rs] by (simp add: ranges_ok_def)

lemma ranges_ok_Cons [simp]:
  "ranges_ok (r # rs) \<longleftrightarrow> ar_begin r < ar_end r \<and> ar_end r \<le> u64_max \<and> ranges_ok rs"
  by (auto simp: ranges_ok_def)

lemma free_after:
  assumes "0 < n" and "ranges_ok rs" and "\<forall>r\<in>set rs. off + n \<le> ar_begin r"
  shows "free_at n rs off"
  using assms by (simp add: free_at_iff)

text \<open>What \<open>lowest_scan\<close> looks for: the least free aligned offset from the candidate on.\<close>

definition fits_from :: "nat \<Rightarrow> nat \<Rightarrow> AddressRange list \<Rightarrow> nat \<Rightarrow> nat \<Rightarrow> bool" where
  "fits_from n al rs candidate off \<longleftrightarrow>
     al dvd off \<and> candidate \<le> off \<and> off + n \<le> u64_max \<and> free_at n rs off"

definition least_option :: "(nat \<Rightarrow> bool) \<Rightarrow> nat option \<Rightarrow> bool" where
  "least_option P r \<longleftrightarrow> (case r of None \<Rightarrow> \<forall>q. \<not> P q | Some x \<Rightarrow> P x \<and> (\<forall>q. P q \<longrightarrow> x \<le> q))"

lemma lowest_scan_least:
  assumes "0 < n" and "n \<le> u64_max" and "0 < al" and "al \<le> u64_max"
  shows "sorted (map ar_begin rs) \<Longrightarrow> ranges_ok rs \<Longrightarrow> al dvd candidate \<Longrightarrow>
    least_option (fits_from n al rs candidate) (lowest_scan n al rs candidate)"
proof (induction rs arbitrary: candidate)
  case Nil
  then show ?case using assms(2) by (auto simp: least_option_def fits_from_def free_at_def)
next
  case (Cons r rs)
  have ok: "ranges_ok (r # rs)" "ranges_ok rs" and so: "sorted (map ar_begin rs)" using Cons.prems by simp_all
  note fc = free_at_Cons [OF assms(1) ok(1)]
  consider (skip) "ar_end r \<le> candidate" | (over) "candidate < ar_end r" "u64_max < candidate + n"
    | (stop) "candidate < ar_end r" "candidate + n \<le> u64_max" "candidate + n \<le> ar_begin r"
    | (move) "candidate < ar_end r" "candidate + n \<le> u64_max" "ar_begin r < candidate + n"
    by linarith
  then show ?case
  proof cases
    case skip
    have "fits_from n al (r # rs) candidate = fits_from n al rs candidate"
    proof
      fix q
      show "fits_from n al (r # rs) candidate q = fits_from n al rs candidate q"
        unfolding fits_from_def fc using skip by auto
    qed
    then show ?thesis using Cons.IH [OF so ok(2) Cons.prems(3)] skip by simp
  next
    case over
    then show ?thesis using assms(2) by (auto simp: least_option_def fits_from_def)
  next
    case stop
    have "\<forall>x\<in>set (r # rs). candidate + n \<le> ar_begin x" using stop(3) Cons.prems(1) by auto
    from free_after [OF assms(1) ok(1) this] show ?thesis
      using stop assms(2) Cons.prems(3) by (auto simp: least_option_def fits_from_def)
  next
    case move
    have later: "fits_from n al (r # rs) candidate q \<longleftrightarrow> fits_from n al rs (ar_end r) q" for q
      unfolding fits_from_def fc using move by auto
    show ?thesis
    proof (cases "AlignUp (ar_end r) al")
      case None
      have "\<not> fits_from n al rs (ar_end r) q" for q
        using AlignUp_none [OF None assms(3,4)] by (fastforce simp: fits_from_def)
      then show ?thesis using None move assms(2) later by (simp add: least_option_def)
    next
      case (Some c)
      note c = AlignUp_some [OF Some assms(3,4)]
      have "fits_from n al (r # rs) candidate = fits_from n al rs c"
      proof
        fix q
        show "fits_from n al (r # rs) candidate q = fits_from n al rs c q"
          unfolding later unfolding fits_from_def using c(2,3) by (meson order_trans)
      qed
      then show ?thesis using Cons.IH [OF so ok(2) c(1)] Some move assms(2) by simp
    qed
  qed
qed

lemma sorted_by_begin: "sorted (map range_key rs) \<Longrightarrow> sorted (map ar_begin rs)"
  by (induction rs) (auto simp: range_key_def less_eq_prod_def)

lemma free_at_set: "set rs = set rs' \<Longrightarrow> free_at n rs off \<longleftrightarrow> free_at n rs' off"
  by (simp add: free_at_def)

lemma LowestFit_least:
  assumes "0 < n" and "n \<le> u64_max" and "0 < al" and "al \<le> u64_max" and "ranges_ok blocked"
  shows "least_option (\<lambda>off. al dvd off \<and> off + n \<le> u64_max \<and> free_at n blocked off) (LowestFit n al blocked)"
proof -
  have "sorted (map ar_begin (sort_key range_key blocked))" by (rule sorted_by_begin) simp
  moreover have "ranges_ok (sort_key range_key blocked)" using assms(5) by (simp add: ranges_ok_def)
  ultimately have "least_option (fits_from n al (sort_key range_key blocked) 0) (LowestFit n al blocked)"
    unfolding LowestFit_def using lowest_scan_least [OF assms(1-4)] by simp
  moreover have "fits_from n al (sort_key range_key blocked) 0 =
      (\<lambda>off. al dvd off \<and> off + n \<le> u64_max \<and> free_at n blocked off)"
    using free_at_set [of "sort_key range_key blocked" blocked] by (simp add: fits_from_def fun_eq_iff)
  ultimately show ?thesis by simp
qed

section \<open>Merging blocked ranges\<close>

definition gaps :: "AddressRange list \<Rightarrow> bool" where
  "gaps rs \<longleftrightarrow> sorted_wrt (\<lambda>a b. ar_end a < ar_begin b) rs"

definition covered :: "AddressRange list \<Rightarrow> nat set" where
  "covered rs = (\<Union>r\<in>set rs. {ar_begin r..<ar_end r})"

lemma free_at_covered: "free_at n rs off \<longleftrightarrow> {off..<off + n} \<inter> covered rs = {}"
  unfolding free_at_def covered_def by blast

lemma covered_append: "covered (xs @ ys) = covered xs \<union> covered ys"
  by (simp add: covered_def)

lemma merge_range_step:
  assumes "gaps merged" and "ranges_ok merged" and "ar_begin r < ar_end r" and "ar_end r \<le> u64_max"
    and "merged \<noteq> [] \<longrightarrow> ar_begin (last merged) \<le> ar_begin r"
  shows "gaps (merge_range merged r) \<and> ranges_ok (merge_range merged r) \<and>
    covered (merge_range merged r) = covered merged \<union> {ar_begin r..<ar_end r} \<and>
    merge_range merged r \<noteq> [] \<and> ar_begin (last (merge_range merged r)) \<le> ar_begin r"
proof (cases "merged = []")
  case True
  with assms(3,4) show ?thesis by (simp add: gaps_def ranges_ok_def covered_def)
next
  case False
  then obtain ms l where m: "merged = ms @ [l]" by (metis rev_exhaust)
  have l: "ar_begin l < ar_end l" "ar_end l \<le> u64_max" "ar_begin l \<le> ar_begin r" "ranges_ok ms"
    "\<forall>x\<in>set ms. ar_end x < ar_begin l" "gaps ms"
    using assms m by (auto simp: ranges_ok_def gaps_def sorted_wrt_append)
  show ?thesis
  proof (cases "ar_end l < ar_begin r")
    case True
    have "\<forall>x\<in>set ms. ar_end x < ar_begin r" using l by force
    with True show ?thesis
      using assms(1-4) m l by (auto simp: gaps_def sorted_wrt_append ranges_ok_def covered_def)
  next
    case no_gap: False
    have "{ar_begin l..<max (ar_end l) (ar_end r)} = {ar_begin l..<ar_end l} \<union> {ar_begin r..<ar_end r}"
      using l no_gap assms(3) by auto
    with no_gap show ?thesis
      using assms(3,4) m l by (auto simp: gaps_def sorted_wrt_append ranges_ok_def covered_def)
  qed
qed

lemma foldl_merge:
  "gaps merged \<Longrightarrow> ranges_ok merged \<Longrightarrow> ranges_ok rs \<Longrightarrow> sorted (map ar_begin rs) \<Longrightarrow>
   merged \<noteq> [] \<longrightarrow> (\<forall>r\<in>set rs. ar_begin (last merged) \<le> ar_begin r) \<Longrightarrow>
   gaps (foldl merge_range merged rs) \<and> ranges_ok (foldl merge_range merged rs) \<and>
   covered (foldl merge_range merged rs) = covered merged \<union> covered rs"
proof (induction rs arbitrary: merged)
  case (Cons r rs)
  have step: "gaps (merge_range merged r) \<and> ranges_ok (merge_range merged r) \<and>
    covered (merge_range merged r) = covered merged \<union> {ar_begin r..<ar_end r} \<and>
    merge_range merged r \<noteq> [] \<and> ar_begin (last (merge_range merged r)) \<le> ar_begin r"
    by (rule merge_range_step) (use Cons.prems in auto)
  have "\<forall>x\<in>set rs. ar_begin (last (merge_range merged r)) \<le> ar_begin x"
    using step Cons.prems(4) by (auto intro: order_trans)
  with Cons.IH [of "merge_range merged r"] step Cons.prems show ?case by (auto simp: covered_def)
qed (simp add: covered_def)

lemma MergeBlockingRanges_correct:
  assumes "ranges_ok rs"
  shows "gaps (MergeBlockingRanges rs)" and "ranges_ok (MergeBlockingRanges rs)"
    and "covered (MergeBlockingRanges rs) = covered rs"
proof -
  have "sorted (map ar_begin (sort_key range_key rs))" by (rule sorted_by_begin) simp
  moreover have "ranges_ok (sort_key range_key rs)" using assms by (simp add: ranges_ok_def)
  ultimately have "gaps (MergeBlockingRanges rs) \<and> ranges_ok (MergeBlockingRanges rs) \<and>
      covered (MergeBlockingRanges rs) = covered (sort_key range_key rs)"
    using foldl_merge [of "[]" "sort_key range_key rs"]
    by (simp add: MergeBlockingRanges_def gaps_def ranges_ok_def covered_def)
  then show "gaps (MergeBlockingRanges rs)" "ranges_ok (MergeBlockingRanges rs)"
    "covered (MergeBlockingRanges rs) = covered rs"
    by (simp_all add: covered_def)
qed

text \<open>The first range that ends after the offset decides whether the candidate is free.\<close>

lemma first_range_decides:
  assumes "0 < n"
  shows "gaps rs \<Longrightarrow> ranges_ok rs \<Longrightarrow>
    (let rest = dropWhile (\<lambda>r. ar_end r \<le> off) rs in rest \<noteq> [] \<and> ar_begin (hd rest) < off + n) \<longleftrightarrow>
    \<not> free_at n rs off"
proof (induction rs)
  case (Cons r rs)
  have ok: "ranges_ok (r # rs)" by (rule Cons.prems)
  have g: "gaps rs" "\<forall>x\<in>set rs. ar_end r < ar_begin x" using Cons.prems(1) by (auto simp: gaps_def)
  show ?case
  proof (cases "ar_end r \<le> off")
    case True
    then show ?thesis using Cons.IH g(1) ok free_at_Cons [OF assms ok, of off] by simp
  next
    case False
    have "free_at n rs off" if "off + n \<le> ar_begin r"
      by (rule free_after [OF assms]) (use ok g(2) that in fastforce)+
    with False show ?thesis using free_at_Cons [OF assms ok, of off] by auto
  qed
qed (simp add: free_at_def)

section \<open>The sweep\<close>

text \<open>A cursor that has passed every position below \<open>k\<close>, and the weight it has collected.\<close>

definition weight_below :: "nat \<Rightarrow> (nat \<times> nat) list \<Rightarrow> nat" where
  "weight_below k xs = (\<Sum>x\<leftarrow>xs. if fst x < k then snd x else 0)"

abbreviation passed :: "nat \<Rightarrow> (nat \<times> nat) list \<Rightarrow> (nat \<times> nat) list" where
  "passed k \<equiv> dropWhile (\<lambda>x. fst x < k)"

lemma weight_below_simps [simp]:
  "weight_below k [] = 0"
  "weight_below k (x # xs) = (if fst x < k then snd x else 0) + weight_below k xs"
  by (simp_all add: weight_below_def)

lemma weight_below_later: "\<forall>x\<in>set xs. k \<le> fst x \<Longrightarrow> weight_below k xs = 0"
  by (induction xs) auto

lemma weight_below_le: "weight_below k xs \<le> sum_list (map snd xs)"
  by (induction xs) auto

lemma passed_later: "\<forall>x\<in>set xs. k \<le> fst x \<Longrightarrow> passed k xs = xs"
  by (cases xs) auto

lemma passed_passed: "(\<And>x. P x \<Longrightarrow> Q x) \<Longrightarrow> dropWhile Q (dropWhile P xs) = dropWhile Q xs"
  by (induction xs) auto

lemma advance_passed:
  "sorted (map fst xs) \<Longrightarrow> k \<le> k' \<Longrightarrow> acc + sum_list (map snd xs) \<le> u64_max \<Longrightarrow>
   advance (\<lambda>p. p < k') (passed k xs) (acc + weight_below k xs) = (passed k' xs, acc + weight_below k' xs)"
proof (induction xs arbitrary: acc)
  case (Cons x xs)
  obtain p w where x: "x = (p, w)" by (cases x)
  have later: "\<forall>y\<in>set xs. p \<le> fst y" using Cons.prems(1) x by auto
  have IH: "advance (\<lambda>p. p < k') (passed k xs) (acc + w + weight_below k xs) =
      (passed k' xs, acc + w + weight_below k' xs)"
    using Cons.IH [of "acc + w"] Cons.prems x by (simp add: add.assoc)
  show ?case
  proof (cases "p < k")
    case True
    with IH Cons.prems(2) show ?thesis by (simp add: x add.assoc)
  next
    case False
    have all: "\<forall>y\<in>set xs. k \<le> fst y" using later False by auto
    have "weight_below k xs = 0" and "passed k xs = xs"
      by (rule weight_below_later [OF all], rule passed_later [OF all])
    moreover have "weight_below k' xs = 0" if "\<not> p < k'"
      by (rule weight_below_later) (use later that in auto)
    ultimately show ?thesis using IH False Cons.prems(3) by (simp add: x add.assoc)
  qed
qed simp

lemma sum_list_sort: "(\<Sum>x\<leftarrow>sort xs. f x) = (\<Sum>x\<leftarrow>xs. (f x :: nat))"
  by (metis mset_map mset_sort sum_mset_sum_list)

lemma sorted_fst: "sorted (xs :: (nat \<times> nat) list) \<Longrightarrow> sorted (map fst xs)"
  by (induction xs) (auto simp: less_eq_prod_def)

text \<open>
  The reference: the admissible candidates are those within capacity and free of blocked ranges,
  and the cheapest of them is the least pair of cost and offset.
\<close>

definition admissible :: "SearchNode \<Rightarrow> Pool \<Rightarrow> AddressRange list \<Rightarrow> nat \<Rightarrow> bool" where
  "admissible node pool blocked off \<longleftrightarrow>
     off + buf_size node \<le> capacity pool \<and> free_at (buf_size node) blocked off"

definition cheapest :: "(nat \<Rightarrow> nat) \<Rightarrow> nat set \<Rightarrow> (nat \<times> nat) option" where
  "cheapest cost A = (if A = {} then None else Some (Min ((\<lambda>off. (cost off, off)) ` A)))"

lemma cheapest_insert:
  "finite A \<Longrightarrow> cheapest cost (insert x A) = better_score (cost x, x) (cheapest cost A)"
proof (cases "A = {}")
  case False
  assume fin: "finite A"
  let ?S = "(\<lambda>off. (cost off, off)) ` A"
  have "Min (insert (cost x, x) ?S) = min (cost x, x) (Min ?S)"
    using fin False by (intro Min_insert) auto
  then have "Min ((\<lambda>off. (cost off, off)) ` insert x A) = min (cost x, x) (Min ?S)" by (simp only: image_insert)
  moreover have "min (cost x, x) (Min ?S) = (if (cost x, x) < Min ?S then (cost x, x) else Min ?S)"
    unfolding min_def by (auto simp only: le_less split: if_splits)
  ultimately show ?thesis using False unfolding cheapest_def better_score_def by simp
qed (simp add: cheapest_def better_score_def)

lemma fold_better_score:
  "finite A \<Longrightarrow> fold (\<lambda>x b. if p x then better_score (cost x, x) b else b) xs (cheapest cost A) =
   cheapest cost ({x \<in> set xs. p x} \<union> A)"
proof (induction xs arbitrary: A)
  case (Cons x xs)
  show ?case
  proof (cases "p x")
    case True
    then have "{y \<in> set (x # xs). p y} \<union> A = {y \<in> set xs. p y} \<union> insert x A" by auto
    then show ?thesis using Cons.IH [of "insert x A"] Cons.prems True by (simp add: cheapest_insert)
  next
    case False
    then have "{y \<in> set (x # xs). p y} \<union> A = {y \<in> set xs. p y} \<union> A" by auto
    then show ?thesis using Cons False by simp
  qed
qed simp

definition boundaries_ok :: "nat \<Rightarrow> (nat \<times> nat) list \<Rightarrow> (nat \<times> nat) list \<Rightarrow> bool" where
  "boundaries_ok n starts ends \<longleftrightarrow> sorted (map fst starts) \<and> sorted (map fst ends) \<and>
     sum_list (map snd starts) \<le> u64_max \<and> sum_list (map snd ends) \<le> u64_max \<and>
     (\<forall>off. weight_below (Suc off) ends \<le> weight_below (off + n) starts)"

definition sweep_cost :: "nat \<Rightarrow> (nat \<times> nat) list \<Rightarrow> (nat \<times> nat) list \<Rightarrow> nat \<Rightarrow> nat" where
  "sweep_cost n starts ends off = weight_below (off + n) starts - weight_below (Suc off) ends"

text \<open>The cursors before an offset that is at least \<open>m\<close>.\<close>

definition sweep_at ::
  "AddressRange list \<Rightarrow> (nat \<times> nat) list \<Rightarrow> (nat \<times> nat) list \<Rightarrow> nat \<Rightarrow> nat \<Rightarrow> Sweep \<Rightarrow> bool" where
  "sweep_at blocked starts ends n m sw \<longleftrightarrow> (\<exists>kb ks ke. kb \<le> Suc m \<and> ks \<le> m + n \<and> ke \<le> Suc m \<and>
     blocked_rest sw = dropWhile (\<lambda>r. ar_end r < kb) blocked \<and>
     starts_rest sw = passed ks starts \<and> started_weight sw = weight_below ks starts \<and>
     ends_rest sw = passed ke ends \<and> ended_weight sw = weight_below ke ends)"

lemma sweep_at_mono: "sweep_at blocked starts ends n m sw \<Longrightarrow> m \<le> m' \<Longrightarrow> sweep_at blocked starts ends n m' sw"
  unfolding sweep_at_def by (meson Suc_le_mono add_le_mono1 order_trans)

lemma sweep_offset_eq:
  assumes sz: "0 < buf_size node" "buf_size node \<le> u64_max" and cap: "capacity pool \<le> u64_max"
    and bl: "gaps blocked" "ranges_ok blocked" and bd: "boundaries_ok (buf_size node) starts ends"
    and at: "sweep_at blocked starts ends (buf_size node) m sw" and m: "m \<le> off"
  shows "\<exists>sw'. sweep_offset node pool sw off = Some sw' \<and>
    sweep_at blocked starts ends (buf_size node) off sw' \<and>
    best sw' = (if admissible node pool blocked off
      then better_score (sweep_cost (buf_size node) starts ends off, off) (best sw) else best sw)"
proof (cases "off + buf_size node \<le> capacity pool")
  case False
  then have "sweep_offset node pool sw off = Some sw"
    using sz cap by (cases "off + buf_size node \<le> u64_max") (auto simp: sweep_offset_def)
  then show ?thesis using False sweep_at_mono [OF at m] by (simp add: admissible_def)
next
  case True
  let ?e = "off + buf_size node"
  have e: "\<not> AddOverflows off (buf_size node)" "add_u64 off (buf_size node) = ?e"
    using True sz cap by simp_all
  obtain kb ks ke where k: "kb \<le> Suc m" "ks \<le> m + buf_size node" "ke \<le> Suc m"
      "blocked_rest sw = dropWhile (\<lambda>r. ar_end r < kb) blocked"
      "starts_rest sw = passed ks starts" "started_weight sw = weight_below ks starts"
      "ends_rest sw = passed ke ends" "ended_weight sw = weight_below ke ends"
    using at unfolding sweep_at_def by blast
  have rest: "dropWhile (\<lambda>r. ar_end r \<le> off) (blocked_rest sw) = dropWhile (\<lambda>r. ar_end r < Suc off) blocked"
    using passed_passed [of "\<lambda>r. ar_end r < kb" "\<lambda>r. ar_end r \<le> off" blocked] k(1,4) m
    by (simp add: less_Suc_eq_le)
  have hit: "dropWhile (\<lambda>r. ar_end r < Suc off) blocked \<noteq> [] \<and>
      ar_begin (hd (dropWhile (\<lambda>r. ar_end r < Suc off) blocked)) < ?e \<longleftrightarrow> \<not> free_at (buf_size node) blocked off"
    using first_range_decides [OF sz(1) bl, of off] by (simp add: Let_def less_Suc_eq_le)
  have ends_le: "(\<lambda>p. p \<le> off) = (\<lambda>p. p < Suc off)" by (simp add: fun_eq_iff less_Suc_eq_le)
  have st: "advance (\<lambda>p. p < ?e) (starts_rest sw) (started_weight sw) = (passed ?e starts, weight_below ?e starts)"
    using advance_passed [of starts ks ?e 0] bd k(2,5,6) m by (simp add: boundaries_ok_def)
  have en: "advance (\<lambda>p. p \<le> off) (ends_rest sw) (ended_weight sw) =
      (passed (Suc off) ends, weight_below (Suc off) ends)"
    using advance_passed [of ends ke "Suc off" 0] bd k(3,7,8) m by (simp add: boundaries_ok_def ends_le)
  show ?thesis
  proof (cases "free_at (buf_size node) blocked off")
    case False
    then have "sweep_offset node pool sw off = Some (sw\<lparr>blocked_rest := dropWhile (\<lambda>r. ar_end r < Suc off) blocked\<rparr>)"
      using hit e True by (simp add: sweep_offset_def rest)
    moreover have "sweep_at blocked starts ends (buf_size node) off
        (sw\<lparr>blocked_rest := dropWhile (\<lambda>r. ar_end r < Suc off) blocked\<rparr>)"
      unfolding sweep_at_def using k m by (intro exI [of _ "Suc off"] exI [of _ ks] exI [of _ ke]) simp
    ultimately show ?thesis using False by (simp add: admissible_def)
  next
    case free: True
    have le: "\<not> weight_below ?e starts < weight_below (Suc off) ends"
      using bd by (simp add: boundaries_ok_def not_less)
    have no: "(dropWhile (\<lambda>r. ar_end r < Suc off) blocked \<noteq> [] \<and>
        ar_begin (hd (dropWhile (\<lambda>r. ar_end r < Suc off) blocked)) < ?e) = False"
      using hit free by blast
    have over: "(AddOverflows off (buf_size node) \<or> capacity pool < ?e) = False" using e True by simp
    have "sweep_offset node pool sw off = Some
        \<lparr>blocked_rest = dropWhile (\<lambda>r. ar_end r < Suc off) blocked, starts_rest = passed ?e starts,
         ends_rest = passed (Suc off) ends, started_weight = weight_below ?e starts,
         ended_weight = weight_below (Suc off) ends,
         best = better_score (sweep_cost (buf_size node) starts ends off, off) (best sw)\<rparr>"
      unfolding sweep_offset_def Let_def rest e st en over no prod.case if_False sweep_cost_def
      using le by simp
    then show ?thesis using free True by (auto simp: admissible_def sweep_at_def)
  qed
qed

lemma sweep_eq:
  assumes sz: "0 < buf_size node" "buf_size node \<le> u64_max" and cap: "capacity pool \<le> u64_max"
    and bl: "gaps blocked" "ranges_ok blocked" and bd: "boundaries_ok (buf_size node) starts ends"
  shows "sweep_at blocked starts ends (buf_size node) m sw \<Longrightarrow> sorted offs \<Longrightarrow> \<forall>off\<in>set offs. m \<le> off \<Longrightarrow>
    \<exists>sw'. sweep node pool offs evaluated sw = (evaluated + length offs, Some sw') \<and>
      best sw' = fold (\<lambda>off b. if admissible node pool blocked off
        then better_score (sweep_cost (buf_size node) starts ends off, off) b else b) offs (best sw)"
proof (induction offs arbitrary: sw m evaluated)
  case (Cons off offs)
  obtain sw1 where sw1: "sweep_offset node pool sw off = Some sw1"
      "sweep_at blocked starts ends (buf_size node) off sw1"
      "best sw1 = (if admissible node pool blocked off
        then better_score (sweep_cost (buf_size node) starts ends off, off) (best sw) else best sw)"
    using sweep_offset_eq [OF assms Cons.prems(1), of off] Cons.prems(3) by auto
  from Cons.IH [OF sw1(2), of "Suc evaluated"] Cons.prems(2) sw1(1,3) show ?case by auto
qed simp

section \<open>The search space and the placement\<close>

text \<open>
  What the search space of a problem promises, and the invariant of the placement: every placed
  buffer fits its pool, and placed buffers that conflict share no address.
\<close>

definition search_ok :: "DsaProblem \<Rightarrow> SearchSpace \<Rightarrow> bool" where
  "search_ok P S \<longleftrightarrow> nodes S = buffers P \<and>
     (\<forall>i<length (buffers P). \<forall>j. j \<in> set (hard_neighbors S ! i) \<longleftrightarrow>
        j < length (buffers P) \<and> conflict P (buffers P ! i) (buffers P ! j)) \<and>
     (\<forall>i<length (buffers P). sum_list (map snd (soft_neighbors S ! i)) \<le> u64_max \<and>
        (\<forall>(j, w)\<in>set (soft_neighbors S ! i).
           j < length (buffers P) \<and> buf_pool (buffers P ! j) = buf_pool (buffers P ! i)))"

definition fits :: "DsaProblem \<Rightarrow> nat \<Rightarrow> Buffer \<Rightarrow> bool" where
  "fits P off b \<longleftrightarrow> (case PoolsById P (buf_pool b) of None \<Rightarrow> False | Some p \<Rightarrow> fits_pool p off b)"

definition apart :: "DsaProblem \<Rightarrow> Placement \<Rightarrow> nat \<Rightarrow> nat \<Rightarrow> nat \<Rightarrow> bool" where
  "apart P st i off j \<longleftrightarrow> (placed st ! j \<and> conflict P (buffers P ! i) (buffers P ! j) \<longrightarrow>
     addresses off (buffers P ! i) \<inter> addresses (offsets st ! j) (buffers P ! j) = {})"

definition placement_ok :: "DsaProblem \<Rightarrow> Placement \<Rightarrow> bool" where
  "placement_ok P st \<longleftrightarrow>
     length (placed st) = length (buffers P) \<and> length (offsets st) = length (buffers P) \<and>
     (\<forall>i<length (buffers P). placed st ! i \<longrightarrow>
        fits P (offsets st ! i) (buffers P ! i) \<and> (\<forall>j<length (buffers P). apart P st i (offsets st ! i) j))"

lemma fits_bound: "u64_problem P \<Longrightarrow> fits P off b \<Longrightarrow> off + buf_size b \<le> u64_max"
  using fits_u64 [of P _ off b]
  by (auto simp: fits_def PoolsById_def dest!: map_of_SomeD split: option.splits)

lemma placed_bound:
  "u64_problem P \<Longrightarrow> placement_ok P st \<Longrightarrow> j < length (buffers P) \<Longrightarrow> placed st ! j \<Longrightarrow>
   offsets st ! j + buf_size (buffers P ! j) \<le> u64_max"
  using fits_bound unfolding placement_ok_def by blast

lemma placement_ok_put:
  assumes "placement_ok P st" and "fits P off (buffers P ! i)" and "i < length (buffers P)"
    and apart: "\<And>j. j < length (buffers P) \<Longrightarrow> apart P st i off j"
  shows "placement_ok P (put i off st)"
proof -
  have at: "placed (put i off st) ! j = (j = i \<or> placed st ! j)"
    "offsets (put i off st) ! j = (if j = i then off else offsets st ! j)" if "j < length (buffers P)" for j
    using assms(1,3) that by (auto simp: put_def placement_ok_def nth_list_update)
  have self: "\<not> conflict P (buffers P ! i) (buffers P ! i)" by (simp add: conflict_def)
  have "apart P (put i off st) j (offsets (put i off st) ! j) k"
    if "j < length (buffers P)" "k < length (buffers P)" "placed (put i off st) ! j" for j k
  proof (cases "j = i")
    case True
    then show ?thesis using apart [OF that(2)] that at self by (simp add: apart_def)
  next
    case False
    have "apart P st j (offsets st ! j) k" using assms(1) that False at by (simp add: placement_ok_def)
    moreover have "addresses (offsets st ! j) (buffers P ! j) \<inter> addresses off (buffers P ! i) = {}"
      if "conflict P (buffers P ! j) (buffers P ! i)"
      using apart [of j] that \<open>j < length (buffers P)\<close> \<open>placed (put i off st) ! j\<close> False at
        conflict_sym [of P "buffers P ! i" "buffers P ! j"] by (auto simp: apart_def)
    ultimately show ?thesis using False that at by (auto simp: apart_def)
  qed
  moreover have "fits P (offsets (put i off st) ! j) (buffers P ! j)"
    if "j < length (buffers P)" "placed (put i off st) ! j" for j
    using assms(1,2) that at [OF that(1)] by (auto simp: placement_ok_def)
  ultimately show ?thesis using assms(1) by (simp add: placement_ok_def put_def)
qed

lemma search_hard:
  "search_ok P S \<Longrightarrow> i < length (buffers P) \<Longrightarrow>
   j \<in> set (hard_neighbors S ! i) \<longleftrightarrow> j < length (buffers P) \<and> conflict P (buffers P ! i) (buffers P ! j)"
  by (simp add: search_ok_def)

lemma search_nodes: "search_ok P S \<Longrightarrow> nodes S = buffers P"
  by (simp add: search_ok_def)

lemma blocking_iff:
  assumes "u64_problem P" and "search_ok P S" and "placement_ok P st" and "i < length (buffers P)"
    and "j \<in> set (hard_neighbors S ! i)"
  shows "blocking S st i j \<longleftrightarrow> placed st ! j"
proof -
  have j: "j < length (buffers P)" "conflict P (buffers P ! i) (buffers P ! j)"
    using search_hard [OF assms(2,4), of j] assms(5) by simp_all
  have "buf_size (buffers P ! j) \<le> u64_max" using assms(1) j(1) by (simp add: u64_problem_def)
  then show ?thesis
    using placed_bound [OF assms(1,3) j(1)] j(2) search_nodes [OF assms(2)]
    by (auto simp: blocking_def conflict_def)
qed

lemma placed_range_addresses:
  assumes "u64_problem P" and "search_ok P S" and "placement_ok P st" and "j < length (buffers P)"
    and "placed st ! j"
  shows "{ar_begin (placed_range S st j)..<ar_end (placed_range S st j)} = addresses (offsets st ! j) (buffers P ! j)"
    and "ar_begin (placed_range S st j) = offsets st ! j"
    and "ar_end (placed_range S st j) = offsets st ! j + buf_size (buffers P ! j)"
  using placed_bound [OF assms(1,3-5)] search_nodes [OF assms(2)]
  by (simp_all add: placed_range_def addresses_def)

lemma pool_reserved_eq:
  assumes "well_formed P" and "PoolsById P i = Some p"
  shows "pool_reserved P i = reserved_ranges p"
proof -
  note PoolsById_iff [OF well_formed_distinct(2) [OF assms(1)], of i]
  then show ?thesis
    using assms(2) by (auto simp: pool_reserved_def find_None_iff find_Some_iff split: option.splits)
      (metis nth_mem option.inject)+
qed

lemma reserved_ranges_ok:
  assumes "u64_problem P" and "well_formed P" and "PoolsById P i = Some p"
  shows "ranges_ok (pool_reserved P i)" and "capacity p \<le> u64_max"
proof -
  have p: "p \<in> set (pools P)" using PoolsById_iff [OF well_formed_distinct(2) [OF assms(2)]] assms(3) by blast
  then show "capacity p \<le> u64_max" using assms(1) by (simp add: u64_problem_def)
  moreover have "pool_ok p" using assms(2) p by (simp add: well_formed_def)
  ultimately show "ranges_ok (pool_reserved P i)"
    unfolding pool_reserved_eq [OF assms(2,3)] ranges_ok_def
    using reserved_in_pool(3) by (auto simp: pool_ok_def)
qed

lemma BlockingRanges_ok:
  assumes "u64_problem P" and "well_formed P" and "search_ok P S" and "placement_ok P st"
    and "i < length (buffers P)" and p: "PoolsById P (buf_pool (buffers P ! i)) = Some p"
  shows "ranges_ok (BlockingRanges P S st i)"
    and "free_at (buf_size (buffers P ! i)) (BlockingRanges P S st i) off \<longleftrightarrow>
      (\<forall>r\<in>set (reserved_ranges p). addresses off (buffers P ! i) \<inter> {ar_begin r..<ar_end r} = {}) \<and>
      (\<forall>j<length (buffers P). apart P st i off j)"
proof -
  note n = search_nodes [OF assms(3)]
  let ?hard = "filter (blocking S st i) (hard_neighbors S ! i)"
  have hard: "j \<in> set ?hard \<longleftrightarrow> j < length (buffers P) \<and> placed st ! j \<and> conflict P (buffers P ! i) (buffers P ! j)" for j
    using search_hard [OF assms(3,5), of j] blocking_iff [OF assms(1,3,4,5), of j] by auto
  have range: "{ar_begin (placed_range S st j)..<ar_end (placed_range S st j)} = addresses (offsets st ! j) (buffers P ! j)"
    if "j \<in> set ?hard" for j
    using that unfolding hard by (intro placed_range_addresses [OF assms(1,3,4)]) auto
  have ok: "ar_begin (placed_range S st j) < ar_end (placed_range S st j) \<and> ar_end (placed_range S st j) \<le> u64_max"
    if "j \<in> set ?hard" for j
  proof -
    have j: "j < length (buffers P)" "placed st ! j" using that unfolding hard by auto
    have "0 < buf_size (buffers P ! j)"
      using well_formed_buffer [OF assms(2) nth_mem [OF j(1)]] by (simp add: buffer_ok_def)
    then show ?thesis
      using placed_range_addresses(2,3) [OF assms(1,3,4) j] placed_bound [OF assms(1,4) j] by simp
  qed
  have "ranges_ok (map (placed_range S st) ?hard)" using ok unfolding ranges_ok_def by auto
  then show "ranges_ok (BlockingRanges P S st i)"
    using reserved_ranges_ok(1) [OF assms(1,2) p] n by (auto simp: BlockingRanges_def ranges_ok_def)
  have "free_at (buf_size (buffers P ! i)) (map (placed_range S st) ?hard) off \<longleftrightarrow>
      (\<forall>j\<in>set ?hard. addresses off (buffers P ! i) \<inter> addresses (offsets st ! j) (buffers P ! j) = {})"
    unfolding free_at_def set_map ball_simps by (rule ball_cong) (simp_all add: range addresses_def)
  also have "\<dots> \<longleftrightarrow> (\<forall>j<length (buffers P). apart P st i off j)"
    unfolding apart_def by (simp only: Ball_def hard) blast
  finally show "free_at (buf_size (buffers P ! i)) (BlockingRanges P S st i) off \<longleftrightarrow>
      (\<forall>r\<in>set (reserved_ranges p). addresses off (buffers P ! i) \<inter> {ar_begin r..<ar_end r} = {}) \<and>
      (\<forall>j<length (buffers P). apart P st i off j)"
    by (simp add: BlockingRanges_def n pool_reserved_eq [OF assms(2) p] free_at_def ball_Un addresses_def)
qed

section \<open>The cost of a candidate\<close>

definition soft_cost :: "DsaProblem \<Rightarrow> SearchSpace \<Rightarrow> Placement \<Rightarrow> nat \<Rightarrow> nat \<Rightarrow> nat" where
  "soft_cost P S st i off = (\<Sum>(j, w)\<leftarrow>soft_neighbors S ! i.
     if placed st ! j \<and> addresses off (buffers P ! i) \<inter> addresses (offsets st ! j) (buffers P ! j) \<noteq> {}
     then w else 0)"

lemma sum_list_le_filter: "sum_list (map f (filter p xs)) \<le> sum_list (map f xs)" for f :: "'a \<Rightarrow> nat"
  by (induction xs) auto

lemma sum_list_filter_if: "sum_list (map f (filter p xs)) = (\<Sum>x\<leftarrow>xs. if p x then f x else 0)" for f :: "'a \<Rightarrow> nat"
  by (induction xs) auto

lemma sum_list_diff:
  fixes f :: "'a \<Rightarrow> nat"
  assumes "\<And>x. x \<in> set xs \<Longrightarrow> q x \<Longrightarrow> p x"
  shows "(\<Sum>x\<leftarrow>xs. if p x then f x else 0) =
    (\<Sum>x\<leftarrow>xs. if q x then f x else 0) + (\<Sum>x\<leftarrow>xs. if p x \<and> \<not> q x then f x else 0)"
  using assms by (induction xs) auto

lemma weight_below_sort:
  "weight_below k (sort (map (\<lambda>x. (g x, snd x)) xs)) = (\<Sum>x\<leftarrow>xs. if g x < k then snd x else 0)"
  unfolding weight_below_def sum_list_sort by (simp add: comp_def cong: if_cong)

lemma sum_snd_sort: "sum_list (map snd (sort (map (\<lambda>x. (g x, snd x)) xs))) = sum_list (map snd (xs :: ('a \<times> nat) list))"
  unfolding sum_list_sort by (simp add: comp_def)

lemma soft_boundaries:
  assumes "u64_problem P" and wf: "well_formed P" and "search_ok P S" and "placement_ok P st"
    and "i < length (buffers P)" and B: "BuildSoftBoundaries S st i = (starts, ends)"
  shows "boundaries_ok (buf_size (buffers P ! i)) starts ends"
    and "sweep_cost (buf_size (buffers P ! i)) starts ends off = soft_cost P S st i off"
proof -
  note n = search_nodes [OF assms(3)]
  let ?soft = "soft_neighbors S ! i" and ?in = "\<lambda>x. placed st ! fst x" and ?n = "buf_size (buffers P ! i)"
  have soft: "sum_list (map snd ?soft) \<le> u64_max" "\<And>x. x \<in> set ?soft \<Longrightarrow> fst x < length (buffers P)"
    using assms(3,5) unfolding search_ok_def by fastforce+
  have pos: "0 < buf_size (buffers P ! j)" if "j < length (buffers P)" for j
    using well_formed_buffer [OF wf nth_mem [OF that]] by (simp add: buffer_ok_def)
  have F: "soft_placed S st i = filter ?in ?soft"
    unfolding soft_placed_def
  proof (rule filter_cong [OF refl])
    fix x assume "x \<in> set ?soft"
    then have "fst x < length (buffers P)" by (rule soft(2))
    moreover from this have "buf_size (buffers P ! fst x) \<le> u64_max" using assms(1) by (simp add: u64_problem_def)
    ultimately show "(case x of (other, w) \<Rightarrow> placed st ! other \<and>
        \<not> AddOverflows (offsets st ! other) (buf_size (nodes S ! other))) = ?in x"
      using placed_bound [OF assms(1,4), of "fst x"] n by (auto split: prod.splits)
  qed
  have R: "ar_begin (placed_range S st (fst x)) = offsets st ! fst x"
    "ar_end (placed_range S st (fst x)) = offsets st ! fst x + buf_size (buffers P ! fst x)"
    if "x \<in> set (filter ?in ?soft)" for x
    using that placed_range_addresses(2,3) [OF assms(1,3,4), of "fst x"] soft(2) by auto
  have bnd: "starts = sort (map (\<lambda>x. (offsets st ! fst x, snd x)) (filter ?in ?soft))"
    "ends = sort (map (\<lambda>x. (offsets st ! fst x + buf_size (buffers P ! fst x), snd x)) (filter ?in ?soft))"
    using B R unfolding BuildSoftBoundaries_def F by (auto intro!: arg_cong [where f = sort] split: prod.splits)
  let ?p = "\<lambda>x. ?in x \<and> offsets st ! fst x < off + ?n"
  let ?q = "\<lambda>off x. ?in x \<and> offsets st ! fst x + buf_size (buffers P ! fst x) < Suc off"
  have ws: "weight_below k starts = (\<Sum>x\<leftarrow>?soft. if ?in x \<and> offsets st ! fst x < k then snd x else 0)" for k
    unfolding bnd weight_below_sort sum_list_filter_if
    by (rule arg_cong [where f = sum_list]) (simp cong: if_cong conj_cong)
  have we: "weight_below k ends =
      (\<Sum>x\<leftarrow>?soft. if ?in x \<and> offsets st ! fst x + buf_size (buffers P ! fst x) < k then snd x else 0)" for k
    unfolding bnd weight_below_sort sum_list_filter_if
    by (rule arg_cong [where f = sum_list]) (simp cong: if_cong conj_cong)
  have diff: "weight_below (off + ?n) starts = weight_below (Suc off) ends +
      (\<Sum>x\<leftarrow>?soft. if (?in x \<and> offsets st ! fst x < off + ?n) \<and> \<not> ?q off x then snd x else 0)" for off
    unfolding ws we by (rule sum_list_diff) (use pos [OF assms(5)] in auto)
  have sorted: "sorted (map fst starts)" "sorted (map fst ends)" by (auto simp: bnd intro: sorted_fst)
  have "sum_list (map snd starts) \<le> u64_max" "sum_list (map snd ends) \<le> u64_max"
    unfolding bnd sum_snd_sort using sum_list_le_filter [of snd ?in ?soft] soft(1) by simp_all
  with sorted diff show "boundaries_ok ?n starts ends" by (simp add: boundaries_ok_def)
  have "(if (?in x \<and> offsets st ! fst x < off + ?n) \<and> \<not> ?q off x then snd x else 0) =
      (case x of (j, w) \<Rightarrow> if placed st ! j \<and>
        addresses off (buffers P ! i) \<inter> addresses (offsets st ! j) (buffers P ! j) \<noteq> {} then w else 0)"
    if "x \<in> set ?soft" for x
    using pos [OF assms(5)] pos [OF soft(2) [OF that]] disjoint_ranges
    by (cases x) (auto simp: addresses_def Int_atLeastLessThan)
  then have "(\<Sum>x\<leftarrow>?soft. if (?in x \<and> offsets st ! fst x < off + ?n) \<and> \<not> ?q off x then snd x else 0) =
      soft_cost P S st i off"
    unfolding soft_cost_def by (intro arg_cong [where f = sum_list] map_cong refl)
  then show "sweep_cost ?n starts ends off = soft_cost P S st i off"
    by (simp add: sweep_cost_def diff [of off])
qed

lemma lowest_scan_candidate:
  "lowest_scan n al rs c = Some q \<Longrightarrow> q = c \<or> (\<exists>r\<in>set rs. AlignUp (ar_end r) al = Some q)"
  by (induction n al rs c rule: lowest_scan.induct) (auto split: if_splits option.splits)

lemma map_filter_iff: "x \<in> set (List.map_filter f xs) \<longleftrightarrow> (\<exists>c\<in>set xs. f c = Some x)"
  by (induction xs) (auto simp: List.map_filter_simps split: option.splits)

lemma bex_ends:
  "(\<exists>c\<in>set ([z] @ map f A @ map (f \<circ> g) B @ map (f \<circ> g) C). h c) \<longleftrightarrow>
   h z \<or> (\<exists>r\<in>set (A @ map g B) \<union> g ` set C. h (f r))"
  by (simp add: bex_Un)

lemma CandidateOffsets_iff:
  "off \<in> set (CandidateOffsets P S st i) \<longleftrightarrow> off = 0 \<or>
   (\<exists>r\<in>set (BlockingRanges P S st i) \<union> placed_range S st ` set (filter (blocking S st i) (map fst (soft_neighbors S ! i))).
      AlignUp (ar_end r) (alignment (nodes S ! i)) = Some off)"
proof -
  have "off \<in> set (CandidateOffsets P S st i) \<longleftrightarrow>
      (\<exists>c\<in>set ([0] @ map ar_end (pool_reserved P (buf_pool (nodes S ! i))) @
        map (ar_end \<circ> placed_range S st) (filter (blocking S st i) (hard_neighbors S ! i)) @
        map (ar_end \<circ> placed_range S st) (filter (blocking S st i) (map fst (soft_neighbors S ! i)))).
        AlignUp c (alignment (nodes S ! i)) = Some off)"
    unfolding CandidateOffsets_def Let_def set_std_set map_filter_iff ..
  also have "\<dots> \<longleftrightarrow> Some 0 = Some off \<or>
   (\<exists>r\<in>set (BlockingRanges P S st i) \<union> placed_range S st ` set (filter (blocking S st i) (map fst (soft_neighbors S ! i))).
      AlignUp (ar_end r) (alignment (nodes S ! i)) = Some off)"
    unfolding bex_ends BlockingRanges_def AlignUp_zero ..
  finally show ?thesis by (metis option.inject)
qed

section \<open>Placing one buffer\<close>

definition feasible :: "DsaProblem \<Rightarrow> Placement \<Rightarrow> nat \<Rightarrow> nat \<Rightarrow> bool" where
  "feasible P st i off \<longleftrightarrow> fits P off (buffers P ! i) \<and> (\<forall>j<length (buffers P). apart P st i off j)"

lemma find_pool_ok:
  assumes "well_formed P" and "i < length (buffers P)"
  shows "\<exists>p. find_pool P (buf_pool (buffers P ! i)) = Inr p \<and> PoolsById P (buf_pool (buffers P ! i)) = Some p"
  using well_formed_pool [OF assms(1) nth_mem [OF assms(2)]] by (metis find_pool_def option.simps(5))

lemma feasible_iff:
  assumes "u64_problem P" and "well_formed P" and "search_ok P S" and "placement_ok P st"
    and "i < length (buffers P)" and "PoolsById P (buf_pool (buffers P ! i)) = Some p"
  shows "feasible P st i off \<longleftrightarrow> alignment (buffers P ! i) dvd off \<and> off + buf_size (buffers P ! i) \<le> capacity p \<and>
    free_at (buf_size (buffers P ! i)) (BlockingRanges P S st i) off"
  using BlockingRanges_ok(2) [OF assms] by (auto simp: feasible_def fits_def fits_pool_def assms(6))

lemma buffer_u64:
  assumes "u64_problem P" and "well_formed P" and "i < length (buffers P)"
  shows "0 < buf_size (buffers P ! i)" and "buf_size (buffers P ! i) \<le> u64_max"
    and "0 < alignment (buffers P ! i)" and "alignment (buffers P ! i) \<le> u64_max"
  using well_formed_buffer [OF assms(2) nth_mem [OF assms(3)]] nth_mem [OF assms(3)] assms(1)
  by (simp_all add: buffer_ok_def u64_problem_def)

lemma candidate_aligned:
  assumes "u64_problem P" and "well_formed P" and "search_ok P S" and "i < length (buffers P)"
    and "off \<in> set (CandidateOffsets P S st i)"
  shows "alignment (buffers P ! i) dvd off"
  using assms(5) AlignUp_some(1) buffer_u64(3,4) [OF assms(1,2,4)] search_nodes [OF assms(3)]
  by (fastforce simp: CandidateOffsets_iff)

text \<open>
  The candidates suffice: moving down from an offset to the last candidate before it can only
  leave ranges, because a range that ends between them would give a candidate of its own.
\<close>

lemma candidate_dominates:
  assumes "u64_problem P" and "well_formed P" and "search_ok P S" and "placement_ok P st"
    and "i < length (buffers P)" and "feasible P st i off"
  shows "\<exists>c\<in>set (CandidateOffsets P S st i). c \<le> off \<and> feasible P st i c \<and>
    soft_cost P S st i c \<le> soft_cost P S st i off"
proof -
  let ?C = "set (CandidateOffsets P S st i)" and ?b = "buffers P ! i"
  note n = search_nodes [OF assms(3)] and b = buffer_u64 [OF assms(1,2,5)]
  obtain p where p: "PoolsById P (buf_pool ?b) = Some p" using find_pool_ok [OF assms(2,5)] by blast
  note F = feasible_iff [OF assms(1-5) p] and B = BlockingRanges_ok [OF assms(1-5) p]
  define c where "c = Max {c \<in> ?C. c \<le> off}"
  have "0 \<in> ?C" by (simp add: CandidateOffsets_iff)
  then have "{c \<in> ?C. c \<le> off} \<noteq> {}" by auto
  then have "c \<in> {c \<in> ?C. c \<le> off}" unfolding c_def by (intro Max_in) auto
  then have c: "c \<in> ?C" "c \<le> off" by simp_all
  have off: "alignment ?b dvd off" "off + buf_size ?b \<le> capacity p" using assms(6) F by simp_all
  have before: "ar_end r \<le> c" if "ar_end r \<le> off" and
    "r \<in> set (BlockingRanges P S st i) \<union> placed_range S st ` set (filter (blocking S st i) (map fst (soft_neighbors S ! i)))" for r
  proof (cases "AlignUp (ar_end r) (alignment ?b)")
    case None
    have "off \<le> u64_max" using off(2) reserved_ranges_ok(2) [OF assms(1,2) p] by simp
    with AlignUp_none [OF None b(3,4)] that(1) off(1) show ?thesis by fastforce
  next
    case (Some q)
    note q = AlignUp_some [OF Some b(3,4)]
    have "q \<in> ?C" using that(2) Some n by (auto simp: CandidateOffsets_iff)
    moreover have "q \<le> off" using q(3) off(1) that(1) by blast
    ultimately have "q \<le> c" unfolding c_def by (intro Max_ge) auto
    then show ?thesis using q(2) by simp
  qed
  have "free_at (buf_size ?b) (BlockingRanges P S st i) off" using assms(6) F by simp
  then have "free_at (buf_size ?b) (BlockingRanges P S st i) c"
    unfolding free_at_iff [OF b(1) B(1)] using before c(2) by fastforce
  then have "feasible P st i c"
    using F [of c] candidate_aligned [OF assms(1-3,5) c(1)] off(2) c(2) by simp
  moreover have "soft_cost P S st i c \<le> soft_cost P S st i off"
    unfolding soft_cost_def
  proof (rule sum_list_mono, clarsimp)
    fix j w
    assume jw: "(j, w) \<in> set (soft_neighbors S ! i)" and pl: "placed st ! j"
      and empty: "addresses off ?b \<inter> addresses (offsets st ! j) (buffers P ! j) = {}"
      and hit: "addresses c ?b \<inter> addresses (offsets st ! j) (buffers P ! j) \<noteq> {}"
    have j: "j < length (buffers P)" "buf_pool (buffers P ! j) = buf_pool ?b"
      using assms(3,5) jw unfolding search_ok_def by fastforce+
    note e = placed_range_addresses [OF assms(1,3,4) j(1) pl]
    have "blocking S st i j"
      using pl j placed_bound [OF assms(1,4) j(1) pl] buffer_u64(2) [OF assms(1,2) j(1)] n
      by (simp add: blocking_def)
    then have "placed_range S st j \<in> placed_range S st ` set (filter (blocking S st i) (map fst (soft_neighbors S ! i)))"
      using jw by force
    then have "ar_end (placed_range S st j) \<le> off \<Longrightarrow> ar_end (placed_range S st j) \<le> c"
      using before by blast
    then show "w = 0"
      using e(3) empty hit c(2) b(1) buffer_u64(1) [OF assms(1,2) j(1)]
      by (auto simp: addresses_def Int_atLeastLessThan)
  qed
  ultimately show ?thesis using c by blast
qed

lemma cheapest_None: "cheapest cost A = None \<longleftrightarrow> A = {}"
  by (simp add: cheapest_def)

lemma cheapest_Some:
  assumes "finite A" and "cheapest cost A = Some (c, x)"
  shows "x \<in> A" and "c = cost x" and "\<And>y. y \<in> A \<Longrightarrow> (cost x, x) \<le> (cost y, y)"
proof -
  let ?S = "(\<lambda>off. (cost off, off)) ` A"
  have m: "Min ?S = (c, x)" "?S \<noteq> {}" using assms(2) by (auto simp: cheapest_def split: if_splits)
  then have "(c, x) \<in> ?S" using assms(1) Min_in [of ?S] by auto
  then show x: "x \<in> A" "c = cost x" by auto
  show "(cost x, x) \<le> (cost y, y)" if "y \<in> A" for y
    using m(1) x(2) that assms(1) Min_le [of ?S "(cost y, y)"] by auto
qed

lemma place_one_eq:
  assumes "u64_problem P" and "well_formed P" and "search_ok P S" and "placement_ok P st"
    and "i < length (buffers P)"
  shows "place_one P S st i ev = Inr (ev + length (CandidateOffsets P S st i),
    map_option snd (cheapest (soft_cost P S st i) {off \<in> set (CandidateOffsets P S st i). feasible P st i off}))"
proof -
  let ?b = "buffers P ! i" and ?C = "CandidateOffsets P S st i"
  let ?blocked = "MergeBlockingRanges (BlockingRanges P S st i)"
  note n = search_nodes [OF assms(3)] and b = buffer_u64 [OF assms(1,2,5)]
  obtain p where p: "find_pool P (buf_pool ?b) = Inr p" "PoolsById P (buf_pool ?b) = Some p"
    using find_pool_ok [OF assms(2,5)] by blast
  obtain starts ends where se: "BuildSoftBoundaries S st i = (starts, ends)" by fastforce
  note soft = soft_boundaries [OF assms(1-5) se]
  note merged = MergeBlockingRanges_correct [OF BlockingRanges_ok(1) [OF assms p(2)]]
  let ?init = "\<lparr>blocked_rest = ?blocked, starts_rest = starts, ends_rest = ends,
    started_weight = 0, ended_weight = 0, best = None\<rparr>"
  have adm: "admissible ?b p ?blocked off \<longleftrightarrow> feasible P st i off" if "off \<in> set ?C" for off
    using candidate_aligned [OF assms(1-3,5) that] feasible_iff [OF assms p(2)] merged(3)
    by (simp add: admissible_def free_at_covered)
  have "sweep_at ?blocked starts ends (buf_size ?b) 0 ?init"
    unfolding sweep_at_def by (intro exI [of _ 0]) (simp add: weight_below_def)
  moreover have "sorted ?C" by (simp add: CandidateOffsets_def Let_def)
  ultimately obtain sw where sw: "sweep ?b p ?C ev ?init = (ev + length ?C, Some sw)"
      "best sw = fold (\<lambda>off b. if admissible ?b p ?blocked off
        then better_score (sweep_cost (buf_size ?b) starts ends off, off) b else b) ?C (best ?init)"
    using sweep_eq [OF b(1,2) reserved_ranges_ok(2) [OF assms(1,2) p(2)] merged(1,2) soft(1)] by blast
  have "best sw = fold (\<lambda>off b. if admissible ?b p ?blocked off
      then better_score (soft_cost P S st i off, off) b else b) ?C (cheapest (soft_cost P S st i) {})"
    by (simp add: sw(2) soft(2) cheapest_def cong: if_cong)
  also have "\<dots> = cheapest (soft_cost P S st i) ({off \<in> set ?C. admissible ?b p ?blocked off} \<union> {})"
    by (rule fold_better_score) simp
  also have "{off \<in> set ?C. admissible ?b p ?blocked off} \<union> {} = {off \<in> set ?C. feasible P st i off}"
    using adm by auto
  finally show ?thesis using sw(1) by (simp add: place_one_def se n p(1))
qed

section \<open>Building the search space\<close>

definition edges :: "nat list list \<Rightarrow> (nat \<times> nat) set" where
  "edges h = {(i, j). i < length h \<and> j \<in> set (h ! i)}"

lemma edges_link:
  assumes "i < length h" and "j < length h"
  shows "edges (link i j h) = edges h \<union> {(i, j), (j, i)}" and "length (link i j h) = length h"
  using assms by (auto simp: edges_def link_def Let_def nth_list_update set_insort_insert split: if_splits)

lemma fold_link:
  "\<forall>(i, j)\<in>set ps. i < length h \<and> j < length h \<Longrightarrow>
   edges (fold (\<lambda>(i, j). link i j) ps h) = edges h \<union> set ps \<union> (set ps)\<inverse> \<and>
   length (fold (\<lambda>(i, j). link i j) ps h) = length h"
proof (induction ps arbitrary: h)
  case (Cons x ps)
  obtain i j where x: "x = (i, j)" by (cases x)
  have ij: "i < length h" "j < length h" using Cons.prems x by auto
  have "\<forall>(a, b)\<in>set ps. a < length (link i j h) \<and> b < length (link i j h)"
    unfolding edges_link(2) [OF ij] using Cons.prems by simp
  from Cons.IH [OF this] show ?case unfolding edges_link [OF ij] by (auto simp: x)
qed simp

lemma node_by_buffer_iff:
  assumes "well_formed P"
  shows "node_by_buffer P i = Inr k \<longleftrightarrow> k < length (buffers P) \<and> buf_id (buffers P ! k) = i"
proof -
  have d: "distinct (map fst (zip (map buf_id (buffers P)) [0..<length (buffers P)]))"
    using well_formed_distinct(1) [OF assms] by simp
  have "map_of (zip (map buf_id (buffers P)) [0..<length (buffers P)]) i = Some k \<longleftrightarrow>
      k < length (buffers P) \<and> buf_id (buffers P ! k) = i"
    unfolding map_of_eq_Some_iff [OF d] by (auto simp: in_set_zip intro!: exI [of _ k])
  then show ?thesis by (auto simp: node_by_buffer_def split: option.splits)
qed

lemma pair_nodes:
  assumes "well_formed P" and "pair_ok P i j"
  obtains a b where "node_by_buffer P i = Inr a" and "node_by_buffer P j = Inr b"
    and "a < length (buffers P)" and "b < length (buffers P)" and "a \<noteq> b"
    and "buf_pool (buffers P ! a) = buf_pool (buffers P ! b)"
    and "buf_id (buffers P ! a) = i" and "buf_id (buffers P ! b) = j"
proof -
  obtain a b where "a < length (buffers P)" "b < length (buffers P)"
      "buf_pool (buffers P ! a) = buf_pool (buffers P ! b)"
      "buf_id (buffers P ! a) = i" "buf_id (buffers P ! b) = j"
    using assms(2) unfolding pair_ok_def by (metis in_set_conv_nth)
  then show thesis
    using that node_by_buffer_iff [OF assms(1)] assms(2) by (auto simp: pair_ok_def)
qed

definition separation_at :: "DsaProblem \<Rightarrow> Separation \<Rightarrow> nat \<times> nat \<Rightarrow> bool" where
  "separation_at P s = (\<lambda>(i, j). i < length (buffers P) \<and> j < length (buffers P) \<and> i \<noteq> j \<and>
     buf_pool (buffers P ! i) = buf_pool (buffers P ! j) \<and>
     buf_id (buffers P ! i) = sep_first s \<and> buf_id (buffers P ! j) = sep_second s)"

lemma link_separations_eq:
  assumes "well_formed P"
  shows "\<forall>s\<in>set ss. pair_ok P (sep_first s) (sep_second s) \<Longrightarrow>
    \<exists>ps. link_separations P ss h = Inr (fold (\<lambda>(i, j). link i j) ps h) \<and> list_all2 (separation_at P) ss ps"
proof (induction ss arbitrary: h)
  case (Cons s ss)
  obtain a b where ab: "node_by_buffer P (sep_first s) = Inr a" "node_by_buffer P (sep_second s) = Inr b"
      "separation_at P s (a, b)"
    using pair_nodes [OF assms, of "sep_first s" "sep_second s"] Cons.prems
    unfolding separation_at_def prod.case by (metis list.set_intros(1))
  obtain ps where ps: "link_separations P ss (link a b h) = Inr (fold (\<lambda>(i, j). link i j) ps (link a b h))"
      "list_all2 (separation_at P) ss ps"
    using Cons.IH [of "link a b h"] Cons.prems by auto
  then show ?case using ab by (intro exI [of _ "(a, b) # ps"]) simp
qed simp

lemma separated_at:
  assumes "well_formed P" and "list_all2 (separation_at P) (separations P) ps"
    and "i < length (buffers P)" and "j < length (buffers P)"
  shows "(i, j) \<in> set ps \<union> (set ps)\<inverse> \<longleftrightarrow> separated P (buf_id (buffers P ! i)) (buf_id (buffers P ! j))"
proof -
  have inj: "k = l" if "buf_id (buffers P ! k) = buf_id (buffers P ! l)" "k < length (buffers P)" "l < length (buffers P)" for k l
    using well_formed_distinct(1) [OF assms(1)] that by (simp add: distinct_conv_nth) metis
  have left: "\<exists>s\<in>set (separations P). separation_at P s x" if "x \<in> set ps" for x
    using assms(2) that by (metis in_set_conv_nth list_all2_conv_all_nth)
  have right: "\<exists>x\<in>set ps. separation_at P s x" if "s \<in> set (separations P)" for s
    using assms(2) that by (metis in_set_conv_nth list_all2_conv_all_nth)
  show ?thesis
  proof
    assume "(i, j) \<in> set ps \<union> (set ps)\<inverse>"
    then show "separated P (buf_id (buffers P ! i)) (buf_id (buffers P ! j))"
      using left by (fastforce simp: separated_def separation_at_def)
  next
    assume "separated P (buf_id (buffers P ! i)) (buf_id (buffers P ! j))"
    then obtain s where s: "s \<in> set (separations P)"
        "{sep_first s, sep_second s} = {buf_id (buffers P ! i), buf_id (buffers P ! j)}"
      by (auto simp: separated_def)
    obtain a b where ab: "(a, b) \<in> set ps" "separation_at P s (a, b)" using right [OF s(1)] by auto
    then have "(a = i \<and> b = j) \<or> (a = j \<and> b = i)"
      using s(2) inj [of a] inj [of b] assms(3,4) unfolding separation_at_def doubleton_eq_iff prod.case by metis
    with ab(1) show "(i, j) \<in> set ps \<union> (set ps)\<inverse>" by auto
  qed
qed

lemma lifetime_links_iff:
  "(i, j) \<in> set (lifetime_links ns) \<longleftrightarrow>
   i < j \<and> j < length ns \<and> buf_pool (ns ! i) = buf_pool (ns ! j) \<and> Overlaps (lifetime (ns ! i)) (lifetime (ns ! j))"
  by (auto simp: lifetime_links_def intro!: bexI [of _ i])

lemma hard_edges:
  assumes "well_formed P"
  shows "\<exists>h. link_separations P (separations P)
      (fold (\<lambda>(i, j). link i j) (lifetime_links (buffers P)) (replicate (length (buffers P)) [])) = Inr h \<and>
    length h = length (buffers P) \<and>
    (\<forall>i<length (buffers P). \<forall>j. j \<in> set (h ! i) \<longleftrightarrow>
      j < length (buffers P) \<and> conflict P (buffers P ! i) (buffers P ! j))"
proof -
  let ?n = "length (buffers P)" and ?L = "lifetime_links (buffers P)"
  let ?h = "fold (\<lambda>(i, j). link i j) ?L (replicate ?n [])"
  have "\<forall>s\<in>set (separations P). pair_ok P (sep_first s) (sep_second s)" using assms by (simp add: well_formed_def)
  from link_separations_eq [OF assms this, of ?h] obtain ps where
    ps: "link_separations P (separations P) ?h = Inr (fold (\<lambda>(i, j). link i j) ps ?h)"
      "list_all2 (separation_at P) (separations P) ps" by blast
  have inps: "i < ?n \<and> j < ?n \<and> i \<noteq> j \<and> buf_pool (buffers P ! i) = buf_pool (buffers P ! j)" if "(i, j) \<in> set ps" for i j
    using ps(2) that by (fastforce simp: list_all2_conv_all_nth in_set_conv_nth separation_at_def)
  have in_L: "\<forall>(i, j)\<in>set ?L. i < length (replicate ?n []) \<and> j < length (replicate ?n [])"
    by (auto simp: lifetime_links_iff)
  have empty: "edges (replicate ?n []) = {}" by (auto simp: edges_def)
  have h: "edges ?h = set ?L \<union> (set ?L)\<inverse>" "length ?h = ?n"
    using fold_link [of ?L "replicate ?n []"] in_L empty by auto
  have "\<forall>(i, j)\<in>set ps. i < length ?h \<and> j < length ?h" using inps h(2) by auto
  from fold_link [OF this] have f: "edges (fold (\<lambda>(i, j). link i j) ps ?h) = set ?L \<union> (set ?L)\<inverse> \<union> set ps \<union> (set ps)\<inverse>"
      "length (fold (\<lambda>(i, j). link i j) ps ?h) = ?n" using h by simp_all
  have ne: "buf_id (buffers P ! i) \<noteq> buf_id (buffers P ! j) \<longleftrightarrow> i \<noteq> j" if "i < ?n" "j < ?n" for i j
    using well_formed_distinct(1) [OF assms] that by (auto simp: distinct_conv_nth)
  have "j \<in> set (fold (\<lambda>(i, j). link i j) ps ?h ! i) \<longleftrightarrow> j < ?n \<and> conflict P (buffers P ! i) (buffers P ! j)" if i: "i < ?n" for i j
  proof -
    have "j \<in> set (fold (\<lambda>(i, j). link i j) ps ?h ! i) \<longleftrightarrow> (i, j) \<in> edges (fold (\<lambda>(i, j). link i j) ps ?h)"
      using i f(2) by (simp add: edges_def)
    also have "\<dots> \<longleftrightarrow> j < ?n \<and> ((i, j) \<in> set ?L \<or> (j, i) \<in> set ?L \<or> (i, j) \<in> set ps \<union> (set ps)\<inverse>)"
      unfolding f(1) using inps by (auto simp: lifetime_links_iff)
    also have "\<dots> \<longleftrightarrow> j < ?n \<and> conflict P (buffers P ! i) (buffers P ! j)"
    proof (intro conj_cong refl)
      assume j: "j < ?n"
      have "separated P (buf_id (buffers P ! i)) (buf_id (buffers P ! j)) \<longrightarrow>
          i \<noteq> j \<and> buf_pool (buffers P ! i) = buf_pool (buffers P ! j)"
        using separated_at [OF assms ps(2) i j] inps by auto
      then show "((i, j) \<in> set ?L \<or> (j, i) \<in> set ?L \<or> (i, j) \<in> set ps \<union> (set ps)\<inverse>) =
          conflict P (buffers P ! i) (buffers P ! j)"
        unfolding separated_at [OF assms ps(2) i j] conflict_def ne [OF i j] lifetime_links_iff
        using i j Overlaps_sym [of "lifetime (buffers P ! i)" "lifetime (buffers P ! j)"]
        by (cases i j rule: linorder_cases) auto
    qed
    finally show ?thesis .
  qed
  then show ?thesis using ps(1) f(2) by blast
qed

text \<open>The weight that two buffers, by index, pay for sharing an address.\<close>

definition penalty_between :: "DsaProblem \<Rightarrow> nat \<Rightarrow> nat \<Rightarrow> ReusePenalty \<Rightarrow> bool" where
  "penalty_between P i j q \<longleftrightarrow>
     {pen_first q, pen_second q} = {buf_id (buffers P ! i), buf_id (buffers P ! j)}"

definition pair_weight :: "DsaProblem \<Rightarrow> ReusePenalty list \<Rightarrow> nat \<Rightarrow> nat \<Rightarrow> nat" where
  "pair_weight P qs i j = (if conflict P (buffers P ! i) (buffers P ! j) then 0
     else (\<Sum>q\<leftarrow>qs. if penalty_between P i j q then weight q else 0))"

abbreviation weight_key :: "DsaProblem \<Rightarrow> nat \<times> nat \<Rightarrow> bool" where
  "weight_key P \<equiv> (\<lambda>(i, j). i < j \<and> j < length (buffers P) \<and>
     buf_pool (buffers P ! i) = buf_pool (buffers P ! j))"

lemma CanonicalPair_eq: "i < j \<Longrightarrow> a \<noteq> b \<Longrightarrow> CanonicalPair a b = (i, j) \<longleftrightarrow> {a, b} = {i, j}"
  by (auto simp: CanonicalPair_def doubleton_eq_iff)

lemma penalty_between_iff:
  assumes "well_formed P" and "a < length (buffers P)" and "b < length (buffers P)"
    and "i < length (buffers P)" and "j < length (buffers P)"
    and "buf_id (buffers P ! a) = pen_first q" and "buf_id (buffers P ! b) = pen_second q"
  shows "penalty_between P i j q \<longleftrightarrow> {a, b} = {i, j}"
proof -
  have inj: "buf_id (buffers P ! k) = buf_id (buffers P ! l) \<longleftrightarrow> k = l"
    if "k < length (buffers P)" "l < length (buffers P)" for k l
    using well_formed_distinct(1) [OF assms(1)] that by (auto simp: distinct_conv_nth)
  show ?thesis
    unfolding penalty_between_def assms(6,7) [symmetric] doubleton_eq_iff
    using inj assms(2-5) by simp
qed

lemma collect_step:
  assumes wf: "well_formed P" and ab: "a < length (buffers P)" "b < length (buffers P)" "a \<noteq> b"
      "buf_pool (buffers P ! a) = buf_pool (buffers P ! b)"
      "buf_id (buffers P ! a) = pen_first q" "buf_id (buffers P ! b) = pen_second q"
    and m: "weights_inv (weight_key P) bound m" "bound + weight q \<le> u64_max"
    and m': "m' = (if weight q = 0 \<or> conflict P (buffers P ! a) (buffers P ! b) then m
      else add_weight (CanonicalPair a b) (weight q) m)"
  shows "weights_inv (weight_key P) (bound + weight q) m'"
    and "i < j \<Longrightarrow> j < length (buffers P) \<Longrightarrow> map_get m' (i, j) = map_get m (i, j) + pair_weight P [q] i j"
proof -
  have key: "weight_key P (CanonicalPair a b)" using ab by (auto simp: CanonicalPair_def)
  show "weights_inv (weight_key P) (bound + weight q) m'"
    using weights_inv_add [OF m(1) key, of "weight q"] weights_inv_mono [OF m(1)] m(2) by (simp add: m')
  assume ij: "i < j" "j < length (buffers P)"
  have pb: "penalty_between P i j q \<longleftrightarrow> CanonicalPair a b = (i, j)"
    unfolding CanonicalPair_eq [OF ij(1) ab(3)]
    by (rule penalty_between_iff [OF wf ab(1,2) _ ij(2) ab(5,6)]) (use ij in simp)
  have "map_get m (CanonicalPair a b) \<le> bound"
    using map_get_le_total [of m "CanonicalPair a b"] m(1) by (simp add: weights_inv_def)
  then have sat: "SaturatingAdd (map_get m (CanonicalPair a b)) (weight q) = map_get m (CanonicalPair a b) + weight q"
    using m(2) by (simp add: SaturatingAdd_eq)
  have "conflict P (buffers P ! i) (buffers P ! j) \<longleftrightarrow> conflict P (buffers P ! a) (buffers P ! b)"
    if "CanonicalPair a b = (i, j)"
  proof -
    have "(a = i \<and> b = j) \<or> (a = j \<and> b = i)" using that by (auto simp: CanonicalPair_def split: if_splits)
    then show ?thesis by (metis conflict_sym)
  qed
  then show "map_get m' (i, j) = map_get m (i, j) + pair_weight P [q] i j"
    using sat by (auto simp: m' pair_weight_def pb add_weight_def)
qed

lemma collect_weights_eq:
  assumes wf: "well_formed P"
    and h: "\<And>i j. i < length (buffers P) \<Longrightarrow> j \<in> set (h ! i) \<longleftrightarrow>
      j < length (buffers P) \<and> conflict P (buffers P ! i) (buffers P ! j)"
  shows "\<forall>q\<in>set qs. pair_ok P (pen_first q) (pen_second q) \<Longrightarrow> weights_inv (weight_key P) bound m \<Longrightarrow>
    bound + sum_list (map weight qs) \<le> u64_max \<Longrightarrow>
    \<exists>m'. collect_weights P h qs m = Inr m' \<and> weights_inv (weight_key P) u64_max m' \<and>
      (\<forall>i j. i < j \<longrightarrow> j < length (buffers P) \<longrightarrow> map_get m' (i, j) = map_get m (i, j) + pair_weight P qs i j)"
proof (induction qs arbitrary: m bound)
  case Nil
  then show ?case by (auto simp: pair_weight_def weights_inv_def)
next
  case (Cons q qs)
  have "pair_ok P (pen_first q) (pen_second q)" using Cons.prems(1) by simp
  then obtain a b where ab: "node_by_buffer P (pen_first q) = Inr a" "node_by_buffer P (pen_second q) = Inr b"
      "a < length (buffers P)" "b < length (buffers P)" "a \<noteq> b"
      "buf_pool (buffers P ! a) = buf_pool (buffers P ! b)"
      "buf_id (buffers P ! a) = pen_first q" "buf_id (buffers P ! b) = pen_second q"
    by (rule pair_nodes [OF wf])
  define m' where m': "m' = (if weight q = 0 \<or> conflict P (buffers P ! a) (buffers P ! b) then m
    else add_weight (CanonicalPair a b) (weight q) m)"
  have bnd: "bound + weight q \<le> u64_max" using Cons.prems(3) by simp
  note step = collect_step [OF wf ab(3-8) Cons.prems(2) bnd m']
  have sums: "pair_weight P (q # qs) i j = pair_weight P [q] i j + pair_weight P qs i j" for i j
    by (simp add: pair_weight_def)
  have "collect_weights P h (q # qs) m = collect_weights P h qs m'"
    using ab(1,2) h [OF ab(3), of b] ab(4) by (simp add: m')
  moreover obtain m'' where m'': "collect_weights P h qs m' = Inr m''" "weights_inv (weight_key P) u64_max m''"
      "\<forall>i j. i < j \<longrightarrow> j < length (buffers P) \<longrightarrow> map_get m'' (i, j) = map_get m' (i, j) + pair_weight P qs i j"
    using Cons.IH [OF _ step(1)] Cons.prems(1,3) by (auto simp: add.assoc)
  ultimately have "collect_weights P h (q # qs) m = Inr m''" by (simp only:)
  with m''(2,3) step(2) show ?case by (intro exI [of _ m'']) (simp add: sums)
qed

definition incident_to :: "nat \<Rightarrow> ((nat \<times> nat) \<times> nat) list \<Rightarrow> (nat \<times> nat) list" where
  "incident_to i m = concat (map (\<lambda>((a, b), w). if i = a then [(b, w)] else if i = b then [(a, w)] else []) m)"

lemma incident_to_Cons: "incident_to i (((a, b), w) # m) =
    (if i = a then [(b, w)] else if i = b then [(a, w)] else []) @ incident_to i m"
  by (simp add: incident_to_def)

lemma fold_link_weight:
  "\<forall>((a, b), w)\<in>set m. a < b \<and> b < length sn \<Longrightarrow> i < length sn \<Longrightarrow>
   fold link_weight m sn ! i = sn ! i @ incident_to i m"
proof (induction m arbitrary: sn)
  case (Cons x m)
  obtain a b w where x: "x = ((a, b), w)" by (metis prod.exhaust)
  have ab: "a < b" "b < length sn" using Cons.prems(1) x by auto
  have len: "length (link_weight x sn) = length sn" by (simp add: x link_weight_def Let_def)
  have "link_weight x sn ! i = sn ! i @ (if i = a then [(b, w)] else if i = b then [(a, w)] else [])"
    using ab Cons.prems(2) by (auto simp: x link_weight_def Let_def nth_list_update)
  moreover have "fold link_weight m (link_weight x sn) ! i = link_weight x sn ! i @ incident_to i m"
    by (rule Cons.IH) (use Cons.prems len in auto)
  ultimately show ?case unfolding x incident_to_Cons by (simp add: x)
qed (simp add: incident_to_def)

lemma incident_total: "sum_list (map snd (incident_to i m)) \<le> map_total m"
proof (induction m)
  case (Cons x m)
  obtain a b w where "x = ((a, b), w)" by (metis prod.exhaust)
  then show ?case using Cons by (auto simp: incident_to_Cons map_total_def)
qed (simp add: incident_to_def map_total_def)

lemma incident_key:
  "\<forall>k\<in>fst ` set m. weight_key P k \<Longrightarrow> i < length (buffers P) \<Longrightarrow> (j, w) \<in> set (incident_to i m) \<Longrightarrow>
   j < length (buffers P) \<and> buf_pool (buffers P ! j) = buf_pool (buffers P ! i)"
proof (induction m)
  case (Cons x m)
  obtain a b v where "x = ((a, b), v)" by (metis prod.exhaust)
  then show ?case using Cons by (auto simp: incident_to_Cons split: if_splits)
qed (simp add: incident_to_def)

lemma incident_weight:
  "sorted_wrt (<) (map fst m) \<Longrightarrow> \<forall>k\<in>fst ` set m. weight_key P k \<Longrightarrow>
   (\<Sum>(j, w)\<leftarrow>incident_to i m. if j = k then w else 0) =
   (if i < k then map_get m (i, k) else if k < i then map_get m (k, i) else 0)"
proof (induction m)
  case (Cons x m)
  obtain a b v where x: "x = ((a, b), v)" by (metis prod.exhaust)
  have ab: "a < b" using Cons.prems(2) x by auto
  have "(a, b) \<notin> fst ` set m" using Cons.prems(1) x by auto
  then have "map_get m (a, b) = 0" by (rule map_get_absent)
  moreover have "map_get (x # m) q = (if q = (a, b) then v else map_get m q)" for q by (auto simp: x map_get_def)
  ultimately show ?case using Cons ab by (auto simp: x incident_to_Cons)
qed (simp add: incident_to_def map_get_def)

definition weights_exact :: "DsaProblem \<Rightarrow> SearchSpace \<Rightarrow> bool" where
  "weights_exact P S \<longleftrightarrow> (\<forall>i<length (buffers P). \<forall>k<length (buffers P).
     (\<Sum>(j, w)\<leftarrow>soft_neighbors S ! i. if j = k then w else 0) = pair_weight P (reuse_penalties P) i k)"

lemma pair_weight_sym: "pair_weight P qs i j = pair_weight P qs j i"
proof -
  have "penalty_between P i j = penalty_between P j i" by (auto simp: penalty_between_def fun_eq_iff)
  moreover have "conflict P (buffers P ! i) (buffers P ! j) = conflict P (buffers P ! j) (buffers P ! i)"
    by (rule conflict_sym)
  ultimately show ?thesis by (simp only: pair_weight_def)
qed

lemma pair_weight_self:
  assumes "\<forall>q\<in>set qs. pair_ok P (pen_first q) (pen_second q)"
  shows "pair_weight P qs i i = 0"
proof -
  have "\<not> penalty_between P i i q" if "q \<in> set qs" for q
    using assms that by (auto simp: penalty_between_def pair_ok_def doubleton_eq_iff)
  then show ?thesis by (simp add: pair_weight_def sum_list_eq_0_iff)
qed

lemma BuildSearchSpace_ok:
  assumes "well_formed P"
  shows "\<exists>S. BuildSearchSpace P = Inr S \<and> search_ok P S \<and> weights_exact P S"
proof -
  let ?n = "length (buffers P)"
  obtain h where h: "link_separations P (separations P)
      (fold (\<lambda>(i, j). link i j) (lifetime_links (buffers P)) (replicate ?n [])) = Inr h"
      "\<And>i j. i < ?n \<Longrightarrow> j \<in> set (h ! i) \<longleftrightarrow> j < ?n \<and> conflict P (buffers P ! i) (buffers P ! j)"
    using hard_edges [OF assms] by blast
  have pens: "\<forall>q\<in>set (reuse_penalties P). pair_ok P (pen_first q) (pen_second q)"
    using assms by (simp add: well_formed_def penalty_ok_def)
  have "weights_inv (weight_key P) 0 []" by (simp add: weights_inv_def map_total_def)
  then obtain m where m: "collect_weights P h (reuse_penalties P) [] = Inr m" "weights_inv (weight_key P) u64_max m"
      "\<And>i j. i < j \<Longrightarrow> j < ?n \<Longrightarrow> map_get m (i, j) = pair_weight P (reuse_penalties P) i j"
    using collect_weights_eq [OF assms h(2) pens, of 0 "[]"] assms by (auto simp: well_formed_def map_get_def)
  have keys: "\<forall>k\<in>fst ` set m. weight_key P k" and ord: "sorted_wrt (<) (map fst m)" and tot: "map_total m \<le> u64_max"
    using m(2) by (simp_all add: weights_inv_def)
  have "\<forall>((a, b), w)\<in>set m. a < b \<and> b < length (replicate ?n [])" using keys by fastforce
  from fold_link_weight [OF this]
  have soft: "fold link_weight m (replicate ?n []) ! i = incident_to i m" if "i < ?n" for i
    using that by simp
  let ?S = "\<lparr>nodes = buffers P, hard_neighbors = h, soft_weights = m,
    soft_neighbors = fold link_weight m (replicate ?n [])\<rparr>"
  have "BuildSearchSpace P = Inr ?S" using h(1) m(1) by (simp add: BuildSearchSpace_def Let_def)
  moreover have "search_ok P ?S"
    using h(2) soft incident_total [of _ m] tot incident_key [OF keys]
    by (fastforce simp: search_ok_def intro: order_trans)
  moreover have "weights_exact P ?S"
    unfolding weights_exact_def
  proof (intro allI impI)
    fix i k assume ik: "i < ?n" "k < ?n"
    show "(\<Sum>(j, w)\<leftarrow>soft_neighbors ?S ! i. if j = k then w else 0) = pair_weight P (reuse_penalties P) i k"
      using incident_weight [OF ord keys, of k i] m(3) [of i k] m(3) [of k i] ik soft [OF ik(1)]
        pair_weight_sym [of P _ k i] pair_weight_self [OF pens, of i]
      by (cases i k rule: linorder_cases) simp_all
  qed
  ultimately show ?thesis by blast
qed

section \<open>The cost in terms of the problem\<close>

text \<open>What placing buffer \<open>i\<close> at an offset adds: the penalties with the placed buffers it shares an address with.\<close>

definition collides :: "DsaProblem \<Rightarrow> Placement \<Rightarrow> nat \<Rightarrow> nat \<Rightarrow> nat \<Rightarrow> bool" where
  "collides P st i off k \<longleftrightarrow> placed st ! k \<and>
     addresses off (buffers P ! i) \<inter> addresses (offsets st ! k) (buffers P ! k) \<noteq> {}"

definition step_cost :: "DsaProblem \<Rightarrow> Placement \<Rightarrow> nat \<Rightarrow> nat \<Rightarrow> nat" where
  "step_cost P st i off = (\<Sum>q\<leftarrow>reuse_penalties P.
     if \<exists>k<length (buffers P). collides P st i off k \<and> penalty_between P i k q then weight q else 0)"

lemma sum_by_index:
  "\<forall>(j, w)\<in>set xs. j < (n::nat) \<Longrightarrow> (\<Sum>(j, w)\<leftarrow>xs. if c j then w else 0) =
   (\<Sum>k<n. if c k then (\<Sum>(j, w)\<leftarrow>xs. if j = k then w else (0::nat)) else 0)"
proof (induction xs)
  case (Cons x xs)
  obtain j w where x: "x = (j, w)" by (cases x)
  have "(\<Sum>k<n. if c k then (\<Sum>(j, w)\<leftarrow>x # xs. if j = k then w else (0::nat)) else 0) =
      (\<Sum>k<n. (if j = k then if c k then w else 0 else 0) + (if c k then (\<Sum>(j, w)\<leftarrow>xs. if j = k then w else (0::nat)) else 0))"
    by (rule sum.cong) (simp_all add: x)
  then show ?case using Cons by (simp add: x sum.distrib)
qed simp

lemma sum_swap_list:
  "(\<Sum>k<(n::nat). if c k then (\<Sum>q\<leftarrow>qs. if pb k q then w q else (0::nat)) else 0) =
   (\<Sum>q\<leftarrow>qs. \<Sum>k<n. if c k \<and> pb k q then w q else 0)"
proof (induction qs)
  case (Cons q qs)
  have "(\<Sum>k<n. if c k then (\<Sum>q\<leftarrow>q # qs. if pb k q then w q else (0::nat)) else 0) =
      (\<Sum>k<n. (if c k \<and> pb k q then w q else 0) + (if c k then (\<Sum>q\<leftarrow>qs. if pb k q then w q else (0::nat)) else 0))"
    by (rule sum.cong) simp_all
  then show ?case using Cons by (simp add: sum.distrib)
qed simp

lemma sum_unique:
  assumes "\<And>k l. k < (n::nat) \<Longrightarrow> l < n \<Longrightarrow> p k \<Longrightarrow> p l \<Longrightarrow> k = l"
  shows "(\<Sum>k<n. if p k then w else (0::nat)) = (if \<exists>k<n. p k then w else 0)"
proof (cases "\<exists>k<n. p k")
  case True
  then obtain k where k: "k < n" "p k" by blast
  have "(\<Sum>l<n. if p l then w else 0) = (\<Sum>l<n. if l = k then w else 0)"
    by (rule sum.cong) (use assms k in auto)
  then show ?thesis using True k(1) by simp
qed auto

lemma soft_cost_eq:
  assumes "well_formed P" and "search_ok P S" and "weights_exact P S" and "i < length (buffers P)"
    and "feasible P st i off"
  shows "soft_cost P S st i off = step_cost P st i off"
proof -
  let ?n = "length (buffers P)" and ?c = "collides P st i off"
  have "\<forall>(j, w)\<in>set (soft_neighbors S ! i). j < ?n" using assms(2,4) unfolding search_ok_def by fast
  from sum_by_index [OF this, of ?c]
  have "soft_cost P S st i off =
      (\<Sum>k<?n. if ?c k then (\<Sum>(j, w)\<leftarrow>soft_neighbors S ! i. if j = k then w else 0) else 0)"
    by (simp add: soft_cost_def collides_def)
  also have "\<dots> = (\<Sum>k<?n. if ?c k then (\<Sum>q\<leftarrow>reuse_penalties P. if penalty_between P i k q then weight q else 0) else 0)"
  proof (rule sum.cong [OF refl])
    fix k assume "k \<in> {..<?n}"
    then have k: "k < ?n" by simp
    then have "(\<Sum>(j, w)\<leftarrow>soft_neighbors S ! i. if j = k then w else 0) = pair_weight P (reuse_penalties P) i k"
      using assms(3,4) by (simp add: weights_exact_def)
    moreover have "\<not> conflict P (buffers P ! i) (buffers P ! k)" if "?c k"
      using assms(5) k that by (auto simp: feasible_def apart_def collides_def)
    ultimately show "(if ?c k then \<Sum>(j, w)\<leftarrow>soft_neighbors S ! i. if j = k then w else 0 else 0) =
        (if ?c k then \<Sum>q\<leftarrow>reuse_penalties P. if penalty_between P i k q then weight q else 0 else 0)"
      by (simp add: pair_weight_def)
  qed
  also have "\<dots> = (\<Sum>q\<leftarrow>reuse_penalties P. \<Sum>k<?n. if ?c k \<and> penalty_between P i k q then weight q else 0)"
    by (rule sum_swap_list)
  also have "\<dots> = step_cost P st i off"
    unfolding step_cost_def
  proof (intro arg_cong [where f = sum_list] map_cong refl sum_unique)
    fix q k l assume kl: "k < ?n" "l < ?n" "?c k \<and> penalty_between P i k q" "?c l \<and> penalty_between P i l q"
    then have "buf_id (buffers P ! k) = buf_id (buffers P ! l)"
      by (auto simp: penalty_between_def doubleton_eq_iff)
    then show "k = l" using well_formed_distinct(1) [OF assms(1)] kl(1,2) by (auto simp: distinct_conv_nth)
  qed
  finally show ?thesis .
qed

text \<open>The offset that is chosen is the best of all the feasible ones, not just of the candidates.\<close>

definition best_offset :: "DsaProblem \<Rightarrow> Placement \<Rightarrow> nat \<Rightarrow> nat option \<Rightarrow> bool" where
  "best_offset P st i r \<longleftrightarrow> (case r of
     None \<Rightarrow> \<forall>off. \<not> feasible P st i off
   | Some x \<Rightarrow> feasible P st i x \<and>
       (\<forall>off. feasible P st i off \<longrightarrow> (step_cost P st i x, x) \<le> (step_cost P st i off, off)))"

lemma place_one_best:
  assumes "u64_problem P" and "well_formed P" and "search_ok P S" and "weights_exact P S"
    and "placement_ok P st" and "i < length (buffers P)"
  shows "\<exists>r. place_one P S st i ev = Inr (ev + length (CandidateOffsets P S st i), r) \<and> best_offset P st i r"
proof -
  let ?A = "{off \<in> set (CandidateOffsets P S st i). feasible P st i off}"
  let ?r = "cheapest (soft_cost P S st i) ?A"
  note dom = candidate_dominates [OF assms(1-3,5,6)] and cost = soft_cost_eq [OF assms(2-4,6)]
  have "best_offset P st i (map_option snd ?r)"
  proof (cases ?r)
    case None
    then have "?A = {}" by (simp add: cheapest_None)
    then have "\<not> feasible P st i off" for off using dom [of off] by blast
    then show ?thesis using None by (simp add: best_offset_def)
  next
    case (Some z)
    obtain c x where z: "z = (c, x)" by (cases z)
    have fin: "finite ?A" by simp
    note best = cheapest_Some [OF fin Some [unfolded z]]
    have x: "feasible P st i x" using best(1) by simp
    have "(step_cost P st i x, x) \<le> (step_cost P st i off, off)" if f: "feasible P st i off" for off
    proof -
      obtain y where y: "y \<in> ?A" "y \<le> off" "soft_cost P S st i y \<le> soft_cost P S st i off"
        using dom [OF f] by blast
      have "(soft_cost P S st i x, x) \<le> (soft_cost P S st i off, off)"
        using best(3) [OF y(1)] y(2,3) by auto
      then show ?thesis using cost [OF x] cost [OF f] by simp
    qed
    then show ?thesis using Some x by (simp add: best_offset_def z)
  qed
  then show ?thesis using place_one_eq [OF assms(1-3,5,6)] by blast
qed

section \<open>Greedy placement\<close>

text \<open>
  The specification of both placements: buffers are placed in the given order, each at the offset
  that a rule picks among the feasible ones, until a buffer has no feasible offset. The first fit
  picks the lowest, the canonical order the cheapest.
\<close>

inductive greedy :: "(Placement \<Rightarrow> nat \<Rightarrow> nat option \<Rightarrow> bool) \<Rightarrow> nat list \<Rightarrow> Placement \<Rightarrow> Placement option \<Rightarrow> bool"
  for pick where
  finished: "greedy pick [] st (Some st)"
| placed: "pick st i (Some x) \<Longrightarrow> greedy pick order (put i x st) r \<Longrightarrow> greedy pick (i # order) st r"
| stuck: "pick st i None \<Longrightarrow> greedy pick (i # order) st None"

inductive_cases greedy_NilE: "greedy pick [] st r"
inductive_cases greedy_ConsE: "greedy pick (i # order) st r"
inductive_simps greedy_Nil [simp]: "greedy pick [] st r"

definition lowest_offset :: "DsaProblem \<Rightarrow> Placement \<Rightarrow> nat \<Rightarrow> nat option \<Rightarrow> bool" where
  "lowest_offset P st i r \<longleftrightarrow> least_option (feasible P st i) r"

definition feasible_pick :: "DsaProblem \<Rightarrow> (Placement \<Rightarrow> nat \<Rightarrow> nat option \<Rightarrow> bool) \<Rightarrow> bool" where
  "feasible_pick P pick \<longleftrightarrow> (\<forall>st i x. pick st i (Some x) \<longrightarrow> feasible P st i x)"

lemma feasible_pickD: "feasible_pick P pick \<Longrightarrow> pick st i (Some x) \<Longrightarrow> feasible P st i x"
  by (simp add: feasible_pick_def)

lemma best_offset_feasible: "feasible_pick P (best_offset P)"
  by (simp add: feasible_pick_def best_offset_def)

lemma lowest_offset_feasible: "feasible_pick P (lowest_offset P)"
  by (simp add: feasible_pick_def lowest_offset_def least_option_def)

lemma best_offset_unique: "best_offset P st i r \<Longrightarrow> best_offset P st i r' \<Longrightarrow> r = r'"
proof (cases r; cases r')
  fix x y assume *: "best_offset P st i r" "best_offset P st i r'" "r = Some x" "r' = Some y"
  have "(step_cost P st i x, x) \<le> (step_cost P st i y, y)" and "(step_cost P st i y, y) \<le> (step_cost P st i x, x)"
    using * unfolding best_offset_def by simp_all
  then have "(step_cost P st i x, x) = (step_cost P st i y, y)" by (rule order.antisym)
  then show "r = r'" by (simp add: *)
qed (auto simp: best_offset_def)

definition functional_pick :: "(Placement \<Rightarrow> nat \<Rightarrow> nat option \<Rightarrow> bool) \<Rightarrow> bool" where
  "functional_pick pick \<longleftrightarrow> (\<forall>st i r r'. pick st i r \<longrightarrow> pick st i r' \<longrightarrow> r = r')"

lemma functional_pickD: "functional_pick pick \<Longrightarrow> pick st i r \<Longrightarrow> pick st i r' \<Longrightarrow> r = r'"
  by (simp add: functional_pick_def)

lemma greedy_deterministic:
  assumes "functional_pick pick"
  shows "greedy pick order st r \<Longrightarrow> greedy pick order st r' \<Longrightarrow> r = r'"
proof (induction arbitrary: r' rule: greedy.induct)
  case (placed st i x order r)
  consider (p) y where "pick st i (Some y)" "greedy pick order (put i y st) r'" | (s) "pick st i None"
    using placed.prems by (rule greedy_ConsE) blast+
  then show ?case
  proof cases
    case p
    with functional_pickD [OF assms placed.hyps(1) p(1)] placed.IH show ?thesis by simp
  next
    case s
    with functional_pickD [OF assms placed.hyps(1) s] show ?thesis by simp
  qed
next
  case (stuck st i order)
  consider (p) y where "pick st i (Some y)" | (s) "r' = None"
    using stuck.prems by (rule greedy_ConsE) blast+
  then show ?case
  proof cases
    case p
    with functional_pickD [OF assms stuck.hyps p] show ?thesis by simp
  qed simp
qed simp

lemma placement_ok_feasible:
  assumes "placement_ok P st" and "feasible P st i x" and "i < length (buffers P)"
  shows "placement_ok P (put i x st)"
  by (rule placement_ok_put) (use assms in \<open>auto simp: feasible_def\<close>)

lemma greedy_ok:
  assumes "feasible_pick P pick"
  shows "greedy pick order st r \<Longrightarrow> placement_ok P st \<Longrightarrow> set order \<subseteq> {..<length (buffers P)} \<Longrightarrow> r = Some st' \<Longrightarrow>
    placement_ok P st' \<and> (\<forall>j<length (buffers P). placed st' ! j \<longleftrightarrow> placed st ! j \<or> j \<in> set order)"
proof (induction rule: greedy.induct)
  case (placed st i x order r)
  have i: "i < length (buffers P)" and len: "length (placed st) = length (buffers P)"
    using placed.prems by (auto simp: placement_ok_def)
  have "placement_ok P (put i x st)"
    by (rule placement_ok_feasible [OF placed.prems(1) feasible_pickD [OF assms placed.hyps(1)] i])
  with placed.IH placed.prems i len show ?case by (auto simp: put_def nth_list_update)
qed simp_all

lemma unplaced_ok: "search_ok P S \<Longrightarrow> placement_ok P (unplaced S)"
  by (simp add: placement_ok_def unplaced_def search_nodes)

lemma place_order_greedy:
  assumes "u64_problem P" and "well_formed P" and "search_ok P S" and "weights_exact P S"
  shows "placement_ok P st \<Longrightarrow> set order \<subseteq> {..<length (buffers P)} \<Longrightarrow>
    \<exists>ev' r. place_order P S order ev st = Inr (ev', r) \<and> ev \<le> ev' \<and> greedy (best_offset P) order st r"
proof (induction order arbitrary: st ev)
  case (Cons i order)
  have i: "i < length (buffers P)" using Cons.prems(2) by simp
  obtain ev1 r where r: "place_one P S st i ev = Inr (ev1, r)" "ev \<le> ev1" "best_offset P st i r"
    using place_one_best [OF assms Cons.prems(1) i, of ev] by auto
  show ?case
  proof (cases r)
    case None
    with r show ?thesis by (auto intro: greedy.stuck)
  next
    case (Some x)
    have "placement_ok P (put i x st)"
      using placement_ok_feasible [OF Cons.prems(1) feasible_pickD [OF best_offset_feasible] i] r(3) Some by simp
    from Cons.IH [OF this, of ev1] Cons.prems(2) obtain ev2 r2 where
      "place_order P S order ev1 (put i x st) = Inr (ev2, r2)" "ev1 \<le> ev2"
      "greedy (best_offset P) order (put i x st) r2" by auto
    with r Some show ?thesis by (auto intro: greedy.placed)
  qed
qed auto

lemma LowestFit_feasible:
  assumes "u64_problem P" and "well_formed P" and "search_ok P S" and "placement_ok P st"
    and "i < length (buffers P)" and "PoolsById P (buf_pool (buffers P ! i)) = Some p"
  defines "off \<equiv> LowestFit (buf_size (buffers P ! i)) (alignment (buffers P ! i)) (BlockingRanges P S st i)"
  shows "lowest_offset P st i (case off of None \<Rightarrow> None | Some x \<Rightarrow>
    if AddOverflows x (buf_size (buffers P ! i)) \<or> add_u64 x (buf_size (buffers P ! i)) > capacity p then None else Some x)"
proof -
  note b = buffer_u64 [OF assms(1,2,5)] and cap = reserved_ranges_ok(2) [OF assms(1,2,6)]
  note F = feasible_iff [OF assms(1-6)]
  have L: "least_option (\<lambda>x. alignment (buffers P ! i) dvd x \<and> x + buf_size (buffers P ! i) \<le> u64_max \<and>
      free_at (buf_size (buffers P ! i)) (BlockingRanges P S st i) x) off"
    unfolding off_def by (rule LowestFit_least [OF b BlockingRanges_ok(1) [OF assms(1-6)]])
  show ?thesis
  proof (cases off)
    case None
    then have "\<not> feasible P st i x" for x using L F [of x] cap by (auto simp: least_option_def)
    then show ?thesis using None by (simp add: lowest_offset_def least_option_def)
  next
    case (Some x)
    have x: "alignment (buffers P ! i) dvd x" "x + buf_size (buffers P ! i) \<le> u64_max"
      "free_at (buf_size (buffers P ! i)) (BlockingRanges P S st i) x"
      "\<And>y. feasible P st i y \<Longrightarrow> x \<le> y"
      using L Some F cap by (auto simp: least_option_def)
    show ?thesis
    proof (cases "x + buf_size (buffers P ! i) \<le> capacity p")
      case True
      then have "feasible P st i x" using F x by simp
      then show ?thesis using Some True b(2) x(2,4) by (simp add: lowest_offset_def least_option_def)
    next
      case False
      then have "\<not> feasible P st i y" for y using F [of y] x(4) [of y] by auto
      then show ?thesis using Some False b(2) x(2) by (simp add: lowest_offset_def least_option_def)
    qed
  qed
qed

lemma first_fit_greedy:
  assumes "u64_problem P" and "well_formed P" and "search_ok P S"
  shows "placement_ok P st \<Longrightarrow> set order \<subseteq> {..<length (buffers P)} \<Longrightarrow>
    \<exists>r. first_fit P S order st = Inr r \<and> greedy (lowest_offset P) order st r"
proof (induction order arbitrary: st)
  case (Cons i order)
  have i: "i < length (buffers P)" using Cons.prems(2) by simp
  obtain p where p: "find_pool P (buf_pool (buffers P ! i)) = Inr p"
      "PoolsById P (buf_pool (buffers P ! i)) = Some p"
    using find_pool_ok [OF assms(2) i] by blast
  note n = search_nodes [OF assms(3)]
  let ?off = "LowestFit (buf_size (buffers P ! i)) (alignment (buffers P ! i)) (BlockingRanges P S st i)"
  let ?r = "case ?off of None \<Rightarrow> None | Some x \<Rightarrow>
    if AddOverflows x (buf_size (buffers P ! i)) \<or> add_u64 x (buf_size (buffers P ! i)) > capacity p then None else Some x"
  have low: "lowest_offset P st i ?r" by (rule LowestFit_feasible [OF assms Cons.prems(1) i p(2)])
  have step: "first_fit P S (i # order) st = (case ?r of None \<Rightarrow> Inr None | Some x \<Rightarrow> first_fit P S order (put i x st))"
    by (simp add: n p(1) Let_def split: option.splits)
  show ?case
  proof (cases ?r)
    case None
    with low step show ?thesis by (auto intro: greedy.stuck)
  next
    case (Some x)
    have "placement_ok P (put i x st)"
      using placement_ok_feasible [OF Cons.prems(1) feasible_pickD [OF lowest_offset_feasible] i] low Some by metis
    from Cons.IH [OF this] Cons.prems(2) obtain r2 where
      "first_fit P S order (put i x st) = Inr r2" "greedy (lowest_offset P) order (put i x st) r2" by auto
    with low step Some show ?thesis by (auto intro: greedy.placed)
  qed
qed simp

section \<open>Solutions\<close>

lemma BuildSolution_Find:
  assumes "well_formed P" and "nodes S = buffers P"
  shows "m \<le> length (buffers P) \<Longrightarrow>
    (let s = fold (\<lambda>i. map_emplace (buf_id (nodes S ! i)) (offs ! i)) [0..<m] [] in
      dom (Find s) = (\<lambda>i. buf_id (buffers P ! i)) ` {..<m} \<and>
      (\<forall>i<m. Find s (buf_id (buffers P ! i)) = Some (offs ! i)))"
proof (induction m)
  case (Suc m)
  let ?s = "fold (\<lambda>i. map_emplace (buf_id (nodes S ! i)) (offs ! i)) [0..<m] []"
  have ids: "buf_id (buffers P ! i) \<noteq> buf_id (buffers P ! m)" if "i < m" for i
    using well_formed_distinct(1) [OF assms(1)] that Suc.prems by (simp add: distinct_conv_nth)
  have IH: "dom (Find ?s) = (\<lambda>i. buf_id (buffers P ! i)) ` {..<m}"
      "\<forall>i<m. Find ?s (buf_id (buffers P ! i)) = Some (offs ! i)"
    using Suc by (simp_all add: Let_def)
  have "buf_id (buffers P ! m) \<notin> dom (Find ?s)" unfolding IH(1) by (metis (no_types, lifting) ids imageE lessThan_iff)
  then have "Find (map_emplace (buf_id (nodes S ! m)) (offs ! m) ?s) =
      (Find ?s)(buf_id (buffers P ! m) \<mapsto> offs ! m)"
    by (auto simp: map_emplace_def Find_def assms(2))
  then show ?case using IH by (auto simp: Let_def less_Suc_eq ids ids [THEN not_sym])
qed (simp add: Find_def fun_eq_iff)

lemma full_placement_valid:
  assumes "well_formed P" and "nodes S = buffers P" and "placement_ok P st"
    and "\<And>j. j < length (buffers P) \<Longrightarrow> placed st ! j"
  shows "valid_placement P (Find (BuildSolution S (offsets st)))"
proof -
  let ?s = "BuildSolution S (offsets st)"
  have F: "dom (Find ?s) = (\<lambda>i. buf_id (buffers P ! i)) ` {..<length (buffers P)}"
      "\<And>i. i < length (buffers P) \<Longrightarrow> Find ?s (buf_id (buffers P ! i)) = Some (offsets st ! i)"
    using BuildSolution_Find [OF assms(1,2) order_refl, of "offsets st"]
    by (simp_all add: BuildSolution_def Let_def assms(2))
  have "buf_id ` set (buffers P) = (\<lambda>i. buf_id (buffers P ! i)) ` {..<length (buffers P)}"
  proof -
    have "set (buffers P) = (\<lambda>i. buffers P ! i) ` {..<length (buffers P)}" by (auto simp: set_conv_nth)
    then show ?thesis by (simp only: image_image)
  qed
  moreover have "fits_pool p (the (Find ?s (buf_id b))) b"
    if b: "b \<in> set (buffers P)" and p: "p \<in> set (pools P)" "pool_id p = buf_pool b" for b p
  proof -
    obtain i where i: "i < length (buffers P)" "b = buffers P ! i"
      using in_set_conv_nth [THEN iffD1, OF b] by auto
    have "PoolsById P (buf_pool b) = Some p"
      using PoolsById_iff [OF well_formed_distinct(2) [OF assms(1)]] p by simp
    moreover have "fits P (offsets st ! i) b" using assms(3,4) i by (simp add: placement_ok_def)
    ultimately show ?thesis using F(2) [OF i(1)] i(2) by (simp add: fits_def)
  qed
  moreover have "addresses (the (Find ?s (buf_id a))) a \<inter> addresses (the (Find ?s (buf_id b))) b = {}"
    if ab: "a \<in> set (buffers P)" "b \<in> set (buffers P)" and c: "conflict P a b" for a b
  proof -
    obtain i j where ij: "i < length (buffers P)" "a = buffers P ! i" "j < length (buffers P)" "b = buffers P ! j"
      using in_set_conv_nth [THEN iffD1, OF ab(1)] in_set_conv_nth [THEN iffD1, OF ab(2)] by auto
    have "apart P st i (offsets st ! i) j" using assms(3,4) ij by (simp add: placement_ok_def)
    then show ?thesis using F(2) [OF ij(1)] F(2) [OF ij(3)] ij assms(4) c by (simp add: apart_def)
  qed
  ultimately show ?thesis using F(1) by (simp add: valid_placement_def)
qed

definition solutions ::
  "(Placement \<Rightarrow> nat \<Rightarrow> nat option \<Rightarrow> bool) \<Rightarrow> SearchSpace \<Rightarrow> nat list \<Rightarrow> DsaSolution set" where
  "solutions pick S order = {BuildSolution S (offsets st) |st. greedy pick order (unplaced S) (Some st)}"

definition all_buffers :: "DsaProblem \<Rightarrow> nat list \<Rightarrow> bool" where
  "all_buffers P order \<longleftrightarrow> set order = {..<length (buffers P)}"

lemma solutions_valid:
  assumes "well_formed P" and "search_ok P S" and "all_buffers P order"
    and pick: "feasible_pick P pick" and "s \<in> solutions pick S order"
  shows "valid_placement P (Find s)"
proof -
  obtain st where st: "greedy pick order (unplaced S) (Some st)" "s = BuildSolution S (offsets st)"
    using assms(5) by (auto simp: solutions_def)
  have "placement_ok P st \<and> (\<forall>j<length (buffers P). placed st ! j \<longleftrightarrow> placed (unplaced S) ! j \<or> j \<in> set order)"
    by (rule greedy_ok [OF pick st(1) unplaced_ok [OF assms(2)]]) (use assms(3) in \<open>auto simp: all_buffers_def\<close>)
  then show ?thesis
    unfolding st(2) using assms(3)
    by (intro full_placement_valid [OF assms(1) search_nodes [OF assms(2)]]) (auto simp: all_buffers_def)
qed

lemma solutions_run:
  assumes "functional_pick pick" and "greedy pick order (unplaced S) r"
  shows "solutions pick S order = (case r of None \<Rightarrow> {} | Some st \<Rightarrow> {BuildSolution S (offsets st)})"
proof -
  have "greedy pick order (unplaced S) (Some st) \<longleftrightarrow> r = Some st" for st
  proof
    assume "greedy pick order (unplaced S) (Some st)"
    with greedy_deterministic [OF assms] show "r = Some st" .
  qed (use assms(2) in simp)
  then show ?thesis by (auto simp: solutions_def split: option.splits)
qed

lemma best_offset_functional: "functional_pick (best_offset P)"
  using best_offset_unique by (auto simp: functional_pick_def)

lemma lowest_offset_unique: "lowest_offset P st i r \<Longrightarrow> lowest_offset P st i r' \<Longrightarrow> r = r'"
  by (cases r; cases r') (auto simp: lowest_offset_def least_option_def intro: order.antisym)

lemma lowest_offset_functional: "functional_pick (lowest_offset P)"
  using lowest_offset_unique by (auto simp: functional_pick_def)

section \<open>Orders cover the buffers\<close>

text \<open>\<open>std::shuffle\<close> permutes.\<close>

definition reorders :: "(nat \<Rightarrow> nat list \<Rightarrow> nat list) \<Rightarrow> bool" where
  "reorders shuffle \<longleftrightarrow> (\<forall>i xs. mset (shuffle i xs) = mset xs)"

lemma reorders_set: "reorders shuffle \<Longrightarrow> set (shuffle i xs) = set xs"
  unfolding reorders_def by (metis mset_eq_setD)

lemma SizeOrder_all: "search_ok P S \<Longrightarrow> all_buffers P (SizeOrder S)"
  by (auto simp: all_buffers_def SizeOrder_def search_nodes)

lemma shuffled_all:
  "reorders shuffle \<Longrightarrow> all_buffers P order \<Longrightarrow>
   x \<in> set (shuffled shuffle i restarts order) \<Longrightarrow> all_buffers P x"
proof (induction restarts arbitrary: i order)
  case (Suc restarts)
  have "all_buffers P (shuffle i order)" using Suc.prems(1,2) by (simp add: all_buffers_def reorders_set)
  with Suc show ?case by auto
qed simp

lemma unique_orders_set: "set (unique_orders seen xs) = set xs - set seen"
  by (induction seen xs rule: unique_orders.induct) auto

lemma unique_orders_distinct: "distinct (unique_orders seen xs)"
  by (induction seen xs rule: unique_orders.induct) (auto simp: unique_orders_set)

lemma CanonicalOrders_all:
  assumes "search_ok P S" and "reorders shuffle" and "order \<in> set (CanonicalOrders shuffle restarts S)"
  shows "all_buffers P order"
proof -
  let ?by_birth = "sort_key (\<lambda>i. (ivl_begin (lifetime (nodes S ! i)), buf_id (nodes S ! i))) (SizeOrder S)"
  let ?incident = "fold add_incident (soft_weights S) (replicate (length (nodes S)) 0)"
  let ?by_weight = "sort_key (\<lambda>i. (u64_max - ?incident ! i, u64_max - buf_size (nodes S ! i), buf_id (nodes S ! i)))
    ?by_birth"
  have size: "all_buffers P (SizeOrder S)" by (rule SizeOrder_all [OF assms(1)])
  then have birth: "all_buffers P ?by_birth" by (simp add: all_buffers_def)
  then have weight: "all_buffers P ?by_weight" by (simp add: all_buffers_def)
  have "order \<in> set ([SizeOrder S, ?by_birth, ?by_weight] @ shuffled shuffle 0 restarts ?by_weight)"
    using assms(3) unfolding CanonicalOrders_def Let_def unique_orders_set by blast
  then consider "order = SizeOrder S" | "order = ?by_birth" | "order = ?by_weight"
    | "order \<in> set (shuffled shuffle 0 restarts ?by_weight)"
    by (simp only: set_append Un_iff list.set insert_iff empty_iff) blast
  then show ?thesis by cases (use size birth weight shuffled_all [OF assms(2) weight] in simp_all)
qed

section \<open>Solving\<close>

definition objective_key :: "ObjectiveValue \<Rightarrow> nat \<times> nat \<times> nat" where
  "objective_key v = (reuse_cost v, total_peak v, max_peak v)"

text \<open>The result after a set \<open>A\<close> of solutions has been seen.\<close>

definition result_inv :: "DsaProblem \<Rightarrow> DsaSolution set \<Rightarrow> DsaResult \<Rightarrow> bool" where
  "result_inv P A R \<longleftrightarrow> diagnostics R = [] \<and> (case solution R of
     None \<Rightarrow> A = {}
   | Some s \<Rightarrow> s \<in> A \<and> status R = kFeasible \<and> objective R = EvaluateObjective P s \<and>
       (\<forall>s'\<in>A. objective_key (objective R) \<le> objective_key (EvaluateObjective P s')))"

lemma try_order_inv:
  assumes P: "u64_problem P" "well_formed P" "search_ok P S" "weights_exact P S"
    and "all_buffers P order" and inv: "result_inv P A R"
  shows "\<exists>R'. try_order P S k order R = Inr (R', False) \<and>
    result_inv P (A \<union> solutions (best_offset P) S order) R'"
proof -
  have sub: "set order \<subseteq> {..<length (buffers P)}" using assms(5) by (simp add: all_buffers_def)
  obtain ev r where r: "place_order P S order (candidate_offsets_evaluated (statistics R)) (unplaced S) = Inr (ev, r)"
      "greedy (best_offset P) order (unplaced S) r"
    using place_order_greedy [OF P unplaced_ok [OF P(3)] sub] by blast
  note sol = solutions_run [OF best_offset_functional r(2)]
  show ?thesis
  proof (cases r)
    case None
    then show ?thesis using r(1) inv sol
      by (auto simp: try_order_def PlaceCanonicalOrder_def result_inv_def split: option.splits)
  next
    case (Some st)
    let ?s = "BuildSolution S (offsets st)"
    have s: "?s \<in> solutions (best_offset P) S order" using sol Some by simp
    have "ValidateSolution P ?s = Inr []"
      using ValidateSolution_Nil [OF P(1)] P(2)
        solutions_valid [OF P(2,3) assms(5) best_offset_feasible s] by simp
    moreover have "A \<union> solutions (best_offset P) S order = insert ?s A" using sol Some by simp
    moreover have "IsBetterObjective v w \<longleftrightarrow> objective_key v < objective_key w" for v w
      by (simp add: IsBetterObjective_def objective_key_def)
    ultimately show ?thesis using r(1) inv Some
      by (cases "solution R") (auto simp: try_order_def PlaceCanonicalOrder_def result_inv_def Let_def
          not_less intro: order.trans less_imp_le)
  qed
qed

lemma try_orders_inv:
  assumes P: "u64_problem P" "well_formed P" "search_ok P S" "weights_exact P S"
  shows "\<forall>order\<in>set orders. all_buffers P order \<Longrightarrow> result_inv P A R \<Longrightarrow>
    \<exists>R'. try_orders P S k orders R = Inr (R', False) \<and>
      result_inv P (A \<union> (\<Union>order\<in>set orders. solutions (best_offset P) S order)) R'"
proof (induction orders arbitrary: A R k)
  case (Cons order orders)
  obtain R1 where R1: "try_order P S k order R = Inr (R1, False)"
      "result_inv P (A \<union> solutions (best_offset P) S order) R1"
    using try_order_inv [OF P _ Cons.prems(2)] Cons.prems(1) by (meson list.set_intros(1))
  from Cons.IH [OF _ R1(2), of "Suc k"] Cons.prems(1) R1(1) show ?case by (auto simp: Un_assoc)
qed simp

text \<open>All the solutions that \<open>Solve\<close> looks at: the first fit and one for each order.\<close>

definition examined :: "(nat \<Rightarrow> nat list \<Rightarrow> nat list) \<Rightarrow> nat \<Rightarrow> DsaProblem \<Rightarrow> SearchSpace \<Rightarrow> DsaSolution set" where
  "examined shuffle restarts P S = solutions (lowest_offset P) S (SizeOrder S) \<union>
     (\<Union>order\<in>set (CanonicalOrders shuffle restarts S). solutions (best_offset P) S order)"

lemma FirstFitIncumbent_eq:
  assumes "u64_problem P" and "well_formed P" and "search_ok P S"
  shows "\<exists>r. FirstFitIncumbent P S = Inr r \<and>
    solutions (lowest_offset P) S (SizeOrder S) = (case r of None \<Rightarrow> {} | Some s \<Rightarrow> {s})"
proof -
  have sub: "set (SizeOrder S) \<subseteq> {..<length (buffers P)}"
    using SizeOrder_all [OF assms(3)] by (simp add: all_buffers_def)
  obtain r where r: "first_fit P S (SizeOrder S) (unplaced S) = Inr r"
      "greedy (lowest_offset P) (SizeOrder S) (unplaced S) r"
    using first_fit_greedy [OF assms unplaced_ok [OF assms(3)] sub] by blast
  show ?thesis
    using r(1) solutions_run [OF lowest_offset_functional r(2)]
    by (cases r) (simp_all add: FirstFitIncumbent_def)
qed

lemma Solve_eq:
  assumes "u64_problem P" and "well_formed P" and "reorders shuffle"
  shows "\<exists>S res. BuildSearchSpace P = Inr S \<and> search_ok P S \<and> Solve shuffle restarts P = Inr res \<and>
    (if solution res = None then examined shuffle restarts P S = {} \<and> status res = kNoFit \<and> diagnostics res = [NoPlacement]
     else result_inv P (examined shuffle restarts P S) res)"
proof -
  obtain S where S: "BuildSearchSpace P = Inr S" "search_ok P S" "weights_exact P S"
    using BuildSearchSpace_ok [OF assms(2)] by blast
  have ok: "ValidateProblem P = []" using ValidateProblem_Nil [OF assms(1)] assms(2) by simp
  have orders: "\<forall>order\<in>set (CanonicalOrders shuffle restarts S). all_buffers P order"
    using CanonicalOrders_all [OF S(2) assms(3)] by blast
  obtain fit where fit: "FirstFitIncumbent P S = Inr fit"
      "solutions (lowest_offset P) S (SizeOrder S) = (case fit of None \<Rightarrow> {} | Some s \<Rightarrow> {s})"
    using FirstFitIncumbent_eq [OF assms(1,2) S(2)] by blast
  obtain seed where seed: "result_inv P (solutions (lowest_offset P) S (SizeOrder S)) seed"
      "(case fit of None \<Rightarrow> Inr (empty_result, False)
        | Some s \<Rightarrow> res_bind (ValidateSolution P s) (\<lambda>errors.
            if errors \<noteq> [] then Inr (empty_result\<lparr>diagnostics := [FirstFitFailed] @ errors\<rparr>, True)
            else Inr (empty_result\<lparr>status := kFeasible, solution := Some s, objective := EvaluateObjective P s,
              statistics := (statistics empty_result)\<lparr>first_fit_seed_feasible := True,
                selected_first_fit_seed := True\<rparr>\<rparr>, False))) = Inr (seed, False)"
  proof (cases fit)
    case None
    then show thesis using fit(2) by (intro that) (simp_all add: result_inv_def empty_result_def)
  next
    case (Some s)
    have "s \<in> solutions (lowest_offset P) S (SizeOrder S)" using fit(2) Some by simp
    then have "ValidateSolution P s = Inr []"
      using solutions_valid [OF assms(2) S(2) SizeOrder_all [OF S(2)] lowest_offset_feasible]
        ValidateSolution_Nil [OF assms(1)] assms(2) by blast
    then show thesis using fit(2) Some by (intro that) (simp_all add: result_inv_def empty_result_def)
  qed
  obtain res where res: "try_orders P S 0 (CanonicalOrders shuffle restarts S) seed = Inr (res, False)"
      "result_inv P (examined shuffle restarts P S) res"
    using try_orders_inv [OF assms(1,2) S(2,3) orders seed(1)] unfolding examined_def by blast
  have run: "Solve shuffle restarts P = Inr (if solution res = None
      then res\<lparr>status := kNoFit, diagnostics := diagnostics res @ [NoPlacement]\<rparr> else res)"
    unfolding Solve_def Let_def ok S(1) fit(1) res_bind_simps(2) seed(2) prod.case
    by (simp add: res(1) del: res_bind_eq_Inr)
  show ?thesis
  proof (cases "solution res = None")
    case True
    then show ?thesis using run S(1,2) res(2) by (auto simp: result_inv_def)
  next
    case False
    then show ?thesis using run S(1,2) res(2) by auto
  qed
qed

lemma examined_valid:
  assumes "well_formed P" and "search_ok P S" and "reorders shuffle"
    and "s \<in> examined shuffle restarts P S"
  shows "valid_placement P (Find s)"
  using assms(4) unfolding examined_def
proof (elim UnE UN_E)
  assume "s \<in> solutions (lowest_offset P) S (SizeOrder S)"
  then show ?thesis by (rule solutions_valid [OF assms(1,2) SizeOrder_all [OF assms(2)] lowest_offset_feasible])
next
  fix order assume "order \<in> set (CanonicalOrders shuffle restarts S)" and "s \<in> solutions (best_offset P) S order"
  then show ?thesis
    using solutions_valid [OF assms(1,2) CanonicalOrders_all [OF assms(2,3)] best_offset_feasible] by blast
qed

section \<open>The properties\<close>

text \<open>
  Claim C32. The lowest fit is the lowest aligned offset at which the buffer ends within 64 bits
  and meets no blocked address, and there is none exactly when it returns nothing.
\<close>

theorem LowestFit_lowest:
  assumes "0 < n" and "n \<le> u64_max" and "0 < al" and "al \<le> u64_max"
    and "\<And>r. r \<in> set blocked \<Longrightarrow> ar_begin r < ar_end r \<and> ar_end r \<le> u64_max"
  shows "least_option (\<lambda>off. al dvd off \<and> off + n \<le> u64_max \<and>
    (\<forall>r\<in>set blocked. {off..<off + n} \<inter> {ar_begin r..<ar_end r} = {})) (LowestFit n al blocked)"
  using LowestFit_least [OF assms(1-4), of blocked] assms(5) by (simp add: ranges_ok_def free_at_def)

text \<open>
  Claim C33. Placing one buffer: the sweep over the candidates with its three cursors returns, of
  all the offsets where the buffer fits and meets no conflicting placed buffer, not just of the
  candidates, the one that adds the least reuse penalty and is lowest among those, and nothing
  exactly when no offset is feasible. It counts every candidate as evaluated.
\<close>

theorem place_one_cheapest:
  assumes "u64_problem P" and "well_formed P" and "BuildSearchSpace P = Inr S"
    and "placement_ok P st" and "i < length (buffers P)"
  shows "\<exists>r. place_one P S st i ev = Inr (ev + length (CandidateOffsets P S st i), r) \<and> best_offset P st i r"
proof -
  have "search_ok P S" and "weights_exact P S" using BuildSearchSpace_ok [OF assms(2)] assms(3) by auto
  then show ?thesis by (rule place_one_best [OF assms(1,2) _ _ assms(4,5)])
qed

text \<open>
  Claim C34. Both placements refine the greedy placement: the canonical order with the cheapest
  feasible offset at each step, the first fit with the lowest, and neither fails a lookup.
\<close>

theorem placements_refine_greedy:
  assumes "u64_problem P" and "well_formed P" and "BuildSearchSpace P = Inr S"
    and "set order = {..<length (buffers P)}"
  shows "(\<exists>ev' r. PlaceCanonicalOrder P S order ev = Inr (ev', r) \<and>
      solutions (best_offset P) S order = set_option r) \<and>
    (\<exists>r. FirstFitIncumbent P S = Inr r \<and> solutions (lowest_offset P) S (SizeOrder S) = set_option r)"
proof (intro conjI)
  have S: "search_ok P S" "weights_exact P S" using BuildSearchSpace_ok [OF assms(2)] assms(3) by auto
  obtain ev' r where r: "place_order P S order ev (unplaced S) = Inr (ev', r)"
      "greedy (best_offset P) order (unplaced S) r"
    using place_order_greedy [OF assms(1,2) S unplaced_ok [OF S(1)], of order ev] assms(4) by auto
  show "\<exists>ev' r. PlaceCanonicalOrder P S order ev = Inr (ev', r) \<and>
      solutions (best_offset P) S order = set_option r"
    using r(1) solutions_run [OF best_offset_functional r(2)]
    by (cases r) (simp_all add: PlaceCanonicalOrder_def)
  show "\<exists>r. FirstFitIncumbent P S = Inr r \<and> solutions (lowest_offset P) S (SizeOrder S) = set_option r"
    using FirstFitIncumbent_eq [OF assms(1,2) S(1)] by (auto split: option.splits)
qed

text \<open>
  Claim C35. Solving never fails a lookup or a validation of its own. It rejects exactly the
  problems that are not well formed, with the diagnostics of the validation; otherwise it is
  feasible exactly when it has a solution, which then passes the validation, is a valid placement
  and has the objective it reports.
\<close>

theorem Solve_outcome:
  assumes "u64_problem P" and "reorders shuffle"
  shows "\<exists>res. Solve shuffle restarts P = Inr res \<and>
    (case status res of
       kInvalidProblem \<Rightarrow> \<not> well_formed P \<and> solution res = None \<and> diagnostics res = ValidateProblem P
     | kNoFit \<Rightarrow> well_formed P \<and> solution res = None \<and> diagnostics res = [NoPlacement]
     | kFeasible \<Rightarrow> well_formed P \<and> diagnostics res = [] \<and> (\<exists>s. solution res = Some s \<and>
         ValidateSolution P s = Inr [] \<and> valid_placement P (Find s) \<and> objective res = EvaluateObjective P s))"
proof (cases "well_formed P")
  case False
  then have "ValidateProblem P \<noteq> []" using ValidateProblem_Nil [OF assms(1)] by simp
  then have "Solve shuffle restarts P = Inr (empty_result\<lparr>diagnostics := ValidateProblem P\<rparr>)"
    by (simp add: Solve_def Let_def)
  then show ?thesis using False by (simp add: empty_result_def)
next
  case True
  obtain S res where r: "search_ok P S" "Solve shuffle restarts P = Inr res"
    "if solution res = None then examined shuffle restarts P S = {} \<and> status res = kNoFit \<and> diagnostics res = [NoPlacement]
     else result_inv P (examined shuffle restarts P S) res"
    using Solve_eq [OF assms(1) True assms(2)] by blast
  show ?thesis
  proof (cases "solution res")
    case None
    then show ?thesis using r(2,3) True by simp
  next
    case (Some s)
    with r(3) have s: "result_inv P (examined shuffle restarts P S) res" by simp
    then have "valid_placement P (Find s)"
      using examined_valid [OF True r(1) assms(2), of s restarts] Some by (simp add: result_inv_def)
    then show ?thesis using s Some True r(2) ValidateSolution_Nil [OF assms(1)] by (simp add: result_inv_def)
  qed
qed

text \<open>
  Claim C36. Of the first fit and the placements of the orders, the solver returns a best one: no
  other has a smaller cost, or the same cost and a smaller total peak, or both the same and a
  smaller highest peak. It reports that nothing fits only when all of them fail.
\<close>

theorem Solve_best:
  assumes "u64_problem P" and "well_formed P" and "reorders shuffle"
  shows "\<exists>S res. BuildSearchSpace P = Inr S \<and> Solve shuffle restarts P = Inr res \<and>
    (case solution res of
       None \<Rightarrow> examined shuffle restarts P S = {}
     | Some s \<Rightarrow> s \<in> examined shuffle restarts P S \<and>
         (\<forall>s'\<in>examined shuffle restarts P S. \<not> IsBetterObjective (EvaluateObjective P s') (objective res)))"
proof -
  obtain S res where r: "BuildSearchSpace P = Inr S" "Solve shuffle restarts P = Inr res"
    "if solution res = None then examined shuffle restarts P S = {} \<and> status res = kNoFit \<and> diagnostics res = [NoPlacement]
     else result_inv P (examined shuffle restarts P S) res"
    using Solve_eq [OF assms] by blast
  have "IsBetterObjective v w \<longleftrightarrow> objective_key v < objective_key w" for v w
    by (simp add: IsBetterObjective_def objective_key_def)
  then have "case solution res of
       None \<Rightarrow> examined shuffle restarts P S = {}
     | Some s \<Rightarrow> s \<in> examined shuffle restarts P S \<and>
         (\<forall>s'\<in>examined shuffle restarts P S. \<not> IsBetterObjective (EvaluateObjective P s') (objective res))"
    using r(3) by (auto simp: result_inv_def leD split: option.splits if_splits)
  with r(1,2) show ?thesis by blast
qed

section \<open>Examples\<close>

lemma two_buffers_well_formed: "well_formed two_buffers"
  using ValidateProblem_Nil [OF two_buffers_u64] two_buffers_valid by simp

lemma reorders_id: "reorders (\<lambda>i xs. xs)"
  by (simp add: reorders_def)

lemma LowestFit_lowest_witness:
  "least_option (\<lambda>off. 8 dvd off \<and> off + 16 \<le> u64_max \<and>
    (\<forall>r\<in>set [\<lparr>ar_begin = 0, ar_end = 20\<rparr>, \<lparr>ar_begin = 30, ar_end = 50\<rparr>]. {off..<off + 16} \<inter> {ar_begin r..<ar_end r} = {}))
    (LowestFit 16 8 [\<lparr>ar_begin = 0, ar_end = 20\<rparr>, \<lparr>ar_begin = 30, ar_end = 50\<rparr>])"
  by (rule LowestFit_lowest) (auto simp: u64_max_def)

lemma place_one_cheapest_witness:
  "\<exists>S ev r. BuildSearchSpace two_buffers = Inr S \<and> place_one two_buffers S (unplaced S) 1 0 = Inr (ev, r) \<and>
    best_offset two_buffers (unplaced S) 1 r"
proof -
  obtain S where S: "BuildSearchSpace two_buffers = Inr S" "search_ok two_buffers S"
    using BuildSearchSpace_ok [OF two_buffers_well_formed] by blast
  have "1 < length (buffers two_buffers)" by (simp add: two_buffers_def)
  from place_one_cheapest [OF two_buffers_u64 two_buffers_well_formed S(1) unplaced_ok [OF S(2)] this, of 0]
  show ?thesis using S(1) by blast
qed

lemma placements_refine_greedy_witness:
  "\<exists>S ev r. BuildSearchSpace two_buffers = Inr S \<and> PlaceCanonicalOrder two_buffers S [1, 0] 0 = Inr (ev, r) \<and>
    solutions (best_offset two_buffers) S [1, 0] = set_option r"
proof -
  obtain S where S: "BuildSearchSpace two_buffers = Inr S"
    using BuildSearchSpace_ok [OF two_buffers_well_formed] by blast
  have "set [1, 0] = {..<length (buffers two_buffers)}" by (auto simp: two_buffers_def)
  from placements_refine_greedy [OF two_buffers_u64 two_buffers_well_formed S this, of 0]
  show ?thesis using S by blast
qed

lemma Solve_outcome_witness:
  "\<exists>res. Solve (\<lambda>i xs. xs) 2 two_buffers = Inr res \<and> status res \<noteq> kInvalidProblem"
  apply (rule exE [OF Solve_outcome [OF two_buffers_u64 reorders_id, of 2]])
  subgoal for res
    using two_buffers_well_formed by (cases "status res") auto
  done

lemma Solve_best_witness:
  "\<exists>S res. BuildSearchSpace two_buffers = Inr S \<and> Solve (\<lambda>i xs. xs) 2 two_buffers = Inr res \<and>
    (solution res = None \<longrightarrow> examined (\<lambda>i xs. xs) 2 two_buffers S = {})"
  using Solve_best [OF two_buffers_u64 two_buffers_well_formed reorders_id, of 2] by (auto split: option.splits)

end
