(* ===== verification/Tile_Chooser.thy ===== *)
theory Tile_Chooser
  imports Expr
begin

text \<open>
  The choice of the tile shape of a matrix product in the cube's L0 buffers
  (\<^verbatim>\<open>include/pypto/ir/transforms/utils/l0_tile_chooser.h\<close>,
  \<^verbatim>\<open>src/ir/transforms/utils/l0_tile_chooser.cpp\<close>, with \<open>L0cPhysicalElements\<close> of
  \<^verbatim>\<open>l0c_footprint.h\<close>): the configuration, the cost model, the enumeration of the tiles under the
  capacities of the buffers, and the choice among the schedules the caller can lower.

  Integers that the code computes in \<open>int64_t\<close> are checked where a product of dimensions may leave
  the range (\<open>product64\<close>, \<open>i64\<close>); quotients and sums of \<open>int\<close> fields cannot. \<open>double\<close> is the
  parameter \<open>'f\<close> with its operations; the decimal defaults of the cost parameters are left out, as
  is the wording of the performance hint.
\<close>

section \<open>Configuration and result\<close>

record 'f cost_ops = "'f double_ops" +
  d_llround :: "'f \<Rightarrow> int"

datatype Stationarity = kOutputStationary | kAStationary | kBStationary

record 'f L0TileConfig =
  cfg_M :: int
  cfg_N :: int
  cfg_K :: int
  reduction_iterations :: int
  reduction_pipeline_stages :: int
  independent_output_tiles :: bool
  l0a_bytes :: int
  l0b_bytes :: int
  l0c_bytes :: int
  bytes_a :: int
  bytes_b :: int
  bytes_c :: int
  min_m :: int
  min_n :: int
  min_k :: int
  align_m :: int
  align_n :: int
  align_k :: int
  l0c_align_m :: int
  box_align_m :: int
  box_align_n :: int
  max_n :: int
  max_n_pipelined :: int
  max_n_nested_pipelined :: int
  allow_a_stationary :: bool
  allow_b_stationary :: bool
  allow_double_buffer_c :: bool
  c_read :: bool
  bw_a :: 'f
  bw_b :: 'f
  bw_drain :: 'f
  drain_fixed_cycles :: 'f
  drain_row_cycles :: 'f
  drain_penalty_cycles :: 'f
  drain_c0_bytes :: int
  mad_head :: int
  mad_k_fractal_bytes :: int
  mad_fp32_passes :: int
  allow_padding :: bool
  allow_k_boundary :: bool

record L0TileResult =
  res_m :: int
  res_n :: int
  res_k :: int
  estimated_traffic_bytes :: int
  estimated_cost_cycles :: int
  padded_compute_volume :: int
  stationarity :: Stationarity
  os_holds_a :: bool
  double_buffer_c :: bool
  perf_hint :: bool

section \<open>Numbers\<close>

definition AlignDown :: "int \<Rightarrow> int \<Rightarrow> int" where
  "AlignDown x a = cdiv x a * a"

definition AlignUp :: "int \<Rightarrow> int \<Rightarrow> int" where
  "AlignUp x a = cdiv (x + a - 1) a * a"

definition CeilDiv :: "int \<Rightarrow> int \<Rightarrow> int" where
  "CeilDiv a b = cdiv (a + b - 1) b"

text \<open>A product, from left to right, and the conversion to \<open>int\<close>.\<close>

fun product64 :: "int \<Rightarrow> int list \<Rightarrow> int res" where
  "product64 x [] = Inr x"
| "product64 x (y # ys) = res_bind (i64 (x * y)) (\<lambda>z. product64 z ys)"

definition to_i32 :: "int \<Rightarrow> int" where
  "to_i32 x = (x + 2147483648) mod 4294967296 - 2147483648"

definition L0cPhysicalElements :: "int \<Rightarrow> int \<Rightarrow> int \<Rightarrow> int option" where
  "L0cPhysicalElements m n m_alignment =
     (if m \<le> 0 \<or> n \<le> 0 \<or> m_alignment \<le> 0 then None
      else
        let remainder = m mod m_alignment;
            increment = if remainder = 0 then 0 else m_alignment - remainder in
        if m > UINT64_MAX - increment then None
        else
          let physical_m = m + increment in
          if physical_m > UINT64_MAX div n then None else Some (physical_m * n))"

definition BoxedExtent :: "int \<Rightarrow> int \<Rightarrow> int option" where
  "BoxedExtent extent alignment = L0cPhysicalElements extent 1 alignment"

text \<open>An extent that fits \<open>int64_t\<close>: the guard in front of every conversion of one.\<close>

definition boxed64 :: "int \<Rightarrow> int \<Rightarrow> int option" where
  "boxed64 extent alignment =
     Option.bind (BoxedExtent extent alignment) (\<lambda>x. if x > INT64_MAX then None else Some x)"

definition CandidateL0cPhysicalElements :: "int \<Rightarrow> int \<Rightarrow> 'f L0TileConfig \<Rightarrow> int option" where
  "CandidateL0cPhysicalElements m n cfg =
     Option.bind (boxed64 m (box_align_m cfg)) (\<lambda>boxed_m.
     Option.bind (boxed64 n (box_align_n cfg)) (\<lambda>boxed_n.
       L0cPhysicalElements boxed_m boxed_n (l0c_align_m cfg)))"

definition ReductionRepetitions :: "'f L0TileConfig \<Rightarrow> int" where
  "ReductionRepetitions cfg = max 1 (reduction_iterations cfg)"

section \<open>Schedules\<close>

record Regime =
  stat :: Stationarity
  dbc :: bool

record OperandDB =
  db_a :: bool
  db_b :: bool

definition DeriveOperandDB :: "Stationarity \<Rightarrow> OperandDB" where
  "DeriveOperandDB s =
     (case s of
        kAStationary \<Rightarrow> \<lparr>db_a = False, db_b = True\<rparr>
      | kBStationary \<Rightarrow> \<lparr>db_a = True, db_b = False\<rparr>
      | kOutputStationary \<Rightarrow> \<lparr>db_a = True, db_b = True\<rparr>)"

record 'f Candidate =
  cand_m :: int
  cand_n :: int
  cand_k :: int
  traffic :: int
  cost_cycles :: int
  padded_compute :: int
  load_cycles :: 'f
  regime :: Regime

text \<open>The values of a counting loop \<open>for (x = lo; x <= hi; x += step)\<close>, for a positive step.\<close>

function grid :: "int \<Rightarrow> int \<Rightarrow> int \<Rightarrow> int list" where
  "grid lo hi step = (if step \<le> 0 \<or> lo > hi then [] else lo # grid (lo + step) hi step)"
  by auto
termination
  by (relation "measure (\<lambda>(lo, hi, step). nat (hi + 1 - lo))") auto

declare grid.simps [simp del]

definition EnumerateLegalKs :: "int \<Rightarrow> int \<Rightarrow> 'f L0TileConfig \<Rightarrow> int \<Rightarrow> int \<Rightarrow> int list" where
  "EnumerateLegalKs m n cfg A0 B0 =
     (case (boxed64 m (box_align_m cfg), boxed64 n (box_align_n cfg)) of
        (Some boxed_m, Some boxed_n) \<Rightarrow>
          let k_from_a = cdiv A0 boxed_m;
              k_from_b = cdiv B0 boxed_n;
              cap = min k_from_a k_from_b;
              k_problem = if allow_padding cfg then AlignUp (max (cfg_K cfg) (min_k cfg)) (align_k cfg) else cfg_K cfg;
              k_hi = AlignDown (min cap k_problem) (align_k cfg);
              peel_ok = allow_k_boundary cfg \<and> cmod (cfg_K cfg) (align_k cfg) = 0 in
          map to_i32
            (filter (\<lambda>k. \<not> (\<not> allow_padding cfg \<and> \<not> peel_ok \<and> cmod (cfg_K cfg) k \<noteq> 0))
               (grid (AlignUp (min_k cfg) (align_k cfg)) k_hi (align_k cfg)))
      | _ \<Rightarrow> [])"

section \<open>Cost model\<close>

text \<open>\<open>std::max\<close> and \<open>std::min\<close> of doubles.\<close>

definition d_max :: "'f cost_ops \<Rightarrow> 'f \<Rightarrow> 'f \<Rightarrow> 'f" where
  "d_max D x y = (if d_lt D x y then y else x)"

definition d_min :: "'f cost_ops \<Rightarrow> 'f \<Rightarrow> 'f \<Rightarrow> 'f" where
  "d_min D x y = (if d_lt D y x then y else x)"

text \<open>The load of both operands, each repeated some number of times.\<close>

definition operand_load :: "'f cost_ops \<Rightarrow> 'f L0TileConfig \<Rightarrow> 'f option \<Rightarrow> 'f option \<Rightarrow> 'f" where
  "operand_load D cfg times_a times_b =
     (let i = d_of_int D;
          times = (\<lambda>x t. case t of None \<Rightarrow> x | Some c \<Rightarrow> d_mul D x c) in
      d_add D
        (d_div D (times (d_mul D (d_mul D (i (bytes_a cfg)) (i (cfg_M cfg))) (i (cfg_K cfg))) times_a) (bw_a cfg))
        (d_div D (times (d_mul D (d_mul D (i (bytes_b cfg)) (i (cfg_K cfg))) (i (cfg_N cfg))) times_b) (bw_b cfg)))"

definition held_a :: "'f cost_ops \<Rightarrow> int \<Rightarrow> 'f L0TileConfig \<Rightarrow> 'f" where
  "held_a D m cfg = operand_load D cfg None (Some (d_of_int D (CeilDiv (cfg_M cfg) m)))"

definition held_b :: "'f cost_ops \<Rightarrow> int \<Rightarrow> 'f L0TileConfig \<Rightarrow> 'f" where
  "held_b D n cfg = operand_load D cfg (Some (d_of_int D (CeilDiv (cfg_N cfg) n))) None"

definition OSHoldsHoldA :: "'f cost_ops \<Rightarrow> int \<Rightarrow> int \<Rightarrow> 'f L0TileConfig \<Rightarrow> bool" where
  "OSHoldsHoldA D m n cfg = d_le D (held_a D m cfg) (held_b D n cfg)"

definition EstimateTraffic ::
  "'f cost_ops \<Rightarrow> int \<Rightarrow> int \<Rightarrow> int \<Rightarrow> 'f L0TileConfig \<Rightarrow> Regime \<Rightarrow> int res" where
  "EstimateTraffic D m n k cfg r =
     (let ceil_n = CeilDiv (cfg_N cfg) n;
          ceil_m = CeilDiv (cfg_M cfg) m;
          full_k = \<not> independent_output_tiles cfg \<and> k \<ge> cfg_K cfg;
          a_once = product64 (bytes_a cfg) [cfg_M cfg, cfg_K cfg];
          b_once = product64 (bytes_b cfg) [cfg_K cfg, cfg_N cfg];
          a_all = product64 (bytes_a cfg) [cfg_M cfg, cfg_K cfg, ceil_n];
          b_all = product64 (bytes_b cfg) [cfg_K cfg, cfg_N cfg, ceil_m];
          (a_load, b_load) =
            (case stat r of
               kAStationary \<Rightarrow> (a_once, b_all)
             | kBStationary \<Rightarrow> (a_all, b_once)
             | kOutputStationary \<Rightarrow>
                 if full_k \<and> OSHoldsHoldA D m n cfg then (a_once, b_all)
                 else if full_k then (a_all, b_once)
                 else (a_all, b_all));
          repetitions = ReductionRepetitions cfg in
      res_bind a_load (\<lambda>a_traffic.
      res_bind b_load (\<lambda>b_traffic.
      res_bind (product64 (if c_read cfg then 2 else 1) [bytes_c cfg, cfg_M cfg, cfg_N cfg]) (\<lambda>c_traffic.
      res_bind (i64 (a_traffic + b_traffic)) (\<lambda>ab.
      res_bind (check ValueError (ab \<le> cdiv (INT64_MAX - c_traffic) repetitions)) (\<lambda>_.
        Inr (ab * repetitions + c_traffic)))))))"

definition RepeatedReductionWork :: "int \<Rightarrow> 'f L0TileConfig \<Rightarrow> int res" where
  "RepeatedReductionWork work cfg =
     (let repetitions = ReductionRepetitions cfg in
      res_bind (check ValueError (work \<ge> 0 \<and> work \<le> cdiv INT64_MAX repetitions)) (\<lambda>_.
        Inr (work * repetitions)))"

definition PaddedComputeVolume :: "int \<Rightarrow> int \<Rightarrow> int \<Rightarrow> 'f L0TileConfig \<Rightarrow> int res" where
  "PaddedComputeVolume m n k cfg =
     res_bind (product64 (CeilDiv (cfg_M cfg) m) [m, CeilDiv (cfg_N cfg) n, n, CeilDiv (cfg_K cfg) k, k])
       (\<lambda>work. RepeatedReductionWork work cfg)"

definition MadCycles :: "int \<Rightarrow> int \<Rightarrow> int \<Rightarrow> 'f L0TileConfig \<Rightarrow> int res" where
  "MadCycles m n k cfg =
     (let kt = max 1 (cdiv (mad_k_fractal_bytes cfg) (bytes_a cfg));
          cpr = if bytes_a cfg = 4 then max 1 (mad_fp32_passes cfg) else max 1 (cdiv (bytes_a cfg) 2);
          num_full = cdiv (cfg_K cfg) k;
          k_tail = cfg_K cfg - num_full * k;
          k_blocks = num_full + (if k_tail > 0 then 1 else 0);
          k_fractals = num_full * CeilDiv k kt + (if k_tail > 0 then CeilDiv k_tail kt else 0) in
      res_bind (product64 cpr [CeilDiv m (align_m cfg), k_fractals, CeilDiv n (align_n cfg)]) (\<lambda>cube.
      res_bind (i64 (k_blocks * mad_head cfg + cube)) (\<lambda>per_mn.
      res_bind (product64 (CeilDiv (cfg_M cfg) m) [CeilDiv (cfg_N cfg) n, per_mn]) (\<lambda>work.
        RepeatedReductionWork work cfg))))"

definition PipelinedRowsOuter :: "'f cost_ops \<Rightarrow> int \<Rightarrow> int \<Rightarrow> 'f L0TileConfig \<Rightarrow> Stationarity \<Rightarrow> bool" where
  "PipelinedRowsOuter D m n cfg s \<longleftrightarrow>
     s = kAStationary \<or> (s = kOutputStationary \<and> OSHoldsHoldA D m n cfg)"

definition PipelinedInnerFullTiles :: "'f cost_ops \<Rightarrow> int \<Rightarrow> int \<Rightarrow> 'f L0TileConfig \<Rightarrow> Stationarity \<Rightarrow> int" where
  "PipelinedInnerFullTiles D m n cfg s =
     (if PipelinedRowsOuter D m n cfg s then cdiv (cfg_N cfg) n else cdiv (cfg_M cfg) m)"

definition LoadCycles :: "'f cost_ops \<Rightarrow> int \<Rightarrow> int \<Rightarrow> int \<Rightarrow> 'f L0TileConfig \<Rightarrow> Regime \<Rightarrow> 'f" where
  "LoadCycles D m n k cfg r =
     (case stat r of
        kAStationary \<Rightarrow> held_a D m cfg
      | kBStationary \<Rightarrow> held_b D n cfg
      | kOutputStationary \<Rightarrow>
          if \<not> independent_output_tiles cfg \<and> k \<ge> cfg_K cfg
          then (if OSHoldsHoldA D m n cfg then held_a D m cfg else held_b D n cfg)
          else operand_load D cfg (Some (d_of_int D (CeilDiv (cfg_N cfg) n))) (Some (d_of_int D (CeilDiv (cfg_M cfg) m))))"

text \<open>The loop does not end on 0.\<close>

function OddPart :: "int \<Rightarrow> int res" where
  "OddPart x = (if x = 0 then Inl Diverges else if even x then OddPart (x div 2) else Inr x)"
  by auto
termination
  by (relation "measure (\<lambda>x. nat \<bar>x\<bar>)") (auto elim!: evenE)

declare OddPart.simps [simp del]

definition DrainCycles :: "'f cost_ops \<Rightarrow> int \<Rightarrow> int \<Rightarrow> 'f L0TileConfig \<Rightarrow> 'f res" where
  "DrainCycles D m n cfg =
     (let i = d_of_int D;
          num_drains = i (CeilDiv (cfg_M cfg) m * CeilDiv (cfg_N cfg) n);
          n0 = max 1 (cdiv (drain_c0_bytes cfg) (bytes_c cfg));
          n1 = CeilDiv n n0;
          throughput = d_div D (d_mul D (i (bytes_c cfg)) (i n)) (bw_drain cfg) in
      res_bind (OddPart n1) (\<lambda>odd_part.
        let per_row = d_add D (d_max D (drain_row_cycles cfg) throughput)
              (d_mul D (drain_penalty_cycles cfg) (i (odd_part - 1)));
            per_tile = d_add D (drain_fixed_cycles cfg) (d_mul D (i m) per_row) in
        Inr (d_mul D num_drains per_tile)))"

definition WallCycles ::
  "'f cost_ops \<Rightarrow> int \<Rightarrow> int \<Rightarrow> int \<Rightarrow> 'f L0TileConfig \<Rightarrow> Regime \<Rightarrow> int res" where
  "WallCycles D m n k cfg r =
     res_bind (MadCycles m n k cfg) (\<lambda>mad.
     res_bind (DrainCycles D m n cfg) (\<lambda>drain.
       let compute = d_max D (d_mul D (LoadCycles D m n k cfg r) (d_of_int D (ReductionRepetitions cfg))) (d_of_int D mad);
           wall =
             (if dbc r then
                let num_tiles = d_of_int D (CeilDiv (cfg_M cfg) m * CeilDiv (cfg_N cfg) n) in
                d_add D (d_max D compute drain) (d_div D (d_min D compute drain) num_tiles)
              else d_add D compute drain) in
       res_bind (check InternalError (d_isfinite D wall \<and> d_le D wall (d_of_int D 9007199254740992))) (\<lambda>_.
         Inr (d_llround D wall))))"

definition Better :: "'f cost_ops \<Rightarrow> 'f Candidate \<Rightarrow> 'f Candidate \<Rightarrow> 'f L0TileConfig \<Rightarrow> bool" where
  "Better D a b cfg =
     (if cost_cycles a \<noteq> cost_cycles b then cost_cycles a < cost_cycles b
      else if padded_compute a \<noteq> padded_compute b then padded_compute a < padded_compute b
      else
        let a_kblocks = CeilDiv (cfg_K cfg) (cand_k a);
            b_kblocks = CeilDiv (cfg_K cfg) (cand_k b) in
        if a_kblocks \<noteq> b_kblocks then a_kblocks < b_kblocks
        else if \<not> d_eq D (load_cycles a) (load_cycles b) then d_lt D (load_cycles a) (load_cycles b)
        else
          let a_area = cand_m a * cand_n a;
              b_area = cand_m b * cand_n b in
          if a_area \<noteq> b_area then a_area > b_area else cand_k a > cand_k b)"

section \<open>Enumeration\<close>

definition score_tile ::
  "'f cost_ops \<Rightarrow> int \<Rightarrow> int \<Rightarrow> int \<Rightarrow> 'f L0TileConfig \<Rightarrow> Regime \<Rightarrow> 'f Candidate res" where
  "score_tile D m n k cfg r =
     res_bind (EstimateTraffic D m n k cfg r) (\<lambda>t.
     res_bind (WallCycles D m n k cfg r) (\<lambda>wall.
     res_bind (PaddedComputeVolume m n k cfg) (\<lambda>padded.
       Inr \<lparr>cand_m = m, cand_n = n, cand_k = k, traffic = t, cost_cycles = wall,
         padded_compute = padded,
         load_cycles = d_mul D (LoadCycles D m n k cfg r) (d_of_int D (ReductionRepetitions cfg)),
         regime = r\<rparr>)))"

definition MakeCandidate ::
  "'f cost_ops \<Rightarrow> int \<Rightarrow> int \<Rightarrow> int \<Rightarrow> 'f L0TileConfig \<Rightarrow> int \<Rightarrow> Regime \<Rightarrow> 'f Candidate option res" where
  "MakeCandidate D m n k cfg C0 r =
     (let is_full_k_output_grid = (k = cfg_K cfg \<and> (m \<noteq> cfg_M cfg \<or> n \<noteq> cfg_N cfg));
          output_stationary = (stat r = kOutputStationary);
          n_resource_is_pipelined = (stat r = kAStationary \<or> output_stationary);
          n_resource_is_nested = (output_stationary \<and> OSHoldsHoldA D m n cfg) in
      if m < min_m cfg \<or> n < min_n cfg \<or> k < min_k cfg then Inr None
      else if max_n cfg > 0 \<and> n > max_n cfg then Inr None
      else if max_n_pipelined cfg > 0 \<and> is_full_k_output_grid \<and> n_resource_is_pipelined \<and>
        n > max_n_pipelined cfg then Inr None
      else if max_n_nested_pipelined cfg > 0 \<and> is_full_k_output_grid \<and> n_resource_is_nested \<and>
        n > max_n_nested_pipelined cfg then Inr None
      else if \<not> allow_padding cfg \<and> (m > cfg_M cfg \<or> n > cfg_N cfg) then Inr None
      else
        (case CandidateL0cPhysicalElements m n cfg of
           None \<Rightarrow> Inr None
         | Some c_elements \<Rightarrow>
             if c_elements > C0 then Inr None
             else
               res_bind (score_tile D m n k cfg r) (\<lambda>c. Inr (Some c))))"

text \<open>The elements of one operand that are stored at a time per row or column of the tile.\<close>

definition stored_k :: "'f L0TileConfig \<Rightarrow> bool \<Rightarrow> int \<Rightarrow> int res" where
  "stored_k cfg db k =
     (let depth = (if k < cfg_K cfg then (if db then 2 else 1) * reduction_pipeline_stages cfg
                   else max (if db then 2 else 1) (reduction_pipeline_stages cfg));
          tail = (if reduction_pipeline_stages cfg > 1 \<and> cdiv (cfg_K cfg) k \<ge> 2 then cmod (cfg_K cfg) k else 0) in
      res_bind (i64 (depth * k)) (\<lambda>body.
      res_bind (i64 (tail * reduction_pipeline_stages cfg)) (\<lambda>extra_tail.
        i64 (body + extra_tail))))"

text \<open>One iteration of the innermost loop: the best candidate so far.\<close>

definition consider_tile ::
  "'f cost_ops \<Rightarrow> 'f L0TileConfig \<Rightarrow> Regime \<Rightarrow> int \<Rightarrow> bool \<Rightarrow> int \<times> int \<times> int \<Rightarrow> 'f Candidate option \<Rightarrow>
    'f Candidate option res" where
  "consider_tile D cfg r C0 require_full_k t best =
     (case t of (m, n, k) \<Rightarrow>
        if require_full_k \<and> k \<noteq> cfg_K cfg then Inr best
        else
          let db = DeriveOperandDB (stat r) in
          res_bind (stored_k cfg (db_a db) k) (\<lambda>stored_k_a.
          res_bind (stored_k cfg (db_b db) k) (\<lambda>stored_k_b.
            case (BoxedExtent m (box_align_m cfg), BoxedExtent n (box_align_n cfg)) of
              (Some boxed_m, Some boxed_n) \<Rightarrow>
                if boxed_m > cdiv (cdiv (l0a_bytes cfg) (bytes_a cfg)) stored_k_a \<or>
                   boxed_n > cdiv (cdiv (l0b_bytes cfg) (bytes_b cfg)) stored_k_b then Inr best
                else res_bind (MakeCandidate D (to_i32 m) (to_i32 n) k cfg C0 r) (\<lambda>c. Inr
                  (case (c, best) of
                     (None, _) \<Rightarrow> best
                   | (Some c', None) \<Rightarrow> c
                   | (Some c', Some b) \<Rightarrow> if Better D c' b cfg then c else best))
            | _ \<Rightarrow> Inr best)))"

text \<open>The rows of accumulator a tile of \<open>m\<close> rows occupies; the loop over \<open>m\<close> ends where it fails.\<close>

definition physical_rows :: "'f L0TileConfig \<Rightarrow> int \<Rightarrow> int option" where
  "physical_rows cfg m =
     Option.bind (boxed64 m (box_align_m cfg)) (\<lambda>boxed_m.
     Option.bind (boxed64 (min_n cfg) (box_align_n cfg)) (\<lambda>_.
     Option.bind (L0cPhysicalElements boxed_m 1 (l0c_align_m cfg)) (\<lambda>rows.
       if rows > INT64_MAX then None else Some rows)))"

definition rows_fit :: "'f L0TileConfig \<Rightarrow> int \<Rightarrow> int \<Rightarrow> bool" where
  "rows_fit cfg C0 m =
     (case (physical_rows cfg m, boxed64 (min_n cfg) (box_align_n cfg)) of
        (Some physical_m, Some boxed_min_n) \<Rightarrow> \<not> physical_m > cdiv C0 boxed_min_n
      | _ \<Rightarrow> False)"

definition tiles_of_m ::
  "'f cost_ops \<Rightarrow> 'f L0TileConfig \<Rightarrow> Regime \<Rightarrow> int \<Rightarrow> int \<Rightarrow> int \<Rightarrow> bool \<Rightarrow> int \<Rightarrow> int \<Rightarrow> (int \<times> int \<times> int) list" where
  "tiles_of_m D cfg r A0 B0 C0 require_inner_pair n_hi m =
     (case physical_rows cfg m of
        None \<Rightarrow> []
      | Some physical_m \<Rightarrow>
          concat (map (\<lambda>n.
              map (\<lambda>k. (m, n, k)) (EnumerateLegalKs (to_i32 m) (to_i32 n) cfg A0 B0))
            (filter (\<lambda>n. \<not> (require_inner_pair \<and> PipelinedInnerFullTiles D (to_i32 m) (to_i32 n) cfg (stat r) < 2))
              (grid (min_n cfg) (min n_hi (cdiv C0 physical_m)) (align_n cfg)))))"

definition tiles ::
  "'f cost_ops \<Rightarrow> 'f L0TileConfig \<Rightarrow> Regime \<Rightarrow> int \<Rightarrow> int \<Rightarrow> int \<Rightarrow> bool \<Rightarrow> (int \<times> int \<times> int) list" where
  "tiles D cfg r A0 B0 C0 require_inner_pair =
     (let m_hi = if allow_padding cfg then AlignUp (cfg_M cfg) (align_m cfg) else cfg_M cfg;
          n_top = if allow_padding cfg then AlignUp (cfg_N cfg) (align_n cfg) else cfg_N cfg;
          n_hi = if max_n cfg > 0 then min n_top (max_n cfg) else n_top in
      concat (map (tiles_of_m D cfg r A0 B0 C0 require_inner_pair n_hi)
        (takeWhile (rows_fit cfg C0) (grid (min_m cfg) m_hi (align_m cfg)))))"

definition EnumerateBest ::
  "'f cost_ops \<Rightarrow> 'f L0TileConfig \<Rightarrow> Regime \<Rightarrow> int \<Rightarrow> int \<Rightarrow> int \<Rightarrow> bool \<Rightarrow> bool \<Rightarrow> 'f Candidate option res" where
  "EnumerateBest D cfg r A0 B0 C0 require_inner_pair require_full_k =
     fold_res (consider_tile D cfg r C0 require_full_k) (tiles D cfg r A0 B0 C0 require_inner_pair) None"

definition L0aBudget :: "'f L0TileConfig \<Rightarrow> OperandDB \<Rightarrow> int" where
  "L0aBudget cfg db = cdiv (l0a_bytes cfg) (bytes_a cfg * (if db_a db then 2 else 1))"

definition L0bBudget :: "'f L0TileConfig \<Rightarrow> OperandDB \<Rightarrow> int" where
  "L0bBudget cfg db = cdiv (l0b_bytes cfg) (bytes_b cfg * (if db_b db then 2 else 1))"

definition L0cBudget :: "'f L0TileConfig \<Rightarrow> Regime \<Rightarrow> int" where
  "L0cBudget cfg r = cdiv (l0c_bytes cfg) (bytes_c cfg * (if dbc r then 2 else 1))"

section \<open>The choice\<close>

definition positive :: "'f cost_ops \<Rightarrow> 'f \<Rightarrow> bool" where
  "positive D x \<longleftrightarrow> d_lt D (d_of_int D 0) x"

definition non_negative :: "'f cost_ops \<Rightarrow> 'f \<Rightarrow> bool" where
  "non_negative D x \<longleftrightarrow> d_le D (d_of_int D 0) x"

text \<open>The checks of the configuration, in order; all of them throw the same exception.\<close>

definition valid_config :: "'f cost_ops \<Rightarrow> 'f L0TileConfig \<Rightarrow> bool" where
  "valid_config D cfg \<longleftrightarrow>
     cfg_M cfg > 0 \<and> cfg_N cfg > 0 \<and> cfg_K cfg > 0 \<and>
     reduction_iterations cfg \<ge> 0 \<and> reduction_pipeline_stages cfg > 0 \<and>
     l0a_bytes cfg > 0 \<and> l0b_bytes cfg > 0 \<and> l0c_bytes cfg > 0 \<and>
     bytes_a cfg > 0 \<and> bytes_b cfg > 0 \<and> bytes_c cfg > 0 \<and>
     min_m cfg > 0 \<and> min_n cfg > 0 \<and> min_k cfg > 0 \<and>
     (max_n cfg = 0 \<or> max_n cfg \<ge> min_n cfg) \<and>
     (max_n_pipelined cfg \<ge> 0 \<and>
       (max_n cfg = 0 \<or> max_n_pipelined cfg = 0 \<or> max_n_pipelined cfg \<le> max_n cfg)) \<and>
     (max_n_nested_pipelined cfg \<ge> 0 \<and>
       (max_n_pipelined cfg = 0 \<or> max_n_nested_pipelined cfg = 0 \<or>
        max_n_nested_pipelined cfg \<le> max_n_pipelined cfg)) \<and>
     align_m cfg > 0 \<and> align_n cfg > 0 \<and> align_k cfg > 0 \<and> l0c_align_m cfg > 0 \<and>
     box_align_m cfg > 0 \<and> box_align_n cfg > 0 \<and>
     positive D (bw_a cfg) \<and> positive D (bw_b cfg) \<and> positive D (bw_drain cfg) \<and>
     drain_c0_bytes cfg > 0 \<and> non_negative D (drain_row_cycles cfg) \<and>
     non_negative D (drain_penalty_cycles cfg) \<and> non_negative D (drain_fixed_cycles cfg) \<and>
     (\<not> allow_padding cfg \<longrightarrow> cfg_M cfg \<ge> min_m cfg \<and> cfg_N cfg \<ge> min_n cfg \<and> cfg_K cfg \<ge> min_k cfg)"

definition base_regime :: Regime where
  "base_regime = \<lparr>stat = kOutputStationary, dbc = False\<rparr>"

definition min_tile_fits :: "'f L0TileConfig \<Rightarrow> bool" where
  "min_tile_fits cfg \<longleftrightarrow>
     (let os_db = DeriveOperandDB kOutputStationary;
          max_a0 = (if allow_a_stationary cfg \<and> \<not> independent_output_tiles cfg
                    then L0aBudget cfg (DeriveOperandDB kAStationary) else L0aBudget cfg os_db);
          max_b0 = (if allow_b_stationary cfg \<and> \<not> independent_output_tiles cfg
                    then L0bBudget cfg (DeriveOperandDB kBStationary) else L0bBudget cfg os_db) in
      (case boxed64 (min_m cfg) (box_align_m cfg) of None \<Rightarrow> False | Some b \<Rightarrow> b \<le> cdiv max_a0 (min_k cfg)) \<and>
      (case boxed64 (min_n cfg) (box_align_n cfg) of None \<Rightarrow> False | Some b \<Rightarrow> b \<le> cdiv max_b0 (min_k cfg)) \<and>
      (case CandidateL0cPhysicalElements (min_m cfg) (min_n cfg) cfg of
         None \<Rightarrow> False | Some e \<Rightarrow> e \<le> INT64_MAX \<and> L0cBudget cfg base_regime \<ge> e))"

text \<open>The schedules after the baseline, in the order of the two loops.\<close>

definition other_regimes :: "'f L0TileConfig \<Rightarrow> Regime list" where
  "other_regimes cfg =
     (let stats = [kOutputStationary] @ (if allow_a_stationary cfg then [kAStationary] else []) @
            (if allow_b_stationary cfg then [kBStationary] else []);
          depths = (if allow_double_buffer_c cfg \<and> reduction_iterations cfg > 0 then [False, True] else [False]) in
      filter (\<lambda>r. \<not> (stat r = kOutputStationary \<and> \<not> dbc r))
        (concat (map (\<lambda>s. map (\<lambda>d. \<lparr>stat = s, dbc = d\<rparr>) depths) stats)))"

definition regime_best :: "'f cost_ops \<Rightarrow> 'f L0TileConfig \<Rightarrow> Regime \<Rightarrow> 'f Candidate option res" where
  "regime_best D cfg r =
     (let db = DeriveOperandDB (stat r) in
      EnumerateBest D cfg r (L0aBudget cfg db) (L0bBudget cfg db) (L0cBudget cfg r)
        (dbc r) (stat r \<noteq> kOutputStationary \<or> dbc r))"

definition try_regime :: "'f cost_ops \<Rightarrow> 'f L0TileConfig \<Rightarrow> Regime \<Rightarrow> 'f Candidate option \<Rightarrow> 'f Candidate option res" where
  "try_regime D cfg r best =
     (case CandidateL0cPhysicalElements (min_m cfg) (min_n cfg) cfg of
        None \<Rightarrow> Inr best
      | Some min_c_elements \<Rightarrow>
          if L0cBudget cfg r < min_c_elements then Inr best
          else res_bind (regime_best D cfg r) (\<lambda>cand. Inr
            (case (cand, best) of
               (None, _) \<Rightarrow> best
             | (Some c, None) \<Rightarrow> cand
             | (Some c, Some b) \<Rightarrow> if cost_cycles c < cost_cycles b then cand else best)))"

definition is_tiled :: "'f L0TileConfig \<Rightarrow> 'f Candidate option \<Rightarrow> bool" where
  "is_tiled cfg best =
     (case best of
        None \<Rightarrow> True
      | Some b \<Rightarrow> \<not> (cand_m b = cfg_M cfg \<and> cand_n b = cfg_N cfg \<and> cand_k b = cfg_K cfg))"

definition tile_result :: "'f cost_ops \<Rightarrow> 'f L0TileConfig \<Rightarrow> 'f Candidate \<Rightarrow> L0TileResult" where
  "tile_result D cfg b = \<lparr>res_m = cand_m b, res_n = cand_n b, res_k = cand_k b,
     estimated_traffic_bytes = traffic b, estimated_cost_cycles = cost_cycles b,
     padded_compute_volume = padded_compute b, stationarity = stat (regime b),
     os_holds_a = OSHoldsHoldA D (cand_m b) (cand_n b) cfg, double_buffer_c = dbc (regime b),
     perf_hint = (cfg_M cfg < min_m cfg \<or> cfg_N cfg < min_n cfg \<or> cfg_K cfg < min_k cfg)\<rparr>"

definition ChooseL0Tile :: "'f cost_ops \<Rightarrow> 'f L0TileConfig \<Rightarrow> L0TileResult res" where
  "ChooseL0Tile D cfg =
     res_bind (check ValueError (valid_config D cfg)) (\<lambda>_.
     res_bind (check ValueError (min_tile_fits cfg)) (\<lambda>_.
     res_bind (regime_best D cfg base_regime) (\<lambda>base.
     res_bind (if is_tiled cfg base \<and> \<not> independent_output_tiles cfg
               then fold_res (try_regime D cfg) (other_regimes cfg) base else Inr base) (\<lambda>best.
       case best of None \<Rightarrow> Inl ValueError | Some b \<Rightarrow> Inr (tile_result D cfg b)))))"

end
