(* ===== verification/Tile_Legal.thy ===== *)
theory Tile_Legal
  imports Tile_Chooser
begin

text \<open>
  The legal tiles of a matrix product, stated directly over rounded extents and bytes (\<open>tile_legal\<close>),
  and the proof that the loops of \<^verbatim>\<open>l0_tile_chooser.cpp\<close> enumerate them: the tiles the loops reach
  contain every legal one (\<open>legal_enumerated\<close>), and one iteration of the innermost loop skips exactly
  the others (\<open>consider_step\<close>). Within \<open>bounded_config\<close> no index, extent or stored size wraps.
\<close>

section \<open>Numbers\<close>

definition round_up :: "int \<Rightarrow> int \<Rightarrow> int" where
  "round_up x a = (x + a - 1) div a * a"

lemma round_up_bounds:
  assumes "0 < a"
  shows "x \<le> round_up x a" "round_up x a < x + a" "a dvd round_up x a"
proof -
  have "round_up x a = x + a - 1 - (x + a - 1) mod a"
    using div_mult_mod_eq [of "x + a - 1" a] unfolding round_up_def by linarith
  moreover have "0 \<le> (x + a - 1) mod a" "(x + a - 1) mod a < a" using assms by simp_all
  ultimately show "x \<le> round_up x a" "round_up x a < x + a" by linarith+
  show "a dvd round_up x a" by (simp add: round_up_def)
qed

lemma round_up_mono: "0 < a \<Longrightarrow> x \<le> y \<Longrightarrow> round_up x a \<le> round_up y a"
  by (simp add: round_up_def zdiv_mono1)

lemma round_up_le_multiple: "0 < a \<Longrightarrow> a dvd y \<Longrightarrow> round_up x a \<le> y \<longleftrightarrow> x \<le> y"
proof
  assume a: "0 < a" "a dvd y" and "x \<le> y"
  then have "round_up x a \<le> round_up y a" by (simp add: round_up_mono)
  also have "round_up y a = y"
  proof -
    obtain q where y: "y = a * q" using a(2) by (rule dvdE)
    have "(a * q + a - 1) div a = q" using a(1) by (intro floor_div_unique) (auto simp: algebra_simps)
    then show ?thesis by (simp add: round_up_def y)
  qed
  finally show "round_up x a \<le> y" .
qed (use round_up_bounds(1) [of a x] in linarith)

lemma AlignUp_pos: "0 < x \<Longrightarrow> 0 < a \<Longrightarrow> AlignUp x a = round_up x a"
  by (simp add: AlignUp_def round_up_def)

lemma AlignDown_pos: "0 \<le> x \<Longrightarrow> 0 < a \<Longrightarrow> AlignDown x a = x div a * a"
  by (simp add: AlignDown_def)

lemma le_round_down: "0 < a \<Longrightarrow> a dvd y \<Longrightarrow> y \<le> x div a * a \<longleftrightarrow> y \<le> (x::int)"
proof -
  assume a: "0 < a" "a dvd y"
  then obtain q where y: "y = a * q" by (elim dvdE)
  have "a * q \<le> x div a * a \<longleftrightarrow> q \<le> x div a" using a(1) by (simp add: mult.commute)
  also have "\<dots> \<longleftrightarrow> q * a \<le> x" by (rule le_div_iff_mult [OF a(1)])
  finally show ?thesis by (simp add: y mult.commute)
qed

lemma grid_iff: "0 < step \<Longrightarrow> x \<in> set (grid lo hi step) \<longleftrightarrow> lo \<le> x \<and> x \<le> hi \<and> step dvd x - lo"
proof (induction lo hi step rule: grid.induct)
  case (1 lo hi step)
  show ?case
  proof (cases "lo > hi")
    case True
    then show ?thesis by (simp add: grid.simps)
  next
    case False
    then have ih: "x \<in> set (grid (lo + step) hi step) \<longleftrightarrow> lo + step \<le> x \<and> x \<le> hi \<and> step dvd x - (lo + step)"
      using 1 by simp
    have "step dvd x - (lo + step) \<longleftrightarrow> step dvd x - lo"
      using dvd_add_triv_right_iff [of step "x - (lo + step)"] by simp
    moreover have "x = lo \<or> lo + step \<le> x" if "lo \<le> x" "step dvd x - lo"
      using that zdvd_imp_le [of step "x - lo"] by force
    ultimately show ?thesis using False "1.prems" ih by (auto simp: grid.simps [of lo])
  qed
qed

lemma grid_sorted: "sorted (grid lo hi step)"
proof (induction lo hi step rule: grid.induct)
  case (1 lo hi step)
  show ?case
  proof (cases "step \<le> 0 \<or> lo > hi")
    case False
    then show ?thesis using 1 by (auto simp: grid.simps [of lo] grid_iff)
  qed (auto simp: grid.simps)
qed

lemma takeWhile_antitone:
  "sorted xs \<Longrightarrow> (\<And>x y. x \<in> set xs \<Longrightarrow> y \<in> set xs \<Longrightarrow> x \<le> y \<Longrightarrow> P y \<Longrightarrow> P x) \<Longrightarrow>
   set (takeWhile P xs) = {x \<in> set xs. P x}"
proof (induction xs)
  case (Cons x xs)
  have "set (takeWhile P xs) = {y \<in> set xs. P y}"
    using Cons.prems by (intro Cons.IH) auto
  moreover have "\<not> P x \<Longrightarrow> y \<in> set xs \<Longrightarrow> \<not> P y" for y
    using Cons.prems(2) [of x y] Cons.prems(1) by auto
  ultimately show ?case by auto
qed simp

lemma to_i32_id: "0 \<le> x \<Longrightarrow> x < 2147483648 \<Longrightarrow> to_i32 x = x"
  by (simp add: to_i32_def)

section \<open>Physical extents\<close>

lemma L0cPhysicalElements_eq:
  assumes "0 < m" and "0 < n" and "0 < a" and "round_up m a \<le> UINT64_MAX"
  shows "L0cPhysicalElements m n a = (if round_up m a * n \<le> UINT64_MAX then Some (round_up m a * n) else None)"
proof -
  let ?i = "if m mod a = 0 then 0 else a - m mod a"
  have "m + ?i = round_up m a"
  proof -
    have r: "0 \<le> m mod a" "m mod a < a" using assms(3) by simp_all
    have e: "m = m div a * a + m mod a" by simp
    show ?thesis
    proof (cases "m mod a = 0")
      case True
      then have "a dvd m" by auto
      then have "round_up m a \<le> m" using round_up_le_multiple [OF assms(3)] by simp
      with round_up_bounds(1) [OF assms(3), of m] True show ?thesis by simp
    next
      case False
      have "(m + a - 1) div a = m div a + 1"
        by (rule floor_div_unique) (use r False mult_div_mod_eq [of a m] in \<open>simp add: distrib_left; linarith\<close>)+
      then have "round_up m a = m div a * a + a" by (simp add: round_up_def algebra_simps)
      then have "round_up m a = m + (a - m mod a)" using div_mult_mod_eq [of m a] by linarith
      with False show ?thesis by simp
    qed
  qed
  moreover have "\<not> m > UINT64_MAX - ?i" using calculation assms(4) by linarith
  moreover have "round_up m a > UINT64_MAX div n \<longleftrightarrow> \<not> round_up m a * n \<le> UINT64_MAX"
    using le_div_iff_mult [OF assms(2), of "round_up m a" UINT64_MAX] by linarith
  ultimately show ?thesis using assms(1-3) by (simp add: L0cPhysicalElements_def Let_def)
qed

lemma boxed_eq:
  assumes "0 < m" and "0 < a" and "m \<le> 4294967296" and "a \<le> 4294967296"
  shows "BoxedExtent m a = Some (round_up m a)" "boxed64 m a = Some (round_up m a)"
proof -
  have "round_up m a < 8589934592" using round_up_bounds(2) [OF assms(2), of m] assms(3,4) by linarith
  then show "BoxedExtent m a = Some (round_up m a)" "boxed64 m a = Some (round_up m a)"
    using assms(1,2) by (simp_all add: boxed64_def BoxedExtent_def L0cPhysicalElements_eq limits_defs)
qed

section \<open>Legal tiles\<close>

text \<open>
  The configurations considered: validated, with dimensions, minima and alignments up to \<open>2 ^ 30\<close>
  and capacities that fit \<open>uint32_t\<close>, as their type demands.
\<close>

definition bounded_config :: "'f cost_ops \<Rightarrow> 'f L0TileConfig \<Rightarrow> bool" where
  "bounded_config D cfg \<longleftrightarrow> valid_config D cfg \<and>
     (\<forall>x\<in>{cfg_M cfg, cfg_N cfg, cfg_K cfg, min_m cfg, min_n cfg, min_k cfg, align_m cfg, align_n cfg, align_k cfg,
       l0c_align_m cfg, box_align_m cfg, box_align_n cfg, reduction_pipeline_stages cfg}. x \<le> 1073741824) \<and>
     (\<forall>x\<in>{l0a_bytes cfg, l0b_bytes cfg, l0c_bytes cfg}. x < 4294967296)"

text \<open>The bound of an axis: the extent, or with padding the extent rounded up.\<close>

definition axis_top :: "'f L0TileConfig \<Rightarrow> int \<Rightarrow> int \<Rightarrow> int" where
  "axis_top cfg extent alignment = (if allow_padding cfg then round_up extent alignment else extent)"

text \<open>How many reduction elements of an operand are stored at a time: the pipeline stages and the peeled tail.\<close>

definition storage_depth :: "'f L0TileConfig \<Rightarrow> bool \<Rightarrow> int \<Rightarrow> int" where
  "storage_depth cfg db k =
     (let stages = reduction_pipeline_stages cfg; copies = (if db then 2 else 1) in
      (if k < cfg_K cfg then copies * stages else max copies stages) * k +
      (if stages > 1 \<and> cfg_K cfg div k \<ge> 2 then cfg_K cfg mod k else 0) * stages)"

definition tile_fits :: "'f L0TileConfig \<Rightarrow> Regime \<Rightarrow> int \<Rightarrow> int \<Rightarrow> int \<Rightarrow> bool" where
  "tile_fits cfg r m n k \<longleftrightarrow>
     (let db = DeriveOperandDB (stat r);
          boxed_m = round_up m (box_align_m cfg); boxed_n = round_up n (box_align_n cfg) in
      boxed_m * storage_depth cfg (db_a db) k * bytes_a cfg \<le> l0a_bytes cfg \<and>
      boxed_n * storage_depth cfg (db_b db) k * bytes_b cfg \<le> l0b_bytes cfg \<and>
      round_up boxed_m (l0c_align_m cfg) * boxed_n * (bytes_c cfg * (if dbc r then 2 else 1)) \<le> l0c_bytes cfg)"

definition n_allowed :: "'f cost_ops \<Rightarrow> 'f L0TileConfig \<Rightarrow> Regime \<Rightarrow> int \<Rightarrow> int \<Rightarrow> int \<Rightarrow> bool" where
  "n_allowed D cfg r m n k \<longleftrightarrow>
     (max_n cfg > 0 \<longrightarrow> n \<le> max_n cfg) \<and>
     (k = cfg_K cfg \<and> (m \<noteq> cfg_M cfg \<or> n \<noteq> cfg_N cfg) \<longrightarrow>
        (max_n_pipelined cfg > 0 \<and> stat r \<noteq> kBStationary \<longrightarrow> n \<le> max_n_pipelined cfg) \<and>
        (max_n_nested_pipelined cfg > 0 \<and> stat r = kOutputStationary \<and> OSHoldsHoldA D m n cfg \<longrightarrow>
          n \<le> max_n_nested_pipelined cfg))"

definition k_allowed :: "'f L0TileConfig \<Rightarrow> int \<Rightarrow> bool" where
  "k_allowed cfg k \<longleftrightarrow> align_k cfg dvd k \<and> min_k cfg \<le> k \<and>
     k \<le> axis_top cfg (if allow_padding cfg then max (cfg_K cfg) (min_k cfg) else cfg_K cfg) (align_k cfg) \<and>
     (allow_padding cfg \<or> (allow_k_boundary cfg \<and> align_k cfg dvd cfg_K cfg) \<or> k dvd cfg_K cfg)"

definition tile_legal :: "'f cost_ops \<Rightarrow> 'f L0TileConfig \<Rightarrow> Regime \<Rightarrow> int \<Rightarrow> int \<Rightarrow> int \<Rightarrow> bool" where
  "tile_legal D cfg r m n k \<longleftrightarrow>
     (min_m cfg \<le> m \<and> m \<le> axis_top cfg (cfg_M cfg) (align_m cfg) \<and> align_m cfg dvd m - min_m cfg) \<and>
     (min_n cfg \<le> n \<and> n \<le> axis_top cfg (cfg_N cfg) (align_n cfg) \<and> align_n cfg dvd n - min_n cfg) \<and>
     k_allowed cfg k \<and> n_allowed D cfg r m n k \<and> tile_fits cfg r m n k \<and>
     (stat r \<noteq> kOutputStationary \<or> dbc r \<longrightarrow> k = cfg_K cfg) \<and>
     (dbc r \<longrightarrow> 2 \<le> PipelinedInnerFullTiles D m n cfg (stat r))"

section \<open>The enumeration is exact\<close>

lemma config_facts:
  assumes "bounded_config D cfg"
  shows "0 < cfg_M cfg" "0 < cfg_N cfg" "0 < cfg_K cfg" "0 < min_m cfg" "0 < min_n cfg" "0 < min_k cfg"
    "0 < align_m cfg" "0 < align_n cfg" "0 < align_k cfg" "0 < l0c_align_m cfg" "0 < box_align_m cfg"
    "0 < box_align_n cfg" "0 < reduction_pipeline_stages cfg" "0 < bytes_a cfg" "0 < bytes_b cfg" "0 < bytes_c cfg"
    "0 < l0a_bytes cfg" "0 < l0b_bytes cfg" "0 < l0c_bytes cfg"
    "cfg_M cfg \<le> 1073741824" "cfg_N cfg \<le> 1073741824" "cfg_K cfg \<le> 1073741824" "min_m cfg \<le> 1073741824"
    "min_n cfg \<le> 1073741824" "min_k cfg \<le> 1073741824" "align_m cfg \<le> 1073741824" "align_n cfg \<le> 1073741824"
    "align_k cfg \<le> 1073741824" "l0c_align_m cfg \<le> 1073741824" "box_align_m cfg \<le> 1073741824"
    "box_align_n cfg \<le> 1073741824" "reduction_pipeline_stages cfg \<le> 1073741824"
    "l0a_bytes cfg < 4294967296" "l0b_bytes cfg < 4294967296" "l0c_bytes cfg < 4294967296"
  using assms by (simp_all add: bounded_config_def valid_config_def)

lemma axis_top_small:
  assumes "0 < a" and "x \<le> 1073741824" and "a \<le> 1073741824"
  shows "axis_top cfg x a < 2147483648"
  using round_up_bounds(2) [OF assms(1), of x] assms(2,3) by (simp add: axis_top_def)

lemma budgets:
  assumes "bounded_config D cfg"
  shows "L0aBudget cfg db = l0a_bytes cfg div (bytes_a cfg * (if db_a db then 2 else 1))"
    "L0bBudget cfg db = l0b_bytes cfg div (bytes_b cfg * (if db_b db then 2 else 1))"
    "L0cBudget cfg r = l0c_bytes cfg div (bytes_c cfg * (if dbc r then 2 else 1))"
    "0 \<le> L0aBudget cfg db" "0 \<le> L0bBudget cfg db" "0 \<le> L0cBudget cfg r"
proof -
  note c = config_facts(14-19) [OF assms]
  show "L0aBudget cfg db = l0a_bytes cfg div (bytes_a cfg * (if db_a db then 2 else 1))"
    "L0bBudget cfg db = l0b_bytes cfg div (bytes_b cfg * (if db_b db then 2 else 1))"
    "L0cBudget cfg r = l0c_bytes cfg div (bytes_c cfg * (if dbc r then 2 else 1))"
    using c by (simp_all add: L0aBudget_def L0bBudget_def L0cBudget_def)
  with c show "0 \<le> L0aBudget cfg db" "0 \<le> L0bBudget cfg db" "0 \<le> L0cBudget cfg r"
    by (simp_all add: pos_imp_zdiv_nonneg_iff)
qed

lemma physical_rows_eq:
  assumes "bounded_config D cfg" and "0 < m" and "m < 2147483648"
  shows "physical_rows cfg m = Some (round_up (round_up m (box_align_m cfg)) (l0c_align_m cfg))"
    "rows_fit cfg C0 m \<longleftrightarrow>
       round_up (round_up m (box_align_m cfg)) (l0c_align_m cfg) \<le> cdiv C0 (round_up (min_n cfg) (box_align_n cfg))"
proof -
  note c = config_facts [OF assms(1)]
  let ?b = "round_up m (box_align_m cfg)"
  have b: "0 < ?b" "?b < 4294967296"
    using round_up_bounds(1,2) [OF c(11), of m] assms(2,3) c(30) by linarith+
  then have r: "round_up ?b (l0c_align_m cfg) < 8589934592"
    using round_up_bounds(2) [OF c(10), of ?b] c(29) by linarith
  have bm: "boxed64 m (box_align_m cfg) = Some ?b" and bn: "boxed64 (min_n cfg) (box_align_n cfg) = Some (round_up (min_n cfg) (box_align_n cfg))"
    using assms(2,3) c by (auto intro!: boxed_eq)
  have "L0cPhysicalElements ?b 1 (l0c_align_m cfg) = Some (round_up ?b (l0c_align_m cfg))"
    using L0cPhysicalElements_eq [OF b(1) _ c(10), of 1] r by (simp add: limits_defs)
  then show p: "physical_rows cfg m = Some (round_up ?b (l0c_align_m cfg))"
    using bm bn r by (simp add: physical_rows_def limits_defs)
  show "rows_fit cfg C0 m \<longleftrightarrow> round_up ?b (l0c_align_m cfg) \<le> cdiv C0 (round_up (min_n cfg) (box_align_n cfg))"
    by (auto simp: rows_fit_def p bn)
qed

lemma le_cdiv_iff: "0 \<le> A \<Longrightarrow> 0 < b \<Longrightarrow> k \<le> cdiv A b \<longleftrightarrow> b * k \<le> A"
  using le_div_iff_mult [of b k A] by (simp add: mult.commute)

lemma EnumerateLegalKs_iff:
  assumes cfg: "bounded_config D cfg" and "0 < m" "m < 2147483648" "0 < n" "n < 2147483648" "0 \<le> A0" "0 \<le> B0"
  shows "k \<in> set (EnumerateLegalKs m n cfg A0 B0) \<longleftrightarrow>
    k_allowed cfg k \<and> round_up m (box_align_m cfg) * k \<le> A0 \<and> round_up n (box_align_n cfg) * k \<le> B0"
proof -
  note c = config_facts [OF cfg]
  let ?bm = "round_up m (box_align_m cfg)" and ?bn = "round_up n (box_align_n cfg)"
  define cap where "cap = min (cdiv A0 ?bm) (cdiv B0 ?bn)"
  define top where "top = axis_top cfg (if allow_padding cfg then max (cfg_K cfg) (min_k cfg) else cfg_K cfg) (align_k cfg)"
  have pos: "0 < ?bm" "0 < ?bn"
    using round_up_bounds(1) [OF c(11), of m] round_up_bounds(1) [OF c(12), of n] assms(2,4) by linarith+
  have bm: "boxed64 m (box_align_m cfg) = Some ?bm" "boxed64 n (box_align_n cfg) = Some ?bn"
    using assms(2-5) c by (auto intro!: boxed_eq)
  have top': "(if allow_padding cfg then AlignUp (max (cfg_K cfg) (min_k cfg)) (align_k cfg) else cfg_K cfg) = top"
    using c by (simp add: top_def axis_top_def AlignUp_pos)
  have small: "top < 2147483648" unfolding top_def by (rule axis_top_small) (use c in auto)
  have top_pos: "0 < top"
    using c round_up_bounds(1) [OF c(9), of "max (cfg_K cfg) (min_k cfg)"] by (simp add: top_def axis_top_def)
  have cap0: "0 \<le> cap" using assms(6,7) pos by (simp add: cap_def pos_imp_zdiv_nonneg_iff)
  have lo: "AlignUp (min_k cfg) (align_k cfg) = round_up (min_k cfg) (align_k cfg)"
    using c by (simp add: AlignUp_pos)
  have hi: "AlignDown (min cap top) (align_k cfg) = min cap top div align_k cfg * align_k cfg"
    using cap0 top_pos c(9) by (intro AlignDown_pos) auto
  define keep where "keep k \<longleftrightarrow> allow_padding cfg \<or> (allow_k_boundary cfg \<and> align_k cfg dvd cfg_K cfg) \<or> k dvd cfg_K cfg" for k
  have ks: "EnumerateLegalKs m n cfg A0 B0 = map to_i32 (filter keep
      (grid (round_up (min_k cfg) (align_k cfg)) (min cap top div align_k cfg * align_k cfg) (align_k cfg)))"
    unfolding EnumerateLegalKs_def bm Let_def prod.case option.case top' lo cap_def [symmetric] hi
    by (auto simp: keep_def cmod_eq_0_iff intro!: arg_cong [where f = "map to_i32"] filter_cong)
  have in_grid: "j \<in> set (grid (round_up (min_k cfg) (align_k cfg)) (min cap top div align_k cfg * align_k cfg) (align_k cfg))
      \<longleftrightarrow> align_k cfg dvd j \<and> min_k cfg \<le> j \<and> j \<le> cap \<and> j \<le> top" for j
  proof -
    have d: "align_k cfg dvd j - round_up (min_k cfg) (align_k cfg) \<longleftrightarrow> align_k cfg dvd j"
      using round_up_bounds(3) [OF c(9)] by (metis dvd_diff_left_iff dvd_diff_commute)
    then show ?thesis
      unfolding grid_iff [OF c(9)] d
      using round_up_le_multiple [OF c(9)] le_round_down [OF c(9)] by (auto simp del: min_less_iff_conj)
  qed
  have caps: "j \<le> cap \<longleftrightarrow> ?bm * j \<le> A0 \<and> ?bn * j \<le> B0" for j
    unfolding cap_def min.bounded_iff le_cdiv_iff [OF assms(6) pos(1)] le_cdiv_iff [OF assms(7) pos(2)] by simp
  have id: "to_i32 j = j" if "min_k cfg \<le> j" "j \<le> top" for j
    using that small c(6) by (intro to_i32_id) auto
  have "k \<in> set (EnumerateLegalKs m n cfg A0 B0) \<longleftrightarrow>
      (\<exists>j. align_k cfg dvd j \<and> min_k cfg \<le> j \<and> j \<le> cap \<and> j \<le> top \<and> keep j \<and> k = to_i32 j)"
    unfolding ks by (auto simp: in_grid)
  also have "\<dots> \<longleftrightarrow> align_k cfg dvd k \<and> min_k cfg \<le> k \<and> k \<le> cap \<and> k \<le> top \<and> keep k"
    using id by auto
  finally show ?thesis by (auto simp: k_allowed_def top_def [symmetric] keep_def caps)
qed

definition axis_bound :: "'f L0TileConfig \<Rightarrow> int" where
  "axis_bound cfg =
     (if max_n cfg > 0 then min (axis_top cfg (cfg_N cfg) (align_n cfg)) (max_n cfg)
      else axis_top cfg (cfg_N cfg) (align_n cfg))"

lemma tiles_iff:
  assumes cfg: "bounded_config D cfg" and "0 \<le> A0" "0 \<le> B0" "0 \<le> C0"
  shows "(m, n, k) \<in> set (tiles D cfg r A0 B0 C0 pair) \<longleftrightarrow>
    (min_m cfg \<le> m \<and> m \<le> axis_top cfg (cfg_M cfg) (align_m cfg) \<and> align_m cfg dvd m - min_m cfg) \<and>
    (min_n cfg \<le> n \<and> n \<le> axis_bound cfg \<and> align_n cfg dvd n - min_n cfg) \<and>
    round_up (round_up m (box_align_m cfg)) (l0c_align_m cfg) * round_up (min_n cfg) (box_align_n cfg) \<le> C0 \<and>
    round_up (round_up m (box_align_m cfg)) (l0c_align_m cfg) * n \<le> C0 \<and>
    (pair \<longrightarrow> 2 \<le> PipelinedInnerFullTiles D m n cfg (stat r)) \<and>
    k_allowed cfg k \<and> round_up m (box_align_m cfg) * k \<le> A0 \<and> round_up n (box_align_n cfg) * k \<le> B0"
proof -
  note c = config_facts [OF cfg]
  let ?rows = "\<lambda>m. round_up (round_up m (box_align_m cfg)) (l0c_align_m cfg)"
  let ?top = "axis_top cfg (cfg_M cfg) (align_m cfg)"
  have tops: "(if allow_padding cfg then AlignUp (cfg_M cfg) (align_m cfg) else cfg_M cfg) = ?top"
    "(if max_n cfg > 0 then min (if allow_padding cfg then AlignUp (cfg_N cfg) (align_n cfg) else cfg_N cfg) (max_n cfg)
      else (if allow_padding cfg then AlignUp (cfg_N cfg) (align_n cfg) else cfg_N cfg)) = axis_bound cfg"
    using c by (simp_all add: axis_top_def axis_bound_def AlignUp_pos)
  have m_small: "0 < m \<and> m < 2147483648" if "min_m cfg \<le> m" "m \<le> ?top" for m
    using that axis_top_small [OF c(7,20,26), of cfg] c(4) by linarith
  have n_small: "0 < n \<and> n < 2147483648" if "min_n cfg \<le> n" "n \<le> axis_bound cfg" for n
    using that axis_top_small [OF c(8,21,27), of cfg] c(5) by (simp add: axis_bound_def split: if_splits)
  have bn: "0 < round_up (min_n cfg) (box_align_n cfg)"
    using round_up_bounds(1) [OF c(12), of "min_n cfg"] c(5) by linarith
  have rows: "rows_fit cfg C0 m \<longleftrightarrow> ?rows m * round_up (min_n cfg) (box_align_n cfg) \<le> C0"
    "physical_rows cfg m = Some (?rows m)" "0 < ?rows m" if "min_m cfg \<le> m" "m \<le> ?top" for m
  proof -
    note p = physical_rows_eq [OF cfg, of m]
    show "rows_fit cfg C0 m \<longleftrightarrow> ?rows m * round_up (min_n cfg) (box_align_n cfg) \<le> C0"
      using p(2) m_small [OF that] le_cdiv_iff [OF assms(4) bn] by (simp add: mult.commute)
    show "physical_rows cfg m = Some (?rows m)" using p(1) m_small [OF that] by simp
    show "0 < ?rows m"
      using round_up_bounds(1) [OF c(11), of m] round_up_bounds(1) [OF c(10), of "round_up m (box_align_m cfg)"]
        m_small [OF that] by linarith
  qed
  have ms: "m \<in> set (takeWhile (rows_fit cfg C0) (grid (min_m cfg) ?top (align_m cfg))) \<longleftrightarrow>
      (min_m cfg \<le> m \<and> m \<le> ?top \<and> align_m cfg dvd m - min_m cfg) \<and>
      ?rows m * round_up (min_n cfg) (box_align_n cfg) \<le> C0" for m
  proof -
    have "rows_fit cfg C0 x" if "x \<in> set (grid (min_m cfg) ?top (align_m cfg))"
      "y \<in> set (grid (min_m cfg) ?top (align_m cfg))" "x \<le> y" "rows_fit cfg C0 y" for x y
    proof -
      have "?rows x \<le> ?rows y" using that(3) by (intro round_up_mono c)
      then have "?rows x * round_up (min_n cfg) (box_align_n cfg) \<le> ?rows y * round_up (min_n cfg) (box_align_n cfg)"
        using bn by simp
      with that rows(1) show ?thesis by (auto simp: grid_iff [OF c(7)])
    qed
    then have "set (takeWhile (rows_fit cfg C0) (grid (min_m cfg) ?top (align_m cfg))) =
        {x \<in> set (grid (min_m cfg) ?top (align_m cfg)). rows_fit cfg C0 x}"
      by (intro takeWhile_antitone grid_sorted)
    then show ?thesis using rows(1) by (auto simp: grid_iff [OF c(7)])
  qed
  have "(m, n, k) \<in> set (tiles_of_m D cfg r A0 B0 C0 pair (axis_bound cfg) m) \<longleftrightarrow>
      (min_n cfg \<le> n \<and> n \<le> axis_bound cfg \<and> align_n cfg dvd n - min_n cfg) \<and> ?rows m * n \<le> C0 \<and>
      (pair \<longrightarrow> 2 \<le> PipelinedInnerFullTiles D m n cfg (stat r)) \<and>
      k_allowed cfg k \<and> round_up m (box_align_m cfg) * k \<le> A0 \<and> round_up n (box_align_n cfg) * k \<le> B0"
    if m: "min_m cfg \<le> m" "m \<le> ?top"
  proof -
    have "n \<le> cdiv C0 (?rows m) \<longleftrightarrow> ?rows m * n \<le> C0" for n
      using le_cdiv_iff [OF assms(4) rows(3) [OF m]] .
    then have ns: "n \<in> set (grid (min_n cfg) (min (axis_bound cfg) (cdiv C0 (?rows m))) (align_n cfg)) \<longleftrightarrow>
        (min_n cfg \<le> n \<and> n \<le> axis_bound cfg \<and> align_n cfg dvd n - min_n cfg) \<and> ?rows m * n \<le> C0" for n
      unfolding grid_iff [OF c(8)] min.bounded_iff by blast
    show ?thesis
    proof (cases "min_n cfg \<le> n \<and> n \<le> axis_bound cfg")
      case True
      have i: "to_i32 m = m" "to_i32 n = n" using m_small [OF m] n_small [of n] True by (simp_all add: to_i32_id)
      have k: "k \<in> set (EnumerateLegalKs m n cfg A0 B0) \<longleftrightarrow>
          k_allowed cfg k \<and> round_up m (box_align_m cfg) * k \<le> A0 \<and> round_up n (box_align_n cfg) * k \<le> B0"
        using m_small [OF m] n_small True assms(2,3) by (intro EnumerateLegalKs_iff [OF cfg]) auto
      show ?thesis
        unfolding tiles_of_m_def rows(2) [OF m] option.case
        using ns [of n] True k by (auto simp: i not_less)
    next
      case False
      then show ?thesis
        unfolding tiles_of_m_def rows(2) [OF m] option.case using ns [of n] by auto
    qed
  qed
  moreover have "(m, n, k) \<in> set (tiles_of_m D cfg r A0 B0 C0 pair (axis_bound cfg) x) \<Longrightarrow> x = m" for x
    by (auto simp: tiles_of_m_def split: option.splits)
  ultimately show ?thesis
    unfolding tiles_def Let_def tops using ms by auto
qed

section \<open>The step of the enumeration\<close>

definition regime_tiles :: "'f cost_ops \<Rightarrow> 'f L0TileConfig \<Rightarrow> Regime \<Rightarrow> (int \<times> int \<times> int) list" where
  "regime_tiles D cfg r =
     (let db = DeriveOperandDB (stat r) in
      tiles D cfg r (L0aBudget cfg db) (L0bBudget cfg db) (L0cBudget cfg r) (dbc r))"

definition keep_better :: "'f cost_ops \<Rightarrow> 'f L0TileConfig \<Rightarrow> 'f Candidate option \<Rightarrow> 'f Candidate \<Rightarrow> 'f Candidate option" where
  "keep_better D cfg best c =
     (case best of None \<Rightarrow> Some c | Some b \<Rightarrow> if Better D c b cfg then Some c else Some b)"

lemma stored_k_eq:
  assumes cfg: "bounded_config D cfg" and k: "0 < k" "k < 2147483648"
  shows "stored_k cfg db k = Inr (storage_depth cfg db k)" "(if db then 2 else 1) * k \<le> storage_depth cfg db k"
proof -
  note c = config_facts [OF cfg]
  let ?s = "reduction_pipeline_stages cfg"
  define depth where "depth = (if k < cfg_K cfg then (if db then 2 else 1) * ?s else max (if db then 2 else 1) ?s)"
  define tail where "tail = (if ?s > 1 \<and> cfg_K cfg div k \<ge> 2 then cfg_K cfg mod k else 0)"
  have depth: "(if db then 2 else 1) \<le> depth" "0 < depth" "depth \<le> 2147483648" using c(13,32) by (auto simp: depth_def)
  have tail: "0 \<le> tail" "tail \<le> 1073741824"
    using k(1) c(3,22) by (auto simp: tail_def intro: order_trans [OF zmod_le_nonneg_dividend])
  have "depth * k \<le> 2147483648 * 2147483648" using depth(2,3) k by (intro mult_mono) auto
  moreover have "tail * ?s \<le> 1073741824 * 1073741824" using tail c(13,32) by (intro mult_mono) auto
  moreover have "0 \<le> depth * k" "0 \<le> tail * ?s" using depth(2) tail(1) k(1) c(13) by simp_all
  ultimately have "is_i64 (depth * k)" "is_i64 (tail * ?s)" "is_i64 (depth * k + tail * ?s)"
    by (simp_all add: is_i64_alt)
  moreover have "storage_depth cfg db k = depth * k + tail * ?s"
    by (simp add: storage_depth_def depth_def tail_def Let_def)
  moreover have "stored_k cfg db k = res_bind (i64 (depth * k)) (\<lambda>b. res_bind (i64 (tail * ?s)) (\<lambda>x. i64 (b + x)))"
    using k(1) c(3) by (simp add: stored_k_def Let_def depth_def tail_def)
  ultimately show "stored_k cfg db k = Inr (storage_depth cfg db k)" by simp
  have "(if db then 2 else 1) * k \<le> depth * k" using depth(1) k(1) by (intro mult_right_mono) auto
  also have "\<dots> \<le> storage_depth cfg db k"
    using tail(1) c(13) by (simp add: \<open>storage_depth cfg db k = depth * k + tail * ?s\<close>)
  finally show "(if db then 2 else 1) * k \<le> storage_depth cfg db k" .
qed

lemma operand_fits:
  assumes "0 \<le> cap" and "0 < bytes" and "0 < stored"
  shows "\<not> boxed > cdiv (cdiv cap bytes) stored \<longleftrightarrow> boxed * stored * bytes \<le> cap"
proof -
  have "0 \<le> cdiv cap bytes" using assms(1,2) by (simp add: pos_imp_zdiv_nonneg_iff)
  then have "boxed \<le> cdiv (cdiv cap bytes) stored \<longleftrightarrow> stored * boxed \<le> cdiv cap bytes" by (rule le_cdiv_iff [OF _ assms(3)])
  also have "\<dots> \<longleftrightarrow> bytes * (stored * boxed) \<le> cap" by (rule le_cdiv_iff [OF assms(1,2)])
  finally show ?thesis by (simp add: ac_simps not_less)
qed

lemma within_budget:
  fixes boxed k :: int
  assumes "0 \<le> cap" and "0 < bytes" and "0 < copies" and "copies * k \<le> stored" and "0 \<le> boxed"
    and "boxed * stored * bytes \<le> cap"
  shows "boxed * k \<le> cap div (bytes * copies)"
proof -
  have "boxed * (copies * k) * bytes \<le> boxed * stored * bytes"
    by (intro mult_right_mono mult_left_mono) (use assms(2,4,5) in auto)
  then have "boxed * k * (bytes * copies) \<le> cap" using assms(6) by (simp add: ac_simps)
  then show ?thesis using le_div_iff_mult [of "bytes * copies" "boxed * k" cap] assms(2,3) by simp
qed

lemma div_le_self: "0 \<le> x \<Longrightarrow> 0 < y \<Longrightarrow> x div y \<le> (x::int)"
proof -
  assume x: "0 \<le> x" and y: "0 < y"
  have "x + 1 \<le> (x + 1) * y" using mult_left_mono [of 1 y "x + 1"] x y by simp
  then show ?thesis using div_less_iff_mult [OF y, of x "x + 1"] by linarith
qed

lemma accumulator_fits:
  assumes cfg: "bounded_config D cfg" and "0 < m" "m < 2147483648" "0 < n" "n < 2147483648"
  shows "(case CandidateL0cPhysicalElements m n cfg of None \<Rightarrow> False | Some e \<Rightarrow> \<not> e > L0cBudget cfg r) \<longleftrightarrow>
    round_up (round_up m (box_align_m cfg)) (l0c_align_m cfg) * round_up n (box_align_n cfg) \<le> L0cBudget cfg r"
proof -
  note c = config_facts [OF cfg]
  let ?bm = "round_up m (box_align_m cfg)" and ?bn = "round_up n (box_align_n cfg)"
  have b: "0 < ?bm" "?bm < 4294967296" "0 < ?bn" "?bn < 4294967296"
    using round_up_bounds(1,2) [OF c(11), of m] round_up_bounds(1,2) [OF c(12), of n] assms(2-5) c(30,31) by linarith+
  then have "round_up ?bm (l0c_align_m cfg) < 8589934592"
    using round_up_bounds(2) [OF c(10), of ?bm] c(29) by linarith
  then have e: "L0cPhysicalElements ?bm ?bn (l0c_align_m cfg) =
      (if round_up ?bm (l0c_align_m cfg) * ?bn \<le> UINT64_MAX then Some (round_up ?bm (l0c_align_m cfg) * ?bn) else None)"
    using b by (intro L0cPhysicalElements_eq c) (auto simp: limits_defs)
  have "boxed64 m (box_align_m cfg) = Some ?bm" "boxed64 n (box_align_n cfg) = Some ?bn"
    using assms(2-5) c by (auto intro!: boxed_eq)
  then have "CandidateL0cPhysicalElements m n cfg = L0cPhysicalElements ?bm ?bn (l0c_align_m cfg)"
    by (simp add: CandidateL0cPhysicalElements_def)
  moreover have "L0cBudget cfg r \<le> UINT64_MAX"
  proof -
    have "L0cBudget cfg r \<le> l0c_bytes cfg"
      unfolding budgets(3) [OF cfg] using c(16,19) by (intro div_le_self) auto
    then show ?thesis using c(35) by (simp add: limits_defs)
  qed
  ultimately show ?thesis by (auto simp: e not_less)
qed

lemma legal_enumerated:
  assumes cfg: "bounded_config D cfg" and l: "tile_legal D cfg r m n k"
  shows "(m, n, k) \<in> set (regime_tiles D cfg r)"
proof -
  note c = config_facts [OF cfg]
  let ?db = "DeriveOperandDB (stat r)"
  let ?bm = "round_up m (box_align_m cfg)" and ?bn = "round_up n (box_align_n cfg)"
  let ?C0 = "L0cBudget cfg r"
  have m: "min_m cfg \<le> m" "m \<le> axis_top cfg (cfg_M cfg) (align_m cfg)" and k: "k_allowed cfg k"
    and n: "min_n cfg \<le> n" "n \<le> axis_top cfg (cfg_N cfg) (align_n cfg)" "n_allowed D cfg r m n k"
    and fit: "tile_fits cfg r m n k"
    using l by (auto simp: tile_legal_def)
  have k0: "0 < k" "k < 2147483648"
  proof -
    show "0 < k" using k c(6) by (simp add: k_allowed_def)
    have "axis_top cfg (if allow_padding cfg then max (cfg_K cfg) (min_k cfg) else cfg_K cfg) (align_k cfg) < 2147483648"
      by (rule axis_top_small) (use c in auto)
    then show "k < 2147483648" using k by (simp add: k_allowed_def)
  qed
  have pos: "0 < m" "0 < n" using m n c by linarith+
  have b: "0 < ?bm" "n \<le> ?bn" "0 < ?bn" "0 < round_up ?bm (l0c_align_m cfg)"
    using round_up_bounds(1) [OF c(11), of m] round_up_bounds(1) [OF c(12), of n]
      round_up_bounds(1) [OF c(10), of ?bm] pos by linarith+
  have s: "(if db then 2 else 1) * k \<le> storage_depth cfg db k" for db
    by (rule stored_k_eq(2) [OF cfg k0])
  have "?bm * k \<le> L0aBudget cfg ?db" unfolding budgets(1) [OF cfg]
    by (rule within_budget [OF _ _ _ s [of "db_a ?db"]]) (use fit b c(14-18) in \<open>simp_all add: tile_fits_def Let_def\<close>)
  moreover have "?bn * k \<le> L0bBudget cfg ?db" unfolding budgets(2) [OF cfg]
    by (rule within_budget [OF _ _ _ s [of "db_b ?db"]]) (use fit b c(14-18) in \<open>simp_all add: tile_fits_def Let_def\<close>)
  moreover have acc: "round_up ?bm (l0c_align_m cfg) * ?bn \<le> ?C0"
    unfolding budgets(3) [OF cfg]
    using fit le_div_iff_mult [of "bytes_c cfg * (if dbc r then 2 else 1)" "round_up ?bm (l0c_align_m cfg) * ?bn" "l0c_bytes cfg"] c(16)
    by (auto simp: tile_fits_def Let_def)
  moreover have "round_up ?bm (l0c_align_m cfg) * n \<le> round_up ?bm (l0c_align_m cfg) * ?bn"
    using b by (intro mult_left_mono) auto
  moreover have "round_up ?bm (l0c_align_m cfg) * round_up (min_n cfg) (box_align_n cfg) \<le> round_up ?bm (l0c_align_m cfg) * ?bn"
    using b(4) round_up_mono [OF c(12) n(1)] by (intro mult_left_mono) auto
  moreover have "n \<le> axis_bound cfg" using n by (auto simp: axis_bound_def n_allowed_def)
  ultimately show ?thesis
    using l m n k unfolding regime_tiles_def Let_def tiles_iff [OF cfg budgets(4) [OF cfg] budgets(5) [OF cfg] budgets(6) [OF cfg]]
    by (auto simp: tile_legal_def)
qed

text \<open>One step keeps the better of a legal tile's candidate and the best so far, and skips any other tile.\<close>

lemma consider_step:
  assumes cfg: "bounded_config D cfg" and t: "(m, n, k) \<in> set (regime_tiles D cfg r)"
  shows "consider_tile D cfg r (L0cBudget cfg r) (stat r \<noteq> kOutputStationary \<or> dbc r) (m, n, k) best =
    (if tile_legal D cfg r m n k
     then res_bind (score_tile D m n k cfg r) (\<lambda>c. Inr (keep_better D cfg best c)) else Inr best)"
proof -
  note c = config_facts [OF cfg]
  let ?db = "DeriveOperandDB (stat r)" and ?full = "stat r \<noteq> kOutputStationary \<or> dbc r"
  let ?bm = "round_up m (box_align_m cfg)" and ?bn = "round_up n (box_align_n cfg)"
  let ?C0 = "L0cBudget cfg r"
  have m: "min_m cfg \<le> m" "m \<le> axis_top cfg (cfg_M cfg) (align_m cfg)" "align_m cfg dvd m - min_m cfg"
    and n: "min_n cfg \<le> n" "n \<le> axis_bound cfg" "align_n cfg dvd n - min_n cfg"
    and pair: "dbc r \<longrightarrow> 2 \<le> PipelinedInnerFullTiles D m n cfg (stat r)" and k: "k_allowed cfg k"
    using t unfolding regime_tiles_def Let_def tiles_iff [OF cfg budgets(4) [OF cfg] budgets(5) [OF cfg] budgets(6) [OF cfg]] by blast+
  have n_top: "n \<le> axis_top cfg (cfg_N cfg) (align_n cfg)" "max_n cfg > 0 \<longrightarrow> n \<le> max_n cfg"
    using n(2) by (auto simp: axis_bound_def split: if_splits)
  have small: "m < 2147483648" "n < 2147483648" "0 < m" "0 < n"
    using m n n_top axis_top_small [OF c(7,20,26), of cfg] axis_top_small [OF c(8,21,27), of cfg] c(4,5) by linarith+
  have k0: "0 < k" "k < 2147483648"
  proof -
    show "0 < k" using k c(6) by (simp add: k_allowed_def)
    have "axis_top cfg (if allow_padding cfg then max (cfg_K cfg) (min_k cfg) else cfg_K cfg) (align_k cfg) < 2147483648"
      by (rule axis_top_small) (use c in auto)
    then show "k < 2147483648" using k by (simp add: k_allowed_def)
  qed
  have within: "\<not> (\<not> allow_padding cfg \<and> (m > cfg_M cfg \<or> n > cfg_N cfg))"
    using m(2) n_top(1) by (auto simp: axis_top_def)
  define operands where "operands \<longleftrightarrow> ?bm * storage_depth cfg (db_a ?db) k * bytes_a cfg \<le> l0a_bytes cfg \<and>
    ?bn * storage_depth cfg (db_b ?db) k * bytes_b cfg \<le> l0b_bytes cfg"
  define acc where "acc \<longleftrightarrow> (case CandidateL0cPhysicalElements m n cfg of None \<Rightarrow> False | Some e \<Rightarrow> \<not> e > ?C0)"
  have acc: "acc \<longleftrightarrow> round_up ?bm (l0c_align_m cfg) * ?bn * (bytes_c cfg * (if dbc r then 2 else 1)) \<le> l0c_bytes cfg"
  proof -
    have "acc \<longleftrightarrow> round_up ?bm (l0c_align_m cfg) * ?bn \<le> ?C0"
      unfolding acc_def by (rule accumulator_fits [OF cfg small(3,1,4,2)])
    also have "\<dots> \<longleftrightarrow> round_up ?bm (l0c_align_m cfg) * ?bn * (bytes_c cfg * (if dbc r then 2 else 1)) \<le> l0c_bytes cfg"
      unfolding budgets(3) [OF cfg] using c(16) by (intro le_div_iff_mult) simp
    finally show ?thesis .
  qed
  have legal: "tile_legal D cfg r m n k \<longleftrightarrow> (?full \<longrightarrow> k = cfg_K cfg) \<and> operands \<and> n_allowed D cfg r m n k \<and> acc"
    using m n n_top(1) pair k unfolding tile_legal_def tile_fits_def Let_def operands_def acc by blast
  have make: "MakeCandidate D m n k cfg ?C0 r =
      (if n_allowed D cfg r m n k \<and> acc then res_bind (score_tile D m n k cfg r) (\<lambda>c. Inr (Some c)) else Inr None)"
  proof -
    define P1 where "P1 \<longleftrightarrow> max_n_pipelined cfg > 0 \<and> (k = cfg_K cfg \<and> (m \<noteq> cfg_M cfg \<or> n \<noteq> cfg_N cfg)) \<and>
      (stat r = kAStationary \<or> stat r = kOutputStationary) \<and> n > max_n_pipelined cfg"
    define P2 where "P2 \<longleftrightarrow> max_n_nested_pipelined cfg > 0 \<and> (k = cfg_K cfg \<and> (m \<noteq> cfg_M cfg \<or> n \<noteq> cfg_N cfg)) \<and>
      (stat r = kOutputStationary \<and> OSHoldsHoldA D m n cfg) \<and> n > max_n_nested_pipelined cfg"
    have 1: "\<not> (m < min_m cfg \<or> n < min_n cfg \<or> k < min_k cfg)" "\<not> (max_n cfg > 0 \<and> n > max_n cfg)"
      using m(1) n(1) k n_top(2) by (auto simp: k_allowed_def)
    have 2: "n_allowed D cfg r m n k \<longleftrightarrow> \<not> P1 \<and> \<not> P2"
      using n_top(2) by (cases "stat r") (auto simp: n_allowed_def P1_def P2_def)
    have "MakeCandidate D m n k cfg ?C0 r = (if P1 then Inr None else if P2 then Inr None else
        (case CandidateL0cPhysicalElements m n cfg of None \<Rightarrow> Inr None | Some e \<Rightarrow>
          if e > ?C0 then Inr None else res_bind (score_tile D m n k cfg r) (\<lambda>c. Inr (Some c))))"
      unfolding MakeCandidate_def Let_def if_not_P [OF 1(1)] if_not_P [OF 1(2)] if_not_P [OF within]
        P1_def [symmetric] P2_def [symmetric] ..
    then show ?thesis by (simp add: 2 acc_def split: option.splits)
  qed
  have pos: "0 < storage_depth cfg db k" for db
    using stored_k_eq(2) [OF cfg k0, of db] k0 by (auto split: if_splits)
  have ops: "(?bm > cdiv (cdiv (l0a_bytes cfg) (bytes_a cfg)) (storage_depth cfg (db_a ?db) k) \<or>
      ?bn > cdiv (cdiv (l0b_bytes cfg) (bytes_b cfg)) (storage_depth cfg (db_b ?db) k)) \<longleftrightarrow> \<not> operands"
    using operand_fits [OF less_imp_le [OF c(17)] c(14) pos, where boxed = ?bm] operand_fits [OF less_imp_le [OF c(18)] c(15) pos, where boxed = ?bn]
    unfolding operands_def by blast
  have boxed: "BoxedExtent m (box_align_m cfg) = Some ?bm" "BoxedExtent n (box_align_n cfg) = Some ?bn"
    using small c by (auto intro!: boxed_eq)
  have ids: "to_i32 m = m" "to_i32 n = n" using small by (simp_all add: to_i32_id)
  show ?thesis
  proof (cases "(?full \<longrightarrow> k = cfg_K cfg) \<and> operands")
    case True
    then have "consider_tile D cfg r ?C0 ?full (m, n, k) best =
      res_bind (MakeCandidate D m n k cfg ?C0 r) (\<lambda>c. Inr (case (c, best) of (None, _) \<Rightarrow> best | (Some c', None) \<Rightarrow> c
        | (Some c', Some b) \<Rightarrow> if Better D c' b cfg then c else best))"
    proof -
      have "\<not> (?full \<and> k \<noteq> cfg_K cfg)" using True by blast
      then show ?thesis
        unfolding consider_tile_def prod.case Let_def if_not_P [OF \<open>\<not> (?full \<and> k \<noteq> cfg_K cfg)\<close>]
        using True by (simp add: stored_k_eq(1) [OF cfg k0] boxed ops ids del: not_less)
    qed
    with True show ?thesis
      unfolding legal make by (cases "score_tile D m n k cfg r") (auto simp: keep_better_def split: option.splits)
  next
    case False
    then have "consider_tile D cfg r ?C0 ?full (m, n, k) best = Inr best"
    proof (cases "?full \<and> k \<noteq> cfg_K cfg")
      case True
      show ?thesis unfolding consider_tile_def prod.case if_P [OF True] ..
    next
      case short: False
      then have "\<not> operands" using False by blast
      then show ?thesis
        unfolding consider_tile_def prod.case Let_def if_not_P [OF short]
        by (simp add: stored_k_eq(1) [OF cfg k0] boxed ops del: not_less)
    qed
    with False show ?thesis unfolding legal by auto
  qed
qed

end
