(* ===== verification/Tile_Best.thy ===== *)
theory Tile_Best
  imports Tile_Legal
begin

text \<open>
  \<open>ChooseL0Tile\<close> finds the best legal tile: the search over one schedule keeps a tile that no other
  beats (\<open>regime_best_found\<close>), the choice among the schedules keeps the cheapest, the chosen tile fits
  the buffers, and the code fails exactly where no schedule has a legal tile.
\<close>

section \<open>The search finds the best legal tile\<close>

text \<open>
  What the comparison of doubles that are not NaN satisfies: \<open>d_lt\<close> orders them, \<open>d_eq\<close> holds of those
  it does not distinguish.
\<close>

definition ordered_doubles :: "'f cost_ops \<Rightarrow> bool" where
  "ordered_doubles D \<longleftrightarrow> (\<forall>x. \<not> d_lt D x x) \<and> (\<forall>x y z. d_lt D x y \<longrightarrow> d_lt D y z \<longrightarrow> d_lt D x z) \<and>
     (\<forall>x y z. d_lt D x z \<longrightarrow> d_lt D x y \<or> d_lt D y z) \<and>
     (\<forall>x y. d_eq D x y \<longleftrightarrow> \<not> d_lt D x y \<and> \<not> d_lt D y x)"

lemma transp_lex:
  fixes f :: "'a \<Rightarrow> int"
  assumes "transp Q"
  shows "transp (\<lambda>a b. f a < f b \<or> f a = f b \<and> Q a b)"
  using assms by (auto simp: transp_def)

lemma transp_lex_by:
  assumes "\<And>a b c. lt a b \<Longrightarrow> lt b c \<Longrightarrow> lt a c" and "\<And>a b c. lt a b \<Longrightarrow> eq b c \<Longrightarrow> lt a c"
    and "\<And>a b c. eq a b \<Longrightarrow> lt b c \<Longrightarrow> lt a c" and "\<And>a b c. eq a b \<Longrightarrow> eq b c \<Longrightarrow> eq a c" and "transp Q"
  shows "transp (\<lambda>a b. lt a b \<or> eq a b \<and> Q a b)"
  using assms unfolding transp_def by blast

lemma Better_lex:
  assumes "ordered_doubles D"
  shows "Better D a b cfg \<longleftrightarrow>
    cost_cycles a < cost_cycles b \<or> cost_cycles a = cost_cycles b \<and>
    (padded_compute a < padded_compute b \<or> padded_compute a = padded_compute b \<and>
    (CeilDiv (cfg_K cfg) (cand_k a) < CeilDiv (cfg_K cfg) (cand_k b) \<or>
     CeilDiv (cfg_K cfg) (cand_k a) = CeilDiv (cfg_K cfg) (cand_k b) \<and>
    (d_lt D (load_cycles a) (load_cycles b) \<or> d_eq D (load_cycles a) (load_cycles b) \<and>
    (- (cand_m a * cand_n a) < - (cand_m b * cand_n b) \<or> - (cand_m a * cand_n a) = - (cand_m b * cand_n b) \<and>
     - cand_k a < - cand_k b))))"
  using assms unfolding Better_def Let_def ordered_doubles_def by auto

lemma Better_transp:
  assumes D: "ordered_doubles D"
  shows "transp (\<lambda>a b. Better D a b cfg)"
  unfolding Better_lex [OF D]
  by (intro transp_lex transp_lex_by)
    (use D in \<open>unfold ordered_doubles_def, blast, blast, blast, blast, simp add: transp_def\<close>)

lemma Better_irrefl: "ordered_doubles D \<Longrightarrow> \<not> Better D a a cfg"
  by (simp add: Better_lex ordered_doubles_def)

text \<open>The outcome of a search over some tiles: the best of the legal ones, and none only when there is none.\<close>

definition found :: "'f cost_ops \<Rightarrow> 'f L0TileConfig \<Rightarrow> Regime \<Rightarrow> (int \<times> int \<times> int) set \<Rightarrow> 'f Candidate option \<Rightarrow> bool" where
  "found D cfg r T best \<longleftrightarrow>
     (\<forall>(m, n, k)\<in>T. tile_legal D cfg r m n k \<longrightarrow>
        (\<exists>c b. score_tile D m n k cfg r = Inr c \<and> best = Some b \<and> \<not> Better D c b cfg)) \<and>
     (\<forall>b. best = Some b \<longrightarrow> (\<exists>(m, n, k)\<in>T. tile_legal D cfg r m n k \<and> score_tile D m n k cfg r = Inr b))"

lemma found_step:
  assumes D: "ordered_doubles D" and f: "found D cfg r T best" and l: "tile_legal D cfg r m n k"
    and c: "score_tile D m n k cfg r = Inr c"
  shows "found D cfg r (insert (m, n, k) T) (keep_better D cfg best c)"
proof (cases best)
  case None
  then show ?thesis using f l c Better_irrefl [OF D] by (fastforce simp: found_def keep_better_def)
next
  case (Some b)
  show ?thesis
  proof (cases "Better D c b cfg")
    case True
    have "\<not> Better D c' c cfg" if "\<not> Better D c' b cfg" for c'
      using that True transpD [OF Better_transp [OF D]] by blast
    then show ?thesis using f l c True Better_irrefl [OF D] Some by (fastforce simp: found_def keep_better_def)
  next
    case False
    then show ?thesis using f l c Some by (fastforce simp: found_def keep_better_def)
  qed
qed

lemma search_found:
  assumes D: "ordered_doubles D" and cfg: "bounded_config D cfg"
  shows "fold_res (consider_tile D cfg r (L0cBudget cfg r) (stat r \<noteq> kOutputStationary \<or> dbc r)) ts best = Inr best' \<Longrightarrow>
    set ts \<subseteq> set (regime_tiles D cfg r) \<Longrightarrow> found D cfg r T best \<Longrightarrow> found D cfg r (T \<union> set ts) best'"
proof (induction ts arbitrary: best T)
  case (Cons t ts)
  obtain m n k where t: "t = (m, n, k)" by (cases t)
  obtain b1 where b1: "consider_tile D cfg r (L0cBudget cfg r) (stat r \<noteq> kOutputStationary \<or> dbc r) (m, n, k) best = Inr b1"
    and rest: "fold_res (consider_tile D cfg r (L0cBudget cfg r) (stat r \<noteq> kOutputStationary \<or> dbc r)) ts b1 = Inr best'"
    using Cons.prems(1) by (auto simp: t)
  have mem: "(m, n, k) \<in> set (regime_tiles D cfg r)" using Cons.prems(2) by (simp add: t)
  have "found D cfg r (insert (m, n, k) T) b1"
  proof (cases "tile_legal D cfg r m n k")
    case True
    with b1 [unfolded consider_step [OF cfg mem]] obtain c
      where "score_tile D m n k cfg r = Inr c" "b1 = keep_better D cfg best c" by auto
    with found_step [OF D Cons.prems(3) True] show ?thesis by simp
  next
    case False
    with b1 [unfolded consider_step [OF cfg mem]] Cons.prems(3) show ?thesis
      by (fastforce simp: found_def)
  qed
  from Cons.IH [OF rest _ this] Cons.prems(2) show ?case by (simp add: t)
qed simp

lemma regime_best_found:
  assumes D: "ordered_doubles D" and cfg: "bounded_config D cfg" and "regime_best D cfg r = Inr best"
  shows "found D cfg r UNIV best"
proof -
  have "found D cfg r ({} \<union> set (regime_tiles D cfg r)) best"
    using assms(3)
    by (intro search_found [OF D cfg, where best = None])
      (simp_all add: regime_best_def EnumerateBest_def regime_tiles_def Let_def found_def)
  then show ?thesis using legal_enumerated [OF cfg] unfolding found_def by fast
qed

section \<open>The choice among the schedules\<close>

lemma score_fields:
  assumes "score_tile D m n k cfg r = Inr c"
  shows "cand_m c = m" "cand_n c = n" "cand_k c = k" "regime c = r"
  using assms by (auto simp: score_tile_def)

text \<open>A candidate that the code may return, and the schedules beside the baseline.\<close>

definition scored :: "'f cost_ops \<Rightarrow> 'f L0TileConfig \<Rightarrow> 'f Candidate \<Rightarrow> bool" where
  "scored D cfg c \<longleftrightarrow> tile_legal D cfg (regime c) (cand_m c) (cand_n c) (cand_k c) \<and>
     score_tile D (cand_m c) (cand_n c) (cand_k c) cfg (regime c) = Inr c"

definition schedules :: "'f L0TileConfig \<Rightarrow> Regime list" where
  "schedules cfg = (if independent_output_tiles cfg then [] else other_regimes cfg)"

text \<open>No legal tile of a schedule is estimated cheaper than the candidate.\<close>

definition no_cheaper :: "'f cost_ops \<Rightarrow> 'f L0TileConfig \<Rightarrow> Regime \<Rightarrow> 'f Candidate option \<Rightarrow> bool" where
  "no_cheaper D cfg r best \<longleftrightarrow> (\<forall>m n k. tile_legal D cfg r m n k \<longrightarrow>
     (\<exists>c b. score_tile D m n k cfg r = Inr c \<and> best = Some b \<and> cost_cycles b \<le> cost_cycles c))"

lemma found_no_cheaper: "ordered_doubles D \<Longrightarrow> found D cfg r UNIV best \<Longrightarrow> no_cheaper D cfg r best"
  unfolding found_def no_cheaper_def Better_lex by (fastforce simp: not_less)

lemma found_scored: "found D cfg r UNIV (Some c) \<Longrightarrow> scored D cfg c \<and> regime c = r"
  by (auto simp: found_def scored_def score_fields)

lemma no_cheaper_mono:
  "no_cheaper D cfg r best \<Longrightarrow> (\<And>b. best = Some b \<Longrightarrow> \<exists>b'. best' = Some b' \<and> cost_cycles b' \<le> cost_cycles b) \<Longrightarrow>
   no_cheaper D cfg r best'"
  unfolding no_cheaper_def by (meson order_trans)

text \<open>The schedules that the code skips, for want of accumulator space, have no legal tile.\<close>

lemma skipped_no_tile:
  assumes cfg: "bounded_config D cfg" and e: "CandidateL0cPhysicalElements (min_m cfg) (min_n cfg) cfg = Some e"
    and "L0cBudget cfg r < e"
  shows "\<not> tile_legal D cfg r m n k"
proof
  assume l: "tile_legal D cfg r m n k"
  note c = config_facts [OF cfg]
  let ?rows = "\<lambda>m. round_up (round_up m (box_align_m cfg)) (l0c_align_m cfg)"
  have "?rows (min_m cfg) \<le> ?rows m" using l by (intro round_up_mono c) (simp add: tile_legal_def)
  moreover have "round_up (min_n cfg) (box_align_n cfg) \<le> round_up n (box_align_n cfg)"
    using l by (intro round_up_mono c) (simp add: tile_legal_def)
  moreover have "0 \<le> ?rows (min_m cfg)" "0 \<le> round_up n (box_align_n cfg)"
    using round_up_bounds(1) [OF c(11), of "min_m cfg"] round_up_bounds(1) [OF c(10), of "round_up (min_m cfg) (box_align_m cfg)"]
      round_up_bounds(1) [OF c(12), of n] c(4,5) l by (auto simp: tile_legal_def)
  ultimately have "?rows (min_m cfg) * round_up (min_n cfg) (box_align_n cfg) \<le> ?rows m * round_up n (box_align_n cfg)"
    using round_up_bounds(1) [OF c(12), of "min_n cfg"] c(5) by (intro mult_mono) auto
  also have "\<dots> \<le> L0cBudget cfg r"
    unfolding budgets(3) [OF cfg]
    using l c(16) le_div_iff_mult [of "bytes_c cfg * (if dbc r then 2 else 1)"
        "?rows m * round_up n (box_align_n cfg)" "l0c_bytes cfg"]
    by (auto simp: tile_legal_def tile_fits_def Let_def)
  finally have "\<not> e > L0cBudget cfg r"
    using accumulator_fits [OF cfg, of "min_m cfg" "min_n cfg" r] e c by simp
  with assms(3) show False by simp
qed

lemma try_regime_step:
  assumes D: "ordered_doubles D" and cfg: "bounded_config D cfg" and "min_tile_fits cfg"
    and run: "try_regime D cfg r best = Inr best'"
  shows "no_cheaper D cfg r best'" and "best' = best \<or>
    (\<exists>c. best' = Some c \<and> scored D cfg c \<and> regime c = r \<and> (\<forall>b. best = Some b \<longrightarrow> cost_cycles c < cost_cycles b))"
proof -
  obtain e where e: "CandidateL0cPhysicalElements (min_m cfg) (min_n cfg) cfg = Some e"
    using assms(3) by (auto simp: min_tile_fits_def Let_def split: option.splits)
  have "no_cheaper D cfg r best' \<and> (best' = best \<or>
    (\<exists>c. best' = Some c \<and> scored D cfg c \<and> regime c = r \<and> (\<forall>b. best = Some b \<longrightarrow> cost_cycles c < cost_cycles b)))"
  proof (cases "L0cBudget cfg r < e")
    case True
    then show ?thesis using run e skipped_no_tile [OF cfg e True] by (simp add: try_regime_def no_cheaper_def)
  next
    case False
    then obtain cand where cand: "regime_best D cfg r = Inr cand"
      and best': "best' = (case (cand, best) of (None, _) \<Rightarrow> best | (Some c, None) \<Rightarrow> cand
        | (Some c, Some b) \<Rightarrow> if cost_cycles c < cost_cycles b then cand else best)"
      using run e by (auto simp: try_regime_def)
    note f = regime_best_found [OF D cfg cand]
    have n: "no_cheaper D cfg r cand" by (rule found_no_cheaper [OF D f])
    show ?thesis
    proof (cases cand)
      case None
      then show ?thesis using n by (simp add: best' no_cheaper_def)
    next
      case (Some c)
      have "scored D cfg c \<and> regime c = r" using found_scored f Some by blast
      moreover have "no_cheaper D cfg r best'"
        by (rule no_cheaper_mono [OF n]) (auto simp: best' Some not_less split: option.splits)
      ultimately show ?thesis by (auto simp: best' Some split: option.splits)
    qed
  qed
  then show "no_cheaper D cfg r best'" and "best' = best \<or>
    (\<exists>c. best' = Some c \<and> scored D cfg c \<and> regime c = r \<and> (\<forall>b. best = Some b \<longrightarrow> cost_cycles c < cost_cycles b))"
    by blast+
qed

lemma try_regimes_found:
  assumes D: "ordered_doubles D" and cfg: "bounded_config D cfg" and m: "min_tile_fits cfg"
  shows "fold_res (try_regime D cfg) rs best = Inr best' \<Longrightarrow>
    (\<forall>r\<in>set rs. no_cheaper D cfg r best') \<and> (best' = best \<or>
    (\<exists>c. best' = Some c \<and> scored D cfg c \<and> regime c \<in> set rs \<and> (\<forall>b. best = Some b \<longrightarrow> cost_cycles c < cost_cycles b)))"
proof (induction rs arbitrary: best)
  case (Cons r rs)
  then obtain b1 where b1: "try_regime D cfg r best = Inr b1" and rest: "fold_res (try_regime D cfg) rs b1 = Inr best'"
    by auto
  note s = try_regime_step [OF D cfg m b1] and ih = Cons.IH [OF rest]
  have "no_cheaper D cfg r best'" by (rule no_cheaper_mono [OF s(1)]) (use ih in fastforce)
  moreover have "best' = best \<or> (\<exists>c. best' = Some c \<and> scored D cfg c \<and> regime c \<in> set (r # rs) \<and>
      (\<forall>b. best = Some b \<longrightarrow> cost_cycles c < cost_cycles b))"
    using s(2) ih by fastforce
  ultimately show ?case using ih by simp
qed simp

lemma base_not_other: "base_regime \<notin> set (other_regimes cfg)"
  by (simp add: other_regimes_def base_regime_def Let_def)

lemma ChooseL0Tile_cases:
  assumes "ChooseL0Tile D cfg = Inr res"
  obtains base c where "valid_config D cfg" "min_tile_fits cfg" "regime_best D cfg base_regime = Inr base"
    "(if is_tiled cfg base then fold_res (try_regime D cfg) (schedules cfg) base else Inr base) = Inr (Some c)"
    "res = tile_result D cfg c"
proof -
  obtain base best where "valid_config D cfg" "min_tile_fits cfg" "regime_best D cfg base_regime = Inr base"
    and b: "(if is_tiled cfg base \<and> \<not> independent_output_tiles cfg
      then fold_res (try_regime D cfg) (other_regimes cfg) base else Inr base) = Inr best"
    and r: "(case best of None \<Rightarrow> Inl ValueError | Some b \<Rightarrow> Inr (tile_result D cfg b)) = Inr res"
    using assms by (auto simp: ChooseL0Tile_def)
  moreover from r obtain c where "best = Some c" "res = tile_result D cfg c" by (cases best) auto
  ultimately show ?thesis using that by (auto simp: schedules_def split: if_splits)
qed

text \<open>The candidate that the code returns is a legal tile, scored under the schedule it was found for.\<close>

definition scored_option :: "'f cost_ops \<Rightarrow> 'f L0TileConfig \<Rightarrow> Regime set \<Rightarrow> 'f Candidate option \<Rightarrow> bool" where
  "scored_option D cfg R best \<longleftrightarrow> (\<forall>b. best = Some b \<longrightarrow> scored D cfg b \<and> regime b \<in> R)"

lemma scored_None [simp]: "scored_option D cfg R None"
  by (simp add: scored_option_def)

lemma scored_mono: "scored_option D cfg R best \<Longrightarrow> R \<subseteq> R' \<Longrightarrow> scored_option D cfg R' best"
  by (auto simp: scored_option_def)

lemma scored_better:
  "scored_option D cfg R best \<Longrightarrow> scored D cfg c \<and> regime c \<in> R \<Longrightarrow> scored_option D cfg R (keep_better D cfg best c)"
  "scored_option D cfg {r} best \<Longrightarrow> scored D cfg c \<and> regime c = r \<Longrightarrow> scored_option D cfg {r} (keep_better D cfg best c)"
  unfolding keep_better_def by (cases best; simp add: scored_option_def)+

lemma search_scored:
  assumes cfg: "bounded_config D cfg"
  shows "fold_res (consider_tile D cfg r (L0cBudget cfg r) (stat r \<noteq> kOutputStationary \<or> dbc r)) ts best = Inr best' \<Longrightarrow>
    set ts \<subseteq> set (regime_tiles D cfg r) \<Longrightarrow> scored_option D cfg {r} best \<Longrightarrow> scored_option D cfg {r} best'"
proof (induction ts arbitrary: best)
  case (Cons t ts)
  obtain m n k where t: "t = (m, n, k)" by (cases t)
  obtain b1 where b1: "consider_tile D cfg r (L0cBudget cfg r) (stat r \<noteq> kOutputStationary \<or> dbc r) (m, n, k) best = Inr b1"
    and rest: "fold_res (consider_tile D cfg r (L0cBudget cfg r) (stat r \<noteq> kOutputStationary \<or> dbc r)) ts b1 = Inr best'"
    using Cons.prems(1) by (auto simp: t)
  have mem: "(m, n, k) \<in> set (regime_tiles D cfg r)" using Cons.prems(2) by (simp add: t)
  have "scored_option D cfg {r} b1"
  proof (cases "tile_legal D cfg r m n k")
    case True
    with b1 [unfolded consider_step [OF cfg mem]] obtain c
      where c: "score_tile D m n k cfg r = Inr c" and b: "b1 = keep_better D cfg best c" by auto
    have "scored D cfg c \<and> regime c = r" using True c by (simp add: scored_def score_fields [OF c])
    with Cons.prems(3) show ?thesis unfolding b by (rule scored_better(2))
  next
    case False
    with b1 [unfolded consider_step [OF cfg mem]] Cons.prems(3) show ?thesis by simp
  qed
  from Cons.IH [OF rest _ this] Cons.prems(2) show ?case by (simp add: t)
qed simp

lemma regime_best_scored:
  assumes "bounded_config D cfg" and "regime_best D cfg r = Inr best"
  shows "scored_option D cfg {r} best"
  using search_scored [OF assms(1), of r "regime_tiles D cfg r" None best] assms(2)
  by (simp add: regime_best_def EnumerateBest_def regime_tiles_def Let_def)

lemma try_regimes_scored:
  assumes cfg: "bounded_config D cfg"
  shows "fold_res (try_regime D cfg) rs best = Inr best' \<Longrightarrow> set rs \<subseteq> R \<Longrightarrow>
    scored_option D cfg R best \<Longrightarrow> scored_option D cfg R best'"
proof (induction rs arbitrary: best)
  case (Cons r rs)
  then obtain b1 where b1: "try_regime D cfg r best = Inr b1" and rest: "fold_res (try_regime D cfg) rs b1 = Inr best'"
    by auto
  have "scored_option D cfg R b1"
  proof -
    have "b1 = best \<or> regime_best D cfg r = Inr b1"
      using b1 unfolding try_regime_def
      by (cases "regime_best D cfg r"; cases best) (auto split: option.splits if_splits)
    then show ?thesis
    proof
      assume "regime_best D cfg r = Inr b1"
      then have "scored_option D cfg {r} b1" by (rule regime_best_scored [OF cfg])
      with Cons.prems(2) show ?thesis by (auto intro: scored_mono)
    qed (use Cons.prems(3) in simp)
  qed
  from Cons.IH [OF rest _ this] Cons.prems(2) show ?case by simp
qed simp

lemma chosen_scored:
  assumes "bounded_config D cfg" and "ChooseL0Tile D cfg = Inr res"
  obtains c where "res = tile_result D cfg c" "scored D cfg c" "regime c \<in> set (base_regime # schedules cfg)"
proof -
  obtain base c where base: "regime_best D cfg base_regime = Inr base"
    and run: "(if is_tiled cfg base then fold_res (try_regime D cfg) (schedules cfg) base else Inr base) = Inr (Some c)"
    and res: "res = tile_result D cfg c"
    using assms(2) by (rule ChooseL0Tile_cases)
  have "scored_option D cfg (set (base_regime # schedules cfg)) base"
    using regime_best_scored [OF assms(1) base] by (rule scored_mono) simp
  then have "scored_option D cfg (set (base_regime # schedules cfg)) (Some c)"
  proof (cases "is_tiled cfg base")
    case True
    with run have r: "fold_res (try_regime D cfg) (schedules cfg) base = Inr (Some c)" by simp
    show ?thesis
      by (rule try_regimes_scored [OF assms(1) r])
        (use \<open>scored_option D cfg (set (base_regime # schedules cfg)) base\<close> in auto)
  qed (use run in simp)
  with res that show ?thesis by (simp add: scored_option_def)
qed

section \<open>When the code returns\<close>

text \<open>The cost model has a value for every legal tile: no product leaves \<open>int64_t\<close>, no wall is out of range.\<close>

definition all_scored :: "'f cost_ops \<Rightarrow> 'f L0TileConfig \<Rightarrow> Regime \<Rightarrow> bool" where
  "all_scored D cfg r \<longleftrightarrow> (\<forall>m n k. tile_legal D cfg r m n k \<longrightarrow> (\<exists>c. score_tile D m n k cfg r = Inr c))"

lemma search_total:
  assumes cfg: "bounded_config D cfg" and "all_scored D cfg r"
  shows "set ts \<subseteq> set (regime_tiles D cfg r) \<Longrightarrow>
    \<exists>best'. fold_res (consider_tile D cfg r (L0cBudget cfg r) (stat r \<noteq> kOutputStationary \<or> dbc r)) ts best = Inr best'"
proof (induction ts arbitrary: best)
  case (Cons t ts)
  obtain m n k where t: "t = (m, n, k)" by (cases t)
  have mem: "(m, n, k) \<in> set (regime_tiles D cfg r)" using Cons.prems by (simp add: t)
  obtain b1 where b1: "consider_tile D cfg r (L0cBudget cfg r) (stat r \<noteq> kOutputStationary \<or> dbc r) (m, n, k) best = Inr b1"
    unfolding consider_step [OF cfg mem] using assms(2) by (fastforce simp: all_scored_def)
  obtain best' where "fold_res (consider_tile D cfg r (L0cBudget cfg r) (stat r \<noteq> kOutputStationary \<or> dbc r)) ts b1 = Inr best'"
    using Cons.IH [of b1] Cons.prems by auto
  then show ?case unfolding t fold_res.simps b1 by simp
qed simp

lemma regime_best_total:
  assumes "bounded_config D cfg" and "all_scored D cfg r"
  obtains best where "regime_best D cfg r = Inr best"
  using search_total [OF assms subset_refl, of None] that
  by (auto simp: regime_best_def EnumerateBest_def regime_tiles_def Let_def)

lemma try_regimes_total:
  assumes cfg: "bounded_config D cfg"
  shows "\<forall>r\<in>set rs. all_scored D cfg r \<Longrightarrow> \<exists>best'. fold_res (try_regime D cfg) rs best = Inr best'"
proof (induction rs arbitrary: best)
  case (Cons r rs)
  obtain cand where cand: "regime_best D cfg r = Inr cand" using regime_best_total [OF cfg, of r] Cons.prems by auto
  obtain b1 where b1: "try_regime D cfg r best = Inr b1"
    unfolding try_regime_def cand
    by (cases "CandidateL0cPhysicalElements (min_m cfg) (min_n cfg) cfg"; cases "L0cBudget cfg r < the (CandidateL0cPhysicalElements (min_m cfg) (min_n cfg) cfg)") auto
  obtain best' where "fold_res (try_regime D cfg) rs b1 = Inr best'"
    using Cons.IH [of b1] Cons.prems by auto
  then show ?case unfolding fold_res.simps b1 by auto
qed simp

lemma no_cheaper_None: "no_cheaper D cfg r None \<Longrightarrow> \<not> tile_legal D cfg r m n k"
  by (auto simp: no_cheaper_def)

text \<open>The bytes of the tile itself, without boxing and peeled tails.\<close>

lemma mult3_le:
  fixes a b c a' b' B :: int
  assumes "a' * b' * c \<le> B" and "0 \<le> a" "a \<le> a'" "0 \<le> b" "b \<le> b'" "0 \<le> c"
  shows "a * b * c \<le> B"
proof -
  have "a * b * c \<le> a' * b' * c" using assms(2-6) by (intro mult_right_mono mult_mono) auto
  with assms(1) show ?thesis by linarith
qed

lemma storage_depth_ge:
  assumes "bounded_config D cfg" and "0 < k"
  shows "(if db then 2 else 1) * k \<le> storage_depth cfg db k"
proof -
  note c = config_facts [OF assms(1)]
  have "0 \<le> (if reduction_pipeline_stages cfg > 1 \<and> cfg_K cfg div k \<ge> 2 then cfg_K cfg mod k else 0) * reduction_pipeline_stages cfg"
    using assms(2) c(13) by auto
  moreover have "(if db then 2 else 1) * k \<le> (if k < cfg_K cfg then (if db then 2 else 1) * reduction_pipeline_stages cfg
      else max (if db then 2 else 1) (reduction_pipeline_stages cfg)) * k"
    using assms(2) c(13) by (intro mult_right_mono) auto
  ultimately show ?thesis unfolding storage_depth_def Let_def by linarith
qed

lemma legal_bytes:
  assumes cfg: "bounded_config D cfg" and l: "tile_legal D cfg r m n k"
  shows "m * ((if db_a (DeriveOperandDB (stat r)) then 2 else 1) * k) * bytes_a cfg \<le> l0a_bytes cfg"
    "n * ((if db_b (DeriveOperandDB (stat r)) then 2 else 1) * k) * bytes_b cfg \<le> l0b_bytes cfg"
    "m * n * (bytes_c cfg * (if dbc r then 2 else 1)) \<le> l0c_bytes cfg"
proof -
  note c = config_facts [OF cfg]
  have f: "tile_fits cfg r m n k" and pos: "0 < m" "0 < n" "0 < k"
    using l c by (auto simp: tile_legal_def k_allowed_def)
  have up: "m \<le> round_up m (box_align_m cfg)" "n \<le> round_up n (box_align_n cfg)"
    "m \<le> round_up (round_up m (box_align_m cfg)) (l0c_align_m cfg)"
    using round_up_bounds(1) [OF c(11), of m] round_up_bounds(1) [OF c(12), of n]
      round_up_bounds(1) [OF c(10), of "round_up m (box_align_m cfg)"] by linarith+
  show "m * ((if db_a (DeriveOperandDB (stat r)) then 2 else 1) * k) * bytes_a cfg \<le> l0a_bytes cfg"
    by (rule mult3_le [OF f [unfolded tile_fits_def Let_def, THEN conjunct1]])
      (use pos up c storage_depth_ge [OF cfg] in auto)
  show "n * ((if db_b (DeriveOperandDB (stat r)) then 2 else 1) * k) * bytes_b cfg \<le> l0b_bytes cfg"
    by (rule mult3_le [OF f [unfolded tile_fits_def Let_def, THEN conjunct2, THEN conjunct1]])
      (use pos up c storage_depth_ge [OF cfg] in auto)
  show "m * n * (bytes_c cfg * (if dbc r then 2 else 1)) \<le> l0c_bytes cfg"
    by (rule mult3_le [OF f [unfolded tile_fits_def Let_def, THEN conjunct2, THEN conjunct2]])
      (use pos up c in auto)
qed

section \<open>A concrete product\<close>

text \<open>
  A product of 32 by 16 by 32 halves with room for 512, 1024 and 256 elements in the three buffers, with the
  A-stationary schedule open; doubles stand for integers.
\<close>

definition int_cost :: "int cost_ops" where
  "int_cost = double_ops.extend int_dbl \<lparr>d_llround = id\<rparr>"

definition small_product :: "int L0TileConfig" where
  "small_product = \<lparr>cfg_M = 32, cfg_N = 16, cfg_K = 32, reduction_iterations = 1, reduction_pipeline_stages = 1,
     independent_output_tiles = False, l0a_bytes = 1024, l0b_bytes = 2048, l0c_bytes = 1024,
     bytes_a = 2, bytes_b = 2, bytes_c = 4, min_m = 16, min_n = 16, min_k = 16, align_m = 16, align_n = 16,
     align_k = 16, l0c_align_m = 16, box_align_m = 1, box_align_n = 1, max_n = 0, max_n_pipelined = 0,
     max_n_nested_pipelined = 0, allow_a_stationary = True, allow_b_stationary = False,
     allow_double_buffer_c = False, c_read = False, bw_a = 130, bw_b = 85, bw_drain = 118,
     drain_fixed_cycles = 164, drain_row_cycles = 4, drain_penalty_cycles = 2, drain_c0_bytes = 32,
     mad_head = 21, mad_k_fractal_bytes = 32, mad_fp32_passes = 2, allow_padding = False, allow_k_boundary = False\<rparr>"

lemma int_cost_ordered: "ordered_doubles int_cost"
  by (auto simp: ordered_doubles_def int_cost_def double_ops.extend_def int_dbl_def)

lemma small_product_bounded: "bounded_config int_cost small_product"
  by (simp add: bounded_config_def valid_config_def small_product_def positive_def non_negative_def int_cost_def
    double_ops.extend_def int_dbl_def)

definition small_tile :: L0TileResult where
  "small_tile = \<lparr>res_m = 16, res_n = 16, res_k = 32, estimated_traffic_bytes = 6144,
     estimated_cost_cycles = 502, padded_compute_volume = 16384, stationarity = kAStationary, os_holds_a = False,
     double_buffer_c = False, perf_hint = False\<rparr>"

lemma small_product_tile: "ChooseL0Tile int_cost small_product = Inr small_tile"
  by code_simp

lemma small_product_scores:
  "list_all (\<lambda>r. list_all (\<lambda>(m, n, k). case score_tile int_cost m n k small_product r of Inl _ \<Rightarrow> False | Inr _ \<Rightarrow> True)
     (regime_tiles int_cost small_product r)) (base_regime # schedules small_product)"
  by code_simp

lemma small_product_scored: "\<forall>r\<in>set (base_regime # schedules small_product). all_scored int_cost small_product r"
proof (intro ballI, unfold all_scored_def, intro allI impI)
  fix r m n k
  assume r: "r \<in> set (base_regime # schedules small_product)" and "tile_legal int_cost small_product r m n k"
  then have "(m, n, k) \<in> set (regime_tiles int_cost small_product r)"
    by (intro legal_enumerated [OF small_product_bounded])
  then have "case score_tile int_cost m n k small_product r of Inl _ \<Rightarrow> False | Inr _ \<Rightarrow> True"
    using small_product_scores r unfolding list_all_iff by blast
  then show "\<exists>c. score_tile int_cost m n k small_product r = Inr c"
    by (cases "score_tile int_cost m n k small_product r") auto
qed

section \<open>Properties\<close>

text \<open>
  Claim C12. The tile that \<open>ChooseL0Tile\<close> returns is the best of all legal tiles: it is legal and carries the
  code's scores; no legal tile of the baseline schedule is estimated cheaper, nor, unless the baseline holds
  the whole product in one tile, any legal tile of another schedule the caller can lower; and a tile of the
  baseline schedule is not beaten by another one in the tie-breaking order either.
\<close>

theorem ChooseL0Tile_optimal:
  assumes "ordered_doubles D" and "bounded_config D cfg" and "ChooseL0Tile D cfg = Inr res"
  shows "\<exists>c. res = tile_result D cfg c \<and> scored D cfg c \<and> regime c \<in> set (base_regime # schedules cfg) \<and>
    no_cheaper D cfg base_regime (Some c) \<and>
    (regime c = base_regime \<and> (cand_m c, cand_n c, cand_k c) = (cfg_M cfg, cfg_N cfg, cfg_K cfg) \<or>
      (\<forall>r\<in>set (schedules cfg). no_cheaper D cfg r (Some c))) \<and>
    (regime c = base_regime \<longrightarrow> (\<forall>m n k c'. tile_legal D cfg base_regime m n k \<longrightarrow>
      score_tile D m n k cfg base_regime = Inr c' \<longrightarrow> \<not> Better D c' c cfg))"
proof -
  note D = assms(1) and cfg = assms(2)
  obtain base c where m: "min_tile_fits cfg" and base: "regime_best D cfg base_regime = Inr base"
    and run: "(if is_tiled cfg base then fold_res (try_regime D cfg) (schedules cfg) base else Inr base) = Inr (Some c)"
    and res: "res = tile_result D cfg c"
    using assms(3) by (rule ChooseL0Tile_cases)
  note f = regime_best_found [OF D cfg base]
  have n: "no_cheaper D cfg base_regime base" by (rule found_no_cheaper [OF D f])
  have unbeaten: "\<not> Better D c' c cfg"
    if "base = Some c" "tile_legal D cfg base_regime m n k" "score_tile D m n k cfg base_regime = Inr c'" for m n k c'
    using f that by (fastforce simp: found_def)
  show ?thesis
  proof (cases "is_tiled cfg base")
    case False
    then obtain b where b: "base = Some b" "(cand_m b, cand_n b, cand_k b) = (cfg_M cfg, cfg_N cfg, cfg_K cfg)"
      by (auto simp: is_tiled_def split: option.splits)
    with run False have "b = c" by simp
    moreover have "scored D cfg b \<and> regime b = base_regime" using found_scored f b(1) by blast
    ultimately show ?thesis using res b n unbeaten by auto
  next
    case True
    then have t: "(\<forall>r\<in>set (schedules cfg). no_cheaper D cfg r (Some c)) \<and> (Some c = base \<or>
        (\<exists>c'. Some c = Some c' \<and> scored D cfg c' \<and> regime c' \<in> set (schedules cfg) \<and>
          (\<forall>b. base = Some b \<longrightarrow> cost_cycles c' < cost_cycles b)))"
      using run by (intro try_regimes_found [OF D cfg m]) simp
    have "no_cheaper D cfg base_regime (Some c)" by (rule no_cheaper_mono [OF n]) (use t in fastforce)
    moreover have "scored D cfg c \<and> regime c \<in> set (base_regime # schedules cfg) \<and>
        (regime c = base_regime \<longrightarrow> base = Some c)"
      using t found_scored [of D cfg base_regime c] f base_not_other [of cfg]
      by (auto simp: schedules_def split: if_splits)
    ultimately show ?thesis using res t unbeaten by auto
  qed
qed

lemma ChooseL0Tile_optimal_witness:
  "\<exists>c. small_tile = tile_result int_cost small_product c \<and> scored int_cost small_product c \<and>
    no_cheaper int_cost small_product base_regime (Some c)"
  using ChooseL0Tile_optimal [OF int_cost_ordered small_product_bounded small_product_tile] by blast

text \<open>
  Claim C13. The tile that \<open>ChooseL0Tile\<close> returns fits the buffers: an operand that streams has room for two of
  its tiles, a pinned one for one, and the accumulator for one or, double-buffered, two; the tile lies within
  the product unless padding is allowed, its reduction extent is aligned, divides \<open>K\<close> unless padding or the
  peeling of aligned \<open>K\<close> is allowed, and covers \<open>K\<close> where an operand or two accumulators are held.
\<close>

theorem ChooseL0Tile_fits:
  assumes "bounded_config D cfg" and "ChooseL0Tile D cfg = Inr res"
  shows "res_m res * ((if stationarity res = kAStationary then 1 else 2) * res_k res) * bytes_a cfg \<le> l0a_bytes cfg \<and>
    res_n res * ((if stationarity res = kBStationary then 1 else 2) * res_k res) * bytes_b cfg \<le> l0b_bytes cfg \<and>
    res_m res * res_n res * (bytes_c cfg * (if double_buffer_c res then 2 else 1)) \<le> l0c_bytes cfg \<and>
    min_m cfg \<le> res_m res \<and> min_n cfg \<le> res_n res \<and> min_k cfg \<le> res_k res \<and> align_k cfg dvd res_k res \<and>
    (\<not> allow_padding cfg \<longrightarrow> res_m res \<le> cfg_M cfg \<and> res_n res \<le> cfg_N cfg \<and> res_k res \<le> cfg_K cfg \<and>
      (res_k res dvd cfg_K cfg \<or> allow_k_boundary cfg \<and> align_k cfg dvd cfg_K cfg)) \<and>
    (stationarity res \<noteq> kOutputStationary \<or> double_buffer_c res \<longrightarrow> res_k res = cfg_K cfg)"
proof -
  obtain c where res: "res = tile_result D cfg c" and "scored D cfg c"
    using assms by (rule chosen_scored)
  then have l: "tile_legal D cfg (regime c) (cand_m c) (cand_n c) (cand_k c)" by (simp add: scored_def)
  have db: "(if db_a (DeriveOperandDB s) then 2 else 1) = (if s = kAStationary then 1 else (2::int))"
    "(if db_b (DeriveOperandDB s) then 2 else 1) = (if s = kBStationary then 1 else (2::int))" for s
    by (cases s; simp add: DeriveOperandDB_def)+
  show ?thesis
    using legal_bytes [OF assms(1) l, unfolded db] l
    by (auto simp: res tile_result_def tile_legal_def k_allowed_def axis_top_def)
qed

lemma ChooseL0Tile_fits_witness:
  "res_m small_tile * (1 * res_k small_tile) * bytes_a small_product \<le> l0a_bytes small_product"
  using ChooseL0Tile_fits [OF small_product_bounded small_product_tile] by (simp add: small_tile_def)

text \<open>
  Claim C14. On a validated configuration whose minimal tile fits and whose legal tiles the cost model can score,
  \<open>ChooseL0Tile\<close> returns a tile exactly when some schedule has a legal one, and throws otherwise.
\<close>

theorem ChooseL0Tile_complete:
  assumes "ordered_doubles D" and "bounded_config D cfg" and "min_tile_fits cfg"
    and "\<forall>r\<in>set (base_regime # schedules cfg). all_scored D cfg r"
  shows "if \<exists>r\<in>set (base_regime # schedules cfg). \<exists>m n k. tile_legal D cfg r m n k
    then \<exists>res. ChooseL0Tile D cfg = Inr res else ChooseL0Tile D cfg = Inl ValueError"
proof -
  note D = assms(1) and cfg = assms(2)
  have valid: "valid_config D cfg" using cfg by (simp add: bounded_config_def)
  obtain base where base: "regime_best D cfg base_regime = Inr base"
    using regime_best_total [OF cfg, of base_regime] assms(4) by auto
  have n: "no_cheaper D cfg base_regime base" by (rule found_no_cheaper [OF D regime_best_found [OF D cfg base]])
  have s: "scored_option D cfg (set (base_regime # schedules cfg)) base"
    using regime_best_scored [OF cfg base] by (rule scored_mono) simp
  have total: "\<exists>best. (if is_tiled cfg base then fold_res (try_regime D cfg) (schedules cfg) base else Inr base) = Inr best"
    using try_regimes_total [OF cfg, of "schedules cfg" base] assms(4) by auto
  then obtain best where best: "(if is_tiled cfg base then fold_res (try_regime D cfg) (schedules cfg) base else Inr base) = Inr best" ..
  have "(if is_tiled cfg base \<and> \<not> independent_output_tiles cfg
      then fold_res (try_regime D cfg) (other_regimes cfg) base else Inr base) = Inr best"
    using best by (auto simp: schedules_def split: if_splits)
  then have run: "ChooseL0Tile D cfg = (case best of None \<Rightarrow> Inl ValueError | Some b \<Rightarrow> Inr (tile_result D cfg b))"
    by (simp add: ChooseL0Tile_def check_def valid assms(3) base del: res_bind_eq_Inr)
  have "best = None \<longleftrightarrow> (\<nexists>r m n k. r \<in> set (base_regime # schedules cfg) \<and> tile_legal D cfg r m n k)"
  proof (cases "is_tiled cfg base")
    case True
    then have r: "fold_res (try_regime D cfg) (schedules cfg) base = Inr best" using best by simp
    have sc: "scored_option D cfg (set (base_regime # schedules cfg)) best"
      by (rule try_regimes_scored [OF cfg r _ s]) auto
    have none: "\<not> tile_legal D cfg r m n k" if "best = None" "r \<in> set (base_regime # schedules cfg)" for r m n k
      using try_regimes_found [OF D cfg assms(3) r] n that no_cheaper_None by fastforce
    show ?thesis using none sc by (cases best) (auto simp: scored_option_def scored_def)
  next
    case False
    then have "best = base" "base \<noteq> None" using best by (auto simp: is_tiled_def split: option.splits)
    with s show ?thesis by (cases base) (auto simp: scored_option_def scored_def)
  qed
  then show ?thesis unfolding run by (auto split: option.splits)
qed

lemma ChooseL0Tile_complete_witness:
  "if \<exists>r\<in>set (base_regime # schedules small_product). \<exists>m n k. tile_legal int_cost small_product r m n k
    then \<exists>res. ChooseL0Tile int_cost small_product = Inr res else ChooseL0Tile int_cost small_product = Inl ValueError"
  by (rule ChooseL0Tile_complete [OF int_cost_ordered small_product_bounded _ small_product_scored]) code_simp

section \<open>Where the estimate overflows\<close>

text \<open>
  The traffic of a product of 4194304 cubed, in tiles of 16 cubed, leaves \<open>int64_t\<close> in a product of dimensions,
  before the check against the range, which then compares a value that is not there.
\<close>

lemma EstimateTraffic_overflow:
  assumes "cfg_M cfg = 4194304" "cfg_N cfg = 4194304" "cfg_K cfg = 4194304" "bytes_a cfg = 2" "bytes_b cfg = 2"
  shows "EstimateTraffic D 16 16 16 cfg base_regime = Inl UndefinedBehavior"
proof -
  have "product64 2 [4194304, 4194304, 262144] = Inl UndefinedBehavior" by code_simp
  then show ?thesis
    using assms by (simp add: EstimateTraffic_def Let_def base_regime_def CeilDiv_def del: product64.simps)
qed

end
