(* ===== verification/Stmt_IR.thy ===== *)
theory Stmt_IR
  imports Arith_Prelude
begin

text \<open>
  The statements of a function body (\<^verbatim>\<open>include/pypto/ir/stmt.h\<close>) and what they do.

  A variable is an object: its identity is \<open>var_id\<close> (\<^verbatim>\<open>Var::UniqueId\<close>), its name a hint, its type the
  identity of a type object. Of the expressions the passes below build or look into, each has its
  constructor; every other node (calls, other arithmetic, tuples) is \<open>Op\<close> with its operands, of a
  meaning that is a parameter. Spans, comments and attributes are left out.

  Before the SSA conversion a variable may be assigned many times, in the body of a loop or of a branch
  too, and keeps its value afterwards; the loop variable and the iteration arguments of a loop are
  scoped to it. A \<open>YieldStmt\<close> ends the body it is in and hands its values to the enclosing \<open>if\<close> or loop.
  The bounds of a \<open>for\<close> loop are evaluated once. \<open>exec\<close> runs a statement: every \<open>while\<close> loop gets at
  most \<open>F\<close> iterations; a scope runs its body once. Integers are not bounded here.
\<close>

section \<open>Syntax\<close>

record Var =
  var_id :: nat
  name_hint :: string
  var_type :: nat

datatype 'o Expr =
    EVar Var
  | ConstInt int
  | ConstBool bool
  | Neg "'o Expr"
  | Not "'o Expr"
  | And "'o Expr" "'o Expr"
  | Add "'o Expr" "'o Expr"
  | Lt "'o Expr" "'o Expr"
  | Gt "'o Expr" "'o Expr"
  | Op 'o "'o Expr list"

datatype ForKind = Sequential | Parallel | Unroll | Pipeline

datatype HardwareLoopPolicy = Auto | Require

datatype ScopeKind = InCore | Cluster | Hierarchy | Spmd | Runtime | CommDomain | SplitAiv | Graph | Reg

text \<open>The header of a \<open>for\<close> loop; an iteration argument is a variable with its initial value.\<close>

record 'o ForHead =
  for_kind :: ForKind
  hardware_loop_policy :: HardwareLoopPolicy
  loop_var :: Var
  for_start :: "'o Expr"
  for_stop :: "'o Expr"
  for_step :: "'o Expr"

datatype 'o Stmt =
    AssignStmt Var "'o Expr"
  | EvalStmt "'o Expr"
  | YieldStmt "'o Expr list"
  | ReturnStmt "'o Expr list"
  | BreakStmt
  | ContinueStmt
  | SeqStmts "'o Stmt list"
  | IfStmt "'o Expr" "'o Stmt" "'o Stmt option" "Var list"
  | ForStmt "'o ForHead" "(Var \<times> 'o Expr) list" "'o Stmt" "Var list"
  | WhileStmt "'o Expr" "(Var \<times> 'o Expr) list" "'o Stmt" "Var list"
  | ScopeStmt ScopeKind "'o Expr option" "'o Stmt"

record 'o Function =
  params :: "Var list"
  body :: "'o Stmt"

text \<open>\<open>SeqStmts::Flatten\<close>: nested sequences are spliced in to a depth of two, a single statement stands for itself.\<close>

fun seq_items :: "'o Stmt \<Rightarrow> 'o Stmt list" where
  "seq_items (SeqStmts ss) = ss"
| "seq_items s = [s]"

definition flat_items :: "'o Stmt list \<Rightarrow> 'o Stmt list" where
  "flat_items stmts = concat (map (\<lambda>s. case s of SeqStmts ss \<Rightarrow> concat (map seq_items ss) | _ \<Rightarrow> [s]) stmts)"

definition Flatten :: "'o Stmt list \<Rightarrow> 'o Stmt" where
  "Flatten stmts = (case flat_items stmts of [s] \<Rightarrow> s | _ \<Rightarrow> SeqStmts (flat_items stmts))"

text \<open>\<open>transform_utils::EvalConstInt\<close>.\<close>

definition EvalConstInt :: "'o Expr \<Rightarrow> int option" where
  "EvalConstInt e =
     (case e of
        ConstInt i \<Rightarrow> Some i
      | Neg (ConstInt i) \<Rightarrow> if i = INT64_MIN then None else Some (- i)
      | _ \<Rightarrow> None)"

section \<open>Values and expressions\<close>

datatype 'a val = IntV int | BoolV bool | Obj 'a

type_synonym 'a env = "nat \<Rightarrow> 'a val option"
type_synonym ('o, 'a, 'w) meaning = "'o \<Rightarrow> 'a val list \<Rightarrow> 'w \<Rightarrow> ('a val \<times> 'w) option"

definition and_then :: "('v \<times> 'w) option \<Rightarrow> ('v \<Rightarrow> 'w \<Rightarrow> ('u \<times> 'w) option) \<Rightarrow> ('u \<times> 'w) option" where
  "and_then r f = (case r of None \<Rightarrow> None | Some (v, w) \<Rightarrow> f v w)"

lemma and_then_simps [simp]: "and_then None f = None" "and_then (Some (v, w)) f = f v w"
  by (simp_all add: and_then_def)

lemma and_then_cong [fundef_cong]:
  "r = r' \<Longrightarrow> (\<And>v w. r' = Some (v, w) \<Longrightarrow> f v w = f' v w) \<Longrightarrow> and_then r f = and_then r' f'"
  by (auto simp: and_then_def split: option.splits)

definition on_int :: "(int \<Rightarrow> 'a val) \<Rightarrow> 'a val \<Rightarrow> 'w \<Rightarrow> ('a val \<times> 'w) option" where
  "on_int f v w = (case v of IntV x \<Rightarrow> Some (f x, w) | _ \<Rightarrow> None)"

definition on_ints :: "(int \<Rightarrow> int \<Rightarrow> 'a val) \<Rightarrow> 'a val \<Rightarrow> 'a val \<Rightarrow> 'w \<Rightarrow> ('a val \<times> 'w) option" where
  "on_ints f u v w = (case (u, v) of (IntV x, IntV y) \<Rightarrow> Some (f x y, w) | _ \<Rightarrow> None)"

definition on_bools :: "(bool \<Rightarrow> bool \<Rightarrow> 'a val) \<Rightarrow> 'a val \<Rightarrow> 'a val \<Rightarrow> 'w \<Rightarrow> ('a val \<times> 'w) option" where
  "on_bools f u v w = (case (u, v) of (BoolV x, BoolV y) \<Rightarrow> Some (f x y, w) | _ \<Rightarrow> None)"

text \<open>The value of an expression and the world it leaves; none where it reads what is not there.\<close>

fun ev :: "('o, 'a, 'w) meaning \<Rightarrow> 'a env \<Rightarrow> 'o Expr \<Rightarrow> 'w \<Rightarrow> ('a val \<times> 'w) option"
  and evs :: "('o, 'a, 'w) meaning \<Rightarrow> 'a env \<Rightarrow> 'o Expr list \<Rightarrow> 'w \<Rightarrow> ('a val list \<times> 'w) option" where
  "ev I \<sigma> (EVar x) w = map_option (\<lambda>v. (v, w)) (\<sigma> (var_id x))"
| "ev I \<sigma> (ConstInt i) w = Some (IntV i, w)"
| "ev I \<sigma> (ConstBool b) w = Some (BoolV b, w)"
| "ev I \<sigma> (Neg a) w = and_then (ev I \<sigma> a w) (on_int (\<lambda>x. IntV (- x)))"
| "ev I \<sigma> (Not a) w = and_then (ev I \<sigma> a w) (\<lambda>v w. on_bools (\<lambda>x _. BoolV (\<not> x)) v v w)"
| "ev I \<sigma> (And a b) w = and_then (ev I \<sigma> a w) (\<lambda>u w. and_then (ev I \<sigma> b w) (on_bools (\<lambda>x y. BoolV (x \<and> y)) u))"
| "ev I \<sigma> (Add a b) w = and_then (ev I \<sigma> a w) (\<lambda>u w. and_then (ev I \<sigma> b w) (on_ints (\<lambda>x y. IntV (x + y)) u))"
| "ev I \<sigma> (Lt a b) w = and_then (ev I \<sigma> a w) (\<lambda>u w. and_then (ev I \<sigma> b w) (on_ints (\<lambda>x y. BoolV (x < y)) u))"
| "ev I \<sigma> (Gt a b) w = and_then (ev I \<sigma> a w) (\<lambda>u w. and_then (ev I \<sigma> b w) (on_ints (\<lambda>x y. BoolV (x > y)) u))"
| "ev I \<sigma> (Op f es) w = and_then (evs I \<sigma> es w) (I f)"
| "evs I \<sigma> [] w = Some ([], w)"
| "evs I \<sigma> (e # es) w = and_then (ev I \<sigma> e w) (\<lambda>v w. and_then (evs I \<sigma> es w) (\<lambda>vs w. Some (v # vs, w)))"

text \<open>What a yield, an iteration argument or a branch hands over: a variable that has no value yet is copied as such.\<close>

fun copies :: "('o, 'a, 'w) meaning \<Rightarrow> 'a env \<Rightarrow> 'o Expr list \<Rightarrow> 'w \<Rightarrow> ('a val option list \<times> 'w) option" where
  "copies I \<sigma> [] w = Some ([], w)"
| "copies I \<sigma> (e # es) w =
     and_then (case e of EVar x \<Rightarrow> Some (\<sigma> (var_id x), w) | _ \<Rightarrow> map_option (\<lambda>(v, w). (Some v, w)) (ev I \<sigma> e w))
       (\<lambda>v w. and_then (copies I \<sigma> es w) (\<lambda>vs w. Some (v # vs, w)))"

section \<open>Statements\<close>

datatype ('a, 'w) outcome =
    Normal "'a env" 'w
  | Yields "'a val option list" "'a env" 'w
  | Breaks "'a env" 'w
  | Continues "'a env" 'w
  | Returns "'a val list" 'w
  | Fault
  | Timeout

definition set_var :: "Var \<Rightarrow> 'a val option \<Rightarrow> 'a env \<Rightarrow> 'a env" where
  "set_var x v \<sigma> = \<sigma>(var_id x := v)"

fun set_vars :: "Var list \<Rightarrow> 'a val option list \<Rightarrow> 'a env \<Rightarrow> 'a env" where
  "set_vars (x # xs) (v # vs) \<sigma> = set_vars xs vs (set_var x v \<sigma>)"
| "set_vars _ _ \<sigma> = \<sigma>"

text \<open>The variables of a list get the values back they had in another environment.\<close>

definition restore :: "Var list \<Rightarrow> 'a env \<Rightarrow> 'a env \<Rightarrow> 'a env" where
  "restore xs \<sigma>0 \<sigma> = (\<lambda>i. if i \<in> var_id ` set xs then \<sigma>0 i else \<sigma> i)"

text \<open>The values of the loop variable.\<close>

function up_range :: "int \<Rightarrow> int \<Rightarrow> int \<Rightarrow> int list" where
  "up_range i stop step = (if step > 0 \<and> i < stop then i # up_range (i + step) stop step else [])"
  by auto
termination by (relation "measure (\<lambda>(i, stop, _). nat (stop - i))") auto

function down_range :: "int \<Rightarrow> int \<Rightarrow> int \<Rightarrow> int list" where
  "down_range i stop step = (if step < 0 \<and> i > stop then i # down_range (i + step) stop step else [])"
  by auto
termination by (relation "measure (\<lambda>(i, stop, _). nat (i - stop))") auto

declare up_range.simps [simp del] down_range.simps [simp del]

definition range_values :: "int \<Rightarrow> int \<Rightarrow> int \<Rightarrow> int list" where
  "range_values start stop step = (if step > 0 then up_range start stop step else down_range start stop step)"

text \<open>
  One run of a loop body \<open>B\<close> with the current values of the iteration arguments: how the loop goes on.
  A body without iteration arguments may end without a yield, and only such a one may be left by a jump.
\<close>

datatype ('a, 'w) step = Again "'a val option list" "'a env" 'w | Leave "('a, 'w) outcome"

definition loop_step :: "nat \<Rightarrow> ('a, 'w) outcome \<Rightarrow> ('a, 'w) step" where
  "loop_step n out =
     (case out of
        Normal \<sigma> w \<Rightarrow> if n = 0 then Again [] \<sigma> w else Leave Fault
      | Continues \<sigma> w \<Rightarrow> if n = 0 then Again [] \<sigma> w else Leave Fault
      | Breaks \<sigma> w \<Rightarrow> Leave (if n = 0 then Yields [] \<sigma> w else Fault)
      | Yields vs \<sigma> w \<Rightarrow> if length vs = n then Again vs \<sigma> w else Leave Fault
      | Returns vs w \<Rightarrow> Leave (Returns vs w)
      | Fault \<Rightarrow> Leave Fault
      | Timeout \<Rightarrow> Leave Timeout)"

fun for_loop ::
  "('a env \<Rightarrow> 'w \<Rightarrow> ('a, 'w) outcome) \<Rightarrow> Var \<Rightarrow> Var list \<Rightarrow> int list \<Rightarrow> 'a val option list \<Rightarrow> 'a env \<Rightarrow> 'w \<Rightarrow>
    ('a, 'w) outcome" where
  "for_loop B lv ias [] vs \<sigma> w = Yields vs \<sigma> w"
| "for_loop B lv ias (i # is) vs \<sigma> w =
     (case loop_step (length ias) (B (set_vars ias vs (set_var lv (Some (IntV i)) \<sigma>)) w) of
        Again vs \<sigma> w \<Rightarrow> for_loop B lv ias is vs \<sigma> w
      | Leave out \<Rightarrow> out)"

fun while_loop ::
  "nat \<Rightarrow> ('a env \<Rightarrow> 'w \<Rightarrow> ('a val \<times> 'w) option) \<Rightarrow> ('a env \<Rightarrow> 'w \<Rightarrow> ('a, 'w) outcome) \<Rightarrow> Var list \<Rightarrow>
    'a val option list \<Rightarrow> 'a env \<Rightarrow> 'w \<Rightarrow> ('a, 'w) outcome" where
  "while_loop 0 C B ias vs \<sigma> w = Timeout"
| "while_loop (Suc n) C B ias vs \<sigma> w =
     (case C (set_vars ias vs \<sigma>) w of
        Some (BoolV True, w) \<Rightarrow>
          (case loop_step (length ias) (B (set_vars ias vs \<sigma>) w) of
             Again vs \<sigma> w \<Rightarrow> while_loop n C B ias vs \<sigma> w
           | Leave out \<Rightarrow> out)
      | Some (BoolV False, w) \<Rightarrow> Yields vs \<sigma> w
      | _ \<Rightarrow> Fault)"

text \<open>After a loop or a branch: the scoped variables get their old values back, the returned ones their new ones.\<close>

definition finish :: "Var list \<Rightarrow> 'a env \<Rightarrow> Var list \<Rightarrow> ('a, 'w) outcome \<Rightarrow> ('a, 'w) outcome" where
  "finish scoped \<sigma>0 rvs out =
     (case out of
        Yields vs \<sigma> w \<Rightarrow> if length vs = length rvs then Normal (set_vars rvs vs (restore scoped \<sigma>0 \<sigma>)) w else Fault
      | Returns us w \<Rightarrow> Returns us w
      | Timeout \<Rightarrow> Timeout
      | _ \<Rightarrow> Fault)"

definition branch_end :: "Var list \<Rightarrow> ('a, 'w) outcome \<Rightarrow> ('a, 'w) outcome" where
  "branch_end rvs out =
     (case out of
        Yields vs \<sigma> w \<Rightarrow> if length vs = length rvs then Normal (set_vars rvs vs \<sigma>) w else Fault
      | Normal \<sigma> w \<Rightarrow> if rvs = [] then out else Fault
      | _ \<Rightarrow> out)"

definition for_bounds ::
  "('o, 'a, 'w) meaning \<Rightarrow> 'a env \<Rightarrow> 'o ForHead \<Rightarrow> 'w \<Rightarrow> (int list \<times> 'w) option" where
  "for_bounds I \<sigma> h w =
     and_then (ev I \<sigma> (for_start h) w) (\<lambda>a w.
     and_then (ev I \<sigma> (for_stop h) w) (\<lambda>b w.
     and_then (ev I \<sigma> (for_step h) w) (\<lambda>c w.
       case (a, b, c) of
         (IntV start, IntV stop, IntV step) \<Rightarrow> if step = 0 then None else Some (range_values start stop step, w)
       | _ \<Rightarrow> None)))"

fun exec :: "('o, 'a, 'w) meaning \<Rightarrow> nat \<Rightarrow> 'o Stmt \<Rightarrow> 'a env \<Rightarrow> 'w \<Rightarrow> ('a, 'w) outcome"
  and execs :: "('o, 'a, 'w) meaning \<Rightarrow> nat \<Rightarrow> 'o Stmt list \<Rightarrow> 'a env \<Rightarrow> 'w \<Rightarrow> ('a, 'w) outcome" where
  "exec I F (AssignStmt x e) \<sigma> w =
     (case ev I \<sigma> e w of None \<Rightarrow> Fault | Some (v, w) \<Rightarrow> Normal (set_var x (Some v) \<sigma>) w)"
| "exec I F (EvalStmt e) \<sigma> w = (case ev I \<sigma> e w of None \<Rightarrow> Fault | Some (v, w) \<Rightarrow> Normal \<sigma> w)"
| "exec I F (YieldStmt es) \<sigma> w = (case copies I \<sigma> es w of None \<Rightarrow> Fault | Some (vs, w) \<Rightarrow> Yields vs \<sigma> w)"
| "exec I F (ReturnStmt es) \<sigma> w = (case evs I \<sigma> es w of None \<Rightarrow> Fault | Some (vs, w) \<Rightarrow> Returns vs w)"
| "exec I F BreakStmt \<sigma> w = Breaks \<sigma> w"
| "exec I F ContinueStmt \<sigma> w = Continues \<sigma> w"
| "exec I F (SeqStmts ss) \<sigma> w = execs I F ss \<sigma> w"
| "exec I F (IfStmt c a b rvs) \<sigma> w =
     (case ev I \<sigma> c w of
        Some (BoolV True, w) \<Rightarrow> branch_end rvs (exec I F a \<sigma> w)
      | Some (BoolV False, w) \<Rightarrow>
          branch_end rvs (case b of None \<Rightarrow> Normal \<sigma> w | Some b \<Rightarrow> exec I F b \<sigma> w)
      | _ \<Rightarrow> Fault)"
| "exec I F (ForStmt h ias B rvs) \<sigma> w =
     (case for_bounds I \<sigma> h w of
        None \<Rightarrow> Fault
      | Some (is, w) \<Rightarrow>
          (case copies I \<sigma> (map snd ias) w of
             None \<Rightarrow> Fault
           | Some (vs, w) \<Rightarrow>
               finish (loop_var h # map fst ias) \<sigma> rvs
                 (for_loop (exec I F B) (loop_var h) (map fst ias) is vs \<sigma> w)))"
| "exec I F (WhileStmt c ias B rvs) \<sigma> w =
     (case copies I \<sigma> (map snd ias) w of
        None \<Rightarrow> Fault
      | Some (vs, w) \<Rightarrow>
          finish (map fst ias) \<sigma> rvs (while_loop F (\<lambda>\<sigma>. ev I \<sigma> c) (exec I F B) (map fst ias) vs \<sigma> w))"
| "exec I F (ScopeStmt k n B) \<sigma> w =
     (case n of
        None \<Rightarrow> exec I F B \<sigma> w
      | Some e \<Rightarrow> (case ev I \<sigma> e w of None \<Rightarrow> Fault | Some (v, w) \<Rightarrow> exec I F B \<sigma> w))"
| "execs I F [] \<sigma> w = Normal \<sigma> w"
| "execs I F (s # ss) \<sigma> w = (case exec I F s \<sigma> w of Normal \<sigma> w \<Rightarrow> execs I F ss \<sigma> w | out \<Rightarrow> out)"

section \<open>Facts about runs\<close>

lemma evs_cong_map:
  "(\<And>e w. e \<in> set es \<Longrightarrow> ev I \<sigma> e w = ev I \<sigma>' (f e) w) \<Longrightarrow> evs I \<sigma> es w = evs I \<sigma>' (map f es) w"
  by (induction es arbitrary: w) (simp_all cong: and_then_cong)

lemma outcome_case_id [simp]: "(case out of Normal \<sigma> w \<Rightarrow> Normal \<sigma> w | _ \<Rightarrow> out) = out"
  by (cases out) simp_all

lemma execs_single [simp]: "execs I F [s] \<sigma> w = exec I F s \<sigma> w"
  by (cases "exec I F s \<sigma> w") simp_all

lemma execs_append: "execs I F (ss @ ts) \<sigma> w = (case execs I F ss \<sigma> w of Normal \<sigma> w \<Rightarrow> execs I F ts \<sigma> w | out \<Rightarrow> out)"
  by (induction ss arbitrary: \<sigma> w) (auto split: outcome.splits)

lemma execs_seq_items: "execs I F (seq_items s) \<sigma> w = exec I F s \<sigma> w"
  by (cases s) (simp_all only: seq_items.simps exec.simps(7) execs_single)

lemma exec_Flatten: "exec I F (Flatten ss) \<sigma> w = execs I F ss \<sigma> w"
proof -
  have items: "execs I F (concat (map seq_items ts)) \<sigma> w = execs I F ts \<sigma> w" for ts \<sigma> w
    by (induction ts arbitrary: \<sigma> w) (auto simp: execs_append execs_seq_items split: outcome.splits)
  have one: "execs I F (case s of SeqStmts ss \<Rightarrow> concat (map seq_items ss) | _ \<Rightarrow> [s]) \<sigma> w = exec I F s \<sigma> w"
    for s \<sigma> w
    by (cases s) (simp_all only: Stmt.case items exec.simps(7) execs_single)
  have "execs I F (flat_items ss) \<sigma> w = execs I F ss \<sigma> w"
    unfolding flat_items_def
    by (induction ss arbitrary: \<sigma> w) (auto simp: execs_append one split: outcome.splits)
  then show ?thesis
    by (auto simp: Flatten_def simp del: execs.simps split: list.splits)
qed

text \<open>What is computed over the items of a sequence does not see the flattening.\<close>

lemma Flatten_ex:
  assumes "\<And>ts. P (SeqStmts ts) \<longleftrightarrow> (\<exists>t\<in>set ts. P t)"
  shows "P (Flatten ss) \<longleftrightarrow> (\<exists>s\<in>set ss. P s)"
proof -
  have item: "(\<exists>t\<in>set (seq_items s). P t) \<longleftrightarrow> P s" for s by (cases s rule: seq_items.cases) (simp_all add: assms)
  have "(\<exists>t\<in>set (case s of SeqStmts ss \<Rightarrow> concat (map seq_items ss) | _ \<Rightarrow> [s]). P t) \<longleftrightarrow> P s" for s
    by (cases s) (use item in \<open>auto simp: assms\<close>)
  then have "(\<exists>t\<in>set (flat_items ss). P t) \<longleftrightarrow> (\<exists>s\<in>set ss. P s)" unfolding flat_items_def by auto
  then show ?thesis by (auto simp: Flatten_def assms split: list.splits)
qed

lemma Flatten_all:
  assumes "\<And>ts. P (SeqStmts ts) \<longleftrightarrow> (\<forall>t\<in>set ts. P t)"
  shows "P (Flatten ss) \<longleftrightarrow> (\<forall>s\<in>set ss. P s)"
  using Flatten_ex [of "\<lambda>s. \<not> P s" ss] assms by auto

lemma Flatten_sum_list:
  fixes f :: "'o Stmt \<Rightarrow> 'm::monoid_add"
  assumes "\<And>ts. f (SeqStmts ts) = sum_list (map f ts)"
  shows "f (Flatten ss) = sum_list (map f ss)"
proof -
  have item: "sum_list (map f (seq_items s)) = f s" for s by (cases s rule: seq_items.cases) (simp_all add: assms)
  have items: "sum_list (map f (concat (map seq_items ts))) = sum_list (map f ts)" for ts
    by (induction ts) (simp_all add: item)
  have one: "sum_list (map f (case s of SeqStmts ss \<Rightarrow> concat (map seq_items ss) | _ \<Rightarrow> [s])) = f s" for s
    by (cases s) (simp_all add: assms items)
  have "sum_list (map f (flat_items ss)) = sum_list (map f ss)"
    unfolding flat_items_def by (induction ss) (simp_all add: one)
  then show ?thesis by (auto simp: Flatten_def assms split: list.splits)
qed

text \<open>What a run may change.\<close>

fun writes :: "'o Stmt \<Rightarrow> nat set" where
  "writes (AssignStmt x e) = {var_id x}"
| "writes (SeqStmts ss) = (\<Union>s\<in>set ss. writes s)"
| "writes (IfStmt c a b rvs) = writes a \<union> (case b of None \<Rightarrow> {} | Some b \<Rightarrow> writes b) \<union> var_id ` set rvs"
| "writes (ForStmt h ias B rvs) = (writes B - var_id ` set (loop_var h # map fst ias)) \<union> var_id ` set rvs"
| "writes (WhileStmt c ias B rvs) = (writes B - var_id ` set (map fst ias)) \<union> var_id ` set rvs"
| "writes (ScopeStmt k n B) = writes B"
| "writes _ = {}"

fun out_env :: "('a, 'w) outcome \<Rightarrow> 'a env option" where
  "out_env (Normal \<sigma> w) = Some \<sigma>"
| "out_env (Yields vs \<sigma> w) = Some \<sigma>"
| "out_env (Breaks \<sigma> w) = Some \<sigma>"
| "out_env (Continues \<sigma> w) = Some \<sigma>"
| "out_env _ = None"

definition changes_only :: "nat set \<Rightarrow> 'a env \<Rightarrow> ('a, 'w) outcome \<Rightarrow> bool" where
  "changes_only X \<sigma> out \<longleftrightarrow> (\<forall>\<sigma>'. out_env out = Some \<sigma>' \<longrightarrow> (\<forall>i. i \<notin> X \<longrightarrow> \<sigma>' i = \<sigma> i))"

lemma changes_only_simps [simp]:
  "changes_only X \<sigma> (Normal \<sigma>' w) \<longleftrightarrow> (\<forall>i. i \<notin> X \<longrightarrow> \<sigma>' i = \<sigma> i)"
  "changes_only X \<sigma> (Yields vs \<sigma>' w) \<longleftrightarrow> (\<forall>i. i \<notin> X \<longrightarrow> \<sigma>' i = \<sigma> i)"
  "changes_only X \<sigma> (Breaks \<sigma>' w) \<longleftrightarrow> (\<forall>i. i \<notin> X \<longrightarrow> \<sigma>' i = \<sigma> i)"
  "changes_only X \<sigma> (Continues \<sigma>' w) \<longleftrightarrow> (\<forall>i. i \<notin> X \<longrightarrow> \<sigma>' i = \<sigma> i)"
  "changes_only X \<sigma> (Returns us w)" "changes_only X \<sigma> Fault" "changes_only X \<sigma> Timeout"
  by (simp_all add: changes_only_def)

lemma changes_only_mono: "changes_only X \<sigma> out \<Longrightarrow> X \<subseteq> Y \<Longrightarrow> changes_only Y \<sigma> out"
  by (auto simp: changes_only_def)

lemma changes_only_trans:
  "changes_only X \<sigma> out \<Longrightarrow> (\<And>i. i \<notin> X \<Longrightarrow> \<sigma> i = \<sigma>0 i) \<Longrightarrow> changes_only X \<sigma>0 out"
  by (auto simp: changes_only_def)

lemma set_vars_other: "i \<notin> var_id ` set xs \<Longrightarrow> set_vars xs vs \<sigma> i = \<sigma> i"
  by (induction xs vs \<sigma> rule: set_vars.induct) (auto simp: set_var_def)

lemma for_loop_writes:
  assumes "\<And>\<sigma> w. changes_only X \<sigma> (B \<sigma> w)"
  shows "changes_only (X \<union> var_id ` set (lv # ias)) \<sigma> (for_loop B lv ias is vs \<sigma> w)"
proof (induction "is" arbitrary: vs \<sigma> w)
  case (Cons i "is")
  let ?Y = "X \<union> var_id ` set (lv # ias)" and ?\<sigma> = "set_vars ias vs (set_var lv (Some (IntV i)) \<sigma>)"
  have start: "?\<sigma> j = \<sigma> j" if "j \<notin> ?Y" for j using that by (simp add: set_vars_other set_var_def)
  have b: "changes_only ?Y \<sigma> (B ?\<sigma> w)"
    by (rule changes_only_trans [OF changes_only_mono [OF assms]]) (auto simp: start)
  show ?case
  proof (cases "loop_step (length ias) (B ?\<sigma> w)")
    case (Again vs' \<sigma>' w')
    with b have "\<sigma>' j = \<sigma> j" if "j \<notin> ?Y" for j
      using that by (auto simp: loop_step_def split: outcome.splits if_splits)
    with Again show ?thesis using changes_only_trans [OF Cons.IH] by simp
  next
    case (Leave out)
    with b show ?thesis by (cases "B ?\<sigma> w") (auto simp: loop_step_def split: if_splits)
  qed
qed simp

lemma while_loop_writes:
  assumes "\<And>\<sigma> w. changes_only X \<sigma> (B \<sigma> w)"
  shows "changes_only (X \<union> var_id ` set ias) \<sigma> (while_loop n C B ias vs \<sigma> w)"
proof (induction n arbitrary: vs \<sigma> w)
  case (Suc n)
  let ?Y = "X \<union> var_id ` set ias" and ?\<sigma> = "set_vars ias vs \<sigma>"
  have start: "?\<sigma> j = \<sigma> j" if "j \<notin> ?Y" for j using that by (simp add: set_vars_other)
  have b: "changes_only ?Y \<sigma> (B ?\<sigma> w')" for w'
    by (rule changes_only_trans [OF changes_only_mono [OF assms]]) (auto simp: start)
  have body: "changes_only ?Y \<sigma> (case loop_step (length ias) (B ?\<sigma> w') of
      Again vs \<sigma> w \<Rightarrow> while_loop n C B ias vs \<sigma> w | Leave out \<Rightarrow> out)" for w'
  proof (cases "loop_step (length ias) (B ?\<sigma> w')")
    case (Again vs' \<sigma>' w'')
    with b [of w'] have "\<sigma>' j = \<sigma> j" if "j \<notin> ?Y" for j
      using that by (auto simp: loop_step_def split: outcome.splits if_splits)
    with Again show ?thesis using changes_only_trans [OF Suc.IH] by simp
  next
    case (Leave out)
    with b [of w'] show ?thesis by (cases "B ?\<sigma> w'") (auto simp: loop_step_def split: if_splits)
  qed
  then show ?case by (auto split: option.splits prod.splits val.splits bool.splits)
qed simp

lemma finish_writes:
  assumes "changes_only (X \<union> var_id ` set xs) \<sigma>0 out"
  shows "changes_only ((X - var_id ` set xs) \<union> var_id ` set rvs) \<sigma>0 (finish xs \<sigma>0 rvs out)"
  using assms by (cases out) (auto simp: finish_def set_vars_other restore_def)

lemma branch_end_writes:
  "changes_only X \<sigma> out \<Longrightarrow> changes_only (X \<union> var_id ` set rvs) \<sigma> (branch_end rvs out)"
  by (cases out) (auto simp: branch_end_def set_vars_other)

lemma exec_writes: "changes_only (writes s) \<sigma> (exec I F s \<sigma> w)"
proof (induction s arbitrary: \<sigma> w)
  case (SeqStmts ss)
  have "set ts \<subseteq> set ss \<Longrightarrow> changes_only (\<Union>s\<in>set ss. writes s) \<sigma> (execs I F ts \<sigma> w)" for ts
  proof (induction ts arbitrary: \<sigma> w)
    case (Cons t ts)
    then have t: "changes_only (\<Union>s\<in>set ss. writes s) \<sigma> (exec I F t \<sigma> w)"
      by (intro changes_only_mono [OF SeqStmts.IH [of t]]) auto
    have ts: "changes_only (\<Union>s\<in>set ss. writes s) \<sigma>' (execs I F ts \<sigma>' w')" for \<sigma>' w' using Cons by simp
    show ?case using t changes_only_trans [OF ts] by (cases "exec I F t \<sigma> w") auto
  qed simp
  then show ?case by simp
next
  case (IfStmt c a b rvs)
  have a: "changes_only (writes (IfStmt c a b rvs)) \<sigma> (branch_end rvs (exec I F a \<sigma> w'))" for w'
    by (rule changes_only_mono [OF branch_end_writes [OF IfStmt.IH(1)]]) auto
  have b: "changes_only (writes (IfStmt c a b rvs)) \<sigma>
      (branch_end rvs (case b of None \<Rightarrow> Normal \<sigma> w' | Some b \<Rightarrow> exec I F b \<sigma> w'))" for w'
  proof (cases b)
    case (Some b')
    then have "changes_only (writes b') \<sigma> (exec I F b' \<sigma> w')" using IfStmt.IH(2) by simp
    from branch_end_writes [OF this] have "changes_only (writes b' \<union> var_id ` set rvs) \<sigma>
        (branch_end rvs (exec I F b' \<sigma> w'))" .
    then show ?thesis unfolding Some option.case by (rule changes_only_mono) (auto simp: Some)
  qed (simp add: branch_end_def)
  show ?case
    unfolding exec.simps using a b by (auto simp del: writes.simps split: option.splits prod.splits val.splits bool.splits)
next
  case (ForStmt h ias B rvs)
  have "changes_only (writes (ForStmt h ias B rvs)) \<sigma> (finish (loop_var h # map fst ias) \<sigma> rvs
      (for_loop (exec I F B) (loop_var h) (map fst ias) is vs \<sigma> w'))" for "is" vs w'
    unfolding writes.simps by (rule finish_writes [OF for_loop_writes]) (rule ForStmt.IH)
  then show ?case unfolding exec.simps by (auto simp del: writes.simps split: option.splits prod.splits)
next
  case (WhileStmt c ias B rvs)
  have "changes_only (writes (WhileStmt c ias B rvs)) \<sigma> (finish (map fst ias) \<sigma> rvs
      (while_loop F (\<lambda>\<sigma>. ev I \<sigma> c) (exec I F B) (map fst ias) vs \<sigma> w'))" for vs w'
    unfolding writes.simps by (rule finish_writes [OF while_loop_writes]) (rule WhileStmt.IH)
  then show ?case unfolding exec.simps by (auto simp del: writes.simps split: option.splits prod.splits)
qed (auto simp: set_var_def split: option.splits prod.splits)

end
