(* ===== verification/Stmt_Checks.thy ===== *)
theory Stmt_Checks
  imports Stmt_IR
begin

text \<open>
  The two checks of jumps: \<^verbatim>\<open>src/ir/verifier/verify_break_continue_pass.cpp\<close> (no jump outside a loop, in a
  parallel or in an unrolled one) and \<^verbatim>\<open>verify_structured_ctrl_flow_pass.cpp\<close> (no jump at all), each as the
  list of the errors it reports; and what acceptance says about a run.
\<close>

section \<open>The verifiers\<close>

datatype JumpError =
    BREAK_IN_PARALLEL_LOOP
  | BREAK_IN_UNROLL_LOOP
  | CONTINUE_IN_PARALLEL_LOOP
  | CONTINUE_IN_UNROLL_LOOP
  | BREAK_OUTSIDE_LOOP
  | CONTINUE_OUTSIDE_LOOP

definition CheckLoopControl :: "ForKind list \<Rightarrow> JumpError \<Rightarrow> JumpError \<Rightarrow> JumpError \<Rightarrow> JumpError list" where
  "CheckLoopControl stack outside_error parallel_error unroll_error =
     (case stack of
        [] \<Rightarrow> [outside_error]
      | Parallel # _ \<Rightarrow> [parallel_error]
      | Unroll # _ \<Rightarrow> [unroll_error]
      | _ \<Rightarrow> [])"

text \<open>The head of the list is the back of \<^verbatim>\<open>loop_kind_stack_\<close>.\<close>

fun BreakContinueVerifier :: "ForKind list \<Rightarrow> 'o Stmt \<Rightarrow> JumpError list" where
  "BreakContinueVerifier st BreakStmt =
     CheckLoopControl st BREAK_OUTSIDE_LOOP BREAK_IN_PARALLEL_LOOP BREAK_IN_UNROLL_LOOP"
| "BreakContinueVerifier st ContinueStmt =
     CheckLoopControl st CONTINUE_OUTSIDE_LOOP CONTINUE_IN_PARALLEL_LOOP CONTINUE_IN_UNROLL_LOOP"
| "BreakContinueVerifier st (SeqStmts ss) = concat (map (BreakContinueVerifier st) ss)"
| "BreakContinueVerifier st (IfStmt c a b rvs) =
     BreakContinueVerifier st a @ (case b of None \<Rightarrow> [] | Some b \<Rightarrow> BreakContinueVerifier st b)"
| "BreakContinueVerifier st (ForStmt h ias B rvs) = BreakContinueVerifier (for_kind h # st) B"
| "BreakContinueVerifier st (WhileStmt c ias B rvs) = BreakContinueVerifier (Sequential # st) B"
| "BreakContinueVerifier st (ScopeStmt k n B) = BreakContinueVerifier st B"
| "BreakContinueVerifier st _ = []"

datatype CtrlFlowError = BreakFound | ContinueFound

fun StructuredCtrlFlowChecker :: "'o Stmt \<Rightarrow> CtrlFlowError list" where
  "StructuredCtrlFlowChecker BreakStmt = [BreakFound]"
| "StructuredCtrlFlowChecker ContinueStmt = [ContinueFound]"
| "StructuredCtrlFlowChecker (SeqStmts ss) = concat (map StructuredCtrlFlowChecker ss)"
| "StructuredCtrlFlowChecker (IfStmt c a b rvs) =
     StructuredCtrlFlowChecker a @ (case b of None \<Rightarrow> [] | Some b \<Rightarrow> StructuredCtrlFlowChecker b)"
| "StructuredCtrlFlowChecker (ForStmt h ias B rvs) = StructuredCtrlFlowChecker B"
| "StructuredCtrlFlowChecker (WhileStmt c ias B rvs) = StructuredCtrlFlowChecker B"
| "StructuredCtrlFlowChecker (ScopeStmt k n B) = StructuredCtrlFlowChecker B"
| "StructuredCtrlFlowChecker _ = []"

section \<open>Jumps and yields that leave a statement\<close>

text \<open>The jumps of a statement that are not inside a loop of its own, and its yields outside loops and branches.\<close>

fun has_break :: "'o Stmt \<Rightarrow> bool" where
  "has_break BreakStmt = True"
| "has_break (SeqStmts ss) = (\<exists>s\<in>set ss. has_break s)"
| "has_break (IfStmt c a b rvs) = (has_break a \<or> (case b of None \<Rightarrow> False | Some b \<Rightarrow> has_break b))"
| "has_break (ScopeStmt k n B) = has_break B"
| "has_break _ = False"

fun has_continue :: "'o Stmt \<Rightarrow> bool" where
  "has_continue ContinueStmt = True"
| "has_continue (SeqStmts ss) = (\<exists>s\<in>set ss. has_continue s)"
| "has_continue (IfStmt c a b rvs) = (has_continue a \<or> (case b of None \<Rightarrow> False | Some b \<Rightarrow> has_continue b))"
| "has_continue (ScopeStmt k n B) = has_continue B"
| "has_continue _ = False"

fun has_yield :: "'o Stmt \<Rightarrow> bool" where
  "has_yield (YieldStmt es) = True"
| "has_yield (SeqStmts ss) = (\<exists>s\<in>set ss. has_yield s)"
| "has_yield (ScopeStmt k n B) = has_yield B"
| "has_yield _ = False"

lemma finish_simps [simp]:
  "finish xs \<sigma>0 rvs out \<noteq> Breaks \<sigma> w"
  "finish xs \<sigma>0 rvs out \<noteq> Continues \<sigma> w"
  "finish xs \<sigma>0 rvs out \<noteq> Yields vs \<sigma> w"
  "branch_end rvs out = Breaks \<sigma> w \<longleftrightarrow> out = Breaks \<sigma> w"
  "branch_end rvs out = Continues \<sigma> w \<longleftrightarrow> out = Continues \<sigma> w"
  "branch_end rvs out \<noteq> Yields vs \<sigma> w"
  by (auto simp: finish_def branch_end_def split: outcome.splits)

lemma no_break: "\<not> has_break s \<Longrightarrow> exec I F s \<sigma> w \<noteq> Breaks \<sigma>' w'"
  and no_breaks: "\<forall>s\<in>set ss. \<not> has_break s \<Longrightarrow> execs I F ss \<sigma> w \<noteq> Breaks \<sigma>' w'"
  by (induction I F s \<sigma> w and I F ss \<sigma> w arbitrary: \<sigma>' w' and \<sigma>' w' rule: exec_execs.induct)
    (auto split: option.splits prod.splits val.splits bool.splits outcome.splits)

lemma no_continue: "\<not> has_continue s \<Longrightarrow> exec I F s \<sigma> w \<noteq> Continues \<sigma>' w'"
  and no_continues: "\<forall>s\<in>set ss. \<not> has_continue s \<Longrightarrow> execs I F ss \<sigma> w \<noteq> Continues \<sigma>' w'"
  by (induction I F s \<sigma> w and I F ss \<sigma> w arbitrary: \<sigma>' w' and \<sigma>' w' rule: exec_execs.induct)
    (auto split: option.splits prod.splits val.splits bool.splits outcome.splits)

lemma no_yield: "\<not> has_yield s \<Longrightarrow> exec I F s \<sigma> w \<noteq> Yields vs \<sigma>' w'"
  and no_yields: "\<forall>s\<in>set ss. \<not> has_yield s \<Longrightarrow> execs I F ss \<sigma> w \<noteq> Yields vs \<sigma>' w'"
  by (induction I F s \<sigma> w and I F ss \<sigma> w arbitrary: vs \<sigma>' w' and vs \<sigma>' w' rule: exec_execs.induct)
    (auto split: option.splits prod.splits val.splits bool.splits outcome.splits)

text \<open>Acceptance by the verifiers.\<close>

lemma structured_no_jump: "StructuredCtrlFlowChecker s = [] \<Longrightarrow> \<not> has_break s \<and> \<not> has_continue s"
  by (induction s rule: StructuredCtrlFlowChecker.induct) (auto split: option.splits)

lemma verified_no_jump:
  "BreakContinueVerifier st s = [] \<Longrightarrow> st = [] \<or> hd st = Parallel \<or> hd st = Unroll \<Longrightarrow> \<not> has_break s \<and> \<not> has_continue s"
proof (induction st s rule: BreakContinueVerifier.induct)
  case (1 st)
  then show ?case by (cases st) (auto simp: CheckLoopControl_def)
next
  case (2 st)
  then show ?case by (cases st) (auto simp: CheckLoopControl_def)
qed (auto split: option.splits)

end
