(* ===== verification/Unroll_Loops.thy ===== *)
theory Unroll_Loops
  imports Stmt_Checks
begin

text \<open>
  The pass that expands the loops of kind \<open>Unroll\<close> (\<^verbatim>\<open>src/ir/transforms/unroll_loops_pass.cpp\<close>) with the
  copy of a loop body it makes (\<^verbatim>\<open>DeepClone\<close> with \<^verbatim>\<open>clone_def_vars = false\<close>, \<^verbatim>\<open>utils/deep_clone_utils.cpp\<close>),
  both over the default traversal of \<^verbatim>\<open>mutator.cpp\<close>. A traversal returns the new statement and whether it
  is a new object, on which the flattening of a sequence depends. An iteration argument that is copied keeps
  its identity here, which is scoped to its loop.
\<close>

section \<open>Copies with the loop variable replaced\<close>

text \<open>Whether the variable occurs, and the expression with a literal in its place.\<close>

fun occurs :: "nat \<Rightarrow> 'o Expr \<Rightarrow> bool" where
  "occurs x (EVar y) \<longleftrightarrow> var_id y = x"
| "occurs x (ConstInt i) \<longleftrightarrow> False"
| "occurs x (ConstBool b) \<longleftrightarrow> False"
| "occurs x (Neg a) \<longleftrightarrow> occurs x a"
| "occurs x (Not a) \<longleftrightarrow> occurs x a"
| "occurs x (And a b) \<longleftrightarrow> occurs x a \<or> occurs x b"
| "occurs x (Add a b) \<longleftrightarrow> occurs x a \<or> occurs x b"
| "occurs x (Lt a b) \<longleftrightarrow> occurs x a \<or> occurs x b"
| "occurs x (Gt a b) \<longleftrightarrow> occurs x a \<or> occurs x b"
| "occurs x (Op f es) \<longleftrightarrow> (\<exists>e\<in>set es. occurs x e)"

fun subst :: "nat \<Rightarrow> int \<Rightarrow> 'o Expr \<Rightarrow> 'o Expr" where
  "subst x i (EVar y) = (if var_id y = x then ConstInt i else EVar y)"
| "subst x i (ConstInt j) = ConstInt j"
| "subst x i (ConstBool b) = ConstBool b"
| "subst x i (Neg a) = Neg (subst x i a)"
| "subst x i (Not a) = Not (subst x i a)"
| "subst x i (And a b) = And (subst x i a) (subst x i b)"
| "subst x i (Add a b) = Add (subst x i a) (subst x i b)"
| "subst x i (Lt a b) = Lt (subst x i a) (subst x i b)"
| "subst x i (Gt a b) = Gt (subst x i a) (subst x i b)"
| "subst x i (Op f es) = Op f (map (subst x i) es)"

text \<open>A variable that is defined must still be a variable after the traversal.\<close>

definition not_replaced :: "nat \<Rightarrow> Var list \<Rightarrow> unit res" where
  "not_replaced x ys = check InternalError (x \<notin> var_id ` set ys)"

definition subst_head :: "nat \<Rightarrow> int \<Rightarrow> 'o ForHead \<Rightarrow> 'o ForHead" where
  "subst_head x i h = h\<lparr>for_start := subst x i (for_start h), for_stop := subst x i (for_stop h),
     for_step := subst x i (for_step h)\<rparr>"

definition subst_args :: "nat \<Rightarrow> int \<Rightarrow> (Var \<times> 'o Expr) list \<Rightarrow> (Var \<times> 'o Expr) list" where
  "subst_args x i ias = map (\<lambda>(y, e). (y, subst x i e)) ias"

fun clone :: "nat \<Rightarrow> int \<Rightarrow> 'o Stmt \<Rightarrow> ('o Stmt \<times> bool) res"
  and clones :: "nat \<Rightarrow> int \<Rightarrow> 'o Stmt list \<Rightarrow> ('o Stmt list \<times> bool) res" where
  "clone x i (AssignStmt y e) =
     res_bind (not_replaced x [y]) (\<lambda>_. Inr (AssignStmt y (subst x i e), occurs x e))"
| "clone x i (EvalStmt e) = Inr (EvalStmt (subst x i e), occurs x e)"
| "clone x i (YieldStmt es) = Inr (YieldStmt (map (subst x i) es), list_ex (occurs x) es)"
| "clone x i (ReturnStmt es) = Inr (ReturnStmt (map (subst x i) es), list_ex (occurs x) es)"
| "clone x i BreakStmt = Inr (BreakStmt, False)"
| "clone x i ContinueStmt = Inr (ContinueStmt, False)"
| "clone x i (SeqStmts ss) =
     res_bind (clones x i ss) (\<lambda>(ss', changed). Inr (if changed then Flatten ss' else SeqStmts ss, changed))"
| "clone x i (IfStmt c a b rvs) =
     res_bind (clone x i a) (\<lambda>(a', a_changed).
     res_bind (case b of None \<Rightarrow> Inr (None, False)
       | Some b \<Rightarrow> res_bind (clone x i b) (\<lambda>(b', b_changed). Inr (Some b', b_changed))) (\<lambda>(b', b_changed).
     res_bind (not_replaced x rvs) (\<lambda>_.
       Inr (IfStmt (subst x i c) a' b' rvs, occurs x c \<or> a_changed \<or> b_changed))))"
| "clone x i (ForStmt h ias B rvs) =
     res_bind (not_replaced x (loop_var h # map fst ias)) (\<lambda>_.
     res_bind (clone x i B) (\<lambda>(B', B_changed).
     res_bind (not_replaced x rvs) (\<lambda>_.
       Inr (ForStmt (subst_head x i h) (subst_args x i ias) B' rvs,
         occurs x (for_start h) \<or> occurs x (for_stop h) \<or> occurs x (for_step h) \<or> ias \<noteq> [] \<or> B_changed))))"
| "clone x i (WhileStmt c ias B rvs) =
     res_bind (not_replaced x (map fst ias)) (\<lambda>_.
     res_bind (clone x i B) (\<lambda>(B', B_changed).
     res_bind (not_replaced x rvs) (\<lambda>_.
       Inr (WhileStmt (subst x i c) (subst_args x i ias) B' rvs, occurs x c \<or> ias \<noteq> [] \<or> B_changed))))"
| "clone x i (ScopeStmt k n B) =
     res_bind (clone x i B) (\<lambda>(B', B_changed).
       Inr (ScopeStmt k (map_option (subst x i) n) B', (case n of None \<Rightarrow> False | Some e \<Rightarrow> occurs x e) \<or> B_changed))"
| "clones x i [] = Inr ([], False)"
| "clones x i (s # ss) =
     res_bind (clone x i s) (\<lambda>(s', s_changed).
     res_bind (clones x i ss) (\<lambda>(ss', ss_changed). Inr (s' # ss', s_changed \<or> ss_changed)))"

section \<open>The pass\<close>

definition kMaxUnrollIterations :: int where
  "kMaxUnrollIterations = 1024"

definition GetConstIntValue :: "'o Expr \<Rightarrow> int res" where
  "GetConstIntValue e = (case EvalConstInt e of Some v \<Rightarrow> Inr v | None \<Rightarrow> Inl ValueError)"

definition trip_count :: "int \<Rightarrow> int \<Rightarrow> int \<Rightarrow> int res" where
  "trip_count start stop step =
     (if step > 0 \<and> start < stop then
        res_bind (i64 (stop - start)) (\<lambda>d. res_bind (i64 (d + step)) (\<lambda>e. Inr (cdiv (e - 1) step)))
      else if step < 0 \<and> start > stop then
        res_bind (i64 (start - stop)) (\<lambda>d. res_bind (i64 (- step)) (\<lambda>m.
        res_bind (i64 (d + m)) (\<lambda>e. Inr (cdiv (e - 1) m))))
      else Inr 0)"

text \<open>The values the loop variable takes in the two counting loops, whose last addition may overflow.\<close>

definition iteration_values :: "int \<Rightarrow> int \<Rightarrow> int \<Rightarrow> int list res" where
  "iteration_values start stop step =
     (let vs = range_values start stop step in
      res_bind (if vs = [] then Inr 0 else i64 (last vs + step)) (\<lambda>_. Inr vs))"

definition unroll_values :: "'o ForHead \<Rightarrow> (Var \<times> 'o Expr) list \<Rightarrow> int list res" where
  "unroll_values h ias =
     res_bind (check ValueError (hardware_loop_policy h = Auto)) (\<lambda>_.
     res_bind (check InternalError (ias = [])) (\<lambda>_.
     res_bind (GetConstIntValue (for_start h)) (\<lambda>start.
     res_bind (GetConstIntValue (for_stop h)) (\<lambda>stop.
     res_bind (GetConstIntValue (for_step h)) (\<lambda>step.
     res_bind (check ValueError (step \<noteq> 0)) (\<lambda>_.
     res_bind (trip_count start stop step) (\<lambda>n.
     res_bind (check ValueError (n \<le> kMaxUnrollIterations)) (\<lambda>_.
       iteration_values start stop step))))))))"

fun map_res :: "('a \<Rightarrow> 'b res) \<Rightarrow> 'a list \<Rightarrow> 'b list res" where
  "map_res f [] = Inr []"
| "map_res f (x # xs) = res_bind (f x) (\<lambda>y. res_bind (map_res f xs) (\<lambda>ys. Inr (y # ys)))"

lemma map_res_cong [fundef_cong]:
  "xs = ys \<Longrightarrow> (\<And>x. x \<in> set ys \<Longrightarrow> f x = g x) \<Longrightarrow> map_res f xs = map_res g ys"
  by (induction xs arbitrary: ys) auto

lemma map_res_Inr: "map_res f xs = Inr ys \<longleftrightarrow> list_all2 (\<lambda>x y. f x = Inr y) xs ys"
  by (induction xs arbitrary: ys) (auto simp: list_all2_Cons1)

text \<open>The copies all fail or none does, so that they may be made before the first is visited.\<close>

fun fors :: "'o Stmt \<Rightarrow> nat" where
  "fors (SeqStmts ss) = sum_list (map fors ss)"
| "fors (IfStmt c a b rvs) = fors a + (case b of None \<Rightarrow> 0 | Some b \<Rightarrow> fors b)"
| "fors (ForStmt h ias B rvs) = Suc (fors B)"
| "fors (WhileStmt c ias B rvs) = fors B"
| "fors (ScopeStmt k n B) = fors B"
| "fors _ = 0"

lemma fors_Flatten: "fors (Flatten ss) = sum_list (map fors ss)"
  by (rule Flatten_sum_list) simp

lemma clone_fors: "clone x i (s :: 'o Stmt) = Inr (s', b) \<Longrightarrow> fors s' = fors s"
  and clones_fors: "clones x i (ss :: 'o Stmt list) = Inr (ss', b) \<Longrightarrow> sum_list (map fors ss') = sum_list (map fors ss)"
  by (induction x i s and x i ss arbitrary: s' b and ss' b rule: clone_clones.induct)
    (fastforce simp: fors_Flatten split: if_splits option.splits)+

function (sequential) unroll :: "'o Stmt \<Rightarrow> ('o Stmt \<times> bool) res"
  and unrolls :: "'o Stmt list \<Rightarrow> ('o Stmt list \<times> bool) res" where
  "unroll (SeqStmts ss) =
     res_bind (unrolls ss) (\<lambda>(ss', changed). Inr (if changed then Flatten ss' else SeqStmts ss, changed))"
| "unroll (IfStmt c a b rvs) =
     res_bind (unroll a) (\<lambda>(a', a_changed).
     res_bind (case b of None \<Rightarrow> Inr (None, False)
       | Some b \<Rightarrow> res_bind (unroll b) (\<lambda>(b', b_changed). Inr (Some b', b_changed))) (\<lambda>(b', b_changed).
       Inr (IfStmt c a' b' rvs, a_changed \<or> b_changed)))"
| "unroll (ForStmt h ias B rvs) =
     (if for_kind h = Unroll then
        res_bind (unroll_values h ias) (\<lambda>is.
        res_bind (map_res (\<lambda>i. clone (var_id (loop_var h)) i B) is) (\<lambda>Bs.
        res_bind (map_res (\<lambda>(B, _). unroll B) Bs) (\<lambda>us.
          Inr (SeqStmts (map fst us), True))))
      else res_bind (unroll B) (\<lambda>(B', changed). Inr (ForStmt h ias B' rvs, changed)))"
| "unroll (WhileStmt c ias B rvs) = res_bind (unroll B) (\<lambda>(B', changed). Inr (WhileStmt c ias B' rvs, changed))"
| "unroll (ScopeStmt k n B) = res_bind (unroll B) (\<lambda>(B', changed). Inr (ScopeStmt k n B', changed))"
| "unroll s = Inr (s, False)"
| "unrolls [] = Inr ([], False)"
| "unrolls (s # ss) =
     res_bind (unroll s) (\<lambda>(s', s_changed).
     res_bind (unrolls ss) (\<lambda>(ss', ss_changed). Inr (s' # ss', s_changed \<or> ss_changed)))"
  by pat_completeness auto
termination
proof (relation "inv_image (less_than <*lex*> less_than)
    (\<lambda>x. case x of Inl s \<Rightarrow> (fors s, size s) | Inr ss \<Rightarrow> (sum_list (map fors ss), size_list size ss))", goal_cases)
  case (5 h ias B rvs "is" Bs z B' c)
  then have "z \<in> set Bs" "z = (B', c)" "map_res (\<lambda>i. clone (var_id (loop_var h)) i B) is = Inr Bs" by auto
  then obtain i where "clone (var_id (loop_var h)) i B = Inr (B', c)"
    unfolding map_res_Inr by (auto simp: list_all2_conv_all_nth in_set_conv_nth)
  then show ?case by (simp add: clone_fors)
qed auto

definition TransformUnrollLoops :: "'o Function \<Rightarrow> 'o Function res" where
  "TransformUnrollLoops func = res_bind (unroll (body func)) (\<lambda>(b, changed). Inr (func\<lparr>body := b\<rparr>))"

section \<open>A copy runs like the body with the loop variable set\<close>

fun map_out :: "('a env \<Rightarrow> 'a env) \<Rightarrow> ('a, 'w) outcome \<Rightarrow> ('a, 'w) outcome" where
  "map_out f (Normal \<sigma> w) = Normal (f \<sigma>) w"
| "map_out f (Yields vs \<sigma> w) = Yields vs (f \<sigma>) w"
| "map_out f (Breaks \<sigma> w) = Breaks (f \<sigma>) w"
| "map_out f (Continues \<sigma> w) = Continues (f \<sigma>) w"
| "map_out f (Returns us w) = Returns us w"
| "map_out f Fault = Fault"
| "map_out f Timeout = Timeout"

lemma for_loop_map:
  assumes B: "\<And>\<sigma> w. B (f \<sigma>) w = map_out f (B' \<sigma> w)"
    and f: "\<And>\<sigma> vs v. set_vars ias vs (set_var lv v (f \<sigma>)) = f (set_vars ias vs (set_var lv v \<sigma>))"
  shows "for_loop B lv ias is vs (f \<sigma>) w = map_out f (for_loop B' lv ias is vs \<sigma> w)"
proof (induction "is" arbitrary: vs \<sigma> w)
  case (Cons i "is")
  then show ?case
    by (cases "B' (set_vars ias vs (set_var lv (Some (IntV i)) \<sigma>)) w") (auto simp: f B loop_step_def)
qed simp

lemma while_loop_map:
  assumes B: "\<And>\<sigma> w. B (f \<sigma>) w = map_out f (B' \<sigma> w)" and C: "\<And>\<sigma>. C (f \<sigma>) = C' \<sigma>"
    and f: "\<And>\<sigma> vs. set_vars ias vs (f \<sigma>) = f (set_vars ias vs \<sigma>)"
  shows "while_loop n C B ias vs (f \<sigma>) w = map_out f (while_loop n C' B' ias vs \<sigma> w)"
proof (induction n arbitrary: vs \<sigma> w)
  case (Suc n)
  have "(case loop_step (length ias) (B (f (set_vars ias vs \<sigma>)) w') of
      Again vs \<sigma> w \<Rightarrow> while_loop n C B ias vs \<sigma> w | Leave out \<Rightarrow> out) =
    map_out f (case loop_step (length ias) (B' (set_vars ias vs \<sigma>) w') of
      Again vs \<sigma> w \<Rightarrow> while_loop n C' B' ias vs \<sigma> w | Leave out \<Rightarrow> out)" for w'
    using Suc by (cases "B' (set_vars ias vs \<sigma>) w'") (auto simp: B loop_step_def)
  then show ?case by (auto simp: f C split: option.splits prod.splits val.splits bool.splits)
qed simp

lemma branch_end_map:
  "(\<And>vs \<sigma>. set_vars rvs vs (f \<sigma>) = f (set_vars rvs vs \<sigma>)) \<Longrightarrow> branch_end rvs (map_out f out) = map_out f (branch_end rvs out)"
  by (cases out) (auto simp: branch_end_def)

lemma finish_map:
  "(\<And>vs \<sigma>. set_vars rvs vs (f \<sigma>) = f (set_vars rvs vs \<sigma>)) \<Longrightarrow> (\<And>\<sigma>. restore xs (f \<sigma>0) (f \<sigma>) = f (restore xs \<sigma>0 \<sigma>)) \<Longrightarrow>
   finish xs (f \<sigma>0) rvs (map_out f out) = map_out f (finish xs \<sigma>0 rvs out)"
  by (cases out) (auto simp: finish_def)

text \<open>Setting a variable that a statement does not define.\<close>

definition with_var :: "nat \<Rightarrow> int \<Rightarrow> 'a env \<Rightarrow> 'a env" where
  "with_var x i \<sigma> = (\<lambda>y. if y = x then Some (IntV i) else \<sigma> y)"

lemma with_var_apply: "with_var x i \<sigma> y = (if y = x then Some (IntV i) else \<sigma> y)"
  by (simp add: with_var_def)

lemma set_var_with_var: "x \<noteq> var_id y \<Longrightarrow> set_var y v (with_var x i \<sigma>) = with_var x i (set_var y v \<sigma>)"
  by (auto simp: set_var_def with_var_def)

lemma set_vars_with_var: "x \<notin> var_id ` set xs \<Longrightarrow> set_vars xs vs (with_var x i \<sigma>) = with_var x i (set_vars xs vs \<sigma>)"
  by (induction xs vs \<sigma> rule: set_vars.induct) (auto simp: set_var_with_var)

lemma restore_with_var:
  "x \<notin> var_id ` set xs \<Longrightarrow> restore xs (with_var x i \<sigma>0) (with_var x i \<sigma>) = with_var x i (restore xs \<sigma>0 \<sigma>)"
  by (auto simp: restore_def with_var_def)

lemma not_replaced_Inr [simp]: "not_replaced x ys = Inr u \<longleftrightarrow> x \<notin> var_id ` set ys"
  by (cases u) (simp add: not_replaced_def check_def)

lemma subst_ev: "ev I (with_var x i \<sigma>) e w = ev I \<sigma> (subst x i e) w"
proof (induction e arbitrary: w)
  case (Op f es)
  then have "evs I (with_var x i \<sigma>) es w = evs I \<sigma> (map (subst x i) es) w" by (intro evs_cong_map) simp
  then show ?case by simp
qed (simp_all add: with_var_apply)

lemma subst_evs: "evs I (with_var x i \<sigma>) es w = evs I \<sigma> (map (subst x i) es) w"
  by (intro evs_cong_map subst_ev)

lemma subst_copies: "copies I (with_var x i \<sigma>) es w = copies I \<sigma> (map (subst x i) es) w"
proof (induction es arbitrary: w)
  case (Cons e es)
  have "(case e of EVar y \<Rightarrow> Some (with_var x i \<sigma> (var_id y), w) | _ \<Rightarrow> map_option (\<lambda>(v, w). (Some v, w)) (ev I (with_var x i \<sigma>) e w)) =
    (case subst x i e of EVar y \<Rightarrow> Some (\<sigma> (var_id y), w) | _ \<Rightarrow> map_option (\<lambda>(v, w). (Some v, w)) (ev I \<sigma> (subst x i e) w))"
    unfolding subst_ev by (cases e) (auto simp: with_var_apply)
  then show ?case by (simp add: Cons cong: and_then_cong)
qed simp

lemma subst_unchanged: "\<not> occurs x e \<Longrightarrow> subst x i e = e"
  by (induction e) (auto simp: map_idI)

lemma subst_args_copies: "copies I (with_var x i \<sigma>) (map snd ias) w = copies I \<sigma> (map snd (subst_args x i ias)) w"
  by (simp add: subst_copies subst_args_def case_prod_beta comp_def)

lemma subst_head_bounds: "for_bounds I (with_var x i \<sigma>) h w = for_bounds I \<sigma> (subst_head x i h) w"
  by (simp add: for_bounds_def subst_head_def subst_ev)

lemma subst_keeps [simp]:
  "loop_var (subst_head x i h) = loop_var h" "for_kind (subst_head x i h) = for_kind h"
  "map fst (subst_args x i ias) = map fst ias"
  by (simp_all add: subst_head_def subst_args_def case_prod_beta comp_def)

lemma clone_unchanged: "clone x i (s :: 'o Stmt) = Inr (s', False) \<Longrightarrow> s' = s"
  and clones_unchanged: "clones x i (ss :: 'o Stmt list) = Inr (ss', False) \<Longrightarrow> ss' = ss"
proof (induction x i s and x i ss arbitrary: s' and ss' rule: clone_clones.induct)
  case (8 x i c a b rvs)
  then show ?case by (cases b) (fastforce simp: subst_unchanged)+
next
  case (9 x i h ias B rvs)
  then show ?case by (fastforce simp: subst_unchanged subst_args_def subst_head_def)
next
  case (11 x i k n B)
  then show ?case by (cases n) (fastforce simp: subst_unchanged)+
qed (fastforce simp: subst_unchanged subst_args_def map_idI list_ex_iff split: if_splits)+

lemma clone_If:
  "clone x i (IfStmt e a b rvs) = Inr (s', c) \<Longrightarrow>
   \<exists>a' c1 b'. clone x i a = Inr (a', c1) \<and> x \<notin> var_id ` set rvs \<and>
     (case b of None \<Rightarrow> b' = None | Some b0 \<Rightarrow> \<exists>b1 c2. clone x i b0 = Inr (b1, c2) \<and> b' = Some b1) \<and>
     s' = IfStmt (subst x i e) a' b' rvs"
  by (cases b) fastforce+

lemma clone_exec:
  "clone x i (s :: 'o Stmt) = Inr (s', c) \<Longrightarrow>
   exec I F s (with_var x i \<sigma>) w = map_out (with_var x i) (exec I F s' \<sigma> w)"
proof (induction s arbitrary: s' c \<sigma> w)
  case (SeqStmts ss)
  then obtain ss' where ss': "clones x i ss = Inr (ss', c)" and s': "s' = (if c then Flatten ss' else SeqStmts ss)"
    by auto
  have "clones x i ts = Inr (ts', d) \<Longrightarrow> set ts \<subseteq> set ss \<Longrightarrow>
      execs I F ts (with_var x i \<sigma>) w = map_out (with_var x i) (execs I F ts' \<sigma> w)" for ts ts' d
  proof (induction ts arbitrary: ts' d \<sigma> w)
    case (Cons t ts)
    then obtain t' a ts'' b where t: "clone x i t = Inr (t', a)" and ts: "clones x i ts = Inr (ts'', b)"
      and ts': "ts' = t' # ts''" by auto
    have "exec I F t (with_var x i \<sigma>) w = map_out (with_var x i) (exec I F t' \<sigma> w)"
      using SeqStmts.IH [OF _ t] Cons.prems(2) by simp
    moreover have "execs I F ts (with_var x i \<sigma>1) w1 = map_out (with_var x i) (execs I F ts'' \<sigma>1 w1)" for \<sigma>1 w1
      using Cons.IH [OF ts] Cons.prems(2) by simp
    ultimately show ?case unfolding ts' by (cases "exec I F t' \<sigma> w") simp_all
  qed simp
  from this [OF ss'] show ?case using clones_unchanged [of x i ss ss'] ss' by (cases c) (simp_all add: s' exec_Flatten)
next
  case (IfStmt e a b rvs)
  then obtain a' c1 b' where a': "clone x i a = Inr (a', c1)" and x: "x \<notin> var_id ` set rvs"
    and b': "(case b of None \<Rightarrow> b' = None | Some b0 \<Rightarrow> \<exists>b1 c2. clone x i b0 = Inr (b1, c2) \<and> b' = Some b1)"
    and s': "s' = IfStmt (subst x i e) a' b' rvs"
    using clone_If [OF IfStmt.prems] by blast
  have else_: "(case b of None \<Rightarrow> Normal (with_var x i \<sigma>) w1 | Some b \<Rightarrow> exec I F b (with_var x i \<sigma>) w1) =
      map_out (with_var x i) (case b' of None \<Rightarrow> Normal \<sigma> w1 | Some b \<Rightarrow> exec I F b \<sigma> w1)" for w1
    using b' IfStmt.IH(2) by (cases b) auto
  have "exec I F s' \<sigma> w = (case ev I \<sigma> (subst x i e) w of
      Some (BoolV True, w) \<Rightarrow> branch_end rvs (exec I F a' \<sigma> w)
    | Some (BoolV False, w) \<Rightarrow> branch_end rvs (case b' of None \<Rightarrow> Normal \<sigma> w | Some b \<Rightarrow> exec I F b \<sigma> w)
    | _ \<Rightarrow> Fault)" by (simp add: s')
  then show ?case
    unfolding exec.simps(8) subst_ev IfStmt.IH(1) [OF a'] else_ branch_end_map [OF set_vars_with_var [OF x]]
    by (cases "ev I \<sigma> (subst x i e) w") (auto split: val.split bool.split simp del: exec.simps)
next
  case (ForStmt h ias B rvs)
  then obtain B' c1 where B': "clone x i B = Inr (B', c1)" and x: "x \<notin> var_id ` set (loop_var h # map fst ias)" "x \<notin> var_id ` set rvs"
    and s': "s' = ForStmt (subst_head x i h) (subst_args x i ias) B' rvs" by auto
  have "for_loop (exec I F B) (loop_var h) (map fst ias) is vs (with_var x i \<sigma>) w1 =
      map_out (with_var x i) (for_loop (exec I F B') (loop_var h) (map fst ias) is vs \<sigma> w1)" for "is" vs w1
    using x(1) by (intro for_loop_map ForStmt.IH [OF B']) (simp add: set_var_with_var set_vars_with_var)
  then show ?case
    by (simp add: s' subst_head_bounds subst_args_copies finish_map set_vars_with_var [OF x(2)] restore_with_var [OF x(1)]
        del: list.set(2) split: option.splits prod.splits)
next
  case (WhileStmt e ias B rvs)
  then obtain B' c1 where B': "clone x i B = Inr (B', c1)" and x: "x \<notin> var_id ` set (map fst ias)" "x \<notin> var_id ` set rvs"
    and s': "s' = WhileStmt (subst x i e) (subst_args x i ias) B' rvs" by auto
  have "while_loop n (\<lambda>\<sigma>. ev I \<sigma> e) (exec I F B) (map fst ias) vs (with_var x i \<sigma>) w1 =
      map_out (with_var x i) (while_loop n (\<lambda>\<sigma>. ev I \<sigma> (subst x i e)) (exec I F B') (map fst ias) vs \<sigma> w1)" for n vs w1
    using x(1) by (intro while_loop_map WhileStmt.IH [OF B']) (auto simp: set_vars_with_var subst_ev)
  then show ?case
    by (simp add: s' subst_args_copies finish_map set_vars_with_var [OF x(2)] restore_with_var [OF x(1)]
        split: option.splits prod.splits)
qed (auto simp: subst_ev subst_evs subst_copies set_var_with_var split: option.splits)

section \<open>What a copy and a flattened sequence keep\<close>

lemma clone_fresh: "clone x i (s :: 'o Stmt) = Inr (s', c) \<Longrightarrow> x \<notin> writes s"
  and clones_fresh: "clones x i (ss :: 'o Stmt list) = Inr (ss', c) \<Longrightarrow> \<forall>s\<in>set ss. x \<notin> writes s"
proof (induction x i s and x i ss arbitrary: s' c and ss' c rule: clone_clones.induct)
  case (8 x i e a b rvs)
  from clone_If [OF 8(3)] 8(1,2) show ?case by (cases b) fastforce+
qed auto

lemma clone_writes: "clone x i (s :: 'o Stmt) = Inr (s', c) \<Longrightarrow> j \<in> writes s' \<longleftrightarrow> j \<in> writes s"
  and clones_writes: "clones x i (ss :: 'o Stmt list) = Inr (ss', c) \<Longrightarrow> (\<exists>s\<in>set ss'. j \<in> writes s) \<longleftrightarrow> (\<exists>s\<in>set ss. j \<in> writes s)"
proof (induction x i s and x i ss arbitrary: s' c and ss' c rule: clone_clones.induct)
  case (7 x i ss)
  then show ?case by (auto simp: Flatten_ex [of "\<lambda>s. j \<in> writes s"] split: if_splits)
next
  case (8 x i e a b rvs)
  from clone_If [OF 8(3)] 8(1,2) show ?case by (cases b) fastforce+
next
  case (9 x i h ias B rvs)
  then show ?case by (clarsimp simp del: list.set(2))
next
  case (10 x i e ias B rvs)
  then show ?case by clarsimp
qed auto

text \<open>The jumps that the verifier reports, the yields that leave a body.\<close>

lemma Flatten_verified: "BreakContinueVerifier st (Flatten ss) = [] \<longleftrightarrow> (\<forall>s\<in>set ss. BreakContinueVerifier st s = [])"
  by (rule Flatten_all [of "\<lambda>s. BreakContinueVerifier st s = []"]) simp

fun plain_unrolls :: "'o Stmt \<Rightarrow> bool" where
  "plain_unrolls (SeqStmts ss) = (\<forall>s\<in>set ss. plain_unrolls s)"
| "plain_unrolls (IfStmt c a b rvs) = (plain_unrolls a \<and> (case b of None \<Rightarrow> True | Some b \<Rightarrow> plain_unrolls b))"
| "plain_unrolls (ForStmt h ias B rvs) =
     ((for_kind h = Unroll \<longrightarrow> rvs = [] \<and> \<not> has_yield B) \<and> plain_unrolls B)"
| "plain_unrolls (WhileStmt c ias B rvs) = plain_unrolls B"
| "plain_unrolls (ScopeStmt k n B) = plain_unrolls B"
| "plain_unrolls _ = True"

lemma clone_has_yield: "clone x i (s :: 'o Stmt) = Inr (s', c) \<Longrightarrow> has_yield s' \<longleftrightarrow> has_yield s"
  and clones_has_yield: "clones x i (ss :: 'o Stmt list) = Inr (ss', c) \<Longrightarrow> (\<exists>s\<in>set ss'. has_yield s) \<longleftrightarrow> (\<exists>s\<in>set ss. has_yield s)"
proof (induction x i s and x i ss arbitrary: s' c and ss' c rule: clone_clones.induct)
  case (7 x i ss)
  then show ?case by (auto simp: Flatten_ex [of has_yield] split: if_splits)
next
  case (8 x i e a b rvs)
  from clone_If [OF 8(3)] show ?case by auto
qed auto

lemma clone_plain: "clone x i (s :: 'o Stmt) = Inr (s', c) \<Longrightarrow> plain_unrolls s' \<longleftrightarrow> plain_unrolls s"
  and clones_plain: "clones x i (ss :: 'o Stmt list) = Inr (ss', c) \<Longrightarrow> (\<forall>s\<in>set ss'. plain_unrolls s) \<longleftrightarrow> (\<forall>s\<in>set ss. plain_unrolls s)"
proof (induction x i s and x i ss arbitrary: s' c and ss' c rule: clone_clones.induct)
  case (7 x i ss)
  then show ?case by (auto simp: Flatten_all [of plain_unrolls] split: if_splits)
next
  case (8 x i e a b rvs)
  from clone_If [OF 8(3)] 8(1,2) show ?case by (cases b) fastforce+
next
  case (9 x i h ias B rvs)
  then show ?case using clone_has_yield [of x i B] by auto
qed auto

lemma clone_verified:
  "clone x i (s :: 'o Stmt) = Inr (s', c) \<Longrightarrow> BreakContinueVerifier st s' = [] \<longleftrightarrow> BreakContinueVerifier st s = []"
  and clones_verified: "clones x i (ss :: 'o Stmt list) = Inr (ss', c) \<Longrightarrow>
    (\<forall>s\<in>set ss'. BreakContinueVerifier st s = []) \<longleftrightarrow> (\<forall>s\<in>set ss. BreakContinueVerifier st s = [])"
proof (induction x i s and x i ss arbitrary: s' c st and ss' c st rule: clone_clones.induct)
  case (7 x i ss)
  then show ?case by (auto simp: Flatten_verified split: if_splits)
next
  case (8 x i e a b rvs)
  from clone_If [OF 8(3)] 8(1,2) show ?case by (cases b) fastforce+
next
  case (13 x i s ss)
  then obtain s1 b1 ss1 b2 where r: "clone x i s = Inr (s1, b1)" "clones x i ss = Inr (ss1, b2)" "ss' = s1 # ss1" by auto
  show ?case using 13(1) [OF r(1)] 13(2) [OF r(1) refl r(2)] by (simp add: r(3))
qed auto

section \<open>The pass keeps what a function does\<close>

lemma unrolled_values:
  assumes "unroll_values h ias = Inr is" shows "ias = [] \<and> for_bounds I \<sigma> h w = Some (is, w)"
proof -
  obtain start stop step where e: "EvalConstInt (for_start h) = Some start" "EvalConstInt (for_stop h) = Some stop"
    "EvalConstInt (for_step h) = Some step" and "step \<noteq> 0" "ias = []" "is = range_values start stop step"
    using assms
    by (auto simp: unroll_values_def GetConstIntValue_def iteration_values_def check_def Let_def
        split: option.splits if_splits)
  moreover have "ev I \<sigma> e w = Some (IntV i, w)" if "EvalConstInt e = Some i" for e i
    using that by (auto simp: EvalConstInt_def on_int_def split: Expr.splits if_splits)
  ultimately show ?thesis by (simp add: for_bounds_def)
qed

text \<open>The copies one after the other do what the loop does, on every variable but the loop variable.\<close>

lemma copies_run:
  assumes "list_all2 (\<lambda>i U. \<exists>B' c. clone x i B = Inr (B', c) \<and> (\<forall>\<sigma> w. exec I F U \<sigma> w = exec I F B' \<sigma> w)) is Us"
    and "x = var_id lv" and "\<not> has_yield B" "\<not> has_break B" "\<not> has_continue B" and "\<forall>i. i \<noteq> x \<longrightarrow> \<sigma> i = \<sigma>1 i" and "\<sigma> x = \<sigma>0 x"
  shows "finish [lv] \<sigma>0 [] (for_loop (exec I F B) lv [] is [] \<sigma>1 w) = execs I F Us \<sigma> w"
  using assms(1,6,7)
proof (induction "is" Us arbitrary: \<sigma> \<sigma>1 w rule: list_all2_induct)
  case Nil
  then show ?case using assms(2) by (auto simp: finish_def restore_def)
next
  case (Cons i "is" U Us)
  obtain B' c where c: "clone x i B = Inr (B', c)" and U: "exec I F U \<sigma> w = exec I F B' \<sigma> w" for \<sigma> w
    using Cons.hyps(1) by blast
  have set: "set_var lv (Some (IntV i)) \<sigma>1 = with_var x i \<sigma>"
    using Cons.prems assms(2) by (auto simp: set_var_def with_var_def)
  note e = clone_exec [OF c, of I F \<sigma> w]
  show ?case
  proof (cases "exec I F B' \<sigma> w")
    case (Normal \<sigma>2 w2)
    moreover have "\<sigma>2 x = \<sigma>0 x"
      using Normal exec_writes [of B' \<sigma> I F w] clone_fresh [OF c] clone_writes [OF c] Cons.prems by simp
    moreover have "\<forall>j. j \<noteq> x \<longrightarrow> \<sigma>2 j = with_var x i \<sigma>2 j" by (simp add: with_var_apply)
    ultimately show ?thesis
      using Cons.IH [of \<sigma>2 "with_var x i \<sigma>2" w2] by (simp add: set e U loop_step_def)
  next
    case (Yields vs \<sigma>2 w2)
    then have "exec I F B (with_var x i \<sigma>) w = Yields vs (with_var x i \<sigma>2) w2" using e by simp
    then show ?thesis using no_yield [OF assms(3), of I F "with_var x i \<sigma>" w vs "with_var x i \<sigma>2" w2] by simp
  next
    case (Breaks \<sigma>2 w2)
    then have "exec I F B (with_var x i \<sigma>) w = Breaks (with_var x i \<sigma>2) w2" using e by simp
    then show ?thesis using no_break [OF assms(4), of I F "with_var x i \<sigma>" w "with_var x i \<sigma>2" w2] by simp
  next
    case (Continues \<sigma>2 w2)
    then have "exec I F B (with_var x i \<sigma>) w = Continues (with_var x i \<sigma>2) w2" using e by simp
    then show ?thesis using no_continue [OF assms(5), of I F "with_var x i \<sigma>" w "with_var x i \<sigma>2" w2] by simp
  qed (simp_all add: set e U loop_step_def finish_def)
qed

lemma unroll_unchanged: "unroll (s :: 'o Stmt) = Inr (s', False) \<Longrightarrow> s' = s"
  and unrolls_unchanged: "unrolls (ss :: 'o Stmt list) = Inr (ss', False) \<Longrightarrow> ss' = ss"
proof (induction s and ss arbitrary: s' and ss' rule: unroll_unrolls.induct)
  case (2 c a b rvs)
  then show ?case by (cases b) fastforce+
qed (fastforce split: if_splits)+

text \<open>One loop unrolled, given that the copies are.\<close>

lemma unrolled_loop:
  assumes k: "for_kind h = Unroll" and vals: "unroll_values h ias = Inr is"
    and Bs: "map_res (\<lambda>i. clone (var_id (loop_var h)) i B) is = Inr Bs" and us: "map_res (\<lambda>(B, _). unroll B) Bs = Inr us"
    and plain: "rvs = []" "\<not> has_yield B" and jumps: "BreakContinueVerifier (Unroll # st) B = []"
    and ih: "\<And>B' c U d. (B', c) \<in> set Bs \<Longrightarrow> unroll B' = Inr (U, d) \<Longrightarrow> (\<forall>\<sigma> w. exec I F U \<sigma> w = exec I F B' \<sigma> w)"
  shows "execs I F (map fst us) \<sigma> w = exec I F (ForStmt h ias B rvs) \<sigma> w"
proof -
  have "list_all2 (\<lambda>i U. \<exists>B' c. clone (var_id (loop_var h)) i B = Inr (B', c) \<and> (\<forall>\<sigma> w. exec I F U \<sigma> w = exec I F B' \<sigma> w))
      is (map fst us)"
  proof -
    have "\<exists>B' c. clone (var_id (loop_var h)) (is ! j) B = Inr (B', c) \<and> (\<forall>\<sigma> w. exec I F (fst (us ! j)) \<sigma> w = exec I F B' \<sigma> w)"
      if "j < length is" for j
    proof -
      obtain B' c where b: "Bs ! j = (B', c)" by (cases "Bs ! j")
      obtain U d where u: "us ! j = (U, d)" by (cases "us ! j")
      have "length Bs = length is" using Bs by (auto simp: map_res_Inr list_all2_lengthD)
      then have "clone (var_id (loop_var h)) (is ! j) B = Inr (B', c)" "unroll B' = Inr (U, d)" "(B', c) \<in> set Bs"
        using that Bs us b u by (auto simp: map_res_Inr list_all2_conv_all_nth in_set_conv_nth)
      with ih u show ?thesis by auto
    qed
    then show ?thesis using Bs us by (auto simp: map_res_Inr list_all2_conv_all_nth)
  qed
  moreover have "\<not> has_break B \<and> \<not> has_continue B" using verified_no_jump [OF jumps] by simp
  ultimately have "finish [loop_var h] \<sigma> [] (for_loop (exec I F B) (loop_var h) [] is [] \<sigma> w) = execs I F (map fst us) \<sigma> w"
    using plain(2) by (intro copies_run) auto
  then show ?thesis using unrolled_values [OF vals, of I \<sigma> w] plain(1) by simp
qed

lemma unroll_exec:
  "unroll s = Inr (s', c) \<Longrightarrow> plain_unrolls s \<Longrightarrow> BreakContinueVerifier st s = [] \<Longrightarrow> exec I F s' \<sigma> w = exec I F s \<sigma> w"
  and unrolls_exec:
  "unrolls ss = Inr (ss', c) \<Longrightarrow> \<forall>s\<in>set ss. plain_unrolls s \<and> BreakContinueVerifier st s = [] \<Longrightarrow>
    execs I F ss' \<sigma> w = execs I F ss \<sigma> w"
proof (induction s and ss arbitrary: s' c st \<sigma> w and ss' c st \<sigma> w rule: unroll_unrolls.induct)
  case (1 ss)
  then obtain ss' where ss': "unrolls ss = Inr (ss', c)" and s': "s' = (if c then Flatten ss' else SeqStmts ss)" by auto
  have "execs I F ss' \<sigma> w = execs I F ss \<sigma> w" by (rule 1(1) [OF ss', of st]) (use 1(3,4) in auto)
  then show ?case by (simp add: s' exec_Flatten)
next
  case (2 e a b rvs)
  then obtain a' c1 b' where a': "unroll a = Inr (a', c1)" and s': "s' = IfStmt e a' b' rvs"
    and b': "case b of None \<Rightarrow> b' = None | Some b0 \<Rightarrow> \<exists>b1 c2. unroll b0 = Inr (b1, c2) \<and> b' = Some b1"
    by (cases b) fastforce+
  have A: "exec I F a' \<sigma>1 w1 = exec I F a \<sigma>1 w1" for \<sigma>1 w1
    using 2(1) [OF a', of st] 2(4,5) by simp
  have E: "(case b' of None \<Rightarrow> Normal \<sigma>1 w1 | Some b \<Rightarrow> exec I F b \<sigma>1 w1) =
      (case b of None \<Rightarrow> Normal \<sigma>1 w1 | Some b \<Rightarrow> exec I F b \<sigma>1 w1)" for \<sigma>1 w1
  proof (cases b)
    case (Some b0)
    then obtain b1 c2 where "unroll b0 = Inr (b1, c2)" "b' = Some b1" using b' by auto
    then show ?thesis using 2(2) [OF a' _ Some, of _ _ b1 c2 st] Some 2(4,5) by simp
  qed (use b' in simp)
  show ?case by (simp only: s' exec.simps(8) A E)
next
  case (3 h ias B rvs)
  show ?case
  proof (cases "for_kind h = Unroll")
    case True
    with 3(3) obtain "is" Bs us where v: "unroll_values h ias = Inr is"
      and Bs: "map_res (\<lambda>i. clone (var_id (loop_var h)) i B) is = Inr Bs"
      and us: "map_res (\<lambda>(B, _). unroll B) Bs = Inr us" and s': "s' = SeqStmts (map fst us)" by auto
    have p: "rvs = []" "\<not> has_yield B" "plain_unrolls B" and j: "BreakContinueVerifier (Unroll # st) B = []"
      using 3(4,5) True by auto
    have copies: "exec I F U \<sigma> w = exec I F B' \<sigma> w" if mem: "(B', c) \<in> set Bs" and U: "unroll B' = Inr (U, d)" for B' c U d \<sigma> w
    proof (rule 3(1) [OF True v Bs mem refl U])
      obtain i where cl: "clone (var_id (loop_var h)) i B = Inr (B', c)"
        using Bs mem by (auto simp: map_res_Inr list_all2_conv_all_nth in_set_conv_nth)
      show "plain_unrolls B'" using clone_plain [OF cl] p(3) by simp
      show "BreakContinueVerifier (Unroll # st) B' = []" using clone_verified [OF cl] j by simp
    qed
    show ?thesis
      unfolding s' exec.simps(7) by (rule unrolled_loop [OF True v Bs us p(1,2) j]) (use copies in blast)
  next
    case False
    with 3(3) obtain B' where B': "unroll B = Inr (B', c)" and s': "s' = ForStmt h ias B' rvs" by auto
    have e: "exec I F B' = exec I F B"
      by (intro ext 3(2) [OF False B', of "for_kind h # st"]) (use 3(4,5) in auto)
    show ?thesis by (simp only: s' exec.simps(9) e)
  qed
next
  case (4 e ias B rvs)
  then obtain B' where B': "unroll B = Inr (B', c)" and s': "s' = WhileStmt e ias B' rvs" by auto
  have e: "exec I F B' = exec I F B"
    by (intro ext 4(1) [OF B', of "Sequential # st"]) (use 4(3,4) in auto)
  show ?case by (simp only: s' exec.simps(10) e)
next
  case (5 k n B)
  then obtain B' where B': "unroll B = Inr (B', c)" and s': "s' = ScopeStmt k n B'" by auto
  have e: "exec I F B' = exec I F B"
    by (intro ext 5(1) [OF B', of st]) (use 5(3,4) in auto)
  show ?case by (simp only: s' exec.simps(11) e)
next
  case (8 s ss)
  then obtain s1 b1 ss1 b2 where r: "unroll s = Inr (s1, b1)" "unrolls ss = Inr (ss1, b2)" "ss' = s1 # ss1" by auto
  have "exec I F s1 \<sigma> w = exec I F s \<sigma> w" by (rule 8(1) [OF r(1), of st]) (use 8(4) in auto)
  moreover have "execs I F ss1 \<sigma>1 w1 = execs I F ss \<sigma>1 w1" for \<sigma>1 w1
    by (rule 8(2) [OF r(1) refl r(2), of st]) (use 8(4) in auto)
  ultimately show ?case by (simp add: r(3) split: outcome.splits)
qed auto

section \<open>A concrete function\<close>

text \<open>It adds up 0, 1 and 2 in a loop that is unrolled.\<close>

definition int_var :: "nat \<Rightarrow> Var" where
  "int_var i = \<lparr>var_id = i, name_hint = ''v'', var_type = 0\<rparr>"

definition sum_loop :: "unit Function" where
  "sum_loop = \<lparr>params = [], body = SeqStmts [AssignStmt (int_var 0) (ConstInt 0),
     ForStmt \<lparr>for_kind = Unroll, hardware_loop_policy = Auto, loop_var = int_var 1, for_start = ConstInt 0,
       for_stop = ConstInt 3, for_step = ConstInt 1\<rparr> []
       (AssignStmt (int_var 0) (Add (EVar (int_var 0)) (EVar (int_var 1)))) [],
     ReturnStmt [EVar (int_var 0)]]\<rparr>"

definition sum_unrolled :: "unit Function" where
  "sum_unrolled = \<lparr>params = [], body = SeqStmts [AssignStmt (int_var 0) (ConstInt 0),
     AssignStmt (int_var 0) (Add (EVar (int_var 0)) (ConstInt 0)),
     AssignStmt (int_var 0) (Add (EVar (int_var 0)) (ConstInt 1)),
     AssignStmt (int_var 0) (Add (EVar (int_var 0)) (ConstInt 2)),
     ReturnStmt [EVar (int_var 0)]]\<rparr>"

lemma sum_loop_unrolled: "TransformUnrollLoops sum_loop = Inr sum_unrolled"
  by code_simp

section \<open>Properties\<close>

text \<open>
  Claim C6. A function whose jumps the verifier accepts, and whose unrolled loops return and yield nothing, does the
  same after its loops are unrolled: the same outcome, values and effects from every state, whatever the calls mean.
\<close>

theorem TransformUnrollLoops_exec:
  assumes "TransformUnrollLoops func = Inr func'" and "plain_unrolls (body func)" and "BreakContinueVerifier [] (body func) = []"
  shows "exec I F (body func') \<sigma> w = exec I F (body func) \<sigma> w"
  using assms by (auto simp: TransformUnrollLoops_def intro: unroll_exec)

lemma TransformUnrollLoops_exec_witness:
  "exec (\<lambda>_ _ _. None) 0 (body sum_unrolled) (\<lambda>_. None :: unit val option) () =
    exec (\<lambda>_ _ _. None) 0 (body sum_loop) (\<lambda>_. None) ()"
  by (rule TransformUnrollLoops_exec [OF sum_loop_unrolled]) code_simp+

text \<open>No loop of kind \<open>Unroll\<close> is left.\<close>

fun no_unrolls :: "'o Stmt \<Rightarrow> bool" where
  "no_unrolls (SeqStmts ss) = (\<forall>s\<in>set ss. no_unrolls s)"
| "no_unrolls (IfStmt c a b rvs) = (no_unrolls a \<and> (case b of None \<Rightarrow> True | Some b \<Rightarrow> no_unrolls b))"
| "no_unrolls (ForStmt h ias B rvs) = (for_kind h \<noteq> Unroll \<and> no_unrolls B)"
| "no_unrolls (WhileStmt c ias B rvs) = no_unrolls B"
| "no_unrolls (ScopeStmt k n B) = no_unrolls B"
| "no_unrolls _ = True"

lemma unroll_no_unrolls: "unroll (s :: 'o Stmt) = Inr (s', c) \<Longrightarrow> no_unrolls s'"
  and unrolls_no_unrolls: "unrolls (ss :: 'o Stmt list) = Inr (ss', c) \<Longrightarrow> \<forall>s\<in>set ss'. no_unrolls s"
proof (induction s and ss arbitrary: s' c and ss' c rule: unroll_unrolls.induct)
  case (1 ss)
  then obtain ss' where ss': "unrolls ss = Inr (ss', c)" and s': "s' = (if c then Flatten ss' else SeqStmts ss)" by auto
  have "\<forall>s\<in>set ss'. no_unrolls s" by (rule 1(1) [OF ss'])
  then show ?case using unrolls_unchanged [of ss ss'] ss' by (cases c) (simp_all add: s' Flatten_all [of no_unrolls])
next
  case (2 e a b rvs)
  then show ?case by (cases b) fastforce+
next
  case (3 h ias B rvs)
  show ?case
  proof (cases "for_kind h = Unroll")
    case True
    with 3(3) obtain "is" Bs us where v: "unroll_values h ias = Inr is"
      and Bs: "map_res (\<lambda>i. clone (var_id (loop_var h)) i B) is = Inr Bs"
      and us: "map_res (\<lambda>(B, _). unroll B) Bs = Inr us" and s': "s' = SeqStmts (map fst us)" by auto
    have "no_unrolls U" if U: "(U, d) \<in> set us" for U d
    proof -
      obtain B' c where mem: "(B', c) \<in> set Bs" and "unroll B' = Inr (U, d)"
        using us U unfolding map_res_Inr list_all2_conv_all_nth in_set_conv_nth by (metis case_prod_conv nth_mem surj_pair)
      then show ?thesis using 3(1) [OF True v Bs mem refl] by blast
    qed
    then show ?thesis by (auto simp: s')
  next
    case False
    with 3(2) [OF False] 3(3) show ?thesis by auto
  qed
next
  case (8 s ss)
  then obtain s1 b1 ss1 b2 where r: "unroll s = Inr (s1, b1)" "unrolls ss = Inr (ss1, b2)" "ss' = s1 # ss1" by auto
  show ?case using 8(1) [OF r(1)] 8(2) [OF r(1) refl r(2)] by (simp add: r(3))
qed auto

text \<open>
  Claim C7. The pass leaves no loop of kind \<open>Unroll\<close> behind.
\<close>

theorem TransformUnrollLoops_resolved: "TransformUnrollLoops func = Inr func' \<Longrightarrow> no_unrolls (body func')"
  by (auto simp: TransformUnrollLoops_def intro: unroll_no_unrolls)

lemma TransformUnrollLoops_resolved_witness: "no_unrolls (body sum_unrolled)"
  by (rule TransformUnrollLoops_resolved [OF sum_loop_unrolled])

text \<open>The trip count of a loop over the whole range overflows before it is compared with the limit.\<close>

lemma trip_count_overflow: "trip_count INT64_MIN INT64_MAX 1 = Inl UndefinedBehavior"
  by code_simp

end
