(* ===== verification/Ssa_Convert.thy ===== *)
theory Ssa_Convert
  imports Stmt_IR "HOL-Library.List_Lexorder" "HOL-Library.Char_ord" "HOL-Library.Multiset"
begin

text \<open>
  The conversion of a function to SSA form (\<^verbatim>\<open>src/ir/transforms/convert_to_ssa_pass.cpp\<close>, with the
  collectors of \<^verbatim>\<open>utils/var_collectors.h\<close> it uses).

  The state of \<^verbatim>\<open>SSAConverter\<close> is passed along: the current version of each variable, the version
  counters, the variables that later statements need, and the next identity of a new \<open>Var\<close>. Parameters
  are the building of names, the treatment of types (a type is an object identity) and the order in which
  an unordered container is iterated before it is sorted by name. Attributes are left out, and so is the
  narrowing of accumulators that the pass runs on its result.
\<close>

section \<open>Collectors\<close>

fun expr_vars :: "'o Expr \<Rightarrow> Var list" where
  "expr_vars (EVar x) = [x]"
| "expr_vars (ConstInt i) = []"
| "expr_vars (ConstBool b) = []"
| "expr_vars (Neg a) = expr_vars a"
| "expr_vars (Not a) = expr_vars a"
| "expr_vars (And a b) = expr_vars a @ expr_vars b"
| "expr_vars (Add a b) = expr_vars a @ expr_vars b"
| "expr_vars (Lt a b) = expr_vars a @ expr_vars b"
| "expr_vars (Gt a b) = expr_vars a @ expr_vars b"
| "expr_vars (Op f es) = concat (map expr_vars es)"

definition used :: "'o Expr list \<Rightarrow> nat set" where
  "used es = var_id ` set (concat (map expr_vars es))"

text \<open>\<open>VarDefUseCollector::var_assign_defs\<close>: the variables of the assignments.\<close>

fun assign_defs :: "'o Stmt \<Rightarrow> Var list" where
  "assign_defs (AssignStmt x e) = [x]"
| "assign_defs (SeqStmts ss) = concat (map assign_defs ss)"
| "assign_defs (IfStmt c a b rvs) = assign_defs a @ (case b of None \<Rightarrow> [] | Some b \<Rightarrow> assign_defs b)"
| "assign_defs (ForStmt h ias B rvs) = assign_defs B"
| "assign_defs (WhileStmt c ias B rvs) = assign_defs B"
| "assign_defs (ScopeStmt k n B) = assign_defs B"
| "assign_defs _ = []"

text \<open>What a statement needs from before it.\<close>

fun ComputeStmtLiveIn :: "'o Stmt \<Rightarrow> nat set"
  and ComputeSeqLiveIn :: "'o Stmt list \<Rightarrow> nat set \<Rightarrow> nat set" where
  "ComputeStmtLiveIn (AssignStmt x e) = used [e]"
| "ComputeStmtLiveIn (EvalStmt e) = used [e]"
| "ComputeStmtLiveIn (ReturnStmt es) = used es"
| "ComputeStmtLiveIn (YieldStmt es) = used es"
| "ComputeStmtLiveIn (SeqStmts ss) = ComputeSeqLiveIn ss {}"
| "ComputeStmtLiveIn (ForStmt h ias B rvs) =
     used ([for_start h, for_stop h, for_step h] @ map snd ias) \<union>
     (ComputeStmtLiveIn B - {var_id (loop_var h)} - var_id ` set (map fst ias))"
| "ComputeStmtLiveIn (WhileStmt c ias B rvs) =
     used (c # map snd ias) \<union> (ComputeStmtLiveIn B - var_id ` set (map fst ias))"
| "ComputeStmtLiveIn (IfStmt c a b rvs) =
     used [c] \<union> ComputeStmtLiveIn a \<union> (case b of None \<Rightarrow> {} | Some b \<Rightarrow> ComputeStmtLiveIn b)"
| "ComputeStmtLiveIn (ScopeStmt k n B) =
     ComputeStmtLiveIn B \<union> (case n of None \<Rightarrow> {} | Some e \<Rightarrow> used [e])"
| "ComputeStmtLiveIn BreakStmt = {}"
| "ComputeStmtLiveIn ContinueStmt = {}"
| "ComputeSeqLiveIn [] defined = {}"
| "ComputeSeqLiveIn (s # ss) defined =
     (ComputeStmtLiveIn s - defined) \<union> ComputeSeqLiveIn ss (defined \<union> var_id ` set (assign_defs s))"

section \<open>The state of the converter\<close>

text \<open>A map from variables to versions, keyed by identity.\<close>

type_synonym versions = "(Var \<times> Var) list"

definition lookup :: "versions \<Rightarrow> Var \<Rightarrow> Var option" where
  "lookup c x = map_option snd (find (\<lambda>(k, v). var_id k = var_id x) c)"

definition assign :: "Var \<Rightarrow> Var \<Rightarrow> versions \<Rightarrow> versions" where
  "assign x v c = (x, v) # filter (\<lambda>(k, v). var_id k \<noteq> var_id x) c"

fun assigns :: "Var list \<Rightarrow> Var list \<Rightarrow> versions \<Rightarrow> versions" where
  "assigns (x # xs) (v # vs) c = assigns xs vs (assign x v c)"
| "assigns _ _ c = c"

record 'o SSAParams =
  BuildAutoNamedVersion :: "string \<Rightarrow> string \<Rightarrow> nat \<Rightarrow> string"
  SubstType :: "versions \<Rightarrow> nat \<Rightarrow> nat"
  GetAuthoritativeAssignmentType :: "nat \<Rightarrow> 'o Expr \<Rightarrow> nat"
  iteration_order :: "Var list \<Rightarrow> Var list"
  out_params :: "Var list"

record SSAConverter =
  cur :: versions
  ver :: "nat \<Rightarrow> nat"
  future_needs :: "nat set"
  next_id :: nat

definition make_var :: "string \<Rightarrow> nat \<Rightarrow> SSAConverter \<Rightarrow> Var \<times> SSAConverter" where
  "make_var name ty st = (\<lparr>var_id = next_id st, name_hint = name, var_type = ty\<rparr>, st\<lparr>next_id := next_id st + 1\<rparr>)"

definition NextVersion :: "Var \<Rightarrow> SSAConverter \<Rightarrow> nat \<times> SSAConverter" where
  "NextVersion key st = (ver st (var_id key), st\<lparr>ver := (ver st)(var_id key := ver st (var_id key) + 1)\<rparr>)"

definition make_version :: "'o SSAParams \<Rightarrow> string \<Rightarrow> Var \<Rightarrow> nat \<Rightarrow> SSAConverter \<Rightarrow> Var \<times> SSAConverter" where
  "make_version P role key ty st =
     (let (n, st) = NextVersion key st in make_var (BuildAutoNamedVersion P (name_hint key) role n) ty st)"

definition AllocVersion :: "'o SSAParams \<Rightarrow> Var \<Rightarrow> nat \<Rightarrow> SSAConverter \<Rightarrow> Var \<times> SSAConverter" where
  "AllocVersion P key ty st =
     (let (v, st) = make_version P ''ssa'' key (SubstType P (cur st) ty) st in (v, st\<lparr>cur := assign key v (cur st)\<rparr>))"

fun SubstExpr :: "versions \<Rightarrow> 'o Expr \<Rightarrow> 'o Expr" where
  "SubstExpr c (EVar x) = (case lookup c x of Some v \<Rightarrow> EVar v | None \<Rightarrow> EVar x)"
| "SubstExpr c (ConstInt i) = ConstInt i"
| "SubstExpr c (ConstBool b) = ConstBool b"
| "SubstExpr c (Neg a) = Neg (SubstExpr c a)"
| "SubstExpr c (Not a) = Not (SubstExpr c a)"
| "SubstExpr c (And a b) = And (SubstExpr c a) (SubstExpr c b)"
| "SubstExpr c (Add a b) = Add (SubstExpr c a) (SubstExpr c b)"
| "SubstExpr c (Lt a b) = Lt (SubstExpr c a) (SubstExpr c b)"
| "SubstExpr c (Gt a b) = Gt (SubstExpr c a) (SubstExpr c b)"
| "SubstExpr c (Op f es) = Op f (map (SubstExpr c) es)"

section \<open>Yields\<close>

definition AssertNoMidBodyYield :: "'o Stmt \<Rightarrow> unit res" where
  "AssertNoMidBodyYield s =
     (case s of
        SeqStmts ss \<Rightarrow> check InternalError (\<forall>t\<in>set (butlast ss). \<not> (case t of YieldStmt _ \<Rightarrow> True | _ \<Rightarrow> False))
      | _ \<Rightarrow> Inr ())"

definition transparent :: "ScopeKind \<Rightarrow> bool" where
  "transparent k \<longleftrightarrow> k = Runtime \<or> k = SplitAiv"

function (sequential) ExtractYield :: "'o Stmt \<Rightarrow> 'o Expr list option res" where
  "ExtractYield (YieldStmt es) = Inr (Some es)"
| "ExtractYield (ScopeStmt k n B) = (if transparent k then ExtractYield B else Inr None)"
| "ExtractYield (SeqStmts ss) =
     res_bind (AssertNoMidBodyYield (SeqStmts ss)) (\<lambda>_. if ss = [] then Inr None else ExtractYield (last ss))"
| "ExtractYield s = Inr None"
  by pat_completeness auto
termination
  by (relation "measure size") (auto simp: size_list_estimation' less_Suc_eq_le dest: last_in_set)

function (sequential) ReplaceOrAppendYield :: "'o Stmt \<Rightarrow> 'o Expr list \<Rightarrow> 'o Stmt res" where
  "ReplaceOrAppendYield (YieldStmt es) vals = Inr (YieldStmt vals)"
| "ReplaceOrAppendYield (ScopeStmt k n B) vals =
     (if transparent k then res_bind (ReplaceOrAppendYield B vals) (\<lambda>B. Inr (ScopeStmt k n B))
      else Inr (Flatten [ScopeStmt k n B, YieldStmt vals]))"
| "ReplaceOrAppendYield (SeqStmts ss) vals =
     res_bind (AssertNoMidBodyYield (SeqStmts ss)) (\<lambda>_.
     res_bind (if ss = [] then Inr None else ExtractYield (last ss)) (\<lambda>trailing.
       if trailing \<noteq> None \<and> ss \<noteq> [] then
         res_bind (ReplaceOrAppendYield (last ss) vals) (\<lambda>s. Inr (Flatten (butlast ss @ [s])))
       else Inr (Flatten (ss @ [YieldStmt vals]))))"
| "ReplaceOrAppendYield s vals = Inr (Flatten [s, YieldStmt vals])"
  by pat_completeness auto
termination
  by (relation "measure (\<lambda>(s, _). size s)") (auto simp: size_list_estimation' less_Suc_eq_le dest: last_in_set)

section \<open>Loops\<close>

text \<open>The variables a loop body assigns that exist before it, and those that do not but are needed afterwards.\<close>

definition by_name :: "'o SSAParams \<Rightarrow> Var list \<Rightarrow> Var list" where
  "by_name P xs = sort_key name_hint (iteration_order P xs)"

definition assigned_vars :: "Var list \<Rightarrow> 'o Stmt \<Rightarrow> Var list" where
  "assigned_vars scoped B =
     filter (\<lambda>x. var_id x \<notin> var_id ` set scoped)
       (map (\<lambda>i. the (find (\<lambda>x. var_id x = i) (assign_defs B))) (remdups (map var_id (assign_defs B))))"

definition carried_vars :: "'o SSAParams \<Rightarrow> versions \<Rightarrow> Var list \<Rightarrow> 'o Stmt \<Rightarrow> Var list" where
  "carried_vars P before scoped B = by_name P (filter (\<lambda>x. lookup before x \<noteq> None) (assigned_vars scoped B))"

definition escaping_vars :: "'o SSAParams \<Rightarrow> versions \<Rightarrow> nat set \<Rightarrow> Var list \<Rightarrow> 'o Stmt \<Rightarrow> Var list" where
  "escaping_vars P before needs scoped B =
     by_name P (filter (\<lambda>x. lookup before x = None \<and> var_id x \<in> needs) (assigned_vars scoped B))"

text \<open>\<open>TypeCollector\<close>: the type of the last assignment.\<close>

fun collect_types :: "'o SSAParams \<Rightarrow> 'o Stmt \<Rightarrow> (nat \<rightharpoonup> nat) \<Rightarrow> (nat \<rightharpoonup> nat)" where
  "collect_types P (AssignStmt x e) m = m(var_id x \<mapsto> GetAuthoritativeAssignmentType P (var_type x) e)"
| "collect_types P (SeqStmts ss) m = fold (collect_types P) ss m"
| "collect_types P (IfStmt c a b rvs) m =
     (let m = collect_types P a m in case b of None \<Rightarrow> m | Some b \<Rightarrow> collect_types P b m)"
| "collect_types P (ForStmt h ias B rvs) m = collect_types P B m"
| "collect_types P (WhileStmt c ias B rvs) m = collect_types P B m"
| "collect_types P (ScopeStmt k n B) m = collect_types P B m"
| "collect_types P _ m = m"

definition FindInitValue :: "'o SSAParams \<Rightarrow> nat \<Rightarrow> versions \<Rightarrow> Var option" where
  "FindInitValue P ty pre =
     (case find (\<lambda>p. case lookup pre p of Some v \<Rightarrow> var_type v = ty | None \<Rightarrow> False) (out_params P) of
        Some p \<Rightarrow> lookup pre p
      | None \<Rightarrow>
          (case filter (\<lambda>(k, v). var_type v = ty) pre of
             [] \<Rightarrow> None
           | kv # kvs \<Rightarrow> Some (snd (fold (\<lambda>a b. if var_id (fst a) < var_id (fst b) then a else b) kvs kv))))"

text \<open>Iteration arguments and returned variables: those the loop has, the carried and the escaping ones.\<close>

fun rebuild_args ::
  "'o SSAParams \<Rightarrow> (Var \<times> 'o Expr) list \<Rightarrow> SSAConverter \<Rightarrow> (Var \<times> 'o Expr) list \<times> SSAConverter" where
  "rebuild_args P [] st = ([], st)"
| "rebuild_args P ((x, e) # ias) st =
     (let (v, st1) = make_var (name_hint x) (SubstType P (cur st) (var_type x)) st;
          (rest, st2) = rebuild_args P ias st1 in
      ((v, SubstExpr (cur st) e) # rest, st2))"

fun carried_args ::
  "'o SSAParams \<Rightarrow> versions \<Rightarrow> Var list \<Rightarrow> SSAConverter \<Rightarrow> ((Var \<times> 'o Expr) list \<times> Var list \<times> SSAConverter) res" where
  "carried_args P before [] st = Inr ([], [], st)"
| "carried_args P before (x # xs) st =
     (case lookup before x of
        None \<Rightarrow> Inl OutOfRange
      | Some init \<Rightarrow>
          let (ia, st) = make_version P ''iter'' x (var_type init) st;
              (rv, st) = make_version P ''rv'' x (var_type init) st in
          res_bind (carried_args P before xs st) (\<lambda>(ias, rvs, st). Inr ((ia, EVar init) # ias, rv # rvs, st)))"

fun escaping_args ::
  "'o SSAParams \<Rightarrow> versions \<Rightarrow> (nat \<rightharpoonup> nat) \<Rightarrow> Var list \<Rightarrow> SSAConverter \<Rightarrow>
    ((Var \<times> 'o Expr) list \<times> Var list \<times> SSAConverter) res" where
  "escaping_args P before types [] st = Inr ([], [], st)"
| "escaping_args P before types (x # xs) st =
     (case types (var_id x) of
        None \<Rightarrow> Inl InternalError
      | Some ty0 \<Rightarrow>
          let ty = SubstType P (cur st) ty0;
              (init, st) = (case FindInitValue P ty before of
                  Some v \<Rightarrow> (v, st)
                | None \<Rightarrow> make_var (name_hint x) ty st);
              (ia, st) = make_version P ''iter'' x ty st;
              (rv, st) = make_version P ''rv'' x ty st in
          res_bind (escaping_args P before types xs st) (\<lambda>(ias, rvs, st). Inr ((ia, EVar init) # ias, rv # rvs, st)))"

fun RebuildExistingReturnVars :: "'o SSAParams \<Rightarrow> Var list \<Rightarrow> SSAConverter \<Rightarrow> Var list \<times> SSAConverter" where
  "RebuildExistingReturnVars P [] st = ([], st)"
| "RebuildExistingReturnVars P (x # xs) st =
     (let (v, st) = make_var (name_hint x) (SubstType P (cur st) (var_type x)) st;
          (vs, st) = RebuildExistingReturnVars P xs (st\<lparr>cur := assign x v (cur st)\<rparr>) in
      (v # vs, st))"

text \<open>\<open>RegisterIterArgs\<close>: each argument is the version of its source and of itself.\<close>

definition RegisterIterArgs :: "Var list \<Rightarrow> Var list \<Rightarrow> SSAConverter \<Rightarrow> SSAConverter" where
  "RegisterIterArgs sources ias st = st\<lparr>cur := fold (\<lambda>(x, v) c. assign v v (assign x v c)) (zip sources ias) (cur st)\<rparr>"

text \<open>Before the body of a loop: the new arguments, and the returned variables of the carried and the escaping ones.\<close>

record 'o LoopPrep =
  lp_args :: "(Var \<times> 'o Expr) list"
  lp_carried :: "Var list"
  lp_escaping :: "Var list"
  lp_carried_rvs :: "Var list"
  lp_esc_rvs :: "Var list"

definition prepare_loop ::
  "'o SSAParams \<Rightarrow> Var list \<Rightarrow> (Var \<times> 'o Expr) list \<Rightarrow> 'o Stmt \<Rightarrow> SSAConverter \<Rightarrow> ('o LoopPrep \<times> SSAConverter) res" where
  "prepare_loop P scoped ias B st =
     (let before = cur st;
          (old_args, st1) = rebuild_args P ias st;
          carried = carried_vars P before (scoped @ map fst ias) B;
          escaping = escaping_vars P before (future_needs st) (scoped @ map fst ias) B in
      res_bind (carried_args P before carried st1) (\<lambda>(c_args, c_rvs, st2).
      res_bind (escaping_args P before (collect_types P B Map.empty) escaping st2) (\<lambda>(e_args, e_rvs, st3).
        Inr (\<lparr>lp_args = old_args @ c_args @ e_args, lp_carried = carried, lp_escaping = escaping,
          lp_carried_rvs = c_rvs, lp_esc_rvs = e_rvs\<rparr>, st3))))"

text \<open>After the body: the returned variables become current, the body yields the last versions.\<close>

definition after_values :: "versions \<Rightarrow> Var list \<Rightarrow> 'o Expr list res" where
  "after_values c xs =
     (if \<forall>x\<in>set xs. lookup c x \<noteq> None then Inr (map (\<lambda>x. EVar (the (lookup c x))) xs) else Inl OutOfRange)"

definition finish_loop ::
  "'o SSAParams \<Rightarrow> versions \<Rightarrow> (Var \<times> 'o Expr) list \<Rightarrow> Var list \<Rightarrow> 'o LoopPrep \<Rightarrow> 'o Stmt \<Rightarrow> SSAConverter \<Rightarrow>
    ('o Stmt \<times> Var list \<times> SSAConverter) res" where
  "finish_loop P before ias rvs lp new_body st =
     (let after = cur st;
          c = assigns (lp_escaping lp) (lp_esc_rvs lp) (assigns (lp_carried lp) (lp_carried_rvs lp) before);
          (old_rvs, st) = RebuildExistingReturnVars P rvs (st\<lparr>cur := c\<rparr>);
          st = st\<lparr>cur := assigns (map fst ias) old_rvs (cur st)\<rparr> in
      res_bind (ExtractYield new_body) (\<lambda>y.
      res_bind (after_values after (lp_carried lp)) (\<lambda>cs.
      let es = List.map_filter (\<lambda>x. map_option EVar (lookup after x)) (lp_escaping lp);
          yields = (case y of None \<Rightarrow> [] | Some ys \<Rightarrow> ys) @ cs @ es in
      res_bind (if yields = [] then Inr new_body else ReplaceOrAppendYield new_body yields) (\<lambda>new_body.
        Inr (new_body, old_rvs @ lp_carried_rvs lp @ lp_esc_rvs lp, st)))))"

section \<open>Branches\<close>

definition changed :: "versions \<Rightarrow> versions \<Rightarrow> Var \<Rightarrow> bool" where
  "changed before branch x =
     (case (lookup before x, lookup branch x) of
        (Some b, Some v) \<Rightarrow> var_id b \<noteq> var_id v
      | _ \<Rightarrow> False)"

definition diverges :: "versions \<Rightarrow> versions \<Rightarrow> versions \<Rightarrow> Var \<Rightarrow> bool" where
  "diverges before then_ver else_ver x \<longleftrightarrow>
     (if lookup before x \<noteq> None then changed before then_ver x \<or> changed before else_ver x else lookup else_ver x \<noteq> None)"

definition diverges_in_else :: "versions \<Rightarrow> versions \<Rightarrow> versions \<Rightarrow> Var \<Rightarrow> bool" where
  "diverges_in_else before then_ver else_ver x \<longleftrightarrow> lookup then_ver x = None \<and> changed before else_ver x"

definition phi_vars :: "'o SSAParams \<Rightarrow> versions \<Rightarrow> versions \<Rightarrow> versions \<Rightarrow> Var list" where
  "phi_vars P before then_ver else_ver = by_name P
     (filter (diverges before then_ver else_ver) (map fst then_ver) @
      filter (diverges_in_else before then_ver else_ver) (map fst else_ver))"

fun make_phis ::
  "'o SSAParams \<Rightarrow> versions \<Rightarrow> versions \<Rightarrow> versions \<Rightarrow> Var list \<Rightarrow> SSAConverter \<Rightarrow>
    (Var list \<times> 'o Expr list \<times> 'o Expr list \<times> SSAConverter) res" where
  "make_phis P before then_ver else_ver [] st = Inr ([], [], [], st)"
| "make_phis P before then_ver else_ver (x # xs) st =
     (case (if lookup then_ver x \<noteq> None then lookup then_ver x else lookup before x,
            if lookup else_ver x \<noteq> None then lookup else_ver x else lookup before x) of
        (Some t_ver, Some e_ver) \<Rightarrow>
          let (phi, st) = make_version P ''phi'' x (var_type t_ver) st in
          res_bind (make_phis P before then_ver else_ver xs (st\<lparr>cur := assign x phi (cur st)\<rparr>)) (\<lambda>(rvs, ts, es, st).
            Inr (phi # rvs, EVar t_ver # ts, EVar e_ver # es, st))
      | _ \<Rightarrow> Inl OutOfRange)"

fun version_return_vars :: "'o SSAParams \<Rightarrow> Var list \<Rightarrow> Var list \<Rightarrow> SSAConverter \<Rightarrow> Var list \<times> SSAConverter" where
  "version_return_vars P handled [] st = ([], st)"
| "version_return_vars P handled (x # xs) st =
     (if var_id x \<in> var_id ` set handled then version_return_vars P handled xs st
      else
        let (v, st) = make_version P ''rv'' x (SubstType P (cur st) (var_type x)) st;
            (vs, st) = version_return_vars P handled xs (st\<lparr>cur := assign x v (cur st)\<rparr>) in
        (v # vs, st))"

definition merge_branches ::
  "'o SSAParams \<Rightarrow> 'o Expr \<Rightarrow> versions \<Rightarrow> 'o Stmt \<Rightarrow> versions \<Rightarrow> 'o Stmt option \<Rightarrow> versions \<Rightarrow> Var list \<Rightarrow> SSAConverter \<Rightarrow>
    ('o Stmt \<times> SSAConverter) res" where
  "merge_branches P cond before new_then then_ver new_else else_ver rvs st =
     (let phis = phi_vars P before then_ver else_ver; st = st\<lparr>cur := before\<rparr> in
      if phis = [] then
        (let (new_rvs, st) = version_return_vars P [] rvs st in Inr (IfStmt cond new_then new_else new_rvs, st))
      else
        res_bind (make_phis P before then_ver else_ver phis st) (\<lambda>(phi_rvs, then_yields, else_yields, st).
        let (new_rvs, st) = version_return_vars P phis rvs st in
        res_bind (ReplaceOrAppendYield new_then then_yields) (\<lambda>then_body.
        res_bind (case new_else of
            Some e \<Rightarrow> ReplaceOrAppendYield e else_yields
          | None \<Rightarrow> Inr (YieldStmt else_yields)) (\<lambda>else_body.
          Inr (IfStmt cond then_body (Some else_body) (phi_rvs @ new_rvs), st)))))"

section \<open>Statements\<close>

definition outline_boundary :: "ScopeKind \<Rightarrow> bool" where
  "outline_boundary k \<longleftrightarrow> k \<noteq> Runtime \<and> k \<noteq> SplitAiv \<and> k \<noteq> Reg"

text \<open>\<open>suffix_needs\<close>: what each suffix of a sequence needs.\<close>

fun suffix_needs :: "'o Stmt list \<Rightarrow> nat set" where
  "suffix_needs [] = {}"
| "suffix_needs (s # ss) = ComputeStmtLiveIn s \<union> (suffix_needs ss - var_id ` set (assign_defs s))"

fun ConvertStmt :: "'o SSAParams \<Rightarrow> 'o Stmt \<Rightarrow> SSAConverter \<Rightarrow> ('o Stmt \<times> SSAConverter) res"
  and ConvertSeq :: "'o SSAParams \<Rightarrow> 'o Stmt list \<Rightarrow> SSAConverter \<Rightarrow> ('o Stmt list \<times> SSAConverter) res" where
  "ConvertStmt P (AssignStmt x e) st =
     (let val = SubstExpr (cur st) e;
          (v, st) = AllocVersion P x (GetAuthoritativeAssignmentType P (var_type x) val) st in
      Inr (AssignStmt v val, st))"
| "ConvertStmt P (EvalStmt e) st = Inr (EvalStmt (SubstExpr (cur st) e), st)"
| "ConvertStmt P (YieldStmt es) st = Inr (YieldStmt (map (SubstExpr (cur st)) es), st)"
| "ConvertStmt P (ReturnStmt es) st = Inr (ReturnStmt (map (SubstExpr (cur st)) es), st)"
| "ConvertStmt P BreakStmt st = Inr (BreakStmt, st)"
| "ConvertStmt P ContinueStmt st = Inr (ContinueStmt, st)"
| "ConvertStmt P (SeqStmts ss) st =
     res_bind (AssertNoMidBodyYield (SeqStmts ss)) (\<lambda>_.
     res_bind (ConvertSeq P ss st) (\<lambda>(ss', st). Inr (Flatten ss', st)))"
| "ConvertStmt P (IfStmt c a b rvs) st =
     (let cond = SubstExpr (cur st) c; before = cur st in
      res_bind (ConvertStmt P a st) (\<lambda>(new_then, st1).
      res_bind (case b of
          None \<Rightarrow> Inr (None, st1\<lparr>cur := before\<rparr>)
        | Some b \<Rightarrow> res_bind (ConvertStmt P b (st1\<lparr>cur := before\<rparr>)) (\<lambda>(b', st). Inr (Some b', st))) (\<lambda>(new_else, st2).
        merge_branches P cond before new_then (cur st1) new_else (cur st2) rvs st2)))"
| "ConvertStmt P (ForStmt h ias B rvs) st =
     (let new_start = SubstExpr (cur st) (for_start h);
          new_stop = SubstExpr (cur st) (for_stop h);
          new_step = SubstExpr (cur st) (for_step h);
          before = cur st in
      res_bind (prepare_loop P [loop_var h] ias B st) (\<lambda>(lp, st1).
      let (new_lv, st2) = make_version P ''idx'' (loop_var h) (var_type (loop_var h)) st1;
          st3 = RegisterIterArgs (map fst ias @ lp_carried lp @ lp_escaping lp) (map fst (lp_args lp))
            (st2\<lparr>cur := assign (loop_var h) new_lv (cur st2)\<rparr>) in
      res_bind (ConvertStmt P B st3) (\<lambda>(new_body, st4).
      res_bind (finish_loop P before ias rvs lp new_body st4) (\<lambda>(new_body, new_rvs, st5).
        Inr (ForStmt (h\<lparr>loop_var := new_lv, for_start := new_start, for_stop := new_stop, for_step := new_step\<rparr>)
          (lp_args lp) new_body new_rvs, st5)))))"
| "ConvertStmt P (WhileStmt c ias B rvs) st =
     (let before = cur st in
      res_bind (prepare_loop P [] ias B st) (\<lambda>(lp, st1).
      let st2 = RegisterIterArgs (map fst ias @ lp_carried lp @ lp_escaping lp) (map fst (lp_args lp)) st1;
          new_cond = SubstExpr (cur st2) c in
      res_bind (ConvertStmt P B st2) (\<lambda>(new_body, st3).
      res_bind (finish_loop P before ias rvs lp new_body st3) (\<lambda>(new_body, new_rvs, st4).
        Inr (WhileStmt new_cond (lp_args lp) new_body new_rvs, st4)))))"
| "ConvertStmt P (ScopeStmt k n B) st =
     (let needs = future_needs st;
          visible = (if outline_boundary k then {i \<in> needs. i \<in> (var_id \<circ> fst) ` set (cur st)} else needs) in
      res_bind (ConvertStmt P B (st\<lparr>future_needs := visible\<rparr>)) (\<lambda>(B', st').
        Inr (ScopeStmt k (map_option (SubstExpr (cur st)) n) B',
          if outline_boundary k then st'\<lparr>future_needs := needs\<rparr> else st')))"
| "ConvertSeq P [] st = Inr ([], st)"
| "ConvertSeq P (s # ss) st =
     res_bind (ConvertStmt P s (st\<lparr>future_needs := suffix_needs ss\<rparr>)) (\<lambda>(s', st).
     res_bind (ConvertSeq P ss st) (\<lambda>(ss', st). Inr (s' # ss', st)))"

fun ConvertParams :: "'o SSAParams \<Rightarrow> Var list \<Rightarrow> SSAConverter \<Rightarrow> Var list \<times> SSAConverter" where
  "ConvertParams P [] st = ([], st)"
| "ConvertParams P (x # xs) st =
     (let (v, st) = AllocVersion P x (var_type x) st; (vs, st) = ConvertParams P xs st in (v # vs, st))"

definition ConvertFunction :: "'o SSAParams \<Rightarrow> nat \<Rightarrow> 'o Function \<Rightarrow> 'o Function res" where
  "ConvertFunction P fresh func =
     (let (new_params, st) =
            ConvertParams P (params func) \<lparr>cur = [], ver = (\<lambda>_. 0), future_needs = {}, next_id = fresh\<rparr> in
      res_bind (ConvertStmt P (body func) st) (\<lambda>(new_body, st).
        Inr \<lparr>params = new_params, body = new_body\<rparr>))"

section \<open>The variables of the result\<close>

text \<open>Every definition in a statement, as often as it is there.\<close>

definition ids :: "Var list \<Rightarrow> nat multiset" where
  "ids xs = mset (map var_id xs)"

fun defs :: "'o Stmt \<Rightarrow> nat multiset" where
  "defs (AssignStmt x e) = {#var_id x#}"
| "defs (SeqStmts ss) = sum_list (map defs ss)"
| "defs (IfStmt c a b rvs) = defs a + (case b of None \<Rightarrow> {#} | Some b \<Rightarrow> defs b) + ids rvs"
| "defs (ForStmt h ias B rvs) = ids (loop_var h # map fst ias) + defs B + ids rvs"
| "defs (WhileStmt c ias B rvs) = ids (map fst ias) + defs B + ids rvs"
| "defs (ScopeStmt k n B) = defs B"
| "defs _ = {#}"

text \<open>Identities handed out between two states of the counter, each at most once.\<close>

definition fresh_ids :: "nat \<Rightarrow> nat \<Rightarrow> nat multiset \<Rightarrow> bool" where
  "fresh_ids n n' M \<longleftrightarrow> n \<le> n' \<and> M \<subseteq># mset [n..<n']"

lemma fresh_ids_le: "fresh_ids n n' M \<Longrightarrow> n \<le> n'"
  by (simp add: fresh_ids_def)

lemma fresh_ids_empty [simp, intro]: "fresh_ids n n {#}"
  by (simp add: fresh_ids_def)

lemma fresh_ids_one: "fresh_ids n (Suc n) {#n#}"
  by (simp add: fresh_ids_def)

lemma fresh_ids_add:
  assumes "fresh_ids n m A" "fresh_ids m k B"
  shows "fresh_ids n k (A + B)"
proof -
  have "[n..<k] = [n..<m] @ [m..<k]" using upt_add_eq_append [of n m "k - m"] assms by (simp add: fresh_ids_def)
  then have "mset [n..<k] = mset [n..<m] + mset [m..<k]" by (simp only: mset_append)
  moreover have "A + B \<subseteq># mset [n..<m] + mset [m..<k]"
    using assms unfolding fresh_ids_def by (blast intro: subset_mset.add_mono)
  ultimately show ?thesis using assms by (simp add: fresh_ids_def)
qed

lemma fresh_ids_mono: "fresh_ids n m A \<Longrightarrow> B \<subseteq># A \<Longrightarrow> m \<le> k \<Longrightarrow> fresh_ids n k B"
  using fresh_ids_add [of n m A k "{#}"]
  by (auto simp: fresh_ids_def intro: subset_mset.order_trans)

lemma fresh_ids_count: "fresh_ids n n' M \<Longrightarrow> count M i \<le> 1"
  using mset_subset_eq_count [of M "mset_set {n..<n'}" i] by (auto simp: fresh_ids_def count_mset_set' split: if_splits)

lemma fresh_ids_set: "fresh_ids n n' M \<Longrightarrow> i \<in># M \<Longrightarrow> n \<le> i \<and> i < n'"
  using mset_subset_eqD by (fastforce simp: fresh_ids_def)

lemma ids_simps [simp]: "ids [] = {#}" "ids (x # xs) = {#var_id x#} + ids xs" "ids (xs @ ys) = ids xs + ids ys"
  by (simp_all add: ids_def)

lemma make_varD: "make_var name ty st = (v, st') \<Longrightarrow> var_id v = next_id st \<and> st' = st\<lparr>next_id := Suc (next_id st)\<rparr>"
  by (auto simp: make_var_def)

lemma make_versionD:
  "make_version P role x ty st = (v, st') \<Longrightarrow> var_id v = next_id st \<and> next_id st' = Suc (next_id st) \<and> cur st' = cur st \<and>
   future_needs st' = future_needs st"
  by (auto simp: make_version_def make_var_def NextVersion_def)

lemma rebuild_argsD:
  "rebuild_args P ias st = (ias', st') \<Longrightarrow>
   fresh_ids (next_id st) (next_id st') (ids (map fst ias')) \<and> cur st' = cur st \<and>
   future_needs st' = future_needs st \<and> length ias' = length ias"
proof (induction ias arbitrary: st ias' st')
  case (Cons xe ias)
  obtain x e where xe: "xe = (x, e)" by fastforce
  from Cons.prems obtain v st1 ias1 where
    eqs: "make_var (name_hint x) (SubstType P (cur st) (var_type x)) st = (v, st1)"
      "rebuild_args P ias st1 = (ias1, st')" "ias' = (v, SubstExpr (cur st) e) # ias1"
    by (auto simp: xe split: prod.splits)
  from make_varD [OF eqs(1)] have v: "var_id v = next_id st" "next_id st1 = Suc (next_id st)" "cur st1 = cur st"
    "future_needs st1 = future_needs st" by auto
  from Cons.IH [OF eqs(2)] fresh_ids_add [OF fresh_ids_one] v show ?case by (auto simp: eqs(3))
qed simp

lemma carried_argsD:
  "carried_args P before xs st = Inr (ias, rvs, st') \<Longrightarrow>
   fresh_ids (next_id st) (next_id st') (ids (map fst ias) + ids rvs) \<and> cur st' = cur st \<and>
   future_needs st' = future_needs st \<and> length ias = length xs \<and> length rvs = length xs \<and> map snd ias = map (\<lambda>x. EVar (the (lookup before x))) xs \<and>
   (\<forall>x\<in>set xs. lookup before x \<noteq> None)"
proof (induction xs arbitrary: st ias rvs st')
  case (Cons x xs)
  from Cons.prems obtain v ia rv st1 st2 ias' rvs' where
    eqs: "lookup before x = Some v" "make_version P ''iter'' x (var_type v) st = (ia, st1)"
      "make_version P ''rv'' x (var_type v) st1 = (rv, st2)" "carried_args P before xs st2 = Inr (ias', rvs', st')"
      "ias = (ia, EVar v) # ias'" "rvs = rv # rvs'"
    by (auto split: option.splits prod.splits)
  from Cons.IH [OF eqs(4)]
  have IH: "fresh_ids (next_id st2) (next_id st') (ids (map fst ias') + ids rvs')"
    and rest: "cur st' = cur st2" "future_needs st' = future_needs st2" "length ias' = length xs" "length rvs' = length xs"
      "map snd ias' = map (\<lambda>x. EVar (the (lookup before x))) xs" "\<forall>x\<in>set xs. lookup before x \<noteq> None"
    by auto
  from make_versionD [OF eqs(2)] make_versionD [OF eqs(3)]
  have a: "var_id ia = next_id st" "var_id rv = Suc (next_id st)" "next_id st2 = Suc (Suc (next_id st))" "cur st2 = cur st"
    "future_needs st2 = future_needs st" by auto
  show ?case
    using fresh_ids_add [OF fresh_ids_add [OF fresh_ids_one fresh_ids_one] IH [unfolded a(3)]] rest a
    by (simp add: eqs ac_simps add_mset_commute)
qed simp

lemma escaping_argsD:
  "escaping_args P before types xs st = Inr (ias, rvs, st') \<Longrightarrow>
   fresh_ids (next_id st) (next_id st') (ids (map fst ias) + ids rvs) \<and> cur st' = cur st \<and>
   future_needs st' = future_needs st \<and> length ias = length xs \<and> length rvs = length xs \<and> (\<forall>e\<in>snd ` set ias. \<exists>v. e = EVar v)"
proof (induction xs arbitrary: st ias rvs st')
  case (Cons x xs)
  obtain ty0 where ty: "types (var_id x) = Some ty0" using Cons.prems by (cases "types (var_id x)") simp_all
  obtain init st0 where init: "(case FindInitValue P (SubstType P (cur st) ty0) before of Some v \<Rightarrow> (v, st)
      | None \<Rightarrow> make_var (name_hint x) (SubstType P (cur st) ty0) st) = (init, st0)" by fastforce
  from Cons.prems obtain ia rv st1 st2 ias' rvs' where
    eqs: "types (var_id x) = Some ty0"
      "(case FindInitValue P (SubstType P (cur st) ty0) before of Some v \<Rightarrow> (v, st)
        | None \<Rightarrow> make_var (name_hint x) (SubstType P (cur st) ty0) st) = (init, st0)"
      "make_version P ''iter'' x (SubstType P (cur st) ty0) st0 = (ia, st1)"
      "make_version P ''rv'' x (SubstType P (cur st) ty0) st1 = (rv, st2)"
      "escaping_args P before types xs st2 = Inr (ias', rvs', st')"
      "ias = (ia, EVar init) # ias'" "rvs = rv # rvs'"
    by (auto simp: ty init Let_def split: prod.splits)
  from Cons.IH [OF eqs(5)]
  have IH: "fresh_ids (next_id st2) (next_id st') (ids (map fst ias') + ids rvs')"
    and rest: "cur st' = cur st2" "future_needs st' = future_needs st2" "length ias' = length xs" "length rvs' = length xs"
      "\<forall>e\<in>snd ` set ias'. \<exists>v. e = EVar v"
    by auto
  have st0: "next_id st \<le> next_id st0" "cur st0 = cur st" "future_needs st0 = future_needs st"
    using eqs(2) by (auto split: option.splits dest!: make_varD)
  from make_versionD [OF eqs(3)] make_versionD [OF eqs(4)]
  have a: "var_id ia = next_id st0" "var_id rv = Suc (next_id st0)" "next_id st2 = Suc (Suc (next_id st0))" "cur st2 = cur st0"
    "future_needs st2 = future_needs st0" by auto
  have "fresh_ids (next_id st) (next_id st0) {#}" using st0 by (simp add: fresh_ids_def)
  from fresh_ids_add [OF this fresh_ids_add [OF fresh_ids_add [OF fresh_ids_one fresh_ids_one] IH [unfolded a(3)]]] rest a st0
  show ?case by (simp add: eqs ac_simps add_mset_commute)
qed simp

lemma RebuildExistingReturnVarsD:
  "RebuildExistingReturnVars P xs st = (vs, st') \<Longrightarrow> fresh_ids (next_id st) (next_id st') (ids vs) \<and> length vs = length xs \<and>
   future_needs st' = future_needs st"
proof (induction xs arbitrary: st vs st')
  case (Cons x xs)
  from Cons.prems obtain v st1 vs1 where
    eqs: "make_var (name_hint x) (SubstType P (cur st) (var_type x)) st = (v, st1)"
      "RebuildExistingReturnVars P xs (st1\<lparr>cur := assign x v (cur st1)\<rparr>) = (vs1, st')" "vs = v # vs1"
    by (auto split: prod.splits)
  from Cons.IH [OF eqs(2)] fresh_ids_add [OF fresh_ids_one] make_varD [OF eqs(1)] show ?case by (auto simp: eqs(3))
qed simp

lemma version_return_varsD:
  "version_return_vars P hs xs st = (vs, st') \<Longrightarrow> fresh_ids (next_id st) (next_id st') (ids vs) \<and>
   future_needs st' = future_needs st"
proof (induction xs arbitrary: st vs st')
  case (Cons x xs)
  show ?case
  proof (cases "var_id x \<in> var_id ` set hs")
    case True
    with Cons show ?thesis by simp
  next
    case False
    with Cons.prems obtain v st1 vs1 where
      eqs: "make_version P ''rv'' x (SubstType P (cur st) (var_type x)) st = (v, st1)"
        "version_return_vars P hs xs (st1\<lparr>cur := assign x v (cur st1)\<rparr>) = (vs1, st')" "vs = v # vs1"
      by (auto simp: Let_def split: prod.splits)
    from Cons.IH [OF eqs(2)] fresh_ids_add [OF fresh_ids_one] make_versionD [OF eqs(1)] show ?thesis
      by (auto simp: eqs(3))
  qed
qed simp

lemma make_phisD:
  "make_phis P before t_ver e_ver xs st = Inr (rvs, ts, es, st') \<Longrightarrow>
   fresh_ids (next_id st) (next_id st') (ids rvs) \<and> cur st' = assigns xs rvs (cur st) \<and> length rvs = length xs \<and>
   future_needs st' = future_needs st \<and> ts = map (\<lambda>x. EVar (the (if lookup t_ver x \<noteq> None then lookup t_ver x else lookup before x))) xs \<and>
   es = map (\<lambda>x. EVar (the (if lookup e_ver x \<noteq> None then lookup e_ver x else lookup before x))) xs"
proof (induction xs arbitrary: st rvs ts es st')
  case (Cons x xs)
  obtain t e where te: "(if lookup t_ver x \<noteq> None then lookup t_ver x else lookup before x) = Some t"
      "(if lookup e_ver x \<noteq> None then lookup e_ver x else lookup before x) = Some e"
    using Cons.prems by (simp only: make_phis.simps split: option.splits prod.splits) simp_all
  with Cons.prems obtain phi st1 rvs1 ts1 es1 where
    eqs: "make_version P ''phi'' x (var_type t) st = (phi, st1)"
      "make_phis P before t_ver e_ver xs (st1\<lparr>cur := assign x phi (cur st1)\<rparr>) = Inr (rvs1, ts1, es1, st')"
      "rvs = phi # rvs1" "ts = EVar t # ts1" "es = EVar e # es1"
    by (simp only: make_phis.simps te option.case prod.case) (auto split: prod.splits)
  from Cons.IH [OF eqs(2)] fresh_ids_add [OF fresh_ids_one] make_versionD [OF eqs(1)] te show ?case
    by (auto simp: eqs(3-))
qed simp

lemma defs_Flatten [simp]: "defs (Flatten ss) = sum_list (map defs ss)"
  by (rule Flatten_sum_list) simp

lemma sum_list_last: "ss \<noteq> [] \<Longrightarrow> sum_list (map f (butlast ss)) + f (last ss) = sum_list (map f ss)"
  for f :: "'x \<Rightarrow> 'm::monoid_add"
  by (induction ss) (auto simp: add.assoc)

lemma ReplaceOrAppendYield_defs: "ReplaceOrAppendYield s vals = Inr s' \<Longrightarrow> defs s' = defs s"
proof (induction s vals arbitrary: s' rule: ReplaceOrAppendYield.induct)
  case (3 ss vals)
  from 3(2) obtain r where r: "(if ss = [] then Inr None else ExtractYield (last ss)) = Inr r"
      "AssertNoMidBodyYield (SeqStmts ss) = Inr ()"
    by (auto split: if_splits)
  show ?case
  proof (cases "r \<noteq> None \<and> ss \<noteq> []")
    case True
    with 3(2) r obtain t where t: "ReplaceOrAppendYield (last ss) vals = Inr t" "s' = Flatten (butlast ss @ [t])" by auto
    from 3(1) [OF r(2,1) True t(1)] sum_list_last [of ss defs] True show ?thesis by (simp add: t(2))
  qed (use 3(2) r in auto)
qed (auto split: if_splits)

lemma prepare_loopD:
  assumes "prepare_loop P scoped ias B st = Inr (lp, st')"
  shows "fresh_ids (next_id st) (next_id st') (ids (map fst (lp_args lp)) + ids (lp_carried_rvs lp) + ids (lp_esc_rvs lp))"
    and "cur st' = cur st" and "future_needs st' = future_needs st"
proof -
  from assms obtain old st1 c_args c_rvs st2 e_args e_rvs where
    eqs: "rebuild_args P ias st = (old, st1)"
      "carried_args P (cur st) (carried_vars P (cur st) (scoped @ map fst ias) B) st1 = Inr (c_args, c_rvs, st2)"
      "escaping_args P (cur st) (collect_types P B Map.empty)
        (escaping_vars P (cur st) (future_needs st) (scoped @ map fst ias) B) st2 = Inr (e_args, e_rvs, st')"
    and lp: "lp_args lp = old @ c_args @ e_args" "lp_carried_rvs lp = c_rvs" "lp_esc_rvs lp = e_rvs"
    unfolding prepare_loop_def by (auto simp: Let_def split: prod.splits)
  from rebuild_argsD [OF eqs(1)] carried_argsD [OF eqs(2)] escaping_argsD [OF eqs(3)]
  have "fresh_ids (next_id st) (next_id st1) (ids (map fst old))" and
    "fresh_ids (next_id st1) (next_id st2) (ids (map fst c_args) + ids c_rvs)" and
    "fresh_ids (next_id st2) (next_id st') (ids (map fst e_args) + ids e_rvs)" and "cur st' = cur st" and
    "future_needs st' = future_needs st" by auto
  from fresh_ids_add [OF this(1) fresh_ids_add [OF this(2,3)]] this(4,5)
  show "fresh_ids (next_id st) (next_id st') (ids (map fst (lp_args lp)) + ids (lp_carried_rvs lp) + ids (lp_esc_rvs lp))"
    and "cur st' = cur st" and "future_needs st' = future_needs st"
    by (simp_all add: lp ac_simps)
qed

lemma finish_loopD:
  assumes "finish_loop P before ias rvs lp nb st = Inr (nb', rvs', st')"
  shows "\<exists>old. fresh_ids (next_id st) (next_id st') (ids old) \<and> rvs' = old @ lp_carried_rvs lp @ lp_esc_rvs lp \<and> defs nb' = defs nb"
proof -
  obtain old st1 where old: "RebuildExistingReturnVars P rvs (st\<lparr>cur := assigns (lp_escaping lp) (lp_esc_rvs lp)
      (assigns (lp_carried lp) (lp_carried_rvs lp) before)\<rparr>) = (old, st1)" by fastforce
  from assms have "rvs' = old @ lp_carried_rvs lp @ lp_esc_rvs lp" "next_id st' = next_id st1" "defs nb' = defs nb"
    unfolding finish_loop_def old
    by (auto simp: old Let_def split: if_splits dest: ReplaceOrAppendYield_defs)
  with RebuildExistingReturnVarsD [OF old] show ?thesis by auto
qed

lemma merge_branchesD:
  assumes "merge_branches P cond before a t_ver b e_ver rvs st = Inr (s', st')"
  shows "\<exists>a' b' rvs'. s' = IfStmt cond a' b' rvs' \<and> fresh_ids (next_id st) (next_id st') (ids rvs') \<and> defs a' = defs a \<and>
    (case b' of None \<Rightarrow> {#} | Some b \<Rightarrow> defs b) = (case b of None \<Rightarrow> {#} | Some b \<Rightarrow> defs b)"
proof (cases "phi_vars P before t_ver e_ver = []")
  case True
  obtain vs st1 where vs: "version_return_vars P [] rvs (st\<lparr>cur := before\<rparr>) = (vs, st1)" by fastforce
  from assms version_return_varsD [OF vs] show ?thesis by (auto simp: merge_branches_def True vs Let_def)
next
  case False
  with assms obtain phi_rvs ts es st1 where
    phis: "make_phis P before t_ver e_ver (phi_vars P before t_ver e_ver) (st\<lparr>cur := before\<rparr>) = Inr (phi_rvs, ts, es, st1)"
    unfolding merge_branches_def by (auto simp: Let_def)
  obtain vs st2 where vs: "version_return_vars P (phi_vars P before t_ver e_ver) rvs st1 = (vs, st2)" by fastforce
  from make_phisD [OF phis] version_return_varsD [OF vs]
  have f: "fresh_ids (next_id st) (next_id st2) (ids (phi_rvs @ vs))" by (auto intro: fresh_ids_add)
  obtain a' b' where ab: "ReplaceOrAppendYield a ts = Inr a'" "st' = st2" "s' = IfStmt cond a' (Some b') (phi_rvs @ vs)"
      "(case b of Some e \<Rightarrow> ReplaceOrAppendYield e es | None \<Rightarrow> Inr (YieldStmt es)) = Inr b'"
    using assms False by (auto simp: merge_branches_def phis vs Let_def)
  from ab(4) have "(case b of None \<Rightarrow> {#} | Some b \<Rightarrow> defs b) = defs b'"
    by (auto split: option.splits dest: ReplaceOrAppendYield_defs)
  with f ab ReplaceOrAppendYield_defs [OF ab(1)] show ?thesis by auto
qed

text \<open>The conversion of the compound statements, step by step.\<close>

lemma ConvertStmt_IfE:
  assumes "ConvertStmt P (IfStmt c a b rvs) st = Inr (s', st')"
  obtains a1 st1 b1 st2 where "ConvertStmt P a st = Inr (a1, st1)"
    "(case b of None \<Rightarrow> b1 = None \<and> st2 = st1\<lparr>cur := cur st\<rparr>
      | Some e \<Rightarrow> \<exists>e1. b1 = Some e1 \<and> ConvertStmt P e (st1\<lparr>cur := cur st\<rparr>) = Inr (e1, st2))"
    "merge_branches P (SubstExpr (cur st) c) (cur st) a1 (cur st1) b1 (cur st2) rvs st2 = Inr (s', st')"
  using assms by (cases b) (auto simp: Let_def)

lemma ConvertStmt_ForE:
  assumes "ConvertStmt P (ForStmt h ias B rvs) st = Inr (s', st')"
  obtains lp st1 lv st2 B1 st4 B2 rvs2 where
    "prepare_loop P [loop_var h] ias B st = Inr (lp, st1)"
    "make_version P ''idx'' (loop_var h) (var_type (loop_var h)) st1 = (lv, st2)"
    "ConvertStmt P B (RegisterIterArgs (map fst ias @ lp_carried lp @ lp_escaping lp) (map fst (lp_args lp))
      (st2\<lparr>cur := assign (loop_var h) lv (cur st2)\<rparr>)) = Inr (B1, st4)"
    "finish_loop P (cur st) ias rvs lp B1 st4 = Inr (B2, rvs2, st')"
    "s' = ForStmt (h\<lparr>loop_var := lv, for_start := SubstExpr (cur st) (for_start h),
      for_stop := SubstExpr (cur st) (for_stop h), for_step := SubstExpr (cur st) (for_step h)\<rparr>) (lp_args lp) B2 rvs2"
proof -
  from assms obtain lp st1 where p: "prepare_loop P [loop_var h] ias B st = Inr (lp, st1)" by (auto simp: Let_def)
  obtain lv st2 where lv: "make_version P ''idx'' (loop_var h) (var_type (loop_var h)) st1 = (lv, st2)" by fastforce
  from assms p show thesis by (auto simp: Let_def lv intro!: that [OF p lv])
qed

lemma ConvertStmt_WhileE:
  assumes "ConvertStmt P (WhileStmt c ias B rvs) st = Inr (s', st')"
  obtains lp st1 st2 B1 st4 B2 rvs2 where
    "prepare_loop P [] ias B st = Inr (lp, st1)"
    "st2 = RegisterIterArgs (map fst ias @ lp_carried lp @ lp_escaping lp) (map fst (lp_args lp)) st1"
    "ConvertStmt P B st2 = Inr (B1, st4)"
    "finish_loop P (cur st) ias rvs lp B1 st4 = Inr (B2, rvs2, st')"
    "s' = WhileStmt (SubstExpr (cur st2) c) (lp_args lp) B2 rvs2"
  using assms by (auto simp: Let_def)

lemma ConvertSeq_defs:
  assumes "\<And>s st s' st'. s \<in> set ss \<Longrightarrow> ConvertStmt P s st = Inr (s', st') \<Longrightarrow> fresh_ids (next_id st) (next_id st') (defs s')"
  shows "ConvertSeq P ss st = Inr (ss', st') \<Longrightarrow> fresh_ids (next_id st) (next_id st') (sum_list (map defs ss'))"
  using assms
proof (induction ss arbitrary: st ss' st')
  case (Cons s ss)
  from Cons.prems(1) obtain s1 st1 ss1 where
    eqs: "ConvertStmt P s (st\<lparr>future_needs := suffix_needs ss\<rparr>) = Inr (s1, st1)" "ConvertSeq P ss st1 = Inr (ss1, st')"
      "ss' = s1 # ss1" by auto
  from Cons.prems(2) [OF _ eqs(1)] have s: "fresh_ids (next_id st) (next_id st1) (defs s1)" by simp
  have ss: "fresh_ids (next_id st1) (next_id st') (sum_list (map defs ss1))"
    by (rule Cons.IH [OF eqs(2)]) (rule Cons.prems(2), auto)
  from fresh_ids_add [OF s ss] show ?case by (simp add: eqs(3))
qed simp

theorem ConvertStmt_defs:
  "ConvertStmt P s st = Inr (s', st') \<Longrightarrow> fresh_ids (next_id st) (next_id st') (defs s')"
proof (induction s arbitrary: st s' st')
  case (AssignStmt x e)
  then show ?case by (auto simp: AllocVersion_def Let_def fresh_ids_one split: prod.splits dest!: make_versionD)
next
  case (SeqStmts ss)
  then obtain ss' where "ConvertSeq P ss st = Inr (ss', st')" "s' = Flatten ss'" by auto
  with ConvertSeq_defs [OF SeqStmts.IH this(1)] show ?case by simp
next
  case (IfStmt c a b rvs)
  from IfStmt.prems obtain a1 st1 b1 st2 where
    a: "ConvertStmt P a st = Inr (a1, st1)" and
    b: "(case b of None \<Rightarrow> b1 = None \<and> st2 = st1\<lparr>cur := cur st\<rparr>
      | Some e \<Rightarrow> \<exists>e1. b1 = Some e1 \<and> ConvertStmt P e (st1\<lparr>cur := cur st\<rparr>) = Inr (e1, st2))" and
    m: "merge_branches P (SubstExpr (cur st) c) (cur st) a1 (cur st1) b1 (cur st2) rvs st2 = Inr (s', st')"
    by (rule ConvertStmt_IfE)
  have "fresh_ids (next_id st1) (next_id st2) (case b1 of None \<Rightarrow> {#} | Some b \<Rightarrow> defs b)"
  proof (cases b)
    case (Some e)
    with b obtain e1 where "b1 = Some e1" "ConvertStmt P e (st1\<lparr>cur := cur st\<rparr>) = Inr (e1, st2)" by auto
    with IfStmt.IH(2) [of e] Some show ?thesis by fastforce
  qed (use b in auto)
  with merge_branchesD [OF m] fresh_ids_add [OF fresh_ids_add [OF IfStmt.IH(1) [OF a] this]] show ?case by auto
next
  case (ForStmt h ias B rvs)
  from ForStmt.prems show ?case
  proof (rule ConvertStmt_ForE)
    fix lp st1 lv st2 B1 st4 B2 rvs2
    assume p: "prepare_loop P [loop_var h] ias B st = Inr (lp, st1)" and
      lv: "make_version P ''idx'' (loop_var h) (var_type (loop_var h)) st1 = (lv, st2)" and
      b: "ConvertStmt P B (RegisterIterArgs (map fst ias @ lp_carried lp @ lp_escaping lp) (map fst (lp_args lp))
        (st2\<lparr>cur := assign (loop_var h) lv (cur st2)\<rparr>)) = Inr (B1, st4)" and
      f: "finish_loop P (cur st) ias rvs lp B1 st4 = Inr (B2, rvs2, st')" and
      s': "s' = ForStmt (h\<lparr>loop_var := lv, for_start := SubstExpr (cur st) (for_start h),
        for_stop := SubstExpr (cur st) (for_stop h), for_step := SubstExpr (cur st) (for_step h)\<rparr>) (lp_args lp) B2 rvs2"
    from finish_loopD [OF f] obtain old where
      old: "fresh_ids (next_id st4) (next_id st') (ids old)" "rvs2 = old @ lp_carried_rvs lp @ lp_esc_rvs lp" "defs B2 = defs B1"
      by blast
    from make_versionD [OF lv] ForStmt.IH [OF b]
    have v: "var_id lv = next_id st1" "fresh_ids (Suc (next_id st1)) (next_id st4) (defs B1)" by (auto simp: RegisterIterArgs_def)
    from fresh_ids_add [OF fresh_ids_add [OF fresh_ids_add [OF prepare_loopD(1) [OF p] fresh_ids_one] v(2)] old(1)]
    show ?thesis by (simp add: s' old v(1) ac_simps)
  qed
next
  case (WhileStmt c ias B rvs)
  from WhileStmt.prems show ?case
  proof (rule ConvertStmt_WhileE)
    fix lp st1 st2 B1 st4 B2 rvs2
    assume p: "prepare_loop P [] ias B st = Inr (lp, st1)" and
      st2: "st2 = RegisterIterArgs (map fst ias @ lp_carried lp @ lp_escaping lp) (map fst (lp_args lp)) st1" and
      b: "ConvertStmt P B st2 = Inr (B1, st4)" and
      f: "finish_loop P (cur st) ias rvs lp B1 st4 = Inr (B2, rvs2, st')" and
      s': "s' = WhileStmt (SubstExpr (cur st2) c) (lp_args lp) B2 rvs2"
    from finish_loopD [OF f] obtain old where
      old: "fresh_ids (next_id st4) (next_id st') (ids old)" "rvs2 = old @ lp_carried_rvs lp @ lp_esc_rvs lp" "defs B2 = defs B1"
      by blast
    from WhileStmt.IH [OF b] have v: "fresh_ids (next_id st1) (next_id st4) (defs B1)" by (simp add: st2 RegisterIterArgs_def)
    from fresh_ids_add [OF fresh_ids_add [OF prepare_loopD(1) [OF p] v] old(1)]
    show ?thesis by (simp add: s' old ac_simps)
  qed
next
  case (ScopeStmt k n B)
  then show ?case by (fastforce simp: Let_def split: if_splits)
qed auto

lemma ConvertParamsD:
  "ConvertParams P xs st = (vs, st') \<Longrightarrow>
   fresh_ids (next_id st) (next_id st') (ids vs) \<and> cur st' = assigns xs vs (cur st) \<and> length vs = length xs"
proof (induction xs arbitrary: st vs st')
  case (Cons x xs)
  from Cons.prems obtain v st1 vs1 where
    eqs: "make_version P ''ssa'' x (SubstType P (cur st) (var_type x)) st = (v, st1)"
      "ConvertParams P xs (st1\<lparr>cur := assign x v (cur st1)\<rparr>) = (vs1, st')" "vs = v # vs1"
    by (auto simp: AllocVersion_def Let_def split: prod.splits)
  from Cons.IH [OF eqs(2)] fresh_ids_add [OF fresh_ids_one] make_versionD [OF eqs(1)] show ?case by (auto simp: eqs(3))
qed simp

text \<open>A small function: an accumulator that a loop and a branch in it update.\<close>

definition counted :: "unit Function" where
  "counted =
     (let n = \<lparr>var_id = 0, name_hint = ''n'', var_type = 0\<rparr>; s = \<lparr>var_id = 1, name_hint = ''s'', var_type = 0\<rparr>;
          i = \<lparr>var_id = 2, name_hint = ''i'', var_type = 0\<rparr>; t = \<lparr>var_id = 3, name_hint = ''t'', var_type = 0\<rparr> in
      \<lparr>params = [n],
       body = SeqStmts
         [AssignStmt s (ConstInt 0),
          ForStmt \<lparr>for_kind = Sequential, hardware_loop_policy = Auto, loop_var = i, for_start = ConstInt 0,
            for_stop = ConstInt 4, for_step = ConstInt 1\<rparr> []
            (SeqStmts [AssignStmt t (Add (EVar i) (EVar n)),
              IfStmt (Lt (EVar i) (EVar n)) (AssignStmt s (Add (EVar s) (EVar t))) None []]) [],
          ReturnStmt [EVar s, EVar t]]\<rparr>)"

definition plain_params :: "unit SSAParams" where
  "plain_params = \<lparr>BuildAutoNamedVersion = (\<lambda>n role _. n), SubstType = (\<lambda>_ t. t),
     GetAuthoritativeAssignmentType = (\<lambda>t _. t), iteration_order = (\<lambda>xs. xs), out_params = []\<rparr>"

lemmas ssa_compute = plain_params_def AllocVersion_def make_version_def make_var_def NextVersion_def lookup_def
  assign_def RegisterIterArgs_def prepare_loop_def finish_loop_def carried_vars_def escaping_vars_def
  assigned_vars_def by_name_def after_values_def FindInitValue_def AssertNoMidBodyYield_def Flatten_def
  flat_items_def used_def merge_branches_def phi_vars_def diverges_def diverges_in_else_def changed_def Let_def check_def List.map_filter_def
  ConvertFunction_def

lemma counted_converts: "is_ok (ConvertFunction plain_params 4 counted)"
  by (simp add: ssa_compute counted_def cong: res_bind_weak_cong let_weak_cong del: is_ok_bind res_bind_eq_Inr)

text \<open>
  Claim C37. The result of the conversion is in SSA form: every parameter, variable, iteration argument and returned
  variable is defined at one place only, and none of them is a variable of the input.
\<close>

theorem ConvertFunction_single_assignment:
  assumes "ConvertFunction P fresh func = Inr func'"
  shows "count (ids (params func') + defs (body func')) i \<le> 1 \<and>
    (i \<in># ids (params func') + defs (body func') \<longrightarrow> fresh \<le> i)"
proof -
  let ?st = "\<lparr>cur = [], ver = (\<lambda>_. 0), future_needs = {}, next_id = fresh\<rparr>"
  obtain vs st1 where vs: "ConvertParams P (params func) ?st = (vs, st1)" by fastforce
  with assms obtain b st2 where b: "ConvertStmt P (body func) st1 = Inr (b, st2)" "func' = \<lparr>params = vs, body = b\<rparr>"
    by (auto simp: ConvertFunction_def)
  from fresh_ids_add [OF _ ConvertStmt_defs [OF b(1)]] ConvertParamsD [OF vs]
  have "fresh_ids fresh (next_id st2) (ids (params func') + defs (body func'))" by (simp add: b(2))
  from fresh_ids_count [OF this] fresh_ids_set [OF this]
  show ?thesis by auto
qed

lemma ConvertFunction_single_assignment_witness:
  "\<exists>func'. ConvertFunction plain_params 4 counted = Inr func' \<and> (\<forall>i. count (ids (params func') + defs (body func')) i \<le> 1)"
  using counted_converts ConvertFunction_single_assignment [of plain_params 4 counted]
  by (cases "ConvertFunction plain_params 4 counted") (auto simp: is_ok_def)

end
