(* ===== verification/Ssa_Static.thy ===== *)
theory Ssa_Static
  imports Ssa_Convert Stmt_Checks
begin

text \<open>
  Facts about the conversion to SSA form that no run is needed for: the versions of variables, the loops and
  branches of an input of the front end (no iteration argument, returned variable, yield or jump yet), and
  which versions a converted statement leaves alone.
\<close>

section \<open>Versions\<close>

lemma lookup_Nil [simp]: "lookup [] x = None"
  by (simp add: lookup_def)

lemma lookup_assign [simp]: "lookup (assign x v c) y = (if var_id y = var_id x then Some v else lookup c y)"
proof -
  have "find (\<lambda>(k, v). var_id k = var_id y) (filter (\<lambda>(k, v). var_id k \<noteq> var_id x) c) =
      find (\<lambda>(k, v). var_id k = var_id y) c" if "var_id y \<noteq> var_id x"
    using that by (induction c) auto
  then show ?thesis by (auto simp: lookup_def assign_def)
qed

lemma lookup_id: "var_id x = var_id y \<Longrightarrow> lookup c x = lookup c y"
  by (simp add: lookup_def)

lemma lookup_in: "lookup c x \<noteq> None \<longleftrightarrow> var_id x \<in> (var_id \<circ> fst) ` set c"
  by (induction c) (auto simp: lookup_def)

lemma lookup_assigns_other: "var_id x \<notin> var_id ` set xs \<Longrightarrow> lookup (assigns xs vs c) x = lookup c x"
  by (induction xs vs c rule: assigns.induct) auto

lemma lookup_assigns_cases:
  "lookup (assigns xs vs c) x = Some v \<Longrightarrow> v \<in> set vs \<or> lookup c x = Some v"
  by (induction xs vs c rule: assigns.induct) (auto split: if_splits)

lemma lookup_assigns_keeps: "lookup c x \<noteq> None \<Longrightarrow> lookup (assigns xs vs c) x \<noteq> None"
  by (induction xs vs c rule: assigns.induct) auto

lemma lookup_assigns_key:
  "length xs = length vs \<Longrightarrow> var_id x \<in> var_id ` set xs \<Longrightarrow> lookup (assigns xs vs c) x \<noteq> None"
proof (induction xs vs c rule: assigns.induct)
  case (1 y xs v vs c)
  show ?case
  proof (cases "var_id x \<in> var_id ` set xs")
    case False
    then show ?thesis using 1(3) by (auto simp: lookup_assigns_other)
  qed (use 1 in auto)
qed auto

lemma assigns_append: "length xs = length vs \<Longrightarrow> assigns ys us (assigns xs vs c) = assigns (xs @ ys) (vs @ us) c"
  by (induction xs vs c rule: assigns.induct) auto

text \<open>Registering the new iteration arguments gives the sources their versions.\<close>

lemma lookup_RegisterIterArgs:
  assumes "length xs = length vs" and "\<forall>v\<in>set vs. var_id v \<noteq> var_id x"
  shows "lookup (cur (RegisterIterArgs xs vs st)) x = lookup (assigns xs vs (cur st)) x"
proof -
  have "lookup (fold (\<lambda>(x, v) c. assign v v (assign x v c)) (zip xs vs) c) x = lookup (assigns xs vs c') x"
    if "lookup c x = lookup c' x" for c c'
    using assms(1) that assms(2) by (induction xs vs arbitrary: c c' rule: list_induct2) auto
  then show ?thesis by (simp add: RegisterIterArgs_def)
qed

lemma RegisterIterArgs_simps [simp]:
  "next_id (RegisterIterArgs xs vs st) = next_id st"
  "future_needs (RegisterIterArgs xs vs st) = future_needs st"
  by (simp_all add: RegisterIterArgs_def)

lemma lookup_RegisterIterArgs_cases:
  "lookup (cur (RegisterIterArgs xs vs st)) x = Some v \<Longrightarrow> v \<in> set vs \<or> lookup (cur st) x = Some v"
proof -
  have "lookup (fold (\<lambda>(x, v) c. assign v v (assign x v c)) kvs c) x = Some v \<Longrightarrow>
      v \<in> snd ` set kvs \<or> lookup c x = Some v" for kvs c
    by (induction kvs arbitrary: c) (fastforce split: if_splits)+
  moreover have "snd ` set (zip xs vs) \<subseteq> set vs" by (auto dest: set_zip_rightD)
  ultimately show "lookup (cur (RegisterIterArgs xs vs st)) x = Some v \<Longrightarrow> v \<in> set vs \<or> lookup (cur st) x = Some v"
    unfolding RegisterIterArgs_def by fastforce
qed

definition below :: "nat \<Rightarrow> versions \<Rightarrow> bool" where
  "below n c \<longleftrightarrow> (\<forall>x v. lookup c x = Some v \<longrightarrow> var_id v < n)"

lemma below_mono: "below n c \<Longrightarrow> n \<le> m \<Longrightarrow> below m c"
  by (fastforce simp: below_def)

lemma below_assigns: "below n c \<Longrightarrow> n \<le> m \<Longrightarrow> \<forall>v\<in>set vs. var_id v < m \<Longrightarrow> below m (assigns xs vs c)"
  unfolding below_def by (blast dest: lookup_assigns_cases intro: less_le_trans)

lemma below_RegisterIterArgs:
  "below n (cur st) \<Longrightarrow> n \<le> m \<Longrightarrow> \<forall>v\<in>set vs. var_id v < m \<Longrightarrow> below m (cur (RegisterIterArgs xs vs st))"
  unfolding below_def by (blast dest: lookup_RegisterIterArgs_cases intro: less_le_trans)

section \<open>Inputs of the front end\<close>

fun plain :: "'o Stmt \<Rightarrow> bool" where
  "plain (SeqStmts ss) \<longleftrightarrow> (\<forall>s\<in>set ss. plain s)"
| "plain (IfStmt c a b rvs) \<longleftrightarrow> rvs = [] \<and> plain a \<and> (case b of None \<Rightarrow> True | Some b \<Rightarrow> plain b)"
| "plain (ForStmt h ias B rvs) \<longleftrightarrow> ias = [] \<and> rvs = [] \<and> plain B"
| "plain (WhileStmt c ias B rvs) \<longleftrightarrow> ias = [] \<and> rvs = [] \<and> plain B"
| "plain (ScopeStmt k n B) \<longleftrightarrow> plain B"
| "plain (YieldStmt es) \<longleftrightarrow> False"
| "plain BreakStmt \<longleftrightarrow> False"
| "plain ContinueStmt \<longleftrightarrow> False"
| "plain _ \<longleftrightarrow> True"

text \<open>The order of an unordered container is an order of its elements.\<close>

definition orders :: "'o SSAParams \<Rightarrow> bool" where
  "orders P \<longleftrightarrow> (\<forall>xs. mset (iteration_order P xs) = mset xs)"

lemma by_name_set: "orders P \<Longrightarrow> set (by_name P xs) = set xs"
  unfolding by_name_def orders_def by (simp, metis set_mset_mset)

definition assigned :: "'o Stmt \<Rightarrow> nat set" where
  "assigned s = var_id ` set (assign_defs s)"

lemma assigned_simps [simp]:
  "assigned (AssignStmt x e) = {var_id x}" "assigned (SeqStmts ss) = (\<Union>s\<in>set ss. assigned s)"
  "assigned (IfStmt c a b rvs) = assigned a \<union> (case b of None \<Rightarrow> {} | Some b \<Rightarrow> assigned b)"
  "assigned (ForStmt h ias B rvs) = assigned B" "assigned (WhileStmt c ias B rvs) = assigned B"
  "assigned (ScopeStmt k n B) = assigned B"
  by (simp_all add: assigned_def image_Un image_UN split: option.split)

lemma assigned_vars_ids: "var_id ` set (assigned_vars scoped B) = assigned B - var_id ` set scoped"
proof -
  have "var_id (the (find (\<lambda>x. var_id x = i) xs)) = i" if "i \<in> var_id ` set xs" for i xs
    using that by (induction xs) auto
  then have f: "var_id (the (find (\<lambda>x. var_id x = i) (assign_defs B))) = i" if "i \<in> assigned B" for i
    using that unfolding assigned_def by blast
  define g where "g i = the (find (\<lambda>x. var_id x = i) (assign_defs B))" for i
  have S: "set (assigned_vars scoped B) = {x \<in> g ` assigned B. var_id x \<notin> var_id ` set scoped}"
    unfolding assigned_vars_def assigned_def g_def by simp
  have "i \<in> var_id ` set (assigned_vars scoped B) \<longleftrightarrow>
      (\<exists>j\<in>assigned B. i = var_id (g j) \<and> var_id (g j) \<notin> var_id ` set scoped)" for i unfolding S by auto
  moreover have "var_id (g i) = i" if "i \<in> assigned B" for i using f [OF that] by (simp add: g_def)
  ultimately show ?thesis by auto
qed

text \<open>The loop variables that a conversion carries, and those that escape.\<close>

lemma carried_ids:
  assumes "orders P"
  shows "var_id x \<in> var_id ` set (carried_vars P c scoped B) \<longleftrightarrow>
    var_id x \<in> assigned B \<and> var_id x \<notin> var_id ` set scoped \<and> lookup c x \<noteq> None"
proof -
  have "var_id x \<in> var_id ` set (carried_vars P c scoped B) \<longleftrightarrow>
      (\<exists>y\<in>set (assigned_vars scoped B). var_id x = var_id y \<and> lookup c y \<noteq> None)"
    using assms by (auto simp: carried_vars_def by_name_set)
  also have "\<dots> \<longleftrightarrow> (\<exists>y\<in>set (assigned_vars scoped B). var_id x = var_id y) \<and> lookup c x \<noteq> None"
    using lookup_id [where c = c] by metis
  also have "(\<exists>y\<in>set (assigned_vars scoped B). var_id x = var_id y) \<longleftrightarrow> var_id x \<in> var_id ` set (assigned_vars scoped B)"
    by auto
  finally show ?thesis unfolding assigned_vars_ids by blast
qed

lemma escaping_ids:
  assumes "orders P"
  shows "var_id x \<in> var_id ` set (escaping_vars P c needs scoped B) \<longleftrightarrow>
    var_id x \<in> assigned B \<and> var_id x \<notin> var_id ` set scoped \<and> lookup c x = None \<and> var_id x \<in> needs"
proof -
  have "var_id x \<in> var_id ` set (escaping_vars P c needs scoped B) \<longleftrightarrow>
      (\<exists>y\<in>set (assigned_vars scoped B). var_id x = var_id y \<and> lookup c y = None \<and> var_id y \<in> needs)"
    using assms by (auto simp: escaping_vars_def by_name_set)
  also have "\<dots> \<longleftrightarrow> (\<exists>y\<in>set (assigned_vars scoped B). var_id x = var_id y) \<and> lookup c x = None \<and> var_id x \<in> needs"
    using lookup_id [where c = c] by metis
  also have "(\<exists>y\<in>set (assigned_vars scoped B). var_id x = var_id y) \<longleftrightarrow> var_id x \<in> var_id ` set (assigned_vars scoped B)"
    by auto
  finally show ?thesis unfolding assigned_vars_ids by blast
qed

section \<open>Yields at the end of a body\<close>

lemma ExtractYield_none: "\<not> has_yield s \<Longrightarrow> ExtractYield s = Inr y \<Longrightarrow> y = None"
  by (induction s arbitrary: y rule: ExtractYield.induct) (auto split: if_splits)

lemma exec_then_yield:
  "exec I F (Flatten [s, YieldStmt vals]) \<sigma> w =
    (case exec I F s \<sigma> w of Normal \<sigma> w \<Rightarrow> exec I F (YieldStmt vals) \<sigma> w | out \<Rightarrow> out)"
  by (simp add: exec_Flatten del: exec.simps split: outcome.split)

lemma ReplaceOrAppendYield_exec:
  "ReplaceOrAppendYield s vals = Inr s' \<Longrightarrow> \<not> has_yield s \<Longrightarrow>
   exec I F s' \<sigma> w = (case exec I F s \<sigma> w of Normal \<sigma> w \<Rightarrow> exec I F (YieldStmt vals) \<sigma> w | out \<Rightarrow> out)"
proof (induction s vals arbitrary: s' \<sigma> w rule: ReplaceOrAppendYield.induct)
  case (2 k n B vals)
  show ?case
  proof (cases "transparent k")
    case True
    with 2(2) obtain B' where B': "ReplaceOrAppendYield B vals = Inr B'" "s' = ScopeStmt k n B'" by auto
    have B: "\<not> has_yield B" using 2(3) by simp
    show ?thesis using 2(1) [OF True B'(1) B] by (auto simp: B'(2) split: option.splits)
  next
    case False
    with 2 show ?thesis by (auto simp: exec_then_yield simp del: exec.simps)
  qed
next
  case (3 ss vals)
  have "y = None" if "ss \<noteq> []" "ExtractYield (last ss) = Inr y" for y
    using that 3(3) ExtractYield_none [of "last ss" y] by auto
  with 3(2) have "s' = Flatten (ss @ [YieldStmt vals])" by (auto split: if_splits)
  then show ?case by (simp add: exec_Flatten execs_append del: exec.simps(3) split: outcome.split)
qed (auto simp: exec_then_yield simp del: exec.simps)

lemma copies_vars: "copies I \<tau> (map EVar vs) w = Some (map (\<lambda>v. \<tau> (var_id v)) vs, w)"
  by (induction vs) auto

section \<open>Loops and branches without iteration arguments of their own\<close>

lemma prepare_plain:
  assumes "prepare_loop P scoped [] B st = Inr (lp, st1)"
  shows "lp_carried lp = carried_vars P (cur st) scoped B"
    and "lp_escaping lp = escaping_vars P (cur st) (future_needs st) scoped B"
    and "length (lp_args lp) = length (lp_carried lp @ lp_escaping lp)"
    and "length (lp_carried_rvs lp) = length (lp_carried lp)" and "length (lp_esc_rvs lp) = length (lp_escaping lp)"
    and "\<exists>vs. map snd (lp_args lp) = map (\<lambda>x. EVar (the (lookup (cur st) x))) (lp_carried lp) @ map EVar vs \<and>
      length vs = length (lp_escaping lp)"
proof -
  from assms obtain c_args c_rvs st2 e_args e_rvs where
    eqs: "carried_args P (cur st) (carried_vars P (cur st) scoped B) st = Inr (c_args, c_rvs, st2)"
      "escaping_args P (cur st) (collect_types P B Map.empty)
        (escaping_vars P (cur st) (future_needs st) scoped B) st2 = Inr (e_args, e_rvs, st1)"
    and lp: "lp = \<lparr>lp_args = c_args @ e_args, lp_carried = carried_vars P (cur st) scoped B,
      lp_escaping = escaping_vars P (cur st) (future_needs st) scoped B, lp_carried_rvs = c_rvs, lp_esc_rvs = e_rvs\<rparr>"
    unfolding prepare_loop_def by (auto simp: Let_def)
  obtain vs where vs: "map snd e_args = map EVar vs" 
    using escaping_argsD [OF eqs(2)] ex_map_conv [of "map snd e_args" EVar] by auto
  then have "length vs = length e_args" by (metis length_map)
  with vs carried_argsD [OF eqs(1)] escaping_argsD [OF eqs(2)]
  show "lp_carried lp = carried_vars P (cur st) scoped B"
    and "lp_escaping lp = escaping_vars P (cur st) (future_needs st) scoped B"
    and "length (lp_args lp) = length (lp_carried lp @ lp_escaping lp)"
    and "length (lp_carried_rvs lp) = length (lp_carried lp)" and "length (lp_esc_rvs lp) = length (lp_escaping lp)"
    and "\<exists>vs. map snd (lp_args lp) = map (\<lambda>x. EVar (the (lookup (cur st) x))) (lp_carried lp) @ map EVar vs \<and>
      length vs = length (lp_escaping lp)"
    by (auto simp: lp)
qed

lemma finish_plain:
  fixes B1 :: "'o Stmt"
  assumes "finish_loop P before [] [] lp B1 st = Inr (B2, rvs2, st')" and "\<not> has_yield B1"
    and "length (lp_carried_rvs lp) = length (lp_carried lp)"
    and "\<forall>x\<in>set (lp_escaping lp). lookup (cur st) x \<noteq> None"
  defines "keys \<equiv> lp_carried lp @ lp_escaping lp" and "vs \<equiv> lp_carried_rvs lp @ lp_esc_rvs lp"
  shows "rvs2 = vs" and "cur st' = assigns keys vs before" and "future_needs st' = future_needs st" and "next_id st' = next_id st"
    and "\<forall>x\<in>set keys. lookup (cur st) x \<noteq> None"
    and "if keys = [] then B2 = B1
      else ReplaceOrAppendYield B1 (map EVar (map (\<lambda>x. the (lookup (cur st) x)) keys)) = Inr B2"
proof -
  obtain y where y: "ExtractYield B1 = Inr y"
    using assms(1) by (cases "ExtractYield B1") (auto simp: finish_loop_def Let_def)
  obtain cs :: "'o Expr list" where cs: "after_values (cur st) (lp_carried lp) = Inr cs"
    using assms(1) by (cases "after_values (cur st) (lp_carried lp) :: 'o Expr list res") (auto simp: finish_loop_def Let_def)
  from ExtractYield_none [OF assms(2) y] have y: "ExtractYield B1 = Inr None" using y by simp
  from cs have c: "\<forall>x\<in>set (lp_carried lp). lookup (cur st) x \<noteq> None" "cs = map (\<lambda>x. EVar (the (lookup (cur st) x))) (lp_carried lp)"
    by (auto simp: after_values_def split: if_splits)
  have e: "List.map_filter (\<lambda>x. map_option EVar (lookup (cur st) x)) (lp_escaping lp) =
      map (\<lambda>x. EVar (the (lookup (cur st) x))) (lp_escaping lp)"
    using assms(4) by (induction "lp_escaping lp") (auto simp: List.map_filter_def)
  show "\<forall>x\<in>set keys. lookup (cur st) x \<noteq> None" using c assms(4) by (auto simp: keys_def)
  show "rvs2 = vs" "cur st' = assigns keys vs before" "future_needs st' = future_needs st" "next_id st' = next_id st"
    and "if keys = [] then B2 = B1
      else ReplaceOrAppendYield B1 (map EVar (map (\<lambda>x. the (lookup (cur st) x)) keys)) = Inr B2"
    using assms(1,3) by (auto simp: finish_loop_def Let_def y cs e c(2) keys_def vs_def assigns_append comp_def split: if_splits)
qed

text \<open>The version of a variable at the end of a branch.\<close>

definition chosen :: "versions \<Rightarrow> versions \<Rightarrow> Var \<Rightarrow> Var" where
  "chosen before branch x = the (if lookup branch x \<noteq> None then lookup branch x else lookup before x)"

lemma merge_plain:
  assumes "merge_branches P cond before a t_ver b e_ver [] st = Inr (s', st')"
  defines "phis \<equiv> phi_vars P before t_ver e_ver"
  obtains vs where "length vs = length phis" "fresh_ids (next_id st) (next_id st') (ids vs)"
    "cur st' = assigns phis vs before" "future_needs st' = future_needs st"
    "if phis = [] then s' = IfStmt cond a b []
      else \<exists>a' b'. s' = IfStmt cond a' (Some b') vs \<and>
        ReplaceOrAppendYield a (map EVar (map (chosen before t_ver) phis)) = Inr a' \<and>
        (case b of None \<Rightarrow> b' = YieldStmt (map EVar (map (chosen before e_ver) phis))
          | Some e \<Rightarrow> ReplaceOrAppendYield e (map EVar (map (chosen before e_ver) phis)) = Inr b')"
proof (cases "phis = []")
  case True
  with assms that [of "[]"] show thesis by (auto simp: merge_branches_def Let_def)
next
  case False
  with assms obtain vs ts es st1 where
    phis: "make_phis P before t_ver e_ver phis (st\<lparr>cur := before\<rparr>) = Inr (vs, ts, es, st1)"
    unfolding merge_branches_def by (auto simp: Let_def)
  from make_phisD [OF phis] have te: "ts = map EVar (map (chosen before t_ver) phis)" "es = map EVar (map (chosen before e_ver) phis)"
    and f: "length vs = length phis" "fresh_ids (next_id st) (next_id st1) (ids vs)"
      "cur st1 = assigns phis vs before" "future_needs st1 = future_needs st"
    by (auto simp: chosen_def comp_def)
  obtain a' b' where ab: "ReplaceOrAppendYield a ts = Inr a'" "st' = st1" "s' = IfStmt cond a' (Some b') vs"
      "(case b of Some e \<Rightarrow> ReplaceOrAppendYield e es | None \<Rightarrow> Inr (YieldStmt es)) = Inr b'"
    using assms False by (auto simp: merge_branches_def Let_def phis [unfolded phis_def] phis_def)
  show thesis
    by (rule that [of vs]) (use f ab False in \<open>auto simp: te split: option.splits\<close>)
qed

lemma diverges_id: "var_id x = var_id y \<Longrightarrow> diverges c t e x = diverges c t e y"
  using lookup_id [of x y c] lookup_id [of x y t] lookup_id [of x y e] by (simp add: diverges_def changed_def)

lemma phi_vars_in:
  "orders P \<Longrightarrow> x \<in> set (phi_vars P c t e) \<Longrightarrow>
    lookup t x \<noteq> None \<and> diverges c t e x \<or> lookup t x = None \<and> changed c e x"
  using lookup_in [of t x] by (auto simp: phi_vars_def by_name_set diverges_in_else_def)

lemma phi_vars_not_in:
  assumes "orders P" "var_id x \<notin> var_id ` set (phi_vars P c t e)" "lookup t x \<noteq> None"
  shows "\<not> diverges c t e x"
proof
  assume d: "diverges c t e x"
  from assms(3) obtain k where "k \<in> set (map fst t)" "var_id x = var_id k" unfolding lookup_in by auto
  with d diverges_id [of x k c t e] have "k \<in> set (phi_vars P c t e)" using assms(1) by (auto simp: phi_vars_def by_name_set)
  with \<open>var_id x = var_id k\<close> assms(2) show False by auto
qed

lemma RegisterIterArgs_key:
  assumes "length xs = length vs" "lookup (cur st) x \<noteq> None \<or> var_id x \<in> var_id ` set xs"
  shows "lookup (cur (RegisterIterArgs xs vs st)) x \<noteq> None"
proof -
  have "lookup c x \<noteq> None \<or> var_id x \<in> var_id ` set xs \<Longrightarrow>
      lookup (fold (\<lambda>(x, v) c. assign v v (assign x v c)) (zip xs vs) c) x \<noteq> None" for c
    using assms(1) by (induction xs vs arbitrary: c rule: list_induct2) auto
  with assms(2) show ?thesis by (simp add: RegisterIterArgs_def)
qed

section \<open>What the conversion of a statement leaves alone\<close>

lemma Flatten_has_yield: "has_yield (Flatten ss) \<longleftrightarrow> (\<exists>s\<in>set ss. has_yield s)"
  by (rule Flatten_ex) simp

lemma ConvertSeq_all:
  assumes "ConvertSeq P ss st = Inr (ss', st')"
    and "\<And>s st s' st'. s \<in> set ss \<Longrightarrow> ConvertStmt P s st = Inr (s', st') \<Longrightarrow> Q s'"
  shows "\<forall>s'\<in>set ss'. Q s'"
  using assms
proof (induction ss arbitrary: st ss' st')
  case (Cons s ss)
  from Cons.prems(1) obtain s1 st1 ss1 where
    eqs: "ConvertStmt P s (st\<lparr>future_needs := suffix_needs ss\<rparr>) = Inr (s1, st1)" "ConvertSeq P ss st1 = Inr (ss1, st')"
      "ss' = s1 # ss1" by auto
  have "Q s1" using Cons.prems(2) [OF _ eqs(1)] by simp
  moreover have "\<forall>s'\<in>set ss1. Q s'" by (rule Cons.IH [OF eqs(2)]) (rule Cons.prems(2), auto)
  ultimately show ?case by (simp add: eqs(3))
qed simp

lemma ConvertStmt_no_yield: "ConvertStmt P s st = Inr (s', st') \<Longrightarrow> plain s \<Longrightarrow> \<not> has_yield s'"
proof (induction s arbitrary: st s' st')
  case (SeqStmts ss)
  then obtain ss' where ss': "ConvertSeq P ss st = Inr (ss', st')" "s' = Flatten ss'" by auto
  have "\<forall>s'\<in>set ss'. \<not> has_yield s'" by (rule ConvertSeq_all [OF ss'(1)]) (use SeqStmts in auto)
  then show ?case by (simp add: ss'(2) Flatten_has_yield)
next
  case (IfStmt c a b rvs)
  from IfStmt.prems(1) show ?case by (rule ConvertStmt_IfE) (auto dest: merge_branchesD)
next
  case (ForStmt h ias B rvs)
  from ForStmt.prems(1) show ?case by (rule ConvertStmt_ForE) simp
next
  case (WhileStmt c ias B rvs)
  from WhileStmt.prems(1) show ?case by (rule ConvertStmt_WhileE) simp
next
  case (ScopeStmt k n B)
  from ScopeStmt.prems obtain st0 B' st1 where "ConvertStmt P B st0 = Inr (B', st1)" "s' = ScopeStmt k (map_option (SubstExpr (cur st)) n) B'"
    by (auto simp: Let_def)
  with ScopeStmt.IH ScopeStmt.prems(2) show ?case by auto
qed (auto simp: AllocVersion_def Let_def split: prod.splits)

definition keeps :: "nat set \<Rightarrow> SSAConverter \<Rightarrow> SSAConverter \<Rightarrow> bool" where
  "keeps A st st' \<longleftrightarrow>
     (\<forall>x. lookup (cur st) x \<noteq> None \<longrightarrow> lookup (cur st') x \<noteq> None) \<and>
     (\<forall>x. var_id x \<notin> A \<longrightarrow> lookup (cur st') x = lookup (cur st) x) \<and>
     (below (next_id st) (cur st) \<longrightarrow> below (next_id st') (cur st'))"

lemma keeps_refl: "keeps A st st"
  by (simp add: keeps_def)

lemma keeps_trans: "keeps A st st1 \<Longrightarrow> keeps B st1 st2 \<Longrightarrow> keeps (A \<union> B) st st2"
  by (simp add: keeps_def)

lemma keeps_assigns:
  assumes "cur st' = assigns xs vs (cur st)" "var_id ` set xs \<subseteq> A" "next_id st \<le> next_id st'"
    and "\<forall>v\<in>set vs. var_id v < next_id st'"
  shows "keeps A st st'"
proof -
  have "lookup (cur st') x = lookup (cur st) x" if "var_id x \<notin> A" for x
    using that assms(2) lookup_assigns_other [of x xs vs "cur st"] by (auto simp: assms(1))
  then show ?thesis
    unfolding keeps_def using assms(3,4) by (simp add: assms(1) lookup_assigns_keeps below_assigns)
qed

lemma keeps_state [simp]:
  "keeps A (st\<lparr>future_needs := N\<rparr>) st' \<longleftrightarrow> keeps A st st'" "keeps A st (st'\<lparr>future_needs := N\<rparr>) \<longleftrightarrow> keeps A st st'"
  by (simp_all add: keeps_def)

lemma phi_vars_assigned:
  assumes "orders P" "keeps A st st1" "keeps B (st1\<lparr>cur := cur st\<rparr>) st2" "x \<in> set (phi_vars P (cur st) (cur st1) (cur st2))"
  shows "var_id x \<in> A \<union> B"
proof (rule ccontr)
  assume "var_id x \<notin> A \<union> B"
  then have "lookup (cur st1) x = lookup (cur st) x" "lookup (cur st2) x = lookup (cur st) x"
    using assms(2,3) by (auto simp: keeps_def)
  with phi_vars_in [OF assms(1,4)] show False by (auto simp: diverges_def changed_def split: option.splits)
qed

text \<open>A loop, after its body is converted.\<close>

lemma loop_finish:
  fixes B1 :: "'o Stmt"
  assumes p: "prepare_loop P scoped [] B st = Inr (lp, st1)"
    and st3: "st3 = RegisterIterArgs (lp_carried lp @ lp_escaping lp) (map fst (lp_args lp)) st2" "next_id st1 \<le> next_id st2"
    and b: "ConvertStmt P B st3 = Inr (B1, st4)" "plain B" "keeps A st3 st4"
    and f: "finish_loop P (cur st) [] [] lp B1 st4 = Inr (B2, rvs2, st')"
  defines "keys \<equiv> lp_carried lp @ lp_escaping lp" and "vs \<equiv> lp_carried_rvs lp @ lp_esc_rvs lp"
  shows "rvs2 = vs" and "cur st' = assigns keys vs (cur st)" and "future_needs st' = future_needs st4" and "next_id st' = next_id st4"
    and "\<forall>x\<in>set keys. lookup (cur st4) x \<noteq> None"
    and "if keys = [] then B2 = B1
      else ReplaceOrAppendYield B1 (map EVar (map (\<lambda>x. the (lookup (cur st4) x)) keys)) = Inr B2"
    and "\<forall>v\<in>set vs. var_id v < next_id st'" and "next_id st \<le> next_id st1" and "next_id st1 \<le> next_id st'"
proof -
  note lp = prepare_plain [OF p]
  have "\<forall>x\<in>set (lp_escaping lp). lookup (cur st3) x \<noteq> None"
    unfolding st3(1) by (intro ballI RegisterIterArgs_key) (simp_all add: lp(3))
  then have e: "\<forall>x\<in>set (lp_escaping lp). lookup (cur st4) x \<noteq> None" using b(3) by (simp add: keeps_def)
  note f = finish_plain [OF f ConvertStmt_no_yield [OF b(1,2)] lp(4) e]
  show "rvs2 = vs" "cur st' = assigns keys vs (cur st)" "future_needs st' = future_needs st4" "next_id st' = next_id st4"
    "\<forall>x\<in>set keys. lookup (cur st4) x \<noteq> None"
    "if keys = [] then B2 = B1
      else ReplaceOrAppendYield B1 (map EVar (map (\<lambda>x. the (lookup (cur st4) x)) keys)) = Inr B2"
    using f unfolding keys_def vs_def by auto
  have n: "next_id st1 \<le> next_id st4" using fresh_ids_le [OF ConvertStmt_defs [OF b(1)]] st3 by simp
  then show "next_id st1 \<le> next_id st'" by (simp add: f(4))
  show "next_id st \<le> next_id st1" using fresh_ids_le [OF prepare_loopD(1) [OF p]] .
  show "\<forall>v\<in>set vs. var_id v < next_id st'"
  proof
    fix v
    assume "v \<in> set vs"
    then have "var_id v \<in># ids (map fst (lp_args lp)) + ids (lp_carried_rvs lp) + ids (lp_esc_rvs lp)"
      by (auto simp: vs_def ids_def)
    from fresh_ids_set [OF prepare_loopD(1) [OF p] this] n show "var_id v < next_id st'" by (simp add: f(4))
  qed
qed

lemma loop_keys_assigned:
  assumes "orders P" "prepare_loop P scoped [] B st = Inr (lp, st1)"
  shows "var_id ` set (lp_carried lp @ lp_escaping lp) \<subseteq> assigned B - var_id ` set scoped"
proof (rule image_subsetI)
  fix x
  assume "x \<in> set (lp_carried lp @ lp_escaping lp)"
  then have "var_id x \<in> var_id ` set (carried_vars P (cur st) scoped B) \<or>
      var_id x \<in> var_id ` set (escaping_vars P (cur st) (future_needs st) scoped B)"
    unfolding prepare_plain(1,2) [OF assms(2)] by auto
  then show "var_id x \<in> assigned B - var_id ` set scoped"
    using carried_ids [OF assms(1), of x "cur st" scoped B]
      escaping_ids [OF assms(1), of x "cur st" "future_needs st" scoped B] by blast
qed

lemma ConvertSeq_keeps:
  assumes "ConvertSeq P ss st = Inr (ss', st')"
    and "\<And>s st s' st'. s \<in> set ss \<Longrightarrow> ConvertStmt P s st = Inr (s', st') \<Longrightarrow> keeps (assigned s) st st'"
  shows "keeps (\<Union>s\<in>set ss. assigned s) st st'"
  using assms
proof (induction ss arbitrary: st ss' st')
  case (Cons s ss)
  from Cons.prems(1) obtain s1 st1 ss1 where
    eqs: "ConvertStmt P s (st\<lparr>future_needs := suffix_needs ss\<rparr>) = Inr (s1, st1)" "ConvertSeq P ss st1 = Inr (ss1, st')" by auto
  have "keeps (assigned s) st st1" using Cons.prems(2) [OF _ eqs(1)] by simp
  moreover have "keeps (\<Union>s\<in>set ss. assigned s) st1 st'" by (rule Cons.IH [OF eqs(2)]) (rule Cons.prems(2), auto)
  ultimately show ?case using keeps_trans by auto
qed (simp add: keeps_refl)

lemma ConvertStmt_keeps:
  assumes "orders P"
  shows "ConvertStmt P (s :: 'o Stmt) st = Inr (s', st') \<Longrightarrow> plain s \<Longrightarrow> keeps (assigned s) st st'"
proof (induction s arbitrary: st s' st')
  case (AssignStmt x e)
  from AssignStmt.prems(1) obtain v st1 where "var_id v = next_id st" "next_id st' = Suc (next_id st)" "cur st' = assigns [x] [v] (cur st)"
    by (auto simp: AllocVersion_def Let_def split: prod.splits dest!: make_versionD)
  then show ?case by (intro keeps_assigns [of st' "[x]" "[v]" st]) simp_all
next
  case (SeqStmts ss)
  then obtain ss' where ss': "ConvertSeq P ss st = Inr (ss', st')" by auto
  have "keeps (\<Union>s\<in>set ss. assigned s) st st'" by (rule ConvertSeq_keeps [OF ss']) (use SeqStmts in auto)
  then show ?case by simp
next
  case (IfStmt c a b rvs)
  from IfStmt.prems(1) show ?case
  proof (rule ConvertStmt_IfE)
    fix a1 st1 b1 st2
    let ?B = "case b of None \<Rightarrow> {} | Some e \<Rightarrow> assigned e"
    assume a: "ConvertStmt P a st = Inr (a1, st1)"
      and b: "(case b of None \<Rightarrow> b1 = None \<and> st2 = st1\<lparr>cur := cur st\<rparr>
        | Some e \<Rightarrow> \<exists>e1. b1 = Some e1 \<and> ConvertStmt P e (st1\<lparr>cur := cur st\<rparr>) = Inr (e1, st2))"
      and m: "merge_branches P (SubstExpr (cur st) c) (cur st) a1 (cur st1) b1 (cur st2) rvs st2 = Inr (s', st')"
    have ka: "keeps (assigned a) st st1" using IfStmt.IH(1) [OF a] IfStmt.prems(2) by simp
    have kb: "keeps ?B (st1\<lparr>cur := cur st\<rparr>) st2 \<and> next_id st1 \<le> next_id st2"
    proof (cases b)
      case (Some e)
      with b obtain e1 where e1: "ConvertStmt P e (st1\<lparr>cur := cur st\<rparr>) = Inr (e1, st2)" by auto
      from IfStmt.IH(2) [of e, OF _ e1] IfStmt.prems(2) Some fresh_ids_le [OF ConvertStmt_defs [OF e1]] show ?thesis by simp
    qed (use b in \<open>simp add: keeps_refl\<close>)
    have "rvs = []" using IfStmt.prems(2) by simp
    from merge_plain [OF m [unfolded this]] obtain vs where vs: "fresh_ids (next_id st2) (next_id st') (ids vs)"
      "cur st' = assigns (phi_vars P (cur st) (cur st1) (cur st2)) vs (cur st)" by metis
    show "keeps (assigned (IfStmt c a b rvs)) st st'"
    proof (rule keeps_assigns [OF vs(2)])
      show "var_id ` set (phi_vars P (cur st) (cur st1) (cur st2)) \<subseteq> assigned (IfStmt c a b rvs)"
        using phi_vars_assigned [OF assms ka] kb by auto
      show "next_id st \<le> next_id st'" using fresh_ids_le [OF ConvertStmt_defs [OF a]] kb fresh_ids_le [OF vs(1)] by simp
      show "\<forall>v\<in>set vs. var_id v < next_id st'" using fresh_ids_set [OF vs(1)] by (auto simp: ids_def)
    qed
  qed
next
  case (ForStmt h ias B rvs)
  then have ias: "ias = []" "rvs = []" "plain B" by auto
  from ForStmt.prems(1) show ?case unfolding ias
  proof (rule ConvertStmt_ForE, unfold append.simps list.map)
    fix lp :: "'o LoopPrep" and st1 lv st2 B1 st4 B2 rvs2
    let ?st3 = "RegisterIterArgs (lp_carried lp @ lp_escaping lp) (map fst (lp_args lp))
      (st2\<lparr>cur := assign (loop_var h) lv (cur st2)\<rparr>)"
    assume p: "prepare_loop P [loop_var h] [] B st = Inr (lp, st1)" and
      lv: "make_version P ''idx'' (loop_var h) (var_type (loop_var h)) st1 = (lv, st2)" and
      b: "ConvertStmt P B ?st3 = Inr (B1, st4)" and
      f: "finish_loop P (cur st) [] [] lp B1 st4 = Inr (B2, rvs2, st')"
    have n: "next_id st1 \<le> next_id (st2\<lparr>cur := assign (loop_var h) lv (cur st2)\<rparr>)" using make_versionD [OF lv] by simp
    note l = loop_finish [OF p refl n b ias(3) ForStmt.IH [OF b ias(3)] f]
    show "keeps (assigned (ForStmt h [] B [])) st st'"
      by (rule keeps_assigns [OF l(2) _ le_trans [OF l(8,9)] l(7)]) (use loop_keys_assigned [OF assms p] in auto)
  qed
next
  case (WhileStmt c ias B rvs)
  then have ias: "ias = []" "rvs = []" "plain B" by auto
  from WhileStmt.prems(1) show ?case unfolding ias
  proof (rule ConvertStmt_WhileE, unfold append.simps list.map)
    fix lp :: "'o LoopPrep" and st1 st2 B1 st4 B2 rvs2
    assume p: "prepare_loop P [] [] B st = Inr (lp, st1)" and
      st2: "st2 = RegisterIterArgs (lp_carried lp @ lp_escaping lp) (map fst (lp_args lp)) st1" and
      b: "ConvertStmt P B st2 = Inr (B1, st4)" and
      f: "finish_loop P (cur st) [] [] lp B1 st4 = Inr (B2, rvs2, st')"
    note l = loop_finish [OF p st2 le_refl b ias(3) WhileStmt.IH [OF b ias(3)] f]
    show "keeps (assigned (WhileStmt c [] B [])) st st'"
      by (rule keeps_assigns [OF l(2) _ le_trans [OF l(8,9)] l(7)]) (use loop_keys_assigned [OF assms p] in auto)
  qed
next
  case (ScopeStmt k n B)
  from ScopeStmt.prems(1) obtain N B' st1 where
    "ConvertStmt P B (st\<lparr>future_needs := N\<rparr>) = Inr (B', st1)" "cur st' = cur st1" "next_id st' = next_id st1"
    by (auto simp: Let_def)
  with ScopeStmt.IH [OF this(1)] ScopeStmt.prems(2) show ?case by (simp add: keeps_def)
qed (auto simp: keeps_refl)

end
