(* ===== verification/Ssa_Sim.thy ===== *)
theory Ssa_Sim
  imports Ssa_Static
begin

text \<open>
  What links a run of a function with one of its SSA form: definite initialisation of the input, the relation
  between the values of variables and of their versions, and how it passes through a loop that carries them in
  iteration arguments.
\<close>

section \<open>Definite initialisation\<close>

definition surely_runs :: "'o ForHead \<Rightarrow> bool" where
  "surely_runs h \<longleftrightarrow>
     (case (EvalConstInt (for_start h), EvalConstInt (for_stop h), EvalConstInt (for_step h)) of
        (Some a, Some b, Some c) \<Rightarrow> c > 0 \<and> a < b \<or> c < 0 \<and> b < a
      | _ \<Rightarrow> False)"

text \<open>From the initialised variables and those needed later: the same after the statement, none if it reads another one.\<close>

fun init :: "'o Stmt \<Rightarrow> nat set \<Rightarrow> nat set \<Rightarrow> (nat set \<times> nat set) option"
  and inits :: "'o Stmt list \<Rightarrow> nat set \<Rightarrow> nat set \<Rightarrow> (nat set \<times> nat set) option" where
  "init (AssignStmt x e) D N = (if used [e] \<subseteq> D then Some (insert (var_id x) D, N) else None)"
| "init (EvalStmt e) D N = (if used [e] \<subseteq> D then Some (D, N) else None)"
| "init (ReturnStmt es) D N = (if used es \<subseteq> D then Some (D, N) else None)"
| "init (SeqStmts ss) D N = inits ss D N"
| "init (IfStmt c a b rvs) D N =
     (if used [c] \<subseteq> D \<and> rvs = [] then
        (case init a D N of
           None \<Rightarrow> None
         | Some (Da, Na) \<Rightarrow>
             (case b of
                None \<Rightarrow> Some (D, Na)
              | Some b \<Rightarrow> (case init b D Na of None \<Rightarrow> None | Some (Db, Nb) \<Rightarrow> Some (Da \<inter> Db, Nb))))
      else None)"
| "init (ForStmt h ias B rvs) D N =
     (if used [for_start h, for_stop h, for_step h] \<subseteq> D \<and> ias = [] \<and> rvs = [] then
        (case init B (insert (var_id (loop_var h)) D) N of
           None \<Rightarrow> None
         | Some (E, N') \<Rightarrow> Some (if surely_runs h then D \<union> ((E - {var_id (loop_var h)}) \<inter> N) else D, N'))
      else None)"
| "init (WhileStmt c ias B rvs) D N =
     (if used [c] \<subseteq> D \<and> ias = [] \<and> rvs = [] then
        (case init B D N of None \<Rightarrow> None | Some (E, N') \<Rightarrow> Some (D, N'))
      else None)"
| "init (ScopeStmt k n B) D N =
     (if case n of None \<Rightarrow> True | Some e \<Rightarrow> used [e] \<subseteq> D then
        (case init B D (if outline_boundary k then N \<inter> D else N) of
           None \<Rightarrow> None
         | Some (E, N') \<Rightarrow> Some (E, if outline_boundary k then N else N'))
      else None)"
| "init _ D N = None"
| "inits [] D N = Some (D, N)"
| "inits (s # ss) D N = (case init s D (suffix_needs ss) of None \<Rightarrow> None | Some (D', N') \<Rightarrow> inits ss D' N')"

lemma init_plain: "init (s :: 'o Stmt) D N = Some r \<Longrightarrow> plain s"
  and inits_plain: "inits (ss :: 'o Stmt list) D N = Some r \<Longrightarrow> \<forall>s\<in>set ss. plain s"
  by (induction s D N and ss D N arbitrary: r and r rule: init_inits.induct)
    (auto split: if_splits option.splits)

lemma init_mono: "init (s :: 'o Stmt) D N = Some (D', N') \<Longrightarrow> D \<subseteq> D'"
  and inits_mono: "inits (ss :: 'o Stmt list) D N = Some (D', N') \<Longrightarrow> D \<subseteq> D'"
  by (induction s D N and ss D N arbitrary: D' N' and D' N' rule: init_inits.induct)
    (fastforce split: if_splits option.splits)+

lemma init_assigned: "init (s :: 'o Stmt) D N = Some (D', N') \<Longrightarrow> D' \<subseteq> D \<union> assigned s"
  and inits_assigned: "inits (ss :: 'o Stmt list) D N = Some (D', N') \<Longrightarrow> D' \<subseteq> D \<union> (\<Union>s\<in>set ss. assigned s)"
  by (induction s D N and ss D N arbitrary: D' N' and D' N' rule: init_inits.induct)
    (fastforce split: if_splits option.splits)+

lemma init_ForE:
  assumes "init (ForStmt h ias B rvs) D N = Some (D', N')"
  obtains E where "used [for_start h, for_stop h, for_step h] \<subseteq> D" "ias = []" "rvs = []"
    "init B (insert (var_id (loop_var h)) D) N = Some (E, N')"
    "D' = (if surely_runs h then D \<union> ((E - {var_id (loop_var h)}) \<inter> N) else D)"
  using assms by (cases "init B (insert (var_id (loop_var h)) D) N") (simp_all split: if_splits prod.splits)

section \<open>Runs that correspond\<close>

text \<open>The initialised variables have a version, with their value.\<close>

definition Sim :: "versions \<Rightarrow> nat set \<Rightarrow> 'a env \<Rightarrow> 'a env \<Rightarrow> bool" where
  "Sim c D \<sigma> \<tau> \<longleftrightarrow> (\<forall>x. var_id x \<in> D \<longrightarrow> (\<exists>v. lookup c x = Some v \<and> \<tau> (var_id v) = \<sigma> (var_id x)))"

lemma SimD: "Sim c D \<sigma> \<tau> \<Longrightarrow> var_id x \<in> D \<Longrightarrow> \<exists>v. lookup c x = Some v \<and> \<tau> (var_id v) = \<sigma> (var_id x)"
  by (simp add: Sim_def)

lemma Sim_frame:
  assumes "Sim c D \<sigma> \<tau>" "below n c" "\<forall>i<n. \<tau>' i = \<tau> i"
  shows "Sim c D \<sigma> \<tau>'"
  using assms unfolding Sim_def below_def by metis

lemma SubstExpr_ev: "Sim c D \<sigma> \<tau> \<Longrightarrow> used [e] \<subseteq> D \<Longrightarrow> ev I \<tau> (SubstExpr c e) w = ev I \<sigma> e w"
  and SubstExpr_evs: "Sim c D \<sigma> \<tau> \<Longrightarrow> used es \<subseteq> D \<Longrightarrow> evs I \<tau> (map (SubstExpr c) es) w = evs I \<sigma> es w"
proof (induction I \<sigma> e w and I \<sigma> es w rule: ev_evs.induct)
  case (1 I \<sigma> x w)
  then have "var_id x \<in> D" by (simp add: used_def)
  from SimD [OF 1(1) this] show ?case by auto
qed (auto simp: used_def image_Un image_UN cong: and_then_cong)

lemma Sim_assigns:
  assumes "length xs = length vs" "length vs = length as" "distinct (map var_id vs)"
    and "\<And>x. var_id x \<in> D \<Longrightarrow> var_id x \<notin> var_id ` set xs \<Longrightarrow>
      \<exists>v. lookup c x = Some v \<and> \<tau> (var_id v) = \<sigma> (var_id x) \<and> var_id v \<notin> var_id ` set vs"
    and "\<And>x a. (x, a) \<in> set (zip xs as) \<Longrightarrow> var_id x \<in> D \<Longrightarrow> a = \<sigma> (var_id x)"
  shows "Sim (assigns xs vs c) D \<sigma> (set_vars vs as \<tau>)"
  using assms
proof (induction xs vs as arbitrary: c \<tau> rule: list_induct3)
  case Nil
  then show ?case by (auto simp: Sim_def)
next
  case (Cons x xs v vs a as)
  have "Sim (assigns xs vs (assign x v c)) D \<sigma> (set_vars vs as (set_var v a \<tau>))"
  proof (rule Cons.IH)
    show "distinct (map var_id vs)" using Cons.prems(1) by simp
    show "a = \<sigma> (var_id x)" if "(x, a) \<in> set (zip xs as)" "var_id x \<in> D" for x a
      using that Cons.prems(3) by simp
    show "\<exists>u. lookup (assign x v c) y = Some u \<and> set_var v a \<tau> (var_id u) = \<sigma> (var_id y) \<and> var_id u \<notin> var_id ` set vs"
      if y: "var_id y \<in> D" "var_id y \<notin> var_id ` set xs" for y
    proof (cases "var_id y = var_id x")
      case True
      with y Cons.prems(1) Cons.prems(3) [of x a] show ?thesis by (auto simp: set_var_def)
    next
      case False
      with y Cons.prems(2) [of y] show ?thesis by (auto simp: set_var_def)
    qed
  qed
  then show ?case by simp
qed

definition halts :: "('a, 'w) outcome \<Rightarrow> bool" where
  "halts out \<longleftrightarrow> (case out of Returns us w \<Rightarrow> True | Fault \<Rightarrow> True | Timeout \<Rightarrow> True | _ \<Rightarrow> False)"

lemma halts_simps [simp]:
  "halts (Returns us w)" "halts Fault" "halts Timeout" "\<not> halts (Normal \<sigma> w)" "\<not> halts (Yields vs \<sigma> w)"
  "\<not> halts (Breaks \<sigma> w)" "\<not> halts (Continues \<sigma> w)"
  by (simp_all add: halts_def)

definition matches :: "versions \<Rightarrow> nat set \<Rightarrow> ('a, 'w) outcome \<Rightarrow> ('a, 'w) outcome \<Rightarrow> bool" where
  "matches c D out out' \<longleftrightarrow>
     (\<exists>\<sigma> \<tau> w. out = Normal \<sigma> w \<and> out' = Normal \<tau> w \<and> Sim c D \<sigma> \<tau>) \<or> halts out \<and> out' = out"

definition loop_matches ::
  "('a val option list \<Rightarrow> 'a env \<Rightarrow> 'a env \<Rightarrow> bool) \<Rightarrow> ('a, 'w) outcome \<Rightarrow> ('a, 'w) outcome \<Rightarrow> bool" where
  "loop_matches rel out out' \<longleftrightarrow>
     (\<exists>\<sigma> vs \<tau> w. out = Yields [] \<sigma> w \<and> out' = Yields vs \<tau> w \<and> rel vs \<sigma> \<tau>) \<or> halts out \<and> out' = out"

definition step_matches ::
  "('a val option list \<Rightarrow> 'a env \<Rightarrow> 'a env \<Rightarrow> bool) \<Rightarrow> ('a, 'w) step \<Rightarrow> ('a, 'w) step \<Rightarrow> bool" where
  "step_matches rel s s' \<longleftrightarrow>
     (\<exists>\<sigma> vs \<tau> w. s = Again [] \<sigma> w \<and> s' = Again vs \<tau> w \<and> rel vs \<sigma> \<tau>) \<or> (\<exists>out. halts out \<and> s = Leave out \<and> s' = Leave out)"

lemma for_loop_matches:
  assumes body: "\<And>i vs \<sigma> \<tau> w. rel vs \<sigma> \<tau> \<Longrightarrow> step_matches rel1 (loop_step 0 (B (set_var lv (Some (IntV i)) \<sigma>) w))
      (loop_step (length ias) (B' (set_vars ias vs (set_var lv' (Some (IntV i)) \<tau>)) w))"
    and weaken: "\<And>vs \<sigma> \<tau>. rel1 vs \<sigma> \<tau> \<Longrightarrow> rel vs \<sigma> \<tau>"
    and "rel vs \<sigma> \<tau>"
  shows "loop_matches (if is = [] then rel else rel1) (for_loop B lv [] is [] \<sigma> w) (for_loop B' lv' ias is vs \<tau> w)"
  using assms(3)
proof (induction "is" arbitrary: vs \<sigma> \<tau> w)
  case Nil
  then show ?case by (simp add: loop_matches_def)
next
  case (Cons i "is")
  from body [OF Cons.prems, of i w] consider
      \<sigma>1 vs1 \<tau>1 w1 where "loop_step 0 (B (set_var lv (Some (IntV i)) \<sigma>) w) = Again [] \<sigma>1 w1"
        "loop_step (length ias) (B' (set_vars ias vs (set_var lv' (Some (IntV i)) \<tau>)) w) = Again vs1 \<tau>1 w1" "rel1 vs1 \<sigma>1 \<tau>1"
    | out where "halts out" "loop_step 0 (B (set_var lv (Some (IntV i)) \<sigma>) w) = Leave out"
        "loop_step (length ias) (B' (set_vars ias vs (set_var lv' (Some (IntV i)) \<tau>)) w) = Leave out"
    unfolding step_matches_def by blast
  then show ?case
  proof cases
    case 1
    with Cons.IH [OF weaken [OF 1(3)], of w1] show ?thesis by (cases "is") (simp_all add: loop_matches_def)
  qed (simp add: loop_matches_def)
qed

lemma while_loop_matches:
  assumes cond: "\<And>vs \<sigma> \<tau> w. rel vs \<sigma> \<tau> \<Longrightarrow> C' (set_vars ias vs \<tau>) w = C \<sigma> w"
    and body: "\<And>vs \<sigma> \<tau> w. rel vs \<sigma> \<tau> \<Longrightarrow>
      step_matches rel (loop_step 0 (B \<sigma> w)) (loop_step (length ias) (B' (set_vars ias vs \<tau>) w))"
    and "rel vs \<sigma> \<tau>"
  shows "loop_matches rel (while_loop n C B [] [] \<sigma> w) (while_loop n C' B' ias vs \<tau> w)"
  using assms(3)
proof (induction n arbitrary: vs \<sigma> \<tau> w)
  case (Suc n)
  have "loop_matches rel
    (case loop_step 0 (B \<sigma> w1) of Again vs \<sigma> w \<Rightarrow> while_loop n C B [] vs \<sigma> w | Leave out \<Rightarrow> out)
    (case loop_step (length ias) (B' (set_vars ias vs \<tau>) w1) of
      Again vs \<tau> w \<Rightarrow> while_loop n C' B' ias vs \<tau> w | Leave out \<Rightarrow> out)" for w1
    using body [OF Suc.prems, of w1] Suc.IH by (auto simp: step_matches_def) (simp_all add: loop_matches_def)
  then show ?case
    using Suc.prems by (auto simp: cond split: option.splits prod.splits val.splits bool.splits) (simp_all add: loop_matches_def)
qed (simp add: loop_matches_def)

section \<open>Initialised variables have versions\<close>

definition covers :: "versions \<Rightarrow> nat set \<Rightarrow> bool" where
  "covers c D \<longleftrightarrow> (\<forall>x. var_id x \<in> D \<longrightarrow> lookup c x \<noteq> None)"

lemma Sim_covers: "Sim c D \<sigma> \<tau> \<Longrightarrow> covers c D"
  by (fastforce simp: Sim_def covers_def)

lemma covers_mono: "covers c D \<Longrightarrow> E \<subseteq> D \<Longrightarrow> covers c E"
  by (auto simp: covers_def)

lemma covers_assigns: "covers c D \<Longrightarrow> covers (assigns xs vs c) D"
  unfolding covers_def using lookup_assigns_keeps by blast

lemma merge_covers:
  assumes "orders P" "keeps A st st1" "covers (cur st1) Da" "covers (cur st2) Db"
    and "length vs = length (phi_vars P (cur st) (cur st1) (cur st2))"
  shows "covers (assigns (phi_vars P (cur st) (cur st1) (cur st2)) vs (cur st)) (Da \<inter> Db)"
  unfolding covers_def
proof (intro allI impI)
  fix x :: Var
  assume x: "var_id x \<in> Da \<inter> Db"
  let ?phis = "phi_vars P (cur st) (cur st1) (cur st2)"
  show "lookup (assigns ?phis vs (cur st)) x \<noteq> None"
  proof (cases "lookup (cur st) x = None")
    case True
    with x assms(4) have "diverges (cur st) (cur st1) (cur st2) x" by (simp add: diverges_def covers_def)
    with x assms(3) phi_vars_not_in [OF assms(1), of x "cur st" "cur st1" "cur st2"]
    have "var_id x \<in> var_id ` set ?phis" unfolding covers_def by blast
    then show ?thesis by (rule lookup_assigns_key [OF assms(5) [symmetric]])
  qed (rule lookup_assigns_keeps)
qed

text \<open>What a loop initialises is carried by it or escapes from it.\<close>

lemma loop_covers:
  assumes "orders P" and p: "prepare_loop P scoped [] B st = Inr (lp, st1)"
    and "covers (cur st) D" and "N \<subseteq> future_needs st" and E: "E \<subseteq> var_id ` set scoped \<union> D \<union> assigned B"
    and "length vs = length (lp_carried lp @ lp_escaping lp)"
  shows "covers (assigns (lp_carried lp @ lp_escaping lp) vs (cur st)) (D \<union> ((E - var_id ` set scoped) \<inter> N))"
  unfolding covers_def
proof (intro allI impI)
  fix x :: Var
  assume x: "var_id x \<in> D \<union> ((E - var_id ` set scoped) \<inter> N)"
  show "lookup (assigns (lp_carried lp @ lp_escaping lp) vs (cur st)) x \<noteq> None"
  proof (cases "lookup (cur st) x = None")
    case True
    with x assms(3) have "var_id x \<notin> D" "var_id x \<in> E - var_id ` set scoped" "var_id x \<in> N" by (auto simp: covers_def)
    with E True assms(4) escaping_ids [OF assms(1), of x "cur st" "future_needs st" scoped B]
    have "var_id x \<in> var_id ` set (lp_escaping lp)" unfolding prepare_plain(2) [OF p] by blast
    then show ?thesis by (intro lookup_assigns_key) (auto simp: assms(6))
  qed (rule lookup_assigns_keeps)
qed

lemma RegisterIterArgs_covers:
  "length xs = length vs \<Longrightarrow> covers (cur st) D \<Longrightarrow> covers (cur (RegisterIterArgs xs vs st)) D"
  unfolding covers_def using RegisterIterArgs_key by blast

lemma inits_static:
  assumes "ConvertSeq P ss st = Inr (ss', st')" "inits ss D N = Some (D', N')" "covers (cur st) D" "N \<subseteq> future_needs st"
    and "\<And>s st s' st' D N D' N'. s \<in> set ss \<Longrightarrow> ConvertStmt P s st = Inr (s', st') \<Longrightarrow> init s D N = Some (D', N') \<Longrightarrow>
      covers (cur st) D \<Longrightarrow> N \<subseteq> future_needs st \<Longrightarrow> covers (cur st') D' \<and> N' \<subseteq> future_needs st'"
  shows "covers (cur st') D' \<and> N' \<subseteq> future_needs st'"
  using assms
proof (induction ss arbitrary: st ss' st' D N)
  case (Cons s ss)
  from Cons.prems(1) obtain s1 st1 ss1 where
    eqs: "ConvertStmt P s (st\<lparr>future_needs := suffix_needs ss\<rparr>) = Inr (s1, st1)" "ConvertSeq P ss st1 = Inr (ss1, st')" by auto
  from Cons.prems(2) obtain D1 N1 where i: "init s D (suffix_needs ss) = Some (D1, N1)" "inits ss D1 N1 = Some (D', N')"
    by (auto split: option.splits)
  have "covers (cur st1) D1 \<and> N1 \<subseteq> future_needs st1"
    by (rule Cons.prems(5) [OF _ eqs(1) i(1)]) (use Cons.prems(3) in auto)
  then show ?case using Cons.IH [OF eqs(2) i(2)] Cons.prems(5) by (meson list.set_intros(2))
qed simp

lemma init_static:
  assumes "orders P"
  shows "ConvertStmt P (s :: 'o Stmt) st = Inr (s', st') \<Longrightarrow> init s D N = Some (D', N') \<Longrightarrow> covers (cur st) D \<Longrightarrow>
    N \<subseteq> future_needs st \<Longrightarrow> covers (cur st') D' \<and> N' \<subseteq> future_needs st'"
proof (induction s arbitrary: st s' st' D N D' N')
  case (AssignStmt x e)
  then show ?case
    by (auto simp: AllocVersion_def Let_def covers_def split: prod.splits if_splits dest!: make_versionD)
next
  case (SeqStmts ss)
  then obtain ss' where "ConvertSeq P ss st = Inr (ss', st')" "inits ss D N = Some (D', N')" by auto
  from this SeqStmts.prems(3,4) show ?case by (rule inits_static) (rule SeqStmts.IH)
next
  case (IfStmt c a b rvs)
  from IfStmt.prems(2) have rvs: "rvs = []" by (auto split: if_splits)
  from IfStmt.prems(2) obtain Da Na where ia: "init a D N = Some (Da, Na)" by (auto split: if_splits option.splits)
  from IfStmt.prems(2) ia have ib: "case b of None \<Rightarrow> D' = D \<and> N' = Na | Some e \<Rightarrow> \<exists>Db. init e D Na = Some (Db, N') \<and> D' = Da \<inter> Db"
    by (auto split: if_splits option.splits)
  from IfStmt.prems(1) show ?case
  proof (rule ConvertStmt_IfE)
    fix a1 st1 b1 st2
    assume a: "ConvertStmt P a st = Inr (a1, st1)"
      and b: "(case b of None \<Rightarrow> b1 = None \<and> st2 = st1\<lparr>cur := cur st\<rparr>
        | Some e \<Rightarrow> \<exists>e1. b1 = Some e1 \<and> ConvertStmt P e (st1\<lparr>cur := cur st\<rparr>) = Inr (e1, st2))"
      and m: "merge_branches P (SubstExpr (cur st) c) (cur st) a1 (cur st1) b1 (cur st2) rvs st2 = Inr (s', st')"
    note ca = IfStmt.IH(1) [OF a ia IfStmt.prems(3,4)]
    have cb: "\<exists>Db. covers (cur st2) Db \<and> N' \<subseteq> future_needs st2 \<and> D' \<subseteq> Da \<inter> Db"
    proof (cases b)
      case None
      with b ib ca init_mono [OF ia] IfStmt.prems(3) show ?thesis by auto
    next
      case (Some e)
      with b ib obtain e1 Db where e: "ConvertStmt P e (st1\<lparr>cur := cur st\<rparr>) = Inr (e1, st2)"
        "init e D Na = Some (Db, N')" "D' = Da \<inter> Db" by auto
      have "covers (cur st2) Db \<and> N' \<subseteq> future_needs st2"
        by (rule IfStmt.IH(2) [OF _ e(1,2)]) (use Some IfStmt.prems(3) ca in auto)
      then show ?thesis using e(3) by blast
    qed
    from merge_plain [OF m [unfolded rvs]] obtain vs where
      vs: "length vs = length (phi_vars P (cur st) (cur st1) (cur st2))" "future_needs st' = future_needs st2"
        "cur st' = assigns (phi_vars P (cur st) (cur st1) (cur st2)) vs (cur st)" by metis
    from cb merge_covers [OF assms ConvertStmt_keeps [OF assms a init_plain [OF ia]] conjunct1 [OF ca] _ vs(1)]
    show "covers (cur st') D' \<and> N' \<subseteq> future_needs st'" unfolding vs(2,3) using covers_mono by blast
  qed
next
  case (ForStmt h ias B rvs)
  from ForStmt.prems(2) have ias: "ias = []" "rvs = []" by (auto split: if_splits)
  obtain E where i: "init B (insert (var_id (loop_var h)) D) N = Some (E, N')"
      "D' \<subseteq> D \<union> ((E - {var_id (loop_var h)}) \<inter> N)"
    by (rule init_ForE [OF ForStmt.prems(2)]) (auto split: if_splits)
  from ForStmt.prems(1) show ?case unfolding ias
  proof (rule ConvertStmt_ForE, unfold append.simps list.map)
    fix lp :: "'o LoopPrep" and st1 lv and st2 :: SSAConverter and B1 st4 B2 rvs2
    let ?st2 = "st2\<lparr>cur := assign (loop_var h) lv (cur st2)\<rparr>"
    assume p: "prepare_loop P [loop_var h] [] B st = Inr (lp, st1)" and
      lv: "make_version P ''idx'' (loop_var h) (var_type (loop_var h)) st1 = (lv, st2)" and
      b: "ConvertStmt P B (RegisterIterArgs (lp_carried lp @ lp_escaping lp) (map fst (lp_args lp)) ?st2) = Inr (B1, st4)" and
      f: "finish_loop P (cur st) [] [] lp B1 st4 = Inr (B2, rvs2, st')"
    note v = make_versionD [OF lv] and pl = prepare_plain [OF p] and pd = prepare_loopD(2,3) [OF p]
    have n: "next_id st1 \<le> next_id ?st2" using v by simp
    note k = ConvertStmt_keeps [OF assms b init_plain [OF i(1)]]
    note l = loop_finish [OF p refl n b init_plain [OF i(1)] k f]
    have "covers (cur ?st2) (insert (var_id (loop_var h)) D)"
      using ForStmt.prems(3) v pd by (auto simp: covers_def)
    then have "covers (cur (RegisterIterArgs (lp_carried lp @ lp_escaping lp) (map fst (lp_args lp)) ?st2)) (insert (var_id (loop_var h)) D)"
      by (intro RegisterIterArgs_covers) (simp_all add: pl(3))
    from ForStmt.IH [OF b i(1) this] ForStmt.prems(4) v pd have "N' \<subseteq> future_needs st4" by simp
    moreover have "covers (cur st') (D \<union> ((E - var_id ` set [loop_var h]) \<inter> N))"
      unfolding l(2) by (rule loop_covers [OF assms p ForStmt.prems(3,4)]) (use init_assigned [OF i(1)] pl(3-5) in auto)
    ultimately show "covers (cur st') D' \<and> N' \<subseteq> future_needs st'" using i(2) covers_mono by (auto simp: l(3))
  qed
next
  case (WhileStmt c ias B rvs)
  from WhileStmt.prems(2) have ias: "ias = []" "rvs = []" by (auto split: if_splits)
  from WhileStmt.prems(2) obtain E where i: "init B D N = Some (E, N')" "D' = D" by (auto split: if_splits option.splits)
  from WhileStmt.prems(1) show ?case unfolding ias
  proof (rule ConvertStmt_WhileE, unfold append.simps list.map)
    fix lp :: "'o LoopPrep" and st1 st2 B1 st4 B2 rvs2
    assume p: "prepare_loop P [] [] B st = Inr (lp, st1)" and
      st2: "st2 = RegisterIterArgs (lp_carried lp @ lp_escaping lp) (map fst (lp_args lp)) st1" and
      b: "ConvertStmt P B st2 = Inr (B1, st4)" and
      f: "finish_loop P (cur st) [] [] lp B1 st4 = Inr (B2, rvs2, st')"
    note pl = prepare_plain [OF p] and pd = prepare_loopD(2,3) [OF p]
    note k = ConvertStmt_keeps [OF assms b init_plain [OF i(1)]]
    note l = loop_finish [OF p st2 le_refl b init_plain [OF i(1)] k f]
    have "covers (cur st2) D" unfolding st2
      by (rule RegisterIterArgs_covers) (simp_all add: pl(3) pd WhileStmt.prems(3))
    from WhileStmt.IH [OF b i(1) this] WhileStmt.prems(4) have "N' \<subseteq> future_needs st4" by (simp add: st2 pd)
    then show "covers (cur st') D' \<and> N' \<subseteq> future_needs st'"
      using covers_assigns [OF WhileStmt.prems(3)] by (simp add: l(2,3) i(2))
  qed
next
  case (ScopeStmt k n B)
  let ?N = "if outline_boundary k then N \<inter> D else N"
  let ?V = "if outline_boundary k then {i \<in> future_needs st. i \<in> (var_id \<circ> fst) ` set (cur st)} else future_needs st"
  from ScopeStmt.prems(1) obtain B' st1 where b: "ConvertStmt P B (st\<lparr>future_needs := ?V\<rparr>) = Inr (B', st1)"
      "st' = (if outline_boundary k then st1\<lparr>future_needs := future_needs st\<rparr> else st1)"
    by (auto simp: Let_def)
  from ScopeStmt.prems(2) obtain N1 where i: "init B D ?N = Some (D', N1)" "N' = (if outline_boundary k then N else N1)"
    by (auto split: if_splits option.splits)
  have "i \<in> (var_id \<circ> fst) ` set (cur st)" if "i \<in> D" for i
    using that ScopeStmt.prems(3) lookup_in [of "cur st" "\<lparr>var_id = i, name_hint = [], var_type = 0\<rparr>"] by (simp add: covers_def)
  then have "?N \<subseteq> ?V" using ScopeStmt.prems(4) by auto
  with ScopeStmt.IH [OF b(1) i(1)] ScopeStmt.prems(3,4) show ?case by (auto simp: b(2) i(2))
qed (auto split: if_splits)

section \<open>Runs of a converted statement\<close>

lemma writes_defs: "writes s \<subseteq> set_mset (defs s)"
proof (induction s)
  case (SeqStmts ss)
  have "set_mset (defs s) \<subseteq> set_mset (sum_list (map defs ss))" if "s \<in> set ss" for s
    using that by (induction ss) auto
  with SeqStmts show ?case by fastforce
next
  case (IfStmt c a b rvs)
  then show ?case by (cases b) (auto simp: ids_def)
qed (auto simp: ids_def)

lemma ConvertStmt_frame:
  assumes "ConvertStmt P s st = Inr (s', st')" "i < next_id st" "out_env (exec I F s' \<tau> w) = Some \<tau>'"
  shows "\<tau>' i = \<tau> i"
proof -
  have "i \<notin> writes s'" using fresh_ids_set [OF ConvertStmt_defs [OF assms(1)]] writes_defs [of s'] assms(2) by fastforce
  with exec_writes [of s' \<tau> I F w] assms(3) show ?thesis by (simp add: changes_only_def)
qed

lemma fresh_ids_distinct: "fresh_ids n m (ids xs + M) \<Longrightarrow> distinct (map var_id xs)"
proof -
  assume "fresh_ids n m (ids xs + M)"
  then have "count (ids xs) i \<le> 1" for i using fresh_ids_count [of n m "ids xs + M" i] by simp
  then show ?thesis
  proof (induction xs)
    case (Cons x xs)
    have "count (ids xs) i \<le> 1" for i using Cons.prems [of i] by (auto split: if_splits)
    moreover have "var_id x \<notin> var_id ` set xs"
      using Cons.prems [of "var_id x"] by (auto simp: ids_def count_eq_zero_iff)
    ultimately show ?case using Cons.IH by simp
  qed simp
qed

text \<open>
  What links the two runs at the start of an iteration, with the values \<open>vs\<close> of the iteration arguments: those
  of the variables the loop carries, while the others have the version they had before the loop.
\<close>

definition carry ::
  "Var list \<Rightarrow> versions \<Rightarrow> nat set \<Rightarrow> nat \<Rightarrow> 'a env \<Rightarrow> 'a val option list \<Rightarrow> 'a env \<Rightarrow> 'a env \<Rightarrow> bool" where
  "carry keys c D n \<tau>0 vs \<sigma> \<tau> \<longleftrightarrow>
     length vs = length keys \<and>
     (\<forall>x a. (x, a) \<in> set (zip keys vs) \<longrightarrow> var_id x \<in> D \<longrightarrow> a = \<sigma> (var_id x)) \<and>
     (\<forall>x. var_id x \<in> D \<longrightarrow> var_id x \<notin> var_id ` set keys \<longrightarrow> (\<exists>v. lookup c x = Some v \<and> \<tau> (var_id v) = \<sigma> (var_id x))) \<and>
     (\<forall>i<n. \<tau> i = \<tau>0 i)"

lemma carry_mono: "carry keys c D n \<tau>0 vs \<sigma> \<tau> \<Longrightarrow> E \<subseteq> D \<Longrightarrow> carry keys c E n \<tau>0 vs \<sigma> \<tau>"
  unfolding carry_def by blast

text \<open>At the start of the loop.\<close>

lemma carry_start:
  assumes "orders P" and p: "prepare_loop P scoped [] B st = Inr (lp, st1)" and "Sim (cur st) D \<sigma> \<tau>"
  defines "keys \<equiv> lp_carried lp @ lp_escaping lp"
  obtains vs where "\<forall>w. copies I \<tau> (map snd (lp_args lp)) w = Some (vs, w)" "carry keys (cur st) D n \<tau> vs \<sigma> \<tau>"
proof -
  from prepare_plain(6) [OF p] obtain es where
    es: "map snd (lp_args lp) = map EVar (map (\<lambda>x. the (lookup (cur st) x)) (lp_carried lp) @ es)" "length es = length (lp_escaping lp)"
    by (auto simp: comp_def)
  let ?inits = "map (\<lambda>x. the (lookup (cur st) x)) (lp_carried lp) @ es"
  let ?vs = "map (\<lambda>v. \<tau> (var_id v)) ?inits"
  have esc: "lookup (cur st) x = None" if "x \<in> set (lp_escaping lp)" for x
    using that escaping_ids [OF assms(1), of x "cur st" "future_needs st" scoped B] unfolding prepare_plain(2) [OF p] by blast
  have "a = \<sigma> (var_id x)" if "(x, a) \<in> set (zip keys ?vs)" "var_id x \<in> D" for x a
  proof -
    from assms(3) that(2) obtain v where v: "lookup (cur st) x = Some v" "\<tau> (var_id v) = \<sigma> (var_id x)" by (auto simp: Sim_def)
    from that(1) have "(x, a) \<in> set (zip (lp_carried lp) (map (\<lambda>x. \<tau> (var_id (the (lookup (cur st) x)))) (lp_carried lp))) \<or>
        x \<in> set (lp_escaping lp)"
      by (auto simp: keys_def comp_def dest: set_zip_leftD)
    then show ?thesis using v esc [of x] by (auto simp: zip_map2 in_set_zip)
  qed
  then have c: "carry keys (cur st) D n \<tau> ?vs \<sigma> \<tau>"
    using assms(3) unfolding carry_def by (auto simp: Sim_def keys_def es(2))
  have "copies I \<tau> (map snd (lp_args lp)) w = Some (?vs, w)" for w
    unfolding es(1) by (rule copies_vars)
  then have "\<forall>w. copies I \<tau> (map snd (lp_args lp)) w = Some (?vs, w)" by blast
  then show thesis using c by (rule that)
qed

text \<open>At the start of the body.\<close>

lemma carry_body:
  assumes c: "carry keys (cur st) (D - scoped) n \<tau>0 vs \<sigma> \<tau>" and "below n (cur st)" "n0 \<le> n" "\<forall>i\<in>D. i < n0"
    and "length keys = length ias" "distinct (map var_id ias)" "\<forall>v\<in>set ias. n \<le> var_id v"
    and lv: "scoped = {} \<and> c2 = cur st \<and> \<sigma>2 = \<sigma> \<and> \<tau>2 = \<tau> \<or>
      scoped = {var_id x} \<and> c2 = assign x lv (cur st) \<and> \<sigma>2 = set_var x a \<sigma> \<and> \<tau>2 = set_var lv a \<tau> \<and> n \<le> var_id lv \<and>
        var_id lv \<notin> var_id ` set ias"
    and "var_id ` set keys \<inter> scoped = {}"
  shows "Sim (cur (RegisterIterArgs keys ias (st2\<lparr>cur := c2\<rparr>))) D \<sigma>2 (set_vars ias vs \<tau>2)"
proof -
  have "Sim (assigns keys ias c2) D \<sigma>2 (set_vars ias vs \<tau>2)"
  proof (rule Sim_assigns)
    show "length ias = length vs" using c assms(5) by (simp add: carry_def)
    show "a = \<sigma>2 (var_id y)" if "(y, a) \<in> set (zip keys vs)" "var_id y \<in> D" for y a
    proof -
      have "y \<in> set keys" using that(1) by (rule set_zip_leftD)
      with assms(9) have "var_id y \<notin> scoped" by auto
      then show ?thesis using c that lv by (auto simp: carry_def set_var_def)
    qed
    show "\<exists>v. lookup c2 y = Some v \<and> \<tau>2 (var_id v) = \<sigma>2 (var_id y) \<and> var_id v \<notin> var_id ` set ias"
      if y: "var_id y \<in> D" "var_id y \<notin> var_id ` set keys" for y
    proof (cases "var_id y \<in> scoped")
      case True
      with lv show ?thesis by (auto simp: set_var_def)
    next
      case False
      with c y obtain v where v: "lookup (cur st) y = Some v" "\<tau> (var_id v) = \<sigma> (var_id y)" by (auto simp: carry_def)
      with assms(2) have n: "var_id v < n" by (auto simp: below_def)
      with assms(7) have "var_id v \<notin> var_id ` set ias" by fastforce
      with False v n lv show ?thesis by (auto simp: set_var_def)
    qed
  qed (use assms in auto)
  moreover have "lookup (cur (RegisterIterArgs keys ias (st2\<lparr>cur := c2\<rparr>))) y = lookup (assigns keys ias c2) y"
    if "var_id y \<in> D" for y
    using lookup_RegisterIterArgs [OF assms(5), of y "st2\<lparr>cur := c2\<rparr>"] that assms(3,4,7) by fastforce
  ultimately show ?thesis by (simp add: Sim_def)
qed

text \<open>At its end.\<close>

lemma loop_step_halts: "halts out \<Longrightarrow> loop_step k out = Leave out"
  by (cases out) (simp_all add: loop_step_def)

lemma carry_step:
  assumes m: "matches after E (exec I F B \<sigma>b w) (exec I F B1 \<tau>b w)"
    and keys: "\<forall>x\<in>set keys. lookup after x \<noteq> None"
    and B2: "if keys = [] then B2 = B1
      else ReplaceOrAppendYield B1 (map EVar (map (\<lambda>x. the (lookup after x)) keys)) = Inr B2"
    and "\<not> has_yield B1"
    and kept: "\<And>x. var_id x \<in> E' \<Longrightarrow> var_id x \<notin> var_id ` set keys \<Longrightarrow> lookup before x = lookup after x"
    and "E' \<subseteq> E"
    and frame: "\<And>\<tau>' i. out_env (exec I F B1 \<tau>b w) = Some \<tau>' \<Longrightarrow> i < n \<Longrightarrow> \<tau>' i = \<tau>0 i"
  shows "step_matches (\<lambda>vs \<sigma> \<tau>. carry keys before E' n \<tau>0 vs \<sigma> \<tau>) (loop_step 0 (exec I F B \<sigma>b w))
    (loop_step (length keys) (exec I F B2 \<tau>b w))"
proof -
  let ?vals = "map (\<lambda>x. the (lookup after x)) keys"
  have B2': "exec I F B2 \<tau>b w = (case exec I F B1 \<tau>b w of
      Normal \<tau> w \<Rightarrow> if keys = [] then Normal \<tau> w else Yields (map (\<lambda>v. \<tau> (var_id v)) ?vals) \<tau> w | out \<Rightarrow> out)"
  proof (cases "keys = []")
    case False
    with B2 have "ReplaceOrAppendYield B1 (map EVar ?vals) = Inr B2" by simp
    from ReplaceOrAppendYield_exec [OF this assms(4), of I F \<tau>b w] False show ?thesis
      by (simp add: copies_vars del: map_map split: outcome.split)
  qed (use B2 in \<open>simp split: outcome.split\<close>)
  from m consider \<sigma> \<tau> w' where "exec I F B \<sigma>b w = Normal \<sigma> w'" "exec I F B1 \<tau>b w = Normal \<tau> w'" "Sim after E \<sigma> \<tau>"
    | "halts (exec I F B \<sigma>b w)" "exec I F B1 \<tau>b w = exec I F B \<sigma>b w"
    unfolding matches_def by blast
  then show ?thesis
  proof cases
    case 1
    let ?vs = "map (\<lambda>v. \<tau> (var_id v)) ?vals"
    have "carry keys before E' n \<tau>0 ?vs \<sigma> \<tau>"
      unfolding carry_def
    proof (intro conjI allI impI)
      fix x :: Var and a
      assume "(x, a) \<in> set (zip keys ?vs)" "var_id x \<in> E'"
      then have "a = \<tau> (var_id (the (lookup after x)))" "var_id x \<in> E" using assms(6) by (auto simp: in_set_zip)
      with SimD [OF 1(3)] show "a = \<sigma> (var_id x)" by fastforce
    next
      fix x :: Var
      assume x: "var_id x \<in> E'" "var_id x \<notin> var_id ` set keys"
      with assms(6) have "var_id x \<in> E" by blast
      with SimD [OF 1(3)] kept [OF x] show "\<exists>v. lookup before x = Some v \<and> \<tau> (var_id v) = \<sigma> (var_id x)" by simp
    next
      fix i
      assume "i < n"
      with frame [of \<tau> i] 1(2) show "\<tau> i = \<tau>0 i" by simp
    qed simp
    moreover have "loop_step (length keys) (exec I F B2 \<tau>b w) = Again ?vs \<tau> w'"
      by (simp add: B2' 1(2) loop_step_def)
    ultimately show ?thesis by (simp add: 1(1) step_matches_def loop_step_def)
  next
    case 2
    then have "exec I F B2 \<tau>b w = exec I F B \<sigma>b w" unfolding B2' by (cases "exec I F B \<sigma>b w") auto
    with 2(1) show ?thesis by (auto simp: step_matches_def loop_step_halts)
  qed
qed

text \<open>After the loop.\<close>

lemma finish_halts: "halts out \<Longrightarrow> finish xs \<sigma>0 rvs out = out"
  by (cases out) (simp_all add: finish_def)

lemma carry_finish:
  assumes m: "loop_matches (\<lambda>vs \<sigma> \<tau>. carry keys before (D' - var_id ` set scoped) n \<tau>0 vs \<sigma> \<tau>) out out'"
    and "Sim before D \<sigma>0 \<tau>0" "below n before" "D' \<inter> var_id ` set scoped \<subseteq> D"
    and "length keys = length rvs" "distinct (map var_id rvs)" "\<forall>v\<in>set rvs. n \<le> var_id v" "\<forall>v\<in>set scoped'. n \<le> var_id v"
    and "var_id ` set keys \<inter> var_id ` set scoped = {}"
  shows "matches (assigns keys rvs before) D' (finish scoped \<sigma>0 [] out) (finish scoped' \<tau>0 rvs out')"
proof -
  from m consider \<sigma> vs \<tau> w where "out = Yields [] \<sigma> w" "out' = Yields vs \<tau> w"
      "carry keys before (D' - var_id ` set scoped) n \<tau>0 vs \<sigma> \<tau>"
    | "halts out" "out' = out"
    unfolding loop_matches_def by blast
  then show ?thesis
  proof cases
    case 1
    note c = 1(3)
    have "Sim (assigns keys rvs before) D' (restore scoped \<sigma>0 \<sigma>) (set_vars rvs vs (restore scoped' \<tau>0 \<tau>))"
    proof (rule Sim_assigns [OF assms(5) _ assms(6)])
      show "length rvs = length vs" using c assms(5) by (simp add: carry_def)
      show "a = restore scoped \<sigma>0 \<sigma> (var_id x)" if "(x, a) \<in> set (zip keys vs)" "var_id x \<in> D'" for x a
      proof -
        from that(1) have "x \<in> set keys" by (rule set_zip_leftD)
        with assms(9) have "var_id x \<notin> var_id ` set scoped" by auto
        with c that show ?thesis by (auto simp: carry_def restore_def)
      qed
      show "\<exists>v. lookup before x = Some v \<and> restore scoped' \<tau>0 \<tau> (var_id v) = restore scoped \<sigma>0 \<sigma> (var_id x) \<and>
          var_id v \<notin> var_id ` set rvs"
        if x: "var_id x \<in> D'" "var_id x \<notin> var_id ` set keys" for x
      proof -
        have *: "restore scoped' \<tau>0 \<tau> (var_id v) = \<tau> (var_id v) \<and> var_id v \<notin> var_id ` set rvs \<and> \<tau> (var_id v) = \<tau>0 (var_id v)"
          if "lookup before x = Some v" for v
        proof -
          from that assms(3) have "var_id v < n" by (auto simp: below_def)
          with assms(7,8) have "var_id v \<notin> var_id ` set rvs" "var_id v \<notin> var_id ` set scoped'" by fastforce+
          moreover have "\<tau> (var_id v) = \<tau>0 (var_id v)" using c \<open>var_id v < n\<close> by (simp add: carry_def)
          ultimately show ?thesis by (simp add: restore_def)
        qed
        show ?thesis
        proof (cases "var_id x \<in> var_id ` set scoped")
          case True
          with x assms(4) have "var_id x \<in> D" by blast
          from SimD [OF assms(2) this] obtain v where "lookup before x = Some v" "\<tau>0 (var_id v) = \<sigma>0 (var_id x)" by blast
          with * [of v] True show ?thesis by (simp add: restore_def)
        next
          case False
          with x c obtain v where "lookup before x = Some v" "\<tau> (var_id v) = \<sigma> (var_id x)" unfolding carry_def by blast
          with * [of v] False show ?thesis by (simp add: restore_def)
        qed
      qed
    qed
    with 1 c show ?thesis by (simp add: finish_def matches_def carry_def assms(5))
  qed (simp add: matches_def finish_halts)
qed

end
