(* ===== verification/Ssa_Exec.thy ===== *)
theory Ssa_Exec
  imports Ssa_Sim
begin

text \<open>
  The conversion to SSA form keeps what a function does: the converted function returns the same values in the
  same world, faults and runs out of fuel alike. The input is one of the front end (no iteration argument,
  returned variable, yield or jump yet) that initialises a variable before it reads it. A loop with constant
  bounds that certainly runs initialises what its body does, as far as the live-in analysis of the pass
  takes it as needed later (\<open>init\<close>); \<open>definite\<close> is the condition without the pass, by which a loop
  initialises nothing. The last section shows what happens otherwise.
\<close>

section \<open>Loops\<close>

lemma assigned_defs: "assigned s \<subseteq> set_mset (defs s)"
proof (induction s)
  case (SeqStmts ss)
  have "set_mset (defs s) \<subseteq> set_mset (sum_list (map defs ss))" if "s \<in> set ss" for s
    using that by (induction ss) auto
  with SeqStmts show ?case by fastforce
next
  case (IfStmt c a b rvs)
  then show ?case by (cases b) auto
qed (auto simp: assigned_def)

text \<open>One iteration.\<close>

lemma loop_body_matches:
  fixes B1 :: "'o Stmt"
  assumes "orders P" and p: "prepare_loop P scoped [] B st = Inr (lp, st1)"
  defines "keys \<equiv> lp_carried lp @ lp_escaping lp" and "ias \<equiv> map fst (lp_args lp)" and "S \<equiv> var_id ` set scoped"
  assumes st3: "st3 = RegisterIterArgs keys ias st2"
    and start: "scoped = [] \<and> st2 = st1 \<and> \<sigma>b = \<sigma> \<and> \<tau>l = \<tau> \<or>
      (\<exists>x lv a. scoped = [x] \<and> cur st2 = assign x lv (cur st) \<and> \<sigma>b = set_var x a \<sigma> \<and> \<tau>l = set_var lv a \<tau> \<and>
        var_id lv = next_id st1 \<and> next_id st2 = Suc (next_id st1))"
    and b: "ConvertStmt P B st3 = Inr (B1, st4)" and i: "init B (S \<union> D) N = Some (E, N')"
    and f: "finish_loop P (cur st) [] [] lp B1 st4 = Inr (B2, rvs2, st')"
    and IH: "\<And>\<sigma> \<tau> w. Sim (cur st3) (S \<union> D) \<sigma> \<tau> \<Longrightarrow> matches (cur st4) E (exec I F B \<sigma> w) (exec I F B1 \<tau> w)"
    and bounds: "below (next_id st) (cur st)" "n0 \<le> next_id st" "\<forall>i\<in>S \<union> D \<union> assigned B. i < n0"
    and "covers (cur st) D" "N \<subseteq> future_needs st" "D' \<subseteq> D \<union> ((E - S) \<inter> N)"
    and c: "carry keys (cur st) (D - S) (next_id st) \<tau>0 vs \<sigma> \<tau>"
  shows "step_matches (\<lambda>vs \<sigma> \<tau>. carry keys (cur st) (D' - S) (next_id st) \<tau>0 vs \<sigma> \<tau>)
    (loop_step 0 (exec I F B \<sigma>b w)) (loop_step (length ias) (exec I F B2 (set_vars ias vs \<tau>l) w))"
proof -
  have len: "length ias = length keys" using prepare_plain(3) [OF p] by (simp add: ias_def keys_def)
  have st2: "next_id st1 \<le> next_id st2" using start by auto
  note pB = init_plain [OF i]
  note k = ConvertStmt_keeps [OF assms(1) b pB]
  note l = loop_finish [OF p st3 [unfolded keys_def ias_def] st2 b pB k f, folded keys_def]
  note fresh = prepare_loopD(1) [OF p, folded ias_def]
  have ids: "next_id st \<le> var_id v \<and> var_id v < next_id st1" if "v \<in> set ias" for v
    using fresh_ids_set [OF fresh, of "var_id v"] that by (auto simp: ids_def)
  have dist: "distinct (map var_id ias)" using fresh by (simp add: fresh_ids_distinct add.assoc)
  have disj: "var_id ` set keys \<inter> S = {}" using loop_keys_assigned [OF assms(1) p] unfolding keys_def S_def by blast
  have sim: "Sim (cur st3) (S \<union> D) \<sigma>b (set_vars ias vs \<tau>l)"
  proof -
    have "cur st1 = cur st" using prepare_loopD(2) [OF p] .
    have new: "next_id st1 \<notin> var_id ` set ias" using ids by fastforce
    have "Sim (cur (RegisterIterArgs keys ias (st2\<lparr>cur := cur st2\<rparr>))) (S \<union> D) \<sigma>b (set_vars ias vs \<tau>l)"
    proof (rule carry_body [OF _ bounds(1,2) _ len [symmetric] dist _ _ disj])
      show "carry keys (cur st) (S \<union> D - S) (next_id st) \<tau>0 vs \<sigma> \<tau>" by (rule carry_mono [OF c]) blast
      show "S = {} \<and> cur st2 = cur st \<and> \<sigma>b = \<sigma> \<and> \<tau>l = \<tau> \<or>
        S = {var_id (hd scoped)} \<and> cur st2 = assign (hd scoped) (the (lookup (cur st2) (hd scoped))) (cur st) \<and>
        \<sigma>b = set_var (hd scoped) (\<sigma>b (var_id (hd scoped))) \<sigma> \<and>
        \<tau>l = set_var (the (lookup (cur st2) (hd scoped))) (\<sigma>b (var_id (hd scoped))) \<tau> \<and>
        next_id st \<le> var_id (the (lookup (cur st2) (hd scoped))) \<and>
        var_id (the (lookup (cur st2) (hd scoped))) \<notin> var_id ` set ias"
        using start \<open>cur st1 = cur st\<close> new l(8) by (auto simp: S_def set_var_def)
    qed (use bounds(3) ids in auto)
    then show ?thesis by (simp add: st3)
  qed
  have frame: "\<tau>' j = \<tau>0 j" if "out_env (exec I F B1 (set_vars ias vs \<tau>l) w) = Some \<tau>'" "j < next_id st" for \<tau>' j
  proof -
    have "\<tau>' j = set_vars ias vs \<tau>l j" using ConvertStmt_frame [OF b _ that(1)] that(2) l(8) st2 by (simp add: st3)
    also have "\<dots> = \<tau>l j" using ids that(2) by (intro set_vars_other) fastforce
    also have "\<dots> = \<tau> j" using start that(2) l(8) by (auto simp: set_var_def)
    also have "\<dots> = \<tau>0 j" using c that(2) by (simp add: carry_def)
    finally show ?thesis .
  qed
  have kept: "lookup (cur st) x = lookup (cur st4) x" if x: "var_id x \<in> D' - S" "var_id x \<notin> var_id ` set keys" for x
  proof -
    have "var_id x \<notin> assigned B"
    proof
      assume a: "var_id x \<in> assigned B"
      have "lookup (cur st) x = None"
        using carried_ids [OF assms(1), of x "cur st" scoped B] a x
        by (auto simp: keys_def prepare_plain(1) [OF p] S_def)
      moreover have "var_id x \<in> N" using x assms(15,17) calculation by (auto simp: covers_def)
      ultimately show False
        using escaping_ids [OF assms(1), of x "cur st" "future_needs st" scoped B] a x assms(16)
        by (auto simp: keys_def prepare_plain(2) [OF p] S_def)
    qed
    then have "lookup (cur st4) x = lookup (cur st3) x" using k by (simp add: keeps_def)
    also have "\<dots> = lookup (assigns keys ias (cur st2)) x" unfolding st3
    proof (rule lookup_RegisterIterArgs [OF len [symmetric]])
      have "var_id x \<in> S \<union> D \<union> assigned B" using x assms(17) init_assigned [OF i] by blast
      with bounds(3) have "var_id x < n0" by blast
      with ids bounds(2) show "\<forall>v\<in>set ias. var_id v \<noteq> var_id x" by fastforce
    qed
    also have "\<dots> = lookup (cur st2) x" by (rule lookup_assigns_other [OF x(2)])
    also have "\<dots> = lookup (cur st) x" using start x(1) prepare_loopD(2) [OF p] by (auto simp: S_def)
    finally show ?thesis by simp
  qed
  show ?thesis unfolding len
  proof (rule carry_step [OF IH [OF sim] l(5,6) ConvertStmt_no_yield [OF b pB]])
    show "lookup (cur st) x = lookup (cur st4) x" if "var_id x \<in> D' - S" "var_id x \<notin> var_id ` set keys" for x
      using that by (rule kept)
    show "\<tau>' j = \<tau>0 j" if "out_env (exec I F B1 (set_vars ias vs \<tau>l) w) = Some \<tau>'" "j < next_id st" for \<tau>' j
      using that by (rule frame)
    show "D' - S \<subseteq> E" using assms(17) init_mono [OF i] by blast
  qed
qed

lemma loop_ids:
  assumes p: "prepare_loop P scoped [] B st = Inr (lp, st1)"
  shows "length (lp_carried lp @ lp_escaping lp) = length (lp_carried_rvs lp @ lp_esc_rvs lp)"
    and "distinct (map var_id (lp_carried_rvs lp @ lp_esc_rvs lp))"
    and "\<forall>v\<in>set (lp_carried_rvs lp @ lp_esc_rvs lp). next_id st \<le> var_id v"
    and "\<forall>v\<in>set (map fst (lp_args lp)). next_id st \<le> var_id v"
    and "\<forall>v\<in>set (map fst (lp_args lp)). var_id v < next_id st1"
proof -
  note f = prepare_loopD(1) [OF p]
  have "fresh_ids (next_id st) (next_id st1) (ids (lp_carried_rvs lp @ lp_esc_rvs lp) + ids (map fst (lp_args lp)))"
    using f by (simp add: ac_simps)
  then show "distinct (map var_id (lp_carried_rvs lp @ lp_esc_rvs lp))" by (rule fresh_ids_distinct)
  show "length (lp_carried lp @ lp_escaping lp) = length (lp_carried_rvs lp @ lp_esc_rvs lp)"
    using prepare_plain(4,5) [OF p] by simp
  have "var_id v \<in># ids (map fst (lp_args lp)) + ids (lp_carried_rvs lp) + ids (lp_esc_rvs lp)"
    if "v \<in> set (lp_carried_rvs lp @ lp_esc_rvs lp) \<or> v \<in> set (map fst (lp_args lp))" for v
    using that by (auto simp: ids_def)
  then show "\<forall>v\<in>set (lp_carried_rvs lp @ lp_esc_rvs lp). next_id st \<le> var_id v"
    "\<forall>v\<in>set (map fst (lp_args lp)). next_id st \<le> var_id v" "\<forall>v\<in>set (map fst (lp_args lp)). var_id v < next_id st1"
    using fresh_ids_set [OF f] by blast+
qed

section \<open>Branches\<close>

lemma merge_versions:
  assumes "orders P" "lookup t x \<noteq> None" "lookup e x \<noteq> None" "var_id x \<notin> var_id ` set (phi_vars P c t e)"
  shows "\<exists>v u u'. lookup c x = Some v \<and> lookup t x = Some u \<and> lookup e x = Some u' \<and> var_id u = var_id v \<and> var_id u' = var_id v"
  using phi_vars_not_in [OF assms(1,4,2)] assms(2,3) by (auto simp: diverges_def changed_def split: if_splits)

text \<open>The end of a branch; one that is missing is an empty one.\<close>

lemma branch_matches:
  assumes m: "matches branch Dx out (exec I F a \<tau> w)" and "\<not> has_yield a" and "D' \<subseteq> Dx"
    and versions: "\<And>x. var_id x \<in> D' \<Longrightarrow> var_id x \<notin> var_id ` set phis \<Longrightarrow>
      \<exists>v u. lookup c x = Some v \<and> lookup branch x = Some u \<and> var_id u = var_id v"
    and "length vs = length phis" "distinct (map var_id vs)" "below n c" "\<forall>v\<in>set vs. n \<le> var_id v"
    and a': "if phis = [] then a' = a else ReplaceOrAppendYield a (map EVar (map (chosen c branch) phis)) = Inr a'"
  shows "matches (assigns phis vs c) D' (branch_end [] out) (branch_end vs (exec I F a' \<tau> w))"
proof -
  let ?vals = "\<lambda>\<tau>. map (\<lambda>v. \<tau> (var_id v)) (map (chosen c branch) phis)"
  have a'': "exec I F a' \<tau> w = (case exec I F a \<tau> w of
      Normal \<tau> w \<Rightarrow> if phis = [] then Normal \<tau> w else Yields (?vals \<tau>) \<tau> w | out \<Rightarrow> out)"
  proof (cases "phis = []")
    case False
    with a' have "ReplaceOrAppendYield a (map EVar (map (chosen c branch) phis)) = Inr a'" by simp
    from ReplaceOrAppendYield_exec [OF this assms(2), of I F \<tau> w] False show ?thesis
      by (simp add: copies_vars del: map_map split: outcome.split)
  qed (use a' in \<open>simp split: outcome.split\<close>)
  from m consider \<sigma>1 \<tau>1 w1 where "out = Normal \<sigma>1 w1" "exec I F a \<tau> w = Normal \<tau>1 w1" "Sim branch Dx \<sigma>1 \<tau>1"
    | "halts out" "exec I F a \<tau> w = out"
    unfolding matches_def by blast
  then show ?thesis
  proof cases
    case 1
    have "Sim (assigns phis vs c) D' \<sigma>1 (set_vars vs (?vals \<tau>1) \<tau>1)"
    proof (rule Sim_assigns [OF assms(5) [symmetric] _ assms(6)])
      show "b = \<sigma>1 (var_id x)" if x: "(x, b) \<in> set (zip phis (?vals \<tau>1))" "var_id x \<in> D'" for x b
      proof -
        from x assms(3) have "b = \<tau>1 (var_id (chosen c branch x))" "var_id x \<in> Dx" by (auto simp: in_set_zip)
        with SimD [OF 1(3)] show ?thesis by (fastforce simp: chosen_def)
      qed
      show "\<exists>v. lookup c x = Some v \<and> \<tau>1 (var_id v) = \<sigma>1 (var_id x) \<and> var_id v \<notin> var_id ` set vs"
        if x: "var_id x \<in> D'" "var_id x \<notin> var_id ` set phis" for x
      proof -
        from versions [OF x] obtain v u where v: "lookup c x = Some v" "lookup branch x = Some u" "var_id u = var_id v" by blast
        from x(1) assms(3) have "var_id x \<in> Dx" by blast
        from SimD [OF 1(3) this] v have "\<tau>1 (var_id v) = \<sigma>1 (var_id x)" by auto
        moreover have "var_id v \<notin> var_id ` set vs" using v(1) assms(7,8) by (fastforce simp: below_def)
        ultimately show ?thesis using v(1) by blast
      qed
    qed (simp add: assms(5))
    with 1 assms(5) show ?thesis by (auto simp: a'' branch_end_def matches_def)
  next
    case 2
    then show ?thesis by (cases out) (auto simp: a'' branch_end_def matches_def)
  qed
qed

section \<open>Statements\<close>

lemma surely_runs_values:
  assumes "surely_runs h" "for_bounds I \<sigma> h w = Some (is, w')"
  shows "is \<noteq> []"
proof -
  have c: "ev I \<sigma> e w = Some (IntV i, w)" if "EvalConstInt e = Some i" for e i w
    using that by (auto simp: EvalConstInt_def on_int_def split: Expr.splits if_splits)
  from assms(1) obtain a b s where abs: "EvalConstInt (for_start h) = Some a" "EvalConstInt (for_stop h) = Some b"
      "EvalConstInt (for_step h) = Some s" "s > 0 \<and> a < b \<or> s < 0 \<and> b < a"
    by (auto simp: surely_runs_def split: option.splits)
  from assms(2) abs(4) have "is = range_values a b s" by (auto simp: for_bounds_def c [OF abs(1)] c [OF abs(2)] c [OF abs(3)])
  with abs(4) show ?thesis
    by (auto simp: range_values_def up_range.simps [of a b s] down_range.simps [of a b s])
qed

lemma subst_bounds:
  assumes "Sim c D \<sigma> \<tau>" "used [for_start h, for_stop h, for_step h] \<subseteq> D"
  shows "for_bounds I \<tau> (h\<lparr>loop_var := lv, for_start := SubstExpr c (for_start h), for_stop := SubstExpr c (for_stop h),
      for_step := SubstExpr c (for_step h)\<rparr>) w = for_bounds I \<sigma> h w"
proof -
  have u: "used [for_start h] \<subseteq> D" "used [for_stop h] \<subseteq> D" "used [for_step h] \<subseteq> D"
    using assms(2) by (simp_all add: used_def image_Un)
  show ?thesis
    by (simp add: for_bounds_def SubstExpr_ev [OF assms(1) u(1)] SubstExpr_ev [OF assms(1) u(2)] SubstExpr_ev [OF assms(1) u(3)])
qed

lemma ConvertSeq_exec:
  assumes "orders P" "ConvertSeq P ss st = Inr (ss', st')" "inits ss D N = Some (D', N')" "below (next_id st) (cur st)"
    "n0 \<le> next_id st" "\<forall>i\<in>D. i < n0" "\<forall>s\<in>set ss. \<forall>i\<in>#defs s. i < n0" "Sim (cur st) D \<sigma> \<tau>"
    and "\<And>s st s' st' D N D' N' \<sigma> \<tau> w. s \<in> set ss \<Longrightarrow> ConvertStmt P s st = Inr (s', st') \<Longrightarrow> init s D N = Some (D', N') \<Longrightarrow>
      N \<subseteq> future_needs st \<Longrightarrow> below (next_id st) (cur st) \<Longrightarrow> n0 \<le> next_id st \<Longrightarrow> \<forall>i\<in>D. i < n0 \<Longrightarrow>
      \<forall>i\<in>#defs s. i < n0 \<Longrightarrow> Sim (cur st) D \<sigma> \<tau> \<Longrightarrow> matches (cur st') D' (exec I F s \<sigma> w) (exec I F s' \<tau> w)"
  shows "matches (cur st') D' (execs I F ss \<sigma> w) (execs I F ss' \<tau> w)"
  using assms(2-)
proof (induction ss arbitrary: st ss' st' D N \<sigma> \<tau> w)
  case Nil
  then show ?case by (auto simp: matches_def)
next
  case (Cons s ss)
  from Cons.prems(1) obtain s1 st1 ss1 where
    eqs: "ConvertStmt P s (st\<lparr>future_needs := suffix_needs ss\<rparr>) = Inr (s1, st1)" "ConvertSeq P ss st1 = Inr (ss1, st')"
      "ss' = s1 # ss1" by auto
  from Cons.prems(2) obtain D1 N1 where i: "init s D (suffix_needs ss) = Some (D1, N1)" "inits ss D1 N1 = Some (D', N')"
    by (auto split: option.splits)
  have m: "matches (cur st1) D1 (exec I F s \<sigma> w) (exec I F s1 \<tau> w)"
    by (rule Cons.prems(8) [OF _ eqs(1) i(1)]) (use Cons.prems(3-7) in auto)
  have D1: "\<forall>i\<in>D1. i < n0" using init_assigned [OF i(1)] assigned_defs [of s] Cons.prems(5,6) by fastforce
  have "keeps (assigned s) st st1" using ConvertStmt_keeps [OF assms(1) eqs(1) init_plain [OF i(1)]] by simp
  then have "below (next_id st1) (cur st1)" using Cons.prems(3) by (simp add: keeps_def)
  moreover have "n0 \<le> next_id st1" using fresh_ids_le [OF ConvertStmt_defs [OF eqs(1)]] Cons.prems(4) by simp
  ultimately have "matches (cur st') D' (execs I F ss \<sigma>1 w1) (execs I F ss1 \<tau>1 w1)" if "Sim (cur st1) D1 \<sigma>1 \<tau>1" for \<sigma>1 \<tau>1 w1
    using that D1 Cons.prems(6) by (intro Cons.IH [OF eqs(2) i(2)]) (auto intro: Cons.prems(8))
  note rest = this
  from m consider \<sigma>1 \<tau>1 w1 where "exec I F s \<sigma> w = Normal \<sigma>1 w1" "exec I F s1 \<tau> w = Normal \<tau>1 w1" "Sim (cur st1) D1 \<sigma>1 \<tau>1"
    | "halts (exec I F s \<sigma> w)" "exec I F s1 \<tau> w = exec I F s \<sigma> w"
    unfolding matches_def by blast
  then show ?case
  proof cases
    case 1
    then show ?thesis using rest [OF 1(3)] by (simp add: eqs(3))
  next
    case 2
    then show ?thesis by (cases "exec I F s \<sigma> w") (simp_all add: eqs(3) matches_def)
  qed
qed

lemma ConvertStmt_exec:
  assumes P: "orders P"
  shows "ConvertStmt P (s :: 'o Stmt) st = Inr (s', st') \<Longrightarrow> init s D N = Some (D', N') \<Longrightarrow> N \<subseteq> future_needs st \<Longrightarrow>
    below (next_id st) (cur st) \<Longrightarrow> n0 \<le> next_id st \<Longrightarrow> \<forall>i\<in>D. i < n0 \<Longrightarrow> \<forall>i\<in>#defs s. i < n0 \<Longrightarrow> Sim (cur st) D \<sigma> \<tau> \<Longrightarrow>
    matches (cur st') D' (exec I F s \<sigma> w) (exec I F s' \<tau> w)"
proof (induction s arbitrary: st s' st' D N D' N' \<sigma> \<tau> w)
  case (AssignStmt x e)
  from AssignStmt.prems(1) obtain v where v: "var_id v = next_id st" "cur st' = assigns [x] [v] (cur st)"
      "s' = AssignStmt v (SubstExpr (cur st) e)"
    by (auto simp: AllocVersion_def Let_def split: prod.splits dest!: make_versionD)
  from AssignStmt.prems(2) have i: "used [e] \<subseteq> D" "D' = insert (var_id x) D" by (auto split: if_splits)
  have "Sim (assigns [x] [v] (cur st)) D' (set_var x a \<sigma>) (set_vars [v] [a] \<tau>)" for a
  proof (rule Sim_assigns)
    show "\<exists>u. lookup (cur st) y = Some u \<and> \<tau> (var_id u) = set_var x a \<sigma> (var_id y) \<and> var_id u \<notin> var_id ` set [v]"
      if "var_id y \<in> D'" "var_id y \<notin> var_id ` set [x]" for y
    proof -
      from that i(2) have "var_id y \<in> D" "var_id y \<noteq> var_id x" by auto
      with SimD [OF AssignStmt.prems(8)] AssignStmt.prems(4) v(1) show ?thesis by (fastforce simp: set_var_def below_def)
    qed
  qed (auto simp: set_var_def)
  then show ?case
    by (auto simp: matches_def v(2,3) SubstExpr_ev [OF AssignStmt.prems(8) i(1)] split: option.splits)
next
  case (EvalStmt e)
  then have u: "used [e] \<subseteq> D" and "D' = D" by (auto split: if_splits)
  with EvalStmt.prems SubstExpr_ev [OF EvalStmt.prems(8) u, of I w] show ?case by (auto simp: matches_def split: option.splits)
next
  case (ReturnStmt es)
  then have u: "used es \<subseteq> D" by (auto split: if_splits)
  with ReturnStmt.prems SubstExpr_evs [OF ReturnStmt.prems(8) u, of I w] show ?case
    by (auto simp: matches_def split: option.splits)
next
  case (SeqStmts ss)
  from SeqStmts.prems(1,2) obtain ss' where ss': "ConvertSeq P ss st = Inr (ss', st')" "inits ss D N = Some (D', N')"
    "s' = Flatten ss'" by auto
  have d: "\<forall>s\<in>set ss. \<forall>i\<in>#defs s. i < n0"
  proof -
    have "set_mset (defs s) \<subseteq> set_mset (sum_list (map defs ss))" if "s \<in> set ss" for s
      using that by (induction ss) auto
    then show ?thesis using SeqStmts.prems(7) by auto
  qed
  have "matches (cur st') D' (execs I F ss \<sigma> w) (execs I F ss' \<tau> w)"
    using SeqStmts.IH by (rule ConvertSeq_exec [OF P ss'(1,2) SeqStmts.prems(4-6) d SeqStmts.prems(8)])
  then show ?case by (simp add: ss'(3) exec_Flatten)
next
  case (IfStmt c a b rvs)
  from IfStmt.prems(2) have rvs: "rvs = []" and u: "used [c] \<subseteq> D" by (auto split: if_splits)
  from IfStmt.prems(2) obtain Da Na where ia: "init a D N = Some (Da, Na)" by (auto split: if_splits option.splits)
  from IfStmt.prems(2) ia have ib: "case b of None \<Rightarrow> D' = D \<and> N' = Na | Some e \<Rightarrow> \<exists>Db. init e D Na = Some (Db, N') \<and> D' = Da \<inter> Db"
    by (auto split: if_splits option.splits)
  from IfStmt.prems(1) show ?case
  proof (rule ConvertStmt_IfE)
    fix a1 :: "'o Stmt" and st1 :: SSAConverter and b1 :: "'o Stmt option" and st2 :: SSAConverter
    let ?phis = "phi_vars P (cur st) (cur st1) (cur st2)"
    let ?b = "case b of None \<Rightarrow> SeqStmts [] | Some e \<Rightarrow> e" and ?b1 = "case b1 of None \<Rightarrow> SeqStmts [] | Some e \<Rightarrow> e"
    assume a: "ConvertStmt P a st = Inr (a1, st1)"
      and b: "(case b of None \<Rightarrow> b1 = None \<and> st2 = st1\<lparr>cur := cur st\<rparr>
        | Some e \<Rightarrow> \<exists>e1. b1 = Some e1 \<and> ConvertStmt P e (st1\<lparr>cur := cur st\<rparr>) = Inr (e1, st2))"
      and m: "merge_branches P (SubstExpr (cur st) c) (cur st) a1 (cur st1) b1 (cur st2) rvs st2 = Inr (s', st')"
    have n: "next_id st \<le> next_id st1" using fresh_ids_le [OF ConvertStmt_defs [OF a]] .
    note ca = init_static [OF P a ia Sim_covers [OF IfStmt.prems(8)] IfStmt.prems(3)]
    have ma: "matches (cur st1) Da (exec I F a \<sigma> w) (exec I F a1 \<tau> w)" for w
      by (rule IfStmt.IH(1) [OF a ia]) (use IfStmt.prems in auto)
    have "\<exists>Db. D' \<subseteq> Da \<inter> Db \<and> covers (cur st2) Db \<and> next_id st1 \<le> next_id st2 \<and> \<not> has_yield ?b1 \<and>
        (\<forall>w. matches (cur st2) Db (exec I F ?b \<sigma> w) (exec I F ?b1 \<tau> w))"
    proof (cases b)
      case None
      with b ib init_mono [OF ia] IfStmt.prems(8) Sim_covers [OF IfStmt.prems(8)] show ?thesis
        by (intro exI [of _ D]) (simp add: matches_def)
    next
      case (Some e)
      with b ib obtain e1 Db where e: "b1 = Some e1" "ConvertStmt P e (st1\<lparr>cur := cur st\<rparr>) = Inr (e1, st2)"
        "init e D Na = Some (Db, N')" "D' = Da \<inter> Db" by auto
      have "matches (cur st2) Db (exec I F e \<sigma> w) (exec I F e1 \<tau> w)" for w
        by (rule IfStmt.IH(2) [OF _ e(2,3)]) (use Some IfStmt.prems ca n below_mono [OF IfStmt.prems(4) n] in auto)
      moreover have "covers (cur st2) Db"
        using init_static [OF P e(2,3)] Sim_covers [OF IfStmt.prems(8)] ca by simp
      moreover have "next_id st1 \<le> next_id st2" using fresh_ids_le [OF ConvertStmt_defs [OF e(2)]] by simp
      moreover have "\<not> has_yield e1" using ConvertStmt_no_yield [OF e(2) init_plain [OF e(3)]] .
      ultimately show ?thesis using e(1,4) Some by auto
    qed
    then obtain Db where cb: "D' \<subseteq> Da \<inter> Db" "covers (cur st2) Db" "next_id st1 \<le> next_id st2" "\<not> has_yield ?b1"
        and mb: "\<And>w. matches (cur st2) Db (exec I F ?b \<sigma> w) (exec I F ?b1 \<tau> w)" by blast
    obtain vs where
      vs: "length vs = length ?phis" "fresh_ids (next_id st2) (next_id st') (ids vs)" "cur st' = assigns ?phis vs (cur st)"
        "future_needs st' = future_needs st2" and
      s': "if ?phis = [] then s' = IfStmt (SubstExpr (cur st) c) a1 b1 []
        else \<exists>a' b'. s' = IfStmt (SubstExpr (cur st) c) a' (Some b') vs \<and>
          ReplaceOrAppendYield a1 (map EVar (map (chosen (cur st) (cur st1)) ?phis)) = Inr a' \<and>
          (case b1 of None \<Rightarrow> b' = YieldStmt (map EVar (map (chosen (cur st) (cur st2)) ?phis))
            | Some e \<Rightarrow> ReplaceOrAppendYield e (map EVar (map (chosen (cur st) (cur st2)) ?phis)) = Inr b')"
      by (rule merge_plain [OF m [unfolded rvs]])
    have "\<exists>a' b'. (if ?phis = [] then a' = a1 else ReplaceOrAppendYield a1 (map EVar (map (chosen (cur st) (cur st1)) ?phis)) = Inr a') \<and>
        (if ?phis = [] then b' = ?b1 else ReplaceOrAppendYield ?b1 (map EVar (map (chosen (cur st) (cur st2)) ?phis)) = Inr b') \<and>
        (\<forall>\<tau> w. exec I F s' \<tau> w = exec I F (IfStmt (SubstExpr (cur st) c) a' (Some b') vs) \<tau> w)"
    proof (cases "?phis = []")
      case True
      then have "vs = []" using vs(1) by simp
      with True s' show ?thesis by (cases b1) (auto simp: branch_end_def split: option.splits val.splits bool.splits)
    next
      case False
      with s' show ?thesis by (cases b1) (auto simp: Flatten_def flat_items_def AssertNoMidBodyYield_def check_def)
    qed
    then obtain a' b' where ab: "if ?phis = [] then a' = a1 else ReplaceOrAppendYield a1 (map EVar (map (chosen (cur st) (cur st1)) ?phis)) = Inr a'"
        "if ?phis = [] then b' = ?b1 else ReplaceOrAppendYield ?b1 (map EVar (map (chosen (cur st) (cur st2)) ?phis)) = Inr b'"
        "\<And>\<tau> w. exec I F s' \<tau> w = exec I F (IfStmt (SubstExpr (cur st) c) a' (Some b') vs) \<tau> w" by blast
    have fresh: "distinct (map var_id vs)" "\<forall>v\<in>set vs. next_id st \<le> var_id v"
      using fresh_ids_distinct [of "next_id st2" "next_id st'" vs "{#}"] fresh_ids_set [OF vs(2)] vs(2) n cb(3)
      by (fastforce simp: ids_def)+
    have same: "\<exists>v u u'. lookup (cur st) x = Some v \<and> lookup (cur st1) x = Some u \<and> lookup (cur st2) x = Some u' \<and>
        var_id u = var_id v \<and> var_id u' = var_id v"
      if "var_id x \<in> D'" "var_id x \<notin> var_id ` set ?phis" for x
    proof (rule merge_versions [OF P _ _ that(2)])
      have "var_id x \<in> Da" "var_id x \<in> Db" using that(1) cb(1) by auto
      with ca cb(2) show "lookup (cur st1) x \<noteq> None" "lookup (cur st2) x \<noteq> None" unfolding covers_def by blast+
    qed
    have ta: "matches (cur st') D' (branch_end [] (exec I F a \<sigma> w)) (branch_end vs (exec I F a' \<tau> w))" for w
      unfolding vs(3)
      by (rule branch_matches [OF ma ConvertStmt_no_yield [OF a init_plain [OF ia]] _ _ vs(1) fresh(1) IfStmt.prems(4) fresh(2) ab(1)])
        (use cb(1) same in blast)+
    have tb: "matches (cur st') D' (branch_end [] (exec I F ?b \<sigma> w)) (branch_end vs (exec I F b' \<tau> w))" for w
      unfolding vs(3)
      by (rule branch_matches [OF mb cb(4) _ _ vs(1) fresh(1) IfStmt.prems(4) fresh(2) ab(2)]) (use cb(1) same in blast)+
    have "exec I F (IfStmt c a b rvs) \<sigma> w = exec I F (IfStmt c a (Some ?b) []) \<sigma> w"
      by (cases b) (auto simp: rvs split: option.splits val.splits bool.splits)
    then show "matches (cur st') D' (exec I F (IfStmt c a b rvs) \<sigma> w) (exec I F s' \<tau> w)"
      using ta tb SubstExpr_ev [OF IfStmt.prems(8) u, of I w] by (auto simp: ab(3) split: option.splits val.splits bool.splits) (auto simp: matches_def)
  qed
next
  case (ForStmt h ias B rvs)
  obtain E where u: "used [for_start h, for_stop h, for_step h] \<subseteq> D" and ias: "ias = []" "rvs = []" and
    i: "init B (insert (var_id (loop_var h)) D) N = Some (E, N')" and
    D': "D' = (if surely_runs h then D \<union> ((E - {var_id (loop_var h)}) \<inter> N) else D)"
    by (rule init_ForE [OF ForStmt.prems(2)])
  from ForStmt.prems(1) show ?case unfolding ias
  proof (rule ConvertStmt_ForE, unfold append.simps list.map)
    fix lp :: "'o LoopPrep" and st1 lv and st2 :: SSAConverter and B1 st4 B2 rvs2
    let ?keys = "lp_carried lp @ lp_escaping lp" and ?ias = "map fst (lp_args lp)" and ?n = "next_id st"
    let ?st2 = "st2\<lparr>cur := assign (loop_var h) lv (cur st2)\<rparr>"
    let ?S = "var_id ` set [loop_var h]"
    let ?rel = "\<lambda>X vs \<sigma>' \<tau>'. carry ?keys (cur st) (X - ?S) ?n \<tau> vs \<sigma>' \<tau>'"
    assume p: "prepare_loop P [loop_var h] [] B st = Inr (lp, st1)" and
      lv: "make_version P ''idx'' (loop_var h) (var_type (loop_var h)) st1 = (lv, st2)" and
      b: "ConvertStmt P B (RegisterIterArgs ?keys ?ias ?st2) = Inr (B1, st4)" and
      f: "finish_loop P (cur st) [] [] lp B1 st4 = Inr (B2, rvs2, st')" and
      s': "s' = ForStmt (h\<lparr>loop_var := lv, for_start := SubstExpr (cur st) (for_start h),
        for_stop := SubstExpr (cur st) (for_stop h), for_step := SubstExpr (cur st) (for_step h)\<rparr>) (lp_args lp) B2 rvs2"
    note v = make_versionD [OF lv] and pd = prepare_loopD [OF p] and pl = prepare_plain [OF p] and pB = init_plain [OF i]
    have n: "next_id st1 \<le> next_id ?st2" using v by simp
    note l = loop_finish [OF p refl n b pB ConvertStmt_keeps [OF P b pB] f]
    have bd: "below (next_id ?st2) (cur (RegisterIterArgs ?keys ?ias ?st2))"
    proof (rule below_RegisterIterArgs [OF _ le_refl])
      have "below (next_id ?st2) (cur st2)" using below_mono [OF ForStmt.prems(4)] l(8) v pd(2) by simp
      then show "below (next_id ?st2) (cur ?st2)" using v by (auto simp: below_def)
      show "\<forall>v\<in>set ?ias. var_id v < next_id ?st2" using fresh_ids_set [OF pd(1)] v by (fastforce simp: ids_def)
    qed
    have D0: "\<forall>i\<in>insert (var_id (loop_var h)) D. i < n0" using ForStmt.prems(6,7) by simp
    have IH: "matches (cur st4) E (exec I F B \<sigma> w) (exec I F B1 \<tau> w)"
      if "Sim (cur (RegisterIterArgs ?keys ?ias ?st2)) (?S \<union> D) \<sigma> \<tau>" for \<sigma> \<tau> w
      by (rule ForStmt.IH [OF b i _ _ _ D0]) (use that ForStmt.prems v pd l(8) bd in \<open>auto simp: ias\<close>)
    have D'E: "D' \<subseteq> D \<union> ((E - ?S) \<inter> N)" "D \<subseteq> D'" using D' by auto
    have B0: "\<forall>i\<in>?S \<union> D \<union> assigned B. i < n0" using D0 assigned_defs [of B] ForStmt.prems(7) by auto
    have start: "?S \<union> D = insert (var_id (loop_var h)) D" by simp
    have step: "step_matches (?rel D') (loop_step 0 (exec I F B (set_var (loop_var h) (Some (IntV i)) \<sigma>1) w1))
        (loop_step (length ?ias) (exec I F B2 (set_vars ?ias vs (set_var lv (Some (IntV i)) \<tau>1)) w1))"
      if "?rel D vs \<sigma>1 \<tau>1" for i vs \<sigma>1 \<tau>1 w1
      by (rule loop_body_matches [OF P p refl _ b _ f IH ForStmt.prems(4,5) B0 Sim_covers [OF ForStmt.prems(8)]
            ForStmt.prems(3) D'E(1) that]) (use v pd(2) i in \<open>auto simp: start\<close>)
    obtain vs where vs: "\<forall>w. copies I \<tau> (map snd (lp_args lp)) w = Some (vs, w)" "carry ?keys (cur st) D ?n \<tau> vs \<sigma> \<tau>"
      by (rule carry_start [OF P p ForStmt.prems(8), where I = I and n = "next_id st"])
    have loop: "matches (cur st') D' (finish [loop_var h] \<sigma> [] (for_loop (exec I F B) (loop_var h) [] is [] \<sigma> w1))
        (finish (lv # ?ias) \<tau> rvs2 (for_loop (exec I F B2) lv ?ias is vs \<tau> w1))"
      if bounds: "for_bounds I \<sigma> h w0 = Some (is, w1)" for "is" w0 w1
    proof -
      have "loop_matches (if is = [] then ?rel D else ?rel D') (for_loop (exec I F B) (loop_var h) [] is [] \<sigma> w1)
          (for_loop (exec I F B2) lv ?ias is vs \<tau> w1)"
      proof (rule for_loop_matches)
        show "step_matches (?rel D') (loop_step 0 (exec I F B (set_var (loop_var h) (Some (IntV i)) \<sigma>1) w1))
            (loop_step (length ?ias) (exec I F B2 (set_vars ?ias vs (set_var lv (Some (IntV i)) \<tau>1)) w1))"
          if "?rel D vs \<sigma>1 \<tau>1" for i vs \<sigma>1 \<tau>1 w1
          using that by (rule step)
        show "?rel D vs \<sigma>1 \<tau>1" if "?rel D' vs \<sigma>1 \<tau>1" for vs \<sigma>1 \<tau>1
          by (rule carry_mono [OF that]) (use D'E(2) in blast)
        show "?rel D vs \<sigma> \<tau>" by (rule carry_mono [OF vs(2)]) blast
      qed
      moreover have "is \<noteq> [] \<or> D' = D" using surely_runs_values [OF _ bounds] D' by auto
      ultimately have lm: "loop_matches (?rel D') (for_loop (exec I F B) (loop_var h) [] is [] \<sigma> w1)
          (for_loop (exec I F B2) lv ?ias is vs \<tau> w1)" by (auto split: if_splits)
      show ?thesis unfolding l(1,2)
      proof (rule carry_finish [OF lm ForStmt.prems(8,4)])
        show "D' \<inter> ?S \<subseteq> D" using D' by auto
        show "var_id ` set ?keys \<inter> ?S = {}" using loop_keys_assigned [OF P p] by blast
        show "\<forall>v\<in>set (lv # ?ias). next_id st \<le> var_id v" using loop_ids(4) [OF p] v l(8) by simp
      qed (rule loop_ids [OF p])+
    qed
    show "matches (cur st') D' (exec I F (ForStmt h [] B []) \<sigma> w) (exec I F s' \<tau> w)"
      using loop vs(1) by (auto simp: s' subst_bounds [OF ForStmt.prems(8) u] matches_def split: option.splits)
  qed
next
  case (WhileStmt c ias B rvs)
  from WhileStmt.prems(2) have u: "used [c] \<subseteq> D" and ias: "ias = []" "rvs = []" by (auto split: if_splits)
  from WhileStmt.prems(2) obtain E where i: "init B D N = Some (E, N')" and D': "D' = D"
    by (auto split: if_splits option.splits)
  from WhileStmt.prems(1) show ?case unfolding ias
  proof (rule ConvertStmt_WhileE, unfold append.simps list.map)
    fix lp :: "'o LoopPrep" and st1 and st2 :: SSAConverter and B1 st4 B2 rvs2
    let ?keys = "lp_carried lp @ lp_escaping lp" and ?ias = "map fst (lp_args lp)"
    let ?rel = "\<lambda>vs \<sigma>' \<tau>'. carry ?keys (cur st) D (next_id st) \<tau> vs \<sigma>' \<tau>'"
    assume p: "prepare_loop P [] [] B st = Inr (lp, st1)" and
      st2: "st2 = RegisterIterArgs ?keys ?ias st1" and
      b: "ConvertStmt P B st2 = Inr (B1, st4)" and
      f: "finish_loop P (cur st) [] [] lp B1 st4 = Inr (B2, rvs2, st')" and
      s': "s' = WhileStmt (SubstExpr (cur st2) c) (lp_args lp) B2 rvs2"
    note pd = prepare_loopD [OF p] and pB = init_plain [OF i] and cov = Sim_covers [OF WhileStmt.prems(8)]
    note l = loop_finish [OF p st2 le_refl b pB ConvertStmt_keeps [OF P b pB] f]
    have "below (next_id st1) (cur st1)" using below_mono [OF WhileStmt.prems(4)] l(8) pd(2) by simp
    then have bd: "below (next_id st2) (cur st2)"
      unfolding st2 by (rule below_RegisterIterArgs) (use loop_ids(5) [OF p] in auto)
    have dB: "\<forall>i\<in>#defs B. i < n0" using WhileStmt.prems(7) by simp
    have IH: "matches (cur st4) E (exec I F B \<sigma> w) (exec I F B1 \<tau> w)" if "Sim (cur st2) D \<sigma> \<tau>" for \<sigma> \<tau> w
      by (rule WhileStmt.IH [OF b i _ bd _ WhileStmt.prems(6) dB that])
        (use WhileStmt.prems(3,5) pd l(8) in \<open>auto simp: st2\<close>)
    have B0: "\<forall>i\<in>D \<union> assigned B. i < n0" using assigned_defs [of B] dB WhileStmt.prems(6) by auto
    have step: "step_matches ?rel (loop_step 0 (exec I F B \<sigma>1 w1)) (loop_step (length ?ias) (exec I F B2 (set_vars ?ias vs \<tau>1) w1))"
      if "?rel vs \<sigma>1 \<tau>1" for vs \<sigma>1 \<tau>1 w1
      using loop_body_matches [OF P p st2 _ b _ f, of \<sigma>1 \<sigma>1 \<tau>1 \<tau>1 D N E N' I F n0 D \<tau> vs w1] IH WhileStmt.prems(3-5) B0 cov i that
      by simp
    obtain vs where vs: "\<forall>w. copies I \<tau> (map snd (lp_args lp)) w = Some (vs, w)" "?rel vs \<sigma> \<tau>"
      by (rule carry_start [OF P p WhileStmt.prems(8), where I = I and n = "next_id st"])
    have cond: "ev I (set_vars ?ias vs \<tau>1) (SubstExpr (cur st2) c) w1 = ev I \<sigma>1 c w1" if c: "?rel vs \<sigma>1 \<tau>1" for vs \<sigma>1 \<tau>1 w1
    proof (rule SubstExpr_ev [OF _ u])
      have "Sim (cur (RegisterIterArgs ?keys ?ias (st1\<lparr>cur := cur st1\<rparr>))) D \<sigma>1 (set_vars ?ias vs \<tau>1)"
        by (rule carry_body [where scoped = "{}", OF _ WhileStmt.prems(4,5,6)])
          (use c pd(2) loop_ids(4) [OF p] prepare_plain(3) [OF p] fresh_ids_distinct [of _ _ ?ias] pd(1) in \<open>auto simp: add.assoc\<close>)
      then show "Sim (cur st2) D \<sigma>1 (set_vars ?ias vs \<tau>1)" by (simp add: st2)
    qed
    have lm: "loop_matches ?rel (while_loop F (\<lambda>\<sigma>. ev I \<sigma> c) (exec I F B) [] [] \<sigma> w)
        (while_loop F (\<lambda>\<sigma>. ev I \<sigma> (SubstExpr (cur st2) c)) (exec I F B2) ?ias vs \<tau> w)"
      by (rule while_loop_matches [where rel = ?rel]) (use cond step vs(2) in auto)
    have "matches (cur st') D' (finish [] \<sigma> [] (while_loop F (\<lambda>\<sigma>. ev I \<sigma> c) (exec I F B) [] [] \<sigma> w))
        (finish ?ias \<tau> rvs2 (while_loop F (\<lambda>\<sigma>. ev I \<sigma> (SubstExpr (cur st2) c)) (exec I F B2) ?ias vs \<tau> w))"
      unfolding l(1,2) D'
    proof (rule carry_finish [OF _ WhileStmt.prems(8,4)])
      show "loop_matches (\<lambda>vs \<sigma>' \<tau>'. carry ?keys (cur st) (D - var_id ` set []) (next_id st) \<tau> vs \<sigma>' \<tau>')
          (while_loop F (\<lambda>\<sigma>. ev I \<sigma> c) (exec I F B) [] [] \<sigma> w)
          (while_loop F (\<lambda>\<sigma>. ev I \<sigma> (SubstExpr (cur st2) c)) (exec I F B2) ?ias vs \<tau> w)"
        using lm by simp
    qed (simp, (rule loop_ids [OF p])+, simp)
    then show "matches (cur st') D' (exec I F (WhileStmt c [] B []) \<sigma> w) (exec I F s' \<tau> w)"
      using vs(1) by (simp add: s')
  qed
next
  case (ScopeStmt k n B)
  let ?N = "if outline_boundary k then N \<inter> D else N"
  let ?V = "if outline_boundary k then {i \<in> future_needs st. i \<in> (var_id \<circ> fst) ` set (cur st)} else future_needs st"
  from ScopeStmt.prems(1) obtain B' st1 where b: "ConvertStmt P B (st\<lparr>future_needs := ?V\<rparr>) = Inr (B', st1)" "cur st' = cur st1"
      "s' = ScopeStmt k (map_option (SubstExpr (cur st)) n) B'"
    by (auto simp: Let_def)
  from ScopeStmt.prems(2) obtain N1 where i: "init B D ?N = Some (D', N1)" and n: "\<forall>e. n = Some e \<longrightarrow> used [e] \<subseteq> D"
    by (auto split: if_splits option.splits)
  have "i \<in> (var_id \<circ> fst) ` set (cur st)" if "i \<in> D" for i
    using that Sim_covers [OF ScopeStmt.prems(8)] lookup_in [of "cur st" "\<lparr>var_id = i, name_hint = [], var_type = 0\<rparr>"]
    by (simp add: covers_def)
  then have "?N \<subseteq> ?V" using ScopeStmt.prems(3) by auto
  then have m: "matches (cur st') D' (exec I F B \<sigma> w) (exec I F B' \<tau> w)" for w
    unfolding b(2) by (intro ScopeStmt.IH [OF b(1) i]) (use ScopeStmt.prems in simp_all)
  show ?case
  proof (cases n)
    case (Some e)
    then show ?thesis
      using m SubstExpr_ev [OF ScopeStmt.prems(8), of e I w] n by (auto simp: b(3) matches_def split: option.splits)
  qed (simp add: b(3) m)
qed auto

section \<open>Functions\<close>

definition run :: "('o, 'a, 'w) meaning \<Rightarrow> nat \<Rightarrow> 'o Function \<Rightarrow> 'a val list \<Rightarrow> 'w \<Rightarrow> ('a, 'w) outcome" where
  "run I F func args w =
     (case exec I F (body func) (set_vars (params func) (map Some args) Map.empty) w of
        Normal \<sigma> w \<Rightarrow> Normal Map.empty w
      | out \<Rightarrow> out)"

lemma set_vars_zip:
  "length xs = length as \<Longrightarrow> distinct (map var_id xs) \<Longrightarrow> (x, a) \<in> set (zip xs as) \<Longrightarrow> set_vars xs as \<sigma> (var_id x) = a"
proof (induction xs as arbitrary: \<sigma> rule: list_induct2)
  case (Cons y ys b bs)
  then show ?case
    by (cases "(x, a) = (y, b)") (auto simp: set_vars_other set_var_def dest: set_zip_leftD)
qed simp

lemma ConvertFunction_run:
  assumes "ConvertFunction P fresh func = Inr func'" "orders P"
    and "init (body func) (var_id ` set (params func)) {} = Some r"
    and "\<forall>i\<in>#ids (params func) + defs (body func). i < fresh"
    and "distinct (map var_id (params func))" "length args = length (params func)"
  shows "run I F func' args w = run I F func args w"
proof -
  let ?st = "\<lparr>cur = [], ver = (\<lambda>_. 0), future_needs = {}, next_id = fresh\<rparr>"
  let ?D = "var_id ` set (params func)" and ?as = "map Some args"
  obtain vs st1 where vs: "ConvertParams P (params func) ?st = (vs, st1)" by fastforce
  with assms(1) obtain b st2 where b: "ConvertStmt P (body func) st1 = Inr (b, st2)" "func' = \<lparr>params = vs, body = b\<rparr>"
    by (auto simp: ConvertFunction_def)
  from ConvertParamsD [OF vs] have v: "fresh_ids fresh (next_id st1) (ids vs)" "cur st1 = assigns (params func) vs []"
    "length vs = length (params func)" by auto
  let ?\<sigma> = "set_vars (params func) ?as Map.empty" and ?\<tau> = "set_vars vs ?as Map.empty"
  have sim: "Sim (cur st1) ?D ?\<sigma> ?\<tau>"
    unfolding v(2)
  proof (rule Sim_assigns)
    show "distinct (map var_id vs)" using fresh_ids_distinct [of fresh "next_id st1" vs "{#}"] v(1) by simp
    show "a = ?\<sigma> (var_id x)" if "(x, a) \<in> set (zip (params func) ?as)" for x a
      using set_vars_zip [OF _ assms(5) that] assms(6) by simp
  qed (use v(3) assms(6) in auto)
  have bd: "below (next_id st1) (cur st1)"
    unfolding v(2)
  proof (rule below_assigns)
    show "below 0 []" by (simp add: below_def)
    show "\<forall>v\<in>set vs. var_id v < next_id st1" using fresh_ids_set [OF v(1)] by (auto simp: ids_def)
  qed simp
  obtain D' N' where i: "init (body func) ?D {} = Some (D', N')" using assms(3) by (cases r) auto
  have "matches (cur st2) D' (exec I F (body func) ?\<sigma> w) (exec I F b ?\<tau> w)"
    by (rule ConvertStmt_exec [where ?n0.0 = fresh, OF assms(2) b(1) i _ bd _ _ _ sim])
      (use fresh_ids_le [OF v(1)] assms(4) in \<open>auto simp: ids_def\<close>)
  then show ?thesis by (auto simp: run_def b(2) matches_def)
qed

text \<open>
  Claim C4. The conversion of a function to SSA form keeps what it does, for a class of inputs: they have no break,
  continue or yield, no iteration arguments and no returned variables (\<open>plain\<close>, as the front end builds them for loops
  without early exits), and \<open>init\<close> finds them initialised. That is definite initialisation, in which a loop that surely
  runs also initialises those of its variables that the live-in analysis of the pass takes as needed after it; a variable
  that the analysis misses does not count (\<open>hidden_need_lost\<close>). The parameters are distinct, there is an argument for each,
  and the identities of parameters and definitions are below the first fresh one. Then the converted function returns the same
  values in the same world as the input, or faults or runs out of fuel where it does, whatever the operations mean and in
  which order the sets of the pass are iterated.
\<close>

theorem ConvertFunction_exec:
  assumes "ConvertFunction P fresh func = Inr func'" and "orders P"
    and "init (body func) (var_id ` set (params func)) {} \<noteq> None"
    and "\<forall>i\<in>#ids (params func) + defs (body func). i < fresh"
    and "distinct (map var_id (params func))" and "length args = length (params func)"
  shows "run I F func' args w = run I F func args w"
  using assms by (auto intro: ConvertFunction_run)

text \<open>
  Definite initialisation on every path, without the analyses of the pass: what a loop assigns counts for nothing after
  it. \<open>definite\<close> gives the initialised variables after a statement, and nothing where it reads another one, and
  for the statements that are not of the class.
\<close>

fun definite :: "'o Stmt \<Rightarrow> nat set \<Rightarrow> nat set option"
  and definites :: "'o Stmt list \<Rightarrow> nat set \<Rightarrow> nat set option" where
  "definite (AssignStmt x e) D = (if used [e] \<subseteq> D then Some (insert (var_id x) D) else None)"
| "definite (EvalStmt e) D = (if used [e] \<subseteq> D then Some D else None)"
| "definite (ReturnStmt es) D = (if used es \<subseteq> D then Some D else None)"
| "definite (SeqStmts ss) D = definites ss D"
| "definite (IfStmt c a b rvs) D =
     (if used [c] \<subseteq> D \<and> rvs = [] then
        (case definite a D of
           None \<Rightarrow> None
         | Some Da \<Rightarrow> (case b of None \<Rightarrow> Some D | Some b \<Rightarrow> map_option (\<lambda>Db. Da \<inter> Db) (definite b D)))
      else None)"
| "definite (ForStmt h ias B rvs) D =
     (if used [for_start h, for_stop h, for_step h] \<subseteq> D \<and> ias = [] \<and> rvs = [] then
        map_option (\<lambda>_. D) (definite B (insert (var_id (loop_var h)) D))
      else None)"
| "definite (WhileStmt c ias B rvs) D =
     (if used [c] \<subseteq> D \<and> ias = [] \<and> rvs = [] then map_option (\<lambda>_. D) (definite B D) else None)"
| "definite (ScopeStmt k n B) D =
     (if case n of None \<Rightarrow> True | Some e \<Rightarrow> used [e] \<subseteq> D then definite B D else None)"
| "definite _ D = None"
| "definites [] D = Some D"
| "definites (s # ss) D = Option.bind (definite s D) (definites ss)"

lemma definite_ForE:
  assumes "definite (ForStmt h ias B rvs) D = Some E"
  obtains F where "used [for_start h, for_stop h, for_step h] \<subseteq> D \<and> ias = [] \<and> rvs = []"
    "definite B (insert (var_id (loop_var h)) D) = Some F" "E = D"
  using assms by (cases "definite B (insert (var_id (loop_var h)) D)") (simp_all split: if_splits)

lemma definite_WhileE:
  assumes "definite (WhileStmt c ias B rvs) D = Some E"
  obtains F where "used [c] \<subseteq> D \<and> ias = [] \<and> rvs = []" "definite B D = Some F" "E = D"
  using assms by (cases "definite B D") (simp_all split: if_splits)

lemma definite_init:
  "definite (s :: 'o Stmt) D = Some E \<Longrightarrow> D \<subseteq> D2 \<Longrightarrow> \<exists>E2 N2. init s D2 N = Some (E2, N2) \<and> E \<subseteq> E2"
  and definites_inits:
  "definites (ss :: 'o Stmt list) D = Some E \<Longrightarrow> D \<subseteq> D2 \<Longrightarrow> \<exists>E2 N2. inits ss D2 N = Some (E2, N2) \<and> E \<subseteq> E2"
proof (induction s D and ss D arbitrary: E D2 N and E D2 N rule: definite_definites.induct)
  case (5 c a b rvs D)
  obtain Da where a: "used [c] \<subseteq> D" "rvs = []" "definite a D = Some Da" using "5.prems"(1) by (auto split: if_splits option.splits)
  obtain Da2 Na where ia: "init a D2 N = Some (Da2, Na)" "Da \<subseteq> Da2"
    using "5.IH"(1) [OF conjI [OF a(1,2)] a(3) "5.prems"(2)] by blast
  show ?case
  proof (cases b)
    case None
    then show ?thesis using "5.prems" a ia by (auto split: if_splits)
  next
    case (Some b')
    then obtain Db where b: "definite b' D = Some Db" "E = Da \<inter> Db" using "5.prems"(1) a by auto
    obtain Db2 Nb where "init b' D2 Na = Some (Db2, Nb)" "Db \<subseteq> Db2"
      using "5.IH"(2) [OF conjI [OF a(1,2)] a(3) Some b(1) "5.prems"(2)] by blast
    then show ?thesis using "5.prems"(2) a ia b Some by auto
  qed
next
  case (6 h ias B rvs D)
  obtain F where h: "used [for_start h, for_stop h, for_step h] \<subseteq> D \<and> ias = [] \<and> rvs = []"
    and b: "definite B (insert (var_id (loop_var h)) D) = Some F" "E = D"
    by (rule definite_ForE [OF "6.prems"(1)])
  have "insert (var_id (loop_var h)) D \<subseteq> insert (var_id (loop_var h)) D2" using "6.prems"(2) by blast
  from "6.IH" [OF h b(1) this, of N] obtain E2 N2 where "init B (insert (var_id (loop_var h)) D2) N = Some (E2, N2)" by blast
  moreover have "used [for_start h, for_stop h, for_step h] \<subseteq> D2" using h "6.prems"(2) by blast
  ultimately show ?case using "6.prems"(2) b(2) h by simp blast
next
  case (7 c ias B rvs D)
  obtain F where c: "used [c] \<subseteq> D \<and> ias = [] \<and> rvs = []" and b: "definite B D = Some F" "E = D"
    by (rule definite_WhileE [OF "7.prems"(1)])
  from "7.IH" [OF c b(1) "7.prems"(2), of N] obtain E2 N2 where "init B D2 N = Some (E2, N2)" by blast
  then show ?case using "7.prems"(2) b(2) c by auto
next
  case (8 k n B D)
  have b: "definite B D = Some E" "case n of None \<Rightarrow> True | Some e \<Rightarrow> used [e] \<subseteq> D" using "8.prems"(1) by (auto split: if_splits)
  obtain E2 N2 where "init B D2 (if outline_boundary k then N \<inter> D2 else N) = Some (E2, N2)" "E \<subseteq> E2"
    using "8.IH" [OF b(2,1) "8.prems"(2)] by blast
  moreover have "case n of None \<Rightarrow> True | Some e \<Rightarrow> used [e] \<subseteq> D2" using b(2) "8.prems"(2) by (auto split: option.splits)
  ultimately show ?case by (simp only: init.simps if_True option.case prod.case option.inject prod.inject) blast
next
  case (11 s ss D)
  then obtain D1 where d: "definite s D = Some D1" "definites ss D1 = Some E" by (auto simp: bind_eq_Some_conv)
  obtain D2' N2 where "init s D2 (suffix_needs ss) = Some (D2', N2)" "D1 \<subseteq> D2'" using "11.IH"(1) [OF d(1) "11.prems"(2)] by blast
  then show ?case using "11.IH"(2) [OF d(1,2), of D2' N2] by auto
qed (auto split: if_splits)

text \<open>
  Claim C5. Definite initialisation is enough for the conversion to keep what a function does: when every variable is
  assigned on every path before it is read, where loops are taken as possibly not running, then, for functions without break,
  continue, yield, iteration arguments and returned variables, with distinct parameters, an argument for each, and all
  identities below the first fresh one, the converted function returns the same values in the same world as the
  input, or faults or runs out of fuel where it does. No analysis of the pass is part of the condition.
\<close>

theorem ConvertFunction_definite:
  assumes "ConvertFunction P fresh func = Inr func'" and "orders P"
    and "definite (body func) (var_id ` set (params func)) \<noteq> None"
    and "\<forall>i\<in>#ids (params func) + defs (body func). i < fresh"
    and "distinct (map var_id (params func))" and "length args = length (params func)"
  shows "run I F func' args w = run I F func args w"
proof -
  obtain E where "definite (body func) (var_id ` set (params func)) = Some E" using assms(3) by blast
  from definite_init [OF this subset_refl, of "{}"] have "init (body func) (var_id ` set (params func)) {} \<noteq> None" by auto
  then show ?thesis using assms by (auto intro: ConvertFunction_run)
qed

lemma plain_params_orders: "orders plain_params"
  by (simp add: orders_def plain_params_def)

lemma ConvertFunction_exec_witness:
  "\<exists>func'. ConvertFunction plain_params 4 counted = Inr func' \<and>
    run (\<lambda>_ _ _. None) 0 func' [IntV 2 :: unit val] () = run (\<lambda>_ _ _. None) 0 counted [IntV 2] ()"
proof -
  obtain func' where f: "ConvertFunction plain_params 4 counted = Inr func'"
    using counted_converts by (cases "ConvertFunction plain_params 4 counted") auto
  have "run (\<lambda>_ _ _. None) 0 func' [IntV 2 :: unit val] () = run (\<lambda>_ _ _. None) 0 counted [IntV 2] ()"
  proof (rule ConvertFunction_exec [OF f plain_params_orders])
    show "init (body counted) (var_id ` set (params counted)) {} \<noteq> None" by code_simp
    show "\<forall>i\<in>#ids (params counted) + defs (body counted). i < 4" by (simp add: counted_def Let_def)
    show "distinct (map var_id (params counted))" "length [IntV 2 :: unit val] = length (params counted)"
      by (simp_all add: counted_def Let_def)
  qed
  with f show ?thesis by blast
qed

section \<open>Examples, and inputs that are not initialised this way\<close>

definition vn :: "nat \<Rightarrow> Var" where
  "vn i = \<lparr>var_id = i, name_hint = [], var_type = 0\<rparr>"

definition up_to :: "Var \<Rightarrow> int \<Rightarrow> unit ForHead" where
  "up_to i n = \<lparr>for_kind = Sequential, hardware_loop_policy = Auto, loop_var = i, for_start = ConstInt 0,
     for_stop = ConstInt n, for_step = ConstInt 1\<rparr>"

text \<open>A sum in a loop is definitely initialised.\<close>

definition summed :: "unit Function" where
  "summed = \<lparr>params = [vn 0], body = SeqStmts
     [AssignStmt (vn 1) (ConstInt 0),
      ForStmt (up_to (vn 2) 3) []
        (IfStmt (Lt (EVar (vn 2)) (EVar (vn 0))) (AssignStmt (vn 1) (Add (EVar (vn 1)) (EVar (vn 2)))) None []) [],
      ReturnStmt [EVar (vn 1)]]\<rparr>"

lemma summed_converts: "\<exists>func'. ConvertFunction plain_params 3 summed = Inr func'"
  by (simp add: ssa_compute summed_def up_to_def vn_def cong: res_bind_weak_cong let_weak_cong del: res_bind_eq_Inr)

lemma ConvertFunction_definite_witness:
  "\<exists>func'. ConvertFunction plain_params 3 summed = Inr func' \<and>
    run (\<lambda>_ _ _. None) 1 func' [IntV 3 :: unit val] () = run (\<lambda>_ _ _. None) 1 summed [IntV 3] ()"
proof -
  obtain func' where f: "ConvertFunction plain_params 3 summed = Inr func'" using summed_converts by blast
  have "run (\<lambda>_ _ _. None) 1 func' [IntV 3 :: unit val] () = run (\<lambda>_ _ _. None) 1 summed [IntV 3] ()"
  proof (rule ConvertFunction_definite [OF f plain_params_orders])
    show "definite (body summed) (var_id ` set (params summed)) \<noteq> None" by code_simp
    show "\<forall>i\<in>#ids (params summed) + defs (body summed). i < 3" by (simp add: summed_def up_to_def vn_def)
    show "distinct (map var_id (params summed))" "length [IntV 3 :: unit val] = length (params summed)"
      by (simp_all add: summed_def)
  qed
  with f show ?thesis by blast
qed

text \<open>
  The variable 1 is initialised by a loop and read at the end; between them a branch assigns it too. The live-in
  analysis takes the branch for a definition, so the value does not escape from the loop.
\<close>

definition hidden_need :: "unit Function" where
  "hidden_need = \<lparr>params = [vn 0], body = SeqStmts
     [ForStmt (up_to (vn 2) 2) [] (AssignStmt (vn 1) (EVar (vn 2))) [],
      IfStmt (Lt (EVar (vn 0)) (ConstInt 1)) (AssignStmt (vn 1) (ConstInt 5)) None [],
      ReturnStmt [EVar (vn 1)]]\<rparr>"

definition hidden_need_ssa :: "unit Function" where
  "hidden_need_ssa = \<lparr>params = [vn 5], body = SeqStmts
     [ForStmt (up_to (vn 6) 2) [] (AssignStmt (vn 7) (EVar (vn 6))) [],
      IfStmt (Lt (EVar (vn 5)) (ConstInt 1)) (AssignStmt (vn 8) (ConstInt 5)) None [],
      ReturnStmt [EVar (vn 1)]]\<rparr>"

text \<open>
  The inner loop sets the variable 4 in the first iteration of the outer loop only. The pass carries it in the
  inner loop alone, from the start value of some variable of the same type: here the parameter.
\<close>

definition stale :: "unit Function" where
  "stale = \<lparr>params = [vn 0], body = SeqStmts
     [AssignStmt (vn 1) (ConstInt 0),
      ForStmt (up_to (vn 2) 2) []
        (SeqStmts [ForStmt (up_to (vn 3) 1) []
             (IfStmt (Lt (EVar (vn 2)) (ConstInt 1)) (AssignStmt (vn 4) (ConstInt 5)) None []) [],
           AssignStmt (vn 1) (EVar (vn 4))]) [],
      ReturnStmt [EVar (vn 1)]]\<rparr>"

definition stale_ssa :: "unit Function" where
  "stale_ssa = \<lparr>params = [vn 5], body = SeqStmts
     [AssignStmt (vn 6) (ConstInt 0),
      ForStmt (up_to (vn 9) 2) [(vn 7, EVar (vn 6))]
        (SeqStmts [ForStmt (up_to (vn 12) 1) [(vn 10, EVar (vn 5))]
             (SeqStmts [IfStmt (Lt (EVar (vn 9)) (ConstInt 1))
                 (SeqStmts [AssignStmt (vn 13) (ConstInt 5), YieldStmt [EVar (vn 13)]]) (Some (YieldStmt [EVar (vn 10)]))
                 [vn 14],
               YieldStmt [EVar (vn 14)]]) [vn 11],
           AssignStmt (vn 15) (EVar (vn 11)), YieldStmt [EVar (vn 15)]]) [vn 8],
      ReturnStmt [EVar (vn 8)]]\<rparr>"

lemma hidden_need_converts: "ConvertFunction plain_params 5 hidden_need = Inr hidden_need_ssa"
  by (simp add: ssa_compute hidden_need_def hidden_need_ssa_def up_to_def vn_def cong: res_bind_weak_cong let_weak_cong
      del: res_bind_eq_Inr)

lemma stale_converts: "ConvertFunction plain_params 5 stale = Inr stale_ssa"
  by (simp add: ssa_compute stale_def stale_ssa_def up_to_def vn_def cong: res_bind_weak_cong let_weak_cong
      del: res_bind_eq_Inr)

lemma two_steps: "range_values 0 2 1 = [0, 1]" "range_values 0 1 1 = [0]"
  by (simp_all add: range_values_def up_range.simps)

lemmas run_compute = run_def up_to_def vn_def for_bounds_def two_steps set_var_def on_ints_def loop_step_def
  finish_def branch_end_def restore_def

text \<open>
  A variable that a loop initialises and a branch reassigns before it is read is lost: the converted
  function reads the original variable, which nothing defines, where the input returns the value of the loop.
\<close>

lemma hidden_need_lost:
  "ConvertFunction plain_params 5 hidden_need = Inr hidden_need_ssa \<and>
   run (\<lambda>_ _ _. None) 0 hidden_need [IntV 3 :: unit val] () = Returns [IntV 1] () \<and>
   run (\<lambda>_ _ _. None) 0 hidden_need_ssa [IntV 3 :: unit val] () = Fault"
  by (simp add: hidden_need_converts, simp add: run_compute hidden_need_def hidden_need_ssa_def)

text \<open>
  A value that survives from one iteration of an outer loop to the next in a variable the inner loop
  assigns conditionally is replaced by an unrelated one: the input returns 5, the converted function its argument.
\<close>

lemma stale_value_replaced:
  "ConvertFunction plain_params 5 stale = Inr stale_ssa \<and>
   run (\<lambda>_ _ _. None) 0 stale [IntV n :: unit val] () = Returns [IntV 5] () \<and>
   run (\<lambda>_ _ _. None) 0 stale_ssa [IntV n :: unit val] () = Returns [IntV n] ()"
  by (simp add: stale_converts, simp add: run_compute stale_def stale_ssa_def)

end
