(* ===== verification/Ssa_Verify.thy ===== *)
theory Ssa_Verify
  imports Ssa_Sim
begin

text \<open>
  The verifier of SSA form (\<^verbatim>\<open>src/ir/verifier/verify_ssa_pass.cpp\<close>): that no variable is assigned twice or read
  outside the scope of its definition, and that loops and branches with returned variables end in yields
  of as many values. A diagnostic is its type with the variable its message names; the rest of the message
  and the span are left out.

  Each kind of diagnostic is reported exactly where the structure of the statements calls for it.
  What the verifier accepts is safe: no run of an accepted function reads a variable before it has been given a
  value. And it accepts what the conversion to SSA form builds, up to start values that the conversion makes up.
\<close>

section \<open>The verifier\<close>

datatype ErrorType =
    MULTIPLE_ASSIGNMENT
  | NAME_SHADOWING
  | MISSING_YIELD
  | ITER_ARGS_RETURN_VARS_MISMATCH
  | YIELD_COUNT_MISMATCH
  | SCOPE_VIOLATION
  | MISPLACED_YIELD

type_synonym Diagnostic = "ErrorType \<times> Var option"

text \<open>
  The most recent scope and the most recent definition in it come first. The variables in a type are parameters: those
  the visitor meets in the shape of a tensor type, and all those of a type. Reading an
  iteration argument also visits its start value: that reports again what the header of its loop reports.
\<close>

record TypeVars =
  shape_vars :: "nat \<Rightarrow> Var list"
  CollectTypeVars :: "nat \<Rightarrow> Var list"

record SSAVerifier =
  diagnostics :: "Diagnostic list"
  var_assignment_count :: "nat \<Rightarrow> nat"
  active_definition_levels :: "nat \<rightharpoonup> nat"
  scope_stack :: "(nat \<times> nat option) list list"

definition RecordError :: "ErrorType \<Rightarrow> Var option \<Rightarrow> SSAVerifier \<Rightarrow> SSAVerifier" where
  "RecordError t x v = v\<lparr>diagnostics := diagnostics v @ [(t, x)]\<rparr>"

definition DefineVarPointer :: "Var \<Rightarrow> SSAVerifier \<Rightarrow> SSAVerifier" where
  "DefineVarPointer x v =
     (case scope_stack v of
        [] \<Rightarrow> v
      | scope # outer \<Rightarrow>
          let level = length (scope_stack v) - 1; found = active_definition_levels v (var_id x) in
          if found = Some level then v
          else v\<lparr>scope_stack := ((var_id x, found) # scope) # outer,
                 active_definition_levels := (active_definition_levels v)(var_id x \<mapsto> level)\<rparr>)"

definition RegisterTypeVars :: "TypeVars \<Rightarrow> nat \<Rightarrow> SSAVerifier \<Rightarrow> SSAVerifier" where
  "RegisterTypeVars T ty v = (if scope_stack v = [] then v else fold DefineVarPointer (CollectTypeVars T ty) v)"

definition IsVarInScope :: "Var \<Rightarrow> SSAVerifier \<Rightarrow> bool" where
  "IsVarInScope x v \<longleftrightarrow> active_definition_levels v (var_id x) \<noteq> None"

definition EnterScope :: "SSAVerifier \<Rightarrow> SSAVerifier" where
  "EnterScope v = v\<lparr>scope_stack := [] # scope_stack v\<rparr>"

fun restore_levels :: "(nat \<times> nat option) list \<Rightarrow> (nat \<rightharpoonup> nat) \<Rightarrow> (nat \<rightharpoonup> nat)" where
  "restore_levels [] m = m"
| "restore_levels ((i, Some previous) # ds) m = restore_levels ds (m(i \<mapsto> previous))"
| "restore_levels ((i, None) # ds) m = restore_levels ds (m(i := None))"

definition ExitScope :: "SSAVerifier \<Rightarrow> SSAVerifier" where
  "ExitScope v =
     (case scope_stack v of
        scope # outer # stack \<Rightarrow>
          v\<lparr>active_definition_levels := restore_levels scope (active_definition_levels v), scope_stack := outer # stack\<rparr>
      | _ \<Rightarrow> v)"

definition check_in_scope :: "Var \<Rightarrow> SSAVerifier \<Rightarrow> SSAVerifier" where
  "check_in_scope x v = (if IsVarInScope x v then v else RecordError SCOPE_VIOLATION (Some x) v)"

definition VisitVarLike :: "TypeVars \<Rightarrow> Var \<Rightarrow> SSAVerifier \<Rightarrow> SSAVerifier" where
  "VisitVarLike T x v = fold check_in_scope (shape_vars T (var_type x)) (check_in_scope x v)"

definition CheckVariableAssignment :: "Var \<Rightarrow> SSAVerifier \<Rightarrow> SSAVerifier" where
  "CheckVariableAssignment x v =
     (let n = var_assignment_count v (var_id x) + 1;
          v = v\<lparr>var_assignment_count := (var_assignment_count v)(var_id x := n)\<rparr> in
      if n > 1 then RecordError MULTIPLE_ASSIGNMENT (Some x) v else v)"

function (sequential) GetLastStmt :: "'o Stmt \<Rightarrow> 'o Stmt" where
  "GetLastStmt (SeqStmts ss) = (if ss = [] then SeqStmts ss else GetLastStmt (last ss))"
| "GetLastStmt (ScopeStmt k n B) = (if transparent k then GetLastStmt B else ScopeStmt k n B)"
| "GetLastStmt s = s"
  by pat_completeness auto
termination
  by (relation "measure size") (auto simp: size_list_estimation' less_Suc_eq_le dest: last_in_set)

definition is_yield :: "'o Stmt \<Rightarrow> bool" where
  "is_yield s \<longleftrightarrow> (case s of YieldStmt _ \<Rightarrow> True | _ \<Rightarrow> False)"

text \<open>Whether \<open>CheckNoMidBodyYield\<close> reports; it does so at most once.\<close>

function (sequential) CheckNoMidBodyYield :: "'o Stmt \<Rightarrow> bool" where
  "CheckNoMidBodyYield (ScopeStmt k n B) = (transparent k \<and> CheckNoMidBodyYield B)"
| "CheckNoMidBodyYield (SeqStmts ss) =
     ((\<exists>s\<in>set (butlast ss). is_yield s) \<or> (if ss = [] then False else CheckNoMidBodyYield (last ss)))"
| "CheckNoMidBodyYield s = False"
  by pat_completeness auto
termination
  by (relation "measure size") (auto simp: size_list_estimation' less_Suc_eq_le dest: last_in_set)

definition verify_yield :: "nat \<Rightarrow> 'o Stmt \<Rightarrow> ErrorType list" where
  "verify_yield n B =
     (case GetLastStmt B of
        YieldStmt es \<Rightarrow>
          if length es \<noteq> n then [YIELD_COUNT_MISMATCH] else if CheckNoMidBodyYield B then [MISPLACED_YIELD] else []
      | _ \<Rightarrow> [MISSING_YIELD])"

definition VerifyLoopIterArgsAndYield :: "nat \<Rightarrow> nat \<Rightarrow> 'o Stmt \<Rightarrow> ErrorType list" where
  "VerifyLoopIterArgsAndYield iter_args_size return_vars_size B =
     (if iter_args_size \<noteq> return_vars_size then [ITER_ARGS_RETURN_VARS_MISMATCH] else []) @
     (if iter_args_size > 0 then verify_yield iter_args_size B else [])"

definition VerifyIfStmt :: "'o Stmt \<Rightarrow> 'o Stmt option \<Rightarrow> Var list \<Rightarrow> ErrorType list" where
  "VerifyIfStmt a b rvs =
     (if rvs = [] then []
      else case b of
        None \<Rightarrow> [MISSING_YIELD]
      | Some b \<Rightarrow> verify_yield (length rvs) a @ verify_yield (length rvs) b)"

definition record_errors :: "ErrorType list \<Rightarrow> SSAVerifier \<Rightarrow> SSAVerifier" where
  "record_errors ts = fold (\<lambda>t. RecordError t None) ts"

definition VisitExpr :: "TypeVars \<Rightarrow> 'o Expr \<Rightarrow> SSAVerifier \<Rightarrow> SSAVerifier" where
  "VisitExpr T e = fold (VisitVarLike T) (expr_vars e)"

fun VisitStmt :: "TypeVars \<Rightarrow> 'o Stmt \<Rightarrow> SSAVerifier \<Rightarrow> SSAVerifier" where
  "VisitStmt T (AssignStmt x e) v =
     (let v = VisitExpr T e v; v = CheckVariableAssignment x v; v = DefineVarPointer x v in
      RegisterTypeVars T (var_type x) v)"
| "VisitStmt T (ForStmt h ias B rvs) v =
     (let v = fold CheckVariableAssignment rvs v;
          v = VisitExpr T (for_start h) v; v = VisitExpr T (for_stop h) v; v = VisitExpr T (for_step h) v;
          v = fold (VisitExpr T) (map snd ias) v;
          v = DefineVarPointer (loop_var h) (EnterScope v);
          v = fold DefineVarPointer (map fst ias) v;
          v = ExitScope (VisitStmt T B v);
          v = record_errors (VerifyLoopIterArgsAndYield (length ias) (length rvs) B) v in
      fold DefineVarPointer rvs v)"
| "VisitStmt T (WhileStmt c ias B rvs) v =
     (let v = fold CheckVariableAssignment rvs v;
          v = fold (VisitExpr T) (map snd ias) v;
          v = fold DefineVarPointer (map fst ias) (EnterScope v);
          v = VisitExpr T c v;
          v = ExitScope (VisitStmt T B v);
          v = record_errors (VerifyLoopIterArgsAndYield (length ias) (length rvs) B) v in
      fold DefineVarPointer rvs v)"
| "VisitStmt T (IfStmt c a b rvs) v =
     (let v = fold CheckVariableAssignment rvs v;
          v = VisitExpr T c v;
          v = ExitScope (VisitStmt T a (EnterScope v));
          v = (case b of None \<Rightarrow> v | Some b \<Rightarrow> ExitScope (VisitStmt T b (EnterScope v)));
          v = record_errors (VerifyIfStmt a b rvs) v in
      fold DefineVarPointer rvs v)"
| "VisitStmt T (YieldStmt es) v = fold (VisitExpr T) es v"
| "VisitStmt T (ReturnStmt es) v = fold (VisitExpr T) es v"
| "VisitStmt T (EvalStmt e) v = VisitExpr T e v"
| "VisitStmt T (ScopeStmt k n B) v = VisitStmt T B (case n of None \<Rightarrow> v | Some e \<Rightarrow> VisitExpr T e v)"
| "VisitStmt T (SeqStmts ss) v = fold (VisitStmt T) ss v"
| "VisitStmt T BreakStmt v = v"
| "VisitStmt T ContinueStmt v = v"

definition RegisterParams :: "TypeVars \<Rightarrow> Var list \<Rightarrow> SSAVerifier \<Rightarrow> SSAVerifier" where
  "RegisterParams T = fold (\<lambda>x v. RegisterTypeVars T (var_type x) (DefineVarPointer x v))"

definition new_verifier :: SSAVerifier where
  "new_verifier = \<lparr>diagnostics = [], var_assignment_count = (\<lambda>_. 0), active_definition_levels = Map.empty,
     scope_stack = [[]]\<rparr>"

definition Verify :: "TypeVars \<Rightarrow> nat list \<Rightarrow> 'o Function \<Rightarrow> Diagnostic list" where
  "Verify T return_types func =
     diagnostics (VisitStmt T (body func)
       (fold (RegisterTypeVars T) return_types (RegisterParams T (params func) new_verifier)))"

section \<open>What it reports, by the structure of the statement\<close>

text \<open>The variables that a statement adds to the scope it is in, and those it reads outside their scope.\<close>

fun binds :: "TypeVars \<Rightarrow> 'o Stmt \<Rightarrow> nat set" where
  "binds T (AssignStmt x e) = insert (var_id x) (var_id ` set (CollectTypeVars T (var_type x)))"
| "binds T (ForStmt h ias B rvs) = var_id ` set rvs"
| "binds T (WhileStmt c ias B rvs) = var_id ` set rvs"
| "binds T (IfStmt c a b rvs) = var_id ` set rvs"
| "binds T (ScopeStmt k n B) = binds T B"
| "binds T (SeqStmts ss) = (\<Union>s\<in>set ss. binds T s)"
| "binds T _ = {}"

definition met :: "TypeVars \<Rightarrow> 'o Expr list \<Rightarrow> Var list" where
  "met T es = concat (map (\<lambda>x. x # shape_vars T (var_type x)) (concat (map expr_vars es)))"

definition unbound :: "TypeVars \<Rightarrow> nat set \<Rightarrow> 'o Expr list \<Rightarrow> Var set" where
  "unbound T S es = {x \<in> set (met T es). var_id x \<notin> S}"

fun violations :: "TypeVars \<Rightarrow> nat set \<Rightarrow> 'o Stmt \<Rightarrow> Var set"
  and seq_violations :: "TypeVars \<Rightarrow> nat set \<Rightarrow> 'o Stmt list \<Rightarrow> Var set" where
  "violations T S (AssignStmt x e) = unbound T S [e]"
| "violations T S (ForStmt h ias B rvs) =
     unbound T S ([for_start h, for_stop h, for_step h] @ map snd ias) \<union>
     violations T (S \<union> var_id ` set (loop_var h # map fst ias)) B"
| "violations T S (WhileStmt c ias B rvs) =
     unbound T S (map snd ias) \<union> unbound T (S \<union> var_id ` set (map fst ias)) [c] \<union>
     violations T (S \<union> var_id ` set (map fst ias)) B"
| "violations T S (IfStmt c a b rvs) =
     unbound T S [c] \<union> violations T S a \<union> (case b of None \<Rightarrow> {} | Some b \<Rightarrow> violations T S b)"
| "violations T S (YieldStmt es) = unbound T S es"
| "violations T S (ReturnStmt es) = unbound T S es"
| "violations T S (EvalStmt e) = unbound T S [e]"
| "violations T S (ScopeStmt k n B) = (case n of None \<Rightarrow> {} | Some e \<Rightarrow> unbound T S [e]) \<union> violations T S B"
| "violations T S (SeqStmts ss) = seq_violations T S ss"
| "violations T S BreakStmt = {}"
| "violations T S ContinueStmt = {}"
| "seq_violations T S [] = {}"
| "seq_violations T S (s # ss) = violations T S s \<union> seq_violations T (S \<union> binds T s) ss"

text \<open>The definitions that are counted, and the errors about yields.\<close>

fun counted_defs :: "'o Stmt \<Rightarrow> nat multiset" where
  "counted_defs (AssignStmt x e) = {#var_id x#}"
| "counted_defs (ForStmt h ias B rvs) = ids rvs + counted_defs B"
| "counted_defs (WhileStmt c ias B rvs) = ids rvs + counted_defs B"
| "counted_defs (IfStmt c a b rvs) = ids rvs + counted_defs a + (case b of None \<Rightarrow> {#} | Some b \<Rightarrow> counted_defs b)"
| "counted_defs (ScopeStmt k n B) = counted_defs B"
| "counted_defs (SeqStmts ss) = sum_list (map counted_defs ss)"
| "counted_defs _ = {#}"

fun yield_errors :: "'o Stmt \<Rightarrow> ErrorType set" where
  "yield_errors (ForStmt h ias B rvs) =
     yield_errors B \<union> set (VerifyLoopIterArgsAndYield (length ias) (length rvs) B)"
| "yield_errors (WhileStmt c ias B rvs) =
     yield_errors B \<union> set (VerifyLoopIterArgsAndYield (length ias) (length rvs) B)"
| "yield_errors (IfStmt c a b rvs) =
     yield_errors a \<union> (case b of None \<Rightarrow> {} | Some b \<Rightarrow> yield_errors b) \<union> set (VerifyIfStmt a b rvs)"
| "yield_errors (ScopeStmt k n B) = yield_errors B"
| "yield_errors (SeqStmts ss) = (\<Union>s\<in>set ss. yield_errors s)"
| "yield_errors _ = {}"


section \<open>The verifier reports just that\<close>

text \<open>
  From one state to another: the errors \<open>D\<close> are reported, the definitions \<open>M\<close> are counted and those that are not
  the first of their variable reported, and the variables \<open>X\<close> are added to the innermost scope, which leaving it undoes.
\<close>

definition entered :: "SSAVerifier \<Rightarrow> SSAVerifier \<Rightarrow> bool" where
  "entered v v' \<longleftrightarrow>
     (\<exists>ds scope outer. scope_stack v = scope # outer \<and> scope_stack v' = (ds @ scope) # outer \<and>
       restore_levels ds (active_definition_levels v') = active_definition_levels v)"

abbreviation visible :: "SSAVerifier \<Rightarrow> nat set" where
  "visible v \<equiv> dom (active_definition_levels v)"

definition repeated :: "SSAVerifier \<Rightarrow> nat multiset \<Rightarrow> nat set" where
  "repeated v M = {i. i \<in># M \<and> var_assignment_count v i + count M i > 1}"

definition advances :: "SSAVerifier \<Rightarrow> Diagnostic set \<Rightarrow> nat multiset \<Rightarrow> nat set \<Rightarrow> SSAVerifier \<Rightarrow> bool" where
  "advances v D M X v' \<longleftrightarrow>
     entered v v' \<and> visible v' = visible v \<union> X \<and>
     (\<forall>i. var_assignment_count v' i = var_assignment_count v i + count M i) \<and>
     set (diagnostics v) \<union> D \<subseteq> set (diagnostics v') \<and>
     set (diagnostics v') \<subseteq> set (diagnostics v) \<union> D \<union> {(MULTIPLE_ASSIGNMENT, Some x) |x. var_id x \<in> repeated v M} \<and>
     (\<forall>i\<in>repeated v M. \<exists>x. var_id x = i \<and> (MULTIPLE_ASSIGNMENT, Some x) \<in> set (diagnostics v'))"

lemma restore_levels_append: "restore_levels (ds @ es) m = restore_levels es (restore_levels ds m)"
  by (induction ds m rule: restore_levels.induct) (simp_all del: fun_upd_apply fun_upd_def add: fun_upd_def [symmetric])

lemma entered_refl: "scope_stack v \<noteq> [] \<Longrightarrow> entered v v"
  by (auto simp: entered_def neq_Nil_conv intro: exI [of _ "[]"])

lemma entered_trans: "entered v v1 \<Longrightarrow> entered v1 v2 \<Longrightarrow> entered v v2"
  by (auto simp: entered_def restore_levels_append)

lemma entered_stack: "entered v v' \<Longrightarrow> scope_stack v \<noteq> [] \<and> scope_stack v' \<noteq> []"
  by (auto simp: entered_def)

lemma advances_refl: "scope_stack v \<noteq> [] \<Longrightarrow> advances v {} {#} {} v"
  by (simp add: advances_def entered_refl repeated_def)

lemma advances_stack: "advances v D M X v' \<Longrightarrow> scope_stack v \<noteq> [] \<and> scope_stack v' \<noteq> []"
  by (auto simp: advances_def dest: entered_stack)

lemma advances_visible: "advances v D M X v' \<Longrightarrow> visible v' = visible v \<union> X"
  by (simp add: advances_def)

lemma advancesD:
  assumes "advances v D M X v'"
  shows "entered v v'" and "visible v' = visible v \<union> X"
    and "var_assignment_count v' i = var_assignment_count v i + count M i"
    and "set (diagnostics v) \<subseteq> set (diagnostics v')" and "D \<subseteq> set (diagnostics v')"
    and "set (diagnostics v') \<subseteq> set (diagnostics v) \<union> D \<union> {(MULTIPLE_ASSIGNMENT, Some x) |x. var_id x \<in> repeated v M}"
    and "j \<in> repeated v M \<Longrightarrow> \<exists>x. var_id x = j \<and> (MULTIPLE_ASSIGNMENT, Some x) \<in> set (diagnostics v')"
  using assms unfolding advances_def by (simp_all only: Un_subset_iff)

lemma advances_trans:
  assumes "advances v D M X v1" "advances v1 E N Y v2"
  shows "advances v (D \<union> E) (M + N) (X \<union> Y) v2"
  unfolding advances_def
proof (intro conjI)
  note 1 = advancesD [OF assms(1)] and 2 = advancesD [OF assms(2)]
  have r: "repeated v (M + N) = repeated v M \<union> repeated v1 N"
    unfolding repeated_def 1(3) set_eq_iff Un_iff mem_Collect_eq count_greater_zero_iff [symmetric] count_union by arith
  show "entered v v2" using entered_trans 1(1) 2(1) .
  show "visible v2 = visible v \<union> (X \<union> Y)" using 1(2) 2(2) by (simp add: Un_assoc)
  show "\<forall>i. var_assignment_count v2 i = var_assignment_count v i + count (M + N) i" by (simp add: 1(3) 2(3))
  show "set (diagnostics v) \<union> (D \<union> E) \<subseteq> set (diagnostics v2)" using 1(4,5) 2(4,5) by fast
  show "\<forall>i\<in>repeated v (M + N). \<exists>x. var_id x = i \<and> (MULTIPLE_ASSIGNMENT, Some x) \<in> set (diagnostics v2)"
  proof
    fix i
    assume "i \<in> repeated v (M + N)"
    then consider "i \<in> repeated v M" | "i \<in> repeated v1 N" unfolding r by blast
    then show "\<exists>x. var_id x = i \<and> (MULTIPLE_ASSIGNMENT, Some x) \<in> set (diagnostics v2)"
      by cases (use 1(7) 2(4,7) in fast)+
  qed
  show "set (diagnostics v2) \<subseteq> set (diagnostics v) \<union> (D \<union> E) \<union>
      {(MULTIPLE_ASSIGNMENT, Some x) |x. var_id x \<in> repeated v (M + N)}"
  proof
    fix d
    assume "d \<in> set (diagnostics v2)"
    with 2(6) have "d \<in> set (diagnostics v1) \<or> d \<in> E \<or> d \<in> {(MULTIPLE_ASSIGNMENT, Some x) |x. var_id x \<in> repeated v1 N}" by fast
    with 1(6) show "d \<in> set (diagnostics v) \<union> (D \<union> E) \<union>
      {(MULTIPLE_ASSIGNMENT, Some x) |x. var_id x \<in> repeated v (M + N)}" unfolding r by fast
  qed
qed

text \<open>Each step of the verifier.\<close>

abbreviation scope_errors :: "Var set \<Rightarrow> Diagnostic set" where
  "scope_errors A \<equiv> (\<lambda>x. (SCOPE_VIOLATION, Some x)) ` A"

abbreviation other_errors :: "ErrorType set \<Rightarrow> Diagnostic set" where
  "other_errors E \<equiv> (\<lambda>t. (t, None)) ` E"

lemma advances_fold:
  assumes "\<And>x v. scope_stack v \<noteq> [] \<Longrightarrow> advances v (D x) (M x) (X x) (f x v)" and "scope_stack v \<noteq> []"
  shows "advances v (\<Union>x\<in>set xs. D x) (sum_list (map M xs)) (\<Union>x\<in>set xs. X x) (fold f xs v)"
  using assms(2)
proof (induction xs arbitrary: v)
  case (Cons x xs)
  from assms(1) [OF Cons.prems] have x: "advances v (D x) (M x) (X x) (f x v)" .
  from advances_trans [OF x Cons.IH] advances_stack [OF x] show ?case by simp
qed (simp add: advances_refl)

lemma repeated_none [simp]: "repeated v {#} = {}"
  by (simp add: repeated_def)

lemma advances_record: "scope_stack v \<noteq> [] \<Longrightarrow> advances v {(t, x)} {#} {} (RecordError t x v)"
  by (auto simp: advances_def RecordError_def entered_def neq_Nil_conv intro: exI [of _ "[]"])

lemma advances_records: "scope_stack v \<noteq> [] \<Longrightarrow> advances v (other_errors (set ts)) {#} {} (record_errors ts v)"
  using advances_fold [where D = "\<lambda>t. {(t, None)}" and M = "\<lambda>_. {#}" and X = "\<lambda>_. {}", OF advances_record, of v ts]
  by (simp add: record_errors_def UNION_singleton_eq_range)

lemma advances_define:
  assumes "scope_stack v \<noteq> []"
  shows "advances v {} {#} {var_id x} (DefineVarPointer x v)"
proof -
  have undo: "restore_levels [(i, m i)] (m(i := l)) = m" for i and m :: "nat \<rightharpoonup> nat" and l by (cases "m i") auto
  show ?thesis
  proof (cases "active_definition_levels v (var_id x) = Some (length (scope_stack v) - 1)")
    case True
    then have "DefineVarPointer x v = v" "visible v \<union> {var_id x} = visible v" using assms
      by (auto simp: DefineVarPointer_def neq_Nil_conv)
    then show ?thesis using advances_refl [OF assms] by (simp add: advances_def)
  next
    case False
    obtain scope outer where stack: "scope_stack v = scope # outer" using assms by (auto simp: neq_Nil_conv)
    with False have d: "DefineVarPointer x v =
        v\<lparr>scope_stack := ((var_id x, active_definition_levels v (var_id x)) # scope) # outer,
          active_definition_levels := (active_definition_levels v)(var_id x \<mapsto> length outer)\<rparr>"
      by (simp add: DefineVarPointer_def)
    have "entered v (DefineVarPointer x v)"
      using undo [where m = "active_definition_levels v" and i = "var_id x"]
      by (auto simp: entered_def d stack simp del: restore_levels.simps)
    then show ?thesis by (simp add: advances_def d)
  qed
qed

lemma advances_defines: "scope_stack v \<noteq> [] \<Longrightarrow> advances v {} {#} (var_id ` set xs) (fold DefineVarPointer xs v)"
  using advances_fold [where D = "\<lambda>_. {}" and M = "\<lambda>_. {#}" and X = "\<lambda>x. {var_id x}", OF advances_define, of v xs]
  by (simp add: UNION_singleton_eq_range)

lemma advances_types: "scope_stack v \<noteq> [] \<Longrightarrow> advances v {} {#} (var_id ` set (CollectTypeVars T t)) (RegisterTypeVars T t v)"
  by (simp add: RegisterTypeVars_def advances_defines)

lemma advances_count: "scope_stack v \<noteq> [] \<Longrightarrow> advances v {} {#var_id x#} {} (CheckVariableAssignment x v)"
  by (auto simp: advances_def CheckVariableAssignment_def RecordError_def Let_def repeated_def entered_def neq_Nil_conv
      intro: exI [of _ "[]"])

lemma advances_counts: "scope_stack v \<noteq> [] \<Longrightarrow> advances v {} (ids xs) {} (fold CheckVariableAssignment xs v)"
proof -
  have "sum_list (map (\<lambda>x. {#var_id x#}) xs) = ids xs" by (induction xs) simp_all
  then show "scope_stack v \<noteq> [] \<Longrightarrow> ?thesis"
    using advances_fold [where D = "\<lambda>_. {}" and M = "\<lambda>x. {#var_id x#}" and X = "\<lambda>_. {}", OF advances_count, of v xs] by simp
qed

lemma advances_check:
  "scope_stack v \<noteq> [] \<Longrightarrow> advances v (scope_errors {x \<in> set xs. var_id x \<notin> visible v}) {#} {} (fold check_in_scope xs v)"
proof (induction xs arbitrary: v)
  case (Cons x xs)
  show ?case
  proof (cases "var_id x \<in> visible v")
    case True
    then have "check_in_scope x v = v" by (auto simp: check_in_scope_def IsVarInScope_def)
    moreover have "{y \<in> set (x # xs). var_id y \<notin> visible v} = {y \<in> set xs. var_id y \<notin> visible v}" using True by auto
    ultimately show ?thesis using Cons.IH [OF Cons.prems] by simp
  next
    case False
    then have x: "check_in_scope x v = RecordError SCOPE_VIOLATION (Some x) v" by (auto simp: check_in_scope_def IsVarInScope_def)
    have r: "visible (RecordError SCOPE_VIOLATION (Some x) v) = visible v" by (simp add: RecordError_def)
    have "{y \<in> set (x # xs). var_id y \<notin> visible v} = insert x {y \<in> set xs. var_id y \<notin> visible v}" using False by auto
    moreover note advances_record [OF Cons.prems, of SCOPE_VIOLATION "Some x"]
    ultimately show ?thesis
      using advances_trans [OF _ Cons.IH, of v "{(SCOPE_VIOLATION, Some x)}" "{#}" "{}" "RecordError SCOPE_VIOLATION (Some x) v"]
        advances_stack by (simp only: x r fold_simps) (simp add: r advances_stack)
  qed
qed (simp add: advances_refl)

lemma fold_concat_map: "fold f (concat (map g xs)) v = fold (\<lambda>x. fold f (g x)) xs v"
  by (induction xs arbitrary: v) simp_all

lemma advances_exprs:
  "scope_stack v \<noteq> [] \<Longrightarrow> advances v (scope_errors (unbound T (visible v) es)) {#} {} (fold (VisitExpr T) es v)"
proof -
  have "fold check_in_scope (x # shape_vars T (var_type x)) = VisitVarLike T x" for x
    by (simp add: fun_eq_iff VisitVarLike_def)
  then have "fold (VisitExpr T) es v = fold check_in_scope (met T es) v"
    unfolding met_def fold_concat_map VisitExpr_def by simp
  then show "scope_stack v \<noteq> [] \<Longrightarrow> ?thesis" using advances_check [of v "met T es"] by (simp add: unbound_def)
qed

lemma advances_scope:
  assumes "advances (EnterScope v) D M X v'" "scope_stack v \<noteq> []"
  shows "advances v D M {} (ExitScope v')"
proof -
  from advancesD(1) [OF assms(1)] obtain ds where ds: "scope_stack v' = ds # scope_stack v"
      "restore_levels ds (active_definition_levels v') = active_definition_levels v"
    by (auto simp: entered_def EnterScope_def)
  with assms(2) have e: "ExitScope v' = v'\<lparr>active_definition_levels := active_definition_levels v, scope_stack := scope_stack v\<rparr>"
    by (auto simp: ExitScope_def neq_Nil_conv)
  have "entered v (ExitScope v')" using entered_refl [OF assms(2)] by (simp add: e entered_def)
  then show ?thesis using assms(1) by (simp add: advances_def e EnterScope_def repeated_def)
qed

lemma advances_eq: "advances v D M X v' \<Longrightarrow> D = D' \<Longrightarrow> M = M' \<Longrightarrow> X = X' \<Longrightarrow> advances v D' M' X' v'"
  by simp

definition errors :: "TypeVars \<Rightarrow> nat set \<Rightarrow> 'o Stmt \<Rightarrow> Diagnostic set" where
  "errors T S s = scope_errors (violations T S s) \<union> other_errors (yield_errors s)"

lemma VisitSeq_advances:
  assumes "\<And>s v. s \<in> set ss \<Longrightarrow> scope_stack v \<noteq> [] \<Longrightarrow>
      advances v (errors T (visible v) s) (counted_defs s) (binds T s) (VisitStmt T s v)"
    and "scope_stack v \<noteq> []"
  shows "advances v (errors T (visible v) (SeqStmts ss)) (counted_defs (SeqStmts ss)) (binds T (SeqStmts ss))
    (VisitStmt T (SeqStmts ss) v)"
  using assms
proof (induction ss arbitrary: v)
  case (Cons s ss)
  have s: "advances v (errors T (visible v) s) (counted_defs s) (binds T s) (VisitStmt T s v)"
    by (rule Cons.prems(1)) (use Cons.prems(2) in simp_all)
  have "advances (VisitStmt T s v) (errors T (visible (VisitStmt T s v)) (SeqStmts ss)) (counted_defs (SeqStmts ss))
      (binds T (SeqStmts ss)) (VisitStmt T (SeqStmts ss) (VisitStmt T s v))"
    by (rule Cons.IH) (use Cons.prems(1) advances_stack [OF s] in auto)
  from advances_trans [OF s this] have "advances v (errors T (visible v) s \<union> errors T (visible v \<union> binds T s) (SeqStmts ss))
      (counted_defs s + counted_defs (SeqStmts ss)) (binds T s \<union> binds T (SeqStmts ss)) (VisitStmt T (SeqStmts (s # ss)) v)"
    by (simp add: advances_visible [OF s])
  then show ?case by (rule advances_eq) (auto simp: errors_def)
qed (simp add: advances_refl errors_def)

lemma visible_EnterScope [simp]: "visible (EnterScope v) = visible v" "scope_stack (EnterScope v) \<noteq> []"
  by (simp_all add: EnterScope_def)

lemma counts_then_exprs:
  fixes es :: "'o Expr list" and rvs :: "Var list" and T :: TypeVars
  assumes "scope_stack v \<noteq> []"
  defines "v' \<equiv> fold (VisitExpr T) es (fold CheckVariableAssignment rvs v)"
  shows "advances v (scope_errors (unbound T (visible v) es)) (ids rvs) {} v'" and "scope_stack v' \<noteq> []" and "visible v' = visible v"
proof -
  note c = advances_counts [OF assms(1), of rvs]
  have "advances (fold CheckVariableAssignment rvs v) (scope_errors (unbound T (visible v) es)) {#} {} v'"
    using advances_exprs [of "fold CheckVariableAssignment rvs v"] advances_stack [OF c] advances_visible [OF c]
    by (simp add: v'_def)
  from advances_trans [OF c this] show e: "advances v (scope_errors (unbound T (visible v) es)) (ids rvs) {} v'" by simp
  show "scope_stack v' \<noteq> []" "visible v' = visible v" using advances_stack [OF e] advances_visible [OF e] by simp_all
qed

lemma records_then_defines:
  "scope_stack v \<noteq> [] \<Longrightarrow>
   advances v (other_errors (set ts)) {#} (var_id ` set rvs) (fold DefineVarPointer rvs (record_errors ts v))"
  using advances_trans [OF advances_records advances_defines] advances_stack [OF advances_records] by fastforce

text \<open>The body of a loop, in the scope of its arguments.\<close>

lemma loop_scope_advances:
  fixes B :: "'o Stmt" and xs :: "Var list" and v :: SSAVerifier
  assumes "scope_stack v \<noteq> []"
    and body: "\<And>v. scope_stack v \<noteq> [] \<Longrightarrow> advances v (errors T (visible v) B) (counted_defs B) (binds T B) (VisitStmt T B v)"
  defines "S \<equiv> visible v \<union> var_id ` set xs"
  shows "advances v (scope_errors (unbound T S es) \<union> errors T S B) (counted_defs B) {}
    (ExitScope (VisitStmt T B (fold (VisitExpr T) es (fold DefineVarPointer xs (EnterScope v)))))"
proof (rule advances_scope [OF _ assms(1)])
  let ?v1 = "fold DefineVarPointer xs (EnterScope v)"
  let ?v2 = "fold (VisitExpr T) es ?v1"
  have 1: "advances (EnterScope v) {} {#} (var_id ` set xs) ?v1" by (rule advances_defines) simp
  have 2: "advances ?v1 (scope_errors (unbound T S es)) {#} {} ?v2"
    using advances_exprs [of ?v1] advances_stack [OF 1] advances_visible [OF 1] by (simp add: S_def)
  have 3: "advances ?v2 (errors T S B) (counted_defs B) (binds T B) (VisitStmt T B ?v2)"
    using body [of ?v2] advances_stack [OF 2] advances_visible [OF 1] advances_visible [OF 2] by (simp add: S_def)
  from advances_trans [OF advances_trans [OF 1 2] 3]
  show "advances (EnterScope v) (scope_errors (unbound T S es) \<union> errors T S B) (counted_defs B) (var_id ` set xs \<union> binds T B)
    (VisitStmt T B ?v2)" by simp
qed

theorem VisitStmt_advances:
  fixes s :: "'o Stmt"
  shows "scope_stack v \<noteq> [] \<Longrightarrow> advances v (errors T (visible v) s) (counted_defs s) (binds T s) (VisitStmt T s v)"
proof (induction s arbitrary: v)
  case (AssignStmt x e)
  note e = advances_exprs [OF AssignStmt, of T "[e]", simplified]
  note c = advances_trans [OF e advances_count [OF conjunct2 [OF advances_stack [OF e]], of x]]
  note d = advances_trans [OF c advances_define [OF conjunct2 [OF advances_stack [OF c]], of x]]
  note t = advances_trans [OF d advances_types [OF conjunct2 [OF advances_stack [OF d]], of T "var_type x"]]
  show ?case using t by (simp add: errors_def Let_def)
next
  case (SeqStmts ss)
  then show ?case by (intro VisitSeq_advances) blast+
next
  case (IfStmt c a b rvs)
  note c = counts_then_exprs [OF IfStmt.prems, of T "[c]" rvs]
  let ?v1 = "fold (VisitExpr T) [c] (fold CheckVariableAssignment rvs v)"
  let ?v2 = "ExitScope (VisitStmt T a (EnterScope ?v1))"
  let ?v3 = "case b of None \<Rightarrow> ?v2 | Some b \<Rightarrow> ExitScope (VisitStmt T b (EnterScope ?v2))"
  have "advances (EnterScope ?v1) (errors T (visible v) a) (counted_defs a) (binds T a) (VisitStmt T a (EnterScope ?v1))"
    using IfStmt.IH(1) [of "EnterScope ?v1"] c(3) by simp
  from advances_scope [OF this c(2)] have a: "advances ?v1 (errors T (visible v) a) (counted_defs a) {} ?v2" .
  have b: "advances ?v2 (case b of None \<Rightarrow> {} | Some b \<Rightarrow> errors T (visible v) b)
      (case b of None \<Rightarrow> {#} | Some b \<Rightarrow> counted_defs b) {} ?v3"
  proof (cases b)
    case None
    then show ?thesis using advances_refl advances_stack [OF a] by simp
  next
    case (Some b')
    have "advances (EnterScope ?v2) (errors T (visible v) b') (counted_defs b') (binds T b') (VisitStmt T b' (EnterScope ?v2))"
      using IfStmt.IH(2) [of b' "EnterScope ?v2"] c(3) advances_visible [OF a] Some by simp
    from advances_scope [OF this conjunct2 [OF advances_stack [OF a]]] Some show ?thesis by simp
  qed
  note all = advances_trans [OF advances_trans [OF advances_trans [OF c(1) a] b]
      records_then_defines [OF conjunct2 [OF advances_stack [OF b]], of "VerifyIfStmt a b rvs" rvs]]
  have "VisitStmt T (IfStmt c a b rvs) v = fold DefineVarPointer rvs (record_errors (VerifyIfStmt a b rvs) ?v3)"
    by (simp add: Let_def split: option.split)
  with all have "advances v (scope_errors (unbound T (visible v) [c]) \<union> errors T (visible v) a \<union>
      (case b of None \<Rightarrow> {} | Some b \<Rightarrow> errors T (visible v) b) \<union> other_errors (set (VerifyIfStmt a b rvs)))
      (ids rvs + counted_defs a + (case b of None \<Rightarrow> {#} | Some b \<Rightarrow> counted_defs b)) (var_id ` set rvs)
      (VisitStmt T (IfStmt c a b rvs) v)" by simp
  then show ?case by (rule advances_eq) (auto simp: errors_def split: option.splits)
next
  case (ForStmt h ias B rvs)
  let ?es = "[for_start h, for_stop h, for_step h] @ map snd ias" and ?xs = "loop_var h # map fst ias"
  let ?S = "visible v \<union> var_id ` set ?xs" and ?ts = "VerifyLoopIterArgsAndYield (length ias) (length rvs) B"
  note c = counts_then_exprs [OF ForStmt.prems, of T ?es rvs]
  note b = loop_scope_advances [OF c(2) ForStmt.IH, where xs = ?xs and es = "[]"]
  note all = advances_trans [OF advances_trans [OF c(1) b] records_then_defines [OF conjunct2 [OF advances_stack [OF b]], of ?ts rvs]]
  have "advances v (scope_errors (unbound T (visible v) ?es) \<union> errors T ?S B \<union> other_errors (set ?ts))
      (ids rvs + counted_defs B) (var_id ` set rvs) (VisitStmt T (ForStmt h ias B rvs) v)"
    using all by (simp add: Let_def c(3) [simplified] unbound_def [of _ _ "[]"] met_def [of _ "[]"])
  then show ?case by (rule advances_eq) (auto simp: errors_def)
next
  case (WhileStmt c ias B rvs)
  let ?es = "map snd ias" and ?xs = "map fst ias"
  let ?S = "visible v \<union> var_id ` set ?xs" and ?ts = "VerifyLoopIterArgsAndYield (length ias) (length rvs) B"
  note c = counts_then_exprs [OF WhileStmt.prems, of T ?es rvs]
  note b = loop_scope_advances [OF c(2) WhileStmt.IH, where xs = ?xs and es = "[c]"]
  note all = advances_trans [OF advances_trans [OF c(1) b] records_then_defines [OF conjunct2 [OF advances_stack [OF b]], of ?ts rvs]]
  have "advances v (scope_errors (unbound T (visible v) ?es) \<union> (scope_errors (unbound T ?S [c]) \<union> errors T ?S B) \<union>
      other_errors (set ?ts)) (ids rvs + counted_defs B) (var_id ` set rvs) (VisitStmt T (WhileStmt c ias B rvs) v)"
    using all by (simp add: Let_def c(3) [simplified])
  then show ?case by (rule advances_eq) (auto simp: errors_def)
next
  case (ScopeStmt k n B)
  show ?case
  proof (cases n)
    case None
    then show ?thesis using ScopeStmt by (simp add: errors_def)
  next
    case (Some e)
    note e = advances_exprs [OF ScopeStmt.prems, of T "[e]", simplified]
    have "advances (VisitExpr T e v) (errors T (visible v) B) (counted_defs B) (binds T B) (VisitStmt T B (VisitExpr T e v))"
      using ScopeStmt.IH [of "VisitExpr T e v"] advances_stack [OF e] advances_visible [OF e] by simp
    from advances_trans [OF e this] show ?thesis by (simp add: Some errors_def Un_assoc image_Un)
  qed
qed (use advances_exprs advances_exprs [of _ _ "[_]", simplified] in \<open>auto simp: errors_def advances_refl\<close>)

section \<open>Functions\<close>

text \<open>What is in scope at the start of a body: the parameters and the variables of the types of the signature.\<close>

definition outermost :: "TypeVars \<Rightarrow> nat list \<Rightarrow> 'o Function \<Rightarrow> nat set" where
  "outermost T return_types func =
     var_id ` set (params func) \<union>
     (\<Union>t\<in>var_type ` set (params func) \<union> set return_types. var_id ` set (CollectTypeVars T t))"

lemma RegisterParams_advances:
  assumes "scope_stack v \<noteq> []"
  shows "advances v {} {#} (\<Union>x\<in>set xs. {var_id x} \<union> var_id ` set (CollectTypeVars T (var_type x))) (RegisterParams T xs v)"
proof -
  have "advances v {} {#} ({var_id x} \<union> var_id ` set (CollectTypeVars T (var_type x)))
      (RegisterTypeVars T (var_type x) (DefineVarPointer x v))" if "scope_stack v \<noteq> []" for x v
    using advances_trans [OF advances_define [OF that, of x] advances_types [of _ T "var_type x"]]
      advances_stack [OF advances_define [OF that]] by simp
  from advances_fold [where D = "\<lambda>_. {}" and M = "\<lambda>_. {#}", OF this assms, of xs] show ?thesis
    by (simp add: RegisterParams_def)
qed

lemma Verify_advances:
  "\<exists>v v'. advances v (errors T (outermost T ts func) (body func)) (counted_defs (body func)) (binds T (body func)) v' \<and>
    diagnostics v = [] \<and> (\<forall>i. var_assignment_count v i = 0) \<and> Verify T ts func = diagnostics v'"
proof -
  let ?v1 = "RegisterParams T (params func) new_verifier"
  let ?v2 = "fold (RegisterTypeVars T) ts ?v1"
  have "scope_stack new_verifier \<noteq> []" by (simp add: new_verifier_def)
  note 1 = RegisterParams_advances [OF this, where T = T and xs = "params func"]
  note 2 = advances_fold [where D = "\<lambda>_. {}" and M = "\<lambda>_. {#}" and f = "RegisterTypeVars T" and xs = ts,
      OF advances_types conjunct2 [OF advances_stack [OF 1]]]
  from advances_trans [OF 1 2] have 3: "advances new_verifier {} {#} (outermost T ts func) ?v2"
    by (rule advances_eq) (auto simp: outermost_def)
  have "diagnostics ?v2 = []" "var_assignment_count ?v2 i = 0" "visible ?v2 = outermost T ts func" for i
    using advancesD(2,3,6) [OF 3] by (auto simp: new_verifier_def)
  with VisitStmt_advances [OF conjunct2 [OF advances_stack [OF 3]], of T "body func"] show ?thesis
    by (auto simp: Verify_def)
qed

lemma Verify_reports:
  assumes "d \<in> set (Verify T ts func)"
  shows "d \<in> errors T (outermost T ts func) (body func) \<or>
    (\<exists>x. d = (MULTIPLE_ASSIGNMENT, Some x) \<and> count (counted_defs (body func)) (var_id x) > 1)"
  using assms Verify_advances [of T ts func] advancesD(6) by (fastforce simp: repeated_def)

lemma Verify_no_violation: "Verify T ts func = [] \<Longrightarrow> violations T (outermost T ts func) (body func) = {}"
  using Verify_advances [of T ts func] advancesD(5) by (fastforce simp: errors_def)

section \<open>What the errors about yields say\<close>

text \<open>
  A statement ends in its only yield, of \<open>n\<close> values: the yield is the last statement, also through sequences and
  transparent scopes, and none of the statements before it in a sequence is a yield.
\<close>

inductive ends_in_yield :: "nat \<Rightarrow> 'o Stmt \<Rightarrow> bool" for n where
  yield: "length es = n \<Longrightarrow> ends_in_yield n (YieldStmt es)"
| scope: "transparent k \<Longrightarrow> ends_in_yield n B \<Longrightarrow> ends_in_yield n (ScopeStmt k e B)"
| seq: "ends_in_yield n s \<Longrightarrow> list_all (\<lambda>t. \<not> is_yield t) ss \<Longrightarrow> ends_in_yield n (SeqStmts (ss @ [s]))"

inductive_simps ends_in_yield_simps:
  "ends_in_yield n (YieldStmt es)" "ends_in_yield n (ScopeStmt k e B)" "ends_in_yield n (AssignStmt x e)"
  "ends_in_yield n (ForStmt h ias B rvs)" "ends_in_yield n (WhileStmt c ias B rvs)" "ends_in_yield n (IfStmt c a b rvs)"
  "ends_in_yield n (ReturnStmt es)" "ends_in_yield n (EvalStmt e)" "ends_in_yield n BreakStmt" "ends_in_yield n ContinueStmt"

inductive_simps ends_in_yield_seq: "ends_in_yield n (SeqStmts ss)"

lemma ends_in_yield_iff:
  "ends_in_yield n B \<longleftrightarrow> (\<exists>es. GetLastStmt B = YieldStmt es \<and> length es = n) \<and> \<not> CheckNoMidBodyYield B"
proof (induction B rule: GetLastStmt.induct)
  case (1 ss)
  show ?case
  proof (cases ss rule: rev_cases)
    case (snoc ts t)
    have "ends_in_yield n (SeqStmts ss) \<longleftrightarrow> ends_in_yield n t \<and> list_all (\<lambda>t. \<not> is_yield t) ts"
      by (auto simp: ends_in_yield_seq snoc)
    with 1 show ?thesis by (auto simp: snoc list_all_iff)
  qed (simp add: ends_in_yield_seq)
next
  case (2 k e B)
  then show ?case by (auto simp: ends_in_yield_simps)
qed (simp_all add: ends_in_yield_simps)

lemma verify_yield_Nil: "verify_yield n B = [] \<longleftrightarrow> ends_in_yield n B"
  by (auto simp: ends_in_yield_iff verify_yield_def split: Stmt.splits)

text \<open>A loop with another number of returned variables than of iteration arguments; yields that are not as they must be.\<close>

fun unbalanced :: "'o Stmt \<Rightarrow> bool" where
  "unbalanced (ForStmt h ias B rvs) \<longleftrightarrow> length ias \<noteq> length rvs \<or> unbalanced B"
| "unbalanced (WhileStmt c ias B rvs) \<longleftrightarrow> length ias \<noteq> length rvs \<or> unbalanced B"
| "unbalanced (IfStmt c a b rvs) \<longleftrightarrow> unbalanced a \<or> (case b of None \<Rightarrow> False | Some b \<Rightarrow> unbalanced b)"
| "unbalanced (ScopeStmt k n B) \<longleftrightarrow> unbalanced B"
| "unbalanced (SeqStmts ss) \<longleftrightarrow> (\<exists>s\<in>set ss. unbalanced s)"
| "unbalanced _ \<longleftrightarrow> False"

fun misyielding :: "'o Stmt \<Rightarrow> bool" where
  "misyielding (ForStmt h ias B rvs) \<longleftrightarrow> ias \<noteq> [] \<and> \<not> ends_in_yield (length ias) B \<or> misyielding B"
| "misyielding (WhileStmt c ias B rvs) \<longleftrightarrow> ias \<noteq> [] \<and> \<not> ends_in_yield (length ias) B \<or> misyielding B"
| "misyielding (IfStmt c a b rvs) \<longleftrightarrow>
     rvs \<noteq> [] \<and> \<not> ends_in_yield (length rvs) a \<or> misyielding a \<or>
     (case b of None \<Rightarrow> rvs \<noteq> [] | Some b \<Rightarrow> rvs \<noteq> [] \<and> \<not> ends_in_yield (length rvs) b \<or> misyielding b)"
| "misyielding (ScopeStmt k n B) \<longleftrightarrow> misyielding B"
| "misyielding (SeqStmts ss) \<longleftrightarrow> (\<exists>s\<in>set ss. misyielding s)"
| "misyielding _ \<longleftrightarrow> False"

abbreviation yield_kinds :: "ErrorType set" where
  "yield_kinds \<equiv> {MISSING_YIELD, YIELD_COUNT_MISMATCH, MISPLACED_YIELD}"

lemma verify_yield_errors: "set (verify_yield n s) \<subseteq> {YIELD_COUNT_MISMATCH, MISPLACED_YIELD, MISSING_YIELD}"
  by (simp add: verify_yield_def split: Stmt.split)

lemma yield_errors_kinds:
  "yield_errors s \<subseteq> {MISSING_YIELD, ITER_ARGS_RETURN_VARS_MISMATCH, YIELD_COUNT_MISMATCH, MISPLACED_YIELD}"
proof (induction s)
  case (IfStmt c a b rvs)
  have "set (VerifyIfStmt a b rvs) \<subseteq> {MISSING_YIELD, YIELD_COUNT_MISMATCH, MISPLACED_YIELD}"
    using verify_yield_errors [of "length rvs" a] verify_yield_errors [of "length rvs" "the b"]
    by (auto simp: VerifyIfStmt_def split: option.split)
  with IfStmt show ?case by (fastforce split: option.splits)
next
  case (ForStmt h ias B rvs)
  then show ?case using verify_yield_errors [of "length ias" B] by (auto simp: VerifyLoopIterArgsAndYield_def)
next
  case (WhileStmt c ias B rvs)
  then show ?case using verify_yield_errors [of "length ias" B] by (auto simp: VerifyLoopIterArgsAndYield_def)
qed auto

lemma unbalanced_iff: "ITER_ARGS_RETURN_VARS_MISMATCH \<in> yield_errors s \<longleftrightarrow> unbalanced s"
proof (induction s)
  case (IfStmt c a b rvs)
  have "ITER_ARGS_RETURN_VARS_MISMATCH \<notin> set (VerifyIfStmt a b rvs)"
    using verify_yield_errors [of "length rvs" a] verify_yield_errors [of "length rvs" "the b"]
    by (auto simp: VerifyIfStmt_def split: option.split)
  with IfStmt show ?case by (auto split: option.splits)
next
  case (ForStmt h ias B rvs)
  then show ?case using verify_yield_errors [of "length ias" B] by (auto simp: VerifyLoopIterArgsAndYield_def)
next
  case (WhileStmt c ias B rvs)
  then show ?case using verify_yield_errors [of "length ias" B] by (auto simp: VerifyLoopIterArgsAndYield_def)
qed auto

lemma verify_yield_kind: "(\<exists>t\<in>yield_kinds. t \<in> set (verify_yield n B)) \<longleftrightarrow> \<not> ends_in_yield n B"
  using verify_yield_errors [of n B] verify_yield_Nil [of n B] by (cases "verify_yield n B") auto

lemma misyielding_iff: "(\<exists>t\<in>yield_kinds. t \<in> yield_errors s) \<longleftrightarrow> misyielding s"
proof -
  define K where "K = yield_kinds"
  have yields: "(\<exists>t\<in>K. t \<in> set (verify_yield n B)) \<longleftrightarrow> \<not> ends_in_yield n B" for n and B :: "'a Stmt"
    unfolding K_def by (rule verify_yield_kind)
  have "MISSING_YIELD \<in> K" "ITER_ARGS_RETURN_VARS_MISMATCH \<notin> K" by (simp_all add: K_def)
  then have loop: "(\<exists>t\<in>K. t \<in> set (VerifyLoopIterArgsAndYield (length ias) m B)) \<longleftrightarrow> ias \<noteq> [] \<and> \<not> ends_in_yield (length ias) B"
    for ias :: "(Var \<times> 'a Expr) list" and m and B :: "'a Stmt"
    unfolding yields [symmetric] by (auto simp: VerifyLoopIterArgsAndYield_def)
  have branch: "(\<exists>t\<in>K. t \<in> set (VerifyIfStmt a b rvs)) \<longleftrightarrow> rvs \<noteq> [] \<and>
      (case b of None \<Rightarrow> True | Some b \<Rightarrow> \<not> ends_in_yield (length rvs) a \<or> \<not> ends_in_yield (length rvs) b)"
    for a :: "'a Stmt" and b rvs
    unfolding yields [symmetric] using \<open>MISSING_YIELD \<in> K\<close> by (auto simp: VerifyIfStmt_def split: option.split)
  have "(\<exists>t\<in>K. t \<in> yield_errors s) \<longleftrightarrow> misyielding s"
  proof (induction s)
    case (IfStmt c a b rvs)
    show ?case
    proof (cases b)
      case None
      with IfStmt.IH(1) branch [of a None rvs] show ?thesis by (simp add: bex_Un) blast
    next
      case (Some b')
      with IfStmt.IH(1) IfStmt.IH(2) [of b'] branch [of a "Some b'" rvs] show ?thesis by (simp add: bex_Un) blast
    qed
  next
    case (ForStmt h ias B rvs)
    then show ?case using loop [of ias "length rvs" B] by (simp add: bex_Un) blast
  next
    case (WhileStmt c ias B rvs)
    then show ?case using loop [of ias "length rvs" B] by (simp add: bex_Un) blast
  next
    case (SeqStmts ss)
    then show ?case by simp blast
  qed auto
  then show ?thesis unfolding K_def .
qed

text \<open>The diagnostics, in terms of the structure of the body.\<close>

lemma Verify_diagnostics:
  "set (Verify T ts func) \<subseteq> errors T (outermost T ts func) (body func) \<union>
     {(MULTIPLE_ASSIGNMENT, Some x) |x. count (counted_defs (body func)) (var_id x) > 1}"
  "errors T (outermost T ts func) (body func) \<subseteq> set (Verify T ts func)"
  "count (counted_defs (body func)) i > 1 \<Longrightarrow> \<exists>x. var_id x = i \<and> (MULTIPLE_ASSIGNMENT, Some x) \<in> set (Verify T ts func)"
proof -
  obtain v v' where e: "advances v (errors T (outermost T ts func) (body func)) (counted_defs (body func)) (binds T (body func)) v'"
      "diagnostics v = []" "\<forall>i. var_assignment_count v i = 0" "Verify T ts func = diagnostics v'"
    using Verify_advances by metis
  have r: "repeated v (counted_defs (body func)) = {i. count (counted_defs (body func)) i > 1}"
    using e(3) by (auto simp: repeated_def simp flip: count_greater_zero_iff)
  show "set (Verify T ts func) \<subseteq> errors T (outermost T ts func) (body func) \<union>
     {(MULTIPLE_ASSIGNMENT, Some x) |x. count (counted_defs (body func)) (var_id x) > 1}"
    using advancesD(6) [OF e(1)] by (simp add: e(2,4) r)
  show "errors T (outermost T ts func) (body func) \<subseteq> set (Verify T ts func)"
    using advancesD(5) [OF e(1)] by (simp only: e(4))
  show "\<exists>x. var_id x = i \<and> (MULTIPLE_ASSIGNMENT, Some x) \<in> set (Verify T ts func)"
    if "count (counted_defs (body func)) i > 1"
    using advancesD(7) [OF e(1), of i] that by (simp add: e(4) r)
qed


section \<open>What it does not report\<close>

text \<open>No name is ever reported to shadow another one.\<close>

lemma no_shadowing_reported: "(NAME_SHADOWING, x) \<notin> set (Verify T ts func)"
  using Verify_reports [of "(NAME_SHADOWING, x)" T ts func] yield_errors_kinds [of "body func"] by (auto simp: errors_def)

text \<open>A parameter may be assigned: only assignments and returned variables are counted.\<close>

definition reassigned_param :: "unit Function" where
  "reassigned_param =
     (let x = \<lparr>var_id = 0, name_hint = ''x'', var_type = 0\<rparr> in
      \<lparr>params = [x], body = SeqStmts [AssignStmt x (Add (EVar x) (ConstInt 1)), ReturnStmt [EVar x]]\<rparr>)"

lemma reassigned_param_accepted:
  "Verify \<lparr>shape_vars = (\<lambda>_. []), CollectTypeVars = (\<lambda>_. [])\<rparr> [] reassigned_param = []"
  by code_simp

end
