(* ===== verification/Ssa_Safety.thy ===== *)
theory Ssa_Safety
  imports Ssa_Verify
begin

text \<open>
  What acceptance by the verifier of SSA form means for a run: two runs from environments that agree on the
  variables in scope stay in step, so nothing that is not in scope is ever read.
\<close>

section \<open>Two runs in step\<close>

definition agree :: "nat set \<Rightarrow> 'a env \<Rightarrow> 'a env \<Rightarrow> bool" where
  "agree S \<sigma> \<tau> \<longleftrightarrow> (\<forall>i\<in>S. \<sigma> i = \<tau> i)"

text \<open>On \<open>S\<close> where the statement is left early, on \<open>S'\<close> at its end.\<close>

fun in_step :: "nat set \<Rightarrow> nat set \<Rightarrow> ('a, 'w) outcome \<Rightarrow> ('a, 'w) outcome \<Rightarrow> bool" where
  "in_step S S' (Normal \<sigma> w) (Normal \<tau> w') \<longleftrightarrow> w = w' \<and> agree S' \<sigma> \<tau>"
| "in_step S S' (Yields vs \<sigma> w) (Yields us \<tau> w') \<longleftrightarrow> vs = us \<and> w = w' \<and> agree S \<sigma> \<tau>"
| "in_step S S' (Breaks \<sigma> w) (Breaks \<tau> w') \<longleftrightarrow> w = w' \<and> agree S \<sigma> \<tau>"
| "in_step S S' (Continues \<sigma> w) (Continues \<tau> w') \<longleftrightarrow> w = w' \<and> agree S \<sigma> \<tau>"
| "in_step S S' (Returns vs w) (Returns us w') \<longleftrightarrow> vs = us \<and> w = w'"
| "in_step S S' Fault Fault \<longleftrightarrow> True"
| "in_step S S' Timeout Timeout \<longleftrightarrow> True"
| "in_step S S' _ _ \<longleftrightarrow> False"

lemma agree_mono: "agree S \<sigma> \<tau> \<Longrightarrow> S' \<subseteq> S \<Longrightarrow> agree S' \<sigma> \<tau>"
  by (auto simp: agree_def)

lemma in_step_mono: "in_step S S' out out' \<Longrightarrow> R \<subseteq> S \<Longrightarrow> R' \<subseteq> S' \<Longrightarrow> in_step R R' out out'"
  by (induction S S' out out' rule: in_step.induct) (auto intro: agree_mono)

lemma agree_set_var: "agree S \<sigma> \<tau> \<Longrightarrow> agree (insert (var_id x) S) (set_var x v \<sigma>) (set_var x v \<tau>)"
  by (simp add: agree_def set_var_def)

lemma agree_set_vars:
  "length xs = length vs \<Longrightarrow> agree S \<sigma> \<tau> \<Longrightarrow> agree (S \<union> var_id ` set xs) (set_vars xs vs \<sigma>) (set_vars xs vs \<tau>)"
proof (induction xs vs arbitrary: S \<sigma> \<tau> rule: list_induct2)
  case (Cons x xs v vs)
  from Cons.IH [OF agree_set_var [OF Cons.prems]] show ?case by simp
qed simp

lemma agree_restore: "agree S \<sigma>0 \<tau>0 \<Longrightarrow> agree S \<sigma> \<tau> \<Longrightarrow> agree S (restore xs \<sigma>0 \<sigma>) (restore xs \<tau>0 \<tau>)"
  by (simp add: agree_def restore_def)

lemma ev_agree: "\<forall>x\<in>set (expr_vars e). \<sigma> (var_id x) = \<tau> (var_id x) \<Longrightarrow> ev I \<sigma> e w = ev I \<tau> e w"
proof (induction e arbitrary: w)
  case (Op f es)
  have "evs I \<sigma> es w = evs I \<tau> (map id es) w" by (rule evs_cong_map) (use Op in auto)
  then show ?case by simp
qed (auto cong: and_then_cong)

definition known :: "nat set \<Rightarrow> 'o Expr list \<Rightarrow> bool" where
  "known S es \<longleftrightarrow> (\<forall>e\<in>set es. \<forall>x\<in>set (expr_vars e). var_id x \<in> S)"

lemma known_Nil [simp]: "known S []"
  by (simp add: known_def)

lemma known_Cons: "known S (e # es) \<longleftrightarrow> known S [e] \<and> known S es"
  by (simp add: known_def)

lemma unbound_known: "unbound T S es = {} \<Longrightarrow> known S es"
  by (fastforce simp: unbound_def met_def known_def)

lemma known_mono: "known S es \<Longrightarrow> S \<subseteq> S' \<Longrightarrow> known S' es"
  by (auto simp: known_def)

lemma ev_known: "known S [e] \<Longrightarrow> agree S \<sigma> \<tau> \<Longrightarrow> ev I \<sigma> e w = ev I \<tau> e w"
  by (rule ev_agree) (simp add: known_def agree_def)

lemma evs_known: "known S es \<Longrightarrow> agree S \<sigma> \<tau> \<Longrightarrow> evs I \<sigma> es w = evs I \<tau> es w"
  using evs_cong_map [of es I \<sigma> \<tau> id w] ev_known [of S _ \<sigma> \<tau> I] by (auto simp: known_def)

lemma copies_known: "known S es \<Longrightarrow> agree S \<sigma> \<tau> \<Longrightarrow> copies I \<sigma> es w = copies I \<tau> es w"
proof (induction es arbitrary: w)
  case (Cons e es)
  then have e: "ev I \<sigma> e w = ev I \<tau> e w" and es: "copies I \<sigma> es w = copies I \<tau> es w" for w
    using ev_known [of S e \<sigma> \<tau> I w] by (simp_all add: known_def)
  have "\<sigma> (var_id x) = \<tau> (var_id x)" if "e = EVar x" for x using Cons.prems that by (simp add: known_def agree_def)
  with e es show ?case by (cases e) (simp_all cong: and_then_cong)
qed simp

lemma copies_length: "copies I \<sigma> es w = Some (vs, w') \<Longrightarrow> length vs = length es"
  by (induction es arbitrary: w vs w') (auto simp: and_then_def split: option.splits prod.splits)

section \<open>Loops\<close>

fun next_in_step :: "nat \<Rightarrow> nat set \<Rightarrow> ('a, 'w) step \<Rightarrow> ('a, 'w) step \<Rightarrow> bool" where
  "next_in_step n S (Again vs \<sigma> w) (Again us \<tau> w') \<longleftrightarrow> vs = us \<and> length vs = n \<and> w = w' \<and> agree S \<sigma> \<tau>"
| "next_in_step n S (Leave out) (Leave out') \<longleftrightarrow> in_step S S out out'"
| "next_in_step n S _ _ \<longleftrightarrow> False"

lemma loop_step_in_step: "in_step S S out out' \<Longrightarrow> next_in_step n S (loop_step n out) (loop_step n out')"
  by (induction S S out out' rule: in_step.induct) (auto simp: loop_step_def)

lemma for_loop_in_step:
  assumes body: "\<And>\<sigma> \<tau> w. agree (S \<union> var_id ` set (lv # ias)) \<sigma> \<tau> \<Longrightarrow> in_step S S (B \<sigma> w) (B \<tau> w)"
    and "length vs = length ias" "agree S \<sigma> \<tau>"
  shows "in_step S S (for_loop B lv ias is vs \<sigma> w) (for_loop B lv ias is vs \<tau> w)"
  using assms(2,3)
proof (induction "is" arbitrary: vs \<sigma> \<tau> w)
  case (Cons i "is")
  let ?\<sigma> = "set_vars ias vs (set_var lv (Some (IntV i)) \<sigma>)" and ?\<tau> = "set_vars ias vs (set_var lv (Some (IntV i)) \<tau>)"
  have "agree (S \<union> var_id ` set (lv # ias)) ?\<sigma> ?\<tau>"
    using agree_set_vars [OF Cons.prems(1) [symmetric] agree_set_var [OF Cons.prems(2)]] by simp
  from loop_step_in_step [OF body [OF this], of "length ias" w] Cons.IH show ?case
    by (cases "loop_step (length ias) (B ?\<sigma> w)"; cases "loop_step (length ias) (B ?\<tau> w)") auto
qed simp

lemma while_loop_in_step:
  assumes cond: "\<And>\<sigma> \<tau> w. agree (S \<union> var_id ` set ias) \<sigma> \<tau> \<Longrightarrow> C \<sigma> w = C \<tau> w"
    and body: "\<And>\<sigma> \<tau> w. agree (S \<union> var_id ` set ias) \<sigma> \<tau> \<Longrightarrow> in_step S S (B \<sigma> w) (B \<tau> w)"
    and "length vs = length ias" "agree S \<sigma> \<tau>"
  shows "in_step S S (while_loop n C B ias vs \<sigma> w) (while_loop n C B ias vs \<tau> w)"
  using assms(3,4)
proof (induction n arbitrary: vs \<sigma> \<tau> w)
  case (Suc n)
  let ?\<sigma> = "set_vars ias vs \<sigma>" and ?\<tau> = "set_vars ias vs \<tau>"
  have a: "agree (S \<union> var_id ` set ias) ?\<sigma> ?\<tau>" using agree_set_vars [OF Suc.prems(1) [symmetric] Suc.prems(2)] .
  have "in_step S S
      (case loop_step (length ias) (B ?\<sigma> w1) of Again vs \<sigma> w \<Rightarrow> while_loop n C B ias vs \<sigma> w | Leave out \<Rightarrow> out)
      (case loop_step (length ias) (B ?\<tau> w1) of Again vs \<sigma> w \<Rightarrow> while_loop n C B ias vs \<sigma> w | Leave out \<Rightarrow> out)" for w1
    using loop_step_in_step [OF body [OF a], of "length ias" w1] Suc.IH
    by (cases "loop_step (length ias) (B ?\<sigma> w1)"; cases "loop_step (length ias) (B ?\<tau> w1)") auto
  with Suc.prems(2) cond [OF a, of w] show ?case
    by (auto split: option.split prod.split val.split bool.split)
qed simp

lemma finish_in_step:
  "in_step S S out out' \<Longrightarrow> agree S \<sigma>0 \<tau>0 \<Longrightarrow> in_step S (S \<union> var_id ` set rvs) (finish xs \<sigma>0 rvs out) (finish xs \<tau>0 rvs out')"
  by (induction S S out out' rule: in_step.induct)
    (auto simp: finish_def intro!: agree_set_vars agree_restore)

lemma branch_end_in_step:
  "in_step S S out out' \<Longrightarrow> in_step S (S \<union> var_id ` set rvs) (branch_end rvs out) (branch_end rvs out')"
  by (induction S S out out' rule: in_step.induct) (auto simp: branch_end_def intro!: agree_set_vars)

section \<open>Statements\<close>

lemma execs_in_step:
  assumes "\<And>s V \<sigma> \<tau> w. s \<in> set ss \<Longrightarrow> violations T V s = {} \<Longrightarrow> agree (V \<union> D) \<sigma> \<tau> \<Longrightarrow>
      in_step (V \<union> D) (V \<union> D \<union> binds T s) (exec I F s \<sigma> w) (exec I F s \<tau> w)"
    and "seq_violations T V ss = {}" "agree (V \<union> D) \<sigma> \<tau>"
  shows "in_step (V \<union> D) (V \<union> D \<union> (\<Union>s\<in>set ss. binds T s)) (execs I F ss \<sigma> w) (execs I F ss \<tau> w)"
  using assms
proof (induction ss arbitrary: V \<sigma> \<tau> w)
  case (Cons s ss)
  have s: "in_step (V \<union> D) (V \<union> D \<union> binds T s) (exec I F s \<sigma> w) (exec I F s \<tau> w)"
    by (rule Cons.prems(1)) (use Cons.prems(2,3) in simp_all)
  show ?case
  proof (cases "\<exists>\<sigma>1 \<tau>1 w1. exec I F s \<sigma> w = Normal \<sigma>1 w1 \<and> exec I F s \<tau> w = Normal \<tau>1 w1 \<and> agree (V \<union> D \<union> binds T s) \<sigma>1 \<tau>1")
    case True
    then obtain \<sigma>1 \<tau>1 w1 where n: "exec I F s \<sigma> w = Normal \<sigma>1 w1" "exec I F s \<tau> w = Normal \<tau>1 w1"
        "agree (V \<union> D \<union> binds T s) \<sigma>1 \<tau>1" by blast
    have u: "V \<union> D \<union> binds T s = (V \<union> binds T s) \<union> D" by blast
    have "in_step ((V \<union> binds T s) \<union> D) ((V \<union> binds T s) \<union> D \<union> (\<Union>s\<in>set ss. binds T s)) (execs I F ss \<sigma>1 w1) (execs I F ss \<tau>1 w1)"
      by (rule Cons.IH) (use Cons.prems n(3) in \<open>auto simp: u\<close>)
    from in_step_mono [OF this, of "V \<union> D" "V \<union> D \<union> (\<Union>s\<in>set (s # ss). binds T s)"] show ?thesis
      by (simp add: n) (auto simp: Un_ac)
  next
    case False
    with s show ?thesis by (cases "exec I F s \<sigma> w"; cases "exec I F s \<tau> w") auto
  qed
qed simp

theorem exec_in_step:
  fixes s :: "'o Stmt"
  assumes D: "\<And>t. var_id ` set (CollectTypeVars T t) \<subseteq> D"
  shows "violations T V s = {} \<Longrightarrow> agree (V \<union> D) \<sigma> \<tau> \<Longrightarrow>
    in_step (V \<union> D) (V \<union> D \<union> binds T s) (exec I F s \<sigma> w) (exec I F s \<tau> w)"
proof (induction s arbitrary: V \<sigma> \<tau> w)
  case (AssignStmt x e)
  then have "known (V \<union> D) [e]" using unbound_known known_mono by fastforce
  note e = ev_known [OF this AssignStmt.prems(2)]
  have "V \<union> D \<union> binds T (AssignStmt x e) = insert (var_id x) (V \<union> D)" using D by auto
  then show ?case using agree_set_var [OF AssignStmt.prems(2)] by (simp add: e split: option.split)
next
  case (EvalStmt e)
  then have "known (V \<union> D) [e]" using unbound_known known_mono by fastforce
  note e = ev_known [OF this EvalStmt.prems(2)]
  show ?case using EvalStmt.prems(2) by (simp add: e split: option.split)
next
  case (YieldStmt es)
  then have "known (V \<union> D) es" using unbound_known known_mono by fastforce
  note es = copies_known [OF this YieldStmt.prems(2)]
  show ?case using YieldStmt.prems(2) by (simp add: es split: option.split)
next
  case (ReturnStmt es)
  then have "known (V \<union> D) es" using unbound_known known_mono by fastforce
  note es = evs_known [OF this ReturnStmt.prems(2)]
  show ?case by (simp add: es split: option.split)
next
  case (SeqStmts ss)
  show ?case using execs_in_step [of ss T D I F V \<sigma> \<tau> w] SeqStmts by simp
next
  case (IfStmt c a b rvs)
  let ?S = "V \<union> D"
  from IfStmt.prems(1) have v: "unbound T V [c] = {}" "violations T V a = {}" "\<forall>e. b = Some e \<longrightarrow> violations T V e = {}"
    by (auto split: option.splits)
  have c: "ev I \<sigma> c w = ev I \<tau> c w"
    by (rule ev_known [OF known_mono [OF unbound_known [OF v(1)]] IfStmt.prems(2)]) simp
  have a: "in_step ?S (?S \<union> var_id ` set rvs) (branch_end rvs (exec I F a \<sigma> w)) (branch_end rvs (exec I F a \<tau> w))" for w
    by (rule branch_end_in_step) (rule in_step_mono [OF IfStmt.IH(1) [OF v(2) IfStmt.prems(2)]]; blast)
  have b: "in_step ?S (?S \<union> var_id ` set rvs)
      (branch_end rvs (case b of None \<Rightarrow> Normal \<sigma> w | Some b \<Rightarrow> exec I F b \<sigma> w))
      (branch_end rvs (case b of None \<Rightarrow> Normal \<tau> w | Some b \<Rightarrow> exec I F b \<tau> w))" for w
  proof (rule branch_end_in_step, cases b)
    case (Some e)
    with v(3) have "violations T V e = {}" by simp
    from in_step_mono [OF IfStmt.IH(2) [OF _ this IfStmt.prems(2)]] Some
    show "in_step ?S ?S (case b of None \<Rightarrow> Normal \<sigma> w | Some b \<Rightarrow> exec I F b \<sigma> w)
      (case b of None \<Rightarrow> Normal \<tau> w | Some b \<Rightarrow> exec I F b \<tau> w)" by fastforce
  qed (use IfStmt.prems(2) in simp)
  show ?case using a b by (auto simp: c split: option.split prod.split val.split bool.split)
next
  case (ForStmt h ias B rvs)
  let ?S = "V \<union> D"
  from ForStmt.prems(1) have v: "unbound T V ([for_start h, for_stop h, for_step h] @ map snd ias) = {}"
      "violations T (V \<union> var_id ` set (loop_var h # map fst ias)) B = {}" by auto
  from known_mono [OF unbound_known [OF v(1)], of ?S]
  have k: "known ?S [for_start h]" "known ?S [for_stop h]" "known ?S [for_step h]" "known ?S (map snd ias)"
    by (auto simp: known_def)
  have fb: "for_bounds I \<sigma> h w = for_bounds I \<tau> h w"
    by (simp add: for_bounds_def ev_known [OF k(1) ForStmt.prems(2)] ev_known [OF k(2) ForStmt.prems(2)]
        ev_known [OF k(3) ForStmt.prems(2)])
  have body: "in_step ?S ?S (exec I F B \<sigma> w) (exec I F B \<tau> w)"
    if "agree (?S \<union> var_id ` set (loop_var h # map fst ias)) \<sigma> \<tau>" for \<sigma> \<tau> w
    by (rule in_step_mono [OF ForStmt.IH [OF v(2)]]) (use that in \<open>auto elim: agree_mono\<close>)
  have "in_step ?S (?S \<union> var_id ` set rvs)
      (finish (loop_var h # map fst ias) \<sigma> rvs (for_loop (exec I F B) (loop_var h) (map fst ias) is vs \<sigma> w1))
      (finish (loop_var h # map fst ias) \<tau> rvs (for_loop (exec I F B) (loop_var h) (map fst ias) is vs \<tau> w1))"
    if "length vs = length (map fst ias)" for "is" vs w1
    by (rule finish_in_step [OF for_loop_in_step [OF body that ForStmt.prems(2)] ForStmt.prems(2)])
  then show ?case
    by (auto simp: fb copies_known [OF k(4) ForStmt.prems(2)] dest: copies_length split: option.split prod.split)
next
  case (WhileStmt c ias B rvs)
  let ?S = "V \<union> D"
  from WhileStmt.prems(1) have v: "unbound T V (map snd ias) = {}" "unbound T (V \<union> var_id ` set (map fst ias)) [c] = {}"
      "violations T (V \<union> var_id ` set (map fst ias)) B = {}" by auto
  from known_mono [OF unbound_known [OF v(1)], of ?S] have k: "known ?S (map snd ias)" by simp
  from known_mono [OF unbound_known [OF v(2)], of "?S \<union> var_id ` set (map fst ias)"]
  have kc: "known (?S \<union> var_id ` set (map fst ias)) [c]" by blast
  have body: "in_step ?S ?S (exec I F B \<sigma> w) (exec I F B \<tau> w)"
    if "agree (?S \<union> var_id ` set (map fst ias)) \<sigma> \<tau>" for \<sigma> \<tau> w
    by (rule in_step_mono [OF WhileStmt.IH [OF v(3)]]) (use that in \<open>auto elim: agree_mono\<close>)
  have "in_step ?S (?S \<union> var_id ` set rvs)
      (finish (map fst ias) \<sigma> rvs (while_loop F (\<lambda>\<sigma>. ev I \<sigma> c) (exec I F B) (map fst ias) vs \<sigma> w1))
      (finish (map fst ias) \<tau> rvs (while_loop F (\<lambda>\<sigma>. ev I \<sigma> c) (exec I F B) (map fst ias) vs \<tau> w1))"
    if "length vs = length (map fst ias)" for vs w1
    by (rule finish_in_step [OF while_loop_in_step [OF ev_known [OF kc] body that WhileStmt.prems(2)] WhileStmt.prems(2)])
  then show ?case
    by (auto simp: copies_known [OF k WhileStmt.prems(2)] dest: copies_length split: option.split prod.split)
next
  case (ScopeStmt k n B)
  note B = ScopeStmt.IH [of V \<sigma> \<tau>, OF _ ScopeStmt.prems(2)]
  show ?case
  proof (cases n)
    case (Some e)
    then have "known (V \<union> D) [e]" using ScopeStmt.prems(1) unbound_known known_mono by fastforce
    note e = ev_known [OF this ScopeStmt.prems(2)]
    show ?thesis using B ScopeStmt.prems(1) Some by (simp add: e split: option.split)
  qed (use B ScopeStmt.prems(1) in simp)
qed auto

section \<open>Functions\<close>

text \<open>What a function returns from an environment that holds other values as well.\<close>

fun result :: "('a, 'w) outcome \<Rightarrow> ('a, 'w) outcome" where
  "result (Normal \<sigma> w) = Normal Map.empty w"
| "result (Yields vs \<sigma> w) = Yields vs Map.empty w"
| "result (Breaks \<sigma> w) = Breaks Map.empty w"
| "result (Continues \<sigma> w) = Continues Map.empty w"
| "result out = out"

definition result_from :: "('o, 'a, 'w) meaning \<Rightarrow> nat \<Rightarrow> 'o Function \<Rightarrow> 'a env \<Rightarrow> 'a val list \<Rightarrow> 'w \<Rightarrow> ('a, 'w) outcome" where
  "result_from I F func \<sigma> args w =
     result (exec I F (body func) (set_vars (params func) (map Some args) \<sigma>) w)"

lemma in_step_result: "in_step S S' out out' \<Longrightarrow> result out = result out'"
  by (induction S S' out out' rule: in_step.induct) simp_all

text \<open>
  Claim C38. An accepted function never reads a variable before it has been given a value, apart from the variables
  embedded in types, which the verifier takes as defined where their type is registered: called with as many arguments as
  it has parameters in two environments that agree on the variables that \<open>CollectTypeVars\<close> finds in types, whatever all other
  variables hold, it returns the same values and leaves the same world, faults where it faults and runs out of
  fuel where it does.
\<close>

theorem Verify_safe:
  assumes "Verify T ts func = []" and "length args = length (params func)"
    and "\<And>t x. x \<in> set (CollectTypeVars T t) \<Longrightarrow> \<sigma> (var_id x) = \<tau> (var_id x)"
  shows "result_from I F func \<sigma> args w = result_from I F func \<tau> args w"
proof -
  define D where "D = (\<Union>t. var_id ` set (CollectTypeVars T t))"
  have D: "var_id ` set (CollectTypeVars T t) \<subseteq> D" for t by (auto simp: D_def)
  have "agree D \<sigma> \<tau>" unfolding agree_def D_def using assms(3) by blast
  have "agree (D \<union> var_id ` set (params func)) (set_vars (params func) (map Some args) \<sigma>)
      (set_vars (params func) (map Some args) \<tau>)"
    by (rule agree_set_vars [OF _ \<open>agree D \<sigma> \<tau>\<close>]) (simp add: assms(2))
  then have "agree (outermost T ts func \<union> D) (set_vars (params func) (map Some args) \<sigma>)
      (set_vars (params func) (map Some args) \<tau>)"
    by (rule agree_mono) (simp add: outermost_def D_def, blast)
  moreover have "violations T (outermost T ts func) (body func) = {}" by (rule Verify_no_violation [OF assms(1)])
  ultimately have "in_step (outermost T ts func \<union> D) (outermost T ts func \<union> D \<union> binds T (body func))
      (exec I F (body func) (set_vars (params func) (map Some args) \<sigma>) w)
      (exec I F (body func) (set_vars (params func) (map Some args) \<tau>) w)"
    by (intro exec_in_step [OF D])
  then show ?thesis unfolding result_from_def by (rule in_step_result)
qed

text \<open>The sum of the numbers below the argument, in SSA form.\<close>

definition sum_below :: "unit Function" where
  "sum_below =
     (let v = (\<lambda>i. \<lparr>var_id = i, name_hint = [], var_type = 0\<rparr>) in
      \<lparr>params = [v 0],
       body = SeqStmts
         [AssignStmt (v 1) (ConstInt 0),
          ForStmt \<lparr>for_kind = Sequential, hardware_loop_policy = Auto, loop_var = v 2, for_start = ConstInt 0,
            for_stop = EVar (v 0), for_step = ConstInt 1\<rparr> [(v 3, EVar (v 1))]
            (SeqStmts [AssignStmt (v 4) (Add (EVar (v 3)) (EVar (v 2))), YieldStmt [EVar (v 4)]]) [v 5],
          ReturnStmt [EVar (v 5)]]\<rparr>)"

lemma Verify_safe_witness:
  "Verify \<lparr>shape_vars = (\<lambda>_. []), CollectTypeVars = (\<lambda>_. [])\<rparr> [] sum_below = [] \<and>
   result_from (\<lambda>_ _ _. None) 0 sum_below Map.empty [IntV 4 :: unit val] () =
   result_from (\<lambda>_ _ _. None) 0 sum_below (\<lambda>_. Some (BoolV True)) [IntV 4] ()"
proof -
  have v: "Verify \<lparr>shape_vars = (\<lambda>_. []), CollectTypeVars = (\<lambda>_. [])\<rparr> [] sum_below = []" by code_simp
  have "result_from (\<lambda>_ _ _. None) 0 sum_below Map.empty [IntV 4 :: unit val] () =
      result_from (\<lambda>_ _ _. None) 0 sum_below (\<lambda>_. Some (BoolV True)) [IntV 4] ()"
    by (rule Verify_safe [OF v]) (simp_all add: sum_below_def Let_def)
  with v show ?thesis by blast
qed

end
