(* ===== verification/Ssa_Accepted.thy ===== *)
theory Ssa_Accepted
  imports Ssa_Verify
begin

text \<open>
  The conversion to SSA form against the verifier of SSA form: what \<open>ConvertFunction\<close> builds from an input of the
  front end passes, up to reads of variables that nothing in the result defines.
\<close>

section \<open>Every version is in scope\<close>

definition in_scope :: "nat set \<Rightarrow> versions \<Rightarrow> bool" where
  "in_scope S c \<longleftrightarrow> var_id ` snd ` set c \<subseteq> S"

lemma lookup_range: "lookup c x = Some v \<Longrightarrow> v \<in> snd ` set c"
  by (force simp: lookup_def find_Some_iff set_conv_nth)

lemma in_scope_lookup: "in_scope S c \<Longrightarrow> lookup c x = Some v \<Longrightarrow> var_id v \<in> S"
  using lookup_range by (fastforce simp: in_scope_def)

lemma in_scope_mono: "in_scope S c \<Longrightarrow> S \<subseteq> S' \<Longrightarrow> in_scope S' c"
  by (auto simp: in_scope_def)

lemma in_scope_assign: "in_scope S c \<Longrightarrow> var_id v \<in> S \<Longrightarrow> in_scope S (assign x v c)"
  by (auto simp: in_scope_def assign_def)

lemma in_scope_assigns: "in_scope S c \<Longrightarrow> var_id ` set vs \<subseteq> S \<Longrightarrow> in_scope S (assigns xs vs c)"
  by (induction xs vs c rule: assigns.induct) (simp_all add: in_scope_assign)

lemma in_scope_RegisterIterArgs:
  assumes "in_scope S (cur st)" "var_id ` set vs \<subseteq> S"
  shows "in_scope S (cur (RegisterIterArgs xs vs st))"
proof -
  have "in_scope S (fold (\<lambda>(x, v) c. assign v v (assign x v c)) kvs c)"
    if "in_scope S c" "var_id ` snd ` set kvs \<subseteq> S" for kvs c
    using that by (induction kvs arbitrary: c) (auto simp: in_scope_assign)
  moreover have "var_id ` snd ` set (zip xs vs) \<subseteq> S" using assms(2) by (fastforce dest: set_zip_rightD)
  ultimately show ?thesis using assms(1) by (simp add: RegisterIterArgs_def)
qed

lemma FindInitValue_range: "FindInitValue P ty c = Some v \<Longrightarrow> v \<in> snd ` set c"
proof -
  have pick: "fold (\<lambda>a b. if p a b then a else b) kvs kv \<in> set (kv # kvs)" for p and kv :: "Var \<times> Var" and kvs
    by (induction kvs arbitrary: kv) auto
  assume f: "FindInitValue P ty c = Some v"
  show "v \<in> snd ` set c"
  proof (cases "find (\<lambda>p. case lookup c p of Some v \<Rightarrow> var_type v = ty | None \<Rightarrow> False) (out_params P)")
    case None
    with f obtain kv kvs where kvs: "filter (\<lambda>(k, v). var_type v = ty) c = kv # kvs"
        "v = snd (fold (\<lambda>a b. if var_id (fst a) < var_id (fst b) then a else b) kvs kv)"
      by (auto simp: FindInitValue_def split: list.splits)
    from kvs(1) have "set (kv # kvs) \<subseteq> set c" by (metis filter_is_subset)
    with pick [of "\<lambda>a b. var_id (fst a) < var_id (fst b)" kvs kv] show ?thesis unfolding kvs(2) by blast
  next
    case (Some p)
    with f show ?thesis by (auto simp: FindInitValue_def dest: lookup_range)
  qed
qed

text \<open>The start values of escaping variables are versions, or variables made for the purpose.\<close>

lemma escaping_args_inits:
  "escaping_args P before types xs st = Inr (ias, rvs, st') \<Longrightarrow> e \<in> snd ` set ias \<Longrightarrow>
   \<exists>v. e = EVar v \<and> (v \<in> snd ` set before \<or>
     next_id st \<le> var_id v \<and> var_id v < next_id st' \<and> var_id v \<notin># ids (map fst ias) + ids rvs)"
proof (induction xs arbitrary: st ias rvs st')
  case (Cons x xs)
  obtain ty0 where ty: "types (var_id x) = Some ty0" using Cons.prems by (cases "types (var_id x)") simp_all
  let ?ty = "SubstType P (cur st) ty0"
  obtain init st0 where init: "(case FindInitValue P ?ty before of Some v \<Rightarrow> (v, st) | None \<Rightarrow> make_var (name_hint x) ?ty st) =
      (init, st0)" by fastforce
  from Cons.prems(1) obtain ia rv st1 st2 ias' rvs' where
    eqs: "make_version P ''iter'' x ?ty st0 = (ia, st1)" "make_version P ''rv'' x ?ty st1 = (rv, st2)"
      "escaping_args P before types xs st2 = Inr (ias', rvs', st')" "ias = (ia, EVar init) # ias'" "rvs = rv # rvs'"
    by (auto simp: ty init Let_def split: prod.splits)
  from make_versionD [OF eqs(1)] make_versionD [OF eqs(2)]
  have n: "var_id ia = next_id st0" "var_id rv = Suc (next_id st0)" "next_id st2 = Suc (Suc (next_id st0))" by auto
  have rest: "i \<in># ids (map fst ias') + ids rvs' \<Longrightarrow> next_id st2 \<le> i" for i
    using escaping_argsD [OF eqs(3)] fresh_ids_set by blast
  have le: "next_id st2 \<le> next_id st'" using escaping_argsD [OF eqs(3)] fresh_ids_le by blast
  have 0: "init \<in> snd ` set before \<and> st0 = st \<or> var_id init = next_id st \<and> next_id st0 = Suc (next_id st)"
    using init by (auto split: option.splits dest: FindInitValue_range dest!: make_varD)
  show ?case
  proof (cases "e = EVar init")
    case True
    with 0 show ?thesis using n rest le by (force simp: eqs)
  next
    case False
    with Cons.prems(2) have "e \<in> snd ` set ias'" by (auto simp: eqs)
    from Cons.IH [OF eqs(3) this] 0 show ?thesis using n by (auto simp: eqs)
  qed
qed simp

lemma prepare_loop_inits:
  assumes "prepare_loop P scoped [] B st = Inr (lp, st')" "e \<in> snd ` set (lp_args lp)"
  shows "\<exists>v. e = EVar v \<and> (v \<in> snd ` set (cur st) \<or>
    next_id st \<le> var_id v \<and> var_id v < next_id st' \<and>
    var_id v \<notin># ids (map fst (lp_args lp)) + ids (lp_carried_rvs lp) + ids (lp_esc_rvs lp))"
proof -
  from assms(1) obtain c_args c_rvs st2 e_args e_rvs where
    c: "carried_args P (cur st) (carried_vars P (cur st) scoped B) st = Inr (c_args, c_rvs, st2)" and
    e: "escaping_args P (cur st) (collect_types P B Map.empty)
        (escaping_vars P (cur st) (future_needs st) scoped B) st2 = Inr (e_args, e_rvs, st')" and
    lp: "lp_args lp = c_args @ e_args" "lp_carried_rvs lp = c_rvs" "lp_esc_rvs lp = e_rvs"
    unfolding prepare_loop_def by (auto simp: Let_def)
  from carried_argsD [OF c] have f: "fresh_ids (next_id st) (next_id st2) (ids (map fst c_args) + ids c_rvs)"
    and m: "map snd c_args = map (\<lambda>x. EVar (the (lookup (cur st) x))) (carried_vars P (cur st) scoped B)"
    and l: "\<forall>x\<in>set (carried_vars P (cur st) scoped B). lookup (cur st) x \<noteq> None" by auto
  show ?thesis
  proof (cases "e \<in> snd ` set c_args")
    case True
    then have "e \<in> set (map snd c_args)" by simp
    then obtain x v where "lookup (cur st) x = Some v" "e = EVar v" using l unfolding m by auto
    then show ?thesis by (auto dest: lookup_range)
  next
    case False
    with assms(2) have "e \<in> snd ` set e_args" by (auto simp: lp)
    from escaping_args_inits [OF e this] fresh_ids_set [OF f] fresh_ids_le [OF f] show ?thesis
      by (fastforce simp: lp)
  qed
qed

section \<open>Yields\<close>

lemma no_yield_last: "\<not> has_yield s \<Longrightarrow> \<not> is_yield s"
  by (cases s) (simp_all add: is_yield_def)

lemma yield_item: "seq_items (YieldStmt es) = [YieldStmt es]" by simp

lemma Flatten_yield:
  assumes "\<forall>s\<in>set ss. \<not> has_yield s"
  shows "GetLastStmt (Flatten (ss @ [YieldStmt es])) = YieldStmt es \<and> \<not> CheckNoMidBodyYield (Flatten (ss @ [YieldStmt es]))"
proof -
  have item: "\<not> has_yield s \<Longrightarrow> t \<in> set (seq_items s) \<Longrightarrow> \<not> has_yield t" for s t :: "'o Stmt"
    by (cases s rule: seq_items.cases) auto
  have "\<not> has_yield t" if "\<not> has_yield s" "t \<in> set (case s of SeqStmts ss \<Rightarrow> concat (map seq_items ss) | _ \<Rightarrow> [s])" for s t :: "'o Stmt"
    using that item by (cases s) auto
  then have f: "\<forall>t\<in>set (flat_items ss). \<not> is_yield t"
    using assms no_yield_last unfolding flat_items_def by fastforce
  have "flat_items (ss @ [YieldStmt es]) = flat_items ss @ [YieldStmt es]" by (simp add: flat_items_def)
  then have "Flatten (ss @ [YieldStmt es]) = (if flat_items ss = [] then YieldStmt es else SeqStmts (flat_items ss @ [YieldStmt es]))"
    by (simp add: Flatten_def split: list.split)
  with f show ?thesis by auto
qed

lemma ReplaceOrAppendYield_last:
  "ReplaceOrAppendYield s es = Inr s' \<Longrightarrow> \<not> has_yield s \<Longrightarrow> GetLastStmt s' = YieldStmt es \<and> \<not> CheckNoMidBodyYield s'"
proof (induction s es arbitrary: s' rule: ReplaceOrAppendYield.induct)
  case (2 k n B vals)
  show ?case
  proof (cases "transparent k")
    case False
    with 2(2,3) Flatten_yield [of "[ScopeStmt k n B]" vals] show ?thesis by auto
  qed (use 2 in auto)
next
  case (3 ss vals)
  have "y = None" if "ss \<noteq> []" "ExtractYield (last ss) = Inr y" for y
    using that 3(3) ExtractYield_none [of "last ss" y] by auto
  with 3(2) have "s' = Flatten (ss @ [YieldStmt vals])" by (auto split: if_splits)
  with Flatten_yield [of ss vals] 3(3) show ?case by simp
qed (auto simp: Flatten_yield [of "[_]", simplified])

lemma verify_yield_ok:
  "ReplaceOrAppendYield s es = Inr s' \<Longrightarrow> \<not> has_yield s \<Longrightarrow> length es = n \<Longrightarrow> verify_yield n s' = []"
  using ReplaceOrAppendYield_last [of s es s'] by (simp add: verify_yield_def)

lemma yield_errors_Flatten [simp]: "yield_errors (Flatten ss) = (\<Union>s\<in>set ss. yield_errors s)"
proof -
  have "e \<in> yield_errors (Flatten ss) \<longleftrightarrow> (\<exists>s\<in>set ss. e \<in> yield_errors s)" for e
    by (rule Flatten_ex) simp
  then show ?thesis by blast
qed

lemma ReplaceOrAppendYield_errors:
  "ReplaceOrAppendYield s es = Inr s' \<Longrightarrow> \<not> has_yield s \<Longrightarrow> yield_errors s' = yield_errors s"
proof (induction s es arbitrary: s' rule: ReplaceOrAppendYield.induct)
  case (3 ss vals)
  have "y = None" if "ss \<noteq> []" "ExtractYield (last ss) = Inr y" for y
    using that 3(3) ExtractYield_none [of "last ss" y] by auto
  with 3(2) have "s' = Flatten (ss @ [YieldStmt vals])" by (auto split: if_splits)
  then show ?case by simp
qed (auto split: if_splits)

text \<open>A loop or branch of the result ends in a yield of as many values as it returns.\<close>

lemma loop_yield_ok:
  assumes "\<not> has_yield B1" "n = length keys" "m = length keys"
    and "if keys = [] then B2 = B1 else ReplaceOrAppendYield B1 (map EVar (map f keys)) = Inr B2"
  shows "VerifyLoopIterArgsAndYield n m B2 = [] \<and> yield_errors B2 = yield_errors B1"
  using assms verify_yield_ok [of B1 "map EVar (map f keys)" B2 n] ReplaceOrAppendYield_errors [of B1 _ B2]
  by (auto simp: VerifyLoopIterArgsAndYield_def split: if_splits)

theorem ConvertStmt_yield_errors:
  assumes "orders P"
  shows "ConvertStmt P (s :: 'o Stmt) st = Inr (s', st') \<Longrightarrow> plain s \<Longrightarrow> yield_errors s' = {}"
proof (induction s arbitrary: st s' st')
  case (SeqStmts ss)
  then obtain ss' where ss': "ConvertSeq P ss st = Inr (ss', st')" "s' = Flatten ss'" by auto
  have "\<forall>s'\<in>set ss'. yield_errors s' = {}" by (rule ConvertSeq_all [OF ss'(1)]) (use SeqStmts in auto)
  then show ?case by (simp add: ss'(2))
next
  case (IfStmt c a b rvs)
  from IfStmt.prems(1) show ?case
  proof (rule ConvertStmt_IfE)
    fix a1 st1 b1 st2
    assume a: "ConvertStmt P a st = Inr (a1, st1)"
      and b: "(case b of None \<Rightarrow> b1 = None \<and> st2 = st1\<lparr>cur := cur st\<rparr>
        | Some e \<Rightarrow> \<exists>e1. b1 = Some e1 \<and> ConvertStmt P e (st1\<lparr>cur := cur st\<rparr>) = Inr (e1, st2))"
      and m: "merge_branches P (SubstExpr (cur st) c) (cur st) a1 (cur st1) b1 (cur st2) rvs st2 = Inr (s', st')"
    have ya: "\<not> has_yield a1" "yield_errors a1 = {}" using ConvertStmt_no_yield [OF a] IfStmt.IH(1) [OF a] IfStmt.prems(2) by auto
    have yb: "\<not> has_yield e1 \<and> yield_errors e1 = {}" if "b1 = Some e1" for e1
    proof (cases b)
      case (Some e)
      with b that have e: "ConvertStmt P e (st1\<lparr>cur := cur st\<rparr>) = Inr (e1, st2)" by simp
      from Some IfStmt.prems(2) have "plain e" by simp
      with ConvertStmt_no_yield [OF e] IfStmt.IH(2) [OF _ e] Some show ?thesis by simp
    qed (use b that in simp)
    have "rvs = []" using IfStmt.prems(2) by simp
    from m [unfolded this] show "yield_errors s' = {}"
    proof (rule merge_plain)
      fix vs
      let ?phis = "phi_vars P (cur st) (cur st1) (cur st2)"
      assume l: "length vs = length ?phis"
        and m: "if ?phis = [] then s' = IfStmt (SubstExpr (cur st) c) a1 b1 []
          else \<exists>a' b'. s' = IfStmt (SubstExpr (cur st) c) a' (Some b') vs \<and>
            ReplaceOrAppendYield a1 (map EVar (map (chosen (cur st) (cur st1)) ?phis)) = Inr a' \<and>
            (case b1 of None \<Rightarrow> b' = YieldStmt (map EVar (map (chosen (cur st) (cur st2)) ?phis))
              | Some e \<Rightarrow> ReplaceOrAppendYield e (map EVar (map (chosen (cur st) (cur st2)) ?phis)) = Inr b')"
      show "yield_errors s' = {}"
      proof (cases "?phis = []")
        case True
        with m ya yb show ?thesis by (simp add: VerifyIfStmt_def split: option.splits)
      next
        case False
        with m obtain a' b' where s': "s' = IfStmt (SubstExpr (cur st) c) a' (Some b') vs"
          and a': "ReplaceOrAppendYield a1 (map EVar (map (chosen (cur st) (cur st1)) ?phis)) = Inr a'"
          and b': "case b1 of None \<Rightarrow> b' = YieldStmt (map EVar (map (chosen (cur st) (cur st2)) ?phis))
              | Some e \<Rightarrow> ReplaceOrAppendYield e (map EVar (map (chosen (cur st) (cur st2)) ?phis)) = Inr b'" by auto
        have 1: "verify_yield (length vs) a' = []" "yield_errors a' = {}"
          using verify_yield_ok [OF a' ya(1)] ReplaceOrAppendYield_errors [OF a' ya(1)] ya(2) l by simp_all
        have 2: "verify_yield (length vs) b' = [] \<and> yield_errors b' = {}"
        proof (cases b1)
          case None
          with b' l show ?thesis by (simp add: verify_yield_def)
        next
          case (Some e)
          with b' have r: "ReplaceOrAppendYield e (map EVar (map (chosen (cur st) (cur st2)) ?phis)) = Inr b'" by simp
          from yb [OF Some] verify_yield_ok [OF r] ReplaceOrAppendYield_errors [OF r] l show ?thesis by simp
        qed
        show ?thesis using 1 2 by (simp add: s' VerifyIfStmt_def)
      qed
    qed
  qed
next
  case (ForStmt h ias B rvs)
  then have ias: "ias = []" "rvs = []" "plain B" by auto
  from ForStmt.prems(1) show ?case unfolding ias
  proof (rule ConvertStmt_ForE, unfold append.simps list.map)
    fix lp :: "'o LoopPrep" and st1 lv st2 B1 st4 B2 rvs2
    let ?st3 = "RegisterIterArgs (lp_carried lp @ lp_escaping lp) (map fst (lp_args lp))
      (st2\<lparr>cur := assign (loop_var h) lv (cur st2)\<rparr>)"
    assume p: "prepare_loop P [loop_var h] [] B st = Inr (lp, st1)" and
      lv: "make_version P ''idx'' (loop_var h) (var_type (loop_var h)) st1 = (lv, st2)" and
      b: "ConvertStmt P B ?st3 = Inr (B1, st4)" and
      f: "finish_loop P (cur st) [] [] lp B1 st4 = Inr (B2, rvs2, st')" and
      s': "s' = ForStmt (h\<lparr>loop_var := lv, for_start := SubstExpr (cur st) (for_start h),
        for_stop := SubstExpr (cur st) (for_stop h), for_step := SubstExpr (cur st) (for_step h)\<rparr>) (lp_args lp) B2 rvs2"
    have n: "next_id st1 \<le> next_id (st2\<lparr>cur := assign (loop_var h) lv (cur st2)\<rparr>)" using make_versionD [OF lv] by simp
    note l = loop_finish [OF p refl n b ias(3) ConvertStmt_keeps [OF assms b ias(3)] f]
    have "VerifyLoopIterArgsAndYield (length (lp_args lp)) (length rvs2) B2 = [] \<and> yield_errors B2 = yield_errors B1"
      by (rule loop_yield_ok [OF ConvertStmt_no_yield [OF b ias(3)] _ _ l(6)]) (use prepare_plain(3-5) [OF p] in \<open>simp_all add: l(1)\<close>)
    with ForStmt.IH [OF b ias(3)] show "yield_errors s' = {}" by (simp add: s')
  qed
next
  case (WhileStmt c ias B rvs)
  then have ias: "ias = []" "rvs = []" "plain B" by auto
  from WhileStmt.prems(1) show ?case unfolding ias
  proof (rule ConvertStmt_WhileE, unfold append.simps list.map)
    fix lp :: "'o LoopPrep" and st1 and st2 :: SSAConverter and B1 st4 B2 rvs2
    assume p: "prepare_loop P [] [] B st = Inr (lp, st1)" and
      st2: "st2 = RegisterIterArgs (lp_carried lp @ lp_escaping lp) (map fst (lp_args lp)) st1" and
      b: "ConvertStmt P B st2 = Inr (B1, st4)" and
      f: "finish_loop P (cur st) [] [] lp B1 st4 = Inr (B2, rvs2, st')" and
      s': "s' = WhileStmt (SubstExpr (cur st2) c) (lp_args lp) B2 rvs2"
    note l = loop_finish [OF p st2 le_refl b ias(3) ConvertStmt_keeps [OF assms b ias(3)] f]
    have "VerifyLoopIterArgsAndYield (length (lp_args lp)) (length rvs2) B2 = [] \<and> yield_errors B2 = yield_errors B1"
      by (rule loop_yield_ok [OF ConvertStmt_no_yield [OF b ias(3)] _ _ l(6)]) (use prepare_plain(3-5) [OF p] in \<open>simp_all add: l(1)\<close>)
    with WhileStmt.IH [OF b ias(3)] show "yield_errors s' = {}" by (simp add: s')
  qed
next
  case (ScopeStmt k n B)
  from ScopeStmt.prems obtain st0 B' st1 where "ConvertStmt P B st0 = Inr (B', st1)" "s' = ScopeStmt k (map_option (SubstExpr (cur st)) n) B'"
    by (auto simp: Let_def)
  with ScopeStmt.IH ScopeStmt.prems(2) show ?case by auto
qed (auto simp: AllocVersion_def Let_def split: prod.splits)

section \<open>Scopes\<close>

text \<open>Types whose shapes mention no variables.\<close>

definition static_shapes :: "TypeVars \<Rightarrow> bool" where
  "static_shapes T \<longleftrightarrow> (\<forall>t. shape_vars T t = [])"

lemma unbound_iff:
  "static_shapes T \<Longrightarrow> x \<in> unbound T S es \<longleftrightarrow> (\<exists>e\<in>set es. x \<in> set (expr_vars e)) \<and> var_id x \<notin> S"
proof -
  have "concat (map (\<lambda>x. [x]) xs) = xs" for xs :: "Var list" by (induction xs) simp_all
  then show "static_shapes T \<Longrightarrow> ?thesis" by (auto simp: unbound_def met_def static_shapes_def)
qed

lemma expr_vars_SubstExpr:
  "expr_vars (SubstExpr c e) = map (\<lambda>x. case lookup c x of Some v \<Rightarrow> v | None \<Rightarrow> x) (expr_vars e)"
proof (induction e)
  case (EVar x)
  then show ?case by (cases "lookup c x") simp_all
next
  case (Op f es)
  then show ?case by (induction es) simp_all
qed simp_all

lemma unbound_SubstExpr:
  assumes "static_shapes T" "in_scope S c" "x \<in> unbound T S (map (SubstExpr c) es)"
  shows "var_id x \<in> used es"
proof -
  from assms(3) obtain e y where e: "e \<in> set es" "y \<in> set (expr_vars e)" "x = (case lookup c y of Some v \<Rightarrow> v | None \<Rightarrow> y)"
      "var_id x \<notin> S"
    by (auto simp: unbound_iff [OF assms(1)] expr_vars_SubstExpr)
  with in_scope_lookup [OF assms(2)] have "x = y" by (auto split: option.splits)
  with e show ?thesis by (auto simp: used_def)
qed

lemma unbound_append: "unbound T S (es @ es') = unbound T S es \<union> unbound T S es'"
  by (auto simp: unbound_def met_def)

lemma seq_violations_append:
  "seq_violations T S (ss @ ts) = seq_violations T S ss \<union> seq_violations T (S \<union> (\<Union>s\<in>set ss. binds T s)) ts"
  by (induction ss arbitrary: S) (simp_all add: Un_ac)

lemma binds_Flatten [simp]: "binds T (Flatten ss) = (\<Union>s\<in>set ss. binds T s)"
proof -
  have "i \<in> binds T (Flatten ss) \<longleftrightarrow> (\<exists>s\<in>set ss. i \<in> binds T s)" for i by (rule Flatten_ex) simp
  then show ?thesis by blast
qed

text \<open>Flattening a sequence does not change what is in scope in it.\<close>

definition same_scopes :: "TypeVars \<Rightarrow> 'o Stmt list \<Rightarrow> 'o Stmt \<Rightarrow> bool" where
  "same_scopes T ts s \<longleftrightarrow> (\<forall>S. seq_violations T S ts = violations T S s) \<and> (\<Union>t\<in>set ts. binds T t) = binds T s"

lemma same_scopes_concat: "(\<And>s. s \<in> set ss \<Longrightarrow> same_scopes T (g s) s) \<Longrightarrow> same_scopes T (concat (map g ss)) (SeqStmts ss)"
  by (induction ss) (auto simp: same_scopes_def seq_violations_append)

lemma same_scopes_items: "same_scopes T (seq_items s) s"
  by (cases s rule: seq_items.cases) (simp_all add: same_scopes_def)

lemma violations_Flatten [simp]: "violations T S (Flatten ss) = seq_violations T S ss"
proof -
  have "same_scopes T (case s of SeqStmts ss \<Rightarrow> concat (map seq_items ss) | _ \<Rightarrow> [s]) s" for s :: "'o Stmt"
    by (cases s) (simp_all add: same_scopes_concat same_scopes_items, simp_all add: same_scopes_def)
  then have "same_scopes T (flat_items ss) (SeqStmts ss)"
    unfolding flat_items_def by (intro same_scopes_concat)
  then have "seq_violations T S (flat_items ss) = seq_violations T S ss" by (simp add: same_scopes_def)
  then show ?thesis by (cases "flat_items ss" rule: remdups_adj.cases) (simp_all add: Flatten_def)
qed

lemma ReplaceOrAppendYield_scopes:
  fixes s :: "'o Stmt"
  shows "ReplaceOrAppendYield s (map EVar xs) = Inr s' \<Longrightarrow> \<not> has_yield s \<Longrightarrow> static_shapes T \<Longrightarrow>
   \<forall>x\<in>set xs. var_id x \<in> S \<union> binds T s \<Longrightarrow> violations T S s' = violations T S s \<and> binds T s' = binds T s"
proof (induction s "map EVar xs :: 'o Expr list" arbitrary: s' rule: ReplaceOrAppendYield.induct)
  case (2 k n B)
  have y: "unbound T (S \<union> binds T B) (map EVar xs :: 'o Expr list) = {}" using 2(4,5) by (auto simp: unbound_iff)
  show ?case using 2 y by (auto split: if_splits)
next
  case (3 ss)
  have "y = None" if "ss \<noteq> []" "ExtractYield (last ss) = Inr y" for y
    using that 3(3) ExtractYield_none [of "last ss" y] by auto
  with 3(2) have s': "s' = Flatten (ss @ [YieldStmt (map EVar xs)])" by (auto split: if_splits)
  have "unbound T (S \<union> (\<Union>s\<in>set ss. binds T s)) (map EVar xs :: 'o Expr list) = {}" using 3(4,5) by (auto simp: unbound_iff)
  then show ?case by (simp add: s' seq_violations_append)
qed (auto simp: unbound_iff)

text \<open>The variables that a statement reads, anywhere in it.\<close>

fun reads :: "'o Stmt \<Rightarrow> nat set" where
  "reads (AssignStmt x e) = used [e]"
| "reads (ForStmt h ias B rvs) = used ([for_start h, for_stop h, for_step h] @ map snd ias) \<union> reads B"
| "reads (WhileStmt c ias B rvs) = used (c # map snd ias) \<union> reads B"
| "reads (IfStmt c a b rvs) = used [c] \<union> reads a \<union> (case b of None \<Rightarrow> {} | Some b \<Rightarrow> reads b)"
| "reads (YieldStmt es) = used es"
| "reads (ReturnStmt es) = used es"
| "reads (EvalStmt e) = used [e]"
| "reads (ScopeStmt k n B) = (case n of None \<Rightarrow> {} | Some e \<Rightarrow> used [e]) \<union> reads B"
| "reads (SeqStmts ss) = (\<Union>s\<in>set ss. reads s)"
| "reads BreakStmt = {}"
| "reads ContinueStmt = {}"

text \<open>
  A violation in the result is a variable of the input that had no version, or a variable made in between that the
  result does not define.
\<close>

definition excused :: "nat set \<Rightarrow> nat \<Rightarrow> nat \<Rightarrow> nat multiset \<Rightarrow> Var set \<Rightarrow> bool" where
  "excused R n n' M X \<longleftrightarrow> (\<forall>x\<in>X. var_id x \<in> R \<or> n \<le> var_id x \<and> var_id x < n' \<and> var_id x \<notin># M)"

lemma excused_empty [simp]: "excused R n n' M {}"
  by (simp add: excused_def)

lemma excused_Un [simp]: "excused R n n' M (X \<union> Y) \<longleftrightarrow> excused R n n' M X \<and> excused R n n' M Y"
  by (auto simp: excused_def)

lemma excused_mono:
  assumes "excused R m m' M X" "R \<subseteq> R'" "n \<le> m" "m' \<le> n'" "\<forall>i\<in>#N. m \<le> i \<and> i < m' \<longrightarrow> i \<in># M"
  shows "excused R' n n' N X"
  using assms by (fastforce simp: excused_def)

lemma excused_reads: "\<forall>x\<in>X. var_id x \<in> R \<Longrightarrow> excused R n n' M X"
  by (simp add: excused_def)

lemma ConvertSeq_scopes:
  assumes "ConvertSeq P ss st = Inr (ss', st')" "in_scope S (cur st)"
    and "\<And>s st s' st' S. s \<in> set ss \<Longrightarrow> ConvertStmt P s st = Inr (s', st') \<Longrightarrow> in_scope S (cur st) \<Longrightarrow>
      excused (reads s) (next_id st) (next_id st') (defs s') (violations T S s') \<and> in_scope (S \<union> binds T s') (cur st')"
  shows "excused (\<Union>s\<in>set ss. reads s) (next_id st) (next_id st') (sum_list (map defs ss')) (seq_violations T S ss') \<and>
    in_scope (S \<union> (\<Union>s\<in>set ss'. binds T s)) (cur st')"
  using assms
proof (induction ss arbitrary: st ss' st' S)
  case (Cons s ss)
  from Cons.prems(1) obtain s1 st1 ss1 where
    eqs: "ConvertStmt P s (st\<lparr>future_needs := suffix_needs ss\<rparr>) = Inr (s1, st1)" "ConvertSeq P ss st1 = Inr (ss1, st')"
      "ss' = s1 # ss1" by auto
  have s: "excused (reads s) (next_id st) (next_id st1) (defs s1) (violations T S s1) \<and> in_scope (S \<union> binds T s1) (cur st1)"
    using Cons.prems(3) [OF _ eqs(1)] Cons.prems(2) by simp
  have ss: "excused (\<Union>s\<in>set ss. reads s) (next_id st1) (next_id st') (sum_list (map defs ss1)) (seq_violations T (S \<union> binds T s1) ss1) \<and>
      in_scope (S \<union> binds T s1 \<union> (\<Union>s\<in>set ss1. binds T s)) (cur st')"
  proof (rule Cons.IH [OF eqs(2) conjunct2 [OF s]])
    fix t and st :: SSAConverter and t' st' S
    assume "t \<in> set ss" "ConvertStmt P t st = Inr (t', st')" "in_scope S (cur st)"
    then show "excused (reads t) (next_id st) (next_id st') (defs t') (violations T S t') \<and> in_scope (S \<union> binds T t') (cur st')"
      using Cons.prems(3) [of t] by simp
  qed
  have f: "fresh_ids (next_id st) (next_id st1) (defs s1)" using ConvertStmt_defs [OF eqs(1)] by simp
  have fs: "fresh_ids (next_id st1) (next_id st') (sum_list (map defs ss1))"
    by (rule ConvertSeq_defs [OF _ eqs(2)]) (rule ConvertStmt_defs)
  note le = fresh_ids_le [OF f] fresh_ids_le [OF fs]
  have "excused (\<Union>s\<in>set (s # ss). reads s) (next_id st) (next_id st') (sum_list (map defs ss')) (violations T S s1)"
    by (rule excused_mono [OF conjunct1 [OF s]]) (use le fresh_ids_set [OF fs] in \<open>fastforce simp: eqs(3)\<close>)+
  moreover have "excused (\<Union>s\<in>set (s # ss). reads s) (next_id st) (next_id st') (sum_list (map defs ss'))
      (seq_violations T (S \<union> binds T s1) ss1)"
    by (rule excused_mono [OF conjunct1 [OF ss]]) (use le fresh_ids_set [OF f] in \<open>fastforce simp: eqs(3)\<close>)+
  ultimately show ?case using ss by (simp add: eqs(3) Un_ac)
qed simp

lemma chosen_in_scope:
  "in_scope S c \<Longrightarrow> in_scope S t \<Longrightarrow> lookup t x \<noteq> None \<or> lookup c x \<noteq> None \<Longrightarrow> var_id (chosen c t x) \<in> S"
  using in_scope_lookup [of S c x] in_scope_lookup [of S t x] by (auto simp: chosen_def)

lemma phi_vars_versions:
  assumes "orders P" "x \<in> set (phi_vars P c t e)"
  shows "lookup t x \<noteq> None \<or> lookup c x \<noteq> None" and "lookup e x \<noteq> None \<or> lookup c x \<noteq> None"
  using phi_vars_in [OF assms] by (auto simp: diverges_def changed_def split: if_splits option.splits)

text \<open>The start values of a loop, and the yield at the end of its body.\<close>

lemma loop_inits_excused:
  assumes "prepare_loop P scoped [] B st = Inr (lp, st1)" "static_shapes T" "in_scope S (cur st)"
  shows "excused R (next_id st) (next_id st1) (ids (map fst (lp_args lp)) + ids (lp_carried_rvs lp) + ids (lp_esc_rvs lp))
    (unbound T S (map snd (lp_args lp)))"
  unfolding excused_def
proof
  fix x
  assume "x \<in> unbound T S (map snd (lp_args lp))"
  then obtain e where e: "e \<in> snd ` set (lp_args lp)" "x \<in> set (expr_vars e)" "var_id x \<notin> S"
    unfolding unbound_iff [OF assms(2)] by auto
  have "x \<notin> snd ` set (cur st)" using e(3) assms(3) by (auto simp: in_scope_def)
  moreover from prepare_loop_inits [OF assms(1) e(1)] obtain v where v: "e = EVar v" "v \<in> snd ` set (cur st) \<or>
      next_id st \<le> var_id v \<and> var_id v < next_id st1 \<and>
      var_id v \<notin># ids (map fst (lp_args lp)) + ids (lp_carried_rvs lp) + ids (lp_esc_rvs lp)" by blast
  moreover have "x = v" using e(2) v(1) by simp
  ultimately show "var_id x \<in> R \<or> next_id st \<le> var_id x \<and> var_id x < next_id st1 \<and>
      var_id x \<notin># ids (map fst (lp_args lp)) + ids (lp_carried_rvs lp) + ids (lp_esc_rvs lp)"
    by blast
qed

lemma loop_body_scopes:
  fixes B1 :: "'o Stmt"
  assumes "if keys = [] then B2 = B1
      else ReplaceOrAppendYield B1 (map EVar (map (\<lambda>x. the (lookup c x)) keys)) = Inr B2"
    and "\<not> has_yield B1" "static_shapes T" "in_scope (S \<union> binds T B1) c" "\<forall>x\<in>set keys. lookup c x \<noteq> None"
  shows "violations T S B2 = violations T S B1"
proof (cases "keys = []")
  case False
  have "\<forall>v\<in>set (map (\<lambda>x. the (lookup c x)) keys). var_id v \<in> S \<union> binds T B1"
    using assms(5) in_scope_lookup [OF assms(4)] by fastforce
  moreover have "ReplaceOrAppendYield B1 (map EVar (map (\<lambda>x. the (lookup c x)) keys)) = Inr B2" using assms(1) False by simp
  ultimately show ?thesis using ReplaceOrAppendYield_scopes [OF _ assms(2,3)] by blast
qed (use assms(1) in simp)

theorem ConvertStmt_scopes:
  assumes P: "orders P" and T: "static_shapes T"
  shows "ConvertStmt P (s :: 'o Stmt) st = Inr (s', st') \<Longrightarrow> plain s \<Longrightarrow> in_scope S (cur st) \<Longrightarrow>
    excused (reads s) (next_id st) (next_id st') (defs s') (violations T S s') \<and> in_scope (S \<union> binds T s') (cur st')"
proof (induction s arbitrary: st s' st' S)
  case (AssignStmt x e)
  obtain v st1 where v: "make_version P ''ssa'' x (SubstType P (cur st) (GetAuthoritativeAssignmentType P (var_type x)
      (SubstExpr (cur st) e))) st = (v, st1)" by fastforce
  with AssignStmt.prems(1) have s': "s' = AssignStmt v (SubstExpr (cur st) e)" "cur st' = assign x v (cur st1)"
    by (auto simp: AllocVersion_def Let_def)
  have "\<forall>y\<in>unbound T S [SubstExpr (cur st) e]. var_id y \<in> used [e]"
    using unbound_SubstExpr [OF T AssignStmt.prems(3), of _ "[e]"] by simp
  moreover have "in_scope (S \<union> binds T s') (cur st')"
    unfolding s' using make_versionD [OF v]
    by (intro in_scope_assign) (auto intro: in_scope_mono [OF AssignStmt.prems(3)])
  ultimately show ?case by (simp add: s' excused_def)
next
  case (EvalStmt e)
  then show ?case using unbound_SubstExpr [OF T, of S "cur st" _ "[e]"] by (auto simp: excused_def)
next
  case (ReturnStmt es)
  then show ?case using unbound_SubstExpr [OF T, of S "cur st" _ es] by (auto simp: excused_def)
next
  case (SeqStmts ss)
  then obtain ss' where ss': "ConvertSeq P ss st = Inr (ss', st')" "s' = Flatten ss'" by auto
  have "excused (\<Union>s\<in>set ss. reads s) (next_id st) (next_id st') (sum_list (map defs ss')) (seq_violations T S ss') \<and>
      in_scope (S \<union> (\<Union>s\<in>set ss'. binds T s)) (cur st')"
    by (rule ConvertSeq_scopes [OF ss'(1) SeqStmts.prems(3)]) (use SeqStmts.IH SeqStmts.prems(2) in auto)
  then show ?case by (simp add: ss'(2))
next
  case (IfStmt c a b rvs)
  from IfStmt.prems(1) show ?case
  proof (rule ConvertStmt_IfE)
    fix a1 and st1 :: SSAConverter and b1 and st2 :: SSAConverter
    let ?phis = "phi_vars P (cur st) (cur st1) (cur st2)"
    assume a: "ConvertStmt P a st = Inr (a1, st1)"
      and b: "(case b of None \<Rightarrow> b1 = None \<and> st2 = st1\<lparr>cur := cur st\<rparr>
        | Some e \<Rightarrow> \<exists>e1. b1 = Some e1 \<and> ConvertStmt P e (st1\<lparr>cur := cur st\<rparr>) = Inr (e1, st2))"
      and m: "merge_branches P (SubstExpr (cur st) c) (cur st) a1 (cur st1) b1 (cur st2) rvs st2 = Inr (s', st')"
    let ?B = "case b of None \<Rightarrow> {} | Some e \<Rightarrow> reads e"
    let ?V = "case b1 of None \<Rightarrow> {} | Some e \<Rightarrow> violations T S e" and ?D = "case b1 of None \<Rightarrow> {#} | Some e \<Rightarrow> defs e"
    have pa: "plain a" and pb: "\<And>e. b = Some e \<Longrightarrow> plain e" and "rvs = []" using IfStmt.prems(2) by auto
    note A = IfStmt.IH(1) [OF a pa IfStmt.prems(3)]
    have B: "excused ?B (next_id st1) (next_id st2) ?D ?V \<and> fresh_ids (next_id st1) (next_id st2) ?D"
    proof (cases b)
      case (Some e)
      with b obtain e1 where e1: "b1 = Some e1" "ConvertStmt P e (st1\<lparr>cur := cur st\<rparr>) = Inr (e1, st2)" by auto
      from IfStmt.IH(2) [OF _ e1(2) pb, of S] IfStmt.prems(3) ConvertStmt_defs [OF e1(2)] Some show ?thesis by (simp add: e1(1))
    qed (use b in simp)
    have Be: "in_scope (S \<union> (case b1 of None \<Rightarrow> {} | Some e \<Rightarrow> binds T e)) (cur st2)"
    proof (cases b)
      case (Some e)
      with b obtain e1 where e1: "b1 = Some e1" "ConvertStmt P e (st1\<lparr>cur := cur st\<rparr>) = Inr (e1, st2)" by auto
      from IfStmt.IH(2) [OF _ e1(2) pb, of S] IfStmt.prems(3) Some show ?thesis by (simp add: e1(1))
    qed (use b IfStmt.prems(3) in simp)
    note da = ConvertStmt_defs [OF a]
    from m [unfolded \<open>rvs = []\<close>] show "excused (reads (IfStmt c a b rvs)) (next_id st) (next_id st') (defs s') (violations T S s') \<and>
      in_scope (S \<union> binds T s') (cur st')"
    proof (rule merge_plain)
      fix vs
      assume l: "length vs = length ?phis" and f: "fresh_ids (next_id st2) (next_id st') (ids vs)"
        and cur: "cur st' = assigns ?phis vs (cur st)"
        and m: "if ?phis = [] then s' = IfStmt (SubstExpr (cur st) c) a1 b1 []
          else \<exists>a' b'. s' = IfStmt (SubstExpr (cur st) c) a' (Some b') vs \<and>
            ReplaceOrAppendYield a1 (map EVar (map (chosen (cur st) (cur st1)) ?phis)) = Inr a' \<and>
            (case b1 of None \<Rightarrow> b' = YieldStmt (map EVar (map (chosen (cur st) (cur st2)) ?phis))
              | Some e \<Rightarrow> ReplaceOrAppendYield e (map EVar (map (chosen (cur st) (cur st2)) ?phis)) = Inr b')"
      have v: "violations T S s' = unbound T S [SubstExpr (cur st) c] \<union> violations T S a1 \<union> ?V \<and>
          defs s' = defs a1 + ?D + ids vs \<and> binds T s' = var_id ` set vs"
      proof (cases "?phis = []")
        case True
        with m l show ?thesis by simp
      next
        case False
        with m obtain a' b' where s': "s' = IfStmt (SubstExpr (cur st) c) a' (Some b') vs"
          and a': "ReplaceOrAppendYield a1 (map EVar (map (chosen (cur st) (cur st1)) ?phis)) = Inr a'"
          and b': "case b1 of None \<Rightarrow> b' = YieldStmt (map EVar (map (chosen (cur st) (cur st2)) ?phis))
              | Some e \<Rightarrow> ReplaceOrAppendYield e (map EVar (map (chosen (cur st) (cur st2)) ?phis)) = Inr b'" by auto
        have "\<forall>x\<in>set (map (chosen (cur st) (cur st1)) ?phis). var_id x \<in> S \<union> binds T a1"
          using phi_vars_versions [OF P] chosen_in_scope [OF in_scope_mono [OF IfStmt.prems(3)] conjunct2 [OF A]] by fastforce
        from ReplaceOrAppendYield_scopes [OF a' ConvertStmt_no_yield [OF a pa] T this]
        have 1: "violations T S a' = violations T S a1" "defs a' = defs a1" using ReplaceOrAppendYield_defs [OF a'] by auto
        have e: "\<forall>x\<in>set (map (chosen (cur st) (cur st2)) ?phis). var_id x \<in> S \<union> (case b1 of None \<Rightarrow> {} | Some e \<Rightarrow> binds T e)"
          using phi_vars_versions [OF P] chosen_in_scope [OF in_scope_mono [OF IfStmt.prems(3)] Be] by fastforce
        have 2: "violations T S b' = ?V \<and> defs b' = ?D"
        proof (cases b1)
          case None
          with b' e show ?thesis by (auto simp: unbound_iff [OF T])
        next
          case (Some e1)
          with b' have r: "ReplaceOrAppendYield e1 (map EVar (map (chosen (cur st) (cur st2)) ?phis)) = Inr b'" by simp
          from Some b obtain e0 where "b = Some e0" "ConvertStmt P e0 (st1\<lparr>cur := cur st\<rparr>) = Inr (e1, st2)" by (cases b) auto
          then have "\<not> has_yield e1" using ConvertStmt_no_yield pb by blast
          from ReplaceOrAppendYield_scopes [OF r this T] ReplaceOrAppendYield_defs [OF r] e Some show ?thesis by simp
        qed
        show ?thesis using 1 2 by (simp add: s')
      qed
      have R: "reads (IfStmt c a b rvs) = used [c] \<union> reads a \<union> ?B" by simp
      note le = fresh_ids_le [OF da] fresh_ids_le [OF f] fresh_ids_le [OF conjunct2 [OF B]]
      have "excused (reads (IfStmt c a b rvs)) (next_id st) (next_id st') (defs s') (unbound T S [SubstExpr (cur st) c])"
        using unbound_SubstExpr [OF T IfStmt.prems(3), of _ "[c]"] by (auto simp: excused_def)
      moreover have "excused (reads (IfStmt c a b rvs)) (next_id st) (next_id st') (defs s') (violations T S a1)"
        by (rule excused_mono [OF conjunct1 [OF A]])
          (use v le fresh_ids_set [OF conjunct2 [OF B]] fresh_ids_set [OF f] in \<open>fastforce simp: R\<close>)+
      moreover have "excused (reads (IfStmt c a b rvs)) (next_id st) (next_id st') (defs s') ?V"
        by (rule excused_mono [OF conjunct1 [OF B]])
          (use v le fresh_ids_set [OF da] fresh_ids_set [OF f] in \<open>fastforce simp: R\<close>)+
      moreover have "in_scope (S \<union> binds T s') (cur st')"
        unfolding cur by (rule in_scope_assigns [OF in_scope_mono [OF IfStmt.prems(3)]]) (use v in auto)
      ultimately show ?thesis using v by simp
    qed
  qed
next
  case (ForStmt h ias B rvs)
  then have ias: "ias = []" "rvs = []" "plain B" by auto
  from ForStmt.prems(1) show ?case unfolding ias
  proof (rule ConvertStmt_ForE, unfold append.simps list.map)
    fix lp :: "'o LoopPrep" and st1 lv st2 B1 st4 B2 rvs2
    let ?es = "[for_start h, for_stop h, for_step h]" and ?ias = "map fst (lp_args lp)"
    let ?st3 = "RegisterIterArgs (lp_carried lp @ lp_escaping lp) ?ias (st2\<lparr>cur := assign (loop_var h) lv (cur st2)\<rparr>)"
    let ?S = "S \<union> var_id ` set (lv # ?ias)"
    assume p: "prepare_loop P [loop_var h] [] B st = Inr (lp, st1)" and
      lv: "make_version P ''idx'' (loop_var h) (var_type (loop_var h)) st1 = (lv, st2)" and
      b: "ConvertStmt P B ?st3 = Inr (B1, st4)" and
      f: "finish_loop P (cur st) [] [] lp B1 st4 = Inr (B2, rvs2, st')" and
      s': "s' = ForStmt (h\<lparr>loop_var := lv, for_start := SubstExpr (cur st) (for_start h),
        for_stop := SubstExpr (cur st) (for_stop h), for_step := SubstExpr (cur st) (for_step h)\<rparr>) (lp_args lp) B2 rvs2"
    note v = make_versionD [OF lv] and pd = prepare_loopD [OF p]
    have n: "next_id st1 \<le> next_id (st2\<lparr>cur := assign (loop_var h) lv (cur st2)\<rparr>)" using v by simp
    note l = loop_finish [OF p refl n b ias(3) ConvertStmt_keeps [OF P b ias(3)] f]
    have "in_scope ?S (cur ?st3)"
      using v pd(2) by (intro in_scope_RegisterIterArgs) (auto intro!: in_scope_assign intro: in_scope_mono [OF ForStmt.prems(3)])
    note B = ForStmt.IH [OF b ias(3) this]
    have vB: "violations T ?S B2 = violations T ?S B1"
      by (rule loop_body_scopes [OF l(6) ConvertStmt_no_yield [OF b ias(3)] T conjunct2 [OF B] l(5)])
    have dB: "fresh_ids (Suc (next_id st1)) (next_id st') (defs B1)" "defs B2 = defs B1"
      using ConvertStmt_defs [OF b] v l(4) finish_loopD [OF f] by auto
    have d: "defs s' = {#var_id lv#} + (ids ?ias + ids (lp_carried_rvs lp) + ids (lp_esc_rvs lp)) + defs B1"
      by (simp add: s' dB(2) l(1) ac_simps)
    have low: "i \<in># ids ?ias + ids (lp_carried_rvs lp) + ids (lp_esc_rvs lp) \<Longrightarrow> i < next_id st1" for i
      using fresh_ids_set [OF pd(1)] by simp
    have R: "reads (ForStmt h [] B []) = used ?es \<union> reads B" by simp
    have "excused (reads (ForStmt h [] B [])) (next_id st) (next_id st') (defs s') (unbound T S (map (SubstExpr (cur st)) ?es))"
      using unbound_SubstExpr [OF T ForStmt.prems(3), of _ ?es] unfolding R excused_def by blast
    moreover have "excused (reads (ForStmt h [] B [])) (next_id st) (next_id st') (defs s') (unbound T S (map snd (lp_args lp)))"
      by (rule excused_mono [OF loop_inits_excused [OF p T ForStmt.prems(3), of "{}"]])
        (use l(8,9) v fresh_ids_set [OF dB(1)] in \<open>fastforce simp: d\<close>)+
    moreover have "excused (reads (ForStmt h [] B [])) (next_id st) (next_id st') (defs s') (violations T ?S B1)"
      by (rule excused_mono [OF conjunct1 [OF B]]) (use l(4,8) v low in \<open>fastforce simp: d R\<close>)+
    moreover have "violations T S s' =
        unbound T S (map (SubstExpr (cur st)) ?es) \<union> unbound T S (map snd (lp_args lp)) \<union> violations T ?S B1"
      unfolding vB [symmetric] unbound_append [symmetric] by (simp add: s')
    moreover have "in_scope (S \<union> binds T s') (cur st')"
      unfolding l(2) by (rule in_scope_assigns [OF in_scope_mono [OF ForStmt.prems(3)]]) (auto simp: s' l(1))
    ultimately show "excused (reads (ForStmt h [] B [])) (next_id st) (next_id st') (defs s') (violations T S s') \<and>
      in_scope (S \<union> binds T s') (cur st')" by simp
  qed
next
  case (WhileStmt c ias B rvs)
  then have ias: "ias = []" "rvs = []" "plain B" by auto
  from WhileStmt.prems(1) show ?case unfolding ias
  proof (rule ConvertStmt_WhileE, unfold append.simps list.map)
    fix lp :: "'o LoopPrep" and st1 and st2 :: SSAConverter and B1 st4 B2 rvs2
    let ?ias = "map fst (lp_args lp)"
    let ?S = "S \<union> var_id ` set ?ias"
    assume p: "prepare_loop P [] [] B st = Inr (lp, st1)" and
      st2: "st2 = RegisterIterArgs (lp_carried lp @ lp_escaping lp) ?ias st1" and
      b: "ConvertStmt P B st2 = Inr (B1, st4)" and
      f: "finish_loop P (cur st) [] [] lp B1 st4 = Inr (B2, rvs2, st')" and
      s': "s' = WhileStmt (SubstExpr (cur st2) c) (lp_args lp) B2 rvs2"
    note pd = prepare_loopD [OF p]
    note l = loop_finish [OF p st2 le_refl b ias(3) ConvertStmt_keeps [OF P b ias(3)] f]
    have S2: "in_scope ?S (cur st2)"
      unfolding st2 using pd(2) by (intro in_scope_RegisterIterArgs) (auto intro: in_scope_mono [OF WhileStmt.prems(3)])
    note B = WhileStmt.IH [OF b ias(3) S2]
    have vB: "violations T ?S B2 = violations T ?S B1"
      by (rule loop_body_scopes [OF l(6) ConvertStmt_no_yield [OF b ias(3)] T conjunct2 [OF B] l(5)])
    have dB: "fresh_ids (next_id st1) (next_id st') (defs B1)" "defs B2 = defs B1"
      using ConvertStmt_defs [OF b] l(4) finish_loopD [OF f] by (auto simp: st2)
    have d: "defs s' = (ids ?ias + ids (lp_carried_rvs lp) + ids (lp_esc_rvs lp)) + defs B1"
      by (simp add: s' dB(2) l(1) ac_simps)
    have low: "i \<in># ids ?ias + ids (lp_carried_rvs lp) + ids (lp_esc_rvs lp) \<Longrightarrow> i < next_id st1" for i
      using fresh_ids_set [OF pd(1)] by simp
    have R: "reads (WhileStmt c [] B []) = used [c] \<union> reads B" by simp
    have "excused (reads (WhileStmt c [] B [])) (next_id st) (next_id st') (defs s') (unbound T ?S [SubstExpr (cur st2) c])"
      using unbound_SubstExpr [OF T S2, of _ "[c]"] by (auto simp: R excused_def)
    moreover have "excused (reads (WhileStmt c [] B [])) (next_id st) (next_id st') (defs s') (unbound T S (map snd (lp_args lp)))"
      by (rule excused_mono [OF loop_inits_excused [OF p T WhileStmt.prems(3), of "{}"]])
        (use l(8,9) fresh_ids_set [OF dB(1)] in \<open>fastforce simp: d\<close>)+
    moreover have "excused (reads (WhileStmt c [] B [])) (next_id st) (next_id st') (defs s') (violations T ?S B1)"
      by (rule excused_mono [OF conjunct1 [OF B]]) (use l(4,8) low in \<open>fastforce simp: d R st2\<close>)+
    moreover have "violations T S s' =
        unbound T S (map snd (lp_args lp)) \<union> unbound T ?S [SubstExpr (cur st2) c] \<union> violations T ?S B1"
      unfolding vB [symmetric] by (simp add: s')
    moreover have "in_scope (S \<union> binds T s') (cur st')"
      unfolding l(2) by (rule in_scope_assigns [OF in_scope_mono [OF WhileStmt.prems(3)]]) (auto simp: s' l(1))
    ultimately show "excused (reads (WhileStmt c [] B [])) (next_id st) (next_id st') (defs s') (violations T S s') \<and>
      in_scope (S \<union> binds T s') (cur st')" by simp
  qed
next
  case (ScopeStmt k n B)
  from ScopeStmt.prems(1) obtain N B' st1 where b: "ConvertStmt P B (st\<lparr>future_needs := N\<rparr>) = Inr (B', st1)"
    "cur st' = cur st1" "next_id st' = next_id st1" "s' = ScopeStmt k (map_option (SubstExpr (cur st)) n) B'"
    by (auto simp: Let_def)
  from ScopeStmt.IH [OF b(1), of S] ScopeStmt.prems(2,3)
  have B: "excused (reads B) (next_id st) (next_id st') (defs s') (violations T S B') \<and> in_scope (S \<union> binds T B') (cur st')"
    by (simp add: b)
  have "excused (reads (ScopeStmt k n B)) (next_id st) (next_id st') (defs s')
      (case map_option (SubstExpr (cur st)) n of None \<Rightarrow> {} | Some e \<Rightarrow> unbound T S [e])"
    using unbound_SubstExpr [OF T ScopeStmt.prems(3), of _ "[_]"] by (auto simp: excused_def split: option.split)
  moreover have "excused (reads (ScopeStmt k n B)) (next_id st) (next_id st') (defs s') (violations T S B')"
    by (rule excused_mono [OF conjunct1 [OF B]]) auto
  ultimately show ?case using B by (simp add: b(4))
qed auto

section \<open>Functions\<close>

lemma counted_defs_defs: "counted_defs s \<subseteq># defs s"
proof (induction s)
  case (SeqStmts ss)
  then have "sum_list (map counted_defs ss) \<subseteq># sum_list (map defs ss)"
    by (induction ss) (auto intro: subset_mset.add_mono)
  then show ?case by simp
next
  case (IfStmt c a b rvs)
  then show ?case by (cases b) (auto intro: subset_mset.add_mono simp: ac_simps)
next
  case (ForStmt h ias B rvs)
  have "ids rvs + counted_defs B \<subseteq># ids rvs + defs B" using ForStmt by simp
  then show ?case by (auto simp: ac_simps intro: subset_mset.order_trans)
next
  case (WhileStmt c ias B rvs)
  have "ids rvs + counted_defs B \<subseteq># ids rvs + defs B" using WhileStmt by simp
  then show ?case by (auto simp: ac_simps intro: subset_mset.order_trans)
qed auto

lemma ConvertFunction_reports:
  assumes "ConvertFunction P fresh func = Inr func'" "orders P" "plain (body func)" "static_shapes T"
    and "\<forall>i\<in>reads (body func). i < fresh" "d \<in> set (Verify T ts func')"
  shows "\<exists>x. d = (SCOPE_VIOLATION, Some x) \<and> var_id x \<notin># ids (params func') + defs (body func')"
proof -
  let ?st = "\<lparr>cur = [], ver = (\<lambda>_. 0), future_needs = {}, next_id = fresh\<rparr>"
  obtain vs st1 where vs: "ConvertParams P (params func) ?st = (vs, st1)" by fastforce
  with assms(1) obtain b st2 where b: "ConvertStmt P (body func) st1 = Inr (b, st2)" "func' = \<lparr>params = vs, body = b\<rparr>"
    by (auto simp: ConvertFunction_def)
  from ConvertParamsD [OF vs] have v: "fresh_ids fresh (next_id st1) (ids vs)" "cur st1 = assigns (params func) vs []" by auto
  have "in_scope (outermost T ts func') (cur st1)"
    unfolding v(2) by (rule in_scope_assigns) (auto simp: in_scope_def outermost_def b(2))
  from conjunct1 [OF ConvertStmt_scopes [OF assms(2,4) b(1) assms(3) this]]
  have e: "excused (reads (body func)) (next_id st1) (next_id st2) (defs b) (violations T (outermost T ts func') b)" .
  note d = ConvertStmt_defs [OF b(1)] and le = fresh_ids_le [OF v(1)]
  have "count (counted_defs b) (var_id x) \<le> 1" for x
    using fresh_ids_count [OF d] mset_subset_eq_count [OF counted_defs_defs] le_trans by blast
  then have "d \<in> errors T (outermost T ts func') b" using Verify_reports [OF assms(6)] by (auto simp: b(2) not_less [symmetric])
  then obtain x where x: "d = (SCOPE_VIOLATION, Some x)" "x \<in> violations T (outermost T ts func') b"
    using ConvertStmt_yield_errors [OF assms(2) b(1) assms(3)] by (auto simp: errors_def)
  have "i \<in># ids vs + defs b \<Longrightarrow> fresh \<le> i" for i
    using fresh_ids_set [OF v(1)] fresh_ids_set [OF d] le by fastforce
  moreover have "i \<in># ids vs \<Longrightarrow> i < next_id st1" for i using fresh_ids_set [OF v(1)] by simp
  ultimately have "var_id x \<notin># ids vs + defs b"
    using e x(2) assms(5) by (fastforce simp: excused_def)
  with x(1) show ?thesis by (simp add: b(2))
qed

text \<open>
  Claim C39. The verifier accepts the result of the conversion up to variables that nothing defines, where all shapes are
  static: no type has a variable in its shape, so that the verifier finds none there to check. For an input without break,
  continue, yield, iteration arguments and returned variables whose variables read are below the first fresh identity, in
  whatever order the sets of the pass are iterated, no variable of the result is assigned twice, every loop and branch
  ends in the yields it needs, and where a variable is read out of scope it is one that has no definition in the result
  at all, so it was read uninitialised in the input or is a start value the conversion made up. With shapes that
  have variables this fails: a phi has the type of the then branch, and a variable of its shape may be defined
  in that branch only.
\<close>

theorem ConvertFunction_accepted:
  assumes "ConvertFunction P fresh func = Inr func'" and "orders P" and "plain (body func)" and "static_shapes T"
    and "reads (body func) \<subseteq> {..<fresh}"
  shows "set (Verify T ts func') \<subseteq>
    {(SCOPE_VIOLATION, Some x) |x. var_id x \<notin># ids (params func') + defs (body func')}"
  using ConvertFunction_reports [OF assms(1-4)] assms(5) by blast

section \<open>A start value that is made up\<close>

text \<open>
  The loop, which surely runs, is the first to assign \<open>a\<close>, and there is no variable of its type before it. The
  conversion carries \<open>a\<close> through the loop and makes up a start value, which the verifier rejects.
\<close>

definition first_in_loop :: "unit Function" where
  "first_in_loop =
     (let a = \<lparr>var_id = 0, name_hint = ''a'', var_type = 0\<rparr>; i = \<lparr>var_id = 1, name_hint = ''i'', var_type = 0\<rparr> in
      \<lparr>params = [],
       body = SeqStmts
         [ForStmt \<lparr>for_kind = Sequential, hardware_loop_policy = Auto, loop_var = i, for_start = ConstInt 0,
            for_stop = ConstInt 2, for_step = ConstInt 1\<rparr> [] (AssignStmt a (EVar i)) [],
          ReturnStmt [EVar a]]\<rparr>)"

definition first_in_loop_ssa :: "unit Function" where
  "first_in_loop_ssa =
     (let v = (\<lambda>n i. \<lparr>var_id = i, name_hint = n, var_type = 0\<rparr>) in
      \<lparr>params = [],
       body = SeqStmts
         [ForStmt \<lparr>for_kind = Sequential, hardware_loop_policy = Auto, loop_var = v ''i'' 5, for_start = ConstInt 0,
            for_stop = ConstInt 2, for_step = ConstInt 1\<rparr> [(v ''a'' 3, EVar (v ''a'' 2))]
            (SeqStmts [AssignStmt (v ''a'' 6) (EVar (v ''i'' 5)), YieldStmt [EVar (v ''a'' 6)]]) [v ''a'' 4],
          ReturnStmt [EVar (v ''a'' 4)]]\<rparr>)"

definition no_type_vars :: TypeVars where
  "no_type_vars = \<lparr>shape_vars = (\<lambda>_. []), CollectTypeVars = (\<lambda>_. [])\<rparr>"

lemma first_in_loop_converts: "ConvertFunction plain_params 2 first_in_loop = Inr first_in_loop_ssa"
  by (simp add: ssa_compute first_in_loop_def first_in_loop_ssa_def cong: res_bind_weak_cong let_weak_cong del: res_bind_eq_Inr)

lemma made_up_start_rejected:
  "init (body first_in_loop) (var_id ` set (params first_in_loop)) {} \<noteq> None \<and>
   Verify no_type_vars [] first_in_loop_ssa =
     [(SCOPE_VIOLATION, Some \<lparr>var_id = 2, name_hint = ''a'', var_type = 0\<rparr>)]"
  by code_simp

lemma ConvertFunction_accepted_witness:
  "set (Verify no_type_vars [] first_in_loop_ssa) \<subseteq>
    {(SCOPE_VIOLATION, Some x) |x. var_id x \<notin># ids (params first_in_loop_ssa) + defs (body first_in_loop_ssa)}"
proof (rule ConvertFunction_accepted [OF first_in_loop_converts])
  show "orders plain_params" by (simp add: orders_def plain_params_def)
  show "plain (body first_in_loop)" "reads (body first_in_loop) \<subseteq> {..<2}" by (auto simp: first_in_loop_def Let_def used_def)
  show "static_shapes no_type_vars" by (simp add: static_shapes_def no_type_vars_def)
qed

end
