(* ===== verification/Spec2Isabelle.thy ===== *)
theory Spec2Isabelle
  imports Const_Int_Bound Modular_Set Transitive_Scopes Int_Set Canonical_Simplify Analyzer_Sound Dsa_Solver Tile_Best Unroll_Loops Ssa_Exec Ssa_Safety Ssa_Accepted
begin

text \<open>
  A verification library for PyPTO, a compiler from tensor programs to kernels of an AI accelerator. It
  covers four parts of the C++ core and how they rest on each other:

  \<^item> the arithmetic module (\<^verbatim>\<open>src/ir/arith\<close>, \<^verbatim>\<open>include/pypto/ir/arith\<close>): scalar expressions, constant folding, five
    analyses of integer expressions and the facade \<open>Analyzer\<close> that combines them. The passes call it to
    simplify index expressions and to prove bounds.
  \<^item> the storage allocation solver (\<^verbatim>\<open>src/ir/transforms/dsa\<close>), which places buffers in memory pools.
  \<^item> the L0 tile chooser (\<^verbatim>\<open>src/ir/transforms/utils/l0_tile_chooser.cpp\<close>), which picks the tile shape of a
    matrix product.
  \<^item> the statement IR with the first passes of the pipeline: the jump verifiers, loop unrolling and the
    conversion to SSA form with its verifier (\<^verbatim>\<open>src/ir/verifier\<close>, \<^verbatim>\<open>src/ir/transforms\<close>).

  \<^bold>\<open>Conventions.\<close> \<open>Arith_Prelude\<close> holds what all theories share: \<open>res\<close>, in which each C++ exception, failed
  check and signed overflow is a value (\<open>ValueError\<close>, \<open>InternalError\<close>, \<open>OutOfRange\<close>, \<open>UndefinedBehavior\<close> and others),
  64-bit ranges and C division. Machine integers are \<open>int\<close> or \<open>nat\<close> with range checks or wrap-around written out.
  A class with mutable members is a record that its operations take and return; \<open>double\<close> is a parameter.

  \<^bold>\<open>Data and folding.\<close> \<open>DType\<close> models \<^verbatim>\<open>dtype.h\<close>; \<open>Expr\<close> the nodes and constructors of \<^verbatim>\<open>scalar_expr.h\<close> with their
  meaning \<open>eval\<close> over the integers, in which what a conversion gives is a parameter; \<open>Int_Operator\<close> the overflow-aware helpers of \<^verbatim>\<open>int_operator.h\<close>; \<open>Const_Fold\<close> the folds of
  \<^verbatim>\<open>const_fold.h\<close>, shown to keep values and to fail exactly where \<open>fold_error\<close> and
  \<open>throws\<close> say.

  \<^bold>\<open>Conversions.\<close> A conversion to a narrower type wraps, and the simplifiers and symbolic bounds build expressions
  that contain conversions. Two readings keep this apart: \<open>mathematical \<rho>\<close> is the environment \<open>\<rho>\<close> with conversions that
  change nothing, and \<open>lossless \<rho> e\<close> says that no conversion that \<open>e\<close> meets under \<open>\<rho>\<close> loses its operand, in which case the
  two readings of \<open>e\<close> agree. Congruences, the simplifiers and the facade are sound for the expressions that are \<open>lossless\<close>,
  with conversions that may wrap elsewhere. The intervals are sound also where a conversion of the expression
  wraps, since the code widens there: \<open>casts_bounded\<close> (\<open>Const_Int_Bound\<close>) asks only that a result is of its type and the
  operand where that fits, \<open>converts\<close> and \<open>operands_fit\<close> (\<open>Int_Set\<close>) that values of the target type are kept and operands
  are of their own type.

  \<^bold>\<open>The analyses.\<close> Each has its state, its visitor, its updates and its constraint scopes with recovery.
  \<open>Const_Int_Bound\<close> (intervals), \<open>Modular_Set\<close> (congruences), \<open>Transitive_Comparison\<close> with \<open>Transitive_Scopes\<close>
  (a search over facts \<open>x <= y + c\<close>), \<open>Int_Set\<close> (symbolic intervals), \<open>Pattern_Match\<close>, \<open>Rewrite_Rules\<close> and
  \<open>Rewrite_Simplify\<close> (the pattern language, the rules as data, the rewriter) and \<open>Canonical_Simplify\<close> (sums of
  products) are each sound: what the visitor answers is true of every environment that the state describes,
  for expressions within the ranges the theorems name. \<open>Query_Order\<close> orders the answers of a parent that may fail;
  \<open>Scoped_Analysis\<close> is the contract (locales) of an analysis with scopes, interpreted by the analyses.
  \<open>Analyzer\<close> and \<open>Analyzer_Sound\<close> compose them the way \<^verbatim>\<open>analyzer.cpp\<close> does: what \<open>CanProve\<close> proves holds, binding
  and entering constraints keep the state true, and leaving a scope restores the answers. The rewriter
  recurses to the depth the code allows. The transitive search ends, by a measure on the offsets, for every set of
  facts and fails only when an offset overflows; \<open>contradiction_search_diverges\<close> has the public \<open>TryCompare\<close> run for
  2 to the 63 iterations where the facts contradict each other and an operand is a key left by a closed scope.

  \<^bold>\<open>The solver.\<close> \<open>Dsa_Problem\<close> has problems, validation, objective and the relaxation; \<open>Dsa_Solver\<close> the search space,
  the greedy placement, first fit and \<open>Solve\<close>. Validation is exact, the sweep over candidate offsets finds the
  best of all offsets, the placements refine an abstract greedy algorithm, and what \<open>Solve\<close> returns is valid. Relaxing
  separations changes the cost of a placement by exactly the weights of the relaxed pairs that share an address.

  \<^bold>\<open>The tile chooser.\<close> \<open>Tile_Chooser\<close> has the configuration, the cost model and the search, \<open>Tile_Legal\<close> the legal tiles
  stated directly, \<open>Tile_Best\<close> that the search is right: the tile fits, none is better, one is found if there is one.

  \<^bold>\<open>Statements and passes.\<close> \<open>Stmt_IR\<close> has variables (objects with an identity), statements, loop heads, scopes and
  functions of \<^verbatim>\<open>stmt.h\<close>, \<^verbatim>\<open>expr.h\<close> and \<^verbatim>\<open>function.h\<close>, and \<open>exec\<close>, which runs them: \<open>for\<close> bounds are evaluated once, a
  variable keeps its value after the body it is assigned in, a yield hands values to the enclosing loop or
  branch. What a call means is a parameter, so the theorems hold for every meaning. Only \<open>while\<close> loops take fuel,
  the same number of iterations before and after a pass, so that equal runs are equal for every amount.
  \<open>Stmt_Checks\<close> models the two verifiers of jumps, \<open>Unroll_Loops\<close> the unrolling pass with the copies it makes:
  the function runs the same and no unrolled loop is left. \<open>Ssa_Convert\<close> models \<^verbatim>\<open>convert_to_ssa_pass.cpp\<close>
  (\<open>SSAConverter\<close> is its state: current versions, version counters, later needs, next identity; the conversion of a
  statement is \<open>ConvertStmt\<close>) and shows that its result defines every variable once. \<open>Ssa_Static\<close>, \<open>Ssa_Sim\<close> and
  \<open>Ssa_Exec\<close> show that it runs like the input, for inputs of the front end that initialise what they read: once with the
  initialisation as the live-in analysis of the pass sees it (\<open>init\<close>), once by definite assignment on every path
  (\<open>definite\<close>), in which the pass has no part. Two inputs outside that class that the pass miscompiles are worked out at the end.
  \<open>Ssa_Verify\<close> models \<^verbatim>\<open>verify_ssa_pass.cpp\<close> (\<open>SSAVerifier\<close> is its state: diagnostics, assignment counts, the table of
  scope levels and the stack of changes to it) and shows what each kind of diagnostic means by the structure of the
  statements (scopes, definitions, \<open>ends_in_yield\<close>, \<open>misyielding\<close>);
  \<open>Ssa_Safety\<close> that an accepted function never reads a variable without a value, and \<open>Ssa_Accepted\<close> that the result of
  the conversion is accepted up to variables without a definition, with an input for which there is one.

  \<^bold>\<open>Not modelled.\<close>
  \<^item> In the arithmetic module: that \<open>sum_cache_\<close> may meet a reused address, the depth counter after an exception,
    rewrite counters, the state of an analysis after an operation has thrown. Structural comparison of calls and
    attributes is a parameter. Pointer equality is a predicate on nodes, so two occurrences of equal nodes are one object.
  \<^item> In the solver and the tile chooser: the random generator with \<^verbatim>\<open>std::shuffle\<close>, \<open>double\<close> arithmetic, the decimal
    defaults of the cost model and the wording of messages. That the search is right is shown for extents up to
    2 to the 30 (\<open>bounded_config\<close>).
  \<^item> In the statement IR: spans, comments, attributes, inline code; expressions beyond those the passes look into
    are calls. Types are identities, and what the conversion to SSA form does with a type is a parameter, as are
    the names it builds and the order of unordered containers: a changed type is the same identity each time, where
    the code makes a new object, and copies of loops keep their iteration arguments. Of a malformed loop with more
    returned variables than iteration arguments the surplus ones are not registered. Its last step, which narrows accumulators, and the
    skipping of sub-workers are left out.
  \<^item> The other passes, type inference of operators, code generation, backends, serialization and bindings: they rest
    on tensor and tile types, on the operator registry or on external toolchains.
\<close>

end
